(* ===== verification/Prelude.thy ===== *)
theory Prelude imports Main "HOL-Library.Word" begin

text \<open>
  What every component theory shares: the result codes of \<^verbatim>\<open>comms/utils/commSpecs.h\<close>, the
  machine types, the collections of simplification rules the component proofs are run with, and
  the generic lemmas about lists that no library theory states.
\<close>

section \<open>Rule collections\<close>

named_theorems step_defs \<open>unfoldings of the operations of a component\<close>
named_theorems inv_intros \<open>introduction rules for the component invariants\<close>
named_theorems frame_simps \<open>what an operation leaves unchanged\<close>

section \<open>Machine types\<close>

type_synonym u64 = "64 word"
type_synonym u32 = "32 word"

text \<open>A \<^verbatim>\<open>void*\<close> or a pointer to an object, compared by identity only.\<close>

type_synonym ptr = nat

section \<open>Result codes\<close>

datatype commResult =
    commSuccess
  | commUnhandledCudaError
  | commSystemError
  | commInternalError
  | commInvalidArgument
  | commInvalidUsage
  | commRemoteError
  | commInProgress
  | commNumResults

text \<open>Does the range that starts at \<open>a\<close> with \<open>l\<close> bytes stay inside the address space?\<close>

definition no_wrap :: "u64 \<Rightarrow> u64 \<Rightarrow> bool" where
  "no_wrap a l \<longleftrightarrow> unat a + unat l < 2 ^ 64"

lemma unat_add_no_wrap: "no_wrap a l \<Longrightarrow> unat (a + l) = unat a + unat l"
  by (simp add: no_wrap_def unat_word_ariths)

lemma no_wrap_ge: "no_wrap a l \<Longrightarrow> a \<le> a + l"
  by (simp add: word_le_nat_alt unat_add_no_wrap)

lemma no_wrap_zero [simp]: "no_wrap a 0"
  using unsigned_less [of a] by (simp add: no_wrap_def)

lemmas word_nat_order = word_le_nat_alt word_less_nat_alt

section \<open>Rounding and byte ranges\<close>

text \<open>\<^verbatim>\<open>ctran::utils::roundUp\<close>: unsigned 64-bit arithmetic, so the sum may wrap.\<close>

definition roundUp :: "u64 \<Rightarrow> u64 \<Rightarrow> u64" where
  "roundUp a b = ((a + b - 1) div b) * b"

lemma unat_div_mult: "unat ((x div b) * b :: u64) = (unat x div unat b) * unat b"
proof -
  have "(unat x div unat b) * unat b \<le> unat x" by (simp add: div_times_less_eq_dividend)
  also have "\<dots> < 2 ^ 64" using unsigned_less [of x] by simp
  finally have "unat (x div b) * unat b < 2 ^ LENGTH(64)" by (simp add: unat_div)
  then show ?thesis unfolding unat_mult_lem by (simp add: unat_div)
qed

lemma roundUp_dvd: "unat b dvd unat (roundUp a b)"
  unfolding roundUp_def unat_div_mult by simp

lemma unat_roundUp:
  assumes "unat a + unat b \<le> 2 ^ 64" "b \<noteq> 0"
  shows "unat (roundUp a b) = ((unat a + unat b - 1) div unat b) * unat b"
proof -
  have b: "1 \<le> unat b" using assms(2) by (simp add: Suc_le_eq unat_gt_0)
  have "unat (b - 1) = unat b - 1" using assms(2) by (simp add: unat_minus_one)
  then have "unat (a + (b - 1)) = unat a + (unat b - 1)"
    using assms(1) b by (subst unat_add_lem [THEN iffD1]) auto
  then have "unat (a + b - 1) = unat a + unat b - 1" using b by (simp add: algebra_simps)
  then show ?thesis unfolding roundUp_def unat_div_mult by simp
qed

lemma roundUp_ge:
  assumes "unat a + unat b \<le> 2 ^ 64" "b \<noteq> 0"
  shows "a \<le> roundUp a b" "unat (roundUp a b) < unat a + unat b"
proof -
  have b: "1 \<le> unat b" using assms(2) by (simp add: Suc_le_eq unat_gt_0)
  let ?x = "unat a + unat b - 1"
  have "?x = ?x div unat b * unat b + ?x mod unat b" by simp
  moreover have "?x mod unat b < unat b" using b by simp
  ultimately have "unat a \<le> ?x div unat b * unat b" "?x div unat b * unat b < unat a + unat b"
    using b by linarith+
  then show "a \<le> roundUp a b" "unat (roundUp a b) < unat a + unat b"
    unfolding word_le_nat_alt unat_roundUp [OF assms] by auto
qed

text \<open>The bytes of a block that starts at \<open>p\<close> and has \<open>n\<close> bytes.\<close>

definition bytes :: "u64 \<times> u64 \<Rightarrow> nat set" where
  "bytes b = {unat (fst b)..<unat (fst b) + unat (snd b)}"

lemma bytes_zero [simp]: "bytes (p, 0) = {}"
  by (simp add: bytes_def)

section \<open>Lists\<close>

lemma sorted_wrt_remove_mid:
  "sorted_wrt P (xs @ y # zs) \<Longrightarrow> sorted_wrt P (xs @ zs)"
  by (simp add: sorted_wrt_append)

lemma find_Some_iff_mem:
  "find P xs = Some x \<Longrightarrow> x \<in> set xs \<and> P x"
  by (auto simp: find_Some_iff)

lemma find_is_None: "find P xs = None \<longleftrightarrow> (\<forall>x \<in> set xs. \<not> P x)"
  by (auto simp: find_None_iff)

lemma distinct_map_filter_eq:
  "distinct (map f xs) \<Longrightarrow> x \<in> set xs \<Longrightarrow> filter (\<lambda>y. f y = f x) xs = [x]"
proof (induction xs)
  case Nil
  then show ?case by simp
next
  case (Cons a xs)
  show ?case
  proof (cases "x = a")
    case True
    with Cons.prems show ?thesis by (simp add: filter_empty_conv) (metis image_eqI)
  next
    case False
    with Cons show ?thesis by (auto simp: image_iff)
  qed
qed

lemma distinct_map_eq:
  "distinct (map f xs) \<Longrightarrow> x \<in> set xs \<Longrightarrow> y \<in> set xs \<Longrightarrow> f x = f y \<Longrightarrow> x = y"
  by (auto simp: distinct_map inj_on_def)

section \<open>Errors as values\<close>

text \<open>Sequencing of computations that may fail with an error on the left.\<close>

definition rbind :: "'e + 'a \<Rightarrow> ('a \<Rightarrow> 'e + 'b) \<Rightarrow> 'e + 'b" where
  "rbind r f = (case r of Inl e \<Rightarrow> Inl e | Inr x \<Rightarrow> f x)"

lemma rbind_simps [simp]: "rbind (Inr x) f = f x" "rbind (Inl e) f = Inl e"
  by (simp_all add: rbind_def)

lemma rbind_Inr_iff: "rbind r f = Inr y \<longleftrightarrow> (\<exists>x. r = Inr x \<and> f x = Inr y)"
  by (cases r) simp_all

text \<open>\<^verbatim>\<open>std::vector::at\<close> with a signed index; the error is \<^verbatim>\<open>std::out_of_range\<close>.\<close>

definition vec_at :: "'e \<Rightarrow> 'a list \<Rightarrow> int \<Rightarrow> 'e + 'a" where
  "vec_at oor xs i = (if 0 \<le> i \<and> nat i < length xs then Inr (xs ! nat i) else Inl oor)"

lemma vec_at_int [simp]: "vec_at oor xs (int i) = (if i < length xs then Inr (xs ! i) else Inl oor)"
  by (simp add: vec_at_def)

section \<open>Strings\<close>

text \<open>\<^verbatim>\<open>folly::split\<close> by one character: empty tokens are kept.\<close>

fun split_on :: "char \<Rightarrow> string \<Rightarrow> string list" where
  "split_on c [] = [[]]"
| "split_on c (x # xs) =
     (if x = c then [] # split_on c xs else (case split_on c xs of [] \<Rightarrow> [[x]] | t # ts \<Rightarrow> (x # t) # ts))"

lemma split_on_not_Nil [simp]: "split_on c s \<noteq> []"
  by (induction s) (auto split: list.split)

lemma split_on_none [simp]: "c \<notin> set s \<Longrightarrow> split_on c s = [s]"
  by (induction s) auto

lemma split_on_append [simp]: "c \<notin> set s \<Longrightarrow> split_on c (s @ c # t) = s # split_on c t"
  by (induction s) auto

text \<open>\<^verbatim>\<open>std::to_string\<close> of an integer.\<close>

definition digit :: "nat \<Rightarrow> char" where "digit n = char_of (48 + n)"

fun show_nat :: "nat \<Rightarrow> string" where
  "show_nat n = (if n < 10 then [digit n] else show_nat (n div 10) @ [digit (n mod 10)])"

declare show_nat.simps [simp del]

definition show_int :: "int \<Rightarrow> string" where
  "show_int i = (if i < 0 then CHR ''-'' # show_nat (nat (- i)) else show_nat (nat i))"

definition read_nat :: "string \<Rightarrow> nat" where
  "read_nat s = foldl (\<lambda>n c. 10 * n + (of_char c - 48)) 0 s"

lemma of_char_digit: "n < 10 \<Longrightarrow> of_char (digit n) = 48 + n"
  by (simp add: digit_def of_char_of)

text \<open>The classes of characters in the "C" locale.\<close>

definition is_digit :: "char \<Rightarrow> bool" where "is_digit c \<longleftrightarrow> 48 \<le> (of_char c :: nat) \<and> (of_char c :: nat) \<le> 57"

definition is_space :: "char \<Rightarrow> bool" where
  "is_space c \<longleftrightarrow> (of_char c :: nat) = 32 \<or> 9 \<le> (of_char c :: nat) \<and> (of_char c :: nat) \<le> 13"

text \<open>What \<^verbatim>\<open>std::stoi\<close> and \<^verbatim>\<open>std::stoul\<close> read: white space, a sign, the digits that follow. \<open>None\<close> is an exception.\<close>

definition num_prefix :: "string \<Rightarrow> (bool \<times> nat) option" where
  "num_prefix s =
     (let t = dropWhile is_space s;
          neg = (t \<noteq> [] \<and> hd t = CHR ''-'');
          d = takeWhile is_digit (if t \<noteq> [] \<and> (hd t = CHR ''-'' \<or> hd t = CHR ''+'') then tl t else t)
      in if d = [] then None else Some (neg, read_nat d))"

definition stoi :: "string \<Rightarrow> int option" where
  "stoi s = (case num_prefix s of
     None \<Rightarrow> None
   | Some (neg, n) \<Rightarrow> (let i = (if neg then - int n else int n) in if i < - (2 ^ 31) \<or> 2 ^ 31 \<le> i then None else Some i))"

definition stoul :: "string \<Rightarrow> u64 option" where
  "stoul s = (case num_prefix s of
     None \<Rightarrow> None
   | Some (neg, n) \<Rightarrow> if 2 ^ 64 \<le> n then None else Some (if neg then - of_nat n else of_nat n))"

lemma read_show_nat [simp]: "read_nat (show_nat n) = n"
proof (induction n rule: show_nat.induct)
  case (1 n)
  then show ?case by (subst show_nat.simps) (simp add: read_nat_def of_char_digit)
qed

lemma show_nat_inj [simp]: "show_nat m = show_nat n \<longleftrightarrow> m = n"
  by (metis read_show_nat)

lemma those_nth: "those (map f xs) = Some ys \<Longrightarrow> length ys = length xs \<and> (\<forall>i < length xs. f (xs ! i) = Some (ys ! i))"
proof (induction xs arbitrary: ys)
  case (Cons x xs)
  then obtain y zs where z: "f x = Some y" "those (map f xs) = Some zs" "ys = y # zs" by (auto split: option.splits)
  show ?case using Cons.IH [OF z(2)] z(1,3) by (simp add: nth_Cons split: nat.split)
qed simp

end
