(* ===== verification/Addr_Tree.thy ===== *)
theory Addr_Tree imports Prelude "HOL-Library.Multiset" begin

text \<open>
  The balanced tree of address ranges of \<^verbatim>\<open>comms/ctran/utils/CtranAvlTreeElem.cc\<close>.
  A \<^verbatim>\<open>TreeElem*\<close> is a value of type \<open>tree\<close>: the object it points to owns its two
  children, so the heap under a root is the term itself, and \<^verbatim>\<open>nullptr\<close> is \<open>Null\<close>.
  The identity of an object, which the code hands out as a handle, is the field \<open>hdl\<close>; where
  the code runs \<^verbatim>\<open>new\<close>, the address it gets is an argument. Addresses and lengths
  are 64-bit words, so \<open>addr + len\<close> wraps as it does in the code.
\<close>

section \<open>Data\<close>

record elem =
  hdl :: ptr
  addr :: u64
  len :: u64
  val :: ptr

datatype tree = Null | Node elem nat tree tree

fun height_of :: "tree \<Rightarrow> nat" where
  "height_of Null = 0"
| "height_of (Node e h l r) = h"

fun inorder :: "tree \<Rightarrow> elem list" where
  "inorder Null = []"
| "inorder (Node e h l r) = inorder l @ e # inorder r"

section \<open>Heights and rotations\<close>

fun updateHeight :: "tree \<Rightarrow> tree" where
  "updateHeight Null = Null"
| "updateHeight (Node e h l r) = Node e (max (height_of l) (height_of r) + 1) l r"

text \<open>Both rotations return \<^verbatim>\<open>nullptr\<close> when the child they would lift is missing.\<close>

fun leftRotate :: "tree \<Rightarrow> tree" where
  "leftRotate (Node e h l (Node re rh rl rr)) =
     updateHeight (Node re rh (updateHeight (Node e h l rl)) rr)"
| "leftRotate t = Null"

fun rightRotate :: "tree \<Rightarrow> tree" where
  "rightRotate (Node e h (Node le lh ll lr) r) =
     updateHeight (Node le lh ll (updateHeight (Node e h lr r)))"
| "rightRotate t = Null"

fun left_of :: "tree \<Rightarrow> tree" where
  "left_of Null = Null"
| "left_of (Node e h l r) = l"

fun right_of :: "tree \<Rightarrow> tree" where
  "right_of Null = Null"
| "right_of (Node e h l r) = r"

fun balance :: "tree \<Rightarrow> tree" where
  "balance Null = Null"
| "balance (Node e h l r) =
     (if height_of l > height_of r + 1 then
        (if height_of (left_of l) > height_of (right_of l) then rightRotate (Node e h l r)
         else rightRotate (Node e h (leftRotate l) r))
      else if height_of r > height_of l + 1 then
        (if height_of (right_of r) > height_of (left_of r) then leftRotate (Node e h l r)
         else leftRotate (Node e h l (rightRotate r)))
      else Node e h l r)"

section \<open>Insertion\<close>

text \<open>The test of \<^verbatim>\<open>insert\<close> for a range that overlaps the one of this node.\<close>

definition overlaps :: "elem \<Rightarrow> elem \<Rightarrow> bool" where
  "overlaps x n \<longleftrightarrow>
     (addr x \<ge> addr n \<and> addr x < addr n + len n) \<or> (addr x \<le> addr n \<and> addr x + len x > addr n)"

text \<open>
  \<open>n\<close> is the object \<^verbatim>\<open>new TreeElem(addr, len, val)\<close> would make. The first equation
  is never used by the code, which calls the method on an object.
\<close>

fun insert_elem :: "elem \<Rightarrow> tree \<Rightarrow> tree \<times> ptr option" where
  "insert_elem n Null = (Null, None)"
| "insert_elem n (Node x h l r) =
     (if overlaps x n then (Node x h l r, None)
      else if addr x > addr n then
        (let (l', res) = (case l of Null \<Rightarrow> (Node n 1 Null Null, Some (hdl n))
                          | Node _ _ _ _ \<Rightarrow> insert_elem n l)
         in (balance (updateHeight (Node x h (updateHeight l') r)), res))
      else if addr x < addr n then
        (let (r', res) = (case r of Null \<Rightarrow> (Node n 1 Null Null, Some (hdl n))
                          | Node _ _ _ _ \<Rightarrow> insert_elem n r)
         in (balance (updateHeight (Node x h l (updateHeight r'))), res))
      else (Node x h l r, None))"

section \<open>Removal\<close>

text \<open>
  The two loops of \<^verbatim>\<open>removeSelf\<close>: walk to the right-most (left-most) node of a subtree,
  replace it by its own \<^verbatim>\<open>removeSelf\<close>, and update the heights of the path bottom up.
  The node found has no right (left) child, so its \<^verbatim>\<open>removeSelf\<close> is its other child with
  the height updated.
\<close>

fun take_rightmost :: "tree \<Rightarrow> elem option \<times> tree" where
  "take_rightmost Null = (None, Null)"
| "take_rightmost (Node e h l r) =
     (case r of Null \<Rightarrow> (Some e, updateHeight l)
      | Node _ _ _ _ \<Rightarrow> (let (m, r') = take_rightmost r in (m, updateHeight (Node e h l r'))))"

fun take_leftmost :: "tree \<Rightarrow> elem option \<times> tree" where
  "take_leftmost Null = (None, Null)"
| "take_leftmost (Node e h l r) =
     (case l of Null \<Rightarrow> (Some e, updateHeight r)
      | Node _ _ _ _ \<Rightarrow> (let (m, l') = take_leftmost l in (m, updateHeight (Node e h l' r))))"

fun removeSelf :: "tree \<Rightarrow> tree" where
  "removeSelf Null = Null"
| "removeSelf (Node e h l r) =
     (case l of Null \<Rightarrow> (case r of Null \<Rightarrow> Null | Node _ _ _ _ \<Rightarrow> updateHeight r)
      | Node le lh ll lr \<Rightarrow>
         (case r of Null \<Rightarrow> updateHeight l
          | Node re rh rl rr \<Rightarrow>
             if lh \<ge> rh then
               (case lr of Null \<Rightarrow> updateHeight (Node le lh ll r)
                | Node _ _ _ _ \<Rightarrow>
                   (case take_rightmost l of (None, l') \<Rightarrow> Null
                    | (Some m, l') \<Rightarrow> updateHeight (Node m 0 l' r)))
             else
               (case rl of Null \<Rightarrow> updateHeight (Node re rh l rr)
                | Node _ _ _ _ \<Rightarrow>
                   (case take_leftmost r of (None, r') \<Rightarrow> Null
                    | (Some m, r') \<Rightarrow> updateHeight (Node m 0 l r')))))"

text \<open>The comparison of a \<^verbatim>\<open>TreeElem*\<close> with the pointer \<open>e\<close>.\<close>

fun is_obj :: "elem \<Rightarrow> tree \<Rightarrow> bool" where
  "is_obj e Null = False"
| "is_obj e (Node x h l r) = (hdl x = hdl e)"

fun remove_below :: "elem \<Rightarrow> tree \<Rightarrow> tree \<times> bool" where
  "remove_below e Null = (Null, False)"
| "remove_below e (Node x h l r) =
     (if is_obj e l then (updateHeight (Node x h (removeSelf l) r), True)
      else if is_obj e r then (updateHeight (Node x h l (removeSelf r)), True)
      else if addr x < addr e then
        (let (r', removed) = remove_below e r
         in (if removed then updateHeight (Node x h l r') else Node x h l r', removed))
      else
        (let (l', removed) = remove_below e l
         in (if removed then updateHeight (Node x h l' r) else Node x h l' r, removed)))"

definition remove_elem :: "elem \<Rightarrow> tree \<Rightarrow> tree \<times> bool" where
  "remove_elem e t = (if is_obj e t then (removeSelf t, True) else remove_below e t)"

section \<open>Breadth-first walks\<close>

text \<open>
  \<^verbatim>\<open>size\<close>, \<^verbatim>\<open>isBalanced\<close> and \<^verbatim>\<open>validateHeight\<close> walk the tree with a
  queue of pending nodes. \<open>children\<close> lists what one round pushes on the queue.
\<close>

fun children :: "tree \<Rightarrow> tree list" where
  "children Null = []"
| "children (Node e h l r) =
     (case l of Null \<Rightarrow> [] | Node _ _ _ _ \<Rightarrow> [l]) @ (case r of Null \<Rightarrow> [] | Node _ _ _ _ \<Rightarrow> [r])"

lemma size_children: "sum_list (map size (children t)) + length (children t) < 2 * size t + 1"
  by (cases t) (auto split: tree.split)

function size_loop :: "tree list \<Rightarrow> nat \<Rightarrow> nat" where
  "size_loop [] n = n"
| "size_loop (Null # q) n = size_loop q n"
| "size_loop (Node e h l r # q) n = size_loop (q @ children (Node e h l r)) (n + 1)"
  by pat_completeness auto
termination
  by (relation "measure (\<lambda>(q, n). 2 * sum_list (map size q) + length q)") (auto split: tree.split)

definition tree_size :: "tree \<Rightarrow> nat" where
  "tree_size t = size_loop [t] 0"

function balanced_loop :: "tree list \<Rightarrow> bool" where
  "balanced_loop [] = True"
| "balanced_loop (Null # q) = balanced_loop q"
| "balanced_loop (Node e h l r # q) =
     (if \<bar>int (height_of l) - int (height_of r)\<bar> \<le> 1
      then balanced_loop (q @ children (Node e h l r)) else False)"
  by pat_completeness auto
termination
  by (relation "measure (\<lambda>q. 2 * sum_list (map size q) + length q)") (auto split: tree.split)

definition tree_isBalanced :: "tree \<Rightarrow> bool" where
  "tree_isBalanced t = balanced_loop [t]"

function height_loop :: "tree list \<Rightarrow> bool" where
  "height_loop [] = True"
| "height_loop (Null # q) = height_loop q"
| "height_loop (Node e h l r # q) =
     (if h = max (height_of l) (height_of r) + 1
      then height_loop (q @ children (Node e h l r)) else False)"
  by pat_completeness auto
termination
  by (relation "measure (\<lambda>q. 2 * sum_list (map size q) + length q)") (auto split: tree.split)

definition tree_validateHeight :: "tree \<Rightarrow> bool" where
  "tree_validateHeight t = height_loop [t]"

text \<open>The same three questions asked by recursion on the tree.\<close>

fun heights_ok :: "tree \<Rightarrow> bool" where
  "heights_ok Null = True"
| "heights_ok (Node e h l r) =
     (h = max (height_of l) (height_of r) + 1 \<and> heights_ok l \<and> heights_ok r)"

fun balanced :: "tree \<Rightarrow> bool" where
  "balanced Null = True"
| "balanced (Node e h l r) =
     (height_of l \<le> height_of r + 1 \<and> height_of r \<le> height_of l + 1 \<and> balanced l \<and> balanced r)"

lemma children_props:
  "(\<forall>t \<in> set (children (Node e h l r)). heights_ok t) \<longleftrightarrow> heights_ok l \<and> heights_ok r"
  "(\<forall>t \<in> set (children (Node e h l r)). balanced t) \<longleftrightarrow> balanced l \<and> balanced r"
  "sum_list (map (length \<circ> inorder) (children (Node e h l r))) = length (inorder l) + length (inorder r)"
  by (cases l; cases r; simp)+

lemma size_loop_eq: "size_loop q n = n + sum_list (map (length \<circ> inorder) q)"
  by (induction q n rule: size_loop.induct) (simp_all del: children.simps add: children_props [unfolded comp_def])

lemma height_loop_eq: "height_loop q \<longleftrightarrow> (\<forall>t \<in> set q. heights_ok t)"
  by (induction q rule: height_loop.induct)
     (simp_all del: children.simps add: ball_Un children_props, blast)

lemma balanced_loop_eq: "balanced_loop q \<longleftrightarrow> (\<forall>t \<in> set q. balanced t)"
  by (induction q rule: balanced_loop.induct)
     (simp_all del: children.simps add: ball_Un children_props, linarith)

lemma tree_size_inorder: "tree_size t = length (inorder t)"
  by (simp add: tree_size_def size_loop_eq)

lemma tree_validateHeight_iff: "tree_validateHeight t \<longleftrightarrow> heights_ok t"
  by (simp add: tree_validateHeight_def height_loop_eq)

lemma tree_isBalanced_iff: "tree_isBalanced t \<longleftrightarrow> balanced t"
  by (simp add: tree_isBalanced_def balanced_loop_eq)

section \<open>Heights\<close>

lemma height_of_zero: "heights_ok t \<Longrightarrow> height_of t = 0 \<longleftrightarrow> t = Null"
  by (cases t) auto

lemma inorder_updateHeight [simp]: "inorder (updateHeight t) = inorder t"
  by (cases t) auto

lemma updateHeight_ok: "heights_ok t \<Longrightarrow> updateHeight t = t"
  by (cases t) auto

lemma updateHeight_Null [simp]: "updateHeight t = Null \<longleftrightarrow> t = Null"
  by (cases t) auto

lemma inorder_Nil [simp]: "inorder t = [] \<longleftrightarrow> t = Null"
  by (cases t) auto

text \<open>
  With correct heights a subtree two higher than its sibling has the grandchild the double
  rotation lifts, so \<^verbatim>\<open>balance\<close> never drops a subtree.
\<close>

lemma double_left_exists:
  assumes "heights_ok l" "height_of l > n + 1" "\<not> height_of (left_of l) > height_of (right_of l)"
  obtains le lh ll me mh ml mr where "l = Node le lh ll (Node me mh ml mr)"
proof (cases l)
  case Null
  with assms show ?thesis by simp
next
  case (Node le lh ll lr)
  with assms have "lr \<noteq> Null" by auto
  with Node that show ?thesis by (cases lr) auto
qed

lemma double_right_exists:
  assumes "heights_ok r" "height_of r > n + 1" "\<not> height_of (right_of r) > height_of (left_of r)"
  obtains re rh rr me mh ml mr where "r = Node re rh (Node me mh ml mr) rr"
proof (cases r)
  case Null
  with assms show ?thesis by simp
next
  case (Node re rh rl rr)
  with assms have "rl \<noteq> Null" by auto
  with Node that show ?thesis by (cases rl) auto
qed

lemma height_gt_Node:
  assumes "height_of t > n" obtains e h l r where "t = Node e h l r"
  using assms by (cases t) auto

lemma balance_cases:
  assumes ok: "heights_ok l" "heights_ok r"
  obtains (no_change) "height_of l \<le> height_of r + 1" "height_of r \<le> height_of l + 1"
      "balance (Node e h l r) = Node e h l r"
    | (right) le lh ll lr where "l = Node le lh ll lr" "height_of l > height_of r + 1"
      "height_of ll > height_of lr" "balance (Node e h l r) = rightRotate (Node e h l r)"
    | (left_right) le lh ll me mh ml mr where "l = Node le lh ll (Node me mh ml mr)"
      "height_of l > height_of r + 1" "height_of ll \<le> mh"
      "balance (Node e h l r) = rightRotate (Node e h (leftRotate l) r)"
    | (left) re rh rl rr where "r = Node re rh rl rr" "height_of r > height_of l + 1"
      "height_of rr > height_of rl" "balance (Node e h l r) = leftRotate (Node e h l r)"
    | (right_left) re rh rr me mh ml mr where "r = Node re rh (Node me mh ml mr) rr"
      "height_of r > height_of l + 1" "height_of rr \<le> mh"
      "balance (Node e h l r) = leftRotate (Node e h l (rightRotate r))"
proof (cases "height_of l > height_of r + 1")
  case high: True
  show ?thesis
  proof (cases "height_of (left_of l) > height_of (right_of l)")
    case True
    with high that(2) show ?thesis by (cases l) auto
  next
    case False
    with double_left_exists [OF ok(1) high] high that(3) show ?thesis by (metis (no_types, lifting)
      balance.simps(2) height_of.simps(2) left_of.simps(2) right_of.simps(2) not_less)
  qed
next
  case low: False
  show ?thesis
  proof (cases "height_of r > height_of l + 1")
    case high: True
    show ?thesis
    proof (cases "height_of (right_of r) > height_of (left_of r)")
      case True
      with high low that(4) show ?thesis by (cases r) auto
    next
      case False
      with double_right_exists [OF ok(2) high] high low that(5) show ?thesis
        by (metis (no_types, lifting) balance.simps(2) height_of.simps(2) left_of.simps(2)
          right_of.simps(2) not_less)
    qed
  next
    case False
    with low that(1) show ?thesis by auto
  qed
qed

lemma balance_props:
  assumes "heights_ok l" "heights_ok r" "h = max (height_of l) (height_of r) + 1"
  shows balance_heights_ok: "heights_ok (balance (Node e h l r))"
    and inorder_balance: "inorder (balance (Node e h l r)) = inorder l @ e # inorder r"
  using assms(1,2)
  by (cases rule: balance_cases [of l r e h]; use assms in simp)+

lemma balance_updateHeight:
  assumes "heights_ok l" "heights_ok r"
  shows "heights_ok (balance (updateHeight (Node e h l r)))"
    and "inorder (balance (updateHeight (Node e h l r))) = inorder l @ e # inorder r"
  using balance_props [OF assms refl] by simp_all

section \<open>Insertion keeps the order and the heights\<close>

text \<open>
  What one call does to a child: make the object when the child is missing, else go on in it.
\<close>

definition insert_sub :: "elem \<Rightarrow> tree \<Rightarrow> tree \<times> ptr option" where
  "insert_sub n t = (case t of Null \<Rightarrow> (Node n 1 Null Null, Some (hdl n))
                     | Node _ _ _ _ \<Rightarrow> insert_elem n t)"

lemma insert_sub_Null [simp]: "insert_sub n Null = (Node n 1 Null Null, Some (hdl n))"
  by (simp add: insert_sub_def)

lemma insert_elem_Node:
  "insert_elem n (Node x h l r) =
     (if overlaps x n \<or> addr x = addr n then (Node x h l r, None)
      else if addr x > addr n then
        (balance (updateHeight (Node x h (updateHeight (fst (insert_sub n l))) r)), snd (insert_sub n l))
      else
        (balance (updateHeight (Node x h l (updateHeight (fst (insert_sub n r))))), snd (insert_sub n r)))"
  unfolding insert_elem.simps(2) insert_sub_def [symmetric] Let_def split_beta
  by (cases rule: linorder_cases [of "addr x" "addr n"])
     (simp_all del: balance.simps updateHeight.simps insert_elem.simps)

declare insert_elem.simps(2) [simp del] balance.simps(2) [simp del]

lemma insert_sub_Node: "insert_sub n (Node x h l r) = insert_elem n (Node x h l r)"
  by (simp only: insert_sub_def tree.case)

lemma insert_elem_sub: "t \<noteq> Null \<Longrightarrow> insert_elem n t = insert_sub n t"
  by (cases t) (simp_all add: insert_sub_def)

lemma heights_ok_insert_sub: "heights_ok t \<Longrightarrow> heights_ok (fst (insert_sub n t))"
proof (induction t)
  case Null
  then show ?case by simp
next
  case (Node x h l r)
  then show ?case
    by (simp add: insert_sub_Node insert_elem_Node updateHeight_ok balance_updateHeight del: updateHeight.simps)
qed

text \<open>The elements of a tree in order: disjoint ranges, none of which wraps around.\<close>

definition before :: "elem \<Rightarrow> elem \<Rightarrow> bool" where
  "before x y \<longleftrightarrow> addr x < addr y \<and> addr x + len x \<le> addr y"

definition ranges_ok :: "elem list \<Rightarrow> bool" where
  "ranges_ok xs \<longleftrightarrow> sorted_wrt before xs \<and> (\<forall>x \<in> set xs. no_wrap (addr x) (len x))"

text \<open>When insertion refuses \<open>n\<close> because of the range \<open>x\<close>.\<close>

definition conflict :: "elem \<Rightarrow> elem \<Rightarrow> bool" where
  "conflict x n \<longleftrightarrow> overlaps x n \<or> addr x = addr n"

text \<open>The specification of insertion on the list of elements.\<close>

definition ins_range :: "elem \<Rightarrow> elem list \<Rightarrow> elem list" where
  "ins_range n xs = filter (\<lambda>x. addr x < addr n) xs @ n # filter (\<lambda>x. \<not> addr x < addr n) xs"

lemma mset_ins_range: "mset (ins_range n xs) = add_mset n (mset xs)"
  by (induction xs) (auto simp: ins_range_def)

lemma set_ins_range [simp]: "set (ins_range n xs) = insert n (set xs)"
  by (auto simp: ins_range_def)

lemma distinct_ins_range:
  "distinct (map f (ins_range n xs)) \<longleftrightarrow> distinct (map f xs) \<and> f n \<notin> f ` set xs"
proof -
  have "mset (map f (ins_range n xs)) = mset (map f (n # xs))"
    by (simp add: mset_ins_range)
  then have "distinct (map f (ins_range n xs)) \<longleftrightarrow> distinct (map f (n # xs))"
    by (rule mset_eq_imp_distinct_iff)
  then show ?thesis by auto
qed

lemma ranges_ok_append:
  "ranges_ok (xs @ y # zs) \<longleftrightarrow> ranges_ok xs \<and> ranges_ok zs \<and> no_wrap (addr y) (len y) \<and>
     (\<forall>x \<in> set xs. before x y) \<and> (\<forall>z \<in> set zs. before y z) \<and> (\<forall>x \<in> set xs. \<forall>z \<in> set zs. before x z)"
  by (auto simp: ranges_ok_def sorted_wrt_append)

lemma before_addr: "before x y \<Longrightarrow> addr x < addr y"
  by (simp add: before_def)

lemma no_conflict_right:
  assumes "\<not> conflict x n" "addr x > addr n" "before x z" "no_wrap (addr n) (len n)"
  shows "\<not> conflict z n"
  using assms by (auto simp: conflict_def overlaps_def before_def)

lemma no_conflict_left:
  assumes "\<not> conflict x n" "addr x < addr n" "before z x" "no_wrap (addr x) (len x)"
  shows "\<not> conflict z n"
  using assms no_wrap_ge [of "addr x" "len x"] by (auto simp: conflict_def overlaps_def before_def)

lemma before_new:
  assumes "\<not> conflict x n" "no_wrap (addr x) (len x)" "no_wrap (addr n) (len n)"
  shows "addr x < addr n \<Longrightarrow> before x n" "addr n < addr x \<Longrightarrow> before n x"
  using assms by (auto simp: conflict_def overlaps_def before_def not_less)

lemma ranges_ok_ins_range:
  assumes "ranges_ok xs" "no_wrap (addr n) (len n)" "\<forall>x \<in> set xs. \<not> conflict x n"
  shows "ranges_ok (ins_range n xs)"
proof -
  have nw: "no_wrap (addr x) (len x)" if "x \<in> set xs" for x using assms that by (auto simp: ranges_ok_def)
  have "before x n" if "x \<in> set xs" "addr x < addr n" for x
    using before_new [of x n] assms(2,3) nw that by blast
  moreover have "before n x" if "x \<in> set xs" "\<not> addr x < addr n" for x
    using before_new [of x n] assms(2,3) nw that by (auto simp: conflict_def not_less order.order_iff_strict)
  moreover have "ranges_ok (filter P xs)" for P
    using assms(1) by (auto simp: ranges_ok_def sorted_wrt_filter)
  moreover have "before x y" if "x \<in> set xs" "y \<in> set xs" "addr x < addr n" "\<not> addr y < addr n" for x y
  proof -
    from that have "addr x < addr y" by simp
    then show ?thesis using assms(1) that(1,2)
      by (auto simp: ranges_ok_def in_set_conv_nth sorted_wrt_iff_nth_less before_def)
        (metis linorder_neqE_nat not_less_iff_gr_or_eq)+
  qed
  ultimately show ?thesis using assms(2) by (simp add: ins_range_def ranges_ok_append)
qed

lemma ins_range_left:
  assumes "\<forall>z \<in> set zs. addr x < addr z" "addr n < addr x"
  shows "ins_range n (xs @ x # zs) = ins_range n xs @ x # zs"
proof -
  have "\<forall>z \<in> set zs. \<not> addr z < addr n" using assms by (meson less_trans not_less_iff_gr_or_eq)
  moreover have "\<not> addr x < addr n" using assms(2) by (rule less_not_sym)
  ultimately show ?thesis by (simp add: ins_range_def)
qed

lemma ins_range_right:
  assumes "\<forall>z \<in> set xs. addr z < addr x" "addr x < addr n"
  shows "ins_range n (xs @ x # zs) = xs @ x # ins_range n zs"
proof -
  have "\<forall>z \<in> set xs. addr z < addr n" using assms by (meson less_trans)
  with assms(2) show ?thesis by (simp add: ins_range_def)
qed

lemma insert_sub_spec:
  assumes "heights_ok t" "ranges_ok (inorder t)" "no_wrap (addr n) (len n)"
  shows "(\<exists>x \<in> set (inorder t). conflict x n) \<longrightarrow>
           snd (insert_sub n t) = None \<and> inorder (fst (insert_sub n t)) = inorder t"
    and "(\<forall>x \<in> set (inorder t). \<not> conflict x n) \<longrightarrow>
           snd (insert_sub n t) = Some (hdl n) \<and> inorder (fst (insert_sub n t)) = ins_range n (inorder t)"
  using assms(1,2)
proof (induction t)
  case Null
  { case 1 then show ?case by simp next case 2 then show ?case by (simp add: ins_range_def) }
next
  case (Node x h l r)
  have ok: "heights_ok l" "heights_ok r" if "heights_ok (Node x h l r)" using that by auto
  note sub = updateHeight_ok balance_updateHeight heights_ok_insert_sub
  { case 1
    then have rl: "ranges_ok (inorder l)" "ranges_ok (inorder r)" "no_wrap (addr x) (len x)"
      "\<forall>y \<in> set (inorder l). before y x" "\<forall>y \<in> set (inorder r). before x y"
      by (auto simp: ranges_ok_append)
    consider "conflict x n" | "\<not> conflict x n" "addr x > addr n" | "\<not> conflict x n" "addr x < addr n"
      by (meson conflict_def linorder_neqE)
    then show ?case
    proof cases
      case 1 then show ?thesis by (auto simp: insert_sub_Node insert_elem_Node conflict_def)
    next
      case 2
      then have "\<forall>y \<in> set (inorder r). \<not> conflict y n" using no_conflict_right rl(5) assms(3) by blast
      with 2 ok Node.IH(1) rl "1.prems" show ?thesis
        by (auto simp: insert_sub_Node insert_elem_Node conflict_def sub simp del: updateHeight.simps)
    next
      case 3
      then have "\<forall>y \<in> set (inorder l). \<not> conflict y n" using no_conflict_left rl(3,4) by blast
      with 3 ok Node.IH(3) rl "1.prems" show ?thesis
        by (auto simp: insert_sub_Node insert_elem_Node conflict_def sub simp del: updateHeight.simps)
    qed
  next
    case 2
    then have rl: "ranges_ok (inorder l)" "ranges_ok (inorder r)"
      "\<forall>y \<in> set (inorder l). addr y < addr x" "\<forall>y \<in> set (inorder r). addr x < addr y"
      by (auto simp: ranges_ok_append before_def)
    show ?case
    proof (intro impI)
      assume nc: "\<forall>y \<in> set (inorder (Node x h l r)). \<not> conflict y n"
      then consider "\<not> conflict x n" "addr x > addr n" | "\<not> conflict x n" "addr x < addr n"
        by (metis UnCI conflict_def inorder.simps(2) insertI1 linorder_neqE list.set(2) set_append)
      then show "snd (insert_sub n (Node x h l r)) = Some (hdl n) \<and>
          inorder (fst (insert_sub n (Node x h l r))) = ins_range n (inorder (Node x h l r))"
      proof cases
        case 1
        with ok nc Node.IH(2) rl "2.prems" show ?thesis
          by (auto simp: insert_sub_Node insert_elem_Node conflict_def sub ins_range_left
              simp del: updateHeight.simps)
      next
        case 2
        with ok nc Node.IH(4) rl "2.prems" show ?thesis
          by (auto simp: insert_sub_Node insert_elem_Node conflict_def sub ins_range_right
              simp del: updateHeight.simps)
      qed
    qed
  }
qed

section \<open>Insertion keeps the balance\<close>

text \<open>
  One rotation of a node whose subtrees differ by two. The side conditions say that the higher
  subtree is not itself even, which holds after an insertion made it grow, and they are what makes
  the test \<^verbatim>\<open>leftLeftHeight > leftRightHeight\<close> choose the right rotation.
\<close>

definition tilt :: "tree \<Rightarrow> bool" where
  "tilt t \<longleftrightarrow> height_of (left_of t) \<noteq> height_of (right_of t)"

lemma balance_restores:
  assumes ok: "heights_ok l" "heights_ok r" and bal: "balanced l" "balanced r"
    and d: "height_of l \<le> height_of r + 2" "height_of r \<le> height_of l + 2"
    and t: "height_of l = height_of r + 2 \<longrightarrow> tilt l" "height_of r = height_of l + 2 \<longrightarrow> tilt r"
    and h: "h = max (height_of l) (height_of r) + 1"
  shows "balanced (balance (Node e h l r))"
    and "height_of (balance (Node e h l r)) =
           (if height_of l \<le> height_of r + 1 \<and> height_of r \<le> height_of l + 1 then h else h - 1)"
  using ok by (cases rule: balance_cases [of l r e h]; use ok bal d t h in \<open>auto simp: tilt_def\<close>)+

lemma balance_keeps:
  assumes "height_of l \<le> height_of r + 1" "height_of r \<le> height_of l + 1"
  shows "balance (Node e h l r) = Node e h l r"
  using assms by (simp add: balance.simps)

lemma insert_sub_balanced:
  assumes "heights_ok t" "balanced t"
  shows "balanced (fst (insert_sub n t)) \<and>
    height_of (fst (insert_sub n t)) \<in> {height_of t, height_of t + 1} \<and>
    (t \<noteq> Null \<longrightarrow> height_of (fst (insert_sub n t)) = height_of t + 1 \<longrightarrow> tilt (fst (insert_sub n t)))"
  using assms
proof (induction t)
  case Null
  then show ?case by simp
next
  case (Node x h l r)
  define l' r' where "l' = fst (insert_sub n l)" and "r' = fst (insert_sub n r)"
  have ok: "heights_ok l" "heights_ok r" "heights_ok l'" "heights_ok r'" "balanced l" "balanced r"
    and h: "h = max (height_of l) (height_of r) + 1"
    and d: "height_of l \<le> height_of r + 1" "height_of r \<le> height_of l + 1"
    using Node.prems by (auto simp: l'_def r'_def heights_ok_insert_sub)
  have IHl: "balanced l'" "height_of l' \<in> {height_of l, height_of l + 1}"
      "l \<noteq> Null \<longrightarrow> height_of l' = height_of l + 1 \<longrightarrow> tilt l'"
    and IHr: "balanced r'" "height_of r' \<in> {height_of r, height_of r + 1}"
      "r \<noteq> Null \<longrightarrow> height_of r' = height_of r + 1 \<longrightarrow> tilt r'"
    using Node.IH ok by (auto simp: l'_def r'_def)
  have nz: "height_of l = 0 \<longleftrightarrow> l = Null" "height_of r = 0 \<longleftrightarrow> r = Null"
    using ok height_of_zero by auto
  consider "overlaps x n \<or> addr x = addr n"
    | (left) "\<not> (overlaps x n \<or> addr x = addr n)" "addr x > addr n"
    | (right) "\<not> (overlaps x n \<or> addr x = addr n)" "\<not> addr x > addr n" by blast
  then show ?case
  proof cases
    case 1
    with Node.prems show ?thesis by (simp add: insert_sub_Node insert_elem_Node)
  next
    case left
    let ?h = "max (height_of l') (height_of r) + 1"
    have eq: "fst (insert_sub n (Node x h l r)) = balance (Node x ?h l' r)"
      using left ok by (simp add: insert_sub_Node insert_elem_Node updateHeight_ok flip: l'_def)
    show ?thesis
    proof (cases "height_of l' \<le> height_of r + 1 \<and> height_of r \<le> height_of l' + 1")
      case True
      with eq have "fst (insert_sub n (Node x h l r)) = Node x ?h l' r" using balance_keeps by simp
      with True IHl ok h d show ?thesis by (auto simp: tilt_def)
    next
      case False
      with IHl d have two: "height_of l' = height_of r + 2" "height_of l = height_of r + 1" by auto
      with IHl nz have "tilt l'" by auto
      with balance_restores [of l' r ?h x] ok IHl two h show ?thesis unfolding eq by auto
    qed
  next
    case right
    let ?h = "max (height_of l) (height_of r') + 1"
    have eq: "fst (insert_sub n (Node x h l r)) = balance (Node x ?h l r')"
      using right ok by (simp add: insert_sub_Node insert_elem_Node updateHeight_ok flip: r'_def)
    show ?thesis
    proof (cases "height_of l \<le> height_of r' + 1 \<and> height_of r' \<le> height_of l + 1")
      case True
      with eq have "fst (insert_sub n (Node x h l r)) = Node x ?h l r'" using balance_keeps by simp
      with True IHr ok h d show ?thesis by (auto simp: tilt_def)
    next
      case False
      with IHr d have two: "height_of r' = height_of l + 2" "height_of r = height_of l + 1" by auto
      with IHr nz have "tilt r'" by auto
      with balance_restores [of l r' ?h x] ok IHr two h show ?thesis unfolding eq by auto
    qed
  qed
qed

section \<open>Removal\<close>

lemma heights_ok_updateHeight:
  "heights_ok (updateHeight (Node e h l r)) \<longleftrightarrow> heights_ok l \<and> heights_ok r"
  by simp

lemma take_rightmost_props:
  assumes "heights_ok t" "t \<noteq> Null"
  obtains m t' where "take_rightmost t = (Some m, t')" "heights_ok t'" "inorder t = inorder t' @ [m]"
  using assms
proof (induction t arbitrary: thesis)
  case Null
  then show ?case by simp
next
  case (Node e h l r)
  show ?case
  proof (cases "r = Null")
    case True
    with Node.prems show ?thesis by (simp add: updateHeight_ok)
  next
    case False
    with Node.prems(2) obtain m r' where "take_rightmost r = (Some m, r')" "heights_ok r'"
      "inorder r = inorder r' @ [m]" using Node.IH(2) by auto
    with False Node.prems show ?thesis by (cases r) auto
  qed
qed

lemma take_leftmost_props:
  assumes "heights_ok t" "t \<noteq> Null"
  obtains m t' where "take_leftmost t = (Some m, t')" "heights_ok t'" "inorder t = m # inorder t'"
  using assms
proof (induction t arbitrary: thesis)
  case Null
  then show ?case by simp
next
  case (Node e h l r)
  show ?case
  proof (cases "l = Null")
    case True
    with Node.prems show ?thesis by (simp add: updateHeight_ok)
  next
    case False
    with Node.prems(2) obtain m l' where "take_leftmost l = (Some m, l')" "heights_ok l'"
      "inorder l = m # inorder l'" using Node.IH(1) by auto
    with False Node.prems show ?thesis by (cases l) auto
  qed
qed

lemma removeSelf_props:
  assumes "heights_ok l" "heights_ok r"
  shows "heights_ok (removeSelf (Node e h l r)) \<and>
    inorder (removeSelf (Node e h l r)) = inorder l @ inorder r"
proof (cases "l = Null \<or> r = Null")
  case True
  with assms show ?thesis by (cases l; cases r) (auto simp: updateHeight_ok simp del: updateHeight.simps)
next
  case False
  then obtain le lh ll lr re rh rl rr where lr: "l = Node le lh ll lr" "r = Node re rh rl rr"
    by (meson tree.exhaust)
  from False obtain m l' where max: "take_rightmost l = (Some m, l')" "heights_ok l'"
    "inorder l = inorder l' @ [m]" using take_rightmost_props assms(1) by metis
  from False obtain k r' where min: "take_leftmost r = (Some k, r')" "heights_ok r'"
    "inorder r = k # inorder r'" using take_leftmost_props assms(2) by metis
  consider "lh \<ge> rh" "lr = Null" | "lh \<ge> rh" "lr \<noteq> Null" | "\<not> lh \<ge> rh" "rl = Null" | "\<not> lh \<ge> rh" "rl \<noteq> Null"
    by blast
  then show ?thesis
  proof cases
    case 1 with assms lr show ?thesis by simp
  next
    case 2
    then have "removeSelf (Node e h l r) = updateHeight (Node m 0 l' r)"
      using max(1) unfolding lr by (cases lr) (simp_all del: take_rightmost.simps)
    with assms max show ?thesis by simp
  next
    case 3 with assms lr show ?thesis by simp
  next
    case 4
    then have "removeSelf (Node e h l r) = updateHeight (Node k 0 l r')"
      using min(1) unfolding lr by (cases rl) (simp_all del: take_leftmost.simps)
    with assms min show ?thesis by simp
  qed
qed

text \<open>
  Removal by pointer. The walk compares addresses to decide where to go, so it needs the order of
  the tree; the pointer comparison needs the handles to be distinct.
\<close>

definition del_hdl :: "ptr \<Rightarrow> elem list \<Rightarrow> elem list" where
  "del_hdl p xs = filter (\<lambda>x. hdl x \<noteq> p) xs"

lemma del_hdl_simps [simp]:
  "del_hdl p [] = []" "del_hdl p (xs @ ys) = del_hdl p xs @ del_hdl p ys"
  "del_hdl p (x # xs) = (if hdl x = p then del_hdl p xs else x # del_hdl p xs)"
  by (simp_all add: del_hdl_def)

lemma del_hdl_id [simp]: "p \<notin> hdl ` set xs \<Longrightarrow> del_hdl p xs = xs"
  by (auto simp: del_hdl_def filter_id_conv)

lemma set_del_hdl: "set (del_hdl p xs) = {x \<in> set xs. hdl x \<noteq> p}"
  by (auto simp: del_hdl_def)

lemma ranges_ok_del_hdl: "ranges_ok xs \<Longrightarrow> ranges_ok (del_hdl p xs)"
  by (auto simp: ranges_ok_def del_hdl_def sorted_wrt_filter)

lemma is_obj_cases:
  assumes "is_obj e t" "heights_ok t" "distinct (map hdl (inorder t))"
  shows "heights_ok (removeSelf t)" "inorder (removeSelf t) = del_hdl (hdl e) (inorder t)"
    "hdl e \<in> hdl ` set (inorder t)"
  using assms removeSelf_props by (cases t; auto simp: image_iff)+

lemma not_is_obj_child:
  "\<not> is_obj e t \<Longrightarrow> t = Null \<or> (\<exists>x h l r. t = Node x h l r \<and> hdl x \<noteq> hdl e)"
  by (cases t) auto

definition removal_ok :: "elem \<Rightarrow> tree \<Rightarrow> tree \<times> bool \<Rightarrow> bool" where
  "removal_ok e t res \<longleftrightarrow> heights_ok (fst res) \<and> inorder (fst res) = del_hdl (hdl e) (inorder t) \<and>
     (snd res \<longleftrightarrow> hdl e \<in> hdl ` set (inorder t))"

text \<open>\<open>e\<close> is in the tree, or its handle is not: what a live pointer guarantees.\<close>

lemma remove_below_unchanged: "\<not> snd (remove_below e t) \<Longrightarrow> fst (remove_below e t) = t"
  by (induction t) (auto simp: Let_def split_beta)

lemma remove_below_ok:
  assumes "heights_ok t" "ranges_ok (inorder t)" "distinct (map hdl (inorder t))" "\<not> is_obj e t"
    "e \<in> set (inorder t) \<or> hdl e \<notin> hdl ` set (inorder t)"
  shows "removal_ok e t (remove_below e t)"
  using assms
proof (induction t)
  case Null
  then show ?case by (simp add: removal_ok_def)
next
  case (Node x h l r)
  have ok: "heights_ok l" "heights_ok r" "distinct (map hdl (inorder l))" "distinct (map hdl (inorder r))"
    "hdl x \<noteq> hdl e" "h = max (height_of l) (height_of r) + 1" "ranges_ok (inorder l)" "ranges_ok (inorder r)"
    using Node.prems by (auto simp: ranges_ok_append)
  have ord: "\<forall>y \<in> set (inorder l). addr y < addr x" "\<forall>y \<in> set (inorder r). addr x < addr y"
    using Node.prems(2) by (auto simp: ranges_ok_append before_def)
  have disj: "hdl ` set (inorder l) \<inter> hdl ` set (inorder r) = {}"
    using Node.prems(3) by auto
  consider (l) "is_obj e l" | (r) "\<not> is_obj e l" "is_obj e r"
    | (gr) "\<not> is_obj e l" "\<not> is_obj e r" "addr x < addr e"
    | (gl) "\<not> is_obj e l" "\<not> is_obj e r" "\<not> addr x < addr e" by blast
  then show ?case
  proof cases
    case l
    note i = is_obj_cases [OF l ok(1,3)]
    with disj have "hdl e \<notin> hdl ` set (inorder r)" by auto
    with l i ok show ?thesis by (auto simp: removal_ok_def)
  next
    case r
    note i = is_obj_cases [OF r(2) ok(2,4)]
    with disj have "hdl e \<notin> hdl ` set (inorder l)" by auto
    with r i ok show ?thesis by (auto simp: removal_ok_def)
  next
    case gr
    with ord(1) Node.prems(5) ok(5) have mem: "e \<in> set (inorder r) \<or> hdl e \<notin> hdl ` set (inorder r)"
      and notl: "hdl e \<notin> hdl ` set (inorder l)"
      using disj by (auto simp: image_iff)
    from Node.IH(2) [OF ok(2,8,4) gr(2) mem] notl gr ok show ?thesis
      using remove_below_unchanged [of e r] by (auto simp: removal_ok_def split_beta Let_def)
  next
    case gl
    with ord(2) Node.prems(5) ok(5) have mem: "e \<in> set (inorder l) \<or> hdl e \<notin> hdl ` set (inorder l)"
      and notr: "hdl e \<notin> hdl ` set (inorder r)"
      using disj by (auto simp: image_iff)
    from Node.IH(1) [OF ok(1,7,3) gl(1) mem] notr gl ok show ?thesis
      using remove_below_unchanged [of e l] by (auto simp: removal_ok_def split_beta Let_def)
  qed
qed

lemma remove_elem_ok:
  assumes "heights_ok t" "ranges_ok (inorder t)" "distinct (map hdl (inorder t))"
    "e \<in> set (inorder t) \<or> hdl e \<notin> hdl ` set (inorder t)"
  shows "removal_ok e t (remove_elem e t)"
  using assms remove_below_ok [OF assms(1-3) _ assms(4)] is_obj_cases [of e t]
  by (cases "is_obj e t") (auto simp: remove_elem_def removal_ok_def)

section \<open>Search\<close>

text \<open>The loop of \<^verbatim>\<open>CtranAvlTree::search\<close> over the tree.\<close>

fun search_tree :: "u64 \<Rightarrow> u64 \<Rightarrow> tree \<Rightarrow> elem option" where
  "search_tree a n Null = None"
| "search_tree a n (Node x h l r) =
     (if addr x > a then search_tree a n l
      else if addr x + len x < a + n then search_tree a n r
      else Some x)"

definition covers :: "u64 \<Rightarrow> u64 \<Rightarrow> elem \<Rightarrow> bool" where
  "covers a n x \<longleftrightarrow> addr x \<le> a \<and> addr x + len x \<ge> a + n"

lemma search_tree_sound: "search_tree a n t = Some x \<Longrightarrow> x \<in> set (inorder t) \<and> covers a n x"
  by (induction t) (auto simp: covers_def split: if_splits)

lemma search_tree_complete:
  assumes "ranges_ok (inorder t)" "no_wrap a n" "x \<in> set (inorder t)" "covers a n x"
  shows "search_tree a n t \<noteq> None"
  using assms(1,3)
proof (induction t)
  case Null
  then show ?case by simp
next
  case (Node y h l r)
  then have ok: "ranges_ok (inorder l)" "ranges_ok (inorder r)" "no_wrap (addr y) (len y)"
    "\<forall>z \<in> set (inorder l). before z y" "\<forall>z \<in> set (inorder r). before y z"
    by (auto simp: ranges_ok_append)
  have xa: "addr x \<le> a" "a \<le> a + n" "addr x + len x \<ge> a + n"
    using assms(2,4) no_wrap_ge by (auto simp: covers_def)
  consider (left) "addr y > a" | (right) "\<not> addr y > a" "addr y + len y < a + n"
    | (here) "\<not> addr y > a" "\<not> addr y + len y < a + n" by blast
  then show ?case
  proof cases
    case left
    have "x \<noteq> y" "x \<notin> set (inorder r)" using left xa ok(5) by (auto simp: before_def)
    with Node left ok show ?thesis by auto
  next
    case right
    have "addr y \<le> a + n" using right xa by auto
    have "x \<notin> set (inorder l)"
    proof
      assume "x \<in> set (inorder l)"
      with ok(4) have "addr x + len x \<le> addr y" by (auto simp: before_def)
      then show False using xa right no_wrap_ge [OF ok(3)] by (meson leD le_less_trans order_trans)
    qed
    moreover have "x \<noteq> y" using right xa by auto
    ultimately show ?thesis using Node right ok by auto
  next
    case here
    then show ?thesis by simp
  qed
qed

section \<open>The height of a balanced tree is logarithmic\<close>

lemma balanced_size_bound:
  assumes "heights_ok t" "balanced t"
  shows "2 ^ ((height_of t + 1) div 2) \<le> length (inorder t) + 1"
  using assms
proof (induction t)
  case Null
  then show ?case by simp
next
  case (Node e h l r)
  show ?case
  proof (cases "h = 1")
    case True
    then show ?thesis by simp
  next
    case False
    let ?k = "(h - 1) div 2"
    from Node.prems False have hl: "?k \<le> (height_of l + 1) div 2" and hr: "?k \<le> (height_of r + 1) div 2"
      and hk: "(h + 1) div 2 = ?k + 1"
      by (auto simp: max_def split: if_splits)
    have "(2::nat) ^ ?k \<le> 2 ^ ((height_of l + 1) div 2)" "(2::nat) ^ ?k \<le> 2 ^ ((height_of r + 1) div 2)"
      using hl hr by (simp_all add: power_increasing)
    moreover have "2 ^ ((height_of l + 1) div 2) \<le> length (inorder l) + 1"
      "2 ^ ((height_of r + 1) div 2) \<le> length (inorder r) + 1"
      using Node.IH Node.prems by auto
    ultimately have "2 ^ ?k \<le> length (inorder l) + 1" "2 ^ ?k \<le> length (inorder r) + 1"
      by (blast intro: order_trans)+
    then have "2 ^ (?k + 1) \<le> length (inorder l) + length (inorder r) + 2" by simp
    with hk show ?thesis by (simp del: power_Suc)
  qed
qed

end
