(* ===== verification/Addr_Cache.thy ===== *)
theory Addr_Cache imports Addr_Tree begin

text \<open>
  The address-range cache of \<^verbatim>\<open>comms/ctran/utils/CtranAvlTree.cc\<close>: a balanced tree of
  disjoint ranges, a list for the ranges that overlap one of the tree, and the set of the
  handles given out. The mutex makes each public method one step, so a method is one function on
  the state. Where the code runs \<^verbatim>\<open>new\<close>, the address of the new object is an argument.
\<close>

section \<open>State and operations\<close>

record cache =
  root :: tree
  ovl_list :: "elem list"
  handles :: "ptr set"

definition cache_init :: cache where
  "cache_init = \<lparr>root = Null, ovl_list = [], handles = {}\<rparr>"

definition cache_elems :: "cache \<Rightarrow> elem list" where
  "cache_elems c = inorder (root c) @ ovl_list c"

text \<open>The object a handle points to: \<open>None\<close> when there is none.\<close>

definition deref :: "cache \<Rightarrow> ptr \<Rightarrow> elem option" where
  "deref c p = find (\<lambda>x. hdl x = p) (cache_elems c)"

definition cache_insert :: "u64 \<Rightarrow> u64 \<Rightarrow> ptr \<Rightarrow> ptr \<Rightarrow> cache \<Rightarrow> ptr \<times> cache" where
  "cache_insert a n v p c =
     (let e = \<lparr>hdl = p, addr = a, len = n, val = v\<rparr>;
          (h, c1) =
            (case root c of
               Null \<Rightarrow> (p, c\<lparr>root := Node e 1 Null Null\<rparr>)
             | Node _ _ _ _ \<Rightarrow>
                 (case insert_elem e (root c) of
                    (t, None) \<Rightarrow> (p, c\<lparr>root := t, ovl_list := ovl_list c @ [e]\<rparr>)
                  | (t, Some h) \<Rightarrow> (h, c\<lparr>root := t\<rparr>)))
      in (h, c1\<lparr>handles := insert h (handles c1)\<rparr>))"

text \<open>
  \<open>None\<close> is undefined behaviour: the method is called on the null root pointer, or the handle
  points to no object.
\<close>

definition cache_remove :: "ptr \<Rightarrow> cache \<Rightarrow> (commResult \<times> cache) option" where
  "cache_remove p c =
     (if p \<notin> handles c then Some (commInvalidUsage, c)
      else case root c of
        Null \<Rightarrow> None
      | Node _ _ _ _ \<Rightarrow>
          (case deref c p of
             None \<Rightarrow> None
           | Some e \<Rightarrow>
               (let (t, removed) = remove_elem e (root c);
                    c1 = c\<lparr>root := t\<rparr>;
                    c2 = (if removed then c1
                          else if \<exists>x \<in> set (ovl_list c1). hdl x = p
                          then c1\<lparr>ovl_list := filter (\<lambda>x. hdl x \<noteq> p) (ovl_list c1)\<rparr>
                          else c1)
                in Some (commSuccess, c2\<lparr>handles := handles c2 - {p}\<rparr>))))"

definition cache_search :: "u64 \<Rightarrow> u64 \<Rightarrow> cache \<Rightarrow> elem option" where
  "cache_search a n c =
     (case search_tree a n (root c) of
        Some x \<Rightarrow> Some x
      | None \<Rightarrow> find (\<lambda>e. addr e \<le> a \<and> addr e + len e \<ge> a + n) (ovl_list c))"

definition cache_lookup :: "ptr \<Rightarrow> cache \<Rightarrow> ptr option" where
  "cache_lookup p c = (if p \<notin> handles c then None else map_option val (deref c p))"

function elems_loop :: "tree list \<Rightarrow> elem list \<Rightarrow> elem list" where
  "elems_loop [] acc = acc"
| "elems_loop (Null # q) acc = elems_loop q acc"
| "elems_loop (Node e h l r # q) acc = elems_loop (q @ children (Node e h l r)) (acc @ [e])"
  by pat_completeness auto
termination
  by (relation "measure (\<lambda>(q, acc). 2 * sum_list (map size q) + length q)") (auto split: tree.split)

definition cache_getAllElems :: "cache \<Rightarrow> elem list" where
  "cache_getAllElems c =
     elems_loop (case root c of Null \<Rightarrow> [] | Node _ _ _ _ \<Rightarrow> [root c]) [] @ ovl_list c"

definition cache_size :: "cache \<Rightarrow> nat" where
  "cache_size c = card (handles c)"

definition cache_validateHeight :: "cache \<Rightarrow> bool" where
  "cache_validateHeight c =
     (case root c of Null \<Rightarrow> True | Node _ _ _ _ \<Rightarrow> tree_validateHeight (root c))"

definition cache_isBalanced :: "cache \<Rightarrow> bool" where
  "cache_isBalanced c = (case root c of Null \<Rightarrow> True | Node _ _ _ _ \<Rightarrow> tree_isBalanced (root c))"

section \<open>Invariant\<close>

definition cache_ok :: "cache \<Rightarrow> bool" where
  "cache_ok c \<longleftrightarrow> heights_ok (root c) \<and> ranges_ok (inorder (root c)) \<and>
     distinct (map hdl (cache_elems c)) \<and> handles c = hdl ` set (cache_elems c)"

lemma cache_okI [inv_intros]:
  "\<lbrakk>heights_ok (root c); ranges_ok (inorder (root c)); distinct (map hdl (cache_elems c));
    handles c = hdl ` set (cache_elems c)\<rbrakk> \<Longrightarrow> cache_ok c"
  by (simp add: cache_ok_def)

lemma cache_ok_init: "cache_ok cache_init"
  by (simp add: cache_ok_def cache_init_def cache_elems_def ranges_ok_def)

lemma deref_mem: "deref c p = Some e \<Longrightarrow> e \<in> set (cache_elems c) \<and> hdl e = p"
  by (auto simp: deref_def dest: find_Some_iff_mem)

lemma deref_hdl:
  assumes "cache_ok c" "e \<in> set (cache_elems c)"
  shows "deref c (hdl e) = Some e"
proof -
  from assms(2) obtain e' where e': "deref c (hdl e) = Some e'"
    by (cases "deref c (hdl e)") (auto simp: deref_def find_is_None)
  with deref_mem assms distinct_map_eq show ?thesis unfolding cache_ok_def by metis
qed

lemma deref_handles: "cache_ok c \<Longrightarrow> p \<in> handles c \<longleftrightarrow> (\<exists>e. deref c p = Some e)"
  using deref_mem deref_hdl by (fastforce simp: cache_ok_def)

section \<open>Insertion\<close>

text \<open>The new object joins the tree when its range meets none of the tree's, else the list.\<close>

definition tree_accepts :: "cache \<Rightarrow> elem \<Rightarrow> bool" where
  "tree_accepts c e \<longleftrightarrow> (\<forall>x \<in> set (inorder (root c)). \<not> conflict x e)"

lemma cache_insert_root:
  "cache_insert a n v p c =
     (let e = \<lparr>hdl = p, addr = a, len = n, val = v\<rparr>; (t, res) = insert_sub e (root c)
      in case res of
           None \<Rightarrow> (p, c\<lparr>root := t, ovl_list := ovl_list c @ [e], handles := insert p (handles c)\<rparr>)
         | Some h \<Rightarrow> (h, c\<lparr>root := t, handles := insert h (handles c)\<rparr>))"
  by (cases "root c") (simp_all add: cache_insert_def insert_sub_Node Let_def split: prod.split option.split)

lemma cache_insert_cases:
  assumes "cache_ok c" "no_wrap a n" and e: "e = \<lparr>hdl = p, addr = a, len = n, val = v\<rparr>"
  obtains (tree) t where "tree_accepts c e" "heights_ok t" "inorder t = ins_range e (inorder (root c))"
      "t = fst (insert_sub e (root c))"
      "cache_insert a n v p c = (p, c\<lparr>root := t, handles := insert p (handles c)\<rparr>)"
    | (ovl) t where "\<not> tree_accepts c e" "heights_ok t" "inorder t = inorder (root c)"
      "t = fst (insert_sub e (root c))"
      "cache_insert a n v p c =
         (p, c\<lparr>root := t, ovl_list := ovl_list c @ [e], handles := insert p (handles c)\<rparr>)"
proof -
  have ok: "heights_ok (root c)" "ranges_ok (inorder (root c))" using assms(1) by (auto simp: cache_ok_def)
  have nw: "no_wrap (addr e) (len e)" using assms(2) e by simp
  note spec = insert_sub_spec [OF ok nw] heights_ok_insert_sub [OF ok(1), of e]
  show ?thesis
  proof (cases "tree_accepts c e")
    case True
    with spec that(1) show ?thesis
      by (auto simp: tree_accepts_def cache_insert_root Let_def split_beta e)
  next
    case False
    with spec that(2) show ?thesis
      by (auto simp: tree_accepts_def cache_insert_root Let_def split_beta e)
  qed
qed

lemma cache_insert_ok:
  assumes "cache_ok c" "no_wrap a n" "p \<notin> handles c" and e: "e = \<lparr>hdl = p, addr = a, len = n, val = v\<rparr>"
  shows "fst (cache_insert a n v p c) = p" "cache_ok (snd (cache_insert a n v p c))"
    "set (cache_elems (snd (cache_insert a n v p c))) = insert e (set (cache_elems c))"
proof -
  have d: "distinct (map hdl (inorder (root c)))" "distinct (map hdl (ovl_list c))"
    "hdl ` set (inorder (root c)) \<inter> hdl ` set (ovl_list c) = {}" "handles c = hdl ` set (cache_elems c)"
    "ranges_ok (inorder (root c))"
    using assms(1) by (auto simp: cache_ok_def cache_elems_def)
  with assms(3) have fresh: "p \<notin> hdl ` set (inorder (root c))" "p \<notin> hdl ` set (ovl_list c)"
    by (auto simp: cache_elems_def)
  have hp: "hdl e = p" "no_wrap (addr e) (len e)" using e assms(2) by simp_all
  show "fst (cache_insert a n v p c) = p" "cache_ok (snd (cache_insert a n v p c))"
    "set (cache_elems (snd (cache_insert a n v p c))) = insert e (set (cache_elems c))"
    using assms(1,2) e
    by (cases rule: cache_insert_cases;
        use d fresh hp in \<open>auto simp: cache_ok_def cache_elems_def distinct_ins_range tree_accepts_def
          intro!: ranges_ok_ins_range\<close>)+
qed

section \<open>Removal\<close>

lemma cache_remove_ok:
  assumes ok: "cache_ok c" and p: "p \<in> handles c" and r: "root c \<noteq> Null"
  obtains c' where "cache_remove p c = Some (commSuccess, c')" "cache_ok c'"
    "cache_elems c' = del_hdl p (cache_elems c)" "handles c' = handles c - {p}"
proof -
  from ok p obtain e where e: "deref c p = Some e" using deref_handles by blast
  then have mem: "e \<in> set (cache_elems c)" "hdl e = p" using deref_mem by auto
  have d: "heights_ok (root c)" "ranges_ok (inorder (root c))" "distinct (map hdl (inorder (root c)))"
    "distinct (map hdl (ovl_list c))" "hdl ` set (inorder (root c)) \<inter> hdl ` set (ovl_list c) = {}"
    "handles c = hdl ` set (cache_elems c)"
    using ok by (auto simp: cache_ok_def cache_elems_def)
  from mem d(5) have "e \<in> set (inorder (root c)) \<or> hdl e \<notin> hdl ` set (inorder (root c))"
    by (auto simp: cache_elems_def)
  then have rem: "removal_ok e (root c) (remove_elem e (root c))" using remove_elem_ok d by blast
  define t removed where "t = fst (remove_elem e (root c))" and "removed = snd (remove_elem e (root c))"
  define c' where "c' = c\<lparr>root := t,
    ovl_list := (if removed then ovl_list c else filter (\<lambda>x. hdl x \<noteq> p) (ovl_list c)), handles := handles c - {p}\<rparr>"
  have t: "heights_ok t" "inorder t = del_hdl p (inorder (root c))"
      "removed \<longleftrightarrow> p \<in> hdl ` set (inorder (root c))"
    using rem mem(2) by (auto simp: removal_ok_def t_def removed_def)
  have "cache_remove p c = Some (commSuccess, c')"
    using p r e by (cases "root c")
      (auto simp: cache_remove_def c'_def t_def removed_def Let_def split_beta filter_id_conv)
  moreover have el: "cache_elems c' = del_hdl p (cache_elems c)"
  proof (cases removed)
    case True
    with t(3) d(5) have "\<forall>x \<in> set (ovl_list c). hdl x \<noteq> p" by blast
    with True t(2) show ?thesis by (simp add: c'_def cache_elems_def del_hdl_def)
  next
    case False
    with t(2) show ?thesis by (simp add: c'_def cache_elems_def del_hdl_def)
  qed
  moreover have "cache_ok c'"
  proof (rule cache_okI)
    show "heights_ok (root c')" "ranges_ok (inorder (root c'))"
      using t d by (simp_all add: c'_def ranges_ok_del_hdl)
    show "distinct (map hdl (cache_elems c'))"
      using ok unfolding el del_hdl_def cache_ok_def by (simp add: distinct_map_filter)
    show "handles c' = hdl ` set (cache_elems c')"
      using d(6) unfolding el by (auto simp: c'_def set_del_hdl)
  qed
  ultimately show ?thesis using that by (simp add: c'_def)
qed

section \<open>Search\<close>

lemma cache_search_sound:
  "cache_search a n c = Some x \<Longrightarrow> x \<in> set (cache_elems c) \<and> covers a n x"
  by (auto simp: cache_search_def cache_elems_def covers_def
      dest!: search_tree_sound find_Some_iff_mem split: option.splits)

lemma cache_search_complete:
  assumes "cache_ok c" "no_wrap a n" "x \<in> set (cache_elems c)" "covers a n x"
  shows "cache_search a n c \<noteq> None"
proof (cases "search_tree a n (root c)")
  case None
  with assms search_tree_complete have "x \<in> set (ovl_list c)"
    unfolding cache_ok_def cache_elems_def by (metis UnE set_append)
  with assms(4) None show ?thesis by (auto simp: cache_search_def covers_def find_is_None)
qed (simp add: cache_search_def)

section \<open>Walking all elements\<close>

lemma mset_elems_loop: "mset (elems_loop q acc) = mset acc + (\<Sum>t\<leftarrow>q. mset (inorder t))"
  by (induction q acc rule: elems_loop.induct) (auto split: tree.split)

lemma mset_getAllElems: "mset (cache_getAllElems c) = mset (cache_elems c)"
  by (cases "root c") (simp_all add: cache_getAllElems_def cache_elems_def mset_elems_loop del: elems_loop.simps)

lemma cache_size_elems: "cache_ok c \<Longrightarrow> cache_size c = length (cache_elems c)"
  by (auto simp: cache_ok_def cache_size_def) (metis distinct_card length_map list.set_map)

section \<open>The contract of an index of address ranges\<close>

text \<open>
  What the code that keeps a range cache (the registration cache of the mapper) relies on. \<open>safe\<close>
  is the condition under which removal is defined.
\<close>

locale range_index =
  fixes elems :: "'s \<Rightarrow> elem set" and inv :: "'s \<Rightarrow> bool" and safe :: "ptr \<Rightarrow> 's \<Rightarrow> bool"
    and ins :: "elem \<Rightarrow> 's \<Rightarrow> 's" and del :: "ptr \<Rightarrow> 's \<Rightarrow> 's"
    and srch :: "u64 \<Rightarrow> u64 \<Rightarrow> 's \<Rightarrow> elem option"
  assumes unique: "inv s \<Longrightarrow> inj_on hdl (elems s)"
    and ins_inv: "inv s \<Longrightarrow> no_wrap (addr e) (len e) \<Longrightarrow> hdl e \<notin> hdl ` elems s \<Longrightarrow> inv (ins e s)"
    and ins_elems: "inv s \<Longrightarrow> no_wrap (addr e) (len e) \<Longrightarrow> hdl e \<notin> hdl ` elems s \<Longrightarrow>
      elems (ins e s) = insert e (elems s)"
    and del_inv: "inv s \<Longrightarrow> p \<in> hdl ` elems s \<Longrightarrow> safe p s \<Longrightarrow> inv (del p s)"
    and del_elems: "inv s \<Longrightarrow> p \<in> hdl ` elems s \<Longrightarrow> safe p s \<Longrightarrow> elems (del p s) = {x \<in> elems s. hdl x \<noteq> p}"
    and srch_sound: "srch a n s = Some x \<Longrightarrow> x \<in> elems s \<and> covers a n x"
    and srch_complete: "inv s \<Longrightarrow> no_wrap a n \<Longrightarrow> x \<in> elems s \<Longrightarrow> covers a n x \<Longrightarrow> srch a n s \<noteq> None"
begin

lemma srch_iff:
  assumes "inv s" "no_wrap a n"
  shows "srch a n s = None \<longleftrightarrow> (\<forall>x \<in> elems s. \<not> covers a n x)"
  using assms srch_sound srch_complete by (metis option.exhaust)

lemma del_ins:
  assumes "inv s" "no_wrap (addr e) (len e)" "hdl e \<notin> hdl ` elems s" "safe (hdl e) (ins e s)"
  shows "elems (del (hdl e) (ins e s)) = elems s"
proof -
  have "\<forall>x \<in> elems s. hdl x \<noteq> hdl e" using assms(3) by (metis imageI)
  with del_elems [OF ins_inv [OF assms(1-3)] _ assms(4)] ins_elems [OF assms(1-3)] show ?thesis by auto
qed

lemma srch_del:
  assumes "inv s" "p \<in> hdl ` elems s" "safe p s" "no_wrap a n"
  shows "srch a n (del p s) = None \<longleftrightarrow> (\<forall>x \<in> elems s. covers a n x \<longrightarrow> hdl x = p)"
  using srch_iff [OF del_inv [OF assms(1-3)] assms(4)] del_elems [OF assms(1-3)] by auto

lemma srch_ins:
  assumes "inv s" "no_wrap (addr e) (len e)" "hdl e \<notin> hdl ` elems s" "no_wrap a n"
  shows "srch a n (ins e s) = None \<longleftrightarrow> \<not> covers a n e \<and> srch a n s = None"
  using srch_iff [OF ins_inv [OF assms(1-3)] assms(4)] srch_iff [OF assms(1,4)] ins_elems [OF assms(1-3)]
  by auto

lemma ins_all:
  assumes "inv s" "distinct (map hdl es)" "\<forall>e \<in> set es. no_wrap (addr e) (len e) \<and> hdl e \<notin> hdl ` elems s"
  shows "inv (fold ins es s) \<and> elems (fold ins es s) = elems s \<union> set es"
  using assms
proof (induction es arbitrary: s)
  case Nil
  then show ?case by simp
next
  case (Cons e es)
  then have "inv (ins e s)" "elems (ins e s) = insert e (elems s)" using ins_inv ins_elems by auto
  moreover from Cons.prems have "\<forall>x \<in> set es. hdl x \<noteq> hdl e" by (auto simp: image_iff)
  ultimately show ?case using Cons.IH [of "ins e s"] Cons.prems by auto
qed

end

definition ins_obj :: "elem \<Rightarrow> cache \<Rightarrow> cache" where
  "ins_obj e c = snd (cache_insert (addr e) (len e) (val e) (hdl e) c)"

definition del_obj :: "ptr \<Rightarrow> cache \<Rightarrow> cache" where
  "del_obj p c = (case cache_remove p c of Some (r, c') \<Rightarrow> c' | None \<Rightarrow> c)"

lemma del_obj_ok:
  assumes "cache_ok c" "p \<in> hdl ` set (cache_elems c)" "root c \<noteq> Null"
  shows "cache_ok (del_obj p c)" "set (cache_elems (del_obj p c)) = {x \<in> set (cache_elems c). hdl x \<noteq> p}"
proof -
  have "p \<in> handles c" using assms(1,2) by (simp add: cache_ok_def)
  then obtain c' where "cache_remove p c = Some (commSuccess, c')" "cache_ok c'"
    "cache_elems c' = del_hdl p (cache_elems c)" using cache_remove_ok assms(1,3) by metis
  then show "cache_ok (del_obj p c)" "set (cache_elems (del_obj p c)) = {x \<in> set (cache_elems c). hdl x \<noteq> p}"
    by (simp_all add: del_obj_def set_del_hdl)
qed

interpretation rc: range_index "\<lambda>c. set (cache_elems c)" cache_ok "\<lambda>p c. root c \<noteq> Null" ins_obj del_obj cache_search
proof unfold_locales
  fix s :: cache assume "cache_ok s"
  then show "inj_on hdl (set (cache_elems s))" by (simp add: cache_ok_def distinct_map)
next
  fix s :: cache and e :: elem
  assume "cache_ok s" "no_wrap (addr e) (len e)" "hdl e \<notin> hdl ` set (cache_elems s)"
  then show "cache_ok (ins_obj e s)" "set (cache_elems (ins_obj e s)) = insert e (set (cache_elems s))"
    using cache_insert_ok [of s "addr e" "len e" "hdl e" e "val e"] by (simp_all add: ins_obj_def cache_ok_def)
next
  fix s p assume "cache_ok s" "p \<in> hdl ` set (cache_elems s)" "root s \<noteq> Null"
  then show "cache_ok (del_obj p s)" "set (cache_elems (del_obj p s)) = {x \<in> set (cache_elems s). hdl x \<noteq> p}"
    by (rule del_obj_ok)+
next
  fix a n s x assume "cache_search a n s = Some x"
  then show "x \<in> set (cache_elems s) \<and> covers a n x" by (rule cache_search_sound)
next
  fix a n s x assume "cache_ok s" "no_wrap a n" "x \<in> set (cache_elems s)" "covers a n x"
  then show "cache_search a n s \<noteq> None" by (rule cache_search_complete)
qed

section \<open>Reachable caches\<close>

text \<open>
  Callers pass ranges that exist in the address space; \<^verbatim>\<open>new\<close> returns an address that no
  live object has.
\<close>

inductive cache_step :: "cache \<Rightarrow> cache \<Rightarrow> bool" where
  insert: "p \<notin> handles c \<Longrightarrow> no_wrap a n \<Longrightarrow> cache_step c (snd (cache_insert a n v p c))"
| remove: "cache_remove p c = Some (res, c') \<Longrightarrow> cache_step c c'"

inductive cache_reach :: "cache \<Rightarrow> bool" where
  init: "cache_reach cache_init"
| step: "cache_reach c \<Longrightarrow> cache_step c c' \<Longrightarrow> cache_reach c'"

lemma cache_remove_unknown: "p \<notin> handles c \<Longrightarrow> cache_remove p c = Some (commInvalidUsage, c)"
  by (simp add: cache_remove_def)

lemma cache_remove_null: "p \<in> handles c \<Longrightarrow> root c = Null \<Longrightarrow> cache_remove p c = None"
  by (simp add: cache_remove_def)

lemma cache_remove_keeps_ok: "cache_ok c \<Longrightarrow> cache_remove p c = Some (res, c') \<Longrightarrow> cache_ok c'"
proof (cases "p \<in> handles c \<and> root c \<noteq> Null")
  case True
  assume "cache_ok c" "cache_remove p c = Some (res, c')"
  with True cache_remove_ok [of c p] show ?thesis by (metis option.inject prod.inject)
qed (auto simp: cache_remove_def split: if_splits)

lemma cache_reach_ok: "cache_reach c \<Longrightarrow> cache_ok c"
proof (induction rule: cache_reach.induct)
  case init
  show ?case by (rule cache_ok_init)
next
  case (step c c')
  from step(2,3) show ?case
    by cases (auto intro: cache_insert_ok(2) cache_remove_keeps_ok)
qed

section \<open>Insertions alone keep the tree balanced\<close>

lemma ins_obj_root: "root (ins_obj e c) = fst (insert_sub \<lparr>hdl = hdl e, addr = addr e, len = len e, val = val e\<rparr> (root c))"
  by (simp add: ins_obj_def cache_insert_root Let_def split: prod.split option.split)

lemma ins_obj_balanced:
  "heights_ok (root c) \<and> balanced (root c) \<Longrightarrow> heights_ok (root (ins_obj e c)) \<and> balanced (root (ins_obj e c))"
  using insert_sub_balanced by (simp add: ins_obj_root heights_ok_insert_sub)

lemma fold_ins_obj_balanced:
  "heights_ok (root c) \<and> balanced (root c) \<Longrightarrow>
    heights_ok (root (fold ins_obj es c)) \<and> balanced (root (fold ins_obj es c))"
  by (induction es arbitrary: c) (simp_all add: ins_obj_balanced)

lemma cache_isBalanced_iff: "cache_isBalanced c \<longleftrightarrow> balanced (root c)"
  by (cases "root c") (simp_all add: cache_isBalanced_def tree_isBalanced_iff)

lemma cache_validateHeight_iff: "cache_validateHeight c \<longleftrightarrow> heights_ok (root c)"
  by (cases "root c") (simp_all add: cache_validateHeight_def tree_validateHeight_iff)

section \<open>Lookups\<close>

lemma lookup_ok:
  assumes "cache_ok c"
  shows "cache_lookup p c = Some v \<longleftrightarrow> (\<exists>e \<in> set (cache_elems c). hdl e = p \<and> val e = v)"
proof
  assume "cache_lookup p c = Some v"
  then obtain e where "deref c p = Some e" "val e = v" by (auto simp: cache_lookup_def split: if_splits)
  with deref_mem show "\<exists>e \<in> set (cache_elems c). hdl e = p \<and> val e = v" by blast
next
  assume "\<exists>e \<in> set (cache_elems c). hdl e = p \<and> val e = v"
  then obtain e where e: "e \<in> set (cache_elems c)" "hdl e = p" "val e = v" by blast
  with assms have "deref c p = Some e" "p \<in> handles c" using deref_hdl by (auto simp: cache_ok_def)
  with e show "cache_lookup p c = Some v" by (simp add: cache_lookup_def)
qed

lemma lookup_None: "cache_ok c \<Longrightarrow> cache_lookup p c = None \<longleftrightarrow> p \<notin> hdl ` set (cache_elems c)"
  using deref_handles [of c p] by (auto simp: cache_lookup_def cache_ok_def)

lemma lookup_eqI:
  assumes "cache_ok c" "cache_ok c'" "{e \<in> set (cache_elems c). hdl e = p} = {e \<in> set (cache_elems c'). hdl e = p}"
  shows "cache_lookup p c = cache_lookup p c'"
proof -
  have "cache_lookup p c = Some v \<longleftrightarrow> cache_lookup p c' = Some v" for v
    unfolding lookup_ok [OF assms(1)] lookup_ok [OF assms(2)] using assms(3) by blast
  then show ?thesis by (metis not_Some_eq)
qed

lemma mset_insert_distinct:
  assumes "distinct xs" "distinct ys" "e \<notin> set xs" "set ys = insert e (set xs)"
  shows "mset ys = add_mset e (mset xs)"
  using assms set_eq_iff_mset_eq_distinct [of ys "e # xs"] by simp

lemma cache_ok_distinct: "cache_ok c \<Longrightarrow> distinct (cache_elems c)"
  by (auto simp: cache_ok_def distinct_map)

section \<open>Properties\<close>

text \<open>C19: \<open>insert\<close> returns the new object; afterwards a lookup of its handle gives the value
  inserted, every other handle is looked up as before, the walk over all elements has exactly this
  one more, and the range went to the tree exactly when it meets no range of the tree.\<close>

theorem cache_insert_functional:
  assumes "cache_reach c" "no_wrap a n" "p \<notin> handles c"
    and e: "e = \<lparr>hdl = p, addr = a, len = n, val = v\<rparr>" and c': "c' = snd (cache_insert a n v p c)"
  shows "fst (cache_insert a n v p c) = p \<and> cache_lookup p c' = Some v \<and>
    (\<forall>q. q \<noteq> p \<longrightarrow> cache_lookup q c' = cache_lookup q c) \<and>
    mset (cache_getAllElems c') = add_mset e (mset (cache_getAllElems c)) \<and>
    (ovl_list c' = ovl_list c \<longleftrightarrow> tree_accepts c e)"
proof (intro conjI allI impI)
  have ok: "cache_ok c" by (rule cache_reach_ok [OF assms(1)])
  note ins = cache_insert_ok [OF ok assms(2,3) e, folded c']
  show "fst (cache_insert a n v p c) = p" by (rule ins(1))
  show "cache_lookup p c' = Some v" using lookup_ok [OF ins(2)] ins(3) e by auto
  show "cache_lookup q c' = cache_lookup q c" if "q \<noteq> p" for q
    using that ins(3) e by (intro lookup_eqI ins(2) ok) auto
  have "e \<notin> set (cache_elems c)" 
    using ok assms(3) e unfolding cache_ok_def by (metis elem.select_convs(1) imageI)
  then show "mset (cache_getAllElems c') = add_mset e (mset (cache_getAllElems c))"
    using mset_insert_distinct [OF cache_ok_distinct [OF ok] cache_ok_distinct [OF ins(2)] _ ins(3)]
    by (simp add: mset_getAllElems)
  show "ovl_list c' = ovl_list c \<longleftrightarrow> tree_accepts c e"
    using ok assms(2) e by (cases rule: cache_insert_cases [OF ok assms(2) e]) (auto simp: c')
qed

definition demo1 :: cache where "demo1 = snd (cache_insert 4096 256 11 1 cache_init)"
definition demo2 :: cache where "demo2 = snd (cache_insert 8192 256 22 2 demo1)"

lemma demo1_eq: "demo1 = \<lparr>root = Node \<lparr>hdl = 1, addr = 4096, len = 256, val = 11\<rparr> 1 Null Null,
    ovl_list = [], handles = {1}\<rparr>"
  by (simp add: demo1_def cache_insert_def cache_init_def)

lemma no_wrap_numeral:
  "unat (numeral a :: u64) + unat (numeral b :: u64) < 2 ^ 64 \<Longrightarrow> no_wrap (numeral a) (numeral b)"
  by (simp add: no_wrap_def)

lemma demo_reach: "cache_reach demo1" "cache_reach demo2"
proof -
  show 1: "cache_reach demo1" unfolding demo1_def
    by (rule cache_reach.step [OF cache_reach.init], rule cache_step.insert)
       (simp_all add: cache_init_def no_wrap_numeral)
  show "cache_reach demo2" unfolding demo2_def
    by (rule cache_reach.step [OF 1], rule cache_step.insert) (simp_all add: demo1_eq no_wrap_numeral)
qed

theorem cache_insert_functional_witness:
  "cache_reach demo1 \<and> no_wrap 8192 256 \<and> 2 \<notin> handles demo1 \<and> cache_lookup 2 demo2 = Some 22"
proof -
  have h: "no_wrap 8192 256" "2 \<notin> handles demo1" by (simp_all add: no_wrap_numeral demo1_eq)
  from cache_insert_functional [OF demo_reach(1) h refl refl, of 22] h demo_reach(1)
  show ?thesis by (simp add: demo2_def)
qed

text \<open>C20: \<open>remove\<close> of an unknown handle is refused with \<open>commInvalidUsage\<close> and changes nothing
  (the double free the message speaks of); of a known handle it removes exactly that object, so
  that its lookup fails and every other one is unchanged, if the tree is not empty. If the tree is empty, a known handle is in the
  overlap list, and the behaviour is undefined: the code calls a method of the null root.\<close>

theorem cache_remove_functional:
  assumes "cache_reach c"
  shows "(p \<notin> handles c \<longrightarrow> cache_remove p c = Some (commInvalidUsage, c)) \<and>
    (p \<in> handles c \<and> root c \<noteq> Null \<longrightarrow>
      (\<exists>c'. cache_remove p c = Some (commSuccess, c') \<and> cache_lookup p c' = None \<and>
        (\<forall>q. q \<noteq> p \<longrightarrow> cache_lookup q c' = cache_lookup q c) \<and>
        mset (cache_getAllElems c') = filter_mset (\<lambda>e. hdl e \<noteq> p) (mset (cache_getAllElems c)) \<and>
        cache_remove p c' = Some (commInvalidUsage, c'))) \<and>
    (p \<in> handles c \<and> root c = Null \<longrightarrow> p \<in> hdl ` set (ovl_list c) \<and> cache_remove p c = None)"
proof (intro conjI impI)
  show "cache_remove p c = Some (commInvalidUsage, c)" if "p \<notin> handles c"
    using that by (rule cache_remove_unknown)
next
  assume "p \<in> handles c \<and> root c \<noteq> Null"
  moreover have ok: "cache_ok c" by (rule cache_reach_ok [OF assms])
  ultimately obtain c' where c': "cache_remove p c = Some (commSuccess, c')" "cache_ok c'"
    "cache_elems c' = del_hdl p (cache_elems c)" "handles c' = handles c - {p}"
    using cache_remove_ok by metis
  have "cache_lookup p c' = None" using c'(4) by (simp add: cache_lookup_def)
  moreover have "cache_lookup q c' = cache_lookup q c" if "q \<noteq> p" for q
    using that by (intro lookup_eqI c'(2) ok) (auto simp: c'(3) set_del_hdl)
  moreover have "mset (cache_getAllElems c') = filter_mset (\<lambda>e. hdl e \<noteq> p) (mset (cache_getAllElems c))"
    by (simp add: mset_getAllElems c'(3) del_hdl_def mset_filter)
  moreover have "cache_remove p c' = Some (commInvalidUsage, c')"
    using c'(4) by (intro cache_remove_unknown) simp
  ultimately show "\<exists>c'. cache_remove p c = Some (commSuccess, c') \<and> cache_lookup p c' = None \<and>
        (\<forall>q. q \<noteq> p \<longrightarrow> cache_lookup q c' = cache_lookup q c) \<and>
        mset (cache_getAllElems c') = filter_mset (\<lambda>e. hdl e \<noteq> p) (mset (cache_getAllElems c)) \<and>
        cache_remove p c' = Some (commInvalidUsage, c')"
    using c'(1) by blast
next
  assume p: "p \<in> handles c \<and> root c = Null"
  then show "cache_remove p c = None" by (simp add: cache_remove_def)
  have "handles c = hdl ` set (cache_elems c)" using cache_reach_ok [OF assms] by (simp add: cache_ok_def)
  then show "p \<in> hdl ` set (ovl_list c)" using p by (auto simp: cache_elems_def)
qed

theorem cache_remove_functional_witness:
  "cache_reach demo1 \<and> (\<exists>c'. cache_remove 1 demo1 = Some (commSuccess, c') \<and> cache_lookup 1 c' = None)"
  using cache_remove_functional [OF demo_reach(1), of 1] demo_reach(1) by (auto simp: demo1_eq)

text \<open>C21: \<open>search\<close> is exact: it returns an element whose range covers the queried one whenever
  any element of the cache, in the tree or in the overlap list, covers it.\<close>

theorem cache_search_exact:
  assumes "cache_reach c" "no_wrap a n"
  shows "(cache_search a n c = None \<longleftrightarrow> (\<forall>x \<in> set (cache_getAllElems c). \<not> covers a n x)) \<and>
    (\<forall>x. cache_search a n c = Some x \<longrightarrow> x \<in> set (cache_getAllElems c) \<and> covers a n x)"
proof -
  have "set (cache_getAllElems c) = set (cache_elems c)"
    using mset_getAllElems by (metis set_mset_mset)
  then show ?thesis
    using rc.srch_iff [OF cache_reach_ok [OF assms(1)] assms(2)] rc.srch_sound by auto
qed

theorem cache_search_exact_witness:
  "cache_reach demo1 \<and> no_wrap 4100 8 \<and> cache_search 4100 8 demo1 \<noteq> None"
proof -
  have h: "no_wrap 4100 8" by (simp add: no_wrap_numeral)
  from cache_search_exact [OF demo_reach(1) h] have
    "cache_search 4100 8 demo1 = None \<longleftrightarrow> (\<forall>x \<in> set (cache_getAllElems demo1). \<not> covers 4100 8 x)" by blast
  then show ?thesis using h demo_reach(1)
    by (simp add: demo1_eq cache_getAllElems_def covers_def)
qed

text \<open>C25: as long as elements are only inserted, the tree is balanced and its height is
  logarithmic: a tree of height \<open>h\<close> holds at least \<open>2 ^ ((h + 1) div 2) - 1\<close> elements, so a search
  visits at most twice the logarithm of the size.\<close>

theorem cache_inserts_balanced:
  "cache_isBalanced (fold ins_obj es cache_init) \<and>
   2 ^ ((height_of (root (fold ins_obj es cache_init)) + 1) div 2)
     \<le> tree_size (root (fold ins_obj es cache_init)) + 1"
proof -
  have "heights_ok (root (fold ins_obj es cache_init)) \<and> balanced (root (fold ins_obj es cache_init))"
    by (rule fold_ins_obj_balanced) (simp add: cache_init_def)
  then show ?thesis
    using balanced_size_bound by (simp add: cache_isBalanced_iff tree_size_inorder)
qed

text \<open>C26: in every reachable cache, removals included, the cached heights are right, no two ranges
  of the tree overlap, and \<open>size\<close> counts what \<open>getAllElems\<close> lists, each object once.\<close>

theorem cache_reach_consistent:
  assumes "cache_reach c"
  shows "cache_validateHeight c \<and> ranges_ok (inorder (root c)) \<and>
    cache_size c = length (cache_getAllElems c) \<and> distinct (map hdl (cache_getAllElems c))"
proof -
  have ok: "cache_ok c" by (rule cache_reach_ok [OF assms])
  have "length (cache_getAllElems c) = length (cache_elems c)"
    using mset_getAllElems by (metis size_mset)
  moreover have "distinct (map hdl (cache_getAllElems c)) \<longleftrightarrow> distinct (map hdl (cache_elems c))"
    using mset_getAllElems [of c] by (metis mset_eq_imp_distinct_iff mset_map)
  ultimately show ?thesis
    using ok cache_size_elems [OF ok] by (simp add: cache_validateHeight_iff) (simp add: cache_ok_def)
qed

theorem cache_reach_consistent_witness: "cache_reach demo2 \<and> cache_validateHeight demo2"
  using cache_reach_consistent [OF demo_reach(2)] demo_reach(2) by blast

text \<open>Removing a live handle is undefined exactly when the tree is empty: \<open>remove\<close> then calls a
  method on the null root, although the handle is in the overlap list. Such a state is reachable:
  insert a range, insert one that overlaps it, and remove the first.\<close>

lemma cache_remove_undefined:
  "(\<forall>c p. cache_reach c \<longrightarrow> (cache_remove p c = None \<longleftrightarrow> p \<in> handles c \<and> root c = Null)) \<and>
   (\<exists>c p. cache_reach c \<and> p \<in> handles c \<and> cache_remove p c = None)"
proof (intro conjI allI impI)
  fix c p assume "cache_reach c"
  then show "cache_remove p c = None \<longleftrightarrow> p \<in> handles c \<and> root c = Null"
    using cache_remove_ok [of c p] cache_reach_ok [of c] cache_remove_unknown [of p c]
    by (cases "p \<in> handles c"; cases "root c = Null"; metis option.distinct(1) cache_remove_null)
next
  let ?ovl = "\<lparr>hdl = 2, addr = 4200, len = 8, val = 22\<rparr>"
  let ?c2 = "snd (cache_insert 4200 8 22 2 demo1)"
  let ?c3 = "\<lparr>root = Null, ovl_list = [?ovl], handles = {2}\<rparr>"
  have c2: "?c2 = \<lparr>root = Node \<lparr>hdl = 1, addr = 4096, len = 256, val = 11\<rparr> 1 Null Null,
      ovl_list = [?ovl], handles = {1, 2}\<rparr>"
    by (simp add: demo1_eq cache_insert_def insert_elem.simps overlaps_def insert_commute)
  have "cache_reach ?c2"
    by (rule cache_reach.step [OF demo_reach(1)], rule cache_step.insert) (simp_all add: demo1_eq no_wrap_numeral)
  moreover have "cache_remove 1 ?c2 = Some (commSuccess, ?c3)"
    unfolding c2 by (simp add: cache_remove_def deref_def cache_elems_def remove_elem_def insert_Diff_if)
  ultimately have "cache_reach ?c3" using cache_step.remove cache_reach.step by blast
  moreover have "cache_remove 2 ?c3 = None" by (simp add: cache_remove_def)
  ultimately show "\<exists>c p. cache_reach c \<and> p \<in> handles c \<and> cache_remove p c = None" by force
qed

lemma cache_remove_undefined_witness: "cache_reach demo1 \<and> cache_remove 1 demo1 \<noteq> None"
  using cache_remove_undefined demo_reach(1) by (auto simp: demo1_eq)

end
