(* ===== verification/Slab_Allocator.thy ===== *)
theory Slab_Allocator imports Prelude begin

text \<open>
  The bump allocator of \<^verbatim>\<open>comms/ctran/memory/SlabAllocator.cc\<close>: it takes slabs from the
  CUDA driver and hands out consecutive blocks of the last one. The driver is the argument
  \<open>drv\<close>: for a size it returns an error code or the address and the handle of a new slab
  (\<^verbatim>\<open>commCuMemAlloc\<close>). An error is \<open>Inl\<close>; it leaves the state as it was.
\<close>

section \<open>State and operations\<close>

record slab =
  slabPtrs :: "u64 list"
  freeSize :: u64
  startPtr :: u64
  slabHandle :: ptr
  granularity :: u64
  totalMem :: u64

text \<open>\<open>g\<close> is the granularity the constructor asks the driver for.\<close>

definition slab_init :: "u64 \<Rightarrow> slab" where
  "slab_init g = \<lparr>slabPtrs = [], freeSize = 0, startPtr = 0, slabHandle = 0, granularity = g, totalMem = 0\<rparr>"

type_synonym driver = "u64 \<Rightarrow> commResult + u64 \<times> ptr"

text \<open>The results are the block, the handle of its slab and, when a slab was taken, its size.\<close>

definition allocateMem :: "driver \<Rightarrow> u64 \<Rightarrow> slab \<Rightarrow> commResult + (u64 \<times> ptr \<times> u64 option) \<times> slab" where
  "allocateMem drv n s =
     (if freeSize s < n then
        (let slabSize = roundUp n (granularity s)
         in case drv slabSize of
              Inl e \<Rightarrow> Inl e
            | Inr (p, h) \<Rightarrow>
                Inr ((p, h, Some slabSize),
                     s\<lparr>slabPtrs := slabPtrs s @ [p], slabHandle := h, freeSize := slabSize - n,
                       startPtr := p + n, totalMem := totalMem s + slabSize\<rparr>))
      else
        Inr ((startPtr s, slabHandle s, None),
             s\<lparr>startPtr := startPtr s + n, freeSize := freeSize s - n\<rparr>))"

definition kMinAlignSize :: u64 where "kMinAlignSize = 16"

definition cuMalloc :: "driver \<Rightarrow> u64 \<Rightarrow> slab \<Rightarrow> commResult + (u64 \<times> ptr \<times> u64 option) \<times> slab" where
  "cuMalloc drv n s = allocateMem drv (roundUp n kMinAlignSize) s"

text \<open>
  \<open>mode1\<close>, \<open>memset\<close> and \<open>mode2\<close> say whether the three CUDA runtime calls succeed; after a failed
  \<^verbatim>\<open>cudaMemsetAsync\<close> the block stays allocated.
\<close>

definition cuCallocAsync :: "bool \<Rightarrow> bool \<Rightarrow> bool \<Rightarrow> driver \<Rightarrow> u64 \<Rightarrow> slab \<Rightarrow> commResult \<times> u64 option \<times> slab" where
  "cuCallocAsync mode1 memset mode2 drv n s =
     (let allocSize = roundUp n kMinAlignSize
      in if \<not> mode1 then (commUnhandledCudaError, None, s)
         else case allocateMem drv allocSize s of
           Inl e \<Rightarrow> (e, None, s)
         | Inr ((p, h, ns), s') \<Rightarrow>
             if \<not> memset then (commUnhandledCudaError, Some p, s')
             else if \<not> mode2 then (commUnhandledCudaError, Some p, s')
             else (commSuccess, Some p, s'))"

definition slab_getUsedMem :: "slab \<Rightarrow> u64" where
  "slab_getUsedMem s = totalMem s"

section \<open>Blocks and slabs\<close>

text \<open>
  The invariant relates the state to the slabs taken and the blocks handed out so far: the slabs are
  disjoint, the blocks are disjoint and inside the slabs, and the rest of the last slab is free.
\<close>

definition free_bytes :: "slab \<Rightarrow> nat set" where
  "free_bytes s = bytes (startPtr s, freeSize s)"

definition slab_inv :: "slab \<Rightarrow> (u64 \<times> u64) list \<Rightarrow> (u64 \<times> u64) list \<Rightarrow> bool" where
  "slab_inv s ss bs \<longleftrightarrow>
     map fst ss = slabPtrs s \<and> sum_list (map snd ss) = totalMem s \<and>
     sorted_wrt (\<lambda>a b. disjnt (bytes a) (bytes b)) ss \<and>
     sorted_wrt (\<lambda>a b. disjnt (bytes a) (bytes b)) bs \<and>
     (\<forall>b \<in> set bs. disjnt (bytes b) (free_bytes s) \<and> bytes b \<subseteq> (\<Union>a \<in> set ss. bytes a)) \<and>
     free_bytes s \<subseteq> (\<Union>a \<in> set ss. bytes a) \<and> no_wrap (startPtr s) (freeSize s)"

text \<open>What the driver promises: the new slab does not wrap and is disjoint from the live ones.\<close>

definition driver_ok :: "driver \<Rightarrow> (u64 \<times> u64) list \<Rightarrow> bool" where
  "driver_ok drv ss \<longleftrightarrow> (\<forall>n p h. drv n = Inr (p, h) \<longrightarrow>
     no_wrap p n \<and> (\<forall>a \<in> set ss. disjnt (bytes (p, n)) (bytes a)))"

lemma slab_inv_init: "slab_inv (slab_init g) [] []"
  by (simp add: slab_inv_def slab_init_def free_bytes_def)

lemma bytes_split:
  assumes "no_wrap p m" "n \<le> m"
  shows "bytes (p, n) \<subseteq> bytes (p, m)" "bytes (p + n, m - n) \<subseteq> bytes (p, m)"
    "disjnt (bytes (p, n)) (bytes (p + n, m - n))" "no_wrap (p + n) (m - n)"
proof -
  have nm: "unat n \<le> unat m" using assms(2) by (simp add: word_le_nat_alt)
  then have "no_wrap p n" using assms(1) by (simp add: no_wrap_def)
  then have a: "unat (p + n) = unat p + unat n" by (rule unat_add_no_wrap)
  have d: "unat (m - n) = unat m - unat n" using assms(2) by (rule unat_sub)
  show "bytes (p, n) \<subseteq> bytes (p, m)" "bytes (p + n, m - n) \<subseteq> bytes (p, m)"
    "disjnt (bytes (p, n)) (bytes (p + n, m - n))" "no_wrap (p + n) (m - n)"
    using nm a d assms(1) by (auto simp: bytes_def disjnt_def no_wrap_def)
qed

text \<open>One allocation from the rest of the last slab.\<close>

lemma slab_inv_bump:
  assumes inv: "slab_inv s ss bs" and n: "n \<le> freeSize s"
  shows "slab_inv (s\<lparr>startPtr := startPtr s + n, freeSize := freeSize s - n\<rparr>) ss (bs @ [(startPtr s, n)])"
proof -
  have nw: "no_wrap (startPtr s) (freeSize s)" using inv by (simp add: slab_inv_def)
  note sp = bytes_split [OF nw n]
  have "disjnt (bytes b) (bytes (startPtr s, n))" if "b \<in> set bs" for b
    using inv that sp(1) unfolding slab_inv_def free_bytes_def by (meson disjnt_subset2)
  moreover have "disjnt (bytes b) (bytes (startPtr s + n, freeSize s - n))" if "b \<in> set bs" for b
    using inv that sp(2) unfolding slab_inv_def free_bytes_def by (meson disjnt_subset2)
  ultimately show ?thesis
    using inv sp unfolding slab_inv_def by (auto simp: free_bytes_def sorted_wrt_append disjnt_sym)
qed

text \<open>One allocation that takes a new slab; the rest of the old one is given up.\<close>

lemma slab_inv_new:
  assumes inv: "slab_inv s ss bs" and p: "no_wrap p m" "\<forall>a \<in> set ss. disjnt (bytes (p, m)) (bytes a)"
    and n: "n \<le> m"
  shows "slab_inv (s\<lparr>slabPtrs := slabPtrs s @ [p], slabHandle := h, freeSize := m - n,
      startPtr := p + n, totalMem := totalMem s + m\<rparr>) (ss @ [(p, m)]) (bs @ [(p, n)])"
proof -
  note sp = bytes_split [OF p(1) n]
  have old: "disjnt (bytes (p, m)) (bytes b)" if "b \<in> set bs" for b
    using inv that p(2) unfolding slab_inv_def disjnt_def by blast
  have "disjnt (bytes b) (bytes (p, n))" "disjnt (bytes b) (bytes (p + n, m - n))" if "b \<in> set bs" for b
    using old [OF that] sp(1,2) by (meson disjnt_subset1 disjnt_subset2 disjnt_sym)+
  with inv p(2) sp show ?thesis
    unfolding slab_inv_def by (auto simp: free_bytes_def sorted_wrt_append disjnt_sym)
qed

lemma allocateMem_inv:
  assumes inv: "slab_inv s ss bs" and drv: "driver_ok drv ss"
    and fits: "freeSize s < n \<longrightarrow> n \<le> roundUp n (granularity s)"
    and res: "allocateMem drv n s = Inr ((p, h, ns), s')"
  shows "slab_inv s' (ss @ (case ns of None \<Rightarrow> [] | Some m \<Rightarrow> [(p, m)])) (bs @ [(p, n)])"
proof (cases "freeSize s < n")
  case True
  with res drv fits inv show ?thesis
    by (auto simp: allocateMem_def driver_ok_def Let_def split: sum.splits intro!: slab_inv_new)
next
  case False
  with res inv show ?thesis by (auto simp: allocateMem_def intro!: slab_inv_bump)
qed

section \<open>Runs\<close>

text \<open>
  A run of calls of the two entry points, with the slabs taken and the blocks handed out. \<^verbatim>\<open>cuCallocAsync\<close> does not report a new
  slab: it shows in the total. Its block counts as handed out also when a CUDA call fails after the allocation.
\<close>

inductive slab_run :: "slab \<Rightarrow> (u64 \<times> u64) list \<Rightarrow> (u64 \<times> u64) list \<Rightarrow> bool" where
  init: "g \<noteq> 0 \<Longrightarrow> slab_run (slab_init g) [] []"
| malloc: "\<lbrakk>slab_run s ss bs; driver_ok drv ss; unat n + 16 + unat (granularity s) \<le> 2 ^ 64;
    cuMalloc drv n s = Inr ((p, h, ns), s')\<rbrakk> \<Longrightarrow>
    slab_run s' (ss @ (case ns of None \<Rightarrow> [] | Some m \<Rightarrow> [(p, m)])) (bs @ [(p, roundUp n 16)])"
| calloc: "\<lbrakk>slab_run s ss bs; driver_ok drv ss; unat n + 16 + unat (granularity s) \<le> 2 ^ 64;
    cuCallocAsync mode1 memset mode2 drv n s = (res, Some p, s')\<rbrakk> \<Longrightarrow>
    slab_run s' (ss @ (if slabPtrs s' = slabPtrs s then [] else [(p, totalMem s' - totalMem s)])) (bs @ [(p, roundUp n 16)])"
| calloc_failed: "\<lbrakk>slab_run s ss bs; cuCallocAsync mode1 memset mode2 drv n s = (res, None, s')\<rbrakk> \<Longrightarrow> slab_run s' ss bs"

lemma calloc_is_malloc:
  assumes "cuCallocAsync mode1 memset mode2 drv n s = (res, Some p, s')"
  obtains h ns where "cuMalloc drv n s = Inr ((p, h, ns), s')"
    "(if slabPtrs s' = slabPtrs s then [] else [(p, totalMem s' - totalMem s)]) = (case ns of None \<Rightarrow> [] | Some m \<Rightarrow> [(p, m)])"
proof -
  obtain h ns where m: "cuMalloc drv n s = Inr ((p, h, ns), s')"
    using assms by (auto simp: cuCallocAsync_def cuMalloc_def Let_def split: if_splits sum.splits)
  moreover have "(if slabPtrs s' = slabPtrs s then [] else [(p, totalMem s' - totalMem s)]) = (case ns of None \<Rightarrow> [] | Some m \<Rightarrow> [(p, m)])"
    using m by (auto simp: cuMalloc_def allocateMem_def Let_def split: if_splits sum.splits)
  ultimately show ?thesis using that by blast
qed

lemma calloc_none: "cuCallocAsync mode1 memset mode2 drv n s = (res, None, s') \<Longrightarrow> s' = s"
  by (auto simp: cuCallocAsync_def Let_def split: if_splits sum.splits)

lemma allocateMem_granularity: "allocateMem drv n s = Inr (r, s') \<Longrightarrow> granularity s' = granularity s"
  by (auto simp: allocateMem_def Let_def split: if_splits sum.splits)

lemma malloc_inv:
  assumes inv: "slab_inv s ss bs" "granularity s \<noteq> 0" and drv: "driver_ok drv ss"
    and n: "unat n + 16 + unat (granularity s) \<le> 2 ^ 64" and r: "cuMalloc drv n s = Inr ((p, h, ns), s')"
  shows "slab_inv s' (ss @ (case ns of None \<Rightarrow> [] | Some m \<Rightarrow> [(p, m)])) (bs @ [(p, roundUp n 16)]) \<and> granularity s' \<noteq> 0"
proof -
  let ?m = "roundUp n 16"
  have "unat ?m < unat n + 16" using roundUp_ge(2) [of n 16] n by simp
  then have "?m \<le> roundUp ?m (granularity s)" using n inv(2) by (intro roundUp_ge(1)) auto
  then show ?thesis using r inv drv allocateMem_inv [OF inv(1) drv, of ?m p h ns s']
    by (auto simp: cuMalloc_def kMinAlignSize_def dest: allocateMem_granularity)
qed

lemma slab_run_inv: "slab_run s ss bs \<Longrightarrow> slab_inv s ss bs \<and> granularity s \<noteq> 0"
proof (induction rule: slab_run.induct)
  case (init g)
  then show ?case by (simp add: slab_inv_init) (simp add: slab_init_def)
next
  case (malloc s ss bs drv n p h ns s')
  then show ?case using malloc_inv by blast
next
  case (calloc s ss bs drv n mode1 memset mode2 res p s')
  obtain h ns where m: "cuMalloc drv n s = Inr ((p, h, ns), s')"
    and e: "(if slabPtrs s' = slabPtrs s then [] else [(p, totalMem s' - totalMem s)]) = (case ns of None \<Rightarrow> [] | Some m \<Rightarrow> [(p, m)])"
    by (rule calloc_is_malloc [OF calloc.hyps(4)])
  show ?case unfolding e using malloc_inv [OF _ _ calloc.hyps(2,3) m] calloc.IH by blast
next
  case (calloc_failed s ss bs mode1 memset mode2 drv n res s')
  then show ?case using calloc_none by blast
qed

lemma malloc_aligned:
  assumes "16 dvd unat (startPtr s)" "\<forall>a \<in> set (case ns of None \<Rightarrow> [] | Some m \<Rightarrow> [(p, m)]). 16 dvd unat (fst a)"
    and r: "cuMalloc drv n s = Inr ((p, h, ns), s')"
  shows "16 dvd unat (startPtr s') \<and> 16 dvd unat p \<and> 16 dvd unat (roundUp n 16)"
proof -
  let ?m = "roundUp n 16"
  have m: "16 dvd unat ?m" using roundUp_dvd [of 16 n] by simp
  have add: "16 dvd unat (q + ?m)" if "16 dvd unat q" for q
    using that m by (simp add: unat_word_ariths dvd_mod_iff)
  show ?thesis
  proof (cases "freeSize s < ?m")
    case True
    then obtain k where "ns = Some k" "startPtr s' = p + ?m"
      using r by (auto simp: cuMalloc_def kMinAlignSize_def allocateMem_def Let_def split: sum.splits)
    then show ?thesis using assms(2) m add by simp
  next
    case False
    then have "startPtr s' = startPtr s + ?m" "p = startPtr s"
      using r by (auto simp: cuMalloc_def kMinAlignSize_def allocateMem_def)
    then show ?thesis using assms(1) m add by simp
  qed
qed

lemma slab_run_aligned:
  assumes "slab_run s ss bs" "\<forall>a \<in> set ss. 16 dvd unat (fst a)"
  shows "16 dvd unat (startPtr s) \<and> (\<forall>b \<in> set bs. 16 dvd unat (fst b) \<and> 16 dvd unat (snd b))"
  using assms
proof (induction rule: slab_run.induct)
  case (init g)
  then show ?case by (simp add: slab_init_def)
next
  case (malloc s ss bs drv n p h ns s')
  then show ?case using malloc_aligned [OF _ _ malloc.hyps(4)] by simp
next
  case (calloc s ss bs drv n mode1 memset mode2 res p s')
  obtain h ns where m: "cuMalloc drv n s = Inr ((p, h, ns), s')"
    and e: "(if slabPtrs s' = slabPtrs s then [] else [(p, totalMem s' - totalMem s)]) = (case ns of None \<Rightarrow> [] | Some m \<Rightarrow> [(p, m)])"
    by (rule calloc_is_malloc [OF calloc.hyps(4)])
  show ?case using malloc_aligned [OF _ _ m] calloc.IH calloc.prems unfolding e by simp
next
  case (calloc_failed s ss bs mode1 memset mode2 drv n res s')
  then show ?case using calloc_none by blast
qed

text \<open>C27: two blocks the slab allocator handed out, by \<open>cuMalloc\<close> or \<open>cuCallocAsync\<close>, never share a byte, every block lies inside the
  slabs taken from the driver and starts on a 16-byte boundary if the slabs do, and
  \<open>getUsedMem\<close> is the total size of the slabs.\<close>

theorem slab_blocks_disjoint:
  assumes "slab_run s ss bs"
  shows "(\<forall>i j. i < j \<and> j < length bs \<longrightarrow> bytes (bs ! i) \<inter> bytes (bs ! j) = {}) \<and>
    (\<forall>b \<in> set bs. bytes b \<subseteq> (\<Union>a \<in> set ss. bytes a)) \<and>
    ((\<forall>a \<in> set ss. 16 dvd unat (fst a)) \<longrightarrow> (\<forall>b \<in> set bs. 16 dvd unat (fst b))) \<and>
    slab_getUsedMem s = sum_list (map snd ss)"
proof -
  have inv: "slab_inv s ss bs" using slab_run_inv [OF assms] by blast
  then have "bytes (bs ! i) \<inter> bytes (bs ! j) = {}" if "i < j" "j < length bs" for i j
    using that unfolding slab_inv_def disjnt_def by (meson sorted_wrt_nth_less)
  with inv slab_run_aligned [OF assms] show ?thesis
    by (simp add: slab_inv_def slab_getUsedMem_def)
qed

theorem slab_blocks_disjoint_witness:
  "\<exists>s ss bs. slab_run s ss bs \<and> length bs = 2 \<and> bytes (bs ! 0) \<inter> bytes (bs ! 1) = {}"
proof -
  let ?drv = "\<lambda>n. Inr (4096, 7) :: commResult + u64 \<times> ptr"
  let ?s1 = "\<lparr>slabPtrs = [4096], freeSize = 4080, startPtr = 4112, slabHandle = 7, granularity = 4096, totalMem = 4096\<rparr>"
  let ?s2 = "\<lparr>slabPtrs = [4096], freeSize = 4048, startPtr = 4144, slabHandle = 7, granularity = 4096, totalMem = 4096\<rparr>"
  have r0: "slab_run (slab_init 4096) [] []" by (rule slab_run.init) simp
  have d: "driver_ok (\<lambda>n. if n = 4096 then Inr (4096, 7) else Inl commSystemError) []"
    by (simp add: driver_ok_def no_wrap_def)
  have "slab_run ?s1 [(4096, 4096)] [(4096, 16)]"
    using slab_run.malloc [OF r0 d, of 10 4096 7 "Some 4096" ?s1]
    by (simp add: slab_init_def cuMalloc_def allocateMem_def roundUp_def kMinAlignSize_def)
  from slab_run.calloc [OF this, of "\<lambda>n. Inl commSystemError" 20 True True True commSuccess 4112 ?s2]
  have "slab_run ?s2 [(4096, 4096)] [(4096, 16), (4112, 32)]"
    by (simp add: driver_ok_def cuCallocAsync_def allocateMem_def roundUp_def kMinAlignSize_def)
  moreover from conjunct1 [OF slab_blocks_disjoint [OF this], rule_format, of 0 1]
  have "bytes ([(4096, 16), (4112, 32)] ! 0) \<inter> bytes ([(4096, 16), (4112, 32)] ! 1) = {}" by simp
  ultimately show ?thesis by (intro exI conjI) (assumption, simp, assumption)
qed

end
