(* ===== verification/Mem_Cache.thy ===== *)
theory Mem_Cache imports Slab_Allocator "HOL-Library.AList" begin

text \<open>
  The shared buffer pool of \<^verbatim>\<open>comms/ctran/memory/memCacheAllocator.cc\<close>. A region object
  is shared (\<^verbatim>\<open>shared_ptr\<close>) by the list of all regions, the free lists and the
  cache map, and is mutated through any of them: the store \<open>regs\<close> holds the objects in the order of
  creation (this is \<^verbatim>\<open>allocatedRegions_\<close>), and the maps hold indices into it. The cache map is an association list.
  The hash function of the standard library, the configuration and the driver are arguments. The
  lock makes each public method one step.
\<close>

section \<open>State\<close>

datatype bucket = DEFAULT | NVL | RDMA

record region =
  r_ptr :: u64
  r_size :: u64
  r_cuHandle :: ptr
  r_owner :: string
  r_tid :: nat
  r_refCnt :: int
  r_bucket :: bucket

record cfg =
  poolSize :: u64
  useSharedPool :: bool

record mcache =
  poolPtr :: u64
  poolRemain :: u64
  poolHandle :: ptr
  regs :: "region list"
  freeMaps :: "bucket \<Rightarrow> (u64 \<Rightarrow> nat list option) option"
  cached :: "(u64 \<times> nat) list"
  initialized :: bool
  slabAlloc :: "slab option"

text \<open>
  What a method does: it returns a code, throws, or runs into undefined behaviour (a null
  pointer is dereferenced). The first two carry the state afterwards.
\<close>

datatype 'r outcome = Ret 'r mcache | Throws mcache | Undef

definition kUnAssignedOwner :: string where "kUnAssignedOwner = ''kUnAssignedOwner''"

definition mcache_new :: mcache where
  "mcache_new = \<lparr>poolPtr = 0, poolRemain = 0, poolHandle = 0, regs = [], freeMaps = (\<lambda>_. None),
     cached = [], initialized = False, slabAlloc = None\<rparr>"

section \<open>Operations\<close>

definition mc_init :: "cfg \<Rightarrow> u64 \<Rightarrow> driver \<Rightarrow> mcache \<Rightarrow> commResult outcome" where
  "mc_init cf gran drv s =
     (if initialized s then Ret commSuccess s
      else
        let s1 = s\<lparr>slabAlloc := Some (slab_init gran), freeMaps := (\<lambda>_. Some (\<lambda>_. None))\<rparr>
        in if poolSize cf > 0 then
             (case cuMalloc drv (poolSize cf) (slab_init gran) of
                Inl e \<Rightarrow> Throws s1
              | Inr ((p, h, ns), sl) \<Rightarrow>
                  Ret commSuccess
                    (s1\<lparr>poolPtr := p, poolHandle := h, slabAlloc := Some sl,
                       poolRemain := (case ns of None \<Rightarrow> poolSize cf | Some m \<Rightarrow> m), initialized := True\<rparr>))
           else Ret commSuccess (s1\<lparr>initialized := True\<rparr>))"

definition countOccupiedRegions :: "mcache \<Rightarrow> nat" where
  "countOccupiedRegions s =
     length (remdups (map r_ptr (filter (\<lambda>r. r_refCnt r > 0) (map (\<lambda>(hk, i). regs s ! i) (AList.clearjunk (cached s))))))"

definition mc_reset :: "mcache \<Rightarrow> commResult outcome" where
  "mc_reset s =
     (if \<not> initialized s then Ret commSuccess s
      else if countOccupiedRegions s > 0 then Ret commInvalidUsage s
      else Ret commSuccess (s\<lparr>freeMaps := (\<lambda>_. None), regs := [], cached := [],
             slabAlloc := None, initialized := False\<rparr>))"

text \<open>The region found, if any, and the state without it in its free list.\<close>

definition getFreeMemReg :: "cfg \<Rightarrow> u64 \<Rightarrow> bucket \<Rightarrow> mcache \<Rightarrow> nat option outcome" where
  "getFreeMemReg cf n b s =
     (case freeMaps s b of
        None \<Rightarrow> Undef
      | Some fm \<Rightarrow>
          (if \<not> useSharedPool cf then Ret None s
           else case fm n of
             None \<Rightarrow> Ret None s
           | Some [] \<Rightarrow> Ret None s
           | Some (i # q) \<Rightarrow> Ret (Some i) (s\<lparr>freeMaps := (freeMaps s)(b := Some (fm(n := Some q)))\<rparr>)))"

definition add_region :: "u64 \<Rightarrow> u64 \<Rightarrow> ptr \<Rightarrow> nat \<Rightarrow> bucket \<Rightarrow> mcache \<Rightarrow> mcache" where
  "add_region p n h tid b s = s\<lparr>regs := regs s @
     [\<lparr>r_ptr = p, r_size = n, r_cuHandle = h, r_owner = kUnAssignedOwner, r_tid = tid,
       r_refCnt = 0, r_bucket = b\<rparr>]\<rparr>"

definition createNewMemReg :: "driver \<Rightarrow> nat \<Rightarrow> u64 \<Rightarrow> bucket \<Rightarrow> mcache \<Rightarrow> nat outcome" where
  "createNewMemReg drv tid n b s =
     (if poolPtr s \<noteq> 0 \<and> n \<le> poolRemain s then
        Ret (length (regs s))
          (add_region (poolPtr s) n (poolHandle s) tid b
             (s\<lparr>poolPtr := poolPtr s + n, poolRemain := poolRemain s - n\<rparr>))
      else case slabAlloc s of
        None \<Rightarrow> Undef
      | Some sl \<Rightarrow>
          (case cuMalloc drv n sl of
             Inl e \<Rightarrow> Throws s
           | Inr ((p, h, ns), sl') \<Rightarrow>
               Ret (length (regs s)) (add_region p n h tid b (s\<lparr>slabAlloc := Some sl'\<rparr>))))"

definition isRegionUsable :: "mcache \<Rightarrow> nat option \<Rightarrow> string \<Rightarrow> bool" where
  "isRegionUsable s region key =
     (case region of None \<Rightarrow> False
      | Some i \<Rightarrow> r_refCnt (regs s ! i) = 0 \<or> r_owner (regs s ! i) = key)"

text \<open>\<^verbatim>\<open>freeMemReg\<close> takes a region off its free list.\<close>

definition freeMemReg :: "nat \<Rightarrow> mcache \<Rightarrow> unit outcome" where
  "freeMemReg i s =
     (case freeMaps s (r_bucket (regs s ! i)) of
        None \<Rightarrow> Undef
      | Some fm \<Rightarrow>
          (case fm (r_size (regs s ! i)) of
             None \<Rightarrow> Undef
           | Some q \<Rightarrow>
               Ret () (s\<lparr>freeMaps := (freeMaps s)(r_bucket (regs s ! i) :=
                              Some (fm(r_size (regs s ! i) := Some (remove1 i q))))\<rparr>)))"

definition upd_region :: "nat \<Rightarrow> (region \<Rightarrow> region) \<Rightarrow> mcache \<Rightarrow> mcache" where
  "upd_region i f s = s\<lparr>regs := (regs s)[i := f (regs s ! i)]\<rparr>"

text \<open>The tail of \<^verbatim>\<open>getCachedCuMemById\<close>: own the region, count the use, cache it.\<close>

definition take_region :: "u64 \<Rightarrow> string \<Rightarrow> nat \<Rightarrow> mcache \<Rightarrow> (commResult \<times> u64 \<times> ptr) outcome" where
  "take_region hk key i s =
     (let s1 = upd_region i (\<lambda>r. r\<lparr>r_owner := key, r_refCnt := r_refCnt r + 1\<rparr>) s
      in Ret (commSuccess, r_ptr (regs s1 ! i), r_cuHandle (regs s1 ! i)) (s1\<lparr>cached := AList.update hk i (cached s1)\<rparr>))"

text \<open>The result is the code, the pointer and the handle returned.\<close>

definition getCachedCuMemById ::
    "(string \<Rightarrow> u64) \<Rightarrow> cfg \<Rightarrow> driver \<Rightarrow> nat \<Rightarrow> string \<Rightarrow> u64 \<Rightarrow> bucket \<Rightarrow> mcache \<Rightarrow> (commResult \<times> u64 \<times> ptr) outcome" where
  "getCachedCuMemById hash cf drv tid key n b s =
     (let alignedSize16 = roundUp n kMinAlignSize; hashKey = hash key; reg = map_of (cached s) hashKey
      in if \<not> isRegionUsable s reg key then
           (case getFreeMemReg cf alignedSize16 b s of
              Undef \<Rightarrow> Undef | Throws s1 \<Rightarrow> Throws s1
            | Ret found s1 \<Rightarrow>
                (case (case found of Some i \<Rightarrow> Ret i s1 | None \<Rightarrow> createNewMemReg drv tid n b s1) of
                   Undef \<Rightarrow> Undef | Throws s2 \<Rightarrow> Throws s2
                 | Ret i s2 \<Rightarrow>
                     if r_ptr (regs s2 ! i) = 0 then Ret (commInvalidArgument, 0, 0) s2
                     else take_region hashKey key i s2))
         else if r_refCnt (regs s ! the reg) = 0 then
           (case freeMemReg (the reg) s of
              Undef \<Rightarrow> Undef | Throws s1 \<Rightarrow> Throws s1
            | Ret _ s1 \<Rightarrow> take_region hashKey key (the reg) s1)
         else take_region hashKey key (the reg) s)"

definition reserve :: "(string \<Rightarrow> u64) \<Rightarrow> string \<Rightarrow> mcache \<Rightarrow> commResult outcome" where
  "reserve hash key s =
     (case map_of (cached s) (hash key) of
        None \<Rightarrow> Ret commInvalidArgument s
      | Some i \<Rightarrow>
          if \<not> isRegionUsable s (Some i) key then Ret commInProgress s
          else
            (case (if r_refCnt (regs s ! i) = 0 then freeMemReg i s else Ret () s) of
               Undef \<Rightarrow> Undef | Throws s1 \<Rightarrow> Throws s1
             | Ret _ s1 \<Rightarrow>
                 Ret commSuccess
                   (upd_region i (\<lambda>r. r\<lparr>r_refCnt := r_refCnt r + 1, r_owner := key\<rparr>) s1)))"

definition put_free :: "nat \<Rightarrow> mcache \<Rightarrow> unit outcome" where
  "put_free i s =
     (case freeMaps s (r_bucket (regs s ! i)) of
        None \<Rightarrow> Undef
      | Some fm \<Rightarrow>
          Ret () (s\<lparr>freeMaps := (freeMaps s)(r_bucket (regs s ! i) :=
            Some (fm(r_size (regs s ! i) :=
              Some (case fm (r_size (regs s ! i)) of None \<Rightarrow> [i] | Some q \<Rightarrow> q @ [i]))))\<rparr>))"

definition release_one :: "(string \<Rightarrow> u64) \<Rightarrow> string \<Rightarrow> mcache \<Rightarrow> commResult outcome" where
  "release_one hash key s =
     (case map_of (cached s) (hash key) of
        None \<Rightarrow> Ret commInvalidUsage s
      | Some i \<Rightarrow>
          if r_refCnt (regs s ! i) = 0 then Ret commInvalidUsage s
          else
            let s1 = upd_region i (\<lambda>r. r\<lparr>r_refCnt := r_refCnt r - 1\<rparr>) s
            in if r_refCnt (regs s1 ! i) = 0 then
                 (case put_free i (upd_region i (\<lambda>r. r\<lparr>r_owner := kUnAssignedOwner\<rparr>) s1) of
                    Undef \<Rightarrow> Undef | Throws s2 \<Rightarrow> Throws s2
                  | Ret _ s2 \<Rightarrow> Ret commSuccess s2)
               else Ret commSuccess s1)"

text \<open>The loop over the keys stops at the first error.\<close>

fun release :: "(string \<Rightarrow> u64) \<Rightarrow> string list \<Rightarrow> mcache \<Rightarrow> commResult outcome" where
  "release hash [] s = Ret commSuccess s"
| "release hash (key # keys) s =
     (case release_one hash key s of
        Undef \<Rightarrow> Undef | Throws s1 \<Rightarrow> Throws s1
      | Ret r s1 \<Rightarrow> if r = commSuccess then release hash keys s1 else Ret r s1)"

definition getNumUsedReg :: "mcache \<Rightarrow> nat" where
  "getNumUsedReg s = countOccupiedRegions s"

definition getNumAllocReg :: "mcache \<Rightarrow> nat" where
  "getNumAllocReg s = length (regs s)"

definition mc_getUsedMem :: "mcache \<Rightarrow> u64 option" where
  "mc_getUsedMem s = map_option slab_getUsedMem (slabAlloc s)"

section \<open>Who holds which region\<close>

definition free_q :: "mcache \<Rightarrow> bucket \<Rightarrow> u64 \<Rightarrow> nat list" where
  "free_q s b n = (case freeMaps s b of None \<Rightarrow> [] | Some fm \<Rightarrow> (case fm n of None \<Rightarrow> [] | Some q \<Rightarrow> q))"

text \<open>
  \<open>held k\<close> is how often key \<open>k\<close> took its region and did not release it yet, \<open>K\<close> the keys in use,
  \<open>out\<close> the regions taken off their free list and not yet counted as used.
\<close>

definition regs_inv :: "(string \<Rightarrow> u64) \<Rightarrow> string set \<Rightarrow> (string \<Rightarrow> nat) \<Rightarrow> mcache \<Rightarrow> bool" where
  "regs_inv hash K held s \<longleftrightarrow>
     (\<forall>i < length (regs s). 0 \<le> r_refCnt (regs s ! i) \<and>
        (0 < r_refCnt (regs s ! i) \<longrightarrow> r_owner (regs s ! i) \<in> K \<and>
           r_refCnt (regs s ! i) = int (held (r_owner (regs s ! i))) \<and>
           map_of (cached s) (hash (r_owner (regs s ! i))) = Some i)) \<and>
     (\<forall>k. 0 < held k \<longrightarrow> k \<in> K \<and> (\<exists>i. map_of (cached s) (hash k) = Some i \<and> i < length (regs s) \<and>
        0 < r_refCnt (regs s ! i) \<and> r_owner (regs s ! i) = k))"

definition free_inv :: "nat set \<Rightarrow> mcache \<Rightarrow> bool" where
  "free_inv out s \<longleftrightarrow>
     (\<forall>b. freeMaps s b \<noteq> None) \<and> (\<forall>b n. distinct (free_q s b n)) \<and>
     (\<forall>b n. \<forall>i \<in> set (free_q s b n). i < length (regs s) \<and> i \<notin> out \<and> r_refCnt (regs s ! i) = 0 \<and>
        r_bucket (regs s ! i) = b \<and> r_size (regs s ! i) = n) \<and>
     (\<forall>hk i. map_of (cached s) hk = Some i \<longrightarrow> i < length (regs s) \<and>
        (r_refCnt (regs s ! i) = 0 \<and> i \<notin> out \<longrightarrow>
           i \<in> set (free_q s (r_bucket (regs s ! i)) (r_size (regs s ! i)))))"

text \<open>The regions a later call can hand out.\<close>

definition live :: "mcache \<Rightarrow> nat set" where
  "live s = ran (map_of (cached s)) \<union> (\<Union>b n. set (free_q s b n))"

definition ptr_inv :: "mcache \<Rightarrow> bool" where
  "ptr_inv s \<longleftrightarrow> (\<forall>i \<in> live s. i < length (regs s) \<and> r_ptr (regs s ! i) \<noteq> 0)"

lemma ptr_invI:
  assumes "ptr_inv s" "live s' \<subseteq> live s" "length (regs s) \<le> length (regs s')"
    "\<And>i. i < length (regs s) \<Longrightarrow> r_ptr (regs s' ! i) = r_ptr (regs s ! i)"
  shows "ptr_inv s'"
  using assms unfolding ptr_inv_def by (metis in_mono order_less_le_trans)

lemma live_mono:
  "cached s' = cached s \<Longrightarrow> (\<And>b n. set (free_q s' b n) \<subseteq> set (free_q s b n)) \<Longrightarrow> live s' \<subseteq> live s"
  unfolding live_def by auto blast

lemma regs_invD:
  assumes "regs_inv hash K held s" "i < length (regs s)" "0 < r_refCnt (regs s ! i)"
  shows "r_owner (regs s ! i) \<in> K" "r_refCnt (regs s ! i) = int (held (r_owner (regs s ! i)))"
    "map_of (cached s) (hash (r_owner (regs s ! i))) = Some i"
  using assms by (auto simp: regs_inv_def)

lemma regs_inv_held:
  assumes "regs_inv hash K held s" "0 < held k"
  obtains i where "k \<in> K" "map_of (cached s) (hash k) = Some i" "i < length (regs s)"
    "0 < r_refCnt (regs s ! i)" "r_owner (regs s ! i) = k" "r_refCnt (regs s ! i) = int (held k)"
  using assms unfolding regs_inv_def by metis

lemma free_inv_cached:
  "free_inv out s \<Longrightarrow> map_of (cached s) hk = Some i \<Longrightarrow> i < length (regs s)"
  by (auto simp: free_inv_def)

lemma regs_inv_cong:
  "regs s' = regs s \<Longrightarrow> map_of (cached s') = map_of (cached s) \<Longrightarrow> regs_inv hash K held s' = regs_inv hash K held s"
  by (simp add: regs_inv_def)

subsection \<open>The parts of a step\<close>

lemma getFreeMemReg_inv:
  assumes inv: "regs_inv hash K held s" "free_inv {} s" and res: "getFreeMemReg cf n b s = Ret r s'"
  shows "regs s' = regs s \<and> cached s' = cached s \<and> slabAlloc s' = slabAlloc s \<and> poolPtr s' = poolPtr s \<and>
    poolRemain s' = poolRemain s \<and> initialized s' = initialized s \<and>
    (case r of None \<Rightarrow> s' = s
     | Some i \<Rightarrow> free_inv {i} s' \<and> i < length (regs s) \<and> r_refCnt (regs s ! i) = 0 \<and> i \<in> live s \<and> live s' \<subseteq> live s)"
proof (cases r)
  case None
  with res show ?thesis
    by (auto simp: getFreeMemReg_def split: option.splits list.splits if_splits)
next
  case (Some i)
  with res obtain fm q where fm: "freeMaps s b = Some fm" "fm n = Some (i # q)"
    and s': "s' = s\<lparr>freeMaps := (freeMaps s)(b := Some (fm(n := Some q)))\<rparr>"
    by (auto simp: getFreeMemReg_def split: option.splits list.splits if_splits)
  have q: "free_q s b n = i # q" using fm by (simp add: free_q_def)
  then have i: "i < length (regs s)" "r_refCnt (regs s ! i) = 0" "r_bucket (regs s ! i) = b"
      "r_size (regs s ! i) = n" and d: "i \<notin> set q" "distinct q"
    using inv(2) unfolding free_inv_def by (metis list.set_intros(1), metis list.set_intros(1),
      metis list.set_intros(1), metis list.set_intros(1), metis distinct.simps(2), metis distinct.simps(2))
  have q': "free_q s' b' n' = (if b' = b \<and> n' = n then q else free_q s b' n')" for b' n'
    using fm by (simp add: s' free_q_def)
  have "free_inv {i} s'"
    unfolding free_inv_def q'
  proof (intro conjI allI ballI impI)
    fix b'
    show "freeMaps s' b' \<noteq> None" using inv(2) by (simp add: s' free_inv_def)
  next
    fix b' n'
    show "distinct (if b' = b \<and> n' = n then q else free_q s b' n')"
      using inv(2) d by (auto simp: free_inv_def)
  next
    fix b' n' j
    assume j: "j \<in> set (if b' = b \<and> n' = n then q else free_q s b' n')"
    then have jq: "j \<in> set (free_q s b' n')" using q by (auto split: if_splits)
    then have P: "j < length (regs s) \<and> r_refCnt (regs s ! j) = 0 \<and> r_bucket (regs s ! j) = b' \<and> r_size (regs s ! j) = n'"
      using inv(2) by (auto simp: free_inv_def)
    then show "j < length (regs s')" "r_refCnt (regs s' ! j) = 0" "r_bucket (regs s' ! j) = b'" "r_size (regs s' ! j) = n'"
      by (auto simp: s')
    show "j \<notin> {i}" using P i j d by (auto split: if_splits)
  next
    fix hk j
    assume c: "map_of (cached s') hk = Some j"
    then show "j < length (regs s')" using inv(2) by (auto simp: free_inv_def s')
    assume "r_refCnt (regs s' ! j) = 0 \<and> j \<notin> {i}"
    with c have "j \<in> set (free_q s (r_bucket (regs s ! j)) (r_size (regs s ! j)))" "j \<noteq> i"
      using inv(2) by (auto simp: free_inv_def s')
    with q show "j \<in> set (if r_bucket (regs s' ! j) = b \<and> r_size (regs s' ! j) = n then q
        else free_q s (r_bucket (regs s' ! j)) (r_size (regs s' ! j)))"
      by (auto simp: s')
  qed
  moreover have "i \<in> live s" using q by (auto simp: live_def) (metis list.set_intros(1))
  moreover have "live s' \<subseteq> live s" by (rule live_mono) (auto simp: q' q, simp add: s')
  ultimately show ?thesis using Some s' i by simp
qed

lemma freeMemReg_inv:
  assumes inv: "free_inv {} s" and c: "map_of (cached s) hk = Some i" "r_refCnt (regs s ! i) = 0"
  obtains s' where "freeMemReg i s = Ret () s'" "free_inv {i} s'" "live s' \<subseteq> live s" "regs s' = regs s" "cached s' = cached s"
    "slabAlloc s' = slabAlloc s" "poolPtr s' = poolPtr s" "poolRemain s' = poolRemain s" "initialized s' = initialized s"
proof -
  let ?b = "r_bucket (regs s ! i)" let ?n = "r_size (regs s ! i)"
  have iq: "i \<in> set (free_q s ?b ?n)" using inv c by (auto simp: free_inv_def)
  then obtain fm q where fm: "freeMaps s ?b = Some fm" "fm ?n = Some q"
    by (cases "freeMaps s ?b"; cases "the (freeMaps s ?b) ?n") (auto simp: free_q_def)
  let ?s = "s\<lparr>freeMaps := (freeMaps s)(?b := Some (fm(?n := Some (remove1 i q))))\<rparr>"
  have q: "free_q s ?b ?n = q" using fm by (simp add: free_q_def)
  then have d: "distinct q" using inv unfolding free_inv_def by metis
  have q': "free_q ?s b' n' = (if b' = ?b \<and> n' = ?n then remove1 i q else free_q s b' n')" for b' n'
    using fm by (simp add: free_q_def)
  have P: "j < length (regs s) \<and> r_refCnt (regs s ! j) = 0 \<and> r_bucket (regs s ! j) = b' \<and> r_size (regs s ! j) = n'"
    if "j \<in> set (free_q s b' n')" for j b' n' using inv that by (auto simp: free_inv_def)
  have "free_inv {i} ?s"
    unfolding free_inv_def q'
  proof (intro conjI allI ballI impI)
    fix b' show "freeMaps ?s b' \<noteq> None" using inv by (simp add: free_inv_def)
  next
    fix b' n' show "distinct (if b' = ?b \<and> n' = ?n then remove1 i q else free_q s b' n')"
      using inv d by (auto simp: free_inv_def)
  next
    fix b' n' j
    assume j: "j \<in> set (if b' = ?b \<and> n' = ?n then remove1 i q else free_q s b' n')"
    then have jq: "j \<in> set (free_q s b' n')" using q using set_remove1_subset [of i q] by (auto split: if_splits)
    from P [OF jq] show "j < length (regs ?s)" "r_refCnt (regs ?s ! j) = 0" "r_bucket (regs ?s ! j) = b'"
      "r_size (regs ?s ! j) = n'" by simp_all
    show "j \<notin> {i}" using P [OF jq] j d by (auto split: if_splits)
  next
    fix hk j assume cj: "map_of (cached ?s) hk = Some j"
    then show "j < length (regs ?s)" using inv by (auto simp: free_inv_def)
    assume "r_refCnt (regs ?s ! j) = 0 \<and> j \<notin> {i}"
    with cj have "j \<in> set (free_q s (r_bucket (regs s ! j)) (r_size (regs s ! j)))" "j \<noteq> i"
      using inv by (auto simp: free_inv_def)
    with q d show "j \<in> set (if r_bucket (regs ?s ! j) = ?b \<and> r_size (regs ?s ! j) = ?n then remove1 i q
        else free_q s (r_bucket (regs ?s ! j)) (r_size (regs ?s ! j)))" by auto
  qed
  moreover have "freeMemReg i s = Ret () ?s" using fm by (simp add: freeMemReg_def)
  moreover have "live ?s \<subseteq> live s"
    by (rule live_mono) (use q set_remove1_subset [of i q] in \<open>auto simp: q'\<close>)
  ultimately show ?thesis using that [of ?s] by simp
qed

text \<open>Counting one more use of a region that \<open>key\<close> owns or that nobody holds.\<close>

lemma take_inv:
  assumes reg: "regs_inv hash K held s" and fr: "free_inv {i} s" and K: "inj_on hash K" "key \<in> K"
    and i: "i < length (regs s)"
    and own: "r_refCnt (regs s ! i) = 0 \<and> held key = 0 \<or> r_refCnt (regs s ! i) > 0 \<and> r_owner (regs s ! i) = key"
    and s': "regs s' = (regs s)[i := (regs s ! i)\<lparr>r_owner := key, r_refCnt := r_refCnt (regs s ! i) + 1\<rparr>]"
      "map_of (cached s') = (map_of (cached s))(hash key \<mapsto> i)" "freeMaps s' = freeMaps s"
  shows "regs_inv hash K (held(key := held key + 1)) s' \<and> free_inv {} s'"
proof
  have ne: "hash k \<noteq> hash key" if "k \<in> K" "k \<noteq> key" for k
    using K that by (meson inj_onD)
  have len [simp]: "length (regs s') = length (regs s)" by (simp add: s')
  have at: "regs s' ! j = (if j = i then (regs s ! i)\<lparr>r_owner := key, r_refCnt := r_refCnt (regs s ! i) + 1\<rparr> else regs s ! j)"
    for j using i by (simp add: s' nth_list_update)
  have cnt: "r_refCnt (regs s ! i) = int (held key)" using own regs_invD(2) [OF reg i] by auto
  have own': "r_owner (regs s ! j) \<noteq> key" if "j < length (regs s)" "j \<noteq> i" "0 < r_refCnt (regs s ! j)" for j
  proof
    assume k: "r_owner (regs s ! j) = key"
    from regs_invD [OF reg that(1,3)] k that(3)
    have "0 < held key" "map_of (cached s) (hash key) = Some j" by auto
    moreover then have "r_refCnt (regs s ! i) > 0" "r_owner (regs s ! i) = key" using own by auto
    ultimately show False using regs_invD(3) [OF reg i] that(2) by auto
  qed
  have nn: "0 \<le> r_refCnt (regs s ! j)" if "j < length (regs s)" for j
    using reg that by (auto simp: regs_inv_def)
  show "regs_inv hash K (held(key := held key + 1)) s'"
    unfolding regs_inv_def
  proof (intro conjI allI impI)
    fix j assume j: "j < length (regs s')"
    then show "0 \<le> r_refCnt (regs s' ! j)" using nn by (auto simp: at intro: add_nonneg_nonneg)
    assume u: "0 < r_refCnt (regs s' ! j)"
    show "r_owner (regs s' ! j) \<in> K"
      using u j K regs_invD(1) [OF reg] by (auto simp: at split: if_splits)
    show "r_refCnt (regs s' ! j) = int ((held(key := held key + 1)) (r_owner (regs s' ! j)))"
      using u j cnt own' regs_invD(2) [OF reg] by (auto simp: at split: if_splits)
    show "map_of (cached s') (hash (r_owner (regs s' ! j))) = Some j"
      using u j own' ne regs_invD(1,3) [OF reg] by (auto simp: at s'(2) split: if_splits)
  next
    fix k assume k: "0 < (held(key := held key + 1)) k"
    show "k \<in> K" using k K reg by (auto simp: regs_inv_def split: if_splits)
    show "\<exists>j. map_of (cached s') (hash k) = Some j \<and> j < length (regs s') \<and> 0 < r_refCnt (regs s' ! j) \<and>
        r_owner (regs s' ! j) = k"
    proof (cases "k = key")
      case True
      then show ?thesis using i nn [OF i] by (intro exI [of _ i]) (simp add: at s'(2))
    next
      case False
      with k have "0 < held k" by simp
      with reg obtain j where j: "k \<in> K" "map_of (cached s) (hash k) = Some j" "j < length (regs s)"
        "0 < r_refCnt (regs s ! j)" "r_owner (regs s ! j) = k" by (rule regs_inv_held)
      have "j \<noteq> i" using j own False by auto
      then show ?thesis using j ne [of k] False by (intro exI [of _ j]) (simp add: at s'(2))
    qed
  qed
  have q: "free_q s' b n = free_q s b n" for b n by (simp add: free_q_def s')
  have iu: "0 < r_refCnt (regs s' ! i)" using nn [OF i] by (simp add: at)
  show "free_inv {} s'"
    unfolding free_inv_def q
  proof (intro conjI allI ballI impI)
    fix b show "freeMaps s' b \<noteq> None" using fr by (simp add: s' free_inv_def)
  next
    fix b n show "distinct (free_q s b n)" using fr by (simp add: free_inv_def)
  next
    fix b n j assume "j \<in> set (free_q s b n)"
    with fr show "j < length (regs s')" "j \<notin> {}" "r_refCnt (regs s' ! j) = 0" "r_bucket (regs s' ! j) = b"
      "r_size (regs s' ! j) = n" by (auto simp: at free_inv_def)
  next
    fix hk j assume c: "map_of (cached s') hk = Some j"
    then show "j < length (regs s')" using fr i by (auto simp: s'(2) free_inv_def split: if_splits)
    assume z: "r_refCnt (regs s' ! j) = 0 \<and> j \<notin> {}"
    with iu have "j \<noteq> i" by auto
    with c z fr show "j \<in> set (free_q s (r_bucket (regs s' ! j)) (r_size (regs s' ! j)))"
      by (auto simp: at s'(2) free_inv_def split: if_splits)
  qed
qed

lemma add_region_inv:
  assumes "regs_inv hash K held s" "free_inv {} s"
    and s': "regs s' = regs s @ [\<lparr>r_ptr = p, r_size = n, r_cuHandle = h, r_owner = kUnAssignedOwner, r_tid = tid,
       r_refCnt = 0, r_bucket = b\<rparr>]" "cached s' = cached s" "freeMaps s' = freeMaps s"
  shows "regs_inv hash K held s'" "free_inv {length (regs s)} s'" "free_inv {} s'" "live s' = live s"
proof -
  have at: "regs s' ! j = regs s ! j" if "j < length (regs s)" for j using that by (simp add: s' nth_append)
  have nn: "0 \<le> r_refCnt (regs s ! j)" if "j < length (regs s)" for j
    using assms(1) that by (auto simp: regs_inv_def)
  have q: "free_q s' b n = free_q s b n" for b n by (simp add: free_q_def s')
  show "regs_inv hash K held s'"
    unfolding regs_inv_def
  proof (intro conjI allI impI)
    fix j assume j: "j < length (regs s')"
    consider "j < length (regs s)" | "j = length (regs s)" using j s' by fastforce
    note c = this
    from c show "0 \<le> r_refCnt (regs s' ! j)" by cases (simp_all add: at nn, simp add: s')
    assume u: "0 < r_refCnt (regs s' ! j)"
    with c have jl: "j < length (regs s)" by cases (simp_all add: s')
    with u have u': "0 < r_refCnt (regs s ! j)" by (simp add: at)
    from regs_invD [OF assms(1) jl u'] show "r_owner (regs s' ! j) \<in> K"
      "r_refCnt (regs s' ! j) = int (held (r_owner (regs s' ! j)))"
      "map_of (cached s') (hash (r_owner (regs s' ! j))) = Some j" by (simp_all add: at jl s'(2))
  next
    fix k assume "0 < held k"
    with assms(1) obtain j where j: "k \<in> K" "map_of (cached s) (hash k) = Some j" "j < length (regs s)"
      "0 < r_refCnt (regs s ! j)" "r_owner (regs s ! j) = k" by (rule regs_inv_held)
    then show "k \<in> K" by simp
    from j show "\<exists>j. map_of (cached s') (hash k) = Some j \<and> j < length (regs s') \<and> 0 < r_refCnt (regs s' ! j) \<and>
        r_owner (regs s' ! j) = k" by (intro exI [of _ j]) (simp add: at s'(2), simp add: s')
  qed
  have Q: "j < length (regs s) \<and> r_refCnt (regs s ! j) = 0 \<and> r_bucket (regs s ! j) = b \<and> r_size (regs s ! j) = n"
    if "j \<in> set (free_q s b n)" for j b n using assms(2) that by (auto simp: free_inv_def)
  have C: "j < length (regs s) \<and> (r_refCnt (regs s ! j) = 0 \<longrightarrow>
      j \<in> set (free_q s (r_bucket (regs s ! j)) (r_size (regs s ! j))))" if "map_of (cached s) hk = Some j" for hk j
    using assms(2) that by (auto simp: free_inv_def)
  have D: "distinct (free_q s b n)" "freeMaps s b \<noteq> None" for b n using assms(2) by (auto simp: free_inv_def)
  show "live s' = live s" by (simp add: live_def q s'(2))
  have "length (regs s') = Suc (length (regs s))" by (simp add: s')
  with Q C D show "free_inv {length (regs s)} s'" "free_inv {} s'"
    unfolding free_inv_def q s'(2,3) by (fastforce simp: at less_Suc_eq dest: Q C)+
qed

text \<open>Giving a region back.\<close>

lemma put_free_inv:
  assumes reg: "regs_inv hash K held s" and fr: "free_inv {} s"
    and i: "i < length (regs s)" "r_refCnt (regs s ! i) = 1"
  defines "s1 \<equiv> upd_region i (\<lambda>r. r\<lparr>r_owner := kUnAssignedOwner\<rparr>) (upd_region i (\<lambda>r. r\<lparr>r_refCnt := r_refCnt r - 1\<rparr>) s)"
  obtains s' where "put_free i s1 = Ret () s'" "regs s' = regs s1" "cached s' = cached s" "slabAlloc s' = slabAlloc s"
    "poolPtr s' = poolPtr s" "poolRemain s' = poolRemain s" "initialized s' = initialized s" "free_inv {} s'"
    "live s' \<subseteq> insert i (live s)"
proof -
  let ?b = "r_bucket (regs s ! i)" let ?n = "r_size (regs s ! i)"
  have at: "regs s1 ! j = (if j = i then (regs s ! i)\<lparr>r_refCnt := 0, r_owner := kUnAssignedOwner\<rparr> else regs s ! j)"
    for j using i by (simp add: s1_def upd_region_def nth_list_update)
  have simps: "cached s1 = cached s" "freeMaps s1 = freeMaps s" "slabAlloc s1 = slabAlloc s" "poolPtr s1 = poolPtr s"
    "poolRemain s1 = poolRemain s" "initialized s1 = initialized s" "length (regs s1) = length (regs s)"
    by (simp_all add: s1_def upd_region_def)
  obtain fm where fm: "freeMaps s ?b = Some fm"
    using fr unfolding free_inv_def by fast
  let ?q = "free_q s ?b ?n"
  let ?s = "s1\<lparr>freeMaps := (freeMaps s)(?b := Some (fm(?n := Some (?q @ [i]))))\<rparr>"
  have qf: "(case fm ?n of None \<Rightarrow> [i] | Some q \<Rightarrow> q @ [i]) = ?q @ [i]" using fm by (simp add: free_q_def split: option.split)
  have put: "put_free i s1 = Ret () ?s"
    using fm by (simp add: put_free_def at simps flip: qf)
  have q': "free_q ?s b' n' = (if b' = ?b \<and> n' = ?n then ?q @ [i] else free_q s b' n')" for b' n'
    using fm by (simp add: free_q_def)
  have Q: "j < length (regs s) \<and> r_refCnt (regs s ! j) = 0 \<and> r_bucket (regs s ! j) = b \<and> r_size (regs s ! j) = n"
    if "j \<in> set (free_q s b n)" for j b n using fr that by (auto simp: free_inv_def)
  have iq: "i \<notin> set (free_q s b n)" for b n using Q [of i] i by auto
  have "free_inv {} ?s"
    unfolding free_inv_def q'
  proof (intro conjI allI ballI impI)
    fix b' show "freeMaps ?s b' \<noteq> None" using fr by (simp add: free_inv_def simps)
  next
    fix b' n' show "distinct (if b' = ?b \<and> n' = ?n then ?q @ [i] else free_q s b' n')"
      using fr iq by (auto simp: free_inv_def)
  next
    fix b' n' j assume j: "j \<in> set (if b' = ?b \<and> n' = ?n then ?q @ [i] else free_q s b' n')"
    show "j < length (regs ?s)" "j \<notin> {}" "r_refCnt (regs ?s ! j) = 0" "r_bucket (regs ?s ! j) = b'"
      "r_size (regs ?s ! j) = n'" using j Q i by (auto simp: at simps split: if_splits)
  next
    fix hk j assume c: "map_of (cached ?s) hk = Some j"
    then show "j < length (regs ?s)" using fr by (auto simp: free_inv_def simps)
    have "r_refCnt (regs s ! j) = 0 \<Longrightarrow> j \<in> set (free_q s (r_bucket (regs s ! j)) (r_size (regs s ! j)))"
      using c fr by (auto simp: free_inv_def simps)
    moreover assume "r_refCnt (regs ?s ! j) = 0 \<and> j \<notin> {}"
    ultimately show "j \<in> set (if r_bucket (regs ?s ! j) = ?b \<and> r_size (regs ?s ! j) = ?n then ?q @ [i]
        else free_q s (r_bucket (regs ?s ! j)) (r_size (regs ?s ! j)))"
      by (cases "j = i") (auto simp: at)
  qed
  moreover have "live ?s \<subseteq> insert i (live s)" unfolding live_def q' by (auto simp: simps split: if_splits)
  ultimately have "free_inv {} ?s" "live ?s \<subseteq> insert i (live s)" by simp_all
  from that [OF put _ _ _ _ _ _ this] show ?thesis by (simp add: simps)
qed

subsection \<open>Memory\<close>

definition region_block :: "region \<Rightarrow> u64 \<times> u64" where
  "region_block r = (r_ptr r, r_size r)"

definition mem_inv :: "mcache \<Rightarrow> (u64 \<times> u64) list \<Rightarrow> bool" where
  "mem_inv s ss \<longleftrightarrow> (\<exists>sl. slabAlloc s = Some sl \<and> granularity sl \<noteq> 0 \<and> no_wrap (poolPtr s) (poolRemain s) \<and>
     slab_inv sl ss ((poolPtr s, poolRemain s) # map region_block (regs s)))"

text \<open>The slabs a call took from the driver.\<close>

definition new_slabs :: "mcache \<Rightarrow> mcache \<Rightarrow> (u64 \<times> u64) list" where
  "new_slabs s s' = (case (slabAlloc s, slabAlloc s') of
     (Some sl, Some sl') \<Rightarrow>
       map (\<lambda>p. (p, totalMem sl' - totalMem sl)) (drop (length (slabPtrs sl)) (slabPtrs sl'))
   | _ \<Rightarrow> [])"

lemma new_slabs_same [simp]: "slabAlloc s' = slabAlloc s \<Longrightarrow> new_slabs s s' = []"
  by (simp add: new_slabs_def split: option.split)

lemma mem_inv_cong:
  "slabAlloc s' = slabAlloc s \<Longrightarrow> poolPtr s' = poolPtr s \<Longrightarrow> poolRemain s' = poolRemain s \<Longrightarrow>
   map region_block (regs s') = map region_block (regs s) \<Longrightarrow> mem_inv s' ss = mem_inv s ss"
  by (simp add: mem_inv_def)

lemma map_region_block_update:
  "region_block r = region_block (rs ! i) \<Longrightarrow> map region_block (rs[i := r]) = map region_block rs"
  by (cases "i < length rs") (simp_all add: map_update list_update_same_conv list_update_beyond)

lemma bytes_mono: "n \<le> m \<Longrightarrow> bytes (p, n) \<subseteq> bytes (p, m)"
  by (auto simp: bytes_def word_le_nat_alt)

lemma slab_inv_shrink:
  assumes "slab_inv s ss (bs @ [(p, m)])" "n \<le> m"
  shows "slab_inv s ss (bs @ [(p, n)])"
  using assms(1) bytes_mono [OF assms(2), of p]
  unfolding slab_inv_def by (auto simp: sorted_wrt_append intro: disjnt_subset1 disjnt_subset2)

lemma slab_inv_pool:
  assumes inv: "slab_inv s ss ((p, m) # bs)" and p: "no_wrap p m" "n \<le> m"
  shows "slab_inv s ss ((p + n, m - n) # bs @ [(p, n)])"
proof -
  note sp = bytes_split [OF p]
  have "disjnt (bytes (p + n, m - n)) (bytes b)" "disjnt (bytes b) (bytes (p, n))" if "b \<in> set bs" for b
    using inv that sp(1,2) unfolding slab_inv_def
    by (auto simp: disjnt_def)
  moreover have "disjnt (bytes (p, n)) (free_bytes s)" "disjnt (bytes (p + n, m - n)) (free_bytes s)"
    using inv sp(1,2) unfolding slab_inv_def by (auto simp: disjnt_def)
  ultimately show ?thesis
    using inv sp unfolding slab_inv_def by (auto simp: sorted_wrt_append disjnt_sym)
qed

lemma createNewMemReg_inv:
  assumes reg: "regs_inv hash K held s" and fr: "free_inv {} s" and mem: "mem_inv s ss"
    and drv: "driver_ok drv ss" and fits: "\<forall>sl. slabAlloc s = Some sl \<longrightarrow> unat n + 16 + unat (granularity sl) \<le> 2 ^ 64"
    and res: "createNewMemReg drv tid n b s = Ret i s'"
  shows "i = length (regs s) \<and> regs_inv hash K held s' \<and> free_inv {i} s' \<and> free_inv {} s' \<and> i < length (regs s') \<and>
    r_refCnt (regs s' ! i) = 0 \<and> cached s' = cached s \<and> initialized s' = initialized s \<and>
    map_option granularity (slabAlloc s') = map_option granularity (slabAlloc s) \<and>
    mem_inv s' (ss @ new_slabs s s') \<and> region_block (regs s' ! i) = (r_ptr (regs s' ! i), n) \<and>
    (\<forall>j < length (regs s). regs s' ! j = regs s ! j) \<and> live s' = live s"
proof -
  obtain sl where sl: "slabAlloc s = Some sl" "granularity sl \<noteq> 0" "no_wrap (poolPtr s) (poolRemain s)"
    "slab_inv sl ss ((poolPtr s, poolRemain s) # map region_block (regs s))"
    using mem by (auto simp: mem_inv_def)
  note A = add_region_inv [OF reg fr]
  show ?thesis
  proof (cases "poolPtr s \<noteq> 0 \<and> n \<le> poolRemain s")
    case True
    then have n: "n \<le> poolRemain s" by simp
    have s': "s' = add_region (poolPtr s) n (poolHandle s) tid b
        (s\<lparr>poolPtr := poolPtr s + n, poolRemain := poolRemain s - n\<rparr>)" and i: "i = length (regs s)"
      using res True by (simp_all add: createNewMemReg_def)
    have "mem_inv s' ss"
      using sl slab_inv_pool [OF sl(4) sl(3) n] bytes_split(4) [OF sl(3) n]
      by (simp add: mem_inv_def s' add_region_def region_block_def)
    with A [of s'] show ?thesis by (simp add: s' i add_region_def nth_append region_block_def)
  next
    case False
    with res sl(1) obtain p h ns sl' where cu: "cuMalloc drv n sl = Inr ((p, h, ns), sl')"
      and s': "s' = add_region p n h tid b (s\<lparr>slabAlloc := Some sl'\<rparr>)" and i: "i = length (regs s)"
      by (auto simp: createNewMemReg_def split: sum.splits)
    let ?m = "roundUp n 16"
    have le: "n \<le> ?m" and lt: "unat ?m < unat n + 16" using roundUp_ge [of n 16] fits sl(1) by auto
    then have "?m \<le> roundUp ?m (granularity sl)"
      using fits sl(1,2) by (intro roundUp_ge(1)) auto
    with cu allocateMem_inv [OF sl(4) drv, of ?m p h ns sl']
    have "slab_inv sl' (ss @ (case ns of None \<Rightarrow> [] | Some m \<Rightarrow> [(p, m)]))
        (((poolPtr s, poolRemain s) # map region_block (regs s)) @ [(p, ?m)])"
      by (simp add: cuMalloc_def kMinAlignSize_def)
    from slab_inv_shrink [OF this le]
    have "slab_inv sl' (ss @ (case ns of None \<Rightarrow> [] | Some m \<Rightarrow> [(p, m)]))
        ((poolPtr s, poolRemain s) # map region_block (regs s) @ [(p, n)])" by simp
    moreover have "new_slabs s s' = (case ns of None \<Rightarrow> [] | Some m \<Rightarrow> [(p, m)])"
      using cu by (auto simp: new_slabs_def sl(1) s' add_region_def cuMalloc_def allocateMem_def Let_def
          split: if_splits sum.splits)
    moreover have g: "granularity sl' = granularity sl"
      using cu by (auto simp: cuMalloc_def dest: allocateMem_granularity)
    ultimately have "mem_inv s' (ss @ new_slabs s s')"
      using sl by (auto simp: mem_inv_def s' add_region_def region_block_def)
    with A [of s'] g show ?thesis by (simp add: s' i add_region_def nth_append region_block_def sl(1))
  qed
qed

subsection \<open>The operations\<close>

definition mc_inv :: "(string \<Rightarrow> u64) \<Rightarrow> string set \<Rightarrow> (string \<Rightarrow> nat) \<Rightarrow> mcache \<Rightarrow> (u64 \<times> u64) list \<Rightarrow> bool" where
  "mc_inv hash K held s ss \<longleftrightarrow> regs_inv hash K held s \<and> free_inv {} s \<and> mem_inv s ss \<and> ptr_inv s"

lemma take_region_inv:
  assumes reg: "regs_inv hash K held s" and fr: "free_inv {i} s" and mem: "mem_inv s ss"
    and pt: "ptr_inv s" "r_ptr (regs s ! i) \<noteq> 0" and K: "inj_on hash K" "key \<in> K" and i: "i < length (regs s)"
    and own: "r_refCnt (regs s ! i) = 0 \<and> held key = 0 \<or> r_refCnt (regs s ! i) > 0 \<and> r_owner (regs s ! i) = key"
    and res: "take_region (hash key) key i s = Ret r s'"
  shows "mc_inv hash K (held(key := held key + 1)) s' ss \<and> initialized s' = initialized s \<and>
    slabAlloc s' = slabAlloc s \<and> r = (commSuccess, r_ptr (regs s ! i), r_cuHandle (regs s ! i)) \<and>
    map_of (cached s') (hash key) = Some i \<and> region_block (regs s' ! i) = region_block (regs s ! i)"
proof -
  have s': "regs s' = (regs s)[i := (regs s ! i)\<lparr>r_owner := key, r_refCnt := r_refCnt (regs s ! i) + 1\<rparr>]"
      "map_of (cached s') = (map_of (cached s))(hash key \<mapsto> i)" "freeMaps s' = freeMaps s"
      "slabAlloc s' = slabAlloc s" "poolPtr s' = poolPtr s" "poolRemain s' = poolRemain s" "initialized s' = initialized s"
      and r: "r = (commSuccess, r_ptr (regs s ! i), r_cuHandle (regs s ! i))"
    using res i by (auto simp: take_region_def upd_region_def Let_def update_conv')
  have "mem_inv s' ss"
    using mem i s' by (subst mem_inv_cong [of s' s]) (simp_all add: map_region_block_update region_block_def)
  moreover have q: "free_q s' b n = free_q s b n" for b n by (simp add: free_q_def s'(3))
  have "live s' \<subseteq> insert i (live s)" unfolding live_def q s'(2) by (auto simp: ran_def)
  then have "ptr_inv s'" using pt i by (auto simp: ptr_inv_def s'(1) nth_list_update)
  ultimately show ?thesis
    using take_inv [OF reg fr K i own s'(1,2,3)] s' r i by (simp add: mc_inv_def region_block_def)
qed

text \<open>A region that is cached for a key and usable by it.\<close>

lemma usable_cases:
  assumes "regs_inv hash K held s" "inj_on hash K" "key \<in> K"
  shows "isRegionUsable s (map_of (cached s) (hash key)) key \<longleftrightarrow>
    (\<exists>i. map_of (cached s) (hash key) = Some i \<and> (r_refCnt (regs s ! i) = 0 \<and> held key = 0 \<or>
       r_refCnt (regs s ! i) \<noteq> 0 \<and> r_owner (regs s ! i) = key))"
    "\<not> isRegionUsable s (map_of (cached s) (hash key)) key \<Longrightarrow> held key = 0"
proof -
  have *: "\<exists>i. map_of (cached s) (hash key) = Some i \<and> 0 < r_refCnt (regs s ! i) \<and> r_owner (regs s ! i) = key"
    if "held key > 0" using regs_inv_held [OF assms(1) that] by metis
  show "isRegionUsable s (map_of (cached s) (hash key)) key \<longleftrightarrow>
    (\<exists>i. map_of (cached s) (hash key) = Some i \<and> (r_refCnt (regs s ! i) = 0 \<and> held key = 0 \<or>
       r_refCnt (regs s ! i) \<noteq> 0 \<and> r_owner (regs s ! i) = key))"
    using * by (fastforce simp: isRegionUsable_def split: option.splits)
  show "\<not> isRegionUsable s (map_of (cached s) (hash key)) key \<Longrightarrow> held key = 0"
    using * by (fastforce simp: isRegionUsable_def split: option.splits)
qed

definition request_ok :: "mcache \<Rightarrow> u64 \<Rightarrow> bool" where
  "request_ok s n \<longleftrightarrow>
     (case slabAlloc s of None \<Rightarrow> True | Some sl \<Rightarrow> unat n + 16 + unat (granularity sl) \<le> 2 ^ 64)"

lemma request_okD: "request_ok s n \<Longrightarrow> \<forall>sl. slabAlloc s = Some sl \<longrightarrow> unat n + 16 + unat (granularity sl) \<le> 2 ^ 64"
  by (simp add: request_ok_def split: option.splits)

lemma get_inv:
  assumes inv: "mc_inv hash K held s ss" and K: "inj_on hash K" "key \<in> K"
    and drv: "driver_ok drv ss" "request_ok s n"
    and res: "getCachedCuMemById hash cf drv tid key n b s = Ret (c, p, h) s'"
  shows "mc_inv hash K (if c = commSuccess then held(key := held key + 1) else held) s' (ss @ new_slabs s s') \<and>
    initialized s' = initialized s \<and>
    (c = commSuccess \<longrightarrow> (\<exists>i. map_of (cached s') (hash key) = Some i \<and> r_ptr (regs s' ! i) = p))"
proof -
  let ?reg = "map_of (cached s) (hash key)"
  have reg: "regs_inv hash K held s" and fr: "free_inv {} s" and mem: "mem_inv s ss" and pt: "ptr_inv s"
    using inv by (auto simp: mc_inv_def)
  show ?thesis
  proof (cases "isRegionUsable s ?reg key")
    case True
    then obtain i where i: "?reg = Some i" and ow: "r_refCnt (regs s ! i) = 0 \<and> held key = 0 \<or>
       r_refCnt (regs s ! i) \<noteq> 0 \<and> r_owner (regs s ! i) = key" using usable_cases(1) [OF reg K] by blast
    have il: "i < length (regs s)" using fr i by (rule free_inv_cached)
    have ip: "r_ptr (regs s ! i) \<noteq> 0" using pt i by (auto simp: ptr_inv_def live_def ran_def)
    show ?thesis
    proof (cases "r_refCnt (regs s ! i) = 0")
      case z: True
      from freeMemReg_inv [OF fr i z] obtain s1 where s1: "freeMemReg i s = Ret () s1" "free_inv {i} s1"
        "live s1 \<subseteq> live s" "regs s1 = regs s" "cached s1 = cached s" "slabAlloc s1 = slabAlloc s"
        "poolPtr s1 = poolPtr s" "poolRemain s1 = poolRemain s" "initialized s1 = initialized s" .
      have t: "take_region (hash key) key i s1 = Ret (c, p, h) s'"
        using res True z i s1 by (simp add: getCachedCuMemById_def Let_def)
      have reg1: "regs_inv hash K held s1" and mem1: "mem_inv s1 ss"
        using reg mem s1 by (simp_all add: regs_inv_def mem_inv_def)
      have pt1: "ptr_inv s1" using pt s1(3) by (rule ptr_invI) (simp_all add: s1)
      from take_region_inv [OF reg1 s1(2) mem1 pt1 _ K _ _ t] s1 il ip z ow show ?thesis
        by (auto simp: region_block_def)
    next
      case nz: False
      have pos: "r_refCnt (regs s ! i) > 0" using reg nz il unfolding regs_inv_def by (metis order_le_less)
      have t: "take_region (hash key) key i s = Ret (c, p, h) s'"
        using res True nz i by (simp add: getCachedCuMemById_def Let_def)
      have fr1: "free_inv {i} s" using fr pos unfolding free_inv_def by fastforce
      from take_region_inv [OF reg fr1 mem pt ip K il _ t] pos ow show ?thesis
        by (auto simp: region_block_def)
    qed
  next
    case False
    with usable_cases(2) [OF reg K] have h0: "held key = 0" by blast
    from res False obtain fo s1 where g: "getFreeMemReg cf (roundUp n kMinAlignSize) b s = Ret fo s1"
      by (auto simp: getCachedCuMemById_def Let_def split: outcome.splits)
    note G = getFreeMemReg_inv [OF reg fr g]
    have reg1: "regs_inv hash K held s1" and mem1: "mem_inv s1 ss"
      using reg mem G by (simp_all add: regs_inv_def mem_inv_def)
    show ?thesis
    proof (cases fo)
      case (Some i)
      have f1: "free_inv {i} s1" and il: "i < length (regs s1)" "r_refCnt (regs s1 ! i) = 0"
        and lv: "i \<in> live s" "live s1 \<subseteq> live s" using G Some by auto
      have ip: "r_ptr (regs s1 ! i) \<noteq> 0" using pt lv(1) G by (simp add: ptr_inv_def)
      have pt1: "ptr_inv s1" using pt lv(2) by (rule ptr_invI) (simp_all add: G)
      have t: "take_region (hash key) key i s1 = Ret (c, p, h) s'"
        using res False g Some ip by (simp add: getCachedCuMemById_def Let_def)
      from take_region_inv [OF reg1 f1 mem1 pt1 ip K il(1) _ t] il(2) h0 G show ?thesis
        by (auto simp: region_block_def)
    next
      case None
      then have s1: "s1 = s" using G by simp
      from res False g None obtain i s2 where cr: "createNewMemReg drv tid n b s = Ret i s2"
        by (auto simp: getCachedCuMemById_def Let_def s1 split: outcome.splits)
      note C = createNewMemReg_inv [OF reg fr mem drv(1) request_okD [OF drv(2)] cr]
      have pt2: "ptr_inv s2"
      proof (rule ptr_invI [OF pt])
        show "live s2 \<subseteq> live s" using C by blast
        show "length (regs s) \<le> length (regs s2)" using C by auto
        show "r_ptr (regs s2 ! j) = r_ptr (regs s ! j)" if "j < length (regs s)" for j using C that by metis
      qed
      have c2: "regs_inv hash K held s2" "free_inv {i} s2" "free_inv {} s2" "i < length (regs s2)"
        "r_refCnt (regs s2 ! i) = 0" "mem_inv s2 (ss @ new_slabs s s2)" "initialized s2 = initialized s"
        using C by blast+
      show ?thesis
      proof (cases "r_ptr (regs s2 ! i) = 0")
        case True
        then have "c = commInvalidArgument" "s' = s2"
          using res False g None s1 cr by (auto simp: getCachedCuMemById_def Let_def)
        with c2 pt2 show ?thesis by (simp add: mc_inv_def)
      next
        case ip: False
        then have t: "take_region (hash key) key i s2 = Ret (c, p, h) s'"
          using res False g None s1 cr by (simp add: getCachedCuMemById_def Let_def)
        note T = take_region_inv [OF c2(1,2,6) pt2 ip K c2(4) _ t]
        have "new_slabs s s' = new_slabs s s2" using T c2(5) h0 by (simp add: new_slabs_def)
        with T c2(5,7) h0 show ?thesis by (auto simp: region_block_def)
      qed
    qed
  qed
qed

lemma reserve_inv:
  assumes inv: "mc_inv hash K held s ss" and K: "inj_on hash K" "key \<in> K"
    and res: "reserve hash key s = Ret c s'"
  shows "mc_inv hash K (if c = commSuccess then held(key := held key + 1) else held) s' ss \<and>
    initialized s' = initialized s \<and> slabAlloc s' = slabAlloc s \<and> (c \<noteq> commSuccess \<longrightarrow> s' = s)"
proof -
  have reg: "regs_inv hash K held s" and fr: "free_inv {} s" and mem: "mem_inv s ss" and pt: "ptr_inv s"
    using inv by (auto simp: mc_inv_def)
  show ?thesis
  proof (cases "isRegionUsable s (map_of (cached s) (hash key)) key")
    case False
    then have "c \<noteq> commSuccess \<and> s' = s" using res by (auto simp: reserve_def split: option.splits)
    then show ?thesis using inv by auto
  next
    case True
    then obtain i where i: "map_of (cached s) (hash key) = Some i" and ow: "r_refCnt (regs s ! i) = 0 \<and> held key = 0 \<or>
       r_refCnt (regs s ! i) \<noteq> 0 \<and> r_owner (regs s ! i) = key" using usable_cases(1) [OF reg K] by blast
    have il: "i < length (regs s)" using fr i by (rule free_inv_cached)
    have "\<exists>s1. (if r_refCnt (regs s ! i) = 0 then freeMemReg i s else Ret () s) = Ret () s1 \<and> free_inv {i} s1 \<and>
      live s1 \<subseteq> live s \<and> regs s1 = regs s \<and> cached s1 = cached s \<and> slabAlloc s1 = slabAlloc s \<and> poolPtr s1 = poolPtr s \<and>
      poolRemain s1 = poolRemain s \<and> initialized s1 = initialized s"
    proof (cases "r_refCnt (regs s ! i) = 0")
      case True
      from freeMemReg_inv [OF fr i True] show ?thesis using True by (metis (full_types))
    next
      case False
      then have "free_inv {i} s" using fr unfolding free_inv_def by fastforce
      then show ?thesis using False by simp
    qed
    then obtain s1 where s1: "(if r_refCnt (regs s ! i) = 0 then freeMemReg i s else Ret () s) = Ret () s1"
      "free_inv {i} s1" "live s1 \<subseteq> live s" "regs s1 = regs s" "cached s1 = cached s" "slabAlloc s1 = slabAlloc s"
      "poolPtr s1 = poolPtr s" "poolRemain s1 = poolRemain s" "initialized s1 = initialized s" by blast
    have s': "s' = upd_region i (\<lambda>r. r\<lparr>r_refCnt := r_refCnt r + 1, r_owner := key\<rparr>) s1" and c: "c = commSuccess"
      using res True i s1(1) by (auto simp: reserve_def)
    have reg1: "regs_inv hash K held s1" and mem1: "mem_inv s1 ss"
      using reg mem s1 by (simp_all add: regs_inv_def mem_inv_def)
    have pt1: "ptr_inv s1" using pt s1(3) by (rule ptr_invI) (simp_all add: s1)
    have own: "r_refCnt (regs s1 ! i) = 0 \<and> held key = 0 \<or> r_refCnt (regs s1 ! i) > 0 \<and> r_owner (regs s1 ! i) = key"
      using ow reg il s1(4) unfolding regs_inv_def by (metis order_le_less)
    have ups: "regs s' = (regs s1)[i := (regs s1 ! i)\<lparr>r_owner := key, r_refCnt := r_refCnt (regs s1 ! i) + 1\<rparr>]"
      "map_of (cached s') = (map_of (cached s1))(hash key \<mapsto> i)" "freeMaps s' = freeMaps s1"
      "slabAlloc s' = slabAlloc s1" "poolPtr s' = poolPtr s1" "poolRemain s' = poolRemain s1" "initialized s' = initialized s1"
      using i s1(5) by (cases "regs s1 ! i"; auto simp: s' upd_region_def)+
    have il1: "i < length (regs s1)" using il s1(4) by simp
    have "mem_inv s' ss"
      using mem1 ups by (subst mem_inv_cong [of s' s1]) (simp_all add: map_region_block_update region_block_def)
    moreover have q: "free_q s' b n = free_q s1 b n" for b n by (simp add: free_q_def ups(3))
    have "live s' = live s1" using i unfolding live_def q ups(2) s1(5) by (simp add: fun_upd_idem)
    then have "ptr_inv s'" using pt1 il1 by (auto simp: ptr_inv_def ups(1) nth_list_update)
    ultimately show ?thesis
      using take_inv [OF reg1 s1(2) K il1 own ups(1,2,3)] c ups s1 by (simp add: mc_inv_def)
  qed
qed

lemma release_one_inv:
  assumes inv: "mc_inv hash K held s ss" and K: "inj_on hash K" and h: "held key > 0"
  shows "\<exists>s'. release_one hash key s = Ret commSuccess s' \<and> mc_inv hash K (held(key := held key - 1)) s' ss \<and>
    initialized s' = initialized s"
proof -
  have reg: "regs_inv hash K held s" and fr: "free_inv {} s" and mem: "mem_inv s ss" and pt: "ptr_inv s"
    using inv by (auto simp: mc_inv_def)
  from regs_inv_held [OF reg h] obtain i where i: "key \<in> K" "map_of (cached s) (hash key) = Some i" "i < length (regs s)"
    "0 < r_refCnt (regs s ! i)" "r_owner (regs s ! i) = key" "r_refCnt (regs s ! i) = int (held key)" .
  have nn: "0 \<le> r_refCnt (regs s ! j)" if "j < length (regs s)" for j
    using reg that by (auto simp: regs_inv_def)
  define s1 where "s1 = upd_region i (\<lambda>r. r\<lparr>r_refCnt := r_refCnt r - 1\<rparr>) s"
  have at: "regs s1 ! j = (if j = i then (regs s ! i)\<lparr>r_refCnt := r_refCnt (regs s ! i) - 1\<rparr> else regs s ! j)"
    for j using i by (simp add: s1_def upd_region_def nth_list_update)
  have simps: "cached s1 = cached s" "freeMaps s1 = freeMaps s" "slabAlloc s1 = slabAlloc s" "poolPtr s1 = poolPtr s"
    "poolRemain s1 = poolRemain s" "initialized s1 = initialized s" "length (regs s1) = length (regs s)"
    by (simp_all add: s1_def upd_region_def)
  have reg': "regs_inv hash K (held(key := held key - 1)) s'"
    if c: "cached s' = cached s" "length (regs s') = length (regs s)"
      "\<And>j. j \<noteq> i \<Longrightarrow> regs s' ! j = regs s ! j" "r_refCnt (regs s' ! i) = r_refCnt (regs s ! i) - 1"
      "r_refCnt (regs s ! i) \<noteq> 1 \<longrightarrow> r_owner (regs s' ! i) = key" for s'
    unfolding regs_inv_def
  proof (intro conjI allI impI)
    fix j assume j: "j < length (regs s')"
    then have jl: "j < length (regs s)" by (simp add: c)
    show "0 \<le> r_refCnt (regs s' ! j)" using nn [OF jl] i(4) by (cases "j = i") (simp_all add: c)
    assume u: "0 < r_refCnt (regs s' ! j)"
    have "r_owner (regs s' ! j) \<in> K \<and> r_refCnt (regs s' ! j) = int ((held(key := held key - 1)) (r_owner (regs s' ! j))) \<and>
      map_of (cached s') (hash (r_owner (regs s' ! j))) = Some j"
    proof (cases "j = i")
      case True
      with u c(4) have "r_refCnt (regs s ! i) \<noteq> 1" by simp
      with True c i show ?thesis by (simp add: of_nat_diff)
    next
      case False
      with u have u': "0 < r_refCnt (regs s ! j)" by (simp add: c)
      note R = regs_invD [OF reg jl u']
      have "r_owner (regs s ! j) \<noteq> key" using R(3) i(2) False by auto
      with R False show ?thesis by (simp add: c)
    qed
    then show "r_owner (regs s' ! j) \<in> K" "r_refCnt (regs s' ! j) = int ((held(key := held key - 1)) (r_owner (regs s' ! j)))"
      "map_of (cached s') (hash (r_owner (regs s' ! j))) = Some j" by blast+
  next
    fix k assume k: "0 < (held(key := held key - 1)) k"
    then have "0 < held k" by (simp split: if_splits)
    with reg obtain j where j: "k \<in> K" "map_of (cached s) (hash k) = Some j" "j < length (regs s)"
      "0 < r_refCnt (regs s ! j)" "r_owner (regs s ! j) = k" by (rule regs_inv_held)
    show "k \<in> K" by (rule j)
    show "\<exists>j. map_of (cached s') (hash k) = Some j \<and> j < length (regs s') \<and> 0 < r_refCnt (regs s' ! j) \<and>
        r_owner (regs s' ! j) = k"
    proof (cases "k = key")
      case True
      then have "r_refCnt (regs s ! i) > 1" using k i(6) by simp
      with True i c show ?thesis by (intro exI [of _ i]) simp
    next
      case False
      then have "j \<noteq> i" using j i by auto
      with j c show ?thesis by (intro exI [of _ j]) simp
    qed
  qed
  show ?thesis
  proof (cases "r_refCnt (regs s ! i) = 1")
    case True
    obtain s' where s': "put_free i (upd_region i (\<lambda>r. r\<lparr>r_owner := kUnAssignedOwner\<rparr>) s1) = Ret () s'"
      "regs s' = regs (upd_region i (\<lambda>r. r\<lparr>r_owner := kUnAssignedOwner\<rparr>) s1)" "cached s' = cached s" "slabAlloc s' = slabAlloc s"
      "poolPtr s' = poolPtr s" "poolRemain s' = poolRemain s" "initialized s' = initialized s" "free_inv {} s'"
      "live s' \<subseteq> insert i (live s)"
      by (rule put_free_inv [OF reg fr i(3) True, folded s1_def])
    have at': "regs s' ! j = (if j = i then (regs s ! i)\<lparr>r_refCnt := 0, r_owner := kUnAssignedOwner\<rparr> else regs s ! j)"
      "length (regs s') = length (regs s)" for j
      using s'(2) i True by (auto simp: upd_region_def s1_def nth_list_update)
    have "map region_block (regs s') = map region_block (regs s)"
      by (rule nth_equalityI) (simp_all add: at' region_block_def)
    then have "mem_inv s' ss" using mem s' by (subst mem_inv_cong [of s' s]) simp_all
    moreover have "i \<in> live s" using i(2) by (auto simp: live_def ran_def)
    then have "ptr_inv s'" using pt s'(9) by (auto simp: ptr_inv_def at')
    moreover have "regs_inv hash K (held(key := held key - 1)) s'" by (rule reg') (use True in \<open>simp_all add: s'(3) at'\<close>)
    moreover have "release_one hash key s = Ret commSuccess s'"
      using i True s'(1) by (simp add: release_one_def s1_def [symmetric] at)
    ultimately show ?thesis using s' by (auto simp: mc_inv_def)
  next
    case False
    have q: "free_q s1 b n = free_q s b n" for b n by (simp add: free_q_def simps)
    have Q: "j \<noteq> i" if "j \<in> set (free_q s b n)" for j b n using fr that i(4) unfolding free_inv_def by fastforce
    have "free_inv {} s1"
      using fr i(4) False unfolding free_inv_def q simps by (simp add: at) (metis Q)
    moreover have "map region_block (regs s1) = map region_block (regs s)"
      by (rule nth_equalityI) (simp_all add: at simps region_block_def)
    then have "mem_inv s1 ss" using mem by (subst mem_inv_cong [of s1 s]) (simp_all add: simps)
    moreover have "ptr_inv s1" using pt by (auto simp: ptr_inv_def live_def q simps at)
    moreover have "regs_inv hash K (held(key := held key - 1)) s1"
      by (rule reg') (use i in \<open>simp_all add: simps at\<close>)
    moreover have "release_one hash key s = Ret commSuccess s1"
      using i False by (simp add: release_one_def s1_def [symmetric] at Let_def)
    ultimately show ?thesis by (auto simp: mc_inv_def simps)
  qed
qed

lemma release_inv:
  assumes "mc_inv hash K held s ss" "inj_on hash K" "\<forall>k. count_list keys k \<le> held k"
  shows "\<exists>s'. release hash keys s = Ret commSuccess s' \<and> mc_inv hash K (\<lambda>k. held k - count_list keys k) s' ss \<and>
    initialized s' = initialized s"
  using assms
proof (induction keys arbitrary: s held)
  case Nil
  then show ?case by simp
next
  case (Cons key keys)
  have "held key > 0" using Cons.prems(3) [rule_format, of key] by simp
  from release_one_inv [OF Cons.prems(1,2) this] obtain s1 where
    s1: "release_one hash key s = Ret commSuccess s1" "mc_inv hash K (held(key := held key - 1)) s1 ss"
      "initialized s1 = initialized s" by blast
  have "\<forall>k. count_list keys k \<le> (held(key := held key - 1)) k"
    using Cons.prems(3) by (auto split: if_splits)
  from Cons.IH [OF s1(2) Cons.prems(2) this] obtain s' where s': "release hash keys s1 = Ret commSuccess s'"
    "mc_inv hash K (\<lambda>k. (held(key := held key - 1)) k - count_list keys k) s' ss" "initialized s' = initialized s1"
    by blast
  have "(\<lambda>k. (held(key := held key - 1)) k - count_list keys k) = (\<lambda>k. held k - count_list (key # keys) k)"
    by (auto simp: fun_eq_iff)
  with s' s1 show ?case by simp
qed

section \<open>Reachable states\<close>

text \<open>
  When the configured pool is a multiple of the driver's granularity (after rounding to 16 bytes),
  or there is no pool, the pool takes its whole slab.
\<close>

definition pool_ok :: "cfg \<Rightarrow> u64 \<Rightarrow> bool" where
  "pool_ok cf gran \<longleftrightarrow> gran \<noteq> 0 \<and> (poolSize cf > 0 \<longrightarrow> unat (poolSize cf) + 16 + unat gran \<le> 2 ^ 64 \<and>
     roundUp (roundUp (poolSize cf) 16) gran = roundUp (poolSize cf) 16)"

definition idle :: "cfg \<Rightarrow> mcache \<Rightarrow> bool" where
  "idle cf s \<longleftrightarrow> \<not> initialized s \<and> regs s = [] \<and> cached s = [] \<and> (poolSize cf = 0 \<longrightarrow> poolPtr s = 0 \<and> poolRemain s = 0)"

text \<open>The slabs a fresh allocator took.\<close>

definition first_slabs :: "mcache \<Rightarrow> (u64 \<times> u64) list" where
  "first_slabs s = (case slabAlloc s of None \<Rightarrow> [] | Some sl \<Rightarrow> map (\<lambda>p. (p, totalMem sl)) (slabPtrs sl))"

lemma mc_init_inv:
  assumes id: "idle cf s" and pool: "pool_ok cf gran" and drv: "driver_ok drv []"
    and res: "mc_init cf gran drv s = Ret c s'"
  shows "mc_inv hash K (\<lambda>_. 0) s' (first_slabs s') \<and> initialized s'"
proof -
  have base: "regs_inv hash K (\<lambda>_. 0) s'" "free_inv {} s'" "ptr_inv s'"
    if "regs s' = []" "cached s' = []" "freeMaps s' = (\<lambda>_. Some (\<lambda>_. None))"
    using that by (auto simp: regs_inv_def free_inv_def ptr_inv_def live_def free_q_def)
  show ?thesis
  proof (cases "poolSize cf > 0")
    case False
    then have z: "poolSize cf = 0" by (simp add: word_gt_0)
    with res id have "s' = s\<lparr>slabAlloc := Some (slab_init gran), freeMaps := (\<lambda>_. Some (\<lambda>_. None)), initialized := True\<rparr>"
      by (auto simp: mc_init_def idle_def Let_def)
    moreover have "slab_inv (slab_init gran) [] [(0, 0)]"
      by (simp add: slab_inv_def slab_init_def free_bytes_def)
    ultimately show ?thesis
      using id base z pool by (auto simp: mc_inv_def mem_inv_def idle_def first_slabs_def pool_ok_def slab_init_def)
  next
    case True
    let ?m = "roundUp (poolSize cf) 16"
    have lim: "unat (poolSize cf) + 16 + unat gran \<le> 2 ^ 64" and eq: "roundUp ?m gran = ?m" and g: "gran \<noteq> 0"
      using pool True by (auto simp: pool_ok_def)
    have "poolSize cf \<le> ?m" using roundUp_ge(1) [of "poolSize cf" 16] lim by simp
    with True have m: "0 < ?m" by (rule order.strict_trans2)
    from True res id m eq obtain p h where d: "drv ?m = Inr (p, h)" and s': "s' = s\<lparr>slabAlloc := Some ((slab_init gran)\<lparr>slabPtrs := [p],
        slabHandle := h, freeSize := 0, startPtr := p + ?m, totalMem := ?m\<rparr>), freeMaps := (\<lambda>_. Some (\<lambda>_. None)),
        poolPtr := p, poolHandle := h, poolRemain := ?m, initialized := True\<rparr>"
      by (auto simp: mc_init_def idle_def Let_def cuMalloc_def allocateMem_def kMinAlignSize_def slab_init_def
          split: sum.splits)
    have nw: "no_wrap p ?m" using drv d by (simp add: driver_ok_def)
    then have "mem_inv s' [(p, ?m)]"
      using g by (simp add: mem_inv_def s' slab_init_def slab_inv_def free_bytes_def id [unfolded idle_def])
    then show ?thesis using base id by (simp add: mc_inv_def s' first_slabs_def idle_def slab_init_def)
  qed
qed

lemma countOccupied_zero:
  assumes inv: "mc_inv hash K held s ss"
  shows "countOccupiedRegions s = 0 \<longleftrightarrow> held = (\<lambda>_. 0)"
proof -
  have reg: "regs_inv hash K held s" using inv by (simp add: mc_inv_def)
  have mo: "map_of (cached s) hk = Some i \<longleftrightarrow> (hk, i) \<in> set (AList.clearjunk (cached s))" for hk i
    by (simp add: distinct_clearjunk map_of_clearjunk flip: map_of_eq_Some_iff)
  have "countOccupiedRegions s = 0 \<longleftrightarrow> (\<forall>hk i. map_of (cached s) hk = Some i \<longrightarrow> \<not> r_refCnt (regs s ! i) > 0)"
    unfolding mo by (auto simp: countOccupiedRegions_def filter_empty_conv)
  also have "\<dots> \<longleftrightarrow> held = (\<lambda>_. 0)"
  proof
    assume z: "\<forall>hk i. map_of (cached s) hk = Some i \<longrightarrow> \<not> r_refCnt (regs s ! i) > 0"
    have "\<not> 0 < held k" for k
    proof
      assume "0 < held k"
      from regs_inv_held [OF reg this] z show False by metis
    qed
    then show "held = (\<lambda>_. 0)" by auto
  next
    assume h: "held = (\<lambda>_. 0)"
    then have "\<not> r_refCnt (regs s ! i) > 0" if "i < length (regs s)" for i
      using regs_invD(2) [OF reg that] by auto
    moreover have "i < length (regs s)" if "map_of (cached s) hk = Some i" for hk i
      using inv that by (auto simp: mc_inv_def free_inv_def)
    ultimately show "\<forall>hk i. map_of (cached s) hk = Some i \<longrightarrow> \<not> r_refCnt (regs s ! i) > 0" by blast
  qed
  finally show ?thesis .
qed

text \<open>
  The histories of one allocator: \<open>held\<close> counts the successful \<open>get\<close> and \<open>reserve\<close> calls per key less the
  releases, and \<open>ss\<close> are the slabs it has from the driver. Clients release only what they hold.
\<close>

inductive mc_reach :: "(string \<Rightarrow> u64) \<Rightarrow> cfg \<Rightarrow> u64 \<Rightarrow> string set \<Rightarrow> mcache \<Rightarrow> (string \<Rightarrow> nat) \<Rightarrow>
    (u64 \<times> u64) list \<Rightarrow> bool" for hash cf gran K where
  start: "mc_reach hash cf gran K mcache_new (\<lambda>_. 0) []"
| init: "\<lbrakk>mc_reach hash cf gran K s held ss; \<not> initialized s; driver_ok drv [];
    mc_init cf gran drv s = Ret c s'\<rbrakk> \<Longrightarrow> mc_reach hash cf gran K s' held (first_slabs s')"
| init_fails: "\<lbrakk>mc_reach hash cf gran K s held ss; \<not> initialized s; mc_init cf gran drv s = Throws s'\<rbrakk> \<Longrightarrow>
    mc_reach hash cf gran K s' held []"
| get: "\<lbrakk>mc_reach hash cf gran K s held ss; initialized s; key \<in> K; driver_ok drv ss; request_ok s n;
    getCachedCuMemById hash cf drv tid key n b s = Ret (c, p, h) s'\<rbrakk> \<Longrightarrow>
    mc_reach hash cf gran K s' (if c = commSuccess then held(key := held key + 1) else held) (ss @ new_slabs s s')"
| get_throws: "\<lbrakk>mc_reach hash cf gran K s held ss; initialized s; key \<in> K;
    getCachedCuMemById hash cf drv tid key n b s = Throws s'\<rbrakk> \<Longrightarrow> mc_reach hash cf gran K s' held ss"
| reserve: "\<lbrakk>mc_reach hash cf gran K s held ss; initialized s; key \<in> K; reserve hash key s = Ret c s'\<rbrakk> \<Longrightarrow>
    mc_reach hash cf gran K s' (if c = commSuccess then held(key := held key + 1) else held) ss"
| release: "\<lbrakk>mc_reach hash cf gran K s held ss; initialized s; \<forall>k. count_list keys k \<le> held k;
    release hash keys s = Ret c s'\<rbrakk> \<Longrightarrow>
    mc_reach hash cf gran K s' (\<lambda>k. held k - count_list keys k) ss"
| reset: "\<lbrakk>mc_reach hash cf gran K s held ss; initialized s; mc_reset s = Ret c s'\<rbrakk> \<Longrightarrow>
    mc_reach hash cf gran K s' held (if initialized s' then ss else [])"

lemma no_throw [simp]:
  "getFreeMemReg cf n b s \<noteq> Throws s'" "freeMemReg i s \<noteq> Throws s'" "take_region hk key i s \<noteq> Throws s'"
  "take_region hk key i s \<noteq> Undef"
  by (auto simp: getFreeMemReg_def freeMemReg_def take_region_def Let_def split: option.split list.split)

lemma createNewMemReg_throws: "createNewMemReg drv tid n b s = Throws s' \<Longrightarrow> s' = s"
  by (auto simp: createNewMemReg_def split: if_splits option.splits sum.splits)

lemma getFreeMemReg_None: "getFreeMemReg cf n b s = Ret None s' \<Longrightarrow> s' = s"
  by (auto simp: getFreeMemReg_def split: if_splits option.splits list.splits)

lemma get_throws_same:
  assumes "getCachedCuMemById hash cf drv tid key n b s = Throws s'"
  shows "s' = s"
  using assms
  by (auto simp: getCachedCuMemById_def Let_def dest: createNewMemReg_throws getFreeMemReg_None
      split: if_splits option.splits outcome.splits)

text \<open>Without a configured pool the pool pointer stays null.\<close>

definition no_pool :: "mcache \<Rightarrow> bool" where
  "no_pool s \<longleftrightarrow> poolPtr s = 0 \<and> poolRemain s = 0"

lemma no_pool_parts:
  "getFreeMemReg cf n b s = Ret r s' \<Longrightarrow> no_pool s' = no_pool s"
  "freeMemReg i s = Ret u s' \<Longrightarrow> no_pool s' = no_pool s"
  "take_region hk key i s = Ret t s' \<Longrightarrow> no_pool s' = no_pool s"
  "createNewMemReg drv tid n b s = Ret j s' \<Longrightarrow> no_pool s \<Longrightarrow> no_pool s'"
  "put_free i s = Ret v s' \<Longrightarrow> no_pool s' = no_pool s"
  "no_pool (upd_region i f s) = no_pool s"
  by (auto simp: no_pool_def getFreeMemReg_def freeMemReg_def take_region_def createNewMemReg_def put_free_def
      add_region_def upd_region_def Let_def split: if_splits option.splits list.splits sum.splits)

lemma no_pool_get:
  "getCachedCuMemById hash cf drv tid key n b s = Ret r s' \<Longrightarrow> no_pool s \<Longrightarrow> no_pool s'"
  by (auto simp: getCachedCuMemById_def Let_def no_pool_parts split: if_splits option.splits outcome.splits
      dest!: no_pool_parts(3,4))

lemma no_pool_reserve: "reserve hash key s = Ret r s' \<Longrightarrow> no_pool s' = no_pool s"
  by (auto simp: reserve_def no_pool_parts split: if_splits option.splits outcome.splits)

lemma no_pool_release_one: "release_one hash key s = Ret r s' \<Longrightarrow> no_pool s' = no_pool s"
  by (auto simp: release_one_def no_pool_parts Let_def split: if_splits option.splits outcome.splits)

lemma no_pool_release: "release hash keys s = Ret r s' \<Longrightarrow> no_pool s' = no_pool s"
  by (induction keys arbitrary: s) (auto simp: no_pool_release_one split: if_splits outcome.splits)

lemma mc_reach_no_pool: "mc_reach hash cf gran K s held ss \<Longrightarrow> poolSize cf = 0 \<Longrightarrow> no_pool s"
proof (induction rule: mc_reach.induct)
  case (get s held ss key drv n tid b c p h s')
  then show ?case by (auto dest: no_pool_get)
next
  case (get_throws s held ss key drv n tid b s')
  then show ?case by (auto dest: get_throws_same)
qed (auto simp: no_pool_reserve no_pool_release,
     auto simp: no_pool_def mc_init_def mc_reset_def mcache_new_def Let_def split: if_splits)

text \<open>In an initialised state the calls that a client may make never dereference a null pointer.\<close>

lemma mc_defined:
  assumes inv: "mc_inv hash K held s ss"
  shows "getCachedCuMemById hash cf drv tid key n b s \<noteq> Undef" "reserve hash key s \<noteq> Undef"
proof -
  have fm: "\<exists>fm. freeMaps s b = Some fm" for b using inv by (auto simp: mc_inv_def free_inv_def)
  obtain sl where sl: "slabAlloc s = Some sl" using inv by (auto simp: mc_inv_def mem_inv_def)
  have fq: "freeMemReg i s \<noteq> Undef" if c: "map_of (cached s) hk = Some i" "r_refCnt (regs s ! i) = 0" for hk i
  proof -
    have "free_inv {} s" using inv by (simp add: mc_inv_def)
    from freeMemReg_inv [OF this c] show ?thesis by (metis outcome.distinct(3))
  qed
  show "reserve hash key s \<noteq> Undef"
    using fq by (auto simp: reserve_def split: option.splits outcome.splits)
  have "slabAlloc s1 = Some sl" if "getFreeMemReg cf m b s = Ret None s1" for m s1
    using that sl inv getFreeMemReg_inv [of hash K held s cf m b None s1] by (auto simp: mc_inv_def)
  then have "createNewMemReg drv tid n b s1 \<noteq> Undef" if "getFreeMemReg cf m b s = Ret None s1" for m s1
    using that by (auto simp: createNewMemReg_def split: if_splits option.splits sum.splits)
  moreover have "getFreeMemReg cf m b s \<noteq> Undef" for m
    using fm [of b] by (auto simp: getFreeMemReg_def split: option.splits list.splits)
  ultimately show "getCachedCuMemById hash cf drv tid key n b s \<noteq> Undef"
    using fq by (auto simp: getCachedCuMemById_def take_region_def isRegionUsable_def Let_def
        split: if_splits option.splits outcome.splits)
qed

lemma mc_reach_inv:
  assumes "mc_reach hash cf gran K s held ss" "inj_on hash K" "pool_ok cf gran"
  shows "if initialized s then mc_inv hash K held s ss else idle cf s \<and> held = (\<lambda>_. 0)"
  using assms(1)
proof induction
  case start
  show ?case by (simp add: mcache_new_def idle_def)
next
  case (init s held ss drv c s')
  then have "idle cf s" "held = (\<lambda>_. 0)" by simp_all
  with mc_init_inv [OF this(1) assms(3) init.hyps(3,4)] show ?case by simp
next
  case (init_fails s held ss drv s')
  then show ?case by (auto simp: mc_init_def idle_def Let_def split: if_splits sum.splits)
next
  case (get s held ss key drv n tid b c p h s')
  then have "mc_inv hash K held s ss" by simp
  from get_inv [OF this assms(2) get.hyps(3-6)] get.hyps(2) show ?case by simp
next
  case (get_throws s held ss key drv n tid b s')
  then have inv: "mc_inv hash K held s ss" by simp
  from get_throws_same [OF get_throws.hyps(4)] inv get_throws.hyps(2) show ?case by simp
next
  case (reserve s held ss key c s')
  then have "mc_inv hash K held s ss" by simp
  from reserve_inv [OF this assms(2) reserve.hyps(3,4)] reserve.hyps(2) show ?case by simp
next
  case (release s held ss keys c s')
  then have "mc_inv hash K held s ss" by simp
  from release_inv [OF this assms(2) release.hyps(3)] release.hyps(2,4) show ?case by auto
next
  case (reset s held ss c s')
  then have inv: "mc_inv hash K held s ss" by simp
  show ?case
  proof (cases "countOccupiedRegions s = 0")
    case True
    with reset.hyps(2,3) have "s' = s\<lparr>freeMaps := (\<lambda>_. None), regs := [], cached := [], slabAlloc := None, initialized := False\<rparr>"
      by (simp add: mc_reset_def)
    with countOccupied_zero [OF inv] True mc_reach_no_pool [OF reset.hyps(1)] show ?thesis
      by (simp add: idle_def no_pool_def)
  next
    case False
    with reset.hyps(2,3) inv show ?thesis by (auto simp: mc_reset_def)
  qed
qed

section \<open>What the pool promises\<close>

text \<open>C28: two keys that hold a region at the same time hold different regions that share no byte,
  and all regions lie inside the slabs taken from the driver, in every reachable state, provided that no two of the keys in use
  have the same hash (the pool knows a key only by its hash: see \<open>mc_collision_shares\<close>), that clients release only what they hold, and
  that the configured pool fills its slab (see \<open>mc_pool_overlap\<close>).\<close>

theorem mc_exclusive:
  assumes "mc_reach hash cf gran K s held ss" "inj_on hash K" "pool_ok cf gran"
  shows "(\<forall>k1 k2. 0 < held k1 \<and> 0 < held k2 \<and> k1 \<noteq> k2 \<longrightarrow> (\<exists>i1 i2.
      map_of (cached s) (hash k1) = Some i1 \<and> map_of (cached s) (hash k2) = Some i2 \<and> i1 \<noteq> i2 \<and>
      r_owner (regs s ! i1) = k1 \<and> r_refCnt (regs s ! i1) = int (held k1) \<and>
      bytes (region_block (regs s ! i1)) \<inter> bytes (region_block (regs s ! i2)) = {})) \<and>
    (\<forall>r \<in> set (regs s). bytes (region_block r) \<subseteq> (\<Union>a \<in> set ss. bytes a))"
proof (cases "initialized s")
  case True
  then have inv: "mc_inv hash K held s ss" using mc_reach_inv [OF assms] by simp
  then obtain sl where sl: "slab_inv sl ss ((poolPtr s, poolRemain s) # map region_block (regs s))"
    by (auto simp: mc_inv_def mem_inv_def)
  have reg: "regs_inv hash K held s" using inv by (simp add: mc_inv_def)
  have dis: "disjnt (bytes (region_block (regs s ! i))) (bytes (region_block (regs s ! j)))"
    if "i < j" "j < length (regs s)" for i j
    using sl that sorted_wrt_nth_less [of _ "map region_block (regs s)" i j] by (auto simp: slab_inv_def)
  have "\<exists>i1 i2. map_of (cached s) (hash k1) = Some i1 \<and> map_of (cached s) (hash k2) = Some i2 \<and> i1 \<noteq> i2 \<and>
      r_owner (regs s ! i1) = k1 \<and> r_refCnt (regs s ! i1) = int (held k1) \<and>
      bytes (region_block (regs s ! i1)) \<inter> bytes (region_block (regs s ! i2)) = {}"
    if h: "0 < held k1" "0 < held k2" "k1 \<noteq> k2" for k1 k2
  proof -
    obtain i1 where i1: "map_of (cached s) (hash k1) = Some i1" "i1 < length (regs s)" "r_owner (regs s ! i1) = k1"
      "r_refCnt (regs s ! i1) = int (held k1)" using regs_inv_held [OF reg h(1)] by metis
    obtain i2 where i2: "map_of (cached s) (hash k2) = Some i2" "i2 < length (regs s)" "r_owner (regs s ! i2) = k2"
      using regs_inv_held [OF reg h(2)] by metis
    have ne: "i1 \<noteq> i2" using i1(3) i2(3) h(3) by auto
    then have "bytes (region_block (regs s ! i1)) \<inter> bytes (region_block (regs s ! i2)) = {}"
      using dis [of i1 i2] dis [of i2 i1] i1(2) i2(2) by (auto simp: disjnt_def neq_iff)
    with i1 i2 ne show ?thesis by blast
  qed
  moreover have "bytes (region_block r) \<subseteq> (\<Union>a \<in> set ss. bytes a)" if "r \<in> set (regs s)" for r
    using sl that by (auto simp: slab_inv_def)
  ultimately show ?thesis by blast
next
  case False
  then show ?thesis using mc_reach_inv [OF assms] by (simp add: idle_def)
qed

text \<open>in a reachable initialised state \<open>get\<close> and \<open>reserve\<close> never dereference a null pointer, the release
  of keys that are held succeeds, and \<open>reset\<close> succeeds exactly when no key holds a region.\<close>

theorem mc_total:
  assumes "mc_reach hash cf gran K s held ss" "inj_on hash K" "pool_ok cf gran" "initialized s"
  shows "getCachedCuMemById hash cf drv tid key n b s \<noteq> Undef \<and> reserve hash key s \<noteq> Undef \<and>
    ((\<forall>k. count_list keys k \<le> held k) \<longrightarrow> (\<exists>s'. release hash keys s = Ret commSuccess s')) \<and>
    (if held = (\<lambda>_. 0) then \<exists>s'. mc_reset s = Ret commSuccess s' \<and> \<not> initialized s'
     else mc_reset s = Ret commInvalidUsage s)"
proof -
  have inv: "mc_inv hash K held s ss" using mc_reach_inv [OF assms(1-3)] assms(4) by simp
  have "\<exists>s'. release hash keys s = Ret commSuccess s'" if "\<forall>k. count_list keys k \<le> held k"
    using release_inv [OF inv assms(2) that] by blast
  with mc_defined [OF inv] countOccupied_zero [OF inv] assms(4)
  show ?thesis by (cases "countOccupiedRegions s = 0") (simp_all add: mc_reset_def)
qed

section \<open>Concrete histories\<close>

text \<open>
  A driver that hands out one slab of at most 64 bytes, two keys \<open>a\<close> and \<open>b\<close>, a pool of
  \<open>m\<close> bytes with granularity 64; \<open>a\<close> asks for \<open>n\<close> bytes, then \<open>b\<close> for \<open>k\<close>.
\<close>

definition ex_hash :: "string \<Rightarrow> u64" where "ex_hash k = (if k = ''a'' then 1 else 2)"
definition ex_drv :: driver where "ex_drv n = (if n \<le> 64 then Inr (4096, 7) else Inl commSystemError)"
definition ex_none :: driver where "ex_none n = Inl commSystemError"
definition ex_cfg :: "u64 \<Rightarrow> cfg" where "ex_cfg n = \<lparr>poolSize = n, useSharedPool = True\<rparr>"

definition after :: "'r outcome \<Rightarrow> mcache" where
  "after r = (case r of Ret _ s \<Rightarrow> s | Throws s \<Rightarrow> s | Undef \<Rightarrow> mcache_new)"

definition returns :: "'r outcome \<Rightarrow> ('r \<Rightarrow> bool) \<Rightarrow> bool" where
  "returns r P = (case r of Ret v _ \<Rightarrow> P v | Throws _ \<Rightarrow> False | Undef \<Rightarrow> False)"

definition ex_s1 :: "u64 \<Rightarrow> mcache" where "ex_s1 m = after (mc_init (ex_cfg m) 64 ex_drv mcache_new)"
definition ex_s2 :: "u64 \<Rightarrow> u64 \<Rightarrow> mcache" where
  "ex_s2 m n = after (getCachedCuMemById ex_hash (ex_cfg m) ex_none 0 ''a'' n DEFAULT (ex_s1 m))"
definition ex_s3 :: "u64 \<Rightarrow> u64 \<Rightarrow> u64 \<Rightarrow> mcache" where
  "ex_s3 m n k = after (getCachedCuMemById ex_hash (ex_cfg m) ex_none 0 ''b'' k DEFAULT (ex_s2 m n))"

lemma returns_Ret: "returns r (\<lambda>v. v = c) \<Longrightarrow> r = Ret c (after r)"
  by (cases r) (simp_all add: returns_def after_def)

lemma ex_drv_ok: "driver_ok ex_drv []" "driver_ok ex_none ss"
proof -
  have "no_wrap 4096 n" if "n \<le> 64" for n :: u64
    using that by (simp add: no_wrap_def word_le_nat_alt)
  then show "driver_ok ex_drv []" by (auto simp: driver_ok_def ex_drv_def split: if_splits)
  show "driver_ok ex_none ss" by (simp add: driver_ok_def ex_none_def)
qed

lemma ex_hash_inj: "inj_on ex_hash {''a'', ''b''}"
  by (simp add: inj_on_def ex_hash_def)

lemma ex_request_ok: "map_option granularity (slabAlloc s) = Some 64 \<Longrightarrow> n \<le> 64 \<Longrightarrow> request_ok s n"
  by (auto simp: request_ok_def word_le_nat_alt)

text \<open>The history, from what the calls return.\<close>

lemma ex_reach:
  assumes r1: "returns (mc_init (ex_cfg m) 64 ex_drv mcache_new) (\<lambda>v. v = commSuccess)" "initialized (ex_s1 m)"
      "map_option granularity (slabAlloc (ex_s1 m)) = Some 64" "n \<le> 64"
    and r2: "returns (getCachedCuMemById ex_hash (ex_cfg m) ex_none 0 ''a'' n DEFAULT (ex_s1 m)) (\<lambda>v. v = (commSuccess, p1, 7))"
      "initialized (ex_s2 m n)" "map_option granularity (slabAlloc (ex_s2 m n)) = Some 64" "k \<le> 64"
    and r3: "returns (getCachedCuMemById ex_hash (ex_cfg m) ex_none 0 ''b'' k DEFAULT (ex_s2 m n)) (\<lambda>v. v = (commSuccess, p2, 7))"
  shows "\<exists>ss. mc_reach ex_hash (ex_cfg m) 64 {''a'', ''b''} (ex_s3 m n k) ((\<lambda>_. 0)(''a'' := 1, ''b'' := 1)) ss"
proof -
  note e1 = returns_Ret [OF r1(1), folded ex_s1_def] and e2 = returns_Ret [OF r2(1), folded ex_s2_def]
    and e3 = returns_Ret [OF r3, folded ex_s3_def]
  let ?R = "mc_reach ex_hash (ex_cfg m) 64 {''a'', ''b''}"
  have "?R (ex_s1 m) (\<lambda>_. 0) (first_slabs (ex_s1 m))"
    by (rule mc_reach.init [OF mc_reach.start _ ex_drv_ok(1) e1]) (simp add: mcache_new_def)
  from mc_reach.get [OF this r1(2) _ ex_drv_ok(2) ex_request_ok [OF r1(3,4)] e2]
  obtain ss where "?R (ex_s2 m n) ((\<lambda>_. 0)(''a'' := 1)) ss" by auto
  from mc_reach.get [OF this r2(2) _ ex_drv_ok(2) ex_request_ok [OF r2(3,4)] e3]
  show ?thesis by auto
qed

lemma ex_good:
  "\<exists>ss. mc_reach ex_hash (ex_cfg 64) 64 {''a'', ''b''} (ex_s3 64 20 16) ((\<lambda>_. 0)(''a'' := 1, ''b'' := 1)) ss"
  by (rule ex_reach [where ?p1.0 = 4096 and ?p2.0 = 4116]; code_simp)

lemma ex_pool_ok: "pool_ok (ex_cfg 64) 64"
  by (simp add: pool_ok_def ex_cfg_def roundUp_def)

theorem mc_exclusive_witness:
  "\<exists>i1 i2. map_of (cached (ex_s3 64 20 16)) 1 = Some i1 \<and> map_of (cached (ex_s3 64 20 16)) 2 = Some i2 \<and> i1 \<noteq> i2 \<and>
     bytes (region_block (regs (ex_s3 64 20 16) ! i1)) \<inter> bytes (region_block (regs (ex_s3 64 20 16) ! i2)) = {}"
proof -
  obtain ss where "mc_reach ex_hash (ex_cfg 64) 64 {''a'', ''b''} (ex_s3 64 20 16) ((\<lambda>_. 0)(''a'' := 1, ''b'' := 1)) ss"
    using ex_good by blast
  from conjunct1 [OF mc_exclusive [OF this ex_hash_inj ex_pool_ok], rule_format, of "''a''" "''b''"]
  show ?thesis by (auto simp: ex_hash_def)
qed

theorem mc_total_witness: "mc_reset (ex_s3 64 20 16) = Ret commInvalidUsage (ex_s3 64 20 16)"
proof -
  have i: "initialized (ex_s3 64 20 16)" by code_simp
  obtain ss where "mc_reach ex_hash (ex_cfg 64) 64 {''a'', ''b''} (ex_s3 64 20 16) ((\<lambda>_. 0)(''a'' := 1, ''b'' := 1)) ss"
    using ex_good by blast
  from mc_total [OF this ex_hash_inj ex_pool_ok i]
  have "if (\<lambda>_. 0)(''a'' := 1 :: nat, ''b'' := 1) = (\<lambda>_. 0) then \<exists>s'. mc_reset (ex_s3 64 20 16) = Ret commSuccess s' \<and> \<not> initialized s'
     else mc_reset (ex_s3 64 20 16) = Ret commInvalidUsage (ex_s3 64 20 16)" by blast
  moreover have "(\<lambda>_. 0)(''a'' := 1 :: nat, ''b'' := 1) \<noteq> (\<lambda>_. 0)" by (metis fun_upd_same zero_neq_one)
  ultimately show ?thesis by (simp only: if_False)
qed

text \<open>Two keys with the same hash: releasing the first frees the region of the second, which a third key then gets while the second
  still holds it.\<close>

definition ex_clash :: "string \<Rightarrow> u64" where "ex_clash k = (if k = ''c'' then 2 else 1)"

definition ex_get :: "string \<Rightarrow> mcache \<Rightarrow> (commResult \<times> u64 \<times> ptr) outcome" where
  "ex_get k s = getCachedCuMemById ex_clash (ex_cfg 64) ex_none 0 k 16 DEFAULT s"

lemma mc_collision_shares:
  "let s = after (ex_get ''a'' (ex_s1 64)); r = ex_get ''b'' s; t = after (release ex_clash [''a''] (after r))
   in returns r (\<lambda>v. v = (commSuccess, 4112, 7)) \<and> returns (ex_get ''c'' t) (\<lambda>v. v = (commSuccess, 4112, 7))"
  by code_simp

text \<open>with a configured pool that does not fill its slab, the rest of the slab is handed out twice:
  two keys hold regions with common bytes. With a pool of 16 bytes and a granularity of 64, a request of 64 bytes
  is served from the pool and the next one, of 48 bytes, from the same slab.\<close>

theorem mc_pool_overlap:
  "\<exists>ss. mc_reach ex_hash (ex_cfg 16) 64 {''a'', ''b''} (ex_s3 16 64 48) ((\<lambda>_. 0)(''a'' := 1, ''b'' := 1)) ss \<and>
     map_of (cached (ex_s3 16 64 48)) (ex_hash ''a'') = Some 0 \<and> map_of (cached (ex_s3 16 64 48)) (ex_hash ''b'') = Some 1 \<and>
     region_block (regs (ex_s3 16 64 48) ! 0) = (4096, 64) \<and> region_block (regs (ex_s3 16 64 48) ! 1) = (4112, 48) \<and>
     bytes (region_block (regs (ex_s3 16 64 48) ! 0)) \<inter> bytes (region_block (regs (ex_s3 16 64 48) ! 1)) \<noteq> {}"
proof -
  have "\<exists>ss. mc_reach ex_hash (ex_cfg 16) 64 {''a'', ''b''} (ex_s3 16 64 48) ((\<lambda>_. 0)(''a'' := 1, ''b'' := 1)) ss"
    by (rule ex_reach [where ?p1.0 = 4096 and ?p2.0 = 4112]; code_simp)
  moreover have "map_of (cached (ex_s3 16 64 48)) (ex_hash ''a'') = Some 0"
    "map_of (cached (ex_s3 16 64 48)) (ex_hash ''b'') = Some 1"
    "region_block (regs (ex_s3 16 64 48) ! 0) = (4096, 64)" "region_block (regs (ex_s3 16 64 48) ! 1) = (4112, 48)"
    by code_simp+
  moreover then have "bytes (region_block (regs (ex_s3 16 64 48) ! 0)) \<inter> bytes (region_block (regs (ex_s3 16 64 48) ! 1)) \<noteq> {}"
    by (simp add: bytes_def)
  ultimately show ?thesis by blast
qed

end
