(* ===== verification/Topology.thy ===== *)
theory Topology imports Prelude begin

text \<open>
  The topology file of a host, \<^verbatim>\<open>comms/ctran/commstate/Topology.cc\<close>. The file is the list of
  its lines. The conversion of the rack serial (\<^verbatim>\<open>folly::to<int>\<close>) is the argument \<open>to_int\<close>.
  A \<^verbatim>\<open>char[64]\<close> member holds the bytes before its first NUL: at most 64, and with exactly 64
  there is no NUL in the array, so that reading it as a C string is undefined.
\<close>

section \<open>Data\<close>

definition kMaxNameLen :: nat where "kMaxNameLen = 64"

record RankTopology =
  t_rank :: int
  t_host :: string
  t_rtsw :: string
  t_su :: string
  t_zone :: string
  t_dc :: string
  t_rackSerial :: int

text \<open>\<^verbatim>\<open>strncpy\<close> into a member (the strings have no NUL), and reading a member as a C string.\<close>

definition copy_name :: "string \<Rightarrow> string" where "copy_name s = take kMaxNameLen s"

definition read_name :: "string \<Rightarrow> string option" where
  "read_name s = (if length s < kMaxNameLen then Some s else None)"

section \<open>Parsing\<close>

record topo_vals =
  v_dc :: string
  v_zone :: string
  v_su :: string
  v_rtsw :: string
  v_valid :: bool

definition parseTopologyValue :: "string \<Rightarrow> topo_vals \<Rightarrow> topo_vals" where
  "parseTopologyValue value v =
     (case split_on CHR ''/'' value of
        [dc, zone, su, rtsw] \<Rightarrow>
          (let v1 = v\<lparr>v_dc := dc, v_zone := zone, v_su := su, v_rtsw := rtsw\<rparr>
           in if rtsw = [] \<and> su = [] \<or> rtsw \<noteq> [] \<and> su \<noteq> [] \<or> zone = [] then v1
              else v1\<lparr>v_valid := True\<rparr>)
      | _ \<Rightarrow> v)"

definition parseRackSerial :: "(string \<Rightarrow> int option) \<Rightarrow> string \<Rightarrow> int \<Rightarrow> int" where
  "parseRackSerial to_int value rackSerial = (case to_int value of Some n \<Rightarrow> n | None \<Rightarrow> rackSerial)"

text \<open>The local variables of the loop over the lines.\<close>

record topo_state =
  ts_host :: string
  ts_backend :: string
  ts_vals :: topo_vals
  ts_rack :: int

definition topo_line :: "(string \<Rightarrow> int option) \<Rightarrow> string \<Rightarrow> topo_state \<Rightarrow> topo_state" where
  "topo_line to_int line st =
     (if CHR ''='' \<notin> set line then st
      else
        let key = takeWhile (\<lambda>c. c \<noteq> CHR ''='') line; value = drop (length key + 1) line
        in if key = ''DEVICE_NAME'' then st\<lparr>ts_host := value\<rparr>
           else if key = ''DEVICE_BACKEND_NETWORK_TOPOLOGY'' then
             st\<lparr>ts_backend := value, ts_vals := parseTopologyValue value (ts_vals st)\<rparr>
           else if key = ''DEVICE_RACK_SERIAL'' then
             (if value \<noteq> [] then st\<lparr>ts_rack := parseRackSerial to_int value (ts_rack st)\<rparr> else st)
           else st)"

definition topo_start :: topo_state where
  "topo_start = \<lparr>ts_host = [], ts_backend = [], ts_vals = \<lparr>v_dc = [], v_zone = [], v_su = [], v_rtsw = [], v_valid = False\<rparr>,
     ts_rack = - 1\<rparr>"

text \<open>\<open>ignore_failure\<close> is \<^verbatim>\<open>NCCL_IGNORE_TOPO_LOAD_FAILURE\<close>.\<close>

definition loadTopology :: "bool \<Rightarrow> (string \<Rightarrow> int option) \<Rightarrow> int \<Rightarrow> string list \<Rightarrow> RankTopology option" where
  "loadTopology ignore_failure to_int rank lines =
     (let st = fold (topo_line to_int) lines topo_start; v = ts_vals st
      in if \<not> ignore_failure \<and> ts_host st = [] then None
         else if \<not> ignore_failure \<and> ts_backend st \<noteq> [] \<and> \<not> v_valid v then None
         else Some \<lparr>t_rank = rank, t_host = copy_name (ts_host st), t_rtsw = copy_name (v_rtsw v),
                t_su = copy_name (v_su v), t_zone = copy_name (v_zone v), t_dc = copy_name (v_dc v),
                t_rackSerial = ts_rack st\<rparr>)"

section \<open>Properties\<close>

lemma topo_line_key:
  assumes "CHR ''='' \<notin> set key"
  shows "topo_line to_int (key @ CHR ''='' # value) st =
     (if key = ''DEVICE_NAME'' then st\<lparr>ts_host := value\<rparr>
      else if key = ''DEVICE_BACKEND_NETWORK_TOPOLOGY'' then
        st\<lparr>ts_backend := value, ts_vals := parseTopologyValue value (ts_vals st)\<rparr>
      else if key = ''DEVICE_RACK_SERIAL'' then
        (if value \<noteq> [] then st\<lparr>ts_rack := parseRackSerial to_int value (ts_rack st)\<rparr> else st)
      else st)"
proof -
  have "takeWhile (\<lambda>c. c \<noteq> CHR ''='') (key @ CHR ''='' # value) = key"
    using assms by (subst takeWhile_append2) auto
  then show ?thesis by (simp add: topo_line_def Let_def)
qed

text \<open>The lines a host with the given topology has.\<close>

definition topo_value :: "RankTopology \<Rightarrow> string" where
  "topo_value t = t_dc t @ CHR ''/'' # t_zone t @ CHR ''/'' # t_su t @ CHR ''/'' # t_rtsw t"

definition topo_lines :: "string \<Rightarrow> RankTopology \<Rightarrow> string list" where
  "topo_lines rack t = [''DEVICE_NAME'' @ CHR ''='' # t_host t,
     ''DEVICE_BACKEND_NETWORK_TOPOLOGY'' @ CHR ''='' # topo_value t, ''DEVICE_RACK_SERIAL'' @ CHR ''='' # rack]"

definition topo_names :: "RankTopology \<Rightarrow> string list" where
  "topo_names t = [t_host t, t_rtsw t, t_su t, t_zone t, t_dc t]"

lemma parseTopologyValue_value:
  assumes "CHR ''/'' \<notin> set (t_dc t)" "CHR ''/'' \<notin> set (t_zone t)" "CHR ''/'' \<notin> set (t_su t)" "CHR ''/'' \<notin> set (t_rtsw t)"
  shows "parseTopologyValue (topo_value t) v =
    \<lparr>v_dc = t_dc t, v_zone = t_zone t, v_su = t_su t, v_rtsw = t_rtsw t,
      v_valid = (v_valid v \<or> (t_rtsw t = []) \<noteq> (t_su t = []) \<and> t_zone t \<noteq> [])\<rparr>"
  using assms by (cases v) (auto simp: parseTopologyValue_def topo_value_def Let_def)

text \<open>C29: a topology written into the file format is read back unchanged, when exactly one of rack switch
  and scaling unit is given, the zone is given and the names fit their 64-byte members; with both or none given it is refused.\<close>

theorem loadTopology_roundtrip:
  assumes "\<forall>n \<in> set (topo_names t). CHR ''/'' \<notin> set n \<and> length n < kMaxNameLen"
    and "to_int rack = Some (t_rackSerial t)" "rack \<noteq> []" "t_host t \<noteq> []" "t_rank t = rank"
  shows "loadTopology False to_int rank (topo_lines rack t) =
    (if (t_rtsw t = []) \<noteq> (t_su t = []) \<and> t_zone t \<noteq> [] then Some t else None)"
proof -
  have c: "copy_name n = n" if "n \<in> set (topo_names t)" for n
    using assms(1) that by (simp add: copy_name_def less_imp_le)
  have ne: "topo_value t \<noteq> []" by (simp add: topo_value_def)
  have "fold (topo_line to_int) (topo_lines rack t) topo_start =
    \<lparr>ts_host = t_host t, ts_backend = topo_value t,
      ts_vals = \<lparr>v_dc = t_dc t, v_zone = t_zone t, v_su = t_su t, v_rtsw = t_rtsw t,
        v_valid = ((t_rtsw t = []) \<noteq> (t_su t = []) \<and> t_zone t \<noteq> [])\<rparr>, ts_rack = t_rackSerial t\<rparr>"
    using assms by (simp add: topo_lines_def topo_line_key topo_start_def parseTopologyValue_value topo_names_def
        parseRackSerial_def del: append.simps)
  then show ?thesis
    using assms(4,5) ne c by (cases t) (auto simp: loadTopology_def Let_def topo_names_def)
qed

theorem loadTopology_roundtrip_witness:
  "loadTopology False (\<lambda>s. if s = ''12'' then Some 12 else None) 3
     [''DEVICE_NAME=h.nha1'', ''DEVICE_BACKEND_NETWORK_TOPOLOGY=pci5/pci5.5D//rtsw191'', ''DEVICE_RACK_SERIAL=12''] =
   Some \<lparr>t_rank = 3, t_host = ''h.nha1'', t_rtsw = ''rtsw191'', t_su = [], t_zone = ''pci5.5D'', t_dc = ''pci5'', t_rackSerial = 12\<rparr>"
  using loadTopology_roundtrip [of "\<lparr>t_rank = 3, t_host = ''h.nha1'', t_rtsw = ''rtsw191'', t_su = [],
      t_zone = ''pci5.5D'', t_dc = ''pci5'', t_rackSerial = 12\<rparr>" "\<lambda>s. if s = ''12'' then Some 12 else None" "''12''" 3]
  by (simp add: topo_names_def topo_lines_def topo_value_def kMaxNameLen_def)

text \<open>a host name of 64 characters or more is copied without a terminator, so that the loaded
  topology cannot be read back as a C string; a shorter one is read back as it was.\<close>

theorem loadTopology_unterminated:
  "\<exists>t. loadTopology True to_int rank [''DEVICE_NAME='' @ h] = Some t \<and>
     read_name (t_host t) = (if length h < 64 then Some h else None)"
proof -
  have "topo_line to_int (''DEVICE_NAME'' @ CHR ''='' # h) topo_start = topo_start\<lparr>ts_host := h\<rparr>"
    by (subst topo_line_key) simp_all
  then show ?thesis
    by (simp add: loadTopology_def Let_def copy_name_def read_name_def kMaxNameLen_def)
qed

end
