(* ===== verification/Comm_State.thy ===== *)
theory Comm_State imports Topology "HOL-Library.AList" "HOL-Library.Signed_Division" begin

text \<open>
  The communicator state of \<^verbatim>\<open>comms/ctran/commstate/CommStateX.cc\<close>: which ranks share a node, a
  rack, a zone, an NVLink domain, and the translation between ranks and local ranks. A failed
  \<^verbatim>\<open>FB_CHECKABORT\<close> is the error \<open>Abort\<close>, an index outside a vector (\<^verbatim>\<open>at\<close>) the error \<open>OutOfRange\<close>
  and reading an unterminated name the error \<open>Undefined\<close>. Hash maps are association lists.
\<close>

section \<open>State\<close>

datatype serr = Abort | OutOfRange | Undefined

datatype debug_topo = system | nolocal | vnode

record RankState =
  rs_rank :: int
  rs_host :: string
  rs_rtsw :: string
  rs_su :: string
  rs_dc :: string
  rs_zone :: string
  rs_nodeId :: int
  rs_localRank :: int
  rs_nLocalRanks :: int
  rs_localRankToRanks :: "int list"
  rs_rackSerial :: int

record NvlFabricTopology =
  n_rank :: int
  supportNvlFabric :: bool
  n_clusterId :: string
  n_cliqueId :: int

record NvlFabricRankState =
  nv_rank :: int
  nvlDomainRank :: int
  clusterId :: string
  nvlDomainIndex :: int
  nNvlDomainRanks :: int
  nvlDomainRankToRank :: "int list"
  cliqueRank :: int
  cliqueId :: int
  cliqueIndex :: int
  nCliqueRanks :: int
  cliqueRankToRank :: "int list"

record statex =
  sx_rank :: int
  sx_nRanks :: int
  rankTopologies :: "RankTopology list"
  commRanksToWorldRanks :: "int list"
  hostToRanks :: "(string \<times> int list) list"
  nodeRanks :: "int list list"
  nvlDomainRanks :: "int list list"
  cliqueRanks :: "int list list"
  rankStates :: "RankState list"
  nvlFabricRankStates :: "NvlFabricRankState list"
  myNvlFabricRankState :: NvlFabricRankState
  nvlFabricEnabled :: bool
  nvlFabricCliqueEnabled :: bool
  nvlFabricTopos :: "NvlFabricTopology list"

definition RankState_new :: RankState where
  "RankState_new = \<lparr>rs_rank = - 1, rs_host = [], rs_rtsw = [], rs_su = [], rs_dc = [], rs_zone = [], rs_nodeId = - 1,
     rs_localRank = - 1, rs_nLocalRanks = - 1, rs_localRankToRanks = [], rs_rackSerial = - 1\<rparr>"

definition NvlFabricRankState_new :: NvlFabricRankState where
  "NvlFabricRankState_new = \<lparr>nv_rank = - 1, nvlDomainRank = - 1, clusterId = [], nvlDomainIndex = - 1,
     nNvlDomainRanks = - 1, nvlDomainRankToRank = [], cliqueRank = - 1, cliqueId = - 1, cliqueIndex = - 1,
     nCliqueRanks = - 1, cliqueRankToRank = []\<rparr>"

definition statex_new :: "int \<Rightarrow> int \<Rightarrow> statex" where
  "statex_new rank nRanks = \<lparr>sx_rank = rank, sx_nRanks = nRanks, rankTopologies = [], commRanksToWorldRanks = [],
     hostToRanks = [], nodeRanks = [], nvlDomainRanks = [], cliqueRanks = [], rankStates = [], nvlFabricRankStates = [],
     myNvlFabricRankState = NvlFabricRankState_new, nvlFabricEnabled = False, nvlFabricCliqueEnabled = False,
     nvlFabricTopos = []\<rparr>"

section \<open>Hosts and nodes\<close>

text \<open>The vector of a key in a hash map, made empty when the key is new.\<close>

definition ranks_of :: "string \<Rightarrow> (string \<times> int list) list \<Rightarrow> int list" where
  "ranks_of host m = (case map_of m host of Some rs \<Rightarrow> rs | None \<Rightarrow> [])"

definition add_host_rank :: "string \<Rightarrow> int \<Rightarrow> (string \<times> int list) list \<Rightarrow> (string \<times> int list) list" where
  "add_host_rank host r m = AList.update host (ranks_of host m @ [r]) m"

text \<open>The host a rank is counted under, with the debug topologies.\<close>

definition topo_host :: "debug_topo \<Rightarrow> int \<Rightarrow> int \<Rightarrow> string \<Rightarrow> string" where
  "topo_host dbg vnodeLocal r host =
     (case dbg of system \<Rightarrow> host
      | nolocal \<Rightarrow> ''nolocal_node_'' @ show_int r
      | vnode \<Rightarrow> ''vnode_node_'' @ show_int (r sdiv vnodeLocal))"

definition topo_dc :: "string \<Rightarrow> string \<Rightarrow> string" where
  "topo_dc dc zone =
     (if dc = [] \<and> 1 < length (split_on CHR ''.'' zone) then hd (split_on CHR ''.'' zone) else dc)"

text \<open>The C strings of a topology, if every member it reads is terminated.\<close>

definition read_names :: "RankTopology \<Rightarrow> serr + RankTopology" where
  "read_names t =
     (case (read_name (t_host t), read_name (t_rtsw t), read_name (t_su t), read_name (t_dc t), read_name (t_zone t)) of
        (Some _, Some _, Some _, Some _, Some _) \<Rightarrow> Inr t
      | _ \<Rightarrow> Inl Undefined)"

text \<open>One pass of the loop over the topologies; with virtual nodes of 0 ranks it divides by zero.\<close>

definition rank_step :: "debug_topo \<Rightarrow> int \<Rightarrow> RankTopology \<Rightarrow> (string \<times> int list) list \<times> RankState list \<Rightarrow>
    (string \<times> int list) list \<times> RankState list" where
  "rank_step dbg vnodeLocal t hs =
     (let host = topo_host dbg vnodeLocal (t_rank t) (t_host t);
          m = add_host_rank host (t_rank t) (fst hs)
      in (m, snd hs @ [\<lparr>rs_rank = t_rank t, rs_host = host, rs_rtsw = t_rtsw t, rs_su = t_su t,
            rs_dc = topo_dc (t_dc t) (t_zone t), rs_zone = t_zone t, rs_nodeId = int (length m) - 1,
            rs_localRank = int (length (ranks_of host m)) - 1, rs_nLocalRanks = - 1, rs_localRankToRanks = [],
            rs_rackSerial = t_rackSerial t\<rparr>]))"

fun rank_loop :: "debug_topo \<Rightarrow> int \<Rightarrow> RankTopology list \<Rightarrow> (string \<times> int list) list \<times> RankState list \<Rightarrow>
    serr + (string \<times> int list) list \<times> RankState list" where
  "rank_loop dbg v [] hs = Inr hs"
| "rank_loop dbg v (t # ts) hs = rbind (read_names t) (\<lambda>t'.
     if dbg = vnode \<and> v = 0 then Inl Undefined else rank_loop dbg v ts (rank_step dbg v t' hs))"

definition node_groups :: "nat \<Rightarrow> RankState list \<Rightarrow> int list list" where
  "node_groups n states = fold (\<lambda>st g. g[nat (rs_nodeId st) := g ! nat (rs_nodeId st) @ [rs_rank st]]) states (replicate n [])"

definition setRankStatesTopologies :: "debug_topo \<Rightarrow> int \<Rightarrow> RankTopology list \<Rightarrow> statex \<Rightarrow> serr + statex" where
  "setRankStatesTopologies dbg vnodeLocal topos s =
     rbind (rank_loop dbg vnodeLocal topos ([], [])) (\<lambda>(m, states).
       Inr (s\<lparr>rankTopologies := topos, hostToRanks := m, nodeRanks := node_groups (length m) states,
         rankStates := map (\<lambda>st. st\<lparr>rs_localRankToRanks := ranks_of (rs_host st) m,
           rs_nLocalRanks := int (length (ranks_of (rs_host st) m))\<rparr>) states\<rparr>))"

definition setCommRankToWorldRanks :: "int list \<Rightarrow> statex \<Rightarrow> statex" where
  "setCommRankToWorldRanks rs s = s\<lparr>commRanksToWorldRanks := rs\<rparr>"

definition CommStateX_new :: "debug_topo \<Rightarrow> int \<Rightarrow> int \<Rightarrow> int \<Rightarrow> RankTopology list \<Rightarrow> int list \<Rightarrow> serr + statex" where
  "CommStateX_new dbg vnodeLocal rank nRanks topos world =
     rbind (setRankStatesTopologies dbg vnodeLocal topos (statex_new rank nRanks))
       (\<lambda>s. Inr (setCommRankToWorldRanks world s))"

text \<open>The two synthetic topologies. They extend the vectors and the map that are there.\<close>

definition vec_resize :: "'a \<Rightarrow> nat \<Rightarrow> 'a list \<Rightarrow> 'a list" where
  "vec_resize d n xs = take n xs @ replicate (n - length xs) d"

definition push_at :: "nat \<Rightarrow> 'a \<Rightarrow> 'a list list \<Rightarrow> 'a list list" where
  "push_at i x g = g[i := g ! i @ [x]]"

definition initRankTopologyNolocal :: "statex \<Rightarrow> statex" where
  "initRankTopologyNolocal s =
     (let n = nat (sx_nRanks s)
      in fold (\<lambda>r s. s\<lparr>rankStates := (rankStates s)[r := (rankStates s ! r)\<lparr>rs_rank := int r, rs_nodeId := int r,
              rs_localRank := 0, rs_nLocalRanks := 1, rs_localRankToRanks := [int r]\<rparr>],
            hostToRanks := add_host_rank (''nolocal_node_'' @ show_int (int r)) (int r) (hostToRanks s),
            nodeRanks := push_at r (int r) (nodeRanks s)\<rparr>)
          [0..<n] (s\<lparr>rankStates := vec_resize RankState_new n (rankStates s), nodeRanks := vec_resize [] n (nodeRanks s)\<rparr>))"

text \<open>Nodes of 0 ranks are a division by zero, if there are ranks.\<close>

definition initRankTopologyVnode :: "nat \<Rightarrow> statex \<Rightarrow> serr + statex" where
  "initRankTopologyVnode nl s =
     (let n = nat (sx_nRanks s)
      in if nl = 0 \<and> n \<noteq> 0 then Inl Undefined
         else Inr (fold (\<lambda>r s. s\<lparr>rankStates := (rankStates s)[r := (rankStates s ! r)\<lparr>rs_nLocalRanks := int nl, rs_rank := int r,
              rs_nodeId := int (r div nl), rs_localRank := int (r mod nl),
              rs_localRankToRanks := map (\<lambda>i. int (r div nl * nl + i)) [0..<nl]\<rparr>],
            hostToRanks := add_host_rank (''vnode_node_'' @ show_int (int (r div nl))) (int r) (hostToRanks s),
            nodeRanks := push_at (r div nl) (int r) (nodeRanks s)\<rparr>)
          [0..<n] (s\<lparr>rankStates := vec_resize RankState_new n (rankStates s), nodeRanks := vec_resize [] n (nodeRanks s)\<rparr>)))"

section \<open>NVLink domains and cliques\<close>

record nvl_cfg =
  fabricEnable :: bool
  cliqueSize :: int
  deterministic :: bool

text \<open>
  Group membership by key: the index of a key is the number of groups when it is first seen. The result is the
  index and the position of the new member.
\<close>

definition join_group :: "'k \<Rightarrow> int \<Rightarrow> ('k \<times> nat) list \<times> int list list \<Rightarrow> (nat \<times> nat) \<times> ('k \<times> nat) list \<times> int list list" where
  "join_group k r ig =
     (let ig1 = (case map_of (fst ig) k of None \<Rightarrow> (fst ig @ [(k, length (snd ig))], snd ig @ [[]]) | Some _ \<Rightarrow> ig);
          i = the (map_of (fst ig1) k)
      in ((i, length (snd ig1 ! i)), fst ig1, push_at i r (snd ig1)))"

record nvl_acc =
  a_dom :: "(string \<times> nat) list \<times> int list list"
  a_clq :: "(int \<times> nat) list \<times> int list list"
  a_states :: "NvlFabricRankState list"

definition nvl_step :: "bool \<Rightarrow> nat \<times> NvlFabricTopology \<Rightarrow> nvl_acc \<Rightarrow> nvl_acc" where
  "nvl_step clique it a =
     (let i = fst it; t = snd it; st = (a_states a ! i)\<lparr>nv_rank := int i\<rparr>
      in if \<not> supportNvlFabric t then a\<lparr>a_states := (a_states a)[i := st]\<rparr>
         else
           let ((d, p), dom) = join_group (n_clusterId t) (int i) (a_dom a);
               st1 = st\<lparr>nvlDomainIndex := int d, clusterId := n_clusterId t, nvlDomainRank := int p\<rparr>
           in if \<not> clique then a\<lparr>a_dom := dom, a_states := (a_states a)[i := st1]\<rparr>
              else
                let ((c, q), clq) = join_group (n_cliqueId t) (int i) (a_clq a);
                    st2 = st1\<lparr>cliqueIndex := int c, cliqueRank := int q, cliqueId := signed_take_bit 31 (n_cliqueId t)\<rparr>
                in a\<lparr>a_dom := dom, a_clq := clq, a_states := (a_states a)[i := st2]\<rparr>)"

definition nvl_fill :: "bool \<Rightarrow> int list list \<Rightarrow> int list list \<Rightarrow> NvlFabricTopology \<Rightarrow> NvlFabricRankState \<Rightarrow> NvlFabricRankState" where
  "nvl_fill clique doms clqs t st =
     (if \<not> supportNvlFabric t then st
      else
        let d = doms ! nat (nvlDomainIndex st);
            st1 = st\<lparr>nNvlDomainRanks := int (length d), nvlDomainRankToRank := d\<rparr>
        in if \<not> clique then st1
           else let c = clqs ! nat (cliqueIndex st1)
                in st1\<lparr>nCliqueRanks := int (length c), cliqueRankToRank := c\<rparr>)"

definition setNvlFabricTopos :: "nvl_cfg \<Rightarrow> NvlFabricTopology list \<Rightarrow> statex \<Rightarrow> serr + statex" where
  "setNvlFabricTopos cf topos s =
     (if int (length topos) \<noteq> sx_nRanks s then Inl Abort
      else
        rbind (vec_at OutOfRange topos (sx_rank s)) (\<lambda>my.
          let en = fabricEnable cf \<and> supportNvlFabric my;
              s1 = s\<lparr>nvlFabricTopos := topos, nvlFabricRankStates := [], nvlDomainRanks := [], nvlFabricEnabled := en\<rparr>
          in if \<not> en then Inr s1
             else
               let clique = (en \<and> 0 < cliqueSize cf \<and> deterministic cf);
                   a = fold (nvl_step clique) (enumerate 0 topos)
                     \<lparr>a_dom = ([], []), a_clq = ([], cliqueRanks s1),
                      a_states = replicate (length topos) NvlFabricRankState_new\<rparr>;
                   states = map2 (nvl_fill clique (snd (a_dom a)) (snd (a_clq a))) topos (a_states a)
               in if length (fst (a_dom a)) \<noteq> length (snd (a_dom a)) then Inl Abort
                  else if length (fst (a_clq a)) \<noteq> length (snd (a_clq a)) then Inl Abort
                  else Inr (s1\<lparr>nvlFabricCliqueEnabled := clique, nvlDomainRanks := snd (a_dom a),
                         cliqueRanks := snd (a_clq a), nvlFabricRankStates := states,
                         myNvlFabricRankState := states ! nat (sx_rank s)\<rparr>)))"

section \<open>Queries\<close>

text \<open>\<^verbatim>\<open>CHECK_TOPO_SET\<close>, \<^verbatim>\<open>CHECK_VALID_RANK\<close> and \<^verbatim>\<open>CHECK_TOPO_AND_SET_RANK\<close>.\<close>

definition check_valid_rank :: "int \<Rightarrow> nat \<Rightarrow> serr + int" where
  "check_valid_rank r n = (if 0 \<le> r \<and> r < int n then Inr r else Inl Abort)"

definition check_topo_rank :: "statex \<Rightarrow> int \<Rightarrow> serr + int" where
  "check_topo_rank s r =
     (if rankStates s = [] then Inl Abort
      else check_valid_rank (if r = - 1 then sx_rank s else r) (length (rankStates s)))"

text \<open>A field of the rank's state: its own copy for this rank, its entry of the vector for another one.\<close>

definition nvl_state :: "statex \<Rightarrow> int \<Rightarrow> serr + NvlFabricRankState" where
  "nvl_state s r = (if r = sx_rank s then Inr (myNvlFabricRankState s) else vec_at OutOfRange (nvlFabricRankStates s) r)"

definition node :: "statex \<Rightarrow> int \<Rightarrow> serr + int" where
  "node s rank = rbind (check_topo_rank s rank) (\<lambda>r.
     if nvlFabricEnabled s then
       (if nvlFabricCliqueEnabled s then rbind (nvl_state s r) (\<lambda>st. Inr (cliqueIndex st))
        else rbind (nvl_state s r) (\<lambda>st. Inr (nvlDomainIndex st)))
     else rbind (vec_at OutOfRange (rankStates s) r) (\<lambda>st. Inr (rs_nodeId st)))"

definition nNodes :: "statex \<Rightarrow> serr + int" where
  "nNodes s =
     (if rankStates s = [] then Inl Abort
      else if nvlFabricEnabled s then
        (if nvlFabricCliqueEnabled s then Inr (int (length (cliqueRanks s))) else Inr (int (length (nvlDomainRanks s))))
      else Inr (int (length (hostToRanks s))))"

definition localRank :: "statex \<Rightarrow> int \<Rightarrow> serr + int" where
  "localRank s rank = rbind (check_topo_rank s rank) (\<lambda>r.
     if nvlFabricEnabled s then
       (if nvlFabricCliqueEnabled s then rbind (nvl_state s r) (\<lambda>st. Inr (cliqueRank st))
        else rbind (nvl_state s r) (\<lambda>st. Inr (nvlDomainRank st)))
     else rbind (vec_at OutOfRange (rankStates s) r) (\<lambda>st. Inr (rs_localRank st)))"

definition nLocalRanks :: "statex \<Rightarrow> int \<Rightarrow> serr + int" where
  "nLocalRanks s rank = rbind (check_topo_rank s rank) (\<lambda>r.
     if nvlFabricEnabled s then
       (if nvlFabricCliqueEnabled s then rbind (nvl_state s r) (\<lambda>st. Inr (nCliqueRanks st))
        else rbind (nvl_state s r) (\<lambda>st. Inr (nNvlDomainRanks st)))
     else rbind (vec_at OutOfRange (rankStates s) r) (\<lambda>st. Inr (rs_nLocalRanks st)))"

definition my_or_node :: "int list \<Rightarrow> int list list \<Rightarrow> int \<Rightarrow> int \<Rightarrow> serr + int" where
  "my_or_node mine groups lr nodeId =
     (if nodeId = - 1 then rbind (check_valid_rank lr (length mine)) (\<lambda>i. vec_at OutOfRange mine i)
      else rbind (vec_at OutOfRange groups nodeId) (\<lambda>g. vec_at OutOfRange g lr))"

definition localRankToRank :: "statex \<Rightarrow> int \<Rightarrow> int \<Rightarrow> serr + int" where
  "localRankToRank s lr nodeId =
     (if rankStates s = [] then Inl Abort
      else if nvlFabricEnabled s then
        (if nvlFabricCliqueEnabled s then my_or_node (cliqueRankToRank (myNvlFabricRankState s)) (cliqueRanks s) lr nodeId
         else my_or_node (nvlDomainRankToRank (myNvlFabricRankState s)) (nvlDomainRanks s) lr nodeId)
      else if nodeId = - 1 then
        rbind (vec_at OutOfRange (rankStates s) (sx_rank s)) (\<lambda>st. my_or_node (rs_localRankToRanks st) (nodeRanks s) lr nodeId)
      else my_or_node [] (nodeRanks s) lr nodeId)"

definition localRankToRanks :: "statex \<Rightarrow> serr + int list" where
  "localRankToRanks s =
     (if nvlFabricEnabled s then
        (if nvlFabricCliqueEnabled s then Inr (cliqueRankToRank (myNvlFabricRankState s))
         else Inr (nvlDomainRankToRank (myNvlFabricRankState s)))
      else if rankStates s = [] then Inl Abort
      else rbind (vec_at OutOfRange (rankStates s) (sx_rank s)) (\<lambda>st. Inr (rs_localRankToRanks st)))"

definition rank_field :: "(RankState \<Rightarrow> 'a) \<Rightarrow> statex \<Rightarrow> int \<Rightarrow> serr + 'a" where
  "rank_field f s rank = rbind (check_topo_rank s rank) (\<lambda>r. rbind (vec_at OutOfRange (rankStates s) r) (\<lambda>st. Inr (f st)))"

definition host :: "statex \<Rightarrow> int \<Rightarrow> serr + string" where "host = rank_field rs_host"
definition rtsw :: "statex \<Rightarrow> int \<Rightarrow> serr + string" where "rtsw = rank_field rs_rtsw"
definition dc :: "statex \<Rightarrow> int \<Rightarrow> serr + string" where "dc = rank_field rs_dc"
definition zone :: "statex \<Rightarrow> int \<Rightarrow> serr + string" where "zone = rank_field rs_zone"
definition su :: "statex \<Rightarrow> int \<Rightarrow> serr + string" where "su = rank_field rs_su"
definition deviceRack :: "statex \<Rightarrow> int \<Rightarrow> serr + int" where "deviceRack = rank_field rs_rackSerial"

definition gRank :: "statex \<Rightarrow> int \<Rightarrow> serr + int" where
  "gRank s rank =
     (if commRanksToWorldRanks s = [] then Inl Abort
      else rbind (check_valid_rank (if rank = - 1 then sx_rank s else rank) (length (commRanksToWorldRanks s)))
             (\<lambda>r. vec_at OutOfRange (commRanksToWorldRanks s) r))"

definition same :: "(statex \<Rightarrow> int \<Rightarrow> serr + 'a) \<Rightarrow> statex \<Rightarrow> int \<Rightarrow> int \<Rightarrow> serr + bool" where
  "same f s a b = rbind (f s a) (\<lambda>x. rbind (f s b) (\<lambda>y. Inr (x = y)))"

definition isSameNode :: "statex \<Rightarrow> int \<Rightarrow> int \<Rightarrow> serr + bool" where "isSameNode s myRank peer = same node s peer myRank"
definition isSameZone :: "statex \<Rightarrow> int \<Rightarrow> int \<Rightarrow> serr + bool" where "isSameZone s myRank peer = same zone s peer myRank"
definition isSameDc :: "statex \<Rightarrow> int \<Rightarrow> int \<Rightarrow> serr + bool" where "isSameDc s myRank peer = same dc s peer myRank"
definition isSameDeviceRack :: "statex \<Rightarrow> int \<Rightarrow> int \<Rightarrow> serr + bool" where
  "isSameDeviceRack s myRank peer = same deviceRack s myRank peer"

definition isSameRack :: "statex \<Rightarrow> int \<Rightarrow> int \<Rightarrow> serr + bool" where
  "isSameRack s myRank peer =
     rbind (rtsw s myRank) (\<lambda>rtsw1.
       if rtsw1 \<noteq> [] then rbind (rtsw s peer) (\<lambda>rtsw2. Inr (rtsw2 \<noteq> [] \<and> rtsw1 = rtsw2))
       else rbind (su s myRank) (\<lambda>su1.
         if su1 \<noteq> [] then rbind (su s peer) (\<lambda>su2. Inr (su2 \<noteq> [] \<and> su1 = su2)) else Inr False))"

definition isSameNvlFabric :: "statex \<Rightarrow> int \<Rightarrow> int \<Rightarrow> serr + bool" where
  "isSameNvlFabric s myRank peer =
     (if \<not> nvlFabricEnabled s then Inr False
      else rbind (check_valid_rank myRank (length (nvlFabricTopos s))) (\<lambda>i.
           rbind (check_valid_rank peer (length (nvlFabricTopos s))) (\<lambda>j.
           rbind (vec_at OutOfRange (nvlFabricTopos s) i) (\<lambda>a.
           rbind (vec_at OutOfRange (nvlFabricTopos s) j) (\<lambda>b.
             Inr (supportNvlFabric a \<and> supportNvlFabric b \<and> n_clusterId a = n_clusterId b \<and> n_clusterId a \<noteq> []))))))"

section \<open>The host topology\<close>

text \<open>
  The loop over the topologies, in terms of the hosts and ranks it saw: the vector of a host holds its ranks in
  order, and the map has one entry per host.
\<close>

type_synonym seen = "(string \<times> int) list"

definition host_seen :: "debug_topo \<Rightarrow> int \<Rightarrow> RankTopology list \<Rightarrow> seen" where
  "host_seen dbg v ts = map (\<lambda>t. (topo_host dbg v (t_rank t) (t_host t), t_rank t)) ts"

definition ranks_on :: "string \<Rightarrow> seen \<Rightarrow> int list" where
  "ranks_on h ps = map snd (filter (\<lambda>p. fst p = h) ps)"

definition host_state :: "RankState \<Rightarrow> string \<times> int" where
  "host_state st = (rs_host st, rs_rank st)"

definition topo_inv :: "seen \<Rightarrow> (string \<times> int list) list \<times> RankState list \<Rightarrow> bool" where
  "topo_inv ps hs \<longleftrightarrow>
     distinct (map fst (fst hs)) \<and> set (map fst (fst hs)) = fst ` set ps \<and> (\<forall>h. ranks_of h (fst hs) = ranks_on h ps) \<and>
     map host_state (snd hs) = ps \<and>
     (\<forall>i < length (snd hs). rs_nodeId (snd hs ! i) = int (card (fst ` set (take (Suc i) ps))) - 1 \<and>
        rs_localRank (snd hs ! i) = int (length (ranks_on (fst (ps ! i)) (take i ps))))"

lemma ranks_on_simps [simp]:
  "ranks_on h [] = []" "ranks_on h (ps @ [p]) = ranks_on h ps @ (if fst p = h then [snd p] else [])"
  by (simp_all add: ranks_on_def)

lemma ranks_of_add_host_rank [simp]:
  "ranks_of h (add_host_rank h' r m) = (if h = h' then ranks_of h m @ [r] else ranks_of h m)"
  by (auto simp: ranks_of_def add_host_rank_def update_conv')

lemma length_distinct_keys:
  "distinct (map fst m) \<Longrightarrow> length m = card (set (map fst m))"
  by (metis distinct_card length_map)

lemma topo_inv_step:
  assumes "topo_inv ps hs"
  shows "topo_inv (ps @ [(topo_host dbg v (t_rank t) (t_host t), t_rank t)]) (rank_step dbg v t hs)"
proof -
  let ?h = "topo_host dbg v (t_rank t) (t_host t)" let ?m = "add_host_rank ?h (t_rank t) (fst hs)"
  have d: "distinct (map fst ?m)" and k: "set (map fst ?m) = insert ?h (fst ` set ps)"
    using assms by (simp_all add: topo_inv_def add_host_rank_def distinct_update dom_update)
  have len: "length (snd hs) = length ps" using assms unfolding topo_inv_def by (metis length_map)
  from length_distinct_keys [OF d] k have l: "length ?m = card (insert ?h (fst ` set ps))" by simp
  show ?thesis
    using assms d k len l
    by (auto simp: topo_inv_def rank_step_def Let_def host_state_def nth_append less_Suc_eq)
qed

lemma rank_loop_inv:
  "topo_inv ps hs \<Longrightarrow> rank_loop dbg v ts hs = Inr hs' \<Longrightarrow> topo_inv (ps @ host_seen dbg v ts) hs'"
proof (induction ts arbitrary: ps hs)
  case Nil
  then show ?case by (simp add: host_seen_def)
next
  case (Cons t ts)
  then have r: "read_names t = Inr t" "rank_loop dbg v ts (rank_step dbg v t hs) = Inr hs'"
    by (auto simp: rbind_Inr_iff read_names_def split: option.splits if_splits)
  from Cons.IH [OF topo_inv_step [OF Cons.prems(1)] r(2)] show ?case by (simp add: host_seen_def)
qed

lemma rank_loop_total:
  "\<forall>t \<in> set ts. read_names t = Inr t \<Longrightarrow> dbg \<noteq> vnode \<Longrightarrow> \<exists>hs'. rank_loop dbg v ts hs = Inr hs'"
  by (induction ts arbitrary: hs) auto

lemma node_groups_nth:
  assumes "\<forall>st \<in> set states. nat (rs_nodeId st) < n" "j < n"
  shows "node_groups n states ! j = map rs_rank (filter (\<lambda>st. nat (rs_nodeId st) = j) states) \<and> length (node_groups n states) = n"
  using assms(1)
proof (induction states rule: rev_induct)
  case Nil
  then show ?case using assms(2) by (simp add: node_groups_def)
next
  case (snoc st states)
  then show ?case using assms(2) by (auto simp: node_groups_def nth_list_update)
qed

text \<open>What a state built from terminated topologies knows, in terms of the hosts of the ranks.\<close>

definition same_order :: "RankTopology list \<Rightarrow> bool" where
  "same_order ts \<longleftrightarrow> (\<forall>i < length ts. t_rank (ts ! i) = int i \<and> read_names (ts ! i) = Inr (ts ! i))"

definition fill_state :: "(string \<times> int list) list \<Rightarrow> RankState \<Rightarrow> RankState" where
  "fill_state m st = st\<lparr>rs_localRankToRanks := ranks_of (rs_host st) m, rs_nLocalRanks := int (length (ranks_of (rs_host st) m))\<rparr>"

lemma CommStateX_new_inv:
  assumes "CommStateX_new dbg v rank nRanks ts world = Inr s"
  obtains sts where "topo_inv (host_seen dbg v ts) (hostToRanks s, sts)" "rankStates s = map (fill_state (hostToRanks s)) sts"
    "nodeRanks s = node_groups (length (hostToRanks s)) sts" "length sts = length ts" "sx_rank s = rank"
    "\<not> nvlFabricEnabled s" "commRanksToWorldRanks s = world"
proof -
  from assms obtain m sts where l: "rank_loop dbg v ts ([], []) = Inr (m, sts)"
    and s: "s = setCommRankToWorldRanks world ((statex_new rank nRanks)\<lparr>rankTopologies := ts, hostToRanks := m,
      nodeRanks := node_groups (length m) sts, rankStates := map (fill_state m) sts\<rparr>)"
    by (auto simp: CommStateX_new_def setRankStatesTopologies_def rbind_Inr_iff fill_state_def [abs_def])
  have "topo_inv [] ([], [])" by (simp add: topo_inv_def ranks_of_def)
  from rank_loop_inv [OF this l] have "topo_inv (host_seen dbg v ts) (m, sts)" by simp
  moreover then have "length sts = length ts" unfolding topo_inv_def host_seen_def by (metis length_map snd_conv)
  ultimately show ?thesis by (intro that [of sts]) (simp_all add: s setCommRankToWorldRanks_def statex_new_def)
qed

text \<open>The node id of the \<open>i\<close>-th entry counts the hosts seen so far.\<close>

definition node_id :: "seen \<Rightarrow> nat \<Rightarrow> nat" where
  "node_id ps i = card (fst ` set (take (Suc i) ps)) - 1"

lemma node_id_pos: "i < length ps \<Longrightarrow> 0 < card (fst ` set (take (Suc i) ps))"
  by (cases ps) (auto simp: card_gt_0_iff)

lemma node_id_mono: "i \<le> j \<Longrightarrow> node_id ps i \<le> node_id ps j"
  unfolding node_id_def by (intro diff_le_mono card_mono image_mono) (auto intro: set_take_subset_set_take [THEN subsetD])

lemma node_id_less: "i < length ps \<Longrightarrow> node_id ps i < card (fst ` set ps)"
proof -
  assume "i < length ps"
  then have "0 < card (fst ` set (take (Suc i) ps))" by (rule node_id_pos)
  moreover have "card (fst ` set (take (Suc i) ps)) \<le> card (fst ` set ps)"
    by (intro card_mono image_mono set_take_subset) simp
  ultimately show ?thesis by (simp add: node_id_def)
qed

definition grouped :: "seen \<Rightarrow> bool" where
  "grouped ps \<longleftrightarrow> (\<forall>i j k. i < j \<and> j < k \<and> k < length ps \<and> fst (ps ! i) = fst (ps ! k) \<longrightarrow> fst (ps ! j) = fst (ps ! i))"

lemma node_id_le_same:
  assumes "grouped ps" "i \<le> k" "k < length ps"
  shows "node_id ps i = node_id ps k \<longleftrightarrow> fst (ps ! i) = fst (ps ! k)"
proof
  let ?S = "\<lambda>n. fst ` set (take (Suc n) ps)"
  have sub: "?S i \<subseteq> ?S k" using assms(2) set_take_subset_set_take [of "Suc i" "Suc k" ps] by auto
  have mem: "fst (ps ! k) \<in> ?S k" using assms(3) by (auto simp: in_set_conv_nth intro!: image_eqI [of _ _ "ps ! k"] exI [of _ k])
  {
    assume "node_id ps i = node_id ps k"
    then have "card (?S i) = card (?S k)"
      using node_id_pos [of i ps] node_id_pos [of k ps] assms(2,3) by (simp add: node_id_def)
    then have "?S i = ?S k" using sub by (intro card_subset_eq) simp_all
    with mem have "fst (ps ! k) \<in> ?S i" by simp
    then obtain l where "l \<le> i" "fst (ps ! l) = fst (ps ! k)"
      by (auto simp: in_set_conv_nth image_iff less_Suc_eq_le)
    with assms show "fst (ps ! i) = fst (ps ! k)"
      unfolding grouped_def by (metis le_neq_implies_less)
  }
  assume h: "fst (ps ! i) = fst (ps ! k)"
  have "fst (ps ! j) \<in> ?S i" if "j \<le> k" for j
  proof (cases "j \<le> i")
    case True
    then show ?thesis using assms(2,3) by (auto simp: in_set_conv_nth intro!: image_eqI [of _ _ "ps ! j"] exI [of _ j])
  next
    case False
    then have "fst (ps ! j) = fst (ps ! i)" using assms h that unfolding grouped_def by (metis le_neq_implies_less not_le)
    then show ?thesis using assms(2,3) by (auto simp: in_set_conv_nth intro!: image_eqI [of _ _ "ps ! i"] exI [of _ i])
  qed
  then have "?S k \<subseteq> ?S i" by (auto simp: in_set_conv_nth image_iff less_Suc_eq_le) (metis fst_conv)
  with sub show "node_id ps i = node_id ps k" by (simp add: node_id_def)
qed

lemma node_id_same:
  assumes "grouped ps" "i < length ps" "k < length ps"
  shows "node_id ps i = node_id ps k \<longleftrightarrow> fst (ps ! i) = fst (ps ! k)"
  using node_id_le_same [OF assms(1), of i k] node_id_le_same [OF assms(1), of k i] assms(2,3) by (metis nle_le)

lemma node_id_same_conv:
  assumes "\<forall>i < length ps. \<forall>k < length ps. node_id ps i = node_id ps k \<longleftrightarrow> fst (ps ! i) = fst (ps ! k)"
  shows "grouped ps"
  unfolding grouped_def
proof (intro allI impI, elim conjE)
  fix i j k assume l: "i < j" "j < k" "k < length ps" and h: "fst (ps ! i) = fst (ps ! k)"
  then have "node_id ps i = node_id ps k" using assms by simp
  with node_id_mono [of i j ps] node_id_mono [of j k ps] l have "node_id ps j = node_id ps i" by simp
  then show "fst (ps ! j) = fst (ps ! i)" using assms l by simp
qed

lemma ranks_on_pos:
  assumes "i < length ps"
  shows "length (ranks_on (fst (ps ! i)) (take i ps)) < length (ranks_on (fst (ps ! i)) ps) \<and>
    ranks_on (fst (ps ! i)) ps ! length (ranks_on (fst (ps ! i)) (take i ps)) = snd (ps ! i)"
proof -
  have "ranks_on h ps = ranks_on h (take i ps) @ ranks_on h (ps ! i # drop (Suc i) ps)" for h
    using id_take_nth_drop [OF assms] by (metis filter_append map_append ranks_on_def)
  then show ?thesis by (simp add: nth_append ranks_on_def)
qed

text \<open>The queries on such a state.\<close>

lemma queries:
  assumes new: "CommStateX_new dbg v rank nRanks ts world = Inr s" and ord: "same_order ts" and i: "i < length ts"
  defines "ps \<equiv> host_seen dbg v ts"
  shows "node s (int i) = Inr (int (node_id ps i))"
    "localRank s (int i) = Inr (int (length (ranks_on (fst (ps ! i)) (take i ps))))"
    "nLocalRanks s (int i) = Inr (int (length (ranks_on (fst (ps ! i)) ps)))"
    "nNodes s = Inr (int (card (fst ` set ps)))"
    "rank = int i \<Longrightarrow> localRankToRanks s = Inr (ranks_on (fst (ps ! i)) ps)"
    "nodeRanks s ! node_id ps i = map (int) (filter (\<lambda>k. node_id ps k = node_id ps i) [0..<length ts])"
    "length (nodeRanks s) = card (fst ` set ps)"
    "host s (int i) = Inr (fst (ps ! i))"
proof -
  obtain sts where inv: "topo_inv ps (hostToRanks s, sts)" and rs: "rankStates s = map (fill_state (hostToRanks s)) sts"
    and nr: "nodeRanks s = node_groups (length (hostToRanks s)) sts" and len: "length sts = length ts"
    and s: "sx_rank s = rank" "\<not> nvlFabricEnabled s"
    using CommStateX_new_inv [OF new] unfolding ps_def by metis
  have lps: "length ps = length ts" by (simp add: ps_def host_seen_def)
  have st: "host_state (sts ! k) = ps ! k" if "k < length ts" for k
    using inv that len unfolding topo_inv_def by (metis nth_map snd_conv)
  have snd_ps: "snd (ps ! k) = int k" if "k < length ts" for k
    using ord that by (simp add: ps_def host_seen_def same_order_def)
  have h: "ranks_of h (hostToRanks s) = ranks_on h ps" for h using inv by (simp add: topo_inv_def)
  have ids: "rs_nodeId (sts ! k) = int (node_id ps k)"
      "rs_localRank (sts ! k) = int (length (ranks_on (fst (ps ! k)) (take k ps)))" if "k < length ts" for k
    using inv that len lps node_id_pos [of k ps] by (auto simp: topo_inv_def node_id_def of_nat_diff)
  have nn: "length (hostToRanks s) = card (fst ` set ps)"
    using inv length_distinct_keys [of "hostToRanks s"] by (simp add: topo_inv_def)
  have ne: "rankStates s \<noteq> []" using rs len i by auto
  have chk: "check_topo_rank s (int k) = Inr (int k)" if "k < length ts" for k
    using that ne len rs by (simp add: check_topo_rank_def check_valid_rank_def)
  have at: "rankStates s ! i = fill_state (hostToRanks s) (sts ! i)" "i < length (rankStates s)"
    using i len by (simp_all add: rs)
  have f: "rs_host (sts ! i) = fst (ps ! i)" using st [OF i] by (metis fst_conv host_state_def)
  show "node s (int i) = Inr (int (node_id ps i))"
    "localRank s (int i) = Inr (int (length (ranks_on (fst (ps ! i)) (take i ps))))"
    "nLocalRanks s (int i) = Inr (int (length (ranks_on (fst (ps ! i)) ps)))"
    "nNodes s = Inr (int (card (fst ` set ps)))" "host s (int i) = Inr (fst (ps ! i))"
    "rank = int i \<Longrightarrow> localRankToRanks s = Inr (ranks_on (fst (ps ! i)) ps)"
    using s at f ids [OF i] h nn ne
    by (simp_all add: node_def localRank_def nLocalRanks_def nNodes_def localRankToRanks_def host_def rank_field_def
        chk [OF i] fill_state_def)
  have lt: "\<forall>st \<in> set sts. nat (rs_nodeId st) < card (fst ` set ps)"
    using ids lps len node_id_less by (auto simp: in_set_conv_nth)
  have sts_eq: "sts = map ((!) sts) [0..<length ts]" using len map_nth [of sts] by simp
  have "map rs_rank (filter (\<lambda>st. nat (rs_nodeId st) = j) sts) = map int (filter (\<lambda>k. node_id ps k = j) [0..<length ts])" for j
  proof -
    have "filter (\<lambda>st. nat (rs_nodeId st) = j) sts = map ((!) sts) (filter (\<lambda>k. node_id ps k = j) [0..<length ts])"
      by (subst sts_eq, simp only: filter_map comp_def) (rule arg_cong [where f = "map _"], rule filter_cong, simp_all add: ids)
    moreover have "rs_rank (sts ! k) = int k" if "k < length ts" for k
      using st [OF that] snd_ps [OF that] by (metis host_state_def snd_conv)
    ultimately show ?thesis by simp
  qed
  with node_groups_nth [OF lt, of "node_id ps i"] node_id_less [of i ps] i lps nn nr
  show "nodeRanks s ! node_id ps i = map int (filter (\<lambda>k. node_id ps k = node_id ps i) [0..<length ts])"
    "length (nodeRanks s) = card (fst ` set ps)" by simp_all
qed

lemma ranks_on_conv:
  assumes "\<forall>k < length ps. snd (ps ! k) = int k"
  shows "ranks_on h ps = map int (filter (\<lambda>k. fst (ps ! k) = h) [0..<length ps])"
proof -
  have "filter (\<lambda>p. fst p = h) ps = map ((!) ps) (filter (\<lambda>k. fst (ps ! k) = h) [0..<length ps])"
    by (subst map_nth [of ps, symmetric], simp only: filter_map comp_def)
  with assms show ?thesis by (simp add: ranks_on_def)
qed

lemma host_seen_nth:
  "same_order ts \<Longrightarrow> k < length ts \<Longrightarrow> host_seen dbg v ts ! k = (topo_host dbg v (int k) (t_host (ts ! k)), int k)"
  by (simp add: host_seen_def same_order_def)

text \<open>C30: when the ranks of a host are consecutive, every translation is consistent: ranks on the same host, and only
  those, have the same node, the number of nodes is the number of hosts, the number of local ranks counts the ranks of
  the host, and translating a rank to its node and local rank and back gives the rank.\<close>

theorem topology_consistent:
  assumes "CommStateX_new dbg v rank nRanks ts world = Inr s" "same_order ts" "grouped (host_seen dbg v ts)"
    and "a < length ts" "b < length ts"
  shows "isSameNode s (int a) (int b) =
      Inr (topo_host dbg v (int a) (t_host (ts ! a)) = topo_host dbg v (int b) (t_host (ts ! b))) \<and>
    nNodes s = Inr (int (card (fst ` set (host_seen dbg v ts)))) \<and>
    nLocalRanks s (int a) = Inr (int (length (filter (\<lambda>k.
      topo_host dbg v (int k) (t_host (ts ! k)) = topo_host dbg v (int a) (t_host (ts ! a))) [0..<length ts]))) \<and>
    rbind (node s (int a)) (\<lambda>n. rbind (localRank s (int a)) (\<lambda>lr. localRankToRank s lr n)) = Inr (int a)"
proof -
  let ?ps = "host_seen dbg v ts"
  have lps: "length ?ps = length ts" by (simp add: host_seen_def)
  note at = host_seen_nth [OF assms(2), of _ dbg v]
  note Qa = queries [OF assms(1,2,4)] and Qb = queries [OF assms(1,2,5)]
  have snd: "\<forall>k < length ?ps. snd (?ps ! k) = int k" using at lps by simp
  have filt: "filter (\<lambda>k. fst (?ps ! k) = fst (?ps ! a)) [0..<length ts] =
      filter (\<lambda>k. topo_host dbg v (int k) (t_host (ts ! k)) = topo_host dbg v (int a) (t_host (ts ! a))) [0..<length ts]"
    by (rule filter_cong) (simp_all add: at assms(4))
  have same: "node_id ?ps k = node_id ?ps a \<longleftrightarrow> fst (?ps ! k) = fst (?ps ! a)" if "k < length ts" for k
    using node_id_same [OF assms(3)] that assms(4) lps by simp
  have "nodeRanks s ! node_id ?ps a = ranks_on (fst (?ps ! a)) ?ps"
    unfolding Qa(6) ranks_on_conv [OF snd] lps by (rule arg_cong [where f = "map int"], rule filter_cong) (simp_all add: same)
  with ranks_on_pos [of a ?ps] Qa(7) node_id_less [of a ?ps] at [OF assms(4)] lps assms(4)
  have "localRankToRank s (int (length (ranks_on (fst (?ps ! a)) (take a ?ps)))) (int (node_id ?ps a)) = Inr (int a)"
    using Qa(4) CommStateX_new_inv [OF assms(1)]
    by (auto simp: localRankToRank_def my_or_node_def nNodes_def split: if_splits)
  moreover have "isSameNode s (int a) (int b) = Inr (fst (?ps ! a) = fst (?ps ! b))"
    using Qa(1) Qb(1) same [OF assms(5)] by (auto simp: isSameNode_def same_def)
  moreover have "nLocalRanks s (int a) = Inr (int (length (filter (\<lambda>k.
      topo_host dbg v (int k) (t_host (ts ! k)) = topo_host dbg v (int a) (t_host (ts ! a))) [0..<length ts])))"
    using Qa(3) unfolding ranks_on_conv [OF snd] lps filt by simp
  ultimately show ?thesis
    using Qa(1,2,4) at [OF assms(4)] at [OF assms(5)] by simp
qed

text \<open>C31: the node test agrees with the hosts for all pairs of ranks exactly when the ranks of every host
  are consecutive; so with interleaved hosts some pair of ranks is misjudged.\<close>

theorem same_node_iff_grouped:
  assumes "CommStateX_new dbg v rank nRanks ts world = Inr s" "same_order ts"
  shows "(\<forall>a b. a < length ts \<and> b < length ts \<longrightarrow>
      rbind (host s (int a)) (\<lambda>h. rbind (host s (int b)) (\<lambda>h'. Inr (h = h'))) = isSameNode s (int a) (int b)) \<longleftrightarrow>
    grouped (host_seen dbg v ts)"
proof -
  let ?ps = "host_seen dbg v ts"
  have lps: "length ?ps = length ts" by (simp add: host_seen_def)
  have eq: "rbind (host s (int a)) (\<lambda>h. rbind (host s (int b)) (\<lambda>h'. Inr (h = h'))) = isSameNode s (int a) (int b) \<longleftrightarrow>
      (node_id ?ps a = node_id ?ps b \<longleftrightarrow> fst (?ps ! a) = fst (?ps ! b))" if "a < length ts" "b < length ts" for a b
    using queries(1,8) [OF assms that(1)] queries(1,8) [OF assms that(2)]
    by (auto simp: isSameNode_def same_def)
  show ?thesis
    using eq node_id_same [of ?ps] node_id_same_conv [of ?ps] unfolding lps by metis
qed

definition ex_topo :: "string \<Rightarrow> nat \<Rightarrow> RankTopology" where
  "ex_topo h r = \<lparr>t_rank = int r, t_host = h, t_rtsw = ''r1'', t_su = [], t_zone = ''z.1'', t_dc = [], t_rackSerial = 7\<rparr>"

definition ex_state :: "string list \<Rightarrow> statex" where
  "ex_state hs = (case CommStateX_new system 1 0 (int (length hs)) (map (\<lambda>r. ex_topo (hs ! r) r) [0..<length hs]) [] of
     Inr s \<Rightarrow> s | Inl _ \<Rightarrow> statex_new 0 0)"

lemma ex_state:
  "\<forall>h \<in> set hs. length h < 64 \<Longrightarrow>
   CommStateX_new system 1 0 (int (length hs)) (map (\<lambda>r. ex_topo (hs ! r) r) [0..<length hs]) [] = Inr (ex_state hs) \<and>
   same_order (map (\<lambda>r. ex_topo (hs ! r) r) [0..<length hs])"
proof -
  assume h: "\<forall>h \<in> set hs. length h < 64"
  let ?ts = "map (\<lambda>r. ex_topo (hs ! r) r) [0..<length hs]"
  have rn: "\<forall>t \<in> set ?ts. read_names t = Inr t"
    using h by (auto simp: read_names_def ex_topo_def read_name_def kMaxNameLen_def)
  from rank_loop_total [OF this, of system] obtain hs' where "rank_loop system 1 ?ts ([], []) = Inr hs'" by blast
  then have "\<exists>s. CommStateX_new system 1 0 (int (length hs)) ?ts [] = Inr s"
    by (cases hs') (simp add: CommStateX_new_def setRankStatesTopologies_def)
  then have "CommStateX_new system 1 0 (int (length hs)) ?ts [] = Inr (ex_state hs)"
    by (auto simp: ex_state_def)
  moreover have "same_order ?ts" using rn unfolding same_order_def by (auto simp: ex_topo_def)
  ultimately show ?thesis by blast
qed

theorem topology_consistent_witness:
  "isSameNode (ex_state [''a'', ''a'', ''b'']) 0 1 = Inr True \<and> isSameNode (ex_state [''a'', ''a'', ''b'']) 1 2 = Inr False"
proof -
  have st: "CommStateX_new system 1 0 3 (map (\<lambda>r. ex_topo ([''a'', ''a'', ''b''] ! r) r) [0..<3]) [] = Inr (ex_state [''a'', ''a'', ''b''])"
      "same_order (map (\<lambda>r. ex_topo ([''a'', ''a'', ''b''] ! r) r) [0..<3])"
    using ex_state [of "[''a'', ''a'', ''b'']"] by (simp_all add: numeral_3_eq_3)
  have g: "grouped (host_seen system 1 (map (\<lambda>r. ex_topo ([''a'', ''a'', ''b''] ! r) r) [0..<3]))"
    by (auto simp: grouped_def host_seen_def ex_topo_def topo_host_def less_Suc_eq numeral_3_eq_3)
  from topology_consistent [OF st g, of 0 1] topology_consistent [OF st g, of 1 2]
  show ?thesis by (simp add: ex_topo_def topo_host_def)
qed

theorem same_node_iff_grouped_witness:
  "\<not> (\<forall>a b. a < 3 \<and> b < 3 \<longrightarrow> rbind (host (ex_state [''a'', ''b'', ''a'']) (int a)) (\<lambda>h.
      rbind (host (ex_state [''a'', ''b'', ''a'']) (int b)) (\<lambda>h'. Inr (h = h'))) =
    isSameNode (ex_state [''a'', ''b'', ''a'']) (int a) (int b)) \<and>
   isSameNode (ex_state [''a'', ''b'', ''a'']) 0 2 = Inr False"
proof -
  have st: "CommStateX_new system 1 0 3 (map (\<lambda>r. ex_topo ([''a'', ''b'', ''a''] ! r) r) [0..<3]) [] = Inr (ex_state [''a'', ''b'', ''a''])"
      "same_order (map (\<lambda>r. ex_topo ([''a'', ''b'', ''a''] ! r) r) [0..<3])"
    using ex_state [of "[''a'', ''b'', ''a'']"] by (simp_all add: numeral_3_eq_3)
  have g: "\<not> grouped (host_seen system 1 (map (\<lambda>r. ex_topo ([''a'', ''b'', ''a''] ! r) r) [0..<3]))"
    unfolding grouped_def not_all
    by (rule exI [of _ 0], rule exI [of _ 1], rule exI [of _ 2]) (simp add: host_seen_def ex_topo_def topo_host_def)
  have "isSameNode (ex_state [''a'', ''b'', ''a'']) 0 2 = Inr False" by code_simp
  with same_node_iff_grouped [OF st] g show ?thesis by simp
qed

section \<open>The NVLink topology\<close>

text \<open>Groups by first occurrence of the key: \<open>ps\<close> are the members with their keys, in order.\<close>

definition members_of :: "'k \<Rightarrow> ('k \<times> int) list \<Rightarrow> int list" where
  "members_of k ps = map snd (filter (\<lambda>p. fst p = k) ps)"

definition grp_inv :: "('k \<times> int) list \<Rightarrow> ('k \<times> nat) list \<times> int list list \<Rightarrow> bool" where
  "grp_inv ps ig \<longleftrightarrow> distinct (map fst (fst ig)) \<and> map snd (fst ig) = [0..<length (snd ig)] \<and>
     (\<forall>k d. (k, d) \<in> set (fst ig) \<longrightarrow> snd ig ! d = members_of k ps) \<and> (\<forall>k. k \<notin> fst ` set (fst ig) \<longrightarrow> members_of k ps = [])"

lemma grp_inv_Nil: "grp_inv [] ([], [])"
  by (simp add: grp_inv_def members_of_def)

lemma grp_length: "grp_inv ps ig \<Longrightarrow> length (fst ig) = length (snd ig)"
  unfolding grp_inv_def by (metis length_map length_upt minus_nat.diff_0)

lemma grp_index:
  assumes "grp_inv ps ig" "(k, d) \<in> set (fst ig)"
  shows "d < length (snd ig)"
proof -
  have "set (map snd (fst ig)) = set [0..<length (snd ig)]" using assms(1) unfolding grp_inv_def by metis
  moreover have "d \<in> set (map snd (fst ig))" using assms(2) by force
  ultimately show ?thesis by simp
qed

lemma grp_lookup:
  assumes "grp_inv ps ig" "map_of (fst ig) k = Some d"
  shows "d < length (snd ig)" "snd ig ! d = members_of k ps"
proof -
  have m: "(k, d) \<in> set (fst ig)" using assms(2) by (rule map_of_SomeD)
  then show "d < length (snd ig)" by (rule grp_index [OF assms(1)])
  show "snd ig ! d = members_of k ps" using assms(1) m by (simp add: grp_inv_def)
qed

lemma grp_inj:
  assumes "grp_inv ps ig" "map_of (fst ig) k = Some d" "map_of (fst ig) k' = Some d"
  shows "k = k'"
proof -
  have "distinct (map snd (fst ig))" using assms(1) by (simp add: grp_inv_def)
  with map_of_SomeD [OF assms(2)] map_of_SomeD [OF assms(3)] show ?thesis
    by (metis distinct_map_eq prod.sel prod.inject)
qed

lemma join_group_inv:
  assumes inv: "grp_inv ps ig" and j: "join_group k r ig = ((d, p), ig')"
  shows "grp_inv (ps @ [(k, r)]) ig'" "map_of (fst ig') k = Some d" "p = length (members_of k ps)"
    "\<And>k' d'. map_of (fst ig) k' = Some d' \<Longrightarrow> map_of (fst ig') k' = Some d'"
proof -
  define ig1 where "ig1 = (case map_of (fst ig) k of None \<Rightarrow> (fst ig @ [(k, length (snd ig))], snd ig @ [[]]) | Some _ \<Rightarrow> ig)"
  have i1: "grp_inv ps ig1 \<and> (\<exists>d. map_of (fst ig1) k = Some d) \<and>
      (\<forall>k' d'. map_of (fst ig) k' = Some d' \<longrightarrow> map_of (fst ig1) k' = Some d')"
  proof (cases "map_of (fst ig) k")
    case None
    then have nk: "k \<notin> fst ` set (fst ig)" by (simp add: map_of_eq_None_iff)
    have lt: "d < length (snd ig)" if "(k', d) \<in> set (fst ig)" for k' d
      using grp_index [OF inv that] .
    have "grp_inv ps ig1"
      using inv nk lt unfolding ig1_def None by (auto simp: grp_inv_def nth_append)
    moreover have "map_of (fst ig1) k = Some (length (snd ig))" using None by (simp add: ig1_def map_add_def)
    ultimately show ?thesis by (auto simp: ig1_def None map_add_Some_iff)
  next
    case (Some d)
    then show ?thesis using inv by (simp add: ig1_def)
  qed
  then obtain d0 where d0: "map_of (fst ig1) k = Some d0" by blast
  have res: "d = d0" "p = length (snd ig1 ! d0)" "ig' = (fst ig1, push_at d0 r (snd ig1))"
    using j d0 by (auto simp: join_group_def Let_def ig1_def [symmetric])
  have g1: "grp_inv ps ig1" using i1 by blast
  note L = grp_lookup [OF g1 d0]
  show "map_of (fst ig') k = Some d" using d0 res by simp
  show "p = length (members_of k ps)" using res L by simp
  show "map_of (fst ig) k' = Some d' \<Longrightarrow> map_of (fst ig') k' = Some d'" for k' d' using i1 res by simp
  have m0: "(k, d0) \<in> set (fst ig1)" using d0 by (rule map_of_SomeD)
  have other: "d' \<noteq> d0" if "(k', d') \<in> set (fst ig1)" "k' \<noteq> k" for k' d'
  proof
    assume "d' = d0"
    then have "map_of (fst ig1) k' = Some d0" using that g1 by (simp add: grp_inv_def map_of_eq_Some_iff)
    with grp_inj [OF g1 d0] that show False by simp
  qed
  show "grp_inv (ps @ [(k, r)]) ig'"
    using g1 L m0 other image_eqI [OF _ m0, of k fst] unfolding grp_inv_def res
    by (auto simp: push_at_def members_of_def nth_list_update map_of_eq_Some_iff dest: distinct_map_eq)
qed

definition members :: "(NvlFabricTopology \<Rightarrow> 'k) \<Rightarrow> NvlFabricTopology list \<Rightarrow> nat \<Rightarrow> ('k \<times> int) list" where
  "members key ts m = map (\<lambda>i. (key (ts ! i), int i)) (filter (\<lambda>i. supportNvlFabric (ts ! i)) [0..<m])"

lemma members_Suc:
  "members key ts (Suc m) = members key ts m @ (if supportNvlFabric (ts ! m) then [(key (ts ! m), int m)] else [])"
  by (simp add: members_def)

lemma members_pos:
  assumes "a < n" "supportNvlFabric (ts ! a)"
  shows "length (members_of (key (ts ! a)) (members key ts a)) < length (members_of (key (ts ! a)) (members key ts n)) \<and>
    members_of (key (ts ! a)) (members key ts n) ! length (members_of (key (ts ! a)) (members key ts a)) = int a"
  using assms(1)
proof (induction n)
  case 0
  then show ?case by simp
next
  case (Suc n)
  then show ?case
    using assms(2) by (cases "a = n") (auto simp: members_Suc members_of_def nth_append)
qed

text \<open>A rank's index and position in its group, after \<open>m\<close> ranks.\<close>

definition placed :: "(NvlFabricTopology \<Rightarrow> 'k) \<Rightarrow> NvlFabricTopology list \<Rightarrow> ('k \<times> nat) list \<Rightarrow> nat \<Rightarrow> int \<Rightarrow> int \<Rightarrow> bool" where
  "placed key ts idx i d p \<longleftrightarrow> 0 \<le> d \<and> map_of idx (key (ts ! i)) = Some (nat d) \<and>
     p = int (length (members_of (key (ts ! i)) (members key ts i)))"

definition nvl_inv :: "bool \<Rightarrow> NvlFabricTopology list \<Rightarrow> nat \<Rightarrow> nvl_acc \<Rightarrow> bool" where
  "nvl_inv clique ts m a \<longleftrightarrow> grp_inv (members n_clusterId ts m) (a_dom a) \<and>
     (clique \<longrightarrow> grp_inv (members n_cliqueId ts m) (a_clq a)) \<and> (\<not> clique \<longrightarrow> a_clq a = ([], [])) \<and>
     length (a_states a) = length ts \<and>
     (\<forall>i < m. supportNvlFabric (ts ! i) \<longrightarrow>
        placed n_clusterId ts (fst (a_dom a)) i (nvlDomainIndex (a_states a ! i)) (nvlDomainRank (a_states a ! i)) \<and>
        (clique \<longrightarrow> placed n_cliqueId ts (fst (a_clq a)) i (cliqueIndex (a_states a ! i)) (cliqueRank (a_states a ! i))))"

lemma nvl_step_inv:
  assumes inv: "nvl_inv clique ts m a" and m: "m < length ts"
  shows "nvl_inv clique ts (Suc m) (nvl_step clique (m, ts ! m) a)"
proof (cases "supportNvlFabric (ts ! m)")
  case False
  then show ?thesis
    using inv m by (auto simp: nvl_inv_def nvl_step_def Let_def members_Suc nth_list_update less_Suc_eq)
next
  case True
  obtain d p dom where D: "join_group (n_clusterId (ts ! m)) (int m) (a_dom a) = ((d, p), dom)" by (metis prod.exhaust)
  obtain c q clq where C: "join_group (n_cliqueId (ts ! m)) (int m) (a_clq a) = ((c, q), clq)" by (metis prod.exhaust)
  have gd: "grp_inv (members n_clusterId ts m) (a_dom a)" using inv by (simp add: nvl_inv_def)
  note JD = join_group_inv [OF gd D]
  have keepD: "placed n_clusterId ts (fst dom) i x y" if "placed n_clusterId ts (fst (a_dom a)) i x y" for i x y
    using that JD(4) by (simp add: placed_def)
  have newD: "placed n_clusterId ts (fst dom) m (int d) (int p)" using JD(2,3) by (simp add: placed_def)
  have lm: "m < length (a_states a)" using inv m by (simp add: nvl_inv_def)
  show ?thesis
  proof (cases clique)
    case False
    then show ?thesis
      using inv True keepD newD JD(1) lm
      by (auto simp: nvl_inv_def nvl_step_def Let_def D members_Suc nth_list_update less_Suc_eq)
  next
    case clq: True
    then have gc: "grp_inv (members n_cliqueId ts m) (a_clq a)" using inv by (simp add: nvl_inv_def)
    note JC = join_group_inv [OF gc C]
    have keepC: "placed n_cliqueId ts (fst clq) i x y" if "placed n_cliqueId ts (fst (a_clq a)) i x y" for i x y
      using that JC(4) by (simp add: placed_def)
    have newC: "placed n_cliqueId ts (fst clq) m (int c) (int q)" using JC(2,3) by (simp add: placed_def)
    from clq show ?thesis
      using inv True keepD newD JD(1) keepC newC JC(1) lm
      by (auto simp: nvl_inv_def nvl_step_def Let_def D C members_Suc nth_list_update less_Suc_eq)
  qed
qed

lemma nvl_loop_inv:
  "m \<le> length ts \<Longrightarrow> nvl_inv clique ts m
     (fold (nvl_step clique) (take m (enumerate 0 ts))
       \<lparr>a_dom = ([], []), a_clq = ([], []), a_states = replicate (length ts) NvlFabricRankState_new\<rparr>)"
proof (induction m)
  case 0
  show ?case by (simp add: nvl_inv_def members_def grp_inv_Nil)
next
  case (Suc m)
  then have "take (Suc m) (enumerate 0 ts) = take m (enumerate 0 ts) @ [(m, ts ! m)]"
    by (simp add: take_Suc_conv_app_nth nth_enumerate_eq)
  with nvl_step_inv [OF Suc.IH] Suc.prems show ?case by simp
qed

text \<open>The state after the call, for a communicator whose groups of cliques are empty.\<close>

lemma setNvlFabricTopos_inv:
  assumes len: "int (length ts) = sx_nRanks s" and my: "sx_rank s = int r" "r < length ts" and en: "fabricEnable cf" "supportNvlFabric (ts ! r)"
    and fresh: "cliqueRanks s = []"
  defines "clique \<equiv> 0 < cliqueSize cf \<and> deterministic cf"
  obtains a where "nvl_inv clique ts (length ts) a"
    "setNvlFabricTopos cf ts s = Inr (s\<lparr>nvlFabricTopos := ts, nvlFabricEnabled := True, nvlFabricCliqueEnabled := clique,
       nvlDomainRanks := snd (a_dom a), cliqueRanks := snd (a_clq a),
       nvlFabricRankStates := map2 (nvl_fill clique (snd (a_dom a)) (snd (a_clq a))) ts (a_states a),
       myNvlFabricRankState := map2 (nvl_fill clique (snd (a_dom a)) (snd (a_clq a))) ts (a_states a) ! r\<rparr>)"
proof -
  define a where "a = fold (nvl_step clique) (enumerate 0 ts)
       \<lparr>a_dom = ([], []), a_clq = ([], []), a_states = replicate (length ts) NvlFabricRankState_new\<rparr>"
  have inv: "nvl_inv clique ts (length ts) a" using nvl_loop_inv [of "length ts" ts clique] by (simp add: a_def)
  then have d: "grp_inv (members n_clusterId ts (length ts)) (a_dom a)"
    and c: "if clique then grp_inv (members n_cliqueId ts (length ts)) (a_clq a) else a_clq a = ([], [])"
    by (simp_all add: nvl_inv_def)
  have "length (fst (a_clq a)) = length (snd (a_clq a))"
    using c by (cases clique) (simp_all add: grp_length)
  with grp_length [OF d] show ?thesis
    using len my en fresh by (intro that [OF inv]) (simp add: setNvlFabricTopos_def Let_def flip: clique_def a_def)
qed

text \<open>with the NVLink fabric enabled on a fresh communicator the call succeeds. For ranks that
  support the fabric, being on the same node then means having the same cluster id, or the same clique id with cliques, and
  translating a rank to its node and local rank and back gives the rank.\<close>

theorem nvl_consistent:
  assumes "int (length ts) = sx_nRanks s" "length (rankStates s) = length ts" "sx_rank s = int r" "r < length ts"
    and "fabricEnable cf" "supportNvlFabric (ts ! r)" "cliqueRanks s = []"
    and "a < length ts" "supportNvlFabric (ts ! a)" "b < length ts" "supportNvlFabric (ts ! b)"
  shows "\<exists>s'. setNvlFabricTopos cf ts s = Inr s' \<and>
    isSameNode s' (int a) (int b) =
      Inr (if 0 < cliqueSize cf \<and> deterministic cf then n_cliqueId (ts ! a) = n_cliqueId (ts ! b)
           else n_clusterId (ts ! a) = n_clusterId (ts ! b)) \<and>
    rbind (node s' (int a)) (\<lambda>n. rbind (localRank s' (int a)) (\<lambda>lr. localRankToRank s' lr n)) = Inr (int a)"
proof -
  define clique where "clique \<longleftrightarrow> 0 < cliqueSize cf \<and> deterministic cf"
  from setNvlFabricTopos_inv [OF assms(1,3-7)] obtain acc where inv: "nvl_inv clique ts (length ts) acc"
    and res: "setNvlFabricTopos cf ts s = Inr (s\<lparr>nvlFabricTopos := ts, nvlFabricEnabled := True, nvlFabricCliqueEnabled := clique,
       nvlDomainRanks := snd (a_dom acc), cliqueRanks := snd (a_clq acc),
       nvlFabricRankStates := map2 (nvl_fill clique (snd (a_dom acc)) (snd (a_clq acc))) ts (a_states acc),
       myNvlFabricRankState := map2 (nvl_fill clique (snd (a_dom acc)) (snd (a_clq acc))) ts (a_states acc) ! r\<rparr>)"
    unfolding clique_def by metis
  let ?sts = "map2 (nvl_fill clique (snd (a_dom acc)) (snd (a_clq acc))) ts (a_states acc)"
  let ?s = "s\<lparr>nvlFabricTopos := ts, nvlFabricEnabled := True, nvlFabricCliqueEnabled := clique,
       nvlDomainRanks := snd (a_dom acc), cliqueRanks := snd (a_clq acc), nvlFabricRankStates := ?sts,
       myNvlFabricRankState := ?sts ! r\<rparr>"
  have ls: "length (a_states acc) = length ts" using inv by (simp add: nvl_inv_def)
  have ne: "rankStates s \<noteq> []" using assms(2,4) by auto
  have chk: "check_topo_rank ?s (int i) = Inr (int i)" if "i < length ts" for i
    using that assms(2) ne by (simp add: check_topo_rank_def check_valid_rank_def)
  have st: "nvl_state ?s (int i) = Inr (nvl_fill clique (snd (a_dom acc)) (snd (a_clq acc)) (ts ! i) (a_states acc ! i))"
    if "i < length ts" for i
    using that ls assms(3) by (simp add: nvl_state_def)
  have dom: "grp_inv (members n_clusterId ts (length ts)) (a_dom acc)" using inv by (simp add: nvl_inv_def)
  show ?thesis
  proof (cases clique)
    case False
    have pl: "placed n_clusterId ts (fst (a_dom acc)) i (nvlDomainIndex (a_states acc ! i)) (nvlDomainRank (a_states acc ! i))"
      if "i < length ts" "supportNvlFabric (ts ! i)" for i using inv that by (simp add: nvl_inv_def)
    have nd: "node ?s (int i) = Inr (nvlDomainIndex (a_states acc ! i))"
      "localRank ?s (int i) = Inr (nvlDomainRank (a_states acc ! i))" if "i < length ts" "supportNvlFabric (ts ! i)" for i
      using False that chk st by (simp_all add: node_def localRank_def nvl_fill_def Let_def)
    note pa = pl [OF assms(8,9), unfolded placed_def] and pb = pl [OF assms(10,11), unfolded placed_def]
    have "isSameNode ?s (int a) (int b) = Inr (n_clusterId (ts ! a) = n_clusterId (ts ! b))"
      using nd [OF assms(8,9)] nd [OF assms(10,11)] pa pb grp_inj [OF dom] by (auto simp: isSameNode_def same_def nat_eq_iff2)
    moreover have "localRankToRank ?s (nvlDomainRank (a_states acc ! a)) (nvlDomainIndex (a_states acc ! a)) = Inr (int a)"
      using False ne pa grp_lookup [OF dom, of "n_clusterId (ts ! a)"] members_pos [where key = n_clusterId, OF assms(8,9)]
      by (auto simp: localRankToRank_def my_or_node_def vec_at_def)
    ultimately show ?thesis
      using False res nd [OF assms(8,9)] unfolding clique_def by auto
  next
    case True
    have clq: "grp_inv (members n_cliqueId ts (length ts)) (a_clq acc)" using inv True by (simp add: nvl_inv_def)
    have pl: "placed n_cliqueId ts (fst (a_clq acc)) i (cliqueIndex (a_states acc ! i)) (cliqueRank (a_states acc ! i))"
      if "i < length ts" "supportNvlFabric (ts ! i)" for i using inv that True by (simp add: nvl_inv_def)
    have nd: "node ?s (int i) = Inr (cliqueIndex (a_states acc ! i))"
      "localRank ?s (int i) = Inr (cliqueRank (a_states acc ! i))" if "i < length ts" "supportNvlFabric (ts ! i)" for i
      using True that chk st by (simp_all add: node_def localRank_def nvl_fill_def Let_def)
    note pa = pl [OF assms(8,9), unfolded placed_def] and pb = pl [OF assms(10,11), unfolded placed_def]
    have "isSameNode ?s (int a) (int b) = Inr (n_cliqueId (ts ! a) = n_cliqueId (ts ! b))"
      using nd [OF assms(8,9)] nd [OF assms(10,11)] pa pb grp_inj [OF clq] by (auto simp: isSameNode_def same_def nat_eq_iff2)
    moreover have "localRankToRank ?s (cliqueRank (a_states acc ! a)) (cliqueIndex (a_states acc ! a)) = Inr (int a)"
      using True ne pa grp_lookup [OF clq, of "n_cliqueId (ts ! a)"] members_pos [where key = n_cliqueId, OF assms(8,9)]
      by (auto simp: localRankToRank_def my_or_node_def vec_at_def)
    ultimately show ?thesis
      using True res nd [OF assms(8,9)] unfolding clique_def by auto
  qed
qed

definition ex_nvl :: "nat \<Rightarrow> string \<Rightarrow> int \<Rightarrow> NvlFabricTopology" where
  "ex_nvl r c k = \<lparr>n_rank = int r, supportNvlFabric = True, n_clusterId = c, n_cliqueId = k\<rparr>"

definition ex_nvls :: "NvlFabricTopology list" where
  "ex_nvls = [ex_nvl 0 ''x'' 5, ex_nvl 1 ''y'' 9, ex_nvl 2 ''x'' 5]"

definition ex_cfg :: nvl_cfg where "ex_cfg = \<lparr>fabricEnable = True, cliqueSize = 2, deterministic = True\<rparr>"

definition ex_nvl_state :: statex where
  "ex_nvl_state = (case setNvlFabricTopos ex_cfg ex_nvls (ex_state [''a'', ''b'', ''c'']) of
     Inr s \<Rightarrow> s | Inl _ \<Rightarrow> statex_new 0 0)"

theorem nvl_consistent_witness:
  "isSameNode ex_nvl_state 0 2 = Inr True \<and> isSameNode ex_nvl_state 0 1 = Inr False"
proof -
  have p: "int (length ex_nvls) = sx_nRanks (ex_state [''a'', ''b'', ''c''])"
    "length (rankStates (ex_state [''a'', ''b'', ''c''])) = length ex_nvls" "sx_rank (ex_state [''a'', ''b'', ''c'']) = int 0"
    "cliqueRanks (ex_state [''a'', ''b'', ''c'']) = []"
    by code_simp+
  have q: "0 < length ex_nvls" "1 < length ex_nvls" "2 < length ex_nvls" "fabricEnable ex_cfg"
    "supportNvlFabric (ex_nvls ! 0)" "supportNvlFabric (ex_nvls ! 1)" "supportNvlFabric (ex_nvls ! 2)"
    by (simp_all add: ex_nvls_def ex_nvl_def ex_cfg_def)
  note T = nvl_consistent [OF p(1-3) q(1) q(4) q(5) p(4)]
  have "isSameNode ex_nvl_state (int 0) (int 2) = Inr True" "isSameNode ex_nvl_state (int 0) (int 1) = Inr False"
    using T [OF q(1,5) q(3,7)] T [OF q(1,5) q(2,6)]
    by (auto simp: ex_nvl_state_def ex_cfg_def ex_nvls_def ex_nvl_def)
  then show ?thesis by simp
qed

lemma join_group_length:
  "length (snd (snd (join_group k r ig))) + length (fst ig) = length (snd ig) + length (fst (snd (join_group k r ig)))"
  by (auto simp: join_group_def Let_def push_at_def split: option.split)

lemma nvl_step_length:
  "length (snd (a_clq (nvl_step c it a))) + length (fst (a_clq a)) = length (snd (a_clq a)) + length (fst (a_clq (nvl_step c it a)))"
  using join_group_length [of "n_cliqueId (snd it)" "int (fst it)" "a_clq a"]
  by (auto simp: nvl_step_def Let_def split: prod.split)

lemma nvl_fold_length:
  "length (snd (a_clq (fold (nvl_step c) its a))) + length (fst (a_clq a)) =
   length (snd (a_clq a)) + length (fst (a_clq (fold (nvl_step c) its a)))"
proof (induction its arbitrary: a)
  case Nil
  show ?case by simp
next
  case (Cons it its)
  from Cons.IH [of "nvl_step c it a"] nvl_step_length [of c it a] show ?case by simp
qed

text \<open>a call of \<open>setNvlFabricTopos\<close> with cliques enabled on a communicator that already has cliques (from an earlier
  call) always aborts: the groups of cliques are not cleared, unlike those of domains.\<close>

theorem nvl_second_call_aborts:
  assumes "cliqueRanks s \<noteq> []" "0 \<le> sx_rank s" "sx_rank s < int (length ts)" "fabricEnable cf"
    and "supportNvlFabric (ts ! nat (sx_rank s))" "0 < cliqueSize cf" "deterministic cf"
  shows "setNvlFabricTopos cf ts s = Inl Abort"
proof -
  define acc where "acc = fold (nvl_step True) (enumerate 0 ts)
      \<lparr>a_dom = ([], []), a_clq = ([], cliqueRanks s), a_states = replicate (length ts) NvlFabricRankState_new\<rparr>"
  have "length (fst (a_clq acc)) \<noteq> length (snd (a_clq acc))"
    using nvl_fold_length [of True "enumerate 0 ts"
        "\<lparr>a_dom = ([], []), a_clq = ([], cliqueRanks s), a_states = replicate (length ts) NvlFabricRankState_new\<rparr>"] assms(1)
    by (simp add: acc_def [symmetric])
  then show ?thesis
    using assms(2-7) by (auto simp: setNvlFabricTopos_def vec_at_def Let_def nat_less_iff simp flip: acc_def)
qed

theorem nvl_second_call_aborts_witness:
  "(\<exists>s. setNvlFabricTopos ex_cfg ex_nvls (ex_state [''a'', ''b'', ''c'']) = Inr s) \<and>
   setNvlFabricTopos ex_cfg ex_nvls ex_nvl_state = Inl Abort"
proof
  have "case setNvlFabricTopos ex_cfg ex_nvls (ex_state [''a'', ''b'', ''c'']) of Inr _ \<Rightarrow> True | Inl _ \<Rightarrow> False" by code_simp
  then show "\<exists>s. setNvlFabricTopos ex_cfg ex_nvls (ex_state [''a'', ''b'', ''c'']) = Inr s" by (auto split: sum.splits)
  have "cliqueRanks ex_nvl_state \<noteq> []" "sx_rank ex_nvl_state = 0" by code_simp+
  then show "setNvlFabricTopos ex_cfg ex_nvls ex_nvl_state = Inl Abort"
    by (intro nvl_second_call_aborts) (simp_all add: ex_nvls_def ex_nvl_def ex_cfg_def)
qed

end
