(* ===== verification/Ring_Builder.thy ===== *)
theory Ring_Builder imports Prelude "HOL-Library.Multiset" begin

text \<open>
  The rings of \<^verbatim>\<open>comms/ctran/algos/topo/CtranRingBuilder.h\<close>: one ring over all ranks for each local
  rank, so that the hops between nodes are spread over the local ranks. All counts are positive and small in
  the code (\<^verbatim>\<open>int\<close>), so they are natural numbers here. Vectors written by index are lists; an index out
  of range, undefined in C++, leaves the list as it is, and the properties assume \<open>nRanks = nNodes * nLocalRanks\<close>.
\<close>

section \<open>The rings\<close>

definition first_ring :: "nat \<Rightarrow> nat \<Rightarrow> nat \<Rightarrow> nat list" where
  "first_ring nNodes nLocalRanks nRanks =
     fold (\<lambda>n r. fold (\<lambda>i r. r[n * nLocalRanks + i := n * nLocalRanks + i]) [1..<nLocalRanks]
                   (r[n * nLocalRanks := n * nLocalRanks]))
       [0..<nNodes] (replicate nRanks 0)"

definition swap :: "nat \<Rightarrow> nat \<Rightarrow> 'a list \<Rightarrow> 'a list" where
  "swap i j xs = xs[i := xs ! j, j := xs ! i]"

definition balance_ring :: "nat \<Rightarrow> nat \<Rightarrow> nat \<Rightarrow> nat list \<Rightarrow> nat list" where
  "balance_ring nNodes nLocalRanks lr ring =
     fold (\<lambda>n r. let pos = nLocalRanks - lr in swap (pos + n * nLocalRanks) (pos + (n + 1) * nLocalRanks) r)
       [0..<nNodes - 1] ring"

fun flat_ring :: "nat \<Rightarrow> nat \<Rightarrow> nat \<Rightarrow> nat \<Rightarrow> nat list" where
  "flat_ring nNodes nLocalRanks nRanks 0 = first_ring nNodes nLocalRanks nRanks"
| "flat_ring nNodes nLocalRanks nRanks (Suc lr) =
     balance_ring nNodes nLocalRanks (Suc lr) (flat_ring nNodes nLocalRanks nRanks lr)"

definition getMultiFlatRing :: "nat \<Rightarrow> nat \<Rightarrow> nat \<Rightarrow> nat list list" where
  "getMultiFlatRing nNodes nLocalRanks nRanks = map (flat_ring nNodes nLocalRanks nRanks) [0..<nLocalRanks]"

section \<open>Predecessors and successors\<close>

fun find_pos :: "nat \<Rightarrow> nat list \<Rightarrow> nat \<Rightarrow> nat option" where
  "find_pos r [] i = None"
| "find_pos r (x # xs) i = (if x = r then Some i else find_pos r xs (i + 1))"

text \<open>The vectors \<open>ringPrev\<close>, \<open>ringNext\<close> and \<open>rings\<close> are passed by reference.\<close>

definition link_rank :: "nat \<Rightarrow> nat list list \<Rightarrow> nat \<times> nat \<Rightarrow> nat list list \<times> nat list list \<Rightarrow> nat list list \<times> nat list list" where
  "link_rank nRanks rings rc pn =
     (let r = fst rc; c = snd rc
      in case find_pos r (take nRanks (rings ! c)) 0 of
        None \<Rightarrow> pn
      | Some pos \<Rightarrow>
          let prevPos = (pos + nRanks - 1) mod nRanks; nextPos = (pos + 1) mod nRanks
          in ((fst pn)[c := (fst pn ! c)[r := rings ! c ! prevPos]], (snd pn)[c := (snd pn ! c)[r := rings ! c ! nextPos]]))"

definition buildMultiFlatRing :: "nat \<Rightarrow> nat \<Rightarrow> nat \<Rightarrow> nat \<Rightarrow> nat list list \<times> nat list list \<times> nat list list \<Rightarrow>
    nat list list \<times> nat list list \<times> nat list list" where
  "buildMultiFlatRing nLocalRanks nRanks nNodes nRings out =
     (case out of (ringPrev, ringNext, rings) \<Rightarrow>
        let base = getMultiFlatRing nNodes nLocalRanks nRanks;
            rings1 = fold (\<lambda>i rs. rs[i := base ! i]) [0..<min (length base) nRings] rings;
            rings2 = fold (\<lambda>i rs. rs[i := base ! (i mod length base)]) [min (length base) nRings..<nRings] rings1;
            pn = fold (link_rank nRanks rings2) (List.product [0..<nRanks] [0..<nRings]) (ringPrev, ringNext)
        in (fst pn, snd pn, rings2))"

section \<open>The shape of a ring\<close>

lemma length_fold_update: "(\<And>x r. length (f x r) = length r) \<Longrightarrow> length (fold f xs r) = length r"
  by (induction xs arbitrary: r) auto

lemma fold_set_nth:
  assumes "\<forall>i \<in> set is. i < length r"
  shows "fold (\<lambda>i r. r[i := f i]) is r ! k = (if k \<in> set is then f k else r ! k) \<and> length (fold (\<lambda>i r. r[i := f i]) is r) = length r"
  using assms by (induction "is" arbitrary: r rule: rev_induct) (auto simp: nth_list_update)

lemma first_ring_row:
  "0 < l \<Longrightarrow> fold (\<lambda>i r. r[m + i := m + i]) [Suc 0..<l] (r[m := m]) = fold (\<lambda>i r. r[m + i := m + i]) [0..<l] r"
  by (simp add: upt_conv_Cons del: upt_Suc)

lemma first_ring_eq:
  assumes "0 < l"
  shows "first_ring n l (n * l) = [0..<n * l]"
proof -
  have "fold (\<lambda>k r. fold (\<lambda>i r. r[k * l + i := k * l + i]) [1..<l] (r[k * l := k * l])) [0..<m] (replicate N 0) =
      fold (\<lambda>i r. r[i := i]) [0..<m * l] (replicate N 0)" for m N
  proof (induction m)
    case 0
    show ?case by simp
  next
    case (Suc m)
    have "[0..<Suc m * l] = [0..<m * l] @ map ((+) (m * l)) [0..<l]"
      by (rule nth_equalityI) (auto simp: nth_append)
    then have "fold (\<lambda>i r. r[i := i]) [0..<Suc m * l] r =
        fold (\<lambda>i r. r[m * l + i := m * l + i]) [0..<l] (fold (\<lambda>i r. r[i := i]) [0..<m * l] r)" for r :: "nat list"
      by (simp add: fold_map comp_def)
    with Suc assms show ?case by (simp add: first_ring_row)
  qed
  then have eq: "first_ring n l (n * l) = fold (\<lambda>i r. r[i := i]) [0..<n * l] (replicate (n * l) 0)"
    by (simp add: first_ring_def)
  show ?thesis
    unfolding eq using fold_set_nth [of "[0..<n * l]" "replicate (n * l) 0" id]
    by (intro nth_equalityI) auto
qed

text \<open>
  After the passes up to \<open>lr\<close>, the last \<open>lr\<close> columns (local ranks) of the ring are rotated by one node.
\<close>

definition shifted :: "nat \<Rightarrow> nat \<Rightarrow> nat \<Rightarrow> nat \<Rightarrow> nat" where
  "shifted n l lr p = (if l - lr \<le> p mod l then ((p div l + 1) mod n) * l + p mod l else p)"

lemma swap_nth:
  "i < length xs \<Longrightarrow> j < length xs \<Longrightarrow> swap i j xs ! k = (if k = j then xs ! i else if k = i then xs ! j else xs ! k)"
  by (simp add: swap_def nth_list_update)

lemma length_swap [simp]: "length (swap i j xs) = length xs"
  by (simp add: swap_def)

text \<open>Swapping a column's neighbours from the first node to the last rotates the column.\<close>

lemma rotate_column:
  assumes "length xs = n * l" "c < l"
  shows "m < n \<Longrightarrow> k < n * l \<Longrightarrow>
     fold (\<lambda>i r. swap (c + i * l) (c + (i + 1) * l) r) [0..<m] xs ! k =
       (if k mod l = c \<and> k div l < m then xs ! (k + l) else if k = c + m * l then xs ! c else xs ! k) \<and>
     length (fold (\<lambda>i r. swap (c + i * l) (c + (i + 1) * l) r) [0..<m] xs) = n * l"
proof (induction m arbitrary: k)
  case 0
  then show ?case using assms by auto
next
  case (Suc m)
  let ?f = "fold (\<lambda>i r. swap (c + i * l) (c + (i + 1) * l) r) [0..<m] xs"
  have idx: "c + i * l < n * l" if "i < n" for i
  proof -
    have "c + i * l < Suc i * l" using assms(2) by simp
    also have "\<dots> \<le> n * l" using that by (intro mult_le_mono1) simp
    finally show ?thesis .
  qed
  have len: "length ?f = n * l" using Suc.IH [of k] Suc.prems by simp
  have dm: "(c + i * l) mod l = c" "(c + i * l) div l = i" for i using assms(2) by simp_all
  have kc: "k = c + (k div l) * l" if "k mod l = c" using that by (metis add.commute div_mult_mod_eq)
  have i1: "c + m * l < n * l" "c + Suc m * l < n * l" using idx [of m] idx [of "Suc m"] Suc.prems(1) by simp_all
  have at: "?f ! (c + m * l) = xs ! c" "?f ! (c + Suc m * l) = xs ! (c + Suc m * l)"
    using Suc.IH [of "c + m * l"] Suc.IH [of "c + Suc m * l"] Suc.prems(1) i1 dm by (auto simp del: mult_Suc)
  have "fold (\<lambda>i r. swap (c + i * l) (c + (i + 1) * l) r) [0..<Suc m] xs ! k =
      (if k = c + Suc m * l then xs ! c else if k = c + m * l then xs ! (c + Suc m * l) else ?f ! k)"
    using swap_nth [of "c + m * l" ?f "c + Suc m * l" k] i1 len at by simp
  moreover have "k = c + Suc m * l \<or> k = c + m * l \<or> (k mod l = c \<and> k div l < Suc m \<longleftrightarrow> k mod l = c \<and> k div l < m)"
    using kc by (auto simp: less_Suc_eq)
  moreover have "c + m * l + l = c + Suc m * l" by simp
  ultimately show ?case
    using Suc.IH [of k] Suc.prems len dm [of m] dm [of "Suc m"] by (auto simp: ac_simps)
qed

lemma flat_ring_nth:
  assumes "lr < l" "0 < n"
  shows "length (flat_ring n l (n * l) lr) = n * l \<and>
    (\<forall>p < n * l. flat_ring n l (n * l) lr ! p = shifted n l lr p)"
  using assms(1)
proof (induction lr)
  case 0
  then have "\<not> l \<le> p mod l" for p by (simp add: not_le)
  then show ?case using 0 by (simp add: first_ring_eq shifted_def)
next
  case (Suc lr)
  let ?r = "flat_ring n l (n * l) lr" let ?c = "l - Suc lr"
  have c: "?c < l" "?c \<noteq> 0" using Suc.prems by simp_all
  have IH: "length ?r = n * l" "\<And>p. p < n * l \<Longrightarrow> ?r ! p = shifted n l lr p" using Suc by simp_all
  note R = rotate_column [OF IH(1) c(1), of "n - 1"]
  have nl: "n - 1 < n" using assms(2) by simp
  have eq: "flat_ring n l (n * l) (Suc lr) = fold (\<lambda>i r. swap (?c + i * l) (?c + (i + 1) * l) r) [0..<n - 1] ?r"
    by (simp add: balance_ring_def Let_def)
  have "flat_ring n l (n * l) (Suc lr) ! p = shifted n l (Suc lr) p" if p: "p < n * l" for p
  proof -
    have dv: "p div l < n" using p by (simp add: less_mult_imp_div_less)
    have pe: "p = p mod l + (p div l) * l" by simp
    consider "p mod l = ?c" "p div l < n - 1" | "p mod l = ?c" "p div l = n - 1" | "p mod l \<noteq> ?c"
      using dv by linarith
    then show ?thesis
    proof cases
      case 1
      then have "(p div l + 1) mod n = p div l + 1" by simp
      moreover have "p + l < n * l"
      proof -
        have "p + l = p mod l + (p div l + 1) * l" by (metis add.assoc add.commute add_mult_distrib mult_1 pe)
        also have "\<dots> < (p div l + 2) * l" using c(1) 1(1) by (simp add: algebra_simps)
        also have "\<dots> \<le> n * l" using 1(2) by (intro mult_le_mono1) simp
        finally show ?thesis .
      qed
      moreover have "(p + l) mod l = ?c" using 1 c by simp
      moreover have "\<not> l - lr \<le> ?c" using Suc.prems by simp
      ultimately have "?r ! (p + l) = p + l" using IH(2) [of "p + l"] by (simp add: shifted_def)
      moreover have "flat_ring n l (n * l) (Suc lr) ! p = ?r ! (p + l)" using R [OF nl p] 1 eq by simp
      moreover have "(p div l + 1) * l + p mod l = p + l" by (metis add.assoc add.commute add_mult_distrib mult_1 pe)
      ultimately show ?thesis using 1 \<open>(p div l + 1) mod n = p div l + 1\<close> by (simp add: shifted_def)
    next
      case 2
      then have "p = ?c + (n - 1) * l" using pe by metis
      moreover have "(p div l + 1) mod n = 0" using 2(2) assms(2) by simp
      moreover have "?r ! ?c = ?c"
      proof -
        have "?c < n * l" using c(1) assms(2) by (metis less_le_trans mult.commute mult_le_mono1 nat_mult_1 One_nat_def Suc_leI)
        moreover have "\<not> l - lr \<le> ?c" using Suc.prems by simp
        ultimately show ?thesis using IH(2) [of ?c] c by (simp add: shifted_def)
      qed
      ultimately show ?thesis using R [OF nl p] 2 eq by (simp add: shifted_def)
    next
      case 3
      then have "flat_ring n l (n * l) (Suc lr) ! p = ?r ! p"
        using R [OF nl p] eq c(1) by auto
      moreover have "l - lr \<le> p mod l \<longleftrightarrow> l - Suc lr \<le> p mod l" using 3 Suc.prems by linarith
      ultimately show ?thesis using IH(2) [OF p] by (simp add: shifted_def)
    qed
  qed
  moreover have "length (flat_ring n l (n * l) (Suc lr)) = n * l"
  proof -
    have "0 < n * l" using Suc.prems assms(2) by simp
    from R [OF nl this] show ?thesis using eq by simp
  qed
  ultimately show ?case by blast
qed

lemma shifted_div_mod:
  assumes "p < n * l"
  shows "shifted n l lr p div l = (if l - lr \<le> p mod l then (p div l + 1) mod n else p div l)"
    "shifted n l lr p mod l = p mod l" "shifted n l lr p < n * l"
proof -
  have l: "0 < l" "0 < n" using assms by (auto intro: gr0I)
  have p: "p div l < n" using assms by (simp add: less_mult_imp_div_less)
  show d: "shifted n l lr p div l = (if l - lr \<le> p mod l then (p div l + 1) mod n else p div l)"
    using l by (simp add: shifted_def)
  show m: "shifted n l lr p mod l = p mod l" by (simp add: shifted_def)
  have "shifted n l lr p div l < n" using d p l by simp
  then show "shifted n l lr p < n * l" by (simp add: div_less_iff_less_mult l)
qed

lemma Suc_mod_inj:
  assumes "Suc a mod n = Suc b mod n" "a < n" "b < n"
  shows "a = b"
proof -
  have "Suc x mod n = (if Suc x = n then 0 else Suc x)" if "x < n" for x using that by (simp add: mod_Suc)
  with assms show ?thesis by (auto split: if_splits)
qed

lemma shifted_inj:
  assumes "p < n * l" "q < n * l" "shifted n l lr p = shifted n l lr q"
  shows "p = q"
proof -
  have m: "p mod l = q mod l" using assms shifted_div_mod(2) by metis
  have lt: "p div l < n" "q div l < n" using assms by (simp_all add: less_mult_imp_div_less)
  have "p div l = q div l"
    using shifted_div_mod(1) [OF assms(1), of lr] shifted_div_mod(1) [OF assms(2), of lr] assms(3) m lt
    by (auto split: if_splits dest: Suc_mod_inj)
  with m show ?thesis by (metis div_mult_mod_eq)
qed

lemma flat_ring_perm:
  assumes "lr < l" "0 < n"
  shows "length (flat_ring n l (n * l) lr) = n * l" "distinct (flat_ring n l (n * l) lr)"
    "set (flat_ring n l (n * l) lr) = {..<n * l}"
proof -
  note F = flat_ring_nth [OF assms]
  show len: "length (flat_ring n l (n * l) lr) = n * l" using F by blast
  show d: "distinct (flat_ring n l (n * l) lr)"
    unfolding distinct_conv_nth using F shifted_inj by metis
  have "set (flat_ring n l (n * l) lr) \<subseteq> {..<n * l}"
    using F shifted_div_mod(3) by (auto simp: in_set_conv_nth)
  moreover have "card (set (flat_ring n l (n * l) lr)) = n * l" using d len by (simp add: distinct_card)
  ultimately show "set (flat_ring n l (n * l) lr) = {..<n * l}" by (intro card_subset_eq) simp_all
qed

text \<open>C32: there is one ring per local rank, each ring visits every rank exactly once, and the ring leaves a node
  only at one local rank, a different one in each ring: the hop from position \<open>p\<close> to the next one goes to another node
  exactly when the local rank at \<open>p\<close> is \<open>nLocalRanks - 1 - lr\<close>, and then to the next node.\<close>

theorem flat_rings_balanced:
  assumes "0 < nNodes" "0 < nLocalRanks" "nRanks = nNodes * nLocalRanks"
  shows "length (getMultiFlatRing nNodes nLocalRanks nRanks) = nLocalRanks \<and>
    (\<forall>lr < nLocalRanks. mset (getMultiFlatRing nNodes nLocalRanks nRanks ! lr) = mset [0..<nRanks] \<and>
      (\<forall>p < nRanks. let r = getMultiFlatRing nNodes nLocalRanks nRanks ! lr ! p;
                        r' = getMultiFlatRing nNodes nLocalRanks nRanks ! lr ! ((p + 1) mod nRanks)
        in r' div nLocalRanks = (if r mod nLocalRanks = nLocalRanks - 1 - lr then (r div nLocalRanks + 1) mod nNodes
             else r div nLocalRanks)))"
proof -
  let ?l = nLocalRanks and ?n = nNodes
  have ring: "getMultiFlatRing ?n ?l nRanks ! lr = flat_ring ?n ?l (?n * ?l) lr" if "lr < ?l" for lr
    using that by (simp add: getMultiFlatRing_def assms(3))
  have ms: "mset (flat_ring ?n ?l (?n * ?l) lr) = mset [0..<?n * ?l]" if "lr < ?l" for lr
    using flat_ring_perm [OF that assms(1)]
      set_eq_iff_mset_eq_distinct [of "flat_ring ?n ?l (?n * ?l) lr" "[0..<?n * ?l]"] by (simp add: atLeast0LessThan)
  have hop: "flat_ring ?n ?l (?n * ?l) lr ! ((p + 1) mod (?n * ?l)) div ?l =
      (if flat_ring ?n ?l (?n * ?l) lr ! p mod ?l = ?l - 1 - lr then (flat_ring ?n ?l (?n * ?l) lr ! p div ?l + 1) mod ?n
       else flat_ring ?n ?l (?n * ?l) lr ! p div ?l)"
    if lr: "lr < ?l" and p: "p < ?n * ?l" for lr p
  proof -
    let ?q = "(p + 1) mod (?n * ?l)"
    have q: "?q < ?n * ?l" using assms(1,2) by simp
    have pd: "p div ?l < ?n" using p by (simp add: less_mult_imp_div_less)
    have qs: "?q mod ?l = (if p mod ?l = ?l - 1 then 0 else p mod ?l + 1) \<and>
        ?q div ?l = (if p mod ?l = ?l - 1 then (p div ?l + 1) mod ?n else p div ?l)"
    proof (cases "p mod ?l = ?l - 1")
      case True
      then have "p + 1 = (p div ?l + 1) * ?l" using assms(2) div_mult_mod_eq [of p ?l] by (simp add: algebra_simps)
      then have "?q = ((p div ?l + 1) mod ?n) * ?l" by (simp only: mod_mult_mult2)
      with True assms(2) show ?thesis by simp
    next
      case False
      have m: "p mod ?l + 1 < ?l" using False assms(2) mod_less_divisor [of ?l p] by linarith
      have e: "p + 1 = (p mod ?l + 1) + (p div ?l) * ?l" by simp
      have "p + 1 < (p div ?l + 1) * ?l" unfolding add_mult_distrib using m e by linarith
      also have "\<dots> \<le> ?n * ?l" using pd by (intro mult_le_mono1) simp
      finally have "?q = p + 1" by simp
      moreover have "(p + 1) mod ?l = p mod ?l + 1" "(p + 1) div ?l = p div ?l"
        using m by (simp_all add: mod_Suc div_Suc)
      ultimately show ?thesis using False by simp
    qed
    note F = flat_ring_nth [OF lr assms(1)]
    have at: "flat_ring ?n ?l (?n * ?l) lr ! p = shifted ?n ?l lr p" "flat_ring ?n ?l (?n * ?l) lr ! ?q = shifted ?n ?l lr ?q"
      using F p q by blast+
    show ?thesis
      unfolding at shifted_div_mod(1,2) [OF p] shifted_div_mod(1) [OF q]
      using qs lr mod_less_divisor [OF assms(2), of p] pd assms(1) by (cases "p mod ?l = ?l - 1"; cases "lr = 0") auto
  qed
  show ?thesis using ring ms hop by (simp add: assms(3) Let_def) (simp add: getMultiFlatRing_def)
qed

theorem flat_rings_balanced_witness:
  "getMultiFlatRing 2 2 4 = [[0, 1, 2, 3], [0, 3, 2, 1]] \<and> mset (getMultiFlatRing 2 2 4 ! 1) = mset [0, 1, 2, 3]"
proof -
  have "getMultiFlatRing 2 2 4 = [[0, 1, 2, 3], [0, 3, 2, 1]]" by code_simp
  moreover have "[0..<4] = [0, 1, 2, 3 :: nat]" by (simp add: upt_rec)
  ultimately show ?thesis using flat_rings_balanced [of 2 2 4] by (simp add: All_less_Suc2 numeral_2_eq_2)
qed

section \<open>The links\<close>

lemma find_pos_distinct:
  "distinct xs \<Longrightarrow> k < length xs \<Longrightarrow> find_pos (xs ! k) xs i = Some (i + k)"
proof (induction xs arbitrary: k i)
  case Nil
  then show ?case by simp
next
  case (Cons x xs)
  then show ?case by (cases k) auto
qed

text \<open>One entry after the double loop.\<close>

lemma fold_link:
  assumes "\<forall>rc \<in> set rcs. find_pos (fst rc) (take nR (rings ! snd rc)) 0 = Some (pos rc) \<and> snd rc < length P \<and>
      snd rc < length N \<and> fst rc < length (P ! snd rc) \<and> fst rc < length (N ! snd rc)"
  shows "(let PN = fold (link_rank nR rings) rcs (P, N) in
     length (fst PN) = length P \<and> length (snd PN) = length N \<and>
     (\<forall>c. length (fst PN ! c) = length (P ! c) \<and> length (snd PN ! c) = length (N ! c)) \<and>
     (\<forall>rc \<in> set rcs. fst PN ! snd rc ! fst rc = rings ! snd rc ! ((pos rc + nR - 1) mod nR) \<and>
        snd PN ! snd rc ! fst rc = rings ! snd rc ! ((pos rc + 1) mod nR)))"
  using assms
proof (induction rcs rule: rev_induct)
  case Nil
  show ?case by simp
next
  case (snoc rc rcs)
  obtain P1 N1 where PN: "fold (link_rank nR rings) rcs (P, N) = (P1, N1)" by (metis prod.exhaust)
  obtain r c where rc: "rc = (r, c)" by (metis prod.exhaust)
  have IH: "length P1 = length P" "length N1 = length N" "\<And>c. length (P1 ! c) = length (P ! c)" "\<And>c. length (N1 ! c) = length (N ! c)"
    "\<And>rc. rc \<in> set rcs \<Longrightarrow> P1 ! snd rc ! fst rc = rings ! snd rc ! ((pos rc + nR - 1) mod nR)"
    "\<And>rc. rc \<in> set rcs \<Longrightarrow> N1 ! snd rc ! fst rc = rings ! snd rc ! ((pos rc + 1) mod nR)"
    using snoc.IH snoc.prems PN by (auto simp: Let_def)
  have b: "c < length P" "c < length N" "r < length (P ! c)" "r < length (N ! c)"
    and f: "find_pos r (take nR (rings ! c)) 0 = Some (pos rc)" using snoc.prems rc by auto
  have res: "fold (link_rank nR rings) (rcs @ [rc]) (P, N) =
      (P1[c := (P1 ! c)[r := rings ! c ! ((pos rc + nR - 1) mod nR)]], N1[c := (N1 ! c)[r := rings ! c ! ((pos rc + 1) mod nR)]])"
    using PN rc f by (simp add: link_rank_def Let_def)
  have "(P1[c := (P1 ! c)[r := x]]) ! snd q ! fst q = (if q = rc then x else P1 ! snd q ! fst q)"
    "(N1[c := (N1 ! c)[r := y]]) ! snd q ! fst q = (if q = rc then y else N1 ! snd q ! fst q)" for q x y
    using b IH(1-4) rc by (cases q; auto simp: nth_list_update)+
  moreover have "length (P1[c := (P1 ! c)[r := x]] ! d) = length (P ! d)" "length (N1[c := (N1 ! c)[r := y]] ! d) = length (N ! d)" for d x y
    using IH(3,4) b IH(1,2) by (auto simp: nth_list_update)
  ultimately show ?case unfolding res Let_def using IH rc by auto
qed

text \<open>with output vectors of the right sizes, ring \<open>c\<close> is the base ring \<open>c mod nLocalRanks\<close>, and in it the successor of a rank is
  the next rank on the ring, and predecessor and successor are inverse to each other.\<close>

theorem multi_ring_links:
  assumes "0 < nNodes" "0 < nLocalRanks" "nRanks = nNodes * nLocalRanks"
    and "length rings = nRings" "length P = nRings" "length N = nRings"
    and "\<forall>c < nRings. length (P ! c) = nRanks \<and> length (N ! c) = nRanks"
    and "buildMultiFlatRing nLocalRanks nRanks nNodes nRings (P, N, rings) = (P', N', rings')"
    and "c < nRings" "k < nRanks"
  shows "rings' ! c = getMultiFlatRing nNodes nLocalRanks nRanks ! (c mod nLocalRanks) \<and>
    N' ! c ! (rings' ! c ! k) = rings' ! c ! ((k + 1) mod nRanks) \<and>
    P' ! c ! (rings' ! c ! ((k + 1) mod nRanks)) = rings' ! c ! k"
proof -
  let ?base = "getMultiFlatRing nNodes nLocalRanks nRanks"
  have lb: "length ?base = nLocalRanks" by (simp add: getMultiFlatRing_def)
  define m where "m = min nLocalRanks nRings"
  define r1 where "r1 = fold (\<lambda>i rs. rs[i := ?base ! i]) [0..<m] rings"
  define r2 where "r2 = fold (\<lambda>i rs. rs[i := ?base ! (i mod nLocalRanks)]) [m..<nRings] r1"
  define PN where "PN = fold (link_rank nRanks r2) (List.product [0..<nRanks] [0..<nRings]) (P, N)"
  have "buildMultiFlatRing nLocalRanks nRanks nNodes nRings (P, N, rings) = (fst PN, snd PN, r2)"
    by (simp only: buildMultiFlatRing_def Let_def prod.case lb m_def r1_def r2_def PN_def)
  then have eqs: "P' = fst PN" "N' = snd PN" "rings' = r2" using assms(8) by simp_all
  have f1: "r1 ! i = (if i \<in> set [0..<m] then ?base ! i else rings ! i) \<and> length r1 = nRings" for i
    unfolding r1_def using fold_set_nth [of "[0..<m]" rings "(!) ?base" i] assms(4) by (auto simp: m_def)
  have f2: "rings' ! i = (if i \<in> set [m..<nRings] then ?base ! (i mod nLocalRanks) else r1 ! i) \<and> length rings' = nRings" for i
    unfolding eqs r2_def using fold_set_nth [of "[m..<nRings]" r1 "\<lambda>i. ?base ! (i mod nLocalRanks)" i] f1 [of i] by auto
  have rc: "rings' ! i = ?base ! (i mod nLocalRanks)" if "i < nRings" for i
    using f1 [of i] f2 [of i] that by (auto simp: m_def)
  have flat: "?base ! (i mod nLocalRanks) = flat_ring nNodes nLocalRanks (nNodes * nLocalRanks) (i mod nLocalRanks)" for i
    using assms(2,3) by (simp add: getMultiFlatRing_def)
  note perm = flat_ring_perm [OF mod_less_divisor [OF assms(2)] assms(1)]
  have R: "length (rings' ! i) = nRanks" "distinct (rings' ! i)" "set (rings' ! i) = {..<nRanks}" if "i < nRings" for i
    using perm [of i] rc [OF that] flat [of i] assms(3) by simp_all
  define pos where "pos rc = (THE k. k < nRanks \<and> rings' ! snd rc ! k = fst rc)" for rc :: "nat \<times> nat"
  have posI: "pos (rings' ! i ! j, i) = j" if "i < nRings" "j < nRanks" for i j
    unfolding pos_def fst_conv snd_conv
  proof (rule the_equality)
    show "j < nRanks \<and> rings' ! i ! j = rings' ! i ! j" using that by simp
    show "k = j" if "k < nRanks \<and> rings' ! i ! k = rings' ! i ! j" for k
      using that R(1,2) [OF \<open>i < nRings\<close>] \<open>j < nRanks\<close> nth_eq_iff_index_eq by metis
  qed
  have ex: "\<exists>j < nRanks. rings' ! i ! j = r" if "i < nRings" "r < nRanks" for i r
    using R [OF that(1)] that(2) by (metis in_set_conv_nth lessThan_iff)
  have "\<forall>rc \<in> set (List.product [0..<nRanks] [0..<nRings]). find_pos (fst rc) (take nRanks (rings' ! snd rc)) 0 = Some (pos rc) \<and>
      snd rc < length P \<and> snd rc < length N \<and> fst rc < length (P ! snd rc) \<and> fst rc < length (N ! snd rc)"
  proof
    fix rc assume "rc \<in> set (List.product [0..<nRanks] [0..<nRings])"
    then have b: "fst rc < nRanks" "snd rc < nRings" by auto
    then obtain j where j: "j < nRanks" "rings' ! snd rc ! j = fst rc" using ex by blast
    then have "pos rc = j" using posI [OF b(2) j(1)] by simp
    moreover have "find_pos (fst rc) (rings' ! snd rc) 0 = Some j"
      using find_pos_distinct [of "rings' ! snd rc" j 0] R [OF b(2)] j by simp
    ultimately show "find_pos (fst rc) (take nRanks (rings' ! snd rc)) 0 = Some (pos rc) \<and>
      snd rc < length P \<and> snd rc < length N \<and> fst rc < length (P ! snd rc) \<and> fst rc < length (N ! snd rc)"
      using R [OF b(2)] b assms(5-7) by simp
  qed
  note L = fold_link [OF this, folded eqs(3), unfolded Let_def]
  have PN': "PN = fold (link_rank nRanks rings') (List.product [0..<nRanks] [0..<nRings]) (P, N)"
    by (simp add: PN_def eqs)
  have links:
    "P' ! i ! r = rings' ! i ! ((pos (r, i) + nRanks - 1) mod nRanks)" "N' ! i ! r = rings' ! i ! ((pos (r, i) + 1) mod nRanks)"
    if "r < nRanks" "i < nRings" for r i
  proof -
    have mem: "(r, i) \<in> set (List.product [0..<nRanks] [0..<nRings])" using that by simp
    from L [folded PN'] have "\<forall>rc \<in> set (List.product [0..<nRanks] [0..<nRings]).
        fst PN ! snd rc ! fst rc = rings' ! snd rc ! ((pos rc + nRanks - 1) mod nRanks) \<and>
        snd PN ! snd rc ! fst rc = rings' ! snd rc ! ((pos rc + 1) mod nRanks)" by (elim conjE)
    from bspec [OF this mem] show "P' ! i ! r = rings' ! i ! ((pos (r, i) + nRanks - 1) mod nRanks)"
      "N' ! i ! r = rings' ! i ! ((pos (r, i) + 1) mod nRanks)" unfolding eqs(1,2) fst_conv snd_conv by blast+
  qed
  have lt: "rings' ! c ! j < nRanks" if "j < nRanks" for j using R [OF assms(9)] that by (metis lessThan_iff nth_mem)
  have k1: "(k + 1) mod nRanks < nRanks" using assms(10) by simp
  have "((k + 1) mod nRanks + nRanks - 1) mod nRanks = k"
    using assms(10) by (cases "Suc k = nRanks") auto
  then show ?thesis
    using links(2) [OF lt [OF assms(10)] assms(9)] links(1) [OF lt [OF k1] assms(9)] posI [OF assms(9)] assms(10) k1 rc [OF assms(9)]
    by simp
qed

theorem multi_ring_links_witness:
  "snd (snd (buildMultiFlatRing 2 4 2 3 (replicate 3 (replicate 4 0), replicate 3 (replicate 4 0), replicate 3 []))) ! 2 = [0, 1, 2, 3] \<and>
   fst (buildMultiFlatRing 2 4 2 3 (replicate 3 (replicate 4 0), replicate 3 (replicate 4 0), replicate 3 [])) ! 1 ! 3 = 0"
proof -
  let ?b = "buildMultiFlatRing 2 4 2 3 (replicate 3 (replicate 4 0), replicate 3 (replicate 4 0), replicate 3 [])"
  have e: "?b = (fst ?b, fst (snd ?b), snd (snd ?b))" by simp
  have base: "getMultiFlatRing 2 2 4 = [[0, 1, 2, 3], [0, 3, 2, 1]]" by code_simp
  note T = multi_ring_links [of 2 2 4 "replicate 3 []" 3 "replicate 3 (replicate 4 0)" "replicate 3 (replicate 4 0)",
      OF _ _ _ _ _ _ _ e, unfolded base]
  from T [of 2 0] have "snd (snd ?b) ! 2 = [0, 1, 2, 3]" by simp
  have t: "snd (snd ?b) ! 1 = [[0, 1, 2, 3], [0, 3, 2, 1]] ! (1 mod 2) \<and>
      fst (snd ?b) ! 1 ! (snd (snd ?b) ! 1 ! 0) = snd (snd ?b) ! 1 ! ((0 + 1) mod 4) \<and>
      fst ?b ! 1 ! (snd (snd ?b) ! 1 ! ((0 + 1) mod 4)) = snd (snd ?b) ! 1 ! 0"
    by (rule T) simp_all
  then have R: "snd (snd ?b) ! 1 = [0, 3, 2, 1]" by simp
  from conjunct2 [OF conjunct2 [OF t]] have "fst ?b ! 1 ! ([0, 3, 2, 1] ! ((0 + 1) mod 4)) = [0, 3, 2, 1] ! 0" unfolding R .
  then have "fst ?b ! 1 ! 3 = 0" by simp
  with \<open>snd (snd ?b) ! 2 = [0, 1, 2, 3]\<close> show ?thesis by (rule conjI)
qed

end
