(* ===== verification/Work_Queue.thy ===== *)
theory Work_Queue imports Prelude begin

text \<open>
  The work objects and the work queue of \<^verbatim>\<open>comms/torchcomms/nccl/TorchWorkNCCL.cpp\<close> and
  \<^verbatim>\<open>TorchWorkNCCLQueue.cpp\<close>. A work object is shared by its queue and the user, so the objects are kept in
  a store (a function from identities). What the CUDA runtime answers and the two clock readings of a check are
  the argument \<open>obs\<close>; in one pass over the queues every work is checked at most once, so one answer per
  work is enough. Times are in nanoseconds of the monotone clock, timeouts in milliseconds.
\<close>

section \<open>A work object\<close>

datatype WorkStatus = NOT_STARTED | INPROGRESS | COMPLETED | TIMEDOUT | ERROR

datatype cudaStatus = cudaSuccess | cudaErrorNotReady | cudaErrorStreamCaptureUnsupported | cudaErrorOther

record work =
  w_inputs :: "nat list"
  w_input :: "nat option"
  w_timeout_ms :: int
  w_state :: WorkStatus
  w_start_time :: "int option"

record obs =
  o_start :: cudaStatus
  o_end :: cudaStatus
  o_now1 :: int
  o_now2 :: int

text \<open>One constructor sets the tensors \<open>w_inputs\<close>, the other the single tensor \<open>w_input\<close>.\<close>

definition work_new :: "int \<Rightarrow> nat list \<Rightarrow> nat option \<Rightarrow> work" where
  "work_new timeout_ms inputs input = \<lparr>w_inputs = inputs, w_input = input, w_timeout_ms = timeout_ms, w_state = NOT_STARTED, w_start_time = None\<rparr>"

definition terminal :: "WorkStatus \<Rightarrow> bool" where
  "terminal st \<longleftrightarrow> st = COMPLETED \<or> st = ERROR \<or> st = TIMEDOUT"

definition isCompleted :: "work \<Rightarrow> bool" where
  "isCompleted w \<longleftrightarrow> w_state w = COMPLETED"

text \<open>The first step: query the start event, unless it is known to have completed.\<close>

definition check_start :: "obs \<Rightarrow> work \<Rightarrow> work" where
  "check_start ob w =
     (if w_start_time w = None then
        (case o_start ob of
           cudaSuccess \<Rightarrow> w\<lparr>w_start_time := Some (o_now1 ob), w_state := INPROGRESS\<rparr>
         | cudaErrorNotReady \<Rightarrow> w
         | cudaErrorStreamCaptureUnsupported \<Rightarrow> w
         | cudaErrorOther \<Rightarrow> w\<lparr>w_state := ERROR\<rparr>)
      else w)"

text \<open>The second step: query the end event and look at the clock.\<close>

definition check_end :: "obs \<Rightarrow> work \<Rightarrow> work" where
  "check_end ob w =
     (case o_end ob of
        cudaSuccess \<Rightarrow> w\<lparr>w_state := COMPLETED, w_inputs := []\<rparr>
      | cudaErrorNotReady \<Rightarrow>
          (if (o_now2 ob - the (w_start_time w)) div 1000000 > w_timeout_ms w then w\<lparr>w_state := TIMEDOUT\<rparr> else w)
      | cudaErrorStreamCaptureUnsupported \<Rightarrow> w
      | cudaErrorOther \<Rightarrow> w\<lparr>w_state := ERROR\<rparr>)"

text \<open>The status returned is the state afterwards.\<close>

definition checkStatus :: "obs \<Rightarrow> work \<Rightarrow> work" where
  "checkStatus ob w =
     (if terminal (w_state w) then w
      else
        let w1 = check_start ob w
        in if w_state w1 = NOT_STARTED \<or> w_state w1 = ERROR then w1 else check_end ob w1)"

text \<open>\<^verbatim>\<open>wait\<close> makes the current stream wait for the end event, unless the work is over.\<close>

datatype wait_result = AlreadyDone | StreamWaits | WaitFailed

definition work_wait :: "bool \<Rightarrow> work \<Rightarrow> wait_result" where
  "work_wait cuda_ok w = (if terminal (w_state w) then AlreadyDone else if cuda_ok then StreamWaits else WaitFailed)"

text \<open>A completed work releases the tensors of the first constructor, not the tensor of the second.\<close>

lemma single_input_kept: "w_input (checkStatus ob w) = w_input w"
  by (simp add: checkStatus_def check_start_def check_end_def Let_def split: cudaStatus.split)

section \<open>The queues\<close>

type_synonym store = "nat \<Rightarrow> work"

text \<open>One queue per stream, in the order the hash map is iterated in.\<close>

type_synonym queues = "(nat \<times> nat list) list"

text \<open>The inner loop: the store, the rest of the queue, the last status and whether to return it at once.\<close>

fun gc_queue :: "(nat \<Rightarrow> obs) \<Rightarrow> store \<Rightarrow> nat list \<Rightarrow> WorkStatus \<Rightarrow> store \<times> nat list \<times> WorkStatus \<times> bool" where
  "gc_queue ob ws [] st0 = (ws, [], st0, False)"
| "gc_queue ob ws (w # q) st0 =
     (let wk = checkStatus (ob w) (ws w); ws' = ws(w := wk); status = w_state wk
      in if status = COMPLETED then gc_queue ob ws' q status
         else if status = TIMEDOUT \<or> status = ERROR then (ws', w # q, status, True)
         else (ws', w # q, status, False))"

fun gc_queues :: "(nat \<Rightarrow> obs) \<Rightarrow> store \<Rightarrow> queues \<Rightarrow> WorkStatus \<Rightarrow> store \<times> queues \<times> WorkStatus" where
  "gc_queues ob ws [] st0 = (ws, [], st0)"
| "gc_queues ob ws ((s, q) # qs) st0 =
     (case gc_queue ob ws q st0 of (ws1, q1, st, stop) \<Rightarrow>
        if stop then (ws1, (s, q1) # qs, st)
        else (case gc_queues ob ws1 qs st of (ws2, qs2, st2) \<Rightarrow>
                (ws2, if q1 = [] then qs2 else (s, q1) # qs2, st2)))"

definition garbageCollectLocked :: "(nat \<Rightarrow> obs) \<Rightarrow> store \<times> queues \<Rightarrow> WorkStatus \<times> store \<times> queues" where
  "garbageCollectLocked ob s =
     (case gc_queues ob (fst s) (snd s) COMPLETED of (ws, qs, st) \<Rightarrow> (st, ws, qs))"

definition garbageCollect :: "(nat \<Rightarrow> obs) \<Rightarrow> store \<times> queues \<Rightarrow> WorkStatus \<times> store \<times> queues" where
  "garbageCollect ob s = garbageCollectLocked ob s"

text \<open>
  \<^verbatim>\<open>finalize\<close> repeats passes until one reports a terminal status: \<open>obs\<close> has one answer per pass. \<open>None\<close> means
  that it is still looping after \<open>fuel\<close> passes.
\<close>

fun finalize_loop :: "nat \<Rightarrow> (nat \<Rightarrow> nat \<Rightarrow> obs) \<Rightarrow> nat \<Rightarrow> WorkStatus \<Rightarrow> store \<times> queues \<Rightarrow>
    (WorkStatus \<times> store \<times> queues) option" where
  "finalize_loop fuel ob n status (ws, []) = Some (status, ws, [])"
| "finalize_loop 0 ob n status (ws, q # qs) = None"
| "finalize_loop (Suc fuel) ob n status (ws, q # qs) =
     (case garbageCollectLocked (ob n) (ws, q # qs) of (st, s1) \<Rightarrow>
        if st = ERROR \<or> st = TIMEDOUT \<or> st = COMPLETED then Some (st, s1)
        else finalize_loop fuel ob (n + 1) st s1)"

definition finalize :: "nat \<Rightarrow> (nat \<Rightarrow> nat \<Rightarrow> obs) \<Rightarrow> store \<times> queues \<Rightarrow> (WorkStatus \<times> store \<times> queues) option" where
  "finalize fuel ob s =
     map_option (\<lambda>r. (fst r, fst (snd r), [])) (finalize_loop fuel ob 0 COMPLETED s)"

text \<open>\<open>pos\<close> is where the hash map iterates over a stream that is new to it.\<close>

definition enqueueWork :: "nat \<Rightarrow> nat \<Rightarrow> nat \<Rightarrow> queues \<Rightarrow> queues" where
  "enqueueWork pos w stream qs =
     (if stream \<in> fst ` set qs then map (\<lambda>(s, q). if s = stream then (s, q @ [w]) else (s, q)) qs
      else take pos qs @ (stream, [w]) # drop pos qs)"

section \<open>The life of a work object\<close>

text \<open>Has the start been recorded exactly for works in progress or later?\<close>

definition work_ok :: "work \<Rightarrow> bool" where
  "work_ok w \<longleftrightarrow> (w_state w = NOT_STARTED \<longrightarrow> w_start_time w = None) \<and>
     (w_state w \<in> {INPROGRESS, COMPLETED, TIMEDOUT} \<longrightarrow> w_start_time w \<noteq> None)"

lemma work_ok_new: "work_ok (work_new t xs y)"
  by (simp add: work_ok_def work_new_def)

lemma work_ok_check: "work_ok w \<Longrightarrow> work_ok (checkStatus ob w)"
  by (cases "o_start ob"; cases "o_end ob"; cases "w_state w")
     (auto simp: work_ok_def checkStatus_def check_start_def check_end_def Let_def terminal_def split: if_splits)

inductive checked :: "work \<Rightarrow> obs list \<Rightarrow> work \<Rightarrow> bool" for w0 where
  none: "checked w0 [] w0"
| check: "checked w0 obs w \<Longrightarrow> checked w0 (obs @ [ob]) (checkStatus ob w)"

lemma checked_ok: "checked w0 os w \<Longrightarrow> work_ok w0 \<Longrightarrow> work_ok w"
  by (induction rule: checked.induct) (simp_all add: work_ok_check)

text \<open>C33: the states of a work object only go forward, terminal states are final, and what a check concludes is
  justified: it completes only if the runtime said that the end event is done (then the tensors \<open>w_inputs\<close> are released), it times out
  only if the end event is not ready and the time since the start was seen exceeds the timeout, and
  an error comes from a failed query.\<close>

theorem work_states:
  assumes "checked (work_new t xs y) os w" "w' = checkStatus ob w"
  shows "(terminal (w_state w) \<longrightarrow> w' = w) \<and>
    (w_state w' = NOT_STARTED \<longrightarrow> w_state w = NOT_STARTED) \<and>
    (w_state w' = COMPLETED \<and> w_state w \<noteq> COMPLETED \<longrightarrow> o_end ob = cudaSuccess \<and> w_inputs w' = [] \<and>
       (o_start ob = cudaSuccess \<or> w_state w = INPROGRESS)) \<and>
    (w_state w' = TIMEDOUT \<and> w_state w \<noteq> TIMEDOUT \<longrightarrow> o_end ob = cudaErrorNotReady \<and>
       (\<exists>t0. w_start_time w' = Some t0 \<and> (o_now2 ob - t0) div 1000000 > w_timeout_ms w)) \<and>
    (w_state w' = ERROR \<and> w_state w \<noteq> ERROR \<longrightarrow> o_start ob = cudaErrorOther \<or> o_end ob = cudaErrorOther)"
proof -
  have "work_ok w" using checked_ok [OF assms(1)] work_ok_new by blast
  then show ?thesis
    unfolding assms(2)
    by (cases "o_start ob"; cases "o_end ob"; cases "w_state w")
       (auto simp: work_ok_def checkStatus_def check_start_def check_end_def Let_def terminal_def split: if_splits)
qed

theorem work_states_witness:
  "w_state (checkStatus \<lparr>o_start = cudaSuccess, o_end = cudaErrorNotReady, o_now1 = 0, o_now2 = 31000000\<rparr> (work_new 30 [7] None)) = TIMEDOUT \<and>
   (\<exists>t0. w_start_time (checkStatus \<lparr>o_start = cudaSuccess, o_end = cudaErrorNotReady, o_now1 = 0, o_now2 = 31000000\<rparr> (work_new 30 [7] None)) = Some t0)"
proof -
  let ?ob = "\<lparr>o_start = cudaSuccess, o_end = cudaErrorNotReady, o_now1 = 0, o_now2 = 31000000\<rparr>"
  have t: "w_state (checkStatus ?ob (work_new 30 [7] None)) = TIMEDOUT" by code_simp
  have n: "w_state (work_new 30 [7] None) \<noteq> TIMEDOUT" by (simp add: work_new_def)
  from work_states [OF checked.none [of "work_new 30 [7] None"] refl, of ?ob] t n show ?thesis by blast
qed

section \<open>One pass over the queues\<close>

definition ids :: "queues \<Rightarrow> nat list" where
  "ids qs = concat (map snd qs)"

text \<open>Streams and works are in the queues once.\<close>

definition queues_ok :: "queues \<Rightarrow> bool" where
  "queues_ok qs \<longleftrightarrow> distinct (map fst qs) \<and> distinct (ids qs)"

definition pending :: "nat \<Rightarrow> queues \<Rightarrow> nat list" where
  "pending s qs = (case map_of qs s of None \<Rightarrow> [] | Some q \<Rightarrow> q)"

lemma ids_Cons [simp]: "ids ((s, q) # qs) = q @ ids qs"
  by (simp add: ids_def)

lemma gc_queue_spec:
  assumes "gc_queue ob ws q st0 = (ws', q', st, stop)" "distinct q"
  shows "(\<forall>w. w \<notin> set q \<longrightarrow> ws' w = ws w) \<and>
    (\<exists>dn. q = dn @ q' \<and> (\<forall>w \<in> set dn. w_state (ws' w) = COMPLETED)) \<and>
    (stop \<longleftrightarrow> q' \<noteq> [] \<and> (st = TIMEDOUT \<or> st = ERROR)) \<and>
    (q' \<noteq> [] \<longrightarrow> w_state (ws' (hd q')) = st \<and> st \<noteq> COMPLETED) \<and>
    (q' = [] \<longrightarrow> st = (if q = [] then st0 else COMPLETED)) \<and>
    (\<forall>w \<in> set q. ws' w = ws w \<or> ws' w = checkStatus (ob w) (ws w))"
  using assms
proof (induction ob ws q st0 arbitrary: ws' rule: gc_queue.induct)
  case (1 ob ws st0)
  then show ?case by auto
next
  case (2 ob ws w q st0)
  let ?wk = "checkStatus (ob w) (ws w)"
  show ?case
  proof (cases "w_state ?wk = COMPLETED")
    case True
    then have r: "gc_queue ob (ws(w := ?wk)) q COMPLETED = (ws', q', st, stop)"
      using "2.prems"(1) by (simp add: Let_def)
    have "distinct q" "w \<notin> set q" using "2.prems"(2) by simp_all
    note IH = "2.IH" [OF refl refl refl True r [folded True] this(1)]
    then obtain dn where dn: "q = dn @ q'" "\<forall>v \<in> set dn. w_state (ws' v) = COMPLETED" by blast
    have "ws' w = ?wk" using IH \<open>w \<notin> set q\<close> by auto
    moreover have "w # q = (w # dn) @ q'" "\<forall>v \<in> set (w # dn). w_state (ws' v) = COMPLETED"
      using dn True \<open>ws' w = ?wk\<close> by simp_all
    moreover have "ws' v = ws v \<or> ws' v = checkStatus (ob v) (ws v)" if "v \<in> set q" for v
      using IH that \<open>w \<notin> set q\<close> by (metis fun_upd_apply)
    ultimately show ?thesis using IH by (auto simp: if_split [of "\<lambda>x. st = x"])
  next
    case False
    then show ?thesis
      using "2.prems"(1) by (cases "w_state ?wk") (auto simp: Let_def intro: exI [of _ "[]"])
  qed
qed

lemma gc_queues_spec:
  assumes "gc_queues ob ws qs st0 = (ws', qs', st)" "distinct (ids qs)"
  shows "(\<forall>w. w \<notin> set (ids qs) \<longrightarrow> ws' w = ws w) \<and> set (map fst qs') \<subseteq> set (map fst qs) \<and>
    (distinct (map fst qs) \<longrightarrow> (\<forall>(s, q) \<in> set qs. \<exists>dn. q = dn @ pending s qs' \<and> (\<forall>w \<in> set dn. w_state (ws' w) = COMPLETED))) \<and>
    (if st = TIMEDOUT \<or> st = ERROR
     then st = st0 \<or> (\<exists>(s, q) \<in> set qs'. q \<noteq> [] \<and> w_state (ws' (hd q)) = st)
     else (\<forall>(s, q) \<in> set qs'. q \<noteq> [] \<and> w_state (ws' (hd q)) \<in> {NOT_STARTED, INPROGRESS}))"
  using assms
proof (induction ob ws qs st0 arbitrary: ws' qs' st rule: gc_queues.induct)
  case (1 ob ws st0)
  then show ?case by auto
next
  case (2 ob ws s q qs st0)
  obtain ws1 q1 st1 stop where g: "gc_queue ob ws q st0 = (ws1, q1, st1, stop)" by (metis prod_cases4)
  have d: "distinct q" "distinct (ids qs)" "set q \<inter> set (ids qs) = {}" using "2.prems"(2) by auto
  note G = gc_queue_spec [OF g d(1)]
  then obtain dn where dn: "q = dn @ q1" "\<forall>w \<in> set dn. w_state (ws1 w) = COMPLETED" by blast
  show ?case
  proof (cases stop)
    case True
    then have r: "ws' = ws1" "qs' = (s, q1) # qs" "st = st1" using "2.prems"(1) g by simp_all
    have "\<exists>dn'. q' = dn' @ pending s' qs' \<and> (\<forall>w \<in> set dn'. w_state (ws' w) = COMPLETED)"
      if "distinct (map fst ((s, q) # qs))" "(s', q') \<in> set ((s, q) # qs)" for s' q'
    proof (cases "s' = s")
      case True
      have "q' = q" using that True by (auto simp: image_iff)
      then show ?thesis using True dn r by (auto simp: pending_def)
    next
      case False
      then have "pending s' qs' = q'" using that r by (auto simp: pending_def)
      then show ?thesis by simp
    qed
    moreover have "st = TIMEDOUT \<or> st = ERROR" "q1 \<noteq> []" "w_state (ws1 (hd q1)) = st" using G True r by auto
    ultimately show ?thesis using G r by auto
  next
    case False
    obtain ws2 qs2 st2 where g2: "gc_queues ob ws1 qs st1 = (ws2, qs2, st2)" by (metis prod_cases3)
    have r: "ws' = ws2" "qs' = (if q1 = [] then qs2 else (s, q1) # qs2)" "st = st2"
      using "2.prems"(1) g False g2 by simp_all
    note IH = "2.IH" [OF g [symmetric] refl refl False g2 d(2)]
    have keep: "ws2 w = ws1 w" if "w \<in> set q" for w using IH d(3) that by auto
    have "\<exists>dn'. q' = dn' @ pending s' qs' \<and> (\<forall>w \<in> set dn'. w_state (ws' w) = COMPLETED)"
      if dk: "distinct (map fst ((s, q) # qs))" and m: "(s', q') \<in> set ((s, q) # qs)" for s' q'
    proof (cases "s' = s")
      case True
      have "q' = q" using dk m True by (auto simp: image_iff)
      moreover have "map_of qs2 s = None"
        using IH dk by (auto simp: map_of_eq_None_iff)
      ultimately have "pending s' qs' = q1" using True r by (auto simp: pending_def)
      then show ?thesis using \<open>q' = q\<close> dn keep r by auto
    next
      case f: False
      then have "(s', q') \<in> set qs" using m by auto
      moreover have "pending s' qs' = pending s' qs2" using r f by (auto simp: pending_def)
      ultimately show ?thesis using IH dk r by auto
    qed
    moreover have fr: "\<forall>w. w \<notin> set (ids ((s, q) # qs)) \<longrightarrow> ws' w = ws w"
      using IH G r by simp
    moreover have "set (map fst qs') \<subseteq> set (map fst ((s, q) # qs))" using IH r by auto
    moreover have hd1: "w_state (ws' (hd q1)) \<in> {NOT_STARTED, INPROGRESS}" if "q1 \<noteq> []"
    proof -
      have "hd q1 \<in> set q" using dn that by auto
      then have "w_state (ws' (hd q1)) = st1" using G keep r that by simp
      with G False that show ?thesis by (cases st1) auto
    qed
    moreover have "st = st0 \<or> (\<exists>(s, q) \<in> set qs'. q \<noteq> [] \<and> w_state (ws' (hd q)) = st)" if e: "st = TIMEDOUT \<or> st = ERROR"
    proof (cases "st = st1")
      case True
      with e G False have "q1 = []" by auto
      with G True e show ?thesis by (auto split: if_splits)
    next
      case f: False
      with IH e r have "\<exists>(s, q) \<in> set qs2. q \<noteq> [] \<and> w_state (ws2 (hd q)) = st" by auto
      then show ?thesis using r by auto
    qed
    moreover have "\<forall>(s, q) \<in> set qs'. q \<noteq> [] \<and> w_state (ws' (hd q)) \<in> {NOT_STARTED, INPROGRESS}"
      if e: "\<not> (st = TIMEDOUT \<or> st = ERROR)"
    proof -
      have "\<forall>(s, q) \<in> set qs2. q \<noteq> [] \<and> w_state (ws2 (hd q)) \<in> {NOT_STARTED, INPROGRESS}"
        using IH e r(3) by (simp only: if_False) blast
      with hd1 r show ?thesis by auto
    qed
    ultimately show ?thesis by auto
  qed
qed

lemma garbage_collect_spec:
  assumes "queues_ok qs" "garbageCollect ob (ws, qs) = (st, ws', qs')"
  shows "(\<forall>(s, q) \<in> set qs. \<exists>dn. q = dn @ pending s qs' \<and> (\<forall>w \<in> set dn. isCompleted (ws' w))) \<and>
    (if st = TIMEDOUT \<or> st = ERROR then \<exists>(s, q) \<in> set qs'. q \<noteq> [] \<and> w_state (ws' (hd q)) = st
     else \<forall>(s, q) \<in> set qs'. q \<noteq> [] \<and> w_state (ws' (hd q)) \<in> {NOT_STARTED, INPROGRESS})"
proof -
  have g: "gc_queues ob ws qs COMPLETED = (ws', qs', st)"
    using assms(2) by (auto simp: garbageCollect_def garbageCollectLocked_def split: prod.splits)
  have d: "distinct (ids qs)" "distinct (map fst qs)" using assms(1) by (simp_all add: queues_ok_def)
  show ?thesis
    using gc_queues_spec [OF g d(1)] d(2) by (auto simp: isCompleted_def split: if_splits)
qed

lemma garbage_collect_heads:
  assumes "queues_ok qs" "garbageCollect ob (ws, qs) = (st, ws', qs')" "st \<noteq> TIMEDOUT" "st \<noteq> ERROR"
  shows "\<forall>(s, q) \<in> set qs'. q \<noteq> [] \<and> w_state (ws' (hd q)) \<in> {NOT_STARTED, INPROGRESS}"
  using garbage_collect_spec [OF assms(1,2)] assms(3,4) by simp

text \<open>C34: a pass removes from each stream's queue only completed works from the front, in the order they were enqueued.
  If it reports an error or a timeout, the work at the head of some queue has that status; otherwise every queue left is
  non-empty and its head has not started or is in progress.\<close>

theorem garbage_collect_fifo:
  assumes "queues_ok qs" "garbageCollect ob (ws, qs) = (st, ws', qs')"
  shows "(\<forall>(s, q) \<in> set qs. \<exists>dn. q = dn @ pending s qs' \<and> (\<forall>w \<in> set dn. isCompleted (ws' w))) \<and>
    (if st = TIMEDOUT \<or> st = ERROR then \<exists>(s, q) \<in> set qs'. q \<noteq> [] \<and> w_state (ws' (hd q)) = st
     else \<forall>(s, q) \<in> set qs'. q \<noteq> [] \<and> w_state (ws' (hd q)) \<in> {NOT_STARTED, INPROGRESS})"
  by (rule garbage_collect_spec [OF assms])

definition ob_done :: obs where "ob_done = \<lparr>o_start = cudaSuccess, o_end = cudaSuccess, o_now1 = 5, o_now2 = 6\<rparr>"
definition ob_busy :: obs where "ob_busy = \<lparr>o_start = cudaSuccess, o_end = cudaErrorNotReady, o_now1 = 5, o_now2 = 6\<rparr>"

theorem garbage_collect_fifo_witness:
  "fst (garbageCollect (\<lambda>w. if w = 1 then ob_done else ob_busy) (\<lambda>_. work_new 30 [] None, [(0, [1, 2])])) = INPROGRESS \<and>
   pending 0 (snd (snd (garbageCollect (\<lambda>w. if w = 1 then ob_done else ob_busy) (\<lambda>_. work_new 30 [] None, [(0, [1, 2])])))) = [2] \<and>
   isCompleted (fst (snd (garbageCollect (\<lambda>w. if w = 1 then ob_done else ob_busy) (\<lambda>_. work_new 30 [] None, [(0, [1, 2])]))) 1)"
proof -
  let ?g = "garbageCollect (\<lambda>w. if w = 1 then ob_done else ob_busy) (\<lambda>_. work_new 30 [] None, [(0, [1, 2])])"
  have e: "?g = (fst ?g, fst (snd ?g), snd (snd ?g))" by simp
  have v: "fst ?g = INPROGRESS" "pending 0 (snd (snd ?g)) = [2]" by code_simp+
  have "queues_ok [(0, [1, 2])]" by (simp add: queues_ok_def ids_def)
  from conjunct1 [OF garbage_collect_fifo [OF this e]] v show ?thesis by (auto simp: Cons_eq_append_conv)
qed

section \<open>Finalisation\<close>

lemma checkStatus_done:
  assumes "work_ok w" "o_start ob = cudaSuccess" "o_end ob = cudaSuccess"
  shows "terminal (w_state (checkStatus ob w))"
  using assms by (cases "w_state w")
    (auto simp: checkStatus_def check_start_def check_end_def terminal_def work_ok_def Let_def)

lemma gc_queue_ok: "\<forall>w. work_ok (ws w) \<Longrightarrow> gc_queue ob ws q st0 = (ws', q', st, stop) \<Longrightarrow> \<forall>w. work_ok (ws' w)"
  by (induction ob ws q st0 rule: gc_queue.induct) (auto simp: Let_def work_ok_check split: if_splits)

lemma gc_queues_ok: "\<forall>w. work_ok (ws w) \<Longrightarrow> gc_queues ob ws qs st0 = (ws', qs', st) \<Longrightarrow> \<forall>w. work_ok (ws' w)"
proof (induction ob ws qs st0 arbitrary: ws' qs' st rule: gc_queues.induct)
  case (1 ob ws st0)
  then show ?case by simp
next
  case (2 ob ws s q qs st0)
  obtain ws1 q1 st1 stop where g: "gc_queue ob ws q st0 = (ws1, q1, st1, stop)" by (metis prod_cases4)
  note ok = gc_queue_ok [OF "2.prems"(1) g]
  show ?case
  proof (cases stop)
    case True
    then show ?thesis using "2.prems" g ok by auto
  next
    case False
    obtain ws2 qs2 st2 where g2: "gc_queues ob ws1 qs st1 = (ws2, qs2, st2)" by (metis prod_cases3)
    from "2.IH" [OF g [symmetric] refl refl False ok g2] "2.prems"(2) g False g2 show ?thesis by auto
  qed
qed

lemma gc_queue_terminal:
  "\<forall>w. work_ok (ws w) \<Longrightarrow> \<forall>w. o_start (ob w) = cudaSuccess \<and> o_end (ob w) = cudaSuccess \<Longrightarrow> terminal st0 \<Longrightarrow>
   gc_queue ob ws q st0 = (ws', q', st, stop) \<Longrightarrow> terminal st \<and> (\<not> stop \<longrightarrow> q' = [])"
proof (induction ob ws q st0 rule: gc_queue.induct)
  case (1 ob ws st0)
  then show ?case by simp
next
  case (2 ob ws w q st0)
  let ?wk = "checkStatus (ob w) (ws w)"
  have t: "terminal (w_state ?wk)" using "2.prems"(1,2) by (intro checkStatus_done) simp_all
  show ?case
  proof (cases "w_state ?wk = COMPLETED")
    case True
    have "\<forall>v. work_ok ((ws(w := ?wk)) v)" using "2.prems"(1) by (simp add: work_ok_check)
    from "2.IH" [OF refl refl refl True this "2.prems"(2) t] "2.prems"(4) True show ?thesis by (simp add: Let_def fun_upd_def)
  next
    case False
    then show ?thesis using t "2.prems"(4) by (auto simp: Let_def terminal_def)
  qed
qed

lemma gc_queues_terminal:
  "\<forall>w. work_ok (ws w) \<Longrightarrow> \<forall>w. o_start (ob w) = cudaSuccess \<and> o_end (ob w) = cudaSuccess \<Longrightarrow> terminal st0 \<Longrightarrow>
   gc_queues ob ws qs st0 = (ws', qs', st) \<Longrightarrow> terminal st"
proof (induction ob ws qs st0 arbitrary: ws' qs' st rule: gc_queues.induct)
  case (1 ob ws st0)
  then show ?case by simp
next
  case (2 ob ws s q qs st0)
  obtain ws1 q1 st1 stop where g: "gc_queue ob ws q st0 = (ws1, q1, st1, stop)" by (metis prod_cases4)
  note t = gc_queue_terminal [OF "2.prems"(1,2,3) g]
  show ?case
  proof (cases stop)
    case True
    then show ?thesis using "2.prems" g t by auto
  next
    case False
    obtain ws2 qs2 st2 where g2: "gc_queues ob ws1 qs st1 = (ws2, qs2, st2)" by (metis prod_cases3)
    from "2.IH" [OF g [symmetric] refl refl False gc_queue_ok [OF "2.prems"(1) g] "2.prems"(2) _ g2] t "2.prems"(4) g False g2
    show ?thesis by auto
  qed
qed

lemma finalize_loop_terminates:
  assumes "\<forall>w. work_ok (ws w)" "n \<le> m" "m < n + fuel" "\<forall>w. o_start (ob m w) = cudaSuccess \<and> o_end (ob m w) = cudaSuccess"
  shows "\<exists>r. finalize_loop fuel ob n st0 (ws, qs) = Some r"
  using assms
proof (induction fuel ob n st0 "(ws, qs)" arbitrary: ws qs rule: finalize_loop.induct)
  case (1 fuel ob n status ws)
  then show ?case by simp
next
  case (2 ob n status ws q qs)
  then show ?case by simp
next
  case (3 fuel ob n status ws q qs)
  obtain st ws1 qs1 where g: "garbageCollectLocked (ob n) (ws, q # qs) = (st, ws1, qs1)" by (metis prod_cases3)
  then have gq: "gc_queues (ob n) ws (q # qs) COMPLETED = (ws1, qs1, st)"
    by (auto simp: garbageCollectLocked_def split: prod.splits)
  show ?case
  proof (cases "st = ERROR \<or> st = TIMEDOUT \<or> st = COMPLETED")
    case True
    then show ?thesis using g by simp
  next
    case False
    then have "n \<noteq> m" using gc_queues_terminal [OF "3.prems"(1) _ _ gq] "3.prems"(4) by (auto simp: terminal_def)
    with "3.prems" have "n + 1 \<le> m" "m < n + 1 + fuel" by simp_all
    with "3.hyps" [OF g [symmetric] False gc_queues_ok [OF "3.prems"(1) gq]] "3.prems"(4) show ?thesis
      using g False by simp
  qed
qed

lemma finalize_loop_single:
  assumes "finalize_loop fuel ob n st0 (ws, qs) = Some (COMPLETED, ws', qs')" "length qs \<le> 1" "distinct (ids qs)"
  shows "(\<forall>w \<in> set (ids qs). w_state (ws' w) = COMPLETED) \<and> (\<forall>w. w \<notin> set (ids qs) \<longrightarrow> ws' w = ws w)"
  using assms
proof (induction fuel ob n st0 "(ws, qs)" arbitrary: ws qs rule: finalize_loop.induct)
  case (1 fuel ob n status ws)
  then show ?case by (simp add: ids_def)
next
  case (2 ob n status ws q qs)
  then show ?case by simp
next
  case (3 fuel ob n status ws q qs)
  obtain s p where sp: "q # qs = [(s, p)]" using "3.prems"(2) by (cases q) auto
  obtain st ws1 qs1 where g: "garbageCollectLocked (ob n) (ws, q # qs) = (st, ws1, qs1)" by (metis prod_cases3)
  then have gq: "gc_queues (ob n) ws [(s, p)] COMPLETED = (ws1, qs1, st)"
    using sp by (auto simp: garbageCollectLocked_def split: prod.splits)
  obtain wsa pa sta stop where ga: "gc_queue (ob n) ws p COMPLETED = (wsa, pa, sta, stop)" by (metis prod_cases4)
  have dp: "distinct p" using "3.prems"(3) sp by simp
  note G = gc_queue_spec [OF ga dp]
  then obtain dn where dn: "p = dn @ pa" "\<forall>w \<in> set dn. w_state (wsa w) = COMPLETED" by blast
  have r: "ws1 = wsa" "st = sta" "qs1 = (if pa = [] then [] else [(s, pa)])"
    using gq ga G by (auto split: if_splits)
  have idsq: "ids (q # qs) = p" using sp by (simp add: ids_def)
  show ?case
  proof (cases "st = ERROR \<or> st = TIMEDOUT \<or> st = COMPLETED")
    case True
    then have "st = COMPLETED" "ws' = ws1" using "3.prems"(1) g by simp_all
    moreover then have "pa = []" using G r by auto
    ultimately show ?thesis using G dn r idsq by auto
  next
    case False
    have rec: "finalize_loop fuel ob (n + 1) st (ws1, qs1) = Some (COMPLETED, ws', qs')" using "3.prems"(1) g False by simp
    have "length qs1 \<le> 1" "distinct (ids qs1)" using r dp dn by (auto simp: ids_def)
    note IH = "3.hyps" [OF g [symmetric] False rec this]
    have "w_state (ws' w) = COMPLETED" if "w \<in> set p" for w
    proof (cases "w \<in> set (ids qs1)")
      case True
      then show ?thesis using IH by blast
    next
      case f: False
      then have "w \<in> set dn" using that dn r by (auto simp: ids_def split: if_splits)
      then show ?thesis using IH f dn r by simp
    qed
    moreover have "ws' w = ws w" if "w \<notin> set p" for w
      using IH that G r dn by (auto simp: ids_def split: if_splits)
    ultimately show ?thesis using idsq by simp
  qed
qed

text \<open>C35: \<open>finalize\<close> returns as soon as there is a pass in which the runtime says of every work that it is done,
  with the queues empty; and for works of a single stream, a result of \<open>COMPLETED\<close> means that all of them completed.\<close>

theorem finalize_returns:
  assumes "\<forall>w. work_ok (ws w)" "m < fuel" "\<forall>w. o_start (ob m w) = cudaSuccess \<and> o_end (ob m w) = cudaSuccess"
  shows "\<exists>st ws'. finalize fuel ob (ws, qs) = Some (st, ws', []) \<and>
    (length qs \<le> 1 \<and> distinct (ids qs) \<and> st = COMPLETED \<longrightarrow> (\<forall>w \<in> set (ids qs). isCompleted (ws' w)))"
proof -
  obtain st ws' qs' where r: "finalize_loop fuel ob 0 COMPLETED (ws, qs) = Some (st, ws', qs')"
    using finalize_loop_terminates [OF assms(1), of 0 m fuel ob COMPLETED qs] assms(2,3) by auto
  then have "finalize fuel ob (ws, qs) = Some (st, ws', [])" by (simp add: finalize_def)
  then show ?thesis using finalize_loop_single [of fuel ob 0 COMPLETED ws qs ws' qs'] r by (auto simp: isCompleted_def)
qed

theorem finalize_returns_witness:
  "\<exists>ws'. finalize 2 (\<lambda>n w. if n = 0 then ob_busy else ob_done) (\<lambda>_. work_new 30 [] None, [(0, [1, 2])]) = Some (COMPLETED, ws', []) \<and>
     isCompleted (ws' 2)"
proof -
  let ?ob = "\<lambda>n w. if n = 0 then ob_busy else ob_done :: obs"
  let ?f = "finalize 2 ?ob (\<lambda>_. work_new 30 [] None, [(0, [1, 2])])"
  have st: "map_option fst ?f = Some COMPLETED" by code_simp
  have "\<exists>st ws'. ?f = Some (st, ws', []) \<and> (length [(0 :: nat, [1, 2 :: nat])] \<le> 1 \<and> distinct (ids [(0, [1, 2])]) \<and> st = COMPLETED \<longrightarrow>
      (\<forall>w \<in> set (ids [(0, [1, 2])]). isCompleted (ws' w)))"
    by (rule finalize_returns [where m = 1]) (simp_all add: work_ok_new ob_done_def)
  with st show ?thesis by (auto simp: ids_def)
qed

text \<open>with two streams \<open>finalize\<close> can report \<open>COMPLETED\<close> and drop the queues while a work is still in progress: a pass
  returns the status of the last work it looked at, whatever the other streams are doing.\<close>

theorem finalize_drops_pending:
  "\<exists>ws'. finalize 1 (\<lambda>n w. if w = 1 then ob_busy else ob_done) (\<lambda>_. work_new 30 [] None, [(0, [1]), (5, [2])]) =
     Some (COMPLETED, ws', []) \<and> w_state (ws' 1) = INPROGRESS"
proof -
  let ?f = "finalize 1 (\<lambda>n w. if w = 1 then ob_busy else ob_done) (\<lambda>_. work_new 30 [] None, [(0, [1]), (5, [2])])"
  have "(case ?f of Some (st, ws', qs') \<Rightarrow> st = COMPLETED \<and> qs' = [] \<and> w_state (ws' 1) = INPROGRESS | None \<Rightarrow> False)"
    by code_simp
  then show ?thesis by (auto split: option.splits)
qed

end
