(* ===== verification/Torch_Comm.thy ===== *)
theory Torch_Comm imports Work_Queue begin

text \<open>
  The life of a communicator: initialisation hints, the timeout watchdog, the event pool and finalisation of
  \<^verbatim>\<open>comms/torchcomms/nccl/TorchCommNCCL.cpp\<close> and \<^verbatim>\<open>TorchCommNCCLUtils.cpp\<close>, and the environment parsing of
  \<^verbatim>\<open>comms/torchcomms/TorchCommUtils.cpp\<close>. What the CUDA runtime answers is an argument.
\<close>

section \<open>Environment values\<close>

definition to_lower :: "char \<Rightarrow> char" where
  "to_lower c = (if 65 \<le> (of_char c :: nat) \<and> (of_char c :: nat) \<le> 90 then char_of (of_char c + 32 :: nat) else c)"

definition string_to_bool :: "string \<Rightarrow> string + bool" where
  "string_to_bool str =
     (let l = map to_lower str;
          is_true = (l = ''1'' \<or> l = ''true'' \<or> l = ''yes'' \<or> l = ''y'');
          is_false = (l = ''0'' \<or> l = ''false'' \<or> l = ''no'' \<or> l = ''n'')
      in if \<not> is_true \<and> \<not> is_false then Inl (''Invalid value for string '' @ str) else Inr is_true)"

text \<open>
  The extraction of an \<^verbatim>\<open>int\<close> from a string stream that has to consume all of it: white space, an
  optional sign and decimal digits, in the range of the type.
\<close>

definition parse_int :: "string \<Rightarrow> int option" where
  "parse_int s =
     (let t = dropWhile is_space s;
          neg = (t \<noteq> [] \<and> hd t = CHR ''-'');
          d = (if t \<noteq> [] \<and> (hd t = CHR ''-'' \<or> hd t = CHR ''+'') then tl t else t);
          n = (if neg then - int (read_nat d) else int (read_nat d))
      in if d = [] \<or> \<not> list_all is_digit d \<or> n < - (2 ^ 31) \<or> 2 ^ 31 \<le> n then None else Some n)"

type_synonym env = "string \<Rightarrow> string option"

definition env_to_int :: "env \<Rightarrow> string \<Rightarrow> int \<Rightarrow> string + int" where
  "env_to_int env key dflt =
     (case env key of
        None \<Rightarrow> Inr dflt
      | Some v \<Rightarrow> (case parse_int v of
          None \<Rightarrow> Inl (''Invalid value for environment variable '' @ key @ '': '' @ v)
        | Some n \<Rightarrow> Inr n))"

definition env_to_bool :: "env \<Rightarrow> string \<Rightarrow> bool \<Rightarrow> string + bool" where
  "env_to_bool env key dflt = (case env key of None \<Rightarrow> Inr dflt | Some v \<Rightarrow> string_to_bool v)"

definition env_pair :: "env \<Rightarrow> string \<Rightarrow> string \<Rightarrow> string + int \<times> int" where
  "env_pair env k1 k2 = rbind (env_to_int env k1 (- 1)) (\<lambda>r. rbind (env_to_int env k2 (- 1)) (\<lambda>s. Inr (r, s)))"

definition both_set :: "int \<times> int \<Rightarrow> bool" where "both_set p \<longleftrightarrow> fst p \<noteq> - 1 \<and> snd p \<noteq> - 1"

definition ranksize_error :: string where
  "ranksize_error = ''Unable to determine rank and size from environment variables.''"

definition query_ranksize :: "env \<Rightarrow> string + int \<times> int" where
  "query_ranksize env =
     (let method = map to_lower (case env ''TORCHCOMM_BOOTSTRAP_RANKSIZE_QUERY_METHOD'' of None \<Rightarrow> ''auto'' | Some m \<Rightarrow> m);
          finish = (\<lambda>p :: int \<times> int. if fst p = - 1 \<or> snd p = - 1 then Inl ranksize_error else Inr p);
          torchrun = (\<lambda>p. if method = ''auto'' \<or> method = ''torchrun'' then rbind (env_pair env ''RANK'' ''WORLD_SIZE'') finish
                          else finish p)
      in rbind (env_pair env ''TORCHCOMM_RANK'' ''TORCHCOMM_SIZE'') (\<lambda>p0.
           if both_set p0 then finish p0
           else if method = ''auto'' \<or> method = ''mpi'' then
             rbind (env_pair env ''OMPI_COMM_WORLD_RANK'' ''OMPI_COMM_WORLD_SIZE'') (\<lambda>p1.
               if both_set p1 then finish p1
               else rbind (env_pair env ''PMI_RANK'' ''PMI_SIZE'') (\<lambda>p2.
                 if both_set p2 then finish p2 else torchrun p2))
           else torchrun p0))"

text \<open>
  What it promises: of the sources that the method allows, in this order, the first whose two variables are both set decides, or the
  first with a malformed variable, which is an error.
\<close>

definition ranksize_sources :: "string \<Rightarrow> (string \<times> string) list" where
  "ranksize_sources method =
     (''TORCHCOMM_RANK'', ''TORCHCOMM_SIZE'') #
     (if method = ''auto'' \<or> method = ''mpi''
      then [(''OMPI_COMM_WORLD_RANK'', ''OMPI_COMM_WORLD_SIZE''), (''PMI_RANK'', ''PMI_SIZE'')] else []) @
     (if method = ''auto'' \<or> method = ''torchrun'' then [(''RANK'', ''WORLD_SIZE'')] else [])"

definition env_value :: "env \<Rightarrow> string \<Rightarrow> int" where
  "env_value env k = (case env k of None \<Rightarrow> - 1 | Some v \<Rightarrow> (case parse_int v of None \<Rightarrow> - 1 | Some n \<Rightarrow> n))"

definition malformed :: "env \<Rightarrow> string \<Rightarrow> bool" where
  "malformed env k \<longleftrightarrow> (case env k of None \<Rightarrow> False | Some v \<Rightarrow> parse_int v = None)"

definition invalid_value :: "env \<Rightarrow> string \<Rightarrow> string" where
  "invalid_value env k = ''Invalid value for environment variable '' @ k @ '': '' @ the (env k)"

definition decides :: "env \<Rightarrow> string \<times> string \<Rightarrow> bool" where
  "decides env k \<longleftrightarrow> malformed env (fst k) \<or> malformed env (snd k) \<or> env_value env (fst k) \<noteq> - 1 \<and> env_value env (snd k) \<noteq> - 1"

definition ranksize_spec :: "env \<Rightarrow> string + int \<times> int" where
  "ranksize_spec env =
     (case find (decides env)
        (ranksize_sources (map to_lower (case env ''TORCHCOMM_BOOTSTRAP_RANKSIZE_QUERY_METHOD'' of None \<Rightarrow> ''auto'' | Some m \<Rightarrow> m))) of
       None \<Rightarrow> Inl ranksize_error
     | Some k \<Rightarrow> if malformed env (fst k) then Inl (invalid_value env (fst k))
                 else if malformed env (snd k) then Inl (invalid_value env (snd k))
                 else Inr (env_value env (fst k), env_value env (snd k)))"

lemma env_to_int_value: "env_to_int env k (- 1) = (if malformed env k then Inl (invalid_value env k) else Inr (env_value env k))"
  by (simp add: env_to_int_def malformed_def invalid_value_def env_value_def split: option.split)

lemma env_pair_value:
  "rbind (env_pair env k1 k2) f = (if malformed env k1 then Inl (invalid_value env k1)
     else if malformed env k2 then Inl (invalid_value env k2) else f (env_value env k1, env_value env k2))"
  by (simp add: env_pair_def env_to_int_value)

text \<open>One source after the other.\<close>

fun try_sources :: "env \<Rightarrow> (string \<times> string) list \<Rightarrow> string + int \<times> int" where
  "try_sources env [] = Inl ranksize_error"
| "try_sources env (k # ks) = rbind (env_pair env (fst k) (snd k)) (\<lambda>p. if both_set p then Inr p else try_sources env ks)"

lemma try_sources_find:
  "try_sources env ks =
     (case find (decides env) ks of
       None \<Rightarrow> Inl ranksize_error
     | Some k \<Rightarrow> if malformed env (fst k) then Inl (invalid_value env (fst k))
                 else if malformed env (snd k) then Inl (invalid_value env (snd k))
                 else Inr (env_value env (fst k), env_value env (snd k)))"
  by (induction ks) (simp_all add: env_pair_value decides_def both_set_def)

lemma finish_both:
  "(\<lambda>p. if fst p = - 1 \<or> snd p = - 1 then Inl ranksize_error else Inr p) = (\<lambda>p. if both_set p then Inr p else Inl ranksize_error)"
  by (auto simp: fun_eq_iff both_set_def)

text \<open>The query for rank and size looks at the pairs of variables TORCHCOMM, OpenMPI, MPICH, torchrun in this order, restricted by
  the method. The first pair of which both are set is the result; if one of a pair's variables does not hold a number before that,
  the query throws an error about this variable; if no pair is complete, it throws that it cannot determine them.\<close>

theorem query_ranksize_spec: "query_ranksize env = ranksize_spec env"
proof -
  define m where "m = map to_lower (case env ''TORCHCOMM_BOOTSTRAP_RANKSIZE_QUERY_METHOD'' of None \<Rightarrow> ''auto'' | Some m \<Rightarrow> m)"
  define A B C where "A = (m = ''auto'')" and "B = (m = ''mpi'')" and "C = (m = ''torchrun'')"
  have "query_ranksize env = try_sources env (ranksize_sources m)"
    unfolding query_ranksize_def Let_def m_def [symmetric] finish_both ranksize_sources_def A_def [symmetric] B_def [symmetric] C_def [symmetric]
    by (cases "A \<or> B"; cases "A \<or> C") (simp_all only: if_True if_False append_Nil append_Cons append_Nil2 try_sources.simps fst_conv snd_conv cong: if_cong)
  then show ?thesis unfolding try_sources_find ranksize_spec_def m_def .
qed

section \<open>The communicator\<close>

datatype InitState = UNINITIALIZED | INITIALIZED | FINALIZED
datatype CommState = NORMAL | COMM_ERROR | COMM_TIMEOUT

text \<open>\<open>nccl_comm\<close>, \<open>memory_hook\<close>: does the communicator, the registration with the allocator exist?\<close>

record tcomm =
  init_state :: InitState
  comm_state :: CommState
  shutdown :: bool
  nccl_comm :: bool
  memory_hook :: bool
  abort_process :: bool
  high_priority :: bool
  max_event_pool_size :: nat
  event_pool :: "nat list"
  barrier_buffer :: bool
  dependency_event :: bool
  internal_stream :: bool
  wstore :: store
  wqueues :: queues

datatype 'r tres = Returns 'r tcomm | Throws string tcomm | Aborts

text \<open>The hints of the constructor options, in iteration order. \<^verbatim>\<open>std::stoull\<close> is \<open>stoull\<close>.\<close>

definition hint_prefix :: string where "hint_prefix = ''torchcomm::nccl::''"

fun read_hints :: "(string \<times> string) list \<Rightarrow> bool \<Rightarrow> string option \<times> bool" where
  "read_hints [] hp = (None, hp)"
| "read_hints ((key, val) # hs) hp =
     (if take (length hint_prefix) key = hint_prefix then
        (if key = hint_prefix @ ''high_priority_stream'' then
           (case string_to_bool val of Inl e \<Rightarrow> (Some e, hp) | Inr b \<Rightarrow> read_hints hs b)
         else (Some (''Unrecognized hint '' @ key), hp))
      else read_hints hs hp)"

definition kDefaultMaxEventPoolSize :: nat where "kDefaultMaxEventPoolSize = 1000"

definition pool_size_hint :: "(string \<Rightarrow> nat option) \<Rightarrow> (string \<times> string) list \<Rightarrow> string + nat" where
  "pool_size_hint stoull hs =
     (case map_of hs (hint_prefix @ ''max_event_pool_size'') of
        Some v \<Rightarrow> (case stoull v of Some n \<Rightarrow> Inr n | None \<Rightarrow> Inl ''stoull'')
      | None \<Rightarrow> Inr kDefaultMaxEventPoolSize)"

text \<open>
  The first call checks and sets the state. Then the NCCL communicator is created, if there is none, and the device is looked at;
  the options are read; the streams, the event and the buffer are created; the event pool gets its size. \<open>boot_ok\<close> and
  \<open>ok n\<close> say whether the creation of the communicator and the CUDA and NCCL calls after it succeed.
\<close>

definition tc_init :: "bool \<Rightarrow> (nat \<Rightarrow> bool) \<Rightarrow> (string \<Rightarrow> nat option) \<Rightarrow> (string \<times> string) list \<Rightarrow> tcomm \<Rightarrow> unit tres" where
  "tc_init boot_ok ok stoull hints s =
     (if init_state s = INITIALIZED then Throws ''TorchCommNCCL already initialized'' s
      else if init_state s = FINALIZED then Throws ''TorchCommNCCL already finalized'' s
      else
        let s1 = s\<lparr>init_state := INITIALIZED\<rparr>
        in if \<not> boot_ok then Throws ''bootstrap'' s1
           else
             let s2 = s1\<lparr>nccl_comm := True\<rparr>
             in if \<not> ok 0 then Throws ''Failed to set CUDA device'' s2
                else if \<not> ok 1 then Throws ''Failed to get device properties'' s2
                else if \<not> ok 2 then Throws ''Failed to get memory info'' s2
                else case read_hints hints (high_priority s2) of (err, hp) \<Rightarrow>
                  let s3 = s2\<lparr>high_priority := hp\<rparr>
                  in (case err of
                        Some e \<Rightarrow> Throws e s3
                      | None \<Rightarrow>
                          if \<not> ok 3 then Throws ''Failed to create internal CUDA stream'' s3
                          else if \<not> ok 4 then Throws ''Failed to create dependency event'' (s3\<lparr>internal_stream := True\<rparr>)
                          else if \<not> ok 5 then Throws ''Failed to allocate barrier buffer'' (s3\<lparr>internal_stream := True, dependency_event := True\<rparr>)
                          else
                            let s4 = s3\<lparr>internal_stream := True, dependency_event := True, barrier_buffer := True\<rparr>
                            in (case pool_size_hint stoull hints of
                                  Inl e \<Rightarrow> Throws e s4
                                | Inr n \<Rightarrow>
                                    let s5 = s4\<lparr>max_event_pool_size := n\<rparr>
                                    in if \<not> ok 6 then Throws ''NCCL User Rank failed'' s5
                                       else if \<not> ok 7 then Throws ''NCCL Count failed'' s5
                                       else Returns () (s5\<lparr>memory_hook := True\<rparr>))))"

definition checkWorkQueue :: "(nat \<Rightarrow> obs) \<Rightarrow> tcomm \<Rightarrow> tcomm" where
  "checkWorkQueue ob s =
     (case garbageCollect ob (wstore s, wqueues s) of (status, ws, qs) \<Rightarrow>
        let s1 = s\<lparr>wstore := ws, wqueues := qs\<rparr>
        in (case status of
              TIMEDOUT \<Rightarrow> s1\<lparr>comm_state := COMM_TIMEOUT\<rparr>
            | ERROR \<Rightarrow> s1\<lparr>comm_state := COMM_ERROR\<rparr>
            | _ \<Rightarrow> s1))"

text \<open>One round of the watchdog thread after its wait; \<open>None\<close> is the end of the thread.\<close>

definition watchdog_round :: "(nat \<Rightarrow> obs) \<Rightarrow> tcomm \<Rightarrow> unit tres option" where
  "watchdog_round ob s =
     (if shutdown s then None
      else
        let s1 = checkWorkQueue ob s
        in if comm_state s1 \<noteq> NORMAL \<and> abort_process s1 then Some Aborts else Some (Returns () s1))"

definition abortNcclComm :: "tcomm \<Rightarrow> unit tres" where
  "abortNcclComm s =
     (let s1 = s\<lparr>memory_hook := False, nccl_comm := False\<rparr>
      in if abort_process s1 then Aborts else Returns () s1)"

text \<open>\<open>capture\<close> is the stream's capture mode, or \<open>None\<close> when the runtime cannot tell.\<close>

definition checkAndAbortIfTimedOutOrError :: "bool option \<Rightarrow> (nat \<Rightarrow> obs) \<Rightarrow> tcomm \<Rightarrow> unit tres" where
  "checkAndAbortIfTimedOutOrError capture ob s =
     (case capture of
        None \<Rightarrow> Throws ''Failed to check CUDA stream capture status'' s
      | Some True \<Rightarrow> Returns () s
      | Some False \<Rightarrow>
          let s1 = checkWorkQueue ob s
          in (case comm_state s1 of
                NORMAL \<Rightarrow> Returns () s1
              | COMM_TIMEOUT \<Rightarrow>
                  (case abortNcclComm s1 of
                     Returns _ s2 \<Rightarrow> if abort_process s2 then Aborts else Throws ''NCCL operation timed out'' s2
                   | r \<Rightarrow> r)
              | COMM_ERROR \<Rightarrow>
                  (case abortNcclComm s1 of
                     Returns _ s2 \<Rightarrow> if abort_process s2 then Aborts else Throws ''NCCL Async Error'' s2
                   | r \<Rightarrow> r)))"

text \<open>The event pool. A new event has the identity \<open>fresh\<close>.\<close>

definition getEvent :: "bool \<Rightarrow> nat \<Rightarrow> tcomm \<Rightarrow> nat tres" where
  "getEvent cuda_ok fresh s =
     (case event_pool s of
        e # p \<Rightarrow> Returns e (s\<lparr>event_pool := p\<rparr>)
      | [] \<Rightarrow> if cuda_ok then Returns fresh s else Throws ''Failed to create event'' s)"

definition returnEvent :: "bool \<Rightarrow> nat \<Rightarrow> tcomm \<Rightarrow> unit tres" where
  "returnEvent cuda_ok e s =
     (if length (event_pool s) < max_event_pool_size s then Returns () (s\<lparr>event_pool := event_pool s @ [e]\<rparr>)
      else if cuda_ok then Returns () s else Throws ''Failed to destroy event'' s)"

text \<open>
  The clean-up of \<^verbatim>\<open>finalize\<close>: \<open>ok n\<close> says whether the \<open>n\<close>-th CUDA call succeeds; a failed one throws.
\<close>

fun destroy_events :: "(nat \<Rightarrow> bool) \<Rightarrow> nat \<Rightarrow> nat list \<Rightarrow> nat \<times> nat list \<times> bool" where
  "destroy_events ok n [] = (n, [], True)"
| "destroy_events ok n (e # p) = (if ok n then destroy_events ok (n + 1) p else (n + 1, p, False))"

definition free_step :: "(nat \<Rightarrow> bool) \<Rightarrow> nat \<Rightarrow> bool \<Rightarrow> nat \<times> bool" where
  "free_step ok n present = (if present then (n + 1, ok n) else (n, True))"

definition tc_cleanup :: "(nat \<Rightarrow> bool) \<Rightarrow> tcomm \<Rightarrow> unit tres" where
  "tc_cleanup ok s =
     (case destroy_events ok 0 (event_pool s) of (n0, p, ok0) \<Rightarrow>
        let s0 = s\<lparr>event_pool := p\<rparr>
        in if \<not> ok0 then Throws ''Failed to destroy event'' s0
           else case free_step ok n0 (barrier_buffer s0) of (n1, ok1) \<Rightarrow>
             if \<not> ok1 then Throws ''Failed to free barrier buffer'' s0
             else
               let s1 = s0\<lparr>barrier_buffer := False\<rparr>
               in case free_step ok n1 (dependency_event s1) of (n2, ok2) \<Rightarrow>
                 if \<not> ok2 then Throws ''Failed to destroy dependency event'' s1
                 else
                   let s2 = s1\<lparr>dependency_event := False\<rparr>
                   in case free_step ok n2 (internal_stream s2) of (n3, ok3) \<Rightarrow>
                     if \<not> ok3 then Throws ''Failed to destroy internal stream'' s2
                     else
                       let s3 = s2\<lparr>internal_stream := False\<rparr>
                       in if nccl_comm s3 then Returns () (s3\<lparr>memory_hook := False, nccl_comm := False\<rparr>)
                          else Returns () s3)"

text \<open>
  A work that leaves the queue and that nobody else refers to is destroyed: it returns its two events to the pool, or destroys them
  when the pool is full. \<open>evs\<close> are the events that come back so, in order.
\<close>

definition return_events :: "nat \<Rightarrow> nat list \<Rightarrow> nat list \<Rightarrow> nat list" where
  "return_events m evs pool = fold (\<lambda>e p. if length p < m then p @ [e] else p) evs pool"

text \<open>\<open>None\<close>: the queue's finalisation is still looping after \<open>fuel\<close> passes.\<close>

definition tc_finalize :: "nat \<Rightarrow> (nat \<Rightarrow> nat \<Rightarrow> obs) \<Rightarrow> (nat \<Rightarrow> bool) \<Rightarrow> nat list \<Rightarrow> tcomm \<Rightarrow> unit tres option" where
  "tc_finalize fuel ob ok evs s =
     (case init_state s of
        UNINITIALIZED \<Rightarrow> Some (Throws ''TorchCommNCCL not initialized'' s)
      | FINALIZED \<Rightarrow> Some (Throws ''TorchCommNCCL already finalized'' s)
      | INITIALIZED \<Rightarrow>
          (case finalize fuel ob (wstore s, wqueues s) of
             None \<Rightarrow> None
           | Some (status, ws, qs) \<Rightarrow>
               let s1 = s\<lparr>init_state := FINALIZED, shutdown := True, wstore := ws, wqueues := qs,
                            event_pool := return_events (max_event_pool_size s) evs (event_pool s)\<rparr>
               in if status = NOT_STARTED \<or> status = INPROGRESS then
                    Some (Throws ''WorkQ finalize returned in progress or not started state'' s1)
                  else if status = TIMEDOUT then
                    (case abortNcclComm (s1\<lparr>comm_state := COMM_TIMEOUT\<rparr>) of
                       Returns _ s2 \<Rightarrow> Some (Throws ''Work timed out during finalize'' s2) | r \<Rightarrow> Some r)
                  else if status = ERROR then
                    (case abortNcclComm (s1\<lparr>comm_state := COMM_ERROR\<rparr>) of
                       Returns _ s2 \<Rightarrow> Some (Throws ''NCCL Async Error'' s2) | r \<Rightarrow> Some r)
                  else Some (tc_cleanup ok s1)))"

section \<open>Properties of the communicator\<close>

lemma gc_queues_nonterminal:
  assumes "gc_queues ob ws qs st0 = (ws', qs', st)" "distinct (ids qs)" "\<not> terminal st" "terminal st0"
  shows "qs' \<noteq> []"
  using assms
proof (induction ob ws qs st0 arbitrary: ws' qs' st rule: gc_queues.induct)
  case (1 ob ws st0)
  then show ?case by simp
next
  case (2 ob ws s q qs st0)
  obtain ws1 q1 st1 stop where g: "gc_queue ob ws q st0 = (ws1, q1, st1, stop)" by (metis prod_cases4)
  have d: "distinct q" "distinct (ids qs)" using "2.prems"(2) by auto
  note G = gc_queue_spec [OF g d(1)]
  obtain ws2 qs2 st2 where g2: "gc_queues ob ws1 qs st1 = (ws2, qs2, st2)" by (metis prod_cases3)
  show ?case
  proof (cases "stop \<or> q1 \<noteq> []")
    case True
    then show ?thesis using "2.prems"(1) g g2 by (auto split: if_splits)
  next
    case False
    then have "terminal st1" using G "2.prems"(4) by (auto simp: terminal_def split: if_splits)
    from "2.IH" [OF g [symmetric] refl refl _ g2 d(2) _ this] "2.prems" g g2 False show ?thesis by auto
  qed
qed

lemma ids_gc_queues:
  assumes "gc_queues ob ws qs st0 = (ws', qs', st)" "distinct (ids qs)"
  shows "distinct (ids qs') \<and> set (ids qs') \<subseteq> set (ids qs)"
  using assms
proof (induction ob ws qs st0 arbitrary: ws' qs' st rule: gc_queues.induct)
  case (1 ob ws st0)
  then show ?case by simp
next
  case (2 ob ws s q qs st0)
  obtain ws1 q1 st1 stop where g: "gc_queue ob ws q st0 = (ws1, q1, st1, stop)" by (metis prod_cases4)
  have d: "distinct q" "distinct (ids qs)" "set q \<inter> set (ids qs) = {}" using "2.prems"(2) by auto
  from gc_queue_spec [OF g d(1)] obtain dn where dn: "q = dn @ q1" by blast
  obtain ws2 qs2 st2 where g2: "gc_queues ob ws1 qs st1 = (ws2, qs2, st2)" by (metis prod_cases3)
  show ?case
  proof (cases stop)
    case True
    then show ?thesis using "2.prems" g dn by auto
  next
    case False
    note IH = "2.IH" [OF g [symmetric] refl refl False g2 d(2)]
    have "set q1 \<inter> set (ids qs2) = {}" using IH dn d by auto
    with IH "2.prems"(1) g g2 False dn d show ?thesis by (auto split: if_splits)
  qed
qed

lemma finalize_loop_terminal:
  "finalize_loop fuel ob n st0 (ws, qs) = Some (st, ws', qs') \<Longrightarrow> terminal st0 \<or> qs \<noteq> [] \<Longrightarrow> distinct (ids qs) \<Longrightarrow> terminal st"
proof (induction fuel ob n st0 "(ws, qs)" arbitrary: ws qs rule: finalize_loop.induct)
  case (1 fuel ob n status ws)
  then show ?case by simp
next
  case (2 ob n status ws q qs)
  then show ?case by simp
next
  case (3 fuel ob n status ws q qs)
  obtain st1 ws1 qs1 where g: "garbageCollectLocked (ob n) (ws, q # qs) = (st1, ws1, qs1)" by (metis prod_cases3)
  then have gq: "gc_queues (ob n) ws (q # qs) COMPLETED = (ws1, qs1, st1)"
    by (auto simp: garbageCollectLocked_def split: prod.splits)
  show ?case
  proof (cases "st1 = ERROR \<or> st1 = TIMEDOUT \<or> st1 = COMPLETED")
    case True
    then show ?thesis using g "3.prems"(1) by (auto simp: terminal_def)
  next
    case False
    then have "qs1 \<noteq> []" using gc_queues_nonterminal [OF gq "3.prems"(3)] by (auto simp: terminal_def)
    then show ?thesis
      using "3.hyps" [OF g [symmetric] False] "3.prems"(1) g False ids_gc_queues [OF gq "3.prems"(3)] by auto
  qed
qed

lemma destroy_events_ok: "destroy_events ok n p = (n', p', True) \<Longrightarrow> p' = []"
  by (induction p arbitrary: n) (auto split: if_splits)

text \<open>C36: finalising an initialised communicator never ends with work reported as not started or in progress. If it returns
  normally all resources are released, the work queues are empty and the status is unchanged; a second call is refused.
  The process is aborted only if the options ask for it.\<close>

theorem finalize_outcome:
  assumes "tc_finalize fuel ob ok evs s = Some r" "init_state s = INITIALIZED" "queues_ok (wqueues s)"
  shows "(case r of
      Returns _ s' \<Rightarrow> init_state s' = FINALIZED \<and> shutdown s' \<and> event_pool s' = [] \<and> \<not> barrier_buffer s' \<and>
        \<not> dependency_event s' \<and> \<not> internal_stream s' \<and> \<not> nccl_comm s' \<and> wqueues s' = [] \<and> comm_state s' = comm_state s \<and>
        tc_finalize fuel ob ok evs s' = Some (Throws ''TorchCommNCCL already finalized'' s')
    | Throws e s' \<Rightarrow> e \<noteq> ''WorkQ finalize returned in progress or not started state'' \<and> init_state s' = FINALIZED \<and> wqueues s' = [] \<and>
        (comm_state s' \<noteq> comm_state s \<longrightarrow> \<not> nccl_comm s' \<and> \<not> memory_hook s')
    | Aborts \<Rightarrow> abort_process s)"
proof -
  obtain status ws qs where f: "finalize fuel ob (wstore s, wqueues s) = Some (status, ws, qs)"
    using assms(1,2) by (auto simp: tc_finalize_def split: option.splits)
  then have qs: "qs = []" and "terminal status"
    using finalize_loop_terminal [of fuel ob 0 COMPLETED "wstore s" "wqueues s"] assms(3)
    by (auto simp: finalize_def terminal_def queues_ok_def)
  then consider "status = COMPLETED" | "status = TIMEDOUT" | "status = ERROR" by (auto simp: terminal_def)
  then show ?thesis
  proof cases
    case 1
    let ?s1 = "s\<lparr>init_state := FINALIZED, shutdown := True, wstore := ws, wqueues := [],
      event_pool := return_events (max_event_pool_size s) evs (event_pool s)\<rparr>"
    have r: "r = tc_cleanup ok ?s1" using assms(1,2) f qs 1 by (simp add: tc_finalize_def)
    show ?thesis
      using destroy_events_ok [of ok 0 "event_pool ?s1"] unfolding r
      by (cases "destroy_events ok 0 (event_pool ?s1)")
         (auto simp: tc_cleanup_def free_step_def Let_def tc_finalize_def)
  next
    case 2
    then show ?thesis using assms(1,2) f qs by (cases "abort_process s") (auto simp: tc_finalize_def abortNcclComm_def Let_def)
  next
    case 3
    then show ?thesis using assms(1,2) f qs by (cases "abort_process s") (auto simp: tc_finalize_def abortNcclComm_def Let_def)
  qed
qed

definition ex_comm :: tcomm where
  "ex_comm = \<lparr>init_state = INITIALIZED, comm_state = NORMAL, shutdown = False, nccl_comm = True, memory_hook = True,
     abort_process = False, high_priority = False, max_event_pool_size = 10, event_pool = [3, 4], barrier_buffer = True,
     dependency_event = True, internal_stream = True, wstore = \<lambda>_. work_new 30 [] None, wqueues = [(0, [1, 2])]\<rparr>"

theorem finalize_outcome_witness:
  "(case tc_finalize 1 (\<lambda>n w. ob_done) (\<lambda>_. True) [5] ex_comm of Some (Returns _ s') \<Rightarrow> event_pool s' = [] \<and> wqueues s' = [] | _ \<Rightarrow> False)"
proof -
  have "(case tc_finalize 1 (\<lambda>n w. ob_done) (\<lambda>_. True) [5] ex_comm of Some (Returns _ s') \<Rightarrow> True | _ \<Rightarrow> False)" by code_simp
  then obtain u s' where r: "tc_finalize 1 (\<lambda>n w. ob_done) (\<lambda>_. True) [5] ex_comm = Some (Returns u s')"
    by (auto split: option.splits tres.splits)
  have "init_state ex_comm = INITIALIZED" "queues_ok (wqueues ex_comm)" by (simp_all add: ex_comm_def queues_ok_def ids_def)
  from finalize_outcome [OF r this] r show ?thesis by simp
qed

lemma read_hints_unknown:
  "(hint_prefix @ ''max_event_pool_size'', v) \<in> set hints \<Longrightarrow> fst (read_hints hints hp) \<noteq> None"
proof (induction hints arbitrary: hp)
  case Nil
  then show ?case by simp
next
  case (Cons h hs)
  obtain key val where h: "h = (key, val)" by (metis prod.exhaust)
  show ?case
  proof (cases "key = hint_prefix @ ''max_event_pool_size''")
    case True
    then show ?thesis by (simp add: h)
  next
    case False
    then have "\<And>hp. fst (read_hints hs hp) \<noteq> None" using Cons h by auto
    then show ?thesis by (cases "string_to_bool val") (auto simp: h)
  qed
qed

text \<open>The size of the event pool cannot be configured: with a hint for it the initialisation never returns, and
  without one it uses the default.\<close>

lemma pool_size_hint_unusable:
  "(case tc_init boot_ok ok stoull hints s of
      Returns _ s' \<Rightarrow> (\<forall>v. (hint_prefix @ ''max_event_pool_size'', v) \<notin> set hints) \<and> max_event_pool_size s' = kDefaultMaxEventPoolSize
    | Throws _ _ \<Rightarrow> True | Aborts \<Rightarrow> False)"
proof (cases "\<exists>v. (hint_prefix @ ''max_event_pool_size'', v) \<in> set hints")
  case True
  then have "fst (read_hints hints (high_priority s)) \<noteq> None" using read_hints_unknown by blast
  then obtain e hp where "read_hints hints (high_priority s) = (Some e, hp)" by (cases "read_hints hints (high_priority s)") auto
  then show ?thesis by (simp add: tc_init_def Let_def)
next
  case False
  then have "map_of hints (hint_prefix @ ''max_event_pool_size'') = None" by (force simp: map_of_eq_None_iff)
  then have "pool_size_hint stoull hints = Inr kDefaultMaxEventPoolSize" by (simp add: pool_size_hint_def)
  with False show ?thesis by (auto simp: tc_init_def Let_def split: option.split prod.split)
qed

text \<open>an operation that passes the check finds a healthy communicator, and the check has seen every
  error: no work at the head of a queue has failed or timed out.\<close>

theorem check_passes_healthy:
  assumes "queues_ok (wqueues s)" "checkAndAbortIfTimedOutOrError (Some False) ob s = Returns u s'"
  shows "comm_state s = NORMAL \<and> comm_state s' = NORMAL \<and>
    (\<forall>(st, q) \<in> set (wqueues s'). q \<noteq> [] \<and> w_state (wstore s' (hd q)) \<in> {NOT_STARTED, INPROGRESS})"
proof -
  obtain status ws qs where g: "garbageCollect ob (wstore s, wqueues s) = (status, ws, qs)" by (metis prod_cases3)
  have r: "s' = checkWorkQueue ob s" "comm_state s' = NORMAL"
    using assms(2) by (auto simp: checkAndAbortIfTimedOutOrError_def abortNcclComm_def Let_def split: CommState.splits if_splits)
  then have "status \<noteq> TIMEDOUT" "status \<noteq> ERROR" "comm_state s = NORMAL" "wqueues s' = qs" "wstore s' = ws"
    using g by (auto simp: checkWorkQueue_def Let_def split: WorkStatus.splits)
  with garbage_collect_heads [OF assms(1) g] r show ?thesis by simp
qed

theorem check_passes_healthy_witness:
  "\<exists>s'. checkAndAbortIfTimedOutOrError (Some False) (\<lambda>w. if w = 1 then ob_done else ob_busy) ex_comm = Returns () s' \<and>
     comm_state s' = NORMAL"
proof -
  let ?c = "checkAndAbortIfTimedOutOrError (Some False) (\<lambda>w. if w = 1 then ob_done else ob_busy) ex_comm"
  have "(case ?c of Returns u s' \<Rightarrow> True | _ \<Rightarrow> False)" by code_simp
  then obtain s' where r: "?c = Returns () s'" by (auto split: tres.splits)
  have "queues_ok (wqueues ex_comm)" by (simp add: ex_comm_def queues_ok_def ids_def)
  from check_passes_healthy [OF this r] r show ?thesis by blast
qed

section \<open>The event pool\<close>

text \<open>
  Histories of \<open>getEvent\<close> and \<open>returnEvent\<close>: \<open>held\<close> are the events in use by work objects; the runtime
  never creates an event that exists.
\<close>

inductive events :: "tcomm \<Rightarrow> nat list \<Rightarrow> bool" where
  start: "event_pool s = [] \<Longrightarrow> events s []"
| get: "\<lbrakk>events s held; fresh \<notin> set held; getEvent ok fresh s = Returns e s'\<rbrakk> \<Longrightarrow> events s' (e # held)"
| return: "\<lbrakk>events s held; e \<in> set held; returnEvent ok e s = Returns u s'\<rbrakk> \<Longrightarrow> events s' (remove1 e held)"

text \<open>an event is never in use by two work objects or both in use and in the pool, and the pool never exceeds its
  configured size.\<close>

theorem event_pool_exclusive:
  assumes "events s held"
  shows "distinct (event_pool s @ held) \<and> length (event_pool s) \<le> max_event_pool_size s"
  using assms
proof (induction rule: events.induct)
  case (start s)
  then show ?case by simp
next
  case (get s held fresh ok e s')
  then show ?case by (auto simp: getEvent_def split: list.splits if_splits)
next
  case (return s held e ok u s')
  then show ?case
    by (auto simp: returnEvent_def distinct_remove1 split: if_splits dest: notin_set_remove1)
qed

theorem event_pool_exclusive_witness:
  "\<exists>s. events s [8] \<and> distinct (event_pool s @ [8]) \<and> event_pool s = [7]"
proof -
  let ?c = "ex_comm\<lparr>event_pool := []\<rparr>"
  have a: "events ?c []" by (rule events.start) simp
  have b: "events ?c [7]" by (rule events.get [OF a, of 7 True]) (simp_all add: getEvent_def)
  have c: "events ?c [8, 7]" by (rule events.get [OF b, of 8 True]) (simp_all add: getEvent_def)
  have "events (?c\<lparr>event_pool := [7]\<rparr>) (remove1 7 [8, 7])"
    by (rule events.return [OF c, of 7 True "()"]) (simp_all add: returnEvent_def ex_comm_def)
  then have d: "events (?c\<lparr>event_pool := [7]\<rparr>) [8]" by simp
  from event_pool_exclusive [OF d] d show ?thesis by fastforce
qed

end
