(* ===== verification/Dqplb.thy ===== *)
theory Dqplb imports Prelude "HOL-Library.AList" begin

unbundle bit_operations_syntax

text \<open>
  The sequence numbers of dynamic queue-pair load balancing, \<^verbatim>\<open>DqplbSeqTracker\<close> in
  \<^verbatim>\<open>comms/ctran/ibverbx/Ibverbx.h\<close>. Messages are numbered modulo \<^verbatim>\<open>kSeqNumMask\<close>; bit 31 of the immediate
  value marks the last fragment of a user message. Fragments arrive on several queue pairs in any order;
  the receiver counts a notification when it has everything before it.
\<close>

section \<open>The tracker\<close>

definition kNotifyBit :: nat where "kNotifyBit = 31"
definition kSeqNumMask :: u32 where "kSeqNumMask = 0xFFFFFF"
definition seq_mod :: nat where "seq_mod = 0xFFFFFF"

record tracker =
  sendNext :: nat
  receiveNext :: nat
  receivedSeqNums :: "(u32 \<times> bool) list"

definition tracker_new :: tracker where
  "tracker_new = \<lparr>sendNext = 0, receiveNext = 0, receivedSeqNums = []\<rparr>"

definition getSendImm :: "int \<Rightarrow> tracker \<Rightarrow> u32 \<times> tracker" where
  "getSendImm remainingMsgCnt t =
     (let immData = of_nat (sendNext t);
          immData = (if remainingMsgCnt = 1 then immData OR push_bit kNotifyBit 1 else immData)
      in (immData, t\<lparr>sendNext := (sendNext t + 1) mod seq_mod\<rparr>))"

lemma length_delete_less: "map_of m k = Some v \<Longrightarrow> length (AList.delete k m) < length m"
  by (auto simp: AList.delete_eq dest: map_of_SomeD intro: length_filter_less)

text \<open>The loop that consumes what is next.\<close>

function recv_loop :: "(u32 \<times> bool) list \<Rightarrow> nat \<Rightarrow> nat \<Rightarrow> (u32 \<times> bool) list \<times> nat \<times> nat" where
  "recv_loop m next cnt =
     (case map_of m (of_nat next) of
        None \<Rightarrow> (m, next, cnt)
      | Some notify \<Rightarrow>
          recv_loop (AList.delete (of_nat next) m) ((next + 1) mod seq_mod) (if notify then cnt + 1 else cnt))"
  by pat_completeness auto
termination
  by (relation "measure (\<lambda>(m, next, cnt). length m)") (auto simp: length_delete_less)

declare recv_loop.simps [simp del]

definition processReceivedImm :: "u32 \<Rightarrow> tracker \<Rightarrow> nat \<times> tracker" where
  "processReceivedImm immData t =
     (let m = AList.update (immData AND kSeqNumMask) (immData AND push_bit kNotifyBit 1 \<noteq> 0) (receivedSeqNums t);
          (m', next, cnt) = recv_loop m (receiveNext t) 0
      in (cnt, t\<lparr>receiveNext := next, receivedSeqNums := m'\<rparr>))"

section \<open>Immediate values\<close>

definition imm_of :: "nat \<Rightarrow> bool \<Rightarrow> u32" where
  "imm_of s notify = (if notify then of_nat s OR push_bit kNotifyBit 1 else of_nat s)"

lemma getSendImm_eq:
  "getSendImm r t = (imm_of (sendNext t) (r = 1), t\<lparr>sendNext := (sendNext t + 1) mod seq_mod\<rparr>)"
  by (simp add: getSendImm_def imm_of_def Let_def)

lemma mask24: "kSeqNumMask = mask 24"
  by (simp add: kSeqNumMask_def mask_eq_exp_minus_1)

lemma of_nat_and_mask:
  assumes "s < 2 ^ 24"
  shows "(of_nat s :: u32) AND kSeqNumMask = of_nat s"
proof -
  have "take_bit 24 (of_nat s :: u32) = of_nat s"
    using assms by (simp only: take_bit_of_nat take_bit_nat_eq_self)
  then show ?thesis by (simp add: mask24 take_bit_eq_mask)
qed

lemma imm_seq24:
  assumes s: "s < 2 ^ 24"
  shows "imm_of s b AND kSeqNumMask = of_nat s" "imm_of s b AND push_bit kNotifyBit 1 \<noteq> 0 \<longleftrightarrow> b"
proof -
  have n: "(push_bit kNotifyBit 1 :: u32) AND kSeqNumMask = 0" by (simp add: kNotifyBit_def kSeqNumMask_def)
  show "imm_of s b AND kSeqNumMask = of_nat s"
    using of_nat_and_mask [OF s] n by (simp add: imm_of_def bit.conj_disj_distrib2)
  have z: "(of_nat s :: u32) AND push_bit kNotifyBit 1 = 0"
  proof -
    have "(of_nat s :: u32) AND push_bit kNotifyBit 1 = (of_nat s AND kSeqNumMask) AND push_bit kNotifyBit 1"
      by (simp only: of_nat_and_mask [OF s])
    also have "\<dots> = of_nat s AND (push_bit kNotifyBit 1 AND kSeqNumMask)"
      by (simp only: and.assoc and.commute [of kSeqNumMask])
    also have "\<dots> = 0" by (simp only: n and_zero_eq)
    finally show ?thesis .
  qed
  have "(push_bit kNotifyBit 1 :: u32) \<noteq> 0" by (simp add: kNotifyBit_def)
  then show "imm_of s b AND push_bit kNotifyBit 1 \<noteq> 0 \<longleftrightarrow> b"
    using z by (simp add: imm_of_def bit.conj_disj_distrib2)
qed

lemma imm_seq:
  assumes "s < seq_mod"
  shows "imm_of s b AND kSeqNumMask = of_nat s" "imm_of s b AND push_bit kNotifyBit 1 \<noteq> 0 \<longleftrightarrow> b"
  using imm_seq24 [of s b] assms by (simp_all add: seq_mod_def)

section \<open>Arrival in any order\<close>

text \<open>
  \<open>flag j\<close> says whether message \<open>j\<close> ends a user message, \<open>N\<close> is the first message not consumed and \<open>R\<close> are the messages that
  arrived beyond it. Both are absolute numbers; the tracker only has them modulo \<open>seq_mod\<close>.
\<close>

definition tracks :: "(nat \<Rightarrow> bool) \<Rightarrow> nat \<Rightarrow> nat set \<Rightarrow> tracker \<Rightarrow> bool" where
  "tracks flag N R t \<longleftrightarrow> R \<subseteq> {N<..<N + seq_mod} \<and> receiveNext t = N mod seq_mod \<and>
     (\<forall>j \<in> {N..<N + seq_mod}. map_of (receivedSeqNums t) (of_nat (j mod seq_mod)) = (if j \<in> R then Some (flag j) else None))"

lemma of_nat_u32_inj: "a < seq_mod \<Longrightarrow> b < seq_mod \<Longrightarrow> (of_nat a :: u32) = of_nat b \<Longrightarrow> a = b"
  by (simp add: seq_mod_def word_of_nat_eq_iff take_bit_nat_eq_self)

lemma mod_window_inj:
  assumes "a \<in> {N..<N + m}" "b \<in> {N..<N + m}" "a mod m = b mod m"
  shows "a = (b :: nat)"
proof -
  have *: "x = y" if "x \<le> y" "x \<in> {N..<N + m}" "y \<in> {N..<N + m}" "x mod m = y mod m" for x y :: nat
  proof -
    have "m dvd y - x" using that by (metis mod_eq_dvd_iff_nat)
    moreover have "y - x < m" using that by auto
    ultimately show ?thesis using that(1) by (metis diff_is_0_eq dvd_imp_le le_antisym linorder_not_le not_gr_zero)
  qed
  show ?thesis using * [of a b] * [of b a] assms by (metis linear)
qed

lemma seq_window_inj:
  "a \<in> {N..<N + seq_mod} \<Longrightarrow> b \<in> {N..<N + seq_mod} \<Longrightarrow> (of_nat (a mod seq_mod) :: u32) = of_nat (b mod seq_mod) \<Longrightarrow> a = b"
  by (rule mod_window_inj [of a N seq_mod b]) (auto intro: of_nat_u32_inj simp: seq_mod_def)

text \<open>The messages the loop consumes: the run of arrived ones from \<open>N\<close> on.\<close>

function run_end :: "nat \<Rightarrow> nat set \<Rightarrow> nat" where
  "run_end N R = (if finite R \<and> N \<in> R then run_end (Suc N) (R - {N}) else N)"
  by pat_completeness auto
termination
  by (relation "measure (\<lambda>(N, R). card R)") (auto intro!: diff_less simp: card_gt_0_iff)

declare run_end.simps [simp del]

lemma run_end_props:
  assumes "finite R"
  shows "N \<le> run_end N R \<and> run_end N R \<notin> R \<and> {N..<run_end N R} \<subseteq> R"
  using assms
proof (induction N R rule: run_end.induct)
  case (1 N R)
  show ?case
  proof (cases "N \<in> R")
    case False
    then show ?thesis by (simp add: run_end.simps [of N R])
  next
    case True
    note IH = "1.IH" [OF conjI [OF "1.prems" True]]
    have e: "run_end N R = run_end (Suc N) (R - {N})" using True "1.prems" by (simp add: run_end.simps [of N R])
    have "{N..<run_end N R} = insert N {Suc N..<run_end N R}" using IH "1.prems" e by auto
    then show ?thesis using IH "1.prems" True e by auto
  qed
qed

definition notifies :: "(nat \<Rightarrow> bool) \<Rightarrow> nat \<Rightarrow> nat \<Rightarrow> nat" where
  "notifies flag a b = card {j. a \<le> j \<and> j < b \<and> flag j}"

lemma notifies_Suc: "a < b \<Longrightarrow> notifies flag a b = (if flag a then Suc else id) (notifies flag (Suc a) b)"
proof -
  assume ab: "a < b"
  have "{j. a \<le> j \<and> j < b \<and> flag j} = (if flag a then insert a {j. Suc a \<le> j \<and> j < b \<and> flag j} else {j. Suc a \<le> j \<and> j < b \<and> flag j})"
    using ab by (auto simp: Suc_le_eq order_le_less)
  then show ?thesis by (simp add: notifies_def)
qed

lemma recv_loop_run:
  assumes "finite R" "R \<subseteq> {N..<N + seq_mod}"
    and "\<forall>j \<in> {N..<N + seq_mod}. map_of m (of_nat (j mod seq_mod)) = (if j \<in> R then Some (flag j) else None)"
  shows "\<exists>m'. recv_loop m (N mod seq_mod) c = (m', run_end N R mod seq_mod, c + notifies flag N (run_end N R)) \<and>
    (\<forall>j \<in> {run_end N R..<run_end N R + seq_mod}. map_of m' (of_nat (j mod seq_mod)) =
       (if j \<in> R \<and> run_end N R \<le> j then Some (flag j) else None))"
  using assms
proof (induction N R arbitrary: m c rule: run_end.induct)
  case (1 N R)
  have pos: "0 < seq_mod" by (simp add: seq_mod_def)
  show ?case
  proof (cases "N \<in> R")
    case False
    then have e: "run_end N R = N" by (simp add: run_end.simps [of N R])
    have "map_of m (of_nat (N mod seq_mod)) = None" using "1.prems"(3) False pos by simp
    then have "recv_loop m (N mod seq_mod) c = (m, N mod seq_mod, c)" by (simp add: recv_loop.simps [of m])
    then show ?thesis using "1.prems"(3) e by (auto simp: notifies_def)
  next
    case True
    let ?k = "of_nat (N mod seq_mod) :: u32"
    have e: "run_end N R = run_end (Suc N) (R - {N})" using True "1.prems" by (simp add: run_end.simps [of N R])
    have fin: "finite (R - {N})" "R - {N} \<subseteq> {Suc N..<Suc N + seq_mod}" using "1.prems" by (auto simp: subset_iff)
    have "map_of m ?k = Some (flag N)" using "1.prems"(3) True pos by simp
    then have l: "recv_loop m (N mod seq_mod) c =
        recv_loop (AList.delete ?k m) (Suc N mod seq_mod) (if flag N then c + 1 else c)"
      by (simp add: recv_loop.simps [of m] mod_Suc_eq)
    have "map_of (AList.delete ?k m) (of_nat (j mod seq_mod)) = (if j \<in> R - {N} then Some (flag j) else None)"
      if j: "j \<in> {Suc N..<Suc N + seq_mod}" for j
    proof (cases "j = N + seq_mod")
      case True
      then show ?thesis using "1.prems"(2) by (auto simp: delete_conv' subset_iff)
    next
      case False
      with j have jw: "j \<in> {N..<N + seq_mod}" "j \<noteq> N" by auto
      then have "(of_nat (j mod seq_mod) :: u32) \<noteq> ?k" using seq_window_inj [of j N N] pos by auto
      then show ?thesis using "1.prems"(3) jw by (simp add: delete_conv')
    qed
    with "1.IH" [OF conjI [OF "1.prems"(1) True] fin, of "AList.delete ?k m" "if flag N then c + 1 else c"]
    obtain m' where m': "recv_loop m (N mod seq_mod) c = (m', run_end N R mod seq_mod,
        (if flag N then c + 1 else c) + notifies flag (Suc N) (run_end N R))"
      "\<forall>j \<in> {run_end N R..<run_end N R + seq_mod}. map_of m' (of_nat (j mod seq_mod)) =
       (if j \<in> R - {N} \<and> run_end N R \<le> j then Some (flag j) else None)"
      unfolding l e by blast
    have "Suc N \<le> run_end N R" using run_end_props [OF fin(1), of "Suc N"] e by simp
    then have "(if flag N then c + 1 else c) + notifies flag (Suc N) (run_end N R) = c + notifies flag N (run_end N R)"
      by (simp add: notifies_Suc [of N])
    moreover have "(j \<in> R - {N} \<and> run_end N R \<le> j) = (j \<in> R \<and> run_end N R \<le> j)" for j
      using \<open>Suc N \<le> run_end N R\<close> by auto
    ultimately show ?thesis using m' by auto
  qed
qed

lemma process_tracks:
  assumes t: "tracks flag N R t" and j: "j \<in> {N..<N + seq_mod}" "j \<notin> R"
    and p: "processReceivedImm (imm_of (j mod seq_mod) (flag j)) t = (cnt, t')"
  defines "N' \<equiv> run_end N (insert j R)"
  shows "tracks flag N' {i \<in> insert j R. N' \<le> i} t'" "cnt = notifies flag N N'"
proof -
  have pos: "0 < seq_mod" by (simp add: seq_mod_def)
  have R: "R \<subseteq> {N<..<N + seq_mod}" and rn: "receiveNext t = N mod seq_mod"
    and mp: "\<forall>i \<in> {N..<N + seq_mod}. map_of (receivedSeqNums t) (of_nat (i mod seq_mod)) = (if i \<in> R then Some (flag i) else None)"
    using t by (simp_all add: tracks_def)
  have fin: "finite (insert j R)" using R finite_subset by blast
  have sub: "insert j R \<subseteq> {N..<N + seq_mod}" using R j by auto
  let ?m = "AList.update (of_nat (j mod seq_mod)) (flag j) (receivedSeqNums t)"
  have "map_of ?m (of_nat (i mod seq_mod)) = (if i \<in> insert j R then Some (flag i) else None)"
    if "i \<in> {N..<N + seq_mod}" for i
    using mp that seq_window_inj [OF that j(1)] by (cases "i = j") (auto simp: update_conv')
  then obtain m' where m': "recv_loop ?m (N mod seq_mod) 0 = (m', N' mod seq_mod, notifies flag N N')"
    "\<forall>i \<in> {N'..<N' + seq_mod}. map_of m' (of_nat (i mod seq_mod)) = (if i \<in> insert j R \<and> N' \<le> i then Some (flag i) else None)"
    using recv_loop_run [OF fin sub, of ?m flag 0] unfolding N'_def by auto
  have "processReceivedImm (imm_of (j mod seq_mod) (flag j)) t =
      (notifies flag N N', t\<lparr>receiveNext := N' mod seq_mod, receivedSeqNums := m'\<rparr>)"
    using m'(1) imm_seq [of "j mod seq_mod" "flag j"] pos rn by (simp add: processReceivedImm_def Let_def)
  then have r: "cnt = notifies flag N N'" "t' = t\<lparr>receiveNext := N' mod seq_mod, receivedSeqNums := m'\<rparr>" using p by simp_all
  show "cnt = notifies flag N N'" by (rule r)
  have P: "N \<le> N'" "N' \<notin> insert j R" using run_end_props [OF fin, of N] unfolding N'_def by auto
  have "{i \<in> insert j R. N' \<le> i} \<subseteq> {N'<..<N' + seq_mod}"
  proof
    fix i assume i: "i \<in> {i \<in> insert j R. N' \<le> i}"
    then have "i \<noteq> N'" "i < N + seq_mod" using P(2) sub by (blast, fastforce)
    then show "i \<in> {N'<..<N' + seq_mod}" using i P(1) by simp
  qed
  then show "tracks flag N' {i \<in> insert j R. N' \<le> i} t'" using m'(2) r(2) by (simp add: tracks_def)
qed

text \<open>Arrivals: the messages in the order they arrive, each once and never a full window ahead of what is missing.\<close>

inductive arrivals :: "(nat \<Rightarrow> bool) \<Rightarrow> nat set \<Rightarrow> nat \<Rightarrow> nat \<Rightarrow> tracker \<Rightarrow> bool" for flag where
  start: "receiveNext t = 0 \<Longrightarrow> receivedSeqNums t = [] \<Longrightarrow> arrivals flag {} 0 0 t"
| arrive: "\<lbrakk>arrivals flag A N tot t; j \<notin> A; j < N + seq_mod;
    processReceivedImm (imm_of (j mod seq_mod) (flag j)) t = (cnt, t')\<rbrakk> \<Longrightarrow>
    arrivals flag (insert j A) (run_end N {i \<in> insert j A. N \<le> i}) (tot + cnt) t'"

lemma notifies_split: "a \<le> b \<Longrightarrow> b \<le> c \<Longrightarrow> notifies flag a b + notifies flag b c = notifies flag a c"
proof -
  assume ab: "a \<le> b" "b \<le> c"
  have "{j. a \<le> j \<and> j < c \<and> flag j} = {j. a \<le> j \<and> j < b \<and> flag j} \<union> {j. b \<le> j \<and> j < c \<and> flag j}" using ab by auto
  moreover have "card ({j. a \<le> j \<and> j < b \<and> flag j} \<union> {j. b \<le> j \<and> j < c \<and> flag j}) =
      card {j. a \<le> j \<and> j < b \<and> flag j} + card {j. b \<le> j \<and> j < c \<and> flag j}"
    by (rule card_Un_disjoint) auto
  ultimately show ?thesis by (simp add: notifies_def)
qed

lemma arrivals_inv:
  "arrivals flag A N tot t \<Longrightarrow> finite A \<and> {..<N} \<subseteq> A \<and> N \<notin> A \<and> tracks flag N {i \<in> A. N \<le> i} t \<and> tot = notifies flag 0 N"
proof (induction rule: arrivals.induct)
  case (start t)
  then show ?case by (simp add: tracks_def notifies_def)
next
  case (arrive A N tot t j cnt t')
  let ?R = "{i \<in> A. N \<le> i}" let ?R' = "{i \<in> insert j A. N \<le> i}" let ?N = "run_end N ?R'"
  have jN: "N \<le> j" using arrive.IH arrive.hyps(2) by (auto simp: subset_iff not_less)
  then have e: "?R' = insert j ?R" by auto
  have "j \<in> {N..<N + seq_mod}" "j \<notin> ?R" using arrive.hyps(2,3) jN by auto
  moreover have tr: "tracks flag N ?R t" and fin: "finite A" using arrive.IH by auto
  ultimately have "tracks flag (run_end N (insert j ?R)) {i \<in> insert j ?R. run_end N (insert j ?R) \<le> i} t' \<and>
      cnt = notifies flag N (run_end N (insert j ?R))"
    using process_tracks [of flag N ?R t j cnt t'] arrive.hyps(4) by simp
  then have P: "tracks flag ?N {i \<in> ?R'. ?N \<le> i} t'" "cnt = notifies flag N ?N" unfolding e by blast+
  have fin': "finite ?R'" using fin by simp
  note E = run_end_props [OF fin', of N]
  have "{i \<in> ?R'. ?N \<le> i} = {i \<in> insert j A. ?N \<le> i}" using E by auto
  moreover have "{..<?N} \<subseteq> insert j A" using E arrive.IH by (auto simp: subset_iff not_less) (metis atLeastLessThan_iff linorder_not_le)
  moreover have "?N \<notin> insert j A" using E by auto
  moreover have "tot + cnt = notifies flag 0 ?N"
    using P(2) arrive.IH E notifies_split [of 0 N ?N flag] by simp
  ultimately show ?case using P(1) fin by simp
qed


section \<open>Sender and receiver\<close>

text \<open>The immediate values of consecutive fragments; the list has the remaining counts the sender passes.\<close>

fun send_imms :: "int list \<Rightarrow> tracker \<Rightarrow> u32 list" where
  "send_imms [] t = []"
| "send_imms (r # rs) t = (let (imm, t') = getSendImm r t in imm # send_imms rs t')"

lemma send_imms_nth:
  "k < length rs \<Longrightarrow> sendNext t = s mod seq_mod \<Longrightarrow> send_imms rs t ! k = imm_of ((s + k) mod seq_mod) (rs ! k = 1)"
proof (induction rs arbitrary: k s t)
  case Nil
  then show ?case by simp
next
  case (Cons r rs)
  have "sendNext (snd (getSendImm r t)) = (Suc s) mod seq_mod"
    using Cons.prems(2) by (simp add: getSendImm_eq mod_Suc_eq)
  from Cons.IH [OF _ this] Cons.prems show ?case by (cases k) (simp_all add: getSendImm_eq)
qed

text \<open>C37: The immediate values sent for consecutive fragments number them and mark the last fragment of each user
  message; whatever the order of arrival (each fragment once, none a whole window ahead), after every arrival the
  receiver has counted exactly the user messages that end before the first missing fragment.\<close>

theorem dqplb_in_order:
  assumes "arrivals (\<lambda>j. rs ! j = 1) A N tot t"
  shows "(\<forall>k < length rs. send_imms rs tracker_new ! k = imm_of (k mod seq_mod) (rs ! k = 1)) \<and>
    {..<N} \<subseteq> A \<and> N \<notin> A \<and> tot = card {j. j < N \<and> rs ! j = 1} \<and> receiveNext t = N mod seq_mod"
  using arrivals_inv [OF assms] send_imms_nth [of _ rs tracker_new 0]
  by (auto simp: tracks_def notifies_def tracker_new_def)

definition example_tracker :: "(u32 \<times> bool) list \<Rightarrow> nat \<Rightarrow> tracker" where
  "example_tracker m r = \<lparr>sendNext = 0, receiveNext = r, receivedSeqNums = m\<rparr>"

lemma arrivals_example:
  "arrivals (\<lambda>j. [2, 1, 1 :: int] ! j = 1) {0, 2, 1} 3 2 (example_tracker [] 3)"
proof -
  let ?f = "\<lambda>j. [2, 1, 1 :: int] ! j = 1"
  define t0 t1 t2 t3 where "t0 = example_tracker [] 0" and "t1 = example_tracker [(1, True)] 0"
    and "t2 = example_tracker [(1, True), (2, True)] 0" and "t3 = example_tracker [] 3"
  note ts = t0_def t1_def t2_def t3_def example_tracker_def
  have p: "processReceivedImm 0x80000001 t0 = (0, t1)" "processReceivedImm 0x80000002 t1 = (0, t2)"
    "processReceivedImm 0 t2 = (2, t3)"
    by (simp_all add: ts processReceivedImm_def kSeqNumMask_def kNotifyBit_def seq_mod_def recv_loop.simps Let_def)
  have i: "imm_of (1 mod seq_mod) (?f 1) = 0x80000001" "imm_of (2 mod seq_mod) (?f 2) = 0x80000002"
    "imm_of (0 mod seq_mod) (?f 0) = 0"
    by (simp_all add: imm_of_def seq_mod_def kNotifyBit_def)
  have w: "1 < 0 + seq_mod" "2 < 0 + seq_mod" "0 < 0 + seq_mod" by (simp_all add: seq_mod_def)
  have r: "run_end 0 {j \<in> {1}. 0 \<le> j} = 0" "run_end 0 {j \<in> {2, 1}. 0 \<le> j} = 0"
    by (simp_all add: run_end.simps [of 0])
  have e0: "{j \<in> {0, 2, 1}. 0 \<le> j} = {0, 2, 1 :: nat}" "{0, 2, 1} - {0} = {1, 2 :: nat}" "{1, 2} - {Suc 0} = {2 :: nat}"
    "{2 :: nat} - {Suc (Suc 0)} = {}" by auto
  have r3: "run_end 0 {j \<in> {0, 2, 1}. 0 \<le> j} = 3"
    unfolding e0
    by (simp add: e0 run_end.simps [of 0] run_end.simps [of "Suc 0"] run_end.simps [of "Suc (Suc 0)"] run_end.simps [of "Suc (Suc (Suc 0))"])
  have s: "arrivals ?f {} 0 0 t0" by (rule arrivals.start) (simp_all add: ts)
  have a1: "arrivals ?f {1} 0 0 t1"
    using arrivals.arrive [OF s _ w(1), of 0 t1] unfolding i r p by simp
  have a2: "arrivals ?f {2, 1} 0 0 t2"
    using arrivals.arrive [OF a1 _ w(2), of 0 t2] unfolding i r p by simp
  show ?thesis
    using arrivals.arrive [OF a2 _ w(3), of 2 t3] unfolding i r3 p by (simp add: t3_def numeral_2_eq_2)
qed

theorem dqplb_in_order_witness:
  "(2 :: nat) = card {j. j < 3 \<and> [2, 1, 1 :: int] ! j = 1} \<and> {..<3} \<subseteq> {0, 2, 1 :: nat}"
  using dqplb_in_order [OF arrivals_example] by simp

end
