(* ===== verification/Virtual_Qp.thy ===== *)
theory Virtual_Qp imports Dqplb "HOL-Library.Sublist" begin

text \<open>
  The virtual queue pair \<^verbatim>\<open>IbvVirtualQp\<close> of \<^verbatim>\<open>comms/ctran/ibverbx/Ibverbx.h\<close>: it splits a user message into physical
  work requests of at most \<^verbatim>\<open>maxMsgSize_\<close> bytes and spreads them over the physical queue pairs. The verbs library is the
  parameter \<open>hw\<close> (does posting the request with this physical id succeed?), and what was handed to it is logged in the
  ghost fields \<open>posted\<close> and \<open>postedRecv\<close>, with the index of the queue pair (-1 for the notify queue pair).
\<close>

section \<open>Data\<close>

datatype ibv_wr_opcode =
    IBV_WR_RDMA_WRITE | IBV_WR_RDMA_WRITE_WITH_IMM | IBV_WR_SEND | IBV_WR_SEND_WITH_IMM | IBV_WR_RDMA_READ
  | IBV_WR_ATOMIC_CMP_AND_SWP | IBV_WR_ATOMIC_FETCH_AND_ADD

datatype LoadBalancingScheme = SPRAY | DQPLB

datatype RequestType = REQ_SEND | REQ_RECV | REQ_SEND_NOTIFY

text \<open>Errors returned, exceptions of \<^verbatim>\<open>at()\<close>, and dereferenced null pointers.\<close>

datatype vq_error = EINVAL | Errno | OutOfRange | NullDeref

record ibv_sge =
  addr :: u64
  sge_length :: u32
  lkey :: u32

record ibv_send_wr =
  wr_id :: u64
  sg_list :: "ibv_sge list"
  opcode :: ibv_wr_opcode
  signaled :: bool
  remote_addr :: u64
  rkey :: u32
  imm_data :: u32

record ibv_recv_wr =
  rwr_id :: u64
  rsg_list :: "ibv_sge list"

text \<open>The \<^verbatim>\<open>int\<close> member \<open>offset\<close> is kept as its 32 bits: the code adds unsigned lengths to it.\<close>

record VirtualSendWr =
  swr :: ibv_send_wr
  soffset :: u32
  sexpectedMsgCnt :: int
  sremainingMsgCnt :: int
  sendExtraNotifyImm :: bool

record VirtualRecvWr =
  rwr :: ibv_recv_wr
  roffset :: u32
  rexpectedMsgCnt :: int
  rremainingMsgCnt :: int

record VirtualQpRequest =
  rq_type :: RequestType
  rq_wrId :: u64
  physicalQpNum :: u32
  rq_immData :: u32

record VirtualQpResponse =
  virtualWrId :: u64
  useDqplb :: bool
  notifyCount :: nat

text \<open>A physical queue pair: its number and the pairs (physical id, virtual id) of what is outstanding.\<close>

record IbvQp =
  qp_num :: u32
  physicalSendWrStatus :: "(u64 \<times> u64) list"
  physicalRecvWrStatus :: "(u64 \<times> u64) list"

record IbvVirtualQp =
  pendingSend :: "VirtualSendWr list"
  pendingRecv :: "VirtualRecvWr list"
  virtualQpNum :: int
  physicalQps :: "IbvQp list"
  qpNumToIdx :: "(u32 \<times> nat) list"
  nextSendPhysicalQpIdx :: nat
  maxMsgCntPerQp :: int
  maxMsgSize :: int
  nextPhysicalWrId :: u64
  loadBalancingScheme :: LoadBalancingScheme
  pendingSendNotify :: "VirtualSendWr list"
  notifyQp :: IbvQp
  seqTracker :: tracker
  dqplbReceiverInitialized :: bool
  posted :: "(int \<times> ibv_send_wr) list"
  postedRecv :: "(int \<times> ibv_recv_wr) list"

definition IbvQp_new :: "u32 \<Rightarrow> IbvQp" where
  "IbvQp_new num = \<lparr>qp_num = num, physicalSendWrStatus = [], physicalRecvWrStatus = []\<rparr>"

definition IbvVirtualQp_new :: "u32 list \<Rightarrow> u32 \<Rightarrow> int \<Rightarrow> int \<Rightarrow> LoadBalancingScheme \<Rightarrow> IbvVirtualQp" where
  "IbvVirtualQp_new qps notify maxCnt maxSize sch =
     \<lparr>pendingSend = [], pendingRecv = [], virtualQpNum = 0, physicalQps = map IbvQp_new qps,
      qpNumToIdx = fold (\<lambda>(n, i) m. AList.update n i m) (zip qps [0..<length qps]) [],
      nextSendPhysicalQpIdx = 0, maxMsgCntPerQp = maxCnt, maxMsgSize = maxSize, nextPhysicalWrId = 0,
      loadBalancingScheme = sch, pendingSendNotify = [], notifyQp = IbvQp_new notify, seqTracker = tracker_new,
      dqplbReceiverInitialized = False, posted = [], postedRecv = []\<rparr>"

text \<open>The comparison of a \<^verbatim>\<open>size_t\<close> with an \<^verbatim>\<open>int\<close>: a negative limit becomes a huge unsigned number.\<close>

definition size_below :: "nat \<Rightarrow> int \<Rightarrow> bool" where
  "size_below n m \<longleftrightarrow> m < 0 \<or> int n < m"

section \<open>Choosing a physical queue pair\<close>

text \<open>The loop over the queue pairs, \<open>k\<close> of which are left to look at.\<close>

fun find_loop :: "nat \<Rightarrow> IbvVirtualQp \<Rightarrow> int \<times> IbvVirtualQp" where
  "find_loop 0 q = (-1, q)"
| "find_loop (Suc k) q =
     (let i = nextSendPhysicalQpIdx q;
          q' = q\<lparr>nextSendPhysicalQpIdx := (i + 1) mod length (physicalQps q)\<rparr>
      in if size_below (length (physicalSendWrStatus (physicalQps q ! i))) (maxMsgCntPerQp q) then (int i, q')
         else find_loop k q')"

definition findAvailableSendQp :: "IbvVirtualQp \<Rightarrow> int \<times> IbvVirtualQp" where
  "findAvailableSendQp q =
     (if maxMsgCntPerQp q = -1
      then (int (nextSendPhysicalQpIdx q),
            q\<lparr>nextSendPhysicalQpIdx := (nextSendPhysicalQpIdx q + 1) mod length (physicalQps q)\<rparr>)
      else find_loop (length (physicalQps q)) q)"

definition is_rdma :: "ibv_wr_opcode \<Rightarrow> bool" where
  "is_rdma op \<longleftrightarrow> op = IBV_WR_RDMA_WRITE \<or> op = IBV_WR_RDMA_WRITE_WITH_IMM \<or> op = IBV_WR_RDMA_READ"

text \<open>The queue pair for the request in front, the new value of the variable \<^verbatim>\<open>qpIdx\<close>, and the state.\<close>

definition choose_qp :: "int \<Rightarrow> VirtualSendWr \<Rightarrow> IbvVirtualQp \<Rightarrow> int \<times> int \<times> IbvVirtualQp" where
  "choose_qp qpIdx w q =
     (if is_rdma (opcode (swr w))
      then (if qpIdx = -1 then (let (i, q') = findAvailableSendQp q in (i, -1, q')) else (qpIdx, -1, q))
      else if size_below (length (physicalSendWrStatus (physicalQps q ! 0))) (maxMsgCntPerQp q) then (0, qpIdx, q)
      else (-1, qpIdx, q))"

section \<open>Sending\<close>

text \<open>\<^verbatim>\<open>VirtualSendWr::VirtualSendWr\<close>: a deep copy of the request.\<close>

definition VirtualSendWr_new :: "ibv_send_wr \<Rightarrow> int \<Rightarrow> int \<Rightarrow> bool \<Rightarrow> VirtualSendWr" where
  "VirtualSendWr_new w expected remaining notify =
     \<lparr>swr = w, soffset = 0, sexpectedMsgCnt = expected, sremainingMsgCnt = remaining, sendExtraNotifyImm = notify\<rparr>"

definition VirtualRecvWr_new :: "ibv_recv_wr \<Rightarrow> int \<Rightarrow> int \<Rightarrow> VirtualRecvWr" where
  "VirtualRecvWr_new w expected remaining =
     \<lparr>rwr = w, roffset = 0, rexpectedMsgCnt = expected, rremainingMsgCnt = remaining\<rparr>"

text \<open>The length of the next fragment: an \<^verbatim>\<open>int\<close>, then stored in an unsigned member.\<close>

definition frag_len :: "int \<Rightarrow> u32 \<Rightarrow> u32 \<Rightarrow> int" where
  "frag_len maxSize len off = min (sint (len - off)) maxSize"

text \<open>The physical request for a virtual one, without id and immediate value (zero-initialised).\<close>

definition physical_wr :: "LoadBalancingScheme \<Rightarrow> int \<Rightarrow> VirtualSendWr \<Rightarrow> ibv_sge \<Rightarrow> ibv_send_wr" where
  "physical_wr sch maxSize w g =
     (let v = swr w;
          base = \<lparr>wr_id = 0, sg_list = [\<lparr>addr = addr g + of_int (sint (soffset w)),
                   sge_length = of_int (frag_len maxSize (sge_length g) (soffset w)), lkey = lkey g\<rparr>],
                  opcode = IBV_WR_RDMA_WRITE, signaled = False, remote_addr = 0, rkey = 0, imm_data = 0\<rparr>
      in case opcode v of
           IBV_WR_RDMA_WRITE \<Rightarrow> base\<lparr>opcode := opcode v, signaled := signaled v,
             remote_addr := remote_addr v + of_int (sint (soffset w)), rkey := rkey v\<rparr>
         | IBV_WR_RDMA_READ \<Rightarrow> base\<lparr>opcode := opcode v, signaled := signaled v,
             remote_addr := remote_addr v + of_int (sint (soffset w)), rkey := rkey v\<rparr>
         | IBV_WR_RDMA_WRITE_WITH_IMM \<Rightarrow>
             base\<lparr>opcode := (if sch = SPRAY then IBV_WR_RDMA_WRITE else IBV_WR_RDMA_WRITE_WITH_IMM), signaled := True,
               remote_addr := remote_addr v + of_int (sint (soffset w)), rkey := rkey v\<rparr>
         | IBV_WR_SEND \<Rightarrow> base\<lparr>opcode := opcode v, signaled := signaled v\<rparr>
         | _ \<Rightarrow> base)"

definition updatePhysicalSendWr :: "VirtualSendWr \<Rightarrow> ibv_sge \<Rightarrow> IbvVirtualQp \<Rightarrow> ibv_send_wr \<times> IbvVirtualQp" where
  "updatePhysicalSendWr w g q =
     (let p = (physical_wr (loadBalancingScheme q) (maxMsgSize q) w g)\<lparr>wr_id := nextPhysicalWrId q\<rparr>;
          q = q\<lparr>nextPhysicalWrId := nextPhysicalWrId q + 1\<rparr>
      in if opcode p = IBV_WR_RDMA_WRITE_WITH_IMM \<and> loadBalancingScheme q = DQPLB
         then (let (imm, t) = getSendImm (sremainingMsgCnt w) (seqTracker q)
               in (p\<lparr>imm_data := imm\<rparr>, q\<lparr>seqTracker := t\<rparr>))
         else (p, q))"

definition enq_send :: "u64 \<times> u64 \<Rightarrow> IbvQp \<Rightarrow> IbvQp" where
  "enq_send e p = p\<lparr>physicalSendWrStatus := physicalSendWrStatus p @ [e]\<rparr>"

definition enq_recv :: "u64 \<times> u64 \<Rightarrow> IbvQp \<Rightarrow> IbvQp" where
  "enq_recv e p = p\<lparr>physicalRecvWrStatus := physicalRecvWrStatus p @ [e]\<rparr>"

text \<open>After a successful post of \<open>p\<close> on queue pair \<open>i\<close> for the virtual request \<open>w\<close> in front of the queue.\<close>

definition send_posted :: "nat \<Rightarrow> VirtualSendWr \<Rightarrow> VirtualSendWr list \<Rightarrow> ibv_send_wr \<Rightarrow> IbvVirtualQp \<Rightarrow> IbvVirtualQp" where
  "send_posted i w ws p q =
     (let q = q\<lparr>posted := posted q @ [(int i, p)],
                physicalQps := (physicalQps q)[i := enq_send (wr_id p, wr_id (swr w)) (physicalQps q ! i)]\<rparr>;
          w = w\<lparr>soffset := soffset w + sge_length (hd (sg_list p)), sremainingMsgCnt := sremainingMsgCnt w - 1\<rparr>
      in if sremainingMsgCnt w = 0 then q\<lparr>pendingSend := ws\<rparr>
         else if sremainingMsgCnt w = 1 \<and> sendExtraNotifyImm w
         then q\<lparr>pendingSend := ws, pendingSendNotify := pendingSendNotify q @ [w]\<rparr>
         else q\<lparr>pendingSend := w # ws\<rparr>)"

text \<open>\<^verbatim>\<open>mapPendingSendQueToPhysicalQp\<close>; \<open>None\<close> is a loop that does not end, otherwise the error, if any, and the state.\<close>

partial_function (option) mapPendingSend ::
    "(u64 \<Rightarrow> bool) \<Rightarrow> int \<Rightarrow> IbvVirtualQp \<Rightarrow> (vq_error option \<times> IbvVirtualQp) option" where
  "mapPendingSend hw qpIdx q =
     (case pendingSend q of
        [] \<Rightarrow> Some (None, q)
      | w # ws \<Rightarrow>
         if physicalQps q = [] then Some (Some OutOfRange, q)
         else let (i, qpIdx', q1) = choose_qp qpIdx w q in
           if i = -1 then Some (None, q1)
           else (case sg_list (swr w) of
               [] \<Rightarrow> Some (Some NullDeref, q1)
             | g # _ \<Rightarrow>
                let (p, q2) = updatePhysicalSendWr w g q1 in
                  if length (physicalQps q2) \<le> nat i then Some (Some OutOfRange, q2)
                  else if \<not> hw (wr_id p) then Some (Some Errno, q2)
                  else mapPendingSend hw qpIdx' (send_posted (nat i) w ws p q2)))"

text \<open>\<^verbatim>\<open>postSendNotifyImm\<close>; the caller has checked that the queue is not empty.\<close>

definition postSendNotifyImm :: "(u64 \<Rightarrow> bool) \<Rightarrow> IbvVirtualQp \<Rightarrow> vq_error option \<times> IbvVirtualQp" where
  "postSendNotifyImm hw q =
     (let v = swr (hd (pendingSendNotify q));
          p = \<lparr>wr_id = nextPhysicalWrId q, sg_list = [], opcode = IBV_WR_RDMA_WRITE_WITH_IMM, signaled = True,
               remote_addr = remote_addr v, rkey = rkey v, imm_data = imm_data v\<rparr>;
          q = q\<lparr>nextPhysicalWrId := nextPhysicalWrId q + 1\<rparr>
      in if \<not> hw (wr_id p) then (Some Errno, q)
         else (None, q\<lparr>posted := posted q @ [(-1, p)], notifyQp := enq_send (wr_id p, wr_id v) (notifyQp q),
                       pendingSendNotify := tl (pendingSendNotify q)\<rparr>))"

text \<open>The number of fragments of a message, in unsigned 32-bit arithmetic and then an \<^verbatim>\<open>int\<close>.\<close>

definition fragment_count :: "int \<Rightarrow> u32 \<Rightarrow> int" where
  "fragment_count maxSize len = sint ((len + of_int maxSize - 1) div of_int maxSize)"

text \<open>The checks of \<^verbatim>\<open>postSend\<close>: the expected message count and whether an extra notification is sent.\<close>

definition send_plan :: "ibv_send_wr \<Rightarrow> IbvVirtualQp \<Rightarrow> vq_error + int \<times> bool" where
  "send_plan w q =
     (if length (sg_list w) > 1 then Inl EINVAL
      else if opcode w \<in> {IBV_WR_SEND_WITH_IMM, IBV_WR_ATOMIC_CMP_AND_SWP, IBV_WR_ATOMIC_FETCH_AND_ADD} then Inl EINVAL
      else case sg_list w of
          [] \<Rightarrow> Inl NullDeref
        | g # _ \<Rightarrow>
           let extra = (opcode w = IBV_WR_RDMA_WRITE_WITH_IMM \<and> loadBalancingScheme q = SPRAY);
               cnt = fragment_count (maxMsgSize q) (sge_length g)
           in Inr (if extra then cnt + 1 else cnt, extra))"

text \<open>The part of \<^verbatim>\<open>postSend\<close> after the request to the virtual completion queue.\<close>

definition enqueue_send ::
    "(u64 \<Rightarrow> bool) \<Rightarrow> ibv_send_wr \<Rightarrow> int \<Rightarrow> bool \<Rightarrow> IbvVirtualQp \<Rightarrow> (vq_error option \<times> IbvVirtualQp) option" where
  "enqueue_send hw w expected extra q =
     mapPendingSend hw (-1) (q\<lparr>pendingSend := pendingSend q @ [VirtualSendWr_new w expected expected extra]\<rparr>)"


section \<open>Receiving\<close>

definition qp_at :: "int \<Rightarrow> IbvVirtualQp \<Rightarrow> IbvQp" where
  "qp_at i q = (if i = -1 then notifyQp q else physicalQps q ! nat i)"

definition upd_qp :: "int \<Rightarrow> (IbvQp \<Rightarrow> IbvQp) \<Rightarrow> IbvVirtualQp \<Rightarrow> IbvVirtualQp" where
  "upd_qp i f q = (if i = -1 then q\<lparr>notifyQp := f (notifyQp q)\<rparr>
     else q\<lparr>physicalQps := (physicalQps q)[nat i := f (physicalQps q ! nat i)]\<rparr>)"

definition findAvailableRecvQp :: "IbvVirtualQp \<Rightarrow> int" where
  "findAvailableRecvQp q =
     (if maxMsgCntPerQp q = -1 \<or>
         size_below (length (physicalRecvWrStatus (physicalQps q ! 0))) (maxMsgCntPerQp q) then 0 else -1)"

text \<open>One physical receive request on queue pair \<open>i\<close>; \<open>vid\<close> is the virtual id it is filed under.\<close>

definition post_recv_at ::
    "(u64 \<Rightarrow> bool) \<Rightarrow> int \<Rightarrow> ibv_sge list \<Rightarrow> u64 \<Rightarrow> IbvVirtualQp \<Rightarrow> vq_error option \<times> IbvVirtualQp" where
  "post_recv_at hw i sges vid q =
     (let p = \<lparr>rwr_id = nextPhysicalWrId q, rsg_list = sges\<rparr>;
          q = q\<lparr>nextPhysicalWrId := nextPhysicalWrId q + 1\<rparr>
      in if \<not> hw (rwr_id p) then (Some Errno, q)
         else (None, upd_qp i (enq_recv (rwr_id p, vid)) (q\<lparr>postedRecv := postedRecv q @ [(i, p)]\<rparr>)))"

text \<open>\<^verbatim>\<open>postRecvNotifyImm\<close>; in SPRAY mode the caller has checked that a receive request is pending.\<close>

definition postRecvNotifyImm :: "(u64 \<Rightarrow> bool) \<Rightarrow> int \<Rightarrow> IbvVirtualQp \<Rightarrow> vq_error option \<times> IbvVirtualQp" where
  "postRecvNotifyImm hw i q =
     (let vid = (if loadBalancingScheme q = SPRAY then rwr_id (rwr (hd (pendingRecv q))) else -1);
          (e, q) = post_recv_at hw i [] vid q
      in if e \<noteq> None then (e, q)
         else (None, if loadBalancingScheme q = SPRAY then q\<lparr>pendingRecv := tl (pendingRecv q)\<rparr> else q))"

text \<open>The two nested loops of \<^verbatim>\<open>initializeDqplbReceiver\<close>, over the list of queue pair indices they visit.\<close>

fun init_loop :: "(u64 \<Rightarrow> bool) \<Rightarrow> nat list \<Rightarrow> IbvVirtualQp \<Rightarrow> vq_error option \<times> IbvVirtualQp" where
  "init_loop hw [] q = (None, q)"
| "init_loop hw (j # js) q =
     (case post_recv_at hw (int j) [] (-1) q of (Some e, q') \<Rightarrow> (Some e, q') | (None, q') \<Rightarrow> init_loop hw js q')"

definition initializeDqplbReceiver :: "(u64 \<Rightarrow> bool) \<Rightarrow> IbvVirtualQp \<Rightarrow> vq_error option \<times> IbvVirtualQp" where
  "initializeDqplbReceiver hw q =
     (case init_loop hw (concat (replicate (nat (maxMsgCntPerQp q)) [0..<length (physicalQps q)])) q of
        (Some e, q') \<Rightarrow> (Some e, q')
      | (None, q') \<Rightarrow> (None, q'\<lparr>dqplbReceiverInitialized := True\<rparr>))"

text \<open>The fragment of the pending receive request in front, and the request after it was posted.\<close>

definition recv_fragment :: "int \<Rightarrow> VirtualRecvWr \<Rightarrow> ibv_sge list \<times> VirtualRecvWr" where
  "recv_fragment maxSize w =
     (case rsg_list (rwr w) of
        [g] \<Rightarrow>
          let l = frag_len maxSize (sge_length g) (roffset w)
          in ([\<lparr>addr = addr g + of_int (sint (roffset w)), sge_length = of_int l, lkey = lkey g\<rparr>],
              w\<lparr>roffset := roffset w + of_int l, rremainingMsgCnt := rremainingMsgCnt w - 1\<rparr>)
      | _ \<Rightarrow> ([], w\<lparr>rremainingMsgCnt := rremainingMsgCnt w - 1\<rparr>))"

partial_function (option) mapPendingRecv ::
    "(u64 \<Rightarrow> bool) \<Rightarrow> int \<Rightarrow> IbvVirtualQp \<Rightarrow> (vq_error option \<times> IbvVirtualQp) option" where
  "mapPendingRecv hw qpIdx q =
     (case pendingRecv q of
        [] \<Rightarrow> Some (None, q)
      | w # ws \<Rightarrow>
         if rsg_list (rwr w) = [] then
           (let (e, q') = postRecvNotifyImm hw (-1) q
            in if e \<noteq> None then Some (e, q') else mapPendingRecv hw qpIdx q')
         else if physicalQps q = [] then Some (Some OutOfRange, q)
         else let i = (if qpIdx \<noteq> 0 then findAvailableRecvQp q else qpIdx) in
           if i = -1 then Some (None, q)
           else let (sges, w') = recv_fragment (maxMsgSize q) w;
                    (e, q') = post_recv_at hw i sges (rwr_id (rwr w)) q
                in if e \<noteq> None then Some (e, q')
                   else mapPendingRecv hw (-1)
                     (q'\<lparr>pendingRecv := (if rremainingMsgCnt w' = 0 then ws else w' # ws)\<rparr>))"

definition recv_plan :: "ibv_recv_wr \<Rightarrow> IbvVirtualQp \<Rightarrow> vq_error + int" where
  "recv_plan w q =
     (case rsg_list w of
        [] \<Rightarrow> Inr 1
      | [g] \<Rightarrow> Inr (fragment_count (maxMsgSize q) (sge_length g))
      | _ \<Rightarrow> Inl EINVAL)"

text \<open>The part of \<^verbatim>\<open>postRecv\<close> after the request to the virtual completion queue.\<close>

definition enqueue_recv ::
    "(u64 \<Rightarrow> bool) \<Rightarrow> ibv_recv_wr \<Rightarrow> int \<Rightarrow> IbvVirtualQp \<Rightarrow> (vq_error option \<times> IbvVirtualQp) option" where
  "enqueue_recv hw w expected q =
     (let q = q\<lparr>pendingRecv := pendingRecv q @ [VirtualRecvWr_new w expected expected]\<rparr>
      in if loadBalancingScheme q \<noteq> DQPLB then
           (case mapPendingRecv hw (-1) q of None \<Rightarrow> None | Some (e, q) \<Rightarrow> Some (map_option (\<lambda>_. Errno) e, q))
         else if \<not> dqplbReceiverInitialized q then
           (let (e, q) = initializeDqplbReceiver hw q in Some (map_option (\<lambda>_. Errno) e, q))
         else Some (None, q))"

section \<open>Completions\<close>

text \<open>\<^verbatim>\<open>IbvVirtualQp::processRequest\<close>, by the type of the request; \<open>i\<close> is the index of the queue pair.\<close>

definition process_recv ::
    "(u64 \<Rightarrow> bool) \<Rightarrow> VirtualQpRequest \<Rightarrow> int \<Rightarrow> IbvVirtualQp \<Rightarrow> ((vq_error + VirtualQpResponse) \<times> IbvVirtualQp) option" where
  "process_recv hw r i q =
     (case physicalRecvWrStatus (qp_at i q) of
        [] \<Rightarrow> Some (Inl EINVAL, q)
      | (pid, vid) # rest \<Rightarrow>
         if pid \<noteq> rq_wrId r then Some (Inl EINVAL, q)
         else let q = upd_qp i (\<lambda>p. p\<lparr>physicalRecvWrStatus := rest\<rparr>) q;
                  resp = \<lparr>virtualWrId = vid, useDqplb = False, notifyCount = 0\<rparr>
              in if loadBalancingScheme q = DQPLB then
                   (let (e, q) = postRecvNotifyImm hw i q
                    in if e \<noteq> None then Some (Inl Errno, q)
                       else let (n, t) = processReceivedImm (rq_immData r) (seqTracker q)
                            in Some (Inr (resp\<lparr>notifyCount := n, useDqplb := True\<rparr>), q\<lparr>seqTracker := t\<rparr>))
                 else if i \<noteq> -1 then
                   (case mapPendingRecv hw i q of
                      None \<Rightarrow> None
                    | Some (Some e, q) \<Rightarrow> Some (Inl Errno, q)
                    | Some (None, q) \<Rightarrow> Some (Inr resp, q))
                 else Some (Inr resp, q))"

definition process_send ::
    "(u64 \<Rightarrow> bool) \<Rightarrow> VirtualQpRequest \<Rightarrow> int \<Rightarrow> IbvVirtualQp \<Rightarrow> ((vq_error + VirtualQpResponse) \<times> IbvVirtualQp) option" where
  "process_send hw r i q =
     (case physicalSendWrStatus (qp_at i q) of
        [] \<Rightarrow> Some (Inl EINVAL, q)
      | (pid, vid) # rest \<Rightarrow>
         if pid \<noteq> rq_wrId r then Some (Inl EINVAL, q)
         else let q = upd_qp i (\<lambda>p. p\<lparr>physicalSendWrStatus := rest\<rparr>) q;
                  resp = \<lparr>virtualWrId = vid, useDqplb = False, notifyCount = 0\<rparr>
              in if i \<noteq> -1 then
                   (case mapPendingSend hw i q of
                      None \<Rightarrow> None
                    | Some (Some e, q) \<Rightarrow> Some (Inl Errno, q)
                    | Some (None, q) \<Rightarrow> Some (Inr resp, q))
                 else Some (Inr resp, q))"

definition process_notify ::
    "(u64 \<Rightarrow> bool) \<Rightarrow> VirtualQpRequest \<Rightarrow> IbvVirtualQp \<Rightarrow> ((vq_error + VirtualQpResponse) \<times> IbvVirtualQp)" where
  "process_notify hw r q =
     (let resp = \<lparr>virtualWrId = 0, useDqplb = False, notifyCount = 0\<rparr> in
      case pendingSendNotify q of
        [] \<Rightarrow> (Inl EINVAL, q)
      | w # _ \<Rightarrow>
         if wr_id (swr w) = rq_wrId r
         then (case postSendNotifyImm hw q of (Some e, q') \<Rightarrow> (Inl Errno, q') | (None, q') \<Rightarrow> (Inr resp, q'))
         else (Inr resp, q))"

definition processRequest ::
    "(u64 \<Rightarrow> bool) \<Rightarrow> VirtualQpRequest \<Rightarrow> IbvVirtualQp \<Rightarrow> ((vq_error + VirtualQpResponse) \<times> IbvVirtualQp) option" where
  "processRequest hw r q =
     (let idx = (if physicalQpNum r = qp_num (notifyQp q) then Some (-1)
                 else map_option int (map_of (qpNumToIdx q) (physicalQpNum r)))
      in case idx of
           None \<Rightarrow> Some (Inl OutOfRange, q)
         | Some i \<Rightarrow>
            (case rq_type r of
               REQ_RECV \<Rightarrow> process_recv hw r i q
             | REQ_SEND \<Rightarrow> process_send hw r i q
             | REQ_SEND_NOTIFY \<Rightarrow> Some (process_notify hw r q)))"


section \<open>What is left to send\<close>

text \<open>The physical requests of a virtual one that are not posted yet, without ids and immediate values.\<close>

fun rest_of :: "LoadBalancingScheme \<Rightarrow> int \<Rightarrow> nat \<Rightarrow> VirtualSendWr \<Rightarrow> ibv_send_wr list" where
  "rest_of sch m 0 w = []"
| "rest_of sch m (Suc n) w =
     (let p = physical_wr sch m w (hd (sg_list (swr w)))
      in p # rest_of sch m n (w\<lparr>soffset := soffset w + sge_length (hd (sg_list p))\<rparr>))"

definition data_left :: "VirtualSendWr \<Rightarrow> int" where
  "data_left w = sremainingMsgCnt w - (if sendExtraNotifyImm w then 1 else 0)"

definition todo :: "IbvVirtualQp \<Rightarrow> ibv_send_wr list" where
  "todo q = concat (map (\<lambda>w. rest_of (loadBalancingScheme q) (maxMsgSize q) (nat (data_left w)) w) (pendingSend q))"

definition erase :: "ibv_send_wr \<Rightarrow> ibv_send_wr" where
  "erase p = p\<lparr>wr_id := 0, imm_data := 0\<rparr>"

text \<open>The data requests handed to the verbs library so far, in order.\<close>

definition sent :: "IbvVirtualQp \<Rightarrow> ibv_send_wr list" where
  "sent q = map (erase \<circ> snd) (filter (\<lambda>(i, p). i \<noteq> -1) (posted q))"

definition wf_qp :: "IbvVirtualQp \<Rightarrow> bool" where
  "wf_qp q \<longleftrightarrow> physicalQps q \<noteq> [] \<and> nextSendPhysicalQpIdx q < length (physicalQps q) \<and>
     (\<forall>w \<in> set (pendingSend q). sg_list (swr w) \<noteq> [] \<and> 0 < data_left w) \<and>
     (\<forall>(n, i) \<in> set (qpNumToIdx q). i < length (physicalQps q))"

definition same_config :: "IbvVirtualQp \<Rightarrow> IbvVirtualQp \<Rightarrow> bool" where
  "same_config q q' \<longleftrightarrow> loadBalancingScheme q' = loadBalancingScheme q \<and> maxMsgSize q' = maxMsgSize q \<and>
     maxMsgCntPerQp q' = maxMsgCntPerQp q \<and> length (physicalQps q') = length (physicalQps q) \<and>
     qpNumToIdx q' = qpNumToIdx q \<and> qp_num (notifyQp q') = qp_num (notifyQp q)"

definition full :: "IbvVirtualQp \<Rightarrow> nat \<Rightarrow> bool" where
  "full q j \<longleftrightarrow> \<not> size_below (length (physicalSendWrStatus (physicalQps q ! j))) (maxMsgCntPerQp q)"

text \<open>The loop has stopped for a reason: nothing is pending, or there is no room for the request in front.\<close>

definition stalled :: "IbvVirtualQp \<Rightarrow> bool" where
  "stalled q \<longleftrightarrow> (case pendingSend q of [] \<Rightarrow> True
     | w # ws \<Rightarrow> if is_rdma (opcode (swr w)) then \<forall>j < length (physicalQps q). full q j else full q 0)"

text \<open>No queue pair has more outstanding than the limit, and a slot the caller names is free.\<close>

definition within_capacity :: "IbvVirtualQp \<Rightarrow> bool" where
  "within_capacity q \<longleftrightarrow> maxMsgCntPerQp q < 0 \<or>
     (\<forall>p \<in> set (physicalQps q). int (length (physicalSendWrStatus p)) \<le> maxMsgCntPerQp q)"

definition rdma_only :: "IbvVirtualQp \<Rightarrow> bool" where
  "rdma_only q \<longleftrightarrow> (\<forall>w \<in> set (pendingSend q). is_rdma (opcode (swr w)))"

definition capacity_ready :: "int \<Rightarrow> IbvVirtualQp \<Rightarrow> bool" where
  "capacity_ready idx q \<longleftrightarrow> rdma_only q \<and> within_capacity q \<and> (idx \<noteq> -1 \<longrightarrow> \<not> full q (nat idx))"

lemma full_next [simp]: "full (q\<lparr>nextSendPhysicalQpIdx := m\<rparr>) j = full q j"
  by (simp add: full_def)

lemma find_loop_spec:
  assumes "physicalQps q \<noteq> []" "nextSendPhysicalQpIdx q = n mod length (physicalQps q)" "find_loop k q = (r, q')"
  shows "((r = -1 \<and> (\<forall>j < k. full q ((n + j) mod length (physicalQps q)))) \<or>
      (\<exists>j. j < length (physicalQps q) \<and> r = int j \<and> \<not> full q j)) \<and>
    (\<exists>m < length (physicalQps q). q' = q\<lparr>nextSendPhysicalQpIdx := m\<rparr>)"
  using assms
proof (induction k arbitrary: q n)
  case 0
  then show ?case by (auto intro!: exI [of _ "nextSendPhysicalQpIdx q"])
next
  case (Suc k)
  let ?L = "length (physicalQps q)" let ?i = "nextSendPhysicalQpIdx q"
  let ?q = "q\<lparr>nextSendPhysicalQpIdx := (?i + 1) mod ?L\<rparr>"
  have L: "0 < ?L" "?i < ?L" unfolding Suc.prems(2) using Suc.prems(1) by simp_all
  have n: "nextSendPhysicalQpIdx ?q = Suc n mod length (physicalQps ?q)" using Suc.prems(2) by (simp add: mod_Suc_eq)
  show ?case
  proof (cases "full q ?i")
    case False
    with Suc.prems(3) have e: "r = int ?i" "q' = ?q" by (simp_all add: full_def Let_def)
    have "\<exists>m < ?L. q' = q\<lparr>nextSendPhysicalQpIdx := m\<rparr>"
      using L by (intro exI [of _ "(?i + 1) mod ?L"]) (simp add: e)
    then show ?thesis using False L e(1) by blast
  next
    case True
    with Suc.prems(3) have l: "find_loop k ?q = (r, q')" by (simp add: full_def Let_def)
    have "\<forall>j < Suc k. full q ((n + j) mod ?L)" if a: "\<forall>j < k. full q ((Suc n + j) mod ?L)"
    proof (intro allI impI)
      fix j assume j: "j < Suc k"
      show "full q ((n + j) mod ?L)"
      proof (cases j)
        case 0
        then show ?thesis using True Suc.prems(2) by simp
      next
        case (Suc j')
        then show ?thesis using a j by auto
      qed
    qed
    then show ?thesis using Suc.IH [OF _ n l] Suc.prems(1) by auto
  qed
qed

lemma findAvailableSendQp_spec:
  assumes "physicalQps q \<noteq> []" "nextSendPhysicalQpIdx q < length (physicalQps q)" "findAvailableSendQp q = (r, q')"
  shows "(r = -1 \<and> (\<forall>j < length (physicalQps q). full q j)) \<or> (\<exists>j. j < length (physicalQps q) \<and> r = int j \<and> \<not> full q j)"
    and "\<exists>m < length (physicalQps q). q' = q\<lparr>nextSendPhysicalQpIdx := m\<rparr>"
proof -
  let ?L = "length (physicalQps q)" let ?n = "nextSendPhysicalQpIdx q"
  have L: "0 < ?L" "?n = ?n mod ?L" using assms(1,2) by auto
  have all: "\<forall>j < ?L. full q j" if a: "\<forall>j < ?L. full q ((?n + j) mod ?L)"
  proof (intro allI impI)
    fix j assume j: "j < ?L"
    have "(?n + (j + ?L - ?n) mod ?L) mod ?L = (?n + (j + ?L - ?n)) mod ?L" by (rule mod_add_right_eq)
    also have "\<dots> = j" using j assms(2) by simp
    finally have e: "(?n + (j + ?L - ?n) mod ?L) mod ?L = j" .
    have "full q ((?n + (j + ?L - ?n) mod ?L) mod ?L)" using a L(1) by simp
    then show "full q j" unfolding e .
  qed
  show "(r = -1 \<and> (\<forall>j < ?L. full q j)) \<or> (\<exists>j. j < ?L \<and> r = int j \<and> \<not> full q j)"
  proof (cases "maxMsgCntPerQp q = -1")
    case True
    then show ?thesis using assms(2,3) by (auto simp: findAvailableSendQp_def full_def size_below_def)
  next
    case False
    then have "find_loop ?L q = (r, q')" using assms(3) by (simp add: findAvailableSendQp_def)
    from find_loop_spec [OF assms(1) L(2) this] show ?thesis using all by blast
  qed
  show "\<exists>m < ?L. q' = q\<lparr>nextSendPhysicalQpIdx := m\<rparr>"
  proof (cases "maxMsgCntPerQp q = -1")
    case True
    then show ?thesis using assms L by (intro exI [of _ "(?n + 1) mod ?L"]) (auto simp: findAvailableSendQp_def)
  next
    case False
    then have "find_loop ?L q = (r, q')" using assms(3) by (simp add: findAvailableSendQp_def)
    from find_loop_spec [OF assms(1) L(2) this] show ?thesis by blast
  qed
qed


section \<open>One iteration\<close>

lemma choose_qp_spec:
  assumes "wf_qp q" "pendingSend q = w # ws" "-1 \<le> idx" "idx < int (length (physicalQps q))"
    and "choose_qp idx w q = (i, idx', q1)"
  shows "\<exists>m < length (physicalQps q). q1 = q\<lparr>nextSendPhysicalQpIdx := m\<rparr>"
    and "-1 \<le> idx' \<and> idx' < int (length (physicalQps q))"
    and "i = -1 \<Longrightarrow> stalled q" and "i \<noteq> -1 \<Longrightarrow> 0 \<le> i \<and> nat i < length (physicalQps q)"
    and "capacity_ready idx q \<Longrightarrow> idx' = -1 \<and> (i \<noteq> -1 \<longrightarrow> \<not> full q (nat i))"
proof -
  have w: "physicalQps q \<noteq> []" "nextSendPhysicalQpIdx q < length (physicalQps q)" using assms(1) by (simp_all add: wf_qp_def)
  have same: "\<exists>m < length (physicalQps q). q = q\<lparr>nextSendPhysicalQpIdx := m\<rparr>"
    using w by (intro exI [of _ "nextSendPhysicalQpIdx q"]) simp
  have "(\<exists>m < length (physicalQps q). q1 = q\<lparr>nextSendPhysicalQpIdx := m\<rparr>) \<and> -1 \<le> idx' \<and> idx' < int (length (physicalQps q)) \<and>
    (i = -1 \<longrightarrow> stalled q) \<and> (i \<noteq> -1 \<longrightarrow> 0 \<le> i \<and> nat i < length (physicalQps q)) \<and>
    (capacity_ready idx q \<longrightarrow> idx' = -1 \<and> (i \<noteq> -1 \<longrightarrow> \<not> full q (nat i)))"
  proof (cases "is_rdma (opcode (swr w))")
    case r: True
    show ?thesis
    proof (cases "idx = -1")
      case True
      obtain k q' where f: "findAvailableSendQp q = (k, q')" by (cases "findAvailableSendQp q")
      have e: "i = k" "idx' = -1" "q1 = q'" using assms(5) r True f by (simp_all add: choose_qp_def)
      from findAvailableSendQp_spec [OF w f] show ?thesis using r assms(2) w by (auto simp: e stalled_def)
    next
      case False
      then have e: "i = idx" "idx' = -1" "q1 = q" using assms(5) r by (simp_all add: choose_qp_def)
      show ?thesis using same False assms(3,4) w e by (auto simp: capacity_ready_def)
    qed
  next
    case False
    then have "(i, idx', q1) = (if full q 0 then -1 else 0, idx, q)"
      using assms(5) by (simp add: choose_qp_def full_def split: if_splits)
    then have e: "i = (if full q 0 then -1 else 0)" "idx' = idx" "q1 = q" by simp_all
    have nr: "\<not> capacity_ready idx q" using False assms(2) by (simp add: capacity_ready_def rdma_only_def)
    show ?thesis
      by (intro conjI) (use same False assms(2-4) w nr in \<open>simp_all add: e stalled_def split: if_splits\<close>)
  qed
  then show "\<exists>m < length (physicalQps q). q1 = q\<lparr>nextSendPhysicalQpIdx := m\<rparr>"
    "-1 \<le> idx' \<and> idx' < int (length (physicalQps q))"
    "i = -1 \<Longrightarrow> stalled q" "i \<noteq> -1 \<Longrightarrow> 0 \<le> i \<and> nat i < length (physicalQps q)"
    "capacity_ready idx q \<Longrightarrow> idx' = -1 \<and> (i \<noteq> -1 \<longrightarrow> \<not> full q (nat i))" by blast+
qed

text \<open>The physical request and the state it is built in.\<close>

lemma updatePhysicalSendWr_spec:
  assumes "updatePhysicalSendWr w g q = (p, q2)"
  shows "erase p = physical_wr (loadBalancingScheme q) (maxMsgSize q) w g" "sg_list p = sg_list (erase p)"
    "wr_id p = nextPhysicalWrId q"
    "\<exists>t. q2 = q\<lparr>nextPhysicalWrId := nextPhysicalWrId q + 1, seqTracker := t\<rparr>"
proof -
  have pw: "wr_id (physical_wr s m w g) = 0 \<and> imm_data (physical_wr s m w g) = 0" for s m
    by (simp add: physical_wr_def Let_def split: ibv_wr_opcode.split)
  have e: "erase (v\<lparr>wr_id := a\<rparr>) = v" "erase (v\<lparr>wr_id := a, imm_data := b\<rparr>) = v" if "wr_id v = 0 \<and> imm_data v = 0" for v :: ibv_send_wr and a b
    using that by (cases v; simp add: erase_def)+
  have q: "\<exists>t. q\<lparr>nextPhysicalWrId := a\<rparr> = q\<lparr>nextPhysicalWrId := a, seqTracker := t\<rparr>" for a
    by (intro exI [of _ "seqTracker q"]) (cases q, simp)
  show "erase p = physical_wr (loadBalancingScheme q) (maxMsgSize q) w g" "wr_id p = nextPhysicalWrId q"
    "\<exists>t. q2 = q\<lparr>nextPhysicalWrId := nextPhysicalWrId q + 1, seqTracker := t\<rparr>"
    using assms q by (auto simp: updatePhysicalSendWr_def Let_def e pw split: if_splits prod.splits)
  show "sg_list p = sg_list (erase p)" by (simp add: erase_def)
qed

lemma rest_of_cong: "swr w = swr w' \<Longrightarrow> soffset w = soffset w' \<Longrightarrow> rest_of s m n w = rest_of s m n w'"
proof (induction n arbitrary: w w')
  case 0
  then show ?case by simp
next
  case (Suc n)
  have p: "physical_wr s m w g = physical_wr s m w' g" for g
    by (simp only: physical_wr_def Suc.prems)
  show ?case unfolding rest_of.simps Let_def p Suc.prems by (intro arg_cong2 [of _ _ _ _ Cons] refl Suc.IH) (simp_all add: Suc.prems)
qed

lemma send_posted_spec:
  assumes w: "pendingSend q = w # ws" "0 < data_left w" "sg_list (swr w) \<noteq> []" and i: "i < length (physicalQps q)"
    and p: "erase p = physical_wr (loadBalancingScheme q) (maxMsgSize q) w (hd (sg_list (swr w)))"
    and q': "q' = send_posted i w ws p q"
  shows "sent q' = sent q @ [erase p]" "todo q = erase p # todo q'"
    "\<forall>v \<in> set (pendingSend q'). (v \<in> set ws \<or> swr v = swr w) \<and> (v \<notin> set ws \<longrightarrow> 0 < data_left v)"
    "same_config q q'" "nextSendPhysicalQpIdx q' = nextSendPhysicalQpIdx q"
    "physicalQps q' = (physicalQps q)[i := enq_send (wr_id p, wr_id (swr w)) (physicalQps q ! i)]"
proof -
  define v where "v = w\<lparr>soffset := soffset w + sge_length (hd (sg_list p)), sremainingMsgCnt := sremainingMsgCnt w - 1\<rparr>"
  define rest where "rest = (if data_left v = 0 then ws else v # ws)"
  have dv: "data_left v = data_left w - 1" by (simp add: v_def data_left_def)
  have pend: "pendingSend q' = rest" unfolding q' send_posted_def rest_def Let_def v_def [symmetric]
    using w(2) by (auto simp: data_left_def dv v_def)
  have oth: "posted q' = posted q @ [(int i, p)]" "same_config q q'" "nextSendPhysicalQpIdx q' = nextSendPhysicalQpIdx q"
    "physicalQps q' = (physicalQps q)[i := enq_send (wr_id p, wr_id (swr w)) (physicalQps q ! i)]"
    unfolding q' send_posted_def Let_def by (auto simp: same_config_def)
  show "sent q' = sent q @ [erase p]" by (simp add: sent_def oth(1))
  have r: "rest_of (loadBalancingScheme q) (maxMsgSize q) (nat (data_left w)) w =
      erase p # rest_of (loadBalancingScheme q) (maxMsgSize q) (nat (data_left v)) v"
  proof -
    obtain n where n: "nat (data_left w) = Suc n" "nat (data_left v) = n" using w(2) dv by (cases "nat (data_left w)") auto
    have "sg_list p = sg_list (erase p)" by (simp add: erase_def)
    then show ?thesis unfolding n rest_of.simps Let_def p [symmetric] by (simp add: v_def rest_of_cong)
  qed
  have "todo q' = (if data_left v = 0 then [] else rest_of (loadBalancingScheme q) (maxMsgSize q) (nat (data_left v)) v) @
      concat (map (\<lambda>w. rest_of (loadBalancingScheme q) (maxMsgSize q) (nat (data_left w)) w) ws)"
    using oth(2) by (simp add: todo_def pend rest_def same_config_def)
  then show "todo q = erase p # todo q'" using r by (cases "data_left v = 0") (simp_all add: todo_def w(1))
  show "\<forall>v \<in> set (pendingSend q'). (v \<in> set ws \<or> swr v = swr w) \<and> (v \<notin> set ws \<longrightarrow> 0 < data_left v)"
    using dv w(2) by (auto simp: pend rest_def v_def split: if_splits)
qed (simp_all add: send_posted_def q' Let_def same_config_def)


section \<open>The sending loop\<close>

definition send_outcome :: "(u64 \<Rightarrow> bool) \<Rightarrow> bool \<Rightarrow> IbvVirtualQp \<Rightarrow> vq_error option \<Rightarrow> IbvVirtualQp \<Rightarrow> bool" where
  "send_outcome hw cap q e q' \<longleftrightarrow> wf_qp q' \<and> same_config q q' \<and> sent q' @ todo q' = sent q @ todo q \<and>
     (e = None \<longrightarrow> stalled q') \<and> e \<in> {None, Some Errno} \<and> ((\<forall>i. hw i) \<longrightarrow> e = None) \<and>
     (cap \<longrightarrow> rdma_only q' \<and> within_capacity q')"

lemma send_outcome_trans:
  assumes "same_config q r" "sent r @ todo r = sent q @ todo q" "send_outcome hw cap' r e q'" "cap \<Longrightarrow> cap'"
  shows "send_outcome hw cap q e q'"
  using assms by (auto simp: send_outcome_def same_config_def)

lemma within_capacity_enq:
  assumes "within_capacity q" "\<not> full q i" "i < length (physicalQps q)"
    and "physicalQps q' = (physicalQps q)[i := enq_send e (physicalQps q ! i)]" "maxMsgCntPerQp q' = maxMsgCntPerQp q"
  shows "within_capacity q'"
  using assms by (auto simp: within_capacity_def full_def size_below_def enq_send_def dest!: subsetD [OF set_update_subset_insert])

lemma mapPendingSend_spec:
  assumes "wf_qp q" "-1 \<le> idx" "idx < int (length (physicalQps q))"
  shows "\<exists>e q'. mapPendingSend hw idx q = Some (e, q') \<and> send_outcome hw (capacity_ready idx q) q e q'"
  using assms
proof (induction "length (todo q)" arbitrary: q idx rule: less_induct)
  case less
  note wf = less.prems(1)
  show ?case
  proof (cases "pendingSend q")
    case Nil
    then have "mapPendingSend hw idx q = Some (None, q)" by (simp add: mapPendingSend.simps)
    then show ?thesis using Nil wf by (auto simp: send_outcome_def same_config_def stalled_def capacity_ready_def)
  next
    case (Cons w ws)
    then have w: "sg_list (swr w) \<noteq> []" "0 < data_left w" using wf by (simp_all add: wf_qp_def)
    obtain g gs where g: "sg_list (swr w) = g # gs" using w(1) by (cases "sg_list (swr w)") auto
    obtain i idx' q1 where c: "choose_qp idx w q = (i, idx', q1)" by (metis prod_cases3)
    note C = choose_qp_spec [OF wf Cons less.prems(2,3) c]
    obtain m where m: "m < length (physicalQps q)" "q1 = q\<lparr>nextSendPhysicalQpIdx := m\<rparr>" using C(1) by blast
    obtain p q2 where u: "updatePhysicalSendWr w g q1 = (p, q2)" by (cases "updatePhysicalSendWr w g q1")
    note U = updatePhysicalSendWr_spec [OF u]
    obtain t where t: "q2 = q1\<lparr>nextPhysicalWrId := nextPhysicalWrId q1 + 1, seqTracker := t\<rparr>" using U(4) by blast
    have same1: "same_config q q1" "sent q1 = sent q" "todo q1 = todo q" "wf_qp q1" "pendingSend q1 = w # ws"
      "stalled q1 = stalled q" "within_capacity q1 = within_capacity q" "rdma_only q1 = rdma_only q"
      using wf m(1) Cons
      by (simp_all add: m(2) same_config_def sent_def todo_def wf_qp_def stalled_def within_capacity_def rdma_only_def)
    have same2: "same_config q q2" "sent q2 = sent q" "todo q2 = todo q" "wf_qp q2" "pendingSend q2 = w # ws"
      "within_capacity q2 = within_capacity q" "rdma_only q2 = rdma_only q" "full q2 = full q"
      using same1 by (auto simp: t m(2) same_config_def sent_def todo_def wf_qp_def within_capacity_def rdma_only_def full_def fun_eq_iff)
    have unf: "mapPendingSend hw idx q = (if i = -1 then Some (None, q1)
        else if length (physicalQps q2) \<le> nat i then Some (Some OutOfRange, q2)
        else if \<not> hw (wr_id p) then Some (Some Errno, q2)
        else mapPendingSend hw idx' (send_posted (nat i) w ws p q2))"
      using wf by (subst mapPendingSend.simps) (simp add: Cons c g u wf_qp_def)
    show ?thesis
    proof (cases "i = -1")
      case True
      then show ?thesis using C(3) same1 by (auto simp: unf send_outcome_def capacity_ready_def)
    next
      case False
      then have i: "nat i < length (physicalQps q2)" using C(4) same2(1) by (simp add: same_config_def)
      show ?thesis
      proof (cases "hw (wr_id p)")
        case hwno: False
        then have "mapPendingSend hw idx q = Some (Some Errno, q2)" using unf False i by simp
        then show ?thesis using same2 hwno by (auto simp: send_outcome_def capacity_ready_def)
      next
        case True
        define q3 where "q3 = send_posted (nat i) w ws p q2"
        have pe: "erase p = physical_wr (loadBalancingScheme q2) (maxMsgSize q2) w (hd (sg_list (swr w)))"
          using U(1) same1(1) same2(1) by (simp add: g same_config_def)
        note P = send_posted_spec [OF same2(5) w(2,1) i pe q3_def]
        have e: "mapPendingSend hw idx q = mapPendingSend hw idx' q3" using unf False i True by (simp add: q3_def)
        have wf3: "wf_qp q3" using P(3-6) same2(4) w(1) Cons wf
          by (fastforce simp: wf_qp_def same_config_def)
        have cfg: "same_config q q3" using same2(1) P(4) by (simp add: same_config_def)
        have len: "length (physicalQps q3) = length (physicalQps q)" using cfg by (simp add: same_config_def)
        have cap: "capacity_ready idx' q3" if cr: "capacity_ready idx q"
        proof -
          have "rdma_only q3" using cr P(3) Cons by (fastforce simp: capacity_ready_def rdma_only_def)
          moreover have "within_capacity q3"
            by (rule within_capacity_enq [of q2 "nat i"]) (use cr C(5) False P(4,6) i same2 in \<open>auto simp: capacity_ready_def same_config_def\<close>)
          ultimately show ?thesis using C(5) [OF cr] by (simp add: capacity_ready_def)
        qed
        have "length (todo q3) < length (todo q)" using P(2) same2(3) by simp
        from less.hyps [OF this wf3, of idx'] C(2) len
        obtain e' q' where m': "mapPendingSend hw idx' q3 = Some (e', q')" "send_outcome hw (capacity_ready idx' q3) q3 e' q'" by (auto simp only: len)
        have "sent q3 @ todo q3 = sent q @ todo q" using P(1,2) same2(2,3) by simp
        from send_outcome_trans [OF cfg this m'(2)] cap m'(1) e show ?thesis by auto
      qed
    qed
  qed
qed

section \<open>Receiving does not touch the sending side\<close>

definition send_view where
  "send_view q = ((posted q, pendingSend q, pendingSendNotify q, nextSendPhysicalQpIdx q, map physicalSendWrStatus (physicalQps q)),
     (physicalSendWrStatus (notifyQp q), maxMsgCntPerQp q, maxMsgSize q, loadBalancingScheme q, qpNumToIdx q, qp_num (notifyQp q)))"

lemma map_update_same: "f y = f (xs ! i) \<Longrightarrow> map f (xs[i := y]) = map f xs"
  by (cases "i < length xs") (simp_all add: map_update list_update_beyond list_update_same_conv)

lemma send_view_upd_recv: "send_view (upd_qp i (\<lambda>p. p\<lparr>physicalRecvWrStatus := f p\<rparr>) q) = send_view q"
  by (simp add: send_view_def upd_qp_def map_update_same)

lemma post_recv_at_view: "post_recv_at hw i sges vid q = (e, q') \<Longrightarrow> send_view q' = send_view q"
  using send_view_upd_recv [of i "\<lambda>p. physicalRecvWrStatus p @ [(nextPhysicalWrId q, vid)]"]
  by (auto simp: post_recv_at_def Let_def enq_recv_def [abs_def] split: if_splits) (simp_all add: send_view_def)

lemma send_view_simps [simp]:
  "send_view (q\<lparr>pendingRecv := a\<rparr>) = send_view q" "send_view (q\<lparr>seqTracker := t\<rparr>) = send_view q"
  "send_view (q\<lparr>dqplbReceiverInitialized := b\<rparr>) = send_view q"
  by (simp_all add: send_view_def)

lemma postRecvNotifyImm_view: "postRecvNotifyImm hw i q = (e, q') \<Longrightarrow> send_view q' = send_view q"
  by (auto simp: postRecvNotifyImm_def Let_def split: prod.splits if_splits dest: post_recv_at_view)

lemma init_loop_view: "init_loop hw js q = (e, q') \<Longrightarrow> send_view q' = send_view q"
  by (induction hw js q rule: init_loop.induct) (auto split: prod.splits option.splits dest: post_recv_at_view)

lemma initializeDqplbReceiver_view: "initializeDqplbReceiver hw q = (e, q') \<Longrightarrow> send_view q' = send_view q"
  by (auto simp: initializeDqplbReceiver_def split: prod.splits option.splits dest: init_loop_view)

lemma snd_views [simp]: "send_view (snd (post_recv_at hw i sges vid q)) = send_view q"
  "send_view (snd (postRecvNotifyImm hw i q)) = send_view q"
  using post_recv_at_view postRecvNotifyImm_view by (metis prod.collapse)+

lemma mapPendingRecv_view: "mapPendingRecv hw i q = Some r \<Longrightarrow> send_view (snd r) = send_view q"
proof (rule mapPendingRecv.raw_induct [where P = "\<lambda>hw i q r. send_view (snd r) = send_view q"], goal_cases)
  case (1 f hw i q r)
  note IH = "1"(2)
  from "1"(3) show ?case
    by (auto simp: Let_def split: list.splits if_splits prod.splits dest!: IH dest: postRecvNotifyImm_view post_recv_at_view)
qed

lemma enqueue_recv_view: "enqueue_recv hw w n q = Some (e, q') \<Longrightarrow> send_view q' = send_view q"
  by (auto simp: enqueue_recv_def Let_def split: if_splits option.splits prod.splits
      dest!: mapPendingRecv_view initializeDqplbReceiver_view)

lemma process_recv_view: "process_recv hw r i q = Some (res, q') \<Longrightarrow> send_view q' = send_view q"
proof -
  assume p: "process_recv hw r i q = Some (res, q')"
  have u: "send_view (upd_qp k (\<lambda>p. p\<lparr>physicalRecvWrStatus := rest\<rparr>) q) = send_view q" for rest k
    using send_view_upd_recv [of k "\<lambda>_. rest"] by simp
  show ?thesis using p
    by (auto simp: process_recv_def Let_def u split: list.splits if_splits option.splits prod.splits
        dest!: mapPendingRecv_view postRecvNotifyImm_view)
qed

lemma send_view_facts:
  assumes "send_view q' = send_view q"
  shows "sent q' = sent q" "todo q' = todo q" "wf_qp q' = wf_qp q" "same_config q q'" "stalled q' = stalled q"
    "rdma_only q' = rdma_only q" "within_capacity q' = within_capacity q"
proof -
  have m: "map physicalSendWrStatus (physicalQps q') = map physicalSendWrStatus (physicalQps q)" using assms by (simp add: send_view_def)
  then have len: "length (physicalQps q') = length (physicalQps q)" by (metis length_map)
  have nth: "physicalSendWrStatus (physicalQps q' ! j) = physicalSendWrStatus (physicalQps q ! j)" if "j < length (physicalQps q)" for j
    using m that len by (metis nth_map)
  have set: "physicalSendWrStatus ` set (physicalQps q') = physicalSendWrStatus ` set (physicalQps q)" using m by (metis set_map)
  have ne: "physicalQps q' = [] \<longleftrightarrow> physicalQps q = []" using len by auto
  show "sent q' = sent q" "todo q' = todo q" "same_config q q'" "rdma_only q' = rdma_only q" "wf_qp q' = wf_qp q"
    using assms len ne by (simp_all add: send_view_def sent_def todo_def same_config_def rdma_only_def wf_qp_def)
  have full: "full q' j = full q j" if "j < length (physicalQps q) \<or> physicalQps q = []" for j
    using that nth ne assms by (auto simp: full_def send_view_def)
  show "stalled q' = stalled q"
  proof (cases "pendingSend q")
    case Nil
    then show ?thesis using assms by (simp add: stalled_def send_view_def)
  next
    case (Cons w ws)
    then have "pendingSend q' = w # ws" using assms by (simp add: send_view_def)
    then show ?thesis using Cons full full [of 0] len by (cases "physicalQps q") (auto simp: stalled_def)
  qed
  have "(\<forall>p \<in> set (physicalQps q'). int (length (physicalSendWrStatus p)) \<le> k) =
      (\<forall>p \<in> set (physicalQps q). int (length (physicalSendWrStatus p)) \<le> k)" for k
    using set by (metis (no_types, lifting) image_iff)
  then show "within_capacity q' = within_capacity q" using assms by (simp add: within_capacity_def send_view_def)
qed

section \<open>Runs\<close>

text \<open>The physical data requests of a user message, in order.\<close>

definition msg_frags :: "LoadBalancingScheme \<Rightarrow> int \<Rightarrow> ibv_send_wr \<Rightarrow> ibv_send_wr list" where
  "msg_frags sch m w =
     rest_of sch m (nat (fragment_count m (sge_length (hd (sg_list w))))) (VirtualSendWr_new w 0 0 False)"

text \<open>
  What the library and the completion queue do with a virtual queue pair: posts that pass the checks (of messages
  with at least one fragment), and completions in any order and with any outcome. The list has the messages posted.
\<close>

inductive vq_run :: "(u64 \<Rightarrow> bool) \<Rightarrow> IbvVirtualQp \<Rightarrow> ibv_send_wr list \<Rightarrow> IbvVirtualQp \<Rightarrow> bool" for hw q0 where
  init: "vq_run hw q0 [] q0"
| send: "\<lbrakk>vq_run hw q0 ms q; send_plan w q = Inr (n, x); 0 < fragment_count (maxMsgSize q) (sge_length (hd (sg_list w)));
    enqueue_send hw w n x q = Some (e, q')\<rbrakk> \<Longrightarrow> vq_run hw q0 (ms @ [w]) q'"
| recv: "\<lbrakk>vq_run hw q0 ms q; recv_plan v q = Inr n; enqueue_recv hw v n q = Some (e, q')\<rbrakk> \<Longrightarrow> vq_run hw q0 ms q'"
| complete: "\<lbrakk>vq_run hw q0 ms q; processRequest hw r q = Some (res, q')\<rbrakk> \<Longrightarrow> vq_run hw q0 ms q'"

definition vq_inv :: "(u64 \<Rightarrow> bool) \<Rightarrow> IbvVirtualQp \<Rightarrow> ibv_send_wr list \<Rightarrow> IbvVirtualQp \<Rightarrow> bool" where
  "vq_inv hw q0 ms q \<longleftrightarrow> wf_qp q \<and> same_config q0 q \<and>
     sent q @ todo q = sent q0 @ todo q0 @ concat (map (msg_frags (loadBalancingScheme q0) (maxMsgSize q0)) ms) \<and>
     ((\<forall>i. hw i) \<longrightarrow> stalled q) \<and> ((\<forall>w \<in> set ms. is_rdma (opcode w)) \<longrightarrow> rdma_only q \<and> within_capacity q)"

lemma vq_inv_same:
  assumes "vq_inv hw q0 ms q" "sent q' = sent q" "todo q' = todo q" "wf_qp q' = wf_qp q" "same_config q q'"
    "stalled q' = stalled q" "rdma_only q' = rdma_only q" "within_capacity q \<longrightarrow> within_capacity q'"
  shows "vq_inv hw q0 ms q'"
  using assms by (auto simp: vq_inv_def same_config_def)

lemma vq_inv_outcome:
  assumes "vq_inv hw q0 ms q" "send_outcome hw c q e q'" "(\<forall>w \<in> set ms. is_rdma (opcode w)) \<Longrightarrow> c"
  shows "vq_inv hw q0 ms q'"
  using assms by (auto simp: vq_inv_def send_outcome_def same_config_def)

lemma process_notify_inv:
  assumes "process_notify hw r q = (res, q')"
  shows "sent q' = sent q" "todo q' = todo q" "wf_qp q' = wf_qp q" "same_config q q'" "stalled q' = stalled q"
    "rdma_only q' = rdma_only q" "within_capacity q' = within_capacity q"
proof -
  have f: "full (q\<lparr>nextPhysicalWrId := a\<rparr>) j = full q j" "full (q\<lparr>nextPhysicalWrId := a, posted := b, notifyQp := c, pendingSendNotify := d\<rparr>) j = full q j" for a b c d j
    by (simp_all add: full_def)
  have "q' = q \<or> (\<exists>a. q' = q\<lparr>nextPhysicalWrId := a\<rparr>) \<or> (\<exists>a p e d. q' = q\<lparr>nextPhysicalWrId := a, posted := posted q @ [(-1, p)],
      notifyQp := enq_send e (notifyQp q), pendingSendNotify := d\<rparr>)"
    using assms unfolding process_notify_def postSendNotifyImm_def Let_def
    by (simp split: list.splits if_splits) blast+
  then show "sent q' = sent q" "todo q' = todo q" "wf_qp q' = wf_qp q" "same_config q q'" "stalled q' = stalled q"
    "rdma_only q' = rdma_only q" "within_capacity q' = within_capacity q"
    by (auto simp: sent_def todo_def wf_qp_def same_config_def stalled_def rdma_only_def within_capacity_def enq_send_def f
        split: list.split)
qed

text \<open>Taking a completed request off a queue pair frees the slot of a data queue pair.\<close>

lemma pop_send_inv:
  assumes i: "i = -1 \<or> (0 \<le> i \<and> nat i < length (physicalQps q))" and st: "physicalSendWrStatus (qp_at i q) = x # rest"
    and q': "q' = upd_qp i (\<lambda>p. p\<lparr>physicalSendWrStatus := rest\<rparr>) q"
  shows "sent q' = sent q" "todo q' = todo q" "wf_qp q' = wf_qp q" "same_config q q'" "rdma_only q' = rdma_only q"
    "within_capacity q \<longrightarrow> within_capacity q'" "i = -1 \<Longrightarrow> stalled q' = stalled q"
    "i \<noteq> -1 \<Longrightarrow> within_capacity q \<Longrightarrow> \<not> full q' (nat i)"
proof -
  show "sent q' = sent q" "todo q' = todo q" "wf_qp q' = wf_qp q" "same_config q q'" "rdma_only q' = rdma_only q"
    by (simp_all add: q' upd_qp_def sent_def todo_def wf_qp_def same_config_def rdma_only_def)
  have m: "maxMsgCntPerQp q' = maxMsgCntPerQp q" by (simp add: q' upd_qp_def)
  show "within_capacity q \<longrightarrow> within_capacity q'" "i \<noteq> -1 \<Longrightarrow> within_capacity q \<Longrightarrow> \<not> full q' (nat i)"
  proof (goal_cases)
    case 1
    show ?case
    proof
      assume c: "within_capacity q"
      show "within_capacity q'"
      proof (cases "i = -1")
        case True
        then show ?thesis using c by (simp add: q' upd_qp_def within_capacity_def)
      next
        case False
        then have n: "nat i < length (physicalQps q)" "physicalSendWrStatus (physicalQps q ! nat i) = x # rest"
          using i st by (auto simp: qp_at_def)
        have "maxMsgCntPerQp q < 0 \<or> int (length (physicalSendWrStatus (physicalQps q ! nat i))) \<le> maxMsgCntPerQp q"
          using c nth_mem [OF n(1)] by (auto simp: within_capacity_def)
        then have "int (length rest) \<le> maxMsgCntPerQp q" if "0 \<le> maxMsgCntPerQp q"
          using that by (simp add: n)
        then show ?thesis using c False by (auto simp: within_capacity_def m)
          (auto simp: q' upd_qp_def dest!: subsetD [OF set_update_subset_insert])
      qed
    qed
  next
    case 2
    then have n: "nat i < length (physicalQps q)" "physicalSendWrStatus (physicalQps q ! nat i) = x # rest"
      using i st by (auto simp: qp_at_def)
    have "maxMsgCntPerQp q < 0 \<or> int (length (physicalSendWrStatus (physicalQps q ! nat i))) \<le> maxMsgCntPerQp q"
      using 2(2) nth_mem [OF n(1)] by (auto simp: within_capacity_def)
    then have "maxMsgCntPerQp q < 0 \<or> int (length (x # rest)) \<le> maxMsgCntPerQp q" by (simp add: n)
    moreover have "physicalSendWrStatus (physicalQps q' ! nat i) = rest" using 2(1) n(1) by (simp add: q' upd_qp_def)
    ultimately show ?case by (auto simp: full_def size_below_def m)
  qed
  show "stalled q' = stalled q" if "i = -1"
  proof -
    have f: "full q' = full q" using that by (simp add: full_def q' upd_qp_def fun_eq_iff)
    have "pendingSend q' = pendingSend q" "length (physicalQps q') = length (physicalQps q)" by (simp_all add: q' upd_qp_def)
    then show ?thesis by (simp only: stalled_def f)
  qed
qed

lemma send_plan_spec:
  assumes "send_plan w q = Inr (n, x)"
  shows "sg_list w \<noteq> []" "n = fragment_count (maxMsgSize q) (sge_length (hd (sg_list w))) + (if x then 1 else 0)"
  using assms by (auto simp: send_plan_def Let_def split: if_splits list.splits)

lemma enqueue_send_inv:
  assumes inv: "vq_inv hw q0 ms q" and p: "send_plan w q = Inr (n, x)"
    and pos: "0 < fragment_count (maxMsgSize q) (sge_length (hd (sg_list w)))" and e: "enqueue_send hw w n x q = Some (e, q')"
  shows "vq_inv hw q0 (ms @ [w]) q'"
proof -
  let ?v = "VirtualSendWr_new w n n x"
  define q1 where "q1 = q\<lparr>pendingSend := pendingSend q @ [?v]\<rparr>"
  note P = send_plan_spec [OF p]
  have dl: "data_left ?v = fragment_count (maxMsgSize q) (sge_length (hd (sg_list w)))"
    by (simp add: data_left_def VirtualSendWr_new_def P(2))
  have cfg: "same_config q0 q" "loadBalancingScheme q = loadBalancingScheme q0" "maxMsgSize q = maxMsgSize q0" "same_config q q1"
    using inv by (simp_all add: vq_inv_def same_config_def q1_def)
  have wf: "wf_qp q1" using inv dl pos P(1) by (auto simp: wf_qp_def vq_inv_def q1_def VirtualSendWr_new_def)
  have "rest_of s m k ?v = rest_of s m k (VirtualSendWr_new w 0 0 False)" for s m k
    by (rule rest_of_cong) (simp_all add: VirtualSendWr_new_def)
  then have t: "todo q1 = todo q @ msg_frags (loadBalancingScheme q0) (maxMsgSize q0) w"
    by (simp add: todo_def q1_def dl msg_frags_def cfg)
  have s: "sent q1 = sent q" by (simp add: q1_def sent_def)
  have cap: "capacity_ready (-1) q1" if "\<forall>w \<in> set (ms @ [w]). is_rdma (opcode w)"
    using inv that by (auto simp: vq_inv_def capacity_ready_def rdma_only_def q1_def within_capacity_def VirtualSendWr_new_def)
  have "\<exists>e q'. mapPendingSend hw (-1) q1 = Some (e, q') \<and> send_outcome hw (capacity_ready (-1) q1) q1 e q'"
    by (rule mapPendingSend_spec [OF wf]) simp_all
  then have o: "send_outcome hw (capacity_ready (-1) q1) q1 e q'" using e by (simp add: enqueue_send_def q1_def)
  have "sent q' @ todo q' = sent q0 @ todo q0 @ concat (map (msg_frags (loadBalancingScheme q0) (maxMsgSize q0)) (ms @ [w]))"
    using o s t inv by (simp add: send_outcome_def vq_inv_def)
  moreover have "same_config q0 q'" using o cfg by (simp add: send_outcome_def same_config_def)
  ultimately show ?thesis using o cap by (auto simp: vq_inv_def send_outcome_def)
qed

lemma process_send_inv:
  assumes inv: "vq_inv hw q0 ms q" and i: "i = -1 \<or> (0 \<le> i \<and> nat i < length (physicalQps q))"
    and p: "process_send hw r i q = Some (res, q')"
  shows "vq_inv hw q0 ms q'"
proof (cases "physicalSendWrStatus (qp_at i q) = [] \<or> fst (hd (physicalSendWrStatus (qp_at i q))) \<noteq> rq_wrId r")
  case True
  then have "q' = q" using p by (auto simp: process_send_def split: list.splits prod.splits if_splits)
  then show ?thesis using inv by simp
next
  case False
  then obtain vid rest where st: "physicalSendWrStatus (qp_at i q) = (rq_wrId r, vid) # rest"
    by (cases "physicalSendWrStatus (qp_at i q)") auto
  define q1 where "q1 = upd_qp i (\<lambda>p. p\<lparr>physicalSendWrStatus := rest\<rparr>) q"
  note P = pop_send_inv [OF i st q1_def]
  show ?thesis
  proof (cases "i = -1")
    case True
    then have "q' = q1" using p st by (simp add: process_send_def Let_def q1_def)
    then show ?thesis using P True vq_inv_same [OF inv, of q1] by simp
  next
    case False
    then have i': "-1 \<le> i" "i < int (length (physicalQps q1))" using i P(4) by (auto simp: same_config_def)
    have wf: "wf_qp q1" using inv P(3) by (simp add: vq_inv_def)
    obtain e where e: "mapPendingSend hw i q1 = Some (e, q')"
      using p st False by (auto simp: process_send_def Let_def q1_def split: option.splits)
    with mapPendingSend_spec [OF wf i', of hw] have o: "send_outcome hw (capacity_ready i q1) q1 e q'" by simp
    have o': "send_outcome hw (capacity_ready i q1) q e q'"
      by (rule send_outcome_trans [OF P(4) _ o]) (simp_all add: P)
    have "capacity_ready i q1" if "\<forall>w \<in> set ms. is_rdma (opcode w)"
      using inv that P(5,6,8) False by (auto simp: vq_inv_def capacity_ready_def)
    with vq_inv_outcome [OF inv o'] show ?thesis by blast
  qed
qed

lemma processRequest_inv:
  assumes inv: "vq_inv hw q0 ms q" and p: "processRequest hw r q = Some (res, q')"
  shows "vq_inv hw q0 ms q'"
proof -
  have idx: "i < length (physicalQps q)" if "map_of (qpNumToIdx q) n = Some i" for n i
    using inv that by (auto simp: vq_inv_def wf_qp_def dest!: map_of_SomeD)
  consider "q' = q" | i where "process_recv hw r i q = Some (res, q')"
    | i where "process_send hw r i q = Some (res, q')" "i = -1 \<or> (0 \<le> i \<and> nat i < length (physicalQps q))"
    | "process_notify hw r q = (res, q')"
    using p idx by (fastforce simp: processRequest_def Let_def split: option.splits RequestType.splits if_splits)
  then show ?thesis
  proof cases
    case 1
    then show ?thesis using inv by simp
  next
    case 2
    show ?thesis by (rule vq_inv_same [OF inv]) (simp_all add: send_view_facts [OF process_recv_view [OF 2]])
  next
    case 3
    then show ?thesis using process_send_inv [OF inv] by blast
  next
    case 4
    show ?thesis by (rule vq_inv_same [OF inv]) (simp_all add: process_notify_inv [OF 4])
  qed
qed

lemma enqueue_send_returns:
  assumes inv: "vq_inv hw q0 ms q" and p: "send_plan w q = Inr (n, x)"
    and pos: "0 < fragment_count (maxMsgSize q) (sge_length (hd (sg_list w)))"
  shows "\<exists>e q'. enqueue_send hw w n x q = Some (e, q')"
proof -
  let ?q = "q\<lparr>pendingSend := pendingSend q @ [VirtualSendWr_new w n n x]\<rparr>"
  have "wf_qp ?q" using inv pos send_plan_spec [OF p] by (auto simp: wf_qp_def vq_inv_def VirtualSendWr_new_def data_left_def)
  then have "\<exists>e q'. mapPendingSend hw (-1) ?q = Some (e, q') \<and> send_outcome hw (capacity_ready (-1) ?q) ?q e q'"
    by (rule mapPendingSend_spec) simp_all
  then show ?thesis by (auto simp: enqueue_send_def)
qed

lemma processRequest_send_returns:
  assumes inv: "vq_inv hw q0 ms q" and r: "rq_type r = REQ_SEND"
  shows "\<exists>res q'. processRequest hw r q = Some (res, q')"
proof -
  have idx: "i < length (physicalQps q)" if "map_of (qpNumToIdx q) n = Some i" for n i
    using inv that by (auto simp: vq_inv_def wf_qp_def dest!: map_of_SomeD)
  have ret: "\<exists>res q'. process_send hw r i q = Some (res, q')" if i: "i = -1 \<or> (0 \<le> i \<and> nat i < length (physicalQps q))" for i
  proof (cases "physicalSendWrStatus (qp_at i q)")
    case Nil
    then show ?thesis by (simp add: process_send_def)
  next
    case (Cons x rest)
    define q1 where "q1 = upd_qp i (\<lambda>p. p\<lparr>physicalSendWrStatus := rest\<rparr>) q"
    note P = pop_send_inv [OF i Cons q1_def]
    have "\<exists>e q'. mapPendingSend hw i q1 = Some (e, q')" if "i \<noteq> -1"
    proof -
      have "wf_qp q1" "-1 \<le> i" "i < int (length (physicalQps q1))"
        using inv P(3,4) that i by (auto simp: vq_inv_def same_config_def)
      from mapPendingSend_spec [OF this] show ?thesis by blast
    qed
    then show ?thesis using Cons
      by (cases x; cases "i = -1") (auto simp: process_send_def Let_def q1_def split: option.splits)
  qed
  show ?thesis using idx ret r by (auto simp: processRequest_def Let_def split: option.splits)
qed

lemma vq_run_inv:
  assumes "vq_run hw q0 ms q" "vq_inv hw q0 [] q0"
  shows "vq_inv hw q0 ms q"
  using assms
proof (induction rule: vq_run.induct)
  case init
  then show ?case by simp
next
  case (send ms q w n x e q')
  then show ?case using enqueue_send_inv by blast
next
  case (recv ms q v n e q')
  show ?case by (rule vq_inv_same [OF recv.IH [OF recv.prems]]) (simp_all add: send_view_facts [OF enqueue_recv_view [OF recv.hyps(3)]])
next
  case (complete ms q r res q')
  then show ?case using processRequest_inv by blast
qed

lemma qpNumToIdx_range:
  "\<forall>(n, i) \<in> set (fold (\<lambda>(n, i) m. AList.update n i m) ps m). (n, i) \<in> set m \<or> i \<in> snd ` set ps" for m :: "(u32 \<times> nat) list"
proof (induction ps arbitrary: m)
  case Nil
  then show ?case by auto
next
  case (Cons a ps)
  have "set (AList.update k v m) \<subseteq> insert (k, v) (set m)" for k :: u32 and v :: nat by (induction m) auto
  then show ?case using Cons.IH [of "AList.update (fst a) (snd a) m"] by (fastforce split: prod.splits)
qed

lemma vq_inv_new:
  assumes "qps \<noteq> []"
  shows "vq_inv hw (IbvVirtualQp_new qps nq c m sch) [] (IbvVirtualQp_new qps nq c m sch)"
proof -
  let ?q = "IbvVirtualQp_new qps nq c m sch"
  have "\<forall>(n, i) \<in> set (qpNumToIdx ?q). i < length (physicalQps ?q)"
    using qpNumToIdx_range [of "zip qps [0..<length qps]" "[]"]
    by (fastforce simp: IbvVirtualQp_new_def set_zip)
  then show ?thesis using assms
    by (auto simp: vq_inv_def wf_qp_def same_config_def stalled_def rdma_only_def within_capacity_def)
      (auto simp: IbvVirtualQp_new_def IbvQp_new_def)
qed

lemma vq_order:
  assumes "vq_run hw (IbvVirtualQp_new qps nq c m sch) ms q" "qps \<noteq> []"
  shows "sent q @ todo q = concat (map (msg_frags sch m) ms) \<and>
    (\<forall>w n x. send_plan w q = Inr (n, x) \<and> 0 < fragment_count m (sge_length (hd (sg_list w))) \<longrightarrow>
       (\<exists>e q'. enqueue_send hw w n x q = Some (e, q'))) \<and>
    (\<forall>r. rq_type r = REQ_SEND \<longrightarrow> (\<exists>res q'. processRequest hw r q = Some (res, q')))"
proof (intro conjI allI impI)
  note I = vq_run_inv [OF assms(1) vq_inv_new [OF assms(2)]]
  have "sent q0 = [] \<and> todo q0 = []" if "q0 = IbvVirtualQp_new qps nq c m sch" for q0
    by (simp add: that IbvVirtualQp_new_def sent_def todo_def)
  moreover have m: "maxMsgSize q = m" using I by (simp add: vq_inv_def same_config_def IbvVirtualQp_new_def)
  ultimately show "sent q @ todo q = concat (map (msg_frags sch m) ms)"
    using I by (simp add: vq_inv_def) (simp add: IbvVirtualQp_new_def)
  show "\<exists>e q'. enqueue_send hw w n x q = Some (e, q')"
    if "send_plan w q = Inr (n, x) \<and> 0 < fragment_count m (sge_length (hd (sg_list w)))" for w n x
    using enqueue_send_returns [OF I] that m by simp
  show "\<exists>res q'. processRequest hw r q = Some (res, q')" if "rq_type r = REQ_SEND" for r
    by (rule processRequest_send_returns [OF I that])
qed

text \<open>With RDMA messages only, no queue pair ever has more outstanding requests than the limit; and as long as the
  library accepts posts, the sender waits only when there is no room: after every operation either nothing is pending
  or every queue pair is full (the first one, for plain sends).\<close>

theorem vq_capacity:
  assumes "vq_run hw (IbvVirtualQp_new qps nq c m sch) ms q" "qps \<noteq> []"
  shows "(0 \<le> c \<and> (\<forall>w \<in> set ms. is_rdma (opcode w)) \<longrightarrow>
      (\<forall>p \<in> set (physicalQps q). int (length (physicalSendWrStatus p)) \<le> c)) \<and> ((\<forall>i. hw i) \<longrightarrow> stalled q)"
  using vq_run_inv [OF assms(1) vq_inv_new [OF assms(2)]]
  by (auto simp: vq_inv_def within_capacity_def same_config_def IbvVirtualQp_new_def)

section \<open>The fragments of a message\<close>

lemma sint_of_nat: "x < 2 ^ 31 \<Longrightarrow> sint (of_nat x :: u32) = int x"
  by (simp add: sint_uint unsigned_of_nat take_bit_nat_eq_self signed_take_bit_int_eq_self)

lemma frag_len_nat:
  assumes "unat len < 2 ^ 31" "off \<le> unat len"
  shows "frag_len m len (of_nat off) = min (int (unat len - off)) m"
proof -
  have "len - of_nat off = of_nat (unat len - off)" using assms(2) by (simp add: of_nat_diff)
  then show ?thesis using assms sint_of_nat [of "unat len - off"] by (simp add: frag_len_def)
qed

lemma physical_wr_sg:
  "sg_list (physical_wr s m w g) = [\<lparr>addr = addr g + of_int (sint (soffset w)),
     sge_length = of_int (frag_len m (sge_length g) (soffset w)), lkey = lkey g\<rparr>]"
  by (simp add: physical_wr_def Let_def split: ibv_wr_opcode.split)

lemma physical_wr_remote:
  "is_rdma (opcode (swr w)) \<Longrightarrow> remote_addr (physical_wr s m w g) = remote_addr (swr w) + of_int (sint (soffset w))"
  by (auto simp: physical_wr_def Let_def is_rdma_def split: ibv_wr_opcode.split)

lemma rest_of_explicit:
  assumes "unat (sge_length (hd (sg_list (swr w)))) < 2 ^ 31" "0 < m" "soffset w = of_nat d"
    and "n = 0 \<or> d + (n - 1) * nat m < unat (sge_length (hd (sg_list (swr w))))"
  shows "rest_of s m n w = map (\<lambda>k. physical_wr s m (w\<lparr>soffset := of_nat (d + k * nat m)\<rparr>) (hd (sg_list (swr w)))) [0..<n]"
  using assms
proof (induction n arbitrary: w d)
  case 0
  then show ?case by simp
next
  case (Suc n)
  let ?g = "hd (sg_list (swr w))" let ?L = "unat (sge_length ?g)"
  define v where "v = w\<lparr>soffset := soffset w + of_int (frag_len m (sge_length ?g) (soffset w))\<rparr>"
  have d: "d + n * nat m < ?L" using Suc.prems(4) by simp
  have w: "w\<lparr>soffset := of_nat d\<rparr> = w" using Suc.prems(3) by (cases w) simp
  have r: "rest_of s m n v = map (\<lambda>k. physical_wr s m (w\<lparr>soffset := of_nat (d + Suc k * nat m)\<rparr>) ?g) [0..<n]"
  proof (cases n)
    case 0
    then show ?thesis by simp
  next
    case (Suc n')
    then have "d + nat m < ?L" using d by (simp add: algebra_simps)
    then have dm: "d \<le> ?L" "m \<le> int (?L - d)" using Suc.prems(2) by linarith+
    have f: "frag_len m (sge_length ?g) (soffset w) = m"
      unfolding Suc.prems(3) frag_len_nat [OF Suc.prems(1) dm(1)] using dm(2) by (rule min_absorb2)
    have "(of_int m :: u32) = of_nat (nat m)" using Suc.prems(2) by (metis of_int_of_nat_eq of_nat_nat order_less_imp_le)
    then have v: "v = w\<lparr>soffset := of_nat (d + nat m)\<rparr>" using f unfolding v_def Suc.prems(3) by simp
    have "rest_of s m n v = map (\<lambda>k. physical_wr s m (v\<lparr>soffset := of_nat ((d + nat m) + k * nat m)\<rparr>) (hd (sg_list (swr v)))) [0..<n]"
      by (rule Suc.IH) (use Suc.prems d Suc in \<open>simp_all add: v algebra_simps\<close>)
    then show ?thesis by (simp add: v algebra_simps)
  qed
  have "rest_of s m (Suc n) w = physical_wr s m w ?g # rest_of s m n v"
    by (simp add: Let_def physical_wr_sg v_def)
  then show ?case by (simp add: r w upt_conv_Cons map_Suc_upt [symmetric] distrib_right del: upt_Suc rest_of.simps)
qed

lemma unat_u32_inverse: "of_nat (unat x) = (x :: u32)"
  by simp

lemma fragment_count_nat:
  assumes "unat len < 2 ^ 31" "0 < m" "m < 2 ^ 31" "0 < unat len"
  shows "fragment_count m len = int ((unat len + nat m - 1) div nat m)"
proof -
  let ?M = "nat m" let ?n = "(unat len + ?M - 1) div ?M"
  have M: "(of_int m :: u32) = of_nat ?M" "0 < ?M" "?M < 2 ^ 31" using assms(2,3)
    by (metis of_int_of_nat_eq of_nat_nat order_less_imp_le) (use assms(2,3) in \<open>auto simp: nat_less_iff\<close>)
  have "len + of_int m - 1 = of_nat (unat len + ?M - 1)" using M by (simp add: of_nat_diff)
  moreover have "unat len + ?M - 1 < 2 ^ 32" using assms(1) M(3) by simp
  ultimately have "unat (len + of_int m - 1) = unat len + ?M - 1" by (simp add: unsigned_of_nat take_bit_nat_eq_self)
  moreover have "unat (of_int m :: u32) = ?M" unfolding M(1) using M(3) by (simp only: unsigned_of_nat) (simp add: take_bit_nat_eq_self)
  ultimately have "unat ((len + of_int m - 1) div of_int m) = ?n" by (simp add: unat_div)
  then have e: "(len + of_int m - 1) div of_int m = of_nat ?n" by (metis unat_u32_inverse)
  have "?n \<le> unat len" 
  proof -
    have "unat len + ?M - 1 < (unat len + 1) * ?M" using M(2) assms(4) by (cases ?M) (auto simp: algebra_simps)
    then have "?n < unat len + 1" using M(2) by (simp add: less_mult_imp_div_less)
    then show ?thesis by simp
  qed
  then show ?thesis using assms(1) by (simp only: fragment_count_def e) (simp add: sint_of_nat)
qed

lemma ceil_bounds:
  assumes "0 < M" "0 < L"
  shows "L \<le> ((L + M - 1) div M) * M" "((L + M - 1) div M - 1) * M < (L :: nat)" "0 < (L + M - 1) div M"
proof -
  have q: "(L + M - 1) div M * M + (L + M - 1) mod M = L + M - 1" by simp
  have r: "(L + M - 1) mod M < M" using assms(1) by simp
  show "L \<le> ((L + M - 1) div M) * M" using q r assms by linarith
  show p: "0 < (L + M - 1) div M" using assms by (simp add: div_greater_zero_iff)
  have "(L + M - 1) div M * M < L + M" using q assms by linarith
  moreover have "1 * M \<le> (L + M - 1) div M * M" using p by (intro mult_right_mono) auto
  ultimately show "((L + M - 1) div M - 1) * M < L" unfolding diff_mult_distrib by linarith
qed

lemma sum_fragments: "(\<Sum>k \<leftarrow> [0..<j]. min M (L - k * M)) = min (j * M) (L :: nat)"
proof (induction j)
  case 0
  then show ?case by simp
next
  case (Suc j)
  have "min (j * M) L + min M (L - j * M) = min (Suc j * M) L" by (cases "j * M \<le> L") auto
  then show ?case by (simp add: Suc.IH)
qed

text \<open>A message of fewer than 2 GiB is cut into consecutive fragments: the k-th starts k times the limit after the
  beginning, locally and remotely, none is longer than the limit, and together they have the length of the message.\<close>

theorem msg_frags_cover:
  fixes sch :: LoadBalancingScheme and m :: int
  assumes "sg_list w = g # gs" "0 < unat (sge_length g)" "unat (sge_length g) < 2 ^ 31" "0 < m" "m < 2 ^ 31"
  defines "L \<equiv> unat (sge_length g)" and "M \<equiv> nat m"
  defines "frags \<equiv> msg_frags sch m w"
  shows "map (\<lambda>p. (addr (hd (sg_list p)), unat (sge_length (hd (sg_list p))))) frags =
      map (\<lambda>k. (addr g + of_nat (k * M), min M (L - k * M))) [0..<(L + M - 1) div M] \<and>
    (is_rdma (opcode w) \<longrightarrow> map remote_addr frags = map (\<lambda>k. remote_addr w + of_nat (k * M)) [0..<(L + M - 1) div M]) \<and>
    (\<Sum>p \<leftarrow> frags. unat (sge_length (hd (sg_list p)))) = L"
proof (intro conjI impI)
  let ?n = "(L + M - 1) div M" let ?v = "VirtualSendWr_new w 0 0 False"
  have M: "0 < M" using assms(4) by (simp add: M_def)
  have L: "0 < L" "L < 2 ^ 31" using assms(2,3) by (simp_all add: L_def)
  note B = ceil_bounds [OF M L(1)]
  have v: "swr ?v = w" "soffset ?v = of_nat 0" "soffset (?v\<lparr>soffset := x\<rparr>) = x" "swr (?v\<lparr>soffset := x\<rparr>) = w" for x
    by (simp_all add: VirtualSendWr_new_def)
  have cnt: "nat (fragment_count m (sge_length (hd (sg_list w)))) = ?n"
    using fragment_count_nat [OF assms(3-5,2)] assms(1) by (simp add: L_def M_def)
  have f: "frags = map (\<lambda>k. physical_wr sch m (?v\<lparr>soffset := of_nat (k * M)\<rparr>) g) [0..<?n]"
    using rest_of_explicit [of ?v m 0 ?n sch] B(2) assms(1,3,4)
    unfolding frags_def msg_frags_def cnt v(1,2) L_def M_def by simp
  have k: "k * M < L" if "k < ?n" for k
  proof -
    have "k * M \<le> (?n - 1) * M" using that by (intro mult_right_mono) simp_all
    then show ?thesis using B(2) by (rule le_less_trans)
  qed
  have off: "of_int (sint (of_nat (k * M) :: u32)) = (of_nat (k * M) :: u64)" if "k < ?n" for k
    using k [OF that] L(2) by (simp only: sint_of_nat order.strict_trans of_int_of_nat_eq)
  have len: "unat (of_int (frag_len m (sge_length g) (of_nat (k * M))) :: u32) = min M (L - k * M)" if "k < ?n" for k
  proof -
    have "frag_len m (sge_length g) (of_nat (k * M)) = min (int (L - k * M)) m"
      unfolding L_def using k [OF that] by (intro frag_len_nat [OF assms(3)]) (simp add: L_def)
    also have "\<dots> = int (min M (L - k * M))" using assms(4) by (simp only: of_nat_min min.commute M_def int_nat_eq) simp
    finally have "frag_len m (sge_length g) (of_nat (k * M)) = int (min M (L - k * M))" .
    then have "unat (of_int (frag_len m (sge_length g) (of_nat (k * M))) :: u32) = unat (of_nat (min M (L - k * M)) :: u32)"
      by (simp only: of_int_of_nat_eq)
    also have "\<dots> = min M (L - k * M)" using L(2) by (simp only: unsigned_of_nat) (simp add: take_bit_nat_eq_self)
    finally show ?thesis .
  qed
  show 1: "map (\<lambda>p. (addr (hd (sg_list p)), unat (sge_length (hd (sg_list p))))) frags =
      map (\<lambda>k. (addr g + of_nat (k * M), min M (L - k * M))) [0..<?n]"
    unfolding f map_map by (intro map_cong refl) (simp only: comp_def physical_wr_sg list.sel ibv_sge.select_convs v atLeastLessThan_iff set_upt off len)
  show "map remote_addr frags = map (\<lambda>k. remote_addr w + of_nat (k * M)) [0..<?n]" if r: "is_rdma (opcode w)"
    unfolding f map_map using r
    by (intro map_cong refl) (simp only: comp_def physical_wr_remote v atLeastLessThan_iff set_upt off)
  have "map snd (map (\<lambda>p. (addr (hd (sg_list p)), unat (sge_length (hd (sg_list p))))) frags) = map (\<lambda>k. min M (L - k * M)) [0..<?n]"
    unfolding 1 by simp
  then have "(\<Sum>p \<leftarrow> frags. unat (sge_length (hd (sg_list p)))) = (\<Sum>k \<leftarrow> [0..<?n]. min M (L - k * M))"
    by (simp add: comp_def)
  then show "(\<Sum>p \<leftarrow> frags. unat (sge_length (hd (sg_list p)))) = L" using B(1) by (simp add: sum_fragments)
qed

section \<open>The data on the wire\<close>

text \<open>
  What a data request moves: from where, to where (of an RDMA request), and how many bytes. \<open>cut\<close> are the pieces of at most \<open>M\<close>
  bytes of a user's message.
\<close>

definition data_move :: "ibv_send_wr \<Rightarrow> u64 \<times> u64 \<times> nat" where
  "data_move p = (addr (hd (sg_list p)), if is_rdma (opcode p) then remote_addr p else 0, unat (sge_length (hd (sg_list p))))"

definition cut :: "nat \<Rightarrow> ibv_send_wr \<Rightarrow> (u64 \<times> u64 \<times> nat) list" where
  "cut M w = (let g = hd (sg_list w); L = unat (sge_length g)
     in map (\<lambda>k. (addr g + of_nat (k * M), if is_rdma (opcode w) then remote_addr w + of_nat (k * M) else 0, min M (L - k * M)))
          [0..<(L + M - 1) div M])"

definition cuttable :: "ibv_send_wr \<Rightarrow> bool" where
  "cuttable w \<longleftrightarrow> sg_list w \<noteq> [] \<and> 0 < unat (sge_length (hd (sg_list w))) \<and> unat (sge_length (hd (sg_list w))) < 2 ^ 31"

text \<open>The other operations are refused.\<close>

definition sendable :: "ibv_send_wr \<Rightarrow> bool" where
  "sendable w \<longleftrightarrow> opcode w \<notin> {IBV_WR_SEND_WITH_IMM, IBV_WR_ATOMIC_CMP_AND_SWP, IBV_WR_ATOMIC_FETCH_AND_ADD}"

lemma run_sendable: "vq_run hw q0 ms q \<Longrightarrow> list_all sendable ms"
proof (induction rule: vq_run.induct)
  case (send ms q w n x e q')
  then have "sendable w" by (auto simp: sendable_def send_plan_def split: if_splits)
  then show ?case using send.IH by simp
qed simp_all

lemma physical_wr_rdma: "sendable (swr w) \<Longrightarrow> is_rdma (opcode (physical_wr s m w g)) = is_rdma (opcode (swr w))"
  by (cases "opcode (swr w)") (simp_all add: physical_wr_def Let_def is_rdma_def sendable_def)

lemma rest_of_rdma: "sendable (swr w) \<Longrightarrow> p \<in> set (rest_of s m n w) \<Longrightarrow> is_rdma (opcode p) = is_rdma (opcode (swr w))"
proof (induction n arbitrary: w)
  case (Suc n)
  define v where "v = w\<lparr>soffset := soffset w + sge_length (hd (sg_list (physical_wr s m w (hd (sg_list (swr w))))))\<rparr>"
  have v: "swr v = swr w" by (simp add: v_def)
  have "p = physical_wr s m w (hd (sg_list (swr w))) \<or> p \<in> set (rest_of s m n v)" using Suc.prems(2) by (simp add: Let_def v_def)
  then show ?case using physical_wr_rdma [OF Suc.prems(1)] Suc.IH [of v] Suc.prems(1) unfolding v by blast
qed simp

lemma zip_parts:
  assumes "map f xs = map f' zs" "map g xs = map g' zs" "map h xs = map h' zs"
  shows "map (\<lambda>x. (f x, g x, h x)) xs = map (\<lambda>z. (f' z, g' z, h' z)) zs"
proof (rule nth_equalityI)
  show l: "length (map (\<lambda>x. (f x, g x, h x)) xs) = length (map (\<lambda>z. (f' z, g' z, h' z)) zs)" using assms(1) by (metis length_map)
  fix i assume "i < length (map (\<lambda>x. (f x, g x, h x)) xs)"
  then have i: "i < length xs" "i < length zs" using l by simp_all
  show "map (\<lambda>x. (f x, g x, h x)) xs ! i = map (\<lambda>z. (f' z, g' z, h' z)) zs ! i"
    using i arg_cong [OF assms(1), of "\<lambda>l. l ! i"] arg_cong [OF assms(2), of "\<lambda>l. l ! i"] arg_cong [OF assms(3), of "\<lambda>l. l ! i"] by simp
qed

lemma data_move_frags:
  assumes "cuttable w" "0 < m" "m < 2 ^ 31" "sendable w"
  shows "map data_move (msg_frags sch m w) = cut (nat m) w"
proof -
  obtain g gs where g: "sg_list w = g # gs" using assms(1) by (cases "sg_list w") (auto simp: cuttable_def)
  let ?L = "unat (sge_length g)" let ?M = "nat m" let ?f = "msg_frags sch m w" let ?ks = "[0..<(?L + ?M - 1) div ?M]"
  have L: "0 < ?L" "?L < 2 ^ 31" using assms(1) g by (simp_all add: cuttable_def)
  note C = msg_frags_cover [OF g L assms(2,3), of sch]
  have a: "map (\<lambda>p. addr (hd (sg_list p))) ?f = map (\<lambda>k. addr g + of_nat (k * ?M)) ?ks"
    using arg_cong [OF conjunct1 [OF C], of "map fst"] unfolding map_map by (simp only: comp_def fst_conv)
  have l: "map (\<lambda>p. unat (sge_length (hd (sg_list p)))) ?f = map (\<lambda>k. min ?M (?L - k * ?M)) ?ks"
    using arg_cong [OF conjunct1 [OF C], of "map snd"] unfolding map_map by (simp only: comp_def snd_conv)
  have op: "is_rdma (opcode p) = is_rdma (opcode w)" if "p \<in> set ?f" for p
    using rest_of_rdma [of "VirtualSendWr_new w 0 0 False" p sch m] that assms(4) by (simp add: msg_frags_def VirtualSendWr_new_def)
  have "length ?f = length ?ks" using arg_cong [OF a, of length] by simp
  then have r: "map (\<lambda>p. if is_rdma (opcode p) then remote_addr p else 0) ?f =
      map (\<lambda>k. if is_rdma (opcode w) then remote_addr w + of_nat (k * ?M) else 0) ?ks"
    using conjunct1 [OF conjunct2 [OF C]] op
    by (cases "is_rdma (opcode w)") (simp_all only: if_True if_False simp_thms cong: map_cong, simp add: map_replicate_const)
  show ?thesis unfolding data_move_def cut_def g list.sel Let_def by (rule zip_parts [OF a r l])
qed

lemma data_move_erase: "data_move (erase p) = data_move p"
  by (simp add: data_move_def erase_def)

text \<open>C38: Let non-empty messages of fewer than 2 GiB be posted on a virtual queue pair, with receives and completions in between in any
  order and whichever posts fail. Then the data requests handed to the verbs library (the notification messages of the other queue
  pair apart) move, in this order and without a gap, repetition or overlap, the beginning of the messages cut into pieces of the size limit, and
  all of it when nothing is pending. Posting a further message and handling the completion of a send always return.\<close>

theorem vq_fifo:
  assumes "vq_run hw (IbvVirtualQp_new qps nq c m sch) ms q" "qps \<noteq> []" "0 < m" "m < 2 ^ 31" "list_all cuttable ms"
  shows "prefix (map data_move (sent q)) (concat (map (cut (nat m)) ms)) \<and>
    (pendingSend q = [] \<longrightarrow> map data_move (sent q) = concat (map (cut (nat m)) ms)) \<and>
    (\<forall>w n x. send_plan w q = Inr (n, x) \<and> cuttable w \<longrightarrow> (\<exists>e q'. enqueue_send hw w n x q = Some (e, q'))) \<and>
    (\<forall>r. rq_type r = REQ_SEND \<longrightarrow> (\<exists>res q'. processRequest hw r q = Some (res, q')))"
proof -
  note V = vq_order [OF assms(1,2)]
  have "map data_move (concat (map (msg_frags sch m) ms)) = concat (map (cut (nat m)) ms)"
    using assms(3-5) run_sendable [OF assms(1)] by (induction ms) (simp_all add: data_move_frags)
  then have e: "map data_move (sent q) @ map data_move (todo q) = concat (map (cut (nat m)) ms)" using V by (metis map_append)
  have "0 < fragment_count m (sge_length (hd (sg_list w)))" if "cuttable w" for w
  proof -
    let ?L = "unat (sge_length (hd (sg_list w)))"
    have L: "0 < ?L" "?L < 2 ^ 31" using that by (simp_all add: cuttable_def)
    have "0 < nat m" using assms(3) by simp
    then show ?thesis using ceil_bounds(3) [of "nat m" ?L] fragment_count_nat [OF L(2) assms(3,4) L(1)] L(1) by simp
  qed
  moreover have "todo q = []" if "pendingSend q = []" using that by (simp add: todo_def)
  ultimately show ?thesis using V e using prefixI [OF e [symmetric]] by auto
qed

section \<open>Concrete runs\<close>

declare mapPendingSend.simps [code] mapPendingRecv.simps [code]

definition example_wr :: "u64 \<Rightarrow> ibv_wr_opcode \<Rightarrow> u32 \<Rightarrow> ibv_send_wr" where
  "example_wr i op len = \<lparr>wr_id = i, sg_list = [\<lparr>addr = 0x1000, sge_length = len, lkey = 7\<rparr>], opcode = op, signaled = True,
     remote_addr = 0x8000, rkey = 9, imm_data = 5\<rparr>"

definition example_qp :: IbvVirtualQp where
  "example_qp = IbvVirtualQp_new [10, 11] 12 1 100 SPRAY"

text \<open>Operations of a run that go well, one after the other; the library accepts every post.\<close>

definition post_ok :: "ibv_send_wr \<Rightarrow> IbvVirtualQp \<Rightarrow> IbvVirtualQp" where
  "post_ok w q = (case send_plan w q of
     Inl e \<Rightarrow> q | Inr (n, x) \<Rightarrow> (case enqueue_send (\<lambda>_. True) w n x q of None \<Rightarrow> q | Some (e, q') \<Rightarrow> q'))"

definition complete_ok :: "RequestType \<Rightarrow> u64 \<Rightarrow> u32 \<Rightarrow> IbvVirtualQp \<Rightarrow> IbvVirtualQp" where
  "complete_ok ty i num q =
     (case processRequest (\<lambda>_. True) \<lparr>rq_type = ty, rq_wrId = i, physicalQpNum = num, rq_immData = 0\<rparr> q of
        None \<Rightarrow> q | Some (res, q') \<Rightarrow> q')"

lemma vq_run_post_ok:
  assumes "vq_run (\<lambda>_. True) q0 ms q" "0 < fragment_count (maxMsgSize q) (sge_length (hd (sg_list w)))"
    "send_plan w q \<noteq> Inl EINVAL" "sg_list w \<noteq> []" "vq_inv (\<lambda>_. True) q0 ms q"
  shows "vq_run (\<lambda>_. True) q0 (ms @ [w]) (post_ok w q)"
proof -
  obtain n x where p: "send_plan w q = Inr (n, x)"
    using assms(3,4) by (cases "send_plan w q") (auto simp: send_plan_def Let_def split: if_splits list.splits)
  obtain e q' where "enqueue_send (\<lambda>_. True) w n x q = Some (e, q')" using enqueue_send_returns [OF assms(5) p assms(2)] by blast
  then show ?thesis using vq_run.send [OF assms(1) p assms(2)] p by (simp add: post_ok_def)
qed

lemma vq_run_complete_ok:
  "vq_run (\<lambda>_. True) q0 ms q \<Longrightarrow> vq_run (\<lambda>_. True) q0 ms (complete_ok ty i num q)"
  unfolding complete_ok_def by (auto split: option.split intro: vq_run.complete)

definition example_run :: IbvVirtualQp where
  "example_run = complete_ok REQ_SEND 0 10 (post_ok (example_wr 1 IBV_WR_RDMA_WRITE 250) example_qp)"

lemma example_run_reaches:
  "vq_run (\<lambda>_. True) (IbvVirtualQp_new [10, 11] 12 1 100 SPRAY) [example_wr 1 IBV_WR_RDMA_WRITE 250] example_run"
proof -
  have i: "vq_run (\<lambda>_. True) example_qp [] example_qp" by (rule vq_run.init)
  have v: "vq_inv (\<lambda>_. True) example_qp [] example_qp" unfolding example_qp_def by (rule vq_inv_new) simp
  have "vq_run (\<lambda>_. True) example_qp ([] @ [example_wr 1 IBV_WR_RDMA_WRITE 250]) (post_ok (example_wr 1 IBV_WR_RDMA_WRITE 250) example_qp)"
    by (rule vq_run_post_ok [OF i _ _ _ v]) code_simp+
  from vq_run_complete_ok [OF this] show ?thesis unfolding example_run_def example_qp_def by simp
qed

theorem vq_fifo_witness:
  "prefix (map data_move (sent example_run)) (cut 100 (example_wr 1 IBV_WR_RDMA_WRITE 250)) \<and> length (sent example_run) = 3 \<and>
   cut 100 (example_wr 1 IBV_WR_RDMA_WRITE 250) = [(0x1000, 0x8000, 100), (0x1064, 0x8064, 100), (0x10C8, 0x80C8, 50)]"
proof -
  have "list_all cuttable [example_wr 1 IBV_WR_RDMA_WRITE 250]" by (simp add: cuttable_def example_wr_def)
  note F = vq_fifo [OF example_run_reaches _ _ _ this]
  have "length (sent example_run) = 3" by code_simp
  moreover have "cut 100 (example_wr 1 IBV_WR_RDMA_WRITE 250) = [(0x1000, 0x8000, 100), (0x1064, 0x8064, 100), (0x10C8, 0x80C8, 50)]" by code_simp
  ultimately show ?thesis using F by simp
qed

theorem vq_capacity_witness:
  "list_all (\<lambda>p. int (length (physicalSendWrStatus p)) \<le> 1) (physicalQps example_run) \<and> stalled example_run"
  using vq_capacity [OF example_run_reaches] by (simp add: example_wr_def is_rdma_def list_all_iff)

theorem msg_frags_cover_witness:
  "(\<Sum>p \<leftarrow> msg_frags SPRAY 100 (example_wr 1 IBV_WR_RDMA_WRITE 250). unat (sge_length (hd (sg_list p)))) = 250"
  using msg_frags_cover [of "example_wr 1 IBV_WR_RDMA_WRITE 250" "\<lparr>addr = 0x1000, sge_length = 250, lkey = 7\<rparr>" "[]" 100 SPRAY]
  by (simp add: example_wr_def)

text \<open>
  What the hypotheses exclude. A message of 2 GiB goes out as one fragment, far above the limit, because its length is
  negative as an \<^verbatim>\<open>int\<close>; a plain send in front of an RDMA write makes the loop use the freed slot of queue pair 0 twice.
\<close>

lemma oversized_fragment:
  "sge_length (hd (sg_list (hd (msg_frags SPRAY 100 (example_wr 1 IBV_WR_RDMA_WRITE 0x80000000))))) = 0x80000000"
proof -
  have hd: "hd (rest_of s m k w) = physical_wr s m w (hd (sg_list (swr w)))" if "0 < k" for s m k w
    using that by (cases k) (simp_all add: Let_def)
  have "fragment_count 100 0x80000000 = 21474837" by code_simp
  then show ?thesis
    by (simp add: msg_frags_def example_wr_def hd physical_wr_sg VirtualSendWr_new_def) code_simp
qed

lemma capacity_exceeded:
  "let q = complete_ok REQ_SEND 0 10 (post_ok (example_wr 3 IBV_WR_RDMA_WRITE 10) (post_ok (example_wr 2 IBV_WR_SEND 10)
        (post_ok (example_wr 1 IBV_WR_RDMA_WRITE 200) example_qp)))
   in maxMsgCntPerQp q = 1 \<and> length (physicalSendWrStatus (physicalQps q ! 0)) = 2"
  by code_simp

end
