(* ===== verification/Virtual_Cq.thy ===== *)
theory Virtual_Cq imports Virtual_Qp begin

text \<open>
  The virtual completion queue \<^verbatim>\<open>IbvVirtualCq\<close>, the \<^verbatim>\<open>Coordinator\<close> that routes between it and the virtual queue
  pairs, and the public operations \<^verbatim>\<open>postSend\<close>, \<^verbatim>\<open>postRecv\<close> and \<^verbatim>\<open>pollCq\<close> of \<^verbatim>\<open>comms/ctran/ibverbx/Ibverbx.h\<close>. What
  polling the physical completion queue yields is an argument. The pointers into the queues of virtual completions
  are tokens: each completion entry gets a fresh one, a null pointer is \<open>None\<close>.
\<close>

section \<open>Data\<close>

datatype ibv_wc_opcode =
    IBV_WC_SEND | IBV_WC_RDMA_WRITE | IBV_WC_RDMA_READ | IBV_WC_COMP_SWAP | IBV_WC_FETCH_ADD | IBV_WC_BIND_MW
  | IBV_WC_RECV | IBV_WC_RECV_RDMA_WITH_IMM

text \<open>The status is \<^verbatim>\<open>IBV_WC_SUCCESS\<close> when it is 0.\<close>

record ibv_wc =
  wc_wr_id :: u64
  wc_status :: nat
  wc_opcode :: ibv_wc_opcode
  vendor_err :: u32
  byte_len :: u32
  wc_imm_data :: u32
  wc_qp_num :: u32
  src_qp :: u32
  wc_flags :: u32
  pkey_index :: u32
  slid :: u32
  sl :: u32
  dlid_path_bits :: u32

record VirtualWc =
  wc :: ibv_wc
  expectedMsgCnt :: int
  remainingMsgCnt :: int
  wcExtraNotifyImm :: bool
  token :: nat

datatype VirtualCqRequest =
    CqSend int int ibv_send_wr bool
  | CqRecv int int ibv_recv_wr

record IbvVirtualCq =
  sendWcs :: "VirtualWc list"
  recvWcs :: "VirtualWc list"
  wcOf :: "(u64 \<times> nat option) list"
  nextToken :: nat

definition IbvVirtualCq_new :: IbvVirtualCq where
  "IbvVirtualCq_new = \<lparr>sendWcs = [], recvWcs = [], wcOf = [], nextToken = 0\<rparr>"

text \<open>The objects and the maps of the coordinator, which name them by their position.\<close>

record vq_sys =
  vqps :: "IbvVirtualQp list"
  vcqs :: "IbvVirtualCq list"
  qpOf :: "(u32 \<times> nat) list"
  sendCqOf :: "(int \<times> nat) list"
  recvCqOf :: "(int \<times> nat) list"

section \<open>Requests to the completion queue\<close>

definition VirtualWc_new :: "u64 \<Rightarrow> int \<Rightarrow> int \<Rightarrow> bool \<Rightarrow> nat \<Rightarrow> VirtualWc" where
  "VirtualWc_new i qpNum expected extra tok =
     \<lparr>wc = \<lparr>wc_wr_id = i, wc_status = 0, wc_opcode = IBV_WC_SEND, vendor_err = 0, byte_len = 0, wc_imm_data = 0,
            wc_qp_num = of_int qpNum, src_qp = 0, wc_flags = 0, pkey_index = 0, slid = 0, sl = 0, dlid_path_bits = 0\<rparr>,
      expectedMsgCnt = expected, remainingMsgCnt = expected, wcExtraNotifyImm = extra, token = tok\<rparr>"

fun cq_processRequest :: "VirtualCqRequest \<Rightarrow> IbvVirtualCq \<Rightarrow> IbvVirtualCq" where
  "cq_processRequest (CqSend qpNum expected w extra) c =
     (if signaled w \<or> opcode w = IBV_WR_RDMA_WRITE_WITH_IMM
      then c\<lparr>sendWcs := sendWcs c @ [VirtualWc_new (wr_id w) qpNum expected extra (nextToken c)],
             wcOf := AList.update (wr_id w) (Some (nextToken c)) (wcOf c), nextToken := nextToken c + 1\<rparr>
      else c\<lparr>wcOf := AList.update (wr_id w) None (wcOf c)\<rparr>)"
| "cq_processRequest (CqRecv qpNum expected w) c =
     c\<lparr>recvWcs := recvWcs c @ [VirtualWc_new (rwr_id w) qpNum expected False (nextToken c)],
       wcOf := AList.update (rwr_id w) (Some (nextToken c)) (wcOf c), nextToken := nextToken c + 1\<rparr>"

definition updateVirtualWc :: "ibv_wc \<Rightarrow> ibv_wc \<Rightarrow> ibv_wc" where
  "updateVirtualWc p v =
     v\<lparr>wc_status := (if wc_status p \<noteq> 0 \<and> wc_status v = 0 then wc_status p else wc_status v),
       wc_opcode := wc_opcode p, vendor_err := vendor_err p, src_qp := src_qp p, byte_len := byte_len v + byte_len p,
       wc_imm_data := wc_imm_data p, wc_flags := wc_flags p, pkey_index := pkey_index p, slid := slid p, sl := sl p,
       dlid_path_bits := dlid_path_bits p\<rparr>"

text \<open>The completion entry a token points to is somewhere in the queues.\<close>

definition upd_token :: "nat \<Rightarrow> (VirtualWc \<Rightarrow> VirtualWc) \<Rightarrow> IbvVirtualCq \<Rightarrow> IbvVirtualCq" where
  "upd_token t f c = c\<lparr>sendWcs := map (\<lambda>v. if token v = t then f v else v) (sendWcs c),
                       recvWcs := map (\<lambda>v. if token v = t then f v else v) (recvWcs c)\<rparr>"

definition get_token :: "nat \<Rightarrow> IbvVirtualCq \<Rightarrow> VirtualWc option" where
  "get_token t c = find (\<lambda>v. token v = t) (sendWcs c @ recvWcs c)"

section \<open>The coordinator\<close>

definition submitToVirtualCq :: "VirtualCqRequest \<Rightarrow> vq_sys \<Rightarrow> vq_error + vq_sys" where
  "submitToVirtualCq r s =
     (case (case r of CqSend n _ _ _ \<Rightarrow> map_of (sendCqOf s) n | CqRecv n _ _ \<Rightarrow> map_of (recvCqOf s) n) of
        None \<Rightarrow> Inl OutOfRange
      | Some c \<Rightarrow> Inr (s\<lparr>vcqs := (vcqs s)[c := cq_processRequest r (vcqs s ! c)]\<rparr>))"

definition submitToVirtualQp ::
    "(u64 \<Rightarrow> bool) \<Rightarrow> VirtualQpRequest \<Rightarrow> vq_sys \<Rightarrow> ((vq_error + VirtualQpResponse) \<times> vq_sys) option" where
  "submitToVirtualQp hw r s =
     (case map_of (qpOf s) (physicalQpNum r) of
        None \<Rightarrow> Some (Inl NullDeref, s)
      | Some j \<Rightarrow>
         (case processRequest hw r (vqps s ! j) of
            None \<Rightarrow> None
          | Some (res, q) \<Rightarrow> Some (res, s\<lparr>vqps := (vqps s)[j := q]\<rparr>)))"

text \<open>
  \<^verbatim>\<open>IbvPd::createVirtualQp\<close> with the numbers the verbs library gave the physical queue pairs, and the completion queues by position.
\<close>

definition createVirtualQp :: "u32 list \<Rightarrow> u32 \<Rightarrow> nat \<Rightarrow> nat \<Rightarrow> int \<Rightarrow> int \<Rightarrow> LoadBalancingScheme \<Rightarrow> vq_sys \<Rightarrow> vq_sys" where
  "createVirtualQp nums notify sendCq recvCq maxCnt maxSize sch s =
     (let q = IbvVirtualQp_new nums notify maxCnt maxSize sch; j = length (vqps s)
      in s\<lparr>vqps := vqps s @ [q],
           qpOf := AList.update notify j (fold (\<lambda>n m. AList.update n j m) nums (qpOf s)),
           sendCqOf := AList.update (virtualQpNum q) sendCq (sendCqOf s),
           recvCqOf := AList.update (virtualQpNum q) recvCq (recvCqOf s)\<rparr>)"

section \<open>Posting\<close>

definition postSend :: "(u64 \<Rightarrow> bool) \<Rightarrow> nat \<Rightarrow> ibv_send_wr \<Rightarrow> vq_sys \<Rightarrow> (vq_error option \<times> vq_sys) option" where
  "postSend hw j w s =
     (let q = vqps s ! j in
      case send_plan w q of
        Inl e \<Rightarrow> Some (Some e, s)
      | Inr (n, x) \<Rightarrow>
         (case submitToVirtualCq (CqSend (virtualQpNum q) n w x) s of
            Inl e \<Rightarrow> Some (Some e, s)
          | Inr s \<Rightarrow>
             (case enqueue_send hw w n x q of
                None \<Rightarrow> None
              | Some (e, q) \<Rightarrow> Some (map_option (\<lambda>_. Errno) e, s\<lparr>vqps := (vqps s)[j := q]\<rparr>))))"

definition postRecv :: "(u64 \<Rightarrow> bool) \<Rightarrow> nat \<Rightarrow> ibv_recv_wr \<Rightarrow> vq_sys \<Rightarrow> (vq_error option \<times> vq_sys) option" where
  "postRecv hw j w s =
     (let q = vqps s ! j in
      case recv_plan w q of
        Inl e \<Rightarrow> Some (Some e, s)
      | Inr n \<Rightarrow>
         (case submitToVirtualCq (CqRecv (virtualQpNum q) n w) s of
            Inl e \<Rightarrow> Some (Some e, s)
          | Inr s \<Rightarrow>
             (case enqueue_recv hw w n q of
                None \<Rightarrow> None
              | Some (e, q) \<Rightarrow> Some (e, s\<lparr>vqps := (vqps s)[j := q]\<rparr>))))"

section \<open>Polling\<close>

text \<open>In DQPLB mode the first \<open>n\<close> unfinished receive entries become finished.\<close>

fun mark_notified :: "nat \<Rightarrow> VirtualWc list \<Rightarrow> VirtualWc list" where
  "mark_notified n [] = []"
| "mark_notified 0 vs = vs"
| "mark_notified (Suc n) (v # vs) =
     (if remainingMsgCnt v \<noteq> 0 then v\<lparr>remainingMsgCnt := 0\<rparr> # mark_notified n vs else v # mark_notified (Suc n) vs)"

text \<open>Count a physical completion on the entry its virtual id is mapped to; the entry after that is returned.\<close>

definition count_completion :: "ibv_wc \<Rightarrow> u64 \<Rightarrow> IbvVirtualCq \<Rightarrow> vq_error + VirtualWc \<times> IbvVirtualCq" where
  "count_completion p vid c =
     (case map_of (wcOf c) vid of
        None \<Rightarrow> Inl OutOfRange
      | Some None \<Rightarrow> Inl NullDeref
      | Some (Some t) \<Rightarrow>
         (let c = upd_token t (\<lambda>v. v\<lparr>remainingMsgCnt := remainingMsgCnt v - 1, wc := updateVirtualWc p (wc v)\<rparr>) c
          in case get_token t c of None \<Rightarrow> Inl NullDeref | Some v \<Rightarrow> Inr (v, c)))"

definition is_recv :: "ibv_wc_opcode \<Rightarrow> bool" where
  "is_recv op \<longleftrightarrow> op = IBV_WC_RECV \<or> op = IBV_WC_RECV_RDMA_WITH_IMM"

definition poll_recv :: "(u64 \<Rightarrow> bool) \<Rightarrow> nat \<Rightarrow> ibv_wc \<Rightarrow> vq_sys \<Rightarrow> (vq_error option \<times> vq_sys) option" where
  "poll_recv hw c p s =
     (case submitToVirtualQp hw \<lparr>rq_type = REQ_RECV, rq_wrId = wc_wr_id p, physicalQpNum = wc_qp_num p,
             rq_immData = (if wc_opcode p = IBV_WC_RECV_RDMA_WITH_IMM then wc_imm_data p else 0)\<rparr> s of
        None \<Rightarrow> None
      | Some (Inl e, s) \<Rightarrow> Some (Some e, s)
      | Some (Inr r, s) \<Rightarrow>
         if useDqplb r
         then Some (None, s\<lparr>vcqs := (vcqs s)[c := (vcqs s ! c)\<lparr>recvWcs := mark_notified (notifyCount r) (recvWcs (vcqs s ! c))\<rparr>]\<rparr>)
         else (case count_completion p (virtualWrId r) (vcqs s ! c) of
                 Inl e \<Rightarrow> Some (Some e, s)
               | Inr (v, q) \<Rightarrow> Some (None, s\<lparr>vcqs := (vcqs s)[c := q]\<rparr>)))"

definition poll_send :: "(u64 \<Rightarrow> bool) \<Rightarrow> nat \<Rightarrow> ibv_wc \<Rightarrow> vq_sys \<Rightarrow> (vq_error option \<times> vq_sys) option" where
  "poll_send hw c p s =
     (case submitToVirtualQp hw \<lparr>rq_type = REQ_SEND, rq_wrId = wc_wr_id p, physicalQpNum = wc_qp_num p, rq_immData = 0\<rparr> s of
        None \<Rightarrow> None
      | Some (Inl e, s) \<Rightarrow> Some (Some e, s)
      | Some (Inr r, s) \<Rightarrow>
         (case count_completion p (virtualWrId r) (vcqs s ! c) of
            Inl e \<Rightarrow> Some (Some e, s)
          | Inr (v, q) \<Rightarrow>
             let s = s\<lparr>vcqs := (vcqs s)[c := q]\<rparr> in
             if remainingMsgCnt v = 1 \<and> wcExtraNotifyImm v
             then (case submitToVirtualQp hw \<lparr>rq_type = REQ_SEND_NOTIFY, rq_wrId = virtualWrId r,
                          physicalQpNum = wc_qp_num p, rq_immData = 0\<rparr> s of
                     None \<Rightarrow> None
                   | Some (Inl e, s) \<Rightarrow> Some (Some e, s)
                   | Some (Inr _, s) \<Rightarrow> Some (None, s))
             else Some (None, s)))"

text \<open>\<^verbatim>\<open>loopPollPhysicalCqUntilEmpty\<close>: the polls that yield something; an \<open>Inl\<close> is a failing poll.\<close>

fun loopPollPhysicalCq :: "(u64 \<Rightarrow> bool) \<Rightarrow> nat \<Rightarrow> (vq_error + ibv_wc) list \<Rightarrow> vq_sys \<Rightarrow> (vq_error option \<times> vq_sys) option" where
  "loopPollPhysicalCq hw c [] s = Some (None, s)"
| "loopPollPhysicalCq hw c (Inl e # ps) s = Some (Some e, s)"
| "loopPollPhysicalCq hw c (Inr p # ps) s =
     (case (if is_recv (wc_opcode p) then poll_recv hw c p s else poll_send hw c p s) of
        None \<Rightarrow> None
      | Some (Some e, s) \<Rightarrow> Some (Some e, s)
      | Some (None, s) \<Rightarrow> loopPollPhysicalCq hw c ps s)"

text \<open>One look at the front of a queue: whether it is exhausted, what was taken, and the queue and the id map.\<close>

definition take_front :: "bool \<Rightarrow> VirtualWc list \<Rightarrow> (u64 \<times> nat option) list \<Rightarrow>
    bool \<times> ibv_wc list \<times> VirtualWc list \<times> (u64 \<times> nat option) list" where
  "take_front complete vs m =
     (if complete then (True, [], vs, m)
      else case vs of
          [] \<Rightarrow> (True, [], vs, m)
        | v # vs' \<Rightarrow>
           if remainingMsgCnt v > 0 then (True, [], vs, m)
           else (False, [wc v], vs', AList.delete (wc_wr_id (wc v)) m))"

function loopPollVirtualCq :: "nat \<Rightarrow> ibv_wc list \<Rightarrow> bool \<Rightarrow> bool \<Rightarrow> IbvVirtualCq \<Rightarrow> ibv_wc list \<times> IbvVirtualCq" where
  "loopPollVirtualCq n wcs sc rc c =
     (if length wcs < n \<and> (\<not> sc \<or> \<not> rc) then
        (let (sc', s, sq, m) = take_front sc (sendWcs c) (wcOf c);
             (rc', r, rq, m) = take_front rc (recvWcs c) m
         in loopPollVirtualCq n (wcs @ s @ r) sc' rc' (c\<lparr>sendWcs := sq, recvWcs := rq, wcOf := m\<rparr>))
      else (wcs, c))"
  by pat_completeness auto
termination
  by (relation "measure (\<lambda>(n, wcs, sc, rc, c). length (sendWcs c) + length (recvWcs c) +
        (if sc then 0 else 1) + (if rc then 0 else 1))")
    (auto simp: take_front_def split: if_splits list.splits)

declare loopPollVirtualCq.simps [simp del]

definition pollCq :: "(u64 \<Rightarrow> bool) \<Rightarrow> nat \<Rightarrow> nat \<Rightarrow> (vq_error + ibv_wc) list \<Rightarrow> vq_sys \<Rightarrow> ((vq_error + ibv_wc list) \<times> vq_sys) option" where
  "pollCq hw c n ps s =
     (case loopPollPhysicalCq hw c ps s of
        None \<Rightarrow> None
      | Some (Some e, s) \<Rightarrow> Some (Inl e, s)
      | Some (None, s) \<Rightarrow>
         (let (wcs, q) = loopPollVirtualCq n [] False False (vcqs s ! c)
          in Some (Inr wcs, s\<lparr>vcqs := (vcqs s)[c := q]\<rparr>)))"

section \<open>What a poll returns\<close>

lemma take_front_spec:
  assumes "take_front d vs m = (d', t, vs', m')"
  shows "\<exists>a. vs = a @ vs' \<and> t = map wc a \<and> length a \<le> 1 \<and> (\<forall>v \<in> set a. remainingMsgCnt v \<le> 0) \<and>
    (d \<longrightarrow> d' \<and> a = []) \<and> (d' \<longrightarrow> d \<or> vs' = [] \<or> 0 < remainingMsgCnt (hd vs'))"
proof -
  have "vs = a @ vs' \<and> t = map wc a \<and> length a \<le> 1 \<and> (\<forall>v \<in> set a. remainingMsgCnt v \<le> 0) \<and>
    (d \<longrightarrow> d' \<and> a = []) \<and> (d' \<longrightarrow> d \<or> vs' = [] \<or> 0 < remainingMsgCnt (hd vs'))"
    if "a = (if t = [] then [] else [hd vs])" for a
    using assms that by (auto simp: take_front_def split: if_splits list.splits)
  then show ?thesis by blast
qed

definition exhausted :: "VirtualWc list \<Rightarrow> bool" where
  "exhausted vs \<longleftrightarrow> vs = [] \<or> 0 < remainingMsgCnt (hd vs)"

lemma shuffles_append:
  "w \<in> shuffles a b \<Longrightarrow> w' \<in> shuffles a' b' \<Longrightarrow> w @ w' \<in> shuffles (a @ a') (b @ b')"
  by (induction w arbitrary: a b) (auto simp: Cons_in_shuffles_iff)

text \<open>The loop from any point; \<open>w\<close> is what has been collected, \<open>ws\<close> what is added.\<close>

lemma loopPollVirtualCq_spec:
  assumes "loopPollVirtualCq n w sc rc c = (w', c')" "sc \<longrightarrow> exhausted (sendWcs c)" "rc \<longrightarrow> exhausted (recvWcs c)"
    "length w \<le> n + 1"
  shows "\<exists>a b ws. w' = w @ ws \<and> sendWcs c = a @ sendWcs c' \<and> recvWcs c = b @ recvWcs c' \<and>
    ws \<in> shuffles (map wc a) (map wc b) \<and> (\<forall>v \<in> set (a @ b). remainingMsgCnt v \<le> 0) \<and> length w' \<le> n + 1 \<and>
    (length w' < n \<longrightarrow> exhausted (sendWcs c') \<and> exhausted (recvWcs c')) \<and> (n \<le> length w \<longrightarrow> ws = [])"
  using assms
proof (induction n w sc rc c rule: loopPollVirtualCq.induct)
  case (1 n w sc rc c)
  show ?case
  proof (cases "length w < n \<and> (\<not> sc \<or> \<not> rc)")
    case False
    have "(w, c) = (w', c')"
      using "1.prems"(1) unfolding loopPollVirtualCq.simps [of n w sc rc c] if_not_P [OF False] .
    then have "w' = w" "c' = c" by simp_all
    then show ?thesis using "1.prems" False by auto
  next
    case True
    obtain sc' s sq m1 where s: "take_front sc (sendWcs c) (wcOf c) = (sc', s, sq, m1)" by (metis prod_cases4)
    obtain rc' r rq m2 where r: "take_front rc (recvWcs c) m1 = (rc', r, rq, m2)" by (metis prod_cases4)
    let ?c = "c\<lparr>sendWcs := sq, recvWcs := rq, wcOf := m2\<rparr>"
    obtain a where a: "sendWcs c = a @ sq" "s = map wc a" "length a \<le> 1" "\<forall>v \<in> set a. remainingMsgCnt v \<le> 0"
      "sc \<longrightarrow> sc' \<and> a = []" "sc' \<longrightarrow> sc \<or> exhausted sq"
      using take_front_spec [OF s] unfolding exhausted_def by blast
    obtain b where b: "recvWcs c = b @ rq" "r = map wc b" "length b \<le> 1" "\<forall>v \<in> set b. remainingMsgCnt v \<le> 0"
      "rc \<longrightarrow> rc' \<and> b = []" "rc' \<longrightarrow> rc \<or> exhausted rq"
      using take_front_spec [OF r] unfolding exhausted_def by blast
    have l: "loopPollVirtualCq n (w @ s @ r) sc' rc' ?c = (w', c')"
      using "1.prems"(1) True s r by (simp add: loopPollVirtualCq.simps [of n w])
    have e: "sc' \<longrightarrow> exhausted (sendWcs ?c)" "rc' \<longrightarrow> exhausted (recvWcs ?c)"
      using "1.prems"(2,3) a b by auto
    have len: "length (w @ s @ r) \<le> n + 1" using True a(2,3) b(2,3) by simp
    have q: "sendWcs ?c = sq" "recvWcs ?c = rq" by simp_all
    from "1.IH" [OF True s [symmetric] refl refl refl r [symmetric] refl refl refl l e len, unfolded q]
    obtain a' b' ws where IH: "w' = (w @ s @ r) @ ws" "sq = a' @ sendWcs c'" "rq = b' @ recvWcs c'"
      "ws \<in> shuffles (map wc a') (map wc b')" "\<forall>v \<in> set (a' @ b'). remainingMsgCnt v \<le> 0" "length w' \<le> n + 1"
      "length w' < n \<longrightarrow> exhausted (sendWcs c') \<and> exhausted (recvWcs c')"
      by blast
    have "s @ r \<in> shuffles (map wc a) (map wc b)" using a(2) b(2) shuffles_append [of s s "[]" r "[]" r] by simp
    from shuffles_append [OF this IH(4)]
    have sh: "s @ r @ ws \<in> shuffles (map wc (a @ a')) (map wc (b @ b'))" by (simp only: append_assoc map_append)
    show ?thesis
    proof (rule exI [of _ "a @ a'"], rule exI [of _ "b @ b'"], rule exI [of _ "s @ r @ ws"], intro conjI)
      show "w' = w @ s @ r @ ws" using IH(1) by simp
      show "sendWcs c = (a @ a') @ sendWcs c'" "recvWcs c = (b @ b') @ recvWcs c'" using IH(2,3) a(1) b(1) by simp_all
      show "s @ r @ ws \<in> shuffles (map wc (a @ a')) (map wc (b @ b'))" by (rule sh)
      show "\<forall>v \<in> set ((a @ a') @ b @ b'). remainingMsgCnt v \<le> 0" using IH(5) a(4) b(4) by auto
      show "length w' \<le> n + 1" by (rule IH(6))
      show "length w' < n \<longrightarrow> exhausted (sendWcs c') \<and> exhausted (recvWcs c')" by (rule IH(7))
      show "n \<le> length w \<longrightarrow> s @ r @ ws = []" using True by simp
    qed
  qed
qed

text \<open>A poll takes finished entries off the fronts of the two queues, in their order, and leaves no finished entry
  in front unless it has enough; but it may return one entry more than asked for.\<close>

theorem poll_returns_finished:
  assumes "loopPollVirtualCq n [] False False c = (wcs, c')"
  shows "\<exists>a b. sendWcs c = a @ sendWcs c' \<and> recvWcs c = b @ recvWcs c' \<and> wcs \<in> shuffles (map wc a) (map wc b) \<and>
    (\<forall>v \<in> set (a @ b). remainingMsgCnt v \<le> 0) \<and> length wcs \<le> (if n = 0 then 0 else n + 1) \<and>
    (length wcs < n \<longrightarrow> exhausted (sendWcs c') \<and> exhausted (recvWcs c'))"
  using loopPollVirtualCq_spec [OF assms] by fastforce

definition finished :: "u64 \<Rightarrow> VirtualWc" where
  "finished i = VirtualWc_new i 0 0 False 0"

definition two_finished :: IbvVirtualCq where
  "two_finished = \<lparr>sendWcs = [finished 1], recvWcs = [finished 2], wcOf = [(1, Some 0), (2, Some 1)], nextToken = 2\<rparr>"

lemma two_finished_poll:
  "loopPollVirtualCq 1 [] False False two_finished =
     ([wc (finished 1), wc (finished 2)], two_finished\<lparr>sendWcs := [], recvWcs := [], wcOf := []\<rparr>)"
  by (simp add: loopPollVirtualCq.simps take_front_def two_finished_def finished_def VirtualWc_new_def)

theorem poll_returns_finished_witness:
  "\<exists>a b. sendWcs two_finished = a \<and> recvWcs two_finished = b \<and>
    [wc (finished 1), wc (finished 2)] \<in> shuffles (map wc a) (map wc b) \<and> length [wc (finished 1), wc (finished 2)] = 1 + 1"
  using poll_returns_finished [OF two_finished_poll] by simp

section \<open>Notifications\<close>

text \<open>Completions as the verbs library reports them for requests that went well.\<close>

definition ok_wc :: "ibv_wc_opcode \<Rightarrow> u64 \<Rightarrow> u32 \<Rightarrow> vq_error + ibv_wc" where
  "ok_wc op i num = Inr ((wc (VirtualWc_new i 0 0 False 0))\<lparr>wc_opcode := op, wc_qp_num := num\<rparr>)"

definition one_qp_sys :: "u32 list \<Rightarrow> int \<Rightarrow> vq_sys" where
  "one_qp_sys nums maxCnt = createVirtualQp nums 99 0 0 maxCnt 100 SPRAY
     \<lparr>vqps = [], vcqs = [IbvVirtualCq_new], qpOf = [], sendCqOf = [], recvCqOf = []\<rparr>"

definition sys_post :: "ibv_send_wr \<Rightarrow> vq_sys \<Rightarrow> vq_sys" where
  "sys_post w s = (case postSend (\<lambda>_. True) 0 w s of None \<Rightarrow> s | Some (e, s') \<Rightarrow> s')"

definition sys_poll :: "(vq_error + ibv_wc) list \<Rightarrow> vq_sys \<Rightarrow> (vq_error + u64 list) \<times> vq_sys" where
  "sys_poll ps s = (case pollCq (\<lambda>_. True) 0 10 ps s of None \<Rightarrow> (Inr [], s)
     | Some (Inl e, s') \<Rightarrow> (Inl e, s') | Some (Inr ws, s') \<Rightarrow> (Inr (map wc_wr_id ws), s'))"

text \<open>The physical ids of the requests with immediate data handed to the library.\<close>

definition notified :: "vq_sys \<Rightarrow> u64 list" where
  "notified s = map (\<lambda>(i, p). wr_id p) (filter (\<lambda>(i, p). opcode p = IBV_WR_RDMA_WRITE_WITH_IMM) (posted (vqps s ! 0)))"

definition outstanding :: "vq_sys \<Rightarrow> (u64 \<times> u64) list" where
  "outstanding s = concat (map physicalSendWrStatus (notifyQp (vqps s ! 0) # physicalQps (vqps s ! 0)))"

text \<open>Two messages of one fragment each, on two queue pairs; the second one's data completes first.\<close>

definition race_sys :: vq_sys where
  "race_sys = sys_post (example_wr 2 IBV_WR_RDMA_WRITE_WITH_IMM 100)
     (sys_post (example_wr 1 IBV_WR_RDMA_WRITE_WITH_IMM 100) (one_qp_sys [10, 11] (-1)))"

text \<open>When the data of the second of two messages completes before the data of the first, the notification of the
  second is never posted: after everything outstanding has completed, only the first is notified and reported, and the
  second waits in the queue with nothing outstanding that could move it.\<close>

theorem notify_lost_on_reordering:
  "(let (r1, s1) = sys_poll [ok_wc IBV_WC_RDMA_WRITE 1 11] race_sys;
        (r2, s2) = sys_poll [ok_wc IBV_WC_RDMA_WRITE 0 10] s1;
        (r3, s3) = sys_poll [ok_wc IBV_WC_RDMA_WRITE 2 99] s2
    in r1 = Inr [] \<and> r2 = Inr [] \<and> r3 = Inr [1] \<and> notified s3 = [2] \<and> outstanding s3 = [] \<and>
       map (\<lambda>w. wr_id (swr w)) (pendingSendNotify (vqps s3 ! 0)) = [2])"
  by code_simp

text \<open>An RDMA write with immediate data of length 0 is reported complete in SPRAY mode although its notification
  was never posted.\<close>

theorem zero_length_notify_lost:
  "(let s0 = sys_post (example_wr 1 IBV_WR_RDMA_WRITE_WITH_IMM 0) (one_qp_sys [10] (-1));
        (r1, s1) = sys_poll [ok_wc IBV_WC_RDMA_WRITE 0 10] s0
    in r1 = Inr [1] \<and> notified s1 = [] \<and> outstanding s1 = [] \<and> pendingSend (vqps s1 ! 0) = [] \<and>
       pendingSendNotify (vqps s1 ! 0) = [])"
  by code_simp

text \<open>An unsignaled write makes the completion of the next one on its queue pair an error.\<close>

lemma unsignaled_blocks_polling:
  "fst (sys_poll [ok_wc IBV_WC_RDMA_WRITE 1 10]
     (sys_post (example_wr 2 IBV_WR_RDMA_WRITE 10)
       (sys_post ((example_wr 1 IBV_WR_RDMA_WRITE 10)\<lparr>signaled := False\<rparr>) (one_qp_sys [10] (-1))))) = Inl EINVAL"
  by code_simp

text \<open>All virtual queue pairs have number 0, so the completion queue of the last one created serves them all.\<close>

lemma second_virtual_qp_takes_over:
  "map_of (sendCqOf (createVirtualQp nums' n' c' r' k' m' sch' (createVirtualQp nums n c r k m sch s))) 0 = Some c' \<and>
   map_of (recvCqOf (createVirtualQp nums' n' c' r' k' m' sch' (createVirtualQp nums n c r k m sch s))) 0 = Some r'"
  by (simp add: createVirtualQp_def Let_def IbvVirtualQp_new_def update_conv')

end
