(* ===== verification/Ctran_Net.thy ===== *)
theory Ctran_Net imports Prelude begin

text \<open>
  What the collective algorithms of \<^verbatim>\<open>comms/ctran/algos\<close> use of the mapper (\<^verbatim>\<open>comms/ctran/mapper\<close>): control messages,
  puts into a remote buffer, notifications. The algorithm of a rank is the list of its mapper calls; ranks run
  concurrently. A put lands in the peer's buffer at any time after it was issued and in any order: what orders puts is the
  mode of the connection they go over (\<^verbatim>\<open>NCCL_CTRAN_IB_VC_MODE\<close>). In spray mode the notification of a put is sent when it and all
  puts before it are complete (\<^verbatim>\<open>burnDownPuts\<close>). In dqplb mode, the default, only puts that notify carry sequence numbers, so a
  notification says nothing of the puts before it that do not notify (\<^verbatim>\<open>queueWriteOnQp\<close>, \<^verbatim>\<open>writeImmRcvd\<close>).
  The locale \<open>timed_net\<close> has what the algorithms have in common: if the calls can be stamped with times so that
  what a call waits for has an earlier time, and if a rank only puts bytes it knows, then no run gets stuck,
  every run ends, and then every rank has the data.
\<close>

section \<open>Mapper calls\<close>

text \<open>
  \<open>SendCtrl\<close> is \<^verbatim>\<open>isendCtrl\<close> of the own buffer's handle and \<open>RecvCtrl\<close> is \<^verbatim>\<open>irecvCtrl\<close>; \<open>WaitSendCtrl\<close> and \<open>WaitCtrl\<close>
  wait for their requests. \<open>Put\<close> is \<^verbatim>\<open>iput\<close> with the peer, the offset (the same on both sides), the size and the
  notify flag; \<open>WaitPut\<close> waits for the puts to a peer, which complete in order. These go over InfiniBand. \<open>PutElem\<close> and \<open>WaitElem\<close>
  are a put and the wait for a notification over NVLink, by kernel elements; \<open>InitElem\<close> posts the element that waits.
\<close>

datatype call =
    SearchRegHandle
  | DeregDynamic
  | SendCtrl nat
  | RecvCtrl nat
  | WaitSendCtrl nat
  | WaitCtrl nat
  | InitNotify nat
  | Put nat nat nat bool
  | WaitPut nat
  | WaitNotify nat
  | InitElem nat
  | PutElem nat nat nat
  | WaitElem nat

text \<open>The puts to \<open>r\<close> in a list of calls: offset, size and whether the receiver is notified.\<close>

fun puts_to :: "nat \<Rightarrow> call list \<Rightarrow> (nat \<times> nat \<times> bool) list" where
  "puts_to r [] = []"
| "puts_to r (Put p lo len nt # cs) = (if p = r then (lo, len, nt) # puts_to r cs else puts_to r cs)"
| "puts_to r (c # cs) = puts_to r cs"

fun elems_to :: "nat \<Rightarrow> call list \<Rightarrow> (nat \<times> nat) list" where
  "elems_to r [] = []"
| "elems_to r (PutElem p lo len # cs) = (if p = r then (lo, len) # elems_to r cs else elems_to r cs)"
| "elems_to r (c # cs) = elems_to r cs"

fun by_kernel :: "call \<Rightarrow> bool" where
  "by_kernel (PutElem p lo len) = True" | "by_kernel (WaitElem p) = True" | "by_kernel c = False"

lemma no_elems: "\<forall>c \<in> set cs. \<not> by_kernel c \<Longrightarrow> elems_to r cs = []"
  by (induction r cs rule: elems_to.induct) auto

lemma elems_to_append [simp]: "elems_to r (xs @ ys) = elems_to r xs @ elems_to r ys"
  by (induction r xs rule: elems_to.induct) auto

lemma elems_to_take_len: "elems_to r (take k cs) = take (length (elems_to r (take k cs))) (elems_to r cs)"
  by (metis append_eq_conv_conj append_take_drop_id elems_to_append)

lemma elems_to_nthD:
  "j < length (elems_to r cs) \<Longrightarrow> elems_to r cs ! j = (lo, len) \<Longrightarrow> \<exists>us vs. cs = us @ PutElem r lo len # vs"
proof (induction r cs arbitrary: j rule: elems_to.induct)
  case (2 r p lo' len' cs)
  show ?case
  proof (cases "p = r \<and> j = 0")
    case True
    then show ?thesis using 2 by (intro exI [of _ "[]"] exI [of _ cs]) simp
  next
    case False
    then obtain i where "i < length (elems_to r cs)" "elems_to r cs ! i = (lo, len)" using 2 by (cases j) (auto split: if_splits)
    then obtain us vs where "cs = us @ PutElem r lo len # vs" using 2 by (cases "p = r") blast+
    then show ?thesis by (intro exI [of _ "PutElem p lo' len' # us"] exI [of _ vs]) simp
  qed
qed (simp_all, (metis append_Cons)+)

definition kspan :: "(nat \<times> nat) list \<Rightarrow> nat set" where "kspan ps = (\<Union>(lo, len) \<in> set ps. {lo..<lo + len})"

lemma kspan_simps [simp]: "kspan [] = {}" "kspan ((lo, len) # ps) = {lo..<lo + len} \<union> kspan ps"
  by (simp_all add: kspan_def)

lemma kspan_take_mono: "a \<le> b \<Longrightarrow> kspan (take a ps) \<subseteq> kspan (take b ps)"
  unfolding kspan_def by (intro UN_mono set_take_subset_set_take) simp_all

lemma puts_to_append [simp]: "puts_to r (xs @ ys) = puts_to r xs @ puts_to r ys"
  by (induction r xs rule: puts_to.induct) auto

lemma puts_to_concat: "puts_to r (concat xss) = concat (map (puts_to r) xss)"
  by (induction xss) auto

definition notices :: "(nat \<times> nat \<times> bool) list \<Rightarrow> nat" where
  "notices ps = length (filter (\<lambda>(lo, len, nt). nt) ps)"

lemma notices_simps [simp]: "notices [] = 0" "notices ((lo, len, nt) # ps) = (if nt then Suc (notices ps) else notices ps)"
  "notices (ps @ qs) = notices ps + notices qs"
  by (simp_all add: notices_def)

lemma notices_take_mono: "a \<le> b \<Longrightarrow> notices (take a ps) \<le> notices (take b ps)"
  by (metis le_add1 le_add_diff_inverse notices_simps(3) take_add)

definition span :: "nat \<times> nat \<times> bool \<Rightarrow> nat set" where "span p = (case p of (lo, len, nt) \<Rightarrow> {lo..<lo + len})"

lemma span_simp [simp]: "span (lo, len, nt) = {lo..<lo + len}" by (simp add: span_def)

definition ranges :: "(nat \<times> nat \<times> bool) list \<Rightarrow> nat set" where
  "ranges ps = (\<Union>(lo, len, nt) \<in> set ps. {lo..<lo + len})"

lemma ranges_simps [simp]: "ranges [] = {}" "ranges ((lo, len, nt) # ps) = {lo..<lo + len} \<union> ranges ps"
  "ranges (ps @ qs) = ranges ps \<union> ranges qs"
  by (auto simp: ranges_def)

text \<open>
  The notifications of a connection that have arrived when the puts \<open>L\<close> of \<open>ps\<close> have landed; \<open>b\<close>: the connection is in spray mode.
\<close>

fun signals :: "bool \<Rightarrow> (nat \<times> nat \<times> bool) list \<Rightarrow> (nat \<Rightarrow> bool) \<Rightarrow> nat" where
  "signals b [] L = 0"
| "signals b ((lo, len, nt) # ps) L =
     (if (b \<or> nt) \<and> \<not> L 0 then 0 else (if nt then 1 else 0) + signals b ps (\<lambda>j. L (Suc j)))"

text \<open>The bytes that have arrived for sure when \<open>k\<close> notifications of a connection were received.\<close>

fun arrived :: "bool \<Rightarrow> (nat \<times> nat \<times> bool) list \<Rightarrow> nat \<Rightarrow> nat set" where
  "arrived b [] k = {}"
| "arrived b (p # ps) 0 = {}"
| "arrived b ((lo, len, nt) # ps) (Suc k) = (if b \<or> nt then {lo..<lo + len} else {}) \<union> arrived b ps (if nt then k else Suc k)"

lemma arrived_0 [simp]: "arrived b ps 0 = {}"
  by (cases ps) auto

lemma arrived_landed: "k \<le> signals b ps L \<Longrightarrow> x \<in> arrived b ps k \<Longrightarrow> \<exists>j < length ps. L j \<and> x \<in> span (ps ! j)"
proof (induction b ps k arbitrary: L rule: arrived.induct)
  case (3 b lo len nt ps k)
  have g: "\<not> ((b \<or> nt) \<and> \<not> L 0)" "(if nt then k else Suc k) \<le> signals b ps (\<lambda>j. L (Suc j))"
    using "3.prems"(1) by (auto split: if_splits)
  show ?case
  proof (cases "x \<in> arrived b ps (if nt then k else Suc k)")
    case True
    from "3.IH" [OF g(2) this] obtain j where "j < length ps" "L (Suc j)" "x \<in> span (ps ! j)" by blast
    then show ?thesis by (intro exI [of _ "Suc j"]) simp
  next
    case False
    then have "b \<or> nt" "x \<in> {lo..<lo + len}" using "3.prems"(2) by (auto split: if_splits)
    then show ?thesis using g(1) by (intro exI [of _ 0]) auto
  qed
qed simp_all

lemma signals_all: "\<forall>j < m. L j \<Longrightarrow> notices (take m ps) \<le> signals b ps L"
proof (induction b ps L arbitrary: m rule: signals.induct)
  case (2 b lo len nt ps L)
  show ?case
  proof (cases m)
    case (Suc m')
    have l: "L 0" "\<forall>j < m'. L (Suc j)" using "2.prems" Suc by auto
    have "notices (take m' ps) \<le> signals b ps (\<lambda>j. L (Suc j))" using "2.IH" [OF _ l(2)] l(1) by simp
    then show ?thesis using l Suc by simp
  qed simp
qed simp

section \<open>Runs\<close>

record 'v net =
  pc :: "nat \<Rightarrow> nat"
  landed :: "nat \<Rightarrow> nat \<Rightarrow> nat \<Rightarrow> bool"
  kernel :: "nat \<Rightarrow> nat \<Rightarrow> nat"
  mem :: "nat \<Rightarrow> nat \<Rightarrow> 'v"

text \<open>
  May rank \<open>r\<close> make its next call \<open>c\<close>, having made the calls \<open>us\<close>? \<open>sp s r\<close> tells whether the connection between \<open>s\<close> and \<open>r\<close> is in spray
  mode for puts from \<open>s\<close>.
\<close>

definition can :: "(nat \<Rightarrow> nat \<Rightarrow> bool) \<Rightarrow> (nat \<Rightarrow> call list) \<Rightarrow> 'v net \<Rightarrow> nat \<Rightarrow> call list \<Rightarrow> call \<Rightarrow> bool" where
  "can sp prog st r us c =
     (case c of
        WaitCtrl s \<Rightarrow> count_list us (WaitCtrl s) < count_list (take (pc st s) (prog s)) (SendCtrl r)
      | WaitPut s \<Rightarrow> (\<forall>j < length (puts_to s us). landed st r s j) \<and> length (elems_to s us) \<le> kernel st r s
      | WaitNotify s \<Rightarrow> count_list us (WaitNotify s) < signals (sp s r) (puts_to r (prog s)) (landed st s r)
      | WaitElem s \<Rightarrow> count_list us (WaitElem s) < kernel st s r
      | _ \<Rightarrow> True)"

definition call_step :: "nat \<Rightarrow> 'v net \<Rightarrow> 'v net" where
  "call_step r st = st\<lparr>pc := (pc st)(r := Suc (pc st r))\<rparr>"

text \<open>A put is a copy at the moment when it lands.\<close>

definition copy_bytes :: "nat \<Rightarrow> nat \<Rightarrow> nat \<Rightarrow> nat \<Rightarrow> 'v net \<Rightarrow> 'v net" where
  "copy_bytes s r lo len st = st\<lparr>mem := (mem st)(r := (\<lambda>x. if x \<in> {lo..<lo + len} then mem st s x else mem st r x))\<rparr>"

definition land_step :: "nat \<Rightarrow> nat \<Rightarrow> nat \<Rightarrow> nat \<times> nat \<times> bool \<Rightarrow> 'v net \<Rightarrow> 'v net" where
  "land_step s r j p st = (case p of (lo, len, nt) \<Rightarrow>
     (copy_bytes s r lo len st)\<lparr>landed := (landed st)(s := (landed st s)(r := (landed st s r)(j := True)))\<rparr>)"

definition kernel_step :: "nat \<Rightarrow> nat \<Rightarrow> nat \<times> nat \<Rightarrow> 'v net \<Rightarrow> 'v net" where
  "kernel_step s r p st = (case p of (lo, len) \<Rightarrow>
     (copy_bytes s r lo len st)\<lparr>kernel := (kernel st)(s := (kernel st s)(r := Suc (kernel st s r)))\<rparr>)"

inductive net_step :: "nat \<Rightarrow> (nat \<Rightarrow> nat \<Rightarrow> bool) \<Rightarrow> (nat \<Rightarrow> call list) \<Rightarrow> 'v net \<Rightarrow> 'v net \<Rightarrow> bool" for n sp prog where
  call: "\<lbrakk>r < n; pc st r < length (prog r); can sp prog st r (take (pc st r) (prog r)) (prog r ! pc st r)\<rbrakk> \<Longrightarrow>
    net_step n sp prog st (call_step r st)"
| land: "\<lbrakk>s < n; r < n; j < length (puts_to r (take (pc st s) (prog s))); \<not> landed st s r j;
    p = puts_to r (prog s) ! j\<rbrakk> \<Longrightarrow> net_step n sp prog st (land_step s r j p st)"
| kernel: "\<lbrakk>s < n; r < n; kernel st s r < length (elems_to r (take (pc st s) (prog s)));
    p = elems_to r (prog s) ! kernel st s r\<rbrakk> \<Longrightarrow> net_step n sp prog st (kernel_step s r p st)"

inductive net_run :: "nat \<Rightarrow> (nat \<Rightarrow> nat \<Rightarrow> bool) \<Rightarrow> (nat \<Rightarrow> call list) \<Rightarrow> 'v net \<Rightarrow> nat \<Rightarrow> 'v net \<Rightarrow> bool" for n sp prog st0 where
  start: "net_run n sp prog st0 0 st0"
| more: "net_run n sp prog st0 k st \<Longrightarrow> net_step n sp prog st st' \<Longrightarrow> net_run n sp prog st0 (Suc k) st'"

text \<open>At the start nothing has happened and the bytes \<open>own r\<close> of rank \<open>r\<close> hold the data.\<close>

definition net_start :: "nat \<Rightarrow> (nat \<Rightarrow> nat set) \<Rightarrow> (nat \<Rightarrow> 'v) \<Rightarrow> 'v net \<Rightarrow> bool" where
  "net_start n own data st \<longleftrightarrow> (\<forall>r. pc st r = 0) \<and> (\<forall>s r j. \<not> landed st s r j) \<and> (\<forall>s r. kernel st s r = 0) \<and>
     (\<forall>r < n. \<forall>x \<in> own r. mem st r x = data x)"

definition net_init :: "(nat \<Rightarrow> nat \<Rightarrow> 'v) \<Rightarrow> 'v net" where
  "net_init m = \<lparr>pc = (\<lambda>_. 0), landed = (\<lambda>_ _ _. False), kernel = (\<lambda>_ _. 0), mem = m\<rparr>"

text \<open>What rank \<open>r\<close> is entitled to know after the calls \<open>us\<close>.\<close>

definition know :: "nat \<Rightarrow> (nat \<Rightarrow> nat \<Rightarrow> bool) \<Rightarrow> (nat \<Rightarrow> call list) \<Rightarrow> (nat \<Rightarrow> nat set) \<Rightarrow> nat \<Rightarrow> call list \<Rightarrow> nat set" where
  "know n sp prog own r us = own r \<union> (\<Union>s < n. arrived (sp s r) (puts_to r (prog s)) (count_list us (WaitNotify s)) \<union>
     kspan (take (count_list us (WaitElem s)) (elems_to r (prog s))))"

definition finished :: "nat \<Rightarrow> (nat \<Rightarrow> call list) \<Rightarrow> 'v net \<Rightarrow> bool" where
  "finished n prog st \<longleftrightarrow> (\<forall>r < n. pc st r = length (prog r))"

lemma arrived_mono: "k \<le> k' \<Longrightarrow> arrived b ps k \<subseteq> arrived b ps k'"
proof (induction b ps k arbitrary: k' rule: arrived.induct)
  case (3 b lo len nt ps k)
  then obtain k'' where k: "k' = Suc k''" by (cases k') auto
  have "(if nt then k else Suc k) \<le> (if nt then k'' else Suc k'')" using 3(2) k by simp
  from 3(1) [OF this] show ?case using k by auto
qed auto

lemma count_list_take_le: "a \<le> b \<Longrightarrow> count_list (take a xs) x \<le> count_list (take b xs) x"
  by (auto simp: le_iff_add take_add)

lemma know_mono: "a \<le> b \<Longrightarrow> know n sp prog own r (take a us) \<subseteq> know n sp prog own r (take b us)"
  unfolding know_def by (intro Un_mono UN_mono order_refl arrived_mono kspan_take_mono count_list_take_le)

lemma puts_to_take: "\<exists>m. puts_to r (take k cs) = take m (puts_to r cs)"
proof -
  have "puts_to r cs = puts_to r (take k cs) @ puts_to r (drop k cs)" by (metis append_take_drop_id puts_to_append)
  then show ?thesis by (metis append_eq_conv_conj)
qed

lemma puts_to_take_len: "puts_to r (take k cs) = take (length (puts_to r (take k cs))) (puts_to r cs)"
  by (metis append_eq_conv_conj append_take_drop_id puts_to_append)

lemma puts_to_nthD:
  "j < length (puts_to r cs) \<Longrightarrow> puts_to r cs ! j = (lo, len, nt) \<Longrightarrow>
    \<exists>us vs. cs = us @ Put r lo len nt # vs \<and> length (puts_to r us) = j"
proof (induction cs arbitrary: j)
  case Nil
  then show ?case by simp
next
  case (Cons c cs)
  have app: "puts_to r (c # cs) = puts_to r [c] @ puts_to r cs" using puts_to_append [of r "[c]" cs] by simp
  show ?case
  proof (cases "j < length (puts_to r [c])")
    case True
    then have "c = Put r lo len nt \<and> j = 0" using Cons.prems(2) unfolding app by (cases c) (auto split: if_splits)
    then show ?thesis by (intro exI [of _ "[]"] exI [of _ cs]) auto
  next
    case False
    then have "j - length (puts_to r [c]) < length (puts_to r cs)"
      "puts_to r cs ! (j - length (puts_to r [c])) = (lo, len, nt)"
      using Cons.prems unfolding app by (auto simp: nth_append)
    from Cons.IH [OF this] obtain us vs
      where u: "cs = us @ Put r lo len nt # vs" "length (puts_to r us) = j - length (puts_to r [c])" by blast
    have "puts_to r (c # us) = puts_to r [c] @ puts_to r us" using puts_to_append [of r "[c]" us] by simp
    then show ?thesis using u False by (intro exI [of _ "c # us"] exI [of _ vs]) simp
  qed
qed

text \<open>Runs that are given by a list of actions, for examples.\<close>

datatype act = Do nat | Land nat nat nat

definition act_step :: "nat \<Rightarrow> (nat \<Rightarrow> nat \<Rightarrow> bool) \<Rightarrow> (nat \<Rightarrow> call list) \<Rightarrow> act \<Rightarrow> 'v net \<Rightarrow> 'v net option" where
  "act_step n sp prog a st =
     (case a of
        Do r \<Rightarrow>
          if r < n \<and> pc st r < length (prog r) \<and> can sp prog st r (take (pc st r) (prog r)) (prog r ! pc st r)
          then Some (call_step r st) else None
      | Land s r j \<Rightarrow>
          if s < n \<and> r < n \<and> j < length (puts_to r (take (pc st s) (prog s))) \<and> \<not> landed st s r j
          then Some (land_step s r j (puts_to r (prog s) ! j) st) else None)"

fun act_steps :: "nat \<Rightarrow> (nat \<Rightarrow> nat \<Rightarrow> bool) \<Rightarrow> (nat \<Rightarrow> call list) \<Rightarrow> act list \<Rightarrow> 'v net \<Rightarrow> 'v net option" where
  "act_steps n sp prog [] st = Some st"
| "act_steps n sp prog (a # as) st = (case act_step n sp prog a st of None \<Rightarrow> None | Some st' \<Rightarrow> act_steps n sp prog as st')"

lemma act_steps_run: "act_steps n sp prog as st = Some st' \<Longrightarrow> net_run n sp prog st0 m st \<Longrightarrow> \<exists>m'. net_run n sp prog st0 m' st'"
proof (induction as arbitrary: st m)
  case (Cons a as)
  obtain st1 where s: "act_step n sp prog a st = Some st1" "act_steps n sp prog as st1 = Some st'"
    using Cons.prems(1) by (auto split: option.splits)
  have "net_step n sp prog st st1"
    using s(1) by (auto simp: act_step_def split: act.splits if_splits intro: net_step.intros)
  then show ?case using Cons.IH [OF s(2)] net_run.more [OF Cons.prems(2)] by blast
qed auto

text \<open>A rank never passes the wait for a notification that its peer never sends.\<close>

lemma never_passes:
  assumes "net_run n sp prog st0 m st" "pc st0 r = 0" "kernel st0 s r = 0"
    and c: "c = WaitNotify s \<and> puts_to r (prog s) = [] \<or> c = WaitElem s \<and> elems_to r (prog s) = []"
  shows "c \<notin> set (take (pc st r) (prog r)) \<and> (c = WaitElem s \<longrightarrow> kernel st s r = 0)"
  using assms(1)
proof (induction rule: net_run.induct)
  case start
  then show ?case using assms(2,3) by simp
next
  case (more k st st')
  from more.hyps(2) more.IH show ?case
  proof (induction rule: net_step.induct)
    case (call q st)
    have "prog r ! pc st r \<noteq> c" if "q = r"
      using call.hyps(3) call.prems c that by (auto simp: can_def)
    then show ?case using call.prems call.hyps(2) by (auto simp: call_step_def take_Suc_conv_app_nth)
  next
    case (land q t j st p)
    then show ?case by (simp add: land_step_def copy_bytes_def split: prod.split)
  next
    case (kernel q t st p)
    have "elems_to t (take (pc st q) (prog q)) = take (length (elems_to t (take (pc st q) (prog q)))) (elems_to t (prog q))" by (rule elems_to_take_len)
    then have "elems_to t (prog q) \<noteq> []" using kernel.hyps(3) by auto
    then show ?case using kernel.prems c by (auto simp: kernel_step_def copy_bytes_def split: prod.split)
  qed
qed

section \<open>Timed algorithms\<close>

text \<open>
  \<open>prog r\<close> is the algorithm of rank \<open>r\<close> with a time for each call: what a call waits for has an earlier time, and the
  bytes of a put are known to the sender from its own buffer and the notifications it has received.
\<close>

locale timed_net =
  fixes n :: nat and sp :: "nat \<Rightarrow> nat \<Rightarrow> bool" and prog :: "nat \<Rightarrow> (nat \<times> call) list" and own :: "nat \<Rightarrow> nat set" and all :: "nat set"
  assumes sorted: "r < n \<Longrightarrow> sorted (map fst (prog r))"
    and wait_ctrl: "\<lbrakk>r < n; prog r = us @ (t, WaitCtrl s) # vs\<rbrakk> \<Longrightarrow> s < n \<and>
      (\<exists>us' t' vs'. prog s = us' @ (t', SendCtrl r) # vs' \<and> t' < t \<and>
        count_list (map snd us) (WaitCtrl s) \<le> count_list (map snd us') (SendCtrl r))"
    and wait_notify: "\<lbrakk>r < n; prog r = us @ (t, WaitNotify s) # vs\<rbrakk> \<Longrightarrow> s < n \<and>
      (\<exists>us' t' lo len vs'. prog s = us' @ (t', Put r lo len True) # vs' \<and> t' < t \<and>
        count_list (map snd us) (WaitNotify s) \<le> notices (puts_to r (map snd us')))"
    and put_known: "\<lbrakk>r < n; prog r = us @ (t, Put s lo len nt) # vs\<rbrakk> \<Longrightarrow> s < n \<and>
      {lo..<lo + len} \<subseteq> know n sp (\<lambda>s. map snd (prog s)) own r (map snd us)"
    and complete: "r < n \<Longrightarrow> all \<subseteq> know n sp (\<lambda>s. map snd (prog s)) own r (map snd (prog r))"
    and wait_elem: "\<lbrakk>r < n; prog r = us @ (t, WaitElem s) # vs\<rbrakk> \<Longrightarrow> s < n \<and>
      (\<exists>us' t' lo len vs'. prog s = us' @ (t', PutElem r lo len) # vs' \<and> t' < t \<and>
        count_list (map snd us) (WaitElem s) \<le> length (elems_to r (map snd us')))"
    and elem_known: "\<lbrakk>r < n; prog r = us @ (t, PutElem s lo len) # vs\<rbrakk> \<Longrightarrow> s < n \<and>
      {lo..<lo + len} \<subseteq> know n sp (\<lambda>s. map snd (prog s)) own r (map snd us)"
begin

abbreviation calls :: "nat \<Rightarrow> call list" where "calls \<equiv> \<lambda>s. map snd (prog s)"

lemma split_at: "i < length (prog r) \<Longrightarrow> prog r = take i (prog r) @ (fst (prog r ! i), snd (prog r ! i)) # drop (Suc i) (prog r)"
  by (simp add: id_take_nth_drop)

lemma time_mono: "r < n \<Longrightarrow> i \<le> j \<Longrightarrow> j < length (prog r) \<Longrightarrow> fst (prog r ! i) \<le> fst (prog r ! j)"
  using sorted_nth_mono [OF sorted] by fastforce

text \<open>The event a blocked call waits for is in its peer's future, at an earlier time.\<close>

lemma peer_behind:
  assumes "s < n" "prog s = us' @ (t', c) # vs'" "pc st s \<le> length us'" "t' < t"
  shows "pc st s < length (prog s) \<and> fst (prog s ! pc st s) < t"
proof
  show "pc st s < length (prog s)" using assms(2,3) by simp
  have "fst (prog s ! pc st s) \<le> fst (prog s ! length us')" by (rule time_mono [OF assms(1,3)]) (simp add: assms(2))
  then show "fst (prog s ! pc st s) < t" using assms(2,4) by simp
qed

definition issued :: "'v net \<Rightarrow> nat \<Rightarrow> nat \<Rightarrow> nat" where
  "issued st s r = length (puts_to r (take (pc st s) (calls s)))"

lemma issued_le: "issued st s r \<le> length (puts_to r (calls s))"
  unfolding issued_def by (metis append_take_drop_id le_add1 length_append puts_to_append)

lemma land_enabled:
  assumes "s < n" "r < n" "j < issued st s r" "\<not> landed st s r j"
  shows "\<exists>st'. net_step n sp calls st st'"
  using net_step.land [OF assms(1,2) _ assms(4) refl, of calls sp] assms(3) unfolding issued_def by blast

definition posted :: "'v net \<Rightarrow> nat \<Rightarrow> nat \<Rightarrow> nat" where
  "posted st s r = length (elems_to r (take (pc st s) (calls s)))"

lemma posted_le: "posted st s r \<le> length (elems_to r (calls s))"
  unfolding posted_def by (metis append_take_drop_id le_add1 length_append elems_to_append)

lemma kernel_enabled:
  assumes "s < n" "r < n" "kernel st s r < posted st s r"
  shows "\<exists>st'. net_step n sp calls st st'"
  using net_step.kernel [OF assms(1,2) _ refl, of st calls sp] assms(3) unfolding posted_def by blast

lemma call_at: "map snd (take i (prog r)) = us @ c # vs \<Longrightarrow> \<exists>us' t vs'. prog r = us' @ (t, c) # vs' \<and> map snd us' = us"
proof -
  assume a: "map snd (take i (prog r)) = us @ c # vs"
  have "length us < length (map snd (take i (prog r)))" unfolding a by simp
  then have l: "length us < length (take i (prog r))" by simp
  have t: "take (length us) (map snd (take i (prog r))) = us" "map snd (take i (prog r)) ! length us = c" by (simp_all add: a)
  have "take (length us) (take i (prog r)) = take (length us) (prog r)" using l by (simp add: min_absorb1)
  then have "map snd (take (length us) (prog r)) = us" "snd (prog r ! length us) = c" "length us < length (prog r)"
    using t l by (simp_all add: take_map)
  then show ?thesis using split_at [of "length us" r] by blast
qed

lemma peer_less:
  assumes "r < n" "puts_to s (take i (calls r)) \<noteq> [] \<or> elems_to s (take i (calls r)) \<noteq> []"
  shows "s < n"
  using assms(2)
proof
  assume "puts_to s (take i (calls r)) \<noteq> []"
  then obtain lo len nt us vs where "take i (calls r) = us @ Put s lo len nt # vs"
    using puts_to_nthD [of 0 s "take i (calls r)"] by (metis length_greater_0_conv prod_cases3)
  then show ?thesis using call_at [of i r] put_known [OF assms(1)] by (metis take_map)
next
  assume "elems_to s (take i (calls r)) \<noteq> []"
  then obtain lo len us vs where "take i (calls r) = us @ PutElem s lo len # vs"
    using elems_to_nthD [of 0 s "take i (calls r)"] by (metis length_greater_0_conv surj_pair)
  then show ?thesis using call_at [of i r] elem_known [OF assms(1)] by (metis take_map)
qed

lemma unfinished_moves:
  assumes r: "r < n" "pc st r < length (prog r)"
    and min: "\<forall>s < n. pc st s < length (prog s) \<longrightarrow> fst (prog r ! pc st r) \<le> fst (prog s ! pc st s)"
  shows "\<exists>st'. net_step n sp calls st st'"
proof (cases "can sp calls st r (take (pc st r) (calls r)) (calls r ! pc st r)")
  case True
  then show ?thesis using net_step.call [of r n st calls sp] r by (auto simp: take_map)
next
  case False
  let ?i = "pc st r" let ?t = "fst (prog r ! ?i)"
  let ?us = "take ?i (prog r)"
  note sp = split_at [OF r(2)]
  have us: "take ?i (calls r) = map snd ?us" by (simp add: take_map)
  have c: "calls r ! ?i = snd (prog r ! ?i)" using r(2) by simp
  from False consider s where "snd (prog r ! ?i) = WaitCtrl s"
    | s where "snd (prog r ! ?i) = WaitPut s" "(\<exists>j < length (puts_to s (map snd ?us)). \<not> landed st r s j) \<or> kernel st r s < length (elems_to s (map snd ?us))"
    | s where "snd (prog r ! ?i) = WaitNotify s" | s where "snd (prog r ! ?i) = WaitElem s"
    unfolding c us by (cases "snd (prog r ! ?i)") (auto simp: can_def not_le)
  then show ?thesis
  proof cases
    case (1 s)
    obtain us' t' vs' where s: "s < n" "prog s = us' @ (t', SendCtrl r) # vs'" "t' < ?t"
      "count_list (map snd ?us) (WaitCtrl s) \<le> count_list (map snd us') (SendCtrl r)"
      using wait_ctrl [OF r(1) sp [unfolded 1]] by blast
    show ?thesis
    proof (cases "pc st s \<le> length us'")
      case True
      from peer_behind [OF s(1,2) this s(3)] min s(1) show ?thesis by fastforce
    next
      case b: False
      then obtain d where d: "pc st s = Suc (length us') + d" by (metis not_less_eq_eq le_Suc_ex)
      have "take (pc st s) (calls s) = map snd us' @ SendCtrl r # take d (map snd vs')" by (simp add: s(2) d)
      then have "can sp calls st r (take ?i (calls r)) (calls r ! ?i)" using s(4) by (simp add: can_def us c 1)
      then show ?thesis using False by simp
    qed
  next
    case (2 s)
    have "puts_to s (take ?i (calls r)) \<noteq> [] \<or> elems_to s (take ?i (calls r)) \<noteq> []" using 2(2) unfolding us by auto
    then have "s < n" by (rule peer_less [OF r(1)])
    then show ?thesis using land_enabled [OF r(1), of s _ st] kernel_enabled [OF r(1), of s st] 2(2)
      unfolding issued_def posted_def us by blast
  next
    case (3 s)
    obtain us' t' lo len vs' where s: "s < n" "prog s = us' @ (t', Put r lo len True) # vs'" "t' < ?t"
      "count_list (map snd ?us) (WaitNotify s) \<le> notices (puts_to r (map snd us'))"
      using wait_notify [OF r(1) sp [unfolded 3]] by blast
    show ?thesis
    proof (cases "pc st s \<le> length us'")
      case True
      from peer_behind [OF s(1,2) this s(3)] min s(1) show ?thesis by fastforce
    next
      case b: False
      then obtain d where d: "pc st s = Suc (length us') + d" by (metis not_less_eq_eq le_Suc_ex)
      have tk: "take (pc st s) (calls s) = map snd us' @ Put r lo len True # take d (map snd vs')" by (simp add: s(2) d)
      show ?thesis
      proof (cases "\<exists>j < issued st s r. \<not> landed st s r j")
        case True
        then show ?thesis using land_enabled s(1) r(1) by blast
      next
        case full: False
        have "count_list (map snd ?us) (WaitNotify s) < notices (take (issued st s r) (puts_to r (calls s)))"
          using s(4) unfolding issued_def puts_to_take_len [symmetric] unfolding tk by simp
        also have "\<dots> \<le> signals (sp s r) (puts_to r (calls s)) (landed st s r)" using full by (intro signals_all) blast
        finally have "can sp calls st r (take ?i (calls r)) (calls r ! ?i)" by (simp add: can_def us c 3)
        then show ?thesis using False by simp
      qed
    qed
  next
    case (4 s)
    obtain us' t' lo len vs' where s: "s < n" "prog s = us' @ (t', PutElem r lo len) # vs'" "t' < ?t"
      "count_list (map snd ?us) (WaitElem s) \<le> length (elems_to r (map snd us'))"
      using wait_elem [OF r(1) sp [unfolded 4]] by blast
    show ?thesis
    proof (cases "pc st s \<le> length us'")
      case True
      from peer_behind [OF s(1,2) this s(3)] min s(1) show ?thesis by fastforce
    next
      case b: False
      then obtain d where d: "pc st s = Suc (length us') + d" by (metis not_less_eq_eq le_Suc_ex)
      have tk: "take (pc st s) (calls s) = map snd us' @ PutElem r lo len # take d (map snd vs')" by (simp add: s(2) d)
      have "count_list (map snd ?us) (WaitElem s) < posted st s r" using s(4) unfolding posted_def tk by simp
      then have "kernel st s r < posted st s r \<or> can sp calls st r (take ?i (calls r)) (calls r ! ?i)"
        by (auto simp: can_def us c 4)
      then show ?thesis using kernel_enabled [OF s(1) r(1)] False by blast
    qed
  qed
qed

lemma no_deadlock:
  assumes "\<not> finished n calls st" "\<forall>r < n. pc st r \<le> length (prog r)"
  shows "\<exists>st'. net_step n sp calls st st'"
proof -
  let ?U = "{r. r < n \<and> pc st r < length (prog r)}"
  have "?U \<noteq> {}" using assms by (auto simp: finished_def order_le_less)
  moreover have "finite ?U" by simp
  ultimately obtain r where r: "r \<in> ?U" "\<forall>s \<in> ?U. fst (prog r ! pc st r) \<le> fst (prog s ! pc st s)"
    using ex_min_if_finite [of "(\<lambda>r. fst (prog r ! pc st r)) ` ?U"] by (metis (no_types, lifting) arg_min_if_finite(1) arg_min_least)
  then show ?thesis using unfinished_moves [of r st] by blast
qed

end

context timed_net begin

definition net_inv :: "(nat \<Rightarrow> 'v) \<Rightarrow> 'v net \<Rightarrow> bool" where
  "net_inv data st \<longleftrightarrow> (\<forall>r < n. pc st r \<le> length (prog r)) \<and>
     (\<forall>s < n. \<forall>r < n. (\<forall>j. landed st s r j \<longrightarrow> j < issued st s r) \<and> kernel st s r \<le> posted st s r) \<and>
     (\<forall>r < n. \<forall>x \<in> know n sp calls own r (take (pc st r) (calls r)). mem st r x = data x) \<and>
     (\<forall>r < n. \<forall>s < n. \<forall>j < length (puts_to r (calls s)). landed st s r j \<longrightarrow> (\<forall>x \<in> span (puts_to r (calls s) ! j). mem st r x = data x)) \<and>
     (\<forall>r < n. \<forall>s < n. \<forall>x \<in> kspan (take (kernel st s r) (elems_to r (calls s))). mem st r x = data x)"

lemma net_invD:
  assumes "net_inv data st"
  shows "r < n \<Longrightarrow> pc st r \<le> length (prog r)" "s < n \<Longrightarrow> r < n \<Longrightarrow> landed st s r j \<Longrightarrow> j < issued st s r"
    "s < n \<Longrightarrow> r < n \<Longrightarrow> kernel st s r \<le> posted st s r"
    "r < n \<Longrightarrow> x \<in> know n sp calls own r (take (pc st r) (calls r)) \<Longrightarrow> mem st r x = data x"
    "r < n \<Longrightarrow> s < n \<Longrightarrow> j < length (puts_to r (calls s)) \<Longrightarrow> landed st s r j \<Longrightarrow> x \<in> span (puts_to r (calls s) ! j) \<Longrightarrow> mem st r x = data x"
    "r < n \<Longrightarrow> s < n \<Longrightarrow> x \<in> kspan (take (kernel st s r) (elems_to r (calls s))) \<Longrightarrow> mem st r x = data x"
  using assms by (simp_all add: net_inv_def)

lemma start_inv: "net_start n own data st \<Longrightarrow> net_inv data st"
  by (simp add: net_inv_def net_start_def know_def)

lemma know_call_step:
  assumes "net_inv data st" "r < n" "pc st r < length (prog r)" "can sp calls st r (take (pc st r) (calls r)) (calls r ! pc st r)"
    and x: "x \<in> know n sp calls own r (take (Suc (pc st r)) (calls r))"
  shows "mem st r x = data x"
proof (cases "x \<in> know n sp calls own r (take (pc st r) (calls r))")
  case True
  then show ?thesis using assms(1,2) by (simp add: net_inv_def)
next
  case False
  let ?us = "take (pc st r) (calls r)" let ?c = "calls r ! pc st r"
  have tk: "take (Suc (pc st r)) (calls r) = ?us @ [?c]" using assms(3) by (simp add: take_Suc_conv_app_nth)
  let ?n = "\<lambda>us s. arrived (sp s r) (puts_to r (calls s)) (count_list us (WaitNotify s))"
  let ?k = "\<lambda>us s. kspan (take (count_list us (WaitElem s)) (elems_to r (calls s)))"
  obtain s where s: "s < n" "x \<in> ?n (?us @ [?c]) s - ?n ?us s \<or> x \<in> ?k (?us @ [?c]) s - ?k ?us s"
    using x False unfolding tk know_def by blast
  then consider "?c = WaitNotify s" "x \<in> ?n (?us @ [?c]) s" | "?c = WaitElem s" "x \<in> ?k (?us @ [?c]) s" by (auto split: if_splits)
  then show ?thesis
  proof cases
    case 1
    have "count_list (?us @ [?c]) (WaitNotify s) \<le> signals (sp s r) (puts_to r (calls s)) (landed st s r)"
      using assms(4) by (simp add: 1 can_def)
    from arrived_landed [OF this 1(2)] show ?thesis using net_invD(5) [OF assms(1,2) s(1)] by blast
  next
    case 2
    have "count_list (?us @ [?c]) (WaitElem s) \<le> kernel st s r" using assms(4) by (simp add: 2 can_def)
    then show ?thesis using kspan_take_mono 2(2) net_invD(6) [OF assms(1,2) s(1)] by blast
  qed
qed

lemma call_step_inv:
  assumes inv: "net_inv data st" and r: "r < n" "pc st r < length (prog r)"
    and can: "can sp calls st r (take (pc st r) (calls r)) (calls r ! pc st r)"
  shows "net_inv data (call_step r st)"
proof -
  have f: "landed (call_step r st) = landed st" "kernel (call_step r st) = kernel st" "mem (call_step r st) = mem st"
    "pc (call_step r st) = (pc st)(r := Suc (pc st r))"
    by (simp_all add: call_step_def)
  have tk: "take (Suc (pc st r)) (calls r) = take (pc st r) (calls r) @ [calls r ! pc st r]" using r(2) by (simp add: take_Suc_conv_app_nth)
  have mono: "issued st s q \<le> issued (call_step r st) s q" "posted st s q \<le> posted (call_step r st) s q" for s q
    by (simp_all add: issued_def posted_def f tk)
  have i: "j < issued (call_step r st) s q" if "s < n" "q < n" "landed st s q j" for s q j
    using net_invD(2) [OF inv that] mono(1) by (rule less_le_trans)
  have p: "kernel st s q \<le> posted (call_step r st) s q" if "s < n" "q < n" for s q
    using net_invD(3) [OF inv that] mono(2) by (rule le_trans)
  have k: "mem st q x = data x" if "q < n" "x \<in> know n sp calls own q (take (((pc st)(r := Suc (pc st r))) q) (calls q))" for q x
    using that know_call_step [OF inv r can] net_invD(4) [OF inv] by (cases "q = r") simp_all
  show ?thesis using inv i p k r by (simp add: net_inv_def f)
qed

text \<open>What is put was known to the sender, and a copy of it spoils nothing.\<close>

lemma source_known:
  assumes inv: "net_inv data st" and s: "s < n" and u: "take (pc st s) (calls s) = us @ c # vs"
    and c: "c = Put r lo len nt \<or> c = PutElem r lo len" and x: "x \<in> {lo..<lo + len}"
  shows "mem st s x = data x"
proof -
  obtain us' t vs' where p: "prog s = us' @ (t, c) # vs'" "map snd us' = us" using call_at [of "pc st s" s us c vs] u by (auto simp: take_map)
  have "{lo..<lo + len} \<subseteq> know n sp calls own s us" using c put_known [OF s] elem_known [OF s] p by blast
  moreover have "us = take (length us) (calls s)" using p by (simp add: p(2) [symmetric])
  moreover have "length us \<le> pc st s" using arg_cong [OF u, of length] by simp
  ultimately have "x \<in> know n sp calls own s (take (pc st s) (calls s))" using x know_mono by (metis subsetD)
  then show ?thesis by (rule net_invD(4) [OF inv s])
qed

lemma copy_old:
  "(\<And>x. x \<in> {lo..<lo + len} \<Longrightarrow> mem st s x = data x) \<Longrightarrow> mem st q y = data y \<Longrightarrow> mem (copy_bytes s r lo len st) q y = data y"
  by (auto simp: copy_bytes_def)

lemma land_step_inv:
  assumes inv: "net_inv data st" and s: "s < n" "r < n" "j < issued st s r"
    and p: "p = puts_to r (calls s) ! j"
  shows "net_inv data (land_step s r j p st)"
proof -
  obtain lo len nt where pp: "p = (lo, len, nt)" by (cases p)
  have len: "j < length (puts_to r (take (pc st s) (calls s)))" using s(3) by (simp add: issued_def)
  have "puts_to r (take (pc st s) (calls s)) ! j = (lo, len, nt)"
    using p pp len puts_to_take_len [of r "pc st s" "calls s"] by (metis nth_take)
  then obtain us vs where u: "take (pc st s) (calls s) = us @ Put r lo len nt # vs" using puts_to_nthD [OF len] by blast
  have src: "mem st s x = data x" if "x \<in> {lo..<lo + len}" for x using source_known [OF inv s(1) u _ that] by blast
  let ?st = "land_step s r j p st"
  have f: "pc ?st = pc st" "issued ?st = issued st" "posted ?st = posted st" "kernel ?st = kernel st"
    "landed ?st = (landed st)(s := (landed st s)(r := (landed st s r)(j := True)))" "mem ?st = mem (copy_bytes s r lo len st)"
    by (simp_all add: land_step_def copy_bytes_def pp issued_def posted_def fun_eq_iff)
  have old: "mem ?st q x = data x" if "mem st q x = data x" for q x
    unfolding f(6) by (rule copy_old [where st = st, OF src that])
  have new: "mem ?st q x = data x"
    if "q < n" "t < n" "i < length (puts_to q (calls t))" "landed ?st t q i" "x \<in> span (puts_to q (calls t) ! i)" for q t i x
  proof (cases "t = s \<and> q = r \<and> i = j")
    case True
    then have "x \<in> span p" using that(5) p by simp
    then have "x \<in> {lo..<lo + len}" unfolding pp by simp
    then show ?thesis using src True by (simp add: f copy_bytes_def)
  next
    case False
    then have "landed st t q i" using that(4) by (auto simp: f split: if_splits)
    then show ?thesis using net_invD(5) [OF inv that(1-3) _ that(5)] old by blast
  qed
  have "\<forall>t < n. \<forall>q < n. (\<forall>i. landed ?st t q i \<longrightarrow> i < issued ?st t q) \<and> kernel ?st t q \<le> posted ?st t q"
    using net_invD(2,3) [OF inv] s(3) by (auto simp: f)
  moreover have "\<forall>q < n. \<forall>x \<in> know n sp calls own q (take (pc ?st q) (calls q)). mem ?st q x = data x"
    using old net_invD(4) [OF inv] by (simp add: f(1))
  moreover have "\<forall>q < n. \<forall>t < n. \<forall>x \<in> kspan (take (kernel ?st t q) (elems_to q (calls t))). mem ?st q x = data x"
    using old net_invD(6) [OF inv] by (simp add: f(4))
  ultimately show ?thesis using net_invD(1) [OF inv] new unfolding net_inv_def by (simp add: f(1))
qed

lemma kernel_step_inv:
  assumes inv: "net_inv data st" and s: "s < n" "r < n" "kernel st s r < posted st s r"
    and p: "p = elems_to r (calls s) ! kernel st s r"
  shows "net_inv data (kernel_step s r p st)"
proof -
  obtain lo len where pp: "p = (lo, len)" by (cases p)
  let ?j = "kernel st s r"
  have len: "?j < length (elems_to r (take (pc st s) (calls s)))" using s(3) by (simp add: posted_def)
  have "elems_to r (take (pc st s) (calls s)) ! ?j = (lo, len)"
    using p pp len elems_to_take_len [of r "pc st s" "calls s"] by (metis nth_take)
  then obtain us vs where u: "take (pc st s) (calls s) = us @ PutElem r lo len # vs" using elems_to_nthD [OF len] by blast
  have src: "mem st s x = data x" if "x \<in> {lo..<lo + len}" for x using source_known [OF inv s(1) u _ that] by blast
  let ?st = "kernel_step s r p st"
  have f: "pc ?st = pc st" "issued ?st = issued st" "posted ?st = posted st" "landed ?st = landed st"
    "kernel ?st = (kernel st)(s := (kernel st s)(r := Suc ?j))" "mem ?st = mem (copy_bytes s r lo len st)"
    by (simp_all add: kernel_step_def copy_bytes_def pp issued_def posted_def fun_eq_iff)
  have old: "mem ?st q x = data x" if "mem st q x = data x" for q x
    unfolding f(6) by (rule copy_old [where st = st, OF src that])
  have tk: "take (Suc ?j) (elems_to r (calls s)) = take ?j (elems_to r (calls s)) @ [(lo, len)]"
    using s(3) posted_le [of st s r] p pp by (simp add: take_Suc_conv_app_nth)
  have new: "mem ?st q x = data x" if "q < n" "t < n" "x \<in> kspan (take (kernel ?st t q) (elems_to q (calls t)))" for q t x
  proof (cases "t = s \<and> q = r \<and> x \<in> {lo..<lo + len}")
    case True
    then show ?thesis using src by (simp add: f copy_bytes_def)
  next
    case False
    then have "x \<in> kspan (take (kernel st t q) (elems_to q (calls t)))" using that(3) tk by (auto simp: f kspan_def split: if_splits)
    then show ?thesis using net_invD(6) [OF inv that(1,2)] old by blast
  qed
  have "\<forall>t < n. \<forall>q < n. (\<forall>i. landed ?st t q i \<longrightarrow> i < issued ?st t q) \<and> kernel ?st t q \<le> posted ?st t q"
    using net_invD(2,3) [OF inv] s(3) by (auto simp: f)
  moreover have "\<forall>q < n. \<forall>x \<in> know n sp calls own q (take (pc ?st q) (calls q)). mem ?st q x = data x"
    using old net_invD(4) [OF inv] by (simp add: f(1))
  moreover have "\<forall>q < n. \<forall>t < n. \<forall>i < length (puts_to q (calls t)). landed ?st t q i \<longrightarrow> (\<forall>x \<in> span (puts_to q (calls t) ! i). mem ?st q x = data x)"
    using old net_invD(5) [OF inv] by (simp add: f(4))
  ultimately show ?thesis using net_invD(1) [OF inv] new unfolding net_inv_def by (simp add: f(1))
qed

lemma step_inv: "net_step n sp calls st st' \<Longrightarrow> net_inv data st \<Longrightarrow> net_inv data st'"
  by (induction rule: net_step.induct) (auto intro: call_step_inv land_step_inv kernel_step_inv simp: issued_def posted_def)

text \<open>Every step is one of finitely many.\<close>

definition missing :: "'v net \<Rightarrow> nat \<Rightarrow> nat \<Rightarrow> nat" where
  "missing st s r = card {j. j < length (puts_to r (calls s)) \<and> \<not> landed st s r j}"

definition left :: "'v net \<Rightarrow> nat" where
  "left st = (\<Sum>r < n. length (prog r) - pc st r) + (\<Sum>(s, r) \<in> {..<n} \<times> {..<n}. missing st s r) +
     (\<Sum>(s, r) \<in> {..<n} \<times> {..<n}. length (elems_to r (calls s)) - kernel st s r)"

lemma sum_dec:
  assumes "finite A" "a \<in> A" "g a < f a" "\<forall>x \<in> A. x \<noteq> a \<longrightarrow> g x = f x"
  shows "sum g A < (sum f A :: nat)"
  using sum_strict_mono_ex1 [of A g f] assms by (metis le_eq_less_or_eq)

lemma step_left: "net_step n sp calls st st' \<Longrightarrow> left st' < left st"
proof (induction rule: net_step.induct)
  case (call r st)
  have "(\<Sum>q < n. length (prog q) - pc (call_step r st) q) < (\<Sum>q < n. length (prog q) - pc st q)"
    by (rule sum_dec [of _ r]) (use call in \<open>auto simp: call_step_def\<close>)
  then show ?case by (simp add: left_def missing_def call_step_def)
next
  case (land s r j st p)
  let ?st = "land_step s r j p st"
  have j: "j < length (puts_to r (calls s))" using land.hyps(3) issued_le [of st s r] by (simp add: issued_def)
  have l: "landed ?st = (landed st)(s := (landed st s)(r := (landed st s r)(j := True)))" "pc ?st = pc st" "kernel ?st = kernel st"
    by (simp_all add: land_step_def copy_bytes_def split: prod.split)
  have "{i. i < length (puts_to r (calls s)) \<and> \<not> landed ?st s r i} \<subset> {i. i < length (puts_to r (calls s)) \<and> \<not> landed st s r i}"
    using j land.hyps(4) by (auto simp: l)
  then have "missing ?st s r < missing st s r" unfolding missing_def by (intro psubset_card_mono) simp_all
  moreover have "missing ?st t q = missing st t q" if "(t, q) \<noteq> (s, r)" for t q using that by (auto simp: missing_def l)
  ultimately have "(\<Sum>(t, q) \<in> {..<n} \<times> {..<n}. missing ?st t q) < (\<Sum>(t, q) \<in> {..<n} \<times> {..<n}. missing st t q)"
    by (intro sum_dec [of _ "(s, r)"]) (use land.hyps in auto)
  then show ?case by (simp add: left_def l)
next
  case (kernel s r st p)
  let ?st = "kernel_step s r p st"
  have l: "kernel ?st = (kernel st)(s := (kernel st s)(r := Suc (kernel st s r)))" "pc ?st = pc st" "landed ?st = landed st"
    by (simp_all add: kernel_step_def copy_bytes_def split: prod.split)
  have "kernel st s r < length (elems_to r (calls s))" using kernel.hyps(3) posted_le [of st s r] by (simp add: posted_def)
  then have "(\<Sum>(t, q) \<in> {..<n} \<times> {..<n}. length (elems_to q (calls t)) - kernel ?st t q) <
      (\<Sum>(t, q) \<in> {..<n} \<times> {..<n}. length (elems_to q (calls t)) - kernel st t q)"
    by (intro sum_dec [of _ "(s, r)"]) (use kernel.hyps(1-3) in \<open>auto simp: l\<close>)
  then show ?case by (simp add: left_def missing_def l)
qed

lemma run_inv: "net_run n sp calls st0 k st \<Longrightarrow> net_inv data st0 \<Longrightarrow> net_inv data st \<and> k + left st \<le> left st0"
  by (induction rule: net_run.induct) (use step_inv step_left in fastforce)+

lemma net_correct:
  assumes "net_start n own data st0" "net_run n sp calls st0 k st"
  shows "k \<le> left st0" "\<not> finished n calls st \<Longrightarrow> \<exists>st'. net_step n sp calls st st'"
    "finished n calls st \<Longrightarrow> r < n \<Longrightarrow> x \<in> all \<Longrightarrow> mem st r x = data x"
proof -
  have I: "net_inv data st" "k + left st \<le> left st0" using run_inv [OF assms(2) start_inv [OF assms(1)]] by blast+
  show "k \<le> left st0" using I(2) by simp
  show "\<exists>st'. net_step n sp calls st st'" if "\<not> finished n calls st" using no_deadlock [OF that] I(1) by (simp add: net_inv_def)
  show "mem st r x = data x" if "finished n calls st" "r < n" "x \<in> all"
    using I(1) that complete [OF that(2)] by (auto simp: net_inv_def finished_def)
qed

end

section \<open>Stamping calls with times\<close>

definition stamp :: "nat \<Rightarrow> call list \<Rightarrow> (nat \<times> call) list" where
  "stamp t cs = map (Pair t) cs"

lemma stamp_simps [simp]: "map snd (stamp t cs) = cs" "map fst (stamp t cs) = replicate (length cs) t"
  "set (stamp t cs) = Pair t ` set cs" "stamp t [] = []" "stamp t (c # cs) = (t, c) # stamp t cs" "stamp t (cs @ ds) = stamp t cs @ stamp t ds"
  by (simp_all add: stamp_def comp_def map_replicate_const)

lemma stamp_mem: "x \<in> set (stamp t cs) \<longleftrightarrow> fst x = t \<and> snd x \<in> set cs"
  by (cases x) (auto simp: stamp_def)

lemma sorted_append_le:
  "sorted (map fst xs) \<Longrightarrow> sorted (map fst ys) \<Longrightarrow> \<forall>x \<in> set xs. fst x \<le> a \<Longrightarrow> \<forall>y \<in> set ys. a \<le> fst y \<Longrightarrow>
    sorted (map fst (xs @ ys))" for a :: nat
  by (fastforce simp: sorted_append)

text \<open>Steps that each use their own window of \<open>w\<close> times are sorted one after the other.\<close>

lemma sorted_phases:
  assumes "\<And>i. i < k \<Longrightarrow> sorted (map fst (f i)) \<and> (\<forall>x \<in> set (f i). w * i + a \<le> fst x \<and> fst x \<le> w * Suc i + a)"
  shows "sorted (map fst (concat (map f [0..<k]))) \<and> (\<forall>x \<in> set (concat (map f [0..<k])). a \<le> fst x \<and> fst x \<le> w * k + a)"
  using assms
proof (induction k)
  case 0
  then show ?case by simp
next
  case (Suc k)
  have IH: "sorted (map fst (concat (map f [0..<k])))" "\<forall>x \<in> set (concat (map f [0..<k])). a \<le> fst x \<and> fst x \<le> w * k + a"
    using Suc.IH Suc.prems by (simp_all add: less_Suc_eq)
  have k: "sorted (map fst (f k))" "\<forall>x \<in> set (f k). w * k + a \<le> fst x" "\<forall>x \<in> set (f k). fst x \<le> w * Suc k + a"
    using Suc.prems [of k] by auto
  have s: "concat (map f [0..<Suc k]) = concat (map f [0..<k]) @ f k" by simp
  have le: "w * k + a \<le> w * Suc k + a" "a \<le> w * k + a" by simp_all
  have "\<forall>x \<in> set (concat (map f [0..<Suc k])). a \<le> fst x \<and> fst x \<le> w * Suc k + a"
    unfolding s using IH(2) k(2,3) le by (metis Un_iff le_trans set_append)
  then show ?case unfolding s using sorted_append_le [OF IH(1) k(1) _ k(2)] IH(2) by blast
qed

lemma earlier_in_prefix:
  assumes "sorted (map fst (us @ (t, c) # vs))" "(t', c') \<in> set (us @ (t, c) # vs)" "t' < t"
  shows "(t', c') \<in> set (us :: (nat \<times> 'c) list)"
  using assms by (auto simp: sorted_append)

lemma unique_count:
  assumes "count_list (map snd xs) c \<le> 1" "xs = us @ (t, c) # vs"
  shows "count_list (map snd us) c = 0"
  using assms by simp

lemma count_list_concat: "count_list (concat (map f [0..<k])) x = (\<Sum>i < k. count_list (f i) x)"
  by (induction k) auto

lemma sum_single: "i < k \<Longrightarrow> (\<And>j. j < k \<Longrightarrow> j \<noteq> i \<Longrightarrow> f j = 0) \<Longrightarrow> (\<Sum>j < k. f j) = (f i :: nat)" for k :: nat
  by (subst sum.remove [where x = i]) auto

lemma concat_single: "i < k \<Longrightarrow> (\<And>j. j < k \<Longrightarrow> j \<noteq> i \<Longrightarrow> f j = []) \<Longrightarrow> concat (map f [0..<k]) = f i"
proof -
  assume i: "i < k" and e: "\<And>j. j < k \<Longrightarrow> j \<noteq> i \<Longrightarrow> f j = []"
  obtain d where "k = i + Suc d" using i by (metis add_Suc_right less_imp_Suc_add)
  then have "[0..<k] = [0..<i] @ i # [Suc i..<k]" by (metis i le0 upt_add_eq_append upt_conv_Cons)
  moreover have "concat (map f [0..<i]) = []" "concat (map f [Suc i..<k]) = []" using e i by auto
  ultimately show ?thesis by (simp del: concat_eq_Nil_conv)
qed

text \<open>In spray mode, puts of which only the last notifies have all arrived with the first notification.\<close>

lemma arrived_block:
  "(\<And>p. p \<in> set ps \<Longrightarrow> \<not> snd (snd p)) \<Longrightarrow> arrived True (ps @ [(lo, len, True)]) (Suc 0) = ranges (ps @ [(lo, len, True)])"
proof (induction ps)
  case Nil
  then show ?case by simp
next
  case (Cons p ps)
  have p: "\<not> snd (snd p)" "\<And>q. q \<in> set ps \<Longrightarrow> \<not> snd (snd q)" using Cons.prems by simp_all
  from Cons.IH [OF p(2)] p(1) show ?case by (cases p) simp
qed

lemma puts_to_other: "(\<And>lo len nt. Put r lo len nt \<notin> set cs) \<Longrightarrow> puts_to r cs = []"
  by (induction r cs rule: puts_to.induct) auto


text \<open>Positions of repeated calls, by their times.\<close>

lemma first_count:
  assumes "sorted (map fst xs)" "xs = us @ (t, c) # vs" "count_list xs (t, c) = 1" "\<And>t'. (t', c) \<in> set xs \<Longrightarrow> t \<le> t'"
  shows "count_list (map snd us) c = 0"
proof (rule ccontr)
  assume "count_list (map snd us) c \<noteq> 0"
  then have "c \<in> set (map snd us)" by (metis count_list_0_iff)
  then obtain t' where t': "(t', c) \<in> set us" by auto
  then have "t' \<le> t" "t \<le> t'" using assms(1,2,4) by (auto simp: sorted_append)
  then have "(t, c) \<in> set us" using t' by simp
  then have "0 < count_list us (t, c)" by (metis count_list_0_iff gr0I)
  then show False using assms(2,3) by simp
qed

lemma count_two:
  assumes "(t, c) \<in> set us" "(t', c) \<in> set us" "t \<noteq> t'"
  shows "2 \<le> count_list (map snd us) c"
proof -
  obtain as bs where s: "us = as @ (t, c) # bs" using assms(1) by (meson split_list)
  then have "(t', c) \<in> set (as @ bs)" using assms(2,3) by auto
  then have "c \<in> set (map snd (as @ bs))" by force
  then have "0 < count_list (map snd (as @ bs)) c" by (metis count_list_0_iff gr0I)
  then show ?thesis using s by auto
qed

lemma count_one: "(t, c) \<in> set us \<Longrightarrow> 1 \<le> count_list (map snd us) c"
  by (metis One_nat_def Suc_leI count_list_0_iff gr0I image_eqI list.set_map snd_conv)


section \<open>Blocks and logarithms\<close>

definition block :: "nat \<Rightarrow> nat \<Rightarrow> nat set" where
  "block sz b = {b * sz..<b * sz + sz}"

lemma all_blocks: "\<Union> (block sz ` {..<m}) = {..<m * sz}"
proof (intro set_eqI iffI)
  fix x assume "x \<in> \<Union> (block sz ` {..<m})"
  then obtain b where b: "b < m" "x < b * sz + sz" by (auto simp: block_def)
  have "(b + 1) * sz \<le> m * sz" using b(1) by (intro mult_right_mono) auto
  then show "x \<in> {..<m * sz}" using b(2) by simp
next
  fix x assume x: "x \<in> {..<m * sz}"
  then have "0 < sz" by (cases sz) auto
  then have "x \<in> block sz (x div sz)" "x div sz < m"
    using x dividend_less_div_times [of sz x] by (auto simp: block_def less_mult_imp_div_less)
  then show "x \<in> \<Union> (block sz ` {..<m})" by auto
qed

text \<open>\<^verbatim>\<open>log2Down\<close> of \<^verbatim>\<open>comms/ctran/utils/DevUtils.cuh\<close>.\<close>

fun log2i :: "nat \<Rightarrow> int" where
  "log2i n = (if n = 0 then -1 else if n = 1 then 0 else 1 + log2i (n div 2))"

declare log2i.simps [simp del]

lemma log2i_pow [simp]: "log2i (2 ^ k) = int k"
proof (induction k)
  case 0
  then show ?case by (simp add: log2i.simps)
next
  case (Suc k)
  have "(2::nat) ^ Suc k \<noteq> 0" "(2::nat) ^ Suc k \<noteq> 1" by (simp_all del: power_Suc)
  then show ?case using Suc by (subst log2i.simps) simp
qed

lemma log2i_bounds: "0 < n \<Longrightarrow> 0 \<le> log2i n \<and> 2 ^ nat (log2i n) \<le> n \<and> n < 2 ^ Suc (nat (log2i n))"
proof (induction n rule: log2i.induct)
  case (1 n)
  show ?case
  proof (cases "n = 1")
    case True
    then show ?thesis by (simp add: log2i.simps)
  next
    case False
    then have n: "n \<noteq> 0" "0 < n div 2" using "1.prems" by auto
    from "1.IH" [OF n(1) False n(2)] have IH: "0 \<le> log2i (n div 2)" "2 ^ nat (log2i (n div 2)) \<le> n div 2"
      "n div 2 < 2 ^ Suc (nat (log2i (n div 2)))" by auto
    have l: "log2i n = 1 + log2i (n div 2)" using n(1) False by (simp add: log2i.simps [of n])
    have "nat (log2i n) = Suc (nat (log2i (n div 2)))" using l IH(1) by simp
    then show ?thesis using IH l by simp linarith
  qed
qed

end
