(* ===== verification/AllGather_RecDbl.thy ===== *)
theory AllGather_RecDbl imports Ctran_Net begin

text \<open>
  All-gather by recursive doubling, \<^verbatim>\<open>comms/ctran/algos/AllGather/AllGatherRecDbl.cc\<close>: in step \<open>i\<close> a rank exchanges all
  blocks it has with the peer at distance \<open>nRanks / 2^(i+1)\<close>. \<open>rd_impl\<close> is the list of mapper calls of \<^verbatim>\<open>impl\<close>.
\<close>

section \<open>The algorithm\<close>

definition rd_dist :: "nat \<Rightarrow> nat \<Rightarrow> nat" where
  "rd_dist n i = n div 2 ^ Suc i"

definition rd_peer :: "nat \<Rightarrow> nat \<Rightarrow> nat \<Rightarrow> nat" where
  "rd_peer n rank i = (if (rank div rd_dist n i) mod 2 = 0 then rank + rd_dist n i else rank - rd_dist n i)"

definition rd_offset :: "nat \<Rightarrow> nat \<Rightarrow> nat \<Rightarrow> nat \<Rightarrow> nat" where
  "rd_offset n rank i j = j * (n div 2 ^ i) + rank mod (n div 2 ^ i)"

definition rd_exchange :: "bool \<Rightarrow> nat \<Rightarrow> nat \<Rightarrow> nat \<Rightarrow> call list" where
  "rd_exchange rtr n rank i =
     RecvCtrl (rd_peer n rank i) # (if rtr then [] else [SendCtrl (rd_peer n rank i)]) @ [InitNotify (rd_peer n rank i)]"

definition rd_puts :: "nat \<Rightarrow> nat \<Rightarrow> nat \<Rightarrow> nat \<Rightarrow> call list" where
  "rd_puts sz n rank i =
     map (\<lambda>j. Put (rd_peer n rank i) (rd_offset n rank i j * sz) sz (j = 2 ^ i - 1)) [0..<2 ^ i]"

definition rd_step :: "bool \<Rightarrow> nat \<Rightarrow> nat \<Rightarrow> nat \<Rightarrow> nat \<Rightarrow> call list" where
  "rd_step rtr sz n rank i =
     (if rtr then [SendCtrl (rd_peer n rank i)] else []) @ [WaitCtrl (rd_peer n rank i)] @ rd_puts sz n rank i @
     [WaitPut (rd_peer n rank i), WaitNotify (rd_peer n rank i)]"

definition rd_impl :: "bool \<Rightarrow> bool \<Rightarrow> nat \<Rightarrow> nat \<Rightarrow> nat \<Rightarrow> call list" where
  "rd_impl rtr localMemReg sz n rank =
     [SearchRegHandle] @ concat (map (rd_exchange rtr n rank) [0..<nat (log2i n)]) @
     concat (map (rd_step rtr sz n rank) [0..<nat (log2i n)]) @
     map (\<lambda>i. WaitSendCtrl (rd_peer n rank i)) [0..<nat (log2i n)] @ (if localMemReg then [DeregDynamic] else [])"

section \<open>Peers\<close>

lemma rd_dist_pow: "i < k \<Longrightarrow> rd_dist (2 ^ k) i = 2 ^ (k - Suc i)"
  unfolding rd_dist_def by (simp add: power_diff)

lemma div_pow: "i \<le> k \<Longrightarrow> (2 ^ k :: nat) div 2 ^ i = 2 ^ (k - i)"
  by (simp add: power_diff)

lemma mod_double: "x mod (2 * d) = (if (x div d) mod 2 = 0 then x mod d else x mod d + d)" for x d :: nat
proof -
  have "x mod (2 * d) = d * (x div d mod 2) + x mod d" by (metis mod_mult2_eq mult.commute)
  then show ?thesis by (cases "x div d mod 2 = 0") (auto simp: mod2_eq_if)
qed

lemma form_props:
  fixes d q e x :: nat
  assumes "x < d" "e < 2"
  defines "r \<equiv> d * (2 * q + e) + x"
  shows "r div d = 2 * q + e" "r mod d = x" "r div d mod 2 = e" "r div (2 * d) = q"
proof -
  show d: "r div d = 2 * q + e" and "r mod d = x" using assms(1) by (simp_all add: r_def)
  show "r div d mod 2 = e" using assms(2) by (simp add: d)
  show "r div (2 * d) = q" using assms(2) by (simp add: div_mult2_eq mult.commute [of 2] d)
qed

definition flip :: "nat \<Rightarrow> nat \<Rightarrow> nat" where
  "flip d r = (if r div d mod 2 = 0 then r + d else r - d)"

lemma flip_form:
  assumes "x < d" "e < 2"
  shows "flip d (d * (2 * q + e) + x) = d * (2 * q + (1 - e)) + x"
proof -
  have "e = 0 \<or> e = 1" using assms(2) by auto
  then show ?thesis unfolding flip_def form_props(3) [OF assms] by (auto simp: algebra_simps)
qed

lemma flip_props:
  assumes "0 < d"
  shows "flip d r mod d = r mod d" "flip d r div d mod 2 = 1 - r div d mod 2" "flip d (flip d r) = r"
    "flip d r div (2 * d) = r div (2 * d)"
proof -
  define q e x where "q = r div d div 2" and "e = r div d mod 2" and "x = r mod d"
  have lt: "x < d" "e < 2" "1 - e < 2" using assms by (simp_all add: x_def e_def)
  have r: "r = d * (2 * q + e) + x" by (simp add: q_def e_def x_def)
  have f: "flip d r = d * (2 * q + (1 - e)) + x" unfolding r by (rule flip_form [OF lt(1,2)])
  have ee: "1 - (1 - e) = e" using lt(2) by auto
  show "flip d r mod d = r mod d" 
    using form_props(2) [OF lt(1,3), of q] form_props(2) [OF lt(1,2), of q] f r by metis
  show "flip d r div d mod 2 = 1 - r div d mod 2" 
    using form_props(3) [OF lt(1,3), of q] form_props(3) [OF lt(1,2), of q] f r by metis
  show "flip d (flip d r) = r" using flip_form [OF lt(1,3), of q] ee f r by metis
  show "flip d r div (2 * d) = r div (2 * d)" 
    using form_props(4) [OF lt(1,3), of q] form_props(4) [OF lt(1,2), of q] f r by metis
qed

lemma rd_peer_flip: "i < k \<Longrightarrow> rd_peer (2 ^ k) r i = flip (2 ^ (k - Suc i)) r"
  by (simp add: rd_peer_def rd_dist_pow flip_def)

lemma rd_peer_sym: "i < k \<Longrightarrow> rd_peer (2 ^ k) (rd_peer (2 ^ k) r i) i = r"
  by (simp add: rd_peer_flip flip_props(3))

lemma rd_peer_less: "i < k \<Longrightarrow> r < 2 ^ k \<Longrightarrow> rd_peer (2 ^ k) r i < 2 ^ k"
proof -
  assume i: "i < k" and r: "r < 2 ^ k"
  let ?d = "2 ^ (k - Suc i) :: nat"
  have k: "(2::nat) ^ k = 2 ^ i * (2 * ?d)" using i by (simp add: power_add [symmetric] power_Suc [symmetric] del: power_Suc)
  have "r div (2 * ?d) < 2 ^ i" using r unfolding k by (rule less_mult_imp_div_less)
  then have "flip ?d r div (2 * ?d) < 2 ^ i" by (simp add: flip_props(4))
  then have "flip ?d r < 2 ^ k" unfolding k by (simp add: div_less_iff_less_mult)
  then show ?thesis by (simp add: rd_peer_flip i)
qed

lemma rd_peer_inj:
  assumes "i < k" "j < k" "rd_peer (2 ^ k) r i = rd_peer (2 ^ k) r j"
  shows "i = j"
proof -
  have gt: "0 < rd_dist (2 ^ k) i" "0 < rd_dist (2 ^ k) j" using assms(1,2) by (simp_all add: rd_dist_pow)
  have ge: "rd_dist (2 ^ k) l \<le> r" if "(r div rd_dist (2 ^ k) l) mod 2 \<noteq> 0" for l
    using that by (metis div_less linorder_not_le mod_0)
  have "rd_dist (2 ^ k) i = rd_dist (2 ^ k) j" using assms(3) gt ge [of i] ge [of j] unfolding rd_peer_def by (auto split: if_splits)
  then have "k - Suc i = k - Suc j" using assms(1,2) by (simp add: rd_dist_pow power_inject_exp)
  then show ?thesis using assms(1,2) by simp
qed

section \<open>The algorithm with times\<close>

definition rd_tstep :: "bool \<Rightarrow> nat \<Rightarrow> nat \<Rightarrow> nat \<Rightarrow> nat \<Rightarrow> (nat \<times> call) list" where
  "rd_tstep rtr sz n r i =
     stamp (3 * i + 1) (if rtr then [SendCtrl (rd_peer n r i)] else []) @
     stamp (3 * i + 2) ([WaitCtrl (rd_peer n r i)] @ rd_puts sz n r i @ [WaitPut (rd_peer n r i)]) @
     stamp (3 * i + 3) [WaitNotify (rd_peer n r i)]"

definition rd_timed :: "bool \<Rightarrow> (nat \<Rightarrow> bool) \<Rightarrow> nat \<Rightarrow> nat \<Rightarrow> nat \<Rightarrow> (nat \<times> call) list" where
  "rd_timed rtr reg sz n r =
     stamp 0 ([SearchRegHandle] @ concat (map (rd_exchange rtr n r) [0..<nat (log2i n)])) @
     concat (map (rd_tstep rtr sz n r) [0..<nat (log2i n)]) @
     stamp (3 * nat (log2i n) + 1)
       (map (\<lambda>i. WaitSendCtrl (rd_peer n r i)) [0..<nat (log2i n)] @ (if reg r then [DeregDynamic] else []))"

lemma rd_timed_calls: "map snd (rd_timed rtr reg sz n r) = rd_impl rtr (reg r) sz n r"
proof -
  have "map snd (rd_tstep rtr sz n r i) = rd_step rtr sz n r i" for i
    by (simp add: rd_tstep_def rd_step_def)
  then have "map snd (concat (map (rd_tstep rtr sz n r) xs)) = concat (map (rd_step rtr sz n r) xs)" for xs
    by (simp add: map_concat comp_def)
  then show ?thesis by (simp add: rd_timed_def rd_impl_def del: stamp_simps(5,6))
qed

lemma rd_timed_sorted: "sorted (map fst (rd_timed rtr reg sz n r))"
proof -
  let ?k = "nat (log2i n)"
  have ph: "sorted (map fst (concat (map (rd_tstep rtr sz n r) [0..<?k]))) \<and>
      (\<forall>x \<in> set (concat (map (rd_tstep rtr sz n r) [0..<?k])). fst x \<le> 3 * ?k)"
  proof -
    have "sorted (map fst (rd_tstep rtr sz n r i)) \<and> (\<forall>x \<in> set (rd_tstep rtr sz n r i). 3 * i + 0 \<le> fst x \<and> fst x \<le> 3 * Suc i + 0)" for i
      by (auto simp: rd_tstep_def sorted_append sorted_replicate)
    from sorted_phases [OF this, of ?k] show ?thesis by auto
  qed
  have "sorted (map fst (concat (map (rd_tstep rtr sz n r) [0..<?k]) @
      stamp (3 * ?k + 1) (map (\<lambda>i. WaitSendCtrl (rd_peer n r i)) [0..<?k] @ (if reg r then [DeregDynamic] else []))))"
    by (rule sorted_append_le [of _ _ "3 * ?k"]) (use ph in \<open>auto simp: sorted_replicate simp del: stamp_simps(5,6)\<close>)
  then show ?thesis unfolding rd_timed_def
    by (rule sorted_append_le [of _ _ 0, rotated]) (auto simp: sorted_replicate simp del: stamp_simps(5,6))
qed

text \<open>Which calls occur, and when.\<close>

lemma rd_puts_set: "c \<in> set (rd_puts sz n r i) \<longleftrightarrow>
    (\<exists>j < 2 ^ i. c = Put (rd_peer n r i) (rd_offset n r i j * sz) sz (j = 2 ^ i - 1))"
  by (auto simp: rd_puts_def)

lemma rd_timed_mem:
  "x \<in> set (rd_timed rtr reg sz n r) \<longleftrightarrow>
     (fst x = 0 \<and> (snd x = SearchRegHandle \<or> (\<exists>i < nat (log2i n). snd x \<in> set (rd_exchange rtr n r i)))) \<or>
     (\<exists>i < nat (log2i n). x \<in> set (rd_tstep rtr sz n r i)) \<or>
     (fst x = 3 * nat (log2i n) + 1 \<and> ((\<exists>i < nat (log2i n). snd x = WaitSendCtrl (rd_peer n r i)) \<or> (reg r \<and> snd x = DeregDynamic)))"
  by (auto simp: rd_timed_def stamp_mem simp del: stamp_simps)

lemma rd_tstep_mem:
  "(t, WaitCtrl s) \<in> set (rd_tstep rtr sz n r i) \<longleftrightarrow> t = 3 * i + 2 \<and> s = rd_peer n r i"
  "(t, WaitNotify s) \<in> set (rd_tstep rtr sz n r i) \<longleftrightarrow> t = 3 * i + 3 \<and> s = rd_peer n r i"
  "(t, Put s lo len nt) \<in> set (rd_tstep rtr sz n r i) \<longleftrightarrow> t = 3 * i + 2 \<and> Put s lo len nt \<in> set (rd_puts sz n r i)"
  "(t, SendCtrl s) \<in> set (rd_tstep rtr sz n r i) \<longleftrightarrow> t = 3 * i + 1 \<and> rtr \<and> s = rd_peer n r i"
  by (auto simp: rd_tstep_def stamp_mem rd_puts_set simp del: stamp_simps)

lemma rd_timed_set:
  "(t, WaitCtrl s) \<in> set (rd_timed rtr reg sz n r) \<longleftrightarrow> (\<exists>i < nat (log2i n). t = 3 * i + 2 \<and> s = rd_peer n r i)"
  "(t, WaitNotify s) \<in> set (rd_timed rtr reg sz n r) \<longleftrightarrow> (\<exists>i < nat (log2i n). t = 3 * i + 3 \<and> s = rd_peer n r i)"
  "(t, Put s lo len nt) \<in> set (rd_timed rtr reg sz n r) \<longleftrightarrow> (\<exists>i < nat (log2i n). t = 3 * i + 2 \<and> Put s lo len nt \<in> set (rd_puts sz n r i))"
  by (simp_all add: rd_timed_mem rd_tstep_mem rd_exchange_def)

lemma rd_timed_send: "i < nat (log2i n) \<Longrightarrow> \<exists>t \<le> 3 * i + 1. (t, SendCtrl (rd_peer n r i)) \<in> set (rd_timed rtr reg sz n r)"
proof -
  assume i: "i < nat (log2i n)"
  have "(if rtr then 3 * i + 1 else 0, SendCtrl (rd_peer n r i)) \<in> set (rd_timed rtr reg sz n r)"
    using i by (auto simp: rd_timed_mem rd_tstep_mem rd_exchange_def)
  then show ?thesis by (intro exI [of _ "if rtr then 3 * i + 1 else 0"]) simp
qed

lemma count_peers:
  "(\<Sum>i < k. (if rd_peer (2 ^ k) r i = s then 1 else 0)) \<le> (1 :: nat)"
proof (cases "\<exists>i < k. rd_peer (2 ^ k) r i = s")
  case False
  then have "(\<Sum>i < k. (if rd_peer (2 ^ k) r i = s then 1 else 0)) = (0 :: nat)" by simp
  then show ?thesis by simp
next
  case True
  then obtain i where i: "i < k" "rd_peer (2 ^ k) r i = s" by blast
  have "rd_peer (2 ^ k) r j \<noteq> s" if "j < k" "j \<noteq> i" for j using rd_peer_inj [OF that(1) i(1), of r] i(2) that(2) by auto
  then have "(\<Sum>j < k. (if rd_peer (2 ^ k) r j = s then 1 else 0)) = (if rd_peer (2 ^ k) r i = s then 1 else 0 :: nat)"
    by (intro sum_single [OF i(1)]) simp
  then show ?thesis by simp
qed

lemma rd_counts:
  "count_list (rd_impl rtr reg sz (2 ^ k) r) (WaitCtrl s) \<le> 1" "count_list (rd_impl rtr reg sz (2 ^ k) r) (WaitNotify s) \<le> 1"
proof -
  have c: "count_list (rd_step rtr sz n r i) (WaitCtrl s) = (if rd_peer n r i = s then 1 else 0)"
    "count_list (rd_step rtr sz n r i) (WaitNotify s) = (if rd_peer n r i = s then 1 else 0)" for n i
    by (simp_all add: rd_step_def count_notin rd_puts_set)
  have z: "count_list (rd_exchange rtr n r i) (WaitCtrl s) = 0" "count_list (rd_exchange rtr n r i) (WaitNotify s) = 0" for n i
    by (simp_all add: rd_exchange_def)
  have w: "count_list (map (\<lambda>i. WaitSendCtrl (f i)) xs) (WaitCtrl s) = 0" "count_list (map (\<lambda>i. WaitSendCtrl (f i)) xs) (WaitNotify s) = 0" for f and xs :: "nat list"
    by (auto intro: count_notin)
  show "count_list (rd_impl rtr reg sz (2 ^ k) r) (WaitCtrl s) \<le> 1" "count_list (rd_impl rtr reg sz (2 ^ k) r) (WaitNotify s) \<le> 1"
    using count_peers [of k r s] by (simp_all add: rd_impl_def count_list_concat c z w)
qed

section \<open>What each rank knows\<close>

text \<open>The blocks a rank has at the start of step \<open>i\<close>.\<close>

definition rd_blocks :: "nat \<Rightarrow> nat \<Rightarrow> nat \<Rightarrow> nat set" where
  "rd_blocks k i r = {b. b < 2 ^ k \<and> b mod 2 ^ (k - i) = r mod 2 ^ (k - i)}"

lemma rd_blocks_Suc:
  assumes "i < k"
  shows "rd_blocks k (Suc i) r = rd_blocks k i r \<union> rd_blocks k i (rd_peer (2 ^ k) r i)"
proof -
  let ?d = "2 ^ (k - Suc i) :: nat"
  have D: "(2::nat) ^ (k - i) = 2 * ?d" using assms by (simp add: power_Suc [symmetric] Suc_diff_Suc del: power_Suc)
  have p: "rd_peer (2 ^ k) r i mod (2 * ?d) = (if r div ?d mod 2 = 0 then r mod ?d + ?d else r mod ?d)"
  proof -
    have "flip ?d r div ?d mod 2 = 1 - r div ?d mod 2" "flip ?d r mod ?d = r mod ?d" by (simp_all only: flip_props zero_less_power zero_less_numeral)
    then show ?thesis unfolding rd_peer_flip [OF assms] mod_double [of "flip ?d r"] by (cases "r div ?d mod 2 = 0") auto
  qed
  have "(b mod ?d = r mod ?d) = (b mod (2 * ?d) = r mod (2 * ?d) \<or> b mod (2 * ?d) = rd_peer (2 ^ k) r i mod (2 * ?d))" for b
  proof -
    have *: "(x = y) = ((if e1 then x else x + d) = (if e2 then y else y + d) \<or> (if e1 then x else x + d) = (if e2 then y + d else y))"
      if "x < d" "y < d" for x y d :: nat and e1 e2 using that by auto
    show ?thesis unfolding p mod_double [of b] mod_double [of r] by (rule *) simp_all
  qed
  then show ?thesis unfolding rd_blocks_def D by auto
qed

lemma rd_puts_blocks:
  assumes "i < k" "r < 2 ^ k"
  shows "(\<lambda>j. rd_offset (2 ^ k) r i j) ` {..<2 ^ i} = rd_blocks k i r"
proof -
  let ?D = "2 ^ (k - i) :: nat"
  have k: "(2::nat) ^ k = 2 ^ i * ?D" using assms(1) by (simp add: power_add [symmetric])
  have o: "rd_offset (2 ^ k) r i j = j * ?D + r mod ?D" for j unfolding rd_offset_def using assms(1) by (simp add: div_pow)
  show ?thesis
  proof (intro set_eqI iffI)
    fix b assume "b \<in> rd_offset (2 ^ k) r i ` {..<2 ^ i}"
    then obtain j where j: "j < 2 ^ i" "b = j * ?D + r mod ?D" using o by auto
    have "(j + 1) * ?D \<le> 2 ^ i * ?D" using j(1) by (intro mult_right_mono) auto
    moreover have "(j + 1) * ?D = j * ?D + ?D" "r mod ?D < ?D" by simp_all
    ultimately have "b < 2 ^ k" unfolding k using j(2) by linarith
    then show "b \<in> rd_blocks k i r" using j(2) by (simp add: rd_blocks_def)
  next
    fix b assume b: "b \<in> rd_blocks k i r"
    then have "b div ?D < 2 ^ i" unfolding rd_blocks_def k by (simp add: less_mult_imp_div_less)
    moreover have "b = b div ?D * ?D + r mod ?D" using b div_mult_mod_eq [of b ?D] by (simp add: rd_blocks_def)
    ultimately show "b \<in> rd_offset (2 ^ k) r i ` {..<2 ^ i}" using o by (metis image_eqI lessThan_iff)
  qed
qed

lemma puts_to_rd_step: "puts_to q (rd_step rtr sz n s j) =
    (if rd_peer n s j = q then map (\<lambda>l. (rd_offset n s j l * sz, sz, l = 2 ^ j - 1)) [0..<2 ^ j] else [])"
proof -
  have "puts_to q (map (\<lambda>l. Put p (f l) sz (g l)) xs) = (if p = q then map (\<lambda>l. (f l, sz, g l)) xs else [])" for p f g and xs :: "nat list"
    by (induction xs) auto
  then show ?thesis by (simp add: rd_step_def rd_puts_def)
qed

lemma puts_to_rd:
  assumes "i < k"
  shows "puts_to (rd_peer (2 ^ k) s i) (rd_impl rtr g sz (2 ^ k) s) =
    map (\<lambda>l. (rd_offset (2 ^ k) s i l * sz, sz, l = 2 ^ i - 1)) [0..<2 ^ i]"
proof -
  let ?q = "rd_peer (2 ^ k) s i"
  have "puts_to ?q (rd_step rtr sz (2 ^ k) s j) = []" if "j < k" "j \<noteq> i" for j
    using rd_peer_inj [OF that(1) assms, of s] that(2) by (auto simp: puts_to_rd_step)
  then have c: "concat (map (\<lambda>j. puts_to ?q (rd_step rtr sz (2 ^ k) s j)) [0..<k]) = puts_to ?q (rd_step rtr sz (2 ^ k) s i)"
    by (rule concat_single [OF assms])
  have "puts_to ?q (rd_exchange rtr (2 ^ k) s j) = []" for j by (simp add: rd_exchange_def)
  moreover have "puts_to ?q (map (\<lambda>i. WaitSendCtrl (f i)) xs) = []" for f and xs :: "nat list" by (rule puts_to_other) auto
  moreover have "concat (map (\<lambda>x. []) xs) = []" for xs :: "nat list" by (induction xs) auto
  ultimately show ?thesis using c by (simp add: rd_impl_def puts_to_concat comp_def puts_to_rd_step del: concat_eq_Nil_conv)
qed

lemma rd_arrived:
  assumes "i < k" "s < 2 ^ k" "0 < i \<Longrightarrow> b"
  shows "arrived b (puts_to (rd_peer (2 ^ k) s i) (rd_impl rtr g sz (2 ^ k) s)) (Suc 0) = \<Union> (block sz ` rd_blocks k i s)"
proof -
  let ?f = "\<lambda>l. (rd_offset (2 ^ k) s i l * sz, sz, l = 2 ^ i - 1)"
  have "[0..<2 ^ i] = [0..<2 ^ i - 1] @ [2 ^ i - 1 :: nat]" by (metis Suc_pred' upt_Suc_append zero_le zero_less_numeral zero_less_power)
  then have l: "map ?f [0..<2 ^ i] = map ?f [0..<2 ^ i - 1] @ [(rd_offset (2 ^ k) s i (2 ^ i - 1) * sz, sz, True)]" by simp
  have "arrived b (map ?f [0..<2 ^ i]) (Suc 0) = ranges (map ?f [0..<2 ^ i])"
  proof (cases "i = 0")
    case True
    then show ?thesis by simp
  next
    case False
    then have b: "b = True" using assms(3) by simp
    show ?thesis unfolding l b by (rule arrived_block) auto
  qed
  also have "\<dots> = \<Union> (block sz ` (rd_offset (2 ^ k) s i ` {..<2 ^ i}))" by (auto simp: ranges_def block_def)
  finally show ?thesis using rd_puts_blocks [OF assms(1,2)] by (simp add: puts_to_rd [OF assms(1)])
qed

abbreviation rd_calls :: "bool \<Rightarrow> (nat \<Rightarrow> bool) \<Rightarrow> nat \<Rightarrow> nat \<Rightarrow> nat \<Rightarrow> call list" where
  "rd_calls rtr reg sz k \<equiv> (\<lambda>s. rd_impl rtr (reg s) sz (2 ^ k) s)"

text \<open>The connections that carry several puts, of which only the last notifies: all but those of step 0.\<close>

definition rd_multi :: "nat \<Rightarrow> nat \<Rightarrow> nat \<Rightarrow> bool" where
  "rd_multi k s r \<longleftrightarrow> s < 2 ^ k \<and> (\<exists>i < k. 0 < i \<and> r = rd_peer (2 ^ k) s i)"

abbreviation rd_mode :: "(nat \<Rightarrow> nat \<Rightarrow> bool) \<Rightarrow> nat \<Rightarrow> nat \<Rightarrow> nat \<Rightarrow> bool" where
  "rd_mode sp k \<equiv> (\<lambda>s r. sp s r \<or> rd_multi k s r)"

lemma rd_know:
  assumes "r < 2 ^ k" "i \<le> k" "\<And>j. j < i \<Longrightarrow> WaitNotify (rd_peer (2 ^ k) r j) \<in> set us"
  shows "\<Union> (block sz ` rd_blocks k i r) \<subseteq> know (2 ^ k) (rd_mode sp k) (rd_calls rtr reg sz k) (block sz) r us"
  using assms(2,3)
proof (induction i)
  case 0
  have "rd_blocks k 0 r = {r}" using assms(1) by (auto simp: rd_blocks_def)
  then show ?case by (simp add: know_def)
next
  case (Suc i)
  let ?p = "rd_peer (2 ^ k) r i"
  have i: "i < k" using Suc.prems(1) by simp
  have p: "?p < 2 ^ k" "rd_peer (2 ^ k) ?p i = r" using rd_peer_less [OF i assms(1)] rd_peer_sym [OF i] by simp_all
  have m: "0 < i \<Longrightarrow> rd_mode sp k ?p r" using i p by (auto simp: rd_multi_def)
  have "0 < count_list us (WaitNotify ?p)" using Suc.prems(2) [of i] by (metis count_list_0_iff gr0I lessI)
  then have "arrived (rd_mode sp k ?p r) (puts_to r (rd_calls rtr reg sz k ?p)) (Suc 0) \<subseteq>
      arrived (rd_mode sp k ?p r) (puts_to r (rd_calls rtr reg sz k ?p)) (count_list us (WaitNotify ?p))" by (intro arrived_mono) simp
  also have "\<dots> \<subseteq> know (2 ^ k) (rd_mode sp k) (rd_calls rtr reg sz k) (block sz) r us" using p(1) by (auto simp: know_def)
  finally have "\<Union> (block sz ` rd_blocks k i ?p) \<subseteq> know (2 ^ k) (rd_mode sp k) (rd_calls rtr reg sz k) (block sz) r us"
    using rd_arrived [OF i p(1) m] p(2) by simp
  then show ?case using Suc.IH Suc.prems i by (simp add: rd_blocks_Suc image_Un)
qed

section \<open>Correctness\<close>

lemma rd_no_kernel: "(t, c) \<in> set (rd_timed rtr reg sz (2 ^ k) r) \<Longrightarrow> \<not> by_kernel c"
proof -
  assume "(t, c) \<in> set (rd_timed rtr reg sz (2 ^ k) r)"
  then have "c \<in> set (rd_impl rtr (reg r) sz (2 ^ k) r)" unfolding rd_timed_calls [symmetric] by force
  then show "\<not> by_kernel c" by (auto simp: rd_impl_def rd_step_def rd_exchange_def rd_puts_def split: if_splits)
qed

interpretation rd: timed_net "2 ^ k" "rd_mode sp k" "rd_timed rtr reg sz (2 ^ k)" "block sz" "{..<2 ^ k * sz}" for k sp rtr reg sz
proof (unfold_locales, unfold rd_timed_calls)
  fix r :: nat
  assume r: "r < 2 ^ k"
  show "sorted (map fst (rd_timed rtr reg sz (2 ^ k) r))" by (rule rd_timed_sorted)
  have K: "\<Union> (block sz ` rd_blocks k k r) = {..<2 ^ k * sz}" unfolding all_blocks [symmetric] by (auto simp: rd_blocks_def)
  have "\<And>j. j < k \<Longrightarrow> WaitNotify (rd_peer (2 ^ k) r j) \<in> set (rd_calls rtr reg sz k r)"
    by (auto simp: rd_impl_def rd_step_def)
  from rd_know [OF r order_refl this] show "{..<2 ^ k * sz} \<subseteq> know (2 ^ k) (rd_mode sp k) (rd_calls rtr reg sz k) (block sz) r (rd_calls rtr reg sz k r)"
    unfolding K [symmetric] .
next
  fix r :: nat and us t s vs
  assume r: "r < 2 ^ k" and p: "rd_timed rtr reg sz (2 ^ k) r = us @ (t, WaitCtrl s) # vs"
  obtain i where i: "i < k" "t = 3 * i + 2" "s = rd_peer (2 ^ k) r i"
    using arg_cong [OF p, of set] rd_timed_set(1) [of t s rtr reg sz "2 ^ k" r] by auto
  obtain t' where t': "t' \<le> 3 * i + 1" "(t', SendCtrl r) \<in> set (rd_timed rtr reg sz (2 ^ k) s)"
    using rd_timed_send [of i "2 ^ k" s rtr reg sz] i rd_peer_sym [OF i(1)] by auto
  then obtain us' vs' where "rd_timed rtr reg sz (2 ^ k) s = us' @ (t', SendCtrl r) # vs'" by (meson split_list)
  moreover have "count_list (map snd us) (WaitCtrl s) = 0"
    using unique_count [OF _ p] rd_counts(1) by (simp add: rd_timed_calls)
  moreover have "t' < t" using t'(1) i(2) by simp
  ultimately show "s < 2 ^ k \<and> (\<exists>us' t' vs'. rd_timed rtr reg sz (2 ^ k) s = us' @ (t', SendCtrl r) # vs' \<and> t' < t \<and>
      count_list (map snd us) (WaitCtrl s) \<le> count_list (map snd us') (SendCtrl r))"
    using rd_peer_less [OF i(1) r] i(3) by auto
next
  fix r :: nat and us t s vs
  assume r: "r < 2 ^ k" and p: "rd_timed rtr reg sz (2 ^ k) r = us @ (t, WaitNotify s) # vs"
  obtain i where i: "i < k" "t = 3 * i + 3" "s = rd_peer (2 ^ k) r i"
    using arg_cong [OF p, of set] rd_timed_set(2) [of t s rtr reg sz "2 ^ k" r] by auto
  let ?lo = "rd_offset (2 ^ k) s i (2 ^ i - 1) * sz"
  have "Put r ?lo sz True \<in> set (rd_puts sz (2 ^ k) s i)"
    using rd_peer_sym [OF i(1), of r] i(3) by (auto simp: rd_puts_set intro!: exI [of _ "2 ^ i - 1"])
  then have "(3 * i + 2, Put r ?lo sz True) \<in> set (rd_timed rtr reg sz (2 ^ k) s)" using i(1) by (auto simp: rd_timed_set)
  then obtain us' vs' where sp: "rd_timed rtr reg sz (2 ^ k) s = us' @ (3 * i + 2, Put r ?lo sz True) # vs'" by (meson split_list)
  have c: "count_list (map snd us) (WaitNotify s) = 0"
    using unique_count [OF _ p] rd_counts(2) by (simp add: rd_timed_calls)
  have "3 * i + 2 < t \<and> count_list (map snd us) (WaitNotify s) \<le> notices (puts_to r (map snd us'))" using i(2) c by simp
  with sp have "\<exists>us' t' lo len vs'. rd_timed rtr reg sz (2 ^ k) s = us' @ (t', Put r lo len True) # vs' \<and> t' < t \<and>
      count_list (map snd us) (WaitNotify s) \<le> notices (puts_to r (map snd us'))" by blast
  then show "s < 2 ^ k \<and> (\<exists>us' t' lo len vs'. rd_timed rtr reg sz (2 ^ k) s = us' @ (t', Put r lo len True) # vs' \<and> t' < t \<and>
      count_list (map snd us) (WaitNotify s) \<le> notices (puts_to r (map snd us')))"
    using rd_peer_less [OF i(1) r] i(3) by simp
next
  fix r :: nat and us t s lo len nt vs
  assume r: "r < 2 ^ k" and p: "rd_timed rtr reg sz (2 ^ k) r = us @ (t, Put s lo len nt) # vs"
  have "(t, Put s lo len nt) \<in> set (rd_timed rtr reg sz (2 ^ k) r)" unfolding p by simp
  then obtain i j where i: "i < k" "t = 3 * i + 2" "j < 2 ^ i" "s = rd_peer (2 ^ k) r i" "lo = rd_offset (2 ^ k) r i j * sz" "len = sz"
    by (auto simp: rd_timed_set rd_puts_set)
  have "WaitNotify (rd_peer (2 ^ k) r i') \<in> set (map snd us)" if "i' < i" for i'
  proof -
    have "(3 * i' + 3, WaitNotify (rd_peer (2 ^ k) r i')) \<in> set (us @ (t, Put s lo len nt) # vs)"
      unfolding p [symmetric] using that i(1) by (auto simp: rd_timed_set)
    from earlier_in_prefix [OF _ this] show ?thesis using rd_timed_sorted [of rtr reg sz "2 ^ k" r] that i(2) p by force
  qed
  from rd_know [OF r less_imp_le [OF i(1)] this]
  have "\<Union> (block sz ` rd_blocks k i r) \<subseteq> know (2 ^ k) (rd_mode sp k) (rd_calls rtr reg sz k) (block sz) r (map snd us)" .
  moreover have "rd_offset (2 ^ k) r i j \<in> rd_blocks k i r" using rd_puts_blocks [OF i(1) r] i(3) by blast
  ultimately have "{lo..<lo + len} \<subseteq> know (2 ^ k) (rd_mode sp k) (rd_calls rtr reg sz k) (block sz) r (map snd us)"
    unfolding i(5,6) block_def by blast
  then show "s < 2 ^ k \<and> {lo..<lo + len} \<subseteq> know (2 ^ k) (rd_mode sp k) (rd_calls rtr reg sz k) (block sz) r (map snd us)"
    using rd_peer_less [OF i(1) r] i(4) by simp
next
  fix r :: nat and us t s vs assume "rd_timed rtr reg sz (2 ^ k) r = us @ (t, WaitElem s) # vs"
  then have "(t, WaitElem s) \<in> set (rd_timed rtr reg sz (2 ^ k) r)" by simp
  from rd_no_kernel [OF this] show "s < 2 ^ k \<and> (\<exists>us' t' lo len vs'. rd_timed rtr reg sz (2 ^ k) s = us' @ (t', PutElem r lo len) # vs' \<and> t' < t \<and>
      count_list (map snd us) (WaitElem s) \<le> length (elems_to r (map snd us')))" by simp
next
  fix r :: nat and us t s lo len vs assume "rd_timed rtr reg sz (2 ^ k) r = us @ (t, PutElem s lo len) # vs"
  then have "(t, PutElem s lo len) \<in> set (rd_timed rtr reg sz (2 ^ k) r)" by simp
  from rd_no_kernel [OF this] show "s < 2 ^ k \<and> {lo..<lo + len} \<subseteq> know (2 ^ k) (rd_mode sp k) (rd_calls rtr reg sz k) (block sz) r (map snd us)" by simp
qed

text \<open>C1: For a power of two of ranks, if the connections of the steps after the first are in spray mode, no run of the
  recursive-doubling all-gather gets stuck, every run has boundedly many steps, and when all ranks have finished every rank's
  buffer holds the block of every rank: in both modes of the handle exchange, whatever the interleaving of the ranks and whenever
  and in whatever order puts land. In dqplb mode it is not so: see \<open>rd_dqplb_loses_block\<close>.\<close>

theorem rd_allgather:
  assumes "net_start (2 ^ k) (block sz) data st0" "\<forall>s r. rd_multi k s r \<longrightarrow> sp s r"
  shows "\<exists>bound. \<forall>m st. net_run (2 ^ k) sp (\<lambda>r. rd_impl rtr (reg r) sz (2 ^ k) r) st0 m st \<longrightarrow> m \<le> bound \<and>
    (\<not> finished (2 ^ k) (\<lambda>r. rd_impl rtr (reg r) sz (2 ^ k) r) st \<longrightarrow>
      (\<exists>st'. net_step (2 ^ k) sp (\<lambda>r. rd_impl rtr (reg r) sz (2 ^ k) r) st st')) \<and>
    (finished (2 ^ k) (\<lambda>r. rd_impl rtr (reg r) sz (2 ^ k) r) st \<longrightarrow> (\<forall>r < 2 ^ k. \<forall>x < 2 ^ k * sz. mem st r x = data x))"
proof -
  have sp: "rd_mode sp k = sp" using assms(2) by (auto simp: fun_eq_iff)
  show ?thesis using rd.net_correct [OF assms(1), of sp rtr reg, unfolded rd_timed_calls sp]
    by (intro exI [of _ "timed_net.left (2 ^ k) (rd_timed rtr reg sz (2 ^ k)) st0"]) blast
qed

theorem rd_allgather_witness:
  "\<exists>st'. net_step (2 ^ 2) (\<lambda>s r. True) (\<lambda>r. rd_impl True ((\<lambda>_. False) r) 2 (2 ^ 2) r) (net_init (\<lambda>r x. x)) st'"
proof -
  have s: "net_start (2 ^ 2) (block 2) (\<lambda>x. x) (net_init (\<lambda>r x. x))" by (simp add: net_start_def net_init_def)
  have m: "\<forall>s r. rd_multi 2 s r \<longrightarrow> True" by simp
  from rd_allgather [OF s m, of True "\<lambda>_. False"]
  have "\<not> finished (2 ^ 2) (\<lambda>r. rd_impl True ((\<lambda>_. False) r) 2 (2 ^ 2) r) (net_init (\<lambda>r x. x)) \<longrightarrow>
      (\<exists>st'. net_step (2 ^ 2) (\<lambda>s r. True) (\<lambda>r. rd_impl True ((\<lambda>_. False) r) 2 (2 ^ 2) r) (net_init (\<lambda>r x. x)) st')"
    using net_run.start by blast
  moreover have "\<not> finished (2 ^ 2) (\<lambda>r. rd_impl True ((\<lambda>_. False) r) 2 (2 ^ 2) r) (net_init (\<lambda>r x. x))"
    by (auto simp: finished_def net_init_def rd_impl_def intro!: exI [of _ 0])
  ultimately show ?thesis by blast
qed

section \<open>In dqplb mode\<close>

text \<open>Four ranks with blocks of one byte: rank 0 completes the all-gather before the block of rank 1 has landed, because only the put of block 3
  notifies it.\<close>

definition rd_four :: "nat \<Rightarrow> call list" where "rd_four r = rd_impl False False 1 4 r"

definition rd_bad_acts :: "act list" where
  "rd_bad_acts = concat (map (\<lambda>r. replicate 7 (Do r)) [0, 1, 2, 3]) @ concat (map (\<lambda>r. replicate 2 (Do r)) [0, 1, 2, 3]) @ [Land 0 2 0, Land 2 0 0, Land 1 3 0, Land 3 1 0] @
     concat (map (\<lambda>r. replicate 5 (Do r)) [0, 1]) @ [Land 0 1 0, Land 0 1 1, Land 1 0 1] @ replicate 4 (Do 0)"

lemma rd_dqplb_loses_block:
  "\<exists>m st. net_run 4 (\<lambda>s r. False) rd_four (net_init (\<lambda>r x. if x = r then 100 + x else 0)) m st \<and>
     pc st 0 = length (rd_four 0) \<and> mem st 0 3 = 103 \<and> mem st 0 1 = 0"
proof -
  let ?st = "net_init (\<lambda>r x. if x = r then 100 + x else 0) :: nat net"
  have "case act_steps 4 (\<lambda>s r. False) rd_four rd_bad_acts ?st of None \<Rightarrow> False
    | Some st \<Rightarrow> pc st 0 = length (rd_four 0) \<and> mem st 0 3 = 103 \<and> mem st 0 1 = 0" by code_simp
  then obtain st where "act_steps 4 (\<lambda>s r. False) rd_four rd_bad_acts ?st = Some st" "pc st 0 = length (rd_four 0)" "mem st 0 3 = 103" "mem st 0 1 = 0"
    by (auto split: option.splits)
  then show ?thesis using act_steps_run [OF _ net_run.start] by blast
qed

text \<open>With three ranks, rank 2 is paired with a rank that does not exist.\<close>

lemma rd_three_ranks: "rd_peer 3 2 0 = 3" "nat (log2i 3) = 1"
  by (simp_all add: rd_peer_def rd_dist_def log2i.simps)

end
