(* ===== verification/AllGather_Brucks.thy ===== *)
theory AllGather_Brucks imports Ctran_Net begin

text \<open>
  All-gather by Bruck's algorithm, \<^verbatim>\<open>comms/ctran/algos/AllGather/AllGatherBrucksFF.cc\<close>, for any number of ranks: in
  step \<open>i\<close> a rank sends the blocks its destination does not have to the rank at distance \<open>2^(k-i-1)\<close> below it. Each block is
  sent in two halves, so that the first half can be forwarded while the second is on its way.
\<close>

section \<open>The algorithm\<close>

definition ceilLog2I :: "nat \<Rightarrow> nat" where
  "ceilLog2I p = nat (1 + log2i (p - 1))"

definition srcAtStep :: "nat \<Rightarrow> nat \<Rightarrow> nat \<Rightarrow> nat" where
  "srcAtStep p rank step = (rank + 2 ^ (ceilLog2I p - step - 1)) mod p"

definition dstAtStep :: "nat \<Rightarrow> nat \<Rightarrow> nat \<Rightarrow> nat" where
  "dstAtStep p rank step = (p + rank - 2 ^ (ceilLog2I p - step - 1)) mod p"

text \<open>The loop of \<^verbatim>\<open>offsetsAtStep\<close> from \<open>i\<close> on; the offset is a power of two.\<close>

function off_loop :: "nat \<Rightarrow> nat \<Rightarrow> nat \<Rightarrow> nat list" where
  "off_loop limit offset i = (if offset = 0 \<or> limit \<le> i then [] else i # off_loop limit offset (i + offset))"
  by pat_completeness auto
termination by (relation "measure (\<lambda>(limit, offset, i). limit - i)") auto

declare off_loop.simps [simp del]

definition offsetsAtStep :: "nat \<Rightarrow> nat \<Rightarrow> nat list" where
  "offsetsAtStep k step = off_loop (2 ^ k) (2 ^ (k - step)) (2 ^ (k - step))"

definition stateAtStep :: "nat \<Rightarrow> nat \<Rightarrow> nat \<Rightarrow> bool list" where
  "stateAtStep p rank step =
     fold (\<lambda>off state. state[(rank + off) mod p := True]) (offsetsAtStep (ceilLog2I p) step)
       ((replicate p False)[rank := True])"

definition sendsAtStep :: "nat \<Rightarrow> nat \<Rightarrow> nat \<Rightarrow> nat list" where
  "sendsAtStep p rank step =
     (let srcState = stateAtStep p rank step; dstState = stateAtStep p (dstAtStep p rank step) step
      in filter (\<lambda>i. srcState ! i \<and> \<not> dstState ! i) [0..<p])"

text \<open>The puts of one half of the blocks of a step: the part of \<open>len\<close> bytes from \<open>off\<close> on; the last put notifies.\<close>

definition bk_puts :: "nat \<Rightarrow> nat \<Rightarrow> nat \<Rightarrow> nat \<Rightarrow> nat \<Rightarrow> nat \<Rightarrow> call list" where
  "bk_puts sz off len p rank step =
     (let sends = sendsAtStep p rank step
      in map (\<lambda>j. Put (dstAtStep p rank step) (sends ! j * sz + off) len (j = length sends - 1)) [0..<length sends])"

definition bk_exchange :: "nat \<Rightarrow> nat \<Rightarrow> nat \<Rightarrow> call list" where
  "bk_exchange p rank i = [RecvCtrl (dstAtStep p rank i), SendCtrl (srcAtStep p rank i), InitNotify (srcAtStep p rank i)]"

definition bk_step :: "nat \<Rightarrow> nat \<Rightarrow> nat \<Rightarrow> nat \<Rightarrow> call list" where
  "bk_step sz p rank i =
     (let firstSend = sz div 2; secondSend = sz - firstSend in
      bk_puts sz firstSend secondSend p rank i @ [WaitNotify (srcAtStep p rank i)] @
      (if i < ceilLog2I p - 1 then WaitCtrl (dstAtStep p rank (i + 1)) # bk_puts sz 0 firstSend p rank (i + 1) else []) @
      [WaitNotify (srcAtStep p rank i)])"

definition bk_impl :: "bool \<Rightarrow> nat \<Rightarrow> nat \<Rightarrow> nat \<Rightarrow> call list" where
  "bk_impl localMemReg sz p rank =
     [SearchRegHandle] @ concat (map (bk_exchange p rank) [0..<ceilLog2I p]) @
     [WaitCtrl (dstAtStep p rank 0), Put (dstAtStep p rank 0) (rank * sz) (sz div 2) True] @
     concat (map (bk_step sz p rank) [0..<ceilLog2I p]) @
     concat (map (\<lambda>i. [WaitPut (dstAtStep p rank i), WaitPut (dstAtStep p rank i)]) [0..<ceilLog2I p]) @
     map (\<lambda>i. WaitSendCtrl (srcAtStep p rank i)) [0..<ceilLog2I p] @ (if localMemReg then [DeregDynamic] else [])"

section \<open>Arithmetic of the steps\<close>

lemma ceilLog2I_bounds:
  assumes "2 \<le> p"
  shows "0 < ceilLog2I p" "2 ^ (ceilLog2I p - 1) < p" "p \<le> 2 ^ ceilLog2I p"
proof -
  have "0 < p - 1" using assms by simp
  note b = log2i_bounds [OF this]
  have c: "ceilLog2I p = Suc (nat (log2i (p - 1)))" using b unfolding ceilLog2I_def by linarith
  show "0 < ceilLog2I p" by (simp add: c)
  have "2 ^ nat (log2i (p - 1)) < p" "p \<le> 2 ^ Suc (nat (log2i (p - 1)))" using b assms by linarith+
  then show "2 ^ (ceilLog2I p - 1) < p" "p \<le> 2 ^ ceilLog2I p" unfolding c diff_Suc_1 .
qed

text \<open>The distance of a step.\<close>

definition dist :: "nat \<Rightarrow> nat \<Rightarrow> nat" where "dist p i = 2 ^ (ceilLog2I p - i - 1)"

lemma dist_less: "2 \<le> p \<Longrightarrow> dist p i < p"
proof -
  assume "2 \<le> p"
  then have "2 ^ (ceilLog2I p - 1) < p" by (rule ceilLog2I_bounds)
  moreover have "dist p i \<le> 2 ^ (ceilLog2I p - 1)" unfolding dist_def by (intro power_increasing) auto
  ultimately show ?thesis by simp
qed

lemma dist_pos [simp]: "0 < dist p i" by (simp add: dist_def)

lemma dist_inj: "i < ceilLog2I p \<Longrightarrow> j < ceilLog2I p \<Longrightarrow> dist p i = dist p j \<Longrightarrow> i = j"
  by (simp add: dist_def power_inject_exp)

lemma src_def: "srcAtStep p r i = (r + dist p i) mod p"
  by (simp add: srcAtStep_def dist_def)

lemma dst_def: "dstAtStep p r i = (p + r - dist p i) mod p"
  by (simp add: dstAtStep_def dist_def)

lemma dst_src: "2 \<le> p \<Longrightarrow> r < p \<Longrightarrow> dstAtStep p (srcAtStep p r i) i = r"
proof -
  assume p: "2 \<le> p" "r < p"
  let ?d = "dist p i"
  have d: "?d < p" using p(1) by (rule dist_less)
  have "(r + ?d) mod p = (if r + ?d < p then r + ?d else r + ?d - p)" using p d by (simp add: mod_if)
  then show ?thesis unfolding src_def dst_def using p d by (auto simp: mod_if)
qed

lemma src_dst: "2 \<le> p \<Longrightarrow> r < p \<Longrightarrow> srcAtStep p (dstAtStep p r i) i = r"
proof -
  assume p: "2 \<le> p" "r < p"
  let ?d = "dist p i"
  have d: "?d < p" using p(1) by (rule dist_less)
  have "(p + r - ?d) mod p = (if ?d \<le> r then r - ?d else p + r - ?d)" using p d by (auto simp: mod_if)
  then show ?thesis unfolding src_def dst_def using p d by (auto simp: mod_if)
qed

lemma src_inj:
  assumes "2 \<le> p" "r < p" "i < ceilLog2I p" "j < ceilLog2I p" "srcAtStep p r i = srcAtStep p r j"
  shows "i = j"
proof -
  have "dist p i < p" "dist p j < p" using assms(1) by (simp_all add: dist_less)
  then have "dist p i = dist p j" using assms(2,5) unfolding src_def by (auto simp: mod_if split: if_splits)
  then show ?thesis using assms(3,4) dist_inj by blast
qed

lemma dst_inj:
  assumes "2 \<le> p" "r < p" "i < ceilLog2I p" "j < ceilLog2I p" "dstAtStep p r i = dstAtStep p r j"
  shows "i = j"
proof -
  have "dist p i < p" "dist p j < p" using assms(1) by (simp_all add: dist_less)
  then have "dist p i = dist p j" using assms(2,5) unfolding dst_def by (auto simp: mod_if split: if_splits)
  then show ?thesis using assms(3,4) dist_inj by blast
qed

lemma src_dst_less: "2 \<le> p \<Longrightarrow> srcAtStep p r i < p \<and> dstAtStep p r i < p"
  by (simp add: srcAtStep_def dstAtStep_def)

section \<open>Valid blocks\<close>

lemma off_loop_set:
  assumes "0 < d"
  shows "set (off_loop (m * d) d (i * d)) = {j * d |j. i \<le> j \<and> j < m}"
proof (induction "m - i" arbitrary: i)
  case 0
  then have "m * d \<le> i * d" by simp
  then show ?case using 0 by (subst off_loop.simps) auto
next
  case (Suc l)
  then have i: "i < m" "l = m - Suc i" by simp_all
  have "\<not> m * d \<le> i * d" using i(1) assms by simp
  then have "set (off_loop (m * d) d (i * d)) = insert (i * d) (set (off_loop (m * d) d (Suc i * d)))"
    using assms by (subst off_loop.simps) (simp add: add.commute)
  also have "\<dots> = insert (i * d) {j * d |j. Suc i \<le> j \<and> j < m}" using Suc.hyps(1) [OF i(2)] by simp
  also have "\<dots> = {j * d |j. i \<le> j \<and> j < m}" using i(1) by (auto simp: Suc_le_eq order_le_less)
  finally show ?case .
qed

text \<open>The blocks a rank has at the start of step \<open>i\<close>.\<close>

definition bk_blocks :: "nat \<Rightarrow> nat \<Rightarrow> nat \<Rightarrow> nat set" where
  "bk_blocks p i r = (\<lambda>m. (r + m * 2 ^ (ceilLog2I p - i)) mod p) ` {..<2 ^ i}"

lemma set_true:
  "length xs = p \<Longrightarrow> fold (\<lambda>off state. state[(r + off) mod p := True]) offs xs ! b \<longleftrightarrow> xs ! b \<or> (\<exists>off \<in> set offs. b = (r + off) mod p)"
  if "b < p" for xs :: "bool list"
  using that by (induction offs arbitrary: xs) (auto simp: nth_list_update)

lemma stateAtStep_blocks:
  assumes "i \<le> ceilLog2I p" "r < p" "b < p"
  shows "stateAtStep p r i ! b \<longleftrightarrow> b \<in> bk_blocks p i r"
proof -
  let ?k = "ceilLog2I p" let ?d = "2 ^ (?k - i) :: nat"
  have e: "(2::nat) ^ ?k = 2 ^ i * ?d" using assms(1) by (simp add: power_add [symmetric])
  have o: "set (offsetsAtStep ?k i) = {j * ?d |j. 1 \<le> j \<and> j < 2 ^ i}"
    using off_loop_set [of ?d "2 ^ i" 1] by (simp add: offsetsAtStep_def e)
  have "stateAtStep p r i ! b \<longleftrightarrow> b = r \<or> (\<exists>j. 1 \<le> j \<and> j < 2 ^ i \<and> b = (r + j * ?d) mod p)"
    unfolding stateAtStep_def using set_true [OF assms(3), of "(replicate p False)[r := True]" r "offsetsAtStep ?k i"]
    using assms(2,3) o by (auto simp: nth_list_update)
  also have "\<dots> \<longleftrightarrow> (\<exists>j. j < 2 ^ i \<and> b = (r + j * ?d) mod p)"
  proof
    assume "b = r \<or> (\<exists>j. 1 \<le> j \<and> j < 2 ^ i \<and> b = (r + j * ?d) mod p)"
    then show "\<exists>j. j < 2 ^ i \<and> b = (r + j * ?d) mod p"
    proof
      assume "b = r"
      then show ?thesis using assms(2) by (intro exI [of _ 0]) simp
    qed blast
  next
    assume "\<exists>j. j < 2 ^ i \<and> b = (r + j * ?d) mod p"
    then obtain j where j: "j < 2 ^ i" "b = (r + j * ?d) mod p" by blast
    show "b = r \<or> (\<exists>j. 1 \<le> j \<and> j < 2 ^ i \<and> b = (r + j * ?d) mod p)"
    proof (cases "j = 0")
      case True
      then show ?thesis using j(2) assms(2) by simp
    next
      case False
      then have "1 \<le> j" by simp
      then show ?thesis using j by blast
    qed
  qed
  finally show ?thesis by (auto simp: bk_blocks_def)
qed

lemma bk_blocks_less: "2 \<le> p \<Longrightarrow> b \<in> bk_blocks p i r \<Longrightarrow> b < p"
  by (auto simp: bk_blocks_def)

lemma bk_blocks_0 [simp]: "r < p \<Longrightarrow> bk_blocks p 0 r = {r}"
  by (simp add: bk_blocks_def lessThan_Suc)

lemma bk_blocks_Suc:
  assumes "i < ceilLog2I p"
  shows "bk_blocks p (Suc i) r = bk_blocks p i r \<union> bk_blocks p i (srcAtStep p r i)"
proof -
  let ?k = "ceilLog2I p"
  let ?d = "dist p i"
  have D: "(2::nat) ^ (?k - i) = 2 * ?d" "2 ^ (?k - Suc i) = ?d"
    using assms by (simp_all add: dist_def power_Suc [symmetric] Suc_diff_Suc del: power_Suc)
  have src: "(srcAtStep p r i + m * (2 * ?d)) mod p = (r + (2 * m + 1) * ?d) mod p" for m
    by (simp add: src_def mod_simps algebra_simps)
  have even: "(r + m * (2 * ?d)) mod p = (r + (2 * m) * ?d) mod p" for m by (simp add: algebra_simps)
  have split: "{..<2 ^ Suc i} = (\<lambda>m. 2 * m) ` {..<2 ^ i} \<union> (\<lambda>m. 2 * m + 1) ` {..<2 ^ i :: nat}"
  proof (intro set_eqI iffI)
    fix m :: nat assume m: "m \<in> {..<2 ^ Suc i}"
    then have "m div 2 < 2 ^ i" by auto
    moreover have "m = 2 * (m div 2) \<or> m = 2 * (m div 2) + 1" by linarith
    ultimately show "m \<in> (\<lambda>m. 2 * m) ` {..<2 ^ i} \<union> (\<lambda>m. 2 * m + 1) ` {..<2 ^ i}" by blast
  qed auto
  show ?thesis unfolding bk_blocks_def D split src even by (simp add: image_Un image_image)
qed

lemma bk_blocks_all:
  assumes "2 \<le> p" "r < p"
  shows "bk_blocks p (ceilLog2I p) r = {..<p}"
proof (intro set_eqI iffI)
  fix b assume "b \<in> {..<p}"
  then have b: "b < p" by simp
  let ?m = "if r \<le> b then b - r else b + p - r"
  have "?m < p" "(r + ?m) mod p = b" using b assms(2) by auto
  moreover have "?m < 2 ^ ceilLog2I p" using \<open>?m < p\<close> ceilLog2I_bounds(3) [OF assms(1)] by linarith
  ultimately show "b \<in> bk_blocks p (ceilLog2I p) r"
    unfolding bk_blocks_def by (intro image_eqI [of _ _ ?m]) simp_all
qed (use assms bk_blocks_less in auto)

text \<open>A rank always has a block that its destination lacks: the destination's blocks are not closed under the distance.\<close>

lemma shift_not_closed:
  fixes X :: "nat set" and d p :: nat
  assumes "finite X" "card X \<le> 2 ^ i" "s \<in> X" "2 ^ i * d < p" "0 < d" "s < p"
  shows "\<exists>x \<in> X. (x + d) mod p \<notin> X"
proof (rule ccontr)
  assume "\<not> (\<exists>x \<in> X. (x + d) mod p \<notin> X)"
  then have cl: "(x + d) mod p \<in> X" if "x \<in> X" for x using that by blast
  have in_X: "(s + m * d) mod p \<in> X" for m
  proof (induction m)
    case 0
    then show ?case using assms(3,6) by simp
  next
    case (Suc m)
    then have "((s + m * d) mod p + d) mod p \<in> X" by (rule cl)
    then show ?case by (simp add: mod_simps algebra_simps)
  qed
  have "inj_on (\<lambda>m. (s + m * d) mod p) {..2 ^ i}"
  proof (rule inj_onI)
    fix a b assume ab: "a \<in> {..2 ^ i}" "b \<in> {..2 ^ i}" "(s + a * d) mod p = (s + b * d) mod p"
    have "a * d < p" "b * d < p" using ab(1,2) assms(4) by (meson atMost_iff le_less_trans mult_le_mono1)+
    moreover have "x = y" if "x < p" "y < p" "(s + x) mod p = (s + y) mod p" for x y
      using that assms(6) by (auto simp: mod_if split: if_splits)
    ultimately have "a * d = b * d" using ab(3) by blast
    then show "a = b" using assms(5) by simp
  qed
  from card_inj_on_le [OF this _ assms(1)] have "card {..(2 ^ i :: nat)} \<le> card X" using in_X by blast
  then show False using assms(2) by simp
qed

lemma sends_mem:
  assumes "2 \<le> p" "r < p" "i \<le> ceilLog2I p"
  shows "set (sendsAtStep p r i) = bk_blocks p i r - bk_blocks p i (dstAtStep p r i)"
proof -
  have d: "dstAtStep p r i < p" using src_dst_less [OF assms(1)] by simp
  show ?thesis using stateAtStep_blocks [OF assms(3,2)] stateAtStep_blocks [OF assms(3) d] bk_blocks_less [OF assms(1)]
    by (auto simp: sendsAtStep_def Let_def)
qed

lemma sends_nonempty:
  assumes "2 \<le> p" "r < p" "i < ceilLog2I p"
  shows "sendsAtStep p r i \<noteq> []"
proof -
  let ?s = "dstAtStep p r i" let ?X = "bk_blocks p i ?s"
  have s: "?s < p" "srcAtStep p ?s i = r" using src_dst_less [OF assms(1)] src_dst [OF assms(1,2)] by simp_all
  have c: "finite ?X" "card ?X \<le> 2 ^ i" unfolding bk_blocks_def
    by (rule finite_imageI, simp) (metis card_image_le card_lessThan finite_lessThan)
  have m: "?s \<in> ?X" unfolding bk_blocks_def using s(1) by (intro image_eqI [of _ _ 0]) simp_all
  have "2 ^ i * dist p i = 2 ^ (ceilLog2I p - 1)" using assms(3) by (simp add: dist_def power_add [symmetric])
  then have "2 ^ i * dist p i < p" using ceilLog2I_bounds(2) [OF assms(1)] by simp
  from shift_not_closed [OF c m this dist_pos s(1)] obtain x where x: "x \<in> ?X" "(x + dist p i) mod p \<notin> ?X" by blast
  have "(x + dist p i) mod p \<in> bk_blocks p i r"
  proof -
    obtain j where j: "j < 2 ^ i" "x = (?s + j * 2 ^ (ceilLog2I p - i)) mod p" using x(1) by (auto simp: bk_blocks_def)
    have "(x + dist p i) mod p = ((?s + dist p i) mod p + j * 2 ^ (ceilLog2I p - i)) mod p"
      unfolding j(2) by (simp add: mod_simps algebra_simps)
    then show ?thesis using j(1) s(2) by (auto simp: bk_blocks_def src_def)
  qed
  then have "(x + dist p i) mod p \<in> set (sendsAtStep p r i)" using sends_mem [OF assms(1,2)] assms(3) x(2) by simp
  then show ?thesis by auto
qed

lemma sends_first:
  assumes "2 \<le> p" "r < p"
  shows "sendsAtStep p r 0 = [r]"
proof -
  have "(p + r - d) mod p \<noteq> r" if "0 < d" "d < p" for d using that assms(2) by (auto simp: mod_if)
  from this [OF dist_pos dist_less [OF assms(1)]] have "dstAtStep p r 0 \<noteq> r" by (simp add: dst_def)
  moreover have "dstAtStep p r 0 < p" using src_dst_less [OF assms(1)] by simp
  ultimately have "set (sendsAtStep p r 0) = {r}" using sends_mem [OF assms] assms(2) by simp
  moreover have "sorted (sendsAtStep p r 0)" "distinct (sendsAtStep p r 0)"
    by (simp_all add: sendsAtStep_def Let_def sorted_wrt_filter)
  ultimately show ?thesis by (metis distinct.simps(1) insert_not_empty sorted_distinct_set_unique distinct_singleton list.set(1) list.simps(15) sorted1)
qed

section \<open>The algorithm with times\<close>

definition bk_first :: "nat \<Rightarrow> nat \<Rightarrow> nat \<Rightarrow> nat \<Rightarrow> (nat \<times> call) list" where
  "bk_first sz p r i = stamp (4 * i + 1) (WaitCtrl (dstAtStep p r i) # bk_puts sz 0 (sz div 2) p r i)"

definition bk_tstep :: "nat \<Rightarrow> nat \<Rightarrow> nat \<Rightarrow> nat \<Rightarrow> (nat \<times> call) list" where
  "bk_tstep sz p r i =
     stamp (4 * i + 2) (bk_puts sz (sz div 2) (sz - sz div 2) p r i) @ stamp (4 * i + 3) [WaitNotify (srcAtStep p r i)] @
     (if i < ceilLog2I p - 1 then bk_first sz p r (i + 1) else []) @ stamp (4 * i + 5) [WaitNotify (srcAtStep p r i)]"

definition bk_timed :: "(nat \<Rightarrow> bool) \<Rightarrow> nat \<Rightarrow> nat \<Rightarrow> nat \<Rightarrow> (nat \<times> call) list" where
  "bk_timed reg sz p r =
     stamp 0 ([SearchRegHandle] @ concat (map (bk_exchange p r) [0..<ceilLog2I p])) @
     stamp 1 [WaitCtrl (dstAtStep p r 0), Put (dstAtStep p r 0) (r * sz) (sz div 2) True] @
     concat (map (bk_tstep sz p r) [0..<ceilLog2I p]) @
     stamp (4 * ceilLog2I p + 2)
       (concat (map (\<lambda>i. [WaitPut (dstAtStep p r i), WaitPut (dstAtStep p r i)]) [0..<ceilLog2I p]) @
        map (\<lambda>i. WaitSendCtrl (srcAtStep p r i)) [0..<ceilLog2I p] @ (if reg r then [DeregDynamic] else []))"

lemma bk_timed_calls: "map snd (bk_timed reg sz p r) = bk_impl (reg r) sz p r"
proof -
  have "map snd (bk_tstep sz p r i) = bk_step sz p r i" for i
    by (simp add: bk_tstep_def bk_step_def bk_first_def Let_def)
  then have "map snd (concat (map (bk_tstep sz p r) xs)) = concat (map (bk_step sz p r) xs)" for xs
    by (simp add: map_concat comp_def)
  then show ?thesis by (simp add: bk_timed_def bk_impl_def del: stamp_simps(5,6))
qed

lemma bk_first_0: "2 \<le> p \<Longrightarrow> r < p \<Longrightarrow>
    stamp 1 [WaitCtrl (dstAtStep p r 0), Put (dstAtStep p r 0) (r * sz) (sz div 2) True] = bk_first sz p r 0"
  by (simp add: bk_first_def bk_puts_def sends_first)

lemma bk_timed_sorted: "sorted (map fst (bk_timed reg sz p r))"
proof -
  let ?k = "ceilLog2I p"
  have ph: "sorted (map fst (concat (map (bk_tstep sz p r) [0..<?k]))) \<and>
      (\<forall>x \<in> set (concat (map (bk_tstep sz p r) [0..<?k])). 2 \<le> fst x \<and> fst x \<le> 4 * ?k + 2)"
  proof (rule sorted_phases)
    show "sorted (map fst (bk_tstep sz p r i)) \<and> (\<forall>x \<in> set (bk_tstep sz p r i). 4 * i + 2 \<le> fst x \<and> fst x \<le> 4 * Suc i + 2)" for i
      by (auto simp: bk_tstep_def bk_first_def sorted_append sorted_replicate simp del: stamp_simps(5,6))
  qed
  let ?final = "stamp (4 * ?k + 2) (concat (map (\<lambda>i. [WaitPut (dstAtStep p r i), WaitPut (dstAtStep p r i)]) [0..<?k]) @
        map (\<lambda>i. WaitSendCtrl (srcAtStep p r i)) [0..<?k] @ (if reg r then [DeregDynamic] else []))"
  have "sorted (map fst (concat (map (bk_tstep sz p r) [0..<?k]) @ ?final))"
    by (rule sorted_append_le [of _ _ "4 * ?k + 2"]) (use ph in \<open>auto simp: sorted_replicate simp del: stamp_simps(5,6)\<close>)
  then have "sorted (map fst (stamp 1 [WaitCtrl (dstAtStep p r 0), Put (dstAtStep p r 0) (r * sz) (sz div 2) True] @ concat (map (bk_tstep sz p r) [0..<?k]) @ ?final))"
    by (rule sorted_append_le [of _ _ 2, rotated])
      (use ph in \<open>auto simp: bk_first_def sorted_replicate stamp_mem simp del: stamp_simps(5,6)\<close>)
  then show ?thesis unfolding bk_timed_def
    by (rule sorted_append_le [of _ _ 0, rotated]) (auto simp: sorted_replicate simp del: stamp_simps(5,6))
qed

text \<open>Which calls occur, and when.\<close>

lemma bk_puts_set: "c \<in> set (bk_puts sz off len p r i) \<longleftrightarrow>
    (\<exists>j < length (sendsAtStep p r i). c = Put (dstAtStep p r i) (sendsAtStep p r i ! j * sz + off) len (j = length (sendsAtStep p r i) - 1))"
  by (auto simp: bk_puts_def Let_def)

lemma bk_first_mem:
  "(t, WaitCtrl s) \<in> set (bk_first sz p r i) \<longleftrightarrow> t = 4 * i + 1 \<and> s = dstAtStep p r i"
  "(t, WaitNotify s) \<notin> set (bk_first sz p r i)"
  "(t, Put s lo len nt) \<in> set (bk_first sz p r i) \<longleftrightarrow> t = 4 * i + 1 \<and> Put s lo len nt \<in> set (bk_puts sz 0 (sz div 2) p r i)"
  by (auto simp: bk_first_def stamp_mem bk_puts_set simp del: stamp_simps)

lemma bk_tstep_mem:
  "(t, WaitCtrl s) \<in> set (bk_tstep sz p r i) \<longleftrightarrow> i < ceilLog2I p - 1 \<and> t = 4 * (i + 1) + 1 \<and> s = dstAtStep p r (i + 1)"
  "(t, WaitNotify s) \<in> set (bk_tstep sz p r i) \<longleftrightarrow> (t = 4 * i + 3 \<or> t = 4 * i + 5) \<and> s = srcAtStep p r i"
  "(t, Put s lo len nt) \<in> set (bk_tstep sz p r i) \<longleftrightarrow>
    t = 4 * i + 2 \<and> Put s lo len nt \<in> set (bk_puts sz (sz div 2) (sz - sz div 2) p r i) \<or>
    i < ceilLog2I p - 1 \<and> t = 4 * (i + 1) + 1 \<and> Put s lo len nt \<in> set (bk_puts sz 0 (sz div 2) p r (i + 1))"
  by (auto simp: bk_tstep_def bk_first_mem stamp_mem bk_puts_set simp del: stamp_simps)

lemma bk_timed_mem:
  "x \<in> set (bk_timed reg sz p r) \<longleftrightarrow>
     (fst x = 0 \<and> (snd x = SearchRegHandle \<or> (\<exists>i < ceilLog2I p. snd x \<in> set (bk_exchange p r i)))) \<or>
     x \<in> set (stamp 1 [WaitCtrl (dstAtStep p r 0), Put (dstAtStep p r 0) (r * sz) (sz div 2) True]) \<or> (\<exists>i < ceilLog2I p. x \<in> set (bk_tstep sz p r i)) \<or>
     (fst x = 4 * ceilLog2I p + 2 \<and> ((\<exists>i < ceilLog2I p. snd x = WaitPut (dstAtStep p r i) \<or> snd x = WaitSendCtrl (srcAtStep p r i)) \<or>
        (reg r \<and> snd x = DeregDynamic)))"
  by (auto simp: bk_timed_def stamp_mem simp del: stamp_simps)

lemma Suc_cases: "0 < k \<Longrightarrow> (P 0 \<or> (\<exists>i < k. i < k - 1 \<and> P (i + 1))) \<longleftrightarrow> (\<exists>i < k. P i)" for k :: nat
proof -
  assume "0 < k"
  then obtain n where k: "k = Suc n" by (cases k) auto
  have "(\<exists>i < Suc n. i < n \<and> P (i + 1)) = (\<exists>i < n. P (Suc i))" by (metis less_SucI Suc_eq_plus1)
  then show ?thesis unfolding k Ex_less_Suc2 diff_Suc_1 by simp
qed

lemma bk_timed_set:
  assumes "2 \<le> p" "r < p"
  shows "(t, WaitCtrl s) \<in> set (bk_timed reg sz p r) \<longleftrightarrow> (\<exists>i < ceilLog2I p. t = 4 * i + 1 \<and> s = dstAtStep p r i)" (is ?ctrl)
    and "(t, WaitNotify s) \<in> set (bk_timed reg sz p r) \<longleftrightarrow> (\<exists>i < ceilLog2I p. (t = 4 * i + 3 \<or> t = 4 * i + 5) \<and> s = srcAtStep p r i)" (is ?ntf)
    and "(t, Put s lo len nt) \<in> set (bk_timed reg sz p r) \<longleftrightarrow> (\<exists>i < ceilLog2I p.
      t = 4 * i + 1 \<and> Put s lo len nt \<in> set (bk_puts sz 0 (sz div 2) p r i) \<or>
      t = 4 * i + 2 \<and> Put s lo len nt \<in> set (bk_puts sz (sz div 2) (sz - sz div 2) p r i))" (is ?put)
proof -
  note k = ceilLog2I_bounds(1) [OF assms(1)]
  note mem = bk_timed_mem [of _ _ _ p r, unfolded bk_first_0 [OF assms]] bk_first_mem bk_tstep_mem bk_exchange_def
  show ?ctrl using Suc_cases [OF k, of "\<lambda>i. t = 4 * i + 1 \<and> s = dstAtStep p r i"]
    by (simp add: mem)
  show ?ntf by (simp add: mem)
  show ?put using Suc_cases [OF k, of "\<lambda>i. t = 4 * i + 1 \<and> Put s lo len nt \<in> set (bk_puts sz 0 (sz div 2) p r i)"]
    by (simp add: mem) blast
qed

lemma bk_timed_send: "i < ceilLog2I p \<Longrightarrow> (0, SendCtrl (srcAtStep p r i)) \<in> set (bk_timed reg sz p r)"
  by (auto simp: bk_timed_mem bk_exchange_def)

lemma count_le:
  fixes k :: nat
  assumes "\<And>i j. i < k \<Longrightarrow> j < k \<Longrightarrow> f i = f j \<Longrightarrow> i = j"
  shows "(\<Sum>i < k. if f i = s then c else 0) \<le> (c :: nat)"
proof (cases "\<exists>i < k. f i = s")
  case True
  then obtain i where i: "i < k" "f i = s" by blast
  have "f j \<noteq> s" if "j < k" "j \<noteq> i" for j using assms [OF that(1) i(1)] that(2) i(2) by metis
  then have "(\<Sum>j < k. if f j = s then c else 0) = (if f i = s then c else 0)" by (intro sum_single [OF i(1)]) simp
  then show ?thesis by simp
qed simp


lemma sum_shift_if:
  "0 < k \<Longrightarrow> (if f 0 = s then c else 0) + (\<Sum>i < k. if i < k - 1 \<and> f (Suc i) = s then c else 0) = (\<Sum>i < k. if f i = s then c else (0 :: nat))"
  for k :: nat
proof -
  assume "0 < k"
  then obtain n where k: "k = Suc n" by (cases k) auto
  have "(\<Sum>i < Suc n. if i < n \<and> f (Suc i) = s then c else 0) = (\<Sum>i < n. if f (Suc i) = s then c else 0)"
    by (simp cong: sum.cong_simp)
  then show ?thesis unfolding k by (simp only: sum.lessThan_Suc_shift [of "\<lambda>i. if f i = s then c else 0"] diff_Suc_1)
qed

lemma bk_counts:
  assumes "2 \<le> p" "r < p"
  shows "count_list (bk_impl g sz p r) (WaitCtrl s) \<le> 1" "count_list (bk_impl g sz p r) (WaitNotify s) \<le> 2"
proof -
  let ?k = "ceilLog2I p"
  note k = ceilLog2I_bounds(1) [OF assms(1)]
  have c: "count_list (bk_step sz p r i) (WaitCtrl s) = (if i < ?k - 1 \<and> dstAtStep p r (Suc i) = s then 1 else 0)"
    "count_list (bk_step sz p r i) (WaitNotify s) = (if srcAtStep p r i = s then 2 else 0)" for i
    by (simp_all add: bk_step_def Let_def count_notin bk_puts_set)
  have z: "count_list (bk_exchange p r i) (WaitCtrl s) = 0" "count_list (bk_exchange p r i) (WaitNotify s) = 0" for i
    by (simp_all add: bk_exchange_def)
  have w: "count_list (map (\<lambda>i. WaitSendCtrl (f i)) xs) (WaitCtrl s) = 0" "count_list (map (\<lambda>i. WaitSendCtrl (f i)) xs) (WaitNotify s) = 0" for f and xs :: "nat list"
    by (auto intro: count_notin)
  have "count_list (bk_impl g sz p r) (WaitCtrl s) = (\<Sum>i < ?k. if dstAtStep p r i = s then 1 else 0)"
    using sum_shift_if [OF k, of "dstAtStep p r" s 1] by (cases "dstAtStep p r 0 = s") (simp_all add: bk_impl_def count_list_concat c z w)
  also have "\<dots> \<le> 1" by (rule count_le) (rule dst_inj [OF assms])
  finally show "count_list (bk_impl g sz p r) (WaitCtrl s) \<le> 1" .
  have "count_list (bk_impl g sz p r) (WaitNotify s) = (\<Sum>i < ?k. if srcAtStep p r i = s then 2 else 0)"
    by (simp add: bk_impl_def count_list_concat c z w)
  also have "\<dots> \<le> 2" by (rule count_le) (rule src_inj [OF assms])
  finally show "count_list (bk_impl g sz p r) (WaitNotify s) \<le> 2" .
qed

section \<open>What each rank knows\<close>

text \<open>The first half (\<open>h = False\<close>) and the second half of a block.\<close>

definition bk_off :: "nat \<Rightarrow> bool \<Rightarrow> nat" where "bk_off sz h = (if h then sz div 2 else 0)"

definition bk_len :: "nat \<Rightarrow> bool \<Rightarrow> nat" where "bk_len sz h = (if h then sz - sz div 2 else sz div 2)"

definition half :: "nat \<Rightarrow> bool \<Rightarrow> nat \<Rightarrow> nat set" where
  "half sz h b = {b * sz + bk_off sz h..<b * sz + bk_off sz h + bk_len sz h}"

lemma half_block: "half sz False b \<union> half sz True b = block sz b" "half sz h b \<subseteq> block sz b"
  by (cases h) (auto simp: half_def block_def bk_off_def bk_len_def)

abbreviation bk_half :: "nat \<Rightarrow> bool \<Rightarrow> nat \<Rightarrow> nat \<Rightarrow> nat \<Rightarrow> call list" where
  "bk_half sz h p r i \<equiv> bk_puts sz (bk_off sz h) (bk_len sz h) p r i"

lemma puts_to_bk: "puts_to q (bk_puts sz off len p r i) =
    (if dstAtStep p r i = q then map (\<lambda>j. (sendsAtStep p r i ! j * sz + off, len, j = length (sendsAtStep p r i) - 1)) [0..<length (sendsAtStep p r i)] else [])"
proof -
  have "puts_to q (map (\<lambda>l. Put p (f l) len (g l)) xs) = (if p = q then map (\<lambda>l. (f l, len, g l)) xs else [])" for p f g and xs :: "nat list"
    by (induction xs) auto
  then show ?thesis by (simp add: bk_puts_def Let_def)
qed

lemma arrived_group:
  "(\<And>p. p \<in> set ps \<Longrightarrow> \<not> snd (snd p)) \<Longrightarrow>
    (ps \<noteq> [] \<Longrightarrow> b) \<Longrightarrow> arrived b ((ps @ [(lo, len, True)]) @ qs) (Suc k) = ranges (ps @ [(lo, len, True)]) \<union> arrived b qs k"
proof (induction ps)
  case Nil
  then show ?case by simp
next
  case (Cons p ps)
  have p: "\<not> snd (snd p)" "\<And>q. q \<in> set ps \<Longrightarrow> \<not> snd (snd q)" "b" using Cons.prems by simp_all
  from Cons.IH [OF p(2,3)] p(1,3) show ?case by (cases p) (simp add: Un_assoc)
qed

lemma arrived_half:
  assumes "2 \<le> p" "r < p" "i < ceilLog2I p" "1 < length (sendsAtStep p r i) \<Longrightarrow> b"
  shows "arrived b (puts_to (dstAtStep p r i) (bk_half sz h p r i) @ qs) (Suc k) = \<Union> (half sz h ` set (sendsAtStep p r i)) \<union> arrived b qs k"
proof -
  let ?s = "sendsAtStep p r i" let ?n = "length ?s - 1"
  let ?f = "\<lambda>j. (?s ! j * sz + bk_off sz h, bk_len sz h, j = ?n)"
  have n: "length ?s = Suc ?n" using sends_nonempty [OF assms(1-3)] by (cases ?s) auto
  have l: "map ?f [0..<length ?s] = map ?f [0..<?n] @ [(?s ! ?n * sz + bk_off sz h, bk_len sz h, True)]"
    by (subst n) (simp del: diff_Suc_1)
  have "arrived b (map ?f [0..<length ?s] @ qs) (Suc k) = ranges (map ?f [0..<length ?s]) \<union> arrived b qs k"
    unfolding l by (rule arrived_group) (use assms(4) n in auto)
  also have "ranges (map ?f [0..<length ?s]) = \<Union> (half sz h ` ((!) ?s ` {..<length ?s}))"
    by (auto simp: ranges_def half_def)
  also have "(!) ?s ` {..<length ?s} = set ?s" by (auto simp: set_conv_nth)
  finally show ?thesis by (simp add: puts_to_bk)
qed

lemma concat_shift:
  "0 < k \<Longrightarrow> A 0 @ concat (map (\<lambda>i. B i @ (if i < k - 1 then A (Suc i) else [])) [0..<k]) = concat (map (\<lambda>i. A i @ B i) [0..<k])"
proof -
  assume "0 < k"
  then obtain n where k: "k = Suc n" by (cases k) auto
  have 1: "A 0 @ concat (map (\<lambda>i. B i @ A (Suc i)) [0..<m]) = concat (map (\<lambda>i. A i @ B i) [0..<m]) @ A m" for m
    by (induction m) auto
  have 2: "concat (map (\<lambda>i. B i @ (if i < n then A (Suc i) else [])) [0..<n]) = concat (map (\<lambda>i. B i @ A (Suc i)) [0..<n])"
    by (rule arg_cong [of _ _ concat], rule map_cong) auto
  have "A 0 @ concat (map (\<lambda>i. B i @ (if i < n then A (Suc i) else [])) [0..<Suc n]) = (A 0 @ concat (map (\<lambda>i. B i @ A (Suc i)) [0..<n])) @ B n"
    using 2 by simp
  then show ?thesis unfolding k 1 by simp
qed

lemma puts_to_impl:
  assumes "2 \<le> p" "r < p" "i < ceilLog2I p"
  shows "puts_to (dstAtStep p r i) (bk_impl g sz p r) =
    puts_to (dstAtStep p r i) (bk_half sz False p r i) @ puts_to (dstAtStep p r i) (bk_half sz True p r i)"
proof -
  let ?q = "dstAtStep p r i" let ?k = "ceilLog2I p"
  note k = ceilLog2I_bounds(1) [OF assms(1)]
  let ?A = "\<lambda>j. puts_to ?q (bk_half sz False p r j)" let ?B = "\<lambda>j. puts_to ?q (bk_half sz True p r j)"
  have st: "puts_to ?q (bk_step sz p r j) = ?B j @ (if j < ?k - 1 then ?A (Suc j) else [])" for j
    by (simp add: bk_step_def Let_def bk_off_def bk_len_def)
  have f: "puts_to ?q [WaitCtrl (dstAtStep p r 0), Put (dstAtStep p r 0) (r * sz) (sz div 2) True] = ?A 0"
    by (simp add: puts_to_bk sends_first [OF assms(1,2)] bk_off_def bk_len_def)
  have z: "puts_to ?q [SearchRegHandle] = []" "puts_to ?q (concat (map (bk_exchange p r) [0..<?k])) = []"
    "puts_to ?q (concat (map (\<lambda>i. [WaitPut (dstAtStep p r i), WaitPut (dstAtStep p r i)]) [0..<?k])) = []"
    "puts_to ?q (map (\<lambda>i. WaitSendCtrl (srcAtStep p r i)) [0..<?k]) = []" "puts_to ?q (if g then [DeregDynamic] else []) = []"
    by (rule puts_to_other; auto simp: bk_exchange_def)+
  have "puts_to ?q (bk_impl g sz p r) = ?A 0 @ concat (map (\<lambda>j. ?B j @ (if j < ?k - 1 then ?A (Suc j) else [])) [0..<?k])"
    unfolding bk_impl_def puts_to_append z f by (simp add: puts_to_concat comp_def st)
  also have "\<dots> = concat (map (\<lambda>j. ?A j @ ?B j) [0..<?k])" by (rule concat_shift [OF k])
  also have "\<dots> = ?A i @ ?B i"
  proof (rule concat_single [OF assms(3)])
    fix j assume "j < ?k" "j \<noteq> i"
    then have "dstAtStep p r j \<noteq> ?q" using dst_inj [OF assms(1,2) _ assms(3)] by blast
    then show "?A j @ ?B j = []" by (simp add: puts_to_bk)
  qed
  finally show ?thesis .
qed

abbreviation bk_calls :: "(nat \<Rightarrow> bool) \<Rightarrow> nat \<Rightarrow> nat \<Rightarrow> nat \<Rightarrow> call list" where
  "bk_calls reg sz p \<equiv> (\<lambda>s. bk_impl (reg s) sz p s)"

text \<open>The connections that carry several puts with one notification.\<close>

definition bk_multi :: "nat \<Rightarrow> nat \<Rightarrow> nat \<Rightarrow> bool" where
  "bk_multi p s r \<longleftrightarrow> (\<exists>i < ceilLog2I p. 1 < length (sendsAtStep p s i) \<and> r = dstAtStep p s i)"

abbreviation bk_mode :: "(nat \<Rightarrow> nat \<Rightarrow> bool) \<Rightarrow> nat \<Rightarrow> nat \<Rightarrow> nat \<Rightarrow> bool" where
  "bk_mode sp p \<equiv> (\<lambda>s r. sp s r \<or> bk_multi p s r)"

text \<open>A rank that has received the first (or both) notifications of the steps before \<open>i\<close> has the first (second) halves.\<close>

lemma bk_know:
  assumes "2 \<le> p" "r < p" "i \<le> ceilLog2I p"
    "\<And>j. j < i \<Longrightarrow> (if h then 2 else 1) \<le> count_list us (WaitNotify (srcAtStep p r j))"
  shows "\<Union> (half sz h ` bk_blocks p i r) \<subseteq> know p (bk_mode sp p) (bk_calls reg sz p) (block sz) r us"
  using assms(3,4)
proof (induction i)
  case 0
  have "half sz h r \<subseteq> block sz r" by (rule half_block)
  then show ?case using assms(2) by (auto simp: know_def)
next
  case (Suc i)
  let ?s = "srcAtStep p r i"
  have i: "i < ceilLog2I p" using Suc.prems(1) by simp
  have s: "?s < p" "dstAtStep p ?s i = r" using src_dst_less [OF assms(1)] dst_src [OF assms(1,2)] by simp_all
  let ?ps = "\<lambda>h. puts_to r (bk_half sz h p ?s i)"
  let ?b = "bk_mode sp p ?s r"
  have c: "(if h then 2 else 1) \<le> count_list us (WaitNotify ?s)" using Suc.prems(2) [of i] by simp
  have m: "1 < length (sendsAtStep p ?s i) \<Longrightarrow> ?b" using i s(2) by (auto simp: bk_multi_def)
  have "\<Union> (half sz h ` set (sendsAtStep p ?s i)) \<subseteq> arrived ?b (?ps False @ ?ps True) (if h then 2 else 1)"
    using arrived_half [OF assms(1) s(1) i m, of sz False "?ps True" 0] arrived_half [OF assms(1) s(1) i m, of sz False "?ps True" 1]
      arrived_half [OF assms(1) s(1) i m, of sz True "[]" 0] s(2) by (cases h) (auto simp: numeral_2_eq_2)
  also have "\<dots> \<subseteq> arrived ?b (puts_to r (bk_calls reg sz p ?s)) (count_list us (WaitNotify ?s))"
    using puts_to_impl [OF assms(1) s(1) i, of "reg ?s" sz] s(2) arrived_mono [OF c] by simp
  also have "\<dots> \<subseteq> know p (bk_mode sp p) (bk_calls reg sz p) (block sz) r us" using s(1) by (auto simp: know_def)
  finally have "\<Union> (half sz h ` set (sendsAtStep p ?s i)) \<subseteq> know p (bk_mode sp p) (bk_calls reg sz p) (block sz) r us" .
  moreover have "set (sendsAtStep p ?s i) = bk_blocks p i ?s - bk_blocks p i r"
    using sends_mem [OF assms(1) s(1) less_imp_le [OF i]] s(2) by simp
  moreover have "\<Union> (half sz h ` bk_blocks p i r) \<subseteq> know p (bk_mode sp p) (bk_calls reg sz p) (block sz) r us"
    using Suc.IH Suc.prems i by simp
  ultimately show ?case unfolding bk_blocks_Suc [OF i] by blast
qed

text \<open>The last put of each half of a step notifies.\<close>

lemma bk_last:
  assumes "2 \<le> p" "r < p" "i < ceilLog2I p"
  shows "\<exists>lo. Put (dstAtStep p r i) lo len True \<in> set (bk_puts sz off len p r i)"
proof -
  have "length (sendsAtStep p r i) - 1 < length (sendsAtStep p r i)" using sends_nonempty [OF assms] by (cases "sendsAtStep p r i") auto
  then show ?thesis unfolding bk_puts_set by (intro exI conjI refl) auto
qed

lemma bk_notified:
  assumes "2 \<le> p" "r < p" "i < ceilLog2I p"
  shows "\<exists>us lo len vs. bk_timed reg sz p r = us @ (4 * i + 2, Put (dstAtStep p r i) lo len True) # vs \<and>
    1 \<le> notices (puts_to (dstAtStep p r i) (map snd us))"
proof -
  let ?q = "dstAtStep p r i"
  obtain lo lo' where p: "Put ?q lo (sz div 2) True \<in> set (bk_puts sz 0 (sz div 2) p r i)"
    "Put ?q lo' (sz - sz div 2) True \<in> set (bk_puts sz (sz div 2) (sz - sz div 2) p r i)"
    using bk_last [OF assms] by meson
  have m: "(4 * i + 1, Put ?q lo (sz div 2) True) \<in> set (bk_timed reg sz p r)"
    "(4 * i + 2, Put ?q lo' (sz - sz div 2) True) \<in> set (bk_timed reg sz p r)"
    unfolding bk_timed_set(3) [OF assms(1,2)] using assms(3) p by blast+
  obtain us vs where u: "bk_timed reg sz p r = us @ (4 * i + 2, Put ?q lo' (sz - sz div 2) True) # vs"
    using split_list [OF m(2)] by blast
  have "(4 * i + 1, Put ?q lo (sz div 2) True) \<in> set us"
    using earlier_in_prefix [OF _ m(1) [unfolded u]] bk_timed_sorted [of reg sz p r] u by simp
  then obtain as bs where "us = as @ (4 * i + 1, Put ?q lo (sz div 2) True) # bs" by (meson split_list)
  then have "1 \<le> notices (puts_to ?q (map snd us))" by simp
  then show ?thesis using u by blast
qed

section \<open>Correctness\<close>

lemma bk_no_kernel: "(t, c) \<in> set (bk_timed reg sz p r) \<Longrightarrow> \<not> by_kernel c"
proof -
  assume "(t, c) \<in> set (bk_timed reg sz p r)"
  then have "c \<in> set (bk_impl (reg r) sz p r)" unfolding bk_timed_calls [symmetric] by force
  then show "\<not> by_kernel c" by (auto simp: bk_impl_def bk_step_def bk_exchange_def bk_puts_def Let_def split: if_splits)
qed

lemma bk_before:
  assumes "2 \<le> p" "r < p" "bk_timed reg sz p r = us @ (t, c) # vs" "j < ceilLog2I p" "4 * j + (if h then 5 else 3) < t"
  shows "(if h then 2 else 1) \<le> count_list (map snd us) (WaitNotify (srcAtStep p r j))"
proof -
  have "(t', WaitNotify (srcAtStep p r j)) \<in> set us" if "t' = 4 * j + 3 \<or> t' = 4 * j + 5" "t' < t" for t'
  proof -
    have "(t', WaitNotify (srcAtStep p r j)) \<in> set (bk_timed reg sz p r)"
      unfolding bk_timed_set(2) [OF assms(1,2)] using that(1) assms(4) by blast
    from earlier_in_prefix [OF _ this [unfolded assms(3)] that(2)] show ?thesis
      using bk_timed_sorted [of reg sz p r] assms(3) by simp
  qed
  note m = this
  show ?thesis
  proof (cases h)
    case True
    then have "(4 * j + 3, WaitNotify (srcAtStep p r j)) \<in> set us" "(4 * j + 5, WaitNotify (srcAtStep p r j)) \<in> set us"
      using assms(5) by (auto intro: m)
    from count_two [OF this] True show ?thesis by simp
  next
    case False
    then have "(4 * j + 3, WaitNotify (srcAtStep p r j)) \<in> set us" using assms(5) by (auto intro: m)
    from count_one [OF this] False show ?thesis by simp
  qed
qed

lemma bk_timed_net:
  assumes p: "2 \<le> p"
  shows "timed_net p (bk_mode sp p) (bk_timed reg sz p) (block sz) {..<p * sz}"
proof (unfold_locales, unfold bk_timed_calls)
  fix r :: nat
  assume r: "r < p"
  show "sorted (map fst (bk_timed reg sz p r))" by (rule bk_timed_sorted)
  have two: "2 \<le> count_list (bk_calls reg sz p r) (WaitNotify (srcAtStep p r j))" if "j < ceilLog2I p" for j
    using that count_two [of "4 * j + 3" "WaitNotify (srcAtStep p r j)" "bk_timed reg sz p r" "4 * j + 5"]
    unfolding bk_timed_calls bk_timed_set(2) [OF p r] by auto
  have "\<Union> (half sz h ` {..<p}) \<subseteq> know p (bk_mode sp p) (bk_calls reg sz p) (block sz) r (bk_calls reg sz p r)" for h
    unfolding bk_blocks_all [OF p r, symmetric] using two by (intro bk_know [OF p r order_refl]) (force split: if_splits)
  from this [of False] this [of True]
  have "\<Union> (block sz ` {..<p}) \<subseteq> know p (bk_mode sp p) (bk_calls reg sz p) (block sz) r (bk_calls reg sz p r)"
    unfolding half_block(1) [symmetric] by blast
  then show "{..<p * sz} \<subseteq> know p (bk_mode sp p) (bk_calls reg sz p) (block sz) r (bk_calls reg sz p r)" by (simp only: all_blocks)
next
  fix r :: nat and us t s vs
  assume r: "r < p" and sp: "bk_timed reg sz p r = us @ (t, WaitCtrl s) # vs"
  then have "(t, WaitCtrl s) \<in> set (bk_timed reg sz p r)" by simp
  then obtain i where i: "i < ceilLog2I p" "t = 4 * i + 1" "s = dstAtStep p r i" unfolding bk_timed_set(1) [OF p r] by blast
  have s: "s < p" "srcAtStep p s i = r" using src_dst_less [OF p] src_dst [OF p r] i(3) by simp_all
  obtain us' vs' where "bk_timed reg sz p s = us' @ (0, SendCtrl r) # vs'"
    using bk_timed_send [OF i(1), of s reg sz] s(2) by (metis split_list)
  moreover have "count_list (map snd us) (WaitCtrl s) = 0"
    using unique_count [OF _ sp] bk_counts(1) [OF p r] by (simp add: bk_timed_calls)
  ultimately show "s < p \<and> (\<exists>us' t' vs'. bk_timed reg sz p s = us' @ (t', SendCtrl r) # vs' \<and> t' < t \<and>
      count_list (map snd us) (WaitCtrl s) \<le> count_list (map snd us') (SendCtrl r))"
    using s(1) i(2) by auto
next
  fix r :: nat and us t s vs
  assume r: "r < p" and sp: "bk_timed reg sz p r = us @ (t, WaitNotify s) # vs"
  then have "(t, WaitNotify s) \<in> set (bk_timed reg sz p r)" by simp
  then obtain i where i: "i < ceilLog2I p" "s = srcAtStep p r i" "t = 4 * i + 3 \<or> t = 4 * i + 5"
    unfolding bk_timed_set(2) [OF p r] by blast
  have late: "4 * i + 2 < t" using i(3) by auto
  have s: "s < p" "dstAtStep p s i = r" using src_dst_less [OF p] dst_src [OF p r] i(2) by simp_all
  obtain us' lo len vs' where u: "bk_timed reg sz p s = us' @ (4 * i + 2, Put r lo len True) # vs'"
    "1 \<le> notices (puts_to r (map snd us'))"
    using bk_notified [OF p s(1) i(1)] s(2) by blast
  have "count_list (map snd us) (WaitNotify s) < 2"
    using bk_counts(2) [OF p r, of "reg r" sz s] unfolding bk_timed_calls [symmetric] sp by simp
  then have "count_list (map snd us) (WaitNotify s) \<le> notices (puts_to r (map snd us'))" using u(2) by linarith
  then show "s < p \<and> (\<exists>us' t' lo len vs'. bk_timed reg sz p s = us' @ (t', Put r lo len True) # vs' \<and> t' < t \<and>
      count_list (map snd us) (WaitNotify s) \<le> notices (puts_to r (map snd us')))"
    using s(1) late u(1) by blast
next
  fix r :: nat and us t s lo len nt vs
  assume r: "r < p" and sp: "bk_timed reg sz p r = us @ (t, Put s lo len nt) # vs"
  then have "(t, Put s lo len nt) \<in> set (bk_timed reg sz p r)" by simp
  then obtain i where k: "i < ceilLog2I p" "t = 4 * i + 1 \<and> Put s lo len nt \<in> set (bk_half sz False p r i) \<or>
      t = 4 * i + 2 \<and> Put s lo len nt \<in> set (bk_half sz True p r i)"
    unfolding bk_timed_set(3) [OF p r] by (auto simp: bk_off_def bk_len_def)
  define h where "h \<longleftrightarrow> t = 4 * i + 2"
  have i: "i < ceilLog2I p" "t = 4 * i + (if h then 2 else 1)" "Put s lo len nt \<in> set (bk_half sz h p r i)"
    using k by (auto simp: h_def)
  then obtain j where j: "j < length (sendsAtStep p r i)" "s = dstAtStep p r i" "lo = sendsAtStep p r i ! j * sz + bk_off sz h" "len = bk_len sz h"
    unfolding bk_puts_set by blast
  define b where "b = sendsAtStep p r i ! j"
  have b: "b \<in> set (sendsAtStep p r i)" "s = dstAtStep p r i" "{lo..<lo + len} = half sz h b"
    using j by (simp_all add: b_def half_def)
  have "(if h then 2 else 1) \<le> count_list (map snd us) (WaitNotify (srcAtStep p r j))" if "j < i" for j
  proof (rule bk_before [OF p r sp])
    show "j < ceilLog2I p" using that i(1) by simp
    show "4 * j + (if h then 5 else 3) < t" using that i(2) by simp
  qed
  from bk_know [OF p r less_imp_le [OF i(1)] this]
  have "\<Union> (half sz h ` bk_blocks p i r) \<subseteq> know p (bk_mode sp p) (bk_calls reg sz p) (block sz) r (map snd us)" .
  moreover have "b \<in> bk_blocks p i r" using sends_mem [OF p r less_imp_le [OF i(1)]] b(1) by simp
  ultimately have "{lo..<lo + len} \<subseteq> know p (bk_mode sp p) (bk_calls reg sz p) (block sz) r (map snd us)" unfolding b(3) by blast
  then show "s < p \<and> {lo..<lo + len} \<subseteq> know p (bk_mode sp p) (bk_calls reg sz p) (block sz) r (map snd us)"
    using src_dst_less [OF p] b(2) by simp
next
  fix r :: nat and us t s vs assume "bk_timed reg sz p r = us @ (t, WaitElem s) # vs"
  then have "(t, WaitElem s) \<in> set (bk_timed reg sz p r)" by simp
  from bk_no_kernel [OF this] show "s < p \<and> (\<exists>us' t' lo len vs'. bk_timed reg sz p s = us' @ (t', PutElem r lo len) # vs' \<and> t' < t \<and>
      count_list (map snd us) (WaitElem s) \<le> length (elems_to r (map snd us')))" by simp
next
  fix r :: nat and us t s lo len vs assume "bk_timed reg sz p r = us @ (t, PutElem s lo len) # vs"
  then have "(t, PutElem s lo len) \<in> set (bk_timed reg sz p r)" by simp
  from bk_no_kernel [OF this] show "s < p \<and> {lo..<lo + len} \<subseteq> know p (bk_mode sp p) (bk_calls reg sz p) (block sz) r (map snd us)" by simp
qed

interpretation bk: timed_net "Suc (Suc q)" "bk_mode sp (Suc (Suc q))" "bk_timed reg sz (Suc (Suc q))" "block sz" "{..<Suc (Suc q) * sz}"
  for q sp reg sz
  by (rule bk_timed_net) simp

text \<open>C2: For any number of ranks from two on, if the connections over which a rank sends several blocks in a step are in spray mode,
  the pipelined all-gather by Bruck's algorithm cannot get stuck, every run has boundedly many steps, and when all ranks have
  finished every rank's buffer holds the block of every rank: whenever and in whatever order puts land, and although each rank
  forwards the first half of a block while the second half is still on its way.\<close>

theorem bk_allgather:
  assumes "2 \<le> p" "net_start p (block sz) data st0" "\<forall>s r. bk_multi p s r \<longrightarrow> sp s r"
  shows "\<exists>bound. \<forall>m st. net_run p sp (\<lambda>r. bk_impl (reg r) sz p r) st0 m st \<longrightarrow> m \<le> bound \<and>
    (\<not> finished p (\<lambda>r. bk_impl (reg r) sz p r) st \<longrightarrow> (\<exists>st'. net_step p sp (\<lambda>r. bk_impl (reg r) sz p r) st st')) \<and>
    (finished p (\<lambda>r. bk_impl (reg r) sz p r) st \<longrightarrow> (\<forall>r < p. \<forall>x < p * sz. mem st r x = data x))"
proof -
  obtain q where q: "p = Suc (Suc q)" using assms(1) by (metis add_2_eq_Suc le_Suc_ex)
  have sp: "bk_mode sp (Suc (Suc q)) = sp" using assms(3) by (auto simp: fun_eq_iff q)
  show ?thesis unfolding q using bk.net_correct [OF assms(2) [unfolded q], of sp reg, unfolded bk_timed_calls sp]
    by (intro exI [of _ "timed_net.left (Suc (Suc q)) (bk_timed reg sz (Suc (Suc q))) st0"]) blast
qed

theorem bk_allgather_witness:
  "\<exists>st'. net_step 3 (\<lambda>s r. True) (\<lambda>r. bk_impl ((\<lambda>_. False) r) 5 3 r) (net_init (\<lambda>r x. x)) st'"
proof -
  have s: "net_start 3 (block 5) (\<lambda>x. x) (net_init (\<lambda>r x. x))" by (simp add: net_start_def net_init_def)
  have p: "2 \<le> (3 :: nat)" and m: "\<forall>s r. bk_multi 3 s r \<longrightarrow> True" by simp_all
  from bk_allgather [OF p s m, of "\<lambda>_. False"]
  have "\<not> finished 3 (\<lambda>r. bk_impl ((\<lambda>_. False) r) 5 3 r) (net_init (\<lambda>r x. x)) \<longrightarrow>
      (\<exists>st'. net_step 3 (\<lambda>s r. True) (\<lambda>r. bk_impl ((\<lambda>_. False) r) 5 3 r) (net_init (\<lambda>r x. x)) st')"
    using net_run.start by blast
  moreover have "\<not> finished 3 (\<lambda>r. bk_impl ((\<lambda>_. False) r) 5 3 r) (net_init (\<lambda>r x. x))"
    by (auto simp: finished_def net_init_def bk_impl_def intro!: exI [of _ 0])
  ultimately show ?thesis by blast
qed

text \<open>A communicator of one rank has no steps, but the algorithm waits for the handle of step 0 all the same.\<close>

lemma bk_one_rank: "ceilLog2I 1 = 0" "WaitCtrl (dstAtStep 1 0 0) \<in> set (bk_impl False sz 1 0)"
  by (simp_all add: ceilLog2I_def log2i.simps bk_impl_def)

end
