(* ===== verification/AllGather_Ring.thy ===== *)
theory AllGather_Ring imports Ctran_Net begin

text \<open>
  All-gather on a ring, \<^verbatim>\<open>comms/ctran/algos/AllGather/AllGatherRing.cc\<close>: each rank sends to its right neighbour, in steps
  of at most \<open>stepSize\<close> bytes, first its own block and then every step it is notified of by its left neighbour. The event
  loop is one transition per iteration, with the numbers of notifications and of completed puts it finds as arguments.
\<close>

section \<open>The event loop\<close>

definition stepSize :: "nat \<Rightarrow> nat \<Rightarrow> nat \<Rightarrow> nat" where
  "stepSize minSplit numSplit sendSize = (if sendSize \<le> minSplit then sendSize else sendSize div numSplit)"

text \<open>The division by a step size of 0 is undefined.\<close>

definition stepsPerBlock :: "nat \<Rightarrow> nat \<Rightarrow> nat option" where
  "stepsPerBlock sendSize step = (if step = 0 then None else Some (max 1 ((sendSize + step - 1) div step)))"

text \<open>The range of a step: the same offset in the buffers of both ranks.\<close>

definition chunk :: "nat \<Rightarrow> nat \<Rightarrow> nat \<Rightarrow> nat \<Rightarrow> nat \<times> nat" where
  "chunk sz step b s = (b * sz + s * step, min step (sz - s * step))"

record ring_state =
  blockNum :: nat
  stepInBlock :: nat
  putQ :: "(nat \<times> nat) list"
  iputReqs :: nat

definition ring_init :: "nat \<Rightarrow> nat \<Rightarrow> nat \<Rightarrow> nat \<Rightarrow> ring_state" where
  "ring_init sz step S rank = \<lparr>blockNum = 0, stepInBlock = 0, putQ = map (chunk sz step rank) [0..<S], iputReqs = 0\<rparr>"

definition ring_loops :: "nat \<Rightarrow> ring_state \<Rightarrow> bool" where
  "ring_loops n q \<longleftrightarrow> putQ q \<noteq> [] \<or> iputReqs q \<noteq> 0 \<or> blockNum q < n - 1"

definition ring_notified :: "nat \<Rightarrow> nat \<Rightarrow> nat \<Rightarrow> nat \<Rightarrow> nat \<Rightarrow> ring_state \<Rightarrow> ring_state" where
  "ring_notified n sz step S rank q =
     q\<lparr>putQ := (if blockNum q < n - 2
                then putQ q @ [chunk sz step ((rank + n - blockNum q - 1) mod n) (stepInBlock q)] else putQ q),
       blockNum := (if stepInBlock q = S - 1 then blockNum q + 1 else blockNum q),
       stepInBlock := (stepInBlock q + 1) mod S\<rparr>"

text \<open>One iteration: \<open>k\<close> notifications, \<open>c\<close> puts from the front have completed, everything queued is issued.\<close>

definition ring_iter :: "nat \<Rightarrow> nat \<Rightarrow> nat \<Rightarrow> nat \<Rightarrow> nat \<Rightarrow> nat \<Rightarrow> nat \<Rightarrow> ring_state \<Rightarrow> ring_state \<times> (nat \<times> nat) list" where
  "ring_iter n sz step S rank k c q =
     (let q1 = (ring_notified n sz step S rank ^^ k) q;
          q2 = q1\<lparr>iputReqs := iputReqs q1 - c\<rparr>
      in (q2\<lparr>putQ := [], iputReqs := iputReqs q2 + length (putQ q2)\<rparr>, putQ q2))"

section \<open>The ranks together\<close>

datatype phase = Setup | WaitHandle | Looping | Finished

text \<open>\<open>recvd\<close> counts the notifications a rank has taken; \<open>sent\<close> are the puts it has issued, of which the first \<open>arrived_puts\<close> are
  in the right neighbour's buffer.\<close>

record 'v ring_net =
  phase :: "nat \<Rightarrow> phase"
  queue :: "nat \<Rightarrow> ring_state"
  recvd :: "nat \<Rightarrow> nat"
  sent :: "nat \<Rightarrow> (nat \<times> nat) list"
  arrived_puts :: "nat \<Rightarrow> nat"
  buf :: "nat \<Rightarrow> nat \<Rightarrow> 'v"

definition left_of :: "nat \<Rightarrow> nat \<Rightarrow> nat" where "left_of n rank = (rank + n - 1) mod n"

definition right_of :: "nat \<Rightarrow> nat \<Rightarrow> nat" where "right_of n rank = (rank + 1) mod n"

text \<open>The puts of a rank that its loop has seen complete.\<close>

definition popped :: "'v ring_net \<Rightarrow> nat \<Rightarrow> nat" where
  "popped st r = length (sent st r) - iputReqs (queue st r)"

definition do_iter :: "nat \<Rightarrow> nat \<Rightarrow> nat \<Rightarrow> nat \<Rightarrow> nat \<Rightarrow> nat \<Rightarrow> nat \<Rightarrow> 'v ring_net \<Rightarrow> 'v ring_net" where
  "do_iter n sz step S r k c st =
     (case ring_iter n sz step S r k c (queue st r) of (q, out) \<Rightarrow>
        st\<lparr>queue := (queue st)(r := q), recvd := (recvd st)(r := recvd st r + k), sent := (sent st)(r := sent st r @ out)\<rparr>)"

definition do_arrive :: "nat \<Rightarrow> nat \<Rightarrow> 'v ring_net \<Rightarrow> 'v ring_net" where
  "do_arrive n r st =
     (case sent st r ! arrived_puts st r of (lo, len) \<Rightarrow>
        st\<lparr>arrived_puts := (arrived_puts st)(r := Suc (arrived_puts st r)),
           buf := (buf st)(right_of n r := (\<lambda>x. if x \<in> {lo..<lo + len} then buf st r x else buf st (right_of n r) x))\<rparr>)"

inductive ring_step :: "nat \<Rightarrow> nat \<Rightarrow> nat \<Rightarrow> nat \<Rightarrow> 'v ring_net \<Rightarrow> 'v ring_net \<Rightarrow> bool" for n sz step S where
  exchange: "\<lbrakk>r < n; phase st r = Setup\<rbrakk> \<Longrightarrow> ring_step n sz step S st (st\<lparr>phase := (phase st)(r := WaitHandle)\<rparr>)"
| got_handle: "\<lbrakk>r < n; phase st r = WaitHandle; phase st (right_of n r) \<noteq> Setup\<rbrakk> \<Longrightarrow>
    ring_step n sz step S st (st\<lparr>phase := (phase st)(r := Looping)\<rparr>)"
| iter: "\<lbrakk>r < n; phase st r = Looping; ring_loops n (queue st r);
    recvd st r + k \<le> arrived_puts st (left_of n r); popped st r + c \<le> arrived_puts st r; c \<le> iputReqs (queue st r);
    0 < k \<or> 0 < c \<or> putQ (queue st r) \<noteq> []\<rbrakk> \<Longrightarrow>
    ring_step n sz step S st (do_iter n sz step S r k c st)"
| leave: "\<lbrakk>r < n; phase st r = Looping; \<not> ring_loops n (queue st r)\<rbrakk> \<Longrightarrow>
    ring_step n sz step S st (st\<lparr>phase := (phase st)(r := Finished)\<rparr>)"
| arrive: "\<lbrakk>r < n; arrived_puts st r < length (sent st r)\<rbrakk> \<Longrightarrow> ring_step n sz step S st (do_arrive n r st)"

text \<open>An iteration that finds nothing to do changes nothing; \<open>ring_step\<close> leaves it out.\<close>

lemma idle_iteration:
  assumes "putQ (queue st r) = []"
  shows "do_iter n sz step S r 0 0 st = st"
proof -
  obtain b i q where q: "queue st r = \<lparr>blockNum = b, stepInBlock = i, putQ = [], iputReqs = q\<rparr>"
    using assms by (cases "queue st r") simp
  have "(queue st)(r := queue st r) = queue st" "(sent st)(r := sent st r) = sent st" "(recvd st)(r := recvd st r) = recvd st" by auto
  then show ?thesis using q by (simp add: do_iter_def ring_iter_def Let_def)
qed

inductive ring_run :: "nat \<Rightarrow> nat \<Rightarrow> nat \<Rightarrow> nat \<Rightarrow> 'v ring_net \<Rightarrow> nat \<Rightarrow> 'v ring_net \<Rightarrow> bool" for n sz step S st0 where
  start: "ring_run n sz step S st0 0 st0"
| more: "ring_run n sz step S st0 m st \<Longrightarrow> ring_step n sz step S st st' \<Longrightarrow> ring_run n sz step S st0 (Suc m) st'"

definition ring_start :: "nat \<Rightarrow> nat \<Rightarrow> nat \<Rightarrow> nat \<Rightarrow> (nat \<Rightarrow> 'v) \<Rightarrow> 'v ring_net \<Rightarrow> bool" where
  "ring_start n sz step S data st \<longleftrightarrow> (\<forall>r < n. phase st r = Setup \<and> queue st r = ring_init sz step S r \<and> recvd st r = 0 \<and>
     sent st r = [] \<and> arrived_puts st r = 0 \<and> (\<forall>x \<in> block sz r. buf st r x = data x))"

section \<open>Neighbours and steps\<close>

lemma neighbours: "r < n \<Longrightarrow> left_of n r < n" "r < n \<Longrightarrow> right_of n r < n"
  "r < n \<Longrightarrow> left_of n (right_of n r) = r" "r < n \<Longrightarrow> right_of n (left_of n r) = r"
  by (auto simp: left_of_def right_of_def mod_if)

lemma right_inj: "r < n \<Longrightarrow> s < n \<Longrightarrow> right_of n r = s \<longleftrightarrow> r = left_of n s"
  using neighbours by metis

text \<open>The steps of a block cover it.\<close>

lemma chunks_cover:
  assumes "0 < sz" "stepsPerBlock sz step = Some S"
  shows "(\<Union>s < S. case chunk sz step b s of (lo, len) \<Rightarrow> {lo..<lo + len}) = block sz b"
proof -
  have st: "0 < step" and S: "S = max 1 ((sz + step - 1) div step)" using assms(2) by (auto simp: stepsPerBlock_def split: if_splits)
  show ?thesis
  proof (intro set_eqI iffI)
    fix x assume "x \<in> (\<Union>s < S. case chunk sz step b s of (lo, len) \<Rightarrow> {lo..<lo + len})"
    then show "x \<in> block sz b" by (auto simp: chunk_def block_def)
  next
    fix x assume "x \<in> block sz b"
    then obtain y where y: "x = b * sz + y" "y < sz" by (auto simp: block_def le_iff_add)
    let ?s = "y div step"
    have "y \<le> sz + step - 1 - step" using y(2) by simp
    then have "?s * step + step \<le> sz + step - 1"
      using div_times_less_eq_dividend [of y step] y(2) st by linarith
    then have "Suc ?s * step \<le> sz + step - 1" by simp
    then have "Suc ?s \<le> (sz + step - 1) div step" by (simp only: less_eq_div_iff_mult_less_eq [OF st])
    then have "?s \<in> {..<S}" unfolding S by simp
    moreover have "x \<in> (case chunk sz step b ?s of (lo, len) \<Rightarrow> {lo..<lo + len})"
    proof -
      define w where "w = ?s * step"
      have "w \<le> y" unfolding w_def by (rule div_times_less_eq_dividend)
      moreover have "y < w + step" using dividend_less_div_times [OF st, of y] unfolding w_def by simp
      ultimately show ?thesis using y unfolding chunk_def w_def [symmetric] by simp
    qed
    ultimately show "x \<in> (\<Union>s < S. case chunk sz step b s of (lo, len) \<Rightarrow> {lo..<lo + len})" by (rule UN_I)
  qed
qed

lemma steps_pos: "stepsPerBlock sz step = Some S \<Longrightarrow> 0 < S"
  by (auto simp: stepsPerBlock_def split: if_splits)

section \<open>What is sent\<close>

text \<open>The puts of rank \<open>r\<close> in order, and how many there are after \<open>t\<close> notifications.\<close>

definition put_no :: "nat \<Rightarrow> nat \<Rightarrow> nat \<Rightarrow> nat \<Rightarrow> nat \<Rightarrow> nat \<Rightarrow> nat \<times> nat" where
  "put_no n sz step S r m = chunk sz step ((r + n - m div S) mod n) (m mod S)"

definition put_count :: "nat \<Rightarrow> nat \<Rightarrow> nat \<Rightarrow> nat" where
  "put_count n S t = S + min t (S * (n - 2))"

definition queue_inv :: "nat \<Rightarrow> nat \<Rightarrow> nat \<Rightarrow> nat \<Rightarrow> nat \<Rightarrow> nat \<Rightarrow> (nat \<times> nat) list \<Rightarrow> ring_state \<Rightarrow> bool" where
  "queue_inv n sz step S r t out q \<longleftrightarrow> blockNum q = t div S \<and> stepInBlock q = t mod S \<and>
     out @ putQ q = map (put_no n sz step S r) [0..<put_count n S t]"

lemma notified_inv:
  assumes "0 < S" "queue_inv n sz step S r t out q"
  shows "queue_inv n sz step S r (Suc t) out (ring_notified n sz step S r q)"
proof -
  have q: "blockNum q = t div S" "stepInBlock q = t mod S" "out @ putQ q = map (put_no n sz step S r) [0..<put_count n S t]"
    using assms(2) by (simp_all add: queue_inv_def)
  have lt: "t div S < n - 2 \<longleftrightarrow> t < S * (n - 2)" using assms(1) by (simp add: div_less_iff_less_mult mult.commute)
  have "Suc (t mod S) = S \<longleftrightarrow> t mod S = S - 1" using assms(1) by auto
  then have b: "blockNum (ring_notified n sz step S r q) = Suc t div S"
    using q(1,2) by (simp add: ring_notified_def div_Suc mod_Suc)
  have s: "stepInBlock (ring_notified n sz step S r q) = Suc t mod S"
    using q(2) by (simp add: ring_notified_def mod_Suc_eq)
  have "out @ putQ (ring_notified n sz step S r q) = map (put_no n sz step S r) [0..<put_count n S (Suc t)]"
  proof (cases "t < S * (n - 2)")
    case True
    then have c: "put_count n S (Suc t) = Suc (put_count n S t)" "put_count n S t = S + t" by (simp_all add: put_count_def)
    have "put_no n sz step S r (S + t) = chunk sz step ((r + n - t div S - 1) mod n) (t mod S)"
      using assms(1) div_add_self1 [of S t] by (simp add: put_no_def)
    moreover have "putQ (ring_notified n sz step S r q) = putQ q @ [chunk sz step ((r + n - t div S - 1) mod n) (t mod S)]"
      using True lt q(1,2) by (simp add: ring_notified_def)
    ultimately show ?thesis using q(3) c by simp
  next
    case False
    then have "put_count n S (Suc t) = put_count n S t" by (simp add: put_count_def)
    moreover have "putQ (ring_notified n sz step S r q) = putQ q" using False lt q(1) by (simp add: ring_notified_def)
    ultimately show ?thesis using q(3) by simp
  qed
  then show ?thesis using b s by (simp add: queue_inv_def)
qed

lemma notified_iter:
  assumes "0 < S" "queue_inv n sz step S r t out q"
  shows "queue_inv n sz step S r (t + k) out ((ring_notified n sz step S r ^^ k) q) \<and> iputReqs ((ring_notified n sz step S r ^^ k) q) = iputReqs q"
proof (induction k)
  case 0
  then show ?case using assms(2) by simp
next
  case (Suc k)
  then show ?case using notified_inv [OF assms(1)] by (simp add: ring_notified_def)
qed

lemma iter_inv:
  assumes "0 < S" "queue_inv n sz step S r t out q" "ring_iter n sz step S r k c q = (q', puts)"
  shows "queue_inv n sz step S r (t + k) (out @ puts) q'" "putQ q' = []" "iputReqs q' = iputReqs q - c + length puts"
proof -
  let ?q = "(ring_notified n sz step S r ^^ k) q"
  note i = notified_iter [OF assms(1,2), of k]
  have q': "q' = ?q\<lparr>iputReqs := iputReqs ?q - c + length (putQ ?q), putQ := []\<rparr>" "puts = putQ ?q"
    using assms(3) by (auto simp: ring_iter_def Let_def)
  show "putQ q' = []" "iputReqs q' = iputReqs q - c + length puts" using i by (simp_all add: q')
  show "queue_inv n sz step S r (t + k) (out @ puts) q'" using i by (simp add: q' queue_inv_def)
qed

lemma left_mod: "0 < r \<Longrightarrow> r < n \<Longrightarrow> (r + n - 1) mod n = r - 1" for r n :: nat
proof -
  assume "0 < r" "r < n"
  then have e: "r + n - 1 = (r - 1) + n" by simp
  show ?thesis unfolding e mod_add_self2 using \<open>r < n\<close> by simp
qed

text \<open>The puts of a rank after its own block are those of its left neighbour, one block later.\<close>

lemma put_no_shift:
  assumes "0 < S" "r < n" "S \<le> m" "m div S < n"
  shows "put_no n sz step S r m = put_no n sz step S (left_of n r) (m - S)"
proof -
  obtain j where j: "m = S + j" using assms(3) by (metis le_Suc_ex)
  have d: "m div S = Suc (j div S)" "m mod S = j mod S" using assms(1) div_add_self1 [of S j] unfolding j by simp_all
  have "(r + n - Suc j) mod n = ((r + n - 1) mod n + n - j) mod n" if "Suc j < n" for j
  proof (cases "r = 0")
    case True
    have "(n - 1) mod n + n - j = (n - Suc j) + n" using that by simp
    then show ?thesis unfolding True add_0 by (simp only: mod_add_self2)
  next
    case False
    have "(r + n - 1) mod n = r - 1" by (rule left_mod) (use False assms(2) in simp_all)
    then show ?thesis using False by simp
  qed
  from this [of "j div S"] show ?thesis using assms(4) unfolding put_no_def left_of_def d by (simp add: j)
qed

lemma put_no_own:
  assumes "r < n" "m < S"
  shows "put_no n sz step S r m = chunk sz step r m"
  using assms by (simp add: put_no_def)

abbreviation bytes_of :: "nat \<times> nat \<Rightarrow> nat set" where
  "bytes_of p \<equiv> (case p of (lo, len) \<Rightarrow> {lo..<lo + len})"

text \<open>All the puts of the left neighbour are all blocks but the rank's own.\<close>

lemma all_puts:
  assumes "2 \<le> n" "r < n" "0 < sz" "stepsPerBlock sz step = Some S" "x < n * sz"
  shows "x \<in> block sz r \<or> (\<exists>m < S * (n - 1). x \<in> bytes_of (put_no n sz step S (left_of n r) m))"
proof -
  have S: "0 < S" using assms(4) by (rule steps_pos)
  have "x \<in> \<Union> (block sz ` {..<n})" unfolding all_blocks using assms(5) by simp
  then obtain b where b: "b < n" "x \<in> block sz b" by auto
  show ?thesis
  proof (cases "b = r")
    case True
    then show ?thesis using b(2) by simp
  next
    case False
    obtain j where j: "j < n - 1" "(left_of n r + n - j) mod n = b"
    proof -
      consider "b < r" | "r < b" "r = 0" | "r < b" "0 < r" using False by linarith
      then show ?thesis
      proof cases
        case 1
        then have "(r + n - 1) mod n + n - (r - 1 - b) = b + n" using left_mod [of r n] assms(2) by simp
        then show ?thesis using that [of "r - 1 - b"] 1 b(1) assms(2) unfolding left_of_def by simp
      next
        case 2
        then have "(r + n - 1) mod n + n - (n - 1 - b) = b + n" using b(1) by simp
        then show ?thesis using that [of "n - 1 - b"] 2 b(1) unfolding left_of_def by simp
      next
        case 3
        then have "(r + n - 1) mod n + n - (r + n - 1 - b) = b" using left_mod [of r n] assms(2) b(1) by simp
        then show ?thesis using that [of "r + n - 1 - b"] 3 b(1) unfolding left_of_def by simp
      qed
    qed
    have "x \<in> (\<Union>s < S. bytes_of (chunk sz step b s))" unfolding chunks_cover [OF assms(3,4), of b] by (rule b(2))
    then obtain s where s: "s < S" "x \<in> bytes_of (chunk sz step b s)" by (elim UN_E) simp
    have "put_no n sz step S (left_of n r) (S * j + s) = chunk sz step b s" using S s(1) j(2) by (simp add: put_no_def)
    moreover have "S * j + s < S * (n - 1)"
    proof -
      have "S * Suc j \<le> S * (n - 1)" using j(1) by (intro mult_left_mono) auto
      then show ?thesis using s(1) by simp
    qed
    ultimately show ?thesis using s(2) by (intro disjI2 exI [of _ "S * j + s"]) simp
  qed
qed

section \<open>The invariant\<close>

definition rank_inv :: "nat \<Rightarrow> nat \<Rightarrow> nat \<Rightarrow> nat \<Rightarrow> 'v ring_net \<Rightarrow> nat \<Rightarrow> bool" where
  "rank_inv n sz step S st r \<longleftrightarrow> queue_inv n sz step S r (recvd st r) (sent st r) (queue st r) \<and>
     recvd st r \<le> arrived_puts st (left_of n r) \<and> popped st r \<le> arrived_puts st r \<and> arrived_puts st r \<le> length (sent st r) \<and>
     iputReqs (queue st r) \<le> length (sent st r) \<and> (phase st r = Finished \<longrightarrow> \<not> ring_loops n (queue st r))"

definition data_inv :: "nat \<Rightarrow> nat \<Rightarrow> nat \<Rightarrow> nat \<Rightarrow> (nat \<Rightarrow> 'v) \<Rightarrow> 'v ring_net \<Rightarrow> nat \<Rightarrow> bool" where
  "data_inv n sz step S data st r \<longleftrightarrow> (\<forall>x \<in> block sz r. buf st r x = data x) \<and>
     (\<forall>m < arrived_puts st (left_of n r). \<forall>x \<in> bytes_of (put_no n sz step S (left_of n r) m). buf st r x = data x)"

definition ring_inv :: "nat \<Rightarrow> nat \<Rightarrow> nat \<Rightarrow> nat \<Rightarrow> (nat \<Rightarrow> 'v) \<Rightarrow> 'v ring_net \<Rightarrow> bool" where
  "ring_inv n sz step S data st \<longleftrightarrow> (\<forall>r < n. rank_inv n sz step S st r \<and> data_inv n sz step S data st r)"

lemma put_count_le: "2 \<le> n \<Longrightarrow> put_count n S t \<le> S * (n - 1)"
proof -
  assume "2 \<le> n"
  then have "S * (n - 1) = S + S * (n - 2)" by (metis Suc_1 Suc_diff_le diff_Suc_Suc mult_Suc_right numeral_2_eq_2)
  then show ?thesis by (simp add: put_count_def)
qed

lemma sent_put:
  assumes "rank_inv n sz step S st r" "m < length (sent st r)"
  shows "sent st r ! m = put_no n sz step S r m" "m < put_count n S (recvd st r)"
proof -
  have e: "sent st r @ putQ (queue st r) = map (put_no n sz step S r) [0..<put_count n S (recvd st r)]"
    using assms(1) by (simp add: rank_inv_def queue_inv_def)
  show c: "m < put_count n S (recvd st r)" using arg_cong [OF e, of length] assms(2) by simp
  have "(sent st r @ putQ (queue st r)) ! m = put_no n sz step S r m" unfolding e using c by simp
  then show "sent st r ! m = put_no n sz step S r m" using assms(2) by (simp add: nth_append)
qed

text \<open>What a rank sends it has: its own block, or a put that has arrived from the left.\<close>

lemma put_data:
  assumes n: "2 \<le> n" "r < n" and S: "0 < sz" "stepsPerBlock sz step = Some S"
    and inv: "rank_inv n sz step S st r" "data_inv n sz step S data st r" and m: "m < length (sent st r)" "x \<in> bytes_of (sent st r ! m)"
  shows "buf st r x = data x"
proof -
  note s = sent_put [OF inv(1) m(1)]
  have pos: "0 < S" using S(2) by (rule steps_pos)
  show ?thesis
  proof (cases "m < S")
    case True
    then have "x \<in> bytes_of (chunk sz step r m)" using m(2) s(1) put_no_own [OF n(2)] by simp
    then have "x \<in> (\<Union>s < S. bytes_of (chunk sz step r s))" using True by (intro UN_I) simp_all
    then have "x \<in> block sz r" unfolding chunks_cover [OF S] .
    then show ?thesis using inv(2) by (simp add: data_inv_def)
  next
    case False
    have "m < S * (n - 1)" using s(2) put_count_le [OF n(1), of S "recvd st r"] by simp
    then have "m div S < n - 1" using pos by (simp add: div_less_iff_less_mult mult.commute)
    then have lt: "m div S < n" by simp
    have "m - S < recvd st r" using s(2) False by (simp add: put_count_def)
    then have "m - S < arrived_puts st (left_of n r)" using inv(1) by (simp add: rank_inv_def)
    moreover have "x \<in> bytes_of (put_no n sz step S (left_of n r) (m - S))"
      using m(2) s(1) put_no_shift [OF pos n(2) _ lt, of sz step] False by simp
    ultimately show ?thesis using inv(2) by (simp add: data_inv_def)
  qed
qed

lemma do_iter_fields:
  assumes "ring_iter n sz step S r k c (queue st r) = (q, out)"
  shows "do_iter n sz step S r k c st = st\<lparr>queue := (queue st)(r := q), recvd := (recvd st)(r := recvd st r + k), sent := (sent st)(r := sent st r @ out)\<rparr>"
  by (simp add: do_iter_def assms)

lemma iter_step_inv:
  assumes S: "0 < S" and r: "r < n" and inv: "ring_inv n sz step S data st"
    and g: "phase st r = Looping" "recvd st r + k \<le> arrived_puts st (left_of n r)" "popped st r + c \<le> arrived_puts st r" "c \<le> iputReqs (queue st r)"
  shows "ring_inv n sz step S data (do_iter n sz step S r k c st)"
proof -
  obtain q out where it: "ring_iter n sz step S r k c (queue st r) = (q, out)" by (cases "ring_iter n sz step S r k c (queue st r)")
  let ?st = "do_iter n sz step S r k c st"
  note f = do_iter_fields [OF it]
  have ri: "rank_inv n sz step S st r" using inv r by (simp add: ring_inv_def)
  then have "queue_inv n sz step S r (recvd st r) (sent st r) (queue st r)" by (simp add: rank_inv_def)
  note q = iter_inv [OF S this it]
  have le: "iputReqs (queue st r) \<le> length (sent st r)" using ri by (simp add: rank_inv_def)
  then have p: "popped ?st r = popped st r + c" using q(3) g(4) by (simp add: popped_def f)
  have me: "rank_inv n sz step S ?st r"
    using q(1,3) p g le ri by (simp add: rank_inv_def f)
  have other: "rank_inv n sz step S ?st s" if "s < n" "s \<noteq> r" for s
    using inv that by (simp add: ring_inv_def rank_inv_def popped_def f)
  have "data_inv n sz step S data ?st s" if "s < n" for s
    using inv that by (simp add: ring_inv_def data_inv_def f)
  then show ?thesis using me other unfolding ring_inv_def by blast
qed

lemma arrive_step_inv:
  assumes n: "2 \<le> n" "r < n" and S: "0 < sz" "stepsPerBlock sz step = Some S" and inv: "ring_inv n sz step S data st"
    and g: "arrived_puts st r < length (sent st r)"
  shows "ring_inv n sz step S data (do_arrive n r st)"
proof -
  let ?st = "do_arrive n r st" let ?m = "arrived_puts st r"
  obtain lo len where p: "sent st r ! ?m = (lo, len)" by (cases "sent st r ! ?m")
  have f: "phase ?st = phase st" "queue ?st = queue st" "recvd ?st = recvd st" "sent ?st = sent st"
    "arrived_puts ?st = (arrived_puts st)(r := Suc ?m)"
    "buf ?st = (buf st)(right_of n r := (\<lambda>x. if x \<in> {lo..<lo + len} then buf st r x else buf st (right_of n r) x))"
    by (simp_all add: do_arrive_def p)
  have ri: "rank_inv n sz step S st r" "data_inv n sz step S data st r" using inv n(2) by (simp_all add: ring_inv_def)
  note ps = sent_put(1) [OF ri(1) g]
  have src: "buf st r x = data x" if "x \<in> {lo..<lo + len}" for x
    by (rule put_data [OF n S ri g]) (use that p in simp)
  have old: "buf ?st s x = data x" if "buf st s x = data x" for s x
    using that src by (cases "s = right_of n r") (simp_all add: f)
  have di: "data_inv n sz step S data ?st s" if s: "s < n" for s
  proof -
    have d: "data_inv n sz step S data st s" using inv s by (simp add: ring_inv_def)
    have "buf ?st s x = data x" if m: "m < arrived_puts ?st (left_of n s)" "x \<in> bytes_of (put_no n sz step S (left_of n s) m)" for m x
    proof (cases "left_of n s = r \<and> m = ?m")
      case True
      then have "s = right_of n r" using neighbours(4) [OF s] by simp
      moreover have "x \<in> {lo..<lo + len}" using m(2) True ps [symmetric] p by simp
      ultimately show ?thesis using src by (simp add: f)
    next
      case False
      then have "m < arrived_puts st (left_of n s)" using m(1) by (auto simp: f split: if_splits)
      then show ?thesis using d m(2) old by (simp add: data_inv_def)
    qed
    then show ?thesis using d old by (simp add: data_inv_def)
  qed
  have "rank_inv n sz step S ?st s" if "s < n" for s
  proof -
    have "rank_inv n sz step S st s" using inv that by (simp add: ring_inv_def)
    then show ?thesis using g by (auto simp: rank_inv_def popped_def f)
  qed
  then show ?thesis using di by (simp add: ring_inv_def)
qed

lemma ring_step_inv:
  assumes "ring_step n sz step S st st'" "2 \<le> n" "0 < sz" "stepsPerBlock sz step = Some S" "ring_inv n sz step S data st"
  shows "ring_inv n sz step S data st'"
  using assms
proof (induction rule: ring_step.induct)
  case (exchange r st)
  then show ?case by (simp add: ring_inv_def rank_inv_def data_inv_def popped_def)
next
  case (got_handle r st)
  then show ?case by (simp add: ring_inv_def rank_inv_def data_inv_def popped_def)
next
  case (iter r st k c)
  then show ?case using iter_step_inv [OF steps_pos] by blast
next
  case (leave r st)
  then show ?case by (simp add: ring_inv_def rank_inv_def data_inv_def popped_def)
next
  case (arrive r st)
  then show ?case using arrive_step_inv by blast
qed

lemma ring_start_inv: "ring_start n sz step S data st \<Longrightarrow> ring_inv n sz step S data st"
  by (auto simp: ring_start_def ring_inv_def rank_inv_def data_inv_def queue_inv_def ring_init_def popped_def put_count_def
      put_no_own neighbours(1))

section \<open>Progress\<close>

lemma rank_total:
  assumes "rank_inv n sz step S st r"
  shows "length (sent st r) + length (putQ (queue st r)) = put_count n S (recvd st r)"
proof -
  have "sent st r @ putQ (queue st r) = map (put_no n sz step S r) [0..<put_count n S (recvd st r)]"
    using assms by (simp add: rank_inv_def queue_inv_def)
  from arg_cong [OF this, of length] show ?thesis by simp
qed

lemma loop_over:
  assumes "2 \<le> n" "0 < S" "rank_inv n sz step S st r" "\<not> ring_loops n (queue st r)"
  shows "S * (n - 1) \<le> recvd st r" "length (sent st r) = S * (n - 1)"
proof -
  have q: "putQ (queue st r) = []" "n - 1 \<le> blockNum (queue st r)" using assms(4) by (auto simp: ring_loops_def)
  have "blockNum (queue st r) = recvd st r div S" using assms(3) by (simp add: rank_inv_def queue_inv_def)
  then have "n - 1 \<le> recvd st r div S" using q(2) by simp
  then have "(n - 1) * S \<le> recvd st r" unfolding less_eq_div_iff_mult_less_eq [OF assms(2)] .
  then show t: "S * (n - 1) \<le> recvd st r" by (simp add: mult.commute)
  have e: "S * (n - 1) = S + S * (n - 2)" using assms(1) by (metis Suc_1 Suc_diff_le diff_Suc_Suc mult_Suc_right numeral_2_eq_2)
  then have "S * (n - 2) \<le> recvd st r" using t by simp
  then show "length (sent st r) = S * (n - 1)" using rank_total [OF assms(3)] q(1) e by (simp add: put_count_def)
qed

lemma looping_moves:
  assumes inv: "rank_inv n sz step S st r" and r: "r < n" "phase st r = Looping"
    and stuck: "\<nexists>st'. ring_step n sz step S st st'" and all: "arrived_puts st r = length (sent st r)"
  shows "putQ (queue st r) = []" "recvd st r = arrived_puts st (left_of n r)" "ring_loops n (queue st r)" "blockNum (queue st r) < n - 1"
proof -
  show l: "ring_loops n (queue st r)" using ring_step.leave [OF r, of sz step S] stuck by blast
  have le: "recvd st r \<le> arrived_puts st (left_of n r)" "popped st r \<le> arrived_puts st r" "iputReqs (queue st r) \<le> length (sent st r)"
    using inv by (simp_all add: rank_inv_def)
  show p: "putQ (queue st r) = []"
  proof (rule ccontr)
    assume ne: "putQ (queue st r) \<noteq> []"
    have "ring_step n sz step S st (do_iter n sz step S r 0 0 st)" by (rule ring_step.iter [OF r l]) (use le ne in simp_all)
    then show False using stuck by blast
  qed
  have i: "iputReqs (queue st r) = 0"
  proof (rule ccontr)
    assume ne: "iputReqs (queue st r) \<noteq> 0"
    have "ring_step n sz step S st (do_iter n sz step S r 0 1 st)"
      by (rule ring_step.iter [OF r l]) (use le ne all in \<open>simp_all add: popped_def\<close>)
    then show False using stuck by blast
  qed
  show "recvd st r = arrived_puts st (left_of n r)"
  proof (rule ccontr)
    assume "recvd st r \<noteq> arrived_puts st (left_of n r)"
    then have "ring_step n sz step S st (do_iter n sz step S r 1 0 st)" by (intro ring_step.iter [OF r l]) (use le in simp_all)
    then show False using stuck by blast
  qed
  show "blockNum (queue st r) < n - 1" using l p i by (simp add: ring_loops_def)
qed

lemma ring_no_deadlock:
  assumes n: "2 \<le> n" and S: "0 < S" and inv: "ring_inv n sz step S data st" and unfinished: "\<exists>r < n. phase st r \<noteq> Finished"
  shows "\<exists>st'. ring_step n sz step S st st'"
proof (rule ccontr)
  assume stuck: "\<nexists>st'. ring_step n sz step S st st'"
  have ri: "rank_inv n sz step S st r" if "r < n" for r using inv that by (simp add: ring_inv_def)
  have no_setup: "phase st r \<noteq> Setup" if "r < n" for r using ring_step.exchange [OF that, of st sz step S] stuck by blast
  have no_wait: "phase st r \<noteq> WaitHandle" if "r < n" for r
    using ring_step.got_handle [OF that, of st sz step S] stuck no_setup [OF neighbours(2) [OF that]] by blast
  have ph: "phase st r = Looping \<or> phase st r = Finished" if "r < n" for r
    using no_setup [OF that] no_wait [OF that] by (cases "phase st r") auto
  have all: "arrived_puts st r = length (sent st r)" if "r < n" for r
    using ring_step.arrive [OF that, of st sz step S] stuck ri [OF that] by (fastforce simp: rank_inv_def)
  define L where "L = {r. r < n \<and> phase st r = Looping}"
  have "L \<noteq> {}" using unfinished ph by (auto simp: L_def)
  moreover have "finite L" by (simp add: L_def)
  ultimately obtain r where r: "r \<in> L" "\<forall>s \<in> L. recvd st r \<le> recvd st s"
    by (metis arg_min_if_finite(1) arg_min_least)
  then have rn: "r < n" "phase st r = Looping" by (simp_all add: L_def)
  let ?s = "left_of n r"
  note m = looping_moves [OF ri [OF rn(1)] rn stuck all [OF rn(1)]]
  have s: "?s < n" by (rule neighbours(1) [OF rn(1)])
  have t: "recvd st r < S * (n - 1)"
  proof -
    have "blockNum (queue st r) = recvd st r div S" using ri [OF rn(1)] by (simp add: rank_inv_def queue_inv_def)
    then show ?thesis using m(4) S by (simp add: div_less_iff_less_mult mult.commute)
  qed
  have rs: "recvd st r = length (sent st ?s)" using m(2) all [OF s] by simp
  show False
  proof (cases "phase st ?s = Finished")
    case True
    then have "\<not> ring_loops n (queue st ?s)" using ri [OF s] by (simp add: rank_inv_def)
    from loop_over(2) [OF n S ri [OF s] this] show False using rs t by simp
  next
    case False
    then have sl: "phase st ?s = Looping" using ph [OF s] by simp
    have "putQ (queue st ?s) = []" by (rule looping_moves(1) [OF ri [OF s] s sl stuck all [OF s]])
    then have c: "recvd st r = put_count n S (recvd st ?s)" using rank_total [OF ri [OF s]] rs by simp
    have e: "S * (n - 1) = S + S * (n - 2)" using n by (metis Suc_1 Suc_diff_le diff_Suc_Suc mult_Suc_right numeral_2_eq_2)
    then have "recvd st ?s < recvd st r" using c t S by (simp add: put_count_def min_def split: if_splits)
    moreover have "?s \<in> L" using s sl by (simp add: L_def)
    ultimately show False using r(2) by fastforce
  qed
qed

text \<open>Every step uses up one of finitely many.\<close>

primrec phase_left :: "phase \<Rightarrow> nat" where
  "phase_left Setup = 3" | "phase_left WaitHandle = 2" | "phase_left Looping = 1" | "phase_left Finished = 0"

definition rank_left :: "nat \<Rightarrow> nat \<Rightarrow> 'v ring_net \<Rightarrow> nat \<Rightarrow> nat" where
  "rank_left n S st r = phase_left (phase st r) + (S * (n - 1) - recvd st r) + (S * (n - 1) - length (sent st r)) +
     (S * (n - 1) - arrived_puts st r) + (S * (n - 1) - popped st r)"

definition ring_left :: "nat \<Rightarrow> nat \<Rightarrow> 'v ring_net \<Rightarrow> nat" where
  "ring_left n S st = (\<Sum>r < n. rank_left n S st r)"

lemma sent_le:
  assumes "2 \<le> n" "rank_inv n sz step S st r"
  shows "length (sent st r) \<le> S * (n - 1)"
  using rank_total [OF assms(2)] put_count_le [OF assms(1), of S "recvd st r"] by linarith

lemma ring_left_less:
  assumes "r < n" "rank_left n S st' r < rank_left n S st r" "\<And>s. s < n \<Longrightarrow> s \<noteq> r \<Longrightarrow> rank_left n S st' s = rank_left n S st s"
  shows "ring_left n S st' < ring_left n S st"
proof -
  have "\<forall>s \<in> {..<n}. rank_left n S st' s \<le> rank_left n S st s" using assms(2,3) by (metis lessThan_iff less_or_eq_imp_le order_refl)
  then show ?thesis unfolding ring_left_def using assms(1,2) by (intro sum_strict_mono_ex1) auto
qed

lemma ring_step_left:
  assumes "ring_step n sz step S st st'" "2 \<le> n" "0 < S" "ring_inv n sz step S data st"
  shows "ring_left n S st' < ring_left n S st"
  using assms
proof (induction rule: ring_step.induct)
  case (exchange r st)
  then show ?case by (intro ring_left_less [of r]) (auto simp: rank_left_def popped_def)
next
  case (got_handle r st)
  then show ?case by (intro ring_left_less [of r]) (auto simp: rank_left_def popped_def)
next
  case (leave r st)
  then show ?case by (intro ring_left_less [of r]) (auto simp: rank_left_def popped_def)
next
  case (arrive r st)
  then have "rank_inv n sz step S st r" by (simp add: ring_inv_def)
  then have "length (sent st r) \<le> S * (n - 1)" by (rule sent_le [OF arrive(3)])
  note le = this
  have f: "phase (do_arrive n r st) = phase st" "recvd (do_arrive n r st) = recvd st" "sent (do_arrive n r st) = sent st"
    "popped (do_arrive n r st) = popped st" "arrived_puts (do_arrive n r st) = (arrived_puts st)(r := Suc (arrived_puts st r))"
    by (auto simp: do_arrive_def popped_def fun_eq_iff split: prod.splits)
  have "rank_left n S (do_arrive n r st) r < rank_left n S st r"
    unfolding rank_left_def f using arrive(2) le by simp linarith
  moreover have "rank_left n S (do_arrive n r st) s = rank_left n S st s" if "s \<noteq> r" for s
    using that by (simp add: rank_left_def f)
  ultimately show ?case using ring_left_less [OF arrive(1)] by blast
next
  case (iter r st k c)
  obtain q out where it: "ring_iter n sz step S r k c (queue st r) = (q, out)" by (cases "ring_iter n sz step S r k c (queue st r)")
  let ?st = "do_iter n sz step S r k c st"
  note f = do_iter_fields [OF it]
  have inv: "ring_inv n sz step S data ?st"
    using iter_step_inv [OF iter(9,1,10,2,4,5,6)] .
  have ri: "rank_inv n sz step S st r" "rank_inv n sz step S ?st r" using iter(1,10) inv by (simp_all add: ring_inv_def)
  have b: "length (sent ?st r) \<le> S * (n - 1)" by (rule sent_le [OF iter(8) ri(2)])
  have "queue_inv n sz step S r (recvd st r) (sent st r) (queue st r)" using ri(1) by (simp add: rank_inv_def)
  note q = iter_inv [OF iter(9) this it]
  have le: "iputReqs (queue st r) \<le> length (sent st r)" using ri(1) by (simp add: rank_inv_def)
  then have p: "popped ?st r = popped st r + c" using q(3) iter(6) by (simp add: popped_def f)
  have pl: "popped ?st r \<le> length (sent ?st r)" by (simp add: popped_def)
  have tk: "recvd ?st r = recvd st r + k" "phase ?st = phase st" "arrived_puts ?st = arrived_puts st" by (simp_all add: f)
  have ls: "length (sent ?st r) = length (sent st r) + length out" by (simp add: f)
  have left: "recvd st r + k \<le> S * (n - 1)"
  proof -
    have s: "left_of n r < n" by (rule neighbours(1) [OF iter(1)])
    have rs: "rank_inv n sz step S st (left_of n r)" using iter(10) s by (simp add: ring_inv_def)
    have "recvd st r + k \<le> length (sent st (left_of n r))" using iter(4) rs by (simp add: rank_inv_def)
    then show ?thesis using sent_le [OF iter(8) rs] by simp
  qed
  have "0 < k \<or> 0 < c \<or> 0 < length out"
  proof (cases "putQ (queue st r) = []")
    case False
    have "length (sent st r) + length out = put_count n S (recvd st r + k)"
      using rank_total [OF ri(2)] q(2) ls tk(1) by (simp add: f)
    moreover have "length (sent st r) < put_count n S (recvd st r)" using rank_total [OF ri(1)] False by (metis length_greater_0_conv less_add_same_cancel1)
    moreover have "put_count n S (recvd st r) \<le> put_count n S (recvd st r + k)" by (auto simp: put_count_def)
    ultimately have "0 < length out" by linarith
    then show ?thesis by simp
  next
    case True
    then show ?thesis using iter(7) by blast
  qed
  moreover have "S * (n - 1) - (recvd st r + k) + k = S * (n - 1) - recvd st r" using left by simp
  moreover have "S * (n - 1) - (length (sent st r) + length out) + length out = S * (n - 1) - length (sent st r)" using b ls by simp
  moreover have "S * (n - 1) - (popped st r + c) + c = S * (n - 1) - popped st r" using pl b p by simp
  moreover have "ph + a' + b' + e + d' < ph + a + b + e + d"
    if "0 < k \<or> 0 < c \<or> 0 < l" "a' + k = a" "b' + l = b" "d' + c = d" for ph a a' b b' d d' e l :: nat
    using that by linarith
  ultimately have "rank_left n S ?st r < rank_left n S st r" unfolding rank_left_def tk p ls by blast
  moreover have "rank_left n S ?st s = rank_left n S st s" if "s \<noteq> r" for s
    using that by (simp add: rank_left_def popped_def f)
  ultimately show ?case using ring_left_less [OF iter(1)] by blast
qed

lemma ring_run_inv:
  assumes "ring_run n sz step S st0 m st" "2 \<le> n" "0 < sz" "stepsPerBlock sz step = Some S" "ring_start n sz step S data st0"
  shows "ring_inv n sz step S data st \<and> m + ring_left n S st \<le> ring_left n S st0"
  using assms
proof (induction rule: ring_run.induct)
  case start
  then show ?case using ring_start_inv by auto
next
  case (more m st st')
  have i: "ring_inv n sz step S data st" "m + ring_left n S st \<le> ring_left n S st0" using more by blast+
  show ?case using ring_step_inv [OF more(2,4,5,6) i(1)] ring_step_left [OF more(2,4) steps_pos [OF more(6)] i(1)] i(2) by simp
qed

lemma ring_finished:
  assumes "2 \<le> n" "0 < sz" "stepsPerBlock sz step = Some S" "ring_inv n sz step S data st" "\<forall>r < n. phase st r = Finished" "r < n" "x < n * sz"
  shows "buf st r x = data x"
proof -
  note S = steps_pos [OF assms(3)]
  have ri: "rank_inv n sz step S st r" "data_inv n sz step S data st r" using assms(4,6) by (simp_all add: ring_inv_def)
  have "\<not> ring_loops n (queue st r)" using ri(1) assms(5,6) by (simp add: rank_inv_def)
  then have le: "S * (n - 1) \<le> arrived_puts st (left_of n r)"
    using loop_over(1) [OF assms(1) S ri(1)] ri(1) by (simp add: rank_inv_def)
  from all_puts [OF assms(1,6,2,3,7)] show ?thesis
  proof
    assume "x \<in> block sz r"
    then show ?thesis using ri(2) by (simp add: data_inv_def)
  next
    assume "\<exists>m < S * (n - 1). x \<in> bytes_of (put_no n sz step S (left_of n r) m)"
    then obtain m where m: "m < S * (n - 1)" "x \<in> bytes_of (put_no n sz step S (left_of n r) m)" by (elim exE conjE) (rule that)
    have "m < arrived_puts st (left_of n r)" using m(1) le by simp
    then show ?thesis by (rule conjunct2 [OF ri(2) [unfolded data_inv_def], rule_format, OF _ m(2)])
  qed
qed

text \<open>C3: For two or more ranks and a positive step size, the ring all-gather cannot get stuck, every run has
  boundedly many steps (loop iterations that find nothing to do apart), and when all ranks have left their event loops every rank's
  buffer holds the block of every rank: whatever the order in which notifications and completions are found.\<close>

theorem ring_allgather:
  assumes "2 \<le> n" "0 < sz" "stepsPerBlock sz step = Some S" "ring_start n sz step S data st0"
  shows "\<exists>bound. \<forall>m st. ring_run n sz step S st0 m st \<longrightarrow> m \<le> bound \<and>
    ((\<exists>r < n. phase st r \<noteq> Finished) \<longrightarrow> (\<exists>st'. ring_step n sz step S st st')) \<and>
    ((\<forall>r < n. phase st r = Finished) \<longrightarrow> (\<forall>r < n. \<forall>x < n * sz. buf st r x = data x))"
proof (intro exI [of _ "ring_left n S st0"] allI impI conjI)
  fix m st assume "ring_run n sz step S st0 m st"
  note i = ring_run_inv [OF this assms]
  show "m \<le> ring_left n S st0" using i by simp
  show "\<exists>st'. ring_step n sz step S st st'" if "\<exists>r < n. phase st r \<noteq> Finished"
    using ring_no_deadlock [OF assms(1) steps_pos [OF assms(3)] _ that] i by blast
  show "buf st r x = data x" if "\<forall>r < n. phase st r = Finished" "r < n" "x < n * sz" for r x
    using ring_finished [OF assms(1-3) _ that] i by blast
qed

definition ring_example :: "nat ring_net" where
  "ring_example = \<lparr>phase = (\<lambda>_. Setup), queue = ring_init 5 2 3, recvd = (\<lambda>_. 0), sent = (\<lambda>_. []), arrived_puts = (\<lambda>_. 0), buf = (\<lambda>_ x. x)\<rparr>"

theorem ring_allgather_witness:
  "stepsPerBlock 5 (stepSize 4 2 5) = Some 3 \<and> (\<exists>st'. ring_step 4 5 2 3 ring_example st')"
proof
  show s: "stepsPerBlock 5 (stepSize 4 2 5) = Some 3" by (simp add: stepsPerBlock_def stepSize_def)
  have p: "2 \<le> (4 :: nat)" "0 < (5 :: nat)" "stepsPerBlock 5 2 = Some 3" "ring_start 4 5 2 3 (\<lambda>x. x) ring_example"
    using s by (simp_all add: stepSize_def ring_start_def ring_example_def)
  have "\<exists>r < 4. phase ring_example r \<noteq> Finished" by (intro exI [of _ 0]) (simp add: ring_example_def)
  then show "\<exists>st'. ring_step 4 5 2 3 ring_example st'" using ring_allgather [OF p] ring_run.start by blast
qed

text \<open>A size that is not a multiple of the number of splits is sent in one more step than that number.\<close>

lemma ring_uneven_split: "stepsPerBlock 65537 (stepSize 65536 2 65537) = Some 3" "stepsPerBlock 0 (stepSize 65536 2 0) = None"
  by (simp_all add: stepsPerBlock_def stepSize_def)

end
