(* ===== verification/Broadcast_Tree.thy ===== *)
theory Broadcast_Tree imports Ctran_Net begin

text \<open>
  Broadcast over a binomial tree, \<^verbatim>\<open>comms/ctran/algos/Broadcast/BroadcastBinomialTree.cc\<close>: \<^verbatim>\<open>impl\<close> is the list of mapper
  calls of a rank, \<^verbatim>\<open>setupPlan\<close> the kernel elements that are allocated before it runs.
\<close>

section \<open>The tree\<close>

definition floorPow2 :: "nat \<Rightarrow> nat" where
  "floorPow2 x = (if x = 0 then 0 else 2 ^ nat (log2i x))"

definition bc_dist :: "nat \<Rightarrow> nat \<Rightarrow> nat \<Rightarrow> nat" where
  "bc_dist n root rank = (rank + n - root) mod n"

definition bc_first_offset :: "nat \<Rightarrow> nat \<Rightarrow> nat \<Rightarrow> nat" where
  "bc_first_offset n root rank = (if rank = root then 1 else floorPow2 (bc_dist n root rank) * 2)"

text \<open>The loop over the ranks to send to, from the offset \<open>off\<close> on. The code never starts it with the offset 0.\<close>

function bc_sends :: "nat \<Rightarrow> nat \<Rightarrow> nat \<Rightarrow> nat \<Rightarrow> nat list" where
  "bc_sends n rank d off = (if off = 0 \<or> n \<le> d + off then [] else (rank + off) mod n # bc_sends n rank d (off * 2))"
  by pat_completeness auto
termination by (relation "measure (\<lambda>(n, rank, d, off). n - off)") auto

declare bc_sends.simps [simp del]

definition bc_children :: "nat \<Rightarrow> nat \<Rightarrow> nat \<Rightarrow> nat list" where
  "bc_children n root rank = bc_sends n rank (bc_dist n root rank) (bc_first_offset n root rank)"

definition bc_parent :: "nat \<Rightarrow> nat \<Rightarrow> nat \<Rightarrow> nat" where
  "bc_parent n root rank = (rank + n - floorPow2 (bc_dist n root rank)) mod n"

section \<open>The algorithm\<close>

datatype backend = UNSET | IB | NVL | SOCKET | TCPDM | NUM_BACKENDS

definition requiresRecvNotify :: "(nat \<Rightarrow> backend) \<Rightarrow> nat \<Rightarrow> bool" where
  "requiresRecvNotify getBackend rank \<longleftrightarrow> getBackend rank = NVL \<or> getBackend rank = TCPDM"

text \<open>
  What a rank's operation reads: whether it is for device memory, the backends of the other ranks (\<^verbatim>\<open>getBackend\<close>), the backend of the
  handle exchanged with a rank (\<^verbatim>\<open>queryPeerBackend\<close> for the parent, the key's for a child), the ranks with kernel elements in the two
  maps of the plan, and whether the buffer was registered for this operation. The mapper has an InfiniBand backend, so a handle is for NVLink or
  InfiniBand.
\<close>

record bc_env =
  isDevice :: bool
  peerBackend :: "nat \<Rightarrow> backend"
  handleBackend :: "nat \<Rightarrow> backend"
  putElems :: "nat list"
  waitElems :: "nat list"
  localReg :: bool

text \<open>A put or a wait goes over NVLink if the handle says so and \<^verbatim>\<open>impl\<close> found the kernel element; otherwise the mapper falls back to InfiniBand.\<close>

definition nvl_wait :: "bc_env \<Rightarrow> nat \<Rightarrow> bool" where
  "nvl_wait e parent \<longleftrightarrow> handleBackend e parent = NVL \<and> isDevice e \<and> requiresRecvNotify (peerBackend e) parent \<and> parent \<in> set (waitElems e)"

definition nvl_put :: "bc_env \<Rightarrow> nat \<Rightarrow> bool" where
  "nvl_put e peer \<longleftrightarrow> handleBackend e peer = NVL \<and> isDevice e \<and> peerBackend e peer = NVL \<and> peer \<in> set (putElems e)"

definition bc_init :: "bc_env \<Rightarrow> nat \<Rightarrow> call" where "bc_init e parent = (if nvl_wait e parent then InitElem parent else InitNotify parent)"

definition bc_wait :: "bc_env \<Rightarrow> nat \<Rightarrow> call" where "bc_wait e parent = (if nvl_wait e parent then WaitElem parent else WaitNotify parent)"

definition bc_put :: "bc_env \<Rightarrow> nat \<Rightarrow> nat \<Rightarrow> call" where "bc_put e sz peer = (if nvl_put e peer then PutElem peer 0 sz else Put peer 0 sz True)"

definition bc_impl :: "bc_env \<Rightarrow> nat \<Rightarrow> nat \<Rightarrow> nat \<Rightarrow> nat \<Rightarrow> call list" where
  "bc_impl e sz n root rank =
     (if n = 1 then []
      else let parent = bc_parent n root rank;
               isLeaf = (rank \<noteq> root \<and> n \<le> bc_dist n root rank + bc_first_offset n root rank);
               children = bc_children n root rank
           in [SearchRegHandle] @
              (if rank \<noteq> root then [SendCtrl parent, bc_init e parent] else []) @
              (if \<not> isLeaf then map RecvCtrl children else []) @
              (if rank \<noteq> root then [WaitSendCtrl parent, bc_wait e parent] else []) @
              (if \<not> isLeaf then concat (map (\<lambda>peer. [WaitCtrl peer, bc_put e sz peer]) children) @ map WaitPut children else []) @
              (if localReg e then [DeregDynamic] else []))"

lemma bc_call_neqs [simp]:
  "bc_init e p \<noteq> WaitCtrl s" "bc_init e p \<noteq> WaitNotify s" "bc_init e p \<noteq> WaitElem s" "bc_init e p \<noteq> SendCtrl s" "bc_init e p \<noteq> Put s lo len nt"
  "bc_init e p \<noteq> PutElem s lo len" "bc_wait e p \<noteq> WaitCtrl s" "bc_wait e p \<noteq> SendCtrl s" "bc_wait e p \<noteq> Put s lo len nt" "bc_wait e p \<noteq> PutElem s lo len"
  "bc_put e sz p \<noteq> WaitCtrl s" "bc_put e sz p \<noteq> WaitNotify s" "bc_put e sz p \<noteq> WaitElem s" "bc_put e sz p \<noteq> SendCtrl s"
  by (simp_all add: bc_init_def bc_wait_def bc_put_def)

lemma bc_call_eqs [simp]:
  "bc_wait e p = WaitNotify s \<longleftrightarrow> \<not> nvl_wait e p \<and> s = p" "bc_wait e p = WaitElem s \<longleftrightarrow> nvl_wait e p \<and> s = p"
  "bc_put e sz p = Put s lo len nt \<longleftrightarrow> \<not> nvl_put e p \<and> s = p \<and> lo = 0 \<and> len = sz \<and> nt"
  "bc_put e sz p = PutElem s lo len \<longleftrightarrow> nvl_put e p \<and> s = p \<and> lo = 0 \<and> len = sz"
  by (auto simp: bc_init_def bc_wait_def bc_put_def)

lemmas bc_call_neqs_sym [simp] = bc_call_neqs [THEN not_sym]

lemmas bc_call_eqs_sym [simp] = trans [OF eq_commute bc_call_eqs(1)] trans [OF eq_commute bc_call_eqs(2)] trans [OF eq_commute bc_call_eqs(3)]
  trans [OF eq_commute bc_call_eqs(4)]

section \<open>The plan\<close>

definition requiresPostRecvNotify :: "(nat \<Rightarrow> backend) \<Rightarrow> nat \<Rightarrow> bool" where
  "requiresPostRecvNotify getBackend rank \<longleftrightarrow> getBackend rank \<noteq> TCPDM"

text \<open>\<^verbatim>\<open>std::min(std::max(1, nGroups), maxBlocks)\<close>; the chunk size and the number of blocks are configured.\<close>

definition getNumGroups :: "nat \<Rightarrow> int \<Rightarrow> nat \<Rightarrow> int" where
  "getNumGroups chunk maxBlocks nbytes = min (max 1 (int (nbytes div chunk))) maxBlocks"

record plan =
  putNotifyList :: "nat list"
  waitNotifyList :: "nat list"
  putNotifyMap :: "nat list"
  waitNotifyMap :: "nat list"
  unpack_type :: bool
  numBlocks :: "int option"
  numThreads :: "nat option"

text \<open>
  An element is named by the rank it is for; the lists go to the kernel, the maps to \<^verbatim>\<open>impl\<close>. The numbers of blocks and
  threads are \<open>None\<close> when the plan leaves the default. \<open>recvPeer\<close> is what \<^verbatim>\<open>op->recv.peerRank\<close> reads: a field of another member of the
  union than the broadcast arguments that were stored.
\<close>

definition setupPlan :: "(nat \<Rightarrow> backend) \<Rightarrow> int \<Rightarrow> nat \<Rightarrow> int \<Rightarrow> nat \<Rightarrow> nat \<Rightarrow> nat \<Rightarrow> nat \<Rightarrow> nat \<Rightarrow> nat \<Rightarrow> plan" where
  "setupPlan getBackend nGroups threads unpackBlocks unpackThreads recvPeer sendSize n root rank =
     (if sendSize = 0 \<or> n = 1
      then \<lparr>putNotifyList = [], waitNotifyList = [], putNotifyMap = [], waitNotifyMap = [], unpack_type = False, numBlocks = None, numThreads = None\<rparr>
      else let recvFrom = bc_parent n root rank;
               hasTcpDmRecv = (rank \<noteq> root \<and> getBackend recvFrom = TCPDM);
               wait = (if rank \<noteq> root \<and> requiresRecvNotify getBackend recvPeer then [recvFrom] else []);
               puts = filter (\<lambda>p. getBackend p = NVL) (bc_children n root rank)
           in \<lparr>putNotifyList = puts,
               waitNotifyList = (if requiresPostRecvNotify getBackend recvPeer then wait else []),
               putNotifyMap = puts,
               waitNotifyMap = wait,
               unpack_type = hasTcpDmRecv,
               numBlocks = (if hasTcpDmRecv then Some unpackBlocks
                            else if puts \<noteq> [] then Some (max 1 nGroups) else None),
               numThreads = (if hasTcpDmRecv then Some unpackThreads else if puts \<noteq> [] then Some threads else None)\<rparr>)"

text \<open>The elements that \<^verbatim>\<open>impl\<close> looks up for a device buffer: each one it does not find is a warning.\<close>

definition bc_lookups :: "(nat \<Rightarrow> backend) \<Rightarrow> nat \<Rightarrow> nat \<Rightarrow> nat \<Rightarrow> nat list \<times> nat list" where
  "bc_lookups getBackend n root rank =
     (if n = 1 then ([], [])
      else (filter (\<lambda>p. getBackend p = NVL) (bc_children n root rank),
            if rank \<noteq> root \<and> requiresRecvNotify getBackend (bc_parent n root rank) then [bc_parent n root rank] else []))"

definition bc_warnings :: "(nat \<Rightarrow> backend) \<Rightarrow> plan \<Rightarrow> nat \<Rightarrow> nat \<Rightarrow> nat \<Rightarrow> nat list" where
  "bc_warnings getBackend pl n root rank =
     filter (\<lambda>p. p \<notin> set (putNotifyMap pl)) (fst (bc_lookups getBackend n root rank)) @
     filter (\<lambda>p. p \<notin> set (waitNotifyMap pl)) (snd (bc_lookups getBackend n root rank))"

section \<open>Distances\<close>

lemma bc_dist_less: "0 < n \<Longrightarrow> bc_dist n root r < n"
  by (simp add: bc_dist_def)

lemma bc_dist_0: "r < n \<Longrightarrow> root < n \<Longrightarrow> bc_dist n root r = 0 \<longleftrightarrow> r = root"
  by (auto simp: bc_dist_def mod_if split: if_splits)

lemma bc_dist_inj: "r < n \<Longrightarrow> s < n \<Longrightarrow> root < n \<Longrightarrow> bc_dist n root r = bc_dist n root s \<Longrightarrow> r = s"
  by (auto simp: bc_dist_def mod_if split: if_splits)

lemma bc_dist_add: "r < n \<Longrightarrow> root < n \<Longrightarrow> bc_dist n root r + off < n \<Longrightarrow> bc_dist n root ((r + off) mod n) = bc_dist n root r + off"
  by (auto simp: bc_dist_def mod_if split: if_splits)

lemma bc_dist_sub: "r < n \<Longrightarrow> root < n \<Longrightarrow> off \<le> bc_dist n root r \<Longrightarrow> bc_dist n root ((r + n - off) mod n) = bc_dist n root r - off"
  by (auto simp: bc_dist_def mod_if split: if_splits)

section \<open>Parents and children\<close>

lemma pow_interval_unique: "2 ^ a \<le> x \<Longrightarrow> x < 2 ^ Suc a \<Longrightarrow> 2 ^ b \<le> x \<Longrightarrow> x < 2 ^ Suc b \<Longrightarrow> a = b" for x :: nat
  by (metis le_less_trans less_Suc_eq_le linorder_neqE_nat not_less_eq power_less_imp_less_exp one_less_numeral_iff semiring_norm(76))

lemma floorPow2_bounds: "0 < x \<Longrightarrow> \<exists>l. floorPow2 x = 2 ^ l \<and> 2 ^ l \<le> x \<and> x < 2 ^ Suc l"
  using log2i_bounds [of x] by (auto simp: floorPow2_def)

lemma floorPow2_add: "d < 2 ^ m \<Longrightarrow> floorPow2 (d + 2 ^ m) = 2 ^ m"
proof -
  assume d: "d < 2 ^ m"
  obtain l where l: "floorPow2 (d + 2 ^ m) = 2 ^ l" "2 ^ l \<le> d + 2 ^ m" "d + 2 ^ m < 2 ^ Suc l"
    using floorPow2_bounds [of "d + 2 ^ m"] by auto
  have "l = m" by (rule pow_interval_unique [OF l(2,3)]) (use d in simp_all)
  then show ?thesis using l(1) by simp
qed

lemma first_offset:
  assumes "r < n" "root < n"
  shows "\<exists>m. bc_first_offset n root r = 2 ^ m \<and> bc_dist n root r < 2 ^ m \<and> (\<forall>l. bc_dist n root r < 2 ^ l \<longrightarrow> m \<le> l)"
proof (cases "r = root")
  case True
  then show ?thesis using bc_dist_0 [OF assms] by (intro exI [of _ 0]) (simp add: bc_first_offset_def)
next
  case False
  then have "0 < bc_dist n root r" using bc_dist_0 [OF assms] by simp
  then obtain l where l: "floorPow2 (bc_dist n root r) = 2 ^ l" "2 ^ l \<le> bc_dist n root r" "bc_dist n root r < 2 ^ Suc l"
    using floorPow2_bounds by blast
  have "Suc l \<le> l'" if "bc_dist n root r < 2 ^ l'" for l'
  proof -
    have "(2::nat) ^ l < 2 ^ l'" using l(2) that by (rule le_less_trans)
    then show ?thesis by simp
  qed
  then show ?thesis using l False by (intro exI [of _ "Suc l"]) (simp add: bc_first_offset_def)
qed

lemma sends_set: "0 < off \<Longrightarrow> set (bc_sends n r d off) = {(r + off * 2 ^ j) mod n |j. d + off * 2 ^ j < n}"
proof (induction n r d off rule: bc_sends.induct)
  case (1 n r d off)
  show ?case
  proof (cases "n \<le> d + off")
    case True
    have "off * 1 \<le> off * 2 ^ j" for j :: nat by (intro mult_left_mono) simp_all
    then have "n \<le> d + off * 2 ^ j" for j using True by (metis add_left_mono le_trans mult.right_neutral)
    then show ?thesis using True by (subst bc_sends.simps) (auto simp: not_less)
  next
    case False
    have IH: "set (bc_sends n r d (off * 2)) = {(r + off * 2 * 2 ^ j) mod n |j. d + off * 2 * 2 ^ j < n}"
      using 1 False by simp
    have "{(r + off * 2 ^ j) mod n |j. d + off * 2 ^ j < n} =
        insert ((r + off) mod n) {(r + off * 2 * 2 ^ j) mod n |j. d + off * 2 * 2 ^ j < n}" (is "?A = ?B")
    proof (intro set_eqI iffI)
      fix x assume "x \<in> ?A"
      then obtain j where j: "x = (r + off * 2 ^ j) mod n" "d + off * 2 ^ j < n" by blast
      show "x \<in> ?B"
      proof (cases j)
        case 0
        then show ?thesis using j by simp
      next
        case (Suc i)
        then have e: "off * 2 ^ j = off * 2 * 2 ^ i" by simp
        show ?thesis using j unfolding e by blast
      qed
    next
      fix x assume x: "x \<in> ?B"
      show "x \<in> ?A"
      proof (cases "x = (r + off) mod n")
        case True
        then show ?thesis using False by (intro CollectI exI [of _ 0]) simp
      next
        case other: False
        then obtain j where "x = (r + off * 2 * 2 ^ j) mod n" "d + off * 2 * 2 ^ j < n" using x by blast
        then show ?thesis by (intro CollectI exI [of _ "Suc j"]) (simp add: mult.assoc)
      qed
    qed
    then show ?thesis using IH False 1(2) by (subst bc_sends.simps) simp
  qed
qed

lemma bc_children_set:
  assumes "r < n" "root < n"
  shows "q \<in> set (bc_children n root r) \<longleftrightarrow> q < n \<and> q \<noteq> root \<and> bc_parent n root q = r"
proof -
  obtain m where m: "bc_first_offset n root r = 2 ^ m" "bc_dist n root r < 2 ^ m" "\<And>l. bc_dist n root r < 2 ^ l \<Longrightarrow> m \<le> l"
    using first_offset [OF assms] by blast
  let ?d = "bc_dist n root r"
  have set_eq: "set (bc_children n root r) = {(r + 2 ^ (m + j)) mod n |j. ?d + 2 ^ (m + j) < n}"
    using sends_set [of "2 ^ m" n r ?d] by (simp add: bc_children_def m(1) power_add)
  show ?thesis
  proof
    assume "q \<in> set (bc_children n root r)"
    then obtain j where j: "q = (r + 2 ^ (m + j)) mod n" "?d + 2 ^ (m + j) < n" unfolding set_eq by blast
    have dq: "bc_dist n root q = ?d + 2 ^ (m + j)" unfolding j(1) by (rule bc_dist_add [OF assms j(2)])
    have "(2::nat) ^ m \<le> 2 ^ (m + j)" by simp
    then have lt: "?d < 2 ^ (m + j)" using m(2) by linarith
    have q: "q < n" "q \<noteq> root" using j(1) assms(1) dq bc_dist_0 [OF assms(2,2)] by auto
    have "((x + y) mod n + n - y) mod n = x" if "x < n" "y < n" for x y :: nat
      using that by (auto simp: mod_if)
    moreover have "2 ^ (m + j) < n" using j(2) by linarith
    ultimately have "(q + n - 2 ^ (m + j)) mod n = r" unfolding j(1) using assms(1) by blast
    then show "q < n \<and> q \<noteq> root \<and> bc_parent n root q = r" using q by (simp add: bc_parent_def dq floorPow2_add [OF lt])
  next
    assume q: "q < n \<and> q \<noteq> root \<and> bc_parent n root q = r"
    let ?e = "bc_dist n root q"
    have "0 < ?e" using q bc_dist_0 [of q n root] assms(2) by simp
    then obtain l where l: "floorPow2 ?e = 2 ^ l" "2 ^ l \<le> ?e" "?e < 2 ^ Suc l" using floorPow2_bounds by blast
    have r: "r = (q + n - 2 ^ l) mod n" using q by (simp add: bc_parent_def l(1))
    have d: "?d = ?e - 2 ^ l" unfolding r by (rule bc_dist_sub) (use q assms l in auto)
    then have "?d < 2 ^ l" using l(2,3) by simp
    then have "m \<le> l" by (rule m(3))
    moreover have "?d + 2 ^ l < n" using d l(2) bc_dist_less [of n root q] assms(1) by simp
    moreover have "q = (r + 2 ^ l) mod n"
    proof -
      have "bc_dist n root ((r + 2 ^ l) mod n) = bc_dist n root q"
        using bc_dist_add [OF assms, of "2 ^ l"] d l(2) bc_dist_less [of n root q] assms(1) by simp
      from bc_dist_inj [OF _ _ assms(2) this] show ?thesis using q assms(1) by simp
    qed
    ultimately show "q \<in> set (bc_children n root r)" unfolding set_eq
      by (intro CollectI exI [of _ "l - m"]) simp
  qed
qed

lemma bc_parent_props:
  assumes "q < n" "root < n" "q \<noteq> root"
  shows "bc_parent n root q < n" "bc_dist n root (bc_parent n root q) < bc_dist n root q" "q \<in> set (bc_children n root (bc_parent n root q))"
proof -
  show p: "bc_parent n root q < n" using assms(1) by (simp add: bc_parent_def)
  have "0 < bc_dist n root q" using assms bc_dist_0 [OF assms(1,2)] by simp
  then obtain l where l: "floorPow2 (bc_dist n root q) = 2 ^ l" "2 ^ l \<le> bc_dist n root q" using floorPow2_bounds by blast
  have "bc_dist n root (bc_parent n root q) = bc_dist n root q - 2 ^ l"
    unfolding bc_parent_def l(1) by (rule bc_dist_sub [OF assms(1,2) l(2)])
  moreover have "(0::nat) < 2 ^ l" by simp
  ultimately show "bc_dist n root (bc_parent n root q) < bc_dist n root q" using \<open>0 < bc_dist n root q\<close> by linarith
  show "q \<in> set (bc_children n root (bc_parent n root q))" using bc_children_set [OF p assms(2)] assms(1,3) by simp
qed

lemma sends_distinct:
  assumes "0 < off" "r < n" "root < n" "d = bc_dist n root r"
  shows "distinct (bc_sends n r d off)"
  using assms
proof (induction n r d off rule: bc_sends.induct)
  case (1 n r d off)
  show ?case
  proof (cases "n \<le> d + off")
    case True
    then show ?thesis by (subst bc_sends.simps) simp
  next
    case False
    have "(r + off) mod n \<noteq> (r + off * 2 * 2 ^ j) mod n" if "d + off * 2 * 2 ^ j < n" for j
    proof
      assume e: "(r + off) mod n = (r + off * 2 * 2 ^ j) mod n"
      have "d + off = d + off * 2 * 2 ^ j"
        using arg_cong [OF e, of "bc_dist n root"] bc_dist_add [OF 1(3,4)] 1(5) that False by simp
      moreover have "off * 2 * 1 \<le> off * 2 * 2 ^ j" by (intro mult_left_mono) simp_all
      ultimately show False using 1(2) by linarith
    qed
    then have "(r + off) mod n \<notin> set (bc_sends n r d (off * 2))" using sends_set [of "off * 2" n r d] 1(2) by auto
    then show ?thesis using 1 False by (subst bc_sends.simps) simp
  qed
qed

lemma bc_children_distinct: "r < n \<Longrightarrow> root < n \<Longrightarrow> distinct (bc_children n root r)"
  unfolding bc_children_def using first_offset [of r n root] by (intro sends_distinct) auto

section \<open>The algorithm with times\<close>

definition bc_timed :: "(nat \<Rightarrow> bc_env) \<Rightarrow> nat \<Rightarrow> nat \<Rightarrow> nat \<Rightarrow> nat \<Rightarrow> (nat \<times> call) list" where
  "bc_timed env sz n root r =
     (if n = 1 then []
      else let parent = bc_parent n root r; children = bc_children n root r; t = bc_dist n root r;
               isLeaf = (r \<noteq> root \<and> n \<le> bc_dist n root r + bc_first_offset n root r)
           in stamp 0 ([SearchRegHandle] @ (if r \<noteq> root then [SendCtrl parent, bc_init (env r) parent] else []) @
                (if \<not> isLeaf then map RecvCtrl children else [])) @
              stamp (2 * t) (if r \<noteq> root then [WaitSendCtrl parent, bc_wait (env r) parent] else []) @
              stamp (2 * t + 1) ((if \<not> isLeaf then concat (map (\<lambda>peer. [WaitCtrl peer, bc_put (env r) sz peer]) children) @ map WaitPut children else []) @
                (if localReg (env r) then [DeregDynamic] else [])))"

lemma bc_timed_calls: "map snd (bc_timed env sz n root r) = bc_impl (env r) sz n root r"
  by (simp add: bc_timed_def bc_impl_def Let_def del: stamp_simps(5,6))

lemma bc_timed_sorted: "sorted (map fst (bc_timed env sz n root r))"
  by (auto simp: bc_timed_def Let_def sorted_append sorted_replicate simp del: stamp_simps(5,6))

text \<open>A leaf has no children, so the case distinction makes no difference.\<close>

lemma bc_leaf: "r \<noteq> root \<Longrightarrow> n \<le> bc_dist n root r + bc_first_offset n root r \<Longrightarrow> bc_children n root r = []"
  unfolding bc_children_def by (subst bc_sends.simps) simp

lemma bc_timed_set:
  assumes "n \<noteq> 1"
  shows "(t, WaitCtrl s) \<in> set (bc_timed env sz n root r) \<longleftrightarrow> t = 2 * bc_dist n root r + 1 \<and> s \<in> set (bc_children n root r)"
    and "(t, WaitNotify s) \<in> set (bc_timed env sz n root r) \<longleftrightarrow> t = 2 * bc_dist n root r \<and> r \<noteq> root \<and> s = bc_parent n root r \<and> \<not> nvl_wait (env r) s"
    and "(t, SendCtrl s) \<in> set (bc_timed env sz n root r) \<longleftrightarrow> t = 0 \<and> r \<noteq> root \<and> s = bc_parent n root r"
    and "(t, Put s lo len nt) \<in> set (bc_timed env sz n root r) \<longleftrightarrow>
      t = 2 * bc_dist n root r + 1 \<and> s \<in> set (bc_children n root r) \<and> lo = 0 \<and> len = sz \<and> nt \<and> \<not> nvl_put (env r) s"
    and "(t, WaitElem s) \<in> set (bc_timed env sz n root r) \<longleftrightarrow> t = 2 * bc_dist n root r \<and> r \<noteq> root \<and> s = bc_parent n root r \<and> nvl_wait (env r) s"
    and "(t, PutElem s lo len) \<in> set (bc_timed env sz n root r) \<longleftrightarrow>
      t = 2 * bc_dist n root r + 1 \<and> s \<in> set (bc_children n root r) \<and> lo = 0 \<and> len = sz \<and> nvl_put (env r) s"
  using assms bc_leaf [of r root n] by (auto simp: bc_timed_def Let_def stamp_mem simp del: stamp_simps)

lemma bc_once:
  assumes "distinct xs"
  shows "count_list (concat (map (\<lambda>peer. [WaitCtrl peer, bc_put e sz peer]) xs)) (WaitCtrl s) \<le> 1"
  using assms
proof (induction xs)
  case (Cons x xs)
  have "s \<notin> set xs \<Longrightarrow> count_list (concat (map (\<lambda>peer. [WaitCtrl peer, bc_put e sz peer]) xs)) (WaitCtrl s) = 0"
    by (rule count_notin) auto
  then show ?case using Cons by auto
qed simp

lemma bc_counts:
  assumes "r < n" "root < n"
  shows "count_list (bc_impl e sz n root r) (WaitCtrl s) \<le> 1" "count_list (bc_impl e sz n root r) (WaitNotify s) \<le> 1"
    "count_list (bc_impl e sz n root r) (WaitElem s) \<le> 1"
proof -
  note cs = bc_once [OF bc_children_distinct [OF assms], of e sz s]
  have z: "count_list (map RecvCtrl xs) c = 0" "count_list (map WaitPut xs) c = 0"
    if "c = WaitCtrl s \<or> c = WaitNotify s \<or> c = WaitElem s" for xs c by (rule count_notin, use that in auto)+
  have n: "count_list (concat (map (\<lambda>peer. [WaitCtrl peer, bc_put e sz peer]) xs)) c = 0" if "c = WaitNotify s \<or> c = WaitElem s" for xs c
    by (rule count_notin) (use that in auto)
  show "count_list (bc_impl e sz n root r) (WaitCtrl s) \<le> 1" using cs by (simp add: bc_impl_def Let_def z)
  show "count_list (bc_impl e sz n root r) (WaitNotify s) \<le> 1" "count_list (bc_impl e sz n root r) (WaitElem s) \<le> 1"
    by (simp_all add: bc_impl_def Let_def z n)
qed

section \<open>Correctness\<close>

abbreviation bc_own :: "nat \<Rightarrow> nat \<Rightarrow> nat \<Rightarrow> nat set" where
  "bc_own sz root r \<equiv> (if r = root then {..<sz} else {})"

abbreviation bc_calls :: "(nat \<Rightarrow> bc_env) \<Rightarrow> nat \<Rightarrow> nat \<Rightarrow> nat \<Rightarrow> nat \<Rightarrow> call list" where
  "bc_calls env sz n root \<equiv> (\<lambda>s. bc_impl (env s) sz n root s)"

text \<open>A rank and its parent agree on the way of the data.\<close>

definition bc_agree :: "(nat \<Rightarrow> bc_env) \<Rightarrow> nat \<Rightarrow> nat \<Rightarrow> nat \<Rightarrow> bool" where
  "bc_agree env n root r \<longleftrightarrow> nvl_wait (env r) (bc_parent n root r) = nvl_put (env (bc_parent n root r)) r"

lemma bc_link:
  assumes "r < n" "root < n" "n \<noteq> 1" "r \<noteq> root"
  defines "p \<equiv> bc_parent n root r"
  shows "\<not> nvl_put (env p) r \<Longrightarrow> \<exists>ps. puts_to r (bc_calls env sz n root p) = (0, sz, True) # ps"
    "nvl_put (env p) r \<Longrightarrow> \<exists>ps. elems_to r (bc_calls env sz n root p) = (0, sz) # ps"
    "nvl_put (env p) r \<Longrightarrow> puts_to r (bc_calls env sz n root p) = []" "\<not> nvl_put (env p) r \<Longrightarrow> elems_to r (bc_calls env sz n root p) = []"
proof -
  have pc: "r \<in> set (bc_children n root p)" using bc_parent_props(3) [OF assms(1,2,4)] by (simp add: p_def)
  note tm = bc_timed_set [OF assms(3), where env = env and sz = sz and root = root and r = p]
  have mem: "c \<in> set (bc_calls env sz n root p) \<longleftrightarrow> (\<exists>t. (t, c) \<in> set (bc_timed env sz n root p))" for c
    unfolding bc_timed_calls [symmetric] by force
  have P: "(lo, len, nt) \<in> set (puts_to r (bc_calls env sz n root p)) \<Longrightarrow> Put r lo len nt \<in> set (bc_calls env sz n root p)" for lo len nt
    using puts_to_nthD [of _ r "bc_calls env sz n root p" lo len nt] by (metis in_set_conv_decomp in_set_conv_nth)
  have E: "(lo, len) \<in> set (elems_to r (bc_calls env sz n root p)) \<Longrightarrow> PutElem r lo len \<in> set (bc_calls env sz n root p)" for lo len
    using elems_to_nthD [of _ r "bc_calls env sz n root p" lo len] by (metis in_set_conv_decomp in_set_conv_nth)
  show "puts_to r (bc_calls env sz n root p) = []" if "nvl_put (env p) r"
  proof -
    have "x \<notin> set (puts_to r (bc_calls env sz n root p))" for x using P [of "fst x" "fst (snd x)" "snd (snd x)"] that by (auto simp: mem tm)
    then show ?thesis by (metis list.set_intros(1) neq_Nil_conv)
  qed
  show "elems_to r (bc_calls env sz n root p) = []" if "\<not> nvl_put (env p) r"
  proof -
    have "x \<notin> set (elems_to r (bc_calls env sz n root p))" for x using E [of "fst x" "snd x"] that by (auto simp: mem tm)
    then show ?thesis by (metis list.set_intros(1) neq_Nil_conv)
  qed
  show "\<exists>ps. puts_to r (bc_calls env sz n root p) = (0, sz, True) # ps" if a: "\<not> nvl_put (env p) r"
  proof -
    have "Put r 0 sz True \<in> set (bc_calls env sz n root p)" using pc a by (auto simp: mem tm)
    then obtain us vs where "bc_calls env sz n root p = us @ Put r 0 sz True # vs" by (meson split_list)
    then have "puts_to r (bc_calls env sz n root p) \<noteq> []" by simp
    moreover have "x = (0, sz, True)" if "x \<in> set (puts_to r (bc_calls env sz n root p))" for x
      using P [of "fst x" "fst (snd x)" "snd (snd x)"] that by (cases x) (auto simp: mem tm)
    ultimately show ?thesis by (metis list.set_intros(1) neq_Nil_conv)
  qed
  show "\<exists>ps. elems_to r (bc_calls env sz n root p) = (0, sz) # ps" if a: "nvl_put (env p) r"
  proof -
    have "PutElem r 0 sz \<in> set (bc_calls env sz n root p)" using pc a by (auto simp: mem tm)
    then obtain us vs where "bc_calls env sz n root p = us @ PutElem r 0 sz # vs" by (meson split_list)
    then have "elems_to r (bc_calls env sz n root p) \<noteq> []" by simp
    moreover have "x = (0, sz)" if "x \<in> set (elems_to r (bc_calls env sz n root p))" for x
      using E [of "fst x" "snd x"] that by (cases x) (auto simp: mem tm)
    ultimately show ?thesis by (metis list.set_intros(1) neq_Nil_conv)
  qed
qed

text \<open>A rank that has been notified by its parent knows the data.\<close>

lemma bc_know:
  assumes "r < n" "root < n" "n \<noteq> 1" "r \<noteq> root \<Longrightarrow> bc_wait (env r) (bc_parent n root r) \<in> set us" "r \<noteq> root \<Longrightarrow> bc_agree env n root r"
  shows "{..<sz} \<subseteq> know n sp (bc_calls env sz n root) (bc_own sz root) r us"
proof (cases "r = root")
  case True
  then show ?thesis by (simp add: know_def)
next
  case False
  let ?p = "bc_parent n root r"
  note L = bc_link [OF assms(1-3) False]
  have p: "?p < n" by (rule bc_parent_props [OF assms(1,2) False])
  have "0 < count_list us (bc_wait (env r) ?p)" using assms(4) [OF False] by (metis count_list_0_iff gr0I)
  then obtain k where k: "count_list us (bc_wait (env r) ?p) = Suc k" by (cases "count_list us (bc_wait (env r) ?p)") auto
  show ?thesis
  proof (cases "nvl_put (env ?p) r")
    case True
    then obtain ps where "elems_to r (bc_calls env sz n root ?p) = (0, sz) # ps" using L(2) by blast
    then have "{..<sz} \<subseteq> kspan (take (count_list us (WaitElem ?p)) (elems_to r (bc_calls env sz n root ?p)))"
      using k True assms(5) [OF False] by (auto simp: bc_wait_def bc_agree_def)
    then show ?thesis using p unfolding know_def by blast
  next
    case nv: False
    then obtain ps where "puts_to r (bc_calls env sz n root ?p) = (0, sz, True) # ps" using L(1) by blast
    then have "{..<sz} \<subseteq> arrived (sp ?p r) (puts_to r (bc_calls env sz n root ?p)) (count_list us (WaitNotify ?p))"
      using k nv assms(5) [OF False] by (auto simp: bc_wait_def bc_agree_def)
    then show ?thesis using p unfolding know_def by blast
  qed
qed

lemma bc_before:
  assumes "r \<noteq> root" "n \<noteq> 1" "bc_timed env sz n root r = us @ (2 * bc_dist n root r + 1, c) # vs"
  shows "bc_wait (env r) (bc_parent n root r) \<in> set (map snd us)"
proof -
  have "(2 * bc_dist n root r, bc_wait (env r) (bc_parent n root r)) \<in> set (bc_timed env sz n root r)"
    using assms(1,2) by (auto simp: bc_timed_def Let_def stamp_mem simp del: stamp_simps)
  from earlier_in_prefix [OF _ this [unfolded assms(3)]] bc_timed_sorted [of env sz n root r, unfolded assms(3)] show ?thesis by force
qed

definition bc_ok :: "(nat \<Rightarrow> bc_env) \<Rightarrow> nat \<Rightarrow> nat \<Rightarrow> bool" where
  "bc_ok env n root \<longleftrightarrow> (\<forall>r < n. r \<noteq> root \<longrightarrow> bc_agree env n root r)"

lemma bc_timed_net:
  assumes root: "root < n" and ok: "bc_ok env n root"
  shows "timed_net n sp (bc_timed env sz n root) (bc_own sz root) {..<sz}"
proof (unfold_locales, unfold bc_timed_calls)
  fix r :: nat
  assume r: "r < n"
  show "sorted (map fst (bc_timed env sz n root r))" by (rule bc_timed_sorted)
  show "{..<sz} \<subseteq> know n sp (bc_calls env sz n root) (bc_own sz root) r (bc_calls env sz n root r)"
  proof (cases "n = 1")
    case True
    then show ?thesis using r root by (simp add: know_def)
  next
    case False
    have "bc_wait (env r) (bc_parent n root r) \<in> set (bc_calls env sz n root r)" if "r \<noteq> root"
      using that False by (simp add: bc_impl_def Let_def)
    then show ?thesis using bc_know [OF r root False, of env "bc_calls env sz n root r" sz sp] ok r by (simp add: bc_ok_def)
  qed
next
  fix r :: nat and us t s vs
  assume r: "r < n" and sp: "bc_timed env sz n root r = us @ (t, WaitCtrl s) # vs"
  then have n: "n \<noteq> 1" by (auto simp: bc_timed_def)
  have "(t, WaitCtrl s) \<in> set (bc_timed env sz n root r)" using sp by simp
  then have s: "t = 2 * bc_dist n root r + 1" "s < n" "s \<noteq> root" "bc_parent n root s = r"
    using bc_timed_set(1) [OF n] bc_children_set [OF r root] by auto
  have "(0, SendCtrl r) \<in> set (bc_timed env sz n root s)" using bc_timed_set(3) [OF n] s by simp
  then obtain us' vs' where "bc_timed env sz n root s = us' @ (0, SendCtrl r) # vs'" by (meson split_list)
  moreover have "count_list (map snd us) (WaitCtrl s) = 0"
    using unique_count [OF _ sp] bc_counts(1) [OF r root] by (simp add: bc_timed_calls)
  ultimately show "s < n \<and> (\<exists>us' t' vs'. bc_timed env sz n root s = us' @ (t', SendCtrl r) # vs' \<and> t' < t \<and>
      count_list (map snd us) (WaitCtrl s) \<le> count_list (map snd us') (SendCtrl r))"
    using s(1,2) by auto
next
  fix r :: nat and us t s vs
  assume r: "r < n" and sp: "bc_timed env sz n root r = us @ (t, WaitNotify s) # vs"
  then have n: "n \<noteq> 1" by (auto simp: bc_timed_def)
  have "(t, WaitNotify s) \<in> set (bc_timed env sz n root r)" using sp by simp
  then have s: "t = 2 * bc_dist n root r" "r \<noteq> root" "s = bc_parent n root r" "\<not> nvl_put (env s) r"
    using bc_timed_set(2) [OF n] ok r by (auto simp: bc_ok_def bc_agree_def)
  note p = bc_parent_props [OF r root s(2), folded s(3)]
  have "(2 * bc_dist n root s + 1, Put r 0 sz True) \<in> set (bc_timed env sz n root s)" using bc_timed_set(4) [OF n] p(3) s(4) by simp
  then obtain us' vs' where "bc_timed env sz n root s = us' @ (2 * bc_dist n root s + 1, Put r 0 sz True) # vs'" by (meson split_list)
  moreover have "2 * bc_dist n root s + 1 < t" using p(2) s(1) by simp
  moreover have "count_list (map snd us) (WaitNotify s) \<le> notices (puts_to r (map snd us'))"
    using unique_count [OF _ sp] bc_counts(2) [OF r root] by (simp add: bc_timed_calls)
  ultimately show "s < n \<and> (\<exists>us' t' lo len vs'. bc_timed env sz n root s = us' @ (t', Put r lo len True) # vs' \<and> t' < t \<and>
      count_list (map snd us) (WaitNotify s) \<le> notices (puts_to r (map snd us')))"
    using p(1) by blast
next
  fix r :: nat and us t s vs
  assume r: "r < n" and sp: "bc_timed env sz n root r = us @ (t, WaitElem s) # vs"
  then have n: "n \<noteq> 1" by (auto simp: bc_timed_def)
  have "(t, WaitElem s) \<in> set (bc_timed env sz n root r)" using sp by simp
  then have s: "t = 2 * bc_dist n root r" "r \<noteq> root" "s = bc_parent n root r" "nvl_put (env s) r"
    using bc_timed_set(5) [OF n] ok r by (auto simp: bc_ok_def bc_agree_def)
  note p = bc_parent_props [OF r root s(2), folded s(3)]
  have "(2 * bc_dist n root s + 1, PutElem r 0 sz) \<in> set (bc_timed env sz n root s)" using bc_timed_set(6) [OF n] p(3) s(4) by simp
  then obtain us' vs' where "bc_timed env sz n root s = us' @ (2 * bc_dist n root s + 1, PutElem r 0 sz) # vs'" by (meson split_list)
  moreover have "2 * bc_dist n root s + 1 < t" using p(2) s(1) by simp
  moreover have "count_list (map snd us) (WaitElem s) \<le> length (elems_to r (map snd us'))"
    using unique_count [OF _ sp] bc_counts(3) [OF r root] by (simp add: bc_timed_calls)
  ultimately show "s < n \<and> (\<exists>us' t' lo len vs'. bc_timed env sz n root s = us' @ (t', PutElem r lo len) # vs' \<and> t' < t \<and>
      count_list (map snd us) (WaitElem s) \<le> length (elems_to r (map snd us')))"
    using p(1) by blast
next
  fix r :: nat and us t s lo len nt vs
  assume r: "r < n" and sp: "bc_timed env sz n root r = us @ (t, Put s lo len nt) # vs"
  then have n: "n \<noteq> 1" by (auto simp: bc_timed_def)
  have "(t, Put s lo len nt) \<in> set (bc_timed env sz n root r)" using sp by simp
  then have s: "t = 2 * bc_dist n root r + 1" "s \<in> set (bc_children n root r)" "lo = 0" "len = sz" using bc_timed_set(4) [OF n] by auto
  have "r \<noteq> root \<Longrightarrow> bc_agree env n root r" using ok r by (simp add: bc_ok_def)
  from bc_know [OF r root n bc_before [OF _ n sp [unfolded s(1)]] this, of sz]
  show "s < n \<and> {lo..<lo + len} \<subseteq> know n sp (bc_calls env sz n root) (bc_own sz root) r (map snd us)"
    using bc_children_set [OF r root] s(2) unfolding s(3,4) atLeast0LessThan add_0 by blast
next
  fix r :: nat and us t s lo len vs
  assume r: "r < n" and sp: "bc_timed env sz n root r = us @ (t, PutElem s lo len) # vs"
  then have n: "n \<noteq> 1" by (auto simp: bc_timed_def)
  have "(t, PutElem s lo len) \<in> set (bc_timed env sz n root r)" using sp by simp
  then have s: "t = 2 * bc_dist n root r + 1" "s \<in> set (bc_children n root r)" "lo = 0" "len = sz" using bc_timed_set(6) [OF n] by auto
  have "r \<noteq> root \<Longrightarrow> bc_agree env n root r" using ok r by (simp add: bc_ok_def)
  from bc_know [OF r root n bc_before [OF _ n sp [unfolded s(1)]] this, of sz]
  show "s < n \<and> {lo..<lo + len} \<subseteq> know n sp (bc_calls env sz n root) (bc_own sz root) r (map snd us)"
    using bc_children_set [OF r root] s(2) unfolding s(3,4) atLeast0LessThan add_0 by blast
qed

text \<open>Operations on host memory agree: nobody looks for kernel elements.\<close>

definition host_env :: "(nat \<Rightarrow> backend) \<Rightarrow> (nat \<Rightarrow> backend) \<Rightarrow> bool \<Rightarrow> bc_env" where
  "host_env gb hb reg = \<lparr>isDevice = False, peerBackend = gb, handleBackend = hb, putElems = [], waitElems = [], localReg = reg\<rparr>"

lemma host_ok: "bc_ok (\<lambda>r. host_env (gb r) (hb r) (reg r)) n root"
  by (simp add: bc_ok_def bc_agree_def nvl_wait_def nvl_put_def host_env_def)

interpretation bc: timed_net "Suc (root + d)" sp "bc_timed (\<lambda>r. host_env (gb r) (hb r) (reg r)) sz (Suc (root + d)) root" "bc_own sz root" "{..<sz}"
  for root d sp gb hb reg sz
  by (rule bc_timed_net [OF _ host_ok]) simp

text \<open>C4: For any number of ranks and any root, if every rank agrees with its parent on the way of the data (both have a kernel element
  and an NVLink handle, or both fall back to InfiniBand), the binomial-tree broadcast cannot get stuck, every run has boundedly many
  steps, and when all ranks have finished every rank's buffer holds the root's data: in both modes of the connections.\<close>

theorem bc_broadcast:
  assumes "root < n" "bc_ok env n root" "net_start n (\<lambda>r. if r = root then {..<sz} else {}) data st0"
  shows "\<exists>bound. \<forall>m st. net_run n sp (\<lambda>r. bc_impl (env r) sz n root r) st0 m st \<longrightarrow> m \<le> bound \<and>
    (\<not> finished n (\<lambda>r. bc_impl (env r) sz n root r) st \<longrightarrow> (\<exists>st'. net_step n sp (\<lambda>r. bc_impl (env r) sz n root r) st st')) \<and>
    (finished n (\<lambda>r. bc_impl (env r) sz n root r) st \<longrightarrow> (\<forall>r < n. \<forall>x < sz. mem st r x = data x))"
proof -
  note net = bc_timed_net [OF assms(1,2), of sp sz]
  show ?thesis using timed_net.net_correct [OF net assms(3), unfolded bc_timed_calls]
    by (intro exI [of _ "timed_net.left n (bc_timed env sz n root) st0"]) blast
qed

text \<open>The witness: four ranks, of which 0 and 1 and also 2 and 3 share a node with NVLink.\<close>

definition ex_env :: "nat \<Rightarrow> bc_env" where
  "ex_env r = (let nv = (\<lambda>p. if p div 2 = r div 2 then NVL else IB)
     in \<lparr>isDevice = True, peerBackend = nv, handleBackend = nv, putElems = [r + 1], waitElems = [r - 1], localReg = False\<rparr>)"

theorem bc_broadcast_witness:
  "nvl_put (ex_env 0) 1 \<and> (\<exists>st'. net_step 4 (\<lambda>s r. False) (\<lambda>r. bc_impl (ex_env r) 7 4 0 r) (net_init (\<lambda>r x. if r = 0 then x else 0)) st')"
proof -
  let ?st = "net_init (\<lambda>r x. if r = 0 then x else 0) :: nat net"
  have s: "net_start 4 (\<lambda>r. if r = 0 then {..<7} else {}) (\<lambda>x. x) ?st" by (simp add: net_start_def net_init_def)
  have "bc_agree ex_env 4 0 1 \<and> bc_agree ex_env 4 0 2 \<and> bc_agree ex_env 4 0 3"
    by (simp add: bc_agree_def nvl_wait_def nvl_put_def ex_env_def bc_parent_def bc_dist_def floorPow2_def log2i.simps requiresRecvNotify_def Let_def)
  moreover have "r = 0 \<or> r = 1 \<or> r = 2 \<or> r = 3" if "r < 4" for r :: nat using that by linarith
  ultimately have ok: "bc_ok ex_env 4 0" unfolding bc_ok_def by metis
  have z: "0 < (4 :: nat)" by simp
  from bc_broadcast [OF z ok s, of "\<lambda>s r. False"]
  have "\<not> finished 4 (\<lambda>r. bc_impl (ex_env r) 7 4 0 r) ?st \<longrightarrow> (\<exists>st'. net_step 4 (\<lambda>s r. False) (\<lambda>r. bc_impl (ex_env r) 7 4 0 r) ?st st')"
    using net_run.start by blast
  moreover have "\<not> finished 4 (\<lambda>r. bc_impl (ex_env r) 7 4 0 r) ?st"
    by (auto simp: finished_def net_init_def bc_impl_def Let_def intro!: exI [of _ 0])
  ultimately show ?thesis by (simp add: nvl_put_def ex_env_def Let_def)
qed

section \<open>The plan and the algorithm\<close>

text \<open>What an operation on device memory finds after \<^verbatim>\<open>setupPlan\<close>; \<open>rp\<close> is the rank that the plan asks about in the place of the parent.\<close>

definition plan_env ::
  "(nat \<Rightarrow> backend) \<Rightarrow> (nat \<Rightarrow> backend) \<Rightarrow> int \<Rightarrow> nat \<Rightarrow> int \<Rightarrow> nat \<Rightarrow> nat \<Rightarrow> bool \<Rightarrow> nat \<Rightarrow> nat \<Rightarrow> nat \<Rightarrow> nat \<Rightarrow> bc_env" where
  "plan_env gb hb nGroups threads unpackBlocks unpackThreads rp reg sz n root r =
     (let pl = setupPlan gb nGroups threads unpackBlocks unpackThreads rp sz n root r
      in \<lparr>isDevice = True, peerBackend = gb, handleBackend = hb, putElems = putNotifyMap pl, waitElems = waitNotifyMap pl, localReg = reg\<rparr>)"

text \<open>Between two ranks with NVLink, parent and child agree exactly if the rank that the plan asks about needs a receive notification.\<close>

lemma plan_agree:
  fixes env :: "nat \<Rightarrow> bc_env"
  assumes "r < n" "root < n" "r \<noteq> root" "n \<noteq> 1" "sz \<noteq> 0"
    and "\<And>q. env q = plan_env (gb q) (hb q) g t ub ut (rp q) (reg q) sz n root q"
    and "gb r (bc_parent n root r) = NVL" "hb r (bc_parent n root r) = NVL" "gb (bc_parent n root r) r = NVL" "hb (bc_parent n root r) r = NVL"
  shows "bc_agree env n root r \<longleftrightarrow> requiresRecvNotify (gb r) (rp r)"
proof -
  have "r \<in> set (bc_children n root (bc_parent n root r))" by (rule bc_parent_props(3) [OF assms(1,2,3)])
  then show ?thesis using assms(3-5,7-10)
    by (auto simp: bc_agree_def nvl_wait_def nvl_put_def assms(6) plan_env_def setupPlan_def Let_def requiresRecvNotify_def)
qed

text \<open>A rank that does not agree with its parent waits for ever.\<close>

lemma bc_mismatch:
  assumes "root < n" "r < n" "r \<noteq> root" "n \<noteq> 1" "\<not> bc_agree env n root r"
    and "net_start n own data st0" "net_run n sp (\<lambda>r. bc_impl (env r) sz n root r) st0 m st"
  shows "bc_wait (env r) (bc_parent n root r) \<notin> set (take (pc st r) (bc_impl (env r) sz n root r)) \<and>
    \<not> finished n (\<lambda>r. bc_impl (env r) sz n root r) st"
proof -
  let ?p = "bc_parent n root r" let ?c = "bc_wait (env r) ?p"
  note L = bc_link(3,4) [OF assms(2,1,4,3), of env sz]
  have "?c = WaitNotify ?p \<and> puts_to r (bc_calls env sz n root ?p) = [] \<or> ?c = WaitElem ?p \<and> elems_to r (bc_calls env sz n root ?p) = []"
    using L assms(5) by (cases "nvl_wait (env r) ?p") (simp_all add: bc_wait_def bc_agree_def)
  from never_passes [OF assms(7) _ _ this] have n: "?c \<notin> set (take (pc st r) (bc_impl (env r) sz n root r))"
    using assms(6) by (simp add: net_start_def)
  moreover have "?c \<in> set (bc_impl (env r) sz n root r)" using assms(3,4) by (simp add: bc_impl_def Let_def)
  ultimately show ?thesis using assms(2) unfolding finished_def by auto
qed

text \<open>C5: A broadcast of device memory hangs when a rank has its parent on the same node but the rank that the plan asks about in the
  place of the parent needs no receive notification: the parent puts over NVLink, the rank waits for a notification over InfiniBand, and
  no run ever gets it past that wait.\<close>

theorem bc_plan_hang:
  fixes env :: "nat \<Rightarrow> bc_env"
  assumes "root < n" "r < n" "r \<noteq> root" "n \<noteq> 1" "sz \<noteq> 0"
    and "\<And>q. env q = plan_env (gb q) (hb q) g t ub ut (rp q) (reg q) sz n root q"
    and "gb r (bc_parent n root r) = NVL" "hb r (bc_parent n root r) = NVL" "gb (bc_parent n root r) r = NVL" "hb (bc_parent n root r) r = NVL"
    and "\<not> requiresRecvNotify (gb r) (rp r)"
    and "net_start n own data st0" "net_run n sp (\<lambda>r. bc_impl (env r) sz n root r) st0 m st"
  shows "WaitNotify (bc_parent n root r) \<in> set (bc_impl (env r) sz n root r) \<and>
    WaitNotify (bc_parent n root r) \<notin> set (take (pc st r) (bc_impl (env r) sz n root r)) \<and> \<not> finished n (\<lambda>r. bc_impl (env r) sz n root r) st"
proof -
  have a: "\<not> bc_agree env n root r" using plan_agree [OF assms(2,1,3-10)] assms(11) by simp
  have "\<not> nvl_wait (env r) (bc_parent n root r)"
    using assms(3-5,11) by (simp add: nvl_wait_def assms(6) plan_env_def setupPlan_def Let_def)
  then have w: "bc_wait (env r) (bc_parent n root r) = WaitNotify (bc_parent n root r)" by (simp add: bc_wait_def)
  have "bc_wait (env r) (bc_parent n root r) \<in> set (bc_impl (env r) sz n root r)" using assms(3,4) by (simp add: bc_impl_def Let_def)
  then show ?thesis using bc_mismatch [OF assms(1-4) a assms(12,13)] unfolding w by blast
qed

text \<open>The witness: four ranks on two nodes with root 2; rank 3 has its parent 2 on its node, and the plan asks about rank 0.\<close>

definition hang_env :: "nat \<Rightarrow> bc_env" where
  "hang_env r = plan_env (\<lambda>p. if p div 2 = r div 2 then NVL else IB) (\<lambda>p. if p div 2 = r div 2 then NVL else IB) 1 640 1 32 0 False 7 4 2 r"

theorem bc_plan_hang_witness:
  "WaitNotify 2 \<in> set (bc_impl (hang_env 3) 7 4 2 3) \<and> \<not> finished 4 (\<lambda>r. bc_impl (hang_env r) 7 4 2 r) (net_init (\<lambda>r x. x))"
proof -
  have p: "bc_parent 4 2 3 = 2" by (simp add: bc_parent_def bc_dist_def floorPow2_def log2i.simps)
  have s: "net_start 4 (\<lambda>r. {}) (\<lambda>x. x) (net_init (\<lambda>r x. x))" by (simp add: net_start_def net_init_def)
  show ?thesis
    using bc_plan_hang [where sp = "\<lambda>s r. False" and root = 2 and r = 3, OF _ _ _ _ _ hang_env_def _ _ _ _ _ s net_run.start] by (simp add: p requiresRecvNotify_def)
qed

text \<open>The plan has every kernel element that the algorithm looks up, except when the rank's parent needs a receive
  notification and the rank that the plan asks about instead of the parent does not: then the element of the parent
  is missing. So nothing is missing whenever both ranks need the same.\<close>

theorem bc_plan_warnings:
  assumes "sz \<noteq> 0" "n \<noteq> 1"
  shows "bc_warnings gb (setupPlan gb nGroups threads unpackBlocks unpackThreads recvPeer sz n root r) n root r =
    (if r \<noteq> root \<and> requiresRecvNotify gb (bc_parent n root r) \<and> \<not> requiresRecvNotify gb recvPeer then [bc_parent n root r] else [])"
  using assms by (simp add: bc_warnings_def setupPlan_def bc_lookups_def Let_def)

theorem bc_plan_warnings_witness:
  "bc_warnings (\<lambda>r. if r < 2 then IB else NVL)
     (setupPlan (\<lambda>r. if r < 2 then IB else NVL) 4 640 1 32 0 1024 4 2 3) 4 2 3 = [2]"
  using bc_plan_warnings [of 1024 4 "\<lambda>r. if r < 2 then IB else NVL" 4 640 1 32 0 2 3]
  by (simp add: bc_parent_def bc_dist_def floorPow2_def log2i.simps requiresRecvNotify_def)

text \<open>Eight ranks with root 0: rank 2 receives from 0 and rank 3 from 1.\<close>

lemma bc_eight_ranks:
  "map (bc_parent 8 0) [1, 2, 3, 4, 5, 6, 7] = [0, 0, 1, 0, 1, 2, 3]"
  "map (bc_children 8 0) [0, 1, 2, 3] = [[1, 2, 4], [3, 5], [6], [7]]"
  by (simp_all add: bc_parent_def bc_dist_def floorPow2_def log2i.simps bc_children_def bc_first_offset_def bc_sends.simps)

end
