(* ===== verification/Reg_Cache.thy ===== *)
theory Reg_Cache imports Addr_Cache begin

text \<open>
  The registration cache of the mapper, \<^verbatim>\<open>comms/ctran/mapper/CtranMapperRegMem.cc\<close>: memory segments that users announced,
  in an index of address ranges, and the registrations made over them. Each public method takes the locks it needs, so it
  is one step. The CUDA driver and the backends are arguments; the addresses of new objects are arguments. \<open>None\<close> is an
  abort, undefined behaviour, or a loop that does not end.
\<close>

section \<open>Segments and registrations\<close>

datatype DevMemType = kCudaMalloc | kManaged | kHostPinned | kHostUnregistered | kCumem

record seg_range =
  sr_buf :: u64
  sr_len :: u64
  sr_type :: DevMemType

record segment =
  s_range :: seg_range
  s_dev :: int
  s_ncclManaged :: bool
  s_refCount :: int
  s_avlHdl :: ptr

datatype reg_state = REGISTERED | DEREGISTERED

record reg_elem =
  e_buf :: u64
  e_len :: u64
  e_dev :: int
  e_dynamic :: bool
  e_hits :: nat
  e_segments :: "ptr list"
  e_type :: DevMemType
  e_state :: reg_state
  e_nvl :: "ptr option"
  e_ib :: "ptr option"
  e_tcp :: "ptr option"

definition new_elem :: "u64 \<Rightarrow> u64 \<Rightarrow> int \<Rightarrow> bool \<Rightarrow> ptr list \<Rightarrow> DevMemType \<Rightarrow> reg_elem" where
  "new_elem buf sz dev dyn segs ty = \<lparr>e_buf = buf, e_len = sz, e_dev = dev, e_dynamic = dyn, e_hits = 0, e_segments = segs,
     e_type = ty, e_state = REGISTERED, e_nvl = None, e_ib = None, e_tcp = None\<rparr>"

record profile =
  cur_cache :: int
  cur_reg :: int
  tot_cache :: nat
  tot_reg :: nat
  tot_dereg :: nat
  tot_dynamic :: nat
  tot_async :: nat

datatype event = kCacheSegEvent | kFreeSegEvent | kRegMemEvent | kDeregMemEvent | kDynamicRegMemEvent | kAsyncRegMemEvent

definition profile_reset :: profile where
  "profile_reset = \<lparr>cur_cache = 0, cur_reg = 0, tot_cache = 0, tot_reg = 0, tot_dereg = 0, tot_dynamic = 0, tot_async = 0\<rparr>"

text \<open>
  \<open>on\<close> is \<^verbatim>\<open>NCCL_CTRAN_REGISTER_REPORT_SNAPSHOT_COUNT >= 0\<close>; latencies and reports are left out, and the
  32-bit counters are unbounded.
\<close>

fun profile_record :: "bool \<Rightarrow> event \<Rightarrow> profile \<Rightarrow> profile" where
  "profile_record on ev p =
     (if \<not> on then p
      else case ev of
        kCacheSegEvent \<Rightarrow> p\<lparr>tot_cache := tot_cache p + 1, cur_cache := cur_cache p + 1\<rparr>
      | kFreeSegEvent \<Rightarrow> p\<lparr>cur_cache := cur_cache p - 1\<rparr>
      | kRegMemEvent \<Rightarrow> p\<lparr>tot_reg := tot_reg p + 1, cur_reg := cur_reg p + 1\<rparr>
      | kDeregMemEvent \<Rightarrow> p\<lparr>tot_dereg := tot_dereg p + 1, cur_reg := cur_reg p - 1\<rparr>
      | kDynamicRegMemEvent \<Rightarrow> p\<lparr>tot_dynamic := tot_dynamic p + 1\<rparr>
      | kAsyncRegMemEvent \<Rightarrow> p\<lparr>tot_async := tot_async p + 1\<rparr>)"

text \<open>
  \<open>regs\<close> is \<^verbatim>\<open>regHdlToElemMap\<close>; it is a list because \<^verbatim>\<open>searchRegElem\<close> walks through it. The order of an
  unordered map is not specified; here it is the order of insertion. \<open>segs\<close> are the live segment objects.
\<close>

record reg_cache =
  avl :: cache
  segs :: "ptr \<rightharpoonup> segment"
  regs :: "(ptr \<times> reg_elem) list"
  seg_regs :: "ptr \<rightharpoonup> ptr list"
  prof :: profile
  asyncQueue :: "(u64 \<times> u64 \<times> int) list"

definition rc_init :: reg_cache where
  "rc_init = \<lparr>avl = cache_init, segs = Map.empty, regs = [], seg_regs = Map.empty, prof = profile_reset, asyncQueue = []\<rparr>"

section \<open>The driver and the backends\<close>

record driver =
  getDevMemType :: "u64 \<Rightarrow> commResult + DevMemType"
  addressRange :: "u64 \<Rightarrow> commResult + (u64 \<times> u64)"

text \<open>\<open>None\<close> is \<^verbatim>\<open>std::bad_alloc\<close>: the backend is not enabled.\<close>

record backends =
  tcp_enabled :: bool
  ib_enabled :: bool
  nvl_regMem :: "u64 \<Rightarrow> u64 \<Rightarrow> (commResult + ptr) option"
  ib_regMem :: "u64 \<Rightarrow> u64 \<Rightarrow> (commResult + ptr) option"
  tcp_regMem :: "u64 \<Rightarrow> u64 \<Rightarrow> commResult + ptr"
  nvl_deregMem :: "ptr \<Rightarrow> commResult"
  ib_deregMem :: "ptr \<Rightarrow> commResult"
  tcp_deregMem :: "ptr \<Rightarrow> commResult"

text \<open>The remaining ranges of a buffer of \<^verbatim>\<open>cuMem\<close> memory from the offset \<open>off\<close> on.\<close>

partial_function (option) pin_loop :: "driver \<Rightarrow> u64 \<Rightarrow> u64 \<Rightarrow> u64 \<Rightarrow> seg_range list \<Rightarrow> (commResult + seg_range list) option" where
  "pin_loop d p sz off acc =
     (if off < sz then
        (case addressRange d (p + off) of
           Inl e \<Rightarrow> Some (Inl e)
         | Inr (b, n) \<Rightarrow> pin_loop d p sz (b + n - p) (acc @ [\<lparr>sr_buf = b, sr_len = n, sr_type = kCumem\<rparr>]))
      else Some (Inr acc))"

declare pin_loop.simps [code]

definition pinRange :: "driver \<Rightarrow> u64 \<Rightarrow> u64 \<Rightarrow> (commResult + seg_range list) option" where
  "pinRange d p sz =
     (case getDevMemType d p of
        Inl e \<Rightarrow> Some (Inl e)
      | Inr ty \<Rightarrow>
          if ty \<noteq> kCumem then Some (Inr [\<lparr>sr_buf = p, sr_len = sz, sr_type = ty\<rparr>])
          else case addressRange d p of
            Inl e \<Rightarrow> Some (Inl e)
          | Inr (b, n) \<Rightarrow> pin_loop d p sz (b + n - p) [\<lparr>sr_buf = b, sr_len = n, sr_type = kCumem\<rparr>])"

definition reg_nvl :: "backends \<Rightarrow> reg_elem \<Rightarrow> (commResult + reg_elem) option" where
  "reg_nvl bk e =
     (if e_type e \<noteq> kHostUnregistered \<and> \<not> tcp_enabled bk then
        if e_nvl e \<noteq> None then None
        else case nvl_regMem bk (e_buf e) (e_len e) of
          None \<Rightarrow> Some (Inr e)
        | Some (Inl err) \<Rightarrow> Some (Inl err)
        | Some (Inr h) \<Rightarrow> Some (Inr (e\<lparr>e_nvl := Some h\<rparr>))
      else Some (Inr e))"

definition reg_ib :: "backends \<Rightarrow> reg_elem \<Rightarrow> (commResult + reg_elem) option" where
  "reg_ib bk e =
     (if e_ib e \<noteq> None then None
      else if ib_enabled bk then
        case ib_regMem bk (e_buf e) (e_len e) of
          None \<Rightarrow> Some (Inr e)
        | Some (Inl err) \<Rightarrow> Some (Inl err)
        | Some (Inr h) \<Rightarrow> Some (Inr (e\<lparr>e_ib := Some h\<rparr>))
      else Some (Inr e))"

definition reg_tcp :: "backends \<Rightarrow> reg_elem \<Rightarrow> (commResult + reg_elem) option" where
  "reg_tcp bk e =
     (if tcp_enabled bk then
        case tcp_regMem bk (e_buf e) (e_len e) of Inl err \<Rightarrow> Some (Inl err) | Inr h \<Rightarrow> Some (Inr (e\<lparr>e_tcp := Some h\<rparr>))
      else Some (Inr e))"

definition obind :: "('e + 'a) option \<Rightarrow> ('a \<Rightarrow> ('e + 'b) option) \<Rightarrow> ('e + 'b) option" where
  "obind r f = (case r of None \<Rightarrow> None | Some (Inl e) \<Rightarrow> Some (Inl e) | Some (Inr x) \<Rightarrow> f x)"

definition doRegister :: "backends \<Rightarrow> reg_elem \<Rightarrow> (commResult + reg_elem) option" where
  "doRegister bk e = obind (obind (obind (reg_nvl bk e) (reg_ib bk)) (reg_tcp bk)) (\<lambda>e. Some (Inr (e\<lparr>e_state := REGISTERED\<rparr>)))"

text \<open>A handle is dropped when the backend has released it; the first failure ends the deregistration.\<close>

definition dereg_backend :: "(ptr \<Rightarrow> commResult) \<Rightarrow> ptr option \<Rightarrow> commResult \<times> ptr option" where
  "dereg_backend dereg h =
     (case h of None \<Rightarrow> (commSuccess, None) | Some p \<Rightarrow> if dereg p = commSuccess then (commSuccess, None) else (dereg p, Some p))"

definition doDeregister :: "backends \<Rightarrow> reg_elem \<Rightarrow> (commResult \<times> reg_elem) option" where
  "doDeregister bk e =
     (if e_state e \<noteq> REGISTERED then None
      else case dereg_backend (nvl_deregMem bk) (e_nvl e) of (r1, h1) \<Rightarrow>
        if r1 \<noteq> commSuccess then Some (r1, e)
        else case dereg_backend (ib_deregMem bk) (e_ib e) of (r2, h2) \<Rightarrow>
          if r2 \<noteq> commSuccess then Some (r2, e\<lparr>e_nvl := h1\<rparr>)
          else case dereg_backend (tcp_deregMem bk) (e_tcp e) of (r3, h3) \<Rightarrow>
            if r3 \<noteq> commSuccess then Some (r3, e\<lparr>e_nvl := h1, e_ib := h2\<rparr>)
            else Some (commSuccess, e\<lparr>e_nvl := h1, e_ib := h2, e_tcp := h3, e_state := DEREGISTERED\<rparr>))"

section \<open>Operations\<close>

definition in_elem :: "u64 \<Rightarrow> u64 \<Rightarrow> reg_elem \<Rightarrow> bool" where
  "in_elem p n e \<longleftrightarrow> \<not> e_dynamic e \<and> e_buf e \<le> p \<and> p + n \<le> e_buf e + e_len e"

definition searchRegElem :: "u64 \<Rightarrow> u64 \<Rightarrow> reg_cache \<Rightarrow> ptr option \<times> reg_cache" where
  "searchRegElem p n st =
     (case find (\<lambda>x. in_elem p n (snd x)) (regs st) of
        None \<Rightarrow> (None, st)
      | Some (h, e) \<Rightarrow> (Some h, st\<lparr>regs := map (\<lambda>(h', e'). (h', if h' = h then e'\<lparr>e_hits := e_hits e' + 1\<rparr> else e')) (regs st)\<rparr>))"

definition isRegistered :: "u64 \<Rightarrow> u64 \<Rightarrow> reg_cache \<Rightarrow> bool \<times> reg_cache" where
  "isRegistered p n st = (case searchRegElem p n st of (r, st1) \<Rightarrow> (r \<noteq> None, st1))"

text \<open>The segment a handle stands for: the object must be live.\<close>

definition segment_at :: "ptr \<Rightarrow> reg_cache \<Rightarrow> (ptr \<times> segment) option" where
  "segment_at h st = (case cache_lookup h (avl st) of None \<Rightarrow> None | Some q \<Rightarrow> map_option (Pair q) (segs st q))"

definition cacheSegment ::
  "bool \<Rightarrow> driver \<Rightarrow> u64 \<Rightarrow> u64 \<Rightarrow> int \<Rightarrow> bool \<Rightarrow> ptr \<Rightarrow> ptr \<Rightarrow> reg_cache \<Rightarrow> ((commResult + ptr \<times> ptr) \<times> reg_cache) option" where
  "cacheSegment on d p n dev managed sp hp st =
     (case cache_search p n (avl st) of
        Some x \<Rightarrow>
          (case segment_at (hdl x) st of
             None \<Rightarrow> None
           | Some (q, s) \<Rightarrow> Some (Inr (q, s_avlHdl s), st\<lparr>segs := (segs st)(q \<mapsto> s\<lparr>s_refCount := s_refCount s + 1\<rparr>)\<rparr>))
      | None \<Rightarrow>
          (case pinRange d p n of
             None \<Rightarrow> None
           | Some (Inl e) \<Rightarrow> Some (Inl e, st)
           | Some (Inr [r]) \<Rightarrow>
               (case cache_insert (sr_buf r) (sr_len r) sp hp (avl st) of (h, avl1) \<Rightarrow>
                  Some (Inr (sp, h),
                    st\<lparr>avl := avl1, segs := (segs st)(sp \<mapsto> \<lparr>s_range = r, s_dev = dev, s_ncclManaged = managed, s_refCount = 1, s_avlHdl = h\<rparr>),
                       prof := profile_record on kCacheSegEvent (prof st)\<rparr>))
           | Some (Inr _) \<Rightarrow> None))"

text \<open>The cached segments of the ranges: \<open>Some None\<close> when one of them is not cached.\<close>

fun find_segments :: "seg_range list \<Rightarrow> reg_cache \<Rightarrow> (ptr \<times> segment) list option option" where
  "find_segments [] st = Some (Some [])"
| "find_segments (r # rs) st =
     (case cache_search (sr_buf r) (sr_len r) (avl st) of
        None \<Rightarrow> Some None
      | Some x \<Rightarrow>
          (case segment_at (hdl x) st of
             None \<Rightarrow> None
           | Some qs \<Rightarrow> (case find_segments rs st of Some (Some l) \<Rightarrow> Some (Some (qs # l)) | r \<Rightarrow> r)))"

definition total_len :: "u64 list \<Rightarrow> u64" where "total_len ns = fold (\<lambda>n acc. acc + n) ns 0"

definition link_segments :: "ptr \<Rightarrow> ptr list \<Rightarrow> (ptr \<rightharpoonup> ptr list) \<Rightarrow> (ptr \<rightharpoonup> ptr list)" where
  "link_segments h qs m = fold (\<lambda>q m. m(q \<mapsto> (case m q of None \<Rightarrow> [] | Some l \<Rightarrow> l) @ [h])) qs m"

text \<open>The result is the handle, if any, and whether it was registered now. \<open>rp\<close> is the address of a new registration.\<close>

definition regRange ::
  "bool \<Rightarrow> driver \<Rightarrow> backends \<Rightarrow> u64 \<Rightarrow> u64 \<Rightarrow> int \<Rightarrow> ptr \<Rightarrow> reg_cache \<Rightarrow> ((commResult + ptr option \<times> bool) \<times> reg_cache) option" where
  "regRange on d bk p n dev rp st =
     (case searchRegElem p n st of
        (Some h, st1) \<Rightarrow> Some (Inr (Some h, False), st1)
      | (None, _) \<Rightarrow>
          (case pinRange d p n of
             None \<Rightarrow> None
           | Some (Inl e) \<Rightarrow> Some (Inl e, st)
           | Some (Inr ranges) \<Rightarrow>
               (case find_segments ranges st of
                  None \<Rightarrow> None
                | Some None \<Rightarrow> Some (Inr (None, False), st)
                | Some (Some []) \<Rightarrow> None
                | Some (Some ((q, s) # l)) \<Rightarrow>
                    (let e = new_elem (sr_buf (s_range s)) (total_len (map (sr_len \<circ> s_range \<circ> snd) ((q, s) # l))) dev False
                               (map fst ((q, s) # l)) (sr_type (s_range s))
                     in case doRegister bk e of
                          None \<Rightarrow> None
                        | Some (Inl err) \<Rightarrow> Some (Inl err, st)
                        | Some (Inr e1) \<Rightarrow>
                            Some (Inr (Some rp, True),
                              st\<lparr>regs := regs st @ [(rp, e1)], seg_regs := link_segments rp (map fst ((q, s) # l)) (seg_regs st),
                                 prof := profile_record on kRegMemEvent (prof st)\<rparr>)))))"

definition regDynamic ::
  "bool \<Rightarrow> driver \<Rightarrow> backends \<Rightarrow> u64 \<Rightarrow> u64 \<Rightarrow> int \<Rightarrow> ptr \<Rightarrow> reg_cache \<Rightarrow> ((commResult + ptr) \<times> reg_cache) option" where
  "regDynamic on d bk p n dev rp st =
     (case pinRange d p n of
        None \<Rightarrow> None
      | Some (Inl e) \<Rightarrow> Some (Inl e, st)
      | Some (Inr []) \<Rightarrow> None
      | Some (Inr (r # rs)) \<Rightarrow>
          (case doRegister bk (new_elem (sr_buf r) (total_len (map sr_len (r # rs))) dev True [] (sr_type r)) of
             None \<Rightarrow> None
           | Some (Inl err) \<Rightarrow> Some (Inl err, st)
           | Some (Inr e) \<Rightarrow>
               Some (Inr rp, st\<lparr>regs := regs st @ [(rp, e)],
                 prof := profile_record on kRegMemEvent (profile_record on kDynamicRegMemEvent (prof st))\<rparr>)))"

definition deregDynamic :: "bool \<Rightarrow> backends \<Rightarrow> ptr \<Rightarrow> reg_cache \<Rightarrow> (commResult \<times> reg_cache) option" where
  "deregDynamic on bk h st =
     (case map_of (regs st) h of
        None \<Rightarrow> Some (commInvalidUsage, st)
      | Some e \<Rightarrow>
          (let st1 = st\<lparr>regs := filter (\<lambda>x. fst x \<noteq> h) (regs st)\<rparr>
           in case doDeregister bk e of
                None \<Rightarrow> None
              | Some (r, e1) \<Rightarrow>
                  if r \<noteq> commSuccess then Some (r, st1)
                  else Some (commSuccess, st1\<lparr>prof := profile_record on kDeregMemEvent (prof st1)\<rparr>)))"

text \<open>The registrations in the map among the handles \<open>hs\<close>, and what remains in the map.\<close>

fun move_out :: "ptr list \<Rightarrow> (ptr \<times> reg_elem) list \<Rightarrow> (ptr \<times> reg_elem) list \<times> (ptr \<times> reg_elem) list" where
  "move_out [] rs = ([], rs)"
| "move_out (h # hs) rs =
     (case map_of rs h of
        None \<Rightarrow> move_out hs rs
      | Some e \<Rightarrow> (case move_out hs (filter (\<lambda>x. fst x \<noteq> h) rs) of (out, rest) \<Rightarrow> ((h, e) # out, rest)))"

text \<open>Deregistration of all of them, until one fails; the registrations are updated in place.\<close>

fun dereg_all :: "bool \<Rightarrow> backends \<Rightarrow> (ptr \<times> reg_elem) list \<Rightarrow> profile \<Rightarrow> (commResult \<times> (ptr \<times> reg_elem) list \<times> profile) option" where
  "dereg_all on bk [] pr = Some (commSuccess, [], pr)"
| "dereg_all on bk ((h, e) # es) pr =
     (case doDeregister bk e of
        None \<Rightarrow> None
      | Some (r, e1) \<Rightarrow>
          if r \<noteq> commSuccess then Some (r, (h, e1) # es, pr)
          else map_option (\<lambda>(r2, es1, pr1). (r2, (h, e1) # es1, pr1)) (dereg_all on bk es (profile_record on kDeregMemEvent pr)))"

text \<open>
  The result, and what the caller finds in the variables it passes, which are false and empty before: whether the segment was
  freed, whether the library manages it, and the registrations taken out.
\<close>

type_synonym free_result = "commResult \<times> bool \<times> bool \<times> (ptr \<times> reg_elem) list"

definition freeSegment :: "bool \<Rightarrow> backends \<Rightarrow> ptr \<Rightarrow> reg_cache \<Rightarrow> (free_result \<times> reg_cache) option" where
  "freeSegment on bk h st =
     (case cache_lookup h (avl st) of
        None \<Rightarrow> Some ((commInvalidUsage, False, False, []), st)
      | Some q \<Rightarrow>
          (case segs st q of
             None \<Rightarrow> None
           | Some s \<Rightarrow>
               (let s1 = s\<lparr>s_refCount := s_refCount s - 1\<rparr>
                in if s_refCount s1 < 0 then None
                   else if s_refCount s1 \<noteq> 0 then Some ((commSuccess, False, s_ncclManaged s, []), st\<lparr>segs := (segs st)(q \<mapsto> s1)\<rparr>)
                   else (case move_out (case seg_regs st q of None \<Rightarrow> [] | Some l \<Rightarrow> l) (regs st) of (out, rest) \<Rightarrow>
                     (let st1 = st\<lparr>segs := (segs st)(q \<mapsto> s1), regs := rest, seg_regs := (seg_regs st)(q := None)\<rparr>
                      in case cache_remove (s_avlHdl s) (avl st) of
                           None \<Rightarrow> None
                         | Some (r, avl1) \<Rightarrow>
                             if r \<noteq> commSuccess then Some ((r, False, s_ncclManaged s, out), st1\<lparr>avl := avl1\<rparr>)
                             else (case dereg_all on bk out (prof st) of
                               None \<Rightarrow> None
                             | Some (r2, out1, pr) \<Rightarrow>
                                 if r2 \<noteq> commSuccess then Some ((r2, True, s_ncclManaged s, out1), st1\<lparr>avl := avl1, prof := pr\<rparr>)
                                 else Some ((commSuccess, True, s_ncclManaged s, out1),
                                   st1\<lparr>avl := avl1, segs := (segs st1)(q := None), prof := profile_record on kFreeSegEvent pr\<rparr>)))))))"

definition getRegElems :: "ptr \<Rightarrow> reg_cache \<Rightarrow> ptr list" where
  "getRegElems h st =
     (case cache_lookup h (avl st) of None \<Rightarrow> [] | Some q \<Rightarrow> (case seg_regs st q of None \<Rightarrow> [] | Some l \<Rightarrow> l))"

section \<open>Asynchronous registration\<close>

definition asyncRegRange :: "bool \<Rightarrow> u64 \<Rightarrow> u64 \<Rightarrow> int \<Rightarrow> reg_cache \<Rightarrow> commResult \<times> reg_cache" where
  "asyncRegRange joinable p n dev st =
     (if \<not> joinable then (commInvalidUsage, st) else (commSuccess, st\<lparr>asyncQueue := asyncQueue st @ [(p, n, dev)]\<rparr>))"

text \<open>One command of the thread: a failing registration throws.\<close>

definition asyncRegStep :: "bool \<Rightarrow> driver \<Rightarrow> backends \<Rightarrow> ptr \<Rightarrow> reg_cache \<Rightarrow> reg_cache option" where
  "asyncRegStep on d bk rp st =
     (case asyncQueue st of
        [] \<Rightarrow> Some st
      | (p, n, dev) # q \<Rightarrow>
          if p = 0 \<or> n = 0 \<or> dev < 0 then None
          else (case regRange on d bk p n dev rp st of
            Some (Inr (h, did), st1) \<Rightarrow>
              Some (st1\<lparr>asyncQueue := tl (asyncQueue st1),
                        prof := (if did then profile_record on kAsyncRegMemEvent (prof st1) else prof st1)\<rparr>)
          | _ \<Rightarrow> None))"

section \<open>The mapper on top\<close>

definition regMem ::
  "bool \<Rightarrow> driver \<Rightarrow> backends \<Rightarrow> bool \<Rightarrow> u64 \<Rightarrow> u64 \<Rightarrow> int \<Rightarrow> bool \<Rightarrow> ptr \<Rightarrow> ptr \<Rightarrow> ptr \<Rightarrow> reg_cache \<Rightarrow>
    ((commResult + ptr \<times> ptr option) \<times> reg_cache) option" where
  "regMem on d bk forced p n dev managed sp hp rp st =
     (case cacheSegment on d p n dev managed sp hp st of
        None \<Rightarrow> None
      | Some (Inl e, st1) \<Rightarrow> Some (Inl e, st1)
      | Some (Inr (q, h), st1) \<Rightarrow>
          if forced then
            (case segs st1 q of
               None \<Rightarrow> None
             | Some s \<Rightarrow>
                 (case regRange on d bk (sr_buf (s_range s)) (sr_len (s_range s)) dev rp st1 of
                    None \<Rightarrow> None
                  | Some (Inl e, st2) \<Rightarrow> Some (Inl e, st2)
                  | Some (Inr (r, did), st2) \<Rightarrow> Some (Inr (h, r), st2)))
          else Some (Inr (h, None), st1))"

text \<open>The result is the handle and whether it is a dynamic registration.\<close>

definition searchRegHandle ::
  "bool \<Rightarrow> driver \<Rightarrow> backends \<Rightarrow> bool \<Rightarrow> u64 \<Rightarrow> u64 \<Rightarrow> int \<Rightarrow> ptr \<Rightarrow> reg_cache \<Rightarrow> ((commResult + ptr \<times> bool) \<times> reg_cache) option" where
  "searchRegHandle on d bk allowDynamic p n dev rp st =
     (case regRange on d bk p n dev rp st of
        None \<Rightarrow> None
      | Some (Inl e, st1) \<Rightarrow> Some (Inl e, st1)
      | Some (Inr (Some h, did), st1) \<Rightarrow> Some (Inr (h, False), st1)
      | Some (Inr (None, did), st1) \<Rightarrow>
          if \<not> allowDynamic then Some (Inl commInvalidUsage, st1)
          else (case regDynamic on d bk p n dev rp st1 of
            None \<Rightarrow> None
          | Some (Inl e, st2) \<Rightarrow> Some (Inl e, st2)
          | Some (Inr h, st2) \<Rightarrow> Some (Inr (h, True), st2)))"

section \<open>Pinned ranges\<close>

text \<open>
  What the code relies on: the driver's ranges stay inside the address space, contain the address asked for, and every
  address of a range gives the same answers.
\<close>

definition drv_ok :: "driver \<Rightarrow> bool" where
  "drv_ok d \<longleftrightarrow> (\<forall>a b n. addressRange d a = Inr (b, n) \<longrightarrow> no_wrap b n \<and> unat a \<in> bytes (b, n) \<and>
     (\<forall>a'. unat a' \<in> bytes (b, n) \<longrightarrow> addressRange d a' = Inr (b, n) \<and> getDevMemType d a' = getDevMemType d a))"

text \<open>A buffer that users may pass: it lies in the address space and in one kind of memory.\<close>

definition buffer_ok :: "driver \<Rightarrow> u64 \<Rightarrow> u64 \<Rightarrow> bool" where
  "buffer_ok d p n \<longleftrightarrow> no_wrap p n \<and> 0 < n \<and> (\<forall>a. unat a \<in> bytes (p, n) \<longrightarrow> getDevMemType d a = getDevMemType d p)"

text \<open>A range of the right kind: a whole \<^verbatim>\<open>cuMem\<close> range, or memory of another kind.\<close>

definition range_ok :: "driver \<Rightarrow> seg_range \<Rightarrow> bool" where
  "range_ok d r \<longleftrightarrow> no_wrap (sr_buf r) (sr_len r) \<and> 0 < sr_len r \<and>
     (\<forall>a. unat a \<in> bytes (sr_buf r, sr_len r) \<longrightarrow> getDevMemType d a = Inr (sr_type r) \<and>
        (sr_type r = kCumem \<longrightarrow> addressRange d a = Inr (sr_buf r, sr_len r)))"

text \<open>Ranges that follow each other from \<open>a\<close> to \<open>b\<close>.\<close>

fun chain :: "nat \<Rightarrow> seg_range list \<Rightarrow> nat \<Rightarrow> bool" where
  "chain a [] b \<longleftrightarrow> a = b"
| "chain a (r # rs) b \<longleftrightarrow> unat (sr_buf r) = a \<and> chain (a + unat (sr_len r)) rs b"

lemma chain_append: "chain a (xs @ ys) c \<longleftrightarrow> (\<exists>b. chain a xs b \<and> chain b ys c)"
  by (induction xs arbitrary: a) auto

lemma chain_total: "chain a rs b \<Longrightarrow> b = a + (\<Sum>r \<leftarrow> rs. unat (sr_len r))"
proof (induction rs arbitrary: a)
  case (Cons r rs)
  then have "b = (a + unat (sr_len r)) + (\<Sum>r \<leftarrow> rs. unat (sr_len r))" by simp
  then show ?case by simp
qed simp

lemma drv_range_ok:
  assumes "drv_ok d" "addressRange d a = Inr (b, n)" "getDevMemType d a = Inr kCumem"
  shows "range_ok d \<lparr>sr_buf = b, sr_len = n, sr_type = kCumem\<rparr>" "unat a \<in> bytes (b, n)"
proof -
  have d: "no_wrap b n" "unat a \<in> bytes (b, n)" "\<And>a'. unat a' \<in> bytes (b, n) \<Longrightarrow> addressRange d a' = Inr (b, n) \<and> getDevMemType d a' = Inr kCumem"
    using assms unfolding drv_ok_def by metis+
  have "0 < unat n" using d(2) by (auto simp: bytes_def)
  then show "range_ok d \<lparr>sr_buf = b, sr_len = n, sr_type = kCumem\<rparr>" using d by (simp add: range_ok_def word_less_nat_alt)
  show "unat a \<in> bytes (b, n)" by (rule d(2))
qed

text \<open>The loop ends: every range found starts where the last one ended.\<close>

lemma pin_loop_spec:
  assumes d: "drv_ok d" and b: "buffer_ok d p n" "getDevMemType d p = Inr kCumem"
    and last: "range_ok d r" "sr_type r = kCumem" "unat (sr_buf r) + unat (sr_len r) = unat p + unat off"
  shows "(\<exists>e. pin_loop d p n off acc = Some (Inl e)) \<or>
    (\<exists>rs c. pin_loop d p n off acc = Some (Inr (acc @ rs)) \<and> chain (unat p + unat off) rs c \<and> unat p + unat n \<le> c \<and>
       (\<forall>r \<in> set rs. range_ok d r \<and> sr_type r = kCumem))"
  using last
proof (induction "unat n - unat off" arbitrary: off acc r rule: less_induct)
  case less
  show ?case
  proof (cases "off < n")
    case False
    then have "unat n \<le> unat off" by (simp add: word_le_nat_alt word_less_nat_alt)
    moreover have "pin_loop d p n off acc = Some (Inr acc)" using False by (subst pin_loop.simps) simp
    ultimately show ?thesis by (intro disjI2 exI [of _ "[]"] exI [of _ "unat p + unat off"]) simp
  next
    case True
    then have on: "unat off < unat n" by (simp add: word_less_nat_alt)
    have nw: "unat p + unat n < 2 ^ 64" using b(1) by (simp add: buffer_ok_def no_wrap_def)
    then have ua: "unat (p + off) = unat p + unat off" using on by (intro unat_add_no_wrap) (simp add: no_wrap_def)
    have ty: "getDevMemType d (p + off) = Inr kCumem"
      using b on ua by (simp add: buffer_ok_def bytes_def)
    show ?thesis
    proof (cases "addressRange d (p + off)")
      case (Inl e)
      then show ?thesis using True by (intro disjI1 exI [of _ e]) (subst pin_loop.simps, simp)
    next
      case (Inr bn)
      obtain c m where cm: "bn = (c, m)" by (cases bn)
      let ?r = "\<lparr>sr_buf = c, sr_len = m, sr_type = kCumem\<rparr>"
      have ok: "range_ok d ?r" "unat p + unat off \<in> bytes (c, m)"
        using drv_range_ok [OF d Inr [unfolded cm] ty] ua by simp_all
      have le: "unat c \<le> unat p + unat off" "unat p + unat off < unat c + unat m" using ok(2) by (auto simp: bytes_def)
      have nwc: "no_wrap c m" using ok(1) by (simp add: range_ok_def)
      have start: "unat c = unat p + unat off"
      proof (rule ccontr)
        assume ne: "unat c \<noteq> unat p + unat off"
        let ?a = "p + off - 1"
        have pos: "0 < unat (p + off)" unfolding ua using le(1) ne by linarith
        then have "p + off \<noteq> 0" by (simp add: unat_gt_0)
        then have ua1: "unat ?a = unat p + unat off - 1" using ua by (simp add: unat_minus_one)
        have "unat ?a \<in> bytes (c, m)" using le ne ua1 by (auto simp: bytes_def)
        then have "addressRange d ?a = Inr (c, m)" using ok(1) by (simp add: range_ok_def)
        moreover have "unat ?a \<in> bytes (sr_buf r, sr_len r)"
          using less.prems ua1 pos ua by (auto simp: bytes_def range_ok_def word_less_nat_alt)
        then have "addressRange d ?a = Inr (sr_buf r, sr_len r)" using less.prems by (simp add: range_ok_def)
        ultimately have "c = sr_buf r" "m = sr_len r" by simp_all
        then show False using le(2) less.prems(3) by simp
      qed
      let ?off = "c + m - p"
      have "p \<le> c + m" using le nwc by (simp add: word_le_nat_alt unat_add_no_wrap)
      then have uo: "unat ?off = unat c + unat m - unat p" using nwc by (simp add: unat_sub unat_add_no_wrap)
      then have sum: "unat c + unat m = unat p + unat ?off" using le by simp
      have dec: "unat n - unat ?off < unat n - unat off" using on sum le by linarith
      have step: "pin_loop d p n off acc = pin_loop d p n ?off (acc @ [?r])"
        using True Inr cm by (subst pin_loop.simps) simp
      from less.hyps [OF dec ok(1) _ , of "acc @ [?r]"] sum consider
          e where "pin_loop d p n ?off (acc @ [?r]) = Some (Inl e)"
        | rs z where "pin_loop d p n ?off (acc @ [?r]) = Some (Inr ((acc @ [?r]) @ rs))" "chain (unat p + unat ?off) rs z"
            "unat p + unat n \<le> z" "\<forall>r \<in> set rs. range_ok d r \<and> sr_type r = kCumem" by auto
      then show ?thesis
      proof cases
        case 1
        then show ?thesis using step by auto
      next
        case 2
        have "unat p + unat off + unat m = unat p + unat ?off" using sum start by simp
        then have "chain (unat p + unat off + unat m) rs z" using 2(2) by metis
        then show ?thesis using 2 step start ok(1)
          by (intro disjI2 exI [of _ "?r # rs"] exI [of _ z]) simp
      qed
    qed
  qed
qed

text \<open>\<^verbatim>\<open>pinRange\<close> returns; its ranges follow each other and cover the buffer.\<close>

lemma pinRange_spec:
  assumes "drv_ok d" "buffer_ok d p n"
  shows "(\<exists>e. pinRange d p n = Some (Inl e)) \<or>
    (\<exists>r rs a c. pinRange d p n = Some (Inr (r # rs)) \<and> chain a (r # rs) c \<and> a \<le> unat p \<and> unat p + unat n \<le> c \<and>
       (\<forall>r \<in> set (r # rs). range_ok d r) \<and> (rs \<noteq> [] \<longrightarrow> (\<forall>r \<in> set (r # rs). sr_type r = kCumem)))"
proof (cases "getDevMemType d p")
  case (Inl e)
  then show ?thesis by (simp add: pinRange_def)
next
  case (Inr ty)
  show ?thesis
  proof (cases "ty = kCumem")
    case False
    let ?r = "\<lparr>sr_buf = p, sr_len = n, sr_type = ty\<rparr>"
    have "range_ok d ?r" using assms(2) Inr False by (simp add: range_ok_def buffer_ok_def)
    then show ?thesis using Inr False
      by (intro disjI2 exI [of _ ?r] exI [of _ "[]"] exI [of _ "unat p"] exI [of _ "unat p + unat n"]) (simp add: pinRange_def)
  next
    case ty: True
    show ?thesis
    proof (cases "addressRange d p")
      case (Inl e)
      then show ?thesis using Inr ty by (simp add: pinRange_def)
    next
      case r: (Inr bn)
      obtain b m where bm: "bn = (b, m)" by (cases bn)
      let ?r = "\<lparr>sr_buf = b, sr_len = m, sr_type = kCumem\<rparr>"
      note ok = drv_range_ok [OF assms(1) r [unfolded bm] Inr [unfolded ty]]
      have le: "unat b \<le> unat p" "unat p < unat b + unat m" using ok(2) by (auto simp: bytes_def)
      have nw: "no_wrap b m" using ok(1) by (simp add: range_ok_def)
      have "p \<le> b + m" using le nw by (simp add: word_le_nat_alt unat_add_no_wrap)
      then have "unat (b + m - p) = unat b + unat m - unat p" using nw by (simp add: unat_sub unat_add_no_wrap)
      then have e: "unat (sr_buf ?r) + unat (sr_len ?r) = unat p + unat (b + m - p)" using le by simp
      have step: "pinRange d p n = pin_loop d p n (b + m - p) [?r]" using Inr ty r bm by (simp add: pinRange_def)
      from pin_loop_spec [OF assms Inr [unfolded ty] ok(1) _ e, of "[?r]"] consider
          err where "pin_loop d p n (b + m - p) [?r] = Some (Inl err)"
        | rs c where "pin_loop d p n (b + m - p) [?r] = Some (Inr ([?r] @ rs))" "chain (unat p + unat (b + m - p)) rs c"
          "unat p + unat n \<le> c" "\<forall>r \<in> set rs. range_ok d r \<and> sr_type r = kCumem" by auto
      then show ?thesis
      proof cases
        case 1
        then show ?thesis using step by simp
      next
        case 2
        then show ?thesis using step e le ok(1)
          by (intro disjI2 exI [of _ ?r] exI [of _ rs] exI [of _ "unat b"] exI [of _ c]) simp
      qed
    qed
  qed
qed

section \<open>Invariant\<close>

abbreviation range_at :: "reg_cache \<Rightarrow> ptr \<Rightarrow> seg_range" where
  "range_at st q \<equiv> s_range (the (segs st q))"

abbreviation cached :: "reg_cache \<Rightarrow> elem set" where
  "cached st \<equiv> set (cache_elems (avl st))"

text \<open>A range of the index stands for a live segment in use.\<close>

definition seg_ok :: "driver \<Rightarrow> reg_cache \<Rightarrow> elem \<Rightarrow> bool" where
  "seg_ok d st x \<longleftrightarrow> (\<exists>s. segs st (val x) = Some s \<and> s_avlHdl s = hdl x \<and> sr_buf (s_range s) = addr x \<and>
     sr_len (s_range s) = len x \<and> 0 < s_refCount s \<and> range_ok d (s_range s))"

text \<open>A registration is live; if it is not dynamic it covers cached segments that know it.\<close>

definition elem_ok :: "reg_cache \<Rightarrow> ptr \<Rightarrow> reg_elem \<Rightarrow> bool" where
  "elem_ok st h e \<longleftrightarrow> e_state e = REGISTERED \<and> no_wrap (e_buf e) (e_len e) \<and>
     (\<not> e_dynamic e \<longrightarrow> e_segments e \<noteq> [] \<and>
        chain (unat (e_buf e)) (map (range_at st) (e_segments e)) (unat (e_buf e) + unat (e_len e)) \<and>
        (\<forall>q \<in> set (e_segments e). q \<in> val ` cached st \<and> (\<exists>l. seg_regs st q = Some l \<and> h \<in> set l)))"

definition reg_ok :: "driver \<Rightarrow> reg_cache \<Rightarrow> bool" where
  "reg_ok d st \<longleftrightarrow> cache_ok (avl st) \<and> (\<forall>x \<in> cached st. seg_ok d st x) \<and> inj_on val (cached st) \<and>
     distinct (map fst (regs st)) \<and> (\<forall>x \<in> set (regs st). elem_ok st (fst x) (snd x))"

lemma reg_okI [inv_intros]:
  "\<lbrakk>cache_ok (avl st); \<And>x. x \<in> cached st \<Longrightarrow> seg_ok d st x; inj_on val (cached st); distinct (map fst (regs st));
    \<And>h e. (h, e) \<in> set (regs st) \<Longrightarrow> elem_ok st h e\<rbrakk> \<Longrightarrow> reg_ok d st"
  by (auto simp: reg_ok_def)

lemma reg_okD:
  assumes "reg_ok d st"
  shows "cache_ok (avl st)" "\<And>x. x \<in> cached st \<Longrightarrow> seg_ok d st x" "inj_on val (cached st)" "distinct (map fst (regs st))"
    "\<And>h e. (h, e) \<in> set (regs st) \<Longrightarrow> elem_ok st h e"
  using assms unfolding reg_ok_def by auto

lemma reg_ok_init: "reg_ok d rc_init"
  by (intro reg_okI) (simp_all add: rc_init_def cache_ok_init, simp_all add: cache_init_def cache_elems_def)

text \<open>What keeps a registration in order.\<close>

lemma elem_ok_mono:
  assumes "elem_ok st h e" "e_segments e' = e_segments e" "e_state e' = e_state e" "e_buf e' = e_buf e" "e_len e' = e_len e"
      "e_dynamic e' = e_dynamic e"
    and "\<And>q. q \<in> set (e_segments e) \<Longrightarrow> \<not> e_dynamic e \<Longrightarrow> q \<in> val ` cached st \<Longrightarrow> q \<in> val ` cached st' \<and> range_at st' q = range_at st q"
    and "\<And>q l. q \<in> set (e_segments e) \<Longrightarrow> \<not> e_dynamic e \<Longrightarrow> seg_regs st q = Some l \<Longrightarrow> \<exists>l'. seg_regs st' q = Some l' \<and> set l \<subseteq> set l'"
  shows "elem_ok st' h e'"
proof (cases "e_dynamic e")
  case True
  then show ?thesis using assms by (simp add: elem_ok_def)
next
  case False
  have m: "map (range_at st') (e_segments e) = map (range_at st) (e_segments e)"
    using assms(1,7) False by (auto simp: elem_ok_def)
  have "\<exists>l'. seg_regs st' q = Some l' \<and> h \<in> set l'" if q: "q \<in> set (e_segments e)" for q
  proof -
    obtain l where "seg_regs st q = Some l" "h \<in> set l" using assms(1) q False by (auto simp: elem_ok_def)
    then show ?thesis using assms(8) [OF q False] by blast
  qed
  moreover have "chain (unat (e_buf e)) (map (range_at st') (e_segments e)) (unat (e_buf e) + unat (e_len e))"
    unfolding m using assms(1) False by (simp add: elem_ok_def)
  moreover have "q \<in> val ` cached st'" if "q \<in> set (e_segments e)" for q
    using assms(1) assms(7) [OF that False] that False by (simp add: elem_ok_def)
  ultimately show ?thesis using assms(1-6) False by (simp add: elem_ok_def)
qed

lemma seg_ok_segs:
  assumes "seg_ok d st x" "segs st' (val x) = Some s'" "\<And>s. segs st (val x) = Some s \<Longrightarrow> s_avlHdl s' = s_avlHdl s \<and> s_range s' = s_range s \<and> 0 < s_refCount s'"
  shows "seg_ok d st' x"
  using assms unfolding seg_ok_def by auto

lemma seg_ok_same: "seg_ok d st x \<Longrightarrow> segs st' (val x) = segs st (val x) \<Longrightarrow> seg_ok d st' x"
  by (simp add: seg_ok_def)

section \<open>Lookups\<close>

lemma segment_at_ok:
  assumes "reg_ok d st" "x \<in> cached st"
  obtains s where "segment_at (hdl x) st = Some (val x, s)" "segs st (val x) = Some s" "s_avlHdl s = hdl x"
    "sr_buf (s_range s) = addr x" "sr_len (s_range s) = len x" "0 < s_refCount s" "range_ok d (s_range s)"
proof -
  have "cache_lookup (hdl x) (avl st) = Some (val x)" using lookup_ok [OF reg_okD(1) [OF assms(1)]] assms(2) by blast
  then show ?thesis using that reg_okD(2) [OF assms] by (auto simp: segment_at_def seg_ok_def)
qed

lemma searchRegElem_ok:
  assumes "reg_ok d st"
  shows "reg_ok d (snd (searchRegElem p n st))"
proof (cases "find (\<lambda>x. in_elem p n (snd x)) (regs st)")
  case None
  then show ?thesis using assms by (simp add: searchRegElem_def)
next
  case (Some x)
  obtain h e where x: "x = (h, e)" by (cases x)
  let ?f = "\<lambda>(h', e'). (h', if h' = h then e'\<lparr>e_hits := e_hits e' + 1\<rparr> else e')"
  have s: "snd (searchRegElem p n st) = st\<lparr>regs := map ?f (regs st)\<rparr>" using Some x by (simp add: searchRegElem_def)
  have f: "map fst (map ?f (regs st)) = map fst (regs st)" by (induction "regs st") auto
  note ok = reg_okD [OF assms]
  show ?thesis unfolding s
  proof (intro reg_okI)
    show "cache_ok (avl (st\<lparr>regs := map ?f (regs st)\<rparr>))" "inj_on val (cached (st\<lparr>regs := map ?f (regs st)\<rparr>))" using ok by simp_all
    show "seg_ok d (st\<lparr>regs := map ?f (regs st)\<rparr>) x" if "x \<in> cached (st\<lparr>regs := map ?f (regs st)\<rparr>)" for x
      using ok(2) [of x] that by (auto intro: seg_ok_same)
    show "distinct (map fst (regs (st\<lparr>regs := map ?f (regs st)\<rparr>)))" using ok(4) f by (simp del: map_map)
    fix h' e' assume "(h', e') \<in> set (regs (st\<lparr>regs := map ?f (regs st)\<rparr>))"
    then obtain e0 where e0: "(h', e0) \<in> set (regs st)" "e' = (if h' = h then e0\<lparr>e_hits := e_hits e0 + 1\<rparr> else e0)" by auto
    show "elem_ok (st\<lparr>regs := map ?f (regs st)\<rparr>) h' e'"
      by (rule elem_ok_mono [OF ok(5) [OF e0(1)]]) (use e0(2) in auto)
  qed
qed

text \<open>A hit is a registration that covers the buffer.\<close>

lemma searchRegElem_hit:
  assumes ok: "reg_ok d st" and nw: "no_wrap p n" and r: "fst (searchRegElem p n st) = Some h"
  obtains e where "(h, e) \<in> set (regs (snd (searchRegElem p n st)))" "\<not> e_dynamic e" "bytes (p, n) \<subseteq> bytes (e_buf e, e_len e)"
proof -
  from r obtain e where f: "find (\<lambda>x. in_elem p n (snd x)) (regs st) = Some (h, e)"
    by (auto simp: searchRegElem_def split: option.splits)
  then have e: "(h, e) \<in> set (regs st)" "in_elem p n e" using find_Some_iff_mem [OF f] by auto
  have "no_wrap (e_buf e) (e_len e)" using reg_okD(5) [OF ok e(1)] by (simp add: elem_ok_def)
  then have "bytes (p, n) \<subseteq> bytes (e_buf e, e_len e)"
    using e(2) nw by (auto simp: in_elem_def bytes_def word_le_nat_alt unat_add_no_wrap)
  moreover have "(h, e\<lparr>e_hits := e_hits e + 1\<rparr>) \<in> set (regs (snd (searchRegElem p n st)))"
    using f e(1) by (auto simp: searchRegElem_def intro!: image_eqI [of _ _ "(h, e)"])
  ultimately show ?thesis using that [of "e\<lparr>e_hits := e_hits e + 1\<rparr>"] e(2) by (simp add: in_elem_def)
qed

section \<open>Caching a segment\<close>

lemma reg_ok_refcount:
  assumes ok: "reg_ok d st" and s: "segs st q = Some s" and n: "0 < n"
  shows "reg_ok d (st\<lparr>segs := (segs st)(q \<mapsto> s\<lparr>s_refCount := n\<rparr>)\<rparr>)" (is "reg_ok d ?st")
proof (intro reg_okI)
  note oks = reg_okD [OF ok]
  show "cache_ok (avl ?st)" "inj_on val (cached ?st)" "distinct (map fst (regs ?st))" using oks by simp_all
  show "seg_ok d ?st x" if "x \<in> cached ?st" for x
  proof (cases "val x = q")
    case True
    show ?thesis by (rule seg_ok_segs [OF oks(2) [of x], where s' = "s\<lparr>s_refCount := n\<rparr>"]) (use that s n True in auto)
  next
    case False
    then show ?thesis using oks(2) [of x] that by (auto intro: seg_ok_same)
  qed
  show "elem_ok ?st h e" if "(h, e) \<in> set (regs ?st)" for h e
    by (rule elem_ok_mono [OF oks(5) [of h e]]) (use that s in auto)
qed

lemma reg_ok_insert:
  assumes ok: "reg_ok d st" and r: "range_ok d r" and sp: "sp \<notin> dom (segs st)" and hp: "hp \<notin> handles (avl st)"
    and i: "cache_insert (sr_buf r) (sr_len r) sp hp (avl st) = (h, avl1)"
  shows "h = hp" "reg_ok d (st\<lparr>avl := avl1, segs := (segs st)(sp \<mapsto> \<lparr>s_range = r, s_dev = dev, s_ncclManaged = managed,
      s_refCount = 1, s_avlHdl = h\<rparr>), prof := pr\<rparr>)" (is "reg_ok d ?st")
    "set (cache_elems avl1) = insert \<lparr>hdl = hp, addr = sr_buf r, len = sr_len r, val = sp\<rparr> (cached st)"
proof -
  note oks = reg_okD [OF ok]
  have nw: "no_wrap (sr_buf r) (sr_len r)" using r by (simp add: range_ok_def)
  note ins = cache_insert_ok [OF oks(1) nw hp refl, of sp, unfolded i, simplified]
  show h: "h = hp" by (rule ins(1))
  show el: "set (cache_elems avl1) = insert \<lparr>hdl = hp, addr = sr_buf r, len = sr_len r, val = sp\<rparr> (cached st)" by (rule ins(3))
  have fresh: "val x \<noteq> sp" if "x \<in> cached st" for x using oks(2) [OF that] sp by (auto simp: seg_ok_def dom_def)
  show "reg_ok d ?st"
  proof (intro reg_okI)
    show "cache_ok (avl ?st)" using ins(2) by simp
    show "inj_on val (cached ?st)" using oks(3) fresh by (auto simp: el inj_on_def)
    show "distinct (map fst (regs ?st))" using oks(4) by simp
    show "seg_ok d ?st x" if "x \<in> cached ?st" for x
    proof (cases "x \<in> cached st")
      case True
      show ?thesis by (rule seg_ok_same [OF oks(2) [OF True]]) (use fresh [OF True] in simp)
    next
      case False
      then have "x = \<lparr>hdl = hp, addr = sr_buf r, len = sr_len r, val = sp\<rparr>" using that by (simp add: el)
      then show ?thesis using h r by (simp add: seg_ok_def)
    qed
    show "elem_ok ?st k e" if "(k, e) \<in> set (regs ?st)" for k e
      by (rule elem_ok_mono [OF oks(5) [of k e]]) (use that fresh in \<open>auto simp: el\<close>)
  qed
qed

lemma cacheSegment_ok:
  assumes ok: "reg_ok d st" and d: "drv_ok d" "buffer_ok d p n" and fresh: "sp \<notin> dom (segs st)" "hp \<notin> handles (avl st)"
    and c: "cacheSegment on d p n dev managed sp hp st = Some (r, st')"
  shows "reg_ok d st'"
proof (cases "cache_search p n (avl st)")
  case (Some x)
  then have x: "x \<in> cached st" using cache_search_sound by blast
  obtain s where s: "segment_at (hdl x) st = Some (val x, s)" "segs st (val x) = Some s" "0 < s_refCount s"
    using segment_at_ok [OF ok x] by metis
  then have "st' = st\<lparr>segs := (segs st)(val x \<mapsto> s\<lparr>s_refCount := s_refCount s + 1\<rparr>)\<rparr>"
    using c Some by (auto simp: cacheSegment_def)
  then show ?thesis using reg_ok_refcount [OF ok s(2)] s(3) by simp
next
  case None
  from pinRange_spec [OF d] consider e where "pinRange d p n = Some (Inl e)"
    | q where "pinRange d p n = Some (Inr [q])" "range_ok d q" | q q' qs where "pinRange d p n = Some (Inr (q # q' # qs))"
    by (metis list.set_intros(1) neq_Nil_conv)
  then show ?thesis
  proof cases
    case 1
    then show ?thesis using c None ok by (simp add: cacheSegment_def)
  next
    case (2 q)
    obtain h avl1 where i: "cache_insert (sr_buf q) (sr_len q) sp hp (avl st) = (h, avl1)" by fastforce
    then show ?thesis using c None 2 reg_ok_insert(2) [OF ok 2(2) fresh i] by (auto simp: cacheSegment_def)
  next
    case 3
    then show ?thesis using c None by (simp add: cacheSegment_def)
  qed
qed

section \<open>Registering a buffer\<close>

lemma unat_total_len: "(\<Sum>n \<leftarrow> ns. unat n) < 2 ^ 64 \<Longrightarrow> unat (total_len ns) = (\<Sum>n \<leftarrow> ns. unat n)"
proof (induction ns rule: rev_induct)
  case (snoc n ns)
  then have "unat (total_len ns) = (\<Sum>n \<leftarrow> ns. unat n)" by simp
  then show ?case using snoc.prems by (simp add: total_len_def unat_word_ariths)
qed (simp add: total_len_def)

lemma chain_end:
  assumes "chain a rs c" "rs \<noteq> []" "\<forall>r \<in> set rs. range_ok d r"
  shows "c < 2 ^ 64"
proof -
  have e: "chain a (butlast rs @ [last rs]) c" using assms(1,2) by simp
  then have "c = unat (sr_buf (last rs)) + unat (sr_len (last rs))" by (auto simp: chain_append simp del: append_butlast_last_id)
  moreover have "range_ok d (last rs)" using assms(2,3) by simp
  ultimately show ?thesis by (simp add: range_ok_def no_wrap_def)
qed

lemma chain_len:
  assumes "chain a rs c" "rs \<noteq> []" "\<forall>r \<in> set rs. range_ok d r"
  shows "a + unat (total_len (map sr_len rs)) = c"
proof -
  have c: "c = a + (\<Sum>n \<leftarrow> map sr_len rs. unat n)" using chain_total [OF assms(1)] by (simp add: comp_def)
  then have "(\<Sum>n \<leftarrow> map sr_len rs. unat n) < 2 ^ 64" using chain_end [OF assms] by linarith
  then show ?thesis using unat_total_len c by simp
qed

text \<open>Backends never abort on a new registration.\<close>

lemma doRegister_cases:
  assumes "e_nvl e = None" "e_ib e = None"
  shows "(\<exists>err. doRegister bk e = Some (Inl err)) \<or>
    (\<exists>nvl ib tcp. doRegister bk e = Some (Inr (e\<lparr>e_nvl := nvl, e_ib := ib, e_tcp := tcp, e_state := REGISTERED\<rparr>)))"
proof -
  have n: "(\<exists>err. reg_nvl bk e = Some (Inl err)) \<or> (\<exists>nvl. reg_nvl bk e = Some (Inr (e\<lparr>e_nvl := nvl\<rparr>)))"
  proof (cases "e_type e \<noteq> kHostUnregistered \<and> \<not> tcp_enabled bk")
    case True
    then show ?thesis
    proof (cases "nvl_regMem bk (e_buf e) (e_len e)")
      case None
      then show ?thesis using assms True by (intro disjI2 exI [of _ None]) (simp add: reg_nvl_def)
    next
      case (Some r)
      then show ?thesis using assms True by (cases r) (auto simp: reg_nvl_def)
    qed
  next
    case False
    then show ?thesis using assms by (intro disjI2 exI [of _ None]) (auto simp: reg_nvl_def)
  qed
  have i: "(\<exists>err. reg_ib bk e' = Some (Inl err)) \<or> (\<exists>ib. reg_ib bk e' = Some (Inr (e'\<lparr>e_ib := ib\<rparr>)))" if "e_ib e' = None" for e'
  proof (cases "ib_enabled bk")
    case True
    then show ?thesis
    proof (cases "ib_regMem bk (e_buf e') (e_len e')")
      case None
      then show ?thesis using that True by (intro disjI2 exI [of _ None]) (simp add: reg_ib_def)
    next
      case (Some r)
      then show ?thesis using that True by (cases r) (auto simp: reg_ib_def)
    qed
  next
    case False
    then show ?thesis using that by (intro disjI2 exI [of _ None]) (simp add: reg_ib_def)
  qed
  have t: "(\<exists>err. reg_tcp bk e' = Some (Inl err)) \<or> (\<exists>tcp. reg_tcp bk e' = Some (Inr (e'\<lparr>e_tcp := tcp\<rparr>)))" for e'
  proof (cases "tcp_enabled bk")
    case True
    then show ?thesis by (cases "tcp_regMem bk (e_buf e') (e_len e')") (auto simp: reg_tcp_def)
  next
    case False
    then show ?thesis by (intro disjI2 exI [of _ "e_tcp e'"]) (simp add: reg_tcp_def)
  qed
  show ?thesis
  proof (cases "\<exists>err. reg_nvl bk e = Some (Inl err)")
    case True
    then show ?thesis by (auto simp: doRegister_def obind_def)
  next
    case False
    then obtain nvl where n1: "reg_nvl bk e = Some (Inr (e\<lparr>e_nvl := nvl\<rparr>))" using n by blast
    let ?e1 = "e\<lparr>e_nvl := nvl\<rparr>"
    have e1: "e_ib ?e1 = None" using assms by simp
    show ?thesis
    proof (cases "\<exists>err. reg_ib bk ?e1 = Some (Inl err)")
      case True
      then show ?thesis using n1 by (auto simp: doRegister_def obind_def)
    next
      case False
      then obtain ib where i1: "reg_ib bk ?e1 = Some (Inr (?e1\<lparr>e_ib := ib\<rparr>))" using i [OF e1] by blast
      show ?thesis using t [of "?e1\<lparr>e_ib := ib\<rparr>"] n1 i1
        by (elim disjE exE) (auto simp: doRegister_def obind_def)
    qed
  qed
qed

lemma link_segments_mono: "m q = Some l \<Longrightarrow> \<exists>l'. link_segments h qs m q = Some l' \<and> set l \<subseteq> set l'"
proof (induction qs arbitrary: m l)
  case (Cons k qs)
  let ?m = "m(k \<mapsto> (case m k of None \<Rightarrow> [] | Some l \<Rightarrow> l) @ [h])"
  obtain l1 where l1: "?m q = Some l1" "set l \<subseteq> set l1" using Cons.prems by (cases "q = k") auto
  obtain l' where "link_segments h qs ?m q = Some l'" "set l1 \<subseteq> set l'" using Cons.IH [where m = ?m, OF l1(1)] by blast
  then show ?case using l1(2) by (intro exI [of _ l']) (auto simp: link_segments_def)
qed (simp add: link_segments_def)

lemma link_segments_mem: "q \<in> set qs \<Longrightarrow> \<exists>l. link_segments h qs m q = Some l \<and> h \<in> set l"
proof (induction qs arbitrary: m)
  case (Cons k qs)
  let ?m = "m(k \<mapsto> (case m k of None \<Rightarrow> [] | Some l \<Rightarrow> l) @ [h])"
  have e: "link_segments h (k # qs) m = link_segments h qs ?m" by (simp add: link_segments_def)
  show ?case
  proof (cases "q \<in> set qs")
    case True
    then show ?thesis unfolding e by (rule Cons.IH)
  next
    case False
    then have "?m q = Some ((case m k of None \<Rightarrow> [] | Some l \<Rightarrow> l) @ [h])" using Cons.prems by simp
    from link_segments_mono [where m = ?m and h = h and qs = qs, OF this] show ?thesis unfolding e by auto
  qed
qed simp

text \<open>The segment found for a range contains it; a \<^verbatim>\<open>cuMem\<close> range is found exactly.\<close>

definition found :: "reg_cache \<Rightarrow> seg_range \<Rightarrow> ptr \<times> segment \<Rightarrow> bool" where
  "found st r qs \<longleftrightarrow> segs st (fst qs) = Some (snd qs) \<and> fst qs \<in> val ` cached st \<and>
     bytes (sr_buf r, sr_len r) \<subseteq> bytes (sr_buf (s_range (snd qs)), sr_len (s_range (snd qs))) \<and>
     (sr_type r = kCumem \<longrightarrow> s_range (snd qs) = r)"

lemma search_found:
  assumes ok: "reg_ok d st" and r: "range_ok d r" and x: "cache_search (sr_buf r) (sr_len r) (avl st) = Some x"
  obtains s where "segment_at (hdl x) st = Some (val x, s)" "found st r (val x, s)" "range_ok d (s_range s)"
proof -
  have c: "x \<in> cached st" "covers (sr_buf r) (sr_len r) x" using cache_search_sound [OF x] by simp_all
  obtain s where s: "segment_at (hdl x) st = Some (val x, s)" "segs st (val x) = Some s" "sr_buf (s_range s) = addr x"
    "sr_len (s_range s) = len x" "range_ok d (s_range s)" using segment_at_ok [OF ok c(1)] by metis
  have nw: "no_wrap (sr_buf r) (sr_len r)" "no_wrap (addr x) (len x)" "0 < sr_len r"
    using r s(3-5) by (auto simp: range_ok_def)
  then have sub: "bytes (sr_buf r, sr_len r) \<subseteq> bytes (sr_buf (s_range s), sr_len (s_range s))"
    using c(2) s(3,4) by (auto simp: covers_def bytes_def word_le_nat_alt unat_add_no_wrap)
  have "s_range s = r" if t: "sr_type r = kCumem"
  proof -
    have in_r: "unat (sr_buf r) \<in> bytes (sr_buf r, sr_len r)" using nw(3) by (auto simp: bytes_def word_less_nat_alt)
    have a: "getDevMemType d (sr_buf r) = Inr kCumem" "addressRange d (sr_buf r) = Inr (sr_buf r, sr_len r)"
      using r in_r t unfolding range_ok_def by auto
    have "unat (sr_buf r) \<in> bytes (sr_buf (s_range s), sr_len (s_range s))" using in_r sub by blast
    then have b: "getDevMemType d (sr_buf r) = Inr (sr_type (s_range s))"
      "sr_type (s_range s) = kCumem \<Longrightarrow> addressRange d (sr_buf r) = Inr (sr_buf (s_range s), sr_len (s_range s))"
      using s(5) unfolding range_ok_def by blast+
    show ?thesis using a b t by simp
  qed
  then show ?thesis using that s c(1) sub by (auto simp: found_def)
qed

lemma find_segments_spec:
  assumes ok: "reg_ok d st" and r: "\<forall>r \<in> set rs. range_ok d r"
  shows "find_segments rs st = Some None \<or> (\<exists>qs. find_segments rs st = Some (Some qs) \<and> list_all2 (found st) rs qs \<and>
    (\<forall>q \<in> set qs. range_ok d (s_range (snd q))))"
  using r
proof (induction rs)
  case (Cons r rs)
  show ?case
  proof (cases "cache_search (sr_buf r) (sr_len r) (avl st)")
    case (Some x)
    obtain s where s: "segment_at (hdl x) st = Some (val x, s)" "found st r (val x, s)" "range_ok d (s_range s)"
      using search_found [OF ok _ Some] Cons.prems by auto
    have "\<forall>r \<in> set rs. range_ok d r" using Cons.prems by simp
    from Cons.IH [OF this] show ?thesis using Some s by (elim disjE exE conjE) simp_all
  qed simp
qed simp

text \<open>All segments of a pinned buffer: they follow each other and cover it.\<close>

lemma found_chain:
  assumes p: "chain a (r # rs) c" "\<forall>r \<in> set (r # rs). range_ok d r" "rs \<noteq> [] \<longrightarrow> (\<forall>r \<in> set (r # rs). sr_type r = kCumem)"
    and b: "a \<le> unat p" "unat p + unat n \<le> c" and nw: "no_wrap p n"
    and f: "list_all2 (found st) (r # rs) (q # qs)" "\<forall>q' \<in> set (q # qs). range_ok d (s_range (snd q'))"
  obtains z where "chain (unat (sr_buf (s_range (snd q)))) (map (s_range \<circ> snd) (q # qs)) z" "z < 2 ^ 64"
    "bytes (p, n) \<subseteq> {unat (sr_buf (s_range (snd q)))..<z}"
proof -
  let ?rs = "map (s_range \<circ> snd) (q # qs)"
  have *: "\<exists>z. chain (unat (sr_buf (s_range (snd q)))) ?rs z \<and> unat (sr_buf (s_range (snd q))) \<le> unat p \<and> (n = 0 \<or> unat p + unat n \<le> z)"
  proof (cases "sr_type r = kCumem")
    case True
    then have t: "\<forall>x \<in> set (r # rs). sr_type x = kCumem" using p(3) by (cases "rs = []") auto
    have "list_all2 (\<lambda>x y. x = s_range (snd y)) (r # rs) (q # qs)"
      using f(1) by (rule list.rel_mono_strong) (use t in \<open>auto simp: found_def\<close>)
    then have "list_all2 (=) (r # rs) ?rs" by (simp add: list_all2_map2)
    then have "r # rs = ?rs" by (simp only: list_all2_eq)
    then have "?rs = r # rs" by (rule sym)
    moreover have "s_range (snd q) = r" using calculation by simp
    ultimately show ?thesis using p(1) b by auto
  next
    case False
    then have e: "rs = []" "qs = []" using p(3) f(1) by auto
    have sub: "bytes (sr_buf r, sr_len r) \<subseteq> bytes (sr_buf (s_range (snd q)), sr_len (s_range (snd q)))"
      using f(1) by (simp add: found_def)
    have l: "0 < unat (sr_len r)" using p(2) by (simp add: range_ok_def word_less_nat_alt)
    have "unat (sr_buf (s_range (snd q))) \<le> unat (sr_buf r)"
      "unat (sr_buf r) + unat (sr_len r) \<le> unat (sr_buf (s_range (snd q))) + unat (sr_len (s_range (snd q)))"
      using sub l unfolding bytes_def by (simp_all add: ivl_subset)
    then show ?thesis using p(1) b e by auto
  qed
  then obtain z where z: "chain (unat (sr_buf (s_range (snd q)))) ?rs z" "unat (sr_buf (s_range (snd q))) \<le> unat p"
    "n = 0 \<or> unat p + unat n \<le> z" by blast
  have "z < 2 ^ 64" by (rule chain_end [OF z(1)]) (use f(2) in auto)
  moreover have "bytes (p, n) \<subseteq> {unat (sr_buf (s_range (snd q)))..<z}" using z(2,3) by (auto simp: bytes_def)
  ultimately show ?thesis using that z(1) by blast
qed

text \<open>The outcomes of \<^verbatim>\<open>regRange\<close>.\<close>

lemma regRange_cases:
  assumes ok: "reg_ok d st" and d: "drv_ok d" "buffer_ok d p n"
  obtains (hit) h st1 where "searchRegElem p n st = (Some h, st1)" "regRange on d bk p n dev rp st = Some (Inr (Some h, False), st1)"
  | (failed) e where "regRange on d bk p n dev rp st = Some (Inl e, st)"
  | (uncached) "regRange on d bk p n dev rp st = Some (Inr (None, False), st)"
  | (new) e where "regRange on d bk p n dev rp st = Some (Inr (Some rp, True), st\<lparr>regs := regs st @ [(rp, e)],
        seg_regs := link_segments rp (e_segments e) (seg_regs st), prof := profile_record on kRegMemEvent (prof st)\<rparr>)"
      "e_state e = REGISTERED" "no_wrap (e_buf e) (e_len e)" "\<not> e_dynamic e" "e_segments e \<noteq> []"
      "chain (unat (e_buf e)) (map (range_at st) (e_segments e)) (unat (e_buf e) + unat (e_len e))"
      "set (e_segments e) \<subseteq> val ` cached st" "bytes (p, n) \<subseteq> bytes (e_buf e, e_len e)"
proof (cases "fst (searchRegElem p n st)")
  case (Some h)
  then obtain st1 where "searchRegElem p n st = (Some h, st1)" by (cases "searchRegElem p n st") simp
  then show ?thesis using that(1) [of h st1] by (simp add: regRange_def)
next
  case None
  then have search: "searchRegElem p n st = (None, st)" by (auto simp: searchRegElem_def split: option.splits)
  have nw: "no_wrap p n" using d(2) by (simp add: buffer_ok_def)
  from pinRange_spec [OF d] consider e where "pinRange d p n = Some (Inl e)"
    | r rs a c where "pinRange d p n = Some (Inr (r # rs))" "chain a (r # rs) c" "a \<le> unat p" "unat p + unat n \<le> c"
      "\<forall>r \<in> set (r # rs). range_ok d r" "rs \<noteq> [] \<longrightarrow> (\<forall>r \<in> set (r # rs). sr_type r = kCumem)" by blast
  then show ?thesis
  proof cases
    case (1 e)
    then show ?thesis using that(2) search by (simp add: regRange_def)
  next
    case p: (2 r rs a c)
    show ?thesis
    proof (cases "find_segments (r # rs) st = Some None")
      case True
      then show ?thesis using that(3) search p(1) by (simp add: regRange_def del: find_segments.simps)
    next
      case False
      then obtain qs0 where qs0: "find_segments (r # rs) st = Some (Some qs0)" "list_all2 (found st) (r # rs) qs0"
        "\<forall>q \<in> set qs0. range_ok d (s_range (snd q))" using find_segments_spec [OF ok p(5)] by blast
      then obtain q s qs where q: "qs0 = (q, s) # qs" by (cases qs0) auto
      obtain z where z: "chain (unat (sr_buf (s_range s))) (map (s_range \<circ> snd) qs0) z" "z < 2 ^ 64"
        "bytes (p, n) \<subseteq> {unat (sr_buf (s_range s))..<z}"
        using found_chain [OF p(2,5,6,3,4) nw qs0(2,3) [unfolded q]] unfolding q by (simp del: list.map) blast
      have mem: "segs st (fst x) = Some (snd x) \<and> fst x \<in> val ` cached st" if "x \<in> set qs0" for x
        using qs0(2) that by (auto simp: list_all2_conv_all_nth in_set_conv_nth found_def)
      have ranges: "map (range_at st) (map fst qs0) = map (s_range \<circ> snd) qs0" using mem by simp
      define e0 where "e0 = new_elem (sr_buf (s_range s)) (total_len (map (sr_len \<circ> s_range \<circ> snd) qs0)) dev False
        (map fst qs0) (sr_type (s_range s))"
      have len: "unat (e_buf e0) + unat (e_len e0) = z"
        using chain_len [OF z(1), of d] qs0(3) q by (simp add: e0_def new_elem_def comp_assoc)
      have e0: "e_nvl e0 = None" "e_ib e0 = None" "e_segments e0 = map fst qs0" "\<not> e_dynamic e0" "e_buf e0 = sr_buf (s_range s)"
        by (simp_all add: e0_def new_elem_def)
      have step: "regRange on d bk p n dev rp st = (case doRegister bk e0 of None \<Rightarrow> None | Some (Inl err) \<Rightarrow> Some (Inl err, st)
          | Some (Inr e1) \<Rightarrow> Some (Inr (Some rp, True), st\<lparr>regs := regs st @ [(rp, e1)],
              seg_regs := link_segments rp (map fst qs0) (seg_regs st), prof := profile_record on kRegMemEvent (prof st)\<rparr>))"
        using search p(1) qs0(1) unfolding e0_def q by (simp add: regRange_def Let_def del: find_segments.simps)
      from doRegister_cases [OF e0(1,2), of bk] show ?thesis
      proof (elim disjE exE)
        fix err assume "doRegister bk e0 = Some (Inl err)"
        then show ?thesis using that(2) step by simp
      next
        fix nvl ib tcp
        let ?e = "e0\<lparr>e_nvl := nvl, e_ib := ib, e_tcp := tcp, e_state := REGISTERED\<rparr>"
        assume "doRegister bk e0 = Some (Inr ?e)"
        then have s: "regRange on d bk p n dev rp st = Some (Inr (Some rp, True), st\<lparr>regs := regs st @ [(rp, ?e)],
            seg_regs := link_segments rp (e_segments ?e) (seg_regs st), prof := profile_record on kRegMemEvent (prof st)\<rparr>)"
          using step e0(3) by simp
        show ?thesis
        proof (rule that(4) [OF s])
          show "chain (unat (e_buf ?e)) (map (range_at st) (e_segments ?e)) (unat (e_buf ?e) + unat (e_len ?e))"
            using z(1) len ranges e0(3,5) by (simp del: map_map)
          show "no_wrap (e_buf ?e) (e_len ?e)" using len z(2) by (simp add: no_wrap_def)
          show "bytes (p, n) \<subseteq> bytes (e_buf ?e, e_len ?e)" using z(3) len e0(5) by (simp add: bytes_def)
          show "set (e_segments ?e) \<subseteq> val ` cached st" using mem e0(3) by auto
        qed (use e0 q in auto)
      qed
    qed
  qed
qed

lemma reg_ok_add:
  assumes ok: "reg_ok d st" and rp: "rp \<notin> fst ` set (regs st)" and e: "e_state e = REGISTERED" "no_wrap (e_buf e) (e_len e)"
    "\<not> e_dynamic e \<Longrightarrow> e_segments e \<noteq> [] \<and> set (e_segments e) \<subseteq> val ` cached st \<and>
       chain (unat (e_buf e)) (map (range_at st) (e_segments e)) (unat (e_buf e) + unat (e_len e))"
    and sr: "sr = (if e_dynamic e then seg_regs st else link_segments rp (e_segments e) (seg_regs st))"
  shows "reg_ok d (st\<lparr>regs := regs st @ [(rp, e)], seg_regs := sr, prof := pr\<rparr>)" (is "reg_ok d ?st")
proof (intro reg_okI)
  note oks = reg_okD [OF ok]
  show "cache_ok (avl ?st)" "inj_on val (cached ?st)" using oks by simp_all
  show "distinct (map fst (regs ?st))" using oks(4) rp by (simp add: image_iff)
  show "seg_ok d ?st x" if "x \<in> cached ?st" for x using oks(2) [of x] that by (auto intro: seg_ok_same)
  fix h e' assume "(h, e') \<in> set (regs ?st)"
  then consider "(h, e') \<in> set (regs st)" | "h = rp" "e' = e" by auto
  then show "elem_ok ?st h e'"
  proof cases
    case 1
    show ?thesis
    proof (rule elem_ok_mono [OF oks(5) [OF 1]])
      fix q l assume "seg_regs st q = Some l"
      then show "\<exists>l'. seg_regs ?st q = Some l' \<and> set l \<subseteq> set l'" using link_segments_mono [of "seg_regs st" q l rp "e_segments e"] by (simp add: sr)
    qed simp_all
  next
    case 2
    then show ?thesis using e link_segments_mem [of _ "e_segments e" rp "seg_regs st"] by (auto simp: elem_ok_def sr)
  qed
qed

lemma regDynamic_cases:
  assumes d: "drv_ok d" "buffer_ok d p n"
  obtains (failed) e where "regDynamic on d bk p n dev rp st = Some (Inl e, st)"
  | (new) e where "regDynamic on d bk p n dev rp st = Some (Inr rp, st\<lparr>regs := regs st @ [(rp, e)],
        prof := profile_record on kRegMemEvent (profile_record on kDynamicRegMemEvent (prof st))\<rparr>)"
      "e_state e = REGISTERED" "no_wrap (e_buf e) (e_len e)" "e_dynamic e" "bytes (p, n) \<subseteq> bytes (e_buf e, e_len e)"
proof -
  from pinRange_spec [OF d] consider e where "pinRange d p n = Some (Inl e)"
    | r rs a c where "pinRange d p n = Some (Inr (r # rs))" "chain a (r # rs) c" "a \<le> unat p" "unat p + unat n \<le> c"
      "\<forall>r \<in> set (r # rs). range_ok d r" by blast
  then show ?thesis
  proof cases
    case (1 e)
    then show ?thesis using that(1) by (simp add: regDynamic_def)
  next
    case p: (2 r rs a c)
    define e0 where "e0 = new_elem (sr_buf r) (total_len (map sr_len (r # rs))) dev True [] (sr_type r)"
    have e0: "e_nvl e0 = None" "e_ib e0 = None" "e_dynamic e0" "unat (e_buf e0) = a" by (use p(2) in \<open>simp_all add: e0_def new_elem_def\<close>)
    have len: "unat (e_buf e0) + unat (e_len e0) = c"
      using chain_len [OF p(2) _ p(5)] e0(4) by (simp add: e0_def new_elem_def)
    have c: "c < 2 ^ 64" using chain_end [OF p(2) _ p(5)] by simp
    from doRegister_cases [OF e0(1,2), of bk] show ?thesis
    proof (elim disjE exE)
      fix err assume "doRegister bk e0 = Some (Inl err)"
      then show ?thesis using that(1) p(1) by (simp add: regDynamic_def e0_def)
    next
      fix nvl ib tcp
      let ?e = "e0\<lparr>e_nvl := nvl, e_ib := ib, e_tcp := tcp, e_state := REGISTERED\<rparr>"
      assume "doRegister bk e0 = Some (Inr ?e)"
      then have s: "regDynamic on d bk p n dev rp st = Some (Inr rp, st\<lparr>regs := regs st @ [(rp, ?e)],
          prof := profile_record on kRegMemEvent (profile_record on kDynamicRegMemEvent (prof st))\<rparr>)"
        using p(1) by (simp add: regDynamic_def e0_def)
      have "no_wrap (e_buf ?e) (e_len ?e)" using len c by (simp add: no_wrap_def)
      moreover have "bytes (p, n) \<subseteq> bytes (e_buf ?e, e_len ?e)" using len e0(4) p(3,4) by (auto simp: bytes_def)
      ultimately show ?thesis using that(2) [OF s] e0(3) by simp
    qed
  qed
qed

lemma regRange_ok:
  assumes ok: "reg_ok d st" and d: "drv_ok d" "buffer_ok d p n" and rp: "rp \<notin> fst ` set (regs st)"
    and r: "regRange on d bk p n dev rp st = Some (r, st')"
  shows "reg_ok d st'"
proof (cases rule: regRange_cases [OF ok d, of on bk dev rp])
  case (1 h st1)
  then show ?thesis using r searchRegElem_ok [OF ok, of p n] by simp
next
  case (2 e)
  then show ?thesis using r ok by simp
next
  case 3
  then show ?thesis using r ok by simp
next
  case (4 e)
  then show ?thesis using r reg_ok_add [OF ok rp 4(2,3), of "link_segments rp (e_segments e) (seg_regs st)"] by simp
qed

lemma regDynamic_ok:
  assumes ok: "reg_ok d st" and d: "drv_ok d" "buffer_ok d p n" and rp: "rp \<notin> fst ` set (regs st)"
    and r: "regDynamic on d bk p n dev rp st = Some (r, st')"
  shows "reg_ok d st'"
proof (cases rule: regDynamic_cases [OF d, of on bk dev rp st])
  case (1 e)
  then show ?thesis using r ok by simp
next
  case (2 e)
  then show ?thesis using r reg_ok_add [OF ok rp 2(2,3), of "seg_regs st"] by simp
qed

section \<open>Releasing\<close>

text \<open>All backends released their handles of the registration.\<close>

definition released :: "backends \<Rightarrow> reg_elem \<Rightarrow> bool" where
  "released bk e \<longleftrightarrow> (\<forall>p \<in> set_option (e_nvl e). nvl_deregMem bk p = commSuccess) \<and> (\<forall>p \<in> set_option (e_ib e). ib_deregMem bk p = commSuccess) \<and>
     (\<forall>p \<in> set_option (e_tcp e). tcp_deregMem bk p = commSuccess)"

definition deregistered :: "reg_elem \<Rightarrow> reg_elem" where
  "deregistered e = e\<lparr>e_nvl := None, e_ib := None, e_tcp := None, e_state := DEREGISTERED\<rparr>"

lemma doDeregister_spec:
  assumes "e_state e = REGISTERED"
  obtains r e' where "doDeregister bk e = Some (r, e')" "r = commSuccess \<Longrightarrow> released bk e \<and> e' = deregistered e"
proof -
  let ?d = "doDeregister bk e"
  have "?d \<noteq> None" using assms by (simp add: doDeregister_def split: prod.split)
  moreover have "released bk e \<and> e' = deregistered e" if "?d = Some (commSuccess, e')" for e'
    using that assms
    by (cases "e_nvl e"; cases "e_ib e"; cases "e_tcp e"; simp add: doDeregister_def dereg_backend_def released_def deregistered_def split: if_splits)
  ultimately show ?thesis using that by (cases ?d) auto
qed

lemma dereg_all_spec:
  assumes "\<forall>x \<in> set es. e_state (snd x) = REGISTERED"
  obtains r es' pr' where "dereg_all on bk es pr = Some (r, es', pr')" "map fst es' = map fst es"
    "r = commSuccess \<Longrightarrow> es' = map (\<lambda>(h, e). (h, deregistered e)) es \<and> (\<forall>x \<in> set es. released bk (snd x))"
  using assms
proof (induction es arbitrary: pr thesis)
  case Nil
  then show ?case by simp
next
  case (Cons x es)
  obtain h e where x: "x = (h, e)" by (cases x)
  then have "e_state e = REGISTERED" using Cons.prems(2) by simp
  then obtain r e' where d: "doDeregister bk e = Some (r, e')" "r = commSuccess \<Longrightarrow> released bk e \<and> e' = deregistered e"
    using doDeregister_spec by blast
  show ?case
  proof (cases "r = commSuccess")
    case False
    then show ?thesis using Cons.prems(1) d x by simp
  next
    case True
    obtain r2 es' pr' where "dereg_all on bk es (profile_record on kDeregMemEvent pr) = Some (r2, es', pr')" "map fst es' = map fst es"
      "r2 = commSuccess \<Longrightarrow> es' = map (\<lambda>(h, e). (h, deregistered e)) es \<and> (\<forall>x \<in> set es. released bk (snd x))"
      using Cons.IH [of "profile_record on kDeregMemEvent pr"] Cons.prems(2) by auto
    then show ?thesis using Cons.prems(1) [of r2 "(h, e') # es'" pr'] d True x by simp
  qed
qed

lemma move_out_spec:
  assumes "distinct (map fst rs)" "move_out hs rs = (out, rest)"
  shows "rest = filter (\<lambda>x. fst x \<notin> set hs) rs \<and> set out = {x \<in> set rs. fst x \<in> set hs}"
  using assms
proof (induction hs arbitrary: rs out)
  case (Cons h hs)
  show ?case
  proof (cases "map_of rs h")
    case None
    then have "h \<notin> fst ` set rs" by (simp add: map_of_eq_None_iff)
    then have n: "x \<in> set rs \<Longrightarrow> fst x \<noteq> h" for x by auto
    have "move_out hs rs = (out, rest)" using Cons.prems None by simp
    note ih = Cons.IH [OF Cons.prems(1) this]
    have "filter (\<lambda>x. fst x \<notin> set hs) rs = filter (\<lambda>x. fst x \<notin> set (h # hs)) rs" by (rule filter_cong) (use n in auto)
    then show ?thesis using ih n by auto
  next
    case (Some e)
    let ?rs = "filter (\<lambda>x. fst x \<noteq> h) rs"
    obtain out1 where o: "move_out hs ?rs = (out1, rest)" "out = (h, e) # out1"
      using Cons.prems Some by (auto split: prod.splits)
    have ih: "rest = filter (\<lambda>x. fst x \<notin> set hs) ?rs \<and> set out1 = {x \<in> set ?rs. fst x \<in> set hs}"
      by (rule Cons.IH [OF _ o(1)]) (simp add: distinct_map_filter Cons.prems(1))
    have f: "filter (\<lambda>x. fst x \<notin> set hs) ?rs = filter (\<lambda>x. fst x \<notin> set (h # hs)) rs" by (simp add: conj_commute)
    have m: "(h, e) \<in> set rs" using Some by (rule map_of_SomeD)
    have u: "x = (h, e)" if x: "x \<in> set rs" "fst x = h" for x
    proof -
      have "(h, snd x) \<in> set rs" using x(1) x(2) [symmetric] by simp
      then have "map_of rs h = Some (snd x)" using Cons.prems(1) by simp
      then show ?thesis using x Some by (cases x) simp
    qed
    have "set out = insert (h, e) {x \<in> set rs. fst x \<noteq> h \<and> fst x \<in> set hs}" using ih o(2) by auto
    also have "\<dots> = {x \<in> set rs. fst x \<in> set (h # hs)}"
    proof (intro set_eqI iffI)
      fix x assume "x \<in> insert (h, e) {x \<in> set rs. fst x \<noteq> h \<and> fst x \<in> set hs}"
      then show "x \<in> {x \<in> set rs. fst x \<in> set (h # hs)}" using m by auto
    next
      fix x assume "x \<in> {x \<in> set rs. fst x \<in> set (h # hs)}"
      then show "x \<in> insert (h, e) {x \<in> set rs. fst x \<noteq> h \<and> fst x \<in> set hs}" using u [of x] by (cases "fst x = h") simp_all
    qed
    finally show ?thesis using ih f by simp
  qed
qed simp

lemma length_filter_key: "distinct (map fst rs) \<Longrightarrow> map_of rs h = Some e \<Longrightarrow> Suc (length (filter (\<lambda>x. fst x \<noteq> h) rs)) = length rs"
proof (induction rs)
  case (Cons x rs)
  show ?case
  proof (cases "fst x = h")
    case True
    then have "h \<notin> fst ` set rs" using Cons.prems by auto
    then have "filter (\<lambda>x. fst x \<noteq> h) rs = rs" by (auto simp: filter_id_conv)
    then show ?thesis using True by simp
  next
    case False
    then have "map_of rs h = Some e" using Cons.prems(2) by (cases x) (simp split: if_splits)
    then show ?thesis using Cons.IH Cons.prems(1) False by simp
  qed
qed simp

lemma move_out_length:
  assumes "distinct (map fst rs)" "move_out hs rs = (out, rest)"
  shows "length out + length rest = length rs"
  using assms
proof (induction hs arbitrary: rs out)
  case (Cons h hs)
  show ?case
  proof (cases "map_of rs h")
    case None
    then show ?thesis using Cons by simp
  next
    case (Some e)
    let ?rs = "filter (\<lambda>x. fst x \<noteq> h) rs"
    obtain out1 where o: "move_out hs ?rs = (out1, rest)" "out = (h, e) # out1"
      using Cons.prems Some by (auto split: prod.splits)
    have "length out1 + length rest = length ?rs"
      by (rule Cons.IH [OF _ o(1)]) (simp add: distinct_map_filter Cons.prems(1))
    then show ?thesis using o(2) length_filter_key [OF Cons.prems(1) Some] by simp
  qed
qed simp

lemma deregDynamic_ok:
  assumes ok: "reg_ok d st" and r: "deregDynamic on bk h st = Some (r, st')"
  shows "reg_ok d st'"
proof -
  have *: "reg_ok d (st\<lparr>regs := filter (\<lambda>x. fst x \<noteq> h) (regs st), prof := pr\<rparr>)" (is "reg_ok d ?st") for pr
  proof (intro reg_okI)
    note oks = reg_okD [OF ok]
    show "cache_ok (avl ?st)" "inj_on val (cached ?st)" "distinct (map fst (regs ?st))" using oks by (simp_all add: distinct_map_filter)
    show "seg_ok d ?st x" if "x \<in> cached ?st" for x using oks(2) [of x] that by (auto intro: seg_ok_same)
    show "elem_ok ?st k e" if "(k, e) \<in> set (regs ?st)" for k e
      by (rule elem_ok_mono [OF oks(5) [of k e]]) (use that in auto)
  qed
  from * [of "prof st"] have s: "reg_ok d (st\<lparr>regs := filter (\<lambda>x. fst x \<noteq> h) (regs st)\<rparr>)" by simp
  show ?thesis
    using r ok s * by (auto simp: deregDynamic_def Let_def split: option.splits sum.splits if_splits)
qed

text \<open>After the release of the segment \<open>q\<close> with the handle \<open>h\<close> and of its registrations.\<close>

lemma reg_ok_free:
  assumes ok: "reg_ok d st" and x: "x \<in> cached st" "hdl x = h" "val x = q"
    and avl1: "cache_ok avl1" "cache_elems avl1 = del_hdl h (cache_elems (avl st))"
    and same: "\<And>q'. q' \<noteq> q \<Longrightarrow> segs1 q' = segs st q'"
    and rest: "rest = filter (\<lambda>x. fst x \<notin> set (case seg_regs st q of None \<Rightarrow> [] | Some l \<Rightarrow> l)) (regs st)"
  shows "reg_ok d (st\<lparr>segs := segs1, regs := rest, seg_regs := (seg_regs st)(q := None), avl := avl1, prof := pr\<rparr>)"
    (is "reg_ok d ?st")
proof (intro reg_okI)
  note oks = reg_okD [OF ok]
  have cd: "cached ?st = {y \<in> cached st. hdl y \<noteq> h}" by (simp add: avl1(2) set_del_hdl)
  have ne: "hdl y = h \<longleftrightarrow> val y = q" if "y \<in> cached st" for y
  proof -
    have "inj_on hdl (cached st)" using oks(1) by (simp add: cache_ok_def distinct_map)
    then show ?thesis using that x oks(3) by (metis inj_on_eq_iff)
  qed
  show "cache_ok (avl ?st)" "inj_on val (cached ?st)" using avl1(1) oks(3) cd by (auto simp: inj_on_def)
  show "distinct (map fst (regs ?st))" using oks(4) rest by (simp add: distinct_map_filter)
  show "seg_ok d ?st y" if "y \<in> cached ?st" for y
  proof -
    have y: "y \<in> cached st" "val y \<noteq> q" using that ne cd by auto
    show ?thesis by (rule seg_ok_same [OF oks(2) [OF y(1)]]) (use y same in simp)
  qed
  fix k e assume "(k, e) \<in> set (regs ?st)"
  then have ke: "(k, e) \<in> set (regs st)" "k \<notin> set (case seg_regs st q of None \<Rightarrow> [] | Some l \<Rightarrow> l)" using rest by auto
  note eo = oks(5) [OF ke(1)]
  have nq: "q \<notin> set (e_segments e)" if "\<not> e_dynamic e"
  proof
    assume "q \<in> set (e_segments e)"
    then show False using eo that ke(2) by (auto simp: elem_ok_def)
  qed
  show "elem_ok ?st k e"
  proof (rule elem_ok_mono [OF eo])
    fix q' assume q': "q' \<in> set (e_segments e)" "\<not> e_dynamic e" "q' \<in> val ` cached st"
    then have "q' \<noteq> q" using nq by auto
    moreover obtain y where "y \<in> cached st" "q' = val y" using q'(3) by auto
    ultimately show "q' \<in> val ` cached ?st \<and> range_at ?st q' = range_at st q'" using ne cd same by auto
  next
    fix q' l assume "q' \<in> set (e_segments e)" "\<not> e_dynamic e" "seg_regs st q' = Some l"
    then show "\<exists>l'. seg_regs ?st q' = Some l' \<and> set l \<subseteq> set l'" using nq by auto
  qed simp_all
qed

lemma freeSegment_cases:
  assumes ok: "reg_ok d st"
  obtains (unknown) "cache_lookup h (avl st) = None" "freeSegment on bk h st = Some ((commInvalidUsage, False, False, []), st)"
  | (in_use) q s where "cache_lookup h (avl st) = Some q" "segs st q = Some s" "1 < s_refCount s"
      "freeSegment on bk h st = Some ((commSuccess, False, s_ncclManaged s, []), st\<lparr>segs := (segs st)(q \<mapsto> s\<lparr>s_refCount := s_refCount s - 1\<rparr>)\<rparr>)"
  | (crash) q s where "cache_lookup h (avl st) = Some q" "segs st q = Some s" "s_refCount s = 1" "root (avl st) = Null"
      "freeSegment on bk h st = None"
  | (freed) q s x out rest avl1 segs1 pr r out1 where "cache_lookup h (avl st) = Some q" "segs st q = Some s" "s_refCount s = 1"
      "root (avl st) \<noteq> Null" "x \<in> cached st" "hdl x = h" "val x = q" "cache_ok avl1" "cache_elems avl1 = del_hdl h (cache_elems (avl st))"
      "rest = filter (\<lambda>x. fst x \<notin> set (case seg_regs st q of None \<Rightarrow> [] | Some l \<Rightarrow> l)) (regs st)"
      "set out = {x \<in> set (regs st). fst x \<in> set (case seg_regs st q of None \<Rightarrow> [] | Some l \<Rightarrow> l)}"
      "\<And>q'. q' \<noteq> q \<Longrightarrow> segs1 q' = segs st q'"
      "freeSegment on bk h st = Some ((r, True, s_ncclManaged s, out1), st\<lparr>segs := segs1, regs := rest, seg_regs := (seg_regs st)(q := None), avl := avl1, prof := pr\<rparr>)"
      "map fst out1 = map fst out"
      "r = commSuccess \<Longrightarrow> out1 = map (\<lambda>(h, e). (h, deregistered e)) out \<and> (\<forall>x \<in> set out. released bk (snd x))"
      "length out + length rest = length (regs st)"
proof (cases "cache_lookup h (avl st)")
  case None
  then show ?thesis using that(1) by (simp add: freeSegment_def)
next
  case (Some q)
  note oks = reg_okD [OF ok]
  obtain x where x: "x \<in> cached st" "hdl x = h" "val x = q" using lookup_ok [OF oks(1)] Some by blast
  obtain s where s: "segs st q = Some s" "s_avlHdl s = h" "0 < s_refCount s" using oks(2) [OF x(1)] x by (auto simp: seg_ok_def)
  show ?thesis
  proof (cases "s_refCount s = 1")
    case False
    then show ?thesis using that(2) [of q s] Some s by (simp add: freeSegment_def Let_def)
  next
    case one: True
    obtain out rest where mo: "move_out (case seg_regs st q of None \<Rightarrow> [] | Some l \<Rightarrow> l) (regs st) = (out, rest)" by fastforce
    note m = move_out_spec [OF oks(4) mo] and ml = move_out_length [OF oks(4) mo]
    have hin: "h \<in> handles (avl st)" using oks(1) x by (auto simp: cache_ok_def)
    let ?s1 = "s\<lparr>s_refCount := s_refCount s - 1\<rparr>"
    show ?thesis
    proof (cases "root (avl st) = Null")
      case True
      then have "cache_remove h (avl st) = None" using hin by (auto simp: cache_remove_def)
      then show ?thesis using that(3) [OF Some s(1) one True] Some s mo one by (simp add: freeSegment_def Let_def)
    next
      case False
      obtain avl1 where a: "cache_remove h (avl st) = Some (commSuccess, avl1)" "cache_ok avl1"
        "cache_elems avl1 = del_hdl h (cache_elems (avl st))" using cache_remove_ok [OF oks(1) hin False] by metis
      have "\<forall>x \<in> set out. e_state (snd x) = REGISTERED" using m oks(5) by (auto simp: elem_ok_def)
      then obtain r2 out1 pr where dr: "dereg_all on bk out (prof st) = Some (r2, out1, pr)" "map fst out1 = map fst out"
        "r2 = commSuccess \<Longrightarrow> out1 = map (\<lambda>(h, e). (h, deregistered e)) out \<and> (\<forall>x \<in> set out. released bk (snd x))"
        using dereg_all_spec [of out on bk "prof st"] by blast
      note mr = conjunct1 [OF m] and mi = conjunct2 [OF m]
      show ?thesis
      proof (cases "r2 = commSuccess")
        case True
        show ?thesis
          by (rule that(4) [OF Some s(1) one False x a(2,3) mr mi, of "((segs st)(q \<mapsto> ?s1))(q := None)"
                r2 out1 "profile_record on kFreeSegEvent pr"])
            (use Some s mo one a(1) dr ml True in \<open>auto simp: freeSegment_def Let_def\<close>)
      next
        case False
        show ?thesis
          by (rule that(4) [OF Some s(1) one \<open>root (avl st) \<noteq> Null\<close> x a(2,3) mr mi, of "(segs st)(q \<mapsto> ?s1)" r2 out1 pr])
            (use Some s mo one a(1) dr ml False in \<open>auto simp: freeSegment_def Let_def\<close>)
      qed
    qed
  qed
qed

lemma freeSegment_ok:
  assumes ok: "reg_ok d st" and r: "freeSegment on bk h st = Some (r, st')"
  shows "reg_ok d st'"
proof (cases rule: freeSegment_cases [OF ok, of h on bk])
  case 1
  then show ?thesis using r ok by simp
next
  case (2 q s)
  then show ?thesis using r reg_ok_refcount [OF ok 2(2), of "s_refCount s - 1"] by simp
next
  case (3 q s)
  then show ?thesis using r by simp
next
  case (4 q s x out rest avl1 segs1 pr r1 out1)
  have "st' = st\<lparr>segs := segs1, regs := rest, seg_regs := (seg_regs st)(q := None), avl := avl1, prof := pr\<rparr>" using 4(13) r by simp
  then show ?thesis using reg_ok_free [OF ok 4(5-9,12,10)] by simp
qed

section \<open>Reachable states\<close>

text \<open>
  The public methods in any order; the backends can answer differently each time, the driver's map of the memory does not change.
  A new object has an address that no live object of its kind has; users pass buffers of one kind of memory.
\<close>

inductive rc_reach :: "bool \<Rightarrow> driver \<Rightarrow> reg_cache \<Rightarrow> bool" for on d where
  start: "rc_reach on d rc_init"
| cache: "rc_reach on d st \<Longrightarrow> buffer_ok d p n \<Longrightarrow> sp \<notin> dom (segs st) \<Longrightarrow> hp \<notin> handles (avl st) \<Longrightarrow>
    cacheSegment on d p n dev managed sp hp st = Some (r, st') \<Longrightarrow> rc_reach on d st'"
| search: "rc_reach on d st \<Longrightarrow> isRegistered p n st = (b, st') \<Longrightarrow> rc_reach on d st'"
| register: "rc_reach on d st \<Longrightarrow> buffer_ok d p n \<Longrightarrow> rp \<notin> fst ` set (regs st) \<Longrightarrow>
    regRange on d bk p n dev rp st = Some (r1, st') \<Longrightarrow> rc_reach on d st'"
| dynamic: "rc_reach on d st \<Longrightarrow> buffer_ok d p n \<Longrightarrow> rp \<notin> fst ` set (regs st) \<Longrightarrow>
    regDynamic on d bk p n dev rp st = Some (r2, st') \<Longrightarrow> rc_reach on d st'"
| release: "rc_reach on d st \<Longrightarrow> deregDynamic on bk h st = Some (r3, st') \<Longrightarrow> rc_reach on d st'"
| free: "rc_reach on d st \<Longrightarrow> freeSegment on bk h st = Some (r4, st') \<Longrightarrow> rc_reach on d st'"
| push: "rc_reach on d st \<Longrightarrow> buffer_ok d p n \<Longrightarrow> asyncRegRange j p n dev st = (r5, st') \<Longrightarrow> rc_reach on d st'"
| async: "rc_reach on d st \<Longrightarrow> rp \<notin> fst ` set (regs st) \<Longrightarrow> asyncRegStep on d bk rp st = Some st' \<Longrightarrow> rc_reach on d st'"

definition queue_ok :: "driver \<Rightarrow> reg_cache \<Rightarrow> bool" where
  "queue_ok d st \<longleftrightarrow> (\<forall>(p, n, dev) \<in> set (asyncQueue st). buffer_ok d p n)"

lemma queue_ok_same: "asyncQueue st' = asyncQueue st \<Longrightarrow> queue_ok d st \<Longrightarrow> queue_ok d st'"
  by (simp add: queue_ok_def)

lemma reg_ok_fields:
  assumes "reg_ok d st" "avl st' = avl st" "segs st' = segs st" "regs st' = regs st" "seg_regs st' = seg_regs st"
  shows "reg_ok d st'"
  using assms by (simp add: reg_ok_def seg_ok_def elem_ok_def)

lemma queue_cacheSegment: "cacheSegment on d p n dev managed sp hp st = Some (r, st') \<Longrightarrow> asyncQueue st' = asyncQueue st"
  by (auto simp: cacheSegment_def split: option.splits sum.splits list.splits prod.splits)

lemma queue_search: "searchRegElem p n st = (r, st') \<Longrightarrow> asyncQueue st' = asyncQueue st"
  by (auto simp: searchRegElem_def split: option.splits)

lemma queue_deregDynamic: "deregDynamic on bk h st = Some (r, st') \<Longrightarrow> asyncQueue st' = asyncQueue st"
  by (auto simp: deregDynamic_def Let_def split: option.splits sum.splits if_splits)

lemma queue_regRange:
  assumes "reg_ok d st" "drv_ok d" "buffer_ok d p n" "regRange on d bk p n dev rp st = Some (r, st')"
  shows "asyncQueue st' = asyncQueue st"
  by (cases rule: regRange_cases [OF assms(1-3), of on bk dev rp]) (use assms(4) queue_search in auto)

lemma queue_regDynamic:
  assumes "drv_ok d" "buffer_ok d p n" "regDynamic on d bk p n dev rp st = Some (r, st')"
  shows "asyncQueue st' = asyncQueue st"
  by (cases rule: regDynamic_cases [OF assms(1,2), of on bk dev rp st]) (use assms(3) in auto)

lemma queue_freeSegment:
  assumes "reg_ok d st" "freeSegment on bk h st = Some (r, st')"
  shows "asyncQueue st' = asyncQueue st"
  by (cases rule: freeSegment_cases [OF assms(1), of h on bk]) (use assms(2) in auto)

lemma asyncRegStep_cases:
  assumes "asyncRegStep on d bk rp st = Some st'"
  obtains (idle) "asyncQueue st = []" "st' = st"
  | (cmd) p n dev q h did st1 where "asyncQueue st = (p, n, dev) # q" "regRange on d bk p n dev rp st = Some (Inr (h, did), st1)"
      "st' = st1\<lparr>asyncQueue := tl (asyncQueue st1), prof := (if did then profile_record on kAsyncRegMemEvent (prof st1) else prof st1)\<rparr>"
proof (cases "asyncQueue st")
  case Nil
  then show ?thesis using that(1) assms by (simp add: asyncRegStep_def)
next
  case (Cons c q)
  obtain p n dev where c: "c = (p, n, dev)" by (cases c)
  then show ?thesis using assms Cons that(2) [of p n dev q]
    by (auto simp: asyncRegStep_def split: if_splits option.splits sum.splits)
qed

lemma reach_ok:
  assumes "rc_reach on d st" "drv_ok d"
  shows "reg_ok d st \<and> queue_ok d st"
  using assms
proof (induction rule: rc_reach.induct)
  case start
  then show ?case by (simp add: reg_ok_init) (simp add: queue_ok_def rc_init_def)
next
  case (cache st p n sp hp dev managed r st')
  then show ?case using cacheSegment_ok [OF _ cache.prems cache.hyps(2-5)] queue_ok_same [OF queue_cacheSegment [OF cache.hyps(5)]] by simp
next
  case (search st p n b st')
  then have "st' = snd (searchRegElem p n st)" by (auto simp: isRegistered_def split: prod.splits)
  then show ?case using search.IH search.prems searchRegElem_ok queue_ok_same [OF queue_search [OF prod.collapse [symmetric]]] by simp
next
  case (register st p n rp bk dev r1 st')
  then show ?case using regRange_ok [OF _ register.prems register.hyps(2-4)] queue_ok_same [OF queue_regRange [OF _ register.prems register.hyps(2,4)]] by simp
next
  case (dynamic st p n rp bk dev r2 st')
  then show ?case using regDynamic_ok [OF _ dynamic.prems dynamic.hyps(2-4)] queue_ok_same [OF queue_regDynamic [OF dynamic.prems dynamic.hyps(2,4)]] by simp
next
  case (release st bk h r3 st')
  then show ?case using deregDynamic_ok [OF _ release.hyps(2)] queue_ok_same [OF queue_deregDynamic [OF release.hyps(2)]] by simp
next
  case (free st bk h r4 st')
  then show ?case using freeSegment_ok [where d = d, OF _ free.hyps(2)] queue_ok_same [OF queue_freeSegment [where d = d, OF _ free.hyps(2)], of d] by simp
next
  case (push st p n j dev r5 st')
  then show ?case
    by (auto simp: asyncRegRange_def queue_ok_def split: if_splits intro: reg_ok_fields [of d st])
next
  case (async st rp bk st')
  then have ok: "reg_ok d st" "queue_ok d st" "drv_ok d" by simp_all
  show ?case
  proof (cases rule: asyncRegStep_cases [OF async.hyps(3)])
    case 1
    then show ?thesis using ok by simp
  next
    case (2 p n dev q h did st1)
    then have b: "buffer_ok d p n" using ok(2) by (simp add: queue_ok_def)
    have "reg_ok d st1" using regRange_ok [OF ok(1,3) b async.hyps(2)] 2(2) by blast
    then have "reg_ok d st'" by (rule reg_ok_fields) (simp_all add: 2(3))
    moreover have "asyncQueue st1 = asyncQueue st" using queue_regRange [OF ok(1,3) b] 2(2) by blast
    then have "queue_ok d st'" using ok(2) 2(1,3) by (simp add: queue_ok_def)
    ultimately show ?thesis by simp
  qed
qed

section \<open>Properties\<close>

lemma chain_bytes:
  assumes "chain a rs c"
  shows "(\<Union>r \<in> set rs. bytes (sr_buf r, sr_len r)) = {a..<c}"
proof -
  have "a \<le> c \<and> (\<Union>r \<in> set rs. bytes (sr_buf r, sr_len r)) = {a..<c}" using assms
  proof (induction rs arbitrary: a)
    case (Cons r rs)
    then have ih: "a + unat (sr_len r) \<le> c" "(\<Union>r \<in> set rs. bytes (sr_buf r, sr_len r)) = {a + unat (sr_len r)..<c}" and r: "unat (sr_buf r) = a"
      by simp_all
    have "bytes (sr_buf r, sr_len r) = {a..<a + unat (sr_len r)}" using r by (simp add: bytes_def)
    then show ?case using ih by (simp add: ivl_disj_un_two(3))
  qed simp
  then show ?thesis by simp
qed

text \<open>A driver with two \<^verbatim>\<open>cuMem\<close> ranges in pinned host memory, and backends that accept everything.\<close>

definition demo_drv :: driver where
  "demo_drv = \<lparr>getDevMemType = (\<lambda>a. if 4096 \<le> a \<and> a < 12288 then Inr kCumem else Inr kHostPinned),
     addressRange = (\<lambda>a. if 4096 \<le> a \<and> a < 8192 then Inr (4096, 4096)
       else if 8192 \<le> a \<and> a < 12288 then Inr (8192, 4096) else Inl commUnhandledCudaError)\<rparr>"

definition demo_bk :: backends where
  "demo_bk = \<lparr>tcp_enabled = False, ib_enabled = True, nvl_regMem = (\<lambda>p n. None), ib_regMem = (\<lambda>p n. Some (Inr 7)),
     tcp_regMem = (\<lambda>p n. Inl commInternalError), nvl_deregMem = (\<lambda>h. commSuccess), ib_deregMem = (\<lambda>h. commSuccess),
     tcp_deregMem = (\<lambda>h. commSuccess)\<rparr>"

definition demo_rc1 :: reg_cache where
  "demo_rc1 = snd (the (cacheSegment True demo_drv 4096 4096 0 False 100 1 rc_init))"

definition demo_rc2 :: reg_cache where
  "demo_rc2 = snd (the (cacheSegment True demo_drv 8192 4096 0 False 101 2 demo_rc1))"

definition demo_rc3 :: reg_cache where
  "demo_rc3 = snd (the (regRange True demo_drv demo_bk 6000 4000 0 200 demo_rc2))"

lemma demo_drv_ok: "drv_ok demo_drv"
  unfolding drv_ok_def
proof (intro allI impI)
  fix a b n assume r: "addressRange demo_drv a = Inr (b, n)"
  then have "(b = 4096 \<and> n = 4096 \<and> 4096 \<le> a \<and> a < 8192) \<or> (b = 8192 \<and> n = 4096 \<and> 8192 \<le> a \<and> a < 12288)"
    by (auto simp: demo_drv_def split: if_splits)
  then show "no_wrap b n \<and> unat a \<in> bytes (b, n) \<and>
     (\<forall>a'. unat a' \<in> bytes (b, n) \<longrightarrow> addressRange demo_drv a' = Inr (b, n) \<and> getDevMemType demo_drv a' = getDevMemType demo_drv a)"
    by (elim disjE conjE) (auto simp: no_wrap_def bytes_def demo_drv_def word_le_nat_alt word_less_nat_alt)
qed

lemma demo_buffers: "buffer_ok demo_drv 4096 4096" "buffer_ok demo_drv 8192 4096" "buffer_ok demo_drv 6000 4000"
  by (auto simp: buffer_ok_def no_wrap_def bytes_def demo_drv_def word_le_nat_alt word_less_nat_alt)

lemma demo_step: "r \<noteq> None \<Longrightarrow> r = Some (fst (the r), snd (the r))"
  by auto

lemma demo_reach1: "rc_reach True demo_drv demo_rc1"
proof (rule rc_reach.cache [OF rc_reach.start demo_buffers(1)])
  show "cacheSegment True demo_drv 4096 4096 0 False 100 1 rc_init =
      Some (fst (the (cacheSegment True demo_drv 4096 4096 0 False 100 1 rc_init)), demo_rc1)"
    unfolding demo_rc1_def by (rule demo_step) code_simp
qed (simp_all add: rc_init_def cache_init_def)

lemma demo_reach2: "rc_reach True demo_drv demo_rc2"
proof (rule rc_reach.cache [OF demo_reach1 demo_buffers(2)])
  show "cacheSegment True demo_drv 8192 4096 0 False 101 2 demo_rc1 =
      Some (fst (the (cacheSegment True demo_drv 8192 4096 0 False 101 2 demo_rc1)), demo_rc2)"
    unfolding demo_rc2_def by (rule demo_step) code_simp
  have "segs demo_rc1 101 = None" by code_simp
  then show "101 \<notin> dom (segs demo_rc1)" by (simp add: dom_def)
  show "2 \<notin> handles (avl demo_rc1)" by code_simp
qed

lemma demo_reach3: "rc_reach True demo_drv demo_rc3"
proof (rule rc_reach.register [OF demo_reach2 demo_buffers(3)])
  show "regRange True demo_drv demo_bk 6000 4000 0 200 demo_rc2 =
      Some (fst (the (regRange True demo_drv demo_bk 6000 4000 0 200 demo_rc2)), demo_rc3)"
    unfolding demo_rc3_def by (rule demo_step) code_simp
  show "200 \<notin> fst ` set (regs demo_rc2)" by code_simp
qed

lemma elem_ok_covers:
  assumes "reg_ok d st" "(h, e) \<in> set (regs st)" "\<not> e_dynamic e"
  shows "bytes (e_buf e, e_len e) = (\<Union>q \<in> set (e_segments e). bytes (sr_buf (range_at st q), sr_len (range_at st q)))"
    "\<And>q. q \<in> set (e_segments e) \<Longrightarrow> \<exists>(x :: elem) s l. cache_lookup (hdl x) (avl st) = Some q \<and> segs st q = Some s \<and> 0 < s_refCount s \<and>
       seg_regs st q = Some l \<and> h \<in> set l"
proof -
  note eo = reg_okD(5) [OF assms(1,2)]
  have c: "chain (unat (e_buf e)) (map (range_at st) (e_segments e)) (unat (e_buf e) + unat (e_len e))"
    using eo assms(3) by (simp add: elem_ok_def)
  show "bytes (e_buf e, e_len e) = (\<Union>q \<in> set (e_segments e). bytes (sr_buf (range_at st q), sr_len (range_at st q)))"
    using chain_bytes [OF c] by (simp add: bytes_def)
  fix q assume q: "q \<in> set (e_segments e)"
  then obtain x l where x: "x \<in> cached st" "q = val x" "seg_regs st q = Some l" "h \<in> set l"
    using eo assms(3) by (auto simp: elem_ok_def)
  have "cache_lookup (hdl x) (avl st) = Some q" using lookup_ok [OF reg_okD(1) [OF assms(1)]] x(1,2) by blast
  moreover obtain s where "segs st q = Some s" "0 < s_refCount s" using reg_okD(2) [OF assms(1) x(1)] x(2) by (auto simp: seg_ok_def)
  ultimately show "\<exists>(x :: elem) s l. cache_lookup (hdl x) (avl st) = Some q \<and> segs st q = Some s \<and> 0 < s_refCount s \<and>
       seg_regs st q = Some l \<and> h \<in> set l" using x(3,4) by blast
qed

text \<open>C22: In every reachable state of the registration cache, whatever the backends answered, each registration of the map is in the state
  \<open>REGISTERED\<close> (that of a new object: none that was deregistered is kept), and one that is not dynamic covers exactly the bytes of its segments: all of them are still cached, in use, and know the
  registration, so that freeing any of them takes it out. No registration outlives its memory.
\<close>

theorem registrations_backed:
  assumes "drv_ok d" "rc_reach on d st" "(h, e) \<in> set (regs st)"
  shows "e_state e = REGISTERED \<and> (e_dynamic e \<or>
    bytes (e_buf e, e_len e) = (\<Union>q \<in> set (e_segments e). bytes (sr_buf (range_at st q), sr_len (range_at st q))) \<and>
    (\<forall>q \<in> set (e_segments e). \<exists>(x :: elem) s l. cache_lookup (hdl x) (avl st) = Some q \<and> segs st q = Some s \<and> 0 < s_refCount s \<and>
       seg_regs st q = Some l \<and> h \<in> set l))"
proof -
  have ok: "reg_ok d st" using reach_ok [OF assms(2,1)] by simp
  have "e_state e = REGISTERED" using reg_okD(5) [OF ok assms(3)] by (simp add: elem_ok_def)
  then show ?thesis using elem_ok_covers [OF ok assms(3)] by blast
qed

theorem registrations_backed_witness:
  "e_segments (snd (hd (regs demo_rc3))) = [100, 101] \<and> e_state (snd (hd (regs demo_rc3))) = REGISTERED"
proof
  have m: "hd (regs demo_rc3) \<in> set (regs demo_rc3)" by code_simp
  then have m: "(fst (hd (regs demo_rc3)), snd (hd (regs demo_rc3))) \<in> set (regs demo_rc3)" by simp
  show "e_state (snd (hd (regs demo_rc3))) = REGISTERED"
    using registrations_backed [OF demo_drv_ok demo_reach3 m] by (rule conjunct1)
  show "e_segments (snd (hd (regs demo_rc3))) = [100, 101]" by code_simp
qed

text \<open>The answer that \<open>searchRegHandle\<close> promises.\<close>

definition handle_covers :: "bool \<Rightarrow> u64 \<Rightarrow> u64 \<Rightarrow> ptr \<Rightarrow> bool \<Rightarrow> reg_cache \<Rightarrow> bool" where
  "handle_covers allow p n h dyn st \<longleftrightarrow> (\<exists>e. (h, e) \<in> set (regs st) \<and> e_state e = REGISTERED \<and> e_dynamic e = dyn \<and>
     bytes (p, n) \<subseteq> bytes (e_buf e, e_len e)) \<and> (dyn \<longrightarrow> allow)"

lemma handle_coversI:
  "(h, e) \<in> set (regs st) \<Longrightarrow> e_state e = REGISTERED \<Longrightarrow> e_dynamic e = dyn \<Longrightarrow> bytes (p, n) \<subseteq> bytes (e_buf e, e_len e) \<Longrightarrow>
    (dyn \<Longrightarrow> allow) \<Longrightarrow> handle_covers allow p n h dyn st"
  by (auto simp: handle_covers_def)

text \<open>C23: \<^verbatim>\<open>searchRegHandle\<close> always returns: on a reachable state and a buffer of one kind of memory it gives an error, or a
  handle in the map whose registration is live and covers every byte of the buffer; the handle is a dynamic registration
  exactly when the caller is told so, which happens only when the caller allows it.
\<close>

theorem searchRegHandle_covers:
  assumes "drv_ok d" "rc_reach on d st" "buffer_ok d p n" "rp \<notin> fst ` set (regs st)"
  shows "\<exists>r st'. searchRegHandle on d bk allow p n dev rp st = Some (r, st') \<and>
    (case r of Inl err \<Rightarrow> True | Inr (h, dyn) \<Rightarrow> handle_covers allow p n h dyn st')"
proof -
  have ok: "reg_ok d st" using reach_ok [OF assms(2,1)] by simp
  have nw: "no_wrap p n" using assms(3) by (simp add: buffer_ok_def)
  show ?thesis
  proof (cases rule: regRange_cases [OF ok assms(1,3), of on bk dev rp])
    case (1 h st1)
    obtain e where e: "(h, e) \<in> set (regs st1)" "\<not> e_dynamic e" "bytes (p, n) \<subseteq> bytes (e_buf e, e_len e)"
      using searchRegElem_hit [OF ok nw, of h] 1(1) by auto
    moreover have "e_state e = REGISTERED"
      using reg_okD(5) [OF searchRegElem_ok [OF ok, of p n]] 1(1) e(1) by (simp add: elem_ok_def)
    ultimately have "handle_covers allow p n h False st1" by (auto intro: handle_coversI)
    then show ?thesis using 1(2) by (simp add: searchRegHandle_def)
  next
    case (2 e)
    then show ?thesis by (simp add: searchRegHandle_def)
  next
    case 3
    show ?thesis
    proof (cases allow)
      case False
      then show ?thesis using 3 by (simp add: searchRegHandle_def)
    next
      case True
      show ?thesis
      proof (cases rule: regDynamic_cases [OF assms(1,3), of on bk dev rp st])
        case (1 e)
        then show ?thesis using 3 True by (simp add: searchRegHandle_def)
      next
        case (2 e)
        let ?st = "st\<lparr>regs := regs st @ [(rp, e)], prof := profile_record on kRegMemEvent (profile_record on kDynamicRegMemEvent (prof st))\<rparr>"
        have "handle_covers allow p n rp True ?st" by (rule handle_coversI [of _ e]) (use 2 True in simp_all)
        then show ?thesis using 3 True 2(1) by (simp add: searchRegHandle_def)
      qed
    qed
  next
    case (4 e)
    let ?st = "st\<lparr>regs := regs st @ [(rp, e)], seg_regs := link_segments rp (e_segments e) (seg_regs st),
      prof := profile_record on kRegMemEvent (prof st)\<rparr>"
    have "handle_covers allow p n rp False ?st" by (rule handle_coversI [of _ e]) (use 4 in simp_all)
    then show ?thesis using 4(1) by (simp add: searchRegHandle_def)
  qed
qed

theorem searchRegHandle_covers_witness:
  "\<exists>h st'. searchRegHandle True demo_drv demo_bk False 6000 4000 0 200 demo_rc2 = Some (Inr (h, False), st') \<and>
     handle_covers False 6000 4000 h False st'"
proof -
  have f: "200 \<notin> fst ` set (regs demo_rc2)" by code_simp
  obtain r st' where r: "searchRegHandle True demo_drv demo_bk False 6000 4000 0 200 demo_rc2 = Some (r, st')"
    "case r of Inl err \<Rightarrow> True | Inr (h, dyn) \<Rightarrow> handle_covers False 6000 4000 h dyn st'"
    using searchRegHandle_covers [OF demo_drv_ok demo_reach2 demo_buffers(3) f] by metis
  have "\<not> isl (fst (the (searchRegHandle True demo_drv demo_bk False 6000 4000 0 200 demo_rc2)))" by code_simp
  then obtain h dyn where h: "r = Inr (h, dyn)" using r(1) by (cases r) auto
  then have c: "handle_covers False 6000 4000 h dyn st'" using r(2) by simp
  then have "dyn = False" by (simp add: handle_covers_def)
  then show ?thesis using r(1) h c by blast
qed

text \<open>\<^verbatim>\<open>freeSegment\<close> has no defined result exactly when the last user frees a segment while the tree of the index is
  empty: the segment is then one of the overflow list, and \<^verbatim>\<open>CtranAvlTree::remove\<close> follows a null root. The witness
  reaches this with two overlapping user segments, freed in the order they were cached.
\<close>

theorem freeSegment_undefined:
  assumes "drv_ok d" "rc_reach on d st"
  shows "freeSegment on bk h st = None \<longleftrightarrow> root (avl st) = Null \<and>
    (\<exists>q s. cache_lookup h (avl st) = Some q \<and> segs st q = Some s \<and> s_refCount s = 1)"
proof -
  have ok: "reg_ok d st" using reach_ok [OF assms(2,1)] by simp
  show ?thesis by (cases rule: freeSegment_cases [OF ok, of h on bk]) simp_all
qed

definition demo_ovl :: reg_cache where
  "demo_ovl = snd (the (freeSegment True demo_bk 1
     (snd (the (cacheSegment True demo_drv 20480 512 0 False 101 2
       (snd (the (cacheSegment True demo_drv 20480 256 0 False 100 1 rc_init))))))))"

lemma demo_reach_ovl: "rc_reach True demo_drv demo_ovl"
proof -
  have b: "buffer_ok demo_drv 20480 256" "buffer_ok demo_drv 20480 512"
    by (auto simp: buffer_ok_def no_wrap_def bytes_def demo_drv_def word_le_nat_alt word_less_nat_alt)
  let ?c1 = "cacheSegment True demo_drv 20480 256 0 False 100 1 rc_init"
  let ?s1 = "snd (the ?c1)"
  let ?c2 = "cacheSegment True demo_drv 20480 512 0 False 101 2 ?s1"
  let ?s2 = "snd (the ?c2)"
  have r1: "rc_reach True demo_drv ?s1"
  proof (rule rc_reach.cache [OF rc_reach.start b(1)])
    show "?c1 = Some (fst (the ?c1), ?s1)" by (rule demo_step) code_simp
  qed (simp_all add: rc_init_def cache_init_def)
  have r2: "rc_reach True demo_drv ?s2"
  proof (rule rc_reach.cache [OF r1 b(2)])
    show "?c2 = Some (fst (the ?c2), ?s2)" by (rule demo_step) code_simp
    have "segs ?s1 101 = None" by code_simp
    then show "101 \<notin> dom (segs ?s1)" by (simp add: dom_def)
    show "2 \<notin> handles (avl ?s1)" by code_simp
  qed
  show ?thesis
  proof (rule rc_reach.free [OF r2])
    show "freeSegment True demo_bk 1 ?s2 = Some (fst (the (freeSegment True demo_bk 1 ?s2)), demo_ovl)"
      unfolding demo_ovl_def by (rule demo_step) code_simp
  qed
qed

theorem freeSegment_undefined_witness:
  "rc_reach True demo_drv demo_ovl \<and> cache_lookup 2 (avl demo_ovl) = Some 101 \<and> freeSegment True demo_bk 2 demo_ovl = None"
proof (intro conjI)
  show "rc_reach True demo_drv demo_ovl" by (rule demo_reach_ovl)
  show l: "cache_lookup 2 (avl demo_ovl) = Some 101" by code_simp
  have r: "root (avl demo_ovl) = Null" by code_simp
  have "segs demo_ovl 101 \<noteq> None \<and> s_refCount (the (segs demo_ovl 101)) = 1" by code_simp
  then have "\<exists>q s. cache_lookup 2 (avl demo_ovl) = Some q \<and> segs demo_ovl q = Some s \<and> s_refCount s = 1" using l by auto
  with r show "freeSegment True demo_bk 2 demo_ovl = None"
    unfolding freeSegment_undefined [OF demo_drv_ok demo_reach_ovl] by (rule conjI)
qed

text \<open>C24: When \<^verbatim>\<open>freeSegment\<close> frees a segment, its handle is no longer known and the other handles keep their segments. The
  handles of the registrations in the map are split into those handed back and those that stay, which are unchanged; every registration
  over the segment is handed back. If the result is a success, each registration handed back is the one of the map deregistered:
  its state says so, it has no backend handle any more, and the backends released those it had. (If a backend fails, the segment is freed
  all the same, and the registrations are handed back as they are then.)
\<close>

theorem freeSegment_takes_out:
  assumes "drv_ok d" "rc_reach on d st" "cache_lookup h (avl st) = Some q"
    "freeSegment on bk h st = Some ((res, True, m, out), st')"
  shows "cache_lookup h (avl st') = None \<and> (\<forall>h'. h' \<noteq> h \<longrightarrow> cache_lookup h' (avl st') = cache_lookup h' (avl st)) \<and>
    fst ` set (regs st) = fst ` set out \<union> fst ` set (regs st') \<and> length (regs st) = length out + length (regs st') \<and> set (regs st') \<subseteq> set (regs st) \<and>
    (\<forall>(k, e) \<in> set (regs st). \<not> e_dynamic e \<longrightarrow> q \<in> set (e_segments e) \<longrightarrow> k \<in> fst ` set out \<and> (k, e) \<notin> set (regs st')) \<and>
    (res = commSuccess \<longrightarrow> (\<forall>(k, e) \<in> set out. \<exists>e0. (k, e0) \<in> set (regs st) \<and> released bk e0 \<and>
       e = e0\<lparr>e_nvl := None, e_ib := None, e_tcp := None, e_state := DEREGISTERED\<rparr>))"
proof -
  have ok: "reg_ok d st" using reach_ok [OF assms(2,1)] by simp
  show ?thesis
  proof (cases rule: freeSegment_cases [OF ok, of h on bk])
    case 1
    then show ?thesis using assms(3) by simp
  next
    case (2 q s)
    then show ?thesis using assms(4) by simp
  next
    case (3 q s)
    then show ?thesis using assms(4) by simp
  next
    case (4 q1 s x out0 rest avl1 segs1 pr r out1)
    let ?l = "case seg_regs st q of None \<Rightarrow> [] | Some l \<Rightarrow> l"
    have q: "q1 = q" using 4(1) assms(3) by simp
    have f: "st' = st\<lparr>segs := segs1, regs := rest, seg_regs := (seg_regs st)(q := None), avl := avl1, prof := pr\<rparr>" "r = res" "out1 = out"
      using 4(13) assms(4) q by simp_all
    note oks = reg_okD [OF ok]
    have cd: "set (cache_elems avl1) = {y \<in> cached st. hdl y \<noteq> h}" using 4(9) by (simp add: set_del_hdl)
    have l1: "cache_lookup h avl1 = None" unfolding lookup_None [OF 4(8)] cd by blast
    have l2: "cache_lookup h' avl1 = cache_lookup h' (avl st)" if "h' \<noteq> h" for h'
      by (rule lookup_eqI [OF 4(8) oks(1)]) (use cd that in auto)
    have m: "fst ` set out = fst ` set out0" using 4(14) f(3) by (metis list.set_map)
    have u: "set (regs st) = set out0 \<union> set rest" using 4(10,11) q by auto
    have t: "k \<in> fst ` set out0 \<and> (k, e) \<notin> set rest" if ke: "(k, e) \<in> set (regs st)" "\<not> e_dynamic e" "q \<in> set (e_segments e)" for k e
    proof -
      obtain l where "seg_regs st q = Some l" "k \<in> set l" using elem_ok_covers(2) [OF ok ke] by blast
      then show ?thesis using 4(10,11) q ke(1) by force
    qed
    have s: "\<exists>e0. (k, e0) \<in> set (regs st) \<and> released bk e0 \<and> e = deregistered e0" if sc: "res = commSuccess" "(k, e) \<in> set out" for k e
    proof -
      have "out = map (\<lambda>(h, e). (h, deregistered e)) out0" "\<forall>x \<in> set out0. released bk (snd x)" using 4(15) f sc(1) by simp_all
      then obtain e0 where "(k, e0) \<in> set out0" "released bk e0" "e = deregistered e0" using sc(2) by auto
      then show ?thesis using u by blast
    qed
    have "length out = length out0" using 4(14) f(3) by (metis length_map)
    then have n: "length (regs st) = length out + length rest" using 4(16) by simp
    have i: "fst ` set (regs st) = fst ` set out \<union> fst ` set rest" unfolding m u by (rule image_Un)
    have R: "regs st' = rest" "avl st' = avl1" using f(1) by simp_all
    have T: "\<forall>(k, e) \<in> set (regs st). \<not> e_dynamic e \<longrightarrow> q \<in> set (e_segments e) \<longrightarrow> k \<in> fst ` set out \<and> (k, e) \<notin> set rest"
      using t unfolding m by blast
    have S: "res = commSuccess \<longrightarrow> (\<forall>(k, e) \<in> set out. \<exists>e0. (k, e0) \<in> set (regs st) \<and> released bk e0 \<and>
       e = e0\<lparr>e_nvl := None, e_ib := None, e_tcp := None, e_state := DEREGISTERED\<rparr>)"
      using s unfolding deregistered_def by blast
    have "set rest \<subseteq> set (regs st)" using u by blast
    then show ?thesis using l1 l2 i n T S unfolding R by blast
  qed
qed

theorem freeSegment_takes_out_witness:
  "\<exists>m out st'. freeSegment True demo_bk 1 demo_rc3 = Some ((commSuccess, True, m, out), st') \<and> length out = 1 \<and> length (regs st') = 0 \<and>
     e_state (snd (hd out)) = DEREGISTERED \<and> cache_lookup 2 (avl st') = cache_lookup 2 (avl demo_rc3)"
proof -
  let ?f = "freeSegment True demo_bk 1 demo_rc3"
  have f: "case ?f of Some ((r, True, m, out), st') \<Rightarrow> r = commSuccess \<and> length out = 1 | _ \<Rightarrow> False" by code_simp
  then obtain m out st' where e: "?f = Some ((commSuccess, True, m, out), st')" and l: "length out = 1"
    by (auto split: option.splits bool.splits)
  then obtain k x where o: "out = [(k, x)]" by (cases out) auto
  have q: "cache_lookup 1 (avl demo_rc3) = Some 100" by code_simp
  have n: "length (regs demo_rc3) = 1" by code_simp
  note t = freeSegment_takes_out [OF demo_drv_ok demo_reach3 q e]
  have "length (regs st') = 0" "cache_lookup 2 (avl st') = cache_lookup 2 (avl demo_rc3)" "e_state x = DEREGISTERED" using t l n o by auto
  then show ?thesis using e l o by auto
qed

end
