(* ===== verification/Ib_Vc.thy ===== *)
theory Ib_Vc imports Dqplb begin

text \<open>
  The data path of a virtual connection between two ranks over InfiniBand, \<^verbatim>\<open>comms/ctran/backends/ib/CtranIbVc.h\<close>: puts
  and gets are cut into work requests that are posted on several queue pairs, within limits per queue pair; their completions
  release requests in the order of issue; notifications go on a queue pair of their own (spray) or in immediate values (dqplb).
  A caller holds the connection's mutex, so each method is one step. A queue pair is named by its role instead of its
  number and device. The driver's answer to a post is an argument; what was posted, and what for, is kept in \<open>wire\<close>. \<open>None\<close> is an
  abort, an exception or undefined behaviour.
\<close>

unbundle bit_operations_syntax

section \<open>Requests\<close>

record ib_req =
  refCount :: int
  is_complete :: bool

definition req_new :: ib_req where "req_new = \<lparr>refCount = 1, is_complete = False\<rparr>"

definition req_complete :: "ib_req \<Rightarrow> commResult \<times> ib_req" where
  "req_complete r =
     (let r1 = r\<lparr>refCount := refCount r - 1\<rparr>
      in if refCount r1 < 0 then (commInternalError, r1)
         else if refCount r1 = 0 then (commSuccess, r1\<lparr>is_complete := True\<rparr>)
         else (commSuccess, r1))"

definition req_setRefCount :: "int \<Rightarrow> ib_req \<Rightarrow> ib_req" where "req_setRefCount n r = r\<lparr>refCount := n\<rparr>"

definition req_repost :: "int \<Rightarrow> ib_req \<Rightarrow> ib_req" where "req_repost n r = r\<lparr>refCount := n, is_complete := False\<rparr>"

section \<open>State\<close>

datatype vc_mode = spray | dqplb

record ib_config =
  numQps :: int
  qpScalingTh :: nat
  vcMode :: vc_mode
  qpMsgs :: int

datatype opcode = WR_RDMA_WRITE | WR_RDMA_WRITE_WITH_IMM | WR_RDMA_READ | WR_ATOMIC_FETCH_AND_ADD

datatype queue = DataQp nat | NotifyQp | AtomicQp

record work_req =
  w_id :: u64
  w_op :: opcode
  w_local :: u64
  w_length :: nat
  w_lkey :: u32
  w_remote :: u64
  w_rkey :: u32
  w_imm :: u32
  w_val :: u64

datatype op_kind = Put | Get

text \<open>What a posted work request is for; the driver does not see this.\<close>

datatype post_tag = FastOp op_kind nat | Piece op_kind nat | NotifyMsg | AtomicMsg

text \<open>\<^verbatim>\<open>PutInfo\<close> and \<^verbatim>\<open>GetInfo\<close>; a get has no \<open>o_notify\<close>. The id also stands for the object's address.\<close>

record op_info =
  o_id :: nat
  o_sbuf :: u64
  o_dbuf :: u64
  o_len :: nat
  o_lkeys :: "u32 list"
  o_rkeys :: "u32 list"
  o_notify :: bool
  o_req :: "nat option"
  o_config :: "ib_config option"
  o_mode :: vc_mode
  o_offset :: nat
  o_outstanding :: nat

record io_queues =
  pend :: "op_info list"
  outst :: "op_info list"
  fast :: "(nat \<times> nat option) list"
  nextId :: nat

text \<open>\<^verbatim>\<open>WqeInfo\<close>: which of the two pointers is set is \<open>q_kind\<close>.\<close>

record wqe =
  q_wrId :: u64
  q_kind :: op_kind
  q_op :: nat

record notify_info =
  n_wrId :: u64
  n_req :: "nat option"
  n_putId :: "nat option"

record vc =
  puts :: io_queues
  gets :: io_queues
  wqes :: "wqe list list"
  rr :: nat
  pendN :: "notify_info list"
  outN :: "notify_info list"
  atomics :: "nat option list"
  sndNxt :: u32
  rcvNxt :: u32
  rcvd :: "(u32 \<times> bool) list"
  notifyCount :: int
  nextWrId :: u64
  maxNumQps :: int
  scalingTh :: nat
  vc_vcMode :: vc_mode
  maxQpMsgs :: int
  mtu :: nat
  maxMsgSize :: nat
  devs :: int
  reqs :: "nat \<Rightarrow> ib_req"
  wire :: "(queue \<times> post_tag \<times> work_req) list"

type_synonym res = "(commResult \<times> vc) option"

definition vthen :: "res \<Rightarrow> (vc \<Rightarrow> res) \<Rightarrow> res" where
  "vthen m f = (case m of None \<Rightarrow> None | Some (r, st) \<Rightarrow> if r \<noteq> commSuccess then Some (r, st) else f st)"

definition kFastPutBit :: nat where "kFastPutBit = 30"
definition MAX_SEND_WR :: nat where "MAX_SEND_WR = 256"

text \<open>\<open>accept\<close> is the driver: does it take the work request?\<close>

definition post :: "(queue \<Rightarrow> work_req \<Rightarrow> bool) \<Rightarrow> queue \<Rightarrow> post_tag \<Rightarrow> work_req \<Rightarrow> vc \<Rightarrow> commResult \<times> vc" where
  "post accept q t w st = (if accept q w then (commSuccess, st\<lparr>wire := wire st @ [(q, t, w)]\<rparr>) else (commSystemError, st))"

definition complete_req :: "nat option \<Rightarrow> vc \<Rightarrow> commResult \<times> vc" where
  "complete_req r st =
     (case r of None \<Rightarrow> (commSuccess, st)
      | Some i \<Rightarrow> (case req_complete (reqs st i) of (res, r1) \<Rightarrow> (res, st\<lparr>reqs := (reqs st)(i := r1)\<rparr>)))"

definition io_of :: "op_kind \<Rightarrow> vc \<Rightarrow> io_queues" where
  "io_of k st = (case k of Put \<Rightarrow> puts st | Get \<Rightarrow> gets st)"

definition upd_io :: "op_kind \<Rightarrow> (io_queues \<Rightarrow> io_queues) \<Rightarrow> vc \<Rightarrow> vc" where
  "upd_io k f st = (case k of Put \<Rightarrow> st\<lparr>puts := f (puts st)\<rparr> | Get \<Rightarrow> st\<lparr>gets := f (gets st)\<rparr>)"

section \<open>Configuration of an operation\<close>

definition getOpQps :: "ib_config option \<Rightarrow> vc \<Rightarrow> int" where
  "getOpQps c st = (case c of None \<Rightarrow> maxNumQps st | Some c \<Rightarrow> numQps c)"

definition getOpVcMode :: "ib_config option \<Rightarrow> vc \<Rightarrow> vc_mode" where
  "getOpVcMode c st = (case c of None \<Rightarrow> vc_vcMode st | Some c \<Rightarrow> vcMode c)"

definition getOpMaxQpMsgs :: "ib_config option \<Rightarrow> vc \<Rightarrow> int" where
  "getOpMaxQpMsgs c st = (case c of None \<Rightarrow> maxQpMsgs st | Some c \<Rightarrow> qpMsgs c)"

definition getOpScalingTh :: "ib_config option \<Rightarrow> vc \<Rightarrow> nat" where
  "getOpScalingTh c st = (case c of None \<Rightarrow> scalingTh st | Some c \<Rightarrow> qpScalingTh c)"

text \<open>The device of a data queue pair; \<open>None\<close> is a division by zero.\<close>

definition getIbDevFromQpIdx :: "nat \<Rightarrow> vc \<Rightarrow> nat option" where
  "getIbDevFromQpIdx i st =
     (let per = maxNumQps st div devs st in if per = 0 then None else Some (nat (int i div per)))"

definition clamp :: "nat \<Rightarrow> vc \<Rightarrow> nat" where "clamp n st = min (maxMsgSize st) (max n (mtu st))"

text \<open>The size of a work request; without a threshold the message is divided by the number of queue pairs.\<close>

definition maxWqeSize :: "op_info \<Rightarrow> vc \<Rightarrow> nat option" where
  "maxWqeSize p st =
     (let th = getOpScalingTh (o_config p) st;
          qps = unat (of_int (min (getOpQps (o_config p) st) (maxNumQps st)) :: u64)
      in if th > 0 then Some (clamp th st) else if qps = 0 then None else Some (clamp (o_len p div qps) st))"

text \<open>An \<open>int\<close> limit that is compared with a size: converted to 64 bits unsigned.\<close>

definition limit :: "int \<Rightarrow> nat" where "limit m = unat (word_of_int m :: u64)"

definition canTransferData :: "vc \<Rightarrow> bool" where
  "canTransferData st = list_ex (\<lambda>q. length q < limit (maxQpMsgs st)) (wqes st)"

section \<open>Posting\<close>

text \<open>The work request of a piece of a put, and the next sequence number.\<close>

definition put_wr :: "op_info \<Rightarrow> nat \<Rightarrow> nat \<Rightarrow> vc \<Rightarrow> work_req \<times> u32" where
  "put_wr p d n st =
     (let final = n = o_len p - o_offset p;
          w = \<lparr>w_id = nextWrId st, w_op = WR_RDMA_WRITE, w_local = o_sbuf p + of_nat (o_offset p), w_length = n,
               w_lkey = o_lkeys p ! d, w_remote = o_dbuf p + of_nat (o_offset p), w_rkey = o_rkeys p ! d, w_imm = 0, w_val = 0\<rparr>
      in if o_mode p = spray \<or> \<not> o_notify p then (w, sndNxt st)
         else (w\<lparr>w_op := WR_RDMA_WRITE_WITH_IMM,
                 w_imm := (if final then sndNxt st OR push_bit kNotifyBit 1 else sndNxt st)\<rparr>, (sndNxt st + 1) AND kSeqNumMask))"

definition get_wr :: "op_info \<Rightarrow> nat \<Rightarrow> nat \<Rightarrow> vc \<Rightarrow> work_req \<times> u32" where
  "get_wr p d n st =
     (\<lparr>w_id = nextWrId st, w_op = WR_RDMA_READ, w_local = o_dbuf p + of_nat (o_offset p), w_length = n,
       w_lkey = o_lkeys p ! d, w_remote = o_sbuf p + of_nat (o_offset p), w_rkey = o_rkeys p ! d, w_imm = 0, w_val = 0\<rparr>, sndNxt st)"

definition op_wr :: "op_kind \<Rightarrow> op_info \<Rightarrow> nat \<Rightarrow> nat \<Rightarrow> vc \<Rightarrow> work_req \<times> u32" where
  "op_wr k = (case k of Put \<Rightarrow> put_wr | Get \<Rightarrow> get_wr)"

text \<open>\<^verbatim>\<open>queueWriteOnQp\<close> and \<^verbatim>\<open>queueReadOnQp\<close>: the next piece of the first pending operation.\<close>

definition queue_op :: "(queue \<Rightarrow> work_req \<Rightarrow> bool) \<Rightarrow> op_kind \<Rightarrow> nat \<Rightarrow> vc \<Rightarrow> res" where
  "queue_op accept k i st =
     (case pend (io_of k st) of
        [] \<Rightarrow> Some (commSuccess, st)
      | p # ps \<Rightarrow>
          (case (getIbDevFromQpIdx i st, maxWqeSize p st) of
             (Some d, Some m) \<Rightarrow>
               if length (o_lkeys p) \<le> d \<or> length (o_rkeys p) \<le> d \<or> length (wqes st) \<le> i then None
               else (let n = min (o_len p - o_offset p) m;
                         final = n = o_len p - o_offset p;
                         (w, seq) = op_wr k p d n st;
                         p1 = p\<lparr>o_outstanding := o_outstanding p + 1\<rparr>;
                         st1 = upd_io k (\<lambda>io. io\<lparr>pend := p1 # ps\<rparr>)
                           (st\<lparr>nextWrId := nextWrId st + 1, sndNxt := seq,
                               wqes := (wqes st)[i := wqes st ! i @ [\<lparr>q_wrId = w_id w, q_kind = k, q_op = o_id p\<rparr>]]\<rparr>);
                         p2 = p1\<lparr>o_offset := o_offset p + n\<rparr>
                     in case post accept (DataQp i) (Piece k (o_id p)) w st1 of (r, st2) \<Rightarrow>
                          if r \<noteq> commSuccess then Some (r, st2)
                          else if \<not> final then Some (commSuccess, upd_io k (\<lambda>io. io\<lparr>pend := p2 # ps\<rparr>) st2)
                          else if o_offset p2 \<noteq> o_len p2 then None
                          else Some (commSuccess, upd_io k (\<lambda>io. io\<lparr>pend := ps, outst := outst io @ [p2]\<rparr>) st2))
           | _ \<Rightarrow> None))"

definition queueWriteOnQp :: "(queue \<Rightarrow> work_req \<Rightarrow> bool) \<Rightarrow> nat \<Rightarrow> vc \<Rightarrow> res" where
  "queueWriteOnQp accept = queue_op accept Put"

definition queueReadOnQp :: "(queue \<Rightarrow> work_req \<Rightarrow> bool) \<Rightarrow> nat \<Rightarrow> vc \<Rightarrow> res" where
  "queueReadOnQp accept = queue_op accept Get"

text \<open>One round over \<open>n\<close> queue pairs of \<open>qps\<close>; the flag tells whether something was posted. The fast queue pair is 0.\<close>

fun post_round ::
  "(queue \<Rightarrow> work_req \<Rightarrow> bool) \<Rightarrow> op_kind \<Rightarrow> int \<Rightarrow> int \<Rightarrow> nat \<Rightarrow> bool \<Rightarrow> vc \<Rightarrow> (commResult \<times> bool \<times> vc) option" where
  "post_round accept k qps maxmsgs 0 sent st = Some (commSuccess, sent, st)"
| "post_round accept k qps maxmsgs (Suc n) sent st =
     (if length (wqes st) \<le> rr st then None
      else let sz = length (wqes st ! rr st) + (if rr st = 0 then length (fast (io_of k st)) else 0)
           in case (if sz < limit maxmsgs then map_option (\<lambda>(r, st1). (r, True, st1)) (queue_op accept k (rr st) st)
                    else Some (commSuccess, sent, st)) of
                None \<Rightarrow> None
              | Some (r, sent1, st1) \<Rightarrow>
                  if r \<noteq> commSuccess then Some (r, sent1, st1)
                  else let st2 = st1\<lparr>rr := nat (int (rr st1 + 1) mod qps)\<rparr>
                       in if pend (io_of k st2) = [] then Some (commSuccess, sent1, st2)
                          else post_round accept k qps maxmsgs n sent1 st2)"

partial_function (option) tryToPostOp :: "(queue \<Rightarrow> work_req \<Rightarrow> bool) \<Rightarrow> op_kind \<Rightarrow> vc \<Rightarrow> res" where
  "tryToPostOp accept k st =
     (case pend (io_of k st) of
        [] \<Rightarrow> Some (commSuccess, st)
      | p # ps \<Rightarrow>
          (case post_round accept k (min (getOpQps (o_config p) st) (maxNumQps st)) (min (getOpMaxQpMsgs (o_config p) st) (maxQpMsgs st))
                  (nat (min (getOpQps (o_config p) st) (maxNumQps st))) False st of
             None \<Rightarrow> None
           | Some (r, sent, st1) \<Rightarrow>
               if r \<noteq> commSuccess then Some (r, st1)
               else if sent then tryToPostOp accept k st1
               else Some (commSuccess, st1)))"

declare tryToPostOp.simps [code]

section \<open>Notifications\<close>

definition notify_wr :: "u64 \<Rightarrow> work_req" where
  "notify_wr i = \<lparr>w_id = i, w_op = WR_RDMA_WRITE_WITH_IMM, w_local = 0, w_length = 0, w_lkey = 0, w_remote = 0, w_rkey = 0, w_imm = 0, w_val = 0\<rparr>"

definition tryPostImmNotifyMsg :: "(queue \<Rightarrow> work_req \<Rightarrow> bool) \<Rightarrow> vc \<Rightarrow> commResult \<times> vc" where
  "tryPostImmNotifyMsg accept st =
     (if length (outN st) \<ge> MAX_SEND_WR then (commSuccess, st)
      else case pendN st of
        [] \<Rightarrow> (commSuccess, st)
      | n # ns \<Rightarrow>
          (case post accept NotifyQp NotifyMsg (notify_wr (n_wrId n)) (st\<lparr>pendN := ns\<rparr>) of
             (r, st1) \<Rightarrow> if r \<noteq> commSuccess then (r, st1) else (commSuccess, st1\<lparr>outN := outN st1 @ [n]\<rparr>)))"

definition notify :: "(queue \<Rightarrow> work_req \<Rightarrow> bool) \<Rightarrow> nat option \<Rightarrow> nat option \<Rightarrow> vc \<Rightarrow> commResult \<times> vc" where
  "notify accept req putId st =
     tryPostImmNotifyMsg accept
       (st\<lparr>pendN := pendN st @ [\<lparr>n_wrId = nextWrId st, n_req = req, n_putId = putId\<rparr>], nextWrId := nextWrId st + 1\<rparr>)"

definition checkNotify :: "vc \<Rightarrow> (bool \<times> vc) option" where
  "checkNotify st =
     (if notifyCount st < 0 then None
      else if notifyCount st > 0 then Some (True, st\<lparr>notifyCount := notifyCount st - 1\<rparr>) else Some (False, st))"

text \<open>The result is the number of notifications still to wait for.\<close>

definition checkNotifies :: "int \<Rightarrow> vc \<Rightarrow> (int \<times> vc) option" where
  "checkNotifies n st =
     (if notifyCount st < 0 then None
      else if notifyCount st > 0 then
        (let m = min (notifyCount st) n in Some (n - m, st\<lparr>notifyCount := notifyCount st - m\<rparr>))
      else Some (n, st))"

section \<open>Puts and gets\<close>

definition isFastPutValid :: "ib_config option \<Rightarrow> nat \<Rightarrow> nat \<Rightarrow> vc \<Rightarrow> bool" where
  "isFastPutValid c n cnt st =
     (if outst (puts st) \<noteq> [] \<or> pend (puts st) \<noteq> [] then False
      else if length (fast (puts st)) + cnt > limit (maxQpMsgs st) then False
      else let th = getOpScalingTh c st in \<not> n > clamp (if th > 0 then th else n) st)"

text \<open>
  \<^verbatim>\<open>PutIbMsg\<close>. \<open>p_keys\<close> holds the local keys behind the registration, one per device; \<open>None\<close> is a null registration.
\<close>

record put_msg =
  p_sbuf :: u64
  p_dbuf :: u64
  p_len :: nat
  p_keys :: "u32 list option"
  p_rkeys :: "u32 list"
  p_notify :: bool
  p_config :: "ib_config option"
  p_req :: "nat option"

definition processFastWriteWqe :: "nat \<Rightarrow> put_msg \<Rightarrow> nat \<Rightarrow> vc \<Rightarrow> (commResult \<times> work_req option \<times> vc) option" where
  "processFastWriteWqe putId p d st =
     (case p_keys p of
        None \<Rightarrow> Some (commSystemError, None, st)
      | Some ks \<Rightarrow>
          if length ks \<le> d \<or> length (p_rkeys p) \<le> d then None
          else let w = \<lparr>w_id = nextWrId st, w_op = WR_RDMA_WRITE_WITH_IMM, w_local = p_sbuf p, w_length = p_len p,
                        w_lkey = ks ! d, w_remote = p_dbuf p, w_rkey = p_rkeys p ! d,
                        w_imm = (if p_notify p then push_bit kFastPutBit 1 OR push_bit kNotifyBit 1 else push_bit kFastPutBit 1), w_val = 0\<rparr>
               in Some (commSuccess, Some w,
                    st\<lparr>nextWrId := nextWrId st + 1, sndNxt := (sndNxt st + 1) AND kSeqNumMask,
                       puts := (puts st)\<lparr>fast := fast (puts st) @ [(putId, p_req p)]\<rparr>\<rparr>))"

definition take_id :: "op_kind \<Rightarrow> vc \<Rightarrow> nat \<times> vc" where
  "take_id k st = (nextId (io_of k st), upd_io k (\<lambda>io. io\<lparr>nextId := nextId io + 1\<rparr>) st)"

text \<open>The local keys and the first \<open>devs\<close> remote keys; \<open>None\<close> reads out of bounds.\<close>

definition op_keys :: "u32 list \<Rightarrow> u32 list \<Rightarrow> vc \<Rightarrow> (u32 list \<times> u32 list) option" where
  "op_keys ks rks st =
     (let d = nat (devs st) in if length ks < d \<or> length rks < d then None else Some (take d ks, take d rks))"

definition iputImpl :: "(queue \<Rightarrow> work_req \<Rightarrow> bool) \<Rightarrow> put_msg \<Rightarrow> bool \<Rightarrow> vc \<Rightarrow> res" where
  "iputImpl accept p fst_path st =
     (case p_keys p of
        None \<Rightarrow> Some (commSystemError, st)
      | Some ks \<Rightarrow>
          (case op_keys ks (p_rkeys p) st of
             None \<Rightarrow> None
           | Some (lk, rk) \<Rightarrow>
               (case take_id Put st of (i, st0) \<Rightarrow>
                  if fst_path then
                    if \<not> isFastPutValid (p_config p) (p_len p) 1 st0 then Some (commSystemError, st0)
                    else (case getIbDevFromQpIdx 0 st0 of
                      None \<Rightarrow> None
                    | Some d \<Rightarrow>
                        (case processFastWriteWqe i p d st0 of
                           Some (r, Some w, st1) \<Rightarrow> Some (post accept (DataQp 0) (FastOp Put i) w st1)
                         | Some (r, None, st1) \<Rightarrow> Some (r, st1)
                         | None \<Rightarrow> None))
                  else
                    tryToPostOp accept Put
                      (upd_io Put (\<lambda>io. io\<lparr>pend := pend io @ [\<lparr>o_id = i, o_sbuf = p_sbuf p, o_dbuf = p_dbuf p, o_len = p_len p,
                         o_lkeys = lk, o_rkeys = rk, o_notify = p_notify p, o_req = p_req p, o_config = p_config p,
                         o_mode = getOpVcMode (p_config p) st0, o_offset = 0, o_outstanding = 0\<rparr>]\<rparr>) st0))))"

text \<open>The puts of a batch on the fast path: one chain of work requests on queue pair 0.\<close>

fun fast_chain ::
  "put_msg list \<Rightarrow> nat \<Rightarrow> (post_tag \<times> work_req) list \<Rightarrow> vc \<Rightarrow> (commResult \<times> (post_tag \<times> work_req) list \<times> vc) option" where
  "fast_chain [] d ws st = Some (commSuccess, ws, st)"
| "fast_chain (p # ps) d ws st =
     (case take_id Put st of (i, st0) \<Rightarrow>
        (case processFastWriteWqe i p d st0 of
           None \<Rightarrow> None
         | Some (r, None, st1) \<Rightarrow> Some (r, ws, st1)
         | Some (r, Some w, st1) \<Rightarrow> fast_chain ps d (ws @ [(FastOp Put i, w)]) st1))"

text \<open>The driver takes the requests of a chain until the first one it refuses.\<close>

fun post_chain :: "(queue \<Rightarrow> work_req \<Rightarrow> bool) \<Rightarrow> queue \<Rightarrow> (post_tag \<times> work_req) list \<Rightarrow> vc \<Rightarrow> commResult \<times> vc" where
  "post_chain accept q [] st = (commSuccess, st)"
| "post_chain accept q ((t, w) # ws) st =
     (case post accept q t w st of (r, st1) \<Rightarrow> if r \<noteq> commSuccess then (r, st1) else post_chain accept q ws st1)"

fun iput_each :: "(queue \<Rightarrow> work_req \<Rightarrow> bool) \<Rightarrow> put_msg list \<Rightarrow> vc \<Rightarrow> res" where
  "iput_each accept [] st = Some (commSuccess, st)"
| "iput_each accept (p # ps) st = vthen (iputImpl accept p False st) (iput_each accept ps)"

definition iputBatchImpl :: "(queue \<Rightarrow> work_req \<Rightarrow> bool) \<Rightarrow> put_msg list \<Rightarrow> vc \<Rightarrow> res" where
  "iputBatchImpl accept ps st =
     (if ps = [] then Some (commSuccess, st)
      else if \<not> list_all (\<lambda>p. isFastPutValid (p_config p) (p_len p) (length ps) st) ps then iput_each accept ps st
      else case getIbDevFromQpIdx 0 st of
        None \<Rightarrow> None
      | Some d \<Rightarrow>
          (case fast_chain ps d [] st of
             None \<Rightarrow> None
           | Some (r, ws, st1) \<Rightarrow>
               if r \<noteq> commSuccess then Some (r, st1) else Some (post_chain accept (DataQp 0) ws st1)))"

definition igetImpl ::
  "(queue \<Rightarrow> work_req \<Rightarrow> bool) \<Rightarrow> u64 \<Rightarrow> u64 \<Rightarrow> nat \<Rightarrow> u32 list option \<Rightarrow> u32 list \<Rightarrow> ib_config option \<Rightarrow> nat option \<Rightarrow> bool \<Rightarrow> vc \<Rightarrow> res" where
  "igetImpl accept sbuf dbuf n keys rkeys c req fst_path st =
     (case keys of
        None \<Rightarrow> Some (commSystemError, st)
      | Some ks \<Rightarrow>
          (case op_keys ks rkeys st of
             None \<Rightarrow> None
           | Some (lk, rk) \<Rightarrow>
               (case take_id Get st of (i, st0) \<Rightarrow>
                  let th = getOpScalingTh c st0 in
                  if fst_path then
                    if outst (gets st0) \<noteq> [] \<or> pend (gets st0) \<noteq> [] then Some (commSystemError, st0)
                    else if n > clamp (if th > 0 then th else n) st0 then Some (commSystemError, st0)
                    else if length (fast (gets st0)) \<ge> limit (maxQpMsgs st0) then Some (commSystemError, st0)
                    else (case getIbDevFromQpIdx 0 st0 of
                      None \<Rightarrow> None
                    | Some d \<Rightarrow>
                        if length lk \<le> d then None
                        else Some (post accept (DataQp 0) (FastOp Get i)
                          \<lparr>w_id = nextWrId st0, w_op = WR_RDMA_READ, w_local = dbuf, w_length = n, w_lkey = lk ! d,
                           w_remote = sbuf, w_rkey = rk ! d, w_imm = 0, w_val = 0\<rparr>
                          (st0\<lparr>nextWrId := nextWrId st0 + 1, gets := (gets st0)\<lparr>fast := fast (gets st0) @ [(i, req)]\<rparr>\<rparr>)))
                  else
                    tryToPostOp accept Get
                      (upd_io Get (\<lambda>io. io\<lparr>pend := pend io @ [\<lparr>o_id = i, o_sbuf = sbuf, o_dbuf = dbuf, o_len = n,
                         o_lkeys = lk, o_rkeys = rk, o_notify = False, o_req = req, o_config = c,
                         o_mode = getOpVcMode c st0, o_offset = 0, o_outstanding = 0\<rparr>]\<rparr>) st0))))"

definition ifetchAndAddImpl ::
  "(queue \<Rightarrow> work_req \<Rightarrow> bool) \<Rightarrow> u64 \<Rightarrow> u64 \<Rightarrow> u64 \<Rightarrow> u32 list option \<Rightarrow> u32 list \<Rightarrow> nat option \<Rightarrow> vc \<Rightarrow> res" where
  "ifetchAndAddImpl accept sbuf dbuf addVal keys rkeys req st =
     (case keys of
        None \<Rightarrow> Some (commSystemError, st)
      | Some ks \<Rightarrow>
          if ks = [] \<or> rkeys = [] then None
          else Some (post accept AtomicQp AtomicMsg \<lparr>w_id = 0, w_op = WR_ATOMIC_FETCH_AND_ADD, w_local = sbuf, w_length = 8, w_lkey = ks ! 0,
                 w_remote = dbuf, w_rkey = rkeys ! 0, w_imm = 0, w_val = addVal\<rparr> (st\<lparr>atomics := atomics st @ [req]\<rparr>)))"

text \<open>The value goes inline, from the stack: \<open>w_val\<close> is what the driver reads there.\<close>

definition iatomicSetImpl :: "(queue \<Rightarrow> work_req \<Rightarrow> bool) \<Rightarrow> u64 \<Rightarrow> u64 \<Rightarrow> u64 \<Rightarrow> u32 list \<Rightarrow> nat option \<Rightarrow> vc \<Rightarrow> res" where
  "iatomicSetImpl accept stack dbuf val rkeys req st =
     (if rkeys = [] then None
      else Some (post accept AtomicQp AtomicMsg \<lparr>w_id = 0, w_op = WR_RDMA_WRITE, w_local = stack, w_length = 8, w_lkey = 0,
             w_remote = dbuf, w_rkey = rkeys ! 0, w_imm = 0, w_val = val\<rparr> (st\<lparr>atomics := atomics st @ [req]\<rparr>)))"

section \<open>Completions\<close>

text \<open>\<^verbatim>\<open>burnDownPuts\<close> and \<^verbatim>\<open>burnDownGets\<close>: operations complete in the order of issue.\<close>

fun burn_loop :: "(queue \<Rightarrow> work_req \<Rightarrow> bool) \<Rightarrow> op_kind \<Rightarrow> op_info list \<Rightarrow> vc \<Rightarrow> commResult \<times> vc" where
  "burn_loop accept k [] st = (commSuccess, st)"
| "burn_loop accept k (p # ps) st =
     (if o_outstanding p > 0 \<or> o_offset p < o_len p then (commSuccess, st)
      else case (if k = Put \<and> o_mode p = spray \<and> o_notify p then notify accept (o_req p) (Some (o_id p)) st
                 else complete_req (o_req p) st) of
        (r, st1) \<Rightarrow> if r \<noteq> commSuccess then (r, st1)
                    else burn_loop accept k ps (upd_io k (\<lambda>io. io\<lparr>outst := ps\<rparr>) st1))"

definition burnDown :: "(queue \<Rightarrow> work_req \<Rightarrow> bool) \<Rightarrow> op_kind \<Rightarrow> vc \<Rightarrow> commResult \<times> vc" where
  "burnDown accept k st = (if fast (io_of k st) \<noteq> [] then (commSuccess, st) else burn_loop accept k (outst (io_of k st)) st)"

definition burnDownPuts :: "(queue \<Rightarrow> work_req \<Rightarrow> bool) \<Rightarrow> vc \<Rightarrow> commResult \<times> vc" where
  "burnDownPuts accept = burnDown accept Put"

definition burnDownGets :: "(queue \<Rightarrow> work_req \<Rightarrow> bool) \<Rightarrow> vc \<Rightarrow> commResult \<times> vc" where
  "burnDownGets accept = burnDown accept Get"

definition dec_op :: "nat \<Rightarrow> op_info list \<Rightarrow> op_info list" where
  "dec_op i ps = map (\<lambda>p. if o_id p = i then p\<lparr>o_outstanding := o_outstanding p - 1\<rparr> else p) ps"

text \<open>A completion on a data queue pair. The pointer of the entry must be of the kind of the completion.\<close>

definition data_complete :: "(queue \<Rightarrow> work_req \<Rightarrow> bool) \<Rightarrow> op_kind \<Rightarrow> nat \<Rightarrow> u64 \<Rightarrow> vc \<Rightarrow> res" where
  "data_complete accept k i wrId st =
     (if i = 0 \<and> fast (io_of k st) \<noteq> [] then
        (case complete_req (snd (hd (fast (io_of k st)))) st of
           (r, st1) \<Rightarrow>
             if r \<noteq> commSuccess then Some (r, st1)
             else let st2 = upd_io k (\<lambda>io. io\<lparr>fast := tl (fast io)\<rparr>) st1
                  in vthen (Some (if fast (io_of k st2) = [] then burnDown accept k st2 else (commSuccess, st2)))
                       (queue_op accept k i))
      else if length (wqes st) \<le> i then None
      else case wqes st ! i of
        [] \<Rightarrow> None
      | q # qs \<Rightarrow>
          if q_wrId q \<noteq> wrId \<or> q_kind q \<noteq> k then None
          else case find (\<lambda>p. o_id p = q_op q) (outst (io_of k st) @ pend (io_of k st)) of
            None \<Rightarrow> None
          | Some p \<Rightarrow>
              if o_outstanding p = 0 then None
              else let st1 = upd_io k (\<lambda>io. io\<lparr>outst := dec_op (q_op q) (outst io), pend := dec_op (q_op q) (pend io)\<rparr>)
                         (st\<lparr>wqes := (wqes st)[i := qs]\<rparr>)
                   in vthen (Some (burnDown accept k st1)) (queue_op accept k i))"

definition notify_complete :: "(queue \<Rightarrow> work_req \<Rightarrow> bool) \<Rightarrow> u64 \<Rightarrow> vc \<Rightarrow> res" where
  "notify_complete accept wrId st =
     (case outN st of
        [] \<Rightarrow> None
      | n # ns \<Rightarrow>
          if n_wrId n \<noteq> wrId then None
          else vthen (Some (complete_req (n_req n) (st\<lparr>outN := ns\<rparr>))) (\<lambda>st1. Some (tryPostImmNotifyMsg accept st1)))"

definition writeComplete :: "(queue \<Rightarrow> work_req \<Rightarrow> bool) \<Rightarrow> queue \<Rightarrow> u64 \<Rightarrow> vc \<Rightarrow> res" where
  "writeComplete accept q wrId st =
     (case q of NotifyQp \<Rightarrow> notify_complete accept wrId st
      | DataQp i \<Rightarrow> data_complete accept Put i wrId st
      | AtomicQp \<Rightarrow> None)"

definition readComplete :: "(queue \<Rightarrow> work_req \<Rightarrow> bool) \<Rightarrow> queue \<Rightarrow> u64 \<Rightarrow> vc \<Rightarrow> res" where
  "readComplete accept q wrId st =
     (case q of DataQp i \<Rightarrow> data_complete accept Get i wrId st | _ \<Rightarrow> None)"

text \<open>The result of the request's completion is not looked at.\<close>

definition atomicComplete :: "vc \<Rightarrow> commResult \<times> vc" where
  "atomicComplete st =
     (case atomics st of
        [] \<Rightarrow> (commInternalError, st)
      | r # rs \<Rightarrow> (commSuccess, (snd (complete_req r st))\<lparr>atomics := rs\<rparr>))"

section \<open>Receiving\<close>

text \<open>The loop that consumes the sequence numbers that are next.\<close>

function consume :: "(u32 \<times> bool) list \<Rightarrow> u32 \<Rightarrow> int \<Rightarrow> (u32 \<times> bool) list \<times> u32 \<times> int" where
  "consume m next cnt =
     (case map_of m next of
        None \<Rightarrow> (m, next, cnt)
      | Some b \<Rightarrow> consume (AList.delete next m) ((next + 1) AND kSeqNumMask) (if b then cnt + 1 else cnt))"
  by pat_completeness auto
termination
  by (relation "measure (\<lambda>(m, next, cnt). length m)") (auto simp: length_delete_less)

declare consume.simps [simp del]

text \<open>An immediate value on the data queue pair \<open>i\<close> or on the notify queue pair.\<close>

definition writeImmRcvd :: "queue \<Rightarrow> u32 \<Rightarrow> vc \<Rightarrow> vc option" where
  "writeImmRcvd q imm st =
     (case q of
        NotifyQp \<Rightarrow> Some (st\<lparr>notifyCount := notifyCount st + 1\<rparr>)
      | AtomicQp \<Rightarrow> None
      | DataQp i \<Rightarrow>
          (let fastPut = imm AND push_bit kFastPutBit 1 \<noteq> 0; b = imm AND push_bit kNotifyBit 1 \<noteq> 0
           in if fastPut \<and> i \<noteq> 0 then None
              else let st1 = (if fastPut then st\<lparr>rcvNxt := (rcvNxt st + 1) AND kSeqNumMask,
                                notifyCount := notifyCount st + (if b then 1 else 0)\<rparr>
                              else st\<lparr>rcvd := AList.update (imm AND kSeqNumMask) b (rcvd st)\<rparr>)
                   in case consume (rcvd st1) (rcvNxt st1) (notifyCount st1) of
                        (m, next, cnt) \<Rightarrow> Some (st1\<lparr>rcvd := m, rcvNxt := next, notifyCount := cnt\<rparr>)))"

text \<open>The receive queue is refilled; \<open>refill\<close> is the driver's answer.\<close>

datatype wc_opcode = WC_RDMA_WRITE | WC_RDMA_READ | WC_RECV_RDMA_WITH_IMM | WC_FETCH_ADD | WC_other

definition processDataCqe :: "(queue \<Rightarrow> work_req \<Rightarrow> bool) \<Rightarrow> (queue \<Rightarrow> bool) \<Rightarrow> wc_opcode \<Rightarrow> queue \<Rightarrow> u32 \<Rightarrow> u64 \<Rightarrow> vc \<Rightarrow> res" where
  "processDataCqe accept refill wc q imm wrId st =
     (case wc of
        WC_RDMA_WRITE \<Rightarrow> if q = AtomicQp then Some (atomicComplete st) else writeComplete accept q wrId st
      | WC_RDMA_READ \<Rightarrow> readComplete accept q wrId st
      | WC_RECV_RDMA_WITH_IMM \<Rightarrow>
          map_option (\<lambda>st1. (if refill q then commSuccess else commSystemError, st1)) (writeImmRcvd q imm st)
      | WC_FETCH_ADD \<Rightarrow> if q = AtomicQp then Some (atomicComplete st) else None
      | WC_other \<Rightarrow> Some (commSystemError, st))"

section \<open>A new connection\<close>

definition HARDCODED_MAX_QPS :: int where "HARDCODED_MAX_QPS = 128"

text \<open>The kind of a connection: is there a communicator, does it know the topology, which tests of it hold?\<close>

datatype conn_type = NO_STATEX | SAME_RACK | SAME_ZONE | SAME_DC | DIFF_DC | CTRAN_EX

definition connType :: "bool \<Rightarrow> bool \<Rightarrow> bool \<Rightarrow> bool \<Rightarrow> bool \<Rightarrow> conn_type" where
  "connType comm statex rack zone dc =
     (if comm \<and> statex then (if rack then SAME_RACK else if zone then SAME_ZONE else if dc then SAME_DC else DIFF_DC)
      else if \<not> comm then CTRAN_EX else NO_STATEX)"

text \<open>The variables with a list of settings for a kind of connection.\<close>

record qp_cvars =
  xrack :: "string list"
  xzone :: "string list"
  xdc :: "string list"
  ctran_ex :: "string list"

definition configList :: "qp_cvars \<Rightarrow> conn_type \<Rightarrow> string list" where
  "configList cv t = (case t of SAME_ZONE \<Rightarrow> xrack cv | SAME_DC \<Rightarrow> xzone cv | DIFF_DC \<Rightarrow> xdc cv | CTRAN_EX \<Rightarrow> ctran_ex cv | _ \<Rightarrow> [])"

text \<open>\<open>cfg\<close> are the defaults. The result is \<open>None\<close> on an abort or an exception.\<close>

definition applyQPConfigList :: "string list \<Rightarrow> ib_config \<Rightarrow> ib_config option" where
  "applyQPConfigList l cfg =
     (case l of
        [] \<Rightarrow> Some cfg
      | [th, qps, mode, msgs] \<Rightarrow>
          (case (stoul th, stoi qps, stoi msgs) of
             (Some t, Some n, Some m) \<Rightarrow>
               if mode = ''spray'' then Some \<lparr>numQps = n, qpScalingTh = unat t, vcMode = spray, qpMsgs = m\<rparr>
               else if mode = ''dqplb'' then Some \<lparr>numQps = n, qpScalingTh = unat t, vcMode = dqplb, qpMsgs = m\<rparr>
               else None
           | _ \<Rightarrow> None)
      | _ \<Rightarrow> None)"

text \<open>The limits: at most 128 queue pairs, a multiple of the number of devices, at most \<open>MAX_SEND_WR\<close> messages.\<close>

definition limitQPConfig :: "int \<Rightarrow> ib_config \<Rightarrow> ib_config" where
  "limitQPConfig d cfg =
     (let n = min (numQps cfg) HARDCODED_MAX_QPS; n = n - (if n \<ge> 0 then n mod d else - ((- n) mod d))
      in cfg\<lparr>numQps := n, qpMsgs := min (qpMsgs cfg) (int MAX_SEND_WR)\<rparr>)"

definition setDefaultQPConfig :: "qp_cvars \<Rightarrow> conn_type \<Rightarrow> int \<Rightarrow> ib_config \<Rightarrow> ib_config option" where
  "setDefaultQPConfig cv t d cfg = map_option (limitQPConfig d) (applyQPConfigList (configList cv t) cfg)"

definition io_new :: io_queues where "io_new = \<lparr>pend = [], outst = [], fast = [], nextId = 0\<rparr>"

text \<open>A connection after \<^verbatim>\<open>getLocalBusCard\<close> and \<^verbatim>\<open>setupVc\<close>; \<open>port_mtu\<close> and \<open>port_max\<close> are the port's values.\<close>

definition vc_new :: "int \<Rightarrow> ib_config \<Rightarrow> nat \<Rightarrow> nat \<Rightarrow> vc" where
  "vc_new d cfg port_mtu port_max =
     \<lparr>puts = io_new, gets = io_new, wqes = replicate (nat (numQps cfg)) [], rr = 0, pendN = [], outN = [], atomics = [],
      sndNxt = 0, rcvNxt = 0, rcvd = [], notifyCount = 0, nextWrId = 65536, maxNumQps = numQps cfg,
      scalingTh = min (qpScalingTh cfg) port_max, vc_vcMode = vcMode cfg, maxQpMsgs = qpMsgs cfg, mtu = 128 * 2 ^ port_mtu,
      maxMsgSize = port_max, devs = d, reqs = (\<lambda>_. req_new), wire = []\<rparr>"

end
