(* ===== verification/Ib_Vc_Inv.thy ===== *)
theory Ib_Vc_Inv imports Ib_Vc "HOL-Library.Multiset" begin

text \<open>
  The invariant of a virtual connection, and that no operation and no completion aborts. The hardware completes the work
  requests of a queue pair in the order in which they were posted; \<open>c q\<close> is how many of the queue pair \<open>q\<close> are complete.
\<close>

section \<open>What is in flight\<close>

abbreviation acc :: "queue \<Rightarrow> work_req \<Rightarrow> bool" where "acc \<equiv> \<lambda>q w. True"

definition posts :: "vc \<Rightarrow> queue \<Rightarrow> (post_tag \<times> work_req) list" where
  "posts st q = map snd (filter (\<lambda>x. fst x = q) (wire st))"

definition inflight :: "vc \<Rightarrow> (queue \<Rightarrow> nat) \<Rightarrow> queue \<Rightarrow> (post_tag \<times> work_req) list" where
  "inflight st c q = drop (c q) (posts st q)"

fun wqe_of :: "post_tag \<times> work_req \<Rightarrow> wqe list" where
  "wqe_of (Piece k i, w) = [\<lparr>q_wrId = w_id w, q_kind = k, q_op = i\<rparr>]"
| "wqe_of x = []"

fun fast_id :: "op_kind \<Rightarrow> post_tag \<times> work_req \<Rightarrow> nat list" where
  "fast_id k (FastOp k' i, w) = (if k' = k then [i] else [])"
| "fast_id k x = []"

text \<open>The entries of one kind of operation, fast ones and pieces.\<close>

fun is_fast :: "op_kind \<Rightarrow> post_tag \<times> work_req \<Rightarrow> bool" where
  "is_fast k (FastOp k' i, w) = (k' = k)" | "is_fast k x = False"

fun is_piece :: "op_kind \<Rightarrow> post_tag \<times> work_req \<Rightarrow> bool" where
  "is_piece k (Piece k' i, w) = (k' = k)" | "is_piece k x = False"

fun data_tag :: "post_tag \<times> work_req \<Rightarrow> bool" where
  "data_tag (FastOp k i, w) = True" | "data_tag (Piece k i, w) = True" | "data_tag x = False"

definition ops :: "op_kind \<Rightarrow> vc \<Rightarrow> op_info list" where
  "ops k st = outst (io_of k st) @ pend (io_of k st)"

text \<open>The entries of all queues that point to an operation.\<close>

definition cnt :: "op_kind \<Rightarrow> nat \<Rightarrow> vc \<Rightarrow> nat" where
  "cnt k i st = length (filter (\<lambda>q. q_kind q = k \<and> q_op q = i) (concat (wqes st)))"

definition held :: "vc \<Rightarrow> nat option list" where
  "held st = map o_req (ops Put st) @ map o_req (ops Get st) @ map snd (fast (puts st)) @ map snd (fast (gets st)) @
     map n_req (pendN st) @ map n_req (outN st) @ atomics st"

section \<open>The invariant\<close>

definition cfg_ok :: "vc \<Rightarrow> bool" where
  "cfg_ok st \<longleftrightarrow> 0 < devs st \<and> 0 < maxNumQps st \<and> maxNumQps st < 2 ^ 31 \<and> devs st dvd maxNumQps st \<and>
     length (wqes st) = nat (maxNumQps st) \<and> rr st < length (wqes st) \<and> 0 < maxQpMsgs st \<and> maxQpMsgs st < 2 ^ 31"

definition config_ok :: "ib_config option \<Rightarrow> bool" where
  "config_ok c \<longleftrightarrow> (case c of None \<Rightarrow> True | Some c \<Rightarrow> 0 < numQps c \<and> 0 < qpMsgs c)"

definition op_good :: "vc \<Rightarrow> op_info \<Rightarrow> bool" where
  "op_good st p \<longleftrightarrow> length (o_lkeys p) = nat (devs st) \<and> length (o_rkeys p) = nat (devs st) \<and> config_ok (o_config p)"

definition inv_ops :: "op_kind \<Rightarrow> vc \<Rightarrow> bool" where
  "inv_ops k st \<longleftrightarrow> sorted_wrt (<) (map o_id (ops k st)) \<and>
     (\<forall>p \<in> set (ops k st). o_id p < nextId (io_of k st) \<and> op_good st p \<and> o_outstanding p = cnt k (o_id p) st) \<and>
     (\<forall>q \<in> set (concat (wqes st)). q_kind q = k \<longrightarrow> q_op q \<in> o_id ` set (ops k st)) \<and>
     (\<forall>p \<in> set (outst (io_of k st)). o_offset p = o_len p) \<and>
     (\<forall>p \<in> set (pend (io_of k st)). o_offset p \<le> o_len p)"

definition inv_data :: "vc \<Rightarrow> (queue \<Rightarrow> nat) \<Rightarrow> bool" where
  "inv_data st c \<longleftrightarrow> (\<forall>i < length (wqes st). concat (map wqe_of (inflight st c (DataQp i))) = wqes st ! i \<and>
     list_all data_tag (inflight st c (DataQp i)) \<and>
     (\<forall>k. concat (map (fast_id k) (inflight st c (DataQp i))) = (if i = 0 then map fst (fast (io_of k st)) else [])))"

text \<open>On queue pair 0, the fast operations of a kind come before the pieces of that kind.\<close>

definition inv_fast :: "vc \<Rightarrow> (queue \<Rightarrow> nat) \<Rightarrow> bool" where
  "inv_fast st c \<longleftrightarrow> (\<forall>k. filter (\<lambda>x. is_fast k x \<or> is_piece k x) (inflight st c (DataQp 0)) =
     filter (is_fast k) (inflight st c (DataQp 0)) @ filter (is_piece k) (inflight st c (DataQp 0)))"

definition inv_notify :: "vc \<Rightarrow> (queue \<Rightarrow> nat) \<Rightarrow> bool" where
  "inv_notify st c \<longleftrightarrow> map (w_id \<circ> snd) (inflight st c NotifyQp) = map n_wrId (outN st) \<and>
     length (outN st) \<le> MAX_SEND_WR \<and> (pendN st \<noteq> [] \<longrightarrow> length (outN st) = MAX_SEND_WR)"

definition inv_atomic :: "vc \<Rightarrow> (queue \<Rightarrow> nat) \<Rightarrow> bool" where
  "inv_atomic st c \<longleftrightarrow> length (inflight st c AtomicQp) = length (atomics st)"

definition inv_reqs :: "vc \<Rightarrow> bool" where
  "inv_reqs st \<longleftrightarrow> (\<forall>r. int (count_list (held st) (Some r)) \<le> refCount (reqs st r))"

definition inv :: "vc \<Rightarrow> (queue \<Rightarrow> nat) \<Rightarrow> bool" where
  "inv st c \<longleftrightarrow> cfg_ok st \<and> (\<forall>k. inv_ops k st) \<and> inv_data st c \<and> inv_fast st c \<and> inv_notify st c \<and> inv_atomic st c \<and>
     inv_reqs st \<and> (\<forall>q. c q \<le> length (posts st q))"

lemma invI [inv_intros]:
  "\<lbrakk>cfg_ok st; \<And>k. inv_ops k st; inv_data st c; inv_fast st c; inv_notify st c; inv_atomic st c; inv_reqs st;
    \<And>q. c q \<le> length (posts st q)\<rbrakk> \<Longrightarrow> inv st c"
  by (simp add: inv_def)

lemma invD:
  assumes "inv st c"
  shows "cfg_ok st" "\<And>k. inv_ops k st" "inv_data st c" "inv_fast st c" "inv_notify st c" "inv_atomic st c" "inv_reqs st"
    "\<And>q. c q \<le> length (posts st q)"
  using assms unfolding inv_def by auto

section \<open>Updates of one kind\<close>

lemma io_of_upd [simp]: "io_of k' (upd_io k f st) = (if k' = k then f (io_of k st) else io_of k' st)"
  by (cases k; cases k') (simp_all add: io_of_def upd_io_def)

lemma upd_io_fields [simp]:
  "wqes (upd_io k f st) = wqes st" "rr (upd_io k f st) = rr st" "pendN (upd_io k f st) = pendN st"
  "outN (upd_io k f st) = outN st" "atomics (upd_io k f st) = atomics st" "sndNxt (upd_io k f st) = sndNxt st"
  "rcvNxt (upd_io k f st) = rcvNxt st" "rcvd (upd_io k f st) = rcvd st" "notifyCount (upd_io k f st) = notifyCount st"
  "nextWrId (upd_io k f st) = nextWrId st" "maxNumQps (upd_io k f st) = maxNumQps st" "scalingTh (upd_io k f st) = scalingTh st"
  "vc_vcMode (upd_io k f st) = vc_vcMode st" "maxQpMsgs (upd_io k f st) = maxQpMsgs st" "mtu (upd_io k f st) = mtu st"
  "maxMsgSize (upd_io k f st) = maxMsgSize st" "devs (upd_io k f st) = devs st" "reqs (upd_io k f st) = reqs st"
  "wire (upd_io k f st) = wire st"
  by (cases k; simp add: upd_io_def)+

lemma io_of_simps [simp]:
  "io_of k (st\<lparr>wqes := a\<rparr>) = io_of k st" "io_of k (st\<lparr>rr := b\<rparr>) = io_of k st" "io_of k (st\<lparr>pendN := d\<rparr>) = io_of k st"
  "io_of k (st\<lparr>outN := d\<rparr>) = io_of k st" "io_of k (st\<lparr>atomics := e\<rparr>) = io_of k st" "io_of k (st\<lparr>sndNxt := f\<rparr>) = io_of k st"
  "io_of k (st\<lparr>nextWrId := g\<rparr>) = io_of k st" "io_of k (st\<lparr>reqs := h\<rparr>) = io_of k st" "io_of k (st\<lparr>wire := w\<rparr>) = io_of k st"
  "io_of k (st\<lparr>rcvNxt := r\<rparr>) = io_of k st" "io_of k (st\<lparr>rcvd := s\<rparr>) = io_of k st" "io_of k (st\<lparr>notifyCount := t\<rparr>) = io_of k st"
  by (cases k; simp add: io_of_def)+

lemma io_of_puts [simp]: "io_of Put st = puts st" "io_of Get st = gets st"
  by (simp_all add: io_of_def)

lemma upd_io_same: "f (io_of k st) = io_of k st \<Longrightarrow> upd_io k f st = st"
  by (cases k) (simp_all add: upd_io_def io_of_def)

section \<open>Posting to the wire\<close>

lemma posts_append: "wire st' = wire st @ [(q, t, w)] \<Longrightarrow> posts st' q' = (if q' = q then posts st q @ [(t, w)] else posts st q')"
  by (simp add: posts_def)

lemma posts_same:
  assumes "wire st' = wire st"
  shows "posts st' = posts st"
  by (rule ext) (simp only: posts_def assms)

lemma inflight_append:
  assumes "wire st' = wire st @ [(q, t, w)]" "c q \<le> length (posts st q)"
  shows "inflight st' c q' = (if q' = q then inflight st c q @ [(t, w)] else inflight st c q')"
  using assms by (simp add: inflight_def posts_append)

lemma inflight_same:
  assumes "wire st' = wire st"
  shows "inflight st' = inflight st"
  by (intro ext) (simp only: inflight_def posts_def assms)

lemma inflight_complete: "inflight st (c(q := c q + 1)) q' = (if q' = q then tl (inflight st c q) else inflight st c q')"
  by (simp add: inflight_def tl_drop drop_Suc)

lemma post_acc: "post acc q t w st = (commSuccess, st\<lparr>wire := wire st @ [(q, t, w)]\<rparr>)"
  by (simp add: post_def)

section \<open>Posting a piece\<close>

lemma unat_of_small: "0 \<le> q \<Longrightarrow> q < 2 ^ 64 \<Longrightarrow> unat (word_of_int q :: u64) = nat q"
  by (simp add: unsigned_of_int take_bit_int_eq_self)

lemma unat_of_pos:
  fixes q :: int
  assumes "0 < q" "q < 2 ^ 31"
  shows "unat (word_of_int q :: u64) \<noteq> 0"
proof -
  have "q < 2 ^ 64" using assms(2) by simp
  then have "unat (word_of_int q :: u64) = nat q" using assms(1) by (intro unat_of_small) simp_all
  then show ?thesis using assms(1) by simp
qed

lemma limit_small: "0 < m \<Longrightarrow> m < 2 ^ 31 \<Longrightarrow> limit m = nat m"
  by (simp add: limit_def unat_of_small)

lemma dev_some:
  assumes "cfg_ok st" "i < length (wqes st)"
  obtains d where "getIbDevFromQpIdx i st = Some d" "d < nat (devs st)"
proof -
  define per where "per = maxNumQps st div devs st"
  have p: "devs st * per = maxNumQps st" "0 < maxNumQps st" "0 < devs st" "int i < maxNumQps st"
    using assms by (auto simp: cfg_ok_def per_def)
  then have pos: "0 < per" using zero_less_mult_pos by metis
  have lt: "int i div per < devs st"
  proof (rule ccontr)
    assume "\<not> int i div per < devs st"
    then have "devs st * per \<le> (int i div per) * per" using pos by (simp add: mult_right_mono)
    also have "\<dots> \<le> int i" using pos by (metis Euclidean_Rings.pos_mod_sign add_increasing2 div_mult_mod_eq order_refl)
    finally show False using p by simp
  qed
  have nn: "0 \<le> int i div per" using pos by (simp add: pos_imp_zdiv_nonneg_iff)
  have g: "getIbDevFromQpIdx i st = Some (nat (int i div per))" using pos by (simp add: getIbDevFromQpIdx_def per_def [symmetric] Let_def)
  show ?thesis by (rule that [OF g]) (use lt nn in simp)
qed

lemma qps_pos: "cfg_ok st \<Longrightarrow> config_ok c \<Longrightarrow> 0 < min (getOpQps c st) (maxNumQps st)"
  by (cases c) (auto simp: cfg_ok_def config_ok_def getOpQps_def)

lemma maxWqe_some:
  assumes "cfg_ok st" "config_ok (o_config p)"
  obtains m where "maxWqeSize p st = Some m"
proof -
  let ?q = "min (getOpQps (o_config p) st) (maxNumQps st)"
  have "0 < ?q" by (rule qps_pos [OF assms])
  moreover have "?q < 2 ^ 31" using assms(1) by (auto simp: cfg_ok_def min_def)
  ultimately have "unat (word_of_int ?q :: u64) \<noteq> 0" by (rule unat_of_pos)
  then have "\<exists>m. maxWqeSize p st = Some m" by (auto simp: maxWqeSize_def Let_def)
  then show ?thesis using that by blast
qed

definition piece_st :: "op_kind \<Rightarrow> nat \<Rightarrow> nat \<Rightarrow> nat \<Rightarrow> op_info \<Rightarrow> op_info list \<Rightarrow> vc \<Rightarrow> vc" where
  "piece_st k i d n p ps st =
     (let (w, seq) = op_wr k p d n st; p2 = p\<lparr>o_outstanding := o_outstanding p + 1, o_offset := o_offset p + n\<rparr>
      in upd_io k (\<lambda>io. if n = o_len p - o_offset p then io\<lparr>pend := ps, outst := outst io @ [p2]\<rparr> else io\<lparr>pend := p2 # ps\<rparr>)
           (st\<lparr>nextWrId := nextWrId st + 1, sndNxt := seq,
               wqes := (wqes st)[i := wqes st ! i @ [\<lparr>q_wrId = w_id w, q_kind = k, q_op = o_id p\<rparr>]],
               wire := wire st @ [(DataQp i, Piece k (o_id p), w)]\<rparr>))"

lemma queue_op_eq:
  assumes c: "cfg_ok st" and i: "i < length (wqes st)" and p: "pend (io_of k st) = p # ps" "op_good st p" "o_offset p \<le> o_len p"
  obtains d m where "d < nat (devs st)" "maxWqeSize p st = Some m"
    "queue_op acc k i st = Some (commSuccess, piece_st k i d (min (o_len p - o_offset p) m) p ps st)"
proof -
  obtain d where d: "getIbDevFromQpIdx i st = Some d" "d < nat (devs st)" by (rule dev_some [OF c i])
  obtain m where m: "maxWqeSize p st = Some m" using maxWqe_some [OF c, of p] p(2) unfolding op_good_def by blast
  let ?n = "min (o_len p - o_offset p) m"
  obtain w seq where w: "op_wr k p d ?n st = (w, seq)" by fastforce
  have "queue_op acc k i st = Some (commSuccess, piece_st k i d ?n p ps st)"
  proof (cases k)
    case Put
    then show ?thesis using p d m i w
      by (auto simp: queue_op_def op_good_def post_acc piece_st_def upd_io_def Let_def)
  next
    case Get
    then show ?thesis using p d m i w
      by (auto simp: queue_op_def op_good_def post_acc piece_st_def upd_io_def Let_def)
  qed
  then show ?thesis using that d m by blast
qed

lemma piece_st_simps:
  "wqes (piece_st k i d n p ps st) = (wqes st)[i := wqes st ! i @ [\<lparr>q_wrId = w_id (fst (op_wr k p d n st)), q_kind = k, q_op = o_id p\<rparr>]]"
  "wire (piece_st k i d n p ps st) = wire st @ [(DataQp i, Piece k (o_id p), fst (op_wr k p d n st))]"
  "io_of k' (piece_st k i d n p ps st) = (if k' = k then
     (let io = io_of k st; p2 = p\<lparr>o_outstanding := o_outstanding p + 1, o_offset := o_offset p + n\<rparr>
      in if n = o_len p - o_offset p then io\<lparr>pend := ps, outst := outst io @ [p2]\<rparr> else io\<lparr>pend := p2 # ps\<rparr>) else io_of k' st)"
  "pendN (piece_st k i d n p ps st) = pendN st" "outN (piece_st k i d n p ps st) = outN st"
  "atomics (piece_st k i d n p ps st) = atomics st" "reqs (piece_st k i d n p ps st) = reqs st"
  "devs (piece_st k i d n p ps st) = devs st" "maxNumQps (piece_st k i d n p ps st) = maxNumQps st"
  "rr (piece_st k i d n p ps st) = rr st" "maxQpMsgs (piece_st k i d n p ps st) = maxQpMsgs st"
  "sndNxt (piece_st k i d n p ps st) = snd (op_wr k p d n st)" "nextWrId (piece_st k i d n p ps st) = nextWrId st + 1"
  "scalingTh (piece_st k i d n p ps st) = scalingTh st" "mtu (piece_st k i d n p ps st) = mtu st"
  "maxMsgSize (piece_st k i d n p ps st) = maxMsgSize st"
  by (simp_all add: piece_st_def Let_def split_beta)

lemma ops_piece:
  assumes "pend (io_of k st) = p # ps"
  defines "p2 \<equiv> \<lambda>n. p\<lparr>o_outstanding := o_outstanding p + 1, o_offset := o_offset p + n\<rparr>"
  shows "ops k' (piece_st k i d n p ps st) = (if k' = k then outst (io_of k st) @ p2 n # ps else ops k' st)"
    "ops k st = outst (io_of k st) @ p # ps"
  using assms by (simp_all add: ops_def piece_st_simps Let_def)

lemma concat_update_append: "i < length xs \<Longrightarrow> mset (concat (xs[i := xs ! i @ [x]])) = add_mset x (mset (concat xs))"
proof -
  assume i: "i < length xs"
  have e: "xs = take i xs @ xs ! i # drop (Suc i) xs" using i by (rule id_take_nth_drop)
  have u: "xs[i := xs ! i @ [x]] = take i xs @ (xs ! i @ [x]) # drop (Suc i) xs" using i by (rule upd_conv_take_nth_drop)
  have "mset (concat xs) = mset (concat (take i xs @ xs ! i # drop (Suc i) xs))" using e by simp
  then show ?thesis unfolding u by simp
qed

lemma cnt_mset: "cnt k i st = size (filter_mset (\<lambda>q. q_kind q = k \<and> q_op q = i) (mset (concat (wqes st))))"
  unfolding cnt_def size_mset [symmetric] mset_filter ..

lemma cnt_piece:
  assumes "i < length (wqes st)"
  shows "cnt k' j (piece_st k i d n p ps st) = cnt k' j st + (if k' = k \<and> j = o_id p then 1 else 0)"
  using assms by (simp add: cnt_mset piece_st_simps(1) concat_update_append)

lemma wqes_piece:
  assumes "i < length (wqes st)" "q \<in> set (concat (wqes (piece_st k i d n p ps st)))"
  shows "q \<in> set (concat (wqes st)) \<or> (q_kind q = k \<and> q_op q = o_id p)"
proof -
  have "q \<in># mset (concat (wqes (piece_st k i d n p ps st)))" using assms(2) by (simp only: set_mset_mset)
  then have "q = \<lparr>q_wrId = w_id (fst (op_wr k p d n st)), q_kind = k, q_op = o_id p\<rparr> \<or> q \<in># mset (concat (wqes st))"
    using assms(1) by (simp add: piece_st_simps(1) concat_update_append)
  then show ?thesis by auto
qed

lemma op_good_fields:
  "op_good st p \<Longrightarrow> devs st' = devs st \<Longrightarrow> op_good st' (p\<lparr>o_outstanding := a, o_offset := b\<rparr>)"
  "op_good st p \<Longrightarrow> devs st' = devs st \<Longrightarrow> op_good st' p"
  by (simp_all add: op_good_def)

lemma piece_inv_ops:
  assumes v: "inv_ops k' st" "inv_ops k st" and i: "i < length (wqes st)" and p: "pend (io_of k st) = p # ps"
    and n: "n \<le> o_len p - o_offset p"
  shows "inv_ops k' (piece_st k i d n p ps st)"
proof (cases "k' = k")
  case False
  have e: "ops k' (piece_st k i d n p ps st) = ops k' st" "io_of k' (piece_st k i d n p ps st) = io_of k' st"
    using False ops_piece(1) [OF p] by (simp_all add: piece_st_simps)
  have q: "q \<in> set (concat (wqes st))" if "q \<in> set (concat (wqes (piece_st k i d n p ps st)))" "q_kind q = k'" for q
    using wqes_piece [OF i that(1)] that(2) False by blast
  show ?thesis using v(1) q False unfolding inv_ops_def e
    by (auto simp: cnt_piece [OF i] op_good_def piece_st_simps(8) simp del: set_concat)
next
  case k: True
  let ?p2 = "p\<lparr>o_outstanding := o_outstanding p + 1, o_offset := o_offset p + n\<rparr>"
  let ?st = "piece_st k i d n p ps st"
  have o: "ops k ?st = outst (io_of k st) @ ?p2 # ps" "ops k st = outst (io_of k st) @ p # ps" using ops_piece [OF p] by simp_all
  have nid: "nextId (io_of k ?st) = nextId (io_of k st)" by (simp add: piece_st_simps Let_def)
  have s: "sorted_wrt (<) (map o_id (outst (io_of k st) @ p # ps))" using v(2) unfolding inv_ops_def o(2) by blast
  have ne: "o_id p' \<noteq> o_id p" if "p' \<in> set (outst (io_of k st) @ ps)" for p'
    using s that by (auto simp: sorted_wrt_append)
  have a: "\<forall>p' \<in> set (ops k st). o_id p' < nextId (io_of k st) \<and> op_good st p' \<and> o_outstanding p' = cnt k (o_id p') st"
    "\<forall>q \<in> set (concat (wqes st)). q_kind q = k \<longrightarrow> q_op q \<in> o_id ` set (ops k st)"
    "\<forall>p' \<in> set (outst (io_of k st)). o_offset p' = o_len p'" "\<forall>p' \<in> set (p # ps). o_offset p' \<le> o_len p'"
    using v(2) p unfolding inv_ops_def by auto
  have "sorted_wrt (<) (map o_id (ops k ?st))" using s unfolding o(1) by simp
  moreover have "\<forall>p' \<in> set (ops k ?st). o_id p' < nextId (io_of k ?st) \<and> op_good ?st p' \<and> o_outstanding p' = cnt k (o_id p') ?st"
  proof
    fix p' assume "p' \<in> set (ops k ?st)"
    then consider "p' = ?p2" | "p' \<in> set (outst (io_of k st) @ ps)" unfolding o(1) by auto
    then show "o_id p' < nextId (io_of k ?st) \<and> op_good ?st p' \<and> o_outstanding p' = cnt k (o_id p') ?st"
    proof cases
      case 1
      then show ?thesis using a(1) unfolding o(2) nid by (simp add: cnt_piece [OF i] op_good_def piece_st_simps(8))
    next
      case 2
      then have "p' \<in> set (ops k st)" unfolding o(2) by auto
      then show ?thesis using a(1) ne [OF 2] unfolding nid by (simp add: cnt_piece [OF i] op_good_def piece_st_simps(8))
    qed
  qed
  moreover have "\<forall>q \<in> set (concat (wqes ?st)). q_kind q = k \<longrightarrow> q_op q \<in> o_id ` set (ops k ?st)"
  proof (intro ballI impI)
    fix q assume q: "q \<in> set (concat (wqes ?st))" "q_kind q = k"
    from wqes_piece [OF i q(1)] show "q_op q \<in> o_id ` set (ops k ?st)"
    proof
      assume "q \<in> set (concat (wqes st))"
      then show ?thesis using a(2) q(2) unfolding o by auto
    qed (simp add: o(1))
  qed
  moreover have "\<forall>p' \<in> set (outst (io_of k ?st)). o_offset p' = o_len p'"
    using a(3,4) n by (auto simp: piece_st_simps Let_def)
  moreover have "\<forall>p' \<in> set (pend (io_of k ?st)). o_offset p' \<le> o_len p'"
    using a(4) n p by (auto simp: piece_st_simps Let_def)
  ultimately show ?thesis unfolding k inv_ops_def by blast
qed

lemma map_req_piece:
  assumes "pend (io_of k st) = p # ps"
  shows "map o_req (ops k' (piece_st k i d n p ps st)) = map o_req (ops k' st)"
  by (cases "k' = k") (simp_all add: ops_piece [OF assms])

lemma fast_piece: "fast (io_of k' (piece_st k i d n p ps st)) = fast (io_of k' st)"
  by (simp add: piece_st_simps Let_def)

lemma held_piece:
  assumes "pend (io_of k st) = p # ps"
  shows "held (piece_st k i d n p ps st) = held st"
  using fast_piece [of Put k i d n p ps st] fast_piece [of Get k i d n p ps st]
  by (simp add: held_def map_req_piece [OF assms] piece_st_simps(4-6))

lemma cfg_piece: "cfg_ok st \<Longrightarrow> i < length (wqes st) \<Longrightarrow> cfg_ok (piece_st k i d n p ps st)"
  by (simp add: cfg_ok_def piece_st_simps)

lemma piece_inv:
  assumes v: "inv st c" and i: "i < length (wqes st)" and p: "pend (io_of k st) = p # ps" and n: "n \<le> o_len p - o_offset p"
  shows "inv (piece_st k i d n p ps st) c"
proof -
  let ?st = "piece_st k i d n p ps st" let ?w = "fst (op_wr k p d n st)"
  note V = invD [OF v]
  have fl: "inflight ?st c q = (if q = DataQp i then inflight st c q @ [(Piece k (o_id p), ?w)] else inflight st c q)" for q
    using inflight_append [of ?st st "DataQp i" "Piece k (o_id p)" ?w c q] V(8) [of "DataQp i"] by (simp add: piece_st_simps)
  have po: "length (posts st q) \<le> length (posts ?st q)" for q
    using posts_append [of ?st st "DataQp i" "Piece k (o_id p)" ?w q] by (simp add: piece_st_simps)
  show ?thesis
  proof (rule invI)
    show "cfg_ok ?st" using cfg_piece V(1) i by blast
    show "inv_ops k' ?st" for k' by (rule piece_inv_ops [OF V(2) V(2) i p n])
    show "inv_data ?st c" unfolding inv_data_def
    proof (intro allI impI)
      fix j assume "j < length (wqes ?st)"
      then have j: "j < length (wqes st)" by (simp add: piece_st_simps)
      have o: "concat (map wqe_of (inflight st c (DataQp j))) = wqes st ! j" "list_all data_tag (inflight st c (DataQp j))"
        "\<And>k. concat (map (fast_id k) (inflight st c (DataQp j))) = (if j = 0 then map fst (fast (io_of k st)) else [])"
        using V(3) j unfolding inv_data_def by blast+
      show "concat (map wqe_of (inflight ?st c (DataQp j))) = wqes ?st ! j \<and> list_all data_tag (inflight ?st c (DataQp j)) \<and>
        (\<forall>k'. concat (map (fast_id k') (inflight ?st c (DataQp j))) = (if j = 0 then map fst (fast (io_of k' ?st)) else []))"
      proof (intro conjI allI)
        show "concat (map wqe_of (inflight ?st c (DataQp j))) = wqes ?st ! j" using o(1) j i by (cases "j = i") (simp_all add: fl piece_st_simps(1))
        show "list_all data_tag (inflight ?st c (DataQp j))" using o(2) by (cases "j = i") (simp_all add: fl)
        fix k'
        have "concat (map (fast_id k') (inflight ?st c (DataQp j))) = concat (map (fast_id k') (inflight st c (DataQp j)))"
          by (simp add: fl)
        then show "concat (map (fast_id k') (inflight ?st c (DataQp j))) = (if j = 0 then map fst (fast (io_of k' ?st)) else [])"
          unfolding o(3) fast_piece .
      qed
    qed
    show "inv_fast ?st c" unfolding inv_fast_def
    proof
      fix k'
      have "filter (\<lambda>x. is_fast k' x \<or> is_piece k' x) (inflight st c (DataQp 0)) =
        filter (is_fast k') (inflight st c (DataQp 0)) @ filter (is_piece k') (inflight st c (DataQp 0))"
        using V(4) unfolding inv_fast_def by blast
      then show "filter (\<lambda>x. is_fast k' x \<or> is_piece k' x) (inflight ?st c (DataQp 0)) =
        filter (is_fast k') (inflight ?st c (DataQp 0)) @ filter (is_piece k') (inflight ?st c (DataQp 0))"
        by (simp add: fl)
    qed
    show "inv_notify ?st c" "inv_atomic ?st c" using V(5,6) by (simp_all add: inv_notify_def inv_atomic_def fl piece_st_simps)
    show "inv_reqs ?st" using V(7) held_piece [OF p] by (simp add: inv_reqs_def piece_st_simps)
    show "c q \<le> length (posts ?st q)" for q using V(8) po le_trans by blast
  qed
qed

text \<open>\<^verbatim>\<open>queueWriteOnQp\<close> and \<^verbatim>\<open>queueReadOnQp\<close> post at most one piece and keep the invariant.\<close>

lemma queue_op_inv:
  assumes v: "inv st c" and i: "i < length (wqes st)"
  obtains (idle) "pend (io_of k st) = []" "queue_op acc k i st = Some (commSuccess, st)"
  | (posted) p ps d m where "pend (io_of k st) = p # ps" "d < nat (devs st)" "maxWqeSize p st = Some m"
      "queue_op acc k i st = Some (commSuccess, piece_st k i d (min (o_len p - o_offset p) m) p ps st)"
      "inv (piece_st k i d (min (o_len p - o_offset p) m) p ps st) c"
proof (cases "pend (io_of k st)")
  case Nil
  then show ?thesis using that(1) by (simp add: queue_op_def)
next
  case (Cons p ps)
  have "p \<in> set (ops k st)" "p \<in> set (pend (io_of k st))" using Cons by (simp_all add: ops_def)
  then have g: "op_good st p" "o_offset p \<le> o_len p" using invD(2) [OF v, of k] unfolding inv_ops_def by blast+
  obtain d m where "d < nat (devs st)" "maxWqeSize p st = Some m"
    "queue_op acc k i st = Some (commSuccess, piece_st k i d (min (o_len p - o_offset p) m) p ps st)"
    by (rule queue_op_eq [OF invD(1) [OF v] i Cons g])
  then show ?thesis using that(2) Cons piece_inv [OF v i Cons] by simp
qed

section \<open>Posting as much as possible\<close>

text \<open>What \<open>tryToPostOp\<close> does to the state: pieces on queue pairs below the limit, and turns of the round robin.\<close>

definition room :: "op_kind \<Rightarrow> nat \<Rightarrow> vc \<Rightarrow> bool" where
  "room k i st \<longleftrightarrow> length (wqes st ! i) + (if i = 0 then length (fast (io_of k st)) else 0) < nat (maxQpMsgs st)"

inductive moves :: "op_kind \<Rightarrow> vc \<Rightarrow> vc \<Rightarrow> bool" for k st where
  none: "moves k st st"
| piece: "moves k st st1 \<Longrightarrow> i < length (wqes st1) \<Longrightarrow> pend (io_of k st1) = p # ps \<Longrightarrow> room k i st1 \<Longrightarrow> d < nat (devs st1) \<Longrightarrow>
    maxWqeSize p st1 = Some m \<Longrightarrow> moves k st (piece_st k i d (min (o_len p - o_offset p) m) p ps st1)"
| turn: "moves k st st1 \<Longrightarrow> j < length (wqes st1) \<Longrightarrow> moves k st (st1\<lparr>rr := j\<rparr>)"

lemma moves_trans: "moves k st1 st2 \<Longrightarrow> moves k st st1 \<Longrightarrow> moves k st st2"
  by (induction rule: moves.induct) (auto intro: moves.intros)

lemma inv_turn:
  assumes "inv st c" "j < length (wqes st)"
  shows "inv (st\<lparr>rr := j\<rparr>) c"
proof -
  have "inflight (st\<lparr>rr := j\<rparr>) = inflight st" by (rule inflight_same) simp
  moreover have "posts (st\<lparr>rr := j\<rparr>) = posts st" by (rule posts_same) simp
  moreover have "ops k (st\<lparr>rr := j\<rparr>) = ops k st" "cnt k i (st\<lparr>rr := j\<rparr>) = cnt k i st" "held (st\<lparr>rr := j\<rparr>) = held st" for k i
    by (simp_all add: ops_def cnt_def held_def)
  ultimately show ?thesis using assms
    by (simp add: inv_def cfg_ok_def inv_ops_def inv_data_def inv_fast_def inv_notify_def inv_atomic_def inv_reqs_def op_good_def)
qed

lemma moves_inv: "moves k st st' \<Longrightarrow> inv st c \<Longrightarrow> inv st' c"
proof (induction rule: moves.induct)
  case (piece st1 i p ps d m)
  show ?case by (rule piece_inv [OF piece.IH [OF piece.prems] piece.hyps(2,3)]) simp
next
  case (turn st1 j)
  then show ?case using inv_turn by blast
qed

text \<open>What stays the same.\<close>

lemma moves_fixed:
  "moves k st st' \<Longrightarrow> maxNumQps st' = maxNumQps st \<and> maxQpMsgs st' = maxQpMsgs st \<and> length (wqes st') = length (wqes st) \<and>
    devs st' = devs st \<and> scalingTh st' = scalingTh st \<and> mtu st' = mtu st \<and> maxMsgSize st' = maxMsgSize st \<and>
    (\<forall>k'. fast (io_of k' st') = fast (io_of k' st)) \<and> (\<forall>k'. k' \<noteq> k \<longrightarrow> io_of k' st' = io_of k' st) \<and>
    pendN st' = pendN st \<and> outN st' = outN st \<and> atomics st' = atomics st \<and> reqs st' = reqs st"
proof (induction rule: moves.induct)
  case (piece st1 i p ps d m)
  then show ?case by (simp add: fast_piece) (simp add: piece_st_simps)
qed simp_all

definition bound :: "vc \<Rightarrow> bool" where
  "bound st \<longleftrightarrow> (\<forall>i < length (wqes st). i \<noteq> 0 \<longrightarrow> length (wqes st ! i) \<le> nat (maxQpMsgs st)) \<and>
     (\<forall>k. length (fast (io_of k st)) + length (filter (\<lambda>q. q_kind q = k) (wqes st ! 0)) \<le> nat (maxQpMsgs st))"

text \<open>A completion leaves a slot for its own kind; on queue pair 0, the other kind may have used all the room.\<close>

definition slot :: "op_kind \<Rightarrow> nat \<Rightarrow> vc \<Rightarrow> bool" where
  "slot k i st \<longleftrightarrow> (if i = 0 then length (fast (io_of k st)) + length (filter (\<lambda>q. q_kind q = k) (wqes st ! 0)) < nat (maxQpMsgs st)
     else length (wqes st ! i) < nat (maxQpMsgs st))"

lemma room_slot:
  assumes "room k i st"
  shows "slot k i st"
proof -
  have f: "length (filter (\<lambda>q. q_kind q = k) (wqes st ! 0)) \<le> length (wqes st ! 0)" by (rule length_filter_le)
  show ?thesis
  proof (cases "i = 0")
    case True
    then have "length (wqes st ! 0) + length (fast (io_of k st)) < nat (maxQpMsgs st)" using assms by (simp add: room_def)
    then have "length (fast (io_of k st)) + length (filter (\<lambda>q. q_kind q = k) (wqes st ! 0)) < nat (maxQpMsgs st)" using f by linarith
    then show ?thesis using True by (simp add: slot_def)
  qed (use assms in \<open>simp add: room_def slot_def\<close>)
qed

lemma bound_piece:
  assumes "bound st" "slot k i st" "i < length (wqes st)"
  shows "bound (piece_st k i d n p ps st)"
proof -
  let ?w = "\<lparr>q_wrId = w_id (fst (op_wr k p d n st)), q_kind = k, q_op = o_id p\<rparr>"
  have nz: "length (wqes st ! j) \<le> nat (maxQpMsgs st)" if "j < length (wqes st)" "j \<noteq> 0" for j
    using assms(1) that unfolding bound_def by blast
  have z: "length (fast (io_of k' st)) + length (filter (\<lambda>q. q_kind q = k') (wqes st ! 0)) \<le> nat (maxQpMsgs st)" for k'
    using assms(1) unfolding bound_def by blast
  have r: "length (fast (io_of k st)) + length (filter (\<lambda>q. q_kind q = k) (wqes st ! 0)) < nat (maxQpMsgs st)" if "i = 0"
    using assms(2) that unfolding slot_def by simp
  show ?thesis unfolding bound_def
  proof (intro conjI allI impI)
    fix j assume "j < length (wqes (piece_st k i d n p ps st))" "j \<noteq> 0"
    then show "length (wqes (piece_st k i d n p ps st) ! j) \<le> nat (maxQpMsgs (piece_st k i d n p ps st))"
      using nz [of j] assms(2) by (cases "j = i") (simp_all add: piece_st_simps(1,11) slot_def)
  next
    fix k'
    show "length (fast (io_of k' (piece_st k i d n p ps st))) + length (filter (\<lambda>q. q_kind q = k') (wqes (piece_st k i d n p ps st) ! 0))
        \<le> nat (maxQpMsgs (piece_st k i d n p ps st))"
      using z [of k'] r assms(3) by (cases "i = 0"; cases "k' = k") (simp_all add: piece_st_simps(1,11) fast_piece)
  qed
qed

lemma moves_bound: "moves k st st' \<Longrightarrow> bound st \<Longrightarrow> bound st'"
proof (induction rule: moves.induct)
  case (turn st1 j)
  then show ?case by (simp add: bound_def)
qed (auto intro: bound_piece room_slot)

lemma kinds_length: "length xs = length (filter (\<lambda>q. q_kind q = Put) xs) + length (filter (\<lambda>q. q_kind q = Get) xs)"
proof (induction xs)
  case (Cons q xs)
  then show ?case by (cases "q_kind q") auto
qed simp

lemma bound_total:
  assumes "bound st"
  shows "length (concat (wqes st)) \<le> length (wqes st) * (2 * nat (maxQpMsgs st))"
proof -
  have "length q \<le> 2 * nat (maxQpMsgs st)" if q: "q \<in> set (wqes st)" for q
  proof -
    obtain i where i: "i < length (wqes st)" "q = wqes st ! i" using q unfolding in_set_conv_nth by blast
    show ?thesis
    proof (cases "i = 0")
      case True
      have b: "length (filter (\<lambda>q. q_kind q = k) (wqes st ! 0)) \<le> nat (maxQpMsgs st)" for k
        using assms unfolding bound_def by (meson add_leD2)
      have "length (wqes st ! 0) \<le> 2 * nat (maxQpMsgs st)"
        using kinds_length [of "wqes st ! 0"] b [of Put] b [of Get] by linarith
      then show ?thesis using i(2) True by simp
    next
      case False
      then have "length q \<le> nat (maxQpMsgs st)" using assms i unfolding bound_def by blast
      then show ?thesis by simp
    qed
  qed
  then have "(\<Sum>q \<leftarrow> wqes st. length q) \<le> (\<Sum>q \<leftarrow> wqes st. 2 * nat (maxQpMsgs st))" by (intro sum_list_mono)
  then show ?thesis by (simp add: length_concat sum_list_triv)
qed

lemma tot_piece: "i < length (wqes st) \<Longrightarrow> length (concat (wqes (piece_st k i d n p ps st))) = length (concat (wqes st)) + 1"
  by (simp only: size_mset [symmetric] piece_st_simps(1) concat_update_append size_add_mset Suc_eq_plus1)

definition busy :: "op_kind \<Rightarrow> vc \<Rightarrow> bool" where
  "busy k st \<longleftrightarrow> (\<exists>i < length (wqes st). wqes st ! i \<noteq> []) \<or> fast (io_of k st) \<noteq> []"

lemma busy_moves:
  assumes "moves k st st'" "length (concat (wqes st)) \<le> length (concat (wqes st'))" "busy k st"
  shows "busy k st'"
proof (cases "fast (io_of k st) = []")
  case False
  then show ?thesis using moves_fixed [OF assms(1)] by (simp add: busy_def)
next
  case True
  then obtain i where "i < length (wqes st)" "wqes st ! i \<noteq> []" using assms(3) by (auto simp: busy_def)
  then have "concat (wqes st) \<noteq> []" unfolding concat_eq_Nil_conv using nth_mem by blast
  then have "0 < length (concat (wqes st))" by blast
  then have "0 < length (concat (wqes st'))" using assms(2) by (rule less_le_trans)
  then have "concat (wqes st') \<noteq> []" by blast
  then obtain q where "q \<in> set (wqes st')" "q \<noteq> []" unfolding concat_eq_Nil_conv by blast
  then show ?thesis unfolding busy_def in_set_conv_nth by blast
qed

text \<open>One step of the round, before the turn.\<close>

lemma round_step_ok:
  assumes v: "inv st c" and mm: "0 < mm" "mm \<le> maxQpMsgs st"
    and sz_def: "sz = length (wqes st ! rr st) + (if rr st = 0 then length (fast (io_of k st)) else 0)"
  obtains sent1 st1 where "(if sz < limit mm then map_option (\<lambda>(r, st1). (r, True, st1)) (queue_op acc k (rr st) st)
      else Some (commSuccess, sent, st)) = Some (commSuccess, sent1, st1)" "moves k st st1"
      "length (concat (wqes st)) \<le> length (concat (wqes st1))"
      "pend (io_of k st) \<noteq> [] \<longrightarrow> sent1 \<longrightarrow> sent \<or> length (concat (wqes st)) < length (concat (wqes st1))"
      "sent \<longrightarrow> sent1" "\<not> sent1 \<longrightarrow> st1 = st \<and> busy k st"
proof -
  note V = invD [OF v]
  have r: "rr st < length (wqes st)" and M: "0 < maxQpMsgs st" "maxQpMsgs st < 2 ^ 31" using V(1) by (simp_all add: cfg_ok_def)
  have lim: "limit mm = nat mm" using mm M by (intro limit_small) simp_all
  show ?thesis
  proof (cases "sz < limit mm")
    case False
    then have "0 < sz" using lim mm by simp
    then have "busy k st" using r by (auto simp: busy_def sz_def split: if_splits)
    then show ?thesis using that [of sent st] moves.none False by simp
  next
    case True
    have room: "room k (rr st) st" using True lim mm by (simp add: room_def sz_def)
    show ?thesis
    proof (cases rule: queue_op_inv [OF v r, of k])
      case 1
      then show ?thesis using that [of True st] True moves.none by simp
    next
      case (2 p ps d m)
      let ?s = "piece_st k (rr st) d (min (o_len p - o_offset p) m) p ps st"
      have "moves k st ?s" by (rule moves.piece [OF moves.none r 2(1) room 2(2,3)])
      then show ?thesis using that [of True ?s] True 2(4) tot_piece [OF r] by simp
    qed
  qed
qed

lemma post_round_ok:
  assumes "inv st c" "0 < qps" "qps \<le> maxNumQps st" "0 < mm" "mm \<le> maxQpMsgs st" "pend (io_of k st) \<noteq> []"
  shows "\<exists>sent' st'. post_round acc k qps mm n sent st = Some (commSuccess, sent', st') \<and> moves k st st' \<and>
    length (concat (wqes st)) \<le> length (concat (wqes st')) \<and> (sent' \<longrightarrow> sent \<or> length (concat (wqes st)) < length (concat (wqes st'))) \<and>
    (sent \<longrightarrow> sent') \<and> (\<not> sent' \<longrightarrow> 0 < n \<longrightarrow> busy k st')"
  using assms
proof (induction n arbitrary: st sent)
  case 0
  then show ?case by (auto intro: moves.none)
next
  case (Suc n)
  define sz where "sz = length (wqes st ! rr st) + (if rr st = 0 then length (fast (io_of k st)) else 0)"
  obtain sent1 st1 where s1: "(if sz < limit mm then map_option (\<lambda>(r, st1). (r, True, st1)) (queue_op acc k (rr st) st)
      else Some (commSuccess, sent, st)) = Some (commSuccess, sent1, st1)" "moves k st st1"
      "length (concat (wqes st)) \<le> length (concat (wqes st1))"
      "sent1 \<longrightarrow> sent \<or> length (concat (wqes st)) < length (concat (wqes st1))" "sent \<longrightarrow> sent1" "\<not> sent1 \<longrightarrow> st1 = st \<and> busy k st"
    using round_step_ok [OF Suc.prems(1,4,5) sz_def, of sent] Suc.prems(6) by metis
  have r: "rr st < length (wqes st)" using invD(1) [OF Suc.prems(1)] by (simp add: cfg_ok_def)
  note F = moves_fixed [OF s1(2)]
  let ?j = "nat (int (rr st1 + 1) mod qps)"
  let ?st2 = "st1\<lparr>rr := ?j\<rparr>"
  have v1: "inv st1 c" by (rule moves_inv [OF s1(2) Suc.prems(1)])
  have "int (rr st1 + 1) mod qps < qps" using Suc.prems(2) by simp
  then have "int (rr st1 + 1) mod qps < maxNumQps st" using Suc.prems(3) by linarith
  moreover have "length (wqes st1) = nat (maxNumQps st)" using F invD(1) [OF Suc.prems(1)] by (simp add: cfg_ok_def)
  ultimately have "?j < length (wqes st1)" using Suc.prems(2,3) by (simp add: nat_less_iff del: of_nat_add)
  then have m2: "moves k st ?st2" and v2: "inv ?st2 c" using moves.turn [OF s1(2)] inv_turn [OF v1] by simp_all
  have b: "busy k ?st2" if "\<not> sent1" using s1(6) that by (simp add: busy_def)
  have step: "post_round acc k qps mm (Suc n) sent st =
      (if pend (io_of k ?st2) = [] then Some (commSuccess, sent1, ?st2) else post_round acc k qps mm n sent1 ?st2)"
    using r s1(1) by (simp add: sz_def)
  show ?case
  proof (cases "pend (io_of k ?st2) = []")
    case True
    then show ?thesis unfolding step using m2 s1(3-5) b by auto
  next
    case False
    have "qps \<le> maxNumQps ?st2" "mm \<le> maxQpMsgs ?st2" using Suc.prems(3,5) F by simp_all
    from Suc.IH [OF v2 Suc.prems(2) this(1) Suc.prems(4) this(2) False, of sent1]
    obtain sent' st' where q: "post_round acc k qps mm n sent1 ?st2 = Some (commSuccess, sent', st')" "moves k ?st2 st'"
      "length (concat (wqes ?st2)) \<le> length (concat (wqes st'))"
      "sent' \<longrightarrow> sent1 \<or> length (concat (wqes ?st2)) < length (concat (wqes st'))"
      "sent1 \<longrightarrow> sent'" "\<not> sent' \<longrightarrow> 0 < n \<longrightarrow> busy k st'" by blast
    have "\<not> sent' \<longrightarrow> busy k st'" using b busy_moves [OF q(2,3)] q(5) by blast
    moreover have "moves k st st'" by (rule moves_trans [OF q(2) m2])
    moreover have "length (concat (wqes st)) \<le> length (concat (wqes st'))" using s1(3) q(3) by simp
    moreover have "sent' \<longrightarrow> sent \<or> length (concat (wqes st)) < length (concat (wqes st'))"
    proof
      assume "sent'"
      then consider "sent1" | "length (concat (wqes st1)) < length (concat (wqes st'))" using q(4) by auto
      then show "sent \<or> length (concat (wqes st)) < length (concat (wqes st'))"
      proof cases
        case 1
        then show ?thesis using s1(4) q(3) by auto
      next
        case 2
        then show ?thesis using s1(3) by simp
      qed
    qed
    moreover have "sent \<longrightarrow> sent'" using s1(5) q(5) by blast
    moreover have "post_round acc k qps mm (Suc n) sent st = Some (commSuccess, sent', st')" unfolding step using False q(1) by simp
    ultimately show ?thesis by blast
  qed
qed

text \<open>The loop ends; if something is left, a queue pair is busy.\<close>

lemma tryToPostOp_ok:
  assumes "inv st c" "bound st"
  shows "\<exists>st'. tryToPostOp acc k st = Some (commSuccess, st') \<and> moves k st st' \<and> (pend (io_of k st') = [] \<or> busy k st')"
  using assms
proof (induction "length (wqes st) * (2 * nat (maxQpMsgs st)) - length (concat (wqes st))" arbitrary: st rule: less_induct)
  case less
  show ?case
  proof (cases "pend (io_of k st)")
    case Nil
    then show ?thesis by (subst tryToPostOp.simps) (simp add: moves.none)
  next
    case (Cons p ps)
    let ?qps = "min (getOpQps (o_config p) st) (maxNumQps st)" let ?mm = "min (getOpMaxQpMsgs (o_config p) st) (maxQpMsgs st)"
    have "p \<in> set (ops k st)" using Cons by (simp add: ops_def)
    then have g: "config_ok (o_config p)" using invD(2) [OF less.prems(1), of k] unfolding inv_ops_def op_good_def by blast
    have q: "0 < ?qps" by (rule qps_pos [OF invD(1) [OF less.prems(1)] g])
    have m: "0 < ?mm" using g invD(1) [OF less.prems(1)]
      by (cases "o_config p") (auto simp: config_ok_def getOpMaxQpMsgs_def cfg_ok_def)
    obtain sent st1 where r: "post_round acc k ?qps ?mm (nat ?qps) False st = Some (commSuccess, sent, st1)" "moves k st st1"
      "sent \<longrightarrow> length (concat (wqes st)) < length (concat (wqes st1))" "\<not> sent \<longrightarrow> busy k st1"
      using post_round_ok [OF less.prems(1) q _ m, of k "nat ?qps" False] Cons q by auto
    have step: "tryToPostOp acc k st = (if sent then tryToPostOp acc k st1 else Some (commSuccess, st1))"
      by (subst tryToPostOp.simps) (use Cons r(1) in simp)
    show ?thesis
    proof (cases sent)
      case False
      then show ?thesis using step r(2,4) by simp
    next
      case True
      note F = moves_fixed [OF r(2)]
      have v1: "inv st1 c" "bound st1" using moves_inv [OF r(2) less.prems(1)] moves_bound [OF r(2) less.prems(2)] by simp_all
      have "length (concat (wqes st1)) \<le> length (wqes st1) * (2 * nat (maxQpMsgs st1))" by (rule bound_total [OF v1(2)])
      then have "length (wqes st1) * (2 * nat (maxQpMsgs st1)) - length (concat (wqes st1)) <
          length (wqes st) * (2 * nat (maxQpMsgs st)) - length (concat (wqes st))" using r(3) True F by simp
      from less.hyps [OF this v1] obtain st' where "tryToPostOp acc k st1 = Some (commSuccess, st')" "moves k st1 st'"
        "pend (io_of k st') = [] \<or> busy k st'" by blast
      then show ?thesis using step True moves_trans [OF _ r(2)] by auto
    qed
  qed
qed

section \<open>New operations\<close>

definition reqs_free :: "vc \<Rightarrow> nat option list \<Rightarrow> bool" where
  "reqs_free st rs \<longleftrightarrow> (\<forall>i. int (count_list (held st) (Some i) + count_list rs (Some i)) \<le> refCount (reqs st i))"

lemma inv_reqs_add:
  assumes "reqs_free st rs" "\<And>i. count_list (held st') (Some i) = count_list (held st) (Some i) + count_list rs (Some i)" "reqs st' = reqs st"
  shows "inv_reqs st'"
  using assms by (simp add: inv_reqs_def reqs_free_def)

definition new_op :: "op_kind \<Rightarrow> op_info \<Rightarrow> vc \<Rightarrow> vc" where
  "new_op k p st = upd_io k (\<lambda>io. io\<lparr>pend := pend io @ [p], nextId := nextId io + 1\<rparr>) st"

lemma inv_wire_fields:
  assumes "wire st' = wire st" "wqes st' = wqes st" "\<And>k. map fst (fast (io_of k st')) = map fst (fast (io_of k st))"
  shows "inv_data st c \<Longrightarrow> inv_data st' c" "inv_fast st c \<Longrightarrow> inv_fast st' c"
    "inv_notify st c \<Longrightarrow> outN st' = outN st \<Longrightarrow> pendN st' = pendN st \<Longrightarrow> inv_notify st' c"
    "inv_atomic st c \<Longrightarrow> length (atomics st') = length (atomics st) \<Longrightarrow> inv_atomic st' c"
    "c q \<le> length (posts st q) \<Longrightarrow> c q \<le> length (posts st' q)"
proof -
  have e: "inflight st' c = inflight st c" "posts st' = posts st" by (simp_all add: inflight_same [OF assms(1)] posts_same [OF assms(1)])
  show "inv_data st c \<Longrightarrow> inv_data st' c" unfolding inv_data_def e assms(2,3) .
  show "inv_fast st c \<Longrightarrow> inv_fast st' c" unfolding inv_fast_def e .
  show "inv_notify st c \<Longrightarrow> outN st' = outN st \<Longrightarrow> pendN st' = pendN st \<Longrightarrow> inv_notify st' c" by (simp add: inv_notify_def e)
  show "inv_atomic st c \<Longrightarrow> length (atomics st') = length (atomics st) \<Longrightarrow> inv_atomic st' c" by (simp add: inv_atomic_def e)
  show "c q \<le> length (posts st q) \<Longrightarrow> c q \<le> length (posts st' q)" by (simp only: e)
qed

lemma no_wqe_for_new:
  assumes "inv_ops k st" "nextId (io_of k st) \<le> i"
  shows "cnt k i st = 0"
proof -
  have "q_op q \<noteq> i" if "q \<in> set (concat (wqes st))" "q_kind q = k" for q
  proof -
    have "q_op q \<in> o_id ` set (ops k st)" using assms(1) that unfolding inv_ops_def by blast
    then obtain p where "p \<in> set (ops k st)" "q_op q = o_id p" by auto
    then have "q_op q < nextId (io_of k st)" using assms(1) unfolding inv_ops_def by auto
    then show ?thesis using assms(2) by simp
  qed
  then show ?thesis unfolding cnt_def length_0_conv filter_empty_conv by blast
qed

lemma new_op_inv:
  assumes v: "inv st c" and p: "o_id p = nextId (io_of k st)" "o_offset p = 0" "o_outstanding p = 0" "op_good st p"
    and r: "reqs_free st [o_req p]"
  shows "inv (new_op k p st) c"
proof -
  let ?st = "new_op k p st"
  note V = invD [OF v]
  have o: "ops k' ?st = (if k' = k then ops k st @ [p] else ops k' st)" for k' by (simp add: ops_def new_op_def)
  have cn: "cnt k' i ?st = cnt k' i st" for k' i by (simp add: cnt_def new_op_def)
  have f: "fast (io_of k' ?st) = fast (io_of k' st)" "outst (io_of k' ?st) = outst (io_of k' st)" for k' by (simp_all add: new_op_def)
  show ?thesis
  proof (rule invI)
    show "cfg_ok ?st" using V(1) by (simp add: cfg_ok_def new_op_def)
    show "inv_ops k' ?st" for k'
    proof (cases "k' = k")
      case False
      then show ?thesis using V(2) [of k'] by (simp add: inv_ops_def o cn) (simp add: new_op_def op_good_def)
    next
      case True
      have a: "sorted_wrt (<) (map o_id (ops k st))" "\<forall>p \<in> set (ops k st). o_id p < nextId (io_of k st)"
        using V(2) [of k] unfolding inv_ops_def by auto
      have "sorted_wrt (<) (map o_id (ops k st @ [p]))" using a p(1) by (simp add: sorted_wrt_append)
      moreover have "\<forall>p' \<in> set (ops k st @ [p]). o_id p' < nextId (io_of k ?st) \<and> op_good ?st p' \<and> o_outstanding p' = cnt k (o_id p') ?st"
        using V(2) [of k] p no_wqe_for_new [OF V(2), of k "o_id p"] unfolding inv_ops_def cn
        by (auto simp: new_op_def op_good_def less_Suc_eq)
      moreover have "\<forall>q \<in> set (concat (wqes ?st)). q_kind q = k \<longrightarrow> q_op q \<in> o_id ` set (ops k st @ [p])"
        using V(2) [of k] unfolding inv_ops_def by (auto simp: new_op_def)
      moreover have "\<forall>p \<in> set (outst (io_of k ?st)). o_offset p = o_len p" using V(2) [of k] unfolding inv_ops_def f by blast
      moreover have "\<forall>p \<in> set (pend (io_of k ?st)). o_offset p \<le> o_len p"
        using V(2) [of k] p(2) unfolding inv_ops_def by (auto simp: new_op_def)
      ultimately show ?thesis unfolding True inv_ops_def o by simp
    qed
    show "inv_reqs ?st"
    proof (rule inv_reqs_add [OF r])
      show "reqs ?st = reqs st" by (simp add: new_op_def)
      fix i
      have g: "fast (puts ?st) = fast (puts st)" "fast (gets ?st) = fast (gets st)" using f(1) [of Put] f(1) [of Get] by simp_all
      have h: "pendN ?st = pendN st" "outN ?st = outN st" "atomics ?st = atomics st" by (simp_all add: new_op_def)
      show "count_list (held ?st) (Some i) = count_list (held st) (Some i) + count_list [o_req p] (Some i)"
        unfolding held_def o g h by (cases k) simp_all
    qed
    show "inv_data ?st c" "inv_fast ?st c" "inv_notify ?st c" "inv_atomic ?st c" "c q \<le> length (posts ?st q)" for q
      using inv_wire_fields [of ?st st c] V f(1) by (simp_all add: new_op_def)
  qed
qed

lemma new_op_bound: "bound st \<Longrightarrow> bound (new_op k p st)"
  by (simp add: bound_def new_op_def)

lemma take_id_inv:
  assumes "inv st c"
  shows "inv (snd (take_id k st)) c"
proof -
  let ?st = "snd (take_id k st)"
  have o: "ops k' ?st = ops k' st" "cnt k' i ?st = cnt k' i st" "fast (io_of k' ?st) = fast (io_of k' st)"
    "outst (io_of k' ?st) = outst (io_of k' st)" "pend (io_of k' ?st) = pend (io_of k' st)" for k' i
    by (simp_all add: ops_def take_id_def cnt_def)
  have h: "held ?st = held st" using o(3) [of Put] o(3) [of Get] by (simp add: held_def o(1)) (simp add: take_id_def)
  note V = invD [OF assms]
  show ?thesis
  proof (rule invI)
    show "cfg_ok ?st" using V(1) by (simp add: cfg_ok_def take_id_def)
    show "inv_ops k' ?st" for k'
      using V(2) [of k'] unfolding inv_ops_def o by (auto simp: take_id_def op_good_def less_Suc_eq)
    show "inv_reqs ?st" using V(7) h by (simp add: inv_reqs_def take_id_def)
    show "inv_data ?st c" "inv_fast ?st c" "inv_notify ?st c" "inv_atomic ?st c" "c q \<le> length (posts ?st q)" for q
      using inv_wire_fields [of ?st st c] V o(3) by (simp_all add: take_id_def)
  qed
qed

lemma take_id_bound: "bound st \<Longrightarrow> bound (snd (take_id k st))"
  by (simp add: bound_def take_id_def)

definition op_keys_ok :: "vc \<Rightarrow> u32 list \<Rightarrow> u32 list \<Rightarrow> bool" where
  "op_keys_ok st ks rks \<longleftrightarrow> nat (devs st) \<le> length ks \<and> nat (devs st) \<le> length rks"

text \<open>An operation on the fast path goes on queue pair 0 at once; nothing of its kind may be waiting.\<close>

definition fast_st :: "op_kind \<Rightarrow> nat option \<Rightarrow> work_req \<Rightarrow> u32 \<Rightarrow> vc \<Rightarrow> vc" where
  "fast_st k r w seq st =
     upd_io k (\<lambda>io. io\<lparr>fast := fast io @ [(nextId io, r)], nextId := nextId io + 1\<rparr>)
       (st\<lparr>nextWrId := nextWrId st + 1, sndNxt := seq, wire := wire st @ [(DataQp 0, FastOp k (nextId (io_of k st)), w)]\<rparr>)"

lemma fast_st_simps:
  "io_of k' (fast_st k r w seq st) = (if k' = k then (io_of k st)\<lparr>fast := fast (io_of k st) @ [(nextId (io_of k st), r)],
     nextId := nextId (io_of k st) + 1\<rparr> else io_of k' st)"
  "ops k' (fast_st k r w seq st) = ops k' st" "cnt k' i (fast_st k r w seq st) = cnt k' i st"
  "wqes (fast_st k r w seq st) = wqes st" "pendN (fast_st k r w seq st) = pendN st" "outN (fast_st k r w seq st) = outN st"
  "atomics (fast_st k r w seq st) = atomics st" "reqs (fast_st k r w seq st) = reqs st" "devs (fast_st k r w seq st) = devs st"
  "maxNumQps (fast_st k r w seq st) = maxNumQps st" "rr (fast_st k r w seq st) = rr st" "maxQpMsgs (fast_st k r w seq st) = maxQpMsgs st"
  "wire (fast_st k r w seq st) = wire st @ [(DataQp 0, FastOp k (nextId (io_of k st)), w)]"
  by (simp_all add: fast_st_def ops_def cnt_def)

lemma no_ops_no_wqes:
  assumes "inv_ops k st" "ops k st = []" "q \<in> set (concat (wqes st))"
  shows "q_kind q \<noteq> k"
  using assms unfolding inv_ops_def by auto

lemma no_ops_no_pieces:
  assumes v: "inv st c" and o: "ops k st = []" and i: "i < length (wqes st)"
  shows "\<forall>x \<in> set (inflight st c (DataQp i)). \<not> is_piece k x"
proof (intro ballI notI)
  fix x assume x: "x \<in> set (inflight st c (DataQp i))" "is_piece k x"
  then obtain j w where p: "x = (Piece k j, w)" by (cases "(k, x)" rule: is_piece.cases) auto
  have "\<lparr>q_wrId = w_id w, q_kind = k, q_op = j\<rparr> \<in> set (concat (map wqe_of (inflight st c (DataQp i))))"
    using x(1) p by force
  then have "\<lparr>q_wrId = w_id w, q_kind = k, q_op = j\<rparr> \<in> set (wqes st ! i)"
    using invD(3) [OF v] i unfolding inv_data_def by metis
  then have "\<lparr>q_wrId = w_id w, q_kind = k, q_op = j\<rparr> \<in> set (concat (wqes st))" using i nth_mem by auto
  from no_ops_no_wqes [OF invD(2) [OF v] o this] show False by simp
qed

lemma no_pieces_filter:
  "\<forall>x \<in> set xs. \<not> is_piece k x \<Longrightarrow> filter (\<lambda>x. is_fast k x \<or> is_piece k x) xs = filter (is_fast k) xs \<and> filter (is_piece k) xs = []"
  by (induction xs) auto

lemma fast_inv:
  assumes v: "inv st c" and o: "ops k st = []" and r: "reqs_free st [r]"
  shows "inv (fast_st k r w seq st) c"
proof -
  let ?st = "fast_st k r w seq st" let ?i = "nextId (io_of k st)"
  note V = invD [OF v]
  have z: "0 < length (wqes st)" using V(1) by (simp add: cfg_ok_def)
  have fl: "inflight ?st c q = (if q = DataQp 0 then inflight st c q @ [(FastOp k ?i, w)] else inflight st c q)" for q
    using inflight_append [of ?st st "DataQp 0" "FastOp k ?i" w c q] V(8) [of "DataQp 0"] by (simp add: fast_st_simps)
  have po: "length (posts st q) \<le> length (posts ?st q)" for q
    using posts_append [of ?st st "DataQp 0" "FastOp k ?i" w q] by (simp add: fast_st_simps)
  show ?thesis
  proof (rule invI)
    show "cfg_ok ?st" using V(1) by (simp add: cfg_ok_def fast_st_simps)
    show "inv_ops k' ?st" for k'
      using V(2) [of k'] unfolding inv_ops_def fast_st_simps(2,3,4)
      by (auto simp: fast_st_simps op_good_def less_Suc_eq)
    show "inv_data ?st c" unfolding inv_data_def
    proof (intro allI impI)
      fix j assume "j < length (wqes ?st)"
      then have j: "j < length (wqes st)" by (simp add: fast_st_simps)
      have o: "concat (map wqe_of (inflight st c (DataQp j))) = wqes st ! j" "list_all data_tag (inflight st c (DataQp j))"
        "\<And>k. concat (map (fast_id k) (inflight st c (DataQp j))) = (if j = 0 then map fst (fast (io_of k st)) else [])"
        using V(3) j unfolding inv_data_def by blast+
      show "concat (map wqe_of (inflight ?st c (DataQp j))) = wqes ?st ! j \<and> list_all data_tag (inflight ?st c (DataQp j)) \<and>
        (\<forall>k'. concat (map (fast_id k') (inflight ?st c (DataQp j))) = (if j = 0 then map fst (fast (io_of k' ?st)) else []))"
      proof (intro conjI allI)
        show "concat (map wqe_of (inflight ?st c (DataQp j))) = wqes ?st ! j" using o(1) by (cases "j = 0") (simp_all add: fl fast_st_simps)
        show "list_all data_tag (inflight ?st c (DataQp j))" using o(2) by (cases "j = 0") (simp_all add: fl)
        fix k'
        show "concat (map (fast_id k') (inflight ?st c (DataQp j))) = (if j = 0 then map fst (fast (io_of k' ?st)) else [])"
          using o(3) [of k'] by (cases "j = 0"; cases "k' = k") (simp_all add: fl fast_st_simps)
      qed
    qed
    show "inv_fast ?st c" unfolding inv_fast_def
    proof
      fix k'
      have f: "filter (\<lambda>x. is_fast k' x \<or> is_piece k' x) (inflight st c (DataQp 0)) =
        filter (is_fast k') (inflight st c (DataQp 0)) @ filter (is_piece k') (inflight st c (DataQp 0))"
        using V(4) unfolding inv_fast_def by blast
      show "filter (\<lambda>x. is_fast k' x \<or> is_piece k' x) (inflight ?st c (DataQp 0)) =
        filter (is_fast k') (inflight ?st c (DataQp 0)) @ filter (is_piece k') (inflight ?st c (DataQp 0))"
      proof (cases "k' = k")
        case True
        then show ?thesis using no_pieces_filter [OF no_ops_no_pieces [OF v o z]] by (simp add: fl)
      next
        case False
        then have "k \<noteq> k'" by simp
        then show ?thesis using f by (simp add: fl)
      qed
    qed
    show "inv_notify ?st c" "inv_atomic ?st c" using V(5,6) by (simp_all add: inv_notify_def inv_atomic_def fl fast_st_simps)
    have f: "map snd (fast (puts ?st)) = map snd (fast (puts st)) @ (if k = Put then [r] else [])"
      "map snd (fast (gets ?st)) = map snd (fast (gets st)) @ (if k = Get then [r] else [])"
      using fast_st_simps(1) [of Put k r w seq st] fast_st_simps(1) [of Get k r w seq st] by (cases k; simp)+
    show "inv_reqs ?st"
    proof (rule inv_reqs_add [OF r])
      show "count_list (held ?st) (Some i) = count_list (held st) (Some i) + count_list [r] (Some i)" for i
        unfolding held_def f fast_st_simps(2,5-7) by (cases k) simp_all
    qed (simp add: fast_st_simps)
    show "c q \<le> length (posts ?st q)" for q using V(8) po le_trans by blast
  qed
qed

lemma fast_bound:
  assumes v: "inv st c" "bound st" and o: "ops k st = []" and l: "length (fast (io_of k st)) < nat (maxQpMsgs st)"
  shows "bound (fast_st k r w seq st)"
proof -
  have "0 < length (wqes st)" using invD(1) [OF v(1)] by (simp add: cfg_ok_def)
  then have "wqes st ! 0 \<in> set (wqes st)" by (rule nth_mem)
  then have "set (wqes st ! 0) \<subseteq> set (concat (wqes st))" by auto
  then have "filter (\<lambda>q. q_kind q = k) (wqes st ! 0) = []"
    using no_ops_no_wqes [OF invD(2) [OF v(1)] o] by (auto simp: filter_empty_conv)
  then show ?thesis using v(2) l unfolding bound_def by (simp add: fast_st_simps)
qed

section \<open>Completing requests and posting notifications\<close>

lemma inv_reqs_update:
  assumes "inv st c" "inv_reqs (st\<lparr>reqs := f\<rparr>)"
  shows "inv (st\<lparr>reqs := f\<rparr>) c"
proof -
  have e: "inflight (st\<lparr>reqs := f\<rparr>) = inflight st" "posts (st\<lparr>reqs := f\<rparr>) = posts st"
    by (rule inflight_same, simp) (rule posts_same, simp)
  have "ops k (st\<lparr>reqs := f\<rparr>) = ops k st" "cnt k i (st\<lparr>reqs := f\<rparr>) = cnt k i st" for k i
    by (simp_all add: ops_def cnt_def)
  then show ?thesis using assms e
    by (simp add: inv_def cfg_ok_def inv_ops_def inv_data_def inv_fast_def inv_notify_def inv_atomic_def op_good_def)
qed

lemma reqs_freeD: "reqs_free st [Some i] \<Longrightarrow> int (count_list (held st) (Some i)) + 1 \<le> refCount (reqs st i)"
  by (auto simp: reqs_free_def dest: spec [of _ i])

lemma reqs_free_inv: "reqs_free st rs \<Longrightarrow> inv_reqs st"
  unfolding reqs_free_def inv_reqs_def of_nat_add by (metis add_increasing2 of_nat_0_le_iff le_add_same_cancel1 order_trans)

text \<open>An operation that is taken out frees one reference.\<close>

lemma reqs_free_release:
  assumes "inv_reqs st" "add_mset r (mset (held st')) = mset (held st)" "reqs st' = reqs st"
  shows "reqs_free st' [r]"
  unfolding reqs_free_def
proof
  fix i
  have "count (add_mset r (mset (held st'))) (Some i) = count (mset (held st)) (Some i)" using assms(2) by simp
  then have hc: "count_list (held st) (Some i) = count_list (held st') (Some i) + count_list [r] (Some i)"
    by (simp only: count_mset [symmetric]) (simp add: eq_commute)
  have "int (count_list (held st) (Some i)) \<le> refCount (reqs st i)" using assms(1) unfolding inv_reqs_def by blast
  then show "int (count_list (held st') (Some i) + count_list [r] (Some i)) \<le> refCount (reqs st' i)"
    unfolding hc assms(3) by simp
qed

text \<open>A request that is still referenced completes.\<close>

lemma complete_reqs:
  assumes "reqs_free st [r]"
  obtains f where "complete_req r st = (commSuccess, st\<lparr>reqs := f\<rparr>)" "inv_reqs (st\<lparr>reqs := f\<rparr>)"
proof (cases r)
  case None
  have "inv_reqs (st\<lparr>reqs := reqs st\<rparr>)" using reqs_free_inv [OF assms] by simp
  moreover have "complete_req r st = (commSuccess, st\<lparr>reqs := reqs st\<rparr>)" using None by (simp add: complete_req_def)
  ultimately show ?thesis using that by blast
next
  case (Some i)
  have c: "int (count_list (held st) (Some i)) + 1 \<le> refCount (reqs st i)" using reqs_freeD assms Some by blast
  then have "0 \<le> refCount (reqs st i) - 1" by linarith
  then obtain r1 where r1: "req_complete (reqs st i) = (commSuccess, r1)" "refCount r1 = refCount (reqs st i) - 1"
    by (cases "refCount (reqs st i) = 1") (auto simp: req_complete_def Let_def)
  let ?f = "(reqs st)(i := r1)"
  have "inv_reqs (st\<lparr>reqs := ?f\<rparr>)" unfolding inv_reqs_def
  proof
    fix j
    have "held (st\<lparr>reqs := ?f\<rparr>) = held st" by (simp add: held_def ops_def)
    then show "int (count_list (held (st\<lparr>reqs := ?f\<rparr>)) (Some j)) \<le> refCount (reqs (st\<lparr>reqs := ?f\<rparr>) j)"
      using c r1(2) reqs_free_inv [OF assms] by (simp add: inv_reqs_def)
  qed
  moreover have "complete_req r st = (commSuccess, st\<lparr>reqs := ?f\<rparr>)" using Some r1(1) by (simp add: complete_req_def)
  ultimately show ?thesis using that by blast
qed

lemma complete_ok:
  assumes v: "inv st c" and r: "reqs_free st [r]"
  obtains f where "complete_req r st = (commSuccess, st\<lparr>reqs := f\<rparr>)" "inv (st\<lparr>reqs := f\<rparr>) c"
  by (rule complete_reqs [OF r]) (use that inv_reqs_update [OF v] in blast)

definition inv_notify0 :: "vc \<Rightarrow> (queue \<Rightarrow> nat) \<Rightarrow> bool" where
  "inv_notify0 st c \<longleftrightarrow> map (w_id \<circ> snd) (inflight st c NotifyQp) = map n_wrId (outN st) \<and>
     length (outN st) \<le> MAX_SEND_WR \<and> (length (pendN st) \<le> 1 \<or> MAX_SEND_WR \<le> length (outN st) + 1)"

lemma tryPost_st:
  obtains (same) "tryPostImmNotifyMsg acc st = (commSuccess, st)" "MAX_SEND_WR \<le> length (outN st) \<or> pendN st = []"
  | (posted) n ns where "length (outN st) < MAX_SEND_WR" "pendN st = n # ns"
    "tryPostImmNotifyMsg acc st = (commSuccess, st\<lparr>pendN := ns, outN := outN st @ [n],
       wire := wire st @ [(NotifyQp, NotifyMsg, notify_wr (n_wrId n))]\<rparr>)"
proof (cases "MAX_SEND_WR \<le> length (outN st)")
  case True
  then show ?thesis using that(1) by (simp add: tryPostImmNotifyMsg_def)
next
  case False
  show ?thesis
  proof (cases "pendN st")
    case Nil
    then show ?thesis using that(1) by (simp add: tryPostImmNotifyMsg_def)
  next
    case (Cons n ns)
    show ?thesis by (rule that(2) [of n ns]) (use False Cons in \<open>simp_all add: tryPostImmNotifyMsg_def post_acc\<close>)
  qed
qed

text \<open>It touches no operation.\<close>

lemma tryPost_fields:
  "fst (tryPostImmNotifyMsg acc st) = commSuccess" "wqes (snd (tryPostImmNotifyMsg acc st)) = wqes st"
  "io_of k (snd (tryPostImmNotifyMsg acc st)) = io_of k st" "maxQpMsgs (snd (tryPostImmNotifyMsg acc st)) = maxQpMsgs st"
  by (cases rule: tryPost_st [of st]; simp)+

lemma tryPost_inv:
  assumes V: "cfg_ok st" "\<And>k. inv_ops k st" "inv_data st c" "inv_fast st c" "inv_notify0 st c" "inv_atomic st c" "inv_reqs st"
    "\<And>q. c q \<le> length (posts st q)"
  shows "inv (snd (tryPostImmNotifyMsg acc st)) c"
proof (cases rule: tryPost_st [of st])
  case same
  have "inv_notify st c" using V(5) same(2) by (auto simp: inv_notify_def inv_notify0_def)
  then show ?thesis using V same(1) by (simp add: inv_def)
next
  case (posted n ns)
  let ?st = "st\<lparr>pendN := ns, outN := outN st @ [n], wire := wire st @ [(NotifyQp, NotifyMsg, notify_wr (n_wrId n))]\<rparr>"
  have fl: "inflight ?st c q = (if q = NotifyQp then inflight st c q @ [(NotifyMsg, notify_wr (n_wrId n))] else inflight st c q)" for q
    using inflight_append [of ?st st NotifyQp NotifyMsg "notify_wr (n_wrId n)" c q] V(8) [of NotifyQp] by simp
  have po: "length (posts st q) \<le> length (posts ?st q)" for q
    using posts_append [of ?st st NotifyQp NotifyMsg "notify_wr (n_wrId n)" q] by simp
  have o: "ops k ?st = ops k st" "cnt k i ?st = cnt k i st" "io_of k ?st = io_of k st" for k i by (simp_all add: ops_def cnt_def)
  have "inv ?st c"
  proof (rule invI)
    show "cfg_ok ?st" using V(1) by (simp add: cfg_ok_def)
    show "inv_ops k ?st" for k using V(2) [of k] unfolding inv_ops_def o by (simp add: op_good_def)
    show "inv_data ?st c" using V(3) by (simp add: inv_data_def fl)
    show "inv_fast ?st c" using V(4) by (simp add: inv_fast_def fl)
    show "inv_notify ?st c" using V(5) posted(1,2) unfolding inv_notify_def inv_notify0_def fl by (auto simp: notify_wr_def)
    show "inv_atomic ?st c" using V(6) by (simp add: inv_atomic_def fl)
    have "mset (held ?st) = mset (held st)" using posted(2) by (simp add: held_def ops_def)
    then have "count_list (held ?st) x = count_list (held st) x" for x by (metis count_mset)
    then show "inv_reqs ?st" using V(7) by (simp add: inv_reqs_def)
    show "c q \<le> length (posts ?st q)" for q using V(8) po le_trans by blast
  qed
  then show ?thesis using posted(3) by simp
qed

lemma notify_ok:
  assumes v: "inv st c" and r: "reqs_free st [r]"
  shows "fst (notify acc r i st) = commSuccess \<and> inv (snd (notify acc r i st)) c \<and> wqes (snd (notify acc r i st)) = wqes st \<and>
    (\<forall>k. io_of k (snd (notify acc r i st)) = io_of k st) \<and> maxQpMsgs (snd (notify acc r i st)) = maxQpMsgs st"
proof -
  let ?st = "st\<lparr>pendN := pendN st @ [\<lparr>n_wrId = nextWrId st, n_req = r, n_putId = i\<rparr>], nextWrId := nextWrId st + 1\<rparr>"
  note V = invD [OF v]
  have e: "inflight ?st = inflight st" "posts ?st = posts st" by (rule inflight_same, simp) (rule posts_same, simp)
  have o: "ops k ?st = ops k st" "cnt k i ?st = cnt k i st" "io_of k ?st = io_of k st" for k i by (simp_all add: ops_def cnt_def)
  have "inv (snd (tryPostImmNotifyMsg acc ?st)) c"
  proof (rule tryPost_inv)
    show "cfg_ok ?st" using V(1) by (simp add: cfg_ok_def)
    show "inv_ops k ?st" for k using V(2) [of k] unfolding inv_ops_def o by (simp add: op_good_def)
    show "inv_data ?st c" using V(3) by (simp add: inv_data_def e)
    show "inv_fast ?st c" using V(4) by (simp add: inv_fast_def e)
    show "inv_notify0 ?st c" using V(5) by (auto simp: inv_notify_def inv_notify0_def e)
    show "inv_atomic ?st c" using V(6) by (simp add: inv_atomic_def e)
    show "inv_reqs ?st" by (rule inv_reqs_add [OF r]) (simp_all add: held_def ops_def)
    show "c q \<le> length (posts ?st q)" for q using V(8) e by simp
  qed
  then show ?thesis by (simp add: notify_def tryPost_fields)
qed

section \<open>Operations that are complete\<close>

abbreviation drop_op :: "op_kind \<Rightarrow> op_info list \<Rightarrow> vc \<Rightarrow> vc" where
  "drop_op k ps \<equiv> upd_io k (\<lambda>io. io\<lparr>outst := ps\<rparr>)"

lemma drop_inv:
  assumes v: "inv st c" and p: "outst (io_of k st) = p # ps" "o_outstanding p = 0"
  shows "inv (drop_op k ps st) c" "reqs_free (drop_op k ps st) [o_req p]"
proof -
  let ?st = "drop_op k ps st"
  note V = invD [OF v]
  have o: "ops k st = p # outst (io_of k ?st) @ pend (io_of k st)" "ops k' ?st = (if k' = k then ps @ pend (io_of k st) else ops k' st)" for k'
    by (simp_all add: ops_def p)
  have q: "cnt k' i ?st = cnt k' i st" "fast (io_of k' ?st) = fast (io_of k' st)" for k' i by (simp_all add: cnt_def)
  have f: "fast (puts ?st) = fast (puts st)" "fast (gets ?st) = fast (gets st)" "pendN ?st = pendN st" "outN ?st = outN st"
    "atomics ?st = atomics st" using q(2) [of Put] q(2) [of Get] unfolding io_of_puts by simp_all
  have nop: "q_op x \<noteq> o_id p" if "x \<in> set (concat (wqes st))" "q_kind x = k" for x
  proof -
    have "p \<in> set (ops k st)" by (simp add: o(1))
    then have "cnt k (o_id p) st = 0" using V(2) [of k] p(2) unfolding inv_ops_def by metis
    then show ?thesis using that unfolding cnt_def length_0_conv filter_empty_conv by blast
  qed
  have "add_mset (o_req p) (mset (held ?st)) = mset (held st)"
    using p(1) unfolding held_def o(2) f by (cases k) (simp_all add: ops_def)
  then show rf: "reqs_free ?st [o_req p]" by (rule reqs_free_release [OF V(7)]) simp
  show "inv ?st c"
  proof (rule invI)
    show "cfg_ok ?st" using V(1) by (simp add: cfg_ok_def)
    show "inv_ops k' ?st" for k'
    proof (cases "k' = k")
      case False
      then show ?thesis using V(2) [of k'] unfolding inv_ops_def o(2) q by (simp add: op_good_def)
    next
      case True
      have a: "sorted_wrt (<) (map o_id (ps @ pend (io_of k st)))"
        "\<forall>p' \<in> set (ps @ pend (io_of k st)). o_id p' < nextId (io_of k st) \<and> op_good st p' \<and> o_outstanding p' = cnt k (o_id p') st"
        "\<forall>q \<in> set (concat (wqes st)). q_kind q = k \<longrightarrow> q_op q \<in> o_id ` set (p # ps @ pend (io_of k st))"
        "\<forall>p \<in> set ps. o_offset p = o_len p" "\<forall>p \<in> set (pend (io_of k st)). o_offset p \<le> o_len p"
        using V(2) [of k] unfolding inv_ops_def by (auto simp: o(1) p(1))
      have "\<forall>q \<in> set (concat (wqes st)). q_kind q = k \<longrightarrow> q_op q \<in> o_id ` set (ps @ pend (io_of k st))"
        using a(3) nop by fastforce
      then show ?thesis using a(1,2,4,5) unfolding True inv_ops_def o(2) q by (simp add: op_good_def)
    qed
    show "inv_reqs ?st" by (rule reqs_free_inv [OF rf])
    show "inv_data ?st c" "inv_fast ?st c" "inv_notify ?st c" "inv_atomic ?st c" "c q' \<le> length (posts ?st q')" for q'
      using inv_wire_fields [of ?st st c] V q(2) by simp_all
  qed
qed

lemma complete_req_upd: "complete_req r (upd_io k f st) = (fst (complete_req r st), upd_io k f (snd (complete_req r st)))"
  by (cases k) (auto simp: complete_req_def upd_io_def split: option.splits prod.splits)

lemma notify_upd: "notify acc r i (upd_io k f st) = (fst (notify acc r i st), upd_io k f (snd (notify acc r i st)))"
  by (cases k) (simp_all add: notify_def tryPostImmNotifyMsg_def upd_io_def post_acc split: list.splits)

lemma upd_io_reqs: "upd_io k f (st\<lparr>reqs := g\<rparr>) = (upd_io k f st)\<lparr>reqs := g\<rparr>"
  by (cases k) (simp_all add: upd_io_def)

lemma burn_step:
  assumes v: "inv st c" and p: "outst (io_of k st) = p # ps" "o_outstanding p = 0"
  defines "m \<equiv> if k = Put \<and> o_mode p = spray \<and> o_notify p then notify acc (o_req p) (Some (o_id p)) st else complete_req (o_req p) st"
  shows "fst m = commSuccess \<and> inv (drop_op k ps (snd m)) c \<and> wqes (snd m) = wqes st \<and> maxQpMsgs (snd m) = maxQpMsgs st \<and>
    (\<forall>k. io_of k (snd m) = io_of k st)"
proof -
  note D = drop_inv [OF v p]
  show ?thesis
  proof (cases "k = Put \<and> o_mode p = spray \<and> o_notify p")
    case True
    have k: "k = Put" using True by blast
    have m: "m = notify acc (o_req p) (Some (o_id p)) st" unfolding m_def using True by auto
    have s: "snd (notify acc (o_req p) (Some (o_id p)) (drop_op k ps st)) = drop_op k ps (snd m)"
      unfolding m notify_upd by simp
    have n: "io_of k' (snd m) = io_of k' st" for k'
      unfolding m by (simp add: notify_def tryPost_fields)
    have "fst m = commSuccess" "wqes (snd m) = wqes st" "maxQpMsgs (snd m) = maxQpMsgs st"
      unfolding m by (simp_all add: notify_def tryPost_fields)
    moreover have "inv (drop_op k ps (snd m)) c" using notify_ok [OF D, of "Some (o_id p)"] unfolding s by blast
    ultimately show ?thesis using n by blast
  next
    case False
    have m: "m = complete_req (o_req p) st" unfolding m_def using False by auto
    obtain f where f: "complete_req (o_req p) (drop_op k ps st) = (commSuccess, (drop_op k ps st)\<lparr>reqs := f\<rparr>)"
      "inv ((drop_op k ps st)\<lparr>reqs := f\<rparr>) c" by (rule complete_ok [OF D])
    have e: "fst m = commSuccess" "drop_op k ps (snd m) = (drop_op k ps st)\<lparr>reqs := f\<rparr>"
      using f(1) unfolding complete_req_upd m by simp_all
    moreover have "wqes (snd m) = wqes st" "maxQpMsgs (snd m) = maxQpMsgs st" "\<forall>k. io_of k (snd m) = io_of k st"
      unfolding m by (auto simp: complete_req_def split: option.splits prod.splits)
    ultimately show ?thesis using f(2) by simp
  qed
qed

definition io_rest_same :: "vc \<Rightarrow> vc \<Rightarrow> bool" where
  "io_rest_same st st' \<longleftrightarrow> wqes st' = wqes st \<and> maxQpMsgs st' = maxQpMsgs st \<and>
     (\<forall>k. fast (io_of k st') = fast (io_of k st) \<and> pend (io_of k st') = pend (io_of k st))"

lemma burn_loop_ok:
  "inv st c \<Longrightarrow> l = outst (io_of k st) \<Longrightarrow>
   \<exists>st'. burn_loop acc k l st = (commSuccess, st') \<and> inv st' c \<and> io_rest_same st st' \<and>
     (outst (io_of k st') = [] \<or> o_outstanding (hd (outst (io_of k st'))) > 0) \<and>
     (\<forall>k'. k' \<noteq> k \<longrightarrow> io_of k' st' = io_of k' st)"
proof (induction l arbitrary: st)
  case Nil
  then show ?case by (simp add: io_rest_same_def)
next
  case (Cons p ps)
  have o: "outst (io_of k st) = p # ps" using Cons.prems(2) by simp
  have f: "o_offset p = o_len p" using invD(2) [OF Cons.prems(1), of k] unfolding inv_ops_def o by auto
  show ?case
  proof (cases "o_outstanding p > 0")
    case True
    then show ?thesis using Cons.prems(1) o by (intro exI [of _ st]) (simp add: io_rest_same_def)
  next
    case False
    define m where "m = (if k = Put \<and> o_mode p = spray \<and> o_notify p then notify acc (o_req p) (Some (o_id p)) st else complete_req (o_req p) st)"
    have "o_outstanding p = 0" using False by simp
    from burn_step [OF Cons.prems(1) o this]
    have S: "fst m = commSuccess" "inv (drop_op k ps (snd m)) c" "wqes (snd m) = wqes st" "maxQpMsgs (snd m) = maxQpMsgs st"
      "\<And>k. io_of k (snd m) = io_of k st" unfolding m_def by blast+
    have step: "burn_loop acc k (p # ps) st = burn_loop acc k ps (drop_op k ps (snd m))"
      using False f S(1) by (cases m) (simp add: m_def [symmetric])
    have "ps = outst (io_of k (drop_op k ps (snd m)))" by simp
    from Cons.IH [OF S(2) this] obtain st' where B: "burn_loop acc k ps (drop_op k ps (snd m)) = (commSuccess, st')" "inv st' c"
      "io_rest_same (drop_op k ps (snd m)) st'" "outst (io_of k st') = [] \<or> o_outstanding (hd (outst (io_of k st'))) > 0"
      "\<forall>k'. k' \<noteq> k \<longrightarrow> io_of k' st' = io_of k' (drop_op k ps (snd m))" by blast
    have "io_rest_same st st'" using B(3) S(3-5) by (auto simp: io_rest_same_def)
    moreover have "\<forall>k'. k' \<noteq> k \<longrightarrow> io_of k' st' = io_of k' st" using B(5) S(5) by simp
    ultimately show ?thesis unfolding step using B(1,2,4) by blast
  qed
qed

lemma burnDown_ok:
  assumes "inv st c"
  shows "\<exists>st'. burnDown acc k st = (commSuccess, st') \<and> inv st' c \<and> io_rest_same st st' \<and> (\<forall>k'. k' \<noteq> k \<longrightarrow> io_of k' st' = io_of k' st) \<and>
    (fast (io_of k st) = [] \<longrightarrow> outst (io_of k st') = [] \<or> o_outstanding (hd (outst (io_of k st'))) > 0)"
proof (cases "fast (io_of k st) = []")
  case True
  then show ?thesis using burn_loop_ok [OF assms refl, of k] by (auto simp: burnDown_def)
next
  case False
  then show ?thesis using assms by (simp add: burnDown_def io_rest_same_def)
qed

lemma bound_rest_same: "bound st \<Longrightarrow> io_rest_same st st' \<Longrightarrow> bound st'"
  by (simp add: bound_def io_rest_same_def)

section \<open>A completion on a data queue pair\<close>

text \<open>An operation that is not pending any more waits for a completion, unless fast ones are before it.\<close>

definition tidy :: "vc \<Rightarrow> bool" where
  "tidy st \<longleftrightarrow> (\<forall>k. outst (io_of k st) = [] \<or> fast (io_of k st) \<noteq> [] \<or> 0 < o_outstanding (hd (outst (io_of k st))))"

lemma tidy_piece:
  assumes "tidy st" "pend (io_of k st) = p # ps"
  shows "tidy (piece_st k i d n p ps st)"
  unfolding tidy_def
proof
  fix k'
  have t: "outst (io_of k' st) = [] \<or> fast (io_of k' st) \<noteq> [] \<or> 0 < o_outstanding (hd (outst (io_of k' st)))"
    by (rule spec [OF assms(1) [unfolded tidy_def], of k'])
  show "outst (io_of k' (piece_st k i d n p ps st)) = [] \<or> fast (io_of k' (piece_st k i d n p ps st)) \<noteq> [] \<or>
      0 < o_outstanding (hd (outst (io_of k' (piece_st k i d n p ps st))))"
  proof (cases "k' = k")
    case False
    then show ?thesis using t by (simp add: piece_st_simps(3))
  next
    case True
    have e: "outst (io_of k (piece_st k i d n p ps st)) = outst (io_of k st) @
        (if n = o_len p - o_offset p then [p\<lparr>o_outstanding := o_outstanding p + 1, o_offset := o_offset p + n\<rparr>] else [])"
      by (simp add: piece_st_simps(3) Let_def)
    show ?thesis using t unfolding True e fast_piece by (cases "outst (io_of k st)") auto
  qed
qed

lemma moves_tidy: "moves k st st' \<Longrightarrow> tidy st \<Longrightarrow> tidy st'"
proof (induction rule: moves.induct)
  case (turn st1 j)
  then show ?case by (simp add: tidy_def)
qed (simp_all add: tidy_piece)

text \<open>After a completion, one more piece.\<close>

lemma queue_op_after:
  assumes v: "inv st c" "bound st" "tidy st" and i: "i < length (wqes st)" and s: "slot k i st"
  shows "\<exists>st'. queue_op acc k i st = Some (commSuccess, st') \<and> inv st' c \<and> bound st' \<and> tidy st' \<and>
    (pend (io_of k st') = [] \<or> busy k st') \<and> (\<forall>k'. k' \<noteq> k \<longrightarrow> io_of k' st' = io_of k' st)"
proof (cases rule: queue_op_inv [OF v(1) i, of k])
  case 1
  then show ?thesis using v by simp
next
  case (2 p ps d m)
  let ?s = "piece_st k i d (min (o_len p - o_offset p) m) p ps st"
  have "wqes ?s ! i \<noteq> []" "i < length (wqes ?s)" using i by (simp_all add: piece_st_simps(1))
  then have "busy k ?s" unfolding busy_def by blast
  moreover have "\<forall>k'. k' \<noteq> k \<longrightarrow> io_of k' ?s = io_of k' st" by (simp add: piece_st_simps(3))
  ultimately show ?thesis using 2(4,5) bound_piece [OF v(2) s i] tidy_piece [OF v(3) 2(1)] by blast
qed

abbreviation next_c :: "(queue \<Rightarrow> nat) \<Rightarrow> queue \<Rightarrow> queue \<Rightarrow> nat" where
  "next_c c q \<equiv> c(q := c q + 1)"

lemma inflight_next:
  "inflight st c q = x # xs \<Longrightarrow> inflight st (next_c c q) q' = (if q' = q then xs else inflight st c q')"
  unfolding inflight_complete by simp

lemma next_le:
  assumes "c q' \<le> length (posts st q')" "inflight st c q = x # xs"
  shows "next_c c q q' \<le> length (posts st q')"
proof (cases "q' = q")
  case True
  have "inflight st c q \<noteq> []" using assms(2) by simp
  then have "c q < length (posts st q)" unfolding inflight_def drop_eq_Nil by simp
  then show ?thesis using True by simp
qed (use assms(1) in simp)

abbreviation pop_fast :: "op_kind \<Rightarrow> vc \<Rightarrow> vc" where
  "pop_fast k \<equiv> upd_io k (\<lambda>io. io\<lparr>fast := tl (fast io)\<rparr>)"

lemma inv_fast_tl:
  assumes "filter (\<lambda>x. P x \<or> Q x) (y # xs) = filter P (y # xs) @ filter Q (y # xs)" "\<not> (P y \<and> Q y)"
  shows "filter (\<lambda>x. P x \<or> Q x) xs = filter P xs @ filter Q xs"
proof (cases "P y")
  case True
  then show ?thesis using assms by simp
next
  case False
  show ?thesis
  proof (cases "Q y")
    case True
    have e: "y # filter (\<lambda>x. P x \<or> Q x) xs = filter P xs @ y # filter Q xs" using assms(1) False True by simp
    have "filter P xs = []"
    proof (cases "filter P xs")
      case (Cons z zs)
      then have "P y" using e Cons_eq_filterD [OF Cons [symmetric]] by auto
      then show ?thesis using False by simp
    qed simp
    then show ?thesis using e by simp
  next
    case False
    then show ?thesis using assms(1) \<open>\<not> P y\<close> by simp
  qed
qed

lemma fast_not_piece: "\<not> (is_fast k x \<and> is_piece k x)"
  by (cases "(k, x)" rule: is_fast.cases) auto

lemma inv_fast_next:
  assumes v: "inv_fast st c" and h: "inflight st c q = x # xs" and e: "inflight st' = inflight st"
  shows "inv_fast st' (next_c c q)"
proof (cases "q = DataQp 0")
  case True
  show ?thesis unfolding inv_fast_def
  proof
    fix k
    have "filter (\<lambda>x. is_fast k x \<or> is_piece k x) (x # xs) = filter (is_fast k) (x # xs) @ filter (is_piece k) (x # xs)"
      using v h True unfolding inv_fast_def by metis
    then have "filter (\<lambda>x. is_fast k x \<or> is_piece k x) xs = filter (is_fast k) xs @ filter (is_piece k) xs"
      by (rule inv_fast_tl) (rule fast_not_piece)
    then show "filter (\<lambda>x. is_fast k x \<or> is_piece k x) (inflight st' (next_c c q) (DataQp 0)) =
        filter (is_fast k) (inflight st' (next_c c q) (DataQp 0)) @ filter (is_piece k) (inflight st' (next_c c q) (DataQp 0))"
      unfolding e inflight_next [OF h] using True by simp
  qed
next
  case False
  then show ?thesis using v unfolding inv_fast_def e inflight_next [OF h] by simp
qed

lemma pop_fast_inv:
  assumes v: "inv st c" and i: "i < length (wqes st)" and h: "inflight st c (DataQp i) = (FastOp k j, w) # xs"
  obtains r fr where "i = 0" "fast (io_of k st) = (j, r) # fr" "inv (pop_fast k st) (next_c c (DataQp 0))" "reqs_free (pop_fast k st) [r]"
proof -
  note V = invD [OF v]
  have d: "concat (map wqe_of (inflight st c (DataQp i))) = wqes st ! i" "list_all data_tag (inflight st c (DataQp i))"
    "\<And>k. concat (map (fast_id k) (inflight st c (DataQp i))) = (if i = 0 then map fst (fast (io_of k st)) else [])" if "i < length (wqes st)" for i
    using V(3) that unfolding inv_data_def by blast+
  have i0: "i = 0" and "map fst (fast (io_of k st)) = j # concat (map (fast_id k) xs)"
    using d(3) [OF i, of k] h by (auto split: if_splits)
  then obtain r fr where f: "fast (io_of k st) = (j, r) # fr" "map fst fr = concat (map (fast_id k) xs)" by auto
  let ?st = "pop_fast k st"
  have fs: "map snd (fast (puts ?st)) = (if k = Put then map snd fr else map snd (fast (puts st)))"
    "map snd (fast (gets ?st)) = (if k = Get then map snd fr else map snd (fast (gets st)))"
    using f(1) by (cases k; simp add: upd_io_def io_of_def)+
  have o: "ops k' ?st = ops k' st" "cnt k' n ?st = cnt k' n st" for k' n by (simp_all add: ops_def cnt_def)
  have e: "inflight ?st = inflight st" "posts ?st = posts st" by (rule inflight_same, simp) (rule posts_same, simp)
  have "add_mset r (mset (held ?st)) = mset (held st)"
    using f(1) unfolding held_def o(1) fs by (cases k) simp_all
  then have rf: "reqs_free ?st [r]" by (rule reqs_free_release [OF V(7)]) simp
  have h0: "inflight st c (DataQp 0) = (FastOp k j, w) # xs" using h i0 by simp
  have "inv ?st (next_c c (DataQp 0))"
  proof (rule invI)
    show "cfg_ok ?st" using V(1) by (simp add: cfg_ok_def)
    show "inv_ops k' ?st" for k' using V(2) [of k'] unfolding inv_ops_def o by (auto simp: op_good_def)
    show "inv_data ?st (next_c c (DataQp 0))" unfolding inv_data_def
    proof (intro allI impI conjI)
      fix n k' assume "n < length (wqes ?st)"
      then have n: "n < length (wqes st)" by simp
      have fl: "inflight ?st (next_c c (DataQp 0)) (DataQp n) = (if n = 0 then xs else inflight st c (DataQp n))"
        unfolding e inflight_next [OF h0] by simp
      show "concat (map wqe_of (inflight ?st (next_c c (DataQp 0)) (DataQp n))) = wqes ?st ! n"
        using d(1) [OF n] h0 unfolding fl by (cases "n = 0") simp_all
      show "list_all data_tag (inflight ?st (next_c c (DataQp 0)) (DataQp n))"
        using d(2) [OF n] h0 unfolding fl by (cases "n = 0") simp_all
      show "concat (map (fast_id k') (inflight ?st (next_c c (DataQp 0)) (DataQp n))) = (if n = 0 then map fst (fast (io_of k' ?st)) else [])"
        using d(3) [OF n, of k'] h0 f unfolding fl by (cases "n = 0"; cases "k' = k") simp_all
    qed
    show "inv_fast ?st (next_c c (DataQp 0))" by (rule inv_fast_next [OF V(4) h0 e(1)])
    show "inv_notify ?st (next_c c (DataQp 0))" using V(5) unfolding inv_notify_def e inflight_next [OF h0] by simp
    show "inv_atomic ?st (next_c c (DataQp 0))" using V(6) unfolding inv_atomic_def e inflight_next [OF h0] by simp
    show "inv_reqs ?st" by (rule reqs_free_inv [OF rf])
    show "next_c c (DataQp 0) q \<le> length (posts ?st q)" for q unfolding e by (rule next_le [OF V(8) h0])
  qed
  then show ?thesis using that i0 f(1) rf by blast
qed

text \<open>A piece that completes: its entry is at the head of the queue, and its operation is outstanding.\<close>

definition pop_piece :: "op_kind \<Rightarrow> nat \<Rightarrow> nat \<Rightarrow> vc \<Rightarrow> vc" where
  "pop_piece k i j st = upd_io k (\<lambda>io. io\<lparr>outst := dec_op j (outst io), pend := dec_op j (pend io)\<rparr>)
     (st\<lparr>wqes := (wqes st)[i := tl (wqes st ! i)]\<rparr>)"

lemma dec_op_fields:
  "map o_id (dec_op j ps) = map o_id ps" "map o_req (dec_op j ps) = map o_req ps" "dec_op j (ps @ qs) = dec_op j ps @ dec_op j qs"
  "(dec_op j ps = []) = (ps = [])"
  by (auto simp: dec_op_def)

lemma set_dec_op: "p \<in> set (dec_op j ps) \<Longrightarrow> \<exists>p0 \<in> set ps. p = (if o_id p0 = j then p0\<lparr>o_outstanding := o_outstanding p0 - 1\<rparr> else p0)"
  by (auto simp: dec_op_def)

lemma pop_piece_simps:
  "wqes (pop_piece k i j st) = (wqes st)[i := tl (wqes st ! i)]" "ops k' (pop_piece k i j st) = (if k' = k then dec_op j (ops k st) else ops k' st)"
  "fast (io_of k' (pop_piece k i j st)) = fast (io_of k' st)" "nextId (io_of k' (pop_piece k i j st)) = nextId (io_of k' st)"
  "outst (io_of k' (pop_piece k i j st)) = (if k' = k then dec_op j (outst (io_of k st)) else outst (io_of k' st))"
  "pend (io_of k' (pop_piece k i j st)) = (if k' = k then dec_op j (pend (io_of k st)) else pend (io_of k' st))"
  "pendN (pop_piece k i j st) = pendN st" "outN (pop_piece k i j st) = outN st" "atomics (pop_piece k i j st) = atomics st"
  "reqs (pop_piece k i j st) = reqs st" "devs (pop_piece k i j st) = devs st" "maxNumQps (pop_piece k i j st) = maxNumQps st"
  "rr (pop_piece k i j st) = rr st" "maxQpMsgs (pop_piece k i j st) = maxQpMsgs st" "wire (pop_piece k i j st) = wire st"
  "k' \<noteq> k \<Longrightarrow> io_of k' (pop_piece k i j st) = io_of k' st"
  by (simp_all add: pop_piece_def ops_def dec_op_fields)

lemma concat_update_tl: "i < length xs \<Longrightarrow> xs ! i = q # qs \<Longrightarrow> mset (concat xs) = add_mset q (mset (concat (xs[i := qs])))"
proof -
  assume i: "i < length xs" "xs ! i = q # qs"
  have "xs = take i xs @ (q # qs) # drop (Suc i) xs" using id_take_nth_drop [OF i(1)] i(2) by simp
  then have "mset (concat xs) = mset (concat (take i xs @ (q # qs) # drop (Suc i) xs))" by simp
  then show ?thesis using i by (simp add: upd_conv_take_nth_drop)
qed

lemma pop_piece_inv_ops:
  assumes v: "inv_ops k st" "inv_ops k' st" and i: "i < length (wqes st)" "wqes st ! i = q # qs" "q_kind q = k" "q_op q = j"
  shows "inv_ops k' (pop_piece k i j st)"
proof -
  let ?st = "pop_piece k i j st"
  have m: "mset (concat (wqes st)) = add_mset q (mset (concat (wqes ?st)))"
    using concat_update_tl [OF i(1,2)] i(2) by (simp add: pop_piece_simps(1))
  have cn: "cnt k' n st = cnt k' n ?st + (if k' = k \<and> n = j then 1 else 0)" for k' n
    unfolding cnt_mset m using i(3,4) by auto
  have sub: "x \<in> set (concat (wqes st))" if "x \<in> set (concat (wqes ?st))" for x
    using that by (metis insert_iff m set_mset_add_mset_insert set_mset_mset)
  show ?thesis
  proof (cases "k' = k")
    case False
    then have o: "ops k' ?st = ops k' st" "io_of k' ?st = io_of k' st" "cnt k' n ?st = cnt k' n st" for n
      using cn [of k' n] by (simp_all add: pop_piece_simps)
    show ?thesis using v(2) sub unfolding inv_ops_def o op_good_def pop_piece_simps(11) by blast
  next
    case True
    have o: "ops k ?st = dec_op j (ops k st)" by (simp add: pop_piece_simps)
    have a: "sorted_wrt (<) (map o_id (ops k st))"
      "\<forall>p \<in> set (ops k st). o_id p < nextId (io_of k st) \<and> op_good st p \<and> o_outstanding p = cnt k (o_id p) st"
      "\<forall>q \<in> set (concat (wqes st)). q_kind q = k \<longrightarrow> q_op q \<in> o_id ` set (ops k st)"
      "\<forall>p \<in> set (outst (io_of k st)). o_offset p = o_len p" "\<forall>p \<in> set (pend (io_of k st)). o_offset p \<le> o_len p"
      using v(1) unfolding inv_ops_def by blast+
    have "\<forall>p \<in> set (ops k ?st). o_id p < nextId (io_of k ?st) \<and> op_good ?st p \<and> o_outstanding p = cnt k (o_id p) ?st"
    proof
      fix p assume "p \<in> set (ops k ?st)"
      then obtain p0 where p0: "p0 \<in> set (ops k st)" "p = (if o_id p0 = j then p0\<lparr>o_outstanding := o_outstanding p0 - 1\<rparr> else p0)"
        using set_dec_op unfolding o by blast
      have "o_id p0 < nextId (io_of k st) \<and> op_good st p0 \<and> o_outstanding p0 = cnt k (o_id p0) st" using a(2) p0(1) by blast
      then show "o_id p < nextId (io_of k ?st) \<and> op_good ?st p \<and> o_outstanding p = cnt k (o_id p) ?st"
        using p0(2) cn [of k "o_id p0"] by (cases "o_id p0 = j") (simp_all add: op_good_def pop_piece_simps(4,11))
    qed
    moreover have "o_id ` set (ops k ?st) = o_id ` set (ops k st)" unfolding o by (metis dec_op_fields(1) set_map)
    then have "\<forall>q \<in> set (concat (wqes ?st)). q_kind q = k \<longrightarrow> q_op q \<in> o_id ` set (ops k ?st)" using a(3) sub by metis
    moreover have "sorted_wrt (<) (map o_id (ops k ?st))" using a(1) unfolding o dec_op_fields(1) .
    moreover have "\<forall>p \<in> set (outst (io_of k ?st)). o_offset p = o_len p"
      using a(4) by (auto simp: pop_piece_simps(5) dec_op_def)
    moreover have "\<forall>p \<in> set (pend (io_of k ?st)). o_offset p \<le> o_len p"
      using a(5) by (auto simp: pop_piece_simps(6) dec_op_def)
    ultimately show ?thesis unfolding True inv_ops_def by blast
  qed
qed

lemma piece_head:
  assumes v: "inv st c" and i: "i < length (wqes st)" and h: "inflight st c (DataQp i) = (Piece k j, w) # xs"
  obtains p where "wqes st ! i = \<lparr>q_wrId = w_id w, q_kind = k, q_op = j\<rparr> # concat (map wqe_of xs)"
    "i = 0 \<longrightarrow> fast (io_of k st) = []" "find (\<lambda>p. o_id p = j) (outst (io_of k st) @ pend (io_of k st)) = Some p" "0 < o_outstanding p"
proof -
  have w: "wqes st ! i = \<lparr>q_wrId = w_id w, q_kind = k, q_op = j\<rparr> # concat (map wqe_of xs)"
    using invD(3) [OF v] i h unfolding inv_data_def by force
  have f: "fast (io_of k st) = []" if "i = 0"
  proof -
    have "filter (\<lambda>x. is_fast k x \<or> is_piece k x) ((Piece k j, w) # xs) = filter (is_fast k) ((Piece k j, w) # xs) @ filter (is_piece k) ((Piece k j, w) # xs)"
      using invD(4) [OF v] h that unfolding inv_fast_def by metis
    then have e: "(Piece k j, w) # filter (\<lambda>x. is_fast k x \<or> is_piece k x) xs = filter (is_fast k) xs @ (Piece k j, w) # filter (is_piece k) xs" by simp
    have n: "filter (is_fast k) xs = []"
    proof (cases "filter (is_fast k) xs")
      case (Cons z zs)
      then have "z = (Piece k j, w)" using e by simp
      moreover have "z \<in> set (filter (is_fast k) xs)" using Cons by simp
      ultimately show ?thesis by simp
    qed simp
    have "concat (map (fast_id k) xs) = []"
    proof (rule ccontr)
      assume "concat (map (fast_id k) xs) \<noteq> []"
      then obtain x where x: "x \<in> set xs" "fast_id k x \<noteq> []" by auto
      then have "is_fast k x" by (cases "(k, x)" rule: fast_id.cases) (auto split: if_splits)
      then show False using n x(1) by (auto simp: filter_empty_conv)
    qed
    moreover have "concat (map (fast_id k) ((Piece k j, w) # xs)) = concat (map (fast_id k) xs)" by simp
    moreover have "concat (map (fast_id k) ((Piece k j, w) # xs)) = map fst (fast (io_of k st))"
    proof -
      have "0 < length (wqes st)" using i by linarith
      then have "concat (map (fast_id k) (inflight st c (DataQp 0))) = (if (0::nat) = 0 then map fst (fast (io_of k st)) else [])"
        using invD(3) [OF v] unfolding inv_data_def by blast
      then show ?thesis using h that by simp
    qed
    ultimately show ?thesis by (metis map_is_Nil_conv)
  qed
  have "wqes st ! i \<in> set (wqes st)" using i by simp
  then have "set (wqes st ! i) \<subseteq> set (concat (wqes st))" by auto
  then have q: "\<lparr>q_wrId = w_id w, q_kind = k, q_op = j\<rparr> \<in> set (concat (wqes st))" unfolding w by auto
  have "\<forall>q \<in> set (concat (wqes st)). q_kind q = k \<longrightarrow> q_op q \<in> o_id ` set (ops k st)"
    using invD(2) [OF v, of k] unfolding inv_ops_def by blast
  from bspec [OF this q] have "j \<in> o_id ` set (ops k st)" by simp
  then obtain p0 where "p0 \<in> set (ops k st)" "o_id p0 = j" by auto
  then have "find (\<lambda>p. o_id p = j) (ops k st) \<noteq> None" by (auto simp: find_None_iff)
  then obtain p where p: "find (\<lambda>p. o_id p = j) (ops k st) = Some p" by auto
  then have pp: "p \<in> set (ops k st)" "o_id p = j" by (auto simp: find_Some_iff)
  then have "o_outstanding p = cnt k j st" using invD(2) [OF v, of k] unfolding inv_ops_def by blast
  moreover have "cnt k j st \<noteq> 0" using q unfolding cnt_def length_0_conv filter_empty_conv by force
  ultimately have "0 < o_outstanding p" by simp
  then show ?thesis using that w f p unfolding ops_def by blast
qed

lemma pop_piece_inv:
  assumes v: "inv st c" and i: "i < length (wqes st)" and h: "inflight st c (DataQp i) = (Piece k j, w) # xs"
  shows "inv (pop_piece k i j st) (next_c c (DataQp i))"
proof -
  let ?st = "pop_piece k i j st"
  note V = invD [OF v]
  obtain p where w: "wqes st ! i = \<lparr>q_wrId = w_id w, q_kind = k, q_op = j\<rparr> # concat (map wqe_of xs)" by (rule piece_head [OF v i h])
  have d: "concat (map wqe_of (inflight st c (DataQp n))) = wqes st ! n" "list_all data_tag (inflight st c (DataQp n))"
    "\<And>k. concat (map (fast_id k) (inflight st c (DataQp n))) = (if n = 0 then map fst (fast (io_of k st)) else [])" if "n < length (wqes st)" for n
    using V(3) that unfolding inv_data_def by blast+
  have e: "inflight ?st = inflight st" "posts ?st = posts st"
    by (rule inflight_same, simp add: pop_piece_simps) (rule posts_same, simp add: pop_piece_simps)
  have r: "map o_req (ops k' ?st) = map o_req (ops k' st)" for k' by (simp add: pop_piece_simps(2) dec_op_fields)
  have f: "fast (puts ?st) = fast (puts st)" "fast (gets ?st) = fast (gets st)"
    using pop_piece_simps(3) [of Put k i j st] pop_piece_simps(3) [of Get k i j st] by simp_all
  show ?thesis
  proof (rule invI)
    show "cfg_ok ?st" using V(1) by (simp add: cfg_ok_def pop_piece_simps)
    show "inv_ops k' ?st" for k' by (rule pop_piece_inv_ops [OF V(2) V(2) i w]) simp_all
    show "inv_data ?st (next_c c (DataQp i))" unfolding inv_data_def
    proof (intro allI impI conjI)
      fix n k' assume "n < length (wqes ?st)"
      then have n: "n < length (wqes st)" by (simp add: pop_piece_simps)
      have fl: "inflight ?st (next_c c (DataQp i)) (DataQp n) = (if n = i then xs else inflight st c (DataQp n))"
        unfolding e inflight_next [OF h] by simp
      show "concat (map wqe_of (inflight ?st (next_c c (DataQp i)) (DataQp n))) = wqes ?st ! n"
        using d(1) [OF n] w n unfolding fl by (cases "n = i") (simp_all add: pop_piece_simps(1))
      show "list_all data_tag (inflight ?st (next_c c (DataQp i)) (DataQp n))"
        using d(2) [OF n] h unfolding fl by (cases "n = i") simp_all
      have "concat (map (fast_id k') (inflight ?st (next_c c (DataQp i)) (DataQp n))) = concat (map (fast_id k') (inflight st c (DataQp n)))"
        using h unfolding fl by (cases "n = i") simp_all
      then show "concat (map (fast_id k') (inflight ?st (next_c c (DataQp i)) (DataQp n))) = (if n = 0 then map fst (fast (io_of k' ?st)) else [])"
        unfolding d(3) [OF n] pop_piece_simps(3) .
    qed
    show "inv_fast ?st (next_c c (DataQp i))" by (rule inv_fast_next [OF V(4) h e(1)])
    show "inv_notify ?st (next_c c (DataQp i))"
      using V(5) unfolding inv_notify_def e inflight_next [OF h] by (simp add: pop_piece_simps)
    show "inv_atomic ?st (next_c c (DataQp i))"
      using V(6) unfolding inv_atomic_def e inflight_next [OF h] by (simp add: pop_piece_simps)
    show "inv_reqs ?st" using V(7) unfolding inv_reqs_def held_def r f pop_piece_simps(7-10) .
    show "next_c c (DataQp i) q \<le> length (posts ?st q)" for q unfolding e by (rule next_le [OF V(8) h])
  qed
qed

lemma bound_pop:
  assumes "bound st" "i < length (wqes st)" "wqes st ! i = q # qs" "q_kind q = k"
  shows "bound (pop_piece k i j st)" "slot k i (pop_piece k i j st)"
proof -
  have nz: "length (wqes st ! n) \<le> nat (maxQpMsgs st)" if "n < length (wqes st)" "n \<noteq> 0" for n
    using assms(1) that unfolding bound_def by blast
  have z: "length (fast (io_of k' st)) + length (filter (\<lambda>q. q_kind q = k') (wqes st ! 0)) \<le> nat (maxQpMsgs st)" for k'
    using assms(1) unfolding bound_def by blast
  show "bound (pop_piece k i j st)" unfolding bound_def
  proof (intro conjI allI impI)
    fix n assume "n < length (wqes (pop_piece k i j st))" "n \<noteq> 0"
    then show "length (wqes (pop_piece k i j st) ! n) \<le> nat (maxQpMsgs (pop_piece k i j st))"
      using nz [of n] by (cases "n = i") (auto simp: pop_piece_simps(1,14))
  next
    fix k'
    show "length (fast (io_of k' (pop_piece k i j st))) + length (filter (\<lambda>q. q_kind q = k') (wqes (pop_piece k i j st) ! 0))
        \<le> nat (maxQpMsgs (pop_piece k i j st))"
      using z [of k'] assms(2,3) by (cases "i = 0") (auto simp: pop_piece_simps(1,3,14) split: if_splits)
  qed
  show "slot k i (pop_piece k i j st)"
    using z [of k] nz [of i] assms(2-4) by (cases "i = 0") (auto simp: slot_def pop_piece_simps(1,3,14))
qed

text \<open>The completion of a put or get of the queue's head: nothing aborts, the invariant holds with one more completion.\<close>

lemma tidy_burn:
  assumes t: "\<And>k'. k' \<noteq> k \<Longrightarrow> outst (io_of k' st) = [] \<or> fast (io_of k' st) \<noteq> [] \<or> 0 < o_outstanding (hd (outst (io_of k' st)))"
    and o: "\<forall>k'. k' \<noteq> k \<longrightarrow> io_of k' st' = io_of k' st"
    and b: "fast (io_of k st) = [] \<longrightarrow> outst (io_of k st') = [] \<or> o_outstanding (hd (outst (io_of k st'))) > 0"
    and f: "fast (io_of k st') = fast (io_of k st)"
  shows "tidy st'"
  unfolding tidy_def
proof
  fix k'
  show "outst (io_of k' st') = [] \<or> fast (io_of k' st') \<noteq> [] \<or> 0 < o_outstanding (hd (outst (io_of k' st')))"
    using t [of k'] o b f by (cases "k' = k") auto
qed

definition good :: "vc \<Rightarrow> (queue \<Rightarrow> nat) \<Rightarrow> bool" where
  "good st c \<longleftrightarrow> inv st c \<and> bound st \<and> tidy st"

lemma slot_rest_same: "io_rest_same st st' \<Longrightarrow> slot k i st \<Longrightarrow> slot k i st'"
  by (simp add: slot_def io_rest_same_def)

lemma piece_complete_eq:
  assumes v: "inv st c" and i: "i < length (wqes st)" and h: "inflight st c (DataQp i) = (Piece k j, w) # xs"
  shows "data_complete acc k i (w_id w) st = vthen (Some (burnDown acc k (pop_piece k i j st))) (queue_op acc k i)"
proof -
  obtain p where p: "wqes st ! i = \<lparr>q_wrId = w_id w, q_kind = k, q_op = j\<rparr> # concat (map wqe_of xs)"
    "i = 0 \<longrightarrow> fast (io_of k st) = []" "find (\<lambda>p. o_id p = j) (outst (io_of k st) @ pend (io_of k st)) = Some p" "0 < o_outstanding p"
    by (rule piece_head [OF v i h])
  have n: "\<not> (i = 0 \<and> fast (io_of k st) \<noteq> [])" using p(2) by blast
  show ?thesis unfolding data_complete_def if_not_P [OF n] using p(1,3,4) i by (simp add: pop_piece_def Let_def)
qed

lemma piece_complete_ok:
  assumes g: "good st c" and i: "i < length (wqes st)" and h: "inflight st c (DataQp i) = (Piece k j, w) # xs"
  shows "\<exists>st'. data_complete acc k i (w_id w) st = Some (commSuccess, st') \<and> good st' (next_c c (DataQp i)) \<and>
    (pend (io_of k st') = [] \<or> busy k st') \<and> (\<forall>k'. k' \<noteq> k \<longrightarrow> io_of k' st' = io_of k' st)"
proof -
  have v: "inv st c" "bound st" "tidy st" using g unfolding good_def by blast+
  obtain p where p: "wqes st ! i = \<lparr>q_wrId = w_id w, q_kind = k, q_op = j\<rparr> # concat (map wqe_of xs)"
    "i = 0 \<longrightarrow> fast (io_of k st) = []" "find (\<lambda>p. o_id p = j) (outst (io_of k st) @ pend (io_of k st)) = Some p" "0 < o_outstanding p"
    by (rule piece_head [OF v(1) i h])
  let ?s = "pop_piece k i j st" let ?c = "next_c c (DataQp i)"
  have s: "inv ?s ?c" by (rule pop_piece_inv [OF v(1) i h])
  have b: "bound ?s" "slot k i ?s" by (rule bound_pop [OF v(2) i p(1)], simp)+
  obtain st1 where B: "burnDown acc k ?s = (commSuccess, st1)" "inv st1 ?c" "io_rest_same ?s st1"
    "\<forall>k'. k' \<noteq> k \<longrightarrow> io_of k' st1 = io_of k' ?s"
    "fast (io_of k ?s) = [] \<longrightarrow> outst (io_of k st1) = [] \<or> o_outstanding (hd (outst (io_of k st1))) > 0"
    using burnDown_ok [OF s, of k] by blast
  have t: "tidy st1"
  proof (rule tidy_burn [OF _ B(4,5)])
    show "outst (io_of k' ?s) = [] \<or> fast (io_of k' ?s) \<noteq> [] \<or> 0 < o_outstanding (hd (outst (io_of k' ?s)))" if "k' \<noteq> k" for k'
      using spec [OF v(3) [unfolded tidy_def], of k'] pop_piece_simps(16) [OF that] by simp
    show "fast (io_of k st1) = fast (io_of k ?s)" using B(3) by (simp add: io_rest_same_def)
  qed
  have i1: "i < length (wqes st1)" using i B(3) by (simp add: io_rest_same_def pop_piece_simps(1))
  obtain st' where Q: "queue_op acc k i st1 = Some (commSuccess, st')" "inv st' ?c" "bound st'" "tidy st'"
    "pend (io_of k st') = [] \<or> busy k st'" "\<forall>k'. k' \<noteq> k \<longrightarrow> io_of k' st' = io_of k' st1"
    using queue_op_after [OF B(2) bound_rest_same [OF b(1) B(3)] t i1 slot_rest_same [OF B(3) b(2)]] by blast
  have "data_complete acc k i (w_id w) st = vthen (Some (burnDown acc k ?s)) (queue_op acc k i)" by (rule piece_complete_eq [OF v(1) i h])
  also have "\<dots> = Some (commSuccess, st')" using B(1) Q(1) by (simp add: vthen_def)
  finally have "data_complete acc k i (w_id w) st = Some (commSuccess, st')" .
  moreover have "\<forall>k'. k' \<noteq> k \<longrightarrow> io_of k' st' = io_of k' st" using Q(6) B(4) pop_piece_simps(16) by metis
  ultimately show ?thesis using Q(2-5) unfolding good_def by blast
qed

lemma good_reqs:
  assumes "inv (st\<lparr>reqs := f\<rparr>) c" "bound st" "tidy st"
  shows "good (st\<lparr>reqs := f\<rparr>) c"
proof -
  have "bound (st\<lparr>reqs := f\<rparr>)" using assms(2) by (simp add: bound_def)
  moreover have "tidy (st\<lparr>reqs := f\<rparr>)" using assms(3) by (simp add: tidy_def)
  ultimately show ?thesis using assms(1) by (simp add: good_def)
qed

lemma bound_pop_fast:
  assumes "bound st" "fast (io_of k st) = x # fr"
  shows "bound (pop_fast k st)" "slot k 0 (pop_fast k st)"
proof -
  have z: "length (fast (io_of k' st)) + length (filter (\<lambda>q. q_kind q = k') (wqes st ! 0)) \<le> nat (maxQpMsgs st)" for k'
    using assms(1) unfolding bound_def by blast
  have "length (fast (io_of k' (pop_fast k st))) \<le> length (fast (io_of k' st))" for k' by simp
  then have "length (fast (io_of k' (pop_fast k st))) + length (filter (\<lambda>q. q_kind q = k') (wqes st ! 0)) \<le> nat (maxQpMsgs st)" for k'
    using z [of k'] by (meson add_le_mono1 le_trans)
  then show "bound (pop_fast k st)" using assms(1) unfolding bound_def upd_io_fields by blast
  show "slot k 0 (pop_fast k st)" using z [of k] assms(2) by (simp add: slot_def)
qed

lemma fast_complete_eq:
  assumes v: "inv st c" and i: "i < length (wqes st)" and h: "inflight st c (DataQp i) = (FastOp k j, w) # xs"
  obtains r fr fn where "i = 0" "fast (io_of k st) = (j, r) # fr" "inv ((pop_fast k st)\<lparr>reqs := fn\<rparr>) (next_c c (DataQp 0))"
    "data_complete acc k i wid st = vthen (Some (burnDown acc k ((pop_fast k st)\<lparr>reqs := fn\<rparr>))) (queue_op acc k i)"
proof -
  obtain r fr where f: "i = 0" "fast (io_of k st) = (j, r) # fr" "inv (pop_fast k st) (next_c c (DataQp 0))" "reqs_free (pop_fast k st) [r]"
    by (rule pop_fast_inv [OF v i h])
  obtain fn where C: "complete_req r (pop_fast k st) = (commSuccess, (pop_fast k st)\<lparr>reqs := fn\<rparr>)"
    "inv ((pop_fast k st)\<lparr>reqs := fn\<rparr>) (next_c c (DataQp 0))" by (rule complete_ok [OF f(3,4)])
  let ?s = "(pop_fast k st)\<lparr>reqs := fn\<rparr>"
  have e: "fst (complete_req r st) = commSuccess" "pop_fast k (snd (complete_req r st)) = ?s"
    using C(1) unfolding complete_req_upd by simp_all
  have n: "i = 0 \<and> fast (io_of k st) \<noteq> []" using f(1,2) by simp
  have cr: "complete_req (snd (hd (fast (io_of k st)))) st = (commSuccess, snd (complete_req r st))"
    using e(1) f(2) by (metis fst_conv list.sel(1) prod.collapse snd_conv)
  have b: "(if fast (io_of k ?s) = [] then burnDown acc k ?s else (commSuccess, ?s)) = burnDown acc k ?s" unfolding burnDown_def by simp
  have "data_complete acc k i wid st = vthen (Some (burnDown acc k ?s)) (queue_op acc k i)"
    unfolding data_complete_def if_P [OF n] cr prod.case Let_def e(2) b by simp
  then show ?thesis using that f(1,2) C(2) by blast
qed

lemma fast_complete_ok:
  assumes g: "good st c" and i: "i < length (wqes st)" and h: "inflight st c (DataQp i) = (FastOp k j, w) # xs"
  shows "\<exists>st'. data_complete acc k i wid st = Some (commSuccess, st') \<and> good st' (next_c c (DataQp i)) \<and>
    (pend (io_of k st') = [] \<or> busy k st') \<and> (\<forall>k'. k' \<noteq> k \<longrightarrow> io_of k' st' = io_of k' st)"
proof -
  have v: "inv st c" "bound st" "tidy st" using g unfolding good_def by blast+
  obtain r fr fn where f: "i = 0" "fast (io_of k st) = (j, r) # fr"
    and C: "inv ((pop_fast k st)\<lparr>reqs := fn\<rparr>) (next_c c (DataQp 0))"
    and eq: "data_complete acc k i wid st = vthen (Some (burnDown acc k ((pop_fast k st)\<lparr>reqs := fn\<rparr>))) (queue_op acc k i)"
    by (rule fast_complete_eq [OF v(1) i h, of wid])
  let ?c = "next_c c (DataQp 0)" let ?s0 = "pop_fast k st"
  let ?s = "?s0\<lparr>reqs := fn\<rparr>"
  have b: "bound ?s" "slot k 0 ?s" using bound_pop_fast [OF v(2) f(2)] by (simp_all add: bound_def slot_def)
  have io: "io_of k ?s = (io_of k st)\<lparr>fast := fr\<rparr>" "io_of k' ?s = io_of k' st" if "k' \<noteq> k" for k' using f(2) that by simp_all
  have fk: "fast (io_of k ?s) = fr" using f(2) by simp
  have tk: "outst (io_of k' ?s) = [] \<or> fast (io_of k' ?s) \<noteq> [] \<or> 0 < o_outstanding (hd (outst (io_of k' ?s)))" if "k' \<noteq> k" for k'
    unfolding io(2) [OF that] by (rule spec [OF v(3) [unfolded tidy_def]])
  obtain st1 where B: "burnDown acc k ?s = (commSuccess, st1)" "inv st1 ?c" "io_rest_same ?s st1"
    "\<forall>k'. k' \<noteq> k \<longrightarrow> io_of k' st1 = io_of k' ?s"
    "fast (io_of k ?s) = [] \<longrightarrow> outst (io_of k st1) = [] \<or> o_outstanding (hd (outst (io_of k st1))) > 0"
    using burnDown_ok [OF C, of k] by blast
  have t: "tidy st1"
    by (rule tidy_burn [OF tk B(4,5)]) (use B(3) in \<open>simp_all add: io_rest_same_def\<close>)
  have i1: "0 < length (wqes st1)" using i f(1) B(3) by (simp add: io_rest_same_def)
  obtain st' where Q: "queue_op acc k 0 st1 = Some (commSuccess, st')" "inv st' ?c" "bound st'" "tidy st'"
    "pend (io_of k st') = [] \<or> busy k st'" "\<forall>k'. k' \<noteq> k \<longrightarrow> io_of k' st' = io_of k' st1"
    using queue_op_after [OF B(2) bound_rest_same [OF b(1) B(3)] t i1 slot_rest_same [OF B(3) b(2)]] by blast
  have "data_complete acc k i wid st = Some (commSuccess, st')" unfolding eq using B(1) Q(1) f(1) by (simp add: vthen_def)
  moreover have "\<forall>k'. k' \<noteq> k \<longrightarrow> io_of k' st' = io_of k' st"
  proof (intro allI impI)
    fix k' assume k': "k' \<noteq> k"
    have "io_of k' st' = io_of k' st1" using Q(6) k' by blast
    also have "\<dots> = io_of k' ?s" using B(4) k' by blast
    finally show "io_of k' st' = io_of k' st" unfolding io(2) [OF k'] .
  qed
  ultimately show ?thesis using Q(2-5) f(1) unfolding good_def by blast
qed

section \<open>Completions of notifications and atomics\<close>

lemma notify_complete_ok:
  assumes g: "good st c" and h: "inflight st c NotifyQp = (t, w) # xs"
  shows "\<exists>st'. notify_complete acc (w_id w) st = Some (commSuccess, st') \<and> good st' (next_c c NotifyQp) \<and>
    (\<forall>k. io_of k st' = io_of k st) \<and> wqes st' = wqes st"
proof -
  have v: "inv st c" "bound st" "tidy st" using g unfolding good_def by blast+
  note V = invD [OF v(1)]
  have m: "map (w_id \<circ> snd) (inflight st c NotifyQp) = map n_wrId (outN st)" using V(5) unfolding inv_notify_def by blast
  then obtain n ns where n: "outN st = n # ns" "n_wrId n = w_id w" "map (w_id \<circ> snd) xs = map n_wrId ns" using h by auto
  let ?s = "st\<lparr>outN := ns\<rparr>" let ?c = "next_c c NotifyQp"
  have e: "inflight ?s = inflight st" "posts ?s = posts st" by (rule inflight_same, simp) (rule posts_same, simp)
  have o: "ops k ?s = ops k st" "cnt k i ?s = cnt k i st" "io_of k ?s = io_of k st" for k i by (simp_all add: ops_def cnt_def)
  have "add_mset (n_req n) (mset (held ?s)) = mset (held st)" by (simp add: held_def ops_def n(1))
  then have rf: "reqs_free ?s [n_req n]" by (rule reqs_free_release [OF V(7)]) simp
  have i0: "i0 < MAX_SEND_WR \<Longrightarrow> inv_notify0 (?s\<lparr>reqs := f\<rparr>) ?c" for f i0
  proof -
    have e2: "inflight (?s\<lparr>reqs := f\<rparr>) = inflight st" by (rule inflight_same) simp
    have "length (outN st) \<le> MAX_SEND_WR" "pendN st \<noteq> [] \<longrightarrow> length (outN st) = MAX_SEND_WR" using V(5) unfolding inv_notify_def by blast+
    then show ?thesis using n unfolding inv_notify0_def e2 inflight_next [OF h] by auto
  qed
  obtain f where f: "complete_req (n_req n) ?s = (commSuccess, ?s\<lparr>reqs := f\<rparr>)" "inv_reqs (?s\<lparr>reqs := f\<rparr>)"
    by (rule complete_reqs [OF rf])
  let ?s2 = "?s\<lparr>reqs := f\<rparr>"
  have e2: "inflight ?s2 = inflight st" "posts ?s2 = posts st" by (rule inflight_same, simp) (rule posts_same, simp)
  have o2: "ops k ?s2 = ops k st" "cnt k i ?s2 = cnt k i st" "io_of k ?s2 = io_of k st" for k i by (simp_all add: ops_def cnt_def)
  let ?r = "snd (tryPostImmNotifyMsg acc ?s2)"
  have "inv ?r ?c"
  proof (rule tryPost_inv)
    show "cfg_ok ?s2" using V(1) by (simp add: cfg_ok_def)
    show "inv_ops k ?s2" for k using V(2) [of k] unfolding inv_ops_def o2 by (simp add: op_good_def)
    show "inv_data ?s2 ?c" using V(3) unfolding inv_data_def e2 inflight_next [OF h] by simp
    show "inv_fast ?s2 ?c" by (rule inv_fast_next [OF V(4) h e2(1)])
    show "inv_notify0 ?s2 ?c" by (rule i0 [of 0]) (simp add: MAX_SEND_WR_def)
    show "inv_atomic ?s2 ?c" using V(6) unfolding inv_atomic_def e2 inflight_next [OF h] by simp
    show "inv_reqs ?s2" by (rule f(2))
    show "?c q \<le> length (posts ?s2 q)" for q unfolding e2 by (rule next_le [OF V(8) h])
  qed
  moreover have "bound ?r" using v(2) by (simp add: bound_def tryPost_fields)
  moreover have "tidy ?r" using v(3) by (simp add: tidy_def tryPost_fields)
  moreover have "notify_complete acc (w_id w) st = Some (commSuccess, ?r)"
  proof -
    have "tryPostImmNotifyMsg acc ?s2 = (commSuccess, ?r)" by (rule prod_eqI) (simp_all add: tryPost_fields)
    then show ?thesis using n f(1) by (simp add: notify_complete_def vthen_def)
  qed
  ultimately show ?thesis by (simp add: good_def tryPost_fields)
qed

end
