(* ===== verification/Ib_Vc_Calls.thy ===== *)
theory Ib_Vc_Calls imports Ib_Vc_Inv begin

text \<open>
  The calls of the users of a virtual connection: on valid registrations none aborts, and each keeps the invariant. A batch
  on the fast path is one fast put after another.
\<close>

section \<open>The calls keep the invariant\<close>

lemma goodI: "inv st c \<Longrightarrow> bound st \<Longrightarrow> tidy st \<Longrightarrow> good st c"
  by (simp add: good_def)

lemma goodD:
  assumes "good st c"
  shows "inv st c" "bound st" "tidy st"
  using assms unfolding good_def by blast+

text \<open>A registration with a key per device, and enough remote keys.\<close>

definition keys_ok :: "vc \<Rightarrow> u32 list option \<Rightarrow> u32 list \<Rightarrow> bool" where
  "keys_ok st ks rks \<longleftrightarrow> (case ks of None \<Rightarrow> True | Some k \<Rightarrow> nat (devs st) \<le> length k \<and> nat (devs st) \<le> length rks)"

lemma try_new_good:
  assumes g: "good st c" and p: "o_id p = nextId (io_of k st)" "o_offset p = 0" "o_outstanding p = 0" "op_good st p"
    and r: "reqs_free st [o_req p]"
  shows "\<exists>st'. tryToPostOp acc k (new_op k p st) = Some (commSuccess, st') \<and> good st' c \<and> (pend (io_of k st') = [] \<or> busy k st') \<and>
    (\<forall>k'. k' \<noteq> k \<longrightarrow> io_of k' st' = io_of k' st) \<and> moves k (new_op k p st) st'"
proof -
  have n: "inv (new_op k p st) c" "bound (new_op k p st)"
    using new_op_inv [OF goodD(1) [OF g] p r] new_op_bound [OF goodD(2) [OF g]] by simp_all
  have t: "tidy (new_op k p st)"
    unfolding tidy_def
  proof
    fix k'
    have "outst (io_of k' (new_op k p st)) = outst (io_of k' st)" "fast (io_of k' (new_op k p st)) = fast (io_of k' st)"
      by (simp_all add: new_op_def)
    then show "outst (io_of k' (new_op k p st)) = [] \<or> fast (io_of k' (new_op k p st)) \<noteq> [] \<or>
      0 < o_outstanding (hd (outst (io_of k' (new_op k p st))))"
      using spec [OF goodD(3) [OF g, unfolded tidy_def], of k'] by simp
  qed
  obtain st' where s: "tryToPostOp acc k (new_op k p st) = Some (commSuccess, st')" "moves k (new_op k p st) st'"
    "pend (io_of k st') = [] \<or> busy k st'" using tryToPostOp_ok [OF n, of k] by blast
  have "good st' c" by (intro goodI moves_inv [OF s(2) n(1)] moves_bound [OF s(2) n(2)] moves_tidy [OF s(2) t])
  moreover have "\<forall>k'. k' \<noteq> k \<longrightarrow> io_of k' st' = io_of k' st"
    using moves_fixed [OF s(2)] by (simp add: new_op_def)
  ultimately show ?thesis using s by blast
qed

lemma take_id_good:
  assumes "good st c"
  shows "good (snd (take_id k st)) c"
proof -
  have "tidy (snd (take_id k st))"
    unfolding tidy_def
  proof
    fix k'
    have "outst (io_of k' (snd (take_id k st))) = outst (io_of k' st)" "fast (io_of k' (snd (take_id k st))) = fast (io_of k' st)"
      by (simp_all add: take_id_def)
    then show "outst (io_of k' (snd (take_id k st))) = [] \<or> fast (io_of k' (snd (take_id k st))) \<noteq> [] \<or>
      0 < o_outstanding (hd (outst (io_of k' (snd (take_id k st)))))"
      using spec [OF goodD(3) [OF assms, unfolded tidy_def], of k'] by simp
  qed
  then show ?thesis using take_id_inv [OF goodD(1) [OF assms]] take_id_bound [OF goodD(2) [OF assms]] by (intro goodI)
qed

lemma fast_good:
  assumes g: "good st c" and o: "outst (io_of k st) = []" "pend (io_of k st) = []"
    and l: "length (fast (io_of k st)) < nat (maxQpMsgs st)" and r: "reqs_free st [r]"
  shows "good (fast_st k r w seq st) c"
proof (rule goodI)
  have e: "ops k st = []" using o by (simp add: ops_def)
  show "inv (fast_st k r w seq st) c" by (rule fast_inv [OF goodD(1) [OF g] e r])
  show "bound (fast_st k r w seq st)" by (rule fast_bound [OF goodD(1,2) [OF g] e l])
  show "tidy (fast_st k r w seq st)" unfolding tidy_def
  proof
    fix k'
    show "outst (io_of k' (fast_st k r w seq st)) = [] \<or> fast (io_of k' (fast_st k r w seq st)) \<noteq> [] \<or>
      0 < o_outstanding (hd (outst (io_of k' (fast_st k r w seq st))))"
      using spec [OF goodD(3) [OF g, unfolded tidy_def], of k'] by (cases "k' = k") (simp_all add: fast_st_simps(1))
  qed
qed

text \<open>The operation that a put or a get makes.\<close>

definition put_op :: "put_msg \<Rightarrow> vc \<Rightarrow> op_info" where
  "put_op p st = \<lparr>o_id = nextId (puts st), o_sbuf = p_sbuf p, o_dbuf = p_dbuf p, o_len = p_len p,
     o_lkeys = take (nat (devs st)) (the (p_keys p)), o_rkeys = take (nat (devs st)) (p_rkeys p), o_notify = p_notify p,
     o_req = p_req p, o_config = p_config p, o_mode = getOpVcMode (p_config p) st, o_offset = 0, o_outstanding = 0\<rparr>"

definition get_op ::
  "u64 \<Rightarrow> u64 \<Rightarrow> nat \<Rightarrow> u32 list option \<Rightarrow> u32 list \<Rightarrow> ib_config option \<Rightarrow> nat option \<Rightarrow> vc \<Rightarrow> op_info" where
  "get_op sbuf dbuf n keys rkeys c req st = \<lparr>o_id = nextId (gets st), o_sbuf = sbuf, o_dbuf = dbuf, o_len = n,
     o_lkeys = take (nat (devs st)) (the keys), o_rkeys = take (nat (devs st)) rkeys, o_notify = False,
     o_req = req, o_config = c, o_mode = getOpVcMode c st, o_offset = 0, o_outstanding = 0\<rparr>"

lemma pend_nextId: "io\<lparr>nextId := a, pend := b\<rparr> = (io::io_queues)\<lparr>pend := b, nextId := a\<rparr>"
  by (cases io) simp

lemma iput_eq:
  assumes "p_keys p = Some ks" "keys_ok st (p_keys p) (p_rkeys p)"
  shows "iputImpl acc p False st = tryToPostOp acc Put (new_op Put (put_op p st) st)"
  using assms by (simp add: iputImpl_def keys_ok_def op_keys_def Let_def take_id_def upd_io_def new_op_def put_op_def getOpVcMode_def
      io_of_def pend_nextId split: option.splits)

lemma iget_eq:
  assumes "keys = Some ks" "keys_ok st keys rkeys"
  shows "igetImpl acc sbuf dbuf n keys rkeys c req False st =
    tryToPostOp acc Get (new_op Get (get_op sbuf dbuf n keys rkeys c req st) st)"
  using assms by (simp add: igetImpl_def keys_ok_def op_keys_def Let_def take_id_def upd_io_def new_op_def get_op_def getOpVcMode_def
      io_of_def pend_nextId split: option.splits)

lemma op_good_put: "p_keys p = Some ks \<Longrightarrow> keys_ok st (p_keys p) (p_rkeys p) \<Longrightarrow> config_ok (p_config p) \<Longrightarrow> op_good st (put_op p st)"
  by (simp add: op_good_def put_op_def keys_ok_def)

lemma op_good_get: "keys = Some ks \<Longrightarrow> keys_ok st keys rkeys \<Longrightarrow> config_ok c \<Longrightarrow> op_good st (get_op sbuf dbuf n keys rkeys c req st)"
  by (simp add: op_good_def get_op_def keys_ok_def)

lemma iput_good:
  assumes g: "good st c" and k: "keys_ok st (p_keys p) (p_rkeys p)" and cf: "config_ok (p_config p)" and r: "reqs_free st [p_req p]"
  shows "\<exists>res st'. iputImpl acc p False st = Some (res, st') \<and> good st' c \<and> (p_keys p \<noteq> None \<longrightarrow> res = commSuccess) \<and>
    gets st' = gets st \<and> (res = commSuccess \<longrightarrow> pend (puts st') = [] \<or> busy Put st') \<and> (res \<noteq> commSuccess \<longrightarrow> st' = st)"
proof (cases "p_keys p")
  case None
  then show ?thesis using g by (simp add: iputImpl_def)
next
  case (Some ks)
  have p: "o_id (put_op p st) = nextId (io_of Put st)" "o_offset (put_op p st) = 0" "o_outstanding (put_op p st) = 0"
    "o_req (put_op p st) = p_req p" by (simp_all add: put_op_def)
  obtain st' where "tryToPostOp acc Put (new_op Put (put_op p st) st) = Some (commSuccess, st')" "good st' c"
    "pend (io_of Put st') = [] \<or> busy Put st'" "\<forall>k'. k' \<noteq> Put \<longrightarrow> io_of k' st' = io_of k' st"
    using try_new_good [OF g p(1-3) op_good_put [OF Some k cf]] r unfolding p(4) by blast
  moreover from this(4) have "gets st' = gets st" using io_of_puts(2) by (metis op_kind.distinct(1))
  ultimately show ?thesis using iput_eq [OF Some k] by simp
qed

lemma iget_good:
  assumes g: "good st c" and k: "keys_ok st keys rkeys" and cf: "config_ok cfg" and r: "reqs_free st [req]"
  shows "\<exists>res st'. igetImpl acc sbuf dbuf n keys rkeys cfg req False st = Some (res, st') \<and> good st' c \<and>
    (keys \<noteq> None \<longrightarrow> res = commSuccess) \<and> puts st' = puts st \<and> (res = commSuccess \<longrightarrow> pend (gets st') = [] \<or> busy Get st') \<and>
    (res \<noteq> commSuccess \<longrightarrow> st' = st)"
proof (cases keys)
  case None
  then show ?thesis using g by (simp add: igetImpl_def)
next
  case (Some ks)
  let ?p = "get_op sbuf dbuf n keys rkeys cfg req st"
  have p: "o_id ?p = nextId (io_of Get st)" "o_offset ?p = 0" "o_outstanding ?p = 0" "o_req ?p = req" by (simp_all add: get_op_def)
  obtain st' where "tryToPostOp acc Get (new_op Get ?p st) = Some (commSuccess, st')" "good st' c"
    "pend (io_of Get st') = [] \<or> busy Get st'" "\<forall>k'. k' \<noteq> Get \<longrightarrow> io_of k' st' = io_of k' st"
    using try_new_good [OF g p(1-3) op_good_get [OF Some k cf]] r unfolding p(4) by blast
  moreover from this(4) have "puts st' = puts st" using io_of_puts(1) by (metis op_kind.distinct(1))
  ultimately show ?thesis using iget_eq [OF Some k] by simp
qed

section \<open>The fast path\<close>

definition fast_put_wr :: "put_msg \<Rightarrow> nat \<Rightarrow> vc \<Rightarrow> work_req" where
  "fast_put_wr p d st = \<lparr>w_id = nextWrId st, w_op = WR_RDMA_WRITE_WITH_IMM, w_local = p_sbuf p, w_length = p_len p,
     w_lkey = the (p_keys p) ! d, w_remote = p_dbuf p, w_rkey = p_rkeys p ! d,
     w_imm = (if p_notify p then push_bit kFastPutBit 1 OR push_bit kNotifyBit 1 else push_bit kFastPutBit 1), w_val = 0\<rparr>"

definition fast_put_st :: "put_msg \<Rightarrow> nat \<Rightarrow> vc \<Rightarrow> vc" where
  "fast_put_st p d st = fast_st Put (p_req p) (fast_put_wr p d st) ((sndNxt st + 1) AND kSeqNumMask) st"

lemma dev0:
  assumes "cfg_ok st"
  obtains d where "getIbDevFromQpIdx 0 st = Some d" "d < nat (devs st)"
proof -
  have "0 < length (wqes st)" using assms by (simp add: cfg_ok_def)
  then show ?thesis using dev_some [OF assms] that by blast
qed

lemma process_fast:
  assumes "p_keys p = Some ks" "keys_ok st (p_keys p) (p_rkeys p)" "d < nat (devs st)"
  shows "processFastWriteWqe (nextId (puts st)) p d (snd (take_id Put st)) =
    Some (commSuccess, Some (fast_put_wr p d st), (fast_put_st p d st)\<lparr>wire := wire st\<rparr>)"
  using assms by (simp add: processFastWriteWqe_def keys_ok_def fast_put_st_def fast_put_wr_def take_id_def fast_st_def upd_io_def io_of_def)

lemma limit_cfg: "cfg_ok st \<Longrightarrow> limit (maxQpMsgs st) = nat (maxQpMsgs st)"
  by (simp add: cfg_ok_def limit_small)

lemma isFastPutValidD:
  assumes "isFastPutValid cf n m st" "cfg_ok st"
  shows "outst (puts st) = [] \<and> pend (puts st) = [] \<and> length (fast (puts st)) + m \<le> nat (maxQpMsgs st)"
  using assms by (simp add: isFastPutValid_def limit_cfg split: if_splits)

text \<open>A fast put fails at once, or is posted.\<close>

lemma iput_fast_cases:
  assumes c: "cfg_ok st" and k: "keys_ok st (p_keys p) (p_rkeys p)"
  obtains (refused) "iputImpl acc p True st = Some (commSystemError, st)"
  | (invalid) "iputImpl acc p True st = Some (commSystemError, snd (take_id Put st))"
  | (posted) d where "iputImpl acc p True st = Some (commSuccess, fast_put_st p d st)" "d < nat (devs st)"
      "outst (puts st) = []" "pend (puts st) = []" "length (fast (puts st)) < nat (maxQpMsgs st)"
proof (cases "p_keys p")
  case None
  then show ?thesis using refused by (simp add: iputImpl_def)
next
  case (Some ks)
  define st0 where "st0 = snd (take_id Put st)"
  obtain d where d: "getIbDevFromQpIdx 0 st = Some d" "d < nat (devs st)" by (rule dev0 [OF c])
  have d0: "getIbDevFromQpIdx 0 st0 = Some d" using d(1) by (simp add: getIbDevFromQpIdx_def st0_def take_id_def)
  have eq: "iputImpl acc p True st = (if \<not> isFastPutValid (p_config p) (p_len p) 1 st0 then Some (commSystemError, st0)
      else Some (commSuccess, fast_put_st p d st))"
  proof -
    have ti: "take_id Put st = (nextId (puts st), st0)" by (simp add: st0_def take_id_def)
    have wi: "wire (fast_put_st p d st) = wire st @ [(DataQp 0, FastOp Put (nextId (puts st)), fast_put_wr p d st)]"
      by (simp add: fast_put_st_def fast_st_simps(13))
    have "op_keys ks (p_rkeys p) st \<noteq> None" using k Some by (simp add: op_keys_def keys_ok_def Let_def)
    then obtain lk rk where ok: "op_keys ks (p_rkeys p) st = Some (lk, rk)" by auto
    have po: "post acc (DataQp 0) (FastOp Put (nextId (puts st))) (fast_put_wr p d st) ((fast_put_st p d st)\<lparr>wire := wire st\<rparr>) =
        (commSuccess, fast_put_st p d st)"
      unfolding post_acc using wi by simp
    show ?thesis unfolding iputImpl_def Some option.case ok ti prod.case if_True d0 process_fast [OF Some k d(2), folded st0_def] po ..
  qed
  show ?thesis
  proof (cases "isFastPutValid (p_config p) (p_len p) 1 st0")
    case False
    then show ?thesis using invalid unfolding eq st0_def by simp
  next
    case True
    have "cfg_ok st0" using c by (simp add: cfg_ok_def st0_def take_id_def)
    from isFastPutValidD [OF True this]
    have "outst (puts st) = [] \<and> pend (puts st) = [] \<and> length (fast (puts st)) + 1 \<le> nat (maxQpMsgs st)"
      by (simp add: st0_def take_id_def upd_io_def)
    then show ?thesis using posted [OF _ d(2)] True unfolding eq by simp
  qed
qed

lemma iput_fast_good:
  assumes g: "good st c" and k: "keys_ok st (p_keys p) (p_rkeys p)" and r: "reqs_free st [p_req p]"
  shows "\<exists>res st'. iputImpl acc p True st = Some (res, st') \<and> good st' c \<and> gets st' = gets st \<and> pend (puts st') = pend (puts st) \<and>
    wqes st' = wqes st \<and> length (fast (puts st)) \<le> length (fast (puts st'))"
proof (cases rule: iput_fast_cases [OF invD(1) [OF goodD(1) [OF g]] k])
  case 1
  then show ?thesis using g by simp
next
  case 2
  then show ?thesis using take_id_good [OF g, of Put] by (simp add: take_id_def upd_io_def)
next
  case (3 d)
  have "good (fast_put_st p d st) c" unfolding fast_put_st_def by (rule fast_good [OF g _ _ _ r]) (use 3 in simp_all)
  moreover have "gets (fast_put_st p d st) = gets st" "pend (puts (fast_put_st p d st)) = pend (puts st)"
    "wqes (fast_put_st p d st) = wqes st" "length (fast (puts st)) \<le> length (fast (puts (fast_put_st p d st)))"
    by (simp_all add: fast_put_st_def fast_st_def upd_io_def)
  ultimately show ?thesis using 3(1) by simp
qed

lemma fast_get_eq: "post acc (DataQp 0) (FastOp Get (nextId (gets st))) w
    ((snd (take_id Get st))\<lparr>nextWrId := nextWrId st + 1,
       gets := (gets (snd (take_id Get st)))\<lparr>fast := fast (gets (snd (take_id Get st))) @ [(nextId (gets st), req)]\<rparr>\<rparr>) =
    (commSuccess, fast_st Get req w (sndNxt st) st)"
  by (simp add: post_acc take_id_def upd_io_def fast_st_def io_of_def)

lemma iget_fast_cases:
  assumes c: "cfg_ok st" and k: "keys_ok st keys rkeys"
  obtains (refused) "igetImpl acc sbuf dbuf n keys rkeys cfg req True st = Some (commSystemError, st)"
  | (invalid) "igetImpl acc sbuf dbuf n keys rkeys cfg req True st = Some (commSystemError, snd (take_id Get st))"
  | (posted) w where "igetImpl acc sbuf dbuf n keys rkeys cfg req True st = Some (commSuccess, fast_st Get req w (sndNxt st) st)"
      "w_op w = WR_RDMA_READ" "outst (gets st) = []" "pend (gets st) = []" "length (fast (gets st)) < nat (maxQpMsgs st)"
proof (cases keys)
  case None
  then show ?thesis using refused by (simp add: igetImpl_def)
next
  case (Some ks)
  define st0 where "st0 = snd (take_id Get st)"
  obtain d where d: "getIbDevFromQpIdx 0 st = Some d" "d < nat (devs st)" by (rule dev0 [OF c])
  have d0: "getIbDevFromQpIdx 0 st0 = Some d" using d(1) by (simp add: getIbDevFromQpIdx_def st0_def take_id_def)
  obtain lk rk where ok: "op_keys ks rkeys st = Some (lk, rk)" "\<not> length lk \<le> d" using k Some d(2)
    by (simp add: op_keys_def keys_ok_def Let_def)
  have ti: "take_id Get st = (nextId (gets st), st0)" by (simp add: st0_def take_id_def)
  let ?w = "\<lparr>w_id = nextWrId st0, w_op = WR_RDMA_READ, w_local = dbuf, w_length = n, w_lkey = lk ! d, w_remote = sbuf, w_rkey = rk ! d, w_imm = 0, w_val = 0\<rparr>"
  let ?bad = "outst (gets st0) \<noteq> [] \<or> pend (gets st0) \<noteq> [] \<or>
      n > clamp (if getOpScalingTh cfg st0 > 0 then getOpScalingTh cfg st0 else n) st0 \<or> limit (maxQpMsgs st0) \<le> length (fast (gets st0))"
  have nw: "nextWrId st0 = nextWrId st" by (simp add: st0_def take_id_def)
  have eq: "igetImpl acc sbuf dbuf n keys rkeys cfg req True st = (if ?bad then Some (commSystemError, st0)
      else Some (commSuccess, fast_st Get req ?w (sndNxt st) st))"
    unfolding igetImpl_def Some option.case ok(1) ti prod.case if_True d0 Let_def if_not_P [OF ok(2)] nw fast_get_eq [of st, folded st0_def] by simp
  show ?thesis
  proof (cases ?bad)
    case True
    then have "igetImpl acc sbuf dbuf n keys rkeys cfg req True st = Some (commSystemError, st0)" unfolding eq by (rule if_P)
    then show ?thesis using invalid unfolding st0_def by simp
  next
    case False
    then have e: "igetImpl acc sbuf dbuf n keys rkeys cfg req True st = Some (commSuccess, fast_st Get req ?w (sndNxt st) st)"
      unfolding eq by (rule if_not_P)
    have c0: "cfg_ok st0" using c by (simp add: cfg_ok_def st0_def take_id_def)
    have "outst (gets st0) = []" "pend (gets st0) = []" "length (fast (gets st0)) < nat (maxQpMsgs st0)"
      using False limit_cfg [OF c0] by auto
    then show ?thesis by (intro posted [OF e]) (simp_all add: st0_def take_id_def upd_io_def)
  qed
qed

lemma iget_fast_good:
  assumes g: "good st c" and k: "keys_ok st keys rkeys" and r: "reqs_free st [req]"
  shows "\<exists>res st'. igetImpl acc sbuf dbuf n keys rkeys cfg req True st = Some (res, st') \<and> good st' c \<and> puts st' = puts st \<and>
    pend (gets st') = pend (gets st) \<and> wqes st' = wqes st \<and> length (fast (gets st)) \<le> length (fast (gets st'))"
proof (cases rule: iget_fast_cases [OF invD(1) [OF goodD(1) [OF g]] k, of sbuf dbuf n cfg req])
  case 1
  then show ?thesis using g by simp
next
  case 2
  then show ?thesis using take_id_good [OF g, of Get] by (simp add: take_id_def upd_io_def)
next
  case (3 w)
  have "good (fast_st Get req w (sndNxt st) st) c" by (rule fast_good [OF g _ _ _ r]) (use 3 in simp_all)
  moreover have "puts (fast_st Get req w (sndNxt st) st) = puts st" "pend (gets (fast_st Get req w (sndNxt st) st)) = pend (gets st)"
    "wqes (fast_st Get req w (sndNxt st) st) = wqes st" "length (fast (gets st)) \<le> length (fast (gets (fast_st Get req w (sndNxt st) st)))"
    by (simp_all add: fast_st_def upd_io_def)
  ultimately show ?thesis using 3(1) by simp
qed

section \<open>Batches\<close>

lemma reqs_free_cons:
  assumes "reqs_free st (r # rs)"
  shows "reqs_free st [r]" "reqs_free (fast_st k r w seq st) rs"
proof -
  have a: "int (count_list (held st) (Some i) + count_list (r # rs) (Some i)) \<le> refCount (reqs st i)" for i
    using assms unfolding reqs_free_def by blast
  show "reqs_free st [r]" unfolding reqs_free_def
  proof
    fix i
    have "count_list [r] (Some i) \<le> count_list (r # rs) (Some i)" by simp
    then show "int (count_list (held st) (Some i) + count_list [r] (Some i)) \<le> refCount (reqs st i)" using a [of i] by linarith
  qed
  have f: "map snd (fast (puts (fast_st k r w seq st))) = map snd (fast (puts st)) @ (if k = Put then [r] else [])"
    "map snd (fast (gets (fast_st k r w seq st))) = map snd (fast (gets st)) @ (if k = Get then [r] else [])"
    using fast_st_simps(1) [of Put k r w seq st] fast_st_simps(1) [of Get k r w seq st] by (cases k; simp)+
  have h: "count_list (held (fast_st k r w seq st)) (Some i) + count_list rs (Some i) =
      count_list (held st) (Some i) + count_list (r # rs) (Some i)" for i
    unfolding held_def f fast_st_simps(2,5-7) by (cases k) simp_all
  show "reqs_free (fast_st k r w seq st) rs" unfolding reqs_free_def h fast_st_simps(8) using a by blast
qed

definition fast_put_ok :: "vc \<Rightarrow> put_msg \<Rightarrow> bool" where
  "fast_put_ok st p \<longleftrightarrow> p_keys p \<noteq> None \<and> keys_ok st (p_keys p) (p_rkeys p)"

lemma fast_put_st_fields:
  "outst (puts (fast_put_st p d st)) = outst (puts st)" "pend (puts (fast_put_st p d st)) = pend (puts st)"
  "length (fast (puts (fast_put_st p d st))) = length (fast (puts st)) + 1" "gets (fast_put_st p d st) = gets st"
  "wqes (fast_put_st p d st) = wqes st" "maxQpMsgs (fast_put_st p d st) = maxQpMsgs st" "devs (fast_put_st p d st) = devs st"
  "maxNumQps (fast_put_st p d st) = maxNumQps st"
  "mtu (fast_put_st p d st) = mtu st" "maxMsgSize (fast_put_st p d st) = maxMsgSize st" "scalingTh (fast_put_st p d st) = scalingTh st"
  "wire (fast_put_st p d st) = wire st @ [(DataQp 0, FastOp Put (nextId (puts st)), fast_put_wr p d st)]"
  by (simp_all add: fast_put_st_def fast_st_def upd_io_def io_of_def)

lemma fast_put_st_wire: "(fast_put_st p d (st\<lparr>wire := W\<rparr>))\<lparr>wire := W\<rparr> = (fast_put_st p d st)\<lparr>wire := W\<rparr>"
  "fast_put_wr p d (st\<lparr>wire := W\<rparr>) = fast_put_wr p d st"
  by (simp_all add: fast_put_st_def fast_st_def upd_io_def io_of_def fast_put_wr_def)

lemma fast_chain_eq:
  assumes "\<forall>p \<in> set ps. fast_put_ok st p" "d < nat (devs st)"
  shows "\<exists>ws'. fast_chain ps d ws (st\<lparr>wire := W\<rparr>) = Some (commSuccess, ws @ ws', (fold (\<lambda>p s. fast_put_st p d s) ps st)\<lparr>wire := W\<rparr>) \<and>
    wire (fold (\<lambda>p s. fast_put_st p d s) ps st) = wire st @ map (\<lambda>(t, w). (DataQp 0, t, w)) ws'"
  using assms
proof (induction ps arbitrary: st ws)
  case Nil
  then show ?case by simp
next
  case (Cons p ps)
  let ?s = "st\<lparr>wire := W\<rparr>" let ?st1 = "fast_put_st p d st"
  obtain ks where ks: "p_keys p = Some ks" "keys_ok ?s (p_keys p) (p_rkeys p)"
    using Cons.prems(1) unfolding fast_put_ok_def keys_ok_def by auto
  have d: "d < nat (devs ?s)" using Cons.prems(2) by simp
  have n: "nextId (puts ?s) = nextId (puts st)" by simp
  have ok: "\<forall>p \<in> set ps. fast_put_ok ?st1 p" "d < nat (devs ?st1)"
    using Cons.prems by (auto simp: fast_put_ok_def keys_ok_def fast_put_st_fields split: option.splits)
  obtain ws' where I: "fast_chain ps d (ws @ [(FastOp Put (nextId (puts st)), fast_put_wr p d st)]) (?st1\<lparr>wire := W\<rparr>) =
      Some (commSuccess, (ws @ [(FastOp Put (nextId (puts st)), fast_put_wr p d st)]) @ ws',
        (fold (\<lambda>p s. fast_put_st p d s) ps ?st1)\<lparr>wire := W\<rparr>)"
    "wire (fold (\<lambda>p s. fast_put_st p d s) ps ?st1) = wire ?st1 @ map (\<lambda>(t, w). (DataQp 0, t, w)) ws'"
    using Cons.IH [OF ok] by blast
  have "take_id Put ?s = (nextId (puts st), snd (take_id Put ?s))" by (simp add: take_id_def)
  then obtain st0 where t: "take_id Put ?s = (nextId (puts st), st0)" "st0 = snd (take_id Put ?s)" by blast
  have p: "processFastWriteWqe (nextId (puts st)) p d st0 = Some (commSuccess, Some (fast_put_wr p d st), ?st1\<lparr>wire := W\<rparr>)"
    using process_fast [OF ks d] unfolding t(2) n by (simp add: fast_put_st_wire)
  have "fast_chain (p # ps) d ws ?s =
      fast_chain ps d (ws @ [(FastOp Put (nextId (puts st)), fast_put_wr p d st)]) (?st1\<lparr>wire := W\<rparr>)"
    by (simp add: t(1) p)
  then show ?case using I fast_put_st_fields(12) [of p d st]
    by (intro exI [of _ "(FastOp Put (nextId (puts st)), fast_put_wr p d st) # ws'"]) simp
qed

lemma post_chain_acc: "post_chain acc q ws st = (commSuccess, st\<lparr>wire := wire st @ map (\<lambda>(t, w). (q, t, w)) ws\<rparr>)"
  by (induction ws arbitrary: st) (auto simp: post_acc)

lemma fast_puts_good:
  assumes "good st c" "outst (puts st) = []" "pend (puts st) = []" "length (fast (puts st)) + length ps \<le> nat (maxQpMsgs st)"
    "reqs_free st (map p_req ps)"
  shows "good (fold (\<lambda>p s. fast_put_st p d s) ps st) c"
  using assms
proof (induction ps arbitrary: st)
  case (Cons p ps)
  have r: "reqs_free st [p_req p]" "reqs_free (fast_put_st p d st) (map p_req ps)"
    using reqs_free_cons [of st "p_req p" "map p_req ps"] Cons.prems(5) unfolding fast_put_st_def by simp_all
  have "good (fast_put_st p d st) c"
    unfolding fast_put_st_def by (rule fast_good [OF Cons.prems(1) _ _ _ r(1)]) (use Cons.prems in simp_all)
  from Cons.IH [OF this _ _ _ r(2)] show ?case using Cons.prems by (simp add: fast_put_st_fields)
qed simp

lemma fast_puts_fields:
  "gets (fold (\<lambda>p s. fast_put_st p d s) ps st) = gets st" "wqes (fold (\<lambda>p s. fast_put_st p d s) ps st) = wqes st"
  "pend (puts (fold (\<lambda>p s. fast_put_st p d s) ps st)) = pend (puts st)"
  "length (fast (puts (fold (\<lambda>p s. fast_put_st p d s) ps st))) = length (fast (puts st)) + length ps"
  by (induction ps arbitrary: st) (simp_all add: fast_put_st_fields)

text \<open>A batch on the fast path.\<close>

lemma batch_eq:
  assumes "cfg_ok st" "ps \<noteq> []" "list_all (\<lambda>p. isFastPutValid (p_config p) (p_len p) (length ps) st) ps" "\<forall>p \<in> set ps. fast_put_ok st p"
    "getIbDevFromQpIdx 0 st = Some d" "d < nat (devs st)"
  shows "iputBatchImpl acc ps st = Some (commSuccess, fold (\<lambda>p s. fast_put_st p d s) ps st)"
proof -
  obtain ws where w: "fast_chain ps d [] (st\<lparr>wire := wire st\<rparr>) = Some (commSuccess, [] @ ws, (fold (\<lambda>p s. fast_put_st p d s) ps st)\<lparr>wire := wire st\<rparr>)"
    "wire (fold (\<lambda>p s. fast_put_st p d s) ps st) = wire st @ map (\<lambda>(t, w). (DataQp 0, t, w)) ws"
    using fast_chain_eq [OF assms(4,6), of "[]" "wire st"] by blast
  have "post_chain acc (DataQp 0) ws ((fold (\<lambda>p s. fast_put_st p d s) ps st)\<lparr>wire := wire st\<rparr>) =
      (commSuccess, fold (\<lambda>p s. fast_put_st p d s) ps st)"
    unfolding post_chain_acc using w(2) by simp
  then show ?thesis using assms(2,3,5) w(1) by (simp add: iputBatchImpl_def)
qed

definition iput_fast_each :: "put_msg list \<Rightarrow> vc \<Rightarrow> res" where
  "iput_fast_each ps st = fold (\<lambda>p m. vthen m (iputImpl acc p True)) ps (Some (commSuccess, st))"

lemma iput_fast_eq:
  assumes "fast_put_ok st p" "isFastPutValid (p_config p) (p_len p) 1 st" "getIbDevFromQpIdx 0 st = Some d" "d < nat (devs st)"
  shows "iputImpl acc p True st = Some (commSuccess, fast_put_st p d st)"
proof -
  obtain ks where ks: "p_keys p = Some ks" "keys_ok st (p_keys p) (p_rkeys p)" using assms(1) unfolding fast_put_ok_def by blast
  define st0 where "st0 = snd (take_id Put st)"
  have ti: "take_id Put st = (nextId (puts st), st0)" by (simp add: st0_def take_id_def)
  have d0: "getIbDevFromQpIdx 0 st0 = Some d" using assms(3) by (simp add: getIbDevFromQpIdx_def st0_def take_id_def)
  have v: "isFastPutValid (p_config p) (p_len p) 1 st0"
  proof -
    have f: "outst (puts st0) = outst (puts st)" "pend (puts st0) = pend (puts st)" "fast (puts st0) = fast (puts st)"
      "maxQpMsgs st0 = maxQpMsgs st" "mtu st0 = mtu st" "maxMsgSize st0 = maxMsgSize st" "scalingTh st0 = scalingTh st"
      by (simp_all add: st0_def take_id_def upd_io_def)
    show ?thesis using assms(2) unfolding isFastPutValid_def clamp_def getOpScalingTh_def f .
  qed
  obtain lk rk where ok: "op_keys ks (p_rkeys p) st = Some (lk, rk)" using ks by (simp add: op_keys_def keys_ok_def Let_def)
  have po: "post acc (DataQp 0) (FastOp Put (nextId (puts st))) (fast_put_wr p d st) ((fast_put_st p d st)\<lparr>wire := wire st\<rparr>) =
      (commSuccess, fast_put_st p d st)"
    unfolding post_acc using fast_put_st_fields(12) [of p d st] by simp
  show ?thesis
    unfolding iputImpl_def ks(1) option.case ok ti prod.case if_True d0 process_fast [OF ks assms(4), folded st0_def] po using v by simp
qed

lemma isFastPutValid_next:
  assumes "isFastPutValid cf n (Suc m) st"
  shows "isFastPutValid cf n m (fast_put_st p d st)"
  using assms by (simp add: isFastPutValid_def fast_put_st_fields getOpScalingTh_def clamp_def Let_def split: if_splits option.splits)

lemma isFastPutValid_one: "isFastPutValid cf n (Suc m) st \<Longrightarrow> isFastPutValid cf n 1 st"
  by (simp add: isFastPutValid_def Let_def split: if_splits)

lemma fast_each_eq:
  assumes "list_all (\<lambda>p. isFastPutValid (p_config p) (p_len p) (length ps) st) ps" "\<forall>p \<in> set ps. fast_put_ok st p"
    "getIbDevFromQpIdx 0 st = Some d" "d < nat (devs st)"
  shows "iput_fast_each ps st = Some (commSuccess, fold (\<lambda>p s. fast_put_st p d s) ps st)"
  using assms
proof (induction ps arbitrary: st)
  case Nil
  then show ?case by (simp add: iput_fast_each_def)
next
  case (Cons p ps)
  let ?s = "fast_put_st p d st"
  have v: "isFastPutValid (p_config p) (p_len p) (Suc (length ps)) st" using Cons.prems(1) by simp
  have p: "iputImpl acc p True st = Some (commSuccess, ?s)"
    by (rule iput_fast_eq [OF _ isFastPutValid_one [OF v] Cons.prems(3,4)]) (use Cons.prems(2) in simp)
  have "list_all (\<lambda>p. isFastPutValid (p_config p) (p_len p) (length ps) ?s) ps"
    using Cons.prems(1) by (auto simp: list_all_iff intro: isFastPutValid_next)
  moreover have "\<forall>p \<in> set ps. fast_put_ok ?s p"
    using Cons.prems(2) by (auto simp: fast_put_ok_def keys_ok_def fast_put_st_fields split: option.splits)
  moreover have "getIbDevFromQpIdx 0 ?s = Some d" using Cons.prems(3) by (simp add: getIbDevFromQpIdx_def fast_put_st_fields)
  moreover have "d < nat (devs ?s)" using Cons.prems(4) by (simp add: fast_put_st_fields)
  ultimately have "iput_fast_each ps ?s = Some (commSuccess, fold (\<lambda>p s. fast_put_st p d s) ps ?s)" by (rule Cons.IH)
  then show ?case using p by (simp add: iput_fast_each_def vthen_def)
qed

text \<open>Without the fast path, one put after another.\<close>

lemma moves_held: "moves k st st' \<Longrightarrow> held st' = held st"
  by (induction rule: moves.induct) (simp_all add: held_piece, simp add: held_def ops_def)

lemma reqs_free_new:
  assumes "reqs_free st (o_req p # rs)" "moves k (new_op k p st) st'"
  shows "reqs_free st' rs"
proof -
  let ?st = "new_op k p st"
  have "fast (io_of k' ?st) = fast (io_of k' st)" for k' by (simp add: new_op_def)
  from this [of Put] this [of Get] have g: "fast (puts ?st) = fast (puts st)" "fast (gets ?st) = fast (gets st)" by simp_all
  have o: "ops k' ?st = (if k' = k then ops k st @ [p] else ops k' st)" for k' by (simp add: ops_def new_op_def)
  have n: "pendN ?st = pendN st" "outN ?st = outN st" "atomics ?st = atomics st" by (simp_all add: new_op_def)
  have h: "count_list (held st') (Some i) + count_list rs (Some i) = count_list (held st) (Some i) + count_list (o_req p # rs) (Some i)" for i
    unfolding moves_held [OF assms(2)] unfolding held_def o g n by (cases k) simp_all
  have "reqs st' = reqs st" using moves_fixed [OF assms(2)] by (simp add: new_op_def)
  then show ?thesis using assms(1) unfolding reqs_free_def h by simp
qed

definition put_ok :: "vc \<Rightarrow> put_msg \<Rightarrow> bool" where
  "put_ok st p \<longleftrightarrow> keys_ok st (p_keys p) (p_rkeys p) \<and> config_ok (p_config p)"

section \<open>Notifications, atomics, receives\<close>

lemma good_same:
  assumes g: "good st c" and e: "\<And>k. io_of k st' = io_of k st" "wqes st' = wqes st" "wire st' = wire st" "rr st' = rr st"
    "maxNumQps st' = maxNumQps st" "devs st' = devs st" "maxQpMsgs st' = maxQpMsgs st" "outN st' = outN st" "pendN st' = pendN st"
    "atomics st' = atomics st" and r: "inv_reqs st'"
  shows "good st' c"
proof (intro goodI invI)
  note V = invD [OF goodD(1) [OF g]]
  have o: "ops k st' = ops k st" "cnt k i st' = cnt k i st" for k i by (simp_all add: ops_def cnt_def e)
  show "cfg_ok st'" using V(1) by (simp add: cfg_ok_def e)
  show "inv_ops k st'" for k using V(2) [of k] unfolding inv_ops_def o e op_good_def .
  show "inv_data st' c" "inv_fast st' c" "inv_notify st' c" "inv_atomic st' c" "c q \<le> length (posts st' q)" for q
    using inv_wire_fields [of st' st c] V e by simp_all
  show "inv_reqs st'" by (rule r)
  show "bound st'" using goodD(2) [OF g] unfolding bound_def e .
  show "tidy st'" using goodD(3) [OF g] unfolding tidy_def e .
qed

lemma held_same:
  assumes "\<And>k. io_of k st' = io_of k st" "outN st' = outN st" "pendN st' = pendN st" "atomics st' = atomics st"
  shows "held st' = held st"
proof -
  have "puts st' = puts st" "gets st' = gets st" using assms(1) [of Put] assms(1) [of Get] by simp_all
  then show ?thesis using assms by (simp add: held_def ops_def)
qed

lemma recv_good:
  assumes "good st c"
  shows "good (st\<lparr>rcvd := m, rcvNxt := n, notifyCount := k\<rparr>) c"
proof (rule good_same [OF assms])
  let ?s = "st\<lparr>rcvd := m, rcvNxt := n, notifyCount := k\<rparr>"
  have "held ?s = held st" by (rule held_same) simp_all
  then show "inv_reqs ?s" using invD(7) [OF goodD(1) [OF assms]] by (simp add: inv_reqs_def)
qed simp_all

lemma writeImmRcvd_good:
  assumes "good st c" "writeImmRcvd q imm st = Some st'"
  shows "good st' c \<and> (\<forall>k. io_of k st' = io_of k st) \<and> wqes st' = wqes st"
proof -
  have "\<exists>m n k. st' = st\<lparr>rcvd := m, rcvNxt := n, notifyCount := k\<rparr>"
  proof (cases q)
    case (DataQp i)
    obtain m n k where "consume (rcvd (if imm AND push_bit kFastPutBit 1 \<noteq> 0 then st\<lparr>rcvNxt := (rcvNxt st + 1) AND kSeqNumMask,
        notifyCount := notifyCount st + (if imm AND push_bit kNotifyBit 1 \<noteq> 0 then 1 else 0)\<rparr>
        else st\<lparr>rcvd := AList.update (imm AND kSeqNumMask) (imm AND push_bit kNotifyBit 1 \<noteq> 0) (rcvd st)\<rparr>))
       (rcvNxt (if imm AND push_bit kFastPutBit 1 \<noteq> 0 then st\<lparr>rcvNxt := (rcvNxt st + 1) AND kSeqNumMask,
        notifyCount := notifyCount st + (if imm AND push_bit kNotifyBit 1 \<noteq> 0 then 1 else 0)\<rparr>
        else st\<lparr>rcvd := AList.update (imm AND kSeqNumMask) (imm AND push_bit kNotifyBit 1 \<noteq> 0) (rcvd st)\<rparr>))
       (notifyCount (if imm AND push_bit kFastPutBit 1 \<noteq> 0 then st\<lparr>rcvNxt := (rcvNxt st + 1) AND kSeqNumMask,
        notifyCount := notifyCount st + (if imm AND push_bit kNotifyBit 1 \<noteq> 0 then 1 else 0)\<rparr>
        else st\<lparr>rcvd := AList.update (imm AND kSeqNumMask) (imm AND push_bit kNotifyBit 1 \<noteq> 0) (rcvd st)\<rparr>)) = (m, n, k)"
      by (rule prod_cases3)
    then have "st' = st\<lparr>rcvd := m, rcvNxt := n, notifyCount := k\<rparr>" using assms(2) DataQp
      by (simp add: writeImmRcvd_def Let_def split: if_splits)
    then show ?thesis by blast
  next
    case NotifyQp
    then have "st' = st\<lparr>rcvd := rcvd st, rcvNxt := rcvNxt st, notifyCount := notifyCount st + 1\<rparr>"
      using assms(2) by (simp add: writeImmRcvd_def)
    then show ?thesis by blast
  next
    case AtomicQp
    then show ?thesis using assms(2) by (simp add: writeImmRcvd_def)
  qed
  then obtain m n k where "st' = st\<lparr>rcvd := m, rcvNxt := n, notifyCount := k\<rparr>" by blast
  then show ?thesis using recv_good [OF assms(1)] by simp
qed

lemma checkNotify_good:
  assumes "good st c" "checkNotify st = Some (b, st')"
  shows "good st' c \<and> (\<forall>k. io_of k st' = io_of k st) \<and> wqes st' = wqes st"
proof -
  have e: "st' = st\<lparr>rcvd := rcvd st, rcvNxt := rcvNxt st, notifyCount := notifyCount st'\<rparr>"
    using assms(2) by (auto simp: checkNotify_def split: if_splits)
  show ?thesis by (subst (1 2 3) e) (use recv_good [OF assms(1), of "notifyCount st'" "rcvNxt st" "rcvd st"] in simp)
qed

lemma notify_good:
  assumes "good st c" "reqs_free st [r]"
  shows "good (snd (notify acc r i st)) c"
proof -
  note N = notify_ok [OF goodD(1) [OF assms(1)] assms(2), of i]
  have "bound (snd (notify acc r i st))" using goodD(2) [OF assms(1)] N unfolding bound_def by simp
  moreover have "tidy (snd (notify acc r i st))" using goodD(3) [OF assms(1)] N unfolding tidy_def by simp
  ultimately show ?thesis using N by (intro goodI) simp_all
qed

text \<open>An atomic operation that is posted.\<close>

lemma atomic_post_good:
  assumes g: "good st c" and r: "reqs_free st [r]"
  shows "good (st\<lparr>atomics := atomics st @ [r], wire := wire st @ [(AtomicQp, AtomicMsg, w)]\<rparr>) c"
proof (intro goodI invI)
  let ?s = "st\<lparr>atomics := atomics st @ [r], wire := wire st @ [(AtomicQp, AtomicMsg, w)]\<rparr>"
  note V = invD [OF goodD(1) [OF g]]
  have fl: "inflight ?s c q = (if q = AtomicQp then inflight st c q @ [(AtomicMsg, w)] else inflight st c q)" for q
    using inflight_append [of ?s st AtomicQp AtomicMsg w c q] V(8) [of AtomicQp] by simp
  have o: "ops k ?s = ops k st" "cnt k i ?s = cnt k i st" "io_of k ?s = io_of k st" for k i by (simp_all add: ops_def cnt_def)
  show "cfg_ok ?s" using V(1) by (simp add: cfg_ok_def)
  show "inv_ops k ?s" for k using V(2) [of k] unfolding inv_ops_def o by (simp add: op_good_def)
  show "inv_data ?s c" "inv_fast ?s c" "inv_notify ?s c" "inv_atomic ?s c"
    using V(3-6) by (simp_all add: inv_data_def inv_fast_def inv_notify_def inv_atomic_def fl)
  show "inv_reqs ?s" by (rule inv_reqs_add [OF r]) (simp_all add: held_def ops_def)
  have "length (posts st q) \<le> length (posts ?s q)" for q using posts_append [of ?s st AtomicQp AtomicMsg w q] by simp
  then show "c q \<le> length (posts ?s q)" for q using V(8) le_trans by blast
  show "bound ?s" using goodD(2) [OF g] by (simp add: bound_def)
  show "tidy ?s" using goodD(3) [OF g] by (simp add: tidy_def)
qed

lemma atomic_complete_good:
  assumes g: "good st c" and h: "inflight st c AtomicQp = (t, w) # xs"
  shows "fst (atomicComplete st) = commSuccess \<and> good (snd (atomicComplete st)) (next_c c AtomicQp) \<and>
    (\<forall>k. io_of k (snd (atomicComplete st)) = io_of k st) \<and> wqes (snd (atomicComplete st)) = wqes st"
proof -
  note V = invD [OF goodD(1) [OF g]]
  obtain r rs where a: "atomics st = r # rs" "length rs = length xs"
    using V(6) h unfolding inv_atomic_def by (cases "atomics st") auto
  let ?s = "st\<lparr>atomics := rs\<rparr>"
  have "add_mset r (mset (held ?s)) = mset (held st)" by (simp add: held_def ops_def a(1))
  then have rf: "reqs_free ?s [r]" by (rule reqs_free_release [OF V(7)]) simp
  obtain f where f: "complete_req r ?s = (commSuccess, ?s\<lparr>reqs := f\<rparr>)" "inv_reqs (?s\<lparr>reqs := f\<rparr>)" by (rule complete_reqs [OF rf])
  have c: "(snd (complete_req r st))\<lparr>atomics := rs\<rparr> = snd (complete_req r ?s)"
    by (auto simp: complete_req_def split: option.splits prod.splits)
  have e: "atomicComplete st = (commSuccess, ?s\<lparr>reqs := f\<rparr>)" unfolding atomicComplete_def a(1) list.case c f(1) by simp
  let ?t = "?s\<lparr>reqs := f\<rparr>"
  have i: "inflight ?t = inflight st" "posts ?t = posts st" by (rule inflight_same, simp) (rule posts_same, simp)
  have o: "ops k ?t = ops k st" "cnt k i ?t = cnt k i st" "io_of k ?t = io_of k st" for k i by (simp_all add: ops_def cnt_def)
  have "good ?t (next_c c AtomicQp)"
  proof (intro goodI invI)
    show "cfg_ok ?t" using V(1) by (simp add: cfg_ok_def)
    show "inv_ops k ?t" for k using V(2) [of k] unfolding inv_ops_def o by (simp add: op_good_def)
    show "inv_data ?t (next_c c AtomicQp)" using V(3) unfolding inv_data_def i inflight_next [OF h] by simp
    show "inv_fast ?t (next_c c AtomicQp)" by (rule inv_fast_next [OF V(4) h i(1)])
    show "inv_notify ?t (next_c c AtomicQp)" using V(5) unfolding inv_notify_def i inflight_next [OF h] by simp
    show "inv_atomic ?t (next_c c AtomicQp)" using a(2) unfolding inv_atomic_def i inflight_next [OF h] by simp
    show "inv_reqs ?t" by (rule f(2))
    show "next_c c AtomicQp q \<le> length (posts ?t q)" for q unfolding i by (rule next_le [OF V(8) h])
    show "bound ?t" using goodD(2) [OF g] by (simp add: bound_def)
    show "tidy ?t" using goodD(3) [OF g] by (simp add: tidy_def)
  qed
  then show ?thesis using e by simp
qed

section \<open>A new connection\<close>

lemma limitQPConfig_ok:
  assumes "0 < d"
  shows "d dvd numQps (limitQPConfig d cfg)" "numQps (limitQPConfig d cfg) \<le> HARDCODED_MAX_QPS" "qpMsgs (limitQPConfig d cfg) \<le> int MAX_SEND_WR"
proof -
  let ?n = "min (numQps cfg) HARDCODED_MAX_QPS"
  have n: "numQps (limitQPConfig d cfg) = (if ?n \<ge> 0 then ?n - ?n mod d else ?n + (- ?n) mod d)"
    by (simp add: limitQPConfig_def Let_def)
  have dv: "d dvd ?n - ?n mod d" by (rule dvd_minus_mod)
  have "d dvd (- ?n) - (- ?n) mod d" by (rule dvd_minus_mod)
  then have "d dvd - ((- ?n) - (- ?n) mod d)" by (simp only: dvd_minus_iff)
  moreover have "- ((- ?n) - (- ?n) mod d) = ?n + (- ?n) mod d" by (simp add: add.commute)
  ultimately have dv2: "d dvd ?n + (- ?n) mod d" by (simp add: add.commute)
  show "d dvd numQps (limitQPConfig d cfg)" unfolding n using dv dv2 by (simp split: if_split)
  have "0 \<le> ?n mod d" using assms by simp
  moreover have "(- ?n) mod d \<le> - ?n" if "\<not> 0 \<le> ?n"
    by (rule zmod_le_nonneg_dividend) (use that in linarith)
  moreover have "?n \<le> HARDCODED_MAX_QPS" "(0::int) \<le> HARDCODED_MAX_QPS" by (simp_all add: HARDCODED_MAX_QPS_def)
  ultimately show "numQps (limitQPConfig d cfg) \<le> HARDCODED_MAX_QPS" unfolding n by (auto split: if_split)
  show "qpMsgs (limitQPConfig d cfg) \<le> int MAX_SEND_WR" by (simp add: limitQPConfig_def Let_def)
qed

lemma setDefault_ok:
  assumes "setDefaultQPConfig cv t d cfg0 = Some cfg" "0 < d"
  shows "d dvd numQps cfg \<and> numQps cfg \<le> HARDCODED_MAX_QPS \<and> qpMsgs cfg \<le> int MAX_SEND_WR"
  using assms limitQPConfig_ok [OF assms(2)] by (auto simp: setDefaultQPConfig_def)

lemma new_io: "io_of k (vc_new d cfg pm px) = io_new"
  by (cases k) (simp_all add: io_of_def vc_new_def)

lemma new_good:
  assumes c: "setDefaultQPConfig cv t d cfg0 = Some cfg" and d: "0 < d" and n: "0 < numQps cfg" "0 < qpMsgs cfg"
  shows "good (vc_new d cfg pm px) (\<lambda>_. 0)"
proof (intro goodI invI)
  let ?s = "vc_new d cfg pm px"
  note L = setDefault_ok [OF c d]
  have p: "posts ?s q = []" for q by (simp add: posts_def vc_new_def)
  have fl: "inflight ?s (\<lambda>_. 0) q = []" for q by (simp add: inflight_def p)
  have o: "ops k ?s = []" for k by (simp add: ops_def new_io) (simp add: io_new_def)
  have w: "concat (wqes ?s) = []" by (simp add: vc_new_def)
  have wi: "wqes ?s ! i = []" if "i < length (wqes ?s)" for i using that by (simp add: vc_new_def)
  have z: "0 < length (wqes ?s)" using n by (simp add: vc_new_def)
  show "cfg_ok ?s" using L d n by (simp add: cfg_ok_def vc_new_def HARDCODED_MAX_QPS_def MAX_SEND_WR_def)
  show "inv_ops k ?s" for k unfolding inv_ops_def o w by (simp add: new_io) (simp add: io_new_def)
  show "inv_data ?s (\<lambda>_. 0)" unfolding inv_data_def fl by (simp add: wi new_io) (simp add: io_new_def)
  show "inv_fast ?s (\<lambda>_. 0)" unfolding inv_fast_def fl by simp
  show "inv_notify ?s (\<lambda>_. 0)" unfolding inv_notify_def fl by (simp add: vc_new_def)
  show "inv_atomic ?s (\<lambda>_. 0)" unfolding inv_atomic_def fl by (simp add: vc_new_def)
  have "held ?s = []" unfolding held_def o by (simp add: vc_new_def io_new_def)
  then show "inv_reqs ?s" by (simp add: inv_reqs_def vc_new_def req_new_def)
  show "0 \<le> length (posts ?s q)" for q by simp
  show "bound ?s" unfolding bound_def using wi wi [OF z] by (simp add: new_io) (simp add: io_new_def)
  show "tidy ?s" by (simp add: tidy_def new_io) (simp add: io_new_def)
qed

end
