(* ===== verification/Ib_Vc_Acct.thy ===== *)
theory Ib_Vc_Acct imports Ib_Vc_Calls begin

text \<open>
  The accounts of the requests: what a completion takes off the lists of a connection is completed exactly once. \<open>acct st st'\<close>:
  from \<open>st\<close> to \<open>st'\<close> the reference count of each request went down by as much as the number of things that wait for it, and a
  request whose count reached 0 is marked complete.
\<close>

definition waits :: "nat \<Rightarrow> vc \<Rightarrow> nat" where "waits i st = count_list (held st) (Some i)"

definition io_waits :: "nat \<Rightarrow> io_queues \<Rightarrow> nat" where
  "io_waits i io = count_list (map o_req (outst io)) (Some i) + count_list (map o_req (pend io)) (Some i) + count_list (map snd (fast io)) (Some i)"

lemma waits_split:
  "waits i st = io_waits i (puts st) + io_waits i (gets st) + count_list (map n_req (pendN st)) (Some i) +
     count_list (map n_req (outN st)) (Some i) + count_list (atomics st) (Some i)"
  by (simp add: waits_def held_def io_waits_def ops_def io_of_def)

lemma waits_upd:
  "waits i (upd_io k f st) + io_waits i (io_of k st) = waits i st + io_waits i (f (io_of k st))"
  by (cases k) (simp_all add: waits_split upd_io_def io_of_def)

definition acct :: "vc \<Rightarrow> vc \<Rightarrow> bool" where
  "acct st st' \<longleftrightarrow> (\<forall>i. refCount (reqs st' i) - int (waits i st') = refCount (reqs st i) - int (waits i st) \<and>
     refCount (reqs st' i) \<le> refCount (reqs st i) \<and> (is_complete (reqs st i) \<longrightarrow> is_complete (reqs st' i)) \<and>
     (0 < refCount (reqs st i) \<and> refCount (reqs st' i) = 0 \<longrightarrow> is_complete (reqs st' i)))"

lemma acct_refl [simp]: "acct st st" unfolding acct_def by auto

lemma acct_trans [trans]: "acct a b \<Longrightarrow> acct b c \<Longrightarrow> acct a c"
  unfolding acct_def
proof (intro allI)
  fix i
  assume a: "\<forall>i. refCount (reqs b i) - int (waits i b) = refCount (reqs a i) - int (waits i a) \<and> refCount (reqs b i) \<le> refCount (reqs a i) \<and>
      (is_complete (reqs a i) \<longrightarrow> is_complete (reqs b i)) \<and> (0 < refCount (reqs a i) \<and> refCount (reqs b i) = 0 \<longrightarrow> is_complete (reqs b i))"
    and b: "\<forall>i. refCount (reqs c i) - int (waits i c) = refCount (reqs b i) - int (waits i b) \<and> refCount (reqs c i) \<le> refCount (reqs b i) \<and>
      (is_complete (reqs b i) \<longrightarrow> is_complete (reqs c i)) \<and> (0 < refCount (reqs b i) \<and> refCount (reqs c i) = 0 \<longrightarrow> is_complete (reqs c i))"
  show "refCount (reqs c i) - int (waits i c) = refCount (reqs a i) - int (waits i a) \<and> refCount (reqs c i) \<le> refCount (reqs a i) \<and>
      (is_complete (reqs a i) \<longrightarrow> is_complete (reqs c i)) \<and> (0 < refCount (reqs a i) \<and> refCount (reqs c i) = 0 \<longrightarrow> is_complete (reqs c i))"
    using a [THEN spec, of i] b [THEN spec, of i] by (cases "refCount (reqs b i) = 0") auto
qed

lemma acct_same: "reqs st' = reqs st \<Longrightarrow> (\<And>i. waits i st' = waits i st) \<Longrightarrow> acct st st'"
  unfolding acct_def by auto

text \<open>A request is completed and what waited for it goes.\<close>

lemma acct_complete:
  assumes "complete_req r st = (res, st1)" "reqs st' = reqs st1"
    and "\<And>i. waits i st = waits i st' + count_list [r] (Some i)"
  shows "acct st st'"
proof (cases r)
  case None
  then have "st1 = st" using assms(1) by (simp add: complete_req_def)
  then show ?thesis using assms(2,3) None by (intro acct_same) simp_all
next
  case (Some j)
  have e: "reqs st' = (reqs st)(j := snd (req_complete (reqs st j)))"
    using assms(1,2) Some by (auto simp: complete_req_def split: prod.splits)
  have c: "count_list [r] (Some i) = (if i = j then 1 else 0)" for i using Some by auto
  show ?thesis unfolding acct_def e using assms(3) unfolding c by (auto simp: req_complete_def Let_def)
qed

lemma complete_req_fields:
  assumes "complete_req r st = (res, st1)"
  shows "io_of k st1 = io_of k st" "pendN st1 = pendN st" "outN st1 = outN st" "atomics st1 = atomics st" "waits i st1 = waits i st"
    "puts st1 = puts st" "gets st1 = gets st"
  using assms by (auto simp: complete_req_def io_of_def waits_split split: option.splits op_kind.splits prod.splits)

section \<open>Posting\<close>

lemma waits_wire [simp]: "waits i (st\<lparr>wire := w\<rparr>) = waits i st" by (simp add: waits_split)

lemma queue_op_acct: "queue_op acc k q st = Some (r, st') \<Longrightarrow> acct st st'"
proof (cases "pend (io_of k st)")
  case Nil
  moreover assume "queue_op acc k q st = Some (r, st')"
  ultimately show ?thesis by (simp add: queue_op_def)
next
  case (Cons p ps)
  assume a: "queue_op acc k q st = Some (r, st')"
  show ?thesis
  proof (rule acct_same)
    show "reqs st' = reqs st"
      using a Cons by (auto simp: queue_op_def post_acc Let_def upd_io_def split: option.splits if_splits prod.splits op_kind.splits)
    show "waits i st' = waits i st" for i
      using a Cons by (cases k; auto simp: queue_op_def post_acc Let_def upd_io_def io_of_def waits_split io_waits_def split: option.splits if_splits prod.splits)
  qed
qed

lemma tryPost_acct: "acct st (snd (tryPostImmNotifyMsg acc st))"
  by (rule acct_same) (simp_all add: tryPostImmNotifyMsg_def post_acc waits_split split: list.splits)

lemma tryPost_reqs: "reqs (snd (tryPostImmNotifyMsg acc st)) = reqs st" "waits i (snd (tryPostImmNotifyMsg acc st)) = waits i st"
  by (simp_all add: tryPostImmNotifyMsg_def post_acc waits_split split: list.splits)

lemma notify_reqs: "reqs (snd (notify acc r j st)) = reqs st" "waits i (snd (notify acc r j st)) = waits i st + count_list [r] (Some i)"
  by (simp_all add: notify_def tryPost_reqs) (simp add: waits_split)

section \<open>Completions\<close>

lemma burn_acct: "outst (io_of k st) = ps \<Longrightarrow> burn_loop acc k ps st = (commSuccess, st') \<Longrightarrow> acct st st'"
proof (induction ps arbitrary: st)
  case (Cons p ps)
  define m where "m = (if k = Put \<and> o_mode p = spray \<and> o_notify p then notify acc (o_req p) (Some (o_id p)) st else complete_req (o_req p) st)"
  let ?d = "upd_io k (\<lambda>io. io\<lparr>outst := ps\<rparr>)"
  show ?case
  proof (cases "o_outstanding p > 0 \<or> o_offset p < o_len p")
    case True
    then show ?thesis using Cons.prems by simp
  next
    case False
    then have m: "fst m = commSuccess" "burn_loop acc k ps (?d (snd m)) = (commSuccess, st')"
      using Cons.prems(2) by (auto simp: m_def split: prod.splits if_splits)
    have w: "waits i (?d s) + count_list [o_req p] (Some i) = waits i s" if "io_of k s = io_of k st" for s i
      using waits_upd [of i k "\<lambda>io. io\<lparr>outst := ps\<rparr>" s] Cons.prems(1) that by (simp add: io_waits_def split: if_splits)
    have "acct st (?d (snd m))"
    proof (cases "k = Put \<and> o_mode p = spray \<and> o_notify p")
      case True
      then have e: "m = notify acc (o_req p) (Some (o_id p)) st" by (simp add: m_def)
      have io: "io_of k (snd m) = io_of k st" unfolding e by (simp add: notify_def tryPost_fields)
      show ?thesis
        by (rule acct_same) (use w [OF io] in \<open>simp_all add: e notify_reqs split: if_splits\<close>)
    next
      case False
      then have e: "complete_req (o_req p) st = (fst m, snd m)" by (auto simp: m_def)
      note F = complete_req_fields [OF e]
      show ?thesis by (rule acct_complete [OF e]) (use w [OF F(1)] F(5) in simp_all)
    qed
    also have "acct (?d (snd m)) st'" by (rule Cons.IH [OF _ m(2)]) simp
    finally show ?thesis .
  qed
qed simp

lemma burnDown_acct: "burnDown acc k st = (commSuccess, st') \<Longrightarrow> acct st st'"
  unfolding burnDown_def by (auto split: if_splits intro: burn_acct [OF refl])

lemma data_acct:
  assumes "data_complete acc k q wr st = Some (commSuccess, st')"
  shows "acct st st'"
proof (cases "q = 0 \<and> fast (io_of k st) \<noteq> []")
  case True
  then obtain x xs where f: "fast (io_of k st) = x # xs" by (cases "fast (io_of k st)") auto
  obtain r st1 where c: "complete_req (snd x) st = (r, st1)" by fastforce
  note F = complete_req_fields [OF c]
  let ?s = "upd_io k (\<lambda>io. io\<lparr>fast := tl (fast io)\<rparr>) st1"
  define b where "b = (if fast (io_of k ?s) = [] then burnDown acc k ?s else (commSuccess, ?s))"
  have "r = commSuccess" "vthen (Some b) (queue_op acc k q) = Some (commSuccess, st')"
    using assms True f c by (auto simp: data_complete_def b_def Let_def split: if_splits)
  then obtain s where s: "b = (commSuccess, s)" "queue_op acc k q s = Some (commSuccess, st')"
    by (cases b) (auto simp: vthen_def split: if_splits)
  have "waits i ?s + count_list [snd x] (Some i) = waits i st" for i
    using waits_upd [of i k "\<lambda>io. io\<lparr>fast := tl (fast io)\<rparr>" st1] F(1) [of k] F(5) [of i] f by (simp add: io_waits_def split: if_splits)
  then have "acct st ?s" by (intro acct_complete [OF c]) simp_all
  also have "acct ?s s" using s(1) burnDown_acct [of k ?s] by (auto simp: b_def split: if_splits)
  also have "acct s st'" by (rule queue_op_acct [OF s(2)])
  finally show ?thesis .
next
  case False
  let ?st = "\<lambda>x xs. upd_io k (\<lambda>io. io\<lparr>outst := dec_op (q_op x) (outst io), pend := dec_op (q_op x) (pend io)\<rparr>) (st\<lparr>wqes := (wqes st)[q := xs]\<rparr>)"
  obtain x xs where x: "wqes st ! q = x # xs"
    using assms False by (cases "wqes st ! q") (simp_all add: data_complete_def split: if_splits)
  have "vthen (Some (burnDown acc k (?st x xs))) (queue_op acc k q) = Some (commSuccess, st')"
    using assms False unfolding data_complete_def by (simp only: if_False x list.case Let_def) (simp split: if_splits option.splits)
  then obtain s where s: "burnDown acc k (?st x xs) = (commSuccess, s)" "queue_op acc k q s = Some (commSuccess, st')"
    by (cases "burnDown acc k (?st x xs)") (auto simp: vthen_def split: if_splits)
  have d: "map o_req (dec_op j ps) = map o_req ps" for j ps by (simp add: dec_op_def)
  have "acct st (?st x xs)"
    by (rule acct_same; cases k) (simp_all add: upd_io_def waits_split io_waits_def d)
  also have "acct (?st x xs) s" by (rule burnDown_acct [OF s(1)])
  also have "acct s st'" by (rule queue_op_acct [OF s(2)])
  finally show ?thesis .
qed

lemma notify_complete_acct:
  assumes "notify_complete acc wr st = Some (commSuccess, st')"
  shows "acct st st'"
proof (cases "outN st")
  case Nil
  then show ?thesis using assms by (simp add: notify_complete_def)
next
  case (Cons n ns)
  obtain r s where c: "complete_req (n_req n) (st\<lparr>outN := ns\<rparr>) = (r, s)" by fastforce
  have e: "tryPostImmNotifyMsg acc s = (commSuccess, st')"
    using assms Cons c by (auto simp: notify_complete_def vthen_def split: if_splits)
  note F = complete_req_fields [OF c]
  have c': "complete_req (n_req n) st = (r, s\<lparr>outN := outN st\<rparr>)"
    using c by (auto simp: complete_req_def split: option.splits prod.splits)
  have "waits i st = waits i s + count_list [n_req n] (Some i)" for i
    unfolding F(5) by (simp add: waits_split Cons)
  then have "acct st s" by (intro acct_complete [OF c']) simp_all
  also have "acct s st'" using tryPost_acct [of s] e by simp
  finally show ?thesis .
qed

lemma atomic_acct:
  assumes "atomicComplete st = (commSuccess, st')"
  shows "acct st st'"
proof (cases "atomics st")
  case Nil
  then show ?thesis using assms by (simp add: atomicComplete_def)
next
  case (Cons r rs)
  obtain x s where c: "complete_req r st = (x, s)" by fastforce
  then have e: "st' = s\<lparr>atomics := rs\<rparr>" using assms Cons by (simp add: atomicComplete_def)
  note F = complete_req_fields [OF c]
  have "waits i st = waits i st' + count_list [r] (Some i)" for i
    unfolding e using F by (simp add: waits_split Cons)
  then show ?thesis by (intro acct_complete [OF c]) (simp_all add: e)
qed

lemma completion_acct:
  assumes "processDataCqe acc refill wc q imm wr st = Some (commSuccess, st')"
  shows "acct st st'"
proof (cases wc)
  case WC_RECV_RDMA_WITH_IMM
  then have w: "writeImmRcvd q imm st = Some st'" using assms by (auto simp: processDataCqe_def split: if_splits)
  show ?thesis
    by (rule acct_same) (use w in \<open>auto simp: writeImmRcvd_def waits_split Let_def split: queue.splits if_splits prod.splits\<close>)
qed (use assms data_acct notify_complete_acct atomic_acct in
    \<open>auto simp: processDataCqe_def writeComplete_def readComplete_def split: if_splits queue.splits\<close>)

end
