(* ===== verification/Ib_Vc_Run.thy ===== *)
theory Ib_Vc_Run imports Ib_Vc_Acct begin

text \<open>
  Runs of a virtual connection: the calls of its users and the completions of the driver, in any order, with the completions
  of each queue pair in the order of its posts. No run aborts; the properties of the connection follow from the invariant.
\<close>

section \<open>What is on the wire\<close>

definition tag_ok :: "nat \<Rightarrow> queue \<Rightarrow> post_tag \<Rightarrow> bool" where
  "tag_ok n q t = (case q of
     DataQp i \<Rightarrow> i < n \<and> (case t of FastOp k j \<Rightarrow> True | Piece k j \<Rightarrow> True | _ \<Rightarrow> False)
   | NotifyQp \<Rightarrow> t = NotifyMsg | AtomicQp \<Rightarrow> t = AtomicMsg)"

definition wire_ok :: "vc \<Rightarrow> bool" where
  "wire_ok st \<longleftrightarrow> (\<forall>(q, t, w) \<in> set (wire st). tag_ok (length (wqes st)) q t)"

text \<open>The pieces of an operation, and the part of the message they cover, from the front.\<close>

definition pieces :: "op_kind \<Rightarrow> nat \<Rightarrow> vc \<Rightarrow> work_req list" where
  "pieces k j st = map (\<lambda>(q, t, w). w) (filter (\<lambda>(q, t, w). t = Piece k j) (wire st))"

fun spans :: "u64 \<Rightarrow> u64 \<Rightarrow> nat \<Rightarrow> work_req list \<Rightarrow> nat option" where
  "spans l r n [] = Some n"
| "spans l r n (w # ws) =
     (if w_local w = l + of_nat n \<and> w_remote w = r + of_nat n then spans l r (n + w_length w) ws else None)"

lemma spans_snoc:
  "spans l r n ws = Some m \<Longrightarrow> w_local w = l + of_nat m \<Longrightarrow> w_remote w = r + of_nat m \<Longrightarrow> spans l r n (ws @ [w]) = Some (m + w_length w)"
  by (induction ws arbitrary: n) (auto split: if_splits)

text \<open>The local and the remote address of an operation.\<close>

definition l_addr :: "op_kind \<Rightarrow> op_info \<Rightarrow> u64" where "l_addr k p = (case k of Put \<Rightarrow> o_sbuf p | Get \<Rightarrow> o_dbuf p)"
definition r_addr :: "op_kind \<Rightarrow> op_info \<Rightarrow> u64" where "r_addr k p = (case k of Put \<Rightarrow> o_dbuf p | Get \<Rightarrow> o_sbuf p)"

definition tiled :: "vc \<Rightarrow> bool" where
  "tiled st \<longleftrightarrow> (\<forall>k. distinct (map o_id (ops k st)) \<and> (\<forall>p \<in> set (ops k st). o_id p < nextId (io_of k st) \<and>
       spans (l_addr k p) (r_addr k p) 0 (pieces k (o_id p) st) = Some (o_offset p)) \<and>
     (\<forall>j \<ge> nextId (io_of k st). pieces k j st = []))"

text \<open>The immediate values of the data queue pairs are numbered; a fast put takes a number, but does not carry it.\<close>

definition imms :: "vc \<Rightarrow> (post_tag \<times> work_req) list" where
  "imms st = map snd (filter (\<lambda>(q, t, w). q \<noteq> NotifyQp \<and> w_op w = WR_RDMA_WRITE_WITH_IMM) (wire st))"

definition imm_ok :: "nat \<Rightarrow> post_tag \<times> work_req \<Rightarrow> bool" where
  "imm_ok n x = (case x of
     (FastOp k j, w) \<Rightarrow> w_imm w AND push_bit kFastPutBit 1 \<noteq> 0
   | (t, w) \<Rightarrow> w_imm w AND push_bit kFastPutBit 1 = 0 \<and> w_imm w AND kSeqNumMask = of_nat n AND kSeqNumMask)"

definition numbered :: "vc \<Rightarrow> bool" where
  "numbered st \<longleftrightarrow> sndNxt st = of_nat (length (imms st)) AND kSeqNumMask \<and> (\<forall>n < length (imms st). imm_ok n (imms st ! n))"

definition traced :: "vc \<Rightarrow> bool" where
  "traced st \<longleftrightarrow> wire_ok st \<and> tiled st \<and> numbered st"

lemma pieces_append:
  "wire st' = wire st @ [(q, t, w)] \<Longrightarrow> pieces k j st' = pieces k j st @ (if t = Piece k j then [w] else [])"
  by (simp add: pieces_def)

lemma imms_append:
  "wire st' = wire st @ [(q, t, w)] \<Longrightarrow> imms st' = imms st @ (if q \<noteq> NotifyQp \<and> w_op w = WR_RDMA_WRITE_WITH_IMM then [(t, w)] else [])"
  by (simp add: imms_def)

lemma numbered_snoc:
  assumes "numbered st" "imms st' = imms st @ xs" "xs = [] \<and> sndNxt st' = sndNxt st \<or>
    (\<exists>x. xs = [x] \<and> imm_ok (length (imms st)) x \<and> sndNxt st' = of_nat (Suc (length (imms st))) AND kSeqNumMask)"
  shows "numbered st'"
  using assms by (auto simp: numbered_def nth_append less_Suc_eq simp del: of_nat_Suc of_nat_add)

lemma and_mask_of_nat: "(of_nat n :: u32) AND kSeqNumMask = of_nat (n mod 2 ^ 24)"
  by (simp only: mask24 take_bit_eq_mask [symmetric] take_bit_of_nat) (simp only: take_bit_eq_mod)

lemma seq_next: "((of_nat n AND kSeqNumMask) + 1) AND kSeqNumMask = (of_nat (Suc n) :: u32) AND kSeqNumMask"
proof -
  have "(of_nat (n mod 2 ^ 24) :: u32) + 1 = of_nat (Suc (n mod 2 ^ 24))" by simp
  then show ?thesis by (simp only: and_mask_of_nat mod_Suc_eq)
qed

text \<open>Changes that post nothing: operations keep their address, offset and id.\<close>

definition op_key :: "op_info \<Rightarrow> nat \<times> u64 \<times> u64 \<times> nat" where
  "op_key p = (o_id p, o_sbuf p, o_dbuf p, o_offset p)"

lemma traced_more:
  assumes t: "traced st" and w: "wire_ok st'" and n: "numbered st'" and pc: "\<And>k j. pieces k j st' = pieces k j st"
    and e: "\<And>k. nextId (io_of k st) \<le> nextId (io_of k st')" "\<And>k. distinct (map o_id (ops k st'))"
    "\<And>k. op_key ` set (ops k st') \<subseteq> op_key ` set (ops k st)"
  shows "traced st'"
proof -
  have "tiled st'" unfolding tiled_def pc
  proof (intro allI conjI ballI impI)
    fix k
    show "distinct (map o_id (ops k st'))" by (rule e(2))
    have T: "\<forall>p \<in> set (ops k st). o_id p < nextId (io_of k st) \<and> spans (l_addr k p) (r_addr k p) 0 (pieces k (o_id p) st) = Some (o_offset p)"
      "\<forall>j \<ge> nextId (io_of k st). pieces k j st = []"
      using t unfolding traced_def tiled_def by blast+
    show "pieces k j st = []" if "nextId (io_of k st') \<le> j" for j using T(2) that e(1) [of k] le_trans by blast
    fix p' assume "p' \<in> set (ops k st')"
    then obtain p where p: "p \<in> set (ops k st)" "op_key p' = op_key p" using e(3) [of k] by blast
    have "o_id p = o_id p'" "l_addr k p = l_addr k p'" "r_addr k p = r_addr k p'" "o_offset p = o_offset p'"
      using p(2) by (cases k; simp add: op_key_def l_addr_def r_addr_def)+
    then show "o_id p' < nextId (io_of k st')" "spans (l_addr k p') (r_addr k p') 0 (pieces k (o_id p') st) = Some (o_offset p')"
      using T(1) p(1) e(1) [of k] by (metis less_le_trans, metis)
  qed
  then show ?thesis using w n by (simp add: traced_def)
qed

lemma traced_same:
  assumes t: "traced st" and e: "wire st' = wire st" "length (wqes st') = length (wqes st)" "sndNxt st' = sndNxt st"
    "\<And>k. nextId (io_of k st) \<le> nextId (io_of k st')" "\<And>k. distinct (map o_id (ops k st'))"
    "\<And>k. op_key ` set (ops k st') \<subseteq> op_key ` set (ops k st)"
  shows "traced st'"
proof (rule traced_more [OF t _ _ _ e(4-6)])
  show "wire_ok st'" using t e(1,2) by (simp add: traced_def wire_ok_def)
  have "imms st' = imms st" by (simp add: imms_def e(1))
  then show "numbered st'" using t e(3) by (simp add: traced_def numbered_def)
  show "pieces k j st' = pieces k j st" for k j by (simp add: pieces_def e(1))
qed

lemma traced_io:
  assumes t: "traced st" and e: "wire st' = wire st" "length (wqes st') = length (wqes st)" "sndNxt st' = sndNxt st" "\<And>k. io_of k st' = io_of k st"
  shows "traced st'"
  by (rule traced_same [OF t e(1-3)]) (use t in \<open>simp_all add: e(4) ops_def traced_def tiled_def\<close>)

lemma imm_of_fast:
  assumes "s < 2 ^ 24"
  shows "imm_of s b AND push_bit kFastPutBit 1 = 0"
proof -
  have n: "(push_bit kFastPutBit 1 :: u32) AND kSeqNumMask = 0" by (simp add: kFastPutBit_def kSeqNumMask_def)
  have "(of_nat s :: u32) AND push_bit kFastPutBit 1 = (of_nat s AND kSeqNumMask) AND push_bit kFastPutBit 1"
    by (simp only: of_nat_and_mask [OF assms])
  also have "\<dots> = of_nat s AND (push_bit kFastPutBit 1 AND kSeqNumMask)"
    by (simp only: and.assoc and.commute [of kSeqNumMask])
  also have "\<dots> = 0" by (simp only: n and_zero_eq)
  finally have z: "(of_nat s :: u32) AND push_bit kFastPutBit 1 = 0" .
  have "(push_bit kNotifyBit 1 :: u32) AND push_bit kFastPutBit 1 = 0" by (simp add: kNotifyBit_def kFastPutBit_def)
  then show ?thesis using z by (simp add: imm_of_def bit.conj_disj_distrib2)
qed

lemma imm_piece_ok: "imm_ok n (Piece k j, w\<lparr>w_imm := imm_of (n mod 2 ^ 24) b\<rparr>)"
proof -
  have "n mod 2 ^ 24 < 2 ^ 24" by simp
  then show ?thesis using imm_of_fast [of "n mod 2 ^ 24" b] imm_seq24(1) [of "n mod 2 ^ 24" b] by (simp add: imm_ok_def and_mask_of_nat)
qed

lemma op_wr_fields:
  "w_local (fst (op_wr k p d n st)) = l_addr k p + of_nat (o_offset p)" "w_remote (fst (op_wr k p d n st)) = r_addr k p + of_nat (o_offset p)"
  "w_length (fst (op_wr k p d n st)) = n"
  by (cases k; simp add: op_wr_def put_wr_def get_wr_def l_addr_def r_addr_def Let_def)+

lemma op_wr_imm:
  assumes "sndNxt st = of_nat m AND kSeqNumMask"
  shows "(w_op (fst (op_wr k p d n st)) \<noteq> WR_RDMA_WRITE_WITH_IMM \<and> snd (op_wr k p d n st) = sndNxt st) \<or>
    (w_op (fst (op_wr k p d n st)) = WR_RDMA_WRITE_WITH_IMM \<and> imm_ok m (Piece k j, fst (op_wr k p d n st)) \<and>
     snd (op_wr k p d n st) = of_nat (Suc m) AND kSeqNumMask)"
proof (cases "k = Put \<and> \<not> (o_mode p = spray \<or> \<not> o_notify p)")
  case False
  then show ?thesis by (cases k) (auto simp: op_wr_def put_wr_def get_wr_def Let_def)
next
  case True
  have s: "sndNxt st = of_nat (m mod 2 ^ 24)" using assms by (simp only: and_mask_of_nat)
  have i: "(if n = o_len p - o_offset p then sndNxt st OR push_bit kNotifyBit 1 else sndNxt st) =
      imm_of (m mod 2 ^ 24) (n = o_len p - o_offset p)" by (simp only: imm_of_def s)
  obtain w0 where w: "fst (op_wr k p d n st) = w0\<lparr>w_imm := imm_of (m mod 2 ^ 24) (n = o_len p - o_offset p)\<rparr>"
    "w_op w0 = WR_RDMA_WRITE_WITH_IMM" "snd (op_wr k p d n st) = (sndNxt st + 1) AND kSeqNumMask"
  proof
    let ?w0 = "\<lparr>w_id = nextWrId st, w_op = WR_RDMA_WRITE_WITH_IMM, w_local = o_sbuf p + of_nat (o_offset p), w_length = n,
               w_lkey = o_lkeys p ! d, w_remote = o_dbuf p + of_nat (o_offset p), w_rkey = o_rkeys p ! d, w_imm = 0, w_val = 0\<rparr>"
    have k: "k = Put" and m: "\<not> (o_mode p = spray \<or> \<not> o_notify p)" using True by blast+
    show "fst (op_wr k p d n st) = ?w0\<lparr>w_imm := imm_of (m mod 2 ^ 24) (n = o_len p - o_offset p)\<rparr>"
      unfolding k op_wr_def op_kind.case put_wr_def Let_def if_not_P [OF m] i by simp
    show "w_op ?w0 = WR_RDMA_WRITE_WITH_IMM" by simp
    show "snd (op_wr k p d n st) = (sndNxt st + 1) AND kSeqNumMask"
      unfolding k op_wr_def op_kind.case put_wr_def Let_def if_not_P [OF m] by simp
  qed
  have "imm_ok m (Piece k j, fst (op_wr k p d n st))" unfolding w(1) by (rule imm_piece_ok)
  moreover have "snd (op_wr k p d n st) = of_nat (Suc m) AND kSeqNumMask" unfolding w(3) assms by (rule seq_next)
  moreover have "w_op (fst (op_wr k p d n st)) = WR_RDMA_WRITE_WITH_IMM" unfolding w(1) using w(2) by simp
  ultimately show ?thesis by blast
qed

lemma piece_traced:
  assumes t: "traced st" and i: "i < length (wqes st)" and p: "pend (io_of k st) = p # ps"
  shows "traced (piece_st k i d n p ps st)"
proof -
  let ?s = "piece_st k i d n p ps st" let ?w = "fst (op_wr k p d n st)"
  have W: "wire ?s = wire st @ [(DataQp i, Piece k (o_id p), ?w)]" by (rule piece_st_simps(2))
  have T: "\<And>k. distinct (map o_id (ops k st))"
    "\<And>k p. p \<in> set (ops k st) \<Longrightarrow> o_id p < nextId (io_of k st) \<and> spans (l_addr k p) (r_addr k p) 0 (pieces k (o_id p) st) = Some (o_offset p)"
    "\<And>k j. nextId (io_of k st) \<le> j \<Longrightarrow> pieces k j st = []"
    using t unfolding traced_def tiled_def by blast+
  have w: "wire_ok ?s" using t i by (auto simp: traced_def wire_ok_def W piece_st_simps(1) tag_ok_def)
  have s0: "sndNxt st = of_nat (length (imms st)) AND kSeqNumMask" and num: "numbered st" using t by (simp_all add: traced_def numbered_def)
  have im: "imms ?s = imms st @ (if w_op ?w = WR_RDMA_WRITE_WITH_IMM then [(Piece k (o_id p), ?w)] else [])"
    using imms_append [OF W] by simp
  have n: "numbered ?s"
    by (rule numbered_snoc [OF num im]) (use op_wr_imm [OF s0, of k p d n "o_id p"] in \<open>auto simp: piece_st_simps(12) simp del: of_nat_Suc\<close>)
  have pc: "pieces k' j ?s = pieces k' j st @ (if k' = k \<and> j = o_id p then [?w] else [])" for k' j
    using pieces_append [OF W, of k' j] by auto
  have nid: "nextId (io_of k' ?s) = nextId (io_of k' st)" for k' by (simp add: piece_st_simps(3) Let_def)
  let ?p2 = "p\<lparr>o_outstanding := o_outstanding p + 1, o_offset := o_offset p + n\<rparr>"
  have o: "ops k' ?s = (if k' = k then outst (io_of k st) @ ?p2 # ps else ops k' st)" "ops k st = outst (io_of k st) @ p # ps" for k'
    using ops_piece [OF p] by simp_all
  have "tiled ?s" unfolding tiled_def
  proof (intro allI conjI ballI impI)
    fix k'
    show "distinct (map o_id (ops k' ?s))" using T(1) [of k'] o by (cases "k' = k") simp_all
    show "pieces k' j ?s = []" if "nextId (io_of k' ?s) \<le> j" for j
    proof -
      have "o_id p < nextId (io_of k st)" using T(2) [of p k] o(2) by simp
      then show ?thesis using that T(3) [of k' j] unfolding pc nid by auto
    qed
    fix q assume q: "q \<in> set (ops k' ?s)"
    show "o_id q < nextId (io_of k' ?s)" "spans (l_addr k' q) (r_addr k' q) 0 (pieces k' (o_id q) ?s) = Some (o_offset q)"
    proof -
      have "o_id q < nextId (io_of k' ?s) \<and> spans (l_addr k' q) (r_addr k' q) 0 (pieces k' (o_id q) ?s) = Some (o_offset q)"
      proof (cases "k' = k \<and> q = ?p2")
        case True
        then have k: "k' = k" and qe: "q = ?p2" by blast+
        have P: "o_id p < nextId (io_of k st)" "spans (l_addr k p) (r_addr k p) 0 (pieces k (o_id p) st) = Some (o_offset p)"
          using T(2) [of p k] o(2) by simp_all
        have a: "l_addr k ?p2 = l_addr k p" "r_addr k ?p2 = r_addr k p" by (cases k; simp add: l_addr_def r_addr_def)+
        have "spans (l_addr k p) (r_addr k p) 0 (pieces k (o_id p) st @ [?w]) = Some (o_offset p + w_length ?w)"
          by (rule spans_snoc [OF P(2)]) (simp_all add: op_wr_fields)
        then show ?thesis unfolding k qe a pc nid using P(1) by (simp add: op_wr_fields(3))
      next
        case False
        have q': "q \<in> set (ops k' st)" using q False o by (cases "k' = k") auto
        have ne: "o_id q \<noteq> o_id p" if "k' = k"
        proof -
          have "q \<in> set (outst (io_of k st) @ ps)" using q False that o by auto
          moreover have "o_id p \<notin> o_id ` set (outst (io_of k st) @ ps)" using T(1) [of k] unfolding o(2) by auto
          ultimately show ?thesis by (metis image_eqI)
        qed
        have "pieces k' (o_id q) ?s = pieces k' (o_id q) st" unfolding pc using ne by auto
        then show ?thesis using T(2) [OF q'] unfolding nid by simp
      qed
      then show "o_id q < nextId (io_of k' ?s)" "spans (l_addr k' q) (r_addr k' q) 0 (pieces k' (o_id q) ?s) = Some (o_offset q)" by blast+
    qed
  qed
  then show ?thesis using w n by (simp add: traced_def)
qed

lemma distinct_ops: "traced st \<Longrightarrow> distinct (map o_id (ops k st))"
  unfolding traced_def tiled_def by blast

lemma moves_traced: "moves k st st' \<Longrightarrow> traced st \<Longrightarrow> traced st'"
proof (induction rule: moves.induct)
  case (piece st1 i p ps d m)
  then show ?case using piece_traced by blast
next
  case (turn st1 j)
  show ?case by (rule traced_io [OF turn.IH [OF turn.prems]]) simp_all
qed

lemma new_op_traced:
  assumes t: "traced st" and p: "o_id p = nextId (io_of k st)" "o_offset p = 0"
  shows "traced (new_op k p st)"
proof -
  let ?s = "new_op k p st"
  have T: "\<And>k. distinct (map o_id (ops k st))"
    "\<And>k p. p \<in> set (ops k st) \<Longrightarrow> o_id p < nextId (io_of k st) \<and> spans (l_addr k p) (r_addr k p) 0 (pieces k (o_id p) st) = Some (o_offset p)"
    "\<And>k j. nextId (io_of k st) \<le> j \<Longrightarrow> pieces k j st = []"
    using t unfolding traced_def tiled_def by blast+
  have pc: "pieces k' j ?s = pieces k' j st" for k' j by (simp add: pieces_def new_op_def)
  have o: "ops k' ?s = (if k' = k then ops k st @ [p] else ops k' st)" for k' by (simp add: ops_def new_op_def)
  have nid: "nextId (io_of k' ?s) = (if k' = k then nextId (io_of k st) + 1 else nextId (io_of k' st))" for k' by (simp add: new_op_def)
  have "tiled ?s" unfolding tiled_def pc
  proof (intro allI conjI ballI impI)
    fix k'
    have "o_id p \<notin> o_id ` set (ops k st)" using T(2) [of _ k] p(1) by fastforce
    then show "distinct (map o_id (ops k' ?s))" using T(1) [of k'] by (cases "k' = k") (auto simp: o)
    show "pieces k' j st = []" if "nextId (io_of k' ?s) \<le> j" for j using T(3) [of k' j] that by (cases "k' = k") (auto simp: nid)
    fix q assume "q \<in> set (ops k' ?s)"
    then consider "q \<in> set (ops k' st)" | "k' = k" "q = p" by (cases "k' = k") (auto simp: o)
    then have "o_id q < nextId (io_of k' ?s) \<and> spans (l_addr k' q) (r_addr k' q) 0 (pieces k' (o_id q) st) = Some (o_offset q)"
    proof cases
      case 1
      then show ?thesis using T(2) [OF 1] by (cases "k' = k") (simp_all add: nid)
    next
      case 2
      then show ?thesis using T(3) [of k "o_id p"] p by (simp add: nid)
    qed
    then show "o_id q < nextId (io_of k' ?s)" "spans (l_addr k' q) (r_addr k' q) 0 (pieces k' (o_id q) st) = Some (o_offset q)" by blast+
  qed
  moreover have "wire_ok ?s" using t by (simp add: traced_def wire_ok_def new_op_def)
  moreover have "imms ?s = imms st" by (simp add: imms_def new_op_def)
  then have "numbered ?s" using t by (simp add: traced_def numbered_def new_op_def)
  ultimately show ?thesis by (simp add: traced_def)
qed

lemma take_id_traced:
  assumes "traced st"
  shows "traced (snd (take_id k st))"
proof -
  have "ops k' (snd (take_id k st)) = ops k' st" for k' by (simp add: ops_def take_id_def)
  then show ?thesis by (intro traced_same [OF assms]) (simp_all add: distinct_ops [OF assms], simp_all add: take_id_def)
qed

lemma traced_post:
  assumes t: "traced st" and w: "wire st' = wire st @ [(q, tg, w)]" "tag_ok (length (wqes st)) q tg" "\<And>k j. tg \<noteq> Piece k j"
    and e: "length (wqes st') = length (wqes st)" "\<And>k. nextId (io_of k st) \<le> nextId (io_of k st')" "\<And>k. ops k st' = ops k st"
    and s: "if q \<noteq> NotifyQp \<and> w_op w = WR_RDMA_WRITE_WITH_IMM
       then imm_ok (length (imms st)) (tg, w) \<and> sndNxt st' = (sndNxt st + 1) AND kSeqNumMask else sndNxt st' = sndNxt st"
  shows "traced st'"
proof (rule traced_more [OF t])
  show "wire_ok st'" using t w(1,2) e(1) by (auto simp: traced_def wire_ok_def)
  have n: "numbered st" using t by (simp add: traced_def)
  then have s0: "sndNxt st = of_nat (length (imms st)) AND kSeqNumMask" by (simp add: numbered_def)
  show "numbered st'"
    by (rule numbered_snoc [OF n imms_append [OF w(1)]]) (use s in \<open>auto simp: s0 seq_next simp del: of_nat_Suc split: if_splits\<close>)
  show "pieces k j st' = pieces k j st" for k j using pieces_append [OF w(1), of k j] w(3) by simp
  show "nextId (io_of k st) \<le> nextId (io_of k st')" for k by (rule e(2))
  show "distinct (map o_id (ops k st'))" for k unfolding e(3) by (rule distinct_ops [OF t])
  show "op_key ` set (ops k st') \<subseteq> op_key ` set (ops k st)" for k unfolding e(3) by simp
qed

lemma fast_put_traced:
  assumes "traced st" "0 < length (wqes st)"
  shows "traced (fast_put_st p d st)"
proof (rule traced_post [OF assms(1) fast_put_st_fields(12)])
  show "tag_ok (length (wqes st)) (DataQp 0) (FastOp Put (nextId (puts st)))" using assms(2) by (simp add: tag_ok_def)
  have b: "(push_bit kFastPutBit 1 OR push_bit kNotifyBit 1 :: u32) AND push_bit kFastPutBit 1 \<noteq> 0"
    "(push_bit kFastPutBit 1 :: u32) AND push_bit kFastPutBit 1 \<noteq> 0" by (simp_all add: kFastPutBit_def kNotifyBit_def)
  have "w_imm (fast_put_wr p d st) AND push_bit kFastPutBit 1 \<noteq> 0" using b by (simp add: fast_put_wr_def)
  then have "imm_ok (length (imms st)) (FastOp Put (nextId (puts st)), fast_put_wr p d st)" by (simp add: imm_ok_def)
  then show "if DataQp 0 \<noteq> NotifyQp \<and> w_op (fast_put_wr p d st) = WR_RDMA_WRITE_WITH_IMM
     then imm_ok (length (imms st)) (FastOp Put (nextId (puts st)), fast_put_wr p d st) \<and>
       sndNxt (fast_put_st p d st) = (sndNxt st + 1) AND kSeqNumMask
     else sndNxt (fast_put_st p d st) = sndNxt st"
    by (simp add: fast_put_wr_def fast_put_st_def fast_st_def)
qed (simp_all add: fast_put_st_def fast_st_simps)

lemma fast_get_traced:
  assumes "traced st" "0 < length (wqes st)" "w_op w = WR_RDMA_READ"
  shows "traced (fast_st Get req w (sndNxt st) st)"
proof (rule traced_post [OF assms(1) fast_st_simps(13)])
  show "tag_ok (length (wqes st)) (DataQp 0) (FastOp Get (nextId (io_of Get st)))" using assms(2) by (simp add: tag_ok_def)
qed (use assms(3) in \<open>simp_all add: fast_st_simps\<close>, simp_all add: fast_st_def)

lemma reqs_traced: "traced st \<Longrightarrow> traced (st\<lparr>reqs := f\<rparr>)"
  by (rule traced_io) simp_all

lemma tryPost_traced:
  assumes "traced st"
  shows "traced (snd (tryPostImmNotifyMsg acc st))"
proof (cases rule: tryPost_st [of st])
  case same
  then show ?thesis using assms by simp
next
  case (posted n ns)
  let ?s = "st\<lparr>pendN := ns, outN := outN st @ [n], wire := wire st @ [(NotifyQp, NotifyMsg, notify_wr (n_wrId n))]\<rparr>"
  have "wire ?s = wire st @ [(NotifyQp, NotifyMsg, notify_wr (n_wrId n))]" by simp
  then have "traced ?s" by (rule traced_post [OF assms]) (simp_all add: tag_ok_def ops_def)
  then show ?thesis using posted(3) by simp
qed

lemma notify_traced: "traced st \<Longrightarrow> traced (snd (notify acc r i st))"
  unfolding notify_def by (rule tryPost_traced, rule traced_io) simp_all

lemma complete_req_cases: "\<exists>f. snd (complete_req r st) = st\<lparr>reqs := f\<rparr>"
proof (cases r)
  case None
  then have "snd (complete_req r st) = st\<lparr>reqs := reqs st\<rparr>" by (simp add: complete_req_def)
  then show ?thesis by blast
qed (auto simp: complete_req_def split: prod.splits)

lemma complete_req_traced: "traced st \<Longrightarrow> traced (snd (complete_req r st))"
  using complete_req_cases [of r st] reqs_traced by metis

lemma drop_traced:
  assumes "traced st" "outst (io_of k st) = p # ps"
  shows "traced (drop_op k ps st)"
proof (rule traced_same [OF assms(1)])
  fix k'
  have o: "ops k st = p # ps @ pend (io_of k st)" using assms(2) by (simp add: ops_def)
  have o': "ops k' (drop_op k ps st) = (if k' = k then ps @ pend (io_of k st) else ops k' st)" by (simp add: ops_def)
  show "distinct (map o_id (ops k' (drop_op k ps st)))"
    using distinct_ops [OF assms(1), of k'] o unfolding o' by (cases "k' = k") simp_all
  show "op_key ` set (ops k' (drop_op k ps st)) \<subseteq> op_key ` set (ops k' st)"
    using o unfolding o' by (cases "k' = k") auto
qed (use assms(1) in simp_all)

lemma io_notify: "io_of k (snd (notify acc r i st)) = io_of k st"
  by (simp add: notify_def tryPost_fields)

lemma io_complete: "io_of k (snd (complete_req r st)) = io_of k st"
  using complete_req_cases [of r st] io_of_simps(8) by metis

lemma burn_loop_traced: "traced st \<Longrightarrow> l = outst (io_of k st) \<Longrightarrow> traced (snd (burn_loop acc k l st))"
proof (induction l arbitrary: st)
  case Nil
  then show ?case by simp
next
  case (Cons p ps)
  have o: "outst (io_of k st) = p # ps" using Cons.prems(2) by simp
  define m where "m = (if k = Put \<and> o_mode p = spray \<and> o_notify p then notify acc (o_req p) (Some (o_id p)) st else complete_req (o_req p) st)"
  have t: "traced (snd m)" using notify_traced [OF Cons.prems(1)] complete_req_traced [OF Cons.prems(1)] by (simp add: m_def)
  have "io_of k (snd m) = io_of k st" unfolding m_def by (split if_split) (simp only: io_notify io_complete simp_thms)
  then have om: "outst (io_of k (snd m)) = p # ps" using o by simp
  have s: "burn_loop acc k (p # ps) st = (if o_outstanding p > 0 \<or> o_offset p < o_len p then (commSuccess, st)
      else if fst m \<noteq> commSuccess then m else burn_loop acc k ps (drop_op k ps (snd m)))"
    by (cases m) (simp add: m_def [symmetric])
  have "ps = outst (io_of k (drop_op k ps (snd m)))" by simp
  from Cons.IH [OF drop_traced [OF t om] this] show ?case unfolding s using Cons.prems(1) t by simp
qed

lemma burnDown_traced: "traced st \<Longrightarrow> traced (snd (burnDown acc k st))"
  by (simp add: burnDown_def burn_loop_traced)

lemma queue_op_traced:
  assumes "queue_op acc k i st = Some (r, st')" "inv st c" "i < length (wqes st)" "traced st"
  shows "traced st'"
proof (cases rule: queue_op_inv [OF assms(2,3), of k])
  case 1
  then show ?thesis using assms(1,4) by simp
next
  case (2 p ps d m)
  then show ?thesis using assms(1) piece_traced [OF assms(4,3) 2(1)] by simp
qed

lemma pop_fast_traced: "traced st \<Longrightarrow> traced (pop_fast k st)"
proof -
  assume t: "traced st"
  have "ops k' (pop_fast k st) = ops k' st" for k' by (simp add: ops_def)
  then show ?thesis by (intro traced_same [OF t]) (simp_all add: distinct_ops [OF t])
qed

lemma pop_piece_traced: "traced st \<Longrightarrow> traced (pop_piece k i j st)"
proof -
  assume t: "traced st"
  have "map op_key (dec_op j ps) = map op_key ps" for ps by (auto simp: dec_op_def op_key_def)
  then have "op_key ` set (dec_op j ps) = op_key ` set ps" for ps by (metis set_map)
  then show ?thesis using distinct_ops [OF t]
    by (intro traced_same [OF t]) (simp_all add: pop_piece_simps dec_op_fields, simp_all add: pop_piece_def)
qed

lemma burn_queue_traced:
  assumes e: "vthen (Some (burnDown acc k s)) (queue_op acc k i) = Some (r, st')" and v: "inv s c" and i: "i < length (wqes s)" and t: "traced s"
  shows "traced st'"
proof -
  obtain st1 where B: "burnDown acc k s = (commSuccess, st1)" "inv st1 c" "io_rest_same s st1" using burnDown_ok [OF v, of k] by blast
  have "traced st1" using burnDown_traced [OF t, of k] B(1) by simp
  moreover have "i < length (wqes st1)" using B(3) i by (simp add: io_rest_same_def)
  moreover have "queue_op acc k i st1 = Some (r, st')" using e B(1) by (simp add: vthen_def)
  ultimately show ?thesis using queue_op_traced B(2) by blast
qed

lemma piece_complete_traced:
  assumes v: "inv st c" and i: "i < length (wqes st)" and h: "inflight st c (DataQp i) = (Piece k j, w) # xs" and t: "traced st"
    and d: "data_complete acc k i (w_id w) st = Some (r, st')"
  shows "traced st'"
proof (rule burn_queue_traced)
  show "vthen (Some (burnDown acc k (pop_piece k i j st))) (queue_op acc k i) = Some (r, st')"
    using d unfolding piece_complete_eq [OF v i h] .
  show "inv (pop_piece k i j st) (next_c c (DataQp i))" by (rule pop_piece_inv [OF v i h])
  show "i < length (wqes (pop_piece k i j st))" using i by (simp add: pop_piece_simps)
  show "traced (pop_piece k i j st)" by (rule pop_piece_traced [OF t])
qed

lemma fast_complete_traced:
  assumes v: "inv st c" and i: "i < length (wqes st)" and h: "inflight st c (DataQp i) = (FastOp k j, w) # xs" and t: "traced st"
    and d: "data_complete acc k i wid st = Some (r, st')"
  shows "traced st'"
proof -
  obtain fn where F: "inv ((pop_fast k st)\<lparr>reqs := fn\<rparr>) (next_c c (DataQp 0))"
    "data_complete acc k i wid st = vthen (Some (burnDown acc k ((pop_fast k st)\<lparr>reqs := fn\<rparr>))) (queue_op acc k i)"
    by (rule fast_complete_eq [OF v i h, of wid]) blast
  show ?thesis
  proof (rule burn_queue_traced)
    show "vthen (Some (burnDown acc k ((pop_fast k st)\<lparr>reqs := fn\<rparr>))) (queue_op acc k i) = Some (r, st')" using d F(2) by simp
    show "inv ((pop_fast k st)\<lparr>reqs := fn\<rparr>) (next_c c (DataQp 0))" by (rule F(1))
    show "i < length (wqes ((pop_fast k st)\<lparr>reqs := fn\<rparr>))" using i by simp
    show "traced ((pop_fast k st)\<lparr>reqs := fn\<rparr>)" by (rule reqs_traced [OF pop_fast_traced [OF t]])
  qed
qed

lemma notify_complete_traced:
  assumes "notify_complete acc wid st = Some (r, st')" "traced st"
  shows "traced st'"
proof -
  obtain n ns where n: "outN st = n # ns" using assms(1) by (cases "outN st") (simp_all add: notify_complete_def)
  let ?m = "complete_req (n_req n) (st\<lparr>outN := ns\<rparr>)"
  have t: "traced (snd ?m)" by (rule complete_req_traced, rule traced_io [OF assms(2)]) simp_all
  have "st' = snd ?m \<or> st' = snd (tryPostImmNotifyMsg acc (snd ?m))"
    using assms(1) n by (auto simp: notify_complete_def vthen_def split: if_splits prod.splits)
  then show ?thesis using t tryPost_traced [OF t] by blast
qed

lemma atomic_complete_traced:
  assumes "traced st"
  shows "traced (snd (atomicComplete st))"
proof (cases "atomics st")
  case (Cons r rs)
  have "traced ((snd (complete_req r st))\<lparr>atomics := rs\<rparr>)"
    by (rule traced_io [OF complete_req_traced [OF assms, of r]]) simp_all
  then show ?thesis using Cons by (simp add: atomicComplete_def)
qed (use assms in \<open>simp add: atomicComplete_def\<close>)

section \<open>Every completion is processed\<close>

text \<open>The completion that the driver reports for a posted work request.\<close>

definition wc_of :: "post_tag \<Rightarrow> work_req \<Rightarrow> wc_opcode" where
  "wc_of t w = (case t of
     FastOp k i \<Rightarrow> (case k of Put \<Rightarrow> WC_RDMA_WRITE | Get \<Rightarrow> WC_RDMA_READ)
   | Piece k i \<Rightarrow> (case k of Put \<Rightarrow> WC_RDMA_WRITE | Get \<Rightarrow> WC_RDMA_READ)
   | NotifyMsg \<Rightarrow> WC_RDMA_WRITE
   | AtomicMsg \<Rightarrow> (if w_op w = WR_ATOMIC_FETCH_AND_ADD then WC_FETCH_ADD else WC_RDMA_WRITE))"

definition whole :: "vc \<Rightarrow> (queue \<Rightarrow> nat) \<Rightarrow> bool" where
  "whole st c \<longleftrightarrow> good st c \<and> traced st"

lemma inflight_wire:
  assumes "inflight st c q = (t, w) # xs"
  shows "(q, t, w) \<in> set (wire st)"
proof -
  have "(t, w) \<in> set (posts st q)" using assms in_set_dropD [of "(t, w)" "c q" "posts st q"] by (simp add: inflight_def)
  then show ?thesis by (auto simp: posts_def)
qed

text \<open>A completion of one kind of operation.\<close>

fun tag_kind :: "post_tag \<Rightarrow> op_kind option" where
  "tag_kind (FastOp k j) = Some k" | "tag_kind (Piece k j) = Some k" | "tag_kind _ = None"

lemma data_completion_ok:
  assumes g: "whole st c" and h: "inflight st c (DataQp i) = (t, w) # xs"
  obtains k st' where "tag_kind t = Some k" "data_complete acc k i (w_id w) st = Some (commSuccess, st')" "whole st' (next_c c (DataQp i))"
    "pend (io_of k st') = [] \<or> busy k st'" "\<forall>k'. k' \<noteq> k \<longrightarrow> io_of k' st' = io_of k' st"
proof -
  have G: "good st c" and T: "traced st" using g by (simp_all add: whole_def)
  have v: "inv st c" by (rule goodD(1) [OF G])
  have "tag_ok (length (wqes st)) (DataQp i) t" using T inflight_wire [OF h] by (auto simp: traced_def wire_ok_def)
  then have i: "i < length (wqes st)" and tt: "\<exists>k j. t = FastOp k j \<or> t = Piece k j" by (auto simp: tag_ok_def split: post_tag.splits)
  from tt obtain k j where "t = FastOp k j \<or> t = Piece k j" by blast
  then show ?thesis
  proof
    assume e: "t = FastOp k j"
    obtain st' where s: "data_complete acc k i (w_id w) st = Some (commSuccess, st')" "good st' (next_c c (DataQp i))"
      "pend (io_of k st') = [] \<or> busy k st'" "\<forall>k'. k' \<noteq> k \<longrightarrow> io_of k' st' = io_of k' st"
      using fast_complete_ok [OF G i h [unfolded e], of "w_id w"] by blast
    have "traced st'" by (rule fast_complete_traced [OF v i h [unfolded e] T s(1)])
    then show ?thesis using that [of k st'] e s by (simp add: whole_def)
  next
    assume e: "t = Piece k j"
    obtain st' where s: "data_complete acc k i (w_id w) st = Some (commSuccess, st')" "good st' (next_c c (DataQp i))"
      "pend (io_of k st') = [] \<or> busy k st'" "\<forall>k'. k' \<noteq> k \<longrightarrow> io_of k' st' = io_of k' st"
      using piece_complete_ok [OF G i h [unfolded e]] by blast
    have "traced st'" by (rule piece_complete_traced [OF v i h [unfolded e] T s(1)])
    then show ?thesis using that [of k st'] e s by (simp add: whole_def)
  qed
qed

lemma completion_ok:
  assumes g: "whole st c" and h: "inflight st c q = (t, w) # xs"
  obtains st' where "processDataCqe acc refill (wc_of t w) q imm (w_id w) st = Some (commSuccess, st')" "whole st' (next_c c q)"
    "(\<forall>k. io_of k st' = io_of k st) \<and> wqes st' = wqes st \<or>
     (\<exists>k. tag_kind t = Some k \<and> (pend (io_of k st') = [] \<or> busy k st') \<and> (\<forall>k'. k' \<noteq> k \<longrightarrow> io_of k' st' = io_of k' st))"
proof -
  have G: "good st c" and T: "traced st" using g by (simp_all add: whole_def)
  have tag: "tag_ok (length (wqes st)) q t" using T inflight_wire [OF h] by (auto simp: traced_def wire_ok_def)
  show ?thesis
  proof (cases q)
    case (DataQp i)
    obtain k st' where s: "tag_kind t = Some k" "data_complete acc k i (w_id w) st = Some (commSuccess, st')" "whole st' (next_c c (DataQp i))"
      "pend (io_of k st') = [] \<or> busy k st'" "\<forall>k'. k' \<noteq> k \<longrightarrow> io_of k' st' = io_of k' st"
      by (rule data_completion_ok [OF g h [unfolded DataQp]])
    have "processDataCqe acc refill (wc_of t w) q imm (w_id w) st = data_complete acc k i (w_id w) st"
    proof (cases k)
      case Put
      then have "wc_of t w = WC_RDMA_WRITE" using s(1) by (cases t) (simp_all add: wc_of_def)
      then show ?thesis by (simp add: processDataCqe_def DataQp writeComplete_def Put)
    next
      case Get
      then have "wc_of t w = WC_RDMA_READ" using s(1) by (cases t) (simp_all add: wc_of_def)
      then show ?thesis by (simp add: processDataCqe_def DataQp readComplete_def Get)
    qed
    then show ?thesis using that s DataQp by simp
  next
    case NotifyQp
    then have "t = NotifyMsg" using tag by (simp add: tag_ok_def)
    then have p: "processDataCqe acc refill (wc_of t w) q imm (w_id w) st = notify_complete acc (w_id w) st"
      by (simp add: wc_of_def processDataCqe_def writeComplete_def NotifyQp)
    obtain st' where s: "notify_complete acc (w_id w) st = Some (commSuccess, st')" "good st' (next_c c NotifyQp)"
      "\<forall>k. io_of k st' = io_of k st" "wqes st' = wqes st" using notify_complete_ok [OF G h [unfolded NotifyQp]] by blast
    have "traced st'" by (rule notify_complete_traced [OF s(1) T])
    then show ?thesis using that [of st'] p s NotifyQp by (simp add: whole_def)
  next
    case AtomicQp
    then have "t = AtomicMsg" using tag by (simp add: tag_ok_def)
    then have p: "processDataCqe acc refill (wc_of t w) q imm (w_id w) st = Some (atomicComplete st)"
      by (simp add: wc_of_def processDataCqe_def AtomicQp)
    note A = atomic_complete_good [OF G h [unfolded AtomicQp]]
    have "atomicComplete st = (commSuccess, snd (atomicComplete st))" using A by (simp add: prod_eq_iff)
    then have "processDataCqe acc refill (wc_of t w) q imm (w_id w) st = Some (commSuccess, snd (atomicComplete st))" unfolding p by simp
    then show ?thesis by (rule that) (use A AtomicQp atomic_complete_traced [OF T] in \<open>simp_all add: whole_def\<close>)
  qed
qed

section \<open>Every call keeps the state whole\<close>

abbreviation alive :: "op_kind \<Rightarrow> vc \<Rightarrow> bool" where
  "alive k st \<equiv> pend (io_of k st) = [] \<or> busy k st"

lemma wholeI: "good st c \<Longrightarrow> traced st \<Longrightarrow> whole st c"
  by (simp add: whole_def)

lemma wholeD:
  assumes "whole st c"
  shows "good st c" "traced st" "cfg_ok st" "0 < length (wqes st)"
proof -
  show g: "good st c" and "traced st" using assms by (simp_all add: whole_def)
  show "cfg_ok st" by (rule invD(1) [OF goodD(1) [OF g]])
  then show "0 < length (wqes st)" by (simp add: cfg_ok_def)
qed

text \<open>A regular put or get.\<close>

lemma try_new_whole:
  assumes g: "whole st c" and p: "o_id p = nextId (io_of k st)" "o_offset p = 0" "o_outstanding p = 0" "op_good st p"
    and r: "reqs_free st (o_req p # rs)"
  obtains st' where "tryToPostOp acc k (new_op k p st) = Some (commSuccess, st')" "whole st' c" "alive k st'"
    "\<forall>k'. k' \<noteq> k \<longrightarrow> io_of k' st' = io_of k' st" "devs st' = devs st" "reqs_free st' rs"
proof -
  obtain st' where s: "tryToPostOp acc k (new_op k p st) = Some (commSuccess, st')" "good st' c" "alive k st'"
    "\<forall>k'. k' \<noteq> k \<longrightarrow> io_of k' st' = io_of k' st" "moves k (new_op k p st) st'"
    using try_new_good [OF wholeD(1) [OF g] p reqs_free_cons(1) [OF r]] by blast
  have "traced st'" by (rule moves_traced [OF s(5) new_op_traced [OF wholeD(2) [OF g] p(1,2)]])
  moreover have "devs st' = devs st" using moves_fixed [OF s(5)] by (simp add: new_op_def)
  ultimately show ?thesis using that [OF s(1) wholeI [OF s(2)] s(3,4)] reqs_free_new [OF r s(5)] by blast
qed

lemma iput_regular_whole:
  assumes g: "whole st c" and p: "put_ok st p" "p_keys p = Some ks" and r: "reqs_free st (p_req p # rs)"
  obtains st' where "iputImpl acc p False st = Some (commSuccess, st')" "whole st' c" "alive Put st'" "gets st' = gets st"
    "devs st' = devs st" "reqs_free st' rs"
proof -
  have k: "keys_ok st (p_keys p) (p_rkeys p)" "config_ok (p_config p)" using p(1) by (simp_all add: put_ok_def)
  have q: "o_id (put_op p st) = nextId (io_of Put st)" "o_offset (put_op p st) = 0" "o_outstanding (put_op p st) = 0"
    and rq: "reqs_free st (o_req (put_op p st) # rs)" using r by (simp_all add: put_op_def)
  obtain st' where s: "tryToPostOp acc Put (new_op Put (put_op p st) st) = Some (commSuccess, st')" "whole st' c" "alive Put st'"
    "\<forall>k'. k' \<noteq> Put \<longrightarrow> io_of k' st' = io_of k' st" "devs st' = devs st" "reqs_free st' rs"
    by (rule try_new_whole [OF g q op_good_put [OF p(2) k] rq])
  have "io_of Get st' = io_of Get st" using s(4) by blast
  then show ?thesis using that s iput_eq [OF p(2) k(1)] by simp
qed

lemma iget_regular_whole:
  assumes g: "whole st c" and k: "keys_ok st keys rkeys" "config_ok cfg" "keys = Some ks" and r: "reqs_free st [req]"
  obtains st' where "igetImpl acc sbuf dbuf n keys rkeys cfg req False st = Some (commSuccess, st')" "whole st' c" "alive Get st'"
    "puts st' = puts st"
proof -
  let ?p = "get_op sbuf dbuf n keys rkeys cfg req st"
  have q: "o_id ?p = nextId (io_of Get st)" "o_offset ?p = 0" "o_outstanding ?p = 0" and rq: "reqs_free st [o_req ?p]"
    using r by (simp_all add: get_op_def)
  obtain st' where s: "tryToPostOp acc Get (new_op Get ?p st) = Some (commSuccess, st')" "whole st' c" "alive Get st'"
    "\<forall>k'. k' \<noteq> Get \<longrightarrow> io_of k' st' = io_of k' st"
    by (rule try_new_whole [OF g q op_good_get [OF k(3,1,2)] rq])
  have "io_of Put st' = io_of Put st" using s(4) by blast
  then show ?thesis using that s iget_eq [OF k(3,1)] by simp
qed

lemma take_id_whole: "whole st c \<Longrightarrow> whole (snd (take_id k st)) c"
  using take_id_good take_id_traced by (simp add: whole_def)

lemma alive_more: "pend (io_of k st') = pend (io_of k st) \<Longrightarrow> wqes st' = wqes st \<Longrightarrow>
    length (fast (io_of k st)) \<le> length (fast (io_of k st')) \<Longrightarrow> alive k st \<Longrightarrow> alive k st'"
  by (auto simp: busy_def)

lemma iput_whole:
  assumes g: "whole st c" and p: "put_ok st p" and r: "reqs_free st [p_req p]"
  obtains res st' where "iputImpl acc p f st = Some (res, st')" "whole st' c" "alive Put st \<longrightarrow> alive Put st'" "gets st' = gets st"
proof (cases f)
  case False
  show ?thesis
  proof (cases "p_keys p")
    case None
    then show ?thesis using that [of commSystemError st] g by (simp add: iputImpl_def)
  next
    case (Some ks)
    show ?thesis by (rule iput_regular_whole [OF g p Some r]) (use that False in simp)
  qed
next
  case f: True
  have k: "keys_ok st (p_keys p) (p_rkeys p)" using p by (simp add: put_ok_def)
  obtain res st' where s: "iputImpl acc p True st = Some (res, st')" "good st' c" "gets st' = gets st" "pend (puts st') = pend (puts st)"
    "wqes st' = wqes st" "length (fast (puts st)) \<le> length (fast (puts st'))" using iput_fast_good [OF wholeD(1) [OF g] k r] by blast
  have "traced st'"
  proof (cases rule: iput_fast_cases [OF wholeD(3) [OF g] k])
    case 1
    then show ?thesis using s(1) wholeD(2) [OF g] by simp
  next
    case 2
    then show ?thesis using s(1) take_id_traced [OF wholeD(2) [OF g]] by simp
  next
    case (3 d)
    then show ?thesis using s(1) fast_put_traced [OF wholeD(2,4) [OF g]] by simp
  qed
  moreover have "alive Put st \<longrightarrow> alive Put st'" using alive_more [of Put st' st] s(4-6) by simp
  ultimately show ?thesis using that [of res st'] s f by (simp add: whole_def)
qed

lemma iget_whole:
  assumes g: "whole st c" and k: "keys_ok st keys rkeys" "config_ok cfg" and r: "reqs_free st [req]"
  obtains res st' where "igetImpl acc sbuf dbuf n keys rkeys cfg req f st = Some (res, st')" "whole st' c" "alive Get st \<longrightarrow> alive Get st'"
    "puts st' = puts st"
proof (cases f)
  case False
  show ?thesis
  proof (cases keys)
    case None
    then show ?thesis using that [of commSystemError st] g by (simp add: igetImpl_def)
  next
    case (Some ks)
    show ?thesis by (rule iget_regular_whole [OF g k Some r, of sbuf dbuf n]) (use that False in simp)
  qed
next
  case f: True
  obtain res st' where s: "igetImpl acc sbuf dbuf n keys rkeys cfg req True st = Some (res, st')" "good st' c" "puts st' = puts st"
    "pend (gets st') = pend (gets st)" "wqes st' = wqes st" "length (fast (gets st)) \<le> length (fast (gets st'))"
    using iget_fast_good [OF wholeD(1) [OF g] k(1) r] by blast
  have "traced st'"
  proof (cases rule: iget_fast_cases [OF wholeD(3) [OF g] k(1), of sbuf dbuf n cfg req])
    case 1
    then show ?thesis using s(1) wholeD(2) [OF g] by simp
  next
    case 2
    then show ?thesis using s(1) take_id_traced [OF wholeD(2) [OF g]] by simp
  next
    case (3 w)
    then show ?thesis using s(1) fast_get_traced [OF wholeD(2,4) [OF g] 3(2)] by simp
  qed
  moreover have "alive Get st \<longrightarrow> alive Get st'" using alive_more [of Get st' st] s(4-6) by simp
  ultimately show ?thesis using that [of res st'] s f by (simp add: whole_def)
qed

lemma iput_each_whole:
  assumes "whole st c" "\<forall>p \<in> set ps. put_ok st p" "reqs_free st (map p_req ps)"
  shows "\<exists>res st'. iput_each acc ps st = Some (res, st') \<and> whole st' c \<and> (alive Put st \<longrightarrow> alive Put st') \<and> gets st' = gets st"
  using assms
proof (induction ps arbitrary: st)
  case Nil
  then show ?case by simp
next
  case (Cons p ps)
  show ?case
  proof (cases "p_keys p")
    case None
    then have "iput_each acc (p # ps) st = Some (commSystemError, st)" by (simp add: iputImpl_def vthen_def)
    then show ?thesis using Cons.prems by simp
  next
    case (Some ks)
    have p: "put_ok st p" and r: "reqs_free st (p_req p # map p_req ps)" using Cons.prems(2,3) by simp_all
    obtain st1 where s: "iputImpl acc p False st = Some (commSuccess, st1)" "whole st1 c" "alive Put st1" "gets st1 = gets st"
      "devs st1 = devs st" "reqs_free st1 (map p_req ps)" by (rule iput_regular_whole [OF Cons.prems(1) p Some r])
    have "\<forall>p \<in> set ps. put_ok st1 p" using Cons.prems(2) unfolding put_ok_def keys_ok_def s(5) by simp
    from Cons.IH [OF s(2) this s(6)] obtain res st' where "iput_each acc ps st1 = Some (res, st')" "whole st' c" "alive Put st'"
      "gets st' = gets st1" using s(3) by blast
    then show ?thesis using s(1,4) by (simp add: vthen_def)
  qed
qed

lemma fast_puts_traced: "traced st \<Longrightarrow> 0 < length (wqes st) \<Longrightarrow> traced (fold (\<lambda>p s. fast_put_st p d s) ps st)"
  by (induction ps arbitrary: st) (simp_all add: fast_put_traced fast_put_st_fields)

lemma batch_whole:
  assumes g: "whole st c" and p: "\<forall>p \<in> set ps. put_ok st p \<and> p_keys p \<noteq> None" and r: "reqs_free st (map p_req ps)"
  obtains res st' where "iputBatchImpl acc ps st = Some (res, st')" "whole st' c" "alive Put st \<longrightarrow> alive Put st'" "gets st' = gets st"
proof (cases "ps = [] \<or> \<not> list_all (\<lambda>p. isFastPutValid (p_config p) (p_len p) (length ps) st) ps")
  case True
  show ?thesis
  proof (cases "ps = []")
    case True
    then show ?thesis using that [of commSuccess st] g by (simp add: iputBatchImpl_def)
  next
    case n: False
    have "\<forall>p \<in> set ps. put_ok st p" using p by blast
    from iput_each_whole [OF g this r] obtain res st' where s: "iput_each acc ps st = Some (res, st')" "whole st' c"
      "alive Put st \<longrightarrow> alive Put st'" "gets st' = gets st" by blast
    have "iputBatchImpl acc ps st = iput_each acc ps st" using True n by (simp add: iputBatchImpl_def)
    then show ?thesis using that s by simp
  qed
next
  case False
  then have n: "ps \<noteq> []" and v: "list_all (\<lambda>p. isFastPutValid (p_config p) (p_len p) (length ps) st) ps" by blast+
  obtain d where d: "getIbDevFromQpIdx 0 st = Some d" "d < nat (devs st)" by (rule dev0 [OF wholeD(3) [OF g]])
  have f: "\<forall>p \<in> set ps. fast_put_ok st p" using p by (simp add: fast_put_ok_def put_ok_def)
  let ?s = "fold (\<lambda>p s. fast_put_st p d s) ps st"
  have e: "iputBatchImpl acc ps st = Some (commSuccess, ?s)" by (rule batch_eq [OF wholeD(3) [OF g] n v f d])
  obtain p0 where "p0 \<in> set ps" using n by (cases ps) auto
  then have "isFastPutValid (p_config p0) (p_len p0) (length ps) st" using v by (simp add: list_all_iff)
  from isFastPutValidD [OF this wholeD(3) [OF g]]
  have o: "outst (puts st) = []" "pend (puts st) = []" "length (fast (puts st)) + length ps \<le> nat (maxQpMsgs st)" by simp_all
  have "whole ?s c" by (rule wholeI [OF fast_puts_good [OF wholeD(1) [OF g] o r] fast_puts_traced [OF wholeD(2,4) [OF g]]])
  moreover have "alive Put ?s" using o(2) by (simp add: fast_puts_fields)
  ultimately show ?thesis using that e by (simp add: fast_puts_fields)
qed

section \<open>Runs\<close>

text \<open>
  \<open>vc_run K st c\<close>: the state \<open>st\<close>, with \<open>c q\<close> completions of each queue pair, of a connection that is used for the kinds of
  operation \<open>K\<close>. A call names valid registrations, and a request that has a reference for each thing that will complete it; the
  driver takes every work request.
\<close>

inductive vc_run :: "op_kind set \<Rightarrow> vc \<Rightarrow> (queue \<Rightarrow> nat) \<Rightarrow> bool" for K where
  new: "setDefaultQPConfig cv t d cfg0 = Some cfg \<Longrightarrow> 0 < d \<Longrightarrow> 0 < numQps cfg \<Longrightarrow> 0 < qpMsgs cfg \<Longrightarrow>
    vc_run K (vc_new d cfg pm px) (\<lambda>_. 0)"
| put: "vc_run K st c \<Longrightarrow> Put \<in> K \<Longrightarrow> put_ok st p \<Longrightarrow> reqs_free st [p_req p] \<Longrightarrow> iputImpl acc p fst_path st = Some (r, st') \<Longrightarrow>
    vc_run K st' c"
| batch: "vc_run K st c \<Longrightarrow> Put \<in> K \<Longrightarrow> \<forall>p \<in> set ps. put_ok st p \<and> p_keys p \<noteq> None \<Longrightarrow> reqs_free st (map p_req ps) \<Longrightarrow>
    iputBatchImpl acc ps st = Some (r, st') \<Longrightarrow> vc_run K st' c"
| get: "vc_run K st c \<Longrightarrow> Get \<in> K \<Longrightarrow> keys_ok st keys rkeys \<Longrightarrow> config_ok cfg \<Longrightarrow> reqs_free st [req] \<Longrightarrow>
    igetImpl acc sbuf dbuf n keys rkeys cfg req fst_path st = Some (r, st') \<Longrightarrow> vc_run K st' c"
| notification: "vc_run K st c \<Longrightarrow> reqs_free st [req] \<Longrightarrow> notify acc req i st = (r, st') \<Longrightarrow> vc_run K st' c"
| fetch_add: "vc_run K st c \<Longrightarrow> reqs_free st [req] \<Longrightarrow> ifetchAndAddImpl acc sbuf dbuf addVal keys rkeys req st = Some (r, st') \<Longrightarrow>
    vc_run K st' c"
| atomic_set: "vc_run K st c \<Longrightarrow> reqs_free st [req] \<Longrightarrow> iatomicSetImpl acc stack dbuf val rkeys req st = Some (r, st') \<Longrightarrow> vc_run K st' c"
| completion: "vc_run K st c \<Longrightarrow> inflight st c q = (t, w) # xs \<Longrightarrow>
    processDataCqe acc refill (wc_of t w) q imm (w_id w) st = Some (r, st') \<Longrightarrow> vc_run K st' (next_c c q)"
| arrival: "vc_run K st c \<Longrightarrow> processDataCqe acc refill WC_RECV_RDMA_WITH_IMM q imm i st = Some (r, st') \<Longrightarrow> vc_run K st' c"
| poll: "vc_run K st c \<Longrightarrow> checkNotify st = Some (b, st') \<Longrightarrow> vc_run K st' c"
| request: "vc_run K st c \<Longrightarrow> int (count_list (held st) (Some i)) \<le> n \<Longrightarrow>
    vc_run K (st\<lparr>reqs := (reqs st)(i := req_setRefCount n (reqs st i))\<rparr>) c"

lemma notify_whole:
  assumes "whole st c" "reqs_free st [r]"
  shows "whole (snd (notify acc r i st)) c \<and> (\<forall>k. io_of k (snd (notify acc r i st)) = io_of k st) \<and> wqes (snd (notify acc r i st)) = wqes st"
  using notify_good [OF wholeD(1) [OF assms(1)] assms(2), of i] notify_traced [OF wholeD(2) [OF assms(1)], of r i]
  by (simp add: whole_def io_notify) (simp add: notify_def tryPost_fields)

lemma atomic_post_whole:
  assumes g: "whole st c" and r: "reqs_free st [r]" and w: "w_op w \<noteq> WR_RDMA_WRITE_WITH_IMM"
  shows "whole (st\<lparr>atomics := atomics st @ [r], wire := wire st @ [(AtomicQp, AtomicMsg, w)]\<rparr>) c"
proof (rule wholeI [OF atomic_post_good [OF wholeD(1) [OF g] r]])
  have "wire (st\<lparr>atomics := atomics st @ [r], wire := wire st @ [(AtomicQp, AtomicMsg, w)]\<rparr>) = wire st @ [(AtomicQp, AtomicMsg, w)]" by simp
  then show "traced (st\<lparr>atomics := atomics st @ [r], wire := wire st @ [(AtomicQp, AtomicMsg, w)]\<rparr>)"
    by (rule traced_post [OF wholeD(2) [OF g]]) (use w in \<open>simp_all add: tag_ok_def ops_def\<close>)
qed

lemma fetch_add_whole:
  assumes g: "whole st c" and r: "reqs_free st [req]" and e: "ifetchAndAddImpl acc sbuf dbuf addVal keys rkeys req st = Some (r, st')"
  shows "whole st' c \<and> (\<forall>k. io_of k st' = io_of k st) \<and> wqes st' = wqes st"
proof (cases keys)
  case None
  then show ?thesis using g e by (simp add: ifetchAndAddImpl_def)
next
  case (Some ks)
  let ?w = "\<lparr>w_id = 0, w_op = WR_ATOMIC_FETCH_AND_ADD, w_local = sbuf, w_length = 8, w_lkey = ks ! 0, w_remote = dbuf, w_rkey = rkeys ! 0, w_imm = 0, w_val = addVal\<rparr>"
  have "st' = st\<lparr>atomics := atomics st @ [req], wire := wire st @ [(AtomicQp, AtomicMsg, ?w)]\<rparr>"
    using e Some by (simp add: ifetchAndAddImpl_def post_acc split: if_splits)
  then show ?thesis using atomic_post_whole [OF g r, of ?w] by simp
qed

lemma atomic_set_whole:
  assumes g: "whole st c" and r: "reqs_free st [req]" and e: "iatomicSetImpl acc stack dbuf val rkeys req st = Some (r, st')"
  shows "whole st' c \<and> (\<forall>k. io_of k st' = io_of k st) \<and> wqes st' = wqes st"
proof -
  let ?w = "\<lparr>w_id = 0, w_op = WR_RDMA_WRITE, w_local = stack, w_length = 8, w_lkey = 0, w_remote = dbuf, w_rkey = rkeys ! 0, w_imm = 0, w_val = val\<rparr>"
  have "st' = st\<lparr>atomics := atomics st @ [req], wire := wire st @ [(AtomicQp, AtomicMsg, ?w)]\<rparr>"
    using e by (simp add: iatomicSetImpl_def post_acc split: if_splits)
  then show ?thesis using atomic_post_whole [OF g r, of ?w] by simp
qed

lemma writeImmRcvd_fields:
  assumes "writeImmRcvd q imm st = Some st'"
  shows "wire st' = wire st \<and> sndNxt st' = sndNxt st"
proof -
  have "wire st' = wire st" "sndNxt st' = sndNxt st"
    using assms by (auto simp: writeImmRcvd_def Let_def split: queue.splits if_splits prod.splits)
  then show ?thesis by blast
qed

lemma arrival_whole:
  assumes g: "whole st c" and e: "processDataCqe acc refill WC_RECV_RDMA_WITH_IMM q imm i st = Some (r, st')"
  shows "whole st' c \<and> (\<forall>k. io_of k st' = io_of k st) \<and> wqes st' = wqes st"
proof -
  have w: "writeImmRcvd q imm st = Some st'" using e by (auto simp: processDataCqe_def)
  note G = writeImmRcvd_good [OF wholeD(1) [OF g] w]
  have "traced st'" by (rule traced_io [OF wholeD(2) [OF g]]) (use G writeImmRcvd_fields [OF w] in simp_all)
  then show ?thesis using G by (simp add: whole_def)
qed

lemma poll_whole:
  assumes g: "whole st c" and e: "checkNotify st = Some (b, st')"
  shows "whole st' c \<and> (\<forall>k. io_of k st' = io_of k st) \<and> wqes st' = wqes st"
proof -
  note G = checkNotify_good [OF wholeD(1) [OF g] e]
  have "wire st' = wire st" "sndNxt st' = sndNxt st" using e by (auto simp: checkNotify_def split: if_splits)
  then have "traced st'" by (intro traced_io [OF wholeD(2) [OF g]]) (use G in simp_all)
  then show ?thesis using G by (simp add: whole_def)
qed

lemma request_whole:
  assumes g: "whole st c" and n: "int (count_list (held st) (Some i)) \<le> n"
  shows "whole (st\<lparr>reqs := (reqs st)(i := req_setRefCount n (reqs st i))\<rparr>) c"
proof -
  let ?s = "st\<lparr>reqs := (reqs st)(i := req_setRefCount n (reqs st i))\<rparr>"
  have h: "held ?s = held st" by (rule held_same) simp_all
  have "inv_reqs ?s" using invD(7) [OF goodD(1) [OF wholeD(1) [OF g]]] n unfolding inv_reqs_def h by (simp add: req_setRefCount_def)
  then have "good ?s c" by (intro good_same [OF wholeD(1) [OF g]]) simp_all
  then show ?thesis using reqs_traced [OF wholeD(2) [OF g]] by (simp add: whole_def)
qed

lemma new_traced:
  assumes "0 < d"
  shows "traced (vc_new d cfg pm px)"
  by (simp add: traced_def wire_ok_def tiled_def numbered_def ops_def new_io pieces_def imms_def)
    (simp add: io_new_def vc_new_def)

lemma run_whole: "vc_run K st c \<Longrightarrow> whole st c"
proof (induction rule: vc_run.induct)
  case (new num l d cfg0 cfg pm px)
  then show ?case using new_good new_traced by (simp add: whole_def)
next
  case (put st c p fst_path r st')
  show ?case by (rule iput_whole [OF put.IH put.hyps(3,4), of fst_path]) (use put.hyps(5) in simp)
next
  case (batch st c ps r st')
  show ?case by (rule batch_whole [OF batch.IH batch.hyps(3,4)]) (use batch.hyps(5) in simp)
next
  case (get st c keys rkeys cfg req sbuf dbuf n fst_path r st')
  show ?case by (rule iget_whole [OF get.IH get.hyps(3,4,5), of sbuf dbuf n fst_path]) (use get.hyps(6) in simp)
next
  case (notification st c req i r st')
  then show ?case using notify_whole [OF notification.IH notification.hyps(2), of i] by simp
next
  case (fetch_add st c req sbuf dbuf addVal keys rkeys r st')
  then show ?case using fetch_add_whole by blast
next
  case (atomic_set st c req stack dbuf val rkeys r st')
  then show ?case using atomic_set_whole by blast
next
  case (completion st c q t w xs refill imm r st')
  obtain s where s: "processDataCqe acc refill (wc_of t w) q imm (w_id w) st = Some (commSuccess, s)" "whole s (next_c c q)"
    by (rule completion_ok [OF completion.IH completion.hyps(2), of refill imm]) blast
  then have "s = st'" using completion.hyps(3) by simp
  then show ?case using s(2) by blast
next
  case (arrival st c refill q imm i r st')
  then show ?case using arrival_whole by blast
next
  case (poll st c b st')
  then show ?case using poll_whole by blast
next
  case (request st c i n)
  then show ?case using request_whole by blast
qed

text \<open>The driver's part of a run: completions and arrivals only.\<close>

inductive vc_drain :: "vc \<Rightarrow> (queue \<Rightarrow> nat) \<Rightarrow> vc \<Rightarrow> (queue \<Rightarrow> nat) \<Rightarrow> bool" for st c where
  drain_start: "vc_drain st c st c"
| drain_completion: "vc_drain st c st1 c1 \<Longrightarrow> inflight st1 c1 q = (t, w) # xs \<Longrightarrow>
    processDataCqe acc refill (wc_of t w) q imm (w_id w) st1 = Some (r, st') \<Longrightarrow> vc_drain st c st' (next_c c1 q)"
| drain_arrival: "vc_drain st c st1 c1 \<Longrightarrow> processDataCqe acc (\<lambda>q. True) WC_RECV_RDMA_WITH_IMM q imm i st1 = Some (r, st') \<Longrightarrow>
    vc_drain st c st' c1"

lemma drain_acct:
  assumes "vc_drain st c st' c'" "vc_run K st c"
  shows "vc_run K st' c' \<and> acct st st'"
  using assms
proof (induction rule: vc_drain.induct)
  case (drain_completion st1 c1 q t w xs refill imm r st')
  then have R: "vc_run K st1 c1" and a: "acct st st1" by blast+
  obtain s where "processDataCqe acc refill (wc_of t w) q imm (w_id w) st1 = Some (commSuccess, s)"
    by (rule completion_ok [OF run_whole [OF R] drain_completion.hyps(2), of refill imm]) blast
  then have "processDataCqe acc refill (wc_of t w) q imm (w_id w) st1 = Some (commSuccess, st')" using drain_completion.hyps(3) by simp
  from acct_trans [OF a completion_acct [OF this]] show ?case
    using vc_run.completion [OF R drain_completion.hyps(2,3)] by blast
next
  case (drain_arrival st1 c1 q imm i r st')
  then have R: "vc_run K st1 c1" and a: "acct st st1" by blast+
  have "r = commSuccess" using drain_arrival.hyps(2) by (auto simp: processDataCqe_def)
  then show ?case using vc_run.arrival [OF R drain_arrival.hyps(2)] acct_trans [OF a completion_acct] drain_arrival.hyps(2) by blast
qed simp

section \<open>Connections with one kind of operation\<close>

definition clean :: "op_kind \<Rightarrow> vc \<Rightarrow> bool" where
  "clean k st \<longleftrightarrow> ops k st = [] \<and> fast (io_of k st) = []"

lemma clean_same: "io_of k st' = io_of k st \<Longrightarrow> clean k st \<Longrightarrow> clean k st'"
  by (simp add: clean_def ops_def)

lemma inflight_not_clean:
  assumes g: "whole st c" and h: "inflight st c q = (t, w) # xs" and k: "tag_kind t = Some k"
  shows "\<not> clean k st"
proof -
  have v: "inv st c" using goodD(1) wholeD(1) [OF g] by blast
  have "tag_ok (length (wqes st)) q t" using wholeD(2) [OF g] inflight_wire [OF h] by (auto simp: traced_def wire_ok_def)
  then obtain i where q: "q = DataQp i" "i < length (wqes st)" using k by (cases q; cases t) (auto simp: tag_ok_def)
  show ?thesis
  proof (cases t)
    case (FastOp k' j)
    then have e: "t = FastOp k j" using k by simp
    show ?thesis by (rule pop_fast_inv [OF v q(2) h [unfolded q(1) e]]) (simp add: clean_def)
  next
    case (Piece k' j)
    then have e: "t = Piece k j" using k by simp
    obtain p where "find (\<lambda>p. o_id p = j) (outst (io_of k st) @ pend (io_of k st)) = Some p"
      by (rule piece_head [OF v q(2) h [unfolded q(1) e]]) blast
    then show ?thesis by (auto simp: clean_def ops_def)
  qed (use k in simp_all)
qed

lemma run_clean:
  assumes "vc_run K st c" "k \<notin> K"
  shows "clean k st"
  using assms
proof (induction rule: vc_run.induct)
  case (new num l d cfg0 cfg pm px)
  then show ?case by (simp add: clean_def ops_def new_io io_new_def)
next
  case (put st c p fst_path r st')
  have k: "k = Get" using put.prems put.hyps(2) by (cases k) auto
  have "gets st' = gets st" by (rule iput_whole [OF run_whole [OF put.hyps(1)] put.hyps(3,4), of fst_path]) (use put.hyps(5) in simp)
  then show ?case using put.IH [OF put.prems] clean_same [of k st' st] k by simp
next
  case (batch st c ps r st')
  have k: "k = Get" using batch.prems batch.hyps(2) by (cases k) auto
  have "gets st' = gets st" by (rule batch_whole [OF run_whole [OF batch.hyps(1)] batch.hyps(3,4)]) (use batch.hyps(5) in simp)
  then show ?case using batch.IH [OF batch.prems] clean_same [of k st' st] k by simp
next
  case (get st c keys rkeys cfg req sbuf dbuf n fst_path r st')
  have k: "k = Put" using get.prems get.hyps(2) by (cases k) auto
  have "puts st' = puts st"
    by (rule iget_whole [OF run_whole [OF get.hyps(1)] get.hyps(3,4,5), of sbuf dbuf n fst_path]) (use get.hyps(6) in simp)
  then show ?case using get.IH [OF get.prems] clean_same [of k st' st] k by simp
next
  case (notification st c req i r st')
  then show ?case using notify_whole [OF run_whole [OF notification.hyps(1)] notification.hyps(2), of i] clean_same [of k st' st] by simp
next
  case (fetch_add st c req sbuf dbuf addVal keys rkeys r st')
  then show ?case using fetch_add_whole [OF run_whole [OF fetch_add.hyps(1)] fetch_add.hyps(2,3)] clean_same [of k st' st] by simp
next
  case (atomic_set st c req stack dbuf val rkeys r st')
  then show ?case using atomic_set_whole [OF run_whole [OF atomic_set.hyps(1)] atomic_set.hyps(2,3)] clean_same [of k st' st] by simp
next
  case (completion st c q t w xs refill imm r st')
  note W = run_whole [OF completion.hyps(1)]
  obtain s where s: "processDataCqe acc refill (wc_of t w) q imm (w_id w) st = Some (commSuccess, s)"
    "(\<forall>k. io_of k s = io_of k st) \<and> wqes s = wqes st \<or>
     (\<exists>k. tag_kind t = Some k \<and> alive k s \<and> (\<forall>k'. k' \<noteq> k \<longrightarrow> io_of k' s = io_of k' st))"
    by (rule completion_ok [OF W completion.hyps(2), of refill imm]) blast
  have e: "s = st'" using s(1) completion.hyps(3) by simp
  have cl: "clean k st" by (rule completion.IH [OF completion.prems])
  then have "tag_kind t \<noteq> Some k" using inflight_not_clean [OF W completion.hyps(2), of k] by blast
  then have "io_of k st' = io_of k st" using s(2) unfolding e by metis
  then show ?case using cl clean_same by blast
next
  case (arrival st c refill q imm i r st')
  then show ?case using arrival_whole [OF run_whole [OF arrival.hyps(1)] arrival.hyps(2)] clean_same [of k st' st] by simp
next
  case (poll st c b st')
  then show ?case using poll_whole [OF run_whole [OF poll.hyps(1)] poll.hyps(2)] clean_same [of k st' st] by simp
next
  case (request st c i n)
  then show ?case by (simp add: clean_def ops_def)
qed

lemma alive_same: "io_of k st' = io_of k st \<Longrightarrow> wqes st' = wqes st \<Longrightarrow> alive k st \<Longrightarrow> alive k st'"
  by (auto simp: busy_def)

lemma run_alive:
  assumes "vc_run {k} st c"
  shows "alive k st"
  using assms
proof (induction rule: vc_run.induct)
  case (new num l d cfg0 cfg pm px)
  then show ?case by (simp add: new_io io_new_def)
next
  case (put st c p fst_path r st')
  have k: "k = Put" using put.hyps(2) by simp
  have "alive Put st \<longrightarrow> alive Put st'" by (rule iput_whole [OF run_whole [OF put.hyps(1)] put.hyps(3,4), of fst_path]) (use put.hyps(5) in simp)
  then show ?case using put.IH k by blast
next
  case (batch st c ps r st')
  have k: "k = Put" using batch.hyps(2) by simp
  have "alive Put st \<longrightarrow> alive Put st'" by (rule batch_whole [OF run_whole [OF batch.hyps(1)] batch.hyps(3,4)]) (use batch.hyps(5) in simp)
  then show ?case using batch.IH k by blast
next
  case (get st c keys rkeys cfg req sbuf dbuf n fst_path r st')
  have k: "k = Get" using get.hyps(2) by simp
  have "alive Get st \<longrightarrow> alive Get st'"
    by (rule iget_whole [OF run_whole [OF get.hyps(1)] get.hyps(3,4,5), of sbuf dbuf n fst_path]) (use get.hyps(6) in simp)
  then show ?case using get.IH k by blast
next
  case (notification st c req i r st')
  note N = notify_whole [OF run_whole [OF notification.hyps(1)] notification.hyps(2), of i]
  show ?case by (rule alive_same [OF _ _ notification.IH]) (use N notification.hyps(3) in simp_all)
next
  case (fetch_add st c req sbuf dbuf addVal keys rkeys r st')
  note N = fetch_add_whole [OF run_whole [OF fetch_add.hyps(1)] fetch_add.hyps(2,3)]
  show ?case by (rule alive_same [OF _ _ fetch_add.IH]) (use N in simp_all)
next
  case (atomic_set st c req stack dbuf val rkeys r st')
  note N = atomic_set_whole [OF run_whole [OF atomic_set.hyps(1)] atomic_set.hyps(2,3)]
  show ?case by (rule alive_same [OF _ _ atomic_set.IH]) (use N in simp_all)
next
  case (completion st c q t w xs refill imm r st')
  note W = run_whole [OF completion.hyps(1)]
  obtain s where s: "processDataCqe acc refill (wc_of t w) q imm (w_id w) st = Some (commSuccess, s)"
    "(\<forall>k. io_of k s = io_of k st) \<and> wqes s = wqes st \<or>
     (\<exists>k. tag_kind t = Some k \<and> alive k s \<and> (\<forall>k'. k' \<noteq> k \<longrightarrow> io_of k' s = io_of k' st))"
    by (rule completion_ok [OF W completion.hyps(2), of refill imm]) blast
  have e: "s = st'" using s(1) completion.hyps(3) by simp
  show ?case using s(2)
  proof
    assume "(\<forall>k. io_of k s = io_of k st) \<and> wqes s = wqes st"
    then show ?thesis using alive_same [OF _ _ completion.IH, of st'] unfolding e by simp
  next
    assume "\<exists>k. tag_kind t = Some k \<and> alive k s \<and> (\<forall>k'. k' \<noteq> k \<longrightarrow> io_of k' s = io_of k' st)"
    then obtain k' where k': "tag_kind t = Some k'" "alive k' s" by blast
    have "k' = k"
    proof (rule ccontr)
      assume "k' \<noteq> k"
      then have "clean k' st" using run_clean [OF completion.hyps(1), of k'] by simp
      then show False using inflight_not_clean [OF W completion.hyps(2) k'(1)] by blast
    qed
    then show ?thesis using k'(2) e by simp
  qed
next
  case (arrival st c refill q imm i r st')
  note N = arrival_whole [OF run_whole [OF arrival.hyps(1)] arrival.hyps(2)]
  show ?case by (rule alive_same [OF _ _ arrival.IH]) (use N in simp_all)
next
  case (poll st c b st')
  note N = poll_whole [OF run_whole [OF poll.hyps(1)] poll.hyps(2)]
  show ?case by (rule alive_same [OF _ _ poll.IH]) (use N in simp_all)
next
  case (request st c i n)
  show ?case by (rule alive_same [OF _ _ request.IH]) simp_all
qed

text \<open>When nothing is in flight, only pending operations are left.\<close>

lemma quiet:
  assumes g: "whole st c" and z: "\<And>q. inflight st c q = []"
  shows "\<not> busy k st" "fast (io_of k st) = []" "outst (io_of k st) = []" "pendN st = []" "outN st = []" "atomics st = []"
proof -
  have v: "inv st c" using goodD(1) wholeD(1) [OF g] by blast
  note V = invD [OF v]
  have w: "wqes st ! i = []" if "i < length (wqes st)" for i
  proof -
    have "concat (map wqe_of (inflight st c (DataQp i))) = wqes st ! i" using V(3) that unfolding inv_data_def by blast
    then show ?thesis unfolding z by simp
  qed
  have f: "fast (io_of k st) = []" for k
  proof -
    have "concat (map (fast_id k) (inflight st c (DataQp 0))) = (if (0::nat) = 0 then map fst (fast (io_of k st)) else [])"
      using V(3) wholeD(4) [OF g] unfolding inv_data_def by blast
    then show ?thesis unfolding z by simp
  qed
  show "fast (io_of k st) = []" by (rule f)
  show "\<not> busy k st" using w f by (simp add: busy_def)
  show "outst (io_of k st) = []"
  proof (cases "outst (io_of k st)")
    case (Cons p ps)
    have "concat (wqes st) = []" using w by (auto simp: concat_eq_Nil_conv in_set_conv_nth)
    then have "cnt k (o_id p) st = 0" by (simp only: cnt_def) simp
    moreover have "p \<in> set (ops k st)" using Cons by (simp add: ops_def)
    then have "o_outstanding p = cnt k (o_id p) st" using V(2) [of k] unfolding inv_ops_def by blast
    moreover have "0 < o_outstanding p"
      using spec [OF goodD(3) [OF wholeD(1) [OF g], unfolded tidy_def], of k] Cons f [of k] by simp
    ultimately show ?thesis by simp
  qed
  have n: "map (w_id \<circ> snd) (inflight st c NotifyQp) = map n_wrId (outN st)" "pendN st \<noteq> [] \<longrightarrow> length (outN st) = MAX_SEND_WR"
    using V(5) unfolding inv_notify_def by blast+
  show o: "outN st = []" using n(1) unfolding z by simp
  show "pendN st = []" using n(2) unfolding o by (simp add: MAX_SEND_WR_def)
  show "atomics st = []" using V(6) unfolding inv_atomic_def z by simp
qed

section \<open>An example\<close>

text \<open>One queue pair, one message at a time: a put, a get, and the completion of the put.\<close>

definition ex_cfg :: ib_config where
  "ex_cfg = \<lparr>numQps = 1, qpScalingTh = 0, vcMode = dqplb, qpMsgs = 1\<rparr>"

definition ex0 :: vc where "ex0 = vc_new 1 ex_cfg 0 64"

definition ex_put :: put_msg where
  "ex_put = \<lparr>p_sbuf = 16, p_dbuf = 32, p_len = 10, p_keys = Some [1], p_rkeys = [2], p_notify = True, p_config = None, p_req = None\<rparr>"

definition ex1 :: vc where "ex1 = snd (the (iputImpl acc ex_put False ex0))"
definition ex2 :: vc where "ex2 = snd (the (igetImpl acc 32 16 10 (Some [1]) [2] None None False ex1))"

definition ex_done :: "vc \<Rightarrow> vc" where
  "ex_done st = snd (the (processDataCqe acc (\<lambda>q. True) WC_RDMA_WRITE (DataQp 0) 0 65536 st))"

definition ex_c :: "queue \<Rightarrow> nat" where "ex_c = next_c (\<lambda>q. 0) (DataQp 0)"

lemma reqs_free_None: "whole st c \<Longrightarrow> reqs_free st [None]"
  using invD(7) [OF goodD(1) [OF wholeD(1)]] by (simp add: reqs_free_def inv_reqs_def)

lemma ex_run0: "vc_run K ex0 (\<lambda>q. 0)"
  unfolding ex0_def
  by (rule vc_run.new [of cv SAME_RACK 1 ex_cfg ex_cfg])
    (simp_all add: setDefaultQPConfig_def configList_def applyQPConfigList_def limitQPConfig_def ex_cfg_def HARDCODED_MAX_QPS_def MAX_SEND_WR_def)

lemma ex_run1:
  assumes "Put \<in> K"
  shows "vc_run K ex1 (\<lambda>q. 0)"
proof -
  note W = run_whole [OF ex_run0 [of K]]
  have p: "put_ok ex0 ex_put" by (simp add: put_ok_def keys_ok_def ex_put_def config_ok_def ex0_def vc_new_def)
  have r: "reqs_free ex0 [p_req ex_put]" using reqs_free_None [OF W] by (simp add: ex_put_def)
  obtain res st' where "iputImpl acc ex_put False ex0 = Some (res, st')" by (rule iput_whole [OF W p r, of False])
  then have "iputImpl acc ex_put False ex0 = Some (res, ex1)" by (simp add: ex1_def)
  then show ?thesis by (rule vc_run.put [OF ex_run0 assms p r])
qed

lemma ex_run2: "vc_run UNIV ex2 (\<lambda>q. 0)"
proof -
  note R = ex_run1 [of UNIV, simplified]
  note W = run_whole [OF R]
  have "devs ex1 = 1" by code_simp
  then have k: "keys_ok ex1 (Some [1]) [2]" "config_ok None" by (simp_all add: keys_ok_def config_ok_def)
  obtain res st' where "igetImpl acc 32 16 10 (Some [1]) [2] None None False ex1 = Some (res, st')"
    by (rule iget_whole [OF W k reqs_free_None [OF W], of 32 16 10 False])
  then have "igetImpl acc 32 16 10 (Some [1]) [2] None None False ex1 = Some (res, ex2)" by (simp add: ex2_def)
  then show ?thesis by (rule vc_run.get [OF R UNIV_I k reqs_free_None [OF W]])
qed

definition ex_wr :: work_req where
  "ex_wr = \<lparr>w_id = 65536, w_op = WR_RDMA_WRITE_WITH_IMM, w_local = 16, w_length = 10, w_lkey = 1, w_remote = 32, w_rkey = 2, w_imm = 0x80000000, w_val = 0\<rparr>"

lemma ex_wire1: "wire ex1 = [(DataQp 0, Piece Put 0, ex_wr)]"
  unfolding ex_wr_def by code_simp

lemma ex_wire2: "wire ex2 = [(DataQp 0, Piece Put 0, ex_wr)]"
  unfolding ex_wr_def by code_simp

lemma ex_head: "wire st = [(DataQp 0, Piece Put 0, ex_wr)] \<Longrightarrow> inflight st (\<lambda>q. 0) (DataQp 0) = [(Piece Put 0, ex_wr)]"
  by (simp add: inflight_def posts_def)

lemma ex_done_run:
  assumes R: "vc_run K st (\<lambda>q. 0)" and w: "wire st = [(DataQp 0, Piece Put 0, ex_wr)]"
  shows "vc_run K (ex_done st) ex_c"
proof -
  note h = ex_head [OF w]
  have p: "wc_of (Piece Put 0) ex_wr = WC_RDMA_WRITE" "w_id ex_wr = 65536" by (simp_all add: wc_of_def ex_wr_def)
  obtain st' where s: "processDataCqe acc (\<lambda>q. True) (wc_of (Piece Put 0) ex_wr) (DataQp 0) 0 (w_id ex_wr) st = Some (commSuccess, st')"
    by (rule completion_ok [OF run_whole [OF R] h, of "\<lambda>q. True" 0])
  then have "st' = ex_done st" unfolding p by (simp add: ex_done_def)
  then show ?thesis unfolding ex_c_def using vc_run.completion [OF R h s] by simp
qed

definition idle :: "vc \<Rightarrow> (queue \<Rightarrow> nat) \<Rightarrow> bool" where
  "idle st c \<longleftrightarrow> (\<forall>q. inflight st c q = [])"

lemma ex_idle: "wire st = [(DataQp 0, Piece Put 0, ex_wr)] \<Longrightarrow> idle st ex_c"
  by (simp add: idle_def inflight_def posts_def ex_c_def)

section \<open>The properties\<close>

text \<open>C6: Whatever puts, gets, notifications, atomics and arrivals there were before, in any order, the completion of the
  oldest work request of any queue pair is processed with success: no check of the completion path fails, no reference
  count drops below zero, nothing aborts.\<close>

theorem completion_never_aborts:
  assumes "vc_run K st c" "inflight st c q = (t, w) # xs"
  shows "\<exists>st'. processDataCqe acc refill (wc_of t w) q imm (w_id w) st = Some (commSuccess, st')"
  by (rule completion_ok [OF run_whole [OF assms(1)] assms(2), of refill imm]) blast

theorem completion_never_aborts_witness:
  "\<exists>st'. processDataCqe acc (\<lambda>q. True) (wc_of (Piece Put 0) ex_wr) (DataQp 0) 0 (w_id ex_wr) ex2 = Some (commSuccess, st')"
  by (rule completion_never_aborts [OF ex_run2 ex_head [OF ex_wire2]])

text \<open>C15: When the oldest work request of a data queue pair is a piece of a put (or get), the entry at the head of the
  queue is the entry of that piece, with the pointer that is read on this kind of completion, and the operation it points
  to is alive and waits for it.\<close>

theorem queue_entry_type:
  assumes "vc_run K st c" "i < length (wqes st)" "inflight st c (DataQp i) = (Piece k j, w) # xs"
  shows "\<exists>p qs. wqes st ! i = \<lparr>q_wrId = w_id w, q_kind = k, q_op = j\<rparr> # qs \<and> p \<in> set (ops k st) \<and> o_id p = j \<and> 0 < o_outstanding p"
proof -
  have v: "inv st c" using goodD(1) wholeD(1) run_whole [OF assms(1)] by blast
  obtain p where p: "wqes st ! i = \<lparr>q_wrId = w_id w, q_kind = k, q_op = j\<rparr> # concat (map wqe_of xs)"
    "find (\<lambda>p. o_id p = j) (ops k st) = Some p" "0 < o_outstanding p"
    unfolding ops_def by (rule piece_head [OF v assms(2,3)]) blast
  then have "p \<in> set (ops k st)" "o_id p = j" by (auto simp: find_Some_iff)
  then show ?thesis using p(1,3) by blast
qed

theorem queue_entry_type_witness:
  "\<exists>p qs. wqes ex2 ! 0 = \<lparr>q_wrId = w_id ex_wr, q_kind = Put, q_op = 0\<rparr> # qs \<and> p \<in> set (ops Put ex2) \<and> o_id p = 0 \<and> 0 < o_outstanding p"
  by (rule queue_entry_type [OF ex_run2 _ ex_head [OF ex_wire2]]) code_simp

text \<open>C8: The pieces that were posted for an operation cover its message from the front without a gap or an overlap, up to
  its offset; when the operation is not pending any more, they cover all of it.\<close>

theorem pieces_cover:
  assumes "vc_run K st c" "p \<in> set (ops k st)"
  shows "spans (l_addr k p) (r_addr k p) 0 (pieces k (o_id p) st) = Some (o_offset p) \<and> (o_offset p = o_len p \<or> p \<in> set (pend (io_of k st)))"
proof -
  have "spans (l_addr k p) (r_addr k p) 0 (pieces k (o_id p) st) = Some (o_offset p)"
    using wholeD(2) [OF run_whole [OF assms(1)]] assms(2) unfolding traced_def tiled_def by blast
  moreover have "\<forall>p \<in> set (outst (io_of k st)). o_offset p = o_len p"
    using invD(2) [OF goodD(1) [OF wholeD(1) [OF run_whole [OF assms(1)]]], of k] unfolding inv_ops_def by blast
  ultimately show ?thesis using assms(2) by (auto simp: ops_def)
qed

theorem pieces_cover_witness:
  "spans 16 32 0 (pieces Put 0 ex2) = Some 10"
proof -
  obtain p where p: "ops Put ex2 = [p]" "o_id p = 0" "o_offset p = 10" "l_addr Put p = 16" "r_addr Put p = 32"
  proof
    show "ops Put ex2 = [hd (ops Put ex2)]" by code_simp
    show "o_id (hd (ops Put ex2)) = 0" by code_simp
    show "o_offset (hd (ops Put ex2)) = 10" by code_simp
    show "l_addr Put (hd (ops Put ex2)) = 16" by code_simp
    show "r_addr Put (hd (ops Put ex2)) = 32" by code_simp
  qed
  then show ?thesis using pieces_cover [OF ex_run2, of p Put] by simp
qed

lemma one_kind_empty:
  assumes "vc_run {k} st c" "idle st c"
  shows "held st = [] \<and> pend (io_of k st) = []"
proof -
  note W = run_whole [OF assms(1)]
  have z: "\<And>q. inflight st c q = []" using assms(2) by (simp add: idle_def)
  note Q = quiet [OF W z]
  have p: "pend (io_of k st) = []" using run_alive [OF assms(1)] Q(1) [of k] by blast
  have "ops k' st = []" for k'
  proof (cases "k' = k")
    case True
    then show ?thesis using p Q(3) [of k] by (simp add: ops_def)
  next
    case False
    then show ?thesis using run_clean [OF assms(1), of k'] by (simp add: clean_def)
  qed
  moreover have "fast (puts st) = []" "fast (gets st) = []" using Q(2) [of Put] Q(2) [of Get] by simp_all
  ultimately show ?thesis using p Q(4-6) by (simp add: held_def)
qed

text \<open>C7: A connection that is used for puts only (or gets only) never gets stuck. Take any state of it, from which on only the
  driver acts: when every posted work request is complete, nothing waits any more, and from that state on each request was completed
  exactly as often as something waited for it; a request that had no other reference left is marked complete.\<close>

theorem one_kind_drains:
  assumes "vc_run {k} st c" "vc_drain st c st' c'" "idle st' c'"
  shows "held st' = [] \<and> pend (io_of k st') = [] \<and>
    refCount (reqs st' i) = refCount (reqs st i) - int (count_list (held st) (Some i)) \<and>
    (0 < refCount (reqs st i) \<and> refCount (reqs st i) = int (count_list (held st) (Some i)) \<longrightarrow> is_complete (reqs st' i))"
proof -
  have R: "vc_run {k} st' c'" and a: "acct st st'" using drain_acct [OF assms(2,1)] by blast+
  note e = one_kind_empty [OF R assms(3)]
  have "waits i st' = 0" "waits i st = count_list (held st) (Some i)" using e by (simp_all add: waits_def)
  then show ?thesis using e a [unfolded acct_def, THEN spec, of i] by simp
qed

definition ex_req :: vc where "ex_req = snd (the (iputImpl acc (ex_put\<lparr>p_req := Some 0\<rparr>) False ex0))"

lemma ex_wire_req: "wire ex_req = [(DataQp 0, Piece Put 0, ex_wr)]"
  unfolding ex_wr_def by code_simp

lemma ex_run_req: "vc_run {Put} ex_req (\<lambda>q. 0)"
proof -
  let ?p = "ex_put\<lparr>p_req := Some 0\<rparr>"
  note W = run_whole [OF ex_run0 [of "{Put}"]]
  have p: "put_ok ex0 ?p" by (simp add: put_ok_def keys_ok_def ex_put_def config_ok_def ex0_def vc_new_def)
  have "reqs ex0 = (\<lambda>_. req_new)" "held ex0 = []" by (simp_all add: ex0_def vc_new_def held_def ops_def io_of_def io_new_def)
  then have r: "reqs_free ex0 [p_req ?p]" by (simp add: reqs_free_def req_new_def)
  obtain res st' where "iputImpl acc ?p False ex0 = Some (res, st')" by (rule iput_whole [OF W p r, of False])
  then have "iputImpl acc ?p False ex0 = Some (res, ex_req)" by (simp add: ex_req_def)
  then show ?thesis by (rule vc_run.put [OF ex_run0 singletonI p r])
qed

theorem one_kind_drains_witness: "held (ex_done ex_req) = [] \<and> is_complete (reqs (ex_done ex_req) 0)"
proof -
  note h = ex_head [OF ex_wire_req]
  have p: "wc_of (Piece Put 0) ex_wr = WC_RDMA_WRITE" "w_id ex_wr = 65536" by (simp_all add: wc_of_def ex_wr_def)
  obtain st' where s: "processDataCqe acc (\<lambda>q. True) (wc_of (Piece Put 0) ex_wr) (DataQp 0) 0 (w_id ex_wr) ex_req = Some (commSuccess, st')"
    by (rule completion_ok [OF run_whole [OF ex_run_req] h, of "\<lambda>q. True" 0])
  then have "st' = ex_done ex_req" unfolding p by (simp add: ex_done_def)
  then have d: "vc_drain ex_req (\<lambda>q. 0) (ex_done ex_req) ex_c"
    unfolding ex_c_def using vc_drain.drain_completion [OF vc_drain.drain_start h s] by simp
  have "wire (ex_done ex_req) = [(DataQp 0, Piece Put 0, ex_wr)]" unfolding ex_wr_def by code_simp
  then have i: "idle (ex_done ex_req) ex_c" by (rule ex_idle)
  have "refCount (reqs ex_req 0) = 1" "count_list (held ex_req) (Some 0) = 1" by code_simp+
  then show ?thesis using one_kind_drains [OF ex_run_req d i, of 0] by simp
qed

text \<open>A connection with puts and gets can get stuck: a get that finds all queue pairs full of puts is not posted when
  the puts complete. Here everything that was posted is complete, and the get waits for a completion that cannot come.\<close>

lemma get_behind_put_stuck:
  "vc_run UNIV (ex_done ex2) ex_c \<and> idle (ex_done ex2) ex_c \<and> length (pend (gets (ex_done ex2))) = 1 \<and> wqes (ex_done ex2) = [[]]"
proof -
  have "wire (ex_done ex2) = [(DataQp 0, Piece Put 0, ex_wr)]" unfolding ex_wr_def by code_simp
  then have "idle (ex_done ex2) ex_c" by (rule ex_idle)
  moreover have "vc_run UNIV (ex_done ex2) ex_c" by (rule ex_done_run [OF ex_run2 ex_wire2])
  moreover have "length (pend (gets (ex_done ex2))) = 1" "wqes (ex_done ex2) = [[]]" by code_simp+
  ultimately show ?thesis by blast
qed

lemma data_length:
  "list_all data_tag xs \<Longrightarrow>
   length xs = length (concat (map wqe_of xs)) + length (concat (map (fast_id Put) xs)) + length (concat (map (fast_id Get) xs))"
proof (induction xs)
  case (Cons x xs)
  have "length (wqe_of x) + length (fast_id Put x) + length (fast_id Get x) = 1"
    using Cons.prems by (cases x rule: data_tag.cases; cases "fst x"; auto split: op_kind.splits intro: op_kind.exhaust)
  then show ?case using Cons by simp
qed simp

text \<open>C16: On a queue pair there are never more work requests than the configured number of messages; queue pair 0, which
  also takes the fast operations, can have twice as many when the connection is used for puts and gets. There are never
  more notifications in flight than the queue pair was created for.\<close>

theorem inflight_bound:
  assumes "vc_run K st c" "i < length (wqes st)"
  shows "length (inflight st c (DataQp i)) \<le> (if i = 0 \<and> Put \<in> K \<and> Get \<in> K then 2 else 1) * nat (maxQpMsgs st) \<and>
    length (inflight st c NotifyQp) \<le> MAX_SEND_WR"
proof -
  note W = run_whole [OF assms(1)]
  have v: "inv st c" and b: "bound st" using goodD [OF wholeD(1) [OF W]] by blast+
  note V = invD [OF v]
  have d: "concat (map wqe_of (inflight st c (DataQp i))) = wqes st ! i" "list_all data_tag (inflight st c (DataQp i))"
    "\<And>k. concat (map (fast_id k) (inflight st c (DataQp i))) = (if i = 0 then map fst (fast (io_of k st)) else [])"
    using V(3) assms(2) unfolding inv_data_def by blast+
  have l: "length (inflight st c (DataQp i)) = length (wqes st ! i) + (if i = 0 then length (fast (puts st)) + length (fast (gets st)) else 0)"
    using data_length [OF d(2)] unfolding d(1,3) by simp
  have "map (w_id \<circ> snd) (inflight st c NotifyQp) = map n_wrId (outN st)" "length (outN st) \<le> MAX_SEND_WR"
    using V(5) unfolding inv_notify_def by blast+
  then have n: "length (inflight st c NotifyQp) \<le> MAX_SEND_WR" by (metis length_map)
  show ?thesis
  proof (cases "i = 0")
    case False
    then have "length (wqes st ! i) \<le> nat (maxQpMsgs st)" using b assms(2) unfolding bound_def by blast
    then show ?thesis using False l n by simp
  next
    case True
    have z: "length (fast (io_of k st)) + length (filter (\<lambda>q. q_kind q = k) (wqes st ! 0)) \<le> nat (maxQpMsgs st)" for k
      using b unfolding bound_def by blast
    have cl: "length (fast (io_of k st)) + length (filter (\<lambda>q. q_kind q = k) (wqes st ! 0)) = 0" if "k \<notin> K" for k
    proof -
      have c: "clean k st" by (rule run_clean [OF assms(1) that])
      then have "q_kind q \<noteq> k" if "q \<in> set (concat (wqes st))" for q
        using no_ops_no_wqes [OF V(2) _ that] by (simp add: clean_def)
      moreover have "wqes st ! 0 \<in> set (wqes st)" using wholeD(4) [OF W] by (rule nth_mem)
      ultimately have "filter (\<lambda>q. q_kind q = k) (wqes st ! 0) = []" by (auto simp: filter_empty_conv)
      then show ?thesis using c by (simp add: clean_def)
    qed
    have s: "length (inflight st c (DataQp i)) =
        (length (fast (io_of Put st)) + length (filter (\<lambda>q. q_kind q = Put) (wqes st ! 0))) +
        (length (fast (io_of Get st)) + length (filter (\<lambda>q. q_kind q = Get) (wqes st ! 0)))"
      using l True kinds_length [of "wqes st ! 0"] by simp
    show ?thesis
    proof (cases "Put \<in> K \<and> Get \<in> K")
      case True
      then show ?thesis using s n \<open>i = 0\<close> z [of Put] z [of Get] by simp
    next
      case False
      then consider "Put \<notin> K" | "Get \<notin> K" by blast
      then show ?thesis using s n \<open>i = 0\<close> z [of Put] z [of Get] cl [of Put] cl [of Get] by cases simp_all
    qed
  qed
qed

theorem inflight_bound_witness: "length (inflight ex2 (\<lambda>q. 0) (DataQp 0)) \<le> 2 * nat (maxQpMsgs ex2)"
proof -
  have "0 < length (wqes ex2)" by code_simp
  from inflight_bound [OF ex_run2 this] show ?thesis by simp
qed

text \<open>Twice the limit is reached: a fast put and a fast get.\<close>

lemma twice_the_limit:
  "let st = snd (the (igetImpl acc 32 16 10 (Some [1]) [2] None None True (snd (the (iputImpl acc ex_put True ex0)))))
   in map (\<lambda>(q, t, w). q) (wire st) = [DataQp 0, DataQp 0] \<and> maxQpMsgs st = 1"
  by code_simp

text \<open>C18: A batch of puts that qualifies for the fast path, which is one chain of work requests, posts exactly what the same
  puts post one after another on the fast path, and leaves the same state.\<close>

theorem batch_is_fast_puts:
  assumes "vc_run K st c" "ps \<noteq> []" "list_all (\<lambda>p. isFastPutValid (p_config p) (p_len p) (length ps) st) ps" "list_all (fast_put_ok st) ps"
  shows "iputBatchImpl acc ps st = iput_fast_each ps st \<and>
    (\<exists>st'. iput_fast_each ps st = Some (commSuccess, st') \<and> length (wire st') = length (wire st) + length ps)"
proof -
  have c: "cfg_ok st" by (rule wholeD(3) [OF run_whole [OF assms(1)]])
  obtain d where d: "getIbDevFromQpIdx 0 st = Some d" "d < nat (devs st)" by (rule dev0 [OF c])
  have f: "\<forall>p \<in> set ps. fast_put_ok st p" using assms(4) by (simp add: list_all_iff)
  have "length (wire (fold (\<lambda>p s. fast_put_st p d s) ps st)) = length (wire st) + length ps" for st
    by (induction ps arbitrary: st) (simp_all add: fast_put_st_fields)
  then show ?thesis using batch_eq [OF c assms(2,3) f d] fast_each_eq [OF assms(3) f d] by simp
qed

definition ex_wide :: vc where "ex_wide = vc_new 1 (ex_cfg\<lparr>qpMsgs := 4\<rparr>) 0 64"

theorem batch_is_fast_puts_witness: "iputBatchImpl acc [ex_put, ex_put] ex_wide = iput_fast_each [ex_put, ex_put] ex_wide"
proof -
  have R: "vc_run UNIV ex_wide (\<lambda>q. 0)"
    unfolding ex_wide_def
    by (rule vc_run.new [of cv SAME_RACK 1 "ex_cfg\<lparr>qpMsgs := 4\<rparr>"])
      (simp_all add: setDefaultQPConfig_def configList_def applyQPConfigList_def limitQPConfig_def ex_cfg_def HARDCODED_MAX_QPS_def MAX_SEND_WR_def)
  have v: "list_all (\<lambda>p. isFastPutValid (p_config p) (p_len p) (length [ex_put, ex_put]) ex_wide) [ex_put, ex_put]" by code_simp
  have f: "list_all (fast_put_ok ex_wide) [ex_put, ex_put]"
    by (simp add: fast_put_ok_def keys_ok_def ex_put_def ex_wide_def vc_new_def)
  show ?thesis using batch_is_fast_puts [OF R _ v f] by simp
qed

end
