(* ===== verification/Ib_Vc_Recv.thy ===== *)
theory Ib_Vc_Recv imports Ib_Vc_Run begin

text \<open>
  The two ends of a virtual connection: the immediate values that one end put on the wire arrive at the other, those of
  different queue pairs in any order, and \<^verbatim>\<open>writeImmRcvd\<close> counts the notifications.
\<close>

unbundle bit_operations_syntax

section \<open>The receiver\<close>

definition vc_mod :: nat where "vc_mod = 2 ^ 24"

lemma vc_mod_pos: "0 < vc_mod"
  by (simp add: vc_mod_def)

text \<open>
  \<open>flag j\<close>: message \<open>j\<close> notifies; \<open>N\<close> is the first message that has not been consumed, \<open>R\<close> those that arrived beyond it.
\<close>

definition receives :: "(nat \<Rightarrow> bool) \<Rightarrow> nat \<Rightarrow> nat set \<Rightarrow> (u32 \<times> bool) list \<Rightarrow> u32 \<Rightarrow> bool" where
  "receives flag N R m next \<longleftrightarrow> finite R \<and> R \<subseteq> {N..<N + vc_mod} \<and> next = of_nat (N mod vc_mod) \<and>
     (\<forall>j \<in> {N..<N + vc_mod}. map_of m (of_nat (j mod vc_mod)) = (if j \<in> R then Some (flag j) else None))"

lemma of_nat_vc_inj: "a < vc_mod \<Longrightarrow> b < vc_mod \<Longrightarrow> (of_nat a :: u32) = of_nat b \<Longrightarrow> a = b"
  by (simp add: vc_mod_def word_of_nat_eq_iff take_bit_nat_eq_self)

lemma vc_window_inj:
  "a \<in> {N..<N + vc_mod} \<Longrightarrow> b \<in> {N..<N + vc_mod} \<Longrightarrow> (of_nat (a mod vc_mod) :: u32) = of_nat (b mod vc_mod) \<Longrightarrow> a = b"
  by (rule mod_window_inj [of a N vc_mod b]) (auto intro: of_nat_vc_inj simp: vc_mod_def)

lemma next_seq: "((of_nat (N mod vc_mod) :: u32) + 1) AND kSeqNumMask = of_nat (Suc N mod vc_mod)"
proof -
  have "(of_nat (N mod vc_mod) :: u32) = of_nat N AND kSeqNumMask" by (simp only: and_mask_of_nat vc_mod_def)
  then show ?thesis by (simp only: seq_next) (simp only: and_mask_of_nat vc_mod_def)
qed

text \<open>The next message is consumed: taken out of the map, or never put there.\<close>

lemma receives_next:
  assumes r: "receives flag N R m next" and m': "m' = AList.delete next m"
  shows "receives flag (Suc N) (R - {N}) m' ((next + 1) AND kSeqNumMask)"
proof -
  have R: "finite R" "R \<subseteq> {N..<N + vc_mod}" and nx: "next = of_nat (N mod vc_mod)"
    and mp: "\<And>j. j \<in> {N..<N + vc_mod} \<Longrightarrow> map_of m (of_nat (j mod vc_mod)) = (if j \<in> R then Some (flag j) else None)"
    using r unfolding receives_def by blast+
  have "map_of m' (of_nat (j mod vc_mod)) = (if j \<in> R - {N} then Some (flag j) else None)" if j: "j \<in> {Suc N..<Suc N + vc_mod}" for j
  proof (cases "j = N + vc_mod")
    case True
    then have "j \<notin> R" using R(2) by auto
    then show ?thesis using True by (simp add: m' nx delete_conv')
  next
    case False
    with j have jw: "j \<in> {N..<N + vc_mod}" "j \<noteq> N" by auto
    have "N \<in> {N..<N + vc_mod}" using vc_mod_pos by simp
    then have "(of_nat (j mod vc_mod) :: u32) \<noteq> next" using vc_window_inj [OF jw(1), of N] jw(2) unfolding nx by blast
    then show ?thesis using mp [OF jw(1)] jw(2) by (simp add: m' delete_conv')
  qed
  moreover have "R - {N} \<subseteq> {Suc N..<Suc N + vc_mod}" using R(2) by (auto simp: subset_iff)
  ultimately show ?thesis using R(1) next_seq [of N] unfolding receives_def nx by blast
qed

lemma consume_receives:
  "receives flag N R m next \<Longrightarrow>
   \<exists>m' next'. consume m next n = (m', next', n + int (notifies flag N (run_end N R))) \<and>
     receives flag (run_end N R) {j \<in> R. run_end N R \<le> j} m' next'"
proof (induction N R arbitrary: m "next" n rule: run_end.induct)
  case (1 N R)
  have R: "finite R" "R \<subseteq> {N..<N + vc_mod}" and nx: "next = of_nat (N mod vc_mod)"
    and mp: "\<And>j. j \<in> {N..<N + vc_mod} \<Longrightarrow> map_of m (of_nat (j mod vc_mod)) = (if j \<in> R then Some (flag j) else None)"
    using "1.prems" unfolding receives_def by blast+
  have mN: "map_of m next = (if N \<in> R then Some (flag N) else None)" using mp [of N] vc_mod_pos by (simp add: nx)
  show ?case
  proof (cases "N \<in> R")
    case False
    then have e: "run_end N R = N" by (simp add: run_end.simps [of N R])
    have "{j \<in> R. N \<le> j} = R" using R(2) by auto
    then show ?thesis using "1.prems" mN False unfolding e by (simp add: consume.simps [of m] notifies_def)
  next
    case True
    have e: "run_end N R = run_end (Suc N) (R - {N})" using True R(1) by (simp add: run_end.simps [of N R])
    have c: "consume m next n = consume (AList.delete next m) ((next + 1) AND kSeqNumMask) (if flag N then n + 1 else n)"
      using mN True by (simp add: consume.simps [of m])
    from "1.IH" [OF conjI [OF R(1) True] receives_next [OF "1.prems" refl], of "if flag N then n + 1 else n"]
    obtain m' next' where I: "consume m next n =
        (m', next', (if flag N then n + 1 else n) + int (notifies flag (Suc N) (run_end N R)))"
      "receives flag (run_end N R) {j \<in> R - {N}. run_end N R \<le> j} m' next'"
      unfolding c e by blast
    have "finite (R - {N})" using R(1) by simp
    from run_end_props [OF this, of "Suc N"] have s: "Suc N \<le> run_end N R" unfolding e by blast
    have "(if flag N then n + 1 else n) + int (notifies flag (Suc N) (run_end N R)) = n + int (notifies flag N (run_end N R))"
      using s notifies_Suc [of N "run_end N R" flag] by simp
    moreover have "{j \<in> R - {N}. run_end N R \<le> j} = {j \<in> R. run_end N R \<le> j}" using s by auto
    ultimately show ?thesis using I by auto
  qed
qed

section \<open>What the sender put on the wire arrives\<close>

definition imm :: "vc \<Rightarrow> nat \<Rightarrow> u32" where "imm s j = w_imm (snd (imms s ! j))"
definition fast_imm :: "vc \<Rightarrow> nat \<Rightarrow> bool" where "fast_imm s j \<longleftrightarrow> imm s j AND push_bit kFastPutBit 1 \<noteq> 0"
definition notifying :: "vc \<Rightarrow> nat \<Rightarrow> bool" where "notifying s j \<longleftrightarrow> imm s j AND push_bit kNotifyBit 1 \<noteq> 0"

definition first_missing :: "nat list \<Rightarrow> nat" where "first_missing js = run_end 0 (set js)"

text \<open>
  \<open>deliveries s js r\<close>: the messages \<open>js\<close> of the sender \<open>s\<close> arrived at the receiver \<open>r\<close>, in this order. Any order is possible, but
  no message is \<open>2 ^ 24\<close> ahead of the first that is missing.
\<close>

inductive deliveries :: "vc \<Rightarrow> nat list \<Rightarrow> vc \<Rightarrow> bool" for s where
  start: "rcvNxt r = 0 \<Longrightarrow> rcvd r = [] \<Longrightarrow> notifyCount r = 0 \<Longrightarrow> deliveries s [] r"
| arrive: "\<lbrakk>deliveries s js r; j < length (imms s); j \<notin> set js; j < first_missing js + vc_mod;
    writeImmRcvd (DataQp i) (imm s j) r = Some r'\<rbrakk> \<Longrightarrow> deliveries s (js @ [j]) r'"

text \<open>No fast put arrives before a message that was sent earlier.\<close>

definition no_early_fast :: "vc \<Rightarrow> nat list \<Rightarrow> bool" where
  "no_early_fast s js \<longleftrightarrow> (\<forall>k < length js. fast_imm s (js ! k) \<longrightarrow> {..<js ! k} \<subseteq> set (take k js))"

lemma no_early_fast_snoc: "no_early_fast s (js @ [j]) \<longleftrightarrow> no_early_fast s js \<and> (fast_imm s j \<longrightarrow> {..<j} \<subseteq> set js)"
  by (auto simp: no_early_fast_def nth_append less_Suc_eq)

lemma first_missing_props: "{..<first_missing js} \<subseteq> set js \<and> first_missing js \<notin> set js"
  using run_end_props [of "set js" 0] by (simp add: first_missing_def lessThan_atLeast0)

lemma first_missing_unique: "{..<n} \<subseteq> set js \<Longrightarrow> n \<notin> set js \<Longrightarrow> first_missing js = n"
  using first_missing_props [of js] by (metis lessThan_iff linorder_neqE_nat subsetD)

lemma imm_seq_no:
  assumes "numbered s" "j < length (imms s)" "\<not> fast_imm s j"
  shows "imm s j AND kSeqNumMask = of_nat (j mod vc_mod)"
proof -
  obtain t w where x: "imms s ! j = (t, w)" by (cases "imms s ! j") auto
  have "imm_ok j (t, w)" using assms(1,2) x unfolding numbered_def by metis
  then show ?thesis using assms(3) x by (cases t) (simp_all add: imm_ok_def imm_def fast_imm_def and_mask_of_nat vc_mod_def)
qed

lemma run_end_next: "finite R \<Longrightarrow> run_end N (insert N R) = run_end (Suc N) (R - {N})"
  by (simp add: run_end.simps [of N "insert N R"])

lemma receives_fields: "receives flag N R (rcvd r) (rcvNxt r) \<Longrightarrow> finite R \<and> R \<subseteq> {N..<N + vc_mod}"
  by (simp add: receives_def)

lemma arrive_step:
  assumes r: "receives (notifying s) N R (rcvd r) (rcvNxt r)" "N \<notin> R" and n: "numbered s" "j < length (imms s)"
    and j: "j \<in> {N..<N + vc_mod}" "j \<notin> R" and f: "fast_imm s j \<longrightarrow> j = N"
    and w: "writeImmRcvd (DataQp i) (imm s j) r = Some r'"
  defines "N' \<equiv> run_end N (insert j R)"
  shows "receives (notifying s) N' {k \<in> insert j R. N' \<le> k} (rcvd r') (rcvNxt r') \<and>
    notifyCount r' = notifyCount r + int (notifies (notifying s) N N')"
proof (cases "fast_imm s j")
  case False
  have q: "imm s j AND kSeqNumMask = of_nat (j mod vc_mod)" by (rule imm_seq_no [OF n False])
  let ?m = "AList.update (of_nat (j mod vc_mod)) (notifying s j) (rcvd r)"
  have R: "finite R" "R \<subseteq> {N..<N + vc_mod}" "rcvNxt r = of_nat (N mod vc_mod)"
    and mp: "\<And>k. k \<in> {N..<N + vc_mod} \<Longrightarrow> map_of (rcvd r) (of_nat (k mod vc_mod)) = (if k \<in> R then Some (notifying s k) else None)"
    using r(1) unfolding receives_def by blast+
  have "map_of ?m (of_nat (k mod vc_mod)) = (if k \<in> insert j R then Some (notifying s k) else None)" if "k \<in> {N..<N + vc_mod}" for k
    using mp [OF that] vc_window_inj [OF that j(1)] by (cases "k = j") (auto simp: update_conv')
  then have "receives (notifying s) N (insert j R) ?m (rcvNxt r)" using R j(1) unfolding receives_def by blast
  from consume_receives [OF this, of "notifyCount r"] obtain m' next' where C:
    "consume ?m (rcvNxt r) (notifyCount r) = (m', next', notifyCount r + int (notifies (notifying s) N N'))"
    "receives (notifying s) N' {k \<in> insert j R. N' \<le> k} m' next'" unfolding N'_def by blast
  have "imm s j AND push_bit kFastPutBit 1 = 0" using False by (simp add: fast_imm_def)
  then have "r' = r\<lparr>rcvd := m', rcvNxt := next', notifyCount := notifyCount r + int (notifies (notifying s) N N')\<rparr>"
    using w C(1) q by (simp add: writeImmRcvd_def notifying_def)
  then show ?thesis using C(2) by simp
next
  case True
  then have jN: "j = N" using f by blast
  have R: "finite R" "R \<subseteq> {N..<N + vc_mod}" "rcvNxt r = of_nat (N mod vc_mod)"
    and mp: "\<And>k. k \<in> {N..<N + vc_mod} \<Longrightarrow> map_of (rcvd r) (of_nat (k mod vc_mod)) = (if k \<in> R then Some (notifying s k) else None)"
    using r(1) unfolding receives_def by blast+
  have "N \<in> {N..<N + vc_mod}" using vc_mod_pos by simp
  from mp [OF this] have "map_of (rcvd r) (rcvNxt r) = None" using r(2) R(3) by simp
  then have "AList.delete (rcvNxt r) (rcvd r) = rcvd r" by (simp add: AList.delete_eq map_of_eq_None_iff filter_id_conv image_iff) fastforce
  then have "receives (notifying s) (Suc N) (R - {N}) (rcvd r) ((rcvNxt r + 1) AND kSeqNumMask)"
    using receives_next [OF r(1) refl] by simp
  from consume_receives [OF this, of "notifyCount r + (if notifying s N then 1 else 0)"] obtain m' next' where C:
    "consume (rcvd r) ((rcvNxt r + 1) AND kSeqNumMask) (notifyCount r + (if notifying s N then 1 else 0)) =
      (m', next', notifyCount r + (if notifying s N then 1 else 0) + int (notifies (notifying s) (Suc N) (run_end (Suc N) (R - {N}))))"
    "receives (notifying s) (run_end (Suc N) (R - {N})) {k \<in> R - {N}. run_end (Suc N) (R - {N}) \<le> k} m' next'" by blast
  have e: "N' = run_end (Suc N) (R - {N})" unfolding N'_def jN by (rule run_end_next [OF R(1)])
  have "finite (R - {N})" using R(1) by simp
  from run_end_props [OF this, of "Suc N"] have sN: "Suc N \<le> N'" unfolding e by blast
  have "imm s j AND push_bit kFastPutBit 1 \<noteq> 0" using True by (simp add: fast_imm_def)
  then have "r' = r\<lparr>rcvd := m', rcvNxt := next', notifyCount := notifyCount r + (if notifying s N then 1 else 0) +
      int (notifies (notifying s) (Suc N) N')\<rparr>"
    using w C(1) unfolding jN by (simp add: writeImmRcvd_def notifying_def e split: if_splits)
  moreover have "{k \<in> R - {N}. N' \<le> k} = {k \<in> insert j R. N' \<le> k}" using sN jN by auto
  moreover have "(if notifying s N then 1 else 0) + int (notifies (notifying s) (Suc N) N') = int (notifies (notifying s) N N')"
    using sN notifies_Suc [of N N' "notifying s"] by simp
  ultimately show ?thesis using C(2) unfolding e by simp
qed

lemma deliveries_inv:
  assumes "deliveries s js r" "no_early_fast s js" "numbered s"
  shows "receives (notifying s) (first_missing js) {k \<in> set js. first_missing js \<le> k} (rcvd r) (rcvNxt r) \<and>
    notifyCount r = int (notifies (notifying s) 0 (first_missing js))"
  using assms
proof (induction rule: deliveries.induct)
  case (start r)
  then show ?case by (simp add: receives_def notifies_def first_missing_def run_end.simps [of 0 "{}"])
next
  case (arrive js r j i r')
  let ?M = "first_missing js" let ?R = "{k \<in> set js. ?M \<le> k}" let ?N = "run_end ?M (insert j ?R)"
  have f: "no_early_fast s js" "fast_imm s j \<longrightarrow> {..<j} \<subseteq> set js" using arrive.prems(1) by (simp_all add: no_early_fast_snoc)
  note IH = arrive.IH [OF f(1) arrive.prems(2)]
  note P = first_missing_props [of js]
  have jM: "?M \<le> j" using P arrive.hyps(3) by (auto simp: subset_iff not_less)
  have "?M \<notin> ?R" "j \<in> {?M..<?M + vc_mod}" "j \<notin> ?R" using P arrive.hyps(3,4) jM by auto
  moreover have "fast_imm s j \<longrightarrow> j = ?M" using f(2) P jM by (metis le_neq_implies_less lessThan_iff subsetD)
  ultimately have S: "receives (notifying s) ?N {k \<in> insert j ?R. ?N \<le> k} (rcvd r') (rcvNxt r')"
    "notifyCount r' = notifyCount r + int (notifies (notifying s) ?M ?N)"
    using arrive_step [OF _ _ arrive.prems(2) arrive.hyps(2) _ _ _ arrive.hyps(5), of ?M ?R] IH by blast+
  have "finite (insert j ?R)" by simp
  note E = run_end_props [OF this, of ?M]
  have sub: "{..<?N} \<subseteq> set (js @ [j])"
  proof
    fix x assume x: "x \<in> {..<?N}"
    show "x \<in> set (js @ [j])"
    proof (cases "x < ?M")
      case True
      then show ?thesis using P by auto
    next
      case False
      then have "x \<in> {?M..<?N}" using x by simp
      then have "x \<in> insert j ?R" using E by (meson subsetD)
      then show ?thesis by auto
    qed
  qed
  have "?N \<notin> set (js @ [j])" using E by auto
  from first_missing_unique [OF sub this] have N: "first_missing (js @ [j]) = ?N" .
  have "{k \<in> insert j ?R. ?N \<le> k} = {k \<in> set (js @ [j]). ?N \<le> k}" using E by auto
  moreover have "notifyCount r' = int (notifies (notifying s) 0 ?N)"
    using S(2) IH E notifies_split [of 0 ?M ?N "notifying s"] by simp
  ultimately show ?case using S(1) unfolding N by simp
qed

text \<open>C9: Let the immediate values that one end put on the wire arrive at the other in any order in which no fast put is before a message
  that was sent earlier. Then after every arrival the receiver has counted exactly the notifications of the messages before
  the first missing one. A fast put that arrives early breaks this: see \<open>early_fast_put_loses_notification\<close>.\<close>

theorem notifications_in_order:
  assumes "vc_run K s c" "deliveries s js r" "no_early_fast s js"
  shows "notifyCount r = int (card {j. {..j} \<subseteq> set js \<and> notifying s j})"
proof -
  have "numbered s" using wholeD(2) [OF run_whole [OF assms(1)]] by (simp add: traced_def)
  from deliveries_inv [OF assms(2,3) this] have c: "notifyCount r = int (notifies (notifying s) 0 (first_missing js))" by blast
  have "{..j} \<subseteq> set js \<longleftrightarrow> j < first_missing js" for j
    using first_missing_props [of js] by (auto simp: subset_iff) (metis not_less)
  then show ?thesis using c by (simp add: notifies_def)
qed

definition ex_recv :: vc where "ex_recv = the (writeImmRcvd (DataQp 0) 0x80000000 ex0)"

theorem notifications_in_order_witness: "notifyCount ex_recv = int (card {j. {..j} \<subseteq> {0} \<and> notifying ex1 j})"
proof -
  have i: "imms ex1 = [(Piece Put 0, ex_wr)]" unfolding imms_def ex_wire1 by (simp add: ex_wr_def)
  have m: "imm ex1 0 = 0x80000000" by (simp add: imm_def i) (simp add: ex_wr_def)
  have w: "writeImmRcvd (DataQp 0) 0x80000000 ex0 = Some ex_recv"
    by (simp add: ex_recv_def writeImmRcvd_def kFastPutBit_def Let_def split: prod.split)
  have s: "deliveries ex1 [] ex0" by (rule deliveries.start) (simp_all add: ex0_def vc_new_def)
  have d: "deliveries ex1 ([] @ [0]) ex_recv" by (rule deliveries.arrive [OF s, where i = 0]) (simp_all add: i m w vc_mod_def)
  have f: "no_early_fast ex1 ([] @ [0])" by (simp add: no_early_fast_def)
  from notifications_in_order [OF ex_run1 [of UNIV] d f] show ?thesis by simp
qed

text \<open>
  A fast put that is polled before an earlier message of another queue pair takes that message's number: here the two messages
  notify, both arrive, and one notification is lost.
\<close>

lemma early_fast_put_loses_notification:
  "let r = the (writeImmRcvd (DataQp 1) 0x80000000 (the (writeImmRcvd (DataQp 0) 0xC0000000 ex0)))
   in notifyCount r = 1 \<and> rcvd r = [(0, True)] \<and> rcvNxt r = 1"
  by code_simp

end
