(* ===== verification/Ib_Ctrl.thy ===== *)
theory Ib_Ctrl imports Ib_Vc begin

text \<open>
  The control messages of a virtual connection (\<^verbatim>\<open>comms/ctran/backends/ib/CtranIbVc.h\<close>): a send copies its message into one of
  128 registered packets and posts it, or waits for a packet; an arriving message runs a callback, is matched with the oldest
  receive, or is kept until a receive comes. A packet is its index. The caller leaves a message alone until its request is complete. Copies that check their size and fail are \<open>None\<close>.
\<close>

section \<open>Packets\<close>

type_synonym bytes = "8 word list"

definition MAX_PAYLOAD_SIZE :: nat where "MAX_PAYLOAD_SIZE = 4096"
definition MAX_CONTROL_MSGS :: nat where "MAX_CONTROL_MSGS = 128"

text \<open>Header: the type, padding and the size.\<close>

definition HEADER_SIZE :: nat where "HEADER_SIZE = 16"

record packet =
  k_type :: int
  k_payload :: bytes

definition copyFrom :: "int \<Rightarrow> bytes \<Rightarrow> packet option" where
  "copyFrom t b = (if length b > MAX_PAYLOAD_SIZE then None else Some \<lparr>k_type = t, k_payload = b\<rparr>)"

definition copyTo :: "packet \<Rightarrow> nat \<Rightarrow> bytes option" where
  "copyTo p n = (if length (k_payload p) \<noteq> n then None else Some (k_payload p))"

definition getPacketSize :: "packet \<Rightarrow> nat" where "getPacketSize p = HEADER_SIZE + length (k_payload p)"

section \<open>The state\<close>

record send_wr =
  sw_type :: int
  sw_payload :: bytes
  sw_req :: nat

record recv_wr =
  rw_dst :: nat
  rw_size :: nat
  rw_req :: nat

text \<open>
  \<open>s_sent\<close> is what was put on the control queue pair, oldest first; \<open>buf\<close> the memory of the receivers, \<open>calls\<close> the callbacks that
  were run.
\<close>

record ctrl =
  s_pkts :: "nat \<Rightarrow> packet"
  s_free :: "nat list"
  s_posted :: "nat list"
  s_reqs :: "nat list"
  s_enqueued :: "send_wr list"
  s_sent :: "packet list"
  r_posted :: "nat list"
  r_unexp :: "packet list"
  r_enqueued :: "recv_wr list"
  buf :: "nat \<Rightarrow> bytes"
  calls :: "packet list"
  c_reqs :: "nat \<Rightarrow> ib_req"

type_synonym cres = "(commResult \<times> ctrl) option"

definition complete_ctrl :: "nat \<Rightarrow> ctrl \<Rightarrow> commResult \<times> ctrl" where
  "complete_ctrl i st = (case req_complete (c_reqs st i) of (r, q) \<Rightarrow> (r, st\<lparr>c_reqs := (c_reqs st)(i := q)\<rparr>))"

text \<open>\<open>accept\<close> is the driver: does it take the packet?\<close>

definition postSendCtrlMsg :: "(packet \<Rightarrow> bool) \<Rightarrow> nat \<Rightarrow> ctrl \<Rightarrow> commResult \<times> ctrl" where
  "postSendCtrlMsg accept k st =
     (if accept (s_pkts st k) then (commSuccess, st\<lparr>s_sent := s_sent st @ [s_pkts st k]\<rparr>) else (commSystemError, st))"

text \<open>A free packet takes the message and is posted; common to both ways of sending.\<close>

definition post_from :: "(packet \<Rightarrow> bool) \<Rightarrow> int \<Rightarrow> bytes \<Rightarrow> nat \<Rightarrow> ctrl \<Rightarrow> cres" where
  "post_from accept t b req st =
     (case s_free st of
        [] \<Rightarrow> None
      | k # ks \<Rightarrow>
          (case copyFrom t b of
             None \<Rightarrow> None
           | Some p \<Rightarrow>
               (case postSendCtrlMsg accept k (st\<lparr>s_free := ks, s_pkts := (s_pkts st)(k := p)\<rparr>) of
                  (r, st1) \<Rightarrow>
                    if r \<noteq> commSuccess then Some (r, st1)
                    else Some (commSuccess, st1\<lparr>s_posted := s_posted st1 @ [k], s_reqs := s_reqs st1 @ [req]\<rparr>))))"

definition isendCtrlMsg :: "(packet \<Rightarrow> bool) \<Rightarrow> int \<Rightarrow> bytes \<Rightarrow> nat \<Rightarrow> ctrl \<Rightarrow> cres" where
  "isendCtrlMsg accept t b req st =
     (if s_free st = [] then Some (commSuccess, st\<lparr>s_enqueued := s_enqueued st @ [\<lparr>sw_type = t, sw_payload = b, sw_req = req\<rparr>]\<rparr>)
      else post_from accept t b req st)"

definition postEnqueuedSendWr :: "(packet \<Rightarrow> bool) \<Rightarrow> ctrl \<Rightarrow> cres" where
  "postEnqueuedSendWr accept st =
     (case s_enqueued st of
        [] \<Rightarrow> None
      | w # ws \<Rightarrow> post_from accept (sw_type w) (sw_payload w) (sw_req w) (st\<lparr>s_enqueued := ws\<rparr>))"

text \<open>The completion of a send.\<close>

definition send_complete :: "(packet \<Rightarrow> bool) \<Rightarrow> ctrl \<Rightarrow> cres" where
  "send_complete accept st =
     (case s_reqs st of
        [] \<Rightarrow> None
      | q # qs \<Rightarrow>
          (case complete_ctrl q (st\<lparr>s_reqs := qs\<rparr>) of
             (r, st1) \<Rightarrow>
               if r \<noteq> commSuccess then Some (r, st1)
               else (case s_posted st1 of
                       [] \<Rightarrow> None
                     | k # ks \<Rightarrow>
                         (let st2 = st1\<lparr>s_posted := ks, s_free := s_free st1 @ [k]\<rparr>
                          in if s_enqueued st2 \<noteq> [] then postEnqueuedSendWr accept st2 else Some (commSuccess, st2)))))"

section \<open>Receiving\<close>

definition irecvCtrlMsg :: "nat \<Rightarrow> nat \<Rightarrow> nat \<Rightarrow> ctrl \<Rightarrow> cres" where
  "irecvCtrlMsg dst n req st =
     (case r_unexp st of
        [] \<Rightarrow> Some (commSuccess, st\<lparr>r_enqueued := r_enqueued st @ [\<lparr>rw_dst = dst, rw_size = n, rw_req = req\<rparr>]\<rparr>)
      | p # ps \<Rightarrow>
          (case copyTo p n of
             None \<Rightarrow> None
           | Some b \<Rightarrow> Some (complete_ctrl req (st\<lparr>r_unexp := ps, buf := (buf st)(dst := b)\<rparr>))))"

definition enqueueUnexpWr :: "packet \<Rightarrow> ctrl \<Rightarrow> commResult \<times> ctrl" where
  "enqueueUnexpWr p st = (commSuccess, st\<lparr>r_unexp := r_unexp st @ [p]\<rparr>)"

definition matchRecvWr :: "packet \<Rightarrow> ctrl \<Rightarrow> cres" where
  "matchRecvWr p st =
     (case r_enqueued st of
        [] \<Rightarrow> None
      | w # ws \<Rightarrow>
          (case copyTo p (rw_size w) of
             None \<Rightarrow> None
           | Some b \<Rightarrow> Some (complete_ctrl (rw_req w) (st\<lparr>r_enqueued := ws, buf := (buf st)(rw_dst w := b)\<rparr>))))"

text \<open>
  The arrival of a packet: \<open>hasCb\<close> are the types with a callback, \<open>runCb\<close> is its result; \<open>refill\<close> says whether the driver takes the packet
  back.
\<close>

definition recv_complete :: "(int \<Rightarrow> bool) \<Rightarrow> (packet \<Rightarrow> commResult) \<Rightarrow> bool \<Rightarrow> packet \<Rightarrow> ctrl \<Rightarrow> cres" where
  "recv_complete hasCb runCb refill p st =
     (case r_posted st of
        [] \<Rightarrow> None
      | k # ks \<Rightarrow>
          (let st1 = st\<lparr>r_posted := ks\<rparr>
           in case (if hasCb (k_type p) then Some (runCb p, st1\<lparr>calls := calls st1 @ [p]\<rparr>)
                    else if r_enqueued st1 = [] then Some (enqueueUnexpWr p st1)
                    else matchRecvWr p st1) of
                None \<Rightarrow> None
              | Some (r, st2) \<Rightarrow>
                  if r \<noteq> commSuccess then Some (r, st2)
                  else if \<not> refill then Some (commSystemError, st2)
                  else Some (commSuccess, st2\<lparr>r_posted := r_posted st2 @ [k]\<rparr>)))"

text \<open>After \<^verbatim>\<open>prepCtrlMsgs\<close> and \<^verbatim>\<open>setupVc\<close>.\<close>

definition ctrl_new :: ctrl where
  "ctrl_new = \<lparr>s_pkts = (\<lambda>k. \<lparr>k_type = 0, k_payload = []\<rparr>), s_free = [0..<MAX_CONTROL_MSGS], s_posted = [], s_reqs = [], s_enqueued = [],
     s_sent = [], r_posted = [0..<MAX_CONTROL_MSGS], r_unexp = [], r_enqueued = [], buf = (\<lambda>d. []), calls = [], c_reqs = (\<lambda>i. req_new)\<rparr>"

section \<open>Sending in order\<close>

definition wr_packet :: "send_wr \<Rightarrow> packet" where "wr_packet w = \<lparr>k_type = sw_type w, k_payload = sw_payload w\<rparr>"

text \<open>
  \<open>ms\<close> are the messages handed to the connection, in order. Each packet is free or posted; a packet that is posted still holds what
  was posted; nothing waits while a packet is free.
\<close>

definition send_inv :: "(int \<times> bytes) list \<Rightarrow> ctrl \<Rightarrow> bool" where
  "send_inv ms st \<longleftrightarrow> distinct (s_free st @ s_posted st) \<and> set (s_free st @ s_posted st) = {..<MAX_CONTROL_MSGS} \<and>
     length (s_reqs st) = length (s_posted st) \<and> (s_enqueued st \<noteq> [] \<longrightarrow> s_free st = []) \<and>
     s_sent st @ map wr_packet (s_enqueued st) = map (\<lambda>(t, b). \<lparr>k_type = t, k_payload = b\<rparr>) ms \<and>
     length (s_posted st) \<le> length (s_sent st) \<and>
     map (s_pkts st) (s_posted st) = drop (length (s_sent st) - length (s_posted st)) (s_sent st) \<and>
     (\<forall>w \<in> set (s_enqueued st). length (sw_payload w) \<le> MAX_PAYLOAD_SIZE)"

abbreviation takes :: "packet \<Rightarrow> bool" where "takes \<equiv> \<lambda>p. True"

lemma drop_snoc: "n \<le> length xs \<Longrightarrow> drop n (xs @ [x]) = drop n xs @ [x]"
  by simp

lemma post_from_inv:
  assumes v: "distinct (s_free st @ s_posted st)" "set (s_free st @ s_posted st) = {..<MAX_CONTROL_MSGS}"
    "length (s_reqs st) = length (s_posted st)" "length (s_posted st) \<le> length (s_sent st)"
    "map (s_pkts st) (s_posted st) = drop (length (s_sent st) - length (s_posted st)) (s_sent st)"
    and f: "s_free st = k # ks" and b: "length b \<le> MAX_PAYLOAD_SIZE"
  obtains st' where "post_from takes t b req st = Some (commSuccess, st')" "distinct (s_free st' @ s_posted st')"
    "set (s_free st' @ s_posted st') = {..<MAX_CONTROL_MSGS}" "length (s_reqs st') = length (s_posted st')"
    "length (s_posted st') \<le> length (s_sent st')" "s_sent st' = s_sent st @ [\<lparr>k_type = t, k_payload = b\<rparr>]" "s_free st' = ks"
    "map (s_pkts st') (s_posted st') = drop (length (s_sent st') - length (s_posted st')) (s_sent st')" "s_enqueued st' = s_enqueued st"
    "s_reqs st' = s_reqs st @ [req]" "c_reqs st' = c_reqs st"
proof
  let ?p = "\<lparr>k_type = t, k_payload = b\<rparr>"
  let ?s = "st\<lparr>s_free := ks, s_pkts := (s_pkts st)(k := ?p), s_sent := s_sent st @ [?p], s_posted := s_posted st @ [k], s_reqs := s_reqs st @ [req]\<rparr>"
  show "post_from takes t b req st = Some (commSuccess, ?s)" using f b by (simp add: post_from_def copyFrom_def postSendCtrlMsg_def)
  have k: "k \<notin> set (s_posted st)" using v(1) f by auto
  show "distinct (s_free ?s @ s_posted ?s)" "set (s_free ?s @ s_posted ?s) = {..<MAX_CONTROL_MSGS}" using v(1,2) f by auto
  have "map ((s_pkts st)(k := ?p)) (s_posted st) = map (s_pkts st) (s_posted st)" using k by auto
  moreover have "length (s_sent st @ [?p]) - length (s_posted st @ [k]) = length (s_sent st) - length (s_posted st)" using v(4) by simp
  ultimately show "map (s_pkts ?s) (s_posted ?s) = drop (length (s_sent ?s) - length (s_posted ?s)) (s_sent ?s)" using v(5) by simp
qed (use v(3,4) in simp_all)

lemma isend_inv:
  assumes v: "send_inv ms st" and b: "length b \<le> MAX_PAYLOAD_SIZE"
  obtains st' where "isendCtrlMsg takes t b req st = Some (commSuccess, st')" "send_inv (ms @ [(t, b)]) st'"
    "s_reqs st' @ map sw_req (s_enqueued st') = s_reqs st @ map sw_req (s_enqueued st) @ [req]" "c_reqs st' = c_reqs st"
proof (cases "s_free st")
  case Nil
  let ?s = "st\<lparr>s_enqueued := s_enqueued st @ [\<lparr>sw_type = t, sw_payload = b, sw_req = req\<rparr>]\<rparr>"
  have "isendCtrlMsg takes t b req st = Some (commSuccess, ?s)" using Nil by (simp add: isendCtrlMsg_def)
  moreover have "send_inv (ms @ [(t, b)]) ?s" using v b Nil unfolding send_inv_def by (auto simp: wr_packet_def append_eq_append_conv2)
  ultimately show ?thesis using that by simp
next
  case (Cons k ks)
  then have e: "s_enqueued st = []" using v by (auto simp: send_inv_def)
  obtain st' where s: "post_from takes t b req st = Some (commSuccess, st')" "distinct (s_free st' @ s_posted st')"
    "set (s_free st' @ s_posted st') = {..<MAX_CONTROL_MSGS}" "length (s_reqs st') = length (s_posted st')"
    "length (s_posted st') \<le> length (s_sent st')" "s_sent st' = s_sent st @ [\<lparr>k_type = t, k_payload = b\<rparr>]" "s_free st' = ks"
    "map (s_pkts st') (s_posted st') = drop (length (s_sent st') - length (s_posted st')) (s_sent st')" "s_enqueued st' = s_enqueued st"
    "s_reqs st' = s_reqs st @ [req]" "c_reqs st' = c_reqs st"
    by (rule post_from_inv [of st k ks b t req]) (use v Cons b in \<open>auto simp: send_inv_def\<close>)
  have "isendCtrlMsg takes t b req st = Some (commSuccess, st')" using Cons s(1) by (simp add: isendCtrlMsg_def)
  moreover have "send_inv (ms @ [(t, b)]) st'" using v s(2-5,8) unfolding send_inv_def s(6,9) e by auto
  ultimately show ?thesis using that s(9-11) e by simp
qed

definition held_c :: "ctrl \<Rightarrow> nat list" where
  "held_c st = s_reqs st @ map sw_req (s_enqueued st) @ map rw_req (r_enqueued st)"

definition reqs_ok :: "ctrl \<Rightarrow> bool" where
  "reqs_ok st \<longleftrightarrow> (\<forall>i. int (count_list (held_c st) i) \<le> refCount (c_reqs st i))"

lemma complete_ctrl_ok:
  assumes "0 < refCount (c_reqs st i)"
  obtains q where "complete_ctrl i st = (commSuccess, st\<lparr>c_reqs := (c_reqs st)(i := q)\<rparr>)" "refCount q = refCount (c_reqs st i) - 1"
proof -
  obtain q where "req_complete (c_reqs st i) = (commSuccess, q)" "refCount q = refCount (c_reqs st i) - 1"
    using assms by (cases "refCount (c_reqs st i) = 1") (auto simp: req_complete_def Let_def)
  then show ?thesis using that by (simp add: complete_ctrl_def)
qed

text \<open>The completion of the oldest send: its packet is free again, or takes the next message that waits.\<close>

lemma send_complete_inv:
  assumes v: "send_inv ms st" "reqs_ok st" and p: "s_posted st \<noteq> []"
  obtains st' where "send_complete takes st = Some (commSuccess, st')" "send_inv ms st'" "reqs_ok st'"
    "r_enqueued st' = r_enqueued st" "r_unexp st' = r_unexp st" "buf st' = buf st" "calls st' = calls st" "r_posted st' = r_posted st"
proof -
  have V: "distinct (s_free st @ s_posted st)" "set (s_free st @ s_posted st) = {..<MAX_CONTROL_MSGS}"
    "length (s_reqs st) = length (s_posted st)" "s_enqueued st \<noteq> [] \<longrightarrow> s_free st = []"
    "s_sent st @ map wr_packet (s_enqueued st) = map (\<lambda>(t, b). \<lparr>k_type = t, k_payload = b\<rparr>) ms" "length (s_posted st) \<le> length (s_sent st)"
    "map (s_pkts st) (s_posted st) = drop (length (s_sent st) - length (s_posted st)) (s_sent st)"
    "\<forall>w \<in> set (s_enqueued st). length (sw_payload w) \<le> MAX_PAYLOAD_SIZE"
    using v(1) unfolding send_inv_def by blast+
  obtain k ks where k: "s_posted st = k # ks" using p by (cases "s_posted st") auto
  obtain q qs where q: "s_reqs st = q # qs" "length qs = length ks" using V(3) k by (cases "s_reqs st") auto
  have R: "int (count_list (held_c st) i) \<le> refCount (c_reqs st i)" for i using v(2) unfolding reqs_ok_def by blast
  have "0 < refCount (c_reqs (st\<lparr>s_reqs := qs\<rparr>) q)" using R [of q] by (simp add: held_c_def q(1))
  then obtain rq where C: "complete_ctrl q (st\<lparr>s_reqs := qs\<rparr>) = (commSuccess, st\<lparr>s_reqs := qs, c_reqs := (c_reqs st)(q := rq)\<rparr>)"
    "refCount rq = refCount (c_reqs st q) - 1" by (rule complete_ctrl_ok) simp
  let ?s = "st\<lparr>s_reqs := qs, c_reqs := (c_reqs st)(q := rq), s_posted := ks, s_free := s_free st @ [k]\<rparr>"
  have r: "reqs_ok ?s" unfolding reqs_ok_def
  proof
    fix i
    show "int (count_list (held_c ?s) i) \<le> refCount (c_reqs ?s i)"
      using R [of i] C(2) by (cases "i = q") (simp_all add: held_c_def q(1))
  qed
  have d: "map (s_pkts ?s) (s_posted ?s) = drop (length (s_sent ?s) - length (s_posted ?s)) (s_sent ?s)"
  proof -
    have "map (s_pkts st) ks = tl (drop (length (s_sent st) - length (s_posted st)) (s_sent st))" using V(7) k by (metis list.sel(3) list.simps(9))
    then show ?thesis using V(6) k by (simp add: tl_drop drop_Suc [symmetric] Suc_diff_Suc flip: drop_Suc)
  qed
  have dist: "distinct (s_free ?s @ s_posted ?s)" "set (s_free ?s @ s_posted ?s) = {..<MAX_CONTROL_MSGS}" using V(1,2) k by auto
  have len: "length (s_reqs ?s) = length (s_posted ?s)" "length (s_posted ?s) \<le> length (s_sent ?s)" using q(2) V(6) k by simp_all
  have e: "send_complete takes st = (if s_enqueued ?s \<noteq> [] then postEnqueuedSendWr takes ?s else Some (commSuccess, ?s))"
    by (simp add: send_complete_def q(1) C(1) k Let_def)
  show ?thesis
  proof (cases "s_enqueued st")
    case Nil
    have "send_inv ms ?s" unfolding send_inv_def using dist len d V(5) Nil by simp
    then show ?thesis using that [of ?s] e Nil r by simp
  next
    case (Cons w ws)
    then have f: "s_free (?s\<lparr>s_enqueued := ws\<rparr>) = [k]" using V(4) by simp
    have b: "length (sw_payload w) \<le> MAX_PAYLOAD_SIZE" using V(8) Cons by simp
    obtain st' where s: "post_from takes (sw_type w) (sw_payload w) (sw_req w) (?s\<lparr>s_enqueued := ws\<rparr>) = Some (commSuccess, st')"
      "distinct (s_free st' @ s_posted st')"
      "set (s_free st' @ s_posted st') = {..<MAX_CONTROL_MSGS}" "length (s_reqs st') = length (s_posted st')"
      "length (s_posted st') \<le> length (s_sent st')" "s_sent st' = s_sent (?s\<lparr>s_enqueued := ws\<rparr>) @ [\<lparr>k_type = sw_type w, k_payload = sw_payload w\<rparr>]"
      "s_free st' = []"
      "map (s_pkts st') (s_posted st') = drop (length (s_sent st') - length (s_posted st')) (s_sent st')"
      "s_enqueued st' = s_enqueued (?s\<lparr>s_enqueued := ws\<rparr>)"
      "s_reqs st' = s_reqs (?s\<lparr>s_enqueued := ws\<rparr>) @ [sw_req w]" "c_reqs st' = c_reqs (?s\<lparr>s_enqueued := ws\<rparr>)"
      by (rule post_from_inv [of "?s\<lparr>s_enqueued := ws\<rparr>" k "[]" "sw_payload w" "sw_type w" "sw_req w"]) (use dist len d f b in simp_all)
    have fr: "r_enqueued st' = r_enqueued st" "r_unexp st' = r_unexp st" "buf st' = buf st" "calls st' = calls st" "r_posted st' = r_posted st"
      using s(1) f b by (auto simp: post_from_def copyFrom_def postSendCtrlMsg_def)
    have "send_inv ms st'" unfolding send_inv_def using s(2-5,8) s(6,7,9) V(5,8) Cons by (simp add: wr_packet_def)
    moreover have "reqs_ok st'" unfolding reqs_ok_def
    proof
      fix i
      have "int (count_list (held_c ?s) i) \<le> refCount (c_reqs ?s i)" using r unfolding reqs_ok_def by blast
      then show "int (count_list (held_c st') i) \<le> refCount (c_reqs st' i)"
        using s(9-11) fr(1) Cons by (simp add: held_c_def)
    qed
    moreover have "send_complete takes st = Some (commSuccess, st')" unfolding e using Cons s(1) by (simp add: postEnqueuedSendWr_def)
    ultimately show ?thesis using that fr by blast
  qed
qed

section \<open>Matching receives\<close>

text \<open>
  \<open>us\<close> are the messages without a callback that arrived, \<open>rs\<close> the receives, both in order: the \<open>i\<close>-th message goes to the \<open>i\<close>-th
  receive; what has no partner yet waits.
\<close>

definition recv_inv :: "(int \<Rightarrow> bool) \<Rightarrow> packet list \<Rightarrow> recv_wr list \<Rightarrow> ctrl \<Rightarrow> bool" where
  "recv_inv hasCb ps rs st \<longleftrightarrow> (let us = filter (\<lambda>p. \<not> hasCb (k_type p)) ps in
     calls st = filter (\<lambda>p. hasCb (k_type p)) ps \<and> r_unexp st = drop (length rs) us \<and> r_enqueued st = drop (length us) rs \<and>
     length (r_posted st) = MAX_CONTROL_MSGS \<and>
     (\<forall>i < length us. i < length rs \<longrightarrow> length (k_payload (us ! i)) = rw_size (rs ! i)) \<and>
     (distinct (map rw_dst rs) \<longrightarrow> (\<forall>i < length us. i < length rs \<longrightarrow> buf st (rw_dst (rs ! i)) = k_payload (us ! i))))"

lemma copyTo_eq: "copyTo p n = Some b \<longleftrightarrow> length (k_payload p) = n \<and> b = k_payload p"
  by (auto simp: copyTo_def)

lemma distinct_dst:
  assumes "distinct (map rw_dst (rs @ [w]))" "i < length rs"
  shows "rw_dst (rs ! i) \<noteq> rw_dst w"
proof -
  have "rs ! i \<in> set rs" using assms(2) by (rule nth_mem)
  moreover have "rw_dst w \<notin> rw_dst ` set rs" using assms(1) by simp
  ultimately show ?thesis by (metis imageI)
qed

lemma irecv_inv:
  assumes v: "recv_inv hasCb ps rs st" and r: "reqs_ok st" "int (count_list (held_c st) req + 1) \<le> refCount (c_reqs st req)"
    and e: "irecvCtrlMsg dst n req st = Some (res, st')"
  shows "res = commSuccess \<and> recv_inv hasCb ps (rs @ [\<lparr>rw_dst = dst, rw_size = n, rw_req = req\<rparr>]) st' \<and> reqs_ok st'"
proof -
  let ?us = "filter (\<lambda>p. \<not> hasCb (k_type p)) ps" let ?w = "\<lparr>rw_dst = dst, rw_size = n, rw_req = req\<rparr>"
  have V: "calls st = filter (\<lambda>p. hasCb (k_type p)) ps" "r_unexp st = drop (length rs) ?us" "r_enqueued st = drop (length ?us) rs"
    "length (r_posted st) = MAX_CONTROL_MSGS" "\<And>i. i < length ?us \<Longrightarrow> i < length rs \<Longrightarrow> length (k_payload (?us ! i)) = rw_size (rs ! i)"
    "\<And>i. distinct (map rw_dst rs) \<Longrightarrow> i < length ?us \<Longrightarrow> i < length rs \<Longrightarrow> buf st (rw_dst (rs ! i)) = k_payload (?us ! i)"
    using v unfolding recv_inv_def Let_def by blast+
  have R: "int (count_list (held_c st) i) \<le> refCount (c_reqs st i)" for i using r(1) unfolding reqs_ok_def by blast
  show ?thesis
  proof (cases "r_unexp st")
    case Nil
    then have l: "length ?us \<le> length rs" using V(2) by simp
    have s: "res = commSuccess" "st' = st\<lparr>r_enqueued := r_enqueued st @ [?w]\<rparr>" using e Nil by (simp_all add: irecvCtrlMsg_def)
    have "recv_inv hasCb ps (rs @ [?w]) st'"
      unfolding recv_inv_def Let_def s(2) using V(1-4) l V(5,6) by (simp add: nth_append)
    moreover have "reqs_ok st'" unfolding reqs_ok_def s(2)
    proof
      fix i
      show "int (count_list (held_c (st\<lparr>r_enqueued := r_enqueued st @ [?w]\<rparr>)) i) \<le> refCount (c_reqs (st\<lparr>r_enqueued := r_enqueued st @ [?w]\<rparr>) i)"
        using R [of i] r(2) by (cases "i = req") (simp_all add: held_c_def)
    qed
    ultimately show ?thesis using s(1) by blast
  next
    case (Cons p us)
    have l: "length rs < length ?us" using V(2) Cons by (metis drop_all leI list.distinct(1))
    have p: "p = ?us ! length rs" "us = drop (Suc (length rs)) ?us" using V(2) Cons l by (metis Cons_nth_drop_Suc list.inject)+
    have z: "r_enqueued st = []" using V(3) l by simp
    obtain b where b: "copyTo p n = Some b" using e Cons by (cases "copyTo p n") (simp_all add: irecvCtrlMsg_def)
    then have bp: "length (k_payload p) = n" "b = k_payload p" unfolding copyTo_eq by blast+
    let ?s = "st\<lparr>r_unexp := us, buf := (buf st)(dst := b)\<rparr>"
    have "0 < refCount (c_reqs ?s req)" using r(2) by simp
    then obtain q where C: "complete_ctrl req ?s = (commSuccess, ?s\<lparr>c_reqs := (c_reqs ?s)(req := q)\<rparr>)" "refCount q = refCount (c_reqs ?s req) - 1"
      by (rule complete_ctrl_ok)
    have s: "res = commSuccess" "st' = ?s\<lparr>c_reqs := (c_reqs st)(req := q)\<rparr>" using e Cons b C(1) by (simp_all add: irecvCtrlMsg_def)
    have "recv_inv hasCb ps (rs @ [?w]) st'" unfolding recv_inv_def Let_def
    proof (intro conjI allI impI)
      show "calls st' = filter (\<lambda>p. hasCb (k_type p)) ps" "length (r_posted st') = MAX_CONTROL_MSGS" using V(1,4) s(2) by simp_all
      show "r_unexp st' = drop (length (rs @ [?w])) ?us" using p(2) s(2) by simp
      show "r_enqueued st' = drop (length ?us) (rs @ [?w])" using z l s(2) by simp
      show "length (k_payload (?us ! i)) = rw_size ((rs @ [?w]) ! i)" if "i < length ?us" "i < length (rs @ [?w])" for i
        using that V(5) p(1) bp(1) by (cases "i = length rs") (simp_all add: nth_append)
      show "buf st' (rw_dst ((rs @ [?w]) ! i)) = k_payload (?us ! i)"
        if "distinct (map rw_dst (rs @ [?w]))" "i < length ?us" "i < length (rs @ [?w])" for i
      proof (cases "i = length rs")
        case True
        then show ?thesis using p(1) bp(2) s(2) by simp
      next
        case False
        then have i: "i < length rs" using that(3) by simp
        have "rw_dst (rs ! i) \<noteq> dst" using distinct_dst [OF that(1) i] by simp
        then show ?thesis using V(6) [of i] that i s(2) by (simp add: nth_append)
      qed
    qed
    moreover have "reqs_ok st'" unfolding reqs_ok_def
    proof
      fix i
      show "int (count_list (held_c st') i) \<le> refCount (c_reqs st' i)"
        using R [of i] r(2) C(2) s(2) by (cases "i = req") (simp_all add: held_c_def)
    qed
    ultimately show ?thesis using s(1) by blast
  qed
qed

lemma arrive_inv:
  assumes v: "recv_inv hasCb ps rs st" and r: "reqs_ok st" and e: "recv_complete hasCb runCb True p st = Some (commSuccess, st')"
  shows "recv_inv hasCb (ps @ [p]) rs st' \<and> reqs_ok st'"
proof -
  let ?us = "filter (\<lambda>p. \<not> hasCb (k_type p)) ps"
  have V: "calls st = filter (\<lambda>p. hasCb (k_type p)) ps" "r_unexp st = drop (length rs) ?us" "r_enqueued st = drop (length ?us) rs"
    "length (r_posted st) = MAX_CONTROL_MSGS" "\<And>i. i < length ?us \<Longrightarrow> i < length rs \<Longrightarrow> length (k_payload (?us ! i)) = rw_size (rs ! i)"
    "\<And>i. distinct (map rw_dst rs) \<Longrightarrow> i < length ?us \<Longrightarrow> i < length rs \<Longrightarrow> buf st (rw_dst (rs ! i)) = k_payload (?us ! i)"
    using v unfolding recv_inv_def Let_def by blast+
  have R: "int (count_list (held_c st) i) \<le> refCount (c_reqs st i)" for i using r(1) unfolding reqs_ok_def by blast
  obtain k ks where k: "r_posted st = k # ks" using e by (cases "r_posted st") (simp_all add: recv_complete_def)
  then have lk: "length (ks @ [k]) = MAX_CONTROL_MSGS" using V(4) by simp
  show ?thesis
  proof (cases "hasCb (k_type p)")
    case True
    then have s: "st' = st\<lparr>r_posted := ks @ [k], calls := calls st @ [p]\<rparr>"
      using e k by (auto simp: recv_complete_def Let_def split: if_splits)
    have "recv_inv hasCb (ps @ [p]) rs st'" unfolding recv_inv_def Let_def s using V lk True by simp
    moreover have "reqs_ok st'" using r by (simp add: reqs_ok_def held_c_def s)
    ultimately show ?thesis by blast
  next
    case n: False
    show ?thesis
    proof (cases "r_enqueued st")
      case Nil
      then have l: "length rs \<le> length ?us" using V(3) by simp
      have s: "st' = st\<lparr>r_posted := ks @ [k], r_unexp := r_unexp st @ [p]\<rparr>"
        using e k n Nil by (auto simp: recv_complete_def enqueueUnexpWr_def)
      have "recv_inv hasCb (ps @ [p]) rs st'" unfolding recv_inv_def Let_def s using V lk n l by (simp add: nth_append)
      moreover have "reqs_ok st'" using r by (simp add: reqs_ok_def held_c_def s)
      ultimately show ?thesis by blast
    next
      case (Cons w ws)
      have l: "length ?us < length rs" using V(3) Cons by (metis drop_all leI list.distinct(1))
      have w: "w = rs ! length ?us" "ws = drop (Suc (length ?us)) rs" using V(3) Cons l by (metis Cons_nth_drop_Suc list.inject)+
      have z: "r_unexp st = []" using V(2) l by simp
      let ?s1 = "st\<lparr>r_posted := ks\<rparr>"
      have m: "\<exists>st2. matchRecvWr p ?s1 = Some (commSuccess, st2) \<and> st' = st2\<lparr>r_posted := r_posted st2 @ [k]\<rparr>"
        using e k n Cons by (auto simp: recv_complete_def split: option.splits prod.splits if_splits)
      then obtain b where b: "copyTo p (rw_size w) = Some b" using Cons by (cases "copyTo p (rw_size w)") (auto simp: matchRecvWr_def)
      then have bp: "length (k_payload p) = rw_size w" "b = k_payload p" unfolding copyTo_eq by blast+
      let ?s = "?s1\<lparr>r_enqueued := ws, buf := (buf st)(rw_dst w := b)\<rparr>"
      have "0 < refCount (c_reqs ?s (rw_req w))" using R [of "rw_req w"] Cons by (simp add: held_c_def)
      then obtain q where C: "complete_ctrl (rw_req w) ?s = (commSuccess, ?s\<lparr>c_reqs := (c_reqs ?s)(rw_req w := q)\<rparr>)"
        "refCount q = refCount (c_reqs ?s (rw_req w)) - 1" by (rule complete_ctrl_ok)
      have s: "st' = ?s\<lparr>c_reqs := (c_reqs st)(rw_req w := q), r_posted := ks @ [k]\<rparr>" using m b C(1) Cons by (auto simp: matchRecvWr_def)
      have u: "filter (\<lambda>p. \<not> hasCb (k_type p)) (ps @ [p]) = ?us @ [p]" using n by simp
      have "recv_inv hasCb (ps @ [p]) rs st'" unfolding recv_inv_def Let_def u
      proof (intro conjI allI impI)
        show "calls st' = filter (\<lambda>p. hasCb (k_type p)) (ps @ [p])" "length (r_posted st') = MAX_CONTROL_MSGS" using V(1) n s lk by simp_all
        show "r_unexp st' = drop (length rs) (?us @ [p])" using z l s by simp
        show "r_enqueued st' = drop (length (?us @ [p])) rs" using w(2) s by simp
        show "length (k_payload ((?us @ [p]) ! i)) = rw_size (rs ! i)" if "i < length (?us @ [p])" "i < length rs" for i
          using that V(5) w(1) bp(1) by (cases "i = length ?us") (simp_all add: nth_append)
        show "buf st' (rw_dst (rs ! i)) = k_payload ((?us @ [p]) ! i)"
          if "distinct (map rw_dst rs)" "i < length (?us @ [p])" "i < length rs" for i
        proof (cases "i = length ?us")
          case True
          then show ?thesis using w(1) bp(2) s by simp
        next
          case False
          then have i: "i < length ?us" using that(2) by simp
          have "rw_dst (rs ! i) \<noteq> rw_dst (rs ! length ?us)" using that(1,3) l False by (metis distinct_conv_nth length_map nth_map)
          then show ?thesis using V(6) [of i] that i s w(1) by (simp add: nth_append)
        qed
      qed
      moreover have "reqs_ok st'" unfolding reqs_ok_def
      proof
        fix i
        show "int (count_list (held_c st') i) \<le> refCount (c_reqs st' i)"
          using R [of i] C(2) s Cons by (cases "i = rw_req w") (simp_all add: held_c_def)
      qed
      ultimately show ?thesis by blast
    qed
  qed
qed

section \<open>Runs\<close>

text \<open>
  \<open>ctrl_run hasCb ms ps rs st\<close>: the messages \<open>ms\<close> were handed to the connection, the packets \<open>ps\<close> arrived and the receives \<open>rs\<close> were
  posted, each in this order; a request has a reference for what will complete it.
\<close>

inductive ctrl_run :: "(int \<Rightarrow> bool) \<Rightarrow> (int \<times> bytes) list \<Rightarrow> packet list \<Rightarrow> recv_wr list \<Rightarrow> ctrl \<Rightarrow> bool" for hasCb where
  new: "ctrl_run hasCb [] [] [] ctrl_new"
| send: "ctrl_run hasCb ms ps rs st \<Longrightarrow> length b \<le> MAX_PAYLOAD_SIZE \<Longrightarrow> int (count_list (held_c st) req + 1) \<le> refCount (c_reqs st req) \<Longrightarrow>
    isendCtrlMsg takes t b req st = Some (res, st') \<Longrightarrow> ctrl_run hasCb (ms @ [(t, b)]) ps rs st'"
| sent: "ctrl_run hasCb ms ps rs st \<Longrightarrow> s_posted st \<noteq> [] \<Longrightarrow> send_complete takes st = Some (res, st') \<Longrightarrow> ctrl_run hasCb ms ps rs st'"
| recv: "ctrl_run hasCb ms ps rs st \<Longrightarrow> int (count_list (held_c st) req + 1) \<le> refCount (c_reqs st req) \<Longrightarrow>
    irecvCtrlMsg dst n req st = Some (res, st') \<Longrightarrow>
    ctrl_run hasCb ms ps (rs @ [\<lparr>rw_dst = dst, rw_size = n, rw_req = req\<rparr>]) st'"
| arrive: "ctrl_run hasCb ms ps rs st \<Longrightarrow> recv_complete hasCb runCb True p st = Some (commSuccess, st') \<Longrightarrow> ctrl_run hasCb ms (ps @ [p]) rs st'"
| request: "ctrl_run hasCb ms ps rs st \<Longrightarrow> int (count_list (held_c st) i) \<le> n \<Longrightarrow>
    ctrl_run hasCb ms ps rs (st\<lparr>c_reqs := (c_reqs st)(i := req_repost n (c_reqs st i))\<rparr>)"

lemma send_inv_fields:
  "send_inv ms st \<Longrightarrow> s_pkts st' = s_pkts st \<Longrightarrow> s_free st' = s_free st \<Longrightarrow> s_posted st' = s_posted st \<Longrightarrow> s_reqs st' = s_reqs st \<Longrightarrow>
   s_enqueued st' = s_enqueued st \<Longrightarrow> s_sent st' = s_sent st \<Longrightarrow> send_inv ms st'"
  by (simp add: send_inv_def)

lemma recv_inv_fields:
  "recv_inv hasCb ps rs st \<Longrightarrow> r_posted st' = r_posted st \<Longrightarrow> r_unexp st' = r_unexp st \<Longrightarrow> r_enqueued st' = r_enqueued st \<Longrightarrow>
   buf st' = buf st \<Longrightarrow> calls st' = calls st \<Longrightarrow> recv_inv hasCb ps rs st'"
  by (simp add: recv_inv_def)

lemma isend_fields:
  "isendCtrlMsg takes t b req st = Some (res, st') \<Longrightarrow> r_posted st' = r_posted st \<and> r_unexp st' = r_unexp st \<and>
   r_enqueued st' = r_enqueued st \<and> buf st' = buf st \<and> calls st' = calls st"
  by (auto simp: isendCtrlMsg_def post_from_def copyFrom_def postSendCtrlMsg_def split: if_splits list.splits)

lemma complete_ctrl_fields:
  "s_pkts (snd (complete_ctrl i st)) = s_pkts st \<and> s_free (snd (complete_ctrl i st)) = s_free st \<and>
   s_posted (snd (complete_ctrl i st)) = s_posted st \<and> s_reqs (snd (complete_ctrl i st)) = s_reqs st \<and>
   s_enqueued (snd (complete_ctrl i st)) = s_enqueued st \<and> s_sent (snd (complete_ctrl i st)) = s_sent st"
  by (simp add: complete_ctrl_def split: prod.split)

lemma irecv_send_inv:
  assumes "send_inv ms st" "irecvCtrlMsg dst n req st = Some (res, st')"
  shows "send_inv ms st'"
proof (cases "r_unexp st")
  case Nil
  then show ?thesis using assms by (auto simp: irecvCtrlMsg_def intro: send_inv_fields)
next
  case (Cons p us)
  then obtain b where "complete_ctrl req (st\<lparr>r_unexp := us, buf := (buf st)(dst := b)\<rparr>) = (res, st')"
    using assms(2) by (cases "copyTo p n") (simp_all add: irecvCtrlMsg_def)
  then have "st' = snd (complete_ctrl req (st\<lparr>r_unexp := us, buf := (buf st)(dst := b)\<rparr>))" by (metis snd_conv)
  then show ?thesis using assms(1) complete_ctrl_fields [of req "st\<lparr>r_unexp := us, buf := (buf st)(dst := b)\<rparr>"]
    by (auto intro: send_inv_fields)
qed

lemma arrive_send_inv:
  assumes "send_inv ms st" "recv_complete hasCb runCb True p st = Some (commSuccess, st')"
  shows "send_inv ms st'"
proof -
  obtain k ks where k: "r_posted st = k # ks" using assms(2) by (cases "r_posted st") (simp_all add: recv_complete_def)
  let ?s1 = "st\<lparr>r_posted := ks\<rparr>"
  obtain st2 where m: "(if hasCb (k_type p) then Some (runCb p, ?s1\<lparr>calls := calls ?s1 @ [p]\<rparr>)
      else if r_enqueued ?s1 = [] then Some (enqueueUnexpWr p ?s1) else matchRecvWr p ?s1) = Some (commSuccess, st2)"
    "st' = st2\<lparr>r_posted := r_posted st2 @ [k]\<rparr>"
    using assms(2) k by (auto simp: recv_complete_def Let_def split: option.splits prod.splits if_splits)
  have s1: "send_inv ms ?s1" using assms(1) by (rule send_inv_fields) simp_all
  have "send_inv ms st2"
  proof (cases "hasCb (k_type p) \<or> r_enqueued ?s1 = []")
    case True
    then show ?thesis using m(1) s1 by (auto simp: enqueueUnexpWr_def send_inv_def split: if_splits)
  next
    case False
    then obtain w ws where w: "r_enqueued ?s1 = w # ws" by (cases "r_enqueued ?s1") auto
    obtain b where "complete_ctrl (rw_req w) (?s1\<lparr>r_enqueued := ws, buf := (buf ?s1)(rw_dst w := b)\<rparr>) = (commSuccess, st2)"
      using m(1) False w by (cases "copyTo p (rw_size w)") (simp_all add: matchRecvWr_def)
    then have "st2 = snd (complete_ctrl (rw_req w) (?s1\<lparr>r_enqueued := ws, buf := (buf ?s1)(rw_dst w := b)\<rparr>))" by (metis snd_conv)
    then show ?thesis using s1 complete_ctrl_fields [of "rw_req w" "?s1\<lparr>r_enqueued := ws, buf := (buf ?s1)(rw_dst w := b)\<rparr>"]
      by (auto intro: send_inv_fields)
  qed
  then show ?thesis unfolding m(2) by (rule send_inv_fields) simp_all
qed

lemma reqs_ok_add:
  assumes "reqs_ok st" "int (count_list (held_c st) req + 1) \<le> refCount (c_reqs st req)" "c_reqs st' = c_reqs st"
    "\<And>i. count_list (held_c st') i = count_list (held_c st) i + (if i = req then 1 else 0)"
  shows "reqs_ok st'"
  unfolding reqs_ok_def
proof
  fix i :: nat
  show "int (count_list (held_c st') i) \<le> refCount (c_reqs st' i)" using assms by (cases "i = req") (simp_all add: reqs_ok_def)
qed

lemma ctrl_new_inv: "send_inv [] ctrl_new \<and> recv_inv hasCb [] [] ctrl_new \<and> reqs_ok ctrl_new"
  by (simp add: send_inv_def recv_inv_def reqs_ok_def held_c_def ctrl_new_def req_new_def lessThan_atLeast0)

lemma ctrl_run_inv: "ctrl_run hasCb ms ps rs st \<Longrightarrow> send_inv ms st \<and> recv_inv hasCb ps rs st \<and> reqs_ok st"
proof (induction rule: ctrl_run.induct)
  case new
  then show ?case by (rule ctrl_new_inv)
next
  case (send ms ps rs st b req t res st')
  obtain s where s: "isendCtrlMsg takes t b req st = Some (commSuccess, s)" "send_inv (ms @ [(t, b)]) s"
    "s_reqs s @ map sw_req (s_enqueued s) = s_reqs st @ map sw_req (s_enqueued st) @ [req]" "c_reqs s = c_reqs st"
    by (rule isend_inv [of ms st b t req]) (use send in blast)+
  have e: "s = st'" using s(1) send.hyps(4) by simp
  note F = isend_fields [OF send.hyps(4)]
  have "recv_inv hasCb ps rs st'" using send.IH F by (auto intro: recv_inv_fields)
  moreover have h: "held_c st' = (s_reqs st @ map sw_req (s_enqueued st) @ [req]) @ map rw_req (r_enqueued st)"
    using s(3) F unfolding e held_c_def by (simp flip: append_assoc)
  have c: "count_list (held_c st') i = count_list (held_c st) i + (if i = req then 1 else 0)" for i
    unfolding h by (simp add: held_c_def)
  have "reqs_ok st'" by (rule reqs_ok_add [of st req]) (use send.IH send.hyps(3) s(4) c e in simp_all)
  ultimately show ?case using s(2) unfolding e by blast
next
  case (sent ms ps rs st res st')
  obtain s where s: "send_complete takes st = Some (commSuccess, s)" "send_inv ms s" "reqs_ok s"
    "r_enqueued s = r_enqueued st" "r_unexp s = r_unexp st" "buf s = buf st" "calls s = calls st" "r_posted s = r_posted st"
    by (rule send_complete_inv [of ms st]) (use sent in blast)+
  have e: "s = st'" using s(1) sent.hyps(3) by simp
  have "recv_inv hasCb ps rs st'" using sent.IH s(4-8) unfolding e by (auto intro: recv_inv_fields)
  then show ?case using s(2,3) unfolding e by blast
next
  case (recv ms ps rs st req dst n res st')
  then show ?case using irecv_inv [of hasCb ps rs st req dst n res st'] irecv_send_inv by blast
next
  case (arrive ms ps rs st runCb p st')
  then show ?case using arrive_inv arrive_send_inv by blast
next
  case (request ms ps rs st i n)
  let ?s = "st\<lparr>c_reqs := (c_reqs st)(i := req_repost n (c_reqs st i))\<rparr>"
  have "send_inv ms ?s" using request.IH by (auto intro: send_inv_fields)
  moreover have "recv_inv hasCb ps rs ?s" using request.IH by (auto intro: recv_inv_fields)
  moreover have "reqs_ok ?s" using request.IH request.hyps(2) by (simp add: reqs_ok_def held_c_def req_repost_def)
  ultimately show ?case by blast
qed

text \<open>C10: Control messages go on the wire in the order in which they were handed over, at most 128 at a time and each
  from a packet of its own that keeps its content until it is sent; every completion of a send is processed with success;
  and when no send is in flight, no message waits.\<close>

theorem ctrl_sends_in_order:
  assumes "ctrl_run hasCb ms ps rs st"
  shows "s_sent st @ map wr_packet (s_enqueued st) = map (\<lambda>(t, b). \<lparr>k_type = t, k_payload = b\<rparr>) ms \<and>
    distinct (s_posted st) \<and> length (s_posted st) \<le> MAX_CONTROL_MSGS \<and>
    map (s_pkts st) (s_posted st) = drop (length (s_sent st) - length (s_posted st)) (s_sent st) \<and>
    (if s_posted st = [] then s_enqueued st = [] else \<exists>st'. send_complete takes st = Some (commSuccess, st'))"
proof -
  have I: "send_inv ms st" "reqs_ok st" using ctrl_run_inv [OF assms] by blast+
  then have V: "distinct (s_free st @ s_posted st)" "set (s_free st @ s_posted st) = {..<MAX_CONTROL_MSGS}"
    "s_enqueued st \<noteq> [] \<longrightarrow> s_free st = []" "s_sent st @ map wr_packet (s_enqueued st) = map (\<lambda>(t, b). \<lparr>k_type = t, k_payload = b\<rparr>) ms"
    "map (s_pkts st) (s_posted st) = drop (length (s_sent st) - length (s_posted st)) (s_sent st)"
    unfolding send_inv_def by blast+
  have d: "distinct (s_posted st)" "set (s_posted st) \<subseteq> {..<MAX_CONTROL_MSGS}" using V(1,2) by auto
  then have "length (s_posted st) \<le> card {..<MAX_CONTROL_MSGS}" using card_mono [OF finite_lessThan d(2)] by (simp add: distinct_card)
  then have "length (s_posted st) \<le> MAX_CONTROL_MSGS" by simp
  moreover have "if s_posted st = [] then s_enqueued st = [] else \<exists>st'. send_complete takes st = Some (commSuccess, st')"
  proof (cases "s_posted st = []")
    case True
    have "0 \<in> {..<MAX_CONTROL_MSGS}" by (simp add: MAX_CONTROL_MSGS_def)
    then have "s_free st \<noteq> []" unfolding V(2) [symmetric] using True by (cases "s_free st") simp_all
    then show ?thesis using V(3) True by simp
  next
    case False
    obtain st' where "send_complete takes st = Some (commSuccess, st')" by (rule send_complete_inv [OF I False])
    then show ?thesis using False by auto
  qed
  ultimately show ?thesis using V(4,5) d(1) by blast
qed

text \<open>A run: a message is handed over, and a receive meets a message that arrives.\<close>

definition ctrl_ex1 :: ctrl where "ctrl_ex1 = snd (the (isendCtrlMsg takes 5 [1, 2] 1 ctrl_new))"

definition ctrl_ex2 :: ctrl where "ctrl_ex2 = snd (the (irecvCtrlMsg 0 1 2 ctrl_ex1))"

definition ctrl_ex3 :: ctrl where
  "ctrl_ex3 = snd (the (recv_complete (\<lambda>t. False) (\<lambda>p. commSuccess) True \<lparr>k_type = 3, k_payload = [9]\<rparr> ctrl_ex2))"

lemma MAX_CONTROL_MSGS_upt: "[0..<MAX_CONTROL_MSGS] = 0 # [Suc 0..<128]"
  by (simp add: MAX_CONTROL_MSGS_def upt_conv_Cons)

lemmas ctrl_ops = isendCtrlMsg_def post_from_def copyFrom_def postSendCtrlMsg_def irecvCtrlMsg_def recv_complete_def matchRecvWr_def
  copyTo_def complete_ctrl_def req_complete_def MAX_PAYLOAD_SIZE_def

lemma ctrl_ex1_run: "ctrl_run hasCb [(5, [1, 2])] [] [] ctrl_ex1"
proof -
  have "isendCtrlMsg takes 5 [1, 2] 1 ctrl_new = Some (commSuccess, ctrl_ex1)"
    by (simp add: ctrl_ex1_def ctrl_ops ctrl_new_def MAX_CONTROL_MSGS_upt)
  then show ?thesis
    using ctrl_run.send [OF ctrl_run.new, of "[1, 2]" 1 5 commSuccess ctrl_ex1 hasCb]
    by (simp add: MAX_PAYLOAD_SIZE_def held_c_def ctrl_new_def req_new_def)
qed

lemma ctrl_ex3_run:
  "ctrl_run (\<lambda>t. False) [(5, [1, 2])] [\<lparr>k_type = 3, k_payload = [9]\<rparr>] [\<lparr>rw_dst = 0, rw_size = 1, rw_req = 2\<rparr>] ctrl_ex3"
proof -
  have "irecvCtrlMsg 0 1 2 ctrl_ex1 = Some (commSuccess, ctrl_ex2)"
    by (simp add: ctrl_ex1_def ctrl_ex2_def ctrl_ops ctrl_new_def MAX_CONTROL_MSGS_upt)
  then have "ctrl_run (\<lambda>t. False) [(5, [1, 2])] [] [\<lparr>rw_dst = 0, rw_size = 1, rw_req = 2\<rparr>] ctrl_ex2"
    using ctrl_run.recv [OF ctrl_ex1_run, of 2 0 1 commSuccess ctrl_ex2 "\<lambda>t. False"]
    by (simp add: held_c_def ctrl_ex1_def ctrl_ops ctrl_new_def req_new_def MAX_CONTROL_MSGS_upt)
  moreover have "recv_complete (\<lambda>t. False) (\<lambda>p. commSuccess) True \<lparr>k_type = 3, k_payload = [9]\<rparr> ctrl_ex2 = Some (commSuccess, ctrl_ex3)"
    by (simp add: ctrl_ex1_def ctrl_ex2_def ctrl_ex3_def ctrl_ops ctrl_new_def req_new_def MAX_CONTROL_MSGS_upt)
  ultimately show ?thesis using ctrl_run.arrive by fastforce
qed

lemma ctrl_sends_in_order_witness:
  "s_sent ctrl_ex1 @ map wr_packet (s_enqueued ctrl_ex1) = [\<lparr>k_type = 5, k_payload = [1, 2]\<rparr>] \<and>
   (if s_posted ctrl_ex1 = [] then s_enqueued ctrl_ex1 = [] else \<exists>st'. send_complete takes ctrl_ex1 = Some (commSuccess, st'))"
  using ctrl_sends_in_order [OF ctrl_ex1_run] by simp

text \<open>C11: The arriving control messages are matched in order: those with a callback run it and use up no receive; the others
  go one by one to the receives, oldest to oldest, and the content of each is in the buffer of its receive; what has no
  partner yet waits.\<close>

theorem ctrl_matching:
  assumes "ctrl_run hasCb ms ps rs st" "distinct (map rw_dst rs)"
  defines "us \<equiv> filter (\<lambda>p. \<not> hasCb (k_type p)) ps"
  shows "calls st = filter (\<lambda>p. hasCb (k_type p)) ps \<and> r_unexp st = drop (length rs) us \<and> r_enqueued st = drop (length us) rs \<and>
    map (\<lambda>w. buf st (rw_dst w)) (take (length us) rs) = map k_payload (take (length rs) us)"
proof -
  have V: "recv_inv hasCb ps rs st" using ctrl_run_inv [OF assms(1)] by blast
  have "map (\<lambda>w. buf st (rw_dst w)) (take (length us) rs) = map k_payload (take (length rs) us)"
  proof (rule nth_equalityI)
    fix i assume "i < length (map (\<lambda>w. buf st (rw_dst w)) (take (length us) rs))"
    then have i: "i < length us" "i < length rs" by simp_all
    then have "buf st (rw_dst (rs ! i)) = k_payload (us ! i)" using V assms(2) unfolding recv_inv_def Let_def us_def by blast
    then show "map (\<lambda>w. buf st (rw_dst w)) (take (length us) rs) ! i = map k_payload (take (length rs) us) ! i" using i by simp
  qed simp
  then show ?thesis using V unfolding recv_inv_def Let_def us_def by blast
qed

lemma ctrl_matching_witness:
  "calls ctrl_ex3 = [] \<and> r_unexp ctrl_ex3 = [] \<and> r_enqueued ctrl_ex3 = [] \<and> buf ctrl_ex3 0 = [9]"
  using ctrl_matching [OF ctrl_ex3_run] by simp

end
