(* ===== verification/Ib_Local.thy ===== *)
theory Ib_Local imports Ib_Vc begin

text \<open>
  The local flush of the InfiniBand backend, \<^verbatim>\<open>comms/ctran/backends/ib/CtranIbLocalVc.cc\<close>: a read of the rank's own memory over each
  device, so that what arrived before is visible. \<open>l_wire\<close> holds the posted reads with their device. \<open>None\<close> is an abort or
  undefined behaviour.
\<close>

record local_vc =
  l_devs :: nat
  l_out :: "nat list"
  l_reqs :: "nat \<Rightarrow> ib_req"
  l_wire :: "(nat \<times> u64 \<times> u32) list"

type_synonym lres = "(commResult \<times> local_vc) option"

text \<open>The loop over the devices; \<open>accept\<close> is the driver of a device.\<close>

fun flush_devs :: "(nat \<Rightarrow> bool) \<Rightarrow> u64 \<Rightarrow> u32 list \<Rightarrow> nat list \<Rightarrow> local_vc \<Rightarrow> lres" where
  "flush_devs accept dbuf rkeys [] st = Some (commSuccess, st)"
| "flush_devs accept dbuf rkeys (d # ds) st =
     (if length rkeys \<le> d then None
      else if \<not> accept d then Some (commSystemError, st)
      else flush_devs accept dbuf rkeys ds (st\<lparr>l_wire := l_wire st @ [(d, dbuf, rkeys ! d)]\<rparr>))"

definition iflush :: "(nat \<Rightarrow> bool) \<Rightarrow> u64 \<Rightarrow> u32 list \<Rightarrow> nat \<Rightarrow> local_vc \<Rightarrow> lres" where
  "iflush accept dbuf rkeys req st =
     (case flush_devs accept dbuf rkeys [0..<l_devs st] st of
        None \<Rightarrow> None
      | Some (r, st1) \<Rightarrow> if r \<noteq> commSuccess then Some (r, st1) else Some (commSuccess, st1\<lparr>l_out := l_out st1 @ [req]\<rparr>))"

text \<open>The front of an empty queue is undefined.\<close>

definition flush_complete :: "bool \<Rightarrow> local_vc \<Rightarrow> lres" where
  "flush_complete is_read st =
     (if \<not> is_read then None
      else case l_out st of
        [] \<Rightarrow> None
      | q # qs \<Rightarrow> (case req_complete (l_reqs st q) of (r, x) \<Rightarrow> Some (r, st\<lparr>l_out := qs, l_reqs := (l_reqs st)(q := x)\<rparr>)))"

definition local_new :: "nat \<Rightarrow> local_vc" where
  "local_new d = \<lparr>l_devs = d, l_out = [], l_reqs = (\<lambda>i. req_new), l_wire = []\<rparr>"

section \<open>Flushes in order\<close>

text \<open>\<open>local_run qs c st\<close>: the flushes \<open>qs\<close> were issued, \<open>c\<close> reads are complete. A request is used once.\<close>

inductive local_run :: "nat list \<Rightarrow> nat \<Rightarrow> local_vc \<Rightarrow> bool" where
  new: "local_run [] 0 (local_new d)"
| flush: "local_run qs c st \<Longrightarrow> q \<notin> set qs \<Longrightarrow> l_devs st \<le> length rkeys \<Longrightarrow> iflush (\<lambda>d. True) dbuf rkeys q st = Some (r, st') \<Longrightarrow>
    local_run (qs @ [q]) c st'"
| finished: "local_run qs c st \<Longrightarrow> c < length (l_wire st) \<Longrightarrow> flush_complete True st = Some (r, st') \<Longrightarrow> local_run qs (Suc c) st'"

lemma flush_devs_ok:
  "\<forall>d \<in> set ds. d < length rkeys \<Longrightarrow>
   flush_devs (\<lambda>d. True) dbuf rkeys ds st = Some (commSuccess, st\<lparr>l_wire := l_wire st @ map (\<lambda>d. (d, dbuf, rkeys ! d)) ds\<rparr>)"
  by (induction ds arbitrary: st) (simp_all add: not_le)

lemma iflush_ok:
  "l_devs st \<le> length rkeys \<Longrightarrow>
   iflush (\<lambda>d. True) dbuf rkeys q st =
     Some (commSuccess, st\<lparr>l_wire := l_wire st @ map (\<lambda>d. (d, dbuf, rkeys ! d)) [0..<l_devs st], l_out := l_out st @ [q]\<rparr>)"
  by (simp add: iflush_def flush_devs_ok)

lemma local_run_inv:
  "local_run qs c st \<Longrightarrow> l_devs st = 1 \<Longrightarrow>
   length (l_wire st) = length qs \<and> c \<le> length qs \<and> l_out st = drop c qs \<and> distinct qs \<and>
   (\<forall>i. l_reqs st i = (if i \<in> set (take c qs) then \<lparr>refCount = 0, is_complete = True\<rparr> else req_new))"
proof (induction rule: local_run.induct)
  case (new d)
  then show ?case by (simp add: local_new_def)
next
  case (flush qs c st q rkeys dbuf r st')
  then have s: "st' = st\<lparr>l_wire := l_wire st @ [(0, dbuf, rkeys ! 0)], l_out := l_out st @ [q]\<rparr>" and d: "l_devs st = 1"
    using iflush_ok [of st rkeys dbuf q] by auto
  note I = flush.IH [OF d]
  then show ?case using flush.hyps(2) unfolding s by simp
next
  case (finished qs c st r st')
  have d: "l_devs st = 1" using finished.hyps(3) finished.prems by (auto simp: flush_complete_def split: list.splits prod.splits)
  note I = finished.IH [OF d]
  have c: "c < length qs" using finished.hyps(2) I by simp
  have o: "l_out st = qs ! c # drop (Suc c) qs" using I c by (simp add: Cons_nth_drop_Suc)
  have n: "qs ! c \<notin> set (take c qs)" using I c by (auto simp: in_set_conv_nth nth_eq_iff_index_eq)
  have s: "st' = st\<lparr>l_out := drop (Suc c) qs, l_reqs := (l_reqs st)(qs ! c := \<lparr>refCount = 0, is_complete = True\<rparr>)\<rparr>"
    using finished.hyps(3) I n by (simp add: flush_complete_def o req_complete_def req_new_def)
  show ?case using I c unfolding s by (simp add: take_Suc_conv_app_nth)
qed

lemma flush_one_device:
  assumes "local_run qs c st" "l_devs st = 1"
  shows "{q \<in> set qs. is_complete (l_reqs st q)} = set (take c qs) \<and>
    (if c < length (l_wire st) then \<exists>st'. flush_complete True st = Some (commSuccess, st') else l_out st = [])"
proof -
  note I = local_run_inv [OF assms]
  have "{q \<in> set qs. is_complete (l_reqs st q)} = set (take c qs)"
    using I by (auto simp: req_new_def dest: in_set_takeD split: if_splits)
  moreover have "\<exists>st'. flush_complete True st = Some (commSuccess, st')" if "c < length (l_wire st)"
  proof -
    have c: "c < length qs" using that I by simp
    have o: "l_out st = qs ! c # drop (Suc c) qs" using I c by (simp add: Cons_nth_drop_Suc)
    have "qs ! c \<notin> set (take c qs)" using I c by (auto simp: in_set_conv_nth nth_eq_iff_index_eq)
    then have "l_reqs st (qs ! c) = req_new" using I by simp
    then show ?thesis by (simp add: flush_complete_def o req_complete_def req_new_def)
  qed
  ultimately show ?thesis using I by simp
qed

text \<open>C17: With several devices a flush reads over each of them but is entered once: the completion of the first read completes its
  request although the other reads are in flight, and the completion of the second read is undefined.\<close>

theorem flush_many_devices:
  assumes "2 \<le> d" "d \<le> length rkeys"
  shows "\<exists>st1 st2. iflush (\<lambda>d. True) dbuf rkeys q (local_new d) = Some (commSuccess, st1) \<and> length (l_wire st1) = d \<and>
    flush_complete True st1 = Some (commSuccess, st2) \<and> is_complete (l_reqs st2 q) \<and> flush_complete True st2 = None"
proof -
  let ?w = "map (\<lambda>d. (d, dbuf, rkeys ! d)) [0..<d]"
  let ?s1 = "local_new d\<lparr>l_wire := ?w, l_out := [q]\<rparr>"
  let ?s2 = "?s1\<lparr>l_out := [], l_reqs := (l_reqs ?s1)(q := \<lparr>refCount = 0, is_complete = True\<rparr>)\<rparr>"
  have "iflush (\<lambda>d. True) dbuf rkeys q (local_new d) = Some (commSuccess, ?s1)"
    using iflush_ok [of "local_new d" rkeys dbuf q] assms(2) by (simp add: local_new_def)
  moreover have "flush_complete True ?s1 = Some (commSuccess, ?s2)"
    by (simp add: flush_complete_def req_complete_def req_new_def local_new_def)
  moreover have "flush_complete True ?s2 = None" by (simp add: flush_complete_def)
  moreover have "length (l_wire ?s1) = d" "is_complete (l_reqs ?s2 q)" by simp_all
  ultimately show ?thesis by blast
qed

theorem flush_many_devices_witness:
  "\<exists>st1 st2. iflush (\<lambda>d. True) 4096 [7, 8] 3 (local_new 2) = Some (commSuccess, st1) \<and> length (l_wire st1) = 2 \<and>
    flush_complete True st1 = Some (commSuccess, st2) \<and> is_complete (l_reqs st2 3) \<and> flush_complete True st2 = None"
  by (rule flush_many_devices) simp_all

end
