(* ===== verification/Ib_Backend.thy ===== *)
theory Ib_Backend imports Ib_Ctrl Ib_Local begin

text \<open>
  The InfiniBand backend of a rank, \<^verbatim>\<open>comms/ctran/backends/ib/CtranIb.*\<close>: the connections to the other ranks, how they come
  into being, what waits for them, and the polling of completions. The shared connection objects are kept in the map by
  rank; the map by queue pair gives the rank. The epoch lock makes each call one step; the listening thread can add a connection
  between any two steps, and right after a call looked for it. \<open>None\<close> is an abort, an exception or undefined behaviour.
\<close>

section \<open>The epoch lock\<close>

text \<open>The mutex with the thread that holds it, and the threads' own flags.\<close>

record epoch =
  e_mutex :: "nat option"
  e_flag :: "nat \<Rightarrow> bool"

definition epoch_new :: epoch where "epoch_new = \<lparr>e_mutex = None, e_flag = (\<lambda>t. False)\<rparr>"

definition checkEpochLock :: "bool \<Rightarrow> bool \<Rightarrow> nat \<Rightarrow> epoch \<Rightarrow> commResult" where
  "checkEpochLock enforce enable t e = (if enforce \<and> enable \<and> \<not> e_flag e t then commInternalError else commSuccess)"

text \<open>\<open>None\<close>: the thread waits for the mutex.\<close>

definition epochLock :: "bool \<Rightarrow> nat \<Rightarrow> epoch \<Rightarrow> (commResult \<times> epoch) option" where
  "epochLock enable t e =
     (if \<not> enable then Some (commSuccess, e)
      else if e_flag e t then Some (commInternalError, e)
      else if e_mutex e \<noteq> None then None
      else Some (commSuccess, e\<lparr>e_mutex := Some t, e_flag := (e_flag e)(t := True)\<rparr>))"

definition epochTryLock :: "bool \<Rightarrow> nat \<Rightarrow> epoch \<Rightarrow> commResult \<times> epoch" where
  "epochTryLock enable t e =
     (if \<not> enable then (commSuccess, e)
      else if e_flag e t then (commInternalError, e)
      else if e_mutex e = None then (commSuccess, e\<lparr>e_mutex := Some t, e_flag := (e_flag e)(t := True)\<rparr>)
      else (commInProgress, e))"

definition epochUnlock :: "bool \<Rightarrow> nat \<Rightarrow> epoch \<Rightarrow> commResult \<times> epoch" where
  "epochUnlock enable t e =
     (if \<not> enable then (commSuccess, e)
      else if \<not> e_flag e t then (commInternalError, e)
      else (commSuccess, e\<lparr>e_mutex := None, e_flag := (e_flag e)(t := False)\<rparr>))"

section \<open>State\<close>

type_synonym qp_id = "u32 \<times> nat"

record conn =
  v_ctrlQp :: u32
  v_notifyQp :: u32
  v_atomicQp :: u32
  v_dataQps :: "u32 list"
  v_ctl :: ctrl
  v_dat :: vc

text \<open>\<^verbatim>\<open>PendingOp\<close>: the type (missing for a receive), the message or the destination and size, the request.\<close>

datatype pend_op = ISEND_CTRL "int option" bytes nat | IRECV_CTRL nat nat nat

record ib =
  ib_rank :: int
  ib_nRanks :: "int option"
  vcs :: "int \<rightharpoonup> conn"
  qpToVc :: "qp_id \<rightharpoonup> int"
  mapsPtr :: bool
  pendVcs :: "int \<rightharpoonup> conn"
  connected :: "bool list"
  pendOps :: "(int \<times> pend_op list) list"
  enableLocalFlush :: bool
  flushVc :: "(u32 list \<times> local_vc) option"

type_synonym ibres = "(commResult \<times> ib) option"

definition ithen :: "ibres \<Rightarrow> (ib \<Rightarrow> ibres) \<Rightarrow> ibres" where
  "ithen m f = (case m of None \<Rightarrow> None | Some (r, st) \<Rightarrow> if r \<noteq> commSuccess then Some (r, st) else f st)"

definition checkValidPeer :: "int \<Rightarrow> ib \<Rightarrow> commResult" where
  "checkValidPeer p st =
     (if p < 0 \<or> (case ib_nRanks st of None \<Rightarrow> False | Some n \<Rightarrow> n \<le> p) then commInternalError else commSuccess)"

text \<open>A negative rank converts to a size that no vector has.\<close>

definition isPeerConnected :: "int \<Rightarrow> ib \<Rightarrow> bool" where
  "isPeerConnected p st \<longleftrightarrow> 0 \<le> p \<and> nat p < length (connected st) \<and> connected st ! nat p"

text \<open>\<open>skip\<close> is \<^verbatim>\<open>PerfConfig::skipVcConnectionCheck\<close>. The outer \<open>None\<close>: the map has no entry, or there is no map.\<close>

definition getVcImpl :: "bool \<Rightarrow> int \<Rightarrow> ib \<Rightarrow> conn option option" where
  "getVcImpl skip p st =
     (if skip \<or> mapsPtr st \<and> isPeerConnected p st then
        (if \<not> mapsPtr st then None else case vcs st p of None \<Rightarrow> None | Some c \<Rightarrow> Some (Some c))
      else Some (vcs st p))"

definition getVcByQp :: "qp_id \<Rightarrow> ib \<Rightarrow> int option" where "getVcByQp i st = qpToVc st i"

section \<open>Connecting\<close>

definition checkAndInsertQpToVcMap :: "qp_id \<Rightarrow> int \<Rightarrow> ib \<Rightarrow> commResult \<times> ib" where
  "checkAndInsertQpToVcMap i p st =
     (if qpToVc st i \<noteq> None then (commInternalError, st) else (commSuccess, st\<lparr>qpToVc := (qpToVc st)(i \<mapsto> p)\<rparr>))"

fun insert_qps :: "qp_id list \<Rightarrow> int \<Rightarrow> ib \<Rightarrow> commResult \<times> ib" where
  "insert_qps [] p st = (commSuccess, st)"
| "insert_qps (i # is) p st =
     (case checkAndInsertQpToVcMap i p st of (r, st1) \<Rightarrow> if r \<noteq> commSuccess then (commInternalError, st1) else insert_qps is p st1)"

text \<open>The ids of the data queue pairs; \<open>None\<close> is a division by zero.\<close>

definition data_ids :: "conn \<Rightarrow> qp_id list option" where
  "data_ids c = those (map (\<lambda>i. map_option (Pair (v_dataQps c ! i)) (getIbDevFromQpIdx i (v_dat c))) [0..<length (v_dataQps c)])"

definition updateVcState :: "conn \<Rightarrow> int \<Rightarrow> ib \<Rightarrow> ibres" where
  "updateVcState c p st =
     (if vcs st p \<noteq> None then Some (commInternalError, st)
      else ithen (Some (insert_qps [(v_ctrlQp c, 0), (v_notifyQp c, 0), (v_atomicQp c, 0)] p (st\<lparr>vcs := (vcs st)(p \<mapsto> c)\<rparr>)))
        (\<lambda>st1. map_option (\<lambda>is. insert_qps is p st1) (data_ids c)))"

text \<open>\<open>fresh\<close> is the connection that a constructor call would give.\<close>

definition createVc :: "conn \<Rightarrow> int \<Rightarrow> ib \<Rightarrow> conn \<times> ib" where
  "createVc fresh p st =
     (case pendVcs st p of Some c \<Rightarrow> (c, st) | None \<Rightarrow> (fresh, st\<lparr>pendVcs := (pendVcs st)(p \<mapsto> fresh)\<rparr>))"

text \<open>The part of \<^verbatim>\<open>getLocalBusCard\<close> that creates the queue pairs; the numbers come from the device.\<close>

definition createQps :: "u32 \<times> u32 \<times> u32 \<times> u32 list \<Rightarrow> conn \<Rightarrow> conn" where
  "createQps nums c = (case nums of (k, n, a, ds) \<Rightarrow>
     c\<lparr>v_ctrlQp := k, v_notifyQp := n, v_atomicQp := a, v_dataQps := v_dataQps c @ ds\<rparr>)"

text \<open>\<open>ok\<close>: did \<^verbatim>\<open>setupVc\<close> succeed?\<close>

definition connectVcDirect :: "bool \<Rightarrow> conn \<Rightarrow> int \<Rightarrow> ib \<Rightarrow> ibres" where
  "connectVcDirect ok fresh p st =
     (case createVc fresh p st of (c, st1) \<Rightarrow>
        if \<not> ok then None
        else case updateVcState c p st1 of
          None \<Rightarrow> None
        | Some (r, st2) \<Rightarrow> if r \<noteq> commSuccess then None else Some (commSuccess, st2\<lparr>pendVcs := (pendVcs st2)(p := None)\<rparr>))"

text \<open>What the sockets, the devices and \<^verbatim>\<open>setupVc\<close> do: \<open>ConnectFails\<close> and \<open>ExchangeFails\<close> are before, \<open>AckFails\<close> after the connection
  is there.\<close>

datatype conn_io = ConnectFails | ExchangeFails | SetupFails | AckFails | ConnOk

record boot =
  b_io :: conn_io
  b_nums :: "u32 \<times> u32 \<times> u32 \<times> u32 list"
  b_fresh :: conn

definition connectVc :: "boot \<Rightarrow> int \<Rightarrow> ib \<Rightarrow> ibres" where
  "connectVc b p st =
     (if checkValidPeer p st \<noteq> commSuccess then Some (commInternalError, st)
      else case createVc (b_fresh b) p st of (c, st1) \<Rightarrow>
        (let st2 = st1\<lparr>pendVcs := (pendVcs st1)(p \<mapsto> createQps (b_nums b) c)\<rparr>
         in if b_io b = ExchangeFails then Some (commRemoteError, st2)
            else case connectVcDirect (b_io b \<noteq> SetupFails) (b_fresh b) p st2 of
              None \<Rightarrow> None
            | Some (r, st3) \<Rightarrow> Some (if b_io b = AckFails then commRemoteError else commSuccess, st3)))"

definition bootstrapConnect :: "boot \<Rightarrow> int \<Rightarrow> ib \<Rightarrow> ibres" where
  "bootstrapConnect b p st = (if b_io b = ConnectFails then Some (commRemoteError, st) else connectVc b p st)"

definition kBootstrapMagic :: u64 where "kBootstrapMagic = 0xfaceb00cdeadbeef"

text \<open>One round of the listening thread, with the magic number and the rank that were received; an error ends the process.\<close>

definition bootstrapAccept :: "u64 \<Rightarrow> boot \<Rightarrow> int \<Rightarrow> ib \<Rightarrow> ib option" where
  "bootstrapAccept magic b p st =
     (if magic \<noteq> kBootstrapMagic then Some st
      else case connectVc b p st of None \<Rightarrow> None | Some (r, st1) \<Rightarrow> if r \<noteq> commSuccess then None else Some st1)"

fun connect_all :: "(int \<times> boot) list \<Rightarrow> ib \<Rightarrow> ibres" where
  "connect_all [] st = Some (commSuccess, st)"
| "connect_all ((p, b) # ps) st =
     (if checkValidPeer p st \<noteq> commSuccess then Some (commInternalError, st)
      else case getVcImpl False p st of
        None \<Rightarrow> None
      | Some v \<Rightarrow> ithen (if ib_rank st < p \<and> v = None then bootstrapConnect b p st else Some (commSuccess, st)) (connect_all ps))"

text \<open>The loop that waits for the listening thread; here \<open>None\<close> also means that it goes on waiting.\<close>

fun mark_all :: "int list \<Rightarrow> ib \<Rightarrow> ibres" where
  "mark_all [] st = Some (commSuccess, st)"
| "mark_all (p # ps) st =
     (if length (connected st) \<le> nat p then None
      else if connected st ! nat p then mark_all ps st
      else if vcs st p = None then None
      else mark_all ps (st\<lparr>connected := (connected st)[nat p := True]\<rparr>))"

definition preConnect :: "(int \<times> boot) list \<Rightarrow> ib \<Rightarrow> ibres" where
  "preConnect ps st =
     (if connected st = [] then Some (commSuccess, st) else ithen (connect_all ps st) (mark_all (map fst ps)))"

definition releaseRemoteTransStates :: "ib \<Rightarrow> ib" where
  "releaseRemoteTransStates st = st\<lparr>vcs := Map.empty, qpToVc := Map.empty, mapsPtr := False, flushVc := None, pendOps := [], connected := []\<rparr>"

definition ib_new :: "int \<Rightarrow> int option \<Rightarrow> (u32 list \<times> local_vc) option \<Rightarrow> ib" where
  "ib_new r n fl = \<lparr>ib_rank = r, ib_nRanks = n, vcs = Map.empty, qpToVc = Map.empty, mapsPtr = True, pendVcs = Map.empty,
     connected = (case n of None \<Rightarrow> [] | Some n \<Rightarrow> replicate (nat n) False), pendOps = [], enableLocalFlush = (fl \<noteq> None), flushVc = fl\<rparr>"

section \<open>Control messages\<close>

definition on_ctl :: "(ctrl \<Rightarrow> cres) \<Rightarrow> int \<Rightarrow> ib \<Rightarrow> ibres" where
  "on_ctl f p st =
     (case vcs st p of
        None \<Rightarrow> None
      | Some c \<Rightarrow> map_option (\<lambda>(r, k). (r, st\<lparr>vcs := (vcs st)(p \<mapsto> c\<lparr>v_ctl := k\<rparr>)\<rparr>)) (f (v_ctl c)))"

definition on_dat :: "(vc \<Rightarrow> res) \<Rightarrow> int \<Rightarrow> ib \<Rightarrow> ibres" where
  "on_dat f p st =
     (case vcs st p of
        None \<Rightarrow> None
      | Some c \<Rightarrow> map_option (\<lambda>(r, d). (r, st\<lparr>vcs := (vcs st)(p \<mapsto> c\<lparr>v_dat := d\<rparr>)\<rparr>)) (f (v_dat c)))"

definition addToPendingOpsIfRequired :: "pend_op \<Rightarrow> int \<Rightarrow> bool \<Rightarrow> ib \<Rightarrow> bool \<times> ib" where
  "addToPendingOpsIfRequired op p hasVc st =
     (case map_of (pendOps st) p of
        None \<Rightarrow> if hasVc then (False, st) else (True, st\<lparr>pendOps := AList.update p [op] (pendOps st)\<rparr>)
      | Some xs \<Rightarrow> (True, st\<lparr>pendOps := AList.update p (xs @ [op]) (pendOps st)\<rparr>))"

definition issue_op :: "(packet \<Rightarrow> bool) \<Rightarrow> pend_op \<Rightarrow> ctrl \<Rightarrow> cres" where
  "issue_op accept op k =
     (case op of
        ISEND_CTRL None b req \<Rightarrow> None
      | ISEND_CTRL (Some t) b req \<Rightarrow> isendCtrlMsg accept t b req k
      | IRECV_CTRL dst n req \<Rightarrow> irecvCtrlMsg dst n req k)"

text \<open>The two halves of \<^verbatim>\<open>progressPendingOps\<close>: under the lock of the pending operations, and after it.\<close>

definition take_ready :: "ib \<Rightarrow> ((int \<times> pend_op list) list \<times> ib) option" where
  "take_ready st =
     (if list_ex (\<lambda>(p, ops). getVcImpl False p st = None) (pendOps st) then None
      else Some (filter (\<lambda>(p, ops). vcs st p \<noteq> None) (pendOps st), st\<lparr>pendOps := filter (\<lambda>(p, ops). vcs st p = None) (pendOps st)\<rparr>))"

fun post_ops :: "(packet \<Rightarrow> bool) \<Rightarrow> int \<Rightarrow> pend_op list \<Rightarrow> ib \<Rightarrow> ibres" where
  "post_ops accept p [] st = Some (commSuccess, st)"
| "post_ops accept p (op # ops) st = ithen (on_ctl (issue_op accept op) p st) (post_ops accept p ops)"

fun post_ready :: "(packet \<Rightarrow> bool) \<Rightarrow> (int \<times> pend_op list) list \<Rightarrow> ib \<Rightarrow> ibres" where
  "post_ready accept [] st = Some (commSuccess, st)"
| "post_ready accept ((p, ops) # rs) st = ithen (post_ops accept p ops st) (post_ready accept rs)"

definition progressPendingOps :: "(packet \<Rightarrow> bool) \<Rightarrow> ib \<Rightarrow> ibres" where
  "progressPendingOps accept st =
     (if pendOps st = [] then Some (commSuccess, st)
      else case take_ready st of None \<Rightarrow> None | Some (rd, st1) \<Rightarrow> post_ready accept rd st1)"

text \<open>
  The common part of the calls for control messages. \<open>lk\<close> is the result of \<open>checkEpochLock\<close>; \<open>seen\<close>: was a connection there when it was
  looked for, or did the listening thread add it since?
\<close>

definition ctrlMsgImpl :: "(packet \<Rightarrow> bool) \<Rightarrow> commResult \<Rightarrow> bool \<Rightarrow> bool \<Rightarrow> boot \<Rightarrow> pend_op \<Rightarrow> int \<Rightarrow> ib \<Rightarrow> ibres" where
  "ctrlMsgImpl accept lk skip seen b op p st =
     (if lk \<noteq> commSuccess then Some (lk, st)
      else if checkValidPeer p st \<noteq> commSuccess then Some (commInternalError, st)
      else case getVcImpl skip p st of
        None \<Rightarrow> None
      | Some v0 \<Rightarrow>
          (let v = (if seen then v0 else None); conn = (\<not> skip \<and> ib_rank st < p \<and> v = None)
           in ithen (if conn then bootstrapConnect b p st else Some (commSuccess, st))
             (\<lambda>st1. case (if conn then getVcImpl skip p st1 else Some v) of
                None \<Rightarrow> None
              | Some v1 \<Rightarrow>
                  if skip \<or> isPeerConnected p st1 then (if v1 = None then None else on_ctl (issue_op accept op) p st1)
                  else case addToPendingOpsIfRequired op p (v1 \<noteq> None) st1 of
                    (pending, st2) \<Rightarrow> if pending then Some (commSuccess, st2) else on_ctl (issue_op accept op) p st2)))"

definition isendCtrlMsgImpl ::
  "(packet \<Rightarrow> bool) \<Rightarrow> commResult \<Rightarrow> bool \<Rightarrow> bool \<Rightarrow> boot \<Rightarrow> int \<Rightarrow> bytes \<Rightarrow> int \<Rightarrow> nat \<Rightarrow> ib \<Rightarrow> ibres" where
  "isendCtrlMsgImpl accept lk skip seen b t msg p req = ctrlMsgImpl accept lk skip seen b (ISEND_CTRL (Some t) msg req) p"

definition irecvCtrlMsgImpl ::
  "(packet \<Rightarrow> bool) \<Rightarrow> commResult \<Rightarrow> bool \<Rightarrow> bool \<Rightarrow> boot \<Rightarrow> nat \<Rightarrow> nat \<Rightarrow> int \<Rightarrow> nat \<Rightarrow> ib \<Rightarrow> ibres" where
  "irecvCtrlMsgImpl accept lk skip seen b dst n p req = ctrlMsgImpl accept lk skip seen b (IRECV_CTRL dst n req) p"

section \<open>Data\<close>

text \<open>The callbacks of \<^verbatim>\<open>CtranCtrlManager\<close>.\<close>

type_synonym cbs = "int \<rightharpoonup> (packet \<Rightarrow> commResult)"

definition hasCb :: "cbs \<Rightarrow> int \<Rightarrow> bool" where "hasCb m t \<longleftrightarrow> m t \<noteq> None"

definition regCb :: "int \<Rightarrow> (packet \<Rightarrow> commResult) \<Rightarrow> cbs \<Rightarrow> commResult \<times> cbs" where
  "regCb t f m = (if hasCb m t then (commInternalError, m) else (commSuccess, m(t \<mapsto> f)))"

definition runCb :: "cbs \<Rightarrow> packet \<Rightarrow> commResult" where
  "runCb m p = (case m (k_type p) of None \<Rightarrow> commInternalError | Some f \<Rightarrow> f p)"

text \<open>The driver's answers to posts, and the callbacks.\<close>

record env =
  g_post :: "queue \<Rightarrow> work_req \<Rightarrow> bool"
  g_send :: "packet \<Rightarrow> bool"
  g_refill :: "queue \<Rightarrow> bool"
  g_recv :: bool
  g_cbs :: cbs

definition with_vc :: "commResult \<Rightarrow> bool \<Rightarrow> int \<Rightarrow> (vc \<Rightarrow> res) \<Rightarrow> ib \<Rightarrow> ibres" where
  "with_vc lk skip p f st =
     (if lk \<noteq> commSuccess then Some (lk, st)
      else case getVcImpl skip p st of
        None \<Rightarrow> None
      | Some None \<Rightarrow> Some (commInternalError, st)
      | Some (Some c) \<Rightarrow> on_dat f p st)"

definition ib_iput :: "env \<Rightarrow> commResult \<Rightarrow> bool \<Rightarrow> put_msg \<Rightarrow> bool \<Rightarrow> int \<Rightarrow> ib \<Rightarrow> ibres" where
  "ib_iput g lk skip m fst_path p = with_vc lk skip p (iputImpl (g_post g) m fst_path)"

definition ib_iputBatch :: "env \<Rightarrow> commResult \<Rightarrow> bool \<Rightarrow> put_msg list \<Rightarrow> int \<Rightarrow> ib \<Rightarrow> ibres" where
  "ib_iputBatch g lk skip ms p = with_vc lk skip p (iputBatchImpl (g_post g) ms)"

definition ib_iget ::
  "env \<Rightarrow> commResult \<Rightarrow> bool \<Rightarrow> u64 \<Rightarrow> u64 \<Rightarrow> nat \<Rightarrow> u32 list option \<Rightarrow> u32 list \<Rightarrow> ib_config option \<Rightarrow> nat option \<Rightarrow> bool \<Rightarrow> int \<Rightarrow> ib \<Rightarrow> ibres" where
  "ib_iget g lk skip sbuf dbuf n keys rkeys c req fst_path p = with_vc lk skip p (igetImpl (g_post g) sbuf dbuf n keys rkeys c req fst_path)"

text \<open>The atomics do not check the epoch lock.\<close>

definition ib_fetchAndAdd :: "env \<Rightarrow> u64 \<Rightarrow> u64 \<Rightarrow> u64 \<Rightarrow> u32 list option \<Rightarrow> u32 list \<Rightarrow> nat option \<Rightarrow> int \<Rightarrow> ib \<Rightarrow> ibres" where
  "ib_fetchAndAdd g sbuf dbuf addVal keys rkeys req p = with_vc commSuccess False p (ifetchAndAddImpl (g_post g) sbuf dbuf addVal keys rkeys req)"

definition ib_atomicSet :: "env \<Rightarrow> u64 \<Rightarrow> u64 \<Rightarrow> u64 \<Rightarrow> u32 list \<Rightarrow> nat option \<Rightarrow> int \<Rightarrow> ib \<Rightarrow> ibres" where
  "ib_atomicSet g stack dbuf val rkeys req p = with_vc commSuccess False p (iatomicSetImpl (g_post g) stack dbuf val rkeys req)"

text \<open>\<^verbatim>\<open>CtranIb::iflush\<close>; without local flush the request is complete at once.\<close>

definition ib_iflush :: "(nat \<Rightarrow> bool) \<Rightarrow> commResult \<Rightarrow> u64 \<Rightarrow> u32 list \<Rightarrow> nat \<Rightarrow> ib_req \<Rightarrow> ib \<Rightarrow> (commResult \<times> ib_req \<times> ib) option" where
  "ib_iflush accept lk dbuf rkeys req q st =
     (if lk \<noteq> commSuccess then Some (lk, q, st)
      else if enableLocalFlush st then
        (case flushVc st of
           None \<Rightarrow> None
         | Some (qpns, l) \<Rightarrow> map_option (\<lambda>(r, l1). (r, q, st\<lparr>flushVc := Some (qpns, l1)\<rparr>)) (iflush accept dbuf rkeys req l))
      else Some (commSuccess, snd (req_complete q), st))"

section \<open>Completions\<close>

text \<open>A completion; that of a receive carries the packet that arrived.\<close>

datatype cqe_op = CqeSend | CqeRecv packet | CqeData wc_opcode

record cqe =
  e_ok :: bool
  e_op :: cqe_op
  e_qpn :: u32
  e_imm :: u32
  e_id :: u64

text \<open>\<^verbatim>\<open>qpNumToIdx_\<close>, filled for the configured number of queue pairs.\<close>

definition qpNumToIdx :: "qp_id \<Rightarrow> conn \<Rightarrow> nat option" where
  "qpNumToIdx i c = find (\<lambda>j. v_dataQps c ! j = fst i \<and> getIbDevFromQpIdx j (v_dat c) = Some (snd i)) [0..<nat (maxNumQps (v_dat c))]"

definition qp_role :: "qp_id \<Rightarrow> conn \<Rightarrow> queue option" where
  "qp_role i c =
     (if i = (v_notifyQp c, 0) then Some NotifyQp else if i = (v_atomicQp c, 0) then Some AtomicQp else map_option DataQp (qpNumToIdx i c))"

definition processCqeImpl :: "env \<Rightarrow> cqe \<Rightarrow> nat \<Rightarrow> conn \<Rightarrow> (commResult \<times> conn) option" where
  "processCqeImpl g w dev c =
     (case e_op w of
        CqeSend \<Rightarrow> map_option (\<lambda>(r, k). (r, c\<lparr>v_ctl := k\<rparr>)) (send_complete (g_send g) (v_ctl c))
      | CqeRecv p \<Rightarrow>
          map_option (\<lambda>(r, k). (r, c\<lparr>v_ctl := k\<rparr>)) (recv_complete (hasCb (g_cbs g)) (runCb (g_cbs g)) (g_recv g) p (v_ctl c))
      | CqeData op \<Rightarrow>
          if op = WC_other then Some (commSystemError, c)
          else case qp_role (e_qpn w, dev) c of
            None \<Rightarrow> None
          | Some q \<Rightarrow> map_option (\<lambda>(r, d). (r, c\<lparr>v_dat := d\<rparr>)) (processDataCqe (g_post g) (g_refill g) op q (e_imm w) (e_id w) (v_dat c)))"

datatype poll = PollError | PollEmpty | Polled cqe

text \<open>What a device's queue gave. The flag: was there a completion?\<close>

definition handle_cqe :: "env \<Rightarrow> nat \<Rightarrow> cqe \<Rightarrow> ib \<Rightarrow> ibres" where
  "handle_cqe g dev w st =
     (let remote = (case getVcByQp (e_qpn w, dev) st of
           None \<Rightarrow> Some (commInternalError, st)
         | Some p \<Rightarrow>
             if \<not> e_ok w then Some (commRemoteError, st)
             else (case vcs st p of
                None \<Rightarrow> None
              | Some c \<Rightarrow> map_option (\<lambda>(r, c1). (r, st\<lparr>vcs := (vcs st)(p \<mapsto> c1)\<rparr>)) (processCqeImpl g w dev c)))
      in if \<not> enableLocalFlush st then remote
         else case flushVc st of
           None \<Rightarrow> None
         | Some (qpns, l) \<Rightarrow>
             if length qpns \<le> dev then None
             else if e_qpn w \<noteq> qpns ! dev then remote
             else if \<not> e_ok w then Some (commRemoteError, st)
             else map_option (\<lambda>(r, l1). (r, st\<lparr>flushVc := Some (qpns, l1)\<rparr>)) (flush_complete (e_op w = CqeData WC_RDMA_READ) l))"

fun poll_devices :: "env \<Rightarrow> nat \<Rightarrow> poll list \<Rightarrow> bool \<Rightarrow> ib \<Rightarrow> (commResult \<times> bool \<times> ib) option" where
  "poll_devices g dev [] found st = Some (commSuccess, found, st)"
| "poll_devices g dev (PollError # ps) found st = Some (commSystemError, found, st)"
| "poll_devices g dev (PollEmpty # ps) found st = poll_devices g (Suc dev) ps found st"
| "poll_devices g dev (Polled w # ps) found st =
     (case handle_cqe g dev w st of
        None \<Rightarrow> None
      | Some (r, st1) \<Rightarrow> if r \<noteq> commSuccess then Some (r, True, st1) else poll_devices g (Suc dev) ps True st1)"

text \<open>The rounds over the devices, with what they give; after the last one there is nothing.\<close>

fun progress_rounds :: "env \<Rightarrow> poll list list \<Rightarrow> ib \<Rightarrow> ibres" where
  "progress_rounds g [] st = Some (commSuccess, st)"
| "progress_rounds g (ps # rs) st =
     (case poll_devices g 0 ps False st of
        None \<Rightarrow> None
      | Some (r, found, st1) \<Rightarrow>
          if r \<noteq> commSuccess then Some (r, st1) else if \<not> found then Some (commSuccess, st1) else progress_rounds g rs st1)"

definition progressInternal :: "env \<Rightarrow> commResult \<Rightarrow> bool \<Rightarrow> poll list list \<Rightarrow> ib \<Rightarrow> ibres" where
  "progressInternal g lk skip rs st =
     (if lk \<noteq> commSuccess then Some (lk, st)
      else ithen (progress_rounds g rs st) (\<lambda>st1. if skip then Some (commSuccess, st1) else progressPendingOps (g_send g) st1))"

text \<open>The loop before a notification is sent; without further progress it waits (\<open>None\<close>).\<close>

fun notify_loop :: "env \<Rightarrow> commResult \<Rightarrow> poll list list list \<Rightarrow> nat option \<Rightarrow> int \<Rightarrow> ib \<Rightarrow> ibres" where
  "notify_loop g lk rss req p st =
     (case vcs st p of
        None \<Rightarrow> None
      | Some c \<Rightarrow>
          if canTransferData (v_dat c) then on_dat (\<lambda>d. Some (notify (g_post g) req None d)) p st
          else case rss of
            [] \<Rightarrow> None
          | rs # rss1 \<Rightarrow> ithen (progressInternal g lk False rs st) (notify_loop g lk rss1 req p))"

definition ib_notify :: "env \<Rightarrow> commResult \<Rightarrow> poll list list list \<Rightarrow> nat option \<Rightarrow> int \<Rightarrow> ib \<Rightarrow> ibres" where
  "ib_notify g lk rss req p st =
     (if lk \<noteq> commSuccess then Some (lk, st)
      else case getVcImpl False p st of
        None \<Rightarrow> None
      | Some None \<Rightarrow> Some (commInternalError, st)
      | Some (Some c) \<Rightarrow> notify_loop g lk rss req p st)"

definition ib_checkNotify :: "env \<Rightarrow> commResult \<Rightarrow> bool \<Rightarrow> poll list list \<Rightarrow> int \<Rightarrow> ib \<Rightarrow> (commResult \<times> bool \<times> ib) option" where
  "ib_checkNotify g lk skip rs p st =
     (if lk \<noteq> commSuccess then Some (lk, False, st)
      else if checkValidPeer p st \<noteq> commSuccess then Some (commInternalError, False, st)
      else case progressInternal g lk skip rs st of
        None \<Rightarrow> None
      | Some (r, st1) \<Rightarrow>
          if r \<noteq> commSuccess then Some (r, False, st1)
          else case getVcImpl skip p st1 of
            None \<Rightarrow> None
          | Some None \<Rightarrow> Some (commSuccess, False, st1)
          | Some (Some c) \<Rightarrow>
              map_option (\<lambda>(b, d). (commSuccess, b, st1\<lparr>vcs := (vcs st1)(p \<mapsto> c\<lparr>v_dat := d\<rparr>)\<rparr>)) (checkNotify (v_dat c)))"

text \<open>The loop of \<^verbatim>\<open>waitNotify\<close>; \<open>None\<close> also when it waits for ever or is aborted.\<close>

fun wait_loop :: "env \<Rightarrow> commResult \<Rightarrow> bool \<Rightarrow> poll list list list \<Rightarrow> int \<Rightarrow> int \<Rightarrow> ib \<Rightarrow> ibres" where
  "wait_loop g lk skip rss cnt p st =
     (if cnt = 0 then Some (commSuccess, st)
      else case rss of
        [] \<Rightarrow> None
      | rs # rss1 \<Rightarrow> ithen (progressInternal g lk skip rs st)
          (\<lambda>st1. case vcs st1 p of
             None \<Rightarrow> None
           | Some c \<Rightarrow>
               (case checkNotifies cnt (v_dat c) of
                  None \<Rightarrow> None
                | Some (n, d) \<Rightarrow> wait_loop g lk skip rss1 n p (st1\<lparr>vcs := (vcs st1)(p \<mapsto> c\<lparr>v_dat := d\<rparr>)\<rparr>))))"

definition ib_waitNotify :: "env \<Rightarrow> commResult \<Rightarrow> bool \<Rightarrow> poll list list list \<Rightarrow> int \<Rightarrow> int \<Rightarrow> ib \<Rightarrow> ibres" where
  "ib_waitNotify g lk skip rss cnt p st =
     (if lk \<noteq> commSuccess then Some (lk, st)
      else if checkValidPeer p st \<noteq> commSuccess then Some (commInternalError, st)
      else case getVcImpl skip p st of
        Some (Some c) \<Rightarrow> wait_loop g lk skip rss cnt p st
      | _ \<Rightarrow> None)"

section \<open>Registrations and settings\<close>

definition CTRAN_MAX_IB_DEVICES_PER_RANK :: nat where "CTRAN_MAX_IB_DEVICES_PER_RANK = 2"

record access_key =
  k_rkeys :: "u32 list"
  k_nKeys :: nat

record export_msg =
  x_remoteAddr :: u64
  x_rkeys :: "u32 list"
  x_nKeys :: nat

text \<open>\<open>keys\<close> are the remote keys of the registration, one per device; \<open>None\<close> is an access out of bounds.\<close>

definition getRemoteKeysImpl :: "nat \<Rightarrow> u32 list \<Rightarrow> u32 list \<Rightarrow> u32 list option" where
  "getRemoteKeysImpl nd keys rkeys = (if length rkeys < nd \<or> length keys < nd then None else Some (take nd keys @ drop nd rkeys))"

definition getRemoteAccessKey :: "nat \<Rightarrow> u32 list \<Rightarrow> access_key option" where
  "getRemoteAccessKey nd keys =
     map_option (\<lambda>ks. \<lparr>k_rkeys = ks, k_nKeys = nd\<rparr>) (getRemoteKeysImpl nd keys (replicate CTRAN_MAX_IB_DEVICES_PER_RANK 0))"

definition exportMemImpl :: "nat \<Rightarrow> u64 \<Rightarrow> u32 list \<Rightarrow> export_msg option" where
  "exportMemImpl nd addr keys =
     map_option (\<lambda>ks. \<lparr>x_remoteAddr = addr, x_rkeys = ks, x_nKeys = nd\<rparr>)
       (getRemoteKeysImpl nd keys (replicate CTRAN_MAX_IB_DEVICES_PER_RANK 0))"

definition importMemImpl :: "nat \<Rightarrow> export_msg \<Rightarrow> (u64 \<times> access_key) option" where
  "importMemImpl nd msg =
     (if CTRAN_MAX_IB_DEVICES_PER_RANK < nd then None
      else Some (x_remoteAddr msg,
        \<lparr>k_rkeys = take nd (x_rkeys msg) @ drop nd (replicate CTRAN_MAX_IB_DEVICES_PER_RANK 0), k_nKeys = x_nKeys msg\<rparr>))"

text \<open>The traffic classes by process group; \<open>to_u32\<close> is \<^verbatim>\<open>folly::tryTo\<close>. An error leaves what was read before.\<close>

fun setPgToTrafficClassMap :: "(string \<Rightarrow> u32 option) \<Rightarrow> string list \<Rightarrow> (string \<rightharpoonup> u32) \<Rightarrow> commResult \<times> (string \<rightharpoonup> u32)" where
  "setPgToTrafficClassMap to_u32 [] m = (commSuccess, m)"
| "setPgToTrafficClassMap to_u32 (s # ss) m =
     (case split_on CHR '':'' s of
        [pg, tc] \<Rightarrow>
          (case to_u32 tc of None \<Rightarrow> (commInternalError, m) | Some n \<Rightarrow> setPgToTrafficClassMap to_u32 ss (m(pg \<mapsto> n)))
      | _ \<Rightarrow> (commInternalError, m))"

definition getPgToTrafficClassValue :: "(string \<rightharpoonup> u32) \<Rightarrow> string \<Rightarrow> u32 \<Rightarrow> u32" where
  "getPgToTrafficClassValue m desc dflt = (case m (hd (split_on CHR '':'' desc)) of None \<Rightarrow> dflt | Some n \<Rightarrow> n)"

text \<open>The devices of a rank in the list of all devices; \<open>None\<close> throws.\<close>

definition device_indices :: "int \<Rightarrow> int \<Rightarrow> int \<Rightarrow> nat \<Rightarrow> int list option" where
  "device_indices cudaDev per stride n =
     (if cudaDev * per * stride \<ge> int n then None else Some (map (\<lambda>d. cudaDev * per * stride + d) [0..per - 1]))"

text \<open>The ports of a device, with what the query gave: active and of a known link layer. \<open>flt\<close> is the port that was asked for.\<close>

definition find_port :: "nat option \<Rightarrow> (bool \<times> bool) option list \<Rightarrow> nat option" where
  "find_port flt attrs =
     map_option Suc (find (\<lambda>i. (case attrs ! i of None \<Rightarrow> False | Some (active, link) \<Rightarrow> active \<and> link) \<and> (flt = None \<or> flt = Some (Suc i)))
       [0..<length attrs])"

text \<open>The loop of \<^verbatim>\<open>init\<close> over the devices: the port of each, 0 if none was set. \<open>found\<close> is declared before the loop; \<open>None\<close> throws.\<close>

fun init_ports :: "(nat option \<times> (bool \<times> bool) option list) list \<Rightarrow> bool \<Rightarrow> nat list option" where
  "init_ports [] found = Some []"
| "init_ports ((flt, attrs) # ds) found =
     (case find_port flt attrs of
        Some p \<Rightarrow> map_option (Cons p) (init_ports ds True)
      | None \<Rightarrow> if found then map_option (Cons 0) (init_ports ds True) else None)"

lemma init_misses_port: "init_ports [(None, [Some (True, True)]), (None, [Some (False, True)])] False = Some [1, 0]"
  by code_simp

lemma init_index_out_of_range: "device_indices 1 2 1 3 = Some [2, 3]"
  by code_simp

text \<open>Importing an exported registration gives the exported address and the access key that the owner would hand out itself.\<close>

theorem export_import:
  assumes "exportMemImpl nd addr keys = Some msg"
  shows "importMemImpl nd msg = map_option (Pair addr) (getRemoteAccessKey nd keys) \<and> importMemImpl nd msg \<noteq> None"
  using assms by (auto simp: exportMemImpl_def importMemImpl_def getRemoteAccessKey_def getRemoteKeysImpl_def split: if_splits)

theorem export_import_witness:
  "importMemImpl 2 \<lparr>x_remoteAddr = 4096, x_rkeys = [7, 8], x_nKeys = 2\<rparr> = map_option (Pair 4096) (getRemoteAccessKey 2 [7, 8])"
  using export_import [of 2 4096 "[7, 8]" "\<lparr>x_remoteAddr = 4096, x_rkeys = [7, 8], x_nKeys = 2\<rparr>"]
  by (simp add: exportMemImpl_def getRemoteKeysImpl_def CTRAN_MAX_IB_DEVICES_PER_RANK_def)

section \<open>The lock is exclusive\<close>

inductive epoch_run :: "epoch \<Rightarrow> bool" where
  new: "epoch_run epoch_new"
| lock: "epoch_run e \<Longrightarrow> epochLock True t e = Some (r, e') \<Longrightarrow> epoch_run e'"
| trylock: "epoch_run e \<Longrightarrow> epochTryLock True t e = (r, e') \<Longrightarrow> epoch_run e'"
| unlock: "epoch_run e \<Longrightarrow> epochUnlock True t e = (r, e') \<Longrightarrow> epoch_run e'"

lemma epoch_run_inv: "epoch_run e \<Longrightarrow> e_flag e t \<longleftrightarrow> e_mutex e = Some t"
proof (induction arbitrary: t rule: epoch_run.induct)
  case new
  then show ?case by (simp add: epoch_new_def)
next
  case (lock e u r e')
  then show ?case by (auto simp: epochLock_def split: if_splits)
next
  case (trylock e u r e')
  then show ?case by (auto simp: epochTryLock_def split: if_splits)
next
  case (unlock e u r e')
  show ?case using unlock.hyps(2) unlock.IH [of t] unlock.IH [of u] by (auto simp: epochUnlock_def split: if_splits)
qed

text \<open>C14: With the lock enabled and the check enforced, at most one thread passes the check, and it is the one that holds the mutex;
  it can unlock, no other thread can, and the holder does not block itself by locking again.\<close>

theorem epoch_exclusive:
  assumes "epoch_run e"
  shows "(checkEpochLock True True t e = commSuccess \<longleftrightarrow> e_mutex e = Some t) \<and>
    (fst (epochUnlock True t e) = commSuccess \<longleftrightarrow> e_mutex e = Some t) \<and>
    (epochLock True t e = Some (commInternalError, e) \<longleftrightarrow> e_mutex e = Some t)"
  using epoch_run_inv [OF assms] by (auto simp: checkEpochLock_def epochUnlock_def epochLock_def)

theorem epoch_exclusive_witness: "checkEpochLock True True 1 (epoch_new\<lparr>e_mutex := Some 1, e_flag := (\<lambda>t. t = 1)\<rparr>) = commSuccess"
proof -
  have "epochLock True 1 epoch_new = Some (commSuccess, epoch_new\<lparr>e_mutex := Some 1, e_flag := (\<lambda>t. t = 1)\<rparr>)"
    by (auto simp: epochLock_def epoch_new_def fun_eq_iff)
  then have "epoch_run (epoch_new\<lparr>e_mutex := Some 1, e_flag := (\<lambda>t. t = 1)\<rparr>)" by (rule epoch_run.lock [OF epoch_run.new])
  from epoch_exclusive [OF this, of 1] show ?thesis by simp
qed

end
