(* ===== verification/Ib_Order.thy ===== *)
theory Ib_Order imports Ib_Backend begin

text \<open>
  The order of the control messages across the life of a connection: operations that were called before the connection
  was there, while it waits for its pending operations, and after that, go to it in the order of the calls.
\<close>

section \<open>References of requests\<close>

definition slack :: "ctrl \<Rightarrow> nat \<Rightarrow> int" where
  "slack k i = refCount (c_reqs k i) - int (count_list (held_c k) i)"

lemma refCount_complete: "refCount (snd (req_complete q)) = refCount q - 1"
  by (simp add: req_complete_def Let_def)

lemma slack_complete:
  "complete_ctrl q k = (r, k') \<Longrightarrow> c_reqs k' = (c_reqs k)(q := snd (req_complete (c_reqs k q))) \<and> held_c k' = held_c k"
  by (auto simp: complete_ctrl_def held_c_def split: prod.splits)

lemma slack_post:
  "post_from takes t b q k = Some (commSuccess, k') \<Longrightarrow> slack k' i = slack k i - (if i = q then 1 else 0)"
  by (auto simp: post_from_def copyFrom_def postSendCtrlMsg_def slack_def held_c_def split: list.splits if_splits)

lemma slack_isend:
  "isendCtrlMsg takes t b q k = Some (commSuccess, k') \<Longrightarrow> slack k' i = slack k i - (if i = q then 1 else 0)"
  using slack_post [of t b q k k' i] by (auto simp: isendCtrlMsg_def slack_def held_c_def split: if_splits)

lemma slack_irecv:
  assumes "irecvCtrlMsg dst n q k = Some (r, k')"
  shows "slack k' i = slack k i - (if i = q then 1 else 0)"
proof (cases "r_unexp k")
  case Nil
  then show ?thesis using assms by (auto simp: irecvCtrlMsg_def slack_def held_c_def)
next
  case (Cons p ps)
  then obtain b where "complete_ctrl q (k\<lparr>r_unexp := ps, buf := (buf k)(dst := b)\<rparr>) = (r, k')"
    using assms by (cases "copyTo p n") (simp_all add: irecvCtrlMsg_def)
  from slack_complete [OF this] show ?thesis by (simp add: slack_def held_c_def refCount_complete)
qed

lemma slack_sent:
  assumes "send_complete takes k = Some (commSuccess, k')"
  shows "slack k' i = slack k i"
proof -
  obtain q qs where q: "s_reqs k = q # qs" using assms by (cases "s_reqs k") (simp_all add: send_complete_def)
  obtain r k1 where c: "complete_ctrl q (k\<lparr>s_reqs := qs\<rparr>) = (r, k1)" by (cases "complete_ctrl q (k\<lparr>s_reqs := qs\<rparr>)")
  note C = slack_complete [OF c]
  have s1: "slack k1 i = slack k i" using C by (simp add: slack_def held_c_def q refCount_complete)
  obtain m ms where m: "s_posted k1 = m # ms" "r = commSuccess"
    using assms by (cases "s_posted k1"; cases "r = commSuccess") (simp_all add: send_complete_def q c)
  let ?k2 = "k1\<lparr>s_posted := ms, s_free := s_free k1 @ [m]\<rparr>"
  have s2: "slack ?k2 i = slack k i" using s1 by (simp add: slack_def held_c_def)
  have e: "(if s_enqueued ?k2 \<noteq> [] then postEnqueuedSendWr takes ?k2 else Some (commSuccess, ?k2)) = Some (commSuccess, k')"
    using assms by (simp add: send_complete_def q c m Let_def)
  show ?thesis
  proof (cases "s_enqueued ?k2")
    case Nil
    then show ?thesis using e s2 by simp
  next
    case (Cons w ws)
    then have "post_from takes (sw_type w) (sw_payload w) (sw_req w) (?k2\<lparr>s_enqueued := ws\<rparr>) = Some (commSuccess, k')"
      using e by (simp add: postEnqueuedSendWr_def)
    note P = slack_post [OF this, of i]
    have "slack (?k2\<lparr>s_enqueued := ws\<rparr>) i = slack ?k2 i + (if i = sw_req w then 1 else 0)"
      using Cons by (auto simp: slack_def held_c_def)
    then show ?thesis using P s2 by simp
  qed
qed

lemma slack_arrive:
  assumes "recv_complete hcb run True p k = Some (commSuccess, k')"
  shows "slack k' i = slack k i"
proof -
  obtain m ms where m: "r_posted k = m # ms" using assms by (cases "r_posted k") (simp_all add: recv_complete_def)
  let ?k1 = "k\<lparr>r_posted := ms\<rparr>"
  obtain k2 where k2: "(if hcb (k_type p) then Some (run p, ?k1\<lparr>calls := calls ?k1 @ [p]\<rparr>)
      else if r_enqueued ?k1 = [] then Some (enqueueUnexpWr p ?k1) else matchRecvWr p ?k1) = Some (commSuccess, k2)"
    "k' = k2\<lparr>r_posted := r_posted k2 @ [m]\<rparr>"
    using assms m by (auto simp: recv_complete_def Let_def split: option.splits prod.splits if_splits)
  have "slack k2 i = slack k i"
  proof (cases "hcb (k_type p) \<or> r_enqueued ?k1 = []")
    case True
    then show ?thesis using k2(1) by (auto simp: enqueueUnexpWr_def slack_def held_c_def split: if_splits)
  next
    case False
    then obtain w ws where w: "r_enqueued k = w # ws" by (cases "r_enqueued k") auto
    obtain b where "complete_ctrl (rw_req w) (?k1\<lparr>r_enqueued := ws, buf := (buf ?k1)(rw_dst w := b)\<rparr>) = (commSuccess, k2)"
      using k2(1) False w by (cases "copyTo p (rw_size w)") (simp_all add: matchRecvWr_def)
    from slack_complete [OF this] show ?thesis by (simp add: slack_def held_c_def w refCount_complete)
  qed
  then show ?thesis unfolding k2(2) by (simp add: slack_def held_c_def)
qed

section \<open>What a connection was given\<close>

definition op_req :: "pend_op \<Rightarrow> nat" where
  "op_req op = (case op of ISEND_CTRL t b q \<Rightarrow> q | IRECV_CTRL dst n q \<Rightarrow> q)"

definition sends_of :: "pend_op list \<Rightarrow> (int \<times> bytes) list" where
  "sends_of xs = concat (map (\<lambda>op. case op of ISEND_CTRL (Some t) b q \<Rightarrow> [(t, b)] | _ \<Rightarrow> []) xs)"

definition recvs_of :: "pend_op list \<Rightarrow> recv_wr list" where
  "recvs_of xs = concat (map (\<lambda>op. case op of IRECV_CTRL dst n q \<Rightarrow> [\<lparr>rw_dst = dst, rw_size = n, rw_req = q\<rparr>] | _ \<Rightarrow> []) xs)"

definition op_ok :: "pend_op \<Rightarrow> bool" where
  "op_ok op = (case op of ISEND_CTRL None b q \<Rightarrow> False | ISEND_CTRL (Some t) b q \<Rightarrow> length b \<le> MAX_PAYLOAD_SIZE | _ \<Rightarrow> True)"

lemma sends_simps [simp]:
  "sends_of [] = []" "sends_of (xs @ ys) = sends_of xs @ sends_of ys" "sends_of (ISEND_CTRL (Some t) b q # xs) = (t, b) # sends_of xs"
  "sends_of (IRECV_CTRL dst n q # xs) = sends_of xs"
  by (simp_all add: sends_of_def)

lemma recvs_simps [simp]:
  "recvs_of [] = []" "recvs_of (xs @ ys) = recvs_of xs @ recvs_of ys" "recvs_of (ISEND_CTRL t b q # xs) = recvs_of xs"
  "recvs_of (IRECV_CTRL dst n q # xs) = \<lparr>rw_dst = dst, rw_size = n, rw_req = q\<rparr> # recvs_of xs"
  by (simp_all add: recvs_of_def)

lemma op_req_simps [simp]: "op_req (ISEND_CTRL t b q) = q" "op_req (IRECV_CTRL dst n q) = q"
  by (simp_all add: op_req_def)

text \<open>
  \<open>S\<close>, \<open>A\<close>, \<open>R\<close>: the messages and receives of all calls for a peer, and what arrived from it; \<open>xs\<close> are the operations that wait.
\<close>

definition ctl_ok :: "(int \<Rightarrow> bool) \<Rightarrow> (int \<times> bytes) list \<Rightarrow> packet list \<Rightarrow> recv_wr list \<Rightarrow> pend_op list \<Rightarrow> ctrl \<Rightarrow> bool" where
  "ctl_ok hcb S A R xs k \<longleftrightarrow> (\<exists>ms rs. ctrl_run hcb ms A rs k \<and> S = ms @ sends_of xs \<and> R = rs @ recvs_of xs) \<and>
     (\<forall>i. int (count_list (map op_req xs) i) \<le> slack k i) \<and> (\<forall>op \<in> set xs. op_ok op)"

lemma ctl_okD:
  assumes "ctl_ok hcb S A R xs k"
  obtains ms rs where "ctrl_run hcb ms A rs k" "S = ms @ sends_of xs" "R = rs @ recvs_of xs"
    "\<And>i. int (count_list (map op_req xs) i) \<le> slack k i" "\<forall>op \<in> set xs. op_ok op"
  using assms unfolding ctl_ok_def by blast

lemma ctl_okI:
  "ctrl_run hcb ms A rs k \<Longrightarrow> S = ms @ sends_of xs \<Longrightarrow> R = rs @ recvs_of xs \<Longrightarrow>
   (\<And>i. int (count_list (map op_req xs) i) \<le> slack k i) \<Longrightarrow> \<forall>op \<in> set xs. op_ok op \<Longrightarrow> ctl_ok hcb S A R xs k"
  unfolding ctl_ok_def by blast

lemma ctl_ok_add:
  assumes c: "ctl_ok hcb S A R xs k" and r: "int (count_list (map op_req xs) (op_req op)) < slack k (op_req op)" and o: "op_ok op"
  shows "ctl_ok hcb (S @ sends_of [op]) A (R @ recvs_of [op]) (xs @ [op]) k"
proof -
  obtain ms rs where C: "ctrl_run hcb ms A rs k" "S = ms @ sends_of xs" "R = rs @ recvs_of xs"
    "\<And>i. int (count_list (map op_req xs) i) \<le> slack k i" "\<forall>op \<in> set xs. op_ok op" by (rule ctl_okD [OF c]) blast
  show ?thesis
  proof (rule ctl_okI [OF C(1)])
    show "int (count_list (map op_req (xs @ [op])) i) \<le> slack k i" for i using C(4) [of i] r by (cases "i = op_req op") simp_all
  qed (use C(2,3,5) o in simp_all)
qed

lemma ctl_ok_issue:
  assumes c: "ctl_ok hcb S A R (op # xs) k" and e: "issue_op takes op k = Some (r, k')"
  shows "r = commSuccess \<and> ctl_ok hcb S A R xs k'"
proof -
  obtain ms rs where C: "ctrl_run hcb ms A rs k" "S = ms @ sends_of (op # xs)" "R = rs @ recvs_of (op # xs)"
    "\<And>i. int (count_list (map op_req (op # xs)) i) \<le> slack k i" "\<forall>op \<in> set (op # xs). op_ok op" by (rule ctl_okD [OF c]) blast
  have o: "op_ok op" using C(5) by simp
  have q: "int (count_list (held_c k) (op_req op) + 1) \<le> refCount (c_reqs k (op_req op))"
    using C(4) [of "op_req op"] by (simp add: slack_def)
  note I = ctrl_run_inv [OF C(1)]
  have sl: "int (count_list (map op_req xs) i) \<le> slack k' i" if "slack k' i = slack k i - (if i = op_req op then 1 else 0)" for i
    using C(4) [of i] that by (auto split: if_splits)
  show ?thesis
  proof (cases op)
    case (ISEND_CTRL t0 b req)
    then obtain t where t: "op = ISEND_CTRL (Some t) b req" "length b \<le> MAX_PAYLOAD_SIZE" using o by (cases t0) (auto simp: op_ok_def)
    have e1: "isendCtrlMsg takes t b req k = Some (r, k')" using e by (simp add: issue_op_def t(1))
    obtain k1 where "isendCtrlMsg takes t b req k = Some (commSuccess, k1)" by (rule isend_inv [of ms k b t req]) (use I t(2) in blast)+
    then have r: "r = commSuccess" using e1 by simp
    have run: "ctrl_run hcb (ms @ [(t, b)]) A rs k'" by (rule ctrl_run.send [OF C(1) t(2) _ e1]) (use q t(1) in simp)
    have "ctl_ok hcb S A R xs k'"
      by (rule ctl_okI [OF run _ _ sl]) (use C(2,3,5) t(1) slack_isend e1 r in auto)
    then show ?thesis using r by blast
  next
    case (IRECV_CTRL dst n req)
    have e1: "irecvCtrlMsg dst n req k = Some (r, k')" using e by (simp add: issue_op_def IRECV_CTRL)
    have r: "r = commSuccess" using irecv_inv [of hcb A rs k req dst n r k'] I q e1 IRECV_CTRL by simp
    have run: "ctrl_run hcb ms A (rs @ [\<lparr>rw_dst = dst, rw_size = n, rw_req = req\<rparr>]) k'"
      by (rule ctrl_run.recv [OF C(1) _ e1]) (use q IRECV_CTRL in simp)
    have "ctl_ok hcb S A R xs k'"
      by (rule ctl_okI [OF run _ _ sl]) (use C(2,3,5) IRECV_CTRL slack_irecv e1 in auto)
    then show ?thesis using r by blast
  qed
qed

lemma ctl_ok_sent:
  assumes c: "ctl_ok hcb S A R xs k" and e: "send_complete takes k = Some (r, k')" "s_posted k \<noteq> []"
  shows "ctl_ok hcb S A R xs k'"
proof -
  obtain ms rs where C: "ctrl_run hcb ms A rs k" "S = ms @ sends_of xs" "R = rs @ recvs_of xs"
    "\<And>i. int (count_list (map op_req xs) i) \<le> slack k i" "\<forall>op \<in> set xs. op_ok op" by (rule ctl_okD [OF c]) blast
  obtain k1 where "send_complete takes k = Some (commSuccess, k1)"
    by (rule send_complete_inv [of ms k]) (use ctrl_run_inv [OF C(1)] e(2) in blast)+
  then have "send_complete takes k = Some (commSuccess, k')" using e(1) by simp
  then have sl: "slack k' i = slack k i" for i by (rule slack_sent)
  show ?thesis by (rule ctl_okI [OF ctrl_run.sent [OF C(1) e(2,1)] C(2,3)]) (use C(4,5) sl in auto)
qed

lemma ctl_ok_arrive:
  assumes c: "ctl_ok hcb S A R xs k" and e: "recv_complete hcb run True p k = Some (commSuccess, k')"
  shows "ctl_ok hcb S (A @ [p]) R xs k'"
proof -
  obtain ms rs where C: "ctrl_run hcb ms A rs k" "S = ms @ sends_of xs" "R = rs @ recvs_of xs"
    "\<And>i. int (count_list (map op_req xs) i) \<le> slack k i" "\<forall>op \<in> set xs. op_ok op" by (rule ctl_okD [OF c]) blast
  show ?thesis by (rule ctl_okI [OF ctrl_run.arrive [OF C(1) e] C(2,3)]) (use C(4,5) slack_arrive [OF e] in auto)
qed

section \<open>The connections of a rank\<close>

definition waiting :: "ib \<Rightarrow> int \<Rightarrow> pend_op list" where
  "waiting st p = (case map_of (pendOps st) p of None \<Rightarrow> [] | Some xs \<Rightarrow> xs)"

definition peer_ok :: "(int \<Rightarrow> bool) \<Rightarrow> (int \<times> bytes) list \<Rightarrow> packet list \<Rightarrow> recv_wr list \<Rightarrow> pend_op list \<Rightarrow> conn option \<Rightarrow> bool" where
  "peer_ok hcb S A R xs v =
     (case v of
        None \<Rightarrow> S = sends_of xs \<and> R = recvs_of xs \<and> A = [] \<and> distinct (map op_req xs) \<and> (\<forall>op \<in> set xs. op_ok op)
      | Some c \<Rightarrow> ctl_ok hcb S A R xs (v_ctl c))"

type_synonym history = "(int \<Rightarrow> (int \<times> bytes) list) \<times> (int \<Rightarrow> packet list) \<times> (int \<Rightarrow> recv_wr list)"

text \<open>\<open>W\<close>: the operations that the connections still have to get.\<close>

definition peers_ok :: "(int \<Rightarrow> bool) \<Rightarrow> history \<Rightarrow> (int \<Rightarrow> pend_op list) \<Rightarrow> (int \<rightharpoonup> conn) \<Rightarrow> bool" where
  "peers_ok hcb H W cs \<longleftrightarrow> (\<forall>p. peer_ok hcb (fst H p) (fst (snd H) p) (snd (snd H) p) (W p) (cs p))"

definition fresh_ok :: "(int \<rightharpoonup> conn) \<Rightarrow> bool" where "fresh_ok cs \<longleftrightarrow> (\<forall>p c. cs p = Some c \<longrightarrow> v_ctl c = ctrl_new)"

definition ib_inv :: "(int \<Rightarrow> bool) \<Rightarrow> history \<Rightarrow> ib \<Rightarrow> bool" where
  "ib_inv hcb H st \<longleftrightarrow> distinct (map fst (pendOps st)) \<and> peers_ok hcb H (waiting st) (vcs st) \<and>
     (\<forall>p. isPeerConnected p st \<longrightarrow> vcs st p \<noteq> None \<and> waiting st p = []) \<and> fresh_ok (pendVcs st) \<and> mapsPtr st"

lemma ib_invD:
  assumes "ib_inv hcb H st"
  shows "distinct (map fst (pendOps st))" "peers_ok hcb H (waiting st) (vcs st)"
    "\<And>p. isPeerConnected p st \<Longrightarrow> vcs st p \<noteq> None \<and> waiting st p = []" "fresh_ok (pendVcs st)" "mapsPtr st"
  using assms unfolding ib_inv_def by blast+

lemma ib_invI:
  "distinct (map fst (pendOps st)) \<Longrightarrow> peers_ok hcb H (waiting st) (vcs st) \<Longrightarrow>
   (\<And>p. isPeerConnected p st \<Longrightarrow> vcs st p \<noteq> None \<and> waiting st p = []) \<Longrightarrow> fresh_ok (pendVcs st) \<Longrightarrow> mapsPtr st \<Longrightarrow> ib_inv hcb H st"
  unfolding ib_inv_def by blast

text \<open>What an operation leaves alone.\<close>

definition frame :: "ib \<Rightarrow> ib \<Rightarrow> bool" where
  "frame st st' \<longleftrightarrow> pendOps st' = pendOps st \<and> connected st' = connected st \<and> mapsPtr st' = mapsPtr st \<and> ib_rank st' = ib_rank st \<and>
     ib_nRanks st' = ib_nRanks st"

lemma frame_refl: "frame st st" by (simp add: frame_def)

lemma frame_trans: "frame a b \<Longrightarrow> frame b c \<Longrightarrow> frame a c" by (simp add: frame_def)

lemma frameD: "frame st st' \<Longrightarrow> waiting st' = waiting st \<and> (isPeerConnected p st' \<longleftrightarrow> isPeerConnected p st) \<and> checkValidPeer p st' = checkValidPeer p st"
  by (simp add: frame_def waiting_def fun_eq_iff isPeerConnected_def checkValidPeer_def)

lemma count_list_distinct: "distinct xs \<Longrightarrow> count_list xs x \<le> 1"
  by (induction xs) (auto simp: count_list_0_iff)

lemma born:
  assumes "peer_ok hcb S A R xs None" "v_ctl c = ctrl_new"
  shows "peer_ok hcb S A R xs (Some c)"
proof -
  have A: "S = sends_of xs" "R = recvs_of xs" "A = []" "distinct (map op_req xs)" "\<forall>op \<in> set xs. op_ok op"
    using assms(1) by (simp_all add: peer_ok_def)
  have "int (count_list (map op_req xs) i) \<le> slack ctrl_new i" for i
    using count_list_distinct [of "map op_req xs" i] A(4) by (simp add: slack_def held_c_def ctrl_new_def req_new_def)
  then have "ctl_ok hcb S [] R xs ctrl_new" by (intro ctl_okI [OF ctrl_run.new]) (use A in simp_all)
  then show ?thesis using A(3) assms(2) by (simp add: peer_ok_def)
qed

lemma insert_qps_fields: "\<exists>m. snd (insert_qps is p st) = st\<lparr>qpToVc := m\<rparr>"
proof (induction "is" arbitrary: st)
  case Nil
  show ?case by (rule exI [of _ "qpToVc st"]) simp
next
  case (Cons i js)
  show ?case
  proof (cases "qpToVc st i")
    case None
    obtain m where "snd (insert_qps js p (st\<lparr>qpToVc := (qpToVc st)(i \<mapsto> p)\<rparr>)) = st\<lparr>qpToVc := (qpToVc st)(i \<mapsto> p)\<rparr>\<lparr>qpToVc := m\<rparr>"
      using Cons.IH by blast
    then show ?thesis using None by (auto simp: checkAndInsertQpToVcMap_def)
  next
    case (Some y)
    then show ?thesis by (auto simp: checkAndInsertQpToVcMap_def intro: exI [of _ "qpToVc st"])
  qed
qed

lemma updateVcState_cases:
  assumes "updateVcState c p st = Some (r, st')"
  shows "(\<exists>v m. st' = st\<lparr>vcs := v, qpToVc := m\<rparr>) \<and> (r = commSuccess \<longrightarrow> vcs st p = None \<and> vcs st' = (vcs st)(p \<mapsto> c))"
proof (cases "vcs st p")
  case None
  let ?s = "st\<lparr>vcs := (vcs st)(p \<mapsto> c)\<rparr>" and ?i = "[(v_ctrlQp c, 0), (v_notifyQp c, 0), (v_atomicQp c, 0)]"
  obtain r1 s1 where s1: "insert_qps ?i p ?s = (r1, s1)" by (cases "insert_qps ?i p ?s")
  obtain m1 where m1: "s1 = ?s\<lparr>qpToVc := m1\<rparr>" using insert_qps_fields [of ?i p ?s] s1 by auto
  show ?thesis
  proof (cases "r1 = commSuccess")
    case True
    obtain ids where "insert_qps ids p s1 = (r, st')" using assms None s1 True by (cases "data_ids c") (auto simp: updateVcState_def ithen_def)
    then obtain m where "st' = s1\<lparr>qpToVc := m\<rparr>" using insert_qps_fields [of ids p s1] by auto
    then show ?thesis using m1 None by auto
  next
    case False
    then show ?thesis using assms None s1 m1 by (auto simp: updateVcState_def ithen_def)
  qed
next
  case (Some v)
  then have "st' = st" "r = commInternalError" using assms by (simp_all add: updateVcState_def)
  moreover have "st = st\<lparr>vcs := vcs st, qpToVc := qpToVc st\<rparr>" by simp
  ultimately show ?thesis by blast
qed

definition boot_ok :: "boot \<Rightarrow> bool" where "boot_ok b \<longleftrightarrow> v_ctl (b_fresh b) = ctrl_new"

lemma fresh_upd: "fresh_ok cs \<Longrightarrow> v_ctl c = ctrl_new \<Longrightarrow> fresh_ok (cs(p \<mapsto> c))"
  by (simp add: fresh_ok_def)

lemma fresh_del: "fresh_ok cs \<Longrightarrow> fresh_ok (cs(p := None))"
  by (simp add: fresh_ok_def)

lemma createVc_ok:
  assumes "createVc f p st = (c, st')" "fresh_ok (pendVcs st)" "v_ctl f = ctrl_new"
  shows "v_ctl c = ctrl_new \<and> fresh_ok (pendVcs st') \<and> vcs st' = vcs st \<and> frame st st'"
  using assms by (auto simp: createVc_def frame_def fresh_ok_def split: option.splits if_splits)

text \<open>A connection attempt leaves the connections alone or adds a fresh one.\<close>

lemma connectVc_ok:
  assumes e: "connectVc b p st = Some (r, st')" and f: "fresh_ok (pendVcs st)" "boot_ok b"
  shows "frame st st' \<and> fresh_ok (pendVcs st') \<and> (vcs st' = vcs st \<or> vcs st p = None \<and> (\<exists>c. v_ctl c = ctrl_new \<and> vcs st' = (vcs st)(p \<mapsto> c))) \<and>
    (r = commSuccess \<longrightarrow> vcs st' p \<noteq> None)"
proof (cases "checkValidPeer p st = commSuccess")
  case False
  then show ?thesis using e f(1) by (auto simp: connectVc_def frame_def)
next
  case True
  obtain c st1 where c: "createVc (b_fresh b) p st = (c, st1)" by (cases "createVc (b_fresh b) p st")
  note C = createVc_ok [OF c f(1) f(2) [unfolded boot_ok_def]]
  let ?s2 = "st1\<lparr>pendVcs := (pendVcs st1)(p \<mapsto> createQps (b_nums b) c)\<rparr>"
  have n: "v_ctl (createQps (b_nums b) c) = ctrl_new" using C by (cases "b_nums b") (simp add: createQps_def)
  have F: "fresh_ok (pendVcs ?s2)" "frame st ?s2" "vcs ?s2 = vcs st" using C n by (auto simp: frame_def intro: fresh_upd)
  show ?thesis
  proof (cases "b_io b = ExchangeFails")
    case True
    then show ?thesis using e \<open>checkValidPeer p st = commSuccess\<close> c F by (auto simp: connectVc_def Let_def)
  next
    case False
    obtain c2 st3 where c2: "createVc (b_fresh b) p ?s2 = (c2, st3)" by (cases "createVc (b_fresh b) p ?s2")
    note C2 = createVc_ok [OF c2 F(1) f(2) [unfolded boot_ok_def]]
    obtain st4 where st4: "updateVcState c2 p st3 = Some (commSuccess, st4)" "st' = st4\<lparr>pendVcs := (pendVcs st4)(p := None)\<rparr>"
      using e True False c c2 by (auto simp: connectVc_def connectVcDirect_def Let_def split: if_splits option.splits)
    note U = updateVcState_cases [OF st4(1)]
    then obtain v m where vm: "st4 = st3\<lparr>vcs := v, qpToVc := m\<rparr>" by blast
    have "frame st st'" using F(2) C2 by (simp add: st4(2) vm frame_def)
    moreover have "fresh_ok (pendVcs st')" using C2 by (simp add: st4(2) vm fresh_del)
    moreover have "vcs st p = None" "vcs st' = (vcs st)(p \<mapsto> c2)" using U C2 F(3) by (simp_all add: st4(2))
    ultimately show ?thesis using C2 by auto
  qed
qed

lemma connect_inv:
  assumes e: "connectVc b p st = Some (r, st')" and v: "ib_inv hcb H st" and b: "boot_ok b"
  shows "ib_inv hcb H st' \<and> frame st st' \<and> (\<forall>q. vcs st q \<noteq> None \<longrightarrow> vcs st' q \<noteq> None) \<and> (r = commSuccess \<longrightarrow> vcs st' p \<noteq> None)"
proof -
  note V = ib_invD [OF v]
  note C = connectVc_ok [OF e V(4) b]
  then have F: "frame st st'" by blast
  note D = frameD [OF F]
  have k: "\<forall>q. vcs st q \<noteq> None \<longrightarrow> vcs st' q \<noteq> None" using C by auto
  have P: "peers_ok hcb H (waiting st') (vcs st')"
  proof (cases "vcs st' = vcs st")
    case True
    then show ?thesis using V(2) D by simp
  next
    case False
    then obtain c where c: "vcs st p = None" "v_ctl c = ctrl_new" "vcs st' = (vcs st)(p \<mapsto> c)" using C by blast
    have "peer_ok hcb (fst H q) (fst (snd H) q) (snd (snd H) q) (waiting st q) (vcs st q)" for q
      using V(2) unfolding peers_ok_def by blast
    moreover from this [of p] have "peer_ok hcb (fst H p) (fst (snd H) p) (snd (snd H) p) (waiting st p) (Some c)"
      unfolding c(1) by (rule born) (rule c(2))
    ultimately show ?thesis unfolding peers_ok_def c(3) using D by simp
  qed
  have "ib_inv hcb H st'"
    by (rule ib_invI [OF _ P]) (use V(1,3,5) C D k F in \<open>auto simp: frame_def\<close>)
  then show ?thesis using F k C by blast
qed

section \<open>Calls for control messages\<close>

definition log_op :: "int \<Rightarrow> pend_op \<Rightarrow> history \<Rightarrow> history" where
  "log_op p op H = ((fst H)(p := fst H p @ sends_of [op]), fst (snd H), (snd (snd H))(p := snd (snd H) p @ recvs_of [op]))"

text \<open>The request has a reference that nothing else uses.\<close>

definition free_req :: "int \<Rightarrow> pend_op \<Rightarrow> ib \<Rightarrow> bool" where
  "free_req p op st =
     (case vcs st p of
        None \<Rightarrow> op_req op \<notin> op_req ` set (waiting st p)
      | Some c \<Rightarrow> int (count_list (map op_req (waiting st p)) (op_req op)) < slack (v_ctl c) (op_req op))"

lemma peer_ok_add:
  assumes p: "peer_ok hcb S A R xs v" and o: "op_ok op"
    and f: "case v of None \<Rightarrow> op_req op \<notin> op_req ` set xs
      | Some c \<Rightarrow> int (count_list (map op_req xs) (op_req op)) < slack (v_ctl c) (op_req op)"
  shows "peer_ok hcb (S @ sends_of [op]) A (R @ recvs_of [op]) (xs @ [op]) v"
  using p f o ctl_ok_add by (cases v) (auto simp: peer_ok_def)

lemma waiting_update:
  "waiting (st\<lparr>pendOps := AList.update p xs (pendOps st)\<rparr>) = (waiting st)(p := xs)"
  by (simp add: waiting_def fun_eq_iff update_conv)

lemma addToPending_cases:
  assumes "addToPendingOpsIfRequired op p has st = (pending, st')"
  shows "if pending then st' = st\<lparr>pendOps := AList.update p (waiting st p @ [op]) (pendOps st)\<rparr>
    else st' = st \<and> has \<and> waiting st p = []"
  using assms by (auto simp: addToPendingOpsIfRequired_def waiting_def split: option.splits if_splits)

lemma peers_ok_at: "peers_ok hcb H W cs \<Longrightarrow> peer_ok hcb (fst H p) (fst (snd H) p) (snd (snd H) p) (W p) (cs p)"
  by (simp add: peers_ok_def)

lemma peers_ok_log:
  assumes "peers_ok hcb H W cs" "peer_ok hcb (fst H p @ sends_of [op]) (fst (snd H) p) (snd (snd H) p @ recvs_of [op]) xs v"
  shows "peers_ok hcb (log_op p op H) (W(p := xs)) (cs(p := v))"
  using assms by (simp add: peers_ok_def log_op_def)

text \<open>An operation goes straight to its connection: nothing waits for it.\<close>

lemma on_ctl_issue:
  assumes v: "ib_inv hcb H st" and w: "waiting st p = []" and o: "op_ok op" and f: "free_req p op st"
    and e: "on_ctl (issue_op takes op) p st = Some (r, st')"
  shows "r = commSuccess \<and> ib_inv hcb (log_op p op H) st'"
proof -
  note V = ib_invD [OF v]
  obtain c where c: "vcs st p = Some c" using e by (cases "vcs st p") (simp_all add: on_ctl_def)
  obtain k where k: "issue_op takes op (v_ctl c) = Some (r, k)" "st' = st\<lparr>vcs := (vcs st)(p \<mapsto> c\<lparr>v_ctl := k\<rparr>)\<rparr>"
    using e c by (auto simp: on_ctl_def)
  have "peer_ok hcb (fst H p @ sends_of [op]) (fst (snd H) p) (snd (snd H) p @ recvs_of [op]) ([] @ [op]) (Some c)"
    by (rule peer_ok_add [OF _ o]) (use peers_ok_at [OF V(2), of p] w c f in \<open>simp_all add: free_req_def\<close>)
  then have "ctl_ok hcb (fst H p @ sends_of [op]) (fst (snd H) p) (snd (snd H) p @ recvs_of [op]) [op] (v_ctl c)"
    by (simp add: peer_ok_def)
  note I = ctl_ok_issue [OF this k(1)]
  have "peers_ok hcb (log_op p op H) ((waiting st)(p := [])) ((vcs st)(p := Some (c\<lparr>v_ctl := k\<rparr>)))"
    by (rule peers_ok_log [OF V(2)]) (use I in \<open>simp add: peer_ok_def\<close>)
  moreover have "(waiting st)(p := []) = waiting st'" using w k(2) by (auto simp: waiting_def fun_eq_iff)
  ultimately have P: "peers_ok hcb (log_op p op H) (waiting st') (vcs st')" using k(2) by simp
  have "ib_inv hcb (log_op p op H) st'"
    by (rule ib_invI [OF _ P]) (use V(1,3,4,5) k(2) in \<open>auto simp: isPeerConnected_def waiting_def\<close>)
  then show ?thesis using I by blast
qed

lemma add_pending_inv:
  assumes v: "ib_inv hcb H st" and o: "op_ok op" and f: "free_req p op st" and n: "\<not> isPeerConnected p st"
  shows "ib_inv hcb (log_op p op H) (st\<lparr>pendOps := AList.update p (waiting st p @ [op]) (pendOps st)\<rparr>)" (is "ib_inv _ _ ?s")
proof -
  note V = ib_invD [OF v]
  have "peer_ok hcb (fst H p @ sends_of [op]) (fst (snd H) p) (snd (snd H) p @ recvs_of [op]) (waiting st p @ [op]) (vcs st p)"
    by (rule peer_ok_add [OF peers_ok_at [OF V(2)] o]) (use f in \<open>simp add: free_req_def\<close>)
  then have "peers_ok hcb (log_op p op H) ((waiting st)(p := waiting st p @ [op])) ((vcs st)(p := vcs st p))"
    by (rule peers_ok_log [OF V(2)])
  then have P: "peers_ok hcb (log_op p op H) (waiting ?s) (vcs ?s)" by (simp add: waiting_update)
  have d: "distinct (map fst (pendOps ?s))" using distinct_update [OF V(1)] by simp
  show ?thesis
  proof (rule ib_invI [OF d P])
    fix q assume "isPeerConnected q ?s"
    then have q: "isPeerConnected q st" by (simp add: isPeerConnected_def)
    then have "q \<noteq> p" using n by blast
    then show "vcs ?s q \<noteq> None \<and> waiting ?s q = []" using V(3) [OF q] unfolding waiting_update by simp
  qed (use V(4,5) in simp_all)
qed

lemma issue_rest:
  assumes v: "ib_inv hcb H st" and o: "op_ok op" and f: "free_req p op st" and h: "has \<longleftrightarrow> vcs st p \<noteq> None \<and> seen"
    and s: "isPeerConnected p st \<longrightarrow> seen"
    and e: "(if isPeerConnected p st then (if \<not> has then None else on_ctl (issue_op takes op) p st)
      else case addToPendingOpsIfRequired op p has st of
        (pending, st2) \<Rightarrow> if pending then Some (commSuccess, st2) else on_ctl (issue_op takes op) p st2) = Some (r, st')"
  shows "r = commSuccess \<and> ib_inv hcb (log_op p op H) st'"
proof (cases "isPeerConnected p st")
  case True
  then have "waiting st p = []" using ib_invD(3) [OF v] by blast
  then show ?thesis using on_ctl_issue [OF v _ o f] e True h s ib_invD(3) [OF v True] by auto
next
  case False
  obtain pending st2 where a: "addToPendingOpsIfRequired op p has st = (pending, st2)" by (cases "addToPendingOpsIfRequired op p has st")
  note A = addToPending_cases [OF a]
  show ?thesis
  proof (cases pending)
    case True
    then show ?thesis using add_pending_inv [OF v o f False] A e a False by auto
  next
    case n: False
    then show ?thesis using on_ctl_issue [OF v _ o f] A e a False by auto
  qed
qed

lemma free_req_connect:
  assumes "free_req p op st" "vcs st p = None" "frame st st'" "vcs st' p = None \<or> (\<exists>c. v_ctl c = ctrl_new \<and> vcs st' p = Some c)"
  shows "free_req p op st'"
proof (cases "vcs st' p")
  case None
  then show ?thesis using assms(1,2) frameD [OF assms(3)] by (simp add: free_req_def)
next
  case (Some c)
  then have c: "v_ctl c = ctrl_new" using assms(4) by auto
  have n: "op_req op \<notin> set (map op_req (waiting st' p))" using assms(1,2) frameD [OF assms(3)] by (simp add: free_req_def)
  then have "count_list (map op_req (waiting st' p)) (op_req op) = 0" unfolding count_list_0_iff .
  then show ?thesis using Some c by (simp add: free_req_def slack_def held_c_def ctrl_new_def req_new_def)
qed

text \<open>A call for a control message, whatever the listening thread does meanwhile.\<close>

lemma ctrlMsg_inv:
  assumes v: "ib_inv hcb H st" and o: "op_ok op" and f: "free_req p op st" and b: "boot_ok bt"
    and s: "seen \<or> p < ib_rank st \<and> \<not> isPeerConnected p st" and e: "ctrlMsgImpl takes commSuccess False seen bt op p st = Some (r, st')"
  shows "ib_inv hcb (if r = commSuccess then log_op p op H else H) st'"
proof (cases "checkValidPeer p st = commSuccess")
  case False
  then show ?thesis using e v by (simp add: ctrlMsgImpl_def)
next
  case ok: True
  note V = ib_invD [OF v]
  have g: "getVcImpl False q s = Some (vcs s q)" if "ib_inv hcb H s" for q s
    using ib_invD(3) [OF that, of q] ib_invD(5) [OF that] by (auto simp: getVcImpl_def)
  let ?v = "if seen then vcs st p else None"
  show ?thesis
  proof (cases "ib_rank st < p \<and> ?v = None")
    case True
    then have n: "vcs st p = None" "seen" using s by (auto split: if_splits)
    obtain r1 st1 where c: "bootstrapConnect bt p st = Some (r1, st1)"
      using e ok g [OF v] True by (cases "bootstrapConnect bt p st") (auto simp: ctrlMsgImpl_def ithen_def Let_def)
    have C: "ib_inv hcb H st1 \<and> frame st st1 \<and> (r1 = commSuccess \<longrightarrow> vcs st1 p \<noteq> None)"
      "vcs st1 p = None \<or> (\<exists>c. v_ctl c = ctrl_new \<and> vcs st1 p = Some c)"
    proof -
      show "ib_inv hcb H st1 \<and> frame st st1 \<and> (r1 = commSuccess \<longrightarrow> vcs st1 p \<noteq> None)"
        using c v connect_inv [OF _ v b] by (auto simp: bootstrapConnect_def frame_refl split: if_splits)
      show "vcs st1 p = None \<or> (\<exists>c. v_ctl c = ctrl_new \<and> vcs st1 p = Some c)"
        using c n connectVc_ok [OF _ V(4) b] by (fastforce simp: bootstrapConnect_def split: if_splits)
    qed
    show ?thesis
    proof (cases "r1 = commSuccess")
      case False
      then show ?thesis using e ok g [OF v] True c C by (auto simp: ctrlMsgImpl_def ithen_def Let_def)
    next
      case r1: True
      have f1: "free_req p op st1" using free_req_connect [OF f n(1)] C by blast
      have "r = commSuccess \<and> ib_inv hcb (log_op p op H) st'"
        by (rule issue_rest [OF _ o f1, where has = "vcs st1 p \<noteq> None" and seen = True])
          (use C e ok g [OF v] g [of st1] True c r1 in \<open>auto simp: ctrlMsgImpl_def ithen_def Let_def\<close>)
      then show ?thesis by simp
    qed
  next
    case False
    have "r = commSuccess \<and> ib_inv hcb (log_op p op H) st'"
      by (rule issue_rest [OF v o f, where has = "?v \<noteq> None" and seen = seen])
        (use s e ok g [OF v] False in \<open>auto simp: ctrlMsgImpl_def ithen_def Let_def\<close>)
    then show ?thesis by simp
  qed
qed

section \<open>Pending operations are issued\<close>

lemma peers_ok_put:
  "peers_ok hcb H W cs \<Longrightarrow> peer_ok hcb (fst H p) (fst (snd H) p) (snd (snd H) p) xs v \<Longrightarrow> peers_ok hcb H (W(p := xs)) (cs(p := v))"
  by (simp add: peers_ok_def)

lemma post_ops_ok:
  "peers_ok hcb H (W(p := xs)) (vcs st) \<Longrightarrow> post_ops takes p xs st = Some (r, st') \<Longrightarrow>
   r = commSuccess \<and> (\<exists>cs. st' = st\<lparr>vcs := cs\<rparr> \<and> peers_ok hcb H (W(p := [])) cs \<and> (\<forall>q. cs q = None \<longleftrightarrow> vcs st q = None))"
proof (induction xs arbitrary: st)
  case Nil
  then show ?case by (intro conjI exI [of _ "vcs st"]) simp_all
next
  case (Cons op xs)
  obtain r1 st1 where o: "on_ctl (issue_op takes op) p st = Some (r1, st1)"
    using Cons.prems(2) by (cases "on_ctl (issue_op takes op) p st") (auto simp: ithen_def)
  obtain c where c: "vcs st p = Some c" using o by (cases "vcs st p") (simp_all add: on_ctl_def)
  obtain k where k: "issue_op takes op (v_ctl c) = Some (r1, k)" "st1 = st\<lparr>vcs := (vcs st)(p \<mapsto> c\<lparr>v_ctl := k\<rparr>)\<rparr>"
    using o c by (auto simp: on_ctl_def)
  have "ctl_ok hcb (fst H p) (fst (snd H) p) (snd (snd H) p) (op # xs) (v_ctl c)"
    using peers_ok_at [OF Cons.prems(1), of p] c by (simp add: peer_ok_def)
  note I = ctl_ok_issue [OF this k(1)]
  have "peers_ok hcb H (W(p := op # xs, p := xs)) ((vcs st)(p := Some (c\<lparr>v_ctl := k\<rparr>)))"
    by (rule peers_ok_put [OF Cons.prems(1)]) (use I in \<open>simp add: peer_ok_def\<close>)
  moreover have "vcs st1 = (vcs st)(p := Some (c\<lparr>v_ctl := k\<rparr>))" by (simp add: k(2))
  ultimately have "peers_ok hcb H (W(p := xs)) (vcs st1)" by (simp only: fun_upd_upd)
  moreover have "post_ops takes p xs st1 = Some (r, st')" using Cons.prems(2) o I by (simp add: ithen_def)
  ultimately have "r = commSuccess \<and> (\<exists>cs. st' = st1\<lparr>vcs := cs\<rparr> \<and> peers_ok hcb H (W(p := [])) cs \<and> (\<forall>q. cs q = None \<longleftrightarrow> vcs st1 q = None))"
    by (rule Cons.IH)
  then obtain cs where cs: "r = commSuccess" "st' = st1\<lparr>vcs := cs\<rparr>" "peers_ok hcb H (W(p := [])) cs" "\<forall>q. cs q = None \<longleftrightarrow> vcs st1 q = None"
    by blast
  have "st' = st\<lparr>vcs := cs\<rparr>" by (simp add: cs(2) k(2))
  moreover have "\<forall>q. cs q = None \<longleftrightarrow> vcs st q = None" using c cs(4) by (simp add: k(2))
  ultimately show ?case using cs(1,3) by blast
qed

definition over :: "(int \<times> pend_op list) list \<Rightarrow> (int \<Rightarrow> pend_op list) \<Rightarrow> int \<Rightarrow> pend_op list" where
  "over rd W p = (case map_of rd p of None \<Rightarrow> W p | Some xs \<Rightarrow> xs)"

lemma over_simps: "over [] W = W" "over ((p, xs) # rd) W = (over rd W)(p := xs)"
  by (auto simp: over_def fun_eq_iff)

lemma over_off: "p \<notin> set (map fst rd) \<Longrightarrow> over rd W p = W p"
  by (simp add: over_def map_of_eq_None_iff [THEN iffD2])

lemma post_ready_ok:
  "peers_ok hcb H (over rd W) (vcs st) \<Longrightarrow> distinct (map fst rd) \<Longrightarrow> \<forall>p \<in> set (map fst rd). W p = [] \<Longrightarrow>
   post_ready takes rd st = Some (r, st') \<Longrightarrow>
   r = commSuccess \<and> (\<exists>cs. st' = st\<lparr>vcs := cs\<rparr> \<and> peers_ok hcb H W cs \<and> (\<forall>q. cs q = None \<longleftrightarrow> vcs st q = None))"
proof (induction rd arbitrary: st)
  case Nil
  then show ?case by (intro conjI exI [of _ "vcs st"]) (simp_all add: over_simps)
next
  case (Cons x rd)
  obtain p xs where x: "x = (p, xs)" by (cases x)
  obtain r1 st1 where o: "post_ops takes p xs st = Some (r1, st1)"
    using Cons.prems(4) x by (cases "post_ops takes p xs st") (auto simp: ithen_def)
  have "peers_ok hcb H ((over rd W)(p := xs)) (vcs st)" using Cons.prems(1) unfolding x over_simps .
  from post_ops_ok [OF this o] obtain cs where cs: "r1 = commSuccess" "st1 = st\<lparr>vcs := cs\<rparr>"
    "peers_ok hcb H ((over rd W)(p := [])) cs" "\<forall>q. cs q = None \<longleftrightarrow> vcs st q = None" by blast
  have "(over rd W)(p := []) = over rd W" using Cons.prems(2,3) x over_off [of p rd W] by (simp add: fun_upd_idem)
  then have "peers_ok hcb H (over rd W) (vcs st1)" using cs(2,3) by simp
  then have "r = commSuccess \<and> (\<exists>cs. st' = st1\<lparr>vcs := cs\<rparr> \<and> peers_ok hcb H W cs \<and> (\<forall>q. cs q = None \<longleftrightarrow> vcs st1 q = None))"
    by (rule Cons.IH) (use Cons.prems(2-4) x o cs(1) in \<open>auto simp: ithen_def\<close>)
  then show ?case using cs(2,4) by auto
qed

lemma map_of_filter_key: "map_of (filter (\<lambda>(k, v). P k) xs) k = (if P k then map_of xs k else None)"
  by (induction xs) auto

lemma map_fst_filter: "set (map fst (filter P xs)) \<subseteq> set (map fst xs)" "distinct (map fst xs) \<Longrightarrow> distinct (map fst (filter P xs))"
  by (induction xs) auto

lemma progressPendingOps_inv:
  assumes v: "ib_inv hcb H st" and e: "progressPendingOps takes st = Some (r, st')"
  shows "r = commSuccess \<and> ib_inv hcb H st' \<and> (\<forall>p. vcs st p \<noteq> None \<longrightarrow> waiting st' p = [])"
proof -
  note V = ib_invD [OF v]
  let ?rd = "filter (\<lambda>(p, xs). vcs st p \<noteq> None) (pendOps st)"
  let ?s = "st\<lparr>pendOps := filter (\<lambda>(p, xs). vcs st p = None) (pendOps st)\<rparr>"
  have w: "waiting ?s p = (if vcs st p = None then waiting st p else [])" for p
    using map_of_filter_key [of "\<lambda>p. vcs st p = None" "pendOps st" p] by (simp add: waiting_def)
  have q: "post_ready takes ?rd ?s = Some (r, st') \<or> pendOps st = [] \<and> r = commSuccess \<and> st' = st"
    using e by (auto simp: progressPendingOps_def take_ready_def split: if_splits)
  show ?thesis
  proof (cases "pendOps st = [] \<and> r = commSuccess \<and> st' = st")
    case True
    then show ?thesis using v by (simp add: waiting_def)
  next
    case False
    then have p: "post_ready takes ?rd ?s = Some (r, st')" using q by blast
    have o: "over ?rd (waiting ?s) = waiting st"
    proof
      fix p
      show "over ?rd (waiting ?s) p = waiting st p"
        unfolding over_def w using map_of_filter_key [of "\<lambda>p. vcs st p \<noteq> None" "pendOps st" p]
        by (cases "vcs st p") (simp_all add: waiting_def split: option.split)
    qed
    have "peers_ok hcb H (over ?rd (waiting ?s)) (vcs ?s)" unfolding o using V(2) by simp
    moreover have "distinct (map fst ?rd)" by (rule map_fst_filter(2) [OF V(1)])
    moreover have "\<forall>p \<in> set (map fst ?rd). waiting ?s p = []" unfolding w by auto
    ultimately have R: "r = commSuccess \<and> (\<exists>cs. st' = ?s\<lparr>vcs := cs\<rparr> \<and> peers_ok hcb H (waiting ?s) cs \<and> (\<forall>q. cs q = None \<longleftrightarrow> vcs ?s q = None))"
      using p by (rule post_ready_ok)
    then obtain cs where cs: "st' = ?s\<lparr>vcs := cs\<rparr>" "peers_ok hcb H (waiting ?s) cs" "\<forall>q. cs q = None \<longleftrightarrow> vcs ?s q = None" by blast
    have ws: "waiting st' = waiting ?s" by (simp add: cs(1) waiting_def fun_eq_iff)
    have "ib_inv hcb H st'"
    proof (rule ib_invI)
      show "distinct (map fst (pendOps st'))" using map_fst_filter(2) [OF V(1)] by (simp add: cs(1))
      show "peers_ok hcb H (waiting st') (vcs st')" using cs(2) ws by (simp add: cs(1))
      show "vcs st' p \<noteq> None \<and> waiting st' p = []" if "isPeerConnected p st'" for p
        using that V(3) [of p] cs(3) w [of p] ws by (simp add: cs(1) isPeerConnected_def)
      show "fresh_ok (pendVcs st')" "mapsPtr st'" using V(4,5) by (simp_all add: cs(1))
    qed
    moreover have "\<forall>p. vcs st p \<noteq> None \<longrightarrow> waiting st' p = []" using w ws by simp
    ultimately show ?thesis using R by blast
  qed
qed

section \<open>Connecting ahead\<close>

lemma connect_all_inv:
  "connect_all ps st = Some (r, st') \<Longrightarrow> ib_inv hcb H st \<Longrightarrow> \<forall>x \<in> set ps. boot_ok (snd x) \<Longrightarrow>
   ib_inv hcb H st' \<and> frame st st' \<and> (r = commSuccess \<longrightarrow> (\<forall>p \<in> set (map fst ps). 0 \<le> p))"
proof (induction ps arbitrary: st)
  case Nil
  then show ?case by (simp add: frame_refl)
next
  case (Cons x ps)
  obtain p b where x: "x = (p, b)" by (cases x)
  show ?case
  proof (cases "checkValidPeer p st = commSuccess")
    case False
    then show ?thesis using Cons.prems x by (simp add: frame_refl)
  next
    case True
    then have p: "0 \<le> p" by (simp add: checkValidPeer_def split: if_splits)
    obtain v where v: "getVcImpl False p st = Some v" using Cons.prems(1) x True by (cases "getVcImpl False p st") simp_all
    obtain r1 st1 where c: "(if ib_rank st < p \<and> v = None then bootstrapConnect b p st else Some (commSuccess, st)) = Some (r1, st1)"
      using Cons.prems(1) x True v by (cases "if ib_rank st < p \<and> v = None then bootstrapConnect b p st else Some (commSuccess, st)") (auto simp: ithen_def)
    have C: "ib_inv hcb H st1 \<and> frame st st1"
      using c Cons.prems(2,3) x connect_inv [OF _ Cons.prems(2), of b p r1 st1] by (auto simp: bootstrapConnect_def frame_refl split: if_splits)
    show ?thesis
    proof (cases "r1 = commSuccess")
      case False
      then show ?thesis using Cons.prems(1) x True v c C by (auto simp: ithen_def)
    next
      case r1: True
      have "connect_all ps st1 = Some (r, st')" using Cons.prems(1) x True v c r1 by (auto simp: ithen_def)
      from Cons.IH [OF this] show ?thesis using C Cons.prems(3) x p frame_trans by auto
    qed
  qed
qed

lemma mark_all_inv:
  "mark_all ps st = Some (r, st') \<Longrightarrow> ib_inv hcb H st \<Longrightarrow> \<forall>p \<in> set ps. 0 \<le> p \<and> waiting st p = [] \<Longrightarrow> ib_inv hcb H st'"
proof (induction ps arbitrary: st)
  case Nil
  then show ?case by simp
next
  case (Cons p ps)
  show ?case
  proof (cases "connected st ! nat p")
    case True
    then show ?thesis using Cons by (auto split: if_splits)
  next
    case False
    let ?s = "st\<lparr>connected := (connected st)[nat p := True]\<rparr>"
    have c: "vcs st p \<noteq> None" "mark_all ps ?s = Some (r, st')" using Cons.prems(1) False by (simp_all split: if_splits)
    note V = ib_invD [OF Cons.prems(2)]
    have w: "waiting ?s = waiting st" by (simp add: waiting_def fun_eq_iff)
    have "ib_inv hcb H ?s"
    proof (rule ib_invI)
      fix q assume q: "isPeerConnected q ?s"
      show "vcs ?s q \<noteq> None \<and> waiting ?s q = []"
      proof (cases "q = p")
        case True
        then show ?thesis using c(1) Cons.prems(3) w by simp
      next
        case False
        then have "nat q \<noteq> nat p" using q Cons.prems(3) by (auto simp: isPeerConnected_def)
        then have "isPeerConnected q st" using q by (simp add: isPeerConnected_def)
        then show ?thesis using V(3) w by simp
      qed
    qed (use V w in simp_all)
    then show ?thesis using Cons.IH [OF c(2)] Cons.prems(3) w by simp
  qed
qed

lemma preConnect_inv:
  assumes e: "preConnect ps st = Some (r, st')" and v: "ib_inv hcb H st" and b: "\<forall>x \<in> set ps. boot_ok (snd x)"
    and w: "\<forall>p \<in> set (map fst ps). waiting st p = []"
  shows "ib_inv hcb H st'"
proof (cases "connected st = []")
  case True
  then show ?thesis using e v by (simp add: preConnect_def)
next
  case False
  obtain r1 st1 where c: "connect_all ps st = Some (r1, st1)" using e False by (cases "connect_all ps st") (auto simp: preConnect_def ithen_def)
  note C = connect_all_inv [OF c v b]
  show ?thesis
  proof (cases "r1 = commSuccess")
    case True
    then have "mark_all (map fst ps) st1 = Some (r, st')" using e False c by (simp add: preConnect_def ithen_def)
    from mark_all_inv [OF this] show ?thesis using C True w frameD [of st st1] by simp
  next
    case n: False
    then show ?thesis using e False c C by (simp add: preConnect_def ithen_def)
  qed
qed

section \<open>Runs\<close>

definition log_arrival :: "int \<Rightarrow> packet \<Rightarrow> history \<Rightarrow> history" where
  "log_arrival p k H = (fst H, (fst (snd H))(p := fst (snd H) p @ [k]), snd (snd H))"

definition set_request :: "nat \<Rightarrow> int \<Rightarrow> ctrl \<Rightarrow> cres" where
  "set_request i n k = Some (commSuccess, k\<lparr>c_reqs := (c_reqs k)(i := req_repost n (c_reqs k i))\<rparr>)"

text \<open>
  \<open>ib_run hcb H st\<close>: the calls, completions, arrivals and connections of a rank, with the epoch lock held for each call. A peer with a
  smaller rank connects at any time; ahead of a call the connection can have appeared since it was looked for. Peers are
  connected ahead only while no operation waits for them.
\<close>

inductive ib_run :: "(int \<Rightarrow> bool) \<Rightarrow> history \<Rightarrow> ib \<Rightarrow> bool" for hcb where
  new: "ib_run hcb (\<lambda>p. [], \<lambda>p. [], \<lambda>p. []) (ib_new r n fl)"
| send: "ib_run hcb H st \<Longrightarrow> length b \<le> MAX_PAYLOAD_SIZE \<Longrightarrow> free_req p (ISEND_CTRL (Some t) b q) st \<Longrightarrow> boot_ok bt \<Longrightarrow>
    seen \<or> p < ib_rank st \<and> \<not> isPeerConnected p st \<Longrightarrow> isendCtrlMsgImpl takes commSuccess False seen bt t b p q st = Some (r, st') \<Longrightarrow>
    ib_run hcb (if r = commSuccess then log_op p (ISEND_CTRL (Some t) b q) H else H) st'"
| recv: "ib_run hcb H st \<Longrightarrow> free_req p (IRECV_CTRL dst n q) st \<Longrightarrow> boot_ok bt \<Longrightarrow>
    seen \<or> p < ib_rank st \<and> \<not> isPeerConnected p st \<Longrightarrow> irecvCtrlMsgImpl takes commSuccess False seen bt dst n p q st = Some (r, st') \<Longrightarrow>
    ib_run hcb (if r = commSuccess then log_op p (IRECV_CTRL dst n q) H else H) st'"
| listen: "ib_run hcb H st \<Longrightarrow> boot_ok bt \<Longrightarrow> bootstrapAccept magic bt p st = Some st' \<Longrightarrow> ib_run hcb H st'"
| ahead: "ib_run hcb H st \<Longrightarrow> \<forall>x \<in> set ps. boot_ok (snd x) \<Longrightarrow> \<forall>p \<in> set (map fst ps). waiting st p = [] \<Longrightarrow>
    preConnect ps st = Some (r, st') \<Longrightarrow> ib_run hcb H st'"
| pending: "ib_run hcb H st \<Longrightarrow> progressPendingOps takes st = Some (r, st') \<Longrightarrow> ib_run hcb H st'"
| sent: "ib_run hcb H st \<Longrightarrow> vcs st p = Some c \<Longrightarrow> s_posted (v_ctl c) \<noteq> [] \<Longrightarrow> on_ctl (send_complete takes) p st = Some (r, st') \<Longrightarrow>
    ib_run hcb H st'"
| arrive: "ib_run hcb H st \<Longrightarrow> on_ctl (recv_complete hcb run True k) p st = Some (commSuccess, st') \<Longrightarrow> ib_run hcb (log_arrival p k H) st'"
| request: "ib_run hcb H st \<Longrightarrow> vcs st p = Some c \<Longrightarrow>
    int (count_list (held_c (v_ctl c)) i) + int (count_list (map op_req (waiting st p)) i) \<le> n \<Longrightarrow>
    on_ctl (set_request i n) p st = Some (r, st') \<Longrightarrow> ib_run hcb H st'"
| data: "ib_run hcb H st \<Longrightarrow> on_dat f p st = Some (r, st') \<Longrightarrow> ib_run hcb H st'"

text \<open>A step on one connection.\<close>

lemma conn_step_inv:
  assumes v: "ib_inv hcb H st" and c: "vcs st p = Some c" and s: "st' = st\<lparr>vcs := (vcs st)(p \<mapsto> c')\<rparr>"
    and k: "ctl_ok hcb (fst H p) (fst (snd H) p) (snd (snd H) p) (waiting st p) (v_ctl c) \<Longrightarrow>
      ctl_ok hcb (fst H' p) (fst (snd H') p) (snd (snd H') p) (waiting st p) (v_ctl c')"
    and h: "\<And>q. q \<noteq> p \<Longrightarrow> fst H' q = fst H q \<and> fst (snd H') q = fst (snd H) q \<and> snd (snd H') q = snd (snd H) q"
  shows "ib_inv hcb H' st'"
proof -
  note V = ib_invD [OF v]
  have w: "waiting st' = waiting st" by (simp add: s waiting_def fun_eq_iff)
  have "ctl_ok hcb (fst H' p) (fst (snd H') p) (snd (snd H') p) (waiting st p) (v_ctl c')"
    by (rule k) (use peers_ok_at [OF V(2), of p] c in \<open>simp add: peer_ok_def\<close>)
  then have p: "peer_ok hcb (fst H' q) (fst (snd H') q) (snd (snd H') q) (waiting st q) (((vcs st)(p \<mapsto> c')) q)" for q
    using peers_ok_at [OF V(2), of q] h [of q] by (cases "q = p") (simp_all add: peer_ok_def)
  show ?thesis
  proof (rule ib_invI)
    show "peers_ok hcb H' (waiting st') (vcs st')" using p w by (simp add: peers_ok_def s)
    show "vcs st' q \<noteq> None \<and> waiting st' q = []" if "isPeerConnected q st'" for q
      using that V(3) [of q] w by (simp add: s isPeerConnected_def)
  qed (use V(1,4,5) in \<open>simp_all add: s\<close>)
qed

lemma ctl_ok_request:
  assumes c: "ctl_ok hcb S A R xs k" and n: "int (count_list (held_c k) i) + int (count_list (map op_req xs) i) \<le> n"
  shows "ctl_ok hcb S A R xs (k\<lparr>c_reqs := (c_reqs k)(i := req_repost n (c_reqs k i))\<rparr>)" (is "ctl_ok _ _ _ _ _ ?k")
proof -
  obtain ms rs where C: "ctrl_run hcb ms A rs k" "S = ms @ sends_of xs" "R = rs @ recvs_of xs"
    "\<And>i. int (count_list (map op_req xs) i) \<le> slack k i" "\<forall>op \<in> set xs. op_ok op" by (rule ctl_okD [OF c]) blast
  have "ctrl_run hcb ms A rs ?k" by (rule ctrl_run.request [OF C(1)]) (use n in simp)
  then show ?thesis
  proof (rule ctl_okI [OF _ C(2,3)])
    show "int (count_list (map op_req xs) j) \<le> slack ?k j" for j
      using C(4) [of j] n by (simp add: slack_def held_c_def req_repost_def)
  qed (use C(5) in simp)
qed

lemma ib_new_inv: "ib_inv hcb (\<lambda>p. [], \<lambda>p. [], \<lambda>p. []) (ib_new r n fl)"
proof (rule ib_invI)
  show "vcs (ib_new r n fl) p \<noteq> None \<and> waiting (ib_new r n fl) p = []" if "isPeerConnected p (ib_new r n fl)" for p
    using that nth_replicate [of "nat p" "nat (the n)" False] by (cases n) (auto simp: isPeerConnected_def ib_new_def)
qed (simp_all add: ib_new_def waiting_def peers_ok_def peer_ok_def fresh_ok_def)

lemma ib_run_inv: "ib_run hcb H st \<Longrightarrow> ib_inv hcb H st"
proof (induction rule: ib_run.induct)
  case (new r n fl)
  show ?case by (rule ib_new_inv)
next
  case (send H st b p t q bt seen r st')
  show ?case
    by (rule ctrlMsg_inv [OF send.IH _ send.hyps(3,4,5)]) (use send.hyps(2,6) in \<open>simp_all add: isendCtrlMsgImpl_def op_ok_def\<close>)
next
  case (recv H st p dst n q bt seen r st')
  show ?case by (rule ctrlMsg_inv [OF recv.IH _ recv.hyps(2-4)]) (use recv.hyps(5) in \<open>simp_all add: irecvCtrlMsgImpl_def op_ok_def\<close>)
next
  case (listen H st bt magic p st')
  then show ?case using connect_inv by (fastforce simp: bootstrapAccept_def split: if_splits option.splits prod.splits)
next
  case (ahead H st ps r st')
  show ?case by (rule preConnect_inv [OF ahead.hyps(4) ahead.IH ahead.hyps(2,3)])
next
  case (pending H st r st')
  then show ?case using progressPendingOps_inv by blast
next
  case (sent H st p c r st')
  obtain k where k: "send_complete takes (v_ctl c) = Some (r, k)" "st' = st\<lparr>vcs := (vcs st)(p \<mapsto> c\<lparr>v_ctl := k\<rparr>)\<rparr>"
    using sent.hyps(2,4) by (auto simp: on_ctl_def)
  show ?case by (rule conn_step_inv [OF sent.IH sent.hyps(2) k(2)]) (use ctl_ok_sent [OF _ k(1) sent.hyps(3)] in simp_all)
next
  case (arrive H st run m p st')
  obtain c where c: "vcs st p = Some c" using arrive.hyps(2) by (cases "vcs st p") (simp_all add: on_ctl_def)
  obtain k where k: "recv_complete hcb run True m (v_ctl c) = Some (commSuccess, k)" "st' = st\<lparr>vcs := (vcs st)(p \<mapsto> c\<lparr>v_ctl := k\<rparr>)\<rparr>"
    using arrive.hyps(2) c by (auto simp: on_ctl_def)
  show ?case
    by (rule conn_step_inv [OF arrive.IH c k(2)]) (use ctl_ok_arrive [OF _ k(1)] in \<open>simp_all add: log_arrival_def\<close>)
next
  case (request H st p c i n r st')
  then have k: "st' = st\<lparr>vcs := (vcs st)(p \<mapsto> c\<lparr>v_ctl := (v_ctl c)\<lparr>c_reqs := (c_reqs (v_ctl c))(i := req_repost n (c_reqs (v_ctl c) i))\<rparr>\<rparr>)\<rparr>"
    by (simp add: on_ctl_def set_request_def)
  show ?case by (rule conn_step_inv [OF request.IH request.hyps(2) k]) (use ctl_ok_request [OF _ request.hyps(3)] in simp_all)
next
  case (data H st f p r st')
  obtain c where c: "vcs st p = Some c" using data.hyps(2) by (cases "vcs st p") (simp_all add: on_dat_def)
  obtain d where d: "st' = st\<lparr>vcs := (vcs st)(p \<mapsto> c\<lparr>v_dat := d\<rparr>)\<rparr>" using data.hyps(2) c by (auto simp: on_dat_def)
  show ?case by (rule conn_step_inv [OF data.IH c d]) simp_all
qed

definition msg_packet :: "int \<times> bytes \<Rightarrow> packet" where "msg_packet = (\<lambda>(t, b). \<lparr>k_type = t, k_payload = b\<rparr>)"

text \<open>C13: The control messages for a peer go out in the order of the calls, whether these came before the connection was there or
  after it, and in whatever moment the peer connected: what was sent, what waits in the connection and what waits for it are
  together the messages of all calls. Arriving messages are matched with the receives in the same way.\<close>

theorem ctrl_call_order:
  assumes "ib_run hcb (S, A, R) st" "vcs st p = Some c" "distinct (map rw_dst (R p))"
  defines "us \<equiv> filter (\<lambda>m. \<not> hcb (k_type m)) (A p)" and "n \<equiv> length (R p) - length (recvs_of (waiting st p))"
  shows "s_sent (v_ctl c) @ map wr_packet (s_enqueued (v_ctl c)) @ map msg_packet (sends_of (waiting st p)) = map msg_packet (S p) \<and>
    map (\<lambda>w. buf (v_ctl c) (rw_dst w)) (take (length us) (take n (R p))) = map k_payload (take n us)"
proof -
  have "ctl_ok hcb (S p) (A p) (R p) (waiting st p) (v_ctl c)"
    using peers_ok_at [OF ib_invD(2) [OF ib_run_inv [OF assms(1)]], of p] assms(2) by (simp add: peer_ok_def)
  then obtain ms rs where C: "ctrl_run hcb ms (A p) rs (v_ctl c)" "S p = ms @ sends_of (waiting st p)" "R p = rs @ recvs_of (waiting st p)"
    by (rule ctl_okD) blast
  note I = ctrl_run_inv [OF C(1)]
  have rs: "take n (R p) = rs" "n = length rs" unfolding n_def C(3) by simp_all
  have "s_sent (v_ctl c) @ map wr_packet (s_enqueued (v_ctl c)) = map msg_packet ms"
    using I unfolding send_inv_def msg_packet_def by blast
  moreover have "map (\<lambda>w. buf (v_ctl c) (rw_dst w)) (take (length us) rs) = map k_payload (take (length rs) us)"
  proof (rule nth_equalityI)
    fix i assume "i < length (map (\<lambda>w. buf (v_ctl c) (rw_dst w)) (take (length us) rs))"
    then have i: "i < length us" "i < length rs" by simp_all
    have "distinct (map rw_dst rs)" using assms(3) by (simp add: C(3))
    then have "buf (v_ctl c) (rw_dst (rs ! i)) = k_payload (us ! i)" using I i unfolding recv_inv_def Let_def us_def by blast
    then show "map (\<lambda>w. buf (v_ctl c) (rw_dst w)) (take (length us) rs) ! i = map k_payload (take (length rs) us) ! i" using i by simp
  qed simp
  ultimately show ?thesis unfolding rs(1) using rs(2) by (simp add: C(2))
qed

section \<open>Order that is lost\<close>

text \<open>Rank 1 of 2 and its peer 0, with one data queue pair.\<close>

definition ex_conn :: conn where
  "ex_conn = \<lparr>v_ctrlQp = 0, v_notifyQp = 0, v_atomicQp = 0, v_dataQps = [], v_ctl = ctrl_new,
     v_dat = vc_new 1 \<lparr>numQps = 1, qpScalingTh = 0, vcMode = spray, qpMsgs = 1\<rparr> 0 64\<rparr>"

definition ex_boot :: boot where "ex_boot = \<lparr>b_io = ConnOk, b_nums = (10, 11, 12, [13]), b_fresh = ex_conn\<rparr>"

definition ex_rank :: ib where "ex_rank = ib_new 1 (Some 2) None"

definition ex_send :: "bytes \<Rightarrow> nat \<Rightarrow> ib \<Rightarrow> ibres" where
  "ex_send b = isendCtrlMsgImpl takes commSuccess False True ex_boot 5 b 0"

definition ex_wire :: "ibres \<Rightarrow> bytes list option" where
  "ex_wire m = (case m of
     Some (commSuccess, st) \<Rightarrow> map_option (\<lambda>c. map k_payload (s_sent (v_ctl c))) (vcs st 0)
   | _ \<Rightarrow> None)"

definition ex_pending :: ib where "ex_pending = snd (the (ex_send [1] 0 ex_rank))"

definition ex_accepted :: ib where "ex_accepted = the (bootstrapAccept kBootstrapMagic ex_boot 0 ex_pending)"

text \<open>The order is lost when a peer is connected ahead while an operation waits for it: the next message overtakes the first.\<close>

lemma preconnect_reorders:
  "ex_wire (ithen (preConnect [(0, ex_boot)] ex_accepted) (\<lambda>st. ithen (ex_send [2] 1 st) (progressPendingOps takes))) = Some [[2], [1]]"
  by code_simp

text \<open>
  Without the epoch lock another thread can call between the two halves of \<^verbatim>\<open>progressPendingOps\<close>, with the same effect.
\<close>

lemma unlocked_progress_reorders:
  "ex_wire (case take_ready ex_accepted of None \<Rightarrow> None
     | Some (rd, st) \<Rightarrow> ithen (ex_send [2] 1 st) (post_ready takes rd)) = Some [[2], [1]]"
  by code_simp

lemma locked_progress_keeps_order:
  "ex_wire (ithen (progressPendingOps takes ex_accepted) (ex_send [2] 1)) = Some [[1], [2]]"
  by code_simp

text \<open>An exchange that failed leaves its connection behind; the next attempt creates the queue pairs a second time.\<close>

lemma retry_doubles_queue_pairs:
  "(case bootstrapConnect (ex_boot\<lparr>b_io := ExchangeFails\<rparr>) 0 ex_rank of None \<Rightarrow> None
    | Some (r, st) \<Rightarrow> (case bootstrapConnect (ex_boot\<lparr>b_nums := (20, 21, 22, [23])\<rparr>) 0 st of None \<Rightarrow> None
      | Some (r1, st1) \<Rightarrow> map_option (\<lambda>c. (r, r1, v_dataQps c)) (vcs st1 0))) = Some (commRemoteError, commSuccess, [13, 23])"
  by code_simp

lemma ex_run_pending:
  "ib_run hcb (log_op 0 (ISEND_CTRL (Some 5) [1] 0) (\<lambda>p. [], \<lambda>p. [], \<lambda>p. [])) ex_pending"
proof -
  have e: "ex_send [1] 0 ex_rank = Some (commSuccess, ex_pending)"
    by (simp add: ex_pending_def ex_send_def isendCtrlMsgImpl_def ctrlMsgImpl_def ex_rank_def ib_new_def checkValidPeer_def getVcImpl_def
        isPeerConnected_def ithen_def addToPendingOpsIfRequired_def)
  have "free_req 0 (ISEND_CTRL (Some 5) [1] 0) ex_rank" by (simp add: free_req_def ex_rank_def ib_new_def waiting_def)
  moreover have "boot_ok ex_boot" by (simp add: boot_ok_def ex_boot_def ex_conn_def)
  ultimately show ?thesis
    using ib_run.send [OF ib_run.new [of hcb 1 "Some 2" None], of "[1]" 0 5 0 ex_boot True commSuccess ex_pending] e
    by (simp add: ex_send_def ex_rank_def MAX_PAYLOAD_SIZE_def)
qed

lemma ex_run_accepted:
  "ib_run hcb (log_op 0 (ISEND_CTRL (Some 5) [1] 0) (\<lambda>p. [], \<lambda>p. [], \<lambda>p. [])) ex_accepted"
proof (rule ib_run.listen [OF ex_run_pending])
  show "boot_ok ex_boot" by (simp add: boot_ok_def ex_boot_def ex_conn_def)
  have "(case bootstrapAccept kBootstrapMagic ex_boot 0 ex_pending of None \<Rightarrow> False | Some s \<Rightarrow> True)" by code_simp
  then show "bootstrapAccept kBootstrapMagic ex_boot 0 ex_pending = Some ex_accepted"
    by (cases "bootstrapAccept kBootstrapMagic ex_boot 0 ex_pending") (simp_all add: ex_accepted_def)
qed

theorem ctrl_call_order_witness:
  "map msg_packet (sends_of (waiting ex_accepted 0)) = [\<lparr>k_type = 5, k_payload = [1]\<rparr>]"
proof -
  have "(case vcs ex_accepted 0 of None \<Rightarrow> False | Some c \<Rightarrow> s_sent (v_ctl c) = [] \<and> s_enqueued (v_ctl c) = [])" by code_simp
  then obtain c where c: "vcs ex_accepted 0 = Some c" "s_sent (v_ctl c) = []" "s_enqueued (v_ctl c) = []" by (cases "vcs ex_accepted 0") auto
  have "ib_run (\<lambda>t. False) (\<lambda>p. if p = 0 then [(5, [1])] else [], \<lambda>p. [], \<lambda>p. []) ex_accepted"
    using ex_run_accepted [of "\<lambda>t. False"] by (simp add: log_op_def fun_upd_def)
  from ctrl_call_order [OF this c(1)] show ?thesis using c(2,3) by (simp add: msg_packet_def)
qed

end
