(* ===== verification/Ib_Progress.thy ===== *)
theory Ib_Progress imports Ib_Order Ib_Vc_Run begin

text \<open>
  Progress of the InfiniBand backend: each completion that a device reports reaches the queue pair of the connection it belongs to,
  and is processed without error, whatever calls were made on any of the connections.
\<close>

section \<open>The configuration of a connection is fixed\<close>

definition same_cfg :: "vc \<Rightarrow> vc \<Rightarrow> bool" where
  "same_cfg st st' \<longleftrightarrow> maxNumQps st' = maxNumQps st \<and> devs st' = devs st"

lemma same_cfg_refl [simp]: "same_cfg st st" by (simp add: same_cfg_def)

lemma same_cfg_trans: "same_cfg a b \<Longrightarrow> same_cfg b c \<Longrightarrow> same_cfg a c" by (simp add: same_cfg_def)

lemma same_cfg_upd [simp]: "same_cfg st (upd_io k f st') \<longleftrightarrow> same_cfg st st'"
  by (cases k) (simp_all add: same_cfg_def upd_io_def)

lemma post_cfg: "post accept q t w st = (r, st') \<Longrightarrow> same_cfg st st'"
  by (auto simp: post_def same_cfg_def split: if_splits)

lemma queue_op_cfg:
  assumes "queue_op accept k i st = Some (r, st')"
  shows "same_cfg st st'"
proof (cases "pend (io_of k st)")
  case Nil
  then show ?thesis using assms by (simp add: queue_op_def)
next
  case (Cons p ps)
  obtain d m where dm: "getIbDevFromQpIdx i st = Some d" "maxWqeSize p st = Some m"
    using assms Cons by (cases "getIbDevFromQpIdx i st"; cases "maxWqeSize p st") (simp_all add: queue_op_def)
  let ?n = "min (o_len p - o_offset p) m"
  obtain w seq where w: "op_wr k p d ?n st = (w, seq)" by (cases "op_wr k p d ?n st")
  let ?st1 = "upd_io k (\<lambda>io. io\<lparr>pend := p\<lparr>o_outstanding := o_outstanding p + 1\<rparr> # ps\<rparr>)
     (st\<lparr>nextWrId := nextWrId st + 1, sndNxt := seq, wqes := (wqes st)[i := wqes st ! i @ [\<lparr>q_wrId = w_id w, q_kind = k, q_op = o_id p\<rparr>]]\<rparr>)"
  obtain r2 st2 where p2: "post accept (DataQp i) (Piece k (o_id p)) w ?st1 = (r2, st2)"
    by (cases "post accept (DataQp i) (Piece k (o_id p)) w ?st1")
  have "same_cfg st ?st1" by (simp add: same_cfg_def)
  then have "same_cfg st st2" using post_cfg [OF p2] same_cfg_trans by blast
  then show ?thesis using assms Cons dm w p2 by (auto simp: queue_op_def Let_def split: if_splits)
qed

lemma post_round_cfg: "post_round accept k qps m n sent st = Some (r, b, st') \<Longrightarrow> same_cfg st st'"
proof (induction n arbitrary: sent st)
  case 0
  then show ?case by simp
next
  case (Suc n)
  define M where "M = (if length (wqes st ! rr st) + (if rr st = 0 then length (fast (io_of k st)) else 0) < limit m
    then map_option (\<lambda>(r, st1). (r, True, st1)) (queue_op accept k (rr st) st) else Some (commSuccess, sent, st))"
  have P: "(if length (wqes st) \<le> rr st then None else case M of
       None \<Rightarrow> None
     | Some (r, sent1, st1) \<Rightarrow>
         if r \<noteq> commSuccess then Some (r, sent1, st1)
         else if pend (io_of k (st1\<lparr>rr := nat (int (rr st1 + 1) mod qps)\<rparr>)) = [] then Some (commSuccess, sent1, st1\<lparr>rr := nat (int (rr st1 + 1) mod qps)\<rparr>)
         else post_round accept k qps m n sent1 (st1\<lparr>rr := nat (int (rr st1 + 1) mod qps)\<rparr>)) = Some (r, b, st')"
    using Suc.prems unfolding post_round.simps(2) Let_def M_def .
  obtain r1 s1 st1 where m: "M = Some (r1, s1, st1)" using P by (cases M) (auto split: if_splits)
  have c: "same_cfg st st1" using m queue_op_cfg unfolding M_def by (auto split: if_splits)
  define st2 where "st2 = st1\<lparr>rr := nat (int (rr st1 + 1) mod qps)\<rparr>"
  have c2: "same_cfg st st2" using c by (simp add: st2_def same_cfg_def)
  have e: "(if r1 \<noteq> commSuccess then Some (r1, s1, st1) else if pend (io_of k st2) = [] then Some (commSuccess, s1, st2)
      else post_round accept k qps m n s1 st2) = Some (r, b, st')"
    using P unfolding m st2_def by (simp split: if_splits)
  show ?case
  proof (cases "r1 \<noteq> commSuccess \<or> pend (io_of k st2) = []")
    case True
    then show ?thesis using e c c2 by (auto split: if_splits)
  next
    case False
    then show ?thesis using e Suc.IH [of s1 st2] c2 same_cfg_trans by auto
  qed
qed

lemma tryToPostOp_cfg: "tryToPostOp accept k st = Some x \<Longrightarrow> same_cfg st (snd x)"
proof (rule tryToPostOp.raw_induct [of "\<lambda>accept k st x. same_cfg st (snd x)"])
  fix f :: "(queue \<Rightarrow> work_req \<Rightarrow> bool) \<Rightarrow> op_kind \<Rightarrow> vc \<Rightarrow> res" and accept k st y
  assume h: "\<And>accept k st y. f accept k st = Some y \<Longrightarrow> same_cfg st (snd y)"
    and e: "(case pend (io_of k st) of [] \<Rightarrow> Some (commSuccess, st)
      | p # ps \<Rightarrow>
          (case post_round accept k (min (getOpQps (o_config p) st) (maxNumQps st)) (min (getOpMaxQpMsgs (o_config p) st) (maxQpMsgs st))
                  (nat (min (getOpQps (o_config p) st) (maxNumQps st))) False st of
             None \<Rightarrow> None
           | Some (r, sent, st1) \<Rightarrow> if r \<noteq> commSuccess then Some (r, st1) else if sent then f accept k st1 else Some (commSuccess, st1))) = Some y"
  then show "same_cfg st (snd y)"
  proof (cases "pend (io_of k st)")
    case (Cons p ps)
    let ?q = "min (getOpQps (o_config p) st) (maxNumQps st)" let ?m = "min (getOpMaxQpMsgs (o_config p) st) (maxQpMsgs st)"
    obtain r sent st1 where r: "post_round accept k ?q ?m (nat ?q) False st = Some (r, sent, st1)"
      using e Cons by (cases "post_round accept k ?q ?m (nat ?q) False st") auto
    then show ?thesis using e h [of accept k st1 y] Cons post_round_cfg [OF r] same_cfg_trans by (auto split: if_splits)
  qed (use e in auto)
qed (assumption)

lemma complete_req_cfg: "same_cfg st (snd (complete_req r st))"
  by (simp add: complete_req_def same_cfg_def split: option.split prod.split)

lemma tryPost_cfg: "same_cfg st (snd (tryPostImmNotifyMsg accept st))"
  by (auto simp: tryPostImmNotifyMsg_def post_def same_cfg_def split: list.split)

lemma notify_cfg: "same_cfg st (snd (notify accept r i st))"
  using tryPost_cfg [of "st\<lparr>pendN := pendN st @ [\<lparr>n_wrId = nextWrId st, n_req = r, n_putId = i\<rparr>], nextWrId := nextWrId st + 1\<rparr>" accept]
  by (simp add: notify_def same_cfg_def)

lemma burn_loop_cfg: "same_cfg st (snd (burn_loop accept k ps st))"
proof (induction ps arbitrary: st)
  case Nil
  then show ?case by simp
next
  case (Cons p ps)
  let ?m = "if k = Put \<and> o_mode p = spray \<and> o_notify p then notify accept (o_req p) (Some (o_id p)) st else complete_req (o_req p) st"
  obtain r st1 where m: "?m = (r, st1)" by (cases ?m)
  have "same_cfg st (snd ?m)" using notify_cfg complete_req_cfg by simp
  then have c: "same_cfg st st1" unfolding m by simp
  then have c2: "same_cfg st (upd_io k (\<lambda>io. io\<lparr>outst := ps\<rparr>) st1)" by simp
  have i: "same_cfg st (snd (burn_loop accept k ps (upd_io k (\<lambda>io. io\<lparr>outst := ps\<rparr>) st1)))"
    by (rule same_cfg_trans [OF c2 Cons.IH])
  show ?case
  proof (cases "o_outstanding p > 0 \<or> o_offset p < o_len p")
    case True
    then show ?thesis by simp
  next
    case False
    then show ?thesis unfolding burn_loop.simps(2) m using c i by (simp only: if_False prod.case) (simp split: if_splits)
  qed
qed

lemma burnDown_cfg: "same_cfg st (snd (burnDown accept k st))"
  using burn_loop_cfg by (simp add: burnDown_def)

lemma vthen_cfg:
  assumes "vthen (Some m) f = Some (r, st')" "same_cfg st (snd m)" "\<And>s r s'. f s = Some (r, s') \<Longrightarrow> same_cfg s s'"
  shows "same_cfg st st'"
proof -
  obtain r1 s1 where m: "m = (r1, s1)" by (cases m)
  show ?thesis using assms(1,2) assms(3) [of s1 r st'] same_cfg_trans by (auto simp: vthen_def m split: if_splits)
qed

lemma data_complete_cfg:
  assumes e: "data_complete accept k i w st = Some (r, st')"
  shows "same_cfg st st'"
proof (cases "i = 0 \<and> fast (io_of k st) \<noteq> []")
  case True
  obtain r1 st1 where c: "complete_req (snd (hd (fast (io_of k st)))) st = (r1, st1)" by (cases "complete_req (snd (hd (fast (io_of k st)))) st")
  have s1: "same_cfg st st1" using complete_req_cfg [of st "snd (hd (fast (io_of k st)))"] c by simp
  show ?thesis
  proof (cases "r1 = commSuccess")
    case False
    then show ?thesis using e True c s1 by (auto simp: data_complete_def)
  next
    case r1: True
    let ?s2 = "upd_io k (\<lambda>io. io\<lparr>fast := tl (fast io)\<rparr>) st1"
    have s2: "same_cfg st ?s2" using s1 by simp
    have v: "vthen (Some (if fast (io_of k ?s2) = [] then burnDown accept k ?s2 else (commSuccess, ?s2))) (queue_op accept k i) = Some (r, st')"
      using e True c r1 by (simp add: data_complete_def Let_def)
    have b: "same_cfg st (snd (if fast (io_of k ?s2) = [] then burnDown accept k ?s2 else (commSuccess, ?s2)))"
      using s2 same_cfg_trans [OF s2 burnDown_cfg] by (simp split: if_splits)
    show ?thesis by (rule vthen_cfg [OF v b queue_op_cfg])
  qed
next
  case False
  obtain q qs where q: "wqes st ! i = q # qs" using e False by (cases "wqes st ! i") (auto simp: data_complete_def split: if_splits)
  let ?s1 = "upd_io k (\<lambda>io. io\<lparr>outst := dec_op (q_op q) (outst io), pend := dec_op (q_op q) (pend io)\<rparr>) (st\<lparr>wqes := (wqes st)[i := qs]\<rparr>)"
  have v: "vthen (Some (burnDown accept k ?s1)) (queue_op accept k i) = Some (r, st')"
    using e False q by (auto simp: data_complete_def Let_def split: if_splits option.splits)
  have s1: "same_cfg st ?s1" by (simp add: same_cfg_def)
  show ?thesis by (rule vthen_cfg [OF v same_cfg_trans [OF s1 burnDown_cfg] queue_op_cfg])
qed

lemma notify_complete_cfg:
  assumes e: "notify_complete accept w st = Some (r, st')"
  shows "same_cfg st st'"
proof -
  obtain n ns where n: "outN st = n # ns" using e by (cases "outN st") (simp_all add: notify_complete_def)
  have v: "vthen (Some (complete_req (n_req n) (st\<lparr>outN := ns\<rparr>))) (\<lambda>st1. Some (tryPostImmNotifyMsg accept st1)) = Some (r, st')"
    using e n by (simp add: notify_complete_def split: if_splits)
  have o: "same_cfg st (st\<lparr>outN := ns\<rparr>)" by (simp add: same_cfg_def)
  have t: "same_cfg s s'" if "Some (tryPostImmNotifyMsg accept s) = Some (r, s')" for s r s'
    using tryPost_cfg [of s accept] that by simp
  show ?thesis by (rule vthen_cfg [OF v same_cfg_trans [OF o complete_req_cfg] t])
qed

lemma writeImmRcvd_cfg: "writeImmRcvd q imm st = Some st' \<Longrightarrow> same_cfg st st'"
  by (auto simp: writeImmRcvd_def Let_def same_cfg_def split: queue.splits prod.splits if_splits)

lemma processDataCqe_cfg:
  assumes "processDataCqe accept refill wc q imm w st = Some (r, st')"
  shows "same_cfg st st'"
proof -
  have a: "same_cfg st (snd (atomicComplete st))"
    using complete_req_cfg [of st] by (auto simp: atomicComplete_def same_cfg_def split: list.splits)
  have wc: "same_cfg st st'" if "writeComplete accept q w st = Some (r, st')"
    using that notify_complete_cfg data_complete_cfg by (auto simp: writeComplete_def split: queue.splits)
  have rc: "same_cfg st st'" if "readComplete accept q w st = Some (r, st')"
    using that data_complete_cfg by (auto simp: readComplete_def split: queue.splits)
  show ?thesis
  proof (cases wc)
    case WC_RDMA_WRITE
    then show ?thesis using assms wc a by (auto simp: processDataCqe_def split: if_splits)
  next
    case WC_RDMA_READ
    then show ?thesis using assms rc by (simp add: processDataCqe_def)
  next
    case WC_RECV_RDMA_WITH_IMM
    then show ?thesis using assms writeImmRcvd_cfg by (auto simp: processDataCqe_def)
  next
    case WC_FETCH_ADD
    then show ?thesis using assms a by (auto simp: processDataCqe_def split: if_splits)
  next
    case WC_other
    then show ?thesis using assms by (simp add: processDataCqe_def)
  qed
qed

lemma same_cfg_upd2: "same_cfg (upd_io k f st) st' \<longleftrightarrow> same_cfg st st'"
  by (cases k) (simp_all add: same_cfg_def upd_io_def)

lemma processFastWriteWqe_cfg: "processFastWriteWqe i p d st = Some (r, w, st') \<Longrightarrow> same_cfg st st'"
  by (auto simp: processFastWriteWqe_def same_cfg_def Let_def split: option.splits if_splits)

lemma take_id_cfg: "take_id k st = (i, st') \<Longrightarrow> same_cfg st st'"
  by (auto simp: take_id_def)

lemma iput_cfg:
  assumes e: "iputImpl accept p fst_path st = Some (r, st')"
  shows "same_cfg st st'"
proof (cases "p_keys p")
  case None
  then show ?thesis using e by (simp add: iputImpl_def)
next
  case (Some ks)
  obtain lk rk where k: "op_keys ks (p_rkeys p) st = Some (lk, rk)" using e Some by (auto simp: iputImpl_def split: option.splits)
  obtain i st0 where t: "take_id Put st = (i, st0)" by (cases "take_id Put st")
  note c = take_id_cfg [OF t]
  show ?thesis
  proof (cases fst_path)
    case False
    show ?thesis using e Some k t False same_cfg_trans [OF c] by (auto simp: iputImpl_def same_cfg_upd2 dest!: tryToPostOp_cfg)
  next
    case True
    show ?thesis
      using e Some k t True c same_cfg_trans [OF c same_cfg_trans [OF processFastWriteWqe_cfg post_cfg]] same_cfg_trans [OF c processFastWriteWqe_cfg]
      by (auto simp: iputImpl_def split: if_splits option.splits prod.splits)
  qed
qed

lemma iget_cfg:
  assumes e: "igetImpl accept sbuf dbuf n keys rkeys cfg req fst_path st = Some (r, st')"
  shows "same_cfg st st'"
proof (cases keys)
  case None
  then show ?thesis using e by (simp add: igetImpl_def)
next
  case (Some ks)
  obtain lk rk where k: "op_keys ks rkeys st = Some (lk, rk)" using e Some by (auto simp: igetImpl_def split: option.splits)
  obtain i st0 where t: "take_id Get st = (i, st0)" by (cases "take_id Get st")
  note c = take_id_cfg [OF t]
  have f: "same_cfg st (st0\<lparr>nextWrId := a, gets := b\<rparr>)" for a b using c by (simp add: same_cfg_def)
  show ?thesis
  proof (cases fst_path)
    case False
    show ?thesis using e Some k t False same_cfg_trans [OF c] by (auto simp: igetImpl_def Let_def same_cfg_upd2 dest!: tryToPostOp_cfg)
  next
    case True
    show ?thesis using e Some k t True c same_cfg_trans [OF f post_cfg]
      by (auto simp: igetImpl_def Let_def split: if_splits option.splits prod.splits)
  qed
qed

lemma vthen_some: "vthen m f = Some (r, st') \<Longrightarrow> (\<And>r1 s1. m = Some (r1, s1) \<Longrightarrow> same_cfg st s1) \<Longrightarrow>
    (\<And>s r s'. f s = Some (r, s') \<Longrightarrow> same_cfg s s') \<Longrightarrow> same_cfg st st'"
  by (cases m) (auto simp: vthen_def split: if_splits intro: same_cfg_trans)

lemma iput_each_cfg: "iput_each accept ps st = Some (r, st') \<Longrightarrow> same_cfg st st'"
proof (induction ps arbitrary: st r st')
  case (Cons p ps)
  then show ?case using vthen_some [of "iputImpl accept p False st" "iput_each accept ps" r st' st] iput_cfg by simp
qed simp

lemma fast_chain_cfg: "fast_chain ps d ws st = Some (r, ws', st') \<Longrightarrow> same_cfg st st'"
proof (induction ps arbitrary: ws st)
  case (Cons p ps)
  obtain i st0 where t: "take_id Put st = (i, st0)" by (cases "take_id Put st")
  obtain r1 w st1 where w: "processFastWriteWqe i p d st0 = Some (r1, w, st1)"
    using Cons.prems t by (auto split: option.splits)
  have c: "same_cfg st st1" by (rule same_cfg_trans [OF take_id_cfg [OF t] processFastWriteWqe_cfg [OF w]])
  show ?case using Cons.prems t w c same_cfg_trans [OF c Cons.IH] by (cases w) auto
qed simp

lemma post_chain_cfg: "post_chain accept q ws st = (r, st') \<Longrightarrow> same_cfg st st'"
proof (induction ws arbitrary: st)
  case (Cons x ws)
  obtain t w where x: "x = (t, w)" by (cases x)
  obtain r1 st1 where p: "post accept q t w st = (r1, st1)" by (cases "post accept q t w st")
  show ?case using Cons.prems x p post_cfg [OF p] same_cfg_trans [OF post_cfg [OF p] Cons.IH] by (auto split: if_splits)
qed simp

lemma iputBatch_cfg:
  assumes "iputBatchImpl accept ps st = Some (r, st')"
  shows "same_cfg st st'"
  using assms iput_each_cfg fast_chain_cfg same_cfg_trans [OF fast_chain_cfg post_chain_cfg]
  by (auto simp: iputBatchImpl_def split: if_splits option.splits prod.splits)

lemma fetch_add_cfg: "ifetchAndAddImpl accept sbuf dbuf v keys rkeys req st = Some (r, st') \<Longrightarrow> same_cfg st st'"
  by (auto simp: ifetchAndAddImpl_def post_def same_cfg_def split: option.splits if_splits)

lemma atomic_set_cfg: "iatomicSetImpl accept stack dbuf v rkeys req st = Some (r, st') \<Longrightarrow> same_cfg st st'"
  by (auto simp: iatomicSetImpl_def post_def same_cfg_def split: if_splits)

lemma notify_call_cfg: "notify accept req i st = (r, st') \<Longrightarrow> same_cfg st st'"
  using notify_cfg [of st accept req i] by simp

lemma checkNotify_cfg: "checkNotify st = Some (b, st') \<Longrightarrow> same_cfg st st'"
  by (auto simp: checkNotify_def same_cfg_def split: if_splits)

section \<open>Queue pairs are registered\<close>

definition queue_id :: "queue \<Rightarrow> conn \<Rightarrow> qp_id option" where
  "queue_id q c =
     (case q of
        NotifyQp \<Rightarrow> Some (v_notifyQp c, 0)
      | AtomicQp \<Rightarrow> Some (v_atomicQp c, 0)
      | DataQp i \<Rightarrow> if i < nat (maxNumQps (v_dat c)) then map_option (Pair (v_dataQps c ! i)) (getIbDevFromQpIdx i (v_dat c)) else None)"

definition conn_ids :: "conn \<Rightarrow> qp_id list option" where
  "conn_ids c = map_option (\<lambda>is. (v_ctrlQp c, 0) # (v_notifyQp c, 0) # (v_atomicQp c, 0) # is) (data_ids c)"

definition registered :: "conn \<Rightarrow> int \<Rightarrow> (qp_id \<rightharpoonup> int) \<Rightarrow> bool" where
  "registered c p m \<longleftrightarrow> nat (maxNumQps (v_dat c)) \<le> length (v_dataQps c) \<and>
     (case conn_ids c of None \<Rightarrow> False | Some is \<Rightarrow> distinct is \<and> (\<forall>i \<in> set is. m i = Some p))"

lemma registeredD:
  assumes "registered c p m"
  obtains ds where "data_ids c = Some ds" "nat (maxNumQps (v_dat c)) \<le> length (v_dataQps c)"
    "distinct ((v_ctrlQp c, 0) # (v_notifyQp c, 0) # (v_atomicQp c, 0) # ds)"
    "\<forall>i \<in> set ((v_ctrlQp c, 0) # (v_notifyQp c, 0) # (v_atomicQp c, 0) # ds). m i = Some p"
proof (cases "data_ids c")
  case None
  then show ?thesis using assms by (simp add: registered_def conn_ids_def)
next
  case (Some ds)
  show ?thesis by (rule that [OF Some]) (use assms Some in \<open>simp_all add: registered_def conn_ids_def\<close>)
qed

lemma data_ids_nth:
  assumes "data_ids c = Some ds"
  shows "length ds = length (v_dataQps c) \<and>
    (\<forall>i < length ds. \<exists>d. getIbDevFromQpIdx i (v_dat c) = Some d \<and> ds ! i = (v_dataQps c ! i, d))"
proof -
  have t: "length ds = length [0..<length (v_dataQps c)] \<and> (\<forall>i < length [0..<length (v_dataQps c)].
      map_option (Pair (v_dataQps c ! ([0..<length (v_dataQps c)] ! i))) (getIbDevFromQpIdx ([0..<length (v_dataQps c)] ! i) (v_dat c)) = Some (ds ! i))"
    by (rule those_nth) (use assms in \<open>simp add: data_ids_def\<close>)
  then show ?thesis by auto
qed

text \<open>The number of a queue pair leads to the connection, and there to the queue pair.\<close>

lemma registered_role:
  assumes r: "registered c p m" and q: "queue_id q c = Some i"
  shows "m i = Some p \<and> qp_role i c = Some q"
proof -
  obtain ds where d: "data_ids c = Some ds" "nat (maxNumQps (v_dat c)) \<le> length (v_dataQps c)"
    "distinct ((v_ctrlQp c, 0) # (v_notifyQp c, 0) # (v_atomicQp c, 0) # ds)"
    "\<forall>i \<in> set ((v_ctrlQp c, 0) # (v_notifyQp c, 0) # (v_atomicQp c, 0) # ds). m i = Some p"
    by (rule registeredD [OF r]) blast
  note N = data_ids_nth [OF d(1)]
  show ?thesis
  proof (cases q)
    case NotifyQp
    then show ?thesis using q d(4) by (simp add: queue_id_def qp_role_def)
  next
    case AtomicQp
    then show ?thesis using q d(3,4) by (auto simp: queue_id_def qp_role_def)
  next
    case (DataQp j)
    then have j1: "j < nat (maxNumQps (v_dat c))" "j < length ds" using q d(2) N by (auto simp: queue_id_def split: if_splits)
    then obtain y where "getIbDevFromQpIdx j (v_dat c) = Some y" "ds ! j = (v_dataQps c ! j, y)" using N by blast
    then have j: "j < nat (maxNumQps (v_dat c))" "i = ds ! j" "j < length ds" using q j1 DataQp by (simp_all add: queue_id_def)
    have k: "(v_dataQps c ! k = fst i \<and> getIbDevFromQpIdx k (v_dat c) = Some (snd i)) \<longleftrightarrow> k = j" if "k < nat (maxNumQps (v_dat c))" for k
    proof -
      have l: "k < length ds" using that d(2) N by simp
      then obtain x where x: "getIbDevFromQpIdx k (v_dat c) = Some x" "ds ! k = (v_dataQps c ! k, x)" using N by blast
      have "ds ! k = i \<longleftrightarrow> k = j" using d(3) l j(2,3) by (simp add: nth_eq_iff_index_eq)
      then show ?thesis using x by (cases i) auto
    qed
    have "qpNumToIdx i c = Some j"
      unfolding qpNumToIdx_def find_Some_iff by (rule exI [of _ j]) (use j(1) k in auto)
    moreover have "i \<in> set ds" using j by simp
    moreover from this have "i \<noteq> (v_notifyQp c, 0)" "i \<noteq> (v_atomicQp c, 0)" using d(3) by auto
    ultimately show ?thesis using d(4) DataQp by (simp add: qp_role_def)
  qed
qed

lemma insert_qps_success:
  "insert_qps is p st = (commSuccess, st') \<Longrightarrow>
   distinct is \<and> (\<forall>i \<in> set is. qpToVc st i = None) \<and> st' = st\<lparr>qpToVc := (\<lambda>i. if i \<in> set is then Some p else qpToVc st i)\<rparr>"
proof (induction "is" arbitrary: st)
  case Nil
  then show ?case by simp
next
  case (Cons i js)
  have n: "qpToVc st i = None" using Cons.prems by (auto simp: checkAndInsertQpToVcMap_def split: if_splits)
  have "insert_qps js p (st\<lparr>qpToVc := (qpToVc st)(i \<mapsto> p)\<rparr>) = (commSuccess, st')"
    using Cons.prems n by (simp add: checkAndInsertQpToVcMap_def)
  note I = Cons.IH [OF this]
  have m: "(\<lambda>j. if j \<in> set js then Some p else qpToVc (st\<lparr>qpToVc := (qpToVc st)(i \<mapsto> p)\<rparr>) j) =
      (\<lambda>j. if j \<in> set (i # js) then Some p else qpToVc st j)" by auto
  have "i \<notin> set js" "\<forall>j \<in> set js. qpToVc st j = None" using I by (auto split: if_splits)
  moreover have "st' = st\<lparr>qpToVc := (\<lambda>j. if j \<in> set (i # js) then Some p else qpToVc st j)\<rparr>"
    using I unfolding m by simp
  ultimately show ?case using I n by simp
qed

lemma updateVcState_success:
  assumes "updateVcState c p st = Some (commSuccess, st')"
  obtains js where "conn_ids c = Some js" "distinct js" "\<forall>i \<in> set js. qpToVc st i = None" "vcs st p = None"
    "st' = st\<lparr>vcs := (vcs st)(p \<mapsto> c), qpToVc := (\<lambda>i. if i \<in> set js then Some p else qpToVc st i)\<rparr>"
proof -
  let ?s = "st\<lparr>vcs := (vcs st)(p \<mapsto> c)\<rparr>" and ?i = "[(v_ctrlQp c, 0), (v_notifyQp c, 0), (v_atomicQp c, 0)]"
  have n: "vcs st p = None" using assms by (auto simp: updateVcState_def split: if_splits)
  obtain r1 s1 where s1: "insert_qps ?i p ?s = (r1, s1)" by (cases "insert_qps ?i p ?s")
  have r1: "r1 = commSuccess" using assms n s1 by (auto simp: updateVcState_def ithen_def split: if_splits)
  obtain ds where ds: "data_ids c = Some ds" "insert_qps ds p s1 = (commSuccess, st')"
    using assms n s1 r1 by (cases "data_ids c") (auto simp: updateVcState_def ithen_def)
  note A = insert_qps_success [OF s1 [unfolded r1]] and B = insert_qps_success [OF ds(2)]
  have m: "(\<lambda>i. if i \<in> set ds then Some p else qpToVc s1 i) = (\<lambda>i. if i \<in> set (?i @ ds) then Some p else qpToVc st i)"
    using A by auto
  show ?thesis
  proof (rule that [of "?i @ ds"])
    show "conn_ids c = Some (?i @ ds)" using ds(1) by (simp add: conn_ids_def)
    have x: "j \<notin> set ds" if "j \<in> set ?i" for j using that A B by (auto split: if_splits)
    then show "distinct (?i @ ds)" using A B by auto
    show "\<forall>i \<in> set (?i @ ds). qpToVc st i = None" using A B by (auto split: if_splits)
    show "st' = st\<lparr>vcs := (vcs st)(p \<mapsto> c), qpToVc := (\<lambda>i. if i \<in> set (?i @ ds) then Some p else qpToVc st i)\<rparr>"
      unfolding m [symmetric] using A B by simp
  qed (rule n)
qed

section \<open>The invariant\<close>

definition new_dat :: "vc \<Rightarrow> bool" where
  "new_dat d \<longleftrightarrow> (\<exists>cv t dv cfg0 cfg pm px. setDefaultQPConfig cv t dv cfg0 = Some cfg \<and> 0 < dv \<and> 0 < numQps cfg \<and> 0 < qpMsgs cfg \<and>
     d = vc_new dv cfg pm px)"

text \<open>The queue pairs of a connection are not those of the local flush.\<close>

definition apart :: "conn \<Rightarrow> ib \<Rightarrow> bool" where
  "apart c st \<longleftrightarrow> (\<not> enableLocalFlush st \<or>
     (case flushVc st of
        None \<Rightarrow> False
      | Some (qpns, l) \<Rightarrow> (case conn_ids c of None \<Rightarrow> True | Some is \<Rightarrow> \<forall>i \<in> set is. snd i < length qpns \<and> fst i \<noteq> qpns ! snd i)))"

definition back_inv :: "op_kind set \<Rightarrow> (int \<Rightarrow> queue \<Rightarrow> nat) \<Rightarrow> ib \<Rightarrow> bool" where
  "back_inv K C st \<longleftrightarrow>
     (\<forall>p. case vcs st p of None \<Rightarrow> C p = (\<lambda>_. 0) | Some c \<Rightarrow> vc_run K (v_dat c) (C p) \<and> registered c p (qpToVc st) \<and> apart c st) \<and>
     (\<forall>p c. pendVcs st p = Some c \<longrightarrow> new_dat (v_dat c))"

lemma back_invD:
  assumes "back_inv K C st"
  shows "\<And>p c. vcs st p = Some c \<Longrightarrow> vc_run K (v_dat c) (C p) \<and> registered c p (qpToVc st) \<and> apart c st"
    "\<And>p. vcs st p = None \<Longrightarrow> C p = (\<lambda>_. 0)" "\<And>p c. pendVcs st p = Some c \<Longrightarrow> new_dat (v_dat c)"
proof -
  show "vc_run K (v_dat c) (C p) \<and> registered c p (qpToVc st) \<and> apart c st" if "vcs st p = Some c" for p c
    using assms that unfolding back_inv_def by (auto dest!: spec [of _ p])
  show "C p = (\<lambda>_. 0)" if "vcs st p = None" for p
    using assms that unfolding back_inv_def by (auto dest!: spec [of _ p])
qed (use assms in \<open>unfold back_inv_def, blast\<close>)

lemma back_invI:
  assumes "\<And>p c. vcs st p = Some c \<Longrightarrow> vc_run K (v_dat c) (C p) \<and> registered c p (qpToVc st) \<and> apart c st"
    "\<And>p. vcs st p = None \<Longrightarrow> C p = (\<lambda>_. 0)" "\<And>p c. pendVcs st p = Some c \<Longrightarrow> new_dat (v_dat c)"
  shows "back_inv K C st"
  using assms unfolding back_inv_def by (auto split: option.split)

text \<open>States with the same data paths.\<close>

definition dat_eq :: "ib \<Rightarrow> ib \<Rightarrow> bool" where
  "dat_eq st st' \<longleftrightarrow> (\<forall>p. case vcs st p of None \<Rightarrow> vcs st' p = None | Some c \<Rightarrow> \<exists>k. vcs st' p = Some (c\<lparr>v_ctl := k\<rparr>)) \<and>
     qpToVc st' = qpToVc st \<and> pendVcs st' = pendVcs st \<and> enableLocalFlush st' = enableLocalFlush st \<and>
     map_option fst (flushVc st') = map_option fst (flushVc st)"

lemma conn_self: "\<exists>k. c = c\<lparr>v_ctl := k\<rparr>" by (rule exI [of _ "v_ctl c"]) simp

lemma dat_eq_fields:
  "vcs st' = vcs st \<Longrightarrow> qpToVc st' = qpToVc st \<Longrightarrow> pendVcs st' = pendVcs st \<Longrightarrow> enableLocalFlush st' = enableLocalFlush st \<Longrightarrow>
   map_option fst (flushVc st') = map_option fst (flushVc st) \<Longrightarrow> dat_eq st st'"
  unfolding dat_eq_def using conn_self by (auto split: option.split)

lemma dat_eq_refl: "dat_eq st st" by (rule dat_eq_fields) simp_all

lemma dat_eq_trans:
  assumes "dat_eq a b" "dat_eq b c"
  shows "dat_eq a c"
proof -
  have "case vcs a p of None \<Rightarrow> vcs c p = None | Some x \<Rightarrow> \<exists>k. vcs c p = Some (x\<lparr>v_ctl := k\<rparr>)" for p
  proof (cases "vcs a p")
    case None
    then have "vcs b p = None" using assms(1) unfolding dat_eq_def by (auto dest!: spec [of _ p])
    then have "vcs c p = None" using assms(2) unfolding dat_eq_def by (auto dest!: spec [of _ p])
    then show ?thesis using None by simp
  next
    case (Some x)
    then obtain k where "vcs b p = Some (x\<lparr>v_ctl := k\<rparr>)" using assms(1) unfolding dat_eq_def by (auto dest!: spec [of _ p])
    then obtain j where "vcs c p = Some (x\<lparr>v_ctl := k\<rparr>\<lparr>v_ctl := j\<rparr>)" using assms(2) unfolding dat_eq_def by (auto dest!: spec [of _ p])
    then show ?thesis using Some by auto
  qed
  then show ?thesis using assms unfolding dat_eq_def by simp
qed

lemma conn_ids_cong: "v_ctrlQp c' = v_ctrlQp c \<Longrightarrow> v_notifyQp c' = v_notifyQp c \<Longrightarrow> v_atomicQp c' = v_atomicQp c \<Longrightarrow>
    v_dataQps c' = v_dataQps c \<Longrightarrow> same_cfg (v_dat c) (v_dat c') \<Longrightarrow> conn_ids c' = conn_ids c \<and> maxNumQps (v_dat c') = maxNumQps (v_dat c)"
  by (simp add: conn_ids_def data_ids_def same_cfg_def getIbDevFromQpIdx_def)

lemma apart_cong: "conn_ids c' = conn_ids c \<Longrightarrow> enableLocalFlush st' = enableLocalFlush st \<Longrightarrow>
    map_option fst (flushVc st') = map_option fst (flushVc st) \<Longrightarrow> apart c st \<Longrightarrow> apart c' st'"
  by (cases "flushVc st"; cases "flushVc st'"; cases "conn_ids c") (auto simp: apart_def)

lemma dat_eq_inv:
  assumes d: "dat_eq st st'" and v: "back_inv K C st"
  shows "back_inv K C st'"
proof (rule back_invI)
  note D = d [unfolded dat_eq_def]
  fix p c assume c: "vcs st' p = Some c"
  then obtain c0 k where c0: "vcs st p = Some c0" "c = c0\<lparr>v_ctl := k\<rparr>"
    using D by (cases "vcs st p") (auto dest!: spec [of _ p])
  have i: "conn_ids c = conn_ids c0" by (simp add: c0 conn_ids_def data_ids_def)
  then show "vc_run K (v_dat c) (C p) \<and> registered c p (qpToVc st') \<and> apart c st'"
    using back_invD(1) [OF v c0(1)] D apart_cong [OF i] by (simp add: c0(2) registered_def)
next
  show "C p = (\<lambda>_. 0)" if "vcs st' p = None" for p
    using that d back_invD(2) [OF v, of p] unfolding dat_eq_def by (cases "vcs st p") (auto dest!: spec [of _ p])
  show "new_dat (v_dat c)" if "pendVcs st' p = Some c" for p c
    using that d back_invD(3) [OF v] unfolding dat_eq_def by simp
qed

lemma dat_step_inv:
  assumes v: "back_inv K C st" and c: "vcs st p = Some c" and r: "vc_run K d cs" "same_cfg (v_dat c) d"
  shows "back_inv K (C(p := cs)) (st\<lparr>vcs := (vcs st)(p \<mapsto> c\<lparr>v_dat := d\<rparr>)\<rparr>)"
proof (rule back_invI)
  let ?st = "st\<lparr>vcs := (vcs st)(p \<mapsto> c\<lparr>v_dat := d\<rparr>)\<rparr>"
  have i: "conn_ids (c\<lparr>v_dat := d\<rparr>) = conn_ids c \<and> maxNumQps d = maxNumQps (v_dat c)"
    using conn_ids_cong [of "c\<lparr>v_dat := d\<rparr>" c] r(2) by simp
  show "vc_run K (v_dat x) ((C(p := cs)) q) \<and> registered x q (qpToVc ?st) \<and> apart x ?st" if "vcs ?st q = Some x" for q x
  proof (cases "q = p")
    case True
    then have "x = c\<lparr>v_dat := d\<rparr>" using that by simp
    then show ?thesis using True back_invD(1) [OF v c] r(1) i apart_cong [of "c\<lparr>v_dat := d\<rparr>" c ?st st] by (simp add: registered_def)
  next
    case False
    then have x: "vcs st q = Some x" using that by simp
    show ?thesis using False back_invD(1) [OF v x] apart_cong [of x x ?st st] by simp
  qed
  show "(C(p := cs)) q = (\<lambda>_. 0)" if "vcs ?st q = None" for q
    using that back_invD(2) [OF v, of q] by (simp split: if_splits)
qed (use back_invD(3) [OF v] in simp)

section \<open>Connecting\<close>

text \<open>The queue pairs of an attempt: as many as configured, and none of them belongs to the local flush.\<close>

definition boot_good :: "boot \<Rightarrow> int \<Rightarrow> ib \<Rightarrow> bool" where
  "boot_good b p st \<longleftrightarrow> new_dat (v_dat (b_fresh b)) \<and>
     (let c = createQps (b_nums b) (fst (createVc (b_fresh b) p st))
      in nat (maxNumQps (v_dat c)) \<le> length (v_dataQps c) \<and> apart c st)"

lemma new_dat_run: "new_dat d \<Longrightarrow> vc_run K d (\<lambda>_. 0)"
  unfolding new_dat_def using vc_run.new by blast

lemma createQps_dat [simp]: "v_dat (createQps n c) = v_dat c"
  by (cases n) (simp add: createQps_def)

lemma connect_back_inv:
  assumes e: "connectVc b p st = Some (r, st')" and v: "back_inv K C st" and b: "boot_good b p st"
  shows "back_inv K C st'"
proof (cases "checkValidPeer p st = commSuccess")
  case False
  then show ?thesis using e v by (simp add: connectVc_def)
next
  case ok: True
  obtain c0 st1 where c0: "createVc (b_fresh b) p st = (c0, st1)" by (cases "createVc (b_fresh b) p st")
  define c where "c = createQps (b_nums b) c0"
  define st2 where "st2 = st1\<lparr>pendVcs := (pendVcs st1)(p \<mapsto> c)\<rparr>"
  have c1: "new_dat (v_dat c)" using c0 b back_invD(3) [OF v, of p] by (auto simp: c_def createVc_def boot_good_def split: option.splits)
  have c2: "nat (maxNumQps (v_dat c)) \<le> length (v_dataQps c)" "apart c st" using b c0 by (simp_all add: boot_good_def c_def Let_def)
  have f1: "vcs st1 = vcs st" "qpToVc st1 = qpToVc st" "enableLocalFlush st1 = enableLocalFlush st" "flushVc st1 = flushVc st"
    using c0 by (auto simp: createVc_def split: option.splits)
  have p1: "pendVcs st1 q = Some x \<Longrightarrow> q \<noteq> p \<Longrightarrow> pendVcs st q = Some x" for q x
    using c0 by (auto simp: createVc_def split: option.splits if_splits)
  have v2: "back_inv K C st2"
  proof (rule back_invI)
    show "vc_run K (v_dat x) (C q) \<and> registered x q (qpToVc st2) \<and> apart x st2" if "vcs st2 q = Some x" for q x
    proof -
      have x: "vcs st q = Some x" using that f1 by (simp add: st2_def)
      show ?thesis using back_invD(1) [OF v x] f1 apart_cong [of x x st2 st] by (simp add: st2_def)
    qed
    show "C q = (\<lambda>_. 0)" if "vcs st2 q = None" for q using that f1 back_invD(2) [OF v] by (simp add: st2_def)
    show "new_dat (v_dat x)" if "pendVcs st2 q = Some x" for q x
      using that c1 p1 [of q x] back_invD(3) [OF v, of q x] by (cases "q = p") (simp_all add: st2_def)
  qed
  show ?thesis
  proof (cases "b_io b = ExchangeFails")
    case True
    then show ?thesis using e ok c0 v2 by (simp add: connectVc_def Let_def st2_def c_def)
  next
    case False
    have k: "createVc (b_fresh b) p st2 = (c, st2)" by (simp add: createVc_def st2_def)
    have cd: "\<exists>r3. connectVcDirect (b_io b \<noteq> SetupFails) (b_fresh b) p st2 = Some (r3, st')"
      using e ok False unfolding connectVc_def c0 prod.case c_def [symmetric] st2_def [symmetric] Let_def by (simp split: option.splits prod.splits)
    obtain st4 where st4: "updateVcState c p st2 = Some (commSuccess, st4)" "st' = st4\<lparr>pendVcs := (pendVcs st4)(p := None)\<rparr>"
      using cd k by (auto simp: connectVcDirect_def split: if_splits option.splits)
    obtain js where js: "conn_ids c = Some js" "distinct js" "\<forall>i \<in> set js. qpToVc st2 i = None" "vcs st2 p = None"
      "st4 = st2\<lparr>vcs := (vcs st2)(p \<mapsto> c), qpToVc := (\<lambda>i. if i \<in> set js then Some p else qpToVc st2 i)\<rparr>"
      by (rule updateVcState_success [OF st4(1)]) blast
    let ?m = "\<lambda>i. if i \<in> set js then Some p else qpToVc st2 i"
    have s': "st' = st2\<lparr>vcs := (vcs st2)(p \<mapsto> c), qpToVc := ?m, pendVcs := (pendVcs st2)(p := None)\<rparr>"
      unfolding st4(2) js(5) by simp
    show ?thesis
    proof (rule back_invI)
      show "vc_run K (v_dat x) (C q) \<and> registered x q (qpToVc st') \<and> apart x st'" if "vcs st' q = Some x" for q x
      proof (cases "q = p")
        case True
        then have x: "x = c" using that by (simp add: s')
        have "C p = (\<lambda>_. 0)" by (rule back_invD(2) [OF v2 js(4)])
        then show ?thesis using True c2 js(1,2) new_dat_run [OF c1] f1 apart_cong [of c c st' st]
          by (simp add: x s' registered_def st2_def)
      next
        case False
        then have x: "vcs st2 q = Some x" using that by (simp add: s')
        note X = back_invD(1) [OF v2 x]
        obtain xs where xs: "conn_ids x = Some xs" "distinct xs" "\<forall>i \<in> set xs. qpToVc st2 i = Some q"
          using X by (auto simp: registered_def split: option.splits)
        have "\<forall>i \<in> set xs. i \<notin> set js" using xs(3) js(3) by force
        then show ?thesis using X xs apart_cong [of x x st' st2] by (simp add: s' registered_def)
      qed
      show "C q = (\<lambda>_. 0)" if "vcs st' q = None" for q using that back_invD(2) [OF v2] by (simp add: s' split: if_splits)
      show "new_dat (v_dat x)" if "pendVcs st' q = Some x" for q x using that back_invD(3) [OF v2, of q] by (simp add: s' split: if_splits)
    qed
  qed
qed

lemma bootstrapConnect_back_inv:
  "bootstrapConnect b p st = Some (r, st') \<Longrightarrow> back_inv K C st \<Longrightarrow> boot_good b p st \<Longrightarrow> back_inv K C st'"
  using connect_back_inv by (auto simp: bootstrapConnect_def split: if_splits)

lemma bootstrapAccept_back_inv:
  "bootstrapAccept magic b p st = Some st' \<Longrightarrow> back_inv K C st \<Longrightarrow> boot_good b p st \<Longrightarrow> back_inv K C st'"
  using connect_back_inv by (auto simp: bootstrapAccept_def split: if_splits option.splits)

section \<open>Control messages leave the data paths alone\<close>

lemma upd_ctl_dat_eq:
  assumes "vcs st p = Some c"
  shows "dat_eq st (st\<lparr>vcs := (vcs st)(p \<mapsto> c\<lparr>v_ctl := k\<rparr>)\<rparr>)"
proof -
  let ?m = "(vcs st)(p \<mapsto> c\<lparr>v_ctl := k\<rparr>)"
  have m: "case vcs st q of None \<Rightarrow> ?m q = None | Some x \<Rightarrow> \<exists>k. ?m q = Some (x\<lparr>v_ctl := k\<rparr>)" for q
  proof (cases "q = p")
    case True
    then have "\<exists>j. ?m q = Some (c\<lparr>v_ctl := j\<rparr>)" by (intro exI [of _ k]) simp
    then show ?thesis using assms True by simp
  next
    case False
    then show ?thesis using conn_self by (cases "vcs st q") auto
  qed
  have s: "vcs (st\<lparr>vcs := ?m\<rparr>) = ?m" by simp
  show ?thesis unfolding dat_eq_def s by (intro conjI allI) (rule m, simp_all)
qed

lemma on_ctl_dat_eq:
  assumes "on_ctl f p st = Some (r, st')"
  shows "dat_eq st st'"
proof -
  obtain c k where "vcs st p = Some c" "st' = st\<lparr>vcs := (vcs st)(p \<mapsto> c\<lparr>v_ctl := k\<rparr>)\<rparr>"
    using assms by (auto simp: on_ctl_def split: option.splits)
  then show ?thesis using upd_ctl_dat_eq by simp
qed

lemma ithen_dat_eq:
  assumes "ithen m f = Some (r, st')" "\<And>r1 s1. m = Some (r1, s1) \<Longrightarrow> dat_eq st s1" "\<And>s r s'. f s = Some (r, s') \<Longrightarrow> dat_eq s s'"
  shows "dat_eq st st'"
proof -
  obtain r1 s1 where m: "m = Some (r1, s1)" using assms(1) by (cases m) (auto simp: ithen_def)
  show ?thesis
  proof (cases "r1 = commSuccess")
    case True
    then show ?thesis using assms(1,3) dat_eq_trans [OF assms(2) [OF m]] m by (simp add: ithen_def)
  next
    case False
    then show ?thesis using assms(1,2) m by (simp add: ithen_def)
  qed
qed

lemma post_ops_dat_eq: "post_ops accept p os st = Some (r, st') \<Longrightarrow> dat_eq st st'"
proof (induction os arbitrary: st r st')
  case (Cons x os)
  show ?case by (rule ithen_dat_eq [OF Cons.prems [unfolded post_ops.simps] on_ctl_dat_eq Cons.IH])
qed (simp add: dat_eq_refl)

lemma post_ready_dat_eq: "post_ready accept rs st = Some (r, st') \<Longrightarrow> dat_eq st st'"
proof (induction rs arbitrary: st r st')
  case (Cons x rs)
  obtain p os where x: "x = (p, os)" by (cases x)
  show ?case by (rule ithen_dat_eq [OF Cons.prems [unfolded x post_ready.simps] post_ops_dat_eq Cons.IH])
qed (simp add: dat_eq_refl)

lemma progressPendingOps_dat_eq:
  assumes "progressPendingOps accept st = Some (r, st')"
  shows "dat_eq st st'"
proof (cases "pendOps st = []")
  case True
  then show ?thesis using assms by (simp add: progressPendingOps_def dat_eq_refl)
next
  case False
  obtain rd st1 where t: "take_ready st = Some (rd, st1)" "post_ready accept rd st1 = Some (r, st')"
    using assms False by (auto simp: progressPendingOps_def split: option.splits)
  have "dat_eq st st1" by (rule dat_eq_fields) (use t(1) in \<open>auto simp: take_ready_def split: if_splits\<close>)
  then show ?thesis by (rule dat_eq_trans) (rule post_ready_dat_eq [OF t(2)])
qed

lemma addToPending_dat_eq: "addToPendingOpsIfRequired op p h st = (b, st') \<Longrightarrow> dat_eq st st'"
  by (rule dat_eq_fields) (auto simp: addToPendingOpsIfRequired_def split: option.splits if_splits)

lemma mark_all_dat_eq: "mark_all ps st = Some (r, st') \<Longrightarrow> dat_eq st st'"
proof (induction ps arbitrary: st)
  case (Cons p ps)
  have m: "dat_eq st (st\<lparr>connected := x\<rparr>)" for x by (rule dat_eq_fields) simp_all
  show ?case using Cons.prems Cons.IH dat_eq_trans [OF m Cons.IH] by (auto split: if_splits)
qed (simp add: dat_eq_refl)

lemma ctrlMsg_back_inv:
  assumes v: "back_inv K C st" and b: "boot_good b p st" and e: "ctrlMsgImpl accept lk skip seen b op p st = Some (r, st')"
  shows "back_inv K C st'"
proof (cases "lk = commSuccess \<and> checkValidPeer p st = commSuccess")
  case False
  then show ?thesis using e v by (auto simp: ctrlMsgImpl_def split: if_splits)
next
  case ok: True
  obtain v0 where v0: "getVcImpl skip p st = Some v0" using e ok by (auto simp: ctrlMsgImpl_def split: option.splits)
  define v1 where "v1 = (if seen then v0 else None)"
  define conn where "conn = (\<not> skip \<and> ib_rank st < p \<and> v1 = None)"
  define m where "m = (if conn then bootstrapConnect b p st else Some (commSuccess, st))"
  define f where "f = (\<lambda>st1. case (if conn then getVcImpl skip p st1 else Some v1) of
                None \<Rightarrow> None
              | Some v1 \<Rightarrow>
                  if skip \<or> isPeerConnected p st1 then (if v1 = None then None else on_ctl (issue_op accept op) p st1)
                  else case addToPendingOpsIfRequired op p (v1 \<noteq> None) st1 of
                    (pending, st2) \<Rightarrow> if pending then Some (commSuccess, st2) else on_ctl (issue_op accept op) p st2)"
  have i: "ithen m f = Some (r, st')"
    using e ok unfolding ctrlMsgImpl_def v0 option.case Let_def v1_def [symmetric] conn_def [symmetric] m_def f_def by (simp only: simp_thms if_False)
  have m1: "back_inv K C s" if "m = Some (r1, s)" for r1 s
    using that v bootstrapConnect_back_inv [OF _ v b] by (simp add: m_def split: if_splits)
  have f1: "dat_eq s s'" if "f s = Some (r1, s')" for s r1 s'
    using that on_ctl_dat_eq addToPending_dat_eq dat_eq_trans [OF addToPending_dat_eq on_ctl_dat_eq]
    by (auto simp: f_def split: option.splits if_splits prod.splits)
  obtain r1 s1 where s1: "m = Some (r1, s1)" using i by (cases m) (auto simp: ithen_def)
  show ?thesis using i s1 m1 [OF s1] dat_eq_inv [OF f1 m1 [OF s1]] by (auto simp: ithen_def split: if_splits)
qed

section \<open>Completions\<close>

lemma queue_id_listed:
  assumes r: "registered c p m" and q: "queue_id q c = Some i"
  obtains js where "conn_ids c = Some js" "i \<in> set js"
proof -
  obtain ds where d: "data_ids c = Some ds" "nat (maxNumQps (v_dat c)) \<le> length (v_dataQps c)" by (rule registeredD [OF r]) blast
  note N = data_ids_nth [OF d(1)]
  have "i \<in> set ds" if "q = DataQp j" for j
  proof -
    have j: "j < nat (maxNumQps (v_dat c))" "j < length ds" using q that d(2) N by (auto simp: queue_id_def split: if_splits)
    then obtain y where "getIbDevFromQpIdx j (v_dat c) = Some y" "ds ! j = (v_dataQps c ! j, y)" using N by blast
    then have "i = ds ! j" using q j that by (simp add: queue_id_def)
    then show ?thesis using j(2) by simp
  qed
  then have "i \<in> set ((v_ctrlQp c, 0) # (v_notifyQp c, 0) # (v_atomicQp c, 0) # ds)"
    using q by (cases q) (auto simp: queue_id_def)
  then show ?thesis using that d(1) by (simp add: conn_ids_def)
qed

text \<open>A completion of a data queue pair is handed to the connection that owns it.\<close>

lemma handle_cqe_data:
  assumes v: "back_inv K C st" and c: "vcs st p = Some c" and q: "queue_id q c = Some (e_qpn e, dev)" and e: "e_ok e"
    and o: "e_op e = CqeData op" "op \<noteq> WC_other"
  shows "handle_cqe g dev e st = map_option (\<lambda>(r, d). (r, st\<lparr>vcs := (vcs st)(p \<mapsto> c\<lparr>v_dat := d\<rparr>)\<rparr>))
    (processDataCqe (g_post g) (g_refill g) op q (e_imm e) (e_id e) (v_dat c))"
proof -
  have V: "registered c p (qpToVc st)" "apart c st" using back_invD(1) [OF v c] by simp_all
  note R = registered_role [OF V(1) q]
  obtain js where js: "conn_ids c = Some js" "(e_qpn e, dev) \<in> set js" by (rule queue_id_listed [OF V(1) q])
  let ?x = "processDataCqe (g_post g) (g_refill g) op q (e_imm e) (e_id e) (v_dat c)"
  have x: "processCqeImpl g e dev c = map_option (\<lambda>(r, d). (r, c\<lparr>v_dat := d\<rparr>)) ?x"
    using R o by (simp add: processCqeImpl_def)
  have h: "(case vcs st p of None \<Rightarrow> None | Some c \<Rightarrow> map_option (\<lambda>(r, c1). (r, st\<lparr>vcs := (vcs st)(p \<mapsto> c1)\<rparr>)) (processCqeImpl g e dev c)) =
      map_option (\<lambda>(r, d). (r, st\<lparr>vcs := (vcs st)(p \<mapsto> c\<lparr>v_dat := d\<rparr>)\<rparr>)) ?x"
    using x c by (cases ?x) auto
  show ?thesis
  proof (cases "enableLocalFlush st")
    case False
    then show ?thesis using R e h by (simp add: handle_cqe_def getVcByQp_def)
  next
    case True
    then obtain qpns l where f: "flushVc st = Some (qpns, l)" "dev < length qpns" "e_qpn e \<noteq> qpns ! dev"
      using V(2) js by (auto simp: apart_def split: option.splits)
    then show ?thesis using R e h True by (simp add: handle_cqe_def getVcByQp_def)
  qed
qed

lemma handle_cqe_other:
  assumes h: "handle_cqe g dev e st = Some (r, st')" and o: "\<not> e_ok e \<or> (\<forall>op. e_op e \<noteq> CqeData op) \<or>
      (\<exists>qpns l. enableLocalFlush st \<and> flushVc st = Some (qpns, l) \<and> dev < length qpns \<and> e_qpn e = qpns ! dev)"
  shows "dat_eq st st'"
proof -
  have f: "dat_eq st (st\<lparr>flushVc := Some (qpns, l1)\<rparr>)" if "flushVc st = Some (qpns, l)" for qpns l l1
    by (rule dat_eq_fields) (use that in simp_all)
  define remote where "remote = (case getVcByQp (e_qpn e, dev) st of
           None \<Rightarrow> Some (commInternalError, st)
         | Some p \<Rightarrow>
             if \<not> e_ok e then Some (commRemoteError, st)
             else (case vcs st p of
                None \<Rightarrow> None
              | Some c \<Rightarrow> map_option (\<lambda>(r, c1). (r, st\<lparr>vcs := (vcs st)(p \<mapsto> c1)\<rparr>)) (processCqeImpl g e dev c)))"
  have rem: "dat_eq st st'" if rr: "remote = Some (r, st')" and oo: "\<not> e_ok e \<or> (\<forall>op. e_op e \<noteq> CqeData op)"
  proof (cases "\<exists>p c. getVcByQp (e_qpn e, dev) st = Some p \<and> e_ok e \<and> vcs st p = Some c")
    case False
    then have "st' = st" using rr by (auto simp: remote_def split: option.splits if_splits)
    then show ?thesis by (simp add: dat_eq_refl)
  next
    case True
    then obtain p c where p: "getVcByQp (e_qpn e, dev) st = Some p" "e_ok e" "vcs st p = Some c" by blast
    then obtain c1 where c1: "processCqeImpl g e dev c = Some (r, c1)" "st' = st\<lparr>vcs := (vcs st)(p \<mapsto> c1)\<rparr>"
      using rr by (auto simp: remote_def)
    have "\<exists>k. c1 = c\<lparr>v_ctl := k\<rparr>"
      using c1(1) oo p(2) by (cases "e_op e") (auto simp: processCqeImpl_def)
    then show ?thesis using c1(2) upd_ctl_dat_eq [OF p(3)] by auto
  qed
  have h': "(if \<not> enableLocalFlush st then remote
         else case flushVc st of
           None \<Rightarrow> None
         | Some (qpns, l) \<Rightarrow>
             if length qpns \<le> dev then None
             else if e_qpn e \<noteq> qpns ! dev then remote
             else if \<not> e_ok e then Some (commRemoteError, st)
             else map_option (\<lambda>(r, l1). (r, st\<lparr>flushVc := Some (qpns, l1)\<rparr>)) (flush_complete (e_op e = CqeData WC_RDMA_READ) l)) = Some (r, st')"
    using h unfolding handle_cqe_def Let_def remote_def .
  show ?thesis
  proof (cases "remote = Some (r, st') \<and> (\<not> e_ok e \<or> (\<forall>op. e_op e \<noteq> CqeData op))")
    case True
    then show ?thesis using rem by blast
  next
    case False
    then show ?thesis using h' o f dat_eq_refl [of st] by (auto split: if_splits option.splits prod.splits)
  qed
qed

section \<open>Calls for data\<close>

lemma on_dat_inv:
  assumes v: "back_inv K C st" and e: "on_dat f p st = Some (r, st')"
    and f: "\<And>c r d. vcs st p = Some c \<Longrightarrow> vc_run K (v_dat c) (C p) \<Longrightarrow> f (v_dat c) = Some (r, d) \<Longrightarrow> vc_run K d (C p) \<and> same_cfg (v_dat c) d"
  shows "back_inv K C st'"
proof -
  obtain c d where c: "vcs st p = Some c" "f (v_dat c) = Some (r, d)" "st' = st\<lparr>vcs := (vcs st)(p \<mapsto> c\<lparr>v_dat := d\<rparr>)\<rparr>"
    using e by (auto simp: on_dat_def split: option.splits)
  have F: "vc_run K d (C p) \<and> same_cfg (v_dat c) d" by (rule f [OF c(1) _ c(2)]) (use back_invD(1) [OF v c(1)] in blast)
  show ?thesis using dat_step_inv [OF v c(1), of d "C p"] F unfolding c(3) by simp
qed

lemma with_vc_inv:
  assumes v: "back_inv K C st" and e: "with_vc lk skip p f st = Some (r, st')"
    and f: "\<And>c r d. vcs st p = Some c \<Longrightarrow> vc_run K (v_dat c) (C p) \<Longrightarrow> f (v_dat c) = Some (r, d) \<Longrightarrow> vc_run K d (C p) \<and> same_cfg (v_dat c) d"
  shows "back_inv K C st'"
proof (cases "st' = st")
  case False
  then have "on_dat f p st = Some (r, st')" using e by (auto simp: with_vc_def split: if_splits option.splits)
  then show ?thesis by (rule on_dat_inv [OF v _ f])
qed (use v in simp)

lemma notify_inv:
  assumes v: "back_inv K C st" and e: "ib_notify g lk [] req p st = Some (r, st')" and g: "g_post g = acc"
    and q: "\<And>c. vcs st p = Some c \<Longrightarrow> reqs_free (v_dat c) [req]"
  shows "back_inv K C st'"
proof (cases "st' = st")
  case False
  then have e: "on_dat (\<lambda>d. Some (notify acc req None d)) p st = Some (r, st')"
    using e g by (auto simp: ib_notify_def split: if_splits option.splits)
  show ?thesis
  proof (rule on_dat_inv [OF v e])
    show "vc_run K d (C p) \<and> same_cfg (v_dat c) d"
      if "vcs st p = Some c" "vc_run K (v_dat c) (C p)" "Some (notify acc req None (v_dat c)) = Some (r, d)" for c r d
      using vc_run.notification [OF that(2) q [OF that(1)]] notify_call_cfg that(3) by auto
  qed
qed (use v in simp)

lemma check_inv:
  assumes v: "back_inv K C st" and e: "ib_checkNotify g lk skip [] p st = Some (r, b, st')"
  shows "back_inv K C st'"
proof (cases "st' = st")
  case False
  then obtain r1 st1 where p: "progressInternal g lk skip [] st = Some (r1, st1)" "lk = commSuccess"
    using e by (auto simp: ib_checkNotify_def split: if_splits option.splits)
  have "dat_eq st st1" using p progressPendingOps_dat_eq dat_eq_refl by (auto simp: progressInternal_def ithen_def split: if_splits)
  then have v1: "back_inv K C st1" using v by (rule dat_eq_inv)
  show ?thesis
  proof (cases "st' = st1")
    case n: False
    obtain c where c: "getVcImpl skip p st1 = Some (Some c)"
      "map_option (\<lambda>(b, d). (commSuccess, b, st1\<lparr>vcs := (vcs st1)(p \<mapsto> c\<lparr>v_dat := d\<rparr>)\<rparr>)) (checkNotify (v_dat c)) = Some (r, b, st')"
      using e p n False by (auto simp: ib_checkNotify_def split: if_splits option.splits)
    have s: "vcs st1 p = Some c" using c(1) by (auto simp: getVcImpl_def split: if_splits option.splits)
    obtain d where d: "checkNotify (v_dat c) = Some (b, d)" "st' = st1\<lparr>vcs := (vcs st1)(p \<mapsto> c\<lparr>v_dat := d\<rparr>)\<rparr>" using c(2) by auto
    have "vc_run K d (C p)" by (rule vc_run.poll [OF _ d(1)]) (use back_invD(1) [OF v1 s] in blast)
    then show ?thesis using dat_step_inv [OF v1 s, of d "C p"] checkNotify_cfg [OF d(1)] unfolding d(2) by simp
  qed (use v1 in simp)
qed (use v in simp)

section \<open>Runs of the backend\<close>

text \<open>\<open>genuine C st p q dev e\<close>: \<open>e\<close> is the completion of the oldest work request in flight on the queue pair \<open>q\<close> of the connection to \<open>p\<close>.\<close>

definition genuine :: "(int \<Rightarrow> queue \<Rightarrow> nat) \<Rightarrow> ib \<Rightarrow> int \<Rightarrow> queue \<Rightarrow> nat \<Rightarrow> cqe \<Rightarrow> bool" where
  "genuine C st p q dev e \<longleftrightarrow> e_ok e \<and>
     (case vcs st p of
        None \<Rightarrow> False
      | Some c \<Rightarrow> queue_id q c = Some (e_qpn e, dev) \<and>
          (case inflight (v_dat c) (C p) q of [] \<Rightarrow> False | (t, w) # xs \<Rightarrow> e_op e = CqeData (wc_of t w) \<and> e_id e = w_id w))"

text \<open>\<open>e\<close> is a write with an immediate value that arrived on the queue pair \<open>q\<close> of the connection to \<open>p\<close>.\<close>

definition arrived :: "ib \<Rightarrow> int \<Rightarrow> queue \<Rightarrow> nat \<Rightarrow> cqe \<Rightarrow> bool" where
  "arrived st p q dev e \<longleftrightarrow> e_ok e \<and> e_op e = CqeData WC_RECV_RDMA_WITH_IMM \<and>
     (case vcs st p of None \<Rightarrow> False | Some c \<Rightarrow> queue_id q c = Some (e_qpn e, dev))"

text \<open>What a call needs of its connection, if there is one.\<close>

definition at_peer :: "(vc \<Rightarrow> bool) \<Rightarrow> int \<Rightarrow> ib \<Rightarrow> bool" where
  "at_peer P p st = (case vcs st p of None \<Rightarrow> True | Some c \<Rightarrow> P (v_dat c))"

text \<open>
  \<open>back_run K C st\<close>: any calls, connections, completions and arrivals on all connections of a rank; \<open>C p q\<close> counts the completions of
  the queue pair \<open>q\<close> of the connection to \<open>p\<close>. The kinds of operations are \<open>K\<close>. \<^verbatim>\<open>preConnect\<close> is a sequence of attempts to connect
  and one \<open>mark_all\<close>.
\<close>

inductive back_run :: "op_kind set \<Rightarrow> (int \<Rightarrow> queue \<Rightarrow> nat) \<Rightarrow> ib \<Rightarrow> bool" for K where
  new: "back_run K (\<lambda>p q. 0) (ib_new r n fl)"
| attempt: "back_run K C st \<Longrightarrow> boot_good b p st \<Longrightarrow> bootstrapConnect b p st = Some (r, st') \<Longrightarrow> back_run K C st'"
| listen: "back_run K C st \<Longrightarrow> boot_good b p st \<Longrightarrow> bootstrapAccept magic b p st = Some st' \<Longrightarrow> back_run K C st'"
| mark: "back_run K C st \<Longrightarrow> mark_all ps st = Some (r, st') \<Longrightarrow> back_run K C st'"
| control: "back_run K C st \<Longrightarrow> boot_good b p st \<Longrightarrow> ctrlMsgImpl accept lk skip seen b op p st = Some (r, st') \<Longrightarrow> back_run K C st'"
| pending: "back_run K C st \<Longrightarrow> progressPendingOps accept st = Some (r, st') \<Longrightarrow> back_run K C st'"
| put: "back_run K C st \<Longrightarrow> Put \<in> K \<Longrightarrow> at_peer (\<lambda>d. put_ok d m \<and> reqs_free d [p_req m]) p st \<Longrightarrow> g_post g = acc \<Longrightarrow>
    ib_iput g lk skip m fst_path p st = Some (r, st') \<Longrightarrow> back_run K C st'"
| batch: "back_run K C st \<Longrightarrow> Put \<in> K \<Longrightarrow> at_peer (\<lambda>d. (\<forall>m \<in> set ms. put_ok d m \<and> p_keys m \<noteq> None) \<and> reqs_free d (map p_req ms)) p st \<Longrightarrow>
    g_post g = acc \<Longrightarrow> ib_iputBatch g lk skip ms p st = Some (r, st') \<Longrightarrow> back_run K C st'"
| get: "back_run K C st \<Longrightarrow> Get \<in> K \<Longrightarrow> at_peer (\<lambda>d. keys_ok d keys rkeys \<and> reqs_free d [req]) p st \<Longrightarrow> config_ok cfg \<Longrightarrow> g_post g = acc \<Longrightarrow>
    ib_iget g lk skip sbuf dbuf n keys rkeys cfg req fst_path p st = Some (r, st') \<Longrightarrow> back_run K C st'"
| fetch_add: "back_run K C st \<Longrightarrow> at_peer (\<lambda>d. reqs_free d [req]) p st \<Longrightarrow> g_post g = acc \<Longrightarrow>
    ib_fetchAndAdd g sbuf dbuf addVal keys rkeys req p st = Some (r, st') \<Longrightarrow> back_run K C st'"
| atomic_set: "back_run K C st \<Longrightarrow> at_peer (\<lambda>d. reqs_free d [req]) p st \<Longrightarrow> g_post g = acc \<Longrightarrow>
    ib_atomicSet g stack dbuf val rkeys req p st = Some (r, st') \<Longrightarrow> back_run K C st'"
| notification: "back_run K C st \<Longrightarrow> at_peer (\<lambda>d. reqs_free d [req]) p st \<Longrightarrow> g_post g = acc \<Longrightarrow>
    ib_notify g lk [] req p st = Some (r, st') \<Longrightarrow> back_run K C st'"
| check: "back_run K C st \<Longrightarrow> ib_checkNotify g lk skip [] p st = Some (r, b, st') \<Longrightarrow> back_run K C st'"
| flush: "back_run K C st \<Longrightarrow> ib_iflush accept lk dbuf rkeys req q st = Some (r, q', st') \<Longrightarrow> back_run K C st'"
| completion: "back_run K C st \<Longrightarrow> genuine C st p q dev e \<Longrightarrow> g_post g = acc \<Longrightarrow> handle_cqe g dev e st = Some (r, st') \<Longrightarrow>
    back_run K (C(p := next_c (C p) q)) st'"
| arrival: "back_run K C st \<Longrightarrow> arrived st p q dev e \<Longrightarrow> g_post g = acc \<Longrightarrow> handle_cqe g dev e st = Some (r, st') \<Longrightarrow> back_run K C st'"
| control_cqe: "back_run K C st \<Longrightarrow> (\<forall>op. e_op e \<noteq> CqeData op) \<Longrightarrow> handle_cqe g dev e st = Some (r, st') \<Longrightarrow> back_run K C st'"
| flush_cqe: "back_run K C st \<Longrightarrow> enableLocalFlush st \<Longrightarrow> flushVc st = Some (qpns, l) \<Longrightarrow> dev < length qpns \<Longrightarrow> e_qpn e = qpns ! dev \<Longrightarrow>
    handle_cqe g dev e st = Some (r, st') \<Longrightarrow> back_run K C st'"
| failed_cqe: "back_run K C st \<Longrightarrow> \<not> e_ok e \<Longrightarrow> handle_cqe g dev e st = Some (r, st') \<Longrightarrow> back_run K C st'"
| request: "back_run K C st \<Longrightarrow> at_peer (\<lambda>d. int (count_list (held d) (Some i)) \<le> n) p st \<Longrightarrow>
    on_dat (\<lambda>d. Some (commSuccess, d\<lparr>reqs := (reqs d)(i := req_setRefCount n (reqs d i))\<rparr>)) p st = Some (r, st') \<Longrightarrow> back_run K C st'"

lemma genuineD:
  assumes "genuine C st p q dev e"
  obtains c t w xs where "vcs st p = Some c" "inflight (v_dat c) (C p) q = (t, w) # xs" "queue_id q c = Some (e_qpn e, dev)" "e_ok e"
    "e_op e = CqeData (wc_of t w)" "e_id e = w_id w"
  using assms by (auto simp: genuine_def split: option.splits list.splits)

lemma wc_of_other: "wc_of t w \<noteq> WC_other"
  by (simp add: wc_of_def split: post_tag.split op_kind.split)

lemma back_run_inv: "back_run K C st \<Longrightarrow> back_inv K C st"
proof (induction rule: back_run.induct)
  case (new r n fl)
  then show ?case by (intro back_invI) (simp_all add: ib_new_def)
next
  case (attempt C st b p r st')
  then show ?case using bootstrapConnect_back_inv by blast
next
  case (listen C st b p magic st')
  then show ?case using bootstrapAccept_back_inv by blast
next
  case (mark C st ps r st')
  then show ?case using dat_eq_inv [OF mark_all_dat_eq] by blast
next
  case (control C st b p accept lk skip seen op r st')
  then show ?case using ctrlMsg_back_inv by blast
next
  case (pending C st accept r st')
  then show ?case using dat_eq_inv [OF progressPendingOps_dat_eq] by blast
next
  case (put C st m p g lk skip fst_path r st')
  show ?case
  proof (rule with_vc_inv [OF put.IH put.hyps(5) [unfolded ib_iput_def put.hyps(4)]])
    show "vc_run K d (C p) \<and> same_cfg (v_dat c) d"
      if "vcs st p = Some c" "vc_run K (v_dat c) (C p)" "iputImpl acc m fst_path (v_dat c) = Some (r, d)" for c r d
      using vc_run.put [OF that(2) put.hyps(2) _ _ that(3)] put.hyps(3) that(1) iput_cfg [OF that(3)] by (simp add: at_peer_def)
  qed
next
  case (batch C st ms p g lk skip r st')
  show ?case
  proof (rule with_vc_inv [OF batch.IH batch.hyps(5) [unfolded ib_iputBatch_def batch.hyps(4)]])
    show "vc_run K d (C p) \<and> same_cfg (v_dat c) d"
      if "vcs st p = Some c" "vc_run K (v_dat c) (C p)" "iputBatchImpl acc ms (v_dat c) = Some (r, d)" for c r d
      using vc_run.batch [OF that(2) batch.hyps(2) _ _ that(3)] batch.hyps(3) that(1) iputBatch_cfg [OF that(3)] by (simp add: at_peer_def)
  qed
next
  case (get C st keys rkeys req p cfg g lk skip sbuf dbuf n fst_path r st')
  show ?case
  proof (rule with_vc_inv [OF get.IH get.hyps(6) [unfolded ib_iget_def get.hyps(5)]])
    show "vc_run K d (C p) \<and> same_cfg (v_dat c) d"
      if "vcs st p = Some c" "vc_run K (v_dat c) (C p)" "igetImpl acc sbuf dbuf n keys rkeys cfg req fst_path (v_dat c) = Some (r, d)" for c r d
      using vc_run.get [OF that(2) get.hyps(2) _ get.hyps(4) _ that(3)] get.hyps(3) that(1) iget_cfg [OF that(3)] by (simp add: at_peer_def)
  qed
next
  case (fetch_add C st req p g sbuf dbuf addVal keys rkeys r st')
  show ?case
  proof (rule with_vc_inv [OF fetch_add.IH fetch_add.hyps(4) [unfolded ib_fetchAndAdd_def fetch_add.hyps(3)]])
    show "vc_run K d (C p) \<and> same_cfg (v_dat c) d"
      if "vcs st p = Some c" "vc_run K (v_dat c) (C p)" "ifetchAndAddImpl acc sbuf dbuf addVal keys rkeys req (v_dat c) = Some (r, d)" for c r d
      using vc_run.fetch_add [OF that(2) _ that(3)] fetch_add.hyps(2) that(1) fetch_add_cfg [OF that(3)] by (simp add: at_peer_def)
  qed
next
  case (atomic_set C st req p g stack dbuf val rkeys r st')
  show ?case
  proof (rule with_vc_inv [OF atomic_set.IH atomic_set.hyps(4) [unfolded ib_atomicSet_def atomic_set.hyps(3)]])
    show "vc_run K d (C p) \<and> same_cfg (v_dat c) d"
      if "vcs st p = Some c" "vc_run K (v_dat c) (C p)" "iatomicSetImpl acc stack dbuf val rkeys req (v_dat c) = Some (r, d)" for c r d
      using vc_run.atomic_set [OF that(2) _ that(3)] atomic_set.hyps(2) that(1) atomic_set_cfg [OF that(3)] by (simp add: at_peer_def)
  qed
next
  case (notification C st req p g lk r st')
  then show ?case by (intro notify_inv [OF notification.IH notification.hyps(4,3)]) (simp add: at_peer_def)
next
  case (check C st g lk skip p r b st')
  then show ?case using check_inv by blast
next
  case (flush C st accept lk dbuf rkeys req q r q' st')
  have "dat_eq st st'" by (rule dat_eq_fields) (use flush.hyps(2) in \<open>auto simp: ib_iflush_def split: if_splits option.splits\<close>)
  then show ?case using flush.IH by (rule dat_eq_inv)
next
  case (completion C st p q dev e g r st')
  obtain c t w xs where c: "vcs st p = Some c" "inflight (v_dat c) (C p) q = (t, w) # xs" "queue_id q c = Some (e_qpn e, dev)" "e_ok e"
    "e_op e = CqeData (wc_of t w)" "e_id e = w_id w" by (rule genuineD [OF completion.hyps(2)]) blast
  note H = handle_cqe_data [OF completion.IH c(1,3,4,5) wc_of_other, of g, unfolded completion.hyps(3,4) c(6)]
  obtain d where d: "processDataCqe acc (g_refill g) (wc_of t w) q (e_imm e) (w_id w) (v_dat c) = Some (r, d)"
    "st' = st\<lparr>vcs := (vcs st)(p \<mapsto> c\<lparr>v_dat := d\<rparr>)\<rparr>" using H [symmetric] by auto
  have "vc_run K (v_dat c) (C p)" using back_invD(1) [OF completion.IH c(1)] by blast
  from vc_run.completion [OF this c(2) d(1)] show ?case
    unfolding d(2) by (rule dat_step_inv [OF completion.IH c(1) _ processDataCqe_cfg [OF d(1)]])
next
  case (arrival C st p q dev e g r st')
  obtain c where c: "vcs st p = Some c" "queue_id q c = Some (e_qpn e, dev)" "e_ok e" "e_op e = CqeData WC_RECV_RDMA_WITH_IMM"
    using arrival.hyps(2) by (auto simp: arrived_def split: option.splits)
  note H = handle_cqe_data [OF arrival.IH c wc_opcode.distinct(17), of g, unfolded arrival.hyps(3,4)]
  obtain d where d: "processDataCqe acc (g_refill g) WC_RECV_RDMA_WITH_IMM q (e_imm e) (e_id e) (v_dat c) = Some (r, d)"
    "st' = st\<lparr>vcs := (vcs st)(p \<mapsto> c\<lparr>v_dat := d\<rparr>)\<rparr>" using H [symmetric] by auto
  have "vc_run K (v_dat c) (C p)" using back_invD(1) [OF arrival.IH c(1)] by blast
  from vc_run.arrival [OF this d(1)] have "back_inv K (C(p := C p)) st'"
    unfolding d(2) by (rule dat_step_inv [OF arrival.IH c(1) _ processDataCqe_cfg [OF d(1)]])
  then show ?case by simp
next
  case (control_cqe C st e g dev r st')
  then show ?case using dat_eq_inv [OF handle_cqe_other] by blast
next
  case (flush_cqe C st qpns l dev e g r st')
  have "dat_eq st st'" by (rule handle_cqe_other [OF flush_cqe.hyps(6)]) (use flush_cqe.hyps(2-5) in blast)
  then show ?case using flush_cqe.IH by (rule dat_eq_inv)
next
  case (failed_cqe C st e g dev r st')
  then show ?case using dat_eq_inv [OF handle_cqe_other] by blast
next
  case (request C st i n p r st')
  show ?case
  proof (rule on_dat_inv [OF request.IH request.hyps(3)])
    show "vc_run K d (C p) \<and> same_cfg (v_dat c) d"
      if "vcs st p = Some c" "vc_run K (v_dat c) (C p)"
        "Some (commSuccess, (v_dat c)\<lparr>reqs := (reqs (v_dat c))(i := req_setRefCount n (reqs (v_dat c) i))\<rparr>) = Some (r, d)" for c r d
      using vc_run.request [OF that(2), of i n] request.hyps(2) that by (auto simp: at_peer_def same_cfg_def)
  qed
qed

section \<open>The property\<close>

text \<open>C12: Whatever calls, connections, completions and arrivals there were on any connection, with the local flush or without: the
  completion of the oldest work request of any queue pair of any connection, when it is polled, is handed to that connection,
  processed there with success, and leaves everything else alone.\<close>

theorem completion_reaches_connection:
  assumes "back_run K C st" "genuine C st p q dev e" "g_post g = acc"
  shows "\<exists>c d. vcs st p = Some c \<and> handle_cqe g dev e st = Some (commSuccess, st\<lparr>vcs := (vcs st)(p \<mapsto> c\<lparr>v_dat := d\<rparr>)\<rparr>)"
proof -
  note V = back_run_inv [OF assms(1)]
  obtain c t w xs where c: "vcs st p = Some c" "inflight (v_dat c) (C p) q = (t, w) # xs" "queue_id q c = Some (e_qpn e, dev)" "e_ok e"
    "e_op e = CqeData (wc_of t w)" "e_id e = w_id w" by (rule genuineD [OF assms(2)]) blast
  have "vc_run K (v_dat c) (C p)" using back_invD(1) [OF V c(1)] by blast
  then obtain d where d: "processDataCqe acc (g_refill g) (wc_of t w) q (e_imm e) (w_id w) (v_dat c) = Some (commSuccess, d)"
    by (rule completion_ok [OF run_whole c(2), of _ "g_refill g" "e_imm e"])
  have "handle_cqe g dev e st = Some (commSuccess, st\<lparr>vcs := (vcs st)(p \<mapsto> c\<lparr>v_dat := d\<rparr>)\<rparr>)"
    using handle_cqe_data [OF V c(1,3,4,5) wc_of_other, of g] d by (simp add: assms(3) c(6))
  then show ?thesis using c(1) by blast
qed

text \<open>Rank 1 after rank 0 has connected, with a put in flight.\<close>

definition ex_env :: env where
  "ex_env = \<lparr>g_post = acc, g_send = (\<lambda>k. True), g_refill = (\<lambda>q. True), g_recv = True, g_cbs = Map.empty\<rparr>"

definition ex_bboot :: boot where
  "ex_bboot = \<lparr>b_io = ConnOk, b_nums = (10, 11, 12, [13]), b_fresh = ex_conn\<lparr>v_dat := ex0\<rparr>\<rparr>"

definition ex_bconn :: conn where "ex_bconn = createQps (b_nums ex_bboot) (b_fresh ex_bboot)"

definition ex_b1 :: ib where "ex_b1 = the (bootstrapAccept kBootstrapMagic ex_bboot 0 (ib_new 1 (Some 2) None))"

definition ex_b2 :: ib where "ex_b2 = snd (the (ib_iput ex_env commSuccess False ex_put False 0 ex_b1))"

definition ex_cqe :: cqe where "ex_cqe = \<lparr>e_ok = True, e_op = CqeData WC_RDMA_WRITE, e_qpn = 13, e_imm = 0, e_id = 65536\<rparr>"

lemma ex_new_dat: "new_dat ex0"
  unfolding new_dat_def
  by (rule exI [of _ cv], rule exI [of _ SAME_RACK], rule exI [of _ 1], rule exI [of _ ex_cfg], rule exI [of _ ex_cfg], rule exI [of _ 0], rule exI [of _ 64])
    (simp add: setDefaultQPConfig_def configList_def applyQPConfigList_def limitQPConfig_def ex_cfg_def HARDCODED_MAX_QPS_def MAX_SEND_WR_def ex0_def)

lemma ex_data_ids: "data_ids ex_bconn = Some [(13, 0)]"
proof -
  have "maxNumQps ex0 = 1" "devs ex0 = 1" by code_simp+
  then show ?thesis
    by (simp add: ex_bconn_def ex_bboot_def ex_conn_def createQps_def data_ids_def getIbDevFromQpIdx_def)
qed

lemma ex_b1_state: "bootstrapAccept kBootstrapMagic ex_bboot 0 (ib_new 1 (Some 2) None) = Some ex_b1" "vcs ex_b1 0 = Some ex_bconn"
proof -
  have "\<exists>s. bootstrapAccept kBootstrapMagic ex_bboot 0 (ib_new 1 (Some 2) None) = Some s \<and> vcs s 0 = Some ex_bconn"
    using ex_data_ids
    by (simp add: bootstrapAccept_def connectVc_def connectVcDirect_def createVc_def updateVcState_def checkValidPeer_def ib_new_def Let_def ithen_def
        checkAndInsertQpToVcMap_def ex_bconn_def [symmetric]) (simp add: ex_bconn_def ex_bboot_def ex_conn_def createQps_def)
  then show "bootstrapAccept kBootstrapMagic ex_bboot 0 (ib_new 1 (Some 2) None) = Some ex_b1" "vcs ex_b1 0 = Some ex_bconn"
    by (auto simp: ex_b1_def)
qed

lemma ex_b1_run: "back_run UNIV (\<lambda>p q. 0) ex_b1"
proof (rule back_run.listen [OF back_run.new _ ex_b1_state(1)])
  have n: "nat (maxNumQps ex0) \<le> 1" by code_simp
  have "new_dat (v_dat (b_fresh ex_bboot))" using ex_new_dat by (simp add: ex_bboot_def)
  then show "boot_good ex_bboot 0 (ib_new 1 (Some 2) None)"
    using n by (simp add: boot_good_def createVc_def ib_new_def apart_def ex_bboot_def ex_conn_def createQps_def)
qed

lemma ex_b2_state: "ib_iput ex_env commSuccess False ex_put False 0 ex_b1 = Some (commSuccess, ex_b2)" "vcs ex_b2 0 = Some (ex_bconn\<lparr>v_dat := ex1\<rparr>)"
proof -
  have "(case iputImpl acc ex_put False ex0 of None \<Rightarrow> False | Some (r, d) \<Rightarrow> r = commSuccess)" by code_simp
  then have i: "iputImpl acc ex_put False ex0 = Some (commSuccess, ex1)" by (auto simp: ex1_def split: option.splits)
  have "(case getVcImpl False 0 ex_b1 of Some (Some c) \<Rightarrow> True | _ \<Rightarrow> False)" by code_simp
  then have v: "getVcImpl False 0 ex_b1 = Some (Some ex_bconn)" using ex_b1_state(2) by (auto simp: getVcImpl_def split: option.splits if_splits)
  have d: "v_dat ex_bconn = ex0" by (simp add: ex_bconn_def ex_bboot_def)
  have "ib_iput ex_env commSuccess False ex_put False 0 ex_b1 = Some (commSuccess, ex_b1\<lparr>vcs := (vcs ex_b1)(0 \<mapsto> ex_bconn\<lparr>v_dat := ex1\<rparr>)\<rparr>)"
    using i by (simp add: ib_iput_def with_vc_def v on_dat_def ex_b1_state(2) d ex_env_def)
  then show "ib_iput ex_env commSuccess False ex_put False 0 ex_b1 = Some (commSuccess, ex_b2)" "vcs ex_b2 0 = Some (ex_bconn\<lparr>v_dat := ex1\<rparr>)"
    by (simp_all add: ex_b2_def)
qed

lemma ex_b2_run: "back_run UNIV (\<lambda>p q. 0) ex_b2"
proof (rule back_run.put [OF ex_b1_run UNIV_I _ _ ex_b2_state(1)])
  have p: "put_ok ex0 ex_put" by (simp add: put_ok_def keys_ok_def ex_put_def config_ok_def ex0_def vc_new_def)
  have "reqs_free ex0 [p_req ex_put]" using reqs_free_None [OF run_whole [OF ex_run0 [of UNIV]]] by (simp add: ex_put_def)
  then show "at_peer (\<lambda>d. put_ok d ex_put \<and> reqs_free d [p_req ex_put]) 0 ex_b1"
    using p by (simp add: at_peer_def ex_b1_state(2)) (simp add: ex_bconn_def ex_bboot_def)
qed (simp add: ex_env_def)

theorem completion_reaches_connection_witness:
  "genuine (\<lambda>p q. 0) ex_b2 0 (DataQp 0) 0 ex_cqe \<and>
   (\<exists>c d. vcs ex_b2 0 = Some c \<and> handle_cqe ex_env 0 ex_cqe ex_b2 = Some (commSuccess, ex_b2\<lparr>vcs := (vcs ex_b2)(0 \<mapsto> c\<lparr>v_dat := d\<rparr>)\<rparr>))"
proof -
  have m: "maxNumQps ex1 = 1" "devs ex1 = 1" by code_simp+
  have "queue_id (DataQp 0) (ex_bconn\<lparr>v_dat := ex1\<rparr>) = Some (13, 0)"
    using m by (simp add: queue_id_def getIbDevFromQpIdx_def) (simp add: ex_bconn_def ex_bboot_def ex_conn_def createQps_def)
  then have g: "genuine (\<lambda>p q. 0) ex_b2 0 (DataQp 0) 0 ex_cqe"
    using ex_head [OF ex_wire1] by (simp add: genuine_def ex_b2_state(2) ex_cqe_def wc_of_def) (simp add: ex_wr_def)
  show ?thesis using g completion_reaches_connection [OF ex_b2_run g] by (simp add: ex_env_def)
qed

end
