(* ===== verification/Coll_Plugins.thy ===== *)
theory Coll_Plugins imports Prelude begin

text \<open>
  The plugins of the tracer of collectives, \<^verbatim>\<open>comms/utils/colltrace/plugins\<close>: the record of past, current and pending
  collectives that is dumped on request, and the watchdog. A record of a collective is known by its id, an event by its address.
  \<open>None\<close> is undefined behaviour.
\<close>

section \<open>The dump of collectives\<close>

record dump_cfg =
  pastCollSize :: int
  pendingCollSize :: int

record dump =
  pastColls :: "nat list"
  currentColl :: "nat option"
  pendingColls :: "nat list"
  newPendingColls :: "nat list"

definition dump_new :: dump where
  "dump_new = \<lparr>pastColls = [], currentColl = None, pendingColls = [], newPendingColls = []\<rparr>"

definition enqueuePendingColls :: "int \<Rightarrow> dump \<Rightarrow> commResult \<times> dump" where
  "enqueuePendingColls m d =
     (let n = min (nat m) (length (newPendingColls d))
      in (if int n = m then commInternalError else commSuccess,
          d\<lparr>pendingColls := pendingColls d @ take n (newPendingColls d), newPendingColls := drop n (newPendingColls d)\<rparr>))"

text \<open>\<^verbatim>\<open>afterCollKernelScheduled\<close>: the queue of new collectives does not block when it is full.\<close>

definition dump_scheduled :: "dump_cfg \<Rightarrow> nat \<Rightarrow> dump \<Rightarrow> commResult \<times> dump" where
  "dump_scheduled cfg e d =
     (if int (length (newPendingColls d)) < pendingCollSize cfg then (commSuccess, d\<lparr>newPendingColls := newPendingColls d @ [e]\<rparr>)
      else (commInternalError, d))"

text \<open>\<^verbatim>\<open>afterCollKernelStart\<close>\<close>

definition dump_started :: "dump_cfg \<Rightarrow> nat \<Rightarrow> dump \<Rightarrow> commResult \<times> dump" where
  "dump_started cfg e d =
     (case enqueuePendingColls (pendingCollSize cfg + 1) d of (r, d1) \<Rightarrow>
        if r \<noteq> commSuccess then (r, d1)
        else case pendingColls d1 of
          [] \<Rightarrow> (commInternalError, d1)
        | p # ps \<Rightarrow>
            if p \<noteq> e then (commInternalError, d1)
            else if currentColl d1 \<noteq> None then (commInternalError, d1)
            else (commSuccess, d1\<lparr>currentColl := Some p, pendingColls := ps\<rparr>))"

text \<open>The loop that makes room; it takes the front of an empty queue if the size is 0.\<close>

fun evict :: "int \<Rightarrow> nat list \<Rightarrow> nat list option" where
  "evict k [] = (if 0 \<le> k \<and> k \<le> 0 then None else Some [])"
| "evict k (x # xs) = (if 0 \<le> k \<and> k \<le> int (length (x # xs)) then evict k xs else Some (x # xs))"

text \<open>\<^verbatim>\<open>afterCollKernelEnd\<close>\<close>

definition dump_ended :: "dump_cfg \<Rightarrow> nat \<Rightarrow> dump \<Rightarrow> (commResult \<times> dump) option" where
  "dump_ended cfg e d =
     (case enqueuePendingColls (pendingCollSize cfg + 1) d of (r, d1) \<Rightarrow>
        if r \<noteq> commSuccess then Some (r, d1)
        else if currentColl d1 \<noteq> Some e then Some (commInternalError, d1)
        else case evict (pastCollSize cfg) (pastColls d1) of
          None \<Rightarrow> None
        | Some xs \<Rightarrow> Some (commSuccess, d1\<lparr>pastColls := xs @ [e], currentColl := None\<rparr>))"

text \<open>\<^verbatim>\<open>dump\<close>: \<open>wl\<close> and \<open>rl\<close> tell whether the locks were had in time; the second is not checked.\<close>

definition dump_copy :: "dump_cfg \<Rightarrow> bool \<Rightarrow> bool \<Rightarrow> dump \<Rightarrow> (commResult \<times> dump \<times> (nat list \<times> nat option \<times> nat list)) option" where
  "dump_copy cfg wl rl d =
     (if newPendingColls d \<noteq> [] \<and> \<not> wl then Some (commInternalError, d, ([], None, []))
      else case (if newPendingColls d \<noteq> [] then enqueuePendingColls (pendingCollSize cfg + 1) d else (commSuccess, d)) of (r, d1) \<Rightarrow>
        if r \<noteq> commSuccess then Some (r, d1, ([], None, []))
        else if \<not> rl then None
        else Some (commSuccess, d1,
          case (currentColl d1, pendingColls d1) of
            (None, p # ps) \<Rightarrow> (pastColls d1, Some p, ps)
          | _ \<Rightarrow> (pastColls d1, currentColl d1, pendingColls d1)))"

section \<open>The watchdog\<close>

record wd_cfg =
  checkAsyncError :: bool
  checkTimeout :: bool
  wd_timeout :: nat

datatype alarm = AsyncError nat | Timeout nat

text \<open>\<open>lastEvent\<close> is an address, the alarms carry the id of the collective.\<close>

record watchdog =
  lastEvent :: "nat option"
  timer :: nat
  alarms :: "(nat \<times> alarm) list"

definition wd_new :: "nat \<Rightarrow> watchdog" where "wd_new now = \<lparr>lastEvent = None, timer = now, alarms = []\<rparr>"

text \<open>\<^verbatim>\<open>collEventProgressing\<close> for the event at \<open>a\<close> with the record \<open>e\<close>; \<open>err\<close> is \<^verbatim>\<open>funcIfError\<close>.\<close>

definition wd_progressing :: "wd_cfg \<Rightarrow> bool \<Rightarrow> nat \<Rightarrow> nat \<Rightarrow> nat \<Rightarrow> watchdog \<Rightarrow> watchdog" where
  "wd_progressing cfg err now a e w =
     (let w1 = (if checkAsyncError cfg \<and> err then w\<lparr>alarms := alarms w @ [(now, AsyncError e)]\<rparr> else w)
      in if checkTimeout cfg then
           (if lastEvent w1 = Some a \<and> timer w1 + wd_timeout cfg \<le> now then w1\<lparr>alarms := alarms w1 @ [(now, Timeout e)]\<rparr>
            else if lastEvent w1 \<noteq> Some a then w1\<lparr>lastEvent := Some a, timer := now\<rparr>
            else w1)
         else w1)"

section \<open>Plugins\<close>

datatype plugin = CommDump dump_cfg dump | Watchdog wd_cfg watchdog

definition plug_scheduled :: "nat \<Rightarrow> plugin \<Rightarrow> plugin" where
  "plug_scheduled e p = (case p of CommDump c d \<Rightarrow> CommDump c (snd (dump_scheduled c e d)) | Watchdog c w \<Rightarrow> p)"

definition plug_started :: "nat \<Rightarrow> plugin \<Rightarrow> plugin" where
  "plug_started e p = (case p of CommDump c d \<Rightarrow> CommDump c (snd (dump_started c e d)) | Watchdog c w \<Rightarrow> p)"

definition plug_progressing :: "bool \<Rightarrow> nat \<Rightarrow> nat \<Rightarrow> nat \<Rightarrow> plugin \<Rightarrow> plugin" where
  "plug_progressing err now a e p = (case p of CommDump c d \<Rightarrow> p | Watchdog c w \<Rightarrow> Watchdog c (wd_progressing c err now a e w))"

definition plug_ended :: "nat \<Rightarrow> plugin \<Rightarrow> plugin option" where
  "plug_ended e p =
     (case p of CommDump c d \<Rightarrow> map_option (\<lambda>(r, d1). CommDump c d1) (dump_ended c e d) | Watchdog c w \<Rightarrow> Some p)"

end
