(* ===== verification/Coll_Trace.thy ===== *)
theory Coll_Trace imports Coll_Plugins begin

text \<open>
  The tracer of collectives, \<^verbatim>\<open>comms/utils/colltrace\<close>: the events to wait for, the handles that users trigger, the enqueuing
  thread and the tracer's own thread, whose loop is cut at the points where it waits or tests for cancellation. An event lives at
  an address that the allocator chooses; its record and its handle are known by the id of the collective. The clock and the
  driver's answers are arguments. \<open>None\<close> is an access to an event that was destroyed, or another undefined behaviour.
\<close>

section \<open>Waiting for a collective\<close>

datatype cuda_res = QSuccess | QNotReady | QError

datatype cuda_status = unrecorded | recorded | finished

datatype wait_event = CPUWait bool bool | CudaWait cuda_status cuda_status

text \<open>\<^verbatim>\<open>CudaWaitPoint::recordEvent\<close>; \<open>ok\<close> is the driver's answer.\<close>

definition recordEvent :: "bool \<Rightarrow> cuda_status \<Rightarrow> commResult \<times> cuda_status" where
  "recordEvent ok s =
     (if s \<noteq> unrecorded then (commInternalError, s) else if \<not> ok then (commUnhandledCudaError, s) else (commSuccess, recorded))"

text \<open>The answers to the queries until the time is over.\<close>

fun waitCudaEventFinish :: "cuda_res list \<Rightarrow> commResult \<times> bool" where
  "waitCudaEventFinish [] = (commSuccess, False)"
| "waitCudaEventFinish [q] = (commSuccess, q = QSuccess)"
| "waitCudaEventFinish (q # qs) =
     (if q = QSuccess then (commSuccess, True) else if q \<noteq> QNotReady then (commUnhandledCudaError, False) else waitCudaEventFinish qs)"

definition waitEventFinish :: "cuda_res list \<Rightarrow> cuda_status \<Rightarrow> commResult \<times> bool \<times> cuda_status" where
  "waitEventFinish qs s =
     (case s of
        unrecorded \<Rightarrow> (commInternalError, False, s)
      | finished \<Rightarrow> (commSuccess, True, s)
      | recorded \<Rightarrow> (case waitCudaEventFinish qs of (r, b) \<Rightarrow> (r, b, if r = commSuccess \<and> b then finished else s)))"

definition beforeCollKernelScheduled :: "bool \<Rightarrow> wait_event \<Rightarrow> commResult \<times> wait_event" where
  "beforeCollKernelScheduled ok w =
     (case w of CPUWait s e \<Rightarrow> (commSuccess, w) | CudaWait s e \<Rightarrow> (case recordEvent ok s of (r, s1) \<Rightarrow> (r, CudaWait s1 e)))"

definition afterCollKernelScheduled :: "bool \<Rightarrow> wait_event \<Rightarrow> commResult \<times> wait_event" where
  "afterCollKernelScheduled ok w =
     (case w of CPUWait s e \<Rightarrow> (commSuccess, w) | CudaWait s e \<Rightarrow> (case recordEvent ok e of (r, e1) \<Rightarrow> (r, CudaWait s e1)))"

definition waitCollStart :: "cuda_res list \<Rightarrow> wait_event \<Rightarrow> commResult \<times> bool \<times> wait_event" where
  "waitCollStart qs w =
     (case w of CPUWait s e \<Rightarrow> (commSuccess, s, w) | CudaWait s e \<Rightarrow> (case waitEventFinish qs s of (r, b, s1) \<Rightarrow> (r, b, CudaWait s1 e)))"

definition waitCollEnd :: "cuda_res list \<Rightarrow> wait_event \<Rightarrow> commResult \<times> bool \<times> wait_event" where
  "waitCollEnd qs w =
     (case w of CPUWait s e \<Rightarrow> (commSuccess, e, w) | CudaWait s e \<Rightarrow> (case waitEventFinish qs e of (r, b, e1) \<Rightarrow> (r, b, CudaWait s e1)))"

definition signalCollStart :: "wait_event \<Rightarrow> wait_event" where
  "signalCollStart w = (case w of CPUWait s e \<Rightarrow> CPUWait True e | CudaWait s e \<Rightarrow> w)"

definition signalCollEnd :: "wait_event \<Rightarrow> wait_event" where
  "signalCollEnd w = (case w of CPUWait s e \<Rightarrow> CPUWait s True | CudaWait s e \<Rightarrow> w)"

section \<open>State\<close>

datatype trigger_state = BeforeEnqueueKernel | AfterEnqueueKernel | KernelStarted | KernelFinished | NumTriggerStates

record handle =
  h_event :: nat
  h_invalid :: bool
  h_last :: trigger_state

record coll_event =
  ev_id :: nat
  ev_wait :: wait_event

record timing =
  previousCollEndTs :: nat
  collEnqueueTs :: nat
  collStartTs :: nat
  collEndTs :: nat

definition timing_new :: timing where
  "timing_new = \<lparr>previousCollEndTs = 0, collEnqueueTs = 0, collStartTs = 0, collEndTs = 0\<rparr>"

text \<open>Where the tracer's thread is: at the head of its loop, reading the queue, waiting for the start of the event at an address, after it,
  waiting for the end, after it, ended.\<close>

datatype thread_phase = Head | Reading | WaitStart nat | GotStart nat | WaitEnd nat | GotEnd nat | Exited

record trace =
  nextCollId :: nat
  heap :: "nat \<rightharpoonup> coll_event"
  timings :: "nat \<Rightarrow> timing"
  pendingEnqueue :: "nat option"
  pendingTrace :: "nat list"
  maxPending :: nat
  handleMap :: "nat \<rightharpoonup> nat"
  handles :: "nat \<rightharpoonup> handle"
  lastCollEnd :: "nat option"
  shouldStop :: bool
  phase :: thread_phase
  plugins :: "plugin list"

definition trace_new :: "nat \<Rightarrow> plugin list \<Rightarrow> trace" where
  "trace_new m ps = \<lparr>nextCollId = 0, heap = Map.empty, timings = (\<lambda>i. timing_new), pendingEnqueue = None, pendingTrace = [], maxPending = m,
     handleMap = Map.empty, handles = Map.empty, lastCollEnd = None, shouldStop = False, phase = Head, plugins = ps\<rparr>"

section \<open>Handles and recording\<close>

definition invalidate :: "nat \<Rightarrow> trace \<Rightarrow> trace" where
  "invalidate h st = (case handles st h of None \<Rightarrow> st | Some x \<Rightarrow> st\<lparr>handles := (handles st)(h \<mapsto> x\<lparr>h_invalid := True\<rparr>)\<rparr>)"

text \<open>The handle of an event that is about to be destroyed.\<close>

definition release_handle :: "nat \<Rightarrow> trace \<Rightarrow> trace" where
  "release_handle a st =
     (case handleMap st a of None \<Rightarrow> st | Some h \<Rightarrow> (invalidate h st)\<lparr>handleMap := (handleMap st)(a := None)\<rparr>)"

text \<open>\<open>a\<close> is the address of the new event; \<open>meta\<close> and \<open>w\<close> can be null. The result is the handle.\<close>

definition recordCollective :: "nat \<Rightarrow> bool \<Rightarrow> wait_event option \<Rightarrow> trace \<Rightarrow> commResult \<times> nat option \<times> trace" where
  "recordCollective a meta w st =
     (if \<not> meta then (commInternalError, None, st)
      else case w of
        None \<Rightarrow> (commInternalError, None, st)
      | Some w \<Rightarrow>
          (let st1 = (case pendingEnqueue st of None \<Rightarrow> st | Some b \<Rightarrow> (release_handle b st)\<lparr>heap := (heap st)(b := None)\<rparr>); i = nextCollId st1
           in (commSuccess, Some i,
               st1\<lparr>nextCollId := i + 1, heap := (heap st1)(a \<mapsto> \<lparr>ev_id = i, ev_wait = w\<rparr>), timings := (timings st1)(i := timing_new), pendingEnqueue := Some a,
                 handles := (handles st1)(i \<mapsto> \<lparr>h_event = a, h_invalid = False, h_last = NumTriggerStates\<rparr>),
                 handleMap := (if handleMap st1 a = None then (handleMap st1)(a \<mapsto> i) else handleMap st1)\<rparr>)))"

definition checkTriggerStateValidity :: "trigger_state \<Rightarrow> trigger_state \<Rightarrow> commResult" where
  "checkTriggerStateValidity lst s =
     (if lst = NumTriggerStates then (if s \<noteq> BeforeEnqueueKernel then commInvalidArgument else commSuccess)
      else if lst = s then commInvalidArgument
      else if s = KernelStarted \<and> lst \<noteq> BeforeEnqueueKernel \<and> lst \<noteq> AfterEnqueueKernel \<or>
              s = KernelFinished \<and> lst \<noteq> KernelStarted \<and> lst \<noteq> BeforeEnqueueKernel \<and> lst \<noteq> AfterEnqueueKernel then commInvalidArgument
      else commSuccess)"

text \<open>\<open>ok\<close>: the driver's answer when an event is recorded.\<close>

definition triggerEventState :: "bool \<Rightarrow> nat \<Rightarrow> nat \<Rightarrow> trigger_state \<Rightarrow> trace \<Rightarrow> (commResult \<times> trace) option" where
  "triggerEventState ok now a s st =
     (case s of
        BeforeEnqueueKernel \<Rightarrow>
          if pendingEnqueue st \<noteq> Some a then Some (commInvalidUsage, st)
          else (case heap st a of
            None \<Rightarrow> None
          | Some e \<Rightarrow> (case beforeCollKernelScheduled ok (ev_wait e) of (r, w) \<Rightarrow> Some (r, st\<lparr>heap := (heap st)(a \<mapsto> e\<lparr>ev_wait := w\<rparr>)\<rparr>)))
      | AfterEnqueueKernel \<Rightarrow>
          if pendingEnqueue st \<noteq> Some a then Some (commInvalidUsage, st)
          else (case heap st a of
            None \<Rightarrow> None
          | Some e \<Rightarrow>
              (case afterCollKernelScheduled ok (ev_wait e) of (r, w) \<Rightarrow>
                 let i = ev_id e;
                     st1 = st\<lparr>plugins := map (plug_scheduled i) (plugins st), heap := (heap st)(a \<mapsto> e\<lparr>ev_wait := w\<rparr>)\<rparr>
                 in if r \<noteq> commSuccess then Some (r, st1)
                    else let st2 = st1\<lparr>timings := (timings st1)(i := (timings st1 i)\<lparr>collEnqueueTs := now\<rparr>)\<rparr>
                         in if length (pendingTrace st2) < maxPending st2
                            then Some (commSuccess, st2\<lparr>pendingTrace := pendingTrace st2 @ [a], pendingEnqueue := None\<rparr>)
                            else if handleMap st2 a = None then None
                            else Some (commInternalError, (release_handle a st2)\<lparr>pendingEnqueue := None, heap := (heap st2)(a := None)\<rparr>)))
      | KernelStarted \<Rightarrow>
          (case heap st a of None \<Rightarrow> None | Some e \<Rightarrow> Some (commSuccess, st\<lparr>heap := (heap st)(a \<mapsto> e\<lparr>ev_wait := signalCollStart (ev_wait e)\<rparr>)\<rparr>))
      | KernelFinished \<Rightarrow>
          (case heap st a of None \<Rightarrow> None | Some e \<Rightarrow> Some (commSuccess, st\<lparr>heap := (heap st)(a \<mapsto> e\<lparr>ev_wait := signalCollEnd (ev_wait e)\<rparr>)\<rparr>))
      | NumTriggerStates \<Rightarrow> Some (commInternalError, st))"

text \<open>A call with something that is not a handle is \<open>None\<close>.\<close>

definition trigger :: "bool \<Rightarrow> nat \<Rightarrow> nat \<Rightarrow> trigger_state \<Rightarrow> trace \<Rightarrow> (commResult \<times> trace) option" where
  "trigger ok now h s st =
     (case handles st h of
        None \<Rightarrow> None
      | Some x \<Rightarrow>
          if h_invalid x then Some (commInvalidArgument, st)
          else let c = checkTriggerStateValidity (h_last x) s
               in if c \<noteq> commSuccess then Some (c, st)
                  else case triggerEventState ok now (h_event x) s st of
                    None \<Rightarrow> None
                  | Some (r, st1) \<Rightarrow>
                      Some (r, if r = commSuccess then st1\<lparr>handles := (handles st1)(h := map_option (\<lambda>y. y\<lparr>h_last := s\<rparr>) (handles st1 h))\<rparr> else st1))"

definition getCollRecord :: "nat \<Rightarrow> trace \<Rightarrow> (commResult \<times> nat option) option" where
  "getCollRecord h st =
     (case handles st h of
        None \<Rightarrow> None
      | Some x \<Rightarrow>
          if h_invalid x then Some (commInvalidArgument, None)
          else case heap st (h_event x) of None \<Rightarrow> None | Some e \<Rightarrow> Some (commSuccess, Some (ev_id e)))"

section \<open>The tracer's thread\<close>

definition triggerPlugins :: "(plugin \<Rightarrow> plugin option) \<Rightarrow> trace \<Rightarrow> trace option" where
  "triggerPlugins f st = map_option (\<lambda>ps. st\<lparr>plugins := ps\<rparr>) (those (map f (plugins st)))"

text \<open>The end of a round with the event at \<open>a\<close>: its handle is released, then it is destroyed.\<close>

definition finish_event :: "nat \<Rightarrow> thread_phase \<Rightarrow> trace \<Rightarrow> trace" where
  "finish_event a ph st = (release_handle a st)\<lparr>heap := (heap st)(a := None), phase := ph\<rparr>"

text \<open>The body of the two loops that wait, for the event at \<open>a\<close>: \<open>wait\<close> is the wait for its start or its end, \<open>got\<close> the next phase.\<close>

definition wait_round ::
  "(wait_event \<Rightarrow> commResult \<times> bool \<times> wait_event) \<Rightarrow> thread_phase \<Rightarrow> bool \<Rightarrow> nat \<Rightarrow> nat \<Rightarrow> trace \<Rightarrow> trace option" where
  "wait_round wait got err now a st =
     (if shouldStop st then Some (finish_event a Exited st)
      else case heap st a of
        None \<Rightarrow> None
      | Some e \<Rightarrow>
          (case wait (ev_wait e) of (r, b, w) \<Rightarrow>
             let st1 = st\<lparr>heap := (heap st)(a \<mapsto> e\<lparr>ev_wait := w\<rparr>), plugins := map (plug_progressing err now a (ev_id e)) (plugins st)\<rparr>
             in if r \<noteq> commSuccess then Some (finish_event a Head st1)
                else if b then Some (st1\<lparr>phase := got\<rparr>) else Some st1))"

text \<open>
  One step of \<^verbatim>\<open>collTraceThread\<close>. An event that is read when the thread is cancelled is destroyed without releasing its handle.
\<close>

definition thread_step :: "cuda_res list \<Rightarrow> bool \<Rightarrow> nat \<Rightarrow> trace \<Rightarrow> trace option" where
  "thread_step qs err now st =
     (case phase st of
        Head \<Rightarrow> Some (st\<lparr>phase := if shouldStop st then Exited else Reading\<rparr>)
      | Reading \<Rightarrow>
          (case pendingTrace st of
             [] \<Rightarrow> Some (if shouldStop st then st\<lparr>phase := Exited\<rparr> else st)
           | a # as \<Rightarrow>
               if shouldStop st then Some (st\<lparr>pendingTrace := as, heap := (heap st)(a := None), phase := Exited\<rparr>)
               else case heap st a of
                 None \<Rightarrow> None
               | Some e \<Rightarrow>
                   Some (st\<lparr>pendingTrace := as, phase := WaitStart a,
                     timings := (case lastCollEnd st of None \<Rightarrow> timings st
                       | Some t \<Rightarrow> (timings st)(ev_id e := (timings st (ev_id e))\<lparr>previousCollEndTs := t\<rparr>))\<rparr>))
      | WaitStart a \<Rightarrow> wait_round (waitCollStart qs) (GotStart a) err now a st
      | GotStart a \<Rightarrow>
          if shouldStop st then Some (finish_event a Exited st)
          else (case heap st a of
            None \<Rightarrow> None
          | Some e \<Rightarrow>
              Some (st\<lparr>timings := (timings st)(ev_id e := (timings st (ev_id e))\<lparr>collStartTs := now\<rparr>),
                plugins := map (plug_started (ev_id e)) (plugins st), phase := WaitEnd a\<rparr>))
      | WaitEnd a \<Rightarrow> wait_round (waitCollEnd qs) (GotEnd a) err now a st
      | GotEnd a \<Rightarrow>
          if shouldStop st then Some (finish_event a Exited st)
          else (case heap st a of
            None \<Rightarrow> None
          | Some e \<Rightarrow>
              map_option (finish_event a Head)
                (triggerPlugins (plug_ended (ev_id e))
                  (st\<lparr>timings := (timings st)(ev_id e := (timings st (ev_id e))\<lparr>collEndTs := now\<rparr>), lastCollEnd := Some now\<rparr>)))
      | Exited \<Rightarrow> Some st)"

section \<open>Destruction\<close>

text \<open>The destructor: it asks the thread to stop, then invalidates the handles in the map, then waits for the thread.\<close>

definition request_stop :: "trace \<Rightarrow> trace" where "request_stop st = st\<lparr>shouldStop := True\<rparr>"

definition invalidate_all :: "trace \<Rightarrow> trace" where
  "invalidate_all st = st\<lparr>handles := (\<lambda>h. map_option (\<lambda>x. if handleMap st (h_event x) = Some h then x\<lparr>h_invalid := True\<rparr> else x) (handles st h))\<rparr>"

text \<open>\<^verbatim>\<open>getCollectiveStateStr\<close> of the watchdog; a time of 0 is not set.\<close>

definition getCollectiveStateStr :: "timing \<Rightarrow> string" where
  "getCollectiveStateStr t =
     (if collEndTs t \<noteq> 0 then ''Finished'' else if collStartTs t \<noteq> 0 then ''Kernel Running''
      else if collEnqueueTs t \<noteq> 0 then ''Kernel Not Started'' else ''Not Scheduled'')"

end
