(* ===== verification/Coll_Run.thy ===== *)
theory Coll_Run imports Coll_Trace "HOL-Library.Multiset" begin

text \<open>
  Runs of the tracer of collectives: which handles are safe to use, what the dump shows, and where it gets stuck.
\<close>

section \<open>Events, handles and addresses\<close>

fun cur_of :: "thread_phase \<Rightarrow> nat list" where
  "cur_of (WaitStart a) = [a]" | "cur_of (GotStart a) = [a]" | "cur_of (WaitEnd a) = [a]" | "cur_of (GotEnd a) = [a]" | "cur_of p = []"

definition pending_of :: "nat option \<Rightarrow> nat list" where "pending_of x = (case x of None \<Rightarrow> [] | Some a \<Rightarrow> [a])"

lemma pending_of_simps [simp]: "pending_of None = []" "pending_of (Some a) = [a]" by (simp_all add: pending_of_def)

definition live_events :: "trace \<Rightarrow> nat list" where
  "live_events st = pending_of (pendingEnqueue st) @ pendingTrace st @ cur_of (phase st)"

definition event_ids :: "trace \<Rightarrow> nat \<rightharpoonup> nat" where "event_ids st a = map_option ev_id (heap st a)"

definition valids :: "trace \<Rightarrow> nat \<rightharpoonup> nat \<times> bool" where "valids st h = map_option (\<lambda>x. (h_event x, h_invalid x)) (handles st h)"

text \<open>\<open>H\<close>: the ids of the events by address, \<open>M\<close>: the map of handles, \<open>S\<close>: the handles, \<open>n\<close>: the next id, \<open>L\<close>: the live events.\<close>

definition shape_inv :: "(nat \<rightharpoonup> nat) \<Rightarrow> (nat \<rightharpoonup> nat) \<Rightarrow> (nat \<rightharpoonup> nat \<times> bool) \<Rightarrow> nat \<Rightarrow> nat list \<Rightarrow> bool" where
  "shape_inv H M S n L \<longleftrightarrow> distinct L \<and> dom H = set L \<and> M = H \<and> (\<forall>a i. H a = Some i \<longrightarrow> S i = Some (a, False)) \<and>
     (\<forall>h a. S h = Some (a, False) \<longrightarrow> H a = Some h) \<and> dom S = {..<n}"

definition trace_inv :: "trace \<Rightarrow> bool" where
  "trace_inv st \<longleftrightarrow> shape_inv (event_ids st) (handleMap st) (valids st) (nextCollId st) (live_events st) \<and> \<not> shouldStop st \<and> phase st \<noteq> Exited"

lemma shape_invD:
  assumes "shape_inv H M S n L"
  shows "distinct L" "dom H = set L" "M = H" "\<And>a i. H a = Some i \<Longrightarrow> S i = Some (a, False)"
    "\<And>h a. S h = Some (a, False) \<Longrightarrow> H a = Some h" "dom S = {..<n}"
  using assms unfolding shape_inv_def by blast+

lemma shape_inv_live: "shape_inv H M S n L \<Longrightarrow> mset L' = mset L \<Longrightarrow> shape_inv H M S n L'"
  unfolding shape_inv_def using mset_eq_setD mset_eq_imp_distinct_iff by metis

lemma shape_inv_remove:
  assumes v: "shape_inv H M S n L" and i: "H a = Some i" and L: "mset L = add_mset a (mset L')"
  shows "shape_inv (H(a := None)) (M(a := None)) (S(i \<mapsto> (a, True))) n L'"
proof -
  note V = shape_invD [OF v]
  have d: "distinct (a # L')" using V(1) mset_eq_imp_distinct_iff [of L "a # L'"] L by simp
  have "set L = set (a # L')" by (rule mset_eq_setD) (simp add: L)
  then have s: "dom (H(a := None)) = set L'" using V(2) d by auto
  have "i < n" using V(4) [OF i] V(6) by blast
  then have n: "dom (S(i \<mapsto> (a, True))) = {..<n}" using V(6) by auto
  have f: "(S(i \<mapsto> (a, True))) j = Some (b, False)" if h: "(H(a := None)) b = Some j" for b j
  proof -
    have b: "b \<noteq> a" "H b = Some j" using h by (simp_all split: if_splits)
    then have "j \<noteq> i" using V(4) [OF b(2)] V(4) [OF i] by auto
    then show ?thesis using V(4) [OF b(2)] by simp
  qed
  have g: "(H(a := None)) b = Some h" if h: "(S(i \<mapsto> (a, True))) h = Some (b, False)" for h b
  proof -
    have b: "h \<noteq> i" "S h = Some (b, False)" using h by (simp_all split: if_splits)
    then have "b \<noteq> a" using V(5) [OF b(2)] i by auto
    then show ?thesis using V(5) [OF b(2)] by simp
  qed
  have d': "distinct L'" using d by simp
  show ?thesis unfolding shape_inv_def V(3) by (intro conjI allI impI d' s n refl) (erule f, erule g)
qed

lemma shape_inv_add:
  assumes v: "shape_inv H M S n L" and i: "H a = None" and L: "mset L' = add_mset a (mset L)"
  shows "shape_inv (H(a \<mapsto> n)) (M(a \<mapsto> n)) (S(n \<mapsto> (a, False))) (Suc n) L'"
proof -
  note V = shape_invD [OF v]
  have n: "S n = None" using V(6) by auto
  have "a \<notin> set L" using V(2) i by auto
  then have d: "distinct (a # L)" using V(1) by simp
  have "shape_inv (H(a \<mapsto> n)) (M(a \<mapsto> n)) (S(n \<mapsto> (a, False))) (Suc n) (a # L)"
    unfolding shape_inv_def
  proof (intro conjI allI impI)
    show "dom (S(n \<mapsto> (a, False))) = {..<Suc n}" using V(6) by auto
    show "(S(n \<mapsto> (a, False))) j = Some (b, False)" if "(H(a \<mapsto> n)) b = Some j" for b j
      using that V(4) [of b j] n by (auto split: if_splits)
    show "(H(a \<mapsto> n)) b = Some h" if "(S(n \<mapsto> (a, False))) h = Some (b, False)" for h b
      using that V(5) [of h b] i by (auto split: if_splits)
  qed (use d V(2,3) in auto)
  then show ?thesis by (rule shape_inv_live) (simp add: L)
qed

text \<open>The state after a change that leaves the shape alone.\<close>

lemma trace_inv_same:
  assumes "trace_inv st" "event_ids st' = event_ids st" "handleMap st' = handleMap st" "valids st' = valids st" "nextCollId st' = nextCollId st"
    "mset (live_events st') = mset (live_events st)" "shouldStop st' = shouldStop st" "phase st' \<noteq> Exited"
  shows "trace_inv st'"
  using assms shape_inv_live unfolding trace_inv_def by metis

lemma ids_wait: "heap st a = Some e \<Longrightarrow> (\<lambda>b. map_option ev_id (((heap st)(a \<mapsto> e\<lparr>ev_wait := w\<rparr>)) b)) = event_ids st"
  by (auto simp: event_ids_def fun_eq_iff)

lemma invalidate_fields [simp]:
  "heap (invalidate h st) = heap st" "handleMap (invalidate h st) = handleMap st" "nextCollId (invalidate h st) = nextCollId st"
  "pendingEnqueue (invalidate h st) = pendingEnqueue st" "pendingTrace (invalidate h st) = pendingTrace st" "phase (invalidate h st) = phase st"
  "shouldStop (invalidate h st) = shouldStop st" "plugins (invalidate h st) = plugins st" "timings (invalidate h st) = timings st"
  "maxPending (invalidate h st) = maxPending st" "lastCollEnd (invalidate h st) = lastCollEnd st"
  by (simp_all add: invalidate_def split: option.split)

lemma release_fields [simp]:
  "heap (release_handle a st) = heap st" "nextCollId (release_handle a st) = nextCollId st"
  "pendingEnqueue (release_handle a st) = pendingEnqueue st" "pendingTrace (release_handle a st) = pendingTrace st" "phase (release_handle a st) = phase st"
  "shouldStop (release_handle a st) = shouldStop st" "plugins (release_handle a st) = plugins st" "timings (release_handle a st) = timings st"
  "maxPending (release_handle a st) = maxPending st" "lastCollEnd (release_handle a st) = lastCollEnd st"
  by (simp_all add: release_handle_def split: option.split)

lemma release_shape:
  assumes "shape_inv (event_ids st) (handleMap st) (valids st) n L" "event_ids st a = Some i"
  shows "handleMap (release_handle a st) = (handleMap st)(a := None) \<and> valids (release_handle a st) = (valids st)(i \<mapsto> (a, True))"
proof -
  note V = shape_invD [OF assms(1)]
  have m: "handleMap st a = Some i" using V(3) assms(2) by simp
  obtain x where x: "handles st i = Some x" "h_event x = a" using V(4) [OF assms(2)] by (auto simp: valids_def)
  show ?thesis using x by (auto simp: release_handle_def m invalidate_def valids_def fun_eq_iff)
qed

text \<open>An event is released and destroyed.\<close>

lemma destroy_inv:
  assumes v: "shape_inv (event_ids st) (handleMap st) (valids st) (nextCollId st) L" and e: "heap st a = Some e"
    and s: "heap st' = (heap st)(a := None)" "handleMap st' = handleMap (release_handle a st)" "handles st' = handles (release_handle a st)"
      "nextCollId st' = nextCollId st" and L: "mset L = add_mset a (mset (live_events st'))" and p: "\<not> shouldStop st'" "phase st' \<noteq> Exited"
  shows "trace_inv st'"
proof -
  have i: "event_ids st a = Some (ev_id e)" by (simp add: event_ids_def e)
  note R = release_shape [OF v i]
  have "event_ids st' = (event_ids st)(a := None)" by (auto simp: event_ids_def s(1) fun_eq_iff)
  moreover have "valids st' = (valids st)(ev_id e \<mapsto> (a, True))" using R by (simp add: valids_def s(3) fun_eq_iff)
  ultimately show ?thesis using shape_inv_remove [OF v i L] R p unfolding trace_inv_def by (simp add: s(2,4))
qed

lemma heap_live: "trace_inv st \<Longrightarrow> a \<in> set (live_events st) \<Longrightarrow> \<exists>e. heap st a = Some e"
  unfolding trace_inv_def using shape_invD(2) by (fastforce simp: event_ids_def)

section \<open>Every operation keeps the invariant\<close>

lemma record_inv:
  assumes v: "trace_inv st" and a: "heap st a = None" and e: "recordCollective a meta w st = (r, h, st')"
  shows "trace_inv st'"
proof (cases "meta \<and> w \<noteq> None")
  case False
  then show ?thesis using e v by (auto simp: recordCollective_def split: option.splits)
next
  case True
  then obtain w' where w: "w = Some w'" by blast
  define st1 where "st1 = (case pendingEnqueue st of None \<Rightarrow> st | Some b \<Rightarrow> (release_handle b st)\<lparr>heap := (heap st)(b := None)\<rparr>)"
  have v1: "trace_inv (st1\<lparr>pendingEnqueue := None\<rparr>)"
  proof (cases "pendingEnqueue st")
    case None
    then have "st1\<lparr>pendingEnqueue := None\<rparr> = st" by (simp add: st1_def)
    then show ?thesis using v by simp
  next
    case (Some b)
    then obtain x where x: "heap st b = Some x" using heap_live [OF v, of b] by (auto simp: live_events_def)
    show ?thesis
      by (rule destroy_inv [of st "live_events st" b x]) (use v x Some in \<open>simp_all add: trace_inv_def st1_def live_events_def\<close>)
  qed
  then have V: "shape_inv (event_ids st1) (handleMap st1) (valids st1) (nextCollId st1) (pendingTrace st1 @ cur_of (phase st1))"
    "\<not> shouldStop st1" "phase st1 \<noteq> Exited"
    by (simp_all add: trace_inv_def event_ids_def [abs_def] valids_def [abs_def] live_events_def)
  have a1: "event_ids st1 a = None" using a by (auto simp: st1_def event_ids_def split: option.split)
  have m: "handleMap st1 a = None" using shape_invD(3) [OF V(1)] a1 by simp
  have n: "nextCollId st1 = nextCollId st" by (simp add: st1_def split: option.split)
  let ?i = "nextCollId st1"
  have s: "st' = st1\<lparr>nextCollId := ?i + 1, heap := (heap st1)(a \<mapsto> \<lparr>ev_id = ?i, ev_wait = w'\<rparr>), timings := (timings st1)(?i := timing_new), pendingEnqueue := Some a,
       handles := (handles st1)(?i \<mapsto> \<lparr>h_event = a, h_invalid = False, h_last = NumTriggerStates\<rparr>), handleMap := (handleMap st1)(a \<mapsto> ?i)\<rparr>"
    using e True w m unfolding recordCollective_def st1_def [symmetric] by (auto simp: Let_def)
  have "shape_inv ((event_ids st1)(a \<mapsto> ?i)) ((handleMap st1)(a \<mapsto> ?i)) ((valids st1)(?i \<mapsto> (a, False))) (Suc ?i) (a # pendingTrace st1 @ cur_of (phase st1))"
    by (rule shape_inv_add [OF V(1) a1]) simp
  moreover have "event_ids st' = (event_ids st1)(a \<mapsto> ?i)" "valids st' = (valids st1)(?i \<mapsto> (a, False))" by (auto simp: s event_ids_def valids_def fun_eq_iff)
  ultimately show ?thesis using V(2,3) by (simp add: trace_inv_def s live_events_def)
qed

lemma wait_upd_inv:
  assumes v: "trace_inv st" and e: "heap st a = Some e" and s: "heap st' = (heap st)(a \<mapsto> e\<lparr>ev_wait := w\<rparr>)" "handleMap st' = handleMap st"
    "handles st' = handles st" "nextCollId st' = nextCollId st" "mset (live_events st') = mset (live_events st)" "shouldStop st' = shouldStop st" "phase st' \<noteq> Exited"
  shows "trace_inv st'"
  by (rule trace_inv_same [OF v]) (use s ids_wait [OF e, of w] in \<open>simp_all add: event_ids_def [abs_def] valids_def [abs_def]\<close>)

lemma triggerEvent_inv:
  assumes v: "trace_inv st" and l: "heap st a = Some x"
  shows "\<exists>r st'. triggerEventState ok now a s st = Some (r, st') \<and> trace_inv st'"
proof -
  have ph: "phase st \<noteq> Exited" using v by (simp add: trace_inv_def)
  note W = wait_upd_inv [OF v l]
  show ?thesis
  proof (cases s)
    case BeforeEnqueueKernel
    obtain r w where b: "beforeCollKernelScheduled ok (ev_wait x) = (r, w)" by (cases "beforeCollKernelScheduled ok (ev_wait x)")
    have "trace_inv (st\<lparr>heap := (heap st)(a \<mapsto> x\<lparr>ev_wait := w\<rparr>)\<rparr>)" by (rule W [of _ w]) (use ph in \<open>simp_all add: live_events_def\<close>)
    then show ?thesis using v l b BeforeEnqueueKernel by (simp add: triggerEventState_def)
  next
    case AfterEnqueueKernel
    show ?thesis
    proof (cases "pendingEnqueue st = Some a")
      case False
      then show ?thesis using v AfterEnqueueKernel by (simp add: triggerEventState_def)
    next
      case p: True
      obtain r w where b: "afterCollKernelScheduled ok (ev_wait x) = (r, w)" by (cases "afterCollKernelScheduled ok (ev_wait x)")
      let ?i = "ev_id x"
      let ?st1 = "st\<lparr>plugins := map (plug_scheduled ?i) (plugins st), heap := (heap st)(a \<mapsto> x\<lparr>ev_wait := w\<rparr>)\<rparr>"
      let ?st2 = "?st1\<lparr>timings := (timings ?st1)(?i := (timings ?st1 ?i)\<lparr>collEnqueueTs := now\<rparr>)\<rparr>"
      have v2: "trace_inv ?st1" "trace_inv ?st2" by (rule W [of _ w], use ph in \<open>simp_all add: live_events_def\<close>)+
      show ?thesis
      proof (cases "r = commSuccess")
        case False
        then show ?thesis using v2(1) p l b AfterEnqueueKernel by (simp add: triggerEventState_def Let_def)
      next
        case r: True
        show ?thesis
        proof (cases "length (pendingTrace st) < maxPending st")
          case True
          have "trace_inv (?st2\<lparr>pendingTrace := pendingTrace st @ [a], pendingEnqueue := None\<rparr>)"
            by (rule W [of _ w]) (use ph p in \<open>simp_all add: live_events_def\<close>)
          then show ?thesis using True r p l b AfterEnqueueKernel by (simp add: triggerEventState_def Let_def)
        next
          case False
          have h2: "heap ?st2 a = Some (x\<lparr>ev_wait := w\<rparr>)" by simp
          have m: "handleMap st a = Some ?i" using v l unfolding trace_inv_def by (auto dest!: shape_invD(3) simp: event_ids_def)
          have "trace_inv ((release_handle a ?st2)\<lparr>pendingEnqueue := None, heap := (heap ?st2)(a := None)\<rparr>)"
            by (rule destroy_inv [OF _ h2, of "live_events ?st2"]) (use v2(2) p in \<open>simp_all add: trace_inv_def live_events_def\<close>)
          then show ?thesis using False r p l b m AfterEnqueueKernel by (simp add: triggerEventState_def Let_def)
        qed
      qed
    qed
  next
    case KernelStarted
    have "trace_inv (st\<lparr>heap := (heap st)(a \<mapsto> x\<lparr>ev_wait := signalCollStart (ev_wait x)\<rparr>)\<rparr>)"
      by (rule W [of _ "signalCollStart (ev_wait x)"]) (use ph in \<open>simp_all add: live_events_def\<close>)
    then show ?thesis using l KernelStarted by (simp add: triggerEventState_def)
  next
    case KernelFinished
    have "trace_inv (st\<lparr>heap := (heap st)(a \<mapsto> x\<lparr>ev_wait := signalCollEnd (ev_wait x)\<rparr>)\<rparr>)"
      by (rule W [of _ "signalCollEnd (ev_wait x)"]) (use ph in \<open>simp_all add: live_events_def\<close>)
    then show ?thesis using l KernelFinished by (simp add: triggerEventState_def)
  next
    case NumTriggerStates
    then show ?thesis using v by (simp add: triggerEventState_def)
  qed
qed

lemma valid_handle:
  assumes v: "trace_inv st" and h: "handles st h = Some x" "\<not> h_invalid x"
  obtains e where "heap st (h_event x) = Some e" "ev_id e = h"
proof -
  have "valids st h = Some (h_event x, False)" using h by (simp add: valids_def)
  then have "event_ids st (h_event x) = Some h" using v unfolding trace_inv_def by (auto dest: shape_invD(5))
  then show ?thesis using that by (auto simp: event_ids_def)
qed

lemma trigger_inv:
  assumes v: "trace_inv st" and h: "handles st h = Some x"
  shows "\<exists>r st'. trigger ok now h s st = Some (r, st') \<and> trace_inv st'"
proof (cases "h_invalid x \<or> checkTriggerStateValidity (h_last x) s \<noteq> commSuccess")
  case True
  then show ?thesis using v h by (auto simp: trigger_def Let_def)
next
  case False
  obtain e where e: "heap st (h_event x) = Some e" "ev_id e = h" by (rule valid_handle [OF v h]) (use False in blast)+
  obtain r st1 where t: "triggerEventState ok now (h_event x) s st = Some (r, st1)" "trace_inv st1"
    using triggerEvent_inv [OF v e(1)] by blast
  have "trace_inv (st1\<lparr>handles := (handles st1)(h := map_option (\<lambda>y. y\<lparr>h_last := s\<rparr>) (handles st1 h))\<rparr>)"
    by (rule trace_inv_same [OF t(2)])
      (use t(2) in \<open>auto simp: valids_def [abs_def] event_ids_def [abs_def] live_events_def fun_eq_iff trace_inv_def option.map_comp comp_def\<close>)
  then show ?thesis using t h False by (auto simp: trigger_def Let_def)
qed

lemma plug_list_same: "trace_inv st \<Longrightarrow> trace_inv (st\<lparr>plugins := ps\<rparr>)"
  by (rule trace_inv_same [of st]) (simp_all add: valids_def [abs_def] event_ids_def [abs_def] live_events_def trace_inv_def)

lemma wait_round_inv:
  assumes v: "trace_inv st" and c: "cur_of (phase st) = [a]" "cur_of got = [a]" "got \<noteq> Exited"
  shows "\<exists>st'. wait_round wait got err now a st = Some st' \<and> trace_inv st'"
proof -
  obtain x where x: "heap st a = Some x" using heap_live [OF v, of a] c(1) by (auto simp: live_events_def)
  obtain r b w where w: "wait (ev_wait x) = (r, b, w)" by (cases "wait (ev_wait x)")
  let ?st1 = "st\<lparr>heap := (heap st)(a \<mapsto> x\<lparr>ev_wait := w\<rparr>), plugins := map (plug_progressing err now a (ev_id x)) (plugins st)\<rparr>"
  have S: "\<not> shouldStop st" "phase st \<noteq> Exited" using v by (simp_all add: trace_inv_def)
  have v1: "trace_inv ?st1" "trace_inv (?st1\<lparr>phase := got\<rparr>)"
    by (rule wait_upd_inv [OF v x, of _ w], use S c in \<open>simp_all add: live_events_def\<close>)+
  have "trace_inv (finish_event a Head ?st1)"
    by (rule destroy_inv [of ?st1 "live_events ?st1" a "x\<lparr>ev_wait := w\<rparr>"])
      (use v1(1) S c in \<open>simp_all add: trace_inv_def finish_event_def live_events_def\<close>)
  then show ?thesis using v1 w x S by (simp add: wait_round_def Let_def)
qed

lemma those_Some: "(\<And>x. x \<in> set xs \<Longrightarrow> f x \<noteq> None) \<Longrightarrow> \<exists>ys. those (map f xs) = Some ys"
  by (induction xs) (fastforce split: option.split)+

text \<open>A dump of size 0 would be undefined.\<close>

definition sizes_ok :: "plugin list \<Rightarrow> bool" where
  "sizes_ok ps \<longleftrightarrow> (\<forall>p \<in> set ps. case p of CommDump c d \<Rightarrow> pastCollSize c \<noteq> 0 | Watchdog c w \<Rightarrow> True)"

lemma evict_some: "k \<noteq> 0 \<Longrightarrow> \<exists>ys. evict k xs = Some ys"
  by (induction k xs rule: evict.induct) auto

lemma plug_ended_some: "(case p of CommDump c d \<Rightarrow> pastCollSize c \<noteq> 0 | Watchdog c w \<Rightarrow> True) \<Longrightarrow> plug_ended e p \<noteq> None"
  using evict_some by (cases p) (auto simp: plug_ended_def dump_ended_def split: prod.split option.split, metis option.distinct(1))

lemma thread_inv:
  assumes v: "trace_inv st" and z: "sizes_ok (plugins st) \<or> thread_step qs err now st \<noteq> None"
  shows "\<exists>st'. thread_step qs err now st = Some st' \<and> trace_inv st'"
proof -
  have S: "\<not> shouldStop st" "phase st \<noteq> Exited" using v by (simp_all add: trace_inv_def)
  show ?thesis
  proof (cases "phase st")
    case Head
    have "trace_inv (st\<lparr>phase := Reading\<rparr>)"
      by (rule trace_inv_same [OF v]) (use Head in \<open>simp_all add: valids_def [abs_def] event_ids_def [abs_def] live_events_def\<close>)
    then show ?thesis using Head S by (simp add: thread_step_def)
  next
    case Reading
    show ?thesis
    proof (cases "pendingTrace st")
      case Nil
      then show ?thesis using Reading S v by (simp add: thread_step_def)
    next
      case (Cons a as)
      then obtain x where x: "heap st a = Some x" using heap_live [OF v, of a] by (auto simp: live_events_def)
      have "trace_inv (st\<lparr>pendingTrace := as, phase := WaitStart a, timings := t\<rparr>)" for t
        by (rule trace_inv_same [OF v]) (use Reading Cons in \<open>simp_all add: valids_def [abs_def] event_ids_def [abs_def] live_events_def\<close>)
      then show ?thesis using Reading Cons S x by (simp add: thread_step_def)
    qed
  next
    case (WaitStart a)
    then show ?thesis using wait_round_inv [OF v, of a "GotStart a"] by (simp add: thread_step_def)
  next
    case (GotStart a)
    then obtain x where x: "heap st a = Some x" using heap_live [OF v, of a] by (auto simp: live_events_def)
    have "trace_inv (st\<lparr>timings := t, plugins := ps, phase := WaitEnd a\<rparr>)" for t ps
      by (rule trace_inv_same [OF v]) (use GotStart in \<open>simp_all add: valids_def [abs_def] event_ids_def [abs_def] live_events_def\<close>)
    then show ?thesis using GotStart S x by (simp add: thread_step_def)
  next
    case (WaitEnd a)
    then show ?thesis using wait_round_inv [OF v, of a "GotEnd a"] by (simp add: thread_step_def)
  next
    case (GotEnd a)
    then obtain x where x: "heap st a = Some x" using heap_live [OF v, of a] by (auto simp: live_events_def)
    obtain ps where ps: "those (map (plug_ended (ev_id x)) (plugins st)) = Some ps"
    proof (cases "sizes_ok (plugins st)")
      case True
      then show ?thesis using that those_Some [of "plugins st" "plug_ended (ev_id x)"] plug_ended_some unfolding sizes_ok_def by blast
    next
      case False
      then show ?thesis using that z GotEnd S x by (auto simp: thread_step_def triggerPlugins_def)
    qed
    let ?st1 = "st\<lparr>timings := (timings st)(ev_id x := (timings st (ev_id x))\<lparr>collEndTs := now\<rparr>), lastCollEnd := Some now, plugins := ps\<rparr>"
    have v1: "trace_inv ?st1"
      by (rule trace_inv_same [OF v]) (use S in \<open>simp_all add: valids_def [abs_def] event_ids_def [abs_def] live_events_def\<close>)
    have x1: "heap ?st1 a = Some x" using x by simp
    have "trace_inv (finish_event a Head ?st1)"
      by (rule destroy_inv [OF _ x1, of "live_events ?st1"]) (use v1 GotEnd in \<open>simp_all add: trace_inv_def finish_event_def live_events_def\<close>)
    then show ?thesis using GotEnd S x ps by (simp add: thread_step_def triggerPlugins_def)
  next
    case Exited
    then show ?thesis using S by simp
  qed
qed

section \<open>Runs\<close>

text \<open>
  The steps before the destructor: recording at a free address, triggers by any thread, steps of the tracer's thread, and dumps by any
  of the plugins. The enqueuing thread and the tracer's thread share the queue and the plugins; a trigger and the thread's steps
  between its two halves commute, so a trigger is one step.
\<close>

inductive trace_step :: "trace \<Rightarrow> trace \<Rightarrow> bool" where
  recording: "heap st a = None \<Longrightarrow> recordCollective a meta w st = (r, h, st') \<Longrightarrow> trace_step st st'"
| trigger: "trigger ok now h s st = Some (r, st') \<Longrightarrow> trace_step st st'"
| thread: "thread_step qs err now st = Some st' \<Longrightarrow> trace_step st st'"
| dump: "i < length (plugins st) \<Longrightarrow> plugins st ! i = CommDump c d \<Longrightarrow> dump_copy c wl rl d = Some (r, d', out) \<Longrightarrow>
    trace_step st (st\<lparr>plugins := (plugins st)[i := CommDump c d']\<rparr>)"

inductive trace_run :: "plugin list \<Rightarrow> trace \<Rightarrow> bool" for ps where
  new: "trace_run ps (trace_new m ps)"
| step: "trace_run ps st \<Longrightarrow> trace_step st st' \<Longrightarrow> trace_run ps st'"

definition plug_cfg :: "plugin \<Rightarrow> dump_cfg + wd_cfg" where
  "plug_cfg p = (case p of CommDump c d \<Rightarrow> Inl c | Watchdog c w \<Rightarrow> Inr c)"

lemma plug_cfg_callbacks [simp]:
  "plug_cfg (plug_scheduled e p) = plug_cfg p" "plug_cfg (plug_started e p) = plug_cfg p" "plug_cfg (plug_progressing err now a e p) = plug_cfg p"
  by (simp_all add: plug_cfg_def plug_scheduled_def plug_started_def plug_progressing_def split: plugin.split)

lemma plug_cfg_ended: "plug_ended e p = Some q \<Longrightarrow> plug_cfg q = plug_cfg p"
  by (cases p) (auto simp: plug_cfg_def plug_ended_def)

lemma those_cfg: "those (map (plug_ended e) ps) = Some qs \<Longrightarrow> map plug_cfg qs = map plug_cfg ps"
proof (induction ps arbitrary: qs)
  case (Cons p ps)
  then show ?case using plug_cfg_ended by (auto split: option.splits)
qed simp

lemma sizes_ok_cfg: "map plug_cfg qs = map plug_cfg ps \<Longrightarrow> sizes_ok qs = sizes_ok ps"
proof -
  have c: "sizes_ok xs \<longleftrightarrow> (\<forall>x \<in> set (map plug_cfg xs). case x of Inl c \<Rightarrow> pastCollSize c \<noteq> 0 | Inr c \<Rightarrow> True)" for xs
    by (simp add: sizes_ok_def plug_cfg_def split: plugin.split)
  show "map plug_cfg qs = map plug_cfg ps \<Longrightarrow> sizes_ok qs = sizes_ok ps" by (simp only: c)
qed

lemma plugins_finish [simp]: "plugins (finish_event a ph st) = plugins st" by (simp add: finish_event_def)

lemma wait_round_cfg: "wait_round wait got err now a st = Some st' \<Longrightarrow> map plug_cfg (plugins st') = map plug_cfg (plugins st)"
  by (auto simp: wait_round_def Let_def split: if_splits option.splits prod.splits)

lemma thread_step_cfg: "thread_step qs err now st = Some st' \<Longrightarrow> map plug_cfg (plugins st') = map plug_cfg (plugins st)"
  by (cases "phase st")
    (auto simp: thread_step_def triggerPlugins_def split: list.splits option.splits if_splits dest!: wait_round_cfg those_cfg)

lemma triggerEvent_cfg: "triggerEventState ok now a s st = Some (r, st') \<Longrightarrow> map plug_cfg (plugins st') = map plug_cfg (plugins st)"
  by (cases s) (auto simp: triggerEventState_def Let_def split: if_splits option.splits prod.splits)

lemma trigger_cfg: "trigger ok now h s st = Some (r, st') \<Longrightarrow> map plug_cfg (plugins st') = map plug_cfg (plugins st)"
  by (auto simp: trigger_def Let_def split: option.splits if_splits dest: triggerEvent_cfg)

lemma record_plugins: "recordCollective a meta w st = (r, h, st') \<Longrightarrow> plugins st' = plugins st"
  by (auto simp: recordCollective_def Let_def split: if_splits option.splits)

lemma step_cfg: "trace_step st st' \<Longrightarrow> map plug_cfg (plugins st') = map plug_cfg (plugins st)"
proof (induction rule: trace_step.induct)
  case (dump i st c d wl rl r d' out)
  have "map plug_cfg ((plugins st)[i := CommDump c d']) = (map plug_cfg (plugins st))[i := Inl c]" by (simp add: map_update plug_cfg_def)
  also have "\<dots> = map plug_cfg (plugins st)" using dump.hyps(1,2) by (intro list_update_same_conv [THEN iffD2]) (simp_all add: plug_cfg_def)
  finally show ?case by simp
qed (auto dest: record_plugins trigger_cfg thread_step_cfg)

lemma trace_step_inv:
  assumes "trace_step st st'" "trace_inv st"
  shows "trace_inv st'"
  using assms
proof (induction rule: trace_step.induct)
  case (recording st a meta w r h st')
  show ?case by (rule record_inv [OF recording.prems recording.hyps])
next
  case (trigger ok now h s st r st')
  then obtain x where "handles st h = Some x" by (auto simp: trigger_def split: option.splits)
  then show ?case using trigger_inv [OF trigger.prems, of h x ok now s] trigger.hyps by auto
next
  case (thread qs err now st st')
  then show ?case using thread_inv [OF thread.prems, of qs err now] by auto
next
  case (dump i st c d wl rl r d' out)
  show ?case by (rule plug_list_same [OF dump.prems])
qed

lemma new_inv: "trace_inv (trace_new m ps)"
  by (simp add: trace_inv_def trace_new_def shape_inv_def event_ids_def [abs_def] valids_def [abs_def] live_events_def dom_def)

lemma trace_run_inv: "trace_run ps st \<Longrightarrow> trace_inv st \<and> map plug_cfg (plugins st) = map plug_cfg ps"
proof (induction rule: trace_run.induct)
  case (new m)
  show ?case using new_inv by (simp add: trace_new_def)
next
  case (step st st')
  then show ?case using trace_step_inv step_cfg by metis
qed

section \<open>Handles are safe until the destructor\<close>

text \<open>C39: Before the destructor runs, a handle is either invalid or its event is there and is the event of the collective that the handle
  was made for, also when addresses are used again: a trigger never touches a destroyed event, the record that a handle gives is its
  own, and the tracer's thread never touches a destroyed event (nor the front of an empty dump, if no dump has size 0).\<close>

theorem handles_are_safe:
  assumes "trace_run ps st" "handles st h = Some x" "sizes_ok ps"
  shows "getCollRecord h st = Some (if h_invalid x then (commInvalidArgument, None) else (commSuccess, Some h)) \<and>
    trigger ok now h s st \<noteq> None \<and> thread_step qs err now st \<noteq> None"
proof -
  have v: "trace_inv st" "sizes_ok (plugins st)" using trace_run_inv [OF assms(1)] sizes_ok_cfg assms(3) by blast+
  have "getCollRecord h st = Some (commSuccess, Some h)" if n: "\<not> h_invalid x"
  proof -
    obtain e where "heap st (h_event x) = Some e" "ev_id e = h" by (rule valid_handle [OF v(1) assms(2) n])
    then show ?thesis using assms(2) n by (simp add: getCollRecord_def)
  qed
  then show ?thesis
    using assms(2) trigger_inv [OF v(1) assms(2), of ok now s] thread_inv [OF v(1), of qs err now] v(2) by (auto simp: getCollRecord_def)
qed

text \<open>The example: a dump of the last two collectives, and collectives that are waited for on the CPU.\<close>

definition ex_plugins :: "plugin list" where
  "ex_plugins = [CommDump \<lparr>pastCollSize = 2, pendingCollSize = 4\<rparr> dump_new]"

definition ex_record :: "nat \<Rightarrow> trace \<Rightarrow> trace" where
  "ex_record a st = snd (snd (recordCollective a True (Some (CPUWait False False)) st))"

definition ex_trigger :: "nat \<Rightarrow> nat \<Rightarrow> trigger_state \<Rightarrow> trace \<Rightarrow> trace" where
  "ex_trigger now h s st = snd (the (trigger True now h s st))"

definition ex_thread :: "nat \<Rightarrow> trace \<Rightarrow> trace" where "ex_thread now st = the (thread_step [] False now st)"

text \<open>A collective is recorded at the address 7 and scheduled.\<close>

definition ex_t1 :: trace where
  "ex_t1 = ex_trigger 2 0 AfterEnqueueKernel (ex_trigger 1 0 BeforeEnqueueKernel (ex_record 7 (trace_new 1 ex_plugins)))"

lemma run_trigger:
  assumes "trace_run ps st" "handles st h \<noteq> None"
  shows "trace_run ps (ex_trigger now h s st)"
proof -
  obtain x where "handles st h = Some x" using assms(2) by blast
  then obtain r st' where t: "trigger True now h s st = Some (r, st')" using trigger_inv trace_run_inv [OF assms(1)] by blast
  then show ?thesis using trace_run.step [OF assms(1) trace_step.trigger [OF t]] by (simp add: ex_trigger_def)
qed

lemma run_record:
  assumes "trace_run ps st" "heap st a = None"
  shows "trace_run ps (ex_record a st)"
proof -
  obtain r h st' where t: "recordCollective a True (Some (CPUWait False False)) st = (r, h, st')"
    by (cases "recordCollective a True (Some (CPUWait False False)) st")
  then show ?thesis using trace_run.step [OF assms(1) trace_step.recording [OF assms(2) t]] by (simp add: ex_record_def)
qed

lemma run_thread:
  assumes "trace_run ps st" "sizes_ok ps"
  shows "trace_run ps (ex_thread now st)"
proof -
  have "sizes_ok (plugins st)" using trace_run_inv [OF assms(1)] sizes_ok_cfg assms(2) by blast
  then obtain st' where t: "thread_step [] False now st = Some st'" using thread_inv trace_run_inv [OF assms(1)] by blast
  then show ?thesis using trace_run.step [OF assms(1) trace_step.thread [OF t]] by (simp add: ex_thread_def)
qed

lemma ex_t1_run: "trace_run ex_plugins ex_t1"
  unfolding ex_t1_def by (intro run_trigger run_record trace_run.new) code_simp+

theorem handles_are_safe_witness: "getCollRecord 0 ex_t1 = Some (commSuccess, Some 0) \<and> trigger True 3 0 KernelStarted ex_t1 \<noteq> None"
proof -
  have "(case handles ex_t1 0 of None \<Rightarrow> False | Some x \<Rightarrow> \<not> h_invalid x)" by code_simp
  then obtain x where x: "handles ex_t1 0 = Some x" "\<not> h_invalid x" by (cases "handles ex_t1 0") auto
  have "sizes_ok ex_plugins" by (simp add: sizes_ok_def ex_plugins_def)
  from handles_are_safe [OF ex_t1_run x(1) this, of True 3 KernelStarted] show ?thesis using x(2) by simp
qed

section \<open>The destructor\<close>

lemma invalidate_all_safe:
  assumes v: "trace_inv st" and h: "handles (invalidate_all st) h = Some x"
  shows "h_invalid x"
proof (rule ccontr)
  assume n: "\<not> h_invalid x"
  obtain y where y: "handles st h = Some y" "x = (if handleMap st (h_event y) = Some h then y\<lparr>h_invalid := True\<rparr> else y)"
    using h by (cases "handles st h") (simp_all add: invalidate_all_def)
  then have y2: "handleMap st (h_event y) \<noteq> Some h" "x = y" using n by (auto split: if_splits)
  obtain e where "heap st (h_event y) = Some e" "ev_id e = h" using valid_handle [OF v y(1)] n y2 by blast
  then have "handleMap st (h_event y) = Some h" using v unfolding trace_inv_def by (auto dest!: shape_invD(3) simp: event_ids_def)
  then show False using y2 by simp
qed

text \<open>The destructor sets the flag before it invalidates the handles. The tracer's thread can take an event in between and destroy it
  with its handle still valid: a trigger then uses a destroyed event.\<close>

lemma shutdown_use_after_free:
  "(let st = ex_thread 3 (request_stop (ex_thread 3 ex_t1))
    in phase st = Exited \<and> map_option h_invalid (handles st 0) = Some False \<and> trigger True 4 0 KernelStarted st = None)"
  by code_simp

end
