(* ===== verification/Coll_Dump.thy ===== *)
theory Coll_Dump imports Coll_Run begin

text \<open>
  What the dump of collectives shows: exactly the scheduled collectives in their order as long as no event is lost, and nothing new
  after one was.
\<close>

section \<open>The dump as past, current and pending collectives\<close>

definition dump_abs :: "dump \<Rightarrow> nat list \<times> nat option \<times> nat list" where
  "dump_abs d = (pastColls d, currentColl d, pendingColls d @ newPendingColls d)"

definition kept :: "int \<Rightarrow> nat list \<Rightarrow> nat list" where
  "kept k xs = (if k < 0 then xs else drop (length xs - nat k) xs)"

lemma enqueue_abs [simp]: "dump_abs (snd (enqueuePendingColls m d)) = dump_abs d"
  by (simp add: enqueuePendingColls_def dump_abs_def Let_def)

lemma enqueue_ok:
  "0 < k \<Longrightarrow> int (length (newPendingColls d)) \<le> k \<Longrightarrow>
   enqueuePendingColls (k + 1) d = (commSuccess, d\<lparr>pendingColls := pendingColls d @ newPendingColls d, newPendingColls := []\<rparr>)"
  by (simp add: enqueuePendingColls_def Let_def min_def)

lemma evict_drop: "k \<noteq> 0 \<Longrightarrow> evict k xs = Some (if k < 0 then xs else drop (length xs + 1 - nat k) xs)"
proof (induction k xs rule: evict.induct)
  case (2 k x xs)
  then show ?case by (auto simp: Suc_diff_le nat_le_iff split: if_splits)
qed simp

lemma evict_kept: "k \<noteq> 0 \<Longrightarrow> map_option (\<lambda>ys. ys @ [x]) (evict k (kept k xs)) = Some (kept k (xs @ [x]))"
  by (cases "nat k \<le> length xs") (simp_all add: evict_drop kept_def Suc_diff_le)

lemma scheduled_abs: "int (length (newPendingColls d)) < pendingCollSize c \<Longrightarrow>
    dump_abs (snd (dump_scheduled c e d)) = (pastColls d, currentColl d, pendingColls d @ newPendingColls d @ [e]) \<and>
    int (length (newPendingColls (snd (dump_scheduled c e d)))) \<le> pendingCollSize c"
  by (simp add: dump_scheduled_def dump_abs_def)

lemma started_abs:
  assumes "0 < pendingCollSize c" "int (length (newPendingColls d)) \<le> pendingCollSize c" "dump_abs d = (P, None, e # R)"
  shows "dump_abs (snd (dump_started c e d)) = (P, Some e, R) \<and> newPendingColls (snd (dump_started c e d)) = []"
  using assms by (simp add: dump_started_def enqueue_ok dump_abs_def split: list.split)

lemma ended_abs:
  assumes "0 < pendingCollSize c" "int (length (newPendingColls d)) \<le> pendingCollSize c" "pastCollSize c \<noteq> 0"
    "dump_abs d = (kept (pastCollSize c) xs, Some e, R)"
  shows "\<exists>r d'. dump_ended c e d = Some (r, d') \<and> dump_abs d' = (kept (pastCollSize c) (xs @ [e]), None, R) \<and> newPendingColls d' = []"
proof -
  obtain ys where y: "evict (pastCollSize c) (kept (pastCollSize c) xs) = Some ys" "ys @ [e] = kept (pastCollSize c) (xs @ [e])"
    using evict_kept [OF assms(3), of e xs] by auto
  show ?thesis using assms y by (simp add: dump_ended_def enqueue_ok dump_abs_def)
qed

lemma copy_abs: "dump_copy c wl rl d = Some (r, d', out) \<Longrightarrow> dump_abs d' = dump_abs d \<and> length (newPendingColls d') \<le> length (newPendingColls d)"
proof -
  have l: "length (newPendingColls (snd (enqueuePendingColls m d))) \<le> length (newPendingColls d)" for m
    by (simp add: enqueuePendingColls_def Let_def)
  assume a: "dump_copy c wl rl d = Some (r, d', out)"
  then have "d' = d \<or> d' = snd (enqueuePendingColls (pendingCollSize c + 1) d)"
    by (auto simp: dump_copy_def split: if_splits prod.splits)
  then show ?thesis using l by auto
qed

lemma copy_shows:
  assumes "0 < pendingCollSize c" "int (length (newPendingColls d)) \<le> pendingCollSize c" "dump_abs d = (P, x, R)"
  shows "\<exists>d'. dump_copy c True True d =
    Some (commSuccess, d', case (x, R) of (None, p # ps) \<Rightarrow> (P, Some p, ps) | _ \<Rightarrow> (P, x, R))"
  using assms by (cases "newPendingColls d"; cases x; cases R) (auto simp: dump_copy_def enqueue_ok dump_abs_def)

text \<open>A dump that waits for the collective \<open>e\<close> does not change for any other.\<close>

definition stuck_with :: "nat \<Rightarrow> dump \<Rightarrow> bool" where
  "stuck_with e d \<longleftrightarrow> (case dump_abs d of (P, x, R) \<Rightarrow> x = Some e \<or> x = None \<and> R \<noteq> [] \<and> hd R = e)"

definition same_shown :: "dump \<Rightarrow> dump \<Rightarrow> bool" where
  "same_shown d d' \<longleftrightarrow> pastColls d' = pastColls d \<and> currentColl d' = currentColl d"

lemma stuck_abs: "stuck_with e d \<Longrightarrow> dump_abs d' = dump_abs d \<Longrightarrow> stuck_with e d' \<and> same_shown d d'"
  by (simp add: stuck_with_def same_shown_def dump_abs_def)

lemma stuck_scheduled: "stuck_with e d \<Longrightarrow> stuck_with e (snd (dump_scheduled c x d)) \<and> same_shown d (snd (dump_scheduled c x d))"
  by (auto simp: stuck_with_def same_shown_def dump_scheduled_def dump_abs_def hd_append)

lemma stuck_started:
  assumes s: "stuck_with e d" and x: "x \<noteq> e"
  shows "stuck_with e (snd (dump_started c x d)) \<and> same_shown d (snd (dump_started c x d))"
proof -
  obtain r d1 where d1: "enqueuePendingColls (pendingCollSize c + 1) d = (r, d1)" by (cases "enqueuePendingColls (pendingCollSize c + 1) d")
  have a: "dump_abs d1 = dump_abs d" using enqueue_abs [of "pendingCollSize c + 1" d] d1 by simp
  have "snd (dump_started c x d) = d1"
    using stuck_abs [OF s a] x by (auto simp: dump_started_def d1 stuck_with_def dump_abs_def split: list.split)
  then show ?thesis using stuck_abs [OF s a] by simp
qed

lemma stuck_ended:
  assumes s: "stuck_with e d" and x: "x \<noteq> e" and h: "dump_ended c x d = Some (r, d')"
  shows "stuck_with e d' \<and> same_shown d d'"
proof -
  obtain r1 d1 where d1: "enqueuePendingColls (pendingCollSize c + 1) d = (r1, d1)" by (cases "enqueuePendingColls (pendingCollSize c + 1) d")
  have a: "dump_abs d1 = dump_abs d" using enqueue_abs [of "pendingCollSize c + 1" d] d1 by simp
  have "d' = d1"
    using stuck_abs [OF s a] x h by (auto simp: dump_ended_def d1 stuck_with_def dump_abs_def split: if_splits option.splits)
  then show ?thesis using stuck_abs [OF s a] by simp
qed

section \<open>A lost event\<close>

definition dead :: "nat \<Rightarrow> trace \<Rightarrow> bool" where "dead e st \<longleftrightarrow> e < nextCollId st \<and> (\<forall>a. event_ids st a \<noteq> Some e)"

definition fewer :: "trace \<Rightarrow> trace \<Rightarrow> bool" where
  "fewer st st' \<longleftrightarrow> nextCollId st' = nextCollId st \<and> (\<forall>a j. event_ids st' a = Some j \<longrightarrow> event_ids st a = Some j)"

lemma fewer_refl [simp]: "fewer st st" by (simp add: fewer_def)

lemma fewer_dead: "fewer st st' \<Longrightarrow> dead e st \<Longrightarrow> dead e st'" by (auto simp: fewer_def dead_def)

lemma fewer_finish: "fewer st st1 \<Longrightarrow> fewer st (finish_event a ph st1)"
  by (auto simp: fewer_def finish_event_def event_ids_def split: if_splits)

lemma fewer_wait: "heap st a = Some e \<Longrightarrow> heap st' = (heap st)(a \<mapsto> e\<lparr>ev_wait := w\<rparr>) \<Longrightarrow> nextCollId st' = nextCollId st \<Longrightarrow> fewer st st'"
  by (auto simp: fewer_def event_ids_def split: if_splits)

lemma fewer_same: "heap st' = heap st \<Longrightarrow> nextCollId st' = nextCollId st \<Longrightarrow> fewer st st'"
  by (simp add: fewer_def event_ids_def)

lemma wait_round_fewer:
  assumes "wait_round wait got err now a st = Some st'"
  shows "fewer st st'"
proof (cases "shouldStop st")
  case True
  then show ?thesis using assms by (auto simp: wait_round_def intro: fewer_finish)
next
  case False
  then obtain x where x: "heap st a = Some x" using assms by (auto simp: wait_round_def split: option.splits)
  obtain r b w where w: "wait (ev_wait x) = (r, b, w)" by (cases "wait (ev_wait x)")
  let ?st1 = "st\<lparr>heap := (heap st)(a \<mapsto> x\<lparr>ev_wait := w\<rparr>), plugins := map (plug_progressing err now a (ev_id x)) (plugins st)\<rparr>"
  have f: "fewer st ?st1" "fewer st (?st1\<lparr>phase := got\<rparr>)" by (rule fewer_wait [OF x, of _ w], simp_all)+
  show ?thesis using assms False x w f fewer_finish [OF f(1), of a Head] by (auto simp: wait_round_def Let_def split: if_splits)
qed

lemma thread_fewer:
  assumes e: "thread_step qs err now st = Some st'"
  shows "fewer st st'"
proof (cases "phase st")
  case Head
  then show ?thesis using e by (auto simp: thread_step_def intro: fewer_same)
next
  case Reading
  then show ?thesis using e
    by (auto simp: thread_step_def fewer_def event_ids_def split: list.splits if_splits option.splits)
next
  case (WaitStart a)
  then show ?thesis using e wait_round_fewer by (simp add: thread_step_def)
next
  case (GotStart a)
  then show ?thesis using e by (auto simp: thread_step_def split: if_splits option.splits intro: fewer_finish fewer_same)
next
  case (WaitEnd a)
  then show ?thesis using e wait_round_fewer by (simp add: thread_step_def)
next
  case (GotEnd a)
  then show ?thesis using e
    by (auto simp: thread_step_def triggerPlugins_def split: if_splits option.splits intro!: fewer_finish fewer_same)
next
  case Exited
  then show ?thesis using e by (simp add: thread_step_def)
qed

lemma triggerEvent_fewer: "triggerEventState ok now a s st = Some (r, st') \<Longrightarrow> fewer st st'"
  by (cases s) (auto simp: triggerEventState_def Let_def fewer_def event_ids_def split: if_splits option.splits prod.splits)

lemma trigger_fewer:
  assumes "trigger ok now h s st = Some (r, st')"
  shows "fewer st st'"
proof -
  have l: "fewer st (st1\<lparr>handles := x\<rparr>)" if "fewer st st1" for st1 x using that by (simp add: fewer_def event_ids_def)
  show ?thesis using assms triggerEvent_fewer l by (auto simp: trigger_def Let_def split: option.splits if_splits)
qed

lemma dead_step: "trace_step st st' \<Longrightarrow> dead e st \<Longrightarrow> dead e st'"
proof (induction rule: trace_step.induct)
  case (recording st a meta w r h st')
  show ?case
  proof (cases "meta \<and> w \<noteq> None")
    case True
    have "nextCollId st' = Suc (nextCollId st) \<and> (\<forall>b j. event_ids st' b = Some j \<longrightarrow> event_ids st b = Some j \<or> j = nextCollId st)"
      using recording.hyps(2) True by (auto simp: recordCollective_def Let_def event_ids_def split: option.splits if_splits)
    then show ?thesis using recording.prems unfolding dead_def by (metis less_SucI less_irrefl)
  next
    case False
    then show ?thesis using recording by (auto simp: recordCollective_def split: option.splits)
  qed
next
  case (trigger ok now h s st r st')
  then show ?case using fewer_dead trigger_fewer by blast
next
  case (thread qs err now st st')
  then show ?case using fewer_dead thread_fewer by blast
next
  case (dump i st c d wl rl r d' out)
  then show ?case using fewer_dead [OF fewer_same] by simp
qed

text \<open>What one step does with a dump that waits for a lost event.\<close>

definition stuck_step :: "nat \<Rightarrow> plugin \<Rightarrow> plugin \<Rightarrow> bool" where
  "stuck_step e p p' \<longleftrightarrow> (case p of Watchdog c w \<Rightarrow> True
     | CommDump c d \<Rightarrow> stuck_with e d \<longrightarrow> (\<exists>d'. p' = CommDump c d' \<and> stuck_with e d' \<and> same_shown d d'))"

lemma stuck_step_refl [simp]: "stuck_step e p p"
  by (simp add: stuck_step_def same_shown_def split: plugin.split)

lemma stuck_step_callbacks:
  "stuck_step e p (plug_scheduled x p)" "x \<noteq> e \<Longrightarrow> stuck_step e p (plug_started x p)" "stuck_step e p (plug_progressing err now a x p)"
  "x \<noteq> e \<Longrightarrow> plug_ended x p = Some q \<Longrightarrow> stuck_step e p q"
  using stuck_scheduled stuck_started stuck_ended
  by (auto simp: stuck_step_def plug_scheduled_def plug_started_def plug_progressing_def plug_ended_def same_shown_def split: plugin.splits)

definition stuck_steps :: "nat \<Rightarrow> trace \<Rightarrow> trace \<Rightarrow> bool" where
  "stuck_steps e st st' \<longleftrightarrow> length (plugins st') = length (plugins st) \<and> (\<forall>i < length (plugins st). stuck_step e (plugins st ! i) (plugins st' ! i))"

lemma stuck_steps_same: "plugins st' = plugins st \<Longrightarrow> stuck_steps e st st'"
  by (simp add: stuck_steps_def)

lemma stuck_steps_map: "plugins st' = map f (plugins st) \<Longrightarrow> (\<And>p. stuck_step e p (f p)) \<Longrightarrow> stuck_steps e st st'"
  by (simp add: stuck_steps_def)

lemma wait_round_stuck:
  assumes "wait_round wait got err now a st = Some st'"
  shows "stuck_steps e st st'"
proof -
  have "plugins st' = plugins st \<or> (\<exists>x. plugins st' = map (plug_progressing err now a x) (plugins st))"
    using assms by (auto simp: wait_round_def Let_def split: if_splits option.splits prod.splits)
  then show ?thesis
  proof (elim disjE exE)
    fix x assume "plugins st' = map (plug_progressing err now a x) (plugins st)"
    then show ?thesis by (rule stuck_steps_map) (rule stuck_step_callbacks(3))
  qed (rule stuck_steps_same)
qed

lemma thread_stuck:
  assumes h: "thread_step qs err now st = Some st'" and d: "dead e st"
  shows "stuck_steps e st st'"
proof -
  have n: "ev_id x \<noteq> e" if "heap st a = Some x" for a x using d that by (auto simp: dead_def event_ids_def)
  show ?thesis
  proof (cases "phase st")
    case Head
    then show ?thesis using h by (auto simp: thread_step_def intro: stuck_steps_same)
  next
    case Reading
    then show ?thesis using h by (auto simp: thread_step_def split: list.splits if_splits option.splits intro!: stuck_steps_same)
  next
    case (WaitStart a)
    then show ?thesis using h wait_round_stuck by (simp add: thread_step_def)
  next
    case (GotStart a)
    then have "plugins st' = plugins st \<or> (\<exists>x. heap st a = Some x \<and> plugins st' = map (plug_started (ev_id x)) (plugins st))"
      using h by (auto simp: thread_step_def split: if_splits option.splits)
    then show ?thesis
    proof (elim disjE exE conjE)
      fix x assume x: "heap st a = Some x" "plugins st' = map (plug_started (ev_id x)) (plugins st)"
      show ?thesis by (rule stuck_steps_map [OF x(2)]) (rule stuck_step_callbacks(2) [OF n [OF x(1)]])
    qed (rule stuck_steps_same)
  next
    case (WaitEnd a)
    then show ?thesis using h wait_round_stuck by (simp add: thread_step_def)
  next
    case (GotEnd a)
    show ?thesis
    proof (cases "shouldStop st")
      case True
      then show ?thesis using h GotEnd by (auto simp: thread_step_def intro!: stuck_steps_same)
    next
      case False
      obtain x ps where x: "heap st a = Some x" "those (map (plug_ended (ev_id x)) (plugins st)) = Some ps" "plugins st' = ps"
        using h GotEnd False by (auto simp: thread_step_def triggerPlugins_def split: option.splits)
      show ?thesis using those_nth [OF x(2)] stuck_step_callbacks(4) [OF n [OF x(1)]] by (simp add: stuck_steps_def x(3))
    qed
  next
    case Exited
    then show ?thesis using h by (simp add: thread_step_def stuck_steps_same)
  qed
qed

lemma trigger_stuck:
  assumes "trigger ok now h s st = Some (r, st')"
  shows "stuck_steps e st st'"
proof -
  have t: "plugins st1 = plugins st \<or> (\<exists>x. plugins st1 = map (plug_scheduled x) (plugins st))"
    if "triggerEventState ok now a s st = Some (r, st1)" for a r st1
    using that by (cases s) (auto simp: triggerEventState_def Let_def split: if_splits option.splits prod.splits)
  then have "plugins st' = plugins st \<or> (\<exists>x. plugins st' = map (plug_scheduled x) (plugins st))"
    using assms by (fastforce simp: trigger_def Let_def split: option.splits if_splits)
  then show ?thesis
  proof (elim disjE exE)
    fix x assume "plugins st' = map (plug_scheduled x) (plugins st)"
    then show ?thesis by (rule stuck_steps_map) (rule stuck_step_callbacks(1))
  qed (rule stuck_steps_same)
qed

lemma step_stuck: "trace_step st st' \<Longrightarrow> dead e st \<Longrightarrow> stuck_steps e st st'"
proof (induction rule: trace_step.induct)
  case (recording st a meta w r h st')
  then show ?case using record_plugins stuck_steps_same by blast
next
  case (trigger ok now h s st r st')
  then show ?case using trigger_stuck by blast
next
  case (thread qs err now st st')
  then show ?case using thread_stuck by blast
next
  case (dump i st c d wl rl r d' out)
  have "stuck_step e (CommDump c d) (CommDump c d')"
    using copy_abs [OF dump.hyps(3)] stuck_abs [of e d d'] by (simp add: stuck_step_def)
  then show ?case using dump.hyps(1,2) by (simp add: stuck_steps_def nth_list_update)
qed

text \<open>The \<open>i\<close>-th plugin is a dump that waits for a lost event.\<close>

definition stuck_at :: "nat \<Rightarrow> nat \<Rightarrow> trace \<Rightarrow> bool" where
  "stuck_at e i st \<longleftrightarrow> dead e st \<and> i < length (plugins st) \<and> (case plugins st ! i of CommDump c d \<Rightarrow> stuck_with e d | Watchdog c w \<Rightarrow> False)"

lemma stuck_forever:
  assumes "trace_step\<^sup>*\<^sup>* st st'" "stuck_at e i st" "plugins st ! i = CommDump c d"
  shows "stuck_at e i st' \<and> (\<exists>d'. plugins st' ! i = CommDump c d' \<and> same_shown d d')"
  using assms(1)
proof (induction rule: rtranclp_induct)
  case base
  then show ?case using assms(2,3) by (simp add: same_shown_def)
next
  case (step st1 st2)
  obtain d1 where d1: "stuck_at e i st1" "plugins st1 ! i = CommDump c d1" "same_shown d d1" using step.IH by blast
  have s: "stuck_steps e st1 st2" "dead e st2" using step_stuck [OF step.hyps(2)] dead_step [OF step.hyps(2)] d1(1) by (auto simp: stuck_at_def)
  then have "stuck_step e (CommDump c d1) (plugins st2 ! i)" "i < length (plugins st2)"
    using d1(1,2) by (auto simp: stuck_steps_def stuck_at_def)
  then obtain d2 where "plugins st2 ! i = CommDump c d2" "stuck_with e d2" "same_shown d1 d2"
    using d1(1,2) by (auto simp: stuck_step_def stuck_at_def)
  then show ?case using s d1(3) \<open>i < length (plugins st2)\<close> by (simp add: stuck_at_def same_shown_def)
qed

end
