(* ===== verification/Coll_Clean.thy ===== *)
theory Coll_Clean imports Coll_Dump begin

text \<open>
  What the dump of collectives shows in a run that loses no event, and what it shows after one was lost.
\<close>

section \<open>Runs that lose no event\<close>

text \<open>Waiting for an event was given up.\<close>

definition gave_up :: "trace \<Rightarrow> trace \<Rightarrow> bool" where
  "gave_up st st' \<longleftrightarrow> (case phase st of WaitStart a \<Rightarrow> phase st' = Head | WaitEnd a \<Rightarrow> phase st' = Head | _ \<Rightarrow> False)"

definition ended_now :: "trace \<Rightarrow> nat" where "ended_now st = (case phase st of GotEnd a \<Rightarrow> 1 | _ \<Rightarrow> 0)"

text \<open>\<open>S\<close>: the collectives that were scheduled so far, \<open>n\<close>: how many of them have ended; the \<open>i\<close>-th plugin is the dump. A trigger that is
  refused changes nothing and needs no rule.\<close>

inductive clean_run :: "plugin list \<Rightarrow> nat \<Rightarrow> dump_cfg \<Rightarrow> nat list \<Rightarrow> nat \<Rightarrow> trace \<Rightarrow> bool" for ps i c where
  new: "i < length ps \<Longrightarrow> ps ! i = CommDump c dump_new \<Longrightarrow> clean_run ps i c [] 0 (trace_new m ps)"
| recording: "clean_run ps i c S n st \<Longrightarrow> heap st a = None \<Longrightarrow> recordCollective a meta w st = (r, h, st') \<Longrightarrow> clean_run ps i c S n st'"
| schedule: "clean_run ps i c S n st \<Longrightarrow> trigger ok now h AfterEnqueueKernel st = Some (commSuccess, st') \<Longrightarrow>
    plugins st ! i = CommDump c d \<Longrightarrow> int (length (newPendingColls d)) < pendingCollSize c \<Longrightarrow> clean_run ps i c (S @ [h]) n st'"
| trigger: "clean_run ps i c S n st \<Longrightarrow> trigger ok now h s st = Some (r, st') \<Longrightarrow> s \<noteq> AfterEnqueueKernel \<Longrightarrow> clean_run ps i c S n st'"
| thread: "clean_run ps i c S n st \<Longrightarrow> thread_step qs err now st = Some st' \<Longrightarrow> \<not> gave_up st st' \<Longrightarrow> clean_run ps i c S (n + ended_now st) st'"
| dump: "clean_run ps i c S n st \<Longrightarrow> j < length (plugins st) \<Longrightarrow> plugins st ! j = CommDump c' d \<Longrightarrow>
    dump_copy c' wl rl d = Some (r, d', out) \<Longrightarrow> clean_run ps i c S n (st\<lparr>plugins := (plugins st)[j := CommDump c' d']\<rparr>)"

lemma clean_is_run: "clean_run ps i c S n st \<Longrightarrow> trace_run ps st"
  by (induction rule: clean_run.induct) (blast intro: trace_run.intros trace_step.intros)+

fun running :: "thread_phase \<Rightarrow> bool" where
  "running (WaitEnd a) = True" | "running (GotEnd a) = True" | "running p = False"

definition dump_ok :: "dump_cfg \<Rightarrow> nat list \<Rightarrow> nat \<Rightarrow> bool \<Rightarrow> plugin \<Rightarrow> bool" where
  "dump_ok c S n b p \<longleftrightarrow> (\<exists>d. p = CommDump c d \<and> int (length (newPendingColls d)) \<le> pendingCollSize c \<and>
     dump_abs d = (kept (pastCollSize c) (take n S), if b then Some (S ! n) else None, drop (if b then Suc n else n) S))"

definition queue_ids :: "trace \<Rightarrow> nat option list" where "queue_ids st = map (event_ids st) (cur_of (phase st) @ pendingTrace st)"

definition ids_ok :: "nat list \<Rightarrow> nat option list \<Rightarrow> nat \<Rightarrow> bool" where
  "ids_ok S E N \<longleftrightarrow> (\<exists>E'. E = map Some E' \<and> sorted_wrt (<) (S @ E') \<and> (\<forall>s \<in> set (S @ E'). s < N))"

definition clean_inv :: "nat \<Rightarrow> dump_cfg \<Rightarrow> nat list \<Rightarrow> nat \<Rightarrow> trace \<Rightarrow> bool" where
  "clean_inv i c S n st \<longleftrightarrow> i < length (plugins st) \<and> dump_ok c S n (running (phase st)) (plugins st ! i) \<and>
     queue_ids st = map Some (drop n S) \<and> n \<le> length S \<and>
     ids_ok S (map (event_ids st) (pending_of (pendingEnqueue st))) (nextCollId st)"

lemma clean_inv_same:
  assumes "clean_inv i c S n st" "length (plugins st') = length (plugins st)"
    "dump_ok c S n (running (phase st)) (plugins st ! i) \<Longrightarrow> dump_ok c S n (running (phase st')) (plugins st' ! i)"
    "queue_ids st' = queue_ids st" "event_ids st' = event_ids st" "pendingEnqueue st' = pendingEnqueue st" "nextCollId st' = nextCollId st"
  shows "clean_inv i c S n st'"
  using assms unfolding clean_inv_def by metis

lemma new_clean: "i < length ps \<Longrightarrow> ps ! i = CommDump c dump_new \<Longrightarrow> 0 < pendingCollSize c \<Longrightarrow> clean_inv i c [] 0 (trace_new m ps)"
  by (simp add: clean_inv_def trace_new_def dump_ok_def dump_new_def dump_abs_def kept_def queue_ids_def ids_ok_def)

lemma record_clean:
  assumes v: "trace_inv st" and k: "clean_inv i c S n st" and a: "heap st a = None" and e: "recordCollective a meta w st = (r, h, st')"
  shows "clean_inv i c S n st'"
proof (cases "meta \<and> w \<noteq> None")
  case False
  then show ?thesis using e k by (auto simp: recordCollective_def split: option.splits)
next
  case True
  have V: "distinct (live_events st)" using v shape_invD(1) unfolding trace_inv_def by blast
  have s: "phase st' = phase st" "pendingTrace st' = pendingTrace st" "pendingEnqueue st' = Some a" "plugins st' = plugins st"
      "nextCollId st' = Suc (nextCollId st)" "event_ids st' a = Some (nextCollId st)"
      "\<And>b. b \<noteq> a \<Longrightarrow> pendingEnqueue st \<noteq> Some b \<Longrightarrow> event_ids st' b = event_ids st b"
    using e True by (auto simp: recordCollective_def Let_def event_ids_def split: option.splits if_splits)
  have "event_ids st' b = event_ids st b" if b: "b \<in> set (cur_of (phase st) @ pendingTrace st)" for b
  proof (rule s(7))
    show "b \<noteq> a" using b a heap_live [OF v, of b] by (auto simp: live_events_def)
    show "pendingEnqueue st \<noteq> Some b" using b V by (auto simp: live_events_def)
  qed
  then have q: "queue_ids st' = queue_ids st" unfolding queue_ids_def s(1,2) by (intro map_cong) simp_all
  obtain E' where "map (event_ids st) (pending_of (pendingEnqueue st)) = map Some E'" "sorted_wrt (<) (S @ E')" "\<forall>s \<in> set (S @ E'). s < nextCollId st"
    using k by (auto simp: clean_inv_def ids_ok_def)
  then have "ids_ok S [Some (nextCollId st)] (Suc (nextCollId st))"
    unfolding ids_ok_def by (intro exI [of _ "[nextCollId st]"]) (auto simp: sorted_wrt_append less_SucI)
  then show ?thesis using k q s by (simp add: clean_inv_def)
qed

lemma queue_cur:
  assumes "queue_ids st = map Some (drop n S)" "cur_of (phase st) = [a]"
  shows "n < length S" "event_ids st a = Some (S ! n)" "map (event_ids st) (pendingTrace st) = map Some (drop (Suc n) S)"
proof -
  show n: "n < length S" using assms by (cases "n < length S") (simp_all add: queue_ids_def)
  show "event_ids st a = Some (S ! n)" "map (event_ids st) (pendingTrace st) = map Some (drop (Suc n) S)"
    using assms Cons_nth_drop_Suc [OF n, symmetric] by (simp_all add: queue_ids_def)
qed

lemma other_trigger_same:
  assumes t: "trigger ok now h s st = Some (r, st')" and s: "s \<noteq> AfterEnqueueKernel"
  shows "event_ids st' = event_ids st \<and> plugins st' = plugins st \<and> phase st' = phase st \<and> pendingTrace st' = pendingTrace st \<and>
    pendingEnqueue st' = pendingEnqueue st \<and> nextCollId st' = nextCollId st"
proof -
  have e: "event_ids st1 = event_ids st \<and> plugins st1 = plugins st \<and> phase st1 = phase st \<and> pendingTrace st1 = pendingTrace st \<and>
      pendingEnqueue st1 = pendingEnqueue st \<and> nextCollId st1 = nextCollId st"
    if "triggerEventState ok now a s st = Some (r, st1)" for a r st1
    using that s by (cases s) (auto simp: triggerEventState_def event_ids_def fun_eq_iff split: if_splits option.splits prod.splits)
  have i: "event_ids (st1\<lparr>handles := x\<rparr>) = event_ids st1" for st1 x by (simp add: event_ids_def [abs_def])
  show ?thesis using t e i by (fastforce simp: trigger_def Let_def split: option.splits if_splits)
qed

lemma trigger_clean: "clean_inv i c S n st \<Longrightarrow> trigger ok now h s st = Some (r, st') \<Longrightarrow> s \<noteq> AfterEnqueueKernel \<Longrightarrow> clean_inv i c S n st'"
  using other_trigger_same [of ok now h s st r st'] by (intro clean_inv_same [of i c S n st st']) (simp_all add: queue_ids_def)

lemma schedule_effect:
  assumes v: "trace_inv st" and t: "trigger ok now h AfterEnqueueKernel st = Some (commSuccess, st')"
  shows "\<exists>a. pendingEnqueue st = Some a \<and> event_ids st a = Some h \<and> event_ids st' = event_ids st \<and> plugins st' = map (plug_scheduled h) (plugins st) \<and>
    phase st' = phase st \<and> pendingTrace st' = pendingTrace st @ [a] \<and> pendingEnqueue st' = None \<and> nextCollId st' = nextCollId st"
proof -
  obtain x where x: "handles st h = Some x" "\<not> h_invalid x" using t by (auto simp: trigger_def Let_def split: option.splits if_splits)
  obtain e where e: "heap st (h_event x) = Some e" "ev_id e = h" by (rule valid_handle [OF v x])
  obtain st1 y where st1: "triggerEventState ok now (h_event x) AfterEnqueueKernel st = Some (commSuccess, st1)" "st' = st1\<lparr>handles := y\<rparr>"
    using t x by (auto simp: trigger_def Let_def split: option.splits if_splits)
  have "pendingEnqueue st = Some (h_event x) \<and> event_ids st1 = event_ids st \<and> plugins st1 = map (plug_scheduled h) (plugins st) \<and>
    phase st1 = phase st \<and> pendingTrace st1 = pendingTrace st @ [h_event x] \<and> pendingEnqueue st1 = None \<and> nextCollId st1 = nextCollId st"
    using st1(1) e by (auto simp: triggerEventState_def Let_def event_ids_def fun_eq_iff split: if_splits prod.splits)
  then show ?thesis using e by (simp add: st1(2) event_ids_def [abs_def])
qed

lemma schedule_clean:
  assumes v: "trace_inv st" and k: "clean_inv i c S n st" and t: "trigger ok now h AfterEnqueueKernel st = Some (commSuccess, st')"
    and d: "plugins st ! i = CommDump c d" "int (length (newPendingColls d)) < pendingCollSize c"
  shows "clean_inv i c (S @ [h]) n st'"
proof -
  obtain a where a: "pendingEnqueue st = Some a" "event_ids st a = Some h" "event_ids st' = event_ids st" "plugins st' = map (plug_scheduled h) (plugins st)"
    "phase st' = phase st" "pendingTrace st' = pendingTrace st @ [a]" "pendingEnqueue st' = None" "nextCollId st' = nextCollId st"
    using schedule_effect [OF v t] by blast
  have q: "queue_ids st = map Some (drop n S)" "n \<le> length S" using k by (simp_all add: clean_inv_def)
  have r: "running (phase st) \<Longrightarrow> n < length S"
    using q(1) queue_cur by (cases "phase st") simp_all
  have D: "dump_ok c S n (running (phase st)) (CommDump c d)" using k d(1) by (simp add: clean_inv_def)
  have "dump_ok c (S @ [h]) n (running (phase st)) (plug_scheduled h (CommDump c d))"
    using scheduled_abs [OF d(2), of h] D q(2) r
    by (auto simp: dump_ok_def plug_scheduled_def nth_append dump_abs_def)
  moreover have "ids_ok (S @ [h]) [] (nextCollId st)" using k a(1,2) by (auto simp: clean_inv_def ids_ok_def)
  ultimately show ?thesis using k a q d(1) by (simp add: clean_inv_def queue_ids_def)
qed

lemma wait_round_same:
  assumes "wait_round wait got err now a st = Some st'" "\<not> shouldStop st" "phase st' \<noteq> Head"
  shows "event_ids st' = event_ids st \<and> (\<exists>x. plugins st' = map (plug_progressing err now a x) (plugins st)) \<and> phase st' \<in> {phase st, got} \<and>
    pendingTrace st' = pendingTrace st \<and> pendingEnqueue st' = pendingEnqueue st \<and> nextCollId st' = nextCollId st"
proof -
  obtain x where x: "heap st a = Some x" using assms(1,2) by (auto simp: wait_round_def split: option.splits)
  obtain r b w where w: "wait (ev_wait x) = (r, b, w)" by (cases "wait (ev_wait x)")
  let ?st1 = "st\<lparr>heap := (heap st)(a \<mapsto> x\<lparr>ev_wait := w\<rparr>), plugins := map (plug_progressing err now a (ev_id x)) (plugins st)\<rparr>"
  have i: "event_ids ?st1 = event_ids st" "event_ids (?st1\<lparr>phase := got\<rparr>) = event_ids st" using x by (auto simp: event_ids_def fun_eq_iff)
  have "st' = ?st1 \<or> st' = ?st1\<lparr>phase := got\<rparr>"
    using assms x w by (auto simp: wait_round_def Let_def finish_event_def split: if_splits)
  then show ?thesis using i by (elim disjE) (simp_all, blast+)
qed

lemma dump_ok_progressing [simp]: "dump_ok c S n b p \<Longrightarrow> dump_ok c S n b (plug_progressing err now a x p)"
  by (auto simp: dump_ok_def plug_progressing_def)

lemma wait_clean:
  assumes k: "clean_inv i c S n st" and w: "wait_round wait got err now a st = Some st'" "\<not> shouldStop st" "phase st' \<noteq> Head"
    and g: "cur_of got = cur_of (phase st)" "running got = running (phase st)"
  shows "clean_inv i c S n st'"
proof -
  note W = wait_round_same [OF w]
  have p: "cur_of (phase st') = cur_of (phase st)" "running (phase st') = running (phase st)" using W g by auto
  show ?thesis by (rule clean_inv_same [OF k]) (use W p k in \<open>auto simp: queue_ids_def clean_inv_def\<close>)
qed

lemma dump_ok_started:
  assumes "dump_ok c S n False p" "n < length S" "0 < pendingCollSize c"
  shows "dump_ok c S n True (plug_started (S ! n) p)"
proof -
  obtain d where d: "p = CommDump c d" "int (length (newPendingColls d)) \<le> pendingCollSize c" "dump_abs d = (kept (pastCollSize c) (take n S), None, drop n S)"
    using assms(1) by (auto simp: dump_ok_def)
  show ?thesis using started_abs [OF assms(3) d(2), of _ "S ! n"] d(3) assms(2,3)
    by (simp add: dump_ok_def plug_started_def d(1) Cons_nth_drop_Suc [symmetric])
qed

lemma dump_ok_ended:
  assumes "dump_ok c S n True p" "n < length S" "0 < pendingCollSize c" "plug_ended (S ! n) p = Some q" "pastCollSize c \<noteq> 0"
  shows "dump_ok c S (Suc n) False q"
proof -
  obtain d where d: "p = CommDump c d" "int (length (newPendingColls d)) \<le> pendingCollSize c"
      "dump_abs d = (kept (pastCollSize c) (take n S), Some (S ! n), drop (Suc n) S)"
    using assms(1) by (auto simp: dump_ok_def)
  obtain r d' where d': "dump_ended c (S ! n) d = Some (r, d')" "dump_abs d' = (kept (pastCollSize c) (take n S @ [S ! n]), None, drop (Suc n) S)"
      "newPendingColls d' = []"
    using ended_abs [OF assms(3) d(2) assms(5) d(3)] by blast
  have "q = CommDump c d'" using assms(4) d'(1) by (simp add: plug_ended_def d(1))
  then show ?thesis using d' assms(2,3) by (simp add: dump_ok_def take_Suc_conv_app_nth)
qed

lemma thread_clean:
  assumes v: "trace_inv st" and k: "clean_inv i c S n st" and h: "thread_step qs err now st = Some st'" and g: "\<not> gave_up st st'"
    and c: "0 < pendingCollSize c" "pastCollSize c \<noteq> 0"
  shows "clean_inv i c S (n + ended_now st) st'"
proof -
  have V: "\<not> shouldStop st" "distinct (live_events st)" using v shape_invD(1) unfolding trace_inv_def by blast+
  have Q: "queue_ids st = map Some (drop n S)" and il: "i < length (plugins st)" and D: "dump_ok c S n (running (phase st)) (plugins st ! i)"
    using k by (simp_all add: clean_inv_def)
  show ?thesis
  proof (cases "phase st")
    case Head
    then have "st' = st\<lparr>phase := Reading\<rparr>" using h V by (simp add: thread_step_def)
    then have "clean_inv i c S n st'" by (intro clean_inv_same [OF k]) (simp_all add: Head queue_ids_def event_ids_def [abs_def])
    then show ?thesis by (simp add: ended_now_def Head)
  next
    case Reading
    have "clean_inv i c S n st'"
    proof (cases "pendingTrace st")
      case Nil
      then show ?thesis using k h V Reading by (simp add: thread_step_def)
    next
      case (Cons a as)
      then have "\<exists>t. st' = st\<lparr>pendingTrace := as, phase := WaitStart a, timings := t\<rparr>"
        using h V Reading unfolding thread_step_def by (cases "heap st a") (simp_all, blast)
      then obtain t where "st' = st\<lparr>pendingTrace := as, phase := WaitStart a, timings := t\<rparr>" by blast
      then show ?thesis by (intro clean_inv_same [OF k]) (simp_all add: Reading Cons queue_ids_def event_ids_def [abs_def])
    qed
    then show ?thesis by (simp add: ended_now_def Reading)
  next
    case (WaitStart a)
    have "clean_inv i c S n st'"
      by (rule wait_clean [OF k, of "waitCollStart qs" "GotStart a" err now a])
        (use h g WaitStart V in \<open>simp_all add: thread_step_def gave_up_def\<close>)
    then show ?thesis by (simp add: ended_now_def WaitStart)
  next
    case (GotStart a)
    have q: "n < length S" "event_ids st a = Some (S ! n)" using queue_cur [OF Q, of a] GotStart by simp_all
    obtain t where "st' = st\<lparr>timings := t, plugins := map (plug_started (S ! n)) (plugins st), phase := WaitEnd a\<rparr>"
      using h V GotStart q(2) by (auto simp: thread_step_def event_ids_def split: option.splits)
    then have "clean_inv i c S n st'"
      by (intro clean_inv_same [OF k]) (use il q(1) c in \<open>simp_all add: GotStart queue_ids_def event_ids_def [abs_def] dump_ok_started\<close>)
    then show ?thesis by (simp add: ended_now_def GotStart)
  next
    case (WaitEnd a)
    have "clean_inv i c S n st'"
      by (rule wait_clean [OF k, of "waitCollEnd qs" "GotEnd a" err now a])
        (use h g WaitEnd V in \<open>simp_all add: thread_step_def gave_up_def\<close>)
    then show ?thesis by (simp add: ended_now_def WaitEnd)
  next
    case (GotEnd a)
    have q: "n < length S" "event_ids st a = Some (S ! n)" "map (event_ids st) (pendingTrace st) = map Some (drop (Suc n) S)"
      using queue_cur [OF Q, of a] GotEnd by simp_all
    obtain ps t where ps: "those (map (plug_ended (S ! n)) (plugins st)) = Some ps"
      "st' = finish_event a Head (st\<lparr>timings := t, lastCollEnd := Some now, plugins := ps\<rparr>)"
      using h V GotEnd q(2) by (auto simp: thread_step_def triggerPlugins_def event_ids_def split: option.splits)
    note N = those_nth [OF ps(1)]
    have s: "plugins st' = ps" "phase st' = Head" "pendingTrace st' = pendingTrace st" "pendingEnqueue st' = pendingEnqueue st" "nextCollId st' = nextCollId st"
      by (simp_all add: ps(2) finish_event_def)
    have i: "event_ids st' b = event_ids st b" if "b \<noteq> a" for b using that by (simp add: ps(2) finish_event_def event_ids_def)
    have "a \<notin> set (pendingTrace st)" "a \<notin> set (pending_of (pendingEnqueue st))" using V(2) by (auto simp: live_events_def GotEnd)
    then have m: "map (event_ids st') (pendingTrace st) = map (event_ids st) (pendingTrace st)"
        "map (event_ids st') (pending_of (pendingEnqueue st)) = map (event_ids st) (pending_of (pendingEnqueue st))"
      using i by (metis map_cong)+
    have "plug_ended (S ! n) (plugins st ! i) = Some (ps ! i)" "length ps = length (plugins st)" using N il by simp_all
    then have "dump_ok c S (Suc n) False (ps ! i)" using dump_ok_ended [OF _ q(1) c(1) _ c(2)] D GotEnd by simp
    then show ?thesis using k m q s N by (simp add: clean_inv_def queue_ids_def ended_now_def GotEnd del: map_eq_conv)
  next
    case Exited
    then show ?thesis using v by (simp add: trace_inv_def)
  qed
qed

lemma dump_clean:
  assumes k: "clean_inv i c S n st" and j: "j < length (plugins st)" "plugins st ! j = CommDump c' d" "dump_copy c' wl rl d = Some (r, d', out)"
  shows "clean_inv i c S n (st\<lparr>plugins := (plugins st)[j := CommDump c' d']\<rparr>)"
proof -
  note C = copy_abs [OF j(3)]
  have "dump_ok c S n b (CommDump c' d')" if "dump_ok c S n b (CommDump c' d)" for b using that C by (auto simp: dump_ok_def)
  then show ?thesis using j(1,2)
    by (intro clean_inv_same [OF k]) (auto simp: queue_ids_def event_ids_def [abs_def] nth_list_update split: if_splits)
qed

lemma clean_run_inv:
  assumes "clean_run ps i c S n st" "0 < pendingCollSize c" "pastCollSize c \<noteq> 0"
  shows "clean_inv i c S n st"
  using assms(1)
proof (induction rule: clean_run.induct)
  case (new m)
  then show ?case using new_clean assms(2) by blast
next
  case (recording S n st a meta w r h st')
  have "trace_inv st" using trace_run_inv [OF clean_is_run [OF recording.hyps(1)]] by blast
  then show ?case using record_clean recording by blast
next
  case (schedule S n st ok now h st' d)
  have "trace_inv st" using trace_run_inv [OF clean_is_run [OF schedule.hyps(1)]] by blast
  then show ?case using schedule_clean schedule by blast
next
  case (trigger S n st ok now h s r st')
  then show ?case using trigger_clean by blast
next
  case (thread S n st qs err now st')
  have "trace_inv st" using trace_run_inv [OF clean_is_run [OF thread.hyps(1)]] by blast
  then show ?case using thread_clean [OF _ thread.IH thread.hyps(2,3) assms(2,3)] by blast
next
  case (dump S n st j c' d wl rl r d' out)
  then show ?case using dump_clean by blast
qed

section \<open>The dump is faithful\<close>

text \<open>C40: As long as no queue is full, no wait fails and the driver records the end events, the dump refines the list of scheduled
  collectives. In every state of the tracer, between any two of its steps and those of the users, a dump that gets its locks shows the last \<open>pastCollSize\<close> of the collectives that have ended, in their order (all of them if
  it is negative), the next one as the current one, and all others as pending, in the order of their ids.\<close>

theorem dump_faithful:
  assumes "clean_run ps i c S n st" "0 < pendingCollSize c" "pastCollSize c \<noteq> 0"
  shows "sorted_wrt (<) S \<and> n \<le> length S \<and> (\<exists>d d'. plugins st ! i = CommDump c d \<and> dump_copy c True True d =
    Some (commSuccess, d', case drop n S of [] \<Rightarrow> (kept (pastCollSize c) S, None, []) | e # R \<Rightarrow> (kept (pastCollSize c) (take n S), Some e, R)))"
proof -
  have k: "clean_inv i c S n st" by (rule clean_run_inv [OF assms])
  then have s: "sorted_wrt (<) S" "n \<le> length S" "queue_ids st = map Some (drop n S)" by (auto simp: clean_inv_def ids_ok_def sorted_wrt_append)
  obtain d where d: "plugins st ! i = CommDump c d" "int (length (newPendingColls d)) \<le> pendingCollSize c"
      "dump_abs d = (kept (pastCollSize c) (take n S), if running (phase st) then Some (S ! n) else None, drop (if running (phase st) then Suc n else n) S)"
    using k by (auto simp: clean_inv_def dump_ok_def)
  have r: "drop n S = S ! n # drop (Suc n) S" if "running (phase st)"
    using that queue_cur(1) [OF s(3)] Cons_nth_drop_Suc [of n S] by (cases "phase st") simp_all
  obtain d' where d': "dump_copy c True True d = Some (commSuccess, d',
      case (if running (phase st) then Some (S ! n) else None, drop (if running (phase st) then Suc n else n) S) of
        (None, p # ps) \<Rightarrow> (kept (pastCollSize c) (take n S), Some p, ps)
      | _ \<Rightarrow> (kept (pastCollSize c) (take n S), if running (phase st) then Some (S ! n) else None, drop (if running (phase st) then Suc n else n) S))"
    using copy_shows [OF assms(2) d(2,3)] by blast
  have "dump_copy c True True d =
      Some (commSuccess, d', case drop n S of [] \<Rightarrow> (kept (pastCollSize c) S, None, []) | e # R \<Rightarrow> (kept (pastCollSize c) (take n S), Some e, R))"
    unfolding d' using r s(2) by (cases "running (phase st)"; cases "drop n S") auto
  then show ?thesis using s(1,2) d(1) by blast
qed

section \<open>Examples\<close>

text \<open>Runs that are written as lists of steps; the dump is the first plugin.\<close>

datatype ex_op = Rec nat wait_event | Trig nat trigger_state | Thr "cuda_res list"

definition op_step :: "ex_op \<Rightarrow> trace \<Rightarrow> trace option" where
  "op_step op st =
     (case op of
        Rec a w \<Rightarrow> if heap st a = None then Some (snd (snd (recordCollective a True (Some w) st))) else None
      | Trig h s \<Rightarrow> map_option snd (trigger True 1 h s st)
      | Thr qs \<Rightarrow> thread_step qs False 2 st)"

fun op_steps :: "ex_op list \<Rightarrow> trace \<Rightarrow> trace option" where
  "op_steps [] st = Some st"
| "op_steps (op # ops) st = (case op_step op st of None \<Rightarrow> None | Some st' \<Rightarrow> op_steps ops st')"

lemma op_step_sound: "op_step op st = Some st' \<Longrightarrow> trace_step st st'"
proof (cases op)
  case (Rec a w)
  assume "op_step op st = Some st'"
  then show ?thesis using Rec trace_step.recording [of st a True "Some w"]
    by (cases "recordCollective a True (Some w) st") (auto simp: op_step_def split: if_splits)
next
  case (Trig h s)
  assume "op_step op st = Some st'"
  then show ?thesis using Trig trace_step.trigger by (auto simp: op_step_def)
next
  case (Thr qs)
  assume "op_step op st = Some st'"
  then show ?thesis using Thr trace_step.thread by (auto simp: op_step_def)
qed

lemma op_steps_sound: "op_steps ops st = Some st' \<Longrightarrow> trace_step\<^sup>*\<^sup>* st st'"
proof (induction ops arbitrary: st)
  case (Cons op ops)
  then obtain st1 where "op_step op st = Some st1" "op_steps ops st1 = Some st'" by (auto split: option.splits)
  then show ?case using op_step_sound Cons.IH by (metis converse_rtranclp_into_rtranclp)
qed simp

definition clean_op :: "dump_cfg \<Rightarrow> ex_op \<Rightarrow> nat list \<Rightarrow> nat \<Rightarrow> trace \<Rightarrow> (nat list \<times> nat) option" where
  "clean_op c op S n st =
     (case op of
        Rec a w \<Rightarrow> Some (S, n)
      | Trig h s \<Rightarrow>
          if s \<noteq> AfterEnqueueKernel then Some (S, n)
          else (case (trigger True 1 h s st, plugins st) of
              (Some (r, st'), CommDump c' d # ps) \<Rightarrow>
                if r = commSuccess \<and> c' = c \<and> int (length (newPendingColls d)) < pendingCollSize c then Some (S @ [h], n) else None
            | _ \<Rightarrow> None)
      | Thr qs \<Rightarrow> (case thread_step qs False 2 st of None \<Rightarrow> None | Some st' \<Rightarrow> if gave_up st st' then None else Some (S, n + ended_now st)))"

fun clean_ops :: "dump_cfg \<Rightarrow> ex_op list \<Rightarrow> nat list \<Rightarrow> nat \<Rightarrow> trace \<Rightarrow> (nat list \<times> nat) option" where
  "clean_ops c [] S n st = Some (S, n)"
| "clean_ops c (op # ops) S n st =
     (case (op_step op st, clean_op c op S n st) of (Some st', Some (S', n')) \<Rightarrow> clean_ops c ops S' n' st' | _ \<Rightarrow> None)"

lemma clean_op_sound:
  assumes r: "clean_run ps 0 c S n st" and o: "op_step op st = Some st'" "clean_op c op S n st = Some (S', n')"
  shows "clean_run ps 0 c S' n' st'"
proof (cases op)
  case (Rec a w)
  then show ?thesis using o clean_run.recording [OF r, of a True "Some w"]
    by (cases "recordCollective a True (Some w) st") (auto simp: op_step_def clean_op_def split: if_splits)
next
  case (Trig h s)
  obtain r' where t: "trigger True 1 h s st = Some (r', st')" using Trig o(1) by (auto simp: op_step_def)
  show ?thesis
  proof (cases "s = AfterEnqueueKernel")
    case True
    obtain d qs where "plugins st = CommDump c d # qs" "r' = commSuccess" "int (length (newPendingColls d)) < pendingCollSize c" "S' = S @ [h]" "n' = n"
      using o(2) Trig True t by (auto simp: clean_op_def split: list.splits plugin.splits if_splits)
    then show ?thesis using clean_run.schedule [OF r] t True by simp
  next
    case False
    then show ?thesis using o(2) Trig clean_run.trigger [OF r t False] by (simp add: clean_op_def)
  qed
next
  case (Thr qs)
  then show ?thesis using o clean_run.thread [OF r, of qs False 2 st'] by (auto simp: op_step_def clean_op_def split: if_splits)
qed

lemma clean_ops_sound:
  assumes "clean_ops c ops S n st = Some (S', n')" "clean_run ps 0 c S n st"
  shows "\<exists>st'. op_steps ops st = Some st' \<and> clean_run ps 0 c S' n' st'"
  using assms
proof (induction ops arbitrary: S n st)
  case (Cons op ops)
  then obtain st1 S1 n1 where "op_step op st = Some st1" "clean_op c op S n st = Some (S1, n1)" "clean_ops c ops S1 n1 st1 = Some (S', n')"
    by (auto split: option.splits)
  then show ?case using Cons clean_op_sound by (metis op_steps.simps(2) option.simps(5))
qed simp

definition ex_cfg :: dump_cfg where "ex_cfg = \<lparr>pastCollSize = 2, pendingCollSize = 4\<rparr>"

text \<open>A collective at the address \<open>a\<close> with the handle \<open>h\<close>, from its record to its enqueue; the thread then reads it.\<close>

definition ex_launch :: "nat \<Rightarrow> nat \<Rightarrow> ex_op list" where
  "ex_launch a h = [Rec a (CudaWait unrecorded unrecorded), Trig h BeforeEnqueueKernel, Trig h AfterEnqueueKernel]"

definition ex_run :: "ex_op list" where
  "ex_run = [Thr [], Thr [QSuccess], Thr [], Thr [QNotReady, QSuccess], Thr []]"

lemma ex_start: "clean_run ex_plugins 0 ex_cfg [] 0 (trace_new 1 ex_plugins)"
  by (rule clean_run.new) (simp_all add: ex_plugins_def ex_cfg_def)

theorem dump_faithful_witness:
  "\<exists>st d d'. op_steps (ex_launch 7 0 @ Thr [] # ex_run @ ex_launch 7 1) (trace_new 1 ex_plugins) = Some st \<and>
     plugins st ! 0 = CommDump ex_cfg d \<and> dump_copy ex_cfg True True d = Some (commSuccess, d', ([0], Some 1, []))"
proof -
  have "clean_ops ex_cfg (ex_launch 7 0 @ Thr [] # ex_run @ ex_launch 7 1) [] 0 (trace_new 1 ex_plugins) = Some ([0, 1], 1)" by code_simp
  then obtain st where st: "op_steps (ex_launch 7 0 @ Thr [] # ex_run @ ex_launch 7 1) (trace_new 1 ex_plugins) = Some st"
      "clean_run ex_plugins 0 ex_cfg [0, 1] 1 st"
    using clean_ops_sound ex_start by blast
  show ?thesis using st(1) dump_faithful [OF st(2)] by (auto simp: ex_cfg_def kept_def)
qed

section \<open>A lost event freezes the dump\<close>

lemma gave_up_effect:
  assumes v: "trace_inv st" and k: "clean_inv i c S n st" and h: "thread_step qs err now st = Some st'" and g: "gave_up st st'"
  shows "stuck_at (S ! n) i st' \<and> (\<exists>d. plugins st' ! i = CommDump c d \<and> pastColls d = kept (pastCollSize c) (take n S) \<and>
    currentColl d = (if running (phase st) then Some (S ! n) else None))"
proof -
  have V: "\<not> shouldStop st" using v by (simp add: trace_inv_def)
  have Q: "queue_ids st = map Some (drop n S)" using k by (simp add: clean_inv_def)
  obtain a wait got where a: "cur_of (phase st) = [a]" "wait_round wait got err now a st = Some st'" "phase st' = Head" "got \<noteq> Head"
    using h g by (cases "phase st") (auto simp: gave_up_def thread_step_def)
  have q: "n < length S" "event_ids st a = Some (S ! n)" using queue_cur [OF Q a(1)] by blast+
  obtain x r b w where x: "heap st a = Some x" "wait (ev_wait x) = (r, b, w)" using q(2) by (cases "heap st a") (auto simp: event_ids_def, metis prod_cases3)
  let ?st1 = "st\<lparr>heap := (heap st)(a \<mapsto> x\<lparr>ev_wait := w\<rparr>), plugins := map (plug_progressing err now a (ev_id x)) (plugins st)\<rparr>"
  have "phase st \<noteq> Head" using a(1) by auto
  then have s: "st' = finish_event a Head ?st1" using a(2-4) V x by (auto simp: wait_round_def Let_def split: if_splits)
  have i: "event_ids st' b = (if b = a then None else event_ids st b)" for b by (simp add: s finish_event_def event_ids_def)
  have sh: "shape_inv (event_ids st) (handleMap st) (valids st) (nextCollId st) (live_events st)" using v by (simp add: trace_inv_def)
  have "b = a" if "event_ids st b = Some (S ! n)" for b using shape_invD(4) [OF sh that] shape_invD(4) [OF sh q(2)] by simp
  moreover have "S ! n < nextCollId st" using k q(1) by (auto simp: clean_inv_def ids_ok_def)
  moreover have "nextCollId st' = nextCollId st" by (simp add: s finish_event_def)
  ultimately have d: "dead (S ! n) st'" using i unfolding dead_def by (metis option.distinct(1))
  have "dump_ok c S n (running (phase st)) (plugins st' ! i)" "i < length (plugins st')"
    using k by (simp_all add: s clean_inv_def)
  then show ?thesis using d q(1) Cons_nth_drop_Suc [OF q(1), symmetric]
    by (auto simp: stuck_at_def dump_ok_def stuck_with_def dump_abs_def split: if_splits)
qed

text \<open>If the wait for one collective fails, the dump stands still for ever. After a run without losses in which the first \<open>n\<close> collectives
  have ended, a failed wait for the start or the end of the next one makes every later dump show those \<open>n\<close> as the past ones and no
  other current one than the lost one, whatever collectives are recorded, scheduled and ended afterwards.\<close>

lemma dump_stuck:
  assumes "clean_run ps i c S n st" "0 < pendingCollSize c" "pastCollSize c \<noteq> 0"
    and "thread_step qs err now st = Some st1" "gave_up st st1" "trace_step\<^sup>*\<^sup>* st1 st2"
  shows "\<exists>d. plugins st2 ! i = CommDump c d \<and> pastColls d = kept (pastCollSize c) (take n S) \<and>
    currentColl d = (if running (phase st) then Some (S ! n) else None)"
proof -
  have "trace_inv st" using trace_run_inv [OF clean_is_run [OF assms(1)]] by blast
  then obtain d where d: "stuck_at (S ! n) i st1" "plugins st1 ! i = CommDump c d" "pastColls d = kept (pastCollSize c) (take n S)"
      "currentColl d = (if running (phase st) then Some (S ! n) else None)"
    using gave_up_effect [OF _ clean_run_inv [OF assms(1-3)] assms(4,5)] by blast
  then show ?thesis using stuck_forever [OF assms(6) d(1,2)] by (auto simp: same_shown_def)
qed

lemma dump_stuck_example:
  "\<exists>st1 st2 d. op_steps (ex_launch 7 0 @ [Thr [], Thr [], Thr [QError, QError]]) (trace_new 1 ex_plugins) = Some st1 \<and>
     op_steps (ex_launch 8 1 @ Thr [] # ex_run @ ex_launch 8 2 @ Thr [] # ex_run) st1 = Some st2 \<and>
     plugins st2 ! 0 = CommDump ex_cfg d \<and> pastColls d = [] \<and> currentColl d = None"
proof -
  let ?A = "ex_launch 7 0 @ [Thr [], Thr []]" and ?B = "ex_launch 8 1 @ Thr [] # ex_run @ ex_launch 8 2 @ Thr [] # ex_run" and ?t = "trace_new 1 ex_plugins"
  have "clean_ops ex_cfg ?A [] 0 ?t = Some ([0], 0)" by code_simp
  then obtain st where st: "op_steps ?A ?t = Some st" "clean_run ex_plugins 0 ex_cfg [0] 0 st" using clean_ops_sound ex_start by blast
  have "case op_steps ?A ?t of None \<Rightarrow> False | Some s \<Rightarrow> phase s = WaitStart 7 \<and> (case thread_step [QError, QError] False 2 s of None \<Rightarrow> False
      | Some s1 \<Rightarrow> gave_up s s1 \<and> \<not> Option.is_none (op_steps ?B s1))" by code_simp
  then obtain st1 st2 where s: "phase st = WaitStart 7" "thread_step [QError, QError] False 2 st = Some st1" "gave_up st st1" "op_steps ?B st1 = Some st2"
    using st(1) by (auto simp: Option.is_none_def split: option.splits)
  have "0 < pendingCollSize ex_cfg" "pastCollSize ex_cfg \<noteq> 0" by (simp_all add: ex_cfg_def)
  from dump_stuck [OF st(2) this s(2,3) op_steps_sound [OF s(4)]]
  obtain d where d: "plugins st2 ! 0 = CommDump ex_cfg d" "pastColls d = []" "currentColl d = None" using s(1) by (auto simp: kept_def ex_cfg_def)
  have app: "op_steps (xs @ ys) s = (case op_steps xs s of None \<Rightarrow> None | Some s' \<Rightarrow> op_steps ys s')" for xs ys s
    by (induction xs arbitrary: s) (simp_all split: option.split)
  have "op_steps (?A @ [Thr [QError, QError]]) ?t = Some st1" using st(1) s(2) by (subst app) (simp add: op_step_def)
  then show ?thesis using s(4) d by auto
qed

section \<open>The watchdog\<close>

text \<open>Two collectives whose events live at the same address, one after the other, with a timeout of 100.\<close>

definition wd_plugins :: "plugin list" where
  "wd_plugins = [Watchdog \<lparr>checkAsyncError = False, checkTimeout = True, wd_timeout = 100\<rparr> (wd_new 0)]"

definition wd_thread :: "nat \<Rightarrow> trace \<Rightarrow> trace" where "wd_thread t st = the (thread_step [QSuccess] False t st)"

definition wd_launch :: "nat \<Rightarrow> nat \<Rightarrow> trace \<Rightarrow> trace" where
  "wd_launch t h st = ex_trigger t h AfterEnqueueKernel (ex_trigger t h BeforeEnqueueKernel
     (snd (snd (recordCollective 7 True (Some (CudaWait unrecorded unrecorded)) st))))"

definition wd_first :: trace where
  "wd_first = wd_thread 4 (wd_thread 4 (wd_thread 4 (wd_thread 4 (wd_thread 3 (wd_thread 3 (wd_launch 2 0 (trace_new 1 wd_plugins)))))))"

definition wd_second :: trace where
  "wd_second = wd_thread 501 (wd_thread 500 (wd_thread 500 (wd_launch 500 1 wd_first)))"

text \<open>The watchdog knows an event by its address only. A collective that starts at the address of a destroyed one is taken for the old
  one in its first round: it is reported as timed out although it was just scheduled.\<close>

lemma watchdog_false_alarm:
  "phase wd_first = Head \<and> collEndTs (timings wd_first 0) = 4 \<and> collEnqueueTs (timings wd_second 1) = 500 \<and>
   (case plugins wd_second of [Watchdog c w] \<Rightarrow> wd_timeout c = 100 \<and> alarms w = [(501, Timeout 1)] | _ \<Rightarrow> False)"
  by code_simp

end
