(* ===== verification/Spec2Isabelle.thy ===== *)
theory Spec2Isabelle
  imports Addr_Cache Mem_Cache Slab_Allocator Topology Comm_State Ring_Builder Work_Queue Torch_Comm Virtual_Cq
    AllGather_RecDbl AllGather_Brucks AllGather_Ring Broadcast_Tree Reg_Cache Ib_Vc_Recv Ib_Order Ib_Progress Coll_Clean
begin

text \<open>
  This development models parts of torchcomms: the PyTorch communication library (\<^verbatim>\<open>comms/torchcomms\<close>), the transport
  library Ctran below it (\<^verbatim>\<open>comms/ctran\<close>), and utilities. Paths below are relative to \<^verbatim>\<open>src\<close>.

  \<^bold>\<open>How the program is put together.\<close> A user calls a communicator (\<^verbatim>\<open>TorchCommNCCL\<close>), which starts a collective on a
  stream, returns a work object and keeps it in a queue that a watchdog thread looks through. With Ctran, a collective
  is an algorithm over the mapper: it registers buffers, exchanges their handles with other ranks, puts data into remote
  buffers and waits for notifications. The mapper finds registrations by address range, the communicator state says which ranks share
  a node, temporary buffers come from a pool shared between communicators, and InfiniBand traffic is spread over several
  queue pairs.

  \<^bold>\<open>Theories.\<close> \<open>Prelude\<close> holds shared lemmas and the machine integers.

  \<^item> \<open>Addr_Tree\<close> and \<open>Addr_Cache\<close>: the cache of address ranges, \<^verbatim>\<open>comms/ctran/utils/CtranAvlTree*\<close>: a balanced tree of
    disjoint ranges plus a list of ranges that overlap the tree. The locale \<open>range_index\<close> is the interface to its clients.
    Lemmas: what insertion, removal, search and lookup do; the tree stays balanced under insertions; where removal is undefined.
  \<^item> \<open>Reg_Cache\<close>: the registration cache of the mapper on top of that index, \<^verbatim>\<open>comms/ctran/mapper/CtranMapperRegMem.*\<close>.
    Lemmas: what pinning a buffer finds; the invariant of segments and registrations; what a search for a handle returns; what
    freeing a segment takes out and how it comes back deregistered, and where it is undefined.
  \<^item> \<open>Slab_Allocator\<close> and \<open>Mem_Cache\<close>: \<^verbatim>\<open>comms/ctran/memory\<close>: blocks cut from slabs, and the pool of regions that
    communicators share by key. Lemmas: blocks are disjoint; two keys do not hold the same memory; when they can.
  \<^item> \<open>Topology\<close>, \<open>Comm_State\<close>, \<open>Ring_Builder\<close>: \<^verbatim>\<open>comms/ctran/commstate\<close> and \<^verbatim>\<open>algos/topo\<close>: the host's topology file, the
    node structure of a communicator, rings over the ranks. Lemmas: round trip of the file; the node functions agree with each other
    under the layout that the code assumes, and exactly then; the rings are permutations with few links between nodes.
  \<^item> \<open>Work_Queue\<close> and \<open>Torch_Comm\<close>: \<^verbatim>\<open>comms/torchcomms/nccl\<close>: the state machine of a work, the queue by stream, the life of
    the communicator with its watchdog, the event pool, the parsing of ranks from the environment.
  \<^item> \<open>Dqplb\<close>, \<open>Virtual_Qp\<close>, \<open>Virtual_Cq\<close>: \<^verbatim>\<open>comms/ctran/ibverbx/Ibverbx.h\<close>: numbering of fragments in immediate
    values, the queue pair that spreads messages over physical ones, the completion queue that puts their completions together.
    Lemmas: notifications are counted in order for any order of arrival; the posted fragments are a beginning of the messages in order, and all of them when nothing is pending; limits.
  \<^item> \<open>Ib_Vc\<close>: the data path of a connection between two ranks over InfiniBand, \<^verbatim>\<open>comms/ctran/backends/ib/CtranIbVc.*\<close>: puts and
    gets in pieces on several queue pairs, fast operations, atomics, notifications, completions, the configuration.
    \<open>Ib_Vc_Inv\<close>: the invariant between the queues of the connection and what is in flight, and that a completion keeps it;
    \<open>Ib_Vc_Calls\<close>: that the calls keep it; \<open>Ib_Vc_Acct\<close>: how often each request is completed; \<open>Ib_Vc_Run\<close>: any sequence of calls, completions and arrivals: nothing aborts, the
    pieces cover the messages, limits, when a connection drains and when it gets stuck; \<open>Ib_Vc_Recv\<close>: the other end counts the
    notifications in order, unless a fast put overtakes an earlier message.
  \<^item> \<open>Ib_Ctrl\<close>: the control messages of such a connection: packets, matching of messages and receives in order.
  \<^item> \<open>Ib_Local\<close>: the local flush, \<^verbatim>\<open>CtranIbLocalVc.*\<close>: it is right for one device, and with several it is not.
  \<^item> \<open>Ib_Backend\<close>: the backend of a rank, \<^verbatim>\<open>comms/ctran/backends/ib/CtranIb.*\<close>: epoch lock, connecting, operations that wait
    for a connection, all calls, polling of completions, export and import of registrations, settings, choice of ports.
    \<open>Ib_Order\<close>: the control messages keep their order over the whole life of a connection, on top of \<open>Ib_Ctrl\<close>; where the order is lost.
    \<open>Ib_Progress\<close>: every completion polled reaches the queue pair of its connection and is processed, on top of \<open>Ib_Vc_Run\<close>.
  \<^item> \<open>Ctran_Net\<close>: what an algorithm uses of the mapper, as calls in a network of ranks: a put arrives at any time after it was
    issued and in any order; the mode of a connection says what its notification tells of the puts before it (all of them in spray
    mode, none in dqplb mode); elements are puts and waits by the kernel over NVLink. The locale \<open>timed_net\<close> has the argument common to
    the algorithms: if every call can be given a time such that what it waits for has an earlier one, a rank only
    puts bytes it knows, and puts that do not notify go over connections in spray mode, then no run gets stuck, all runs end, and the
    data is everywhere.
  \<^item> \<open>AllGather_RecDbl\<close>, \<open>AllGather_Brucks\<close>, \<open>Broadcast_Tree\<close>: \<^verbatim>\<open>comms/ctran/algos\<close>: the lists of mapper calls of
    three algorithms, each an interpretation of \<open>timed_net\<close>; where the default mode loses a block of an all-gather; the kernel elements
    planned for the broadcast, and when it hangs for want of one.
  \<^item> \<open>AllGather_Ring\<close>: the ring algorithm, whose calls depend on the order in which notifications are found: its event
    loop is a transition system of its own.
  \<^item> \<open>Coll_Plugins\<close>, \<open>Coll_Trace\<close>: the tracer of collectives, \<^verbatim>\<open>comms/utils/colltrace\<close>: the dump and the watchdog, the
    handles, the enqueuing thread, the tracer's thread and the destructor, over a heap of events whose addresses are used again.
    \<open>Coll_Run\<close>: a valid handle has its own event until the destructor runs; \<open>Coll_Dump\<close>, \<open>Coll_Clean\<close>: the dump shows the
    scheduled collectives while no event is lost, and stands still after one was; a false alarm of the watchdog.

  \<^bold>\<open>Conventions.\<close> A C++ class is a record, its methods are functions on it; a method that may throw, abort or read out of
  bounds returns an option or an error value. Integers are natural numbers or integers where the code cannot overflow and
  words or explicit moduli where it can. Code outside the repository (verbs, CUDA, NCCL, stores, the clock) is an argument of
  the definitions that use it. Loops are structural or well-founded recursions; a loop that may not end is a
  \<^verbatim>\<open>partial_function\<close>, and then it is proved when it returns. The network models have no bound: the number of steps of a run is
  bounded by a measure of the remaining calls and puts.

  \<^bold>\<open>Not modelled.\<close> GPU kernels (the device's memory model is not in the source), the transports themselves (verbs,
  sockets, CUDA IPC), the vendored NCCL, generated configuration, logging, profiling and the tracing of algorithm steps, and the
  Python bindings. The mapper is modelled only by the effect of the calls the algorithms make. Other algorithms are of the
  modelled kinds and not done yet.
\<close>

end
